(* ===== verification/Prelude.thy ===== *)
theory Prelude
  imports Main "HOL-Library.Word"
begin

text \<open>
  Shared vocabulary of the development: the machine types of the 32-bit ARM target this
  repository builds for (a C \<open>long\<close>, \<open>int\<close> and pointer have 32 bits, a \<open>LONG_LONG\<close> has 64;
  see \<open>lib/ruby/.ext/include/arm-linux/ruby/config.h\<close>), the errors that the modelled code
  raises, and the arithmetic lemmas on machine words that every component uses.
\<close>

unbundle bit_operations_syntax

section \<open>Machine types\<close>

type_synonym u8 = "8 word"
type_synonym u32 = "32 word"
type_synonym u64 = "64 word"

section \<open>Errors\<close>

text \<open>The Ruby exceptions that the modelled functions raise with \<open>rb_raise\<close> and its kin.\<close>

datatype rb_error =
    ZeroDivError
  | RangeError
  | ArgError
  | TypeError
  | RuntimeError
  | NoMemError
  | SecurityError
  | FatalBug
  | IndexError

section \<open>Facts about words\<close>

named_theorems word_eval
  \<comment> \<open>how the unsigned or signed value of a word operation of the code is computed\<close>

lemma uint_add_nowrap:
  "uint (a :: 'a :: len word) + uint b < 2 ^ LENGTH('a) \<Longrightarrow> uint (a + b) = uint a + uint b"
  by (simp add: uint_word_ariths)

lemma uint_mult_nowrap:
  "uint (a :: 'a :: len word) * uint b < 2 ^ LENGTH('a) \<Longrightarrow> uint (a * b) = uint a * uint b"
  by (simp add: uint_word_ariths)

lemma uint_minus_nowrap:
  "uint (b :: 'a :: len word) \<le> uint a \<Longrightarrow> uint (a - b) = uint a - uint b"
  using uint_lt2p [of a] by (simp add: uint_word_ariths)

lemma uint_ucast_u32_u64 [word_eval, simp]: "uint (ucast (x :: u32) :: u64) = uint x"
  by (rule uint_up_ucast) (simp add: is_up_def source_size_def target_size_def word_size)

lemma uint_ucast_u64_u32 [word_eval]: "uint (ucast (x :: u64) :: u32) = uint x mod 2 ^ 32"
  by (simp add: unsigned_ucast_eq take_bit_eq_mod)

lemma ucast_u32_u64_u32 [simp]: "ucast (ucast (x :: u32) :: u64) = x"
  using uint_lt2p [of x] by (simp add: word_uint_eq_iff uint_ucast_u64_u32)

lemma uint_drop_bit: "uint (drop_bit n (w :: 'a :: len word)) = uint w div 2 ^ n"
  by (simp only: unsigned_drop_bit_eq) (simp add: drop_bit_eq_div take_bit_int_eq_self)

lemma uint_push_bit: "uint (push_bit n (w :: 'a :: len word)) = uint w * 2 ^ n mod 2 ^ LENGTH('a)"
  by (simp only: push_bit_eq_mult [symmetric] take_bit_eq_mod [symmetric] unsigned_push_bit_eq)

lemma uint_uminus: "uint (- n) = (if n = 0 then 0 else 2 ^ LENGTH('a) - uint (n :: 'a :: len word))"
  using uint_lt2p [of n] by (simp add: uint_word_ariths zmod_zminus1_eq_if uint_0_iff)

lemma uint_gt_negative [simp]:
  "- numeral k \<le> uint (x :: 'a :: len word)" "- numeral k < uint x"
  "- uint x \<le> numeral k" "- uint x < numeral k"
  using uint_ge_0 [of x] neg_numeral_less_zero [of k, where 'a = int] zero_less_numeral [of k, where 'a = int]
  by linarith+

lemma u32_bounds: "0 \<le> uint (x :: u32)" "uint (x :: u32) < 4294967296"
  using uint_lt2p [of x] by simp_all

lemma u64_bounds: "0 \<le> uint (x :: u64)" "uint (x :: u64) < 18446744073709551616"
  using uint_lt2p [of x] by simp_all

lemma sint_u32_bounds: "- 2147483648 \<le> sint (x :: u32)" "sint (x :: u32) < 2147483648"
  using sint_greater_eq [of x] sint_less [of x] by simp_all

lemma sint_u64_bounds:
  "- 9223372036854775808 \<le> sint (x :: u64)" "sint (x :: u64) < 9223372036854775808"
  using sint_greater_eq [of x] sint_less [of x] by simp_all

lemma uint_eq_sint_mod: "uint (x :: 'a :: len word) = sint x mod 2 ^ LENGTH('a)"
  by (metis take_bit_eq_mod uint_sint)

lemma signed_range_mod:
  assumes "- m \<le> s" and "s < (m :: int)"
  shows "s mod (2 * m) = (if 0 \<le> s then s else s + 2 * m)"
proof (cases "0 \<le> s")
  case True
  with assms show ?thesis by simp
next
  case False
  have "s mod (2 * m) = (s + 2 * m) mod (2 * m)" by simp
  also have "\<dots> = s + 2 * m" using False assms by (intro mod_pos_pos_trivial) simp_all
  finally show ?thesis using False by simp
qed

lemma sint_of_uint_u32:
  "sint (x :: u32) = (if uint x < 2 ^ 31 then uint x else uint x - 2 ^ 32)"
  using signed_range_mod [OF sint_u32_bounds [of x]] uint_eq_sint_mod [of x] sint_u32_bounds [of x]
  by (simp split: if_splits)

lemma sint_of_uint_u64:
  "sint (x :: u64) = (if uint x < 2 ^ 63 then uint x else uint x - 2 ^ 64)"
  using signed_range_mod [OF sint_u64_bounds [of x]] uint_eq_sint_mod [of x] sint_u64_bounds [of x]
  by (simp split: if_splits)

lemma sint_ucast_u32_u64 [word_eval, simp]: "sint (ucast (x :: u32) :: u64) = uint x"
  using u32_bounds [of x] by (simp add: sint_of_uint_u64)

lemma sint_add_nowrap_u64:
  assumes "- (2 ^ 63) \<le> sint (a :: u64) + sint b" and "sint a + sint b < 2 ^ 63"
  shows "sint (a + b) = sint a + sint b"
  using assms by (simp add: signed_take_bit_int_eq_self sint_word_ariths)

lemma sint_minus_nowrap_u64:
  assumes "- (2 ^ 63) \<le> sint (a :: u64) - sint b" and "sint a - sint b < 2 ^ 63"
  shows "sint (a - b) = sint a - sint b"
  using assms by (simp add: signed_take_bit_int_eq_self sint_word_ariths)

lemma sint_minus_nowrap_u32:
  assumes "- (2 ^ 31) < sint (a :: u32)"
  shows "sint (- a) = - sint a"
  using assms sint_u32_bounds [of a] by (simp add: signed_take_bit_int_eq_self sint_word_ariths)

lemma sint_uminus_u32: "0 \<le> sint (a :: u32) \<Longrightarrow> sint (- a) = - sint a"
  by (rule sint_minus_nowrap_u32) (rule less_le_trans [of _ 0], simp_all)

lemma uint_u32_neq_0: "(x :: u32) \<noteq> 0 \<longleftrightarrow> 0 < uint x"
  using u32_bounds(1) [of x] by (metis less_le uint_0_iff)

lemma div_borrow:
  assumes "- 4294967296 \<le> n" and "n < 4294967296"
  shows "n div 4294967296 = - 1 \<or> n div 4294967296 = (0 :: int)"
proof (cases "0 \<le> n")
  case True
  with assms show ?thesis by (simp add: div_pos_pos_trivial)
next
  case False
  have "(n + 4294967296) div 4294967296 = 0"
    using False assms by (intro div_pos_pos_trivial) simp_all
  moreover have "(n + 4294967296) div 4294967296 = n div 4294967296 + 1"
    by (rule div_add_self2) simp
  ultimately show ?thesis by linarith
qed

lemma le_div_int:
  assumes "0 < b" and "c * b \<le> (a :: int)"
  shows "c \<le> a div b"
  using zdiv_mono1 [OF assms(2,1)] assms(1) by simp

lemma div_mult_le_int:
  assumes "0 < (b :: int)"
  shows "a div b * b \<le> a"
proof -
  have "a div b * b + a mod b = a" "0 \<le> a mod b" using assms by simp_all
  then show ?thesis by linarith
qed

lemma div_less_int:
  assumes "0 < b" and "a < c * b"
  shows "a div b < (c :: int)"
proof (rule ccontr)
  assume "\<not> ?thesis"
  then have "c * b \<le> a div b * b" using assms(1) by simp
  with div_mult_le_int [OF assms(1), of a] assms(2) show False by linarith
qed

lemma div_mod_int_unique:
  assumes "0 \<le> r" and "r < b" and "a = b * q + (r :: int)"
  shows "a div b = q" and "a mod b = r"
proof -
  have "r div b = 0" using assms by simp
  moreover have "a = r + b * q" using assms by simp
  ultimately show "a div b = q" using assms by simp
  show "a mod b = r" using assms by simp
qed

lemma sint_inj: "sint a = sint b \<Longrightarrow> a = b"
  by (simp add: signed_word_eqI)

lemma take_word_eq_iff: "(x :: 'a :: len word) = y \<longleftrightarrow> uint x = uint y"
  by (simp add: word_uint_eq_iff)

text \<open>Numbers below a power of two, in bits.\<close>

lemma below_exp_bits: "unat (x :: 'a :: len word) < 2 ^ k \<longleftrightarrow> (\<forall>n. bit x n \<longrightarrow> n < k)"
proof
  assume x: "unat x < 2 ^ k"
  show "\<forall>n. bit x n \<longrightarrow> n < k"
  proof (intro allI impI)
    fix n assume b: "bit x n"
    show "n < k"
    proof (rule ccontr)
      assume "\<not> n < k"
      then have "(2 :: nat) ^ k \<le> 2 ^ n" by (intro power_increasing) simp_all
      with x have "unat x < 2 ^ n" by linarith
      then have "unat x div 2 ^ n = 0" by simp
      moreover have "odd (unat x div 2 ^ n)" using b by (simp flip: bit_iff_odd add: bit_unsigned_iff)
      ultimately show False by simp
    qed
  qed
next
  assume b: "\<forall>n. bit x n \<longrightarrow> n < k"
  have "take_bit k x = x" by (rule bit_eqI) (use b in \<open>auto simp: bit_take_bit_iff\<close>)
  then have "unat x = take_bit k (unat x)" by (metis unsigned_take_bit_eq)
  then show "unat x < 2 ^ k" by (metis take_bit_nat_less_exp)
qed

text \<open>Bytes are equal when their eight bits are.\<close>

lemma u8_eqI: "(\<And>n. n \<in> {0, 1, 2, 3, 4, 5, 6, 7} \<Longrightarrow> bit (a :: u8) n = bit b n) \<Longrightarrow> a = b"
proof (rule bit_word_eqI)
  fix n assume h: "\<And>n. n \<in> {0, 1, 2, 3, 4, 5, 6, 7} \<Longrightarrow> bit a n = bit b n" and "n < LENGTH(8)"
  then have "n = 0 \<or> n = 1 \<or> n = 2 \<or> n = 3 \<or> n = 4 \<or> n = 5 \<or> n = 6 \<or> n = 7" unfolding len_num0 by simp linarith
  with h [of n] show "bit a n = bit b n" by blast
qed

end
