(* ===== verification/BigDigits.thy ===== *)
theory BigDigits
  imports Prelude
begin

text \<open>
  The representation of \<open>Bignum\<close> in \<open>lib/ruby/bignum.c\<close>: sign and magnitude, the magnitude an
  array of 32-bit \<open>BDIGIT\<close>s with the least significant first.  The macros \<open>BIGUP\<close>, \<open>BIGDN\<close> and
  \<open>BIGLO\<close> act on the 64-bit \<open>BDIGIT_DBL\<close>.  \<open>bval\<close> is the number an array of digits denotes,
  \<open>big_int\<close> the integer a \<open>Bignum\<close> denotes, and \<open>int_of\<close> the integer of a normalised Ruby integer.
\<close>

section \<open>Digits and double digits\<close>

type_synonym bdigit = u32
type_synonym bdigit_dbl = u64

definition BIGUP :: "bdigit_dbl \<Rightarrow> bdigit_dbl" where
  "BIGUP x = push_bit 32 x"

definition BIGDN :: "bdigit_dbl \<Rightarrow> bdigit_dbl" where
  "BIGDN x = drop_bit 32 x"

text \<open>\<open>BIGDN\<close> on a \<open>BDIGIT_DBL_SIGNED\<close>: \<open>RSHIFT\<close> is an arithmetic shift there.\<close>

definition BIGDNs :: "bdigit_dbl \<Rightarrow> bdigit_dbl" where
  "BIGDNs x = signed_drop_bit 32 x"

definition BIGLO :: "bdigit_dbl \<Rightarrow> bdigit" where
  "BIGLO x = ucast (x AND (2 ^ 32 - 1))"

lemma uint_BIGLO [word_eval]: "uint (BIGLO x) = uint x mod 2 ^ 32"
proof -
  have "x AND (2 ^ 32 - 1) = take_bit 32 x"
    by (simp add: take_bit_eq_mask mask_eq_exp_minus_1)
  then show ?thesis
    by (simp add: BIGLO_def unsigned_ucast_eq take_bit_eq_mod unsigned_take_bit_eq uint_mod)
qed

lemma uint_BIGDN [word_eval]: "uint (BIGDN x) = uint x div 2 ^ 32"
  by (simp add: BIGDN_def unsigned_drop_bit_eq drop_bit_eq_div uint_div)

lemma sint_BIGDNs [word_eval]: "sint (BIGDNs x) = sint x div 2 ^ 32"
  by (simp add: BIGDNs_def sint_signed_drop_bit_eq drop_bit_eq_div)

lemma uint_BIGUP [word_eval]: "uint (BIGUP x) = uint x * 2 ^ 32 mod 2 ^ 64"
  by (simp add: BIGUP_def push_bit_eq_mult uint_word_ariths)

lemma uint_BIGUP_ucast [word_eval, simp]: "uint (BIGUP (ucast (d :: bdigit))) = uint d * 2 ^ 32"
  using u32_bounds [of d] by (simp add: uint_BIGUP)

lemma BIGLO_BIGDN: "uint (BIGLO x) + 2 ^ 32 * uint (BIGDN x) = uint x"
  by (simp add: uint_BIGLO uint_BIGDN)

lemma BIGLO_BIGDN_num: "uint (BIGLO x) + 4294967296 * uint (BIGDN x) = uint x"
  using BIGLO_BIGDN [of x] by simp

lemma uint_BIGDN_lt: "uint (BIGDN x) < 4294967296"
  using BIGLO_BIGDN_num [of x] uint_ge_0 [of "BIGLO x"] u64_bounds(2) [of x] by linarith

lemma BIGLO_sint: "uint (BIGLO x) = sint x mod 2 ^ 32"
proof -
  have "sint x mod 2 ^ 64 mod 2 ^ 32 = sint x mod 2 ^ 32"
    by (rule mod_mod_cancel) (simp add: le_imp_power_dvd)
  then show ?thesis by (simp add: uint_BIGLO uint_eq_sint_mod [of x])
qed

lemma BIGLO_BIGDNs: "uint (BIGLO x) + 2 ^ 32 * sint (BIGDNs x) = sint x"
  by (simp add: BIGLO_sint sint_BIGDNs)

section \<open>The value of an array of digits\<close>

primrec bval :: "bdigit list \<Rightarrow> int" where
  "bval [] = 0"
| "bval (d # ds) = uint d + 2 ^ 32 * bval ds"

lemma bval_nonneg: "0 \<le> bval ds"
  by (induction ds) simp_all

lemma bval_append: "bval (xs @ ys) = bval xs + 2 ^ (32 * length xs) * bval ys"
  by (induction xs) (simp_all add: algebra_simps power_add)

lemma bval_bound: "bval ds < 2 ^ (32 * length ds)"
proof (induction ds)
  case (Cons d ds)
  have "uint d + 2 ^ 32 * bval ds < 2 ^ 32 * (1 + bval ds)"
    using u32_bounds [of d] by simp
  also have "\<dots> \<le> 2 ^ 32 * 2 ^ (32 * length ds)"
    using Cons.IH by simp
  finally show ?case by (simp add: power_add)
qed simp

lemma bval_replicate_0 [simp]: "bval (replicate n 0) = 0"
  by (induction n) simp_all

lemma bval_append_0 [simp]: "bval (xs @ [0]) = bval xs"
  by (simp add: bval_append)

lemma bval_eq_0_iff: "bval ds = 0 \<longleftrightarrow> (\<forall>d \<in> set ds. d = 0)"
proof (induction ds)
  case (Cons d ds)
  have "0 \<le> uint d" "0 \<le> bval ds" by (simp_all add: bval_nonneg)
  then have "uint d + 2 ^ 32 * bval ds = 0 \<longleftrightarrow> uint d = 0 \<and> bval ds = 0"
    by (smt (verit, best) mult_eq_0_iff zero_le_mult_iff zero_less_power)
  then show ?case using Cons.IH by (simp add: uint_0_iff)
qed simp

lemma bval_snoc_ge: "d \<noteq> 0 \<Longrightarrow> 2 ^ (32 * length ds) \<le> bval (ds @ [d])"
proof -
  assume "d \<noteq> 0"
  then have "1 \<le> uint d" using uint_u32_neq_0 [of d] by simp
  then have "2 ^ (32 * length ds) * 1 \<le> (2 :: int) ^ (32 * length ds) * uint d"
    by (intro mult_left_mono) simp_all
  moreover have "bval (ds @ [d]) = bval ds + 2 ^ (32 * length ds) * uint d" by (simp add: bval_append)
  ultimately show ?thesis using bval_nonneg [of ds] by linarith
qed

lemma bval_inj: "length xs = length ys \<Longrightarrow> bval xs = bval ys \<Longrightarrow> xs = ys"
proof (induction xs ys rule: list_induct2)
  case (Cons x xs y ys)
  have "(uint x + 2 ^ 32 * bval xs) mod 2 ^ 32 = (uint y + 2 ^ 32 * bval ys) mod 2 ^ 32"
    using Cons.prems by simp
  then have "uint x = uint y" using u32_bounds [of x] u32_bounds [of y] by simp
  with Cons show ?case by (simp add: take_word_eq_iff)
qed simp

section \<open>Fixnums\<close>

text \<open>
  A \<open>VALUE\<close> is a 32-bit word; a fixnum carries its value in the upper 31 bits and the tag bit 1
  (\<open>FIXNUM_FLAG\<close>), so the range of a fixnum is that of a signed 31-bit integer.
\<close>

definition FIXNUM_MAX :: int where
  "FIXNUM_MAX = 2 ^ 30 - 1"

definition FIXNUM_MIN :: int where
  "FIXNUM_MIN = - (2 ^ 30)"

definition POSFIXABLE :: "int \<Rightarrow> bool" where
  "POSFIXABLE f \<longleftrightarrow> f < FIXNUM_MAX + 1"

definition NEGFIXABLE :: "int \<Rightarrow> bool" where
  "NEGFIXABLE f \<longleftrightarrow> FIXNUM_MIN \<le> f"

definition FIXABLE :: "int \<Rightarrow> bool" where
  "FIXABLE f \<longleftrightarrow> POSFIXABLE f \<and> NEGFIXABLE f"

definition LONG2FIX :: "u32 \<Rightarrow> u32" where
  "LONG2FIX i = push_bit 1 i OR 1"

definition FIX2LONG :: "u32 \<Rightarrow> u32" where
  "FIX2LONG v = signed_drop_bit 1 v"

lemmas fixable_defs = FIXABLE_def POSFIXABLE_def NEGFIXABLE_def FIXNUM_MAX_def FIXNUM_MIN_def

lemma uint_LONG2FIX: "uint (LONG2FIX i) = (2 * uint i) mod 2 ^ 32 + 1"
proof -
  have "push_bit 1 i OR 1 = push_bit 1 i + 1"
    by (rule disjunctive_add [symmetric]) (auto simp: bit_simps bit_0 intro!: gr0I)
  moreover have "uint (push_bit 1 i) = (2 * uint i) mod 2 ^ 32"
    by (simp add: push_bit_eq_mult uint_word_ariths mult.commute)
  moreover have "(2 * uint i) mod 2 ^ 32 + 1 < 2 ^ 32"
  proof -
    have "(2 * uint i) mod (2 * 2 ^ 31) = 2 * (uint i mod 2 ^ 31)" by (rule mult_mod_right [symmetric])
    moreover have "uint i mod 2 ^ 31 < 2 ^ 31" by (rule pos_mod_bound) simp
    ultimately show ?thesis by simp
  qed
  ultimately show ?thesis by (simp add: LONG2FIX_def uint_add_nowrap)
qed

lemma sint_FIX2LONG: "sint (FIX2LONG v) = sint v div 2"
  by (simp add: FIX2LONG_def sint_signed_drop_bit_eq drop_bit_eq_div)

lemma sint_LONG2FIX:
  assumes "FIXABLE (sint i)"
  shows "sint (LONG2FIX i) = 2 * sint i + 1"
proof (cases "uint i < 2 ^ 31")
  case True
  then have "sint i = uint i" by (simp add: sint_of_uint_u32)
  with assms have "uint i < 2 ^ 30" by (simp add: fixable_defs)
  then have "uint (LONG2FIX i) = 2 * uint i + 1" by (simp add: uint_LONG2FIX)
  with \<open>sint i = uint i\<close> \<open>uint i < 2 ^ 30\<close> show ?thesis
    by (simp add: sint_of_uint_u32 [of "LONG2FIX i"])
next
  case False
  then have si: "sint i = uint i - 2 ^ 32" by (simp add: sint_of_uint_u32)
  with assms have ge: "2 ^ 32 - 2 ^ 30 \<le> uint i" by (simp add: fixable_defs)
  have "(2 * uint i) mod 2 ^ 32 = (2 * uint i - 2 ^ 32) mod 2 ^ 32" by simp
  also have "\<dots> = 2 * uint i - 2 ^ 32"
    using ge u32_bounds [of i] by (intro mod_pos_pos_trivial) simp_all
  finally have "uint (LONG2FIX i) = 2 * uint i - 2 ^ 32 + 1" by (simp add: uint_LONG2FIX)
  with ge have "sint (LONG2FIX i) = 2 * uint i - 2 ^ 32 + 1 - 2 ^ 32"
    by (simp add: sint_of_uint_u32 [of "LONG2FIX i"])
  with si show ?thesis by simp
qed

lemma FIX2LONG_LONG2FIX: "FIXABLE (sint i) \<Longrightarrow> FIX2LONG (LONG2FIX i) = i"
  by (rule sint_inj) (simp add: sint_FIX2LONG sint_LONG2FIX)

section \<open>Bignum objects and Ruby integers\<close>

text \<open>
  \<open>struct RBignum\<close>: the sign flag (\<open>RBIGNUM_SIGN\<close>, true for positive) and the digits
  (\<open>RBIGNUM_DIGITS\<close>, of length \<open>RBIGNUM_LEN\<close>).  Whether the digits sit in the object itself or in
  an allocated array is the subject of theory \<open>BigStore\<close>.
\<close>

record rbignum =
  big_sign :: bool
  big_digits :: "bdigit list"

abbreviation mk_big :: "bool \<Rightarrow> bdigit list \<Rightarrow> rbignum" where
  "mk_big s ds \<equiv> \<lparr>big_sign = s, big_digits = ds\<rparr>"

definition big_int :: "rbignum \<Rightarrow> int" where
  "big_int x = (if big_sign x then bval (big_digits x) else - bval (big_digits x))"

text \<open>A Ruby \<open>Integer\<close>: an immediate fixnum or a reference to a \<open>Bignum\<close>.\<close>

datatype rb_int = VFix u32 | VBig rbignum

fun int_of :: "rb_int \<Rightarrow> int" where
  "int_of (VFix v) = sint (FIX2LONG v)"
| "int_of (VBig x) = big_int x"

definition bigzero_p :: "rbignum \<Rightarrow> bool" where
  "bigzero_p x = list_all (\<lambda>d. d = 0) (rev (big_digits x))"

definition BIGZEROP :: "rbignum \<Rightarrow> bool" where
  "BIGZEROP x = (length (big_digits x) = 0 \<or>
     (big_digits x ! 0 = 0 \<and> (length (big_digits x) = 1 \<or> bigzero_p x)))"

lemma bigzero_p_iff: "bigzero_p x \<longleftrightarrow> bval (big_digits x) = 0"
  by (simp add: bigzero_p_def bval_eq_0_iff list_all_iff)

lemma BIGZEROP_iff: "BIGZEROP x \<longleftrightarrow> bval (big_digits x) = 0"
proof -
  have "BIGZEROP x \<longleftrightarrow> (\<forall>d \<in> set (big_digits x). d = 0)"
    by (cases "big_digits x") (auto simp: BIGZEROP_def bigzero_p_def list_all_iff)
  then show ?thesis by (simp add: bval_eq_0_iff)
qed

text \<open>
  The loop \<open>while (--len && !ds[len]);\<close> of \<open>bigtrunc\<close> and of \<open>rb_uint2big\<close>: leading zero digits
  go, but one digit stays.
\<close>

function trunc_digits :: "bdigit list \<Rightarrow> bdigit list" where
  "trunc_digits ds =
     (if 1 < length ds \<and> last ds = 0 then trunc_digits (butlast ds) else ds)"
  by pat_completeness auto
termination by (relation "measure length") auto

declare trunc_digits.simps [simp del]

definition bigtrunc :: "rbignum \<Rightarrow> rbignum" where
  "bigtrunc x = (if big_digits x = [] then x
     else x\<lparr>big_digits := trunc_digits (big_digits x)\<rparr>)"

definition bigfixize :: "rbignum \<Rightarrow> rb_int" where
  "bigfixize x =
     (let ds = big_digits x in
      if length ds * 4 \<le> 4 then
        let num = foldr (\<lambda>d num. ucast (BIGUP (scast (num :: u32)) + ucast d)) ds (0 :: u32)
        in if 0 \<le> sint num then
             if big_sign x then
               if POSFIXABLE (sint num) then VFix (LONG2FIX num) else VBig x
             else if NEGFIXABLE (sint (- num)) then VFix (LONG2FIX (- num)) else VBig x
           else VBig x
      else VBig x)"

definition bignorm :: "rb_int \<Rightarrow> rb_int" where
  "bignorm v = (case v of VFix w \<Rightarrow> VFix w | VBig x \<Rightarrow> bigfixize (bigtrunc x))"

definition rb_big_norm :: "rb_int \<Rightarrow> rb_int" where
  "rb_big_norm = bignorm"

text \<open>
  What the interpreter relies on for every integer it meets: a fixnum is tagged, a \<open>Bignum\<close> has no
  leading zero digit and does not fit a fixnum.
\<close>

definition digits_ok :: "bdigit list \<Rightarrow> bool" where
  "digits_ok ds \<longleftrightarrow> ds \<noteq> [] \<and> (length ds = 1 \<or> last ds \<noteq> 0)"

fun normal_int :: "rb_int \<Rightarrow> bool" where
  "normal_int (VFix v) = (\<exists>i. v = LONG2FIX i \<and> FIXABLE (sint i))"
| "normal_int (VBig x) = (digits_ok (big_digits x) \<and> \<not> FIXABLE (big_int x))"

lemma bval_trunc_digits [simp]: "bval (trunc_digits ds) = bval ds"
proof (induction ds rule: trunc_digits.induct)
  case (1 ds)
  show ?case
  proof (cases "1 < length ds \<and> last ds = 0")
    case True
    then have "ds = butlast ds @ [0]"
      by (metis append_butlast_last_id length_greater_0_conv less_trans zero_less_one)
    then have "bval ds = bval (butlast ds)" by (metis bval_append_0)
    with True 1 show ?thesis by (subst trunc_digits.simps) simp
  next
    case False
    then show ?thesis by (subst trunc_digits.simps) auto
  qed
qed

lemma digits_ok_trunc: "ds \<noteq> [] \<Longrightarrow> digits_ok (trunc_digits ds)"
proof (induction ds rule: trunc_digits.induct)
  case (1 ds)
  show ?case
  proof (cases "1 < length ds \<and> last ds = 0")
    case True
    then have "butlast ds \<noteq> []" by (cases ds rule: rev_cases) auto
    with True 1 show ?thesis by (subst trunc_digits.simps) simp
  next
    case False
    with "1.prems" show ?thesis
      by (subst trunc_digits.simps) (auto simp: digits_ok_def Suc_lessI)
  qed
qed

lemma big_int_bigtrunc [simp]: "big_int (bigtrunc x) = big_int x"
  by (simp add: bigtrunc_def big_int_def)

lemma big_sign_bigtrunc [simp]: "big_sign (bigtrunc x) = big_sign x"
  by (simp add: bigtrunc_def)

lemma digits_ok_bigtrunc: "big_digits x \<noteq> [] \<Longrightarrow> digits_ok (big_digits (bigtrunc x))"
  by (simp add: bigtrunc_def digits_ok_trunc)


lemma int_of_LONG2FIX [simp]: "FIXABLE (sint i) \<Longrightarrow> int_of (VFix (LONG2FIX i)) = sint i"
  by (simp add: FIX2LONG_LONG2FIX)

lemma bval_ge_length:
  assumes "digits_ok ds" and "1 < length ds"
  shows "2 ^ 32 \<le> bval ds"
proof -
  from assms obtain xs d where ds: "ds = xs @ [d]" and "d \<noteq> 0" and "1 \<le> length xs"
    by (cases ds rule: rev_cases) (auto simp: digits_ok_def Suc_le_eq)
  then have "(2 :: int) ^ (32 * 1) \<le> 2 ^ (32 * length xs)"
    by (intro power_increasing) simp_all
  also have "\<dots> \<le> bval ds" using bval_snoc_ge [OF \<open>d \<noteq> 0\<close>] ds by simp
  finally show ?thesis by simp
qed

lemma bigfixize_single_eq:
  assumes "big_digits x = [d]"
  shows "bigfixize x =
    (if FIXABLE (big_int x) then VFix (LONG2FIX (if big_sign x then d else - d)) else VBig x)"
proof -
  have num: "foldr (\<lambda>d num. ucast (BIGUP (scast (num :: u32)) + ucast d)) [d] (0 :: u32) = d"
    by (simp add: BIGUP_def)
  show ?thesis
  proof (cases "0 \<le> sint d")
    case True
    then have d: "sint d = uint d"
      using u32_bounds [of d] by (simp add: sint_of_uint_u32 split: if_splits)
    from True have "sint (- d) = - uint d" by (simp only: sint_uminus_u32 d)
    with d True show ?thesis
      unfolding bigfixize_def Let_def assms num
      using u32_bounds [of d] by (simp add: big_int_def assms fixable_defs)
  next
    case False
    then have "2 ^ 31 \<le> uint d" by (simp add: sint_of_uint_u32 split: if_splits)
    with False show ?thesis
      unfolding bigfixize_def Let_def assms num
      using u32_bounds [of d] by (simp add: big_int_def assms fixable_defs)
  qed
qed

lemma bigfixize_single:
  assumes "big_digits x = [d]"
  shows "int_of (bigfixize x) = big_int x \<and> normal_int (bigfixize x)"
proof (cases "FIXABLE (big_int x)")
  case True
  define e where "e = (if big_sign x then d else - d)"
  have "sint e = big_int x"
  proof (cases "big_sign x")
    case True
    with \<open>FIXABLE (big_int x)\<close> show ?thesis
      by (simp add: e_def big_int_def assms fixable_defs sint_of_uint_u32)
  next
    case False
    with \<open>FIXABLE (big_int x)\<close> have "uint d \<le> 2 ^ 30"
      by (simp add: big_int_def assms fixable_defs)
    then have "sint d = uint d" by (simp add: sint_of_uint_u32)
    moreover from this have "sint (- d) = - sint d" by (intro sint_uminus_u32) simp
    ultimately show ?thesis using False by (simp add: e_def big_int_def assms)
  qed
  with True show ?thesis
    by (auto simp: bigfixize_single_eq [OF assms] FIX2LONG_LONG2FIX simp flip: e_def)
next
  case False
  then show ?thesis by (simp add: bigfixize_single_eq [OF assms] assms digits_ok_def)
qed

lemma bigfixize_empty:
  "big_digits x = [] \<Longrightarrow> int_of (bigfixize x) = big_int x \<and> normal_int (bigfixize x)"
  by (auto simp: bigfixize_def Let_def big_int_def FIX2LONG_LONG2FIX fixable_defs)

lemma bigfixize_long:
  assumes "digits_ok (big_digits x)" and "1 < length (big_digits x)"
  shows "bigfixize x = VBig x \<and> normal_int (VBig x)"
proof
  show "bigfixize x = VBig x"
    using assms(2) by (simp add: bigfixize_def Let_def)
  show "normal_int (VBig x)"
  proof -
    have "2 ^ 32 \<le> \<bar>big_int x\<bar>" using bval_ge_length [OF assms] by (simp add: big_int_def)
    then have "\<not> FIXABLE (big_int x)" by (auto simp: fixable_defs abs_if split: if_splits)
    with assms(1) show ?thesis by simp
  qed
qed

lemma bigfixize_correct:
  assumes "big_digits x = [] \<or> digits_ok (big_digits x)"
  shows "int_of (bigfixize x) = big_int x \<and> normal_int (bigfixize x)"
proof -
  consider "big_digits x = []" | d where "big_digits x = [d]"
    | "digits_ok (big_digits x)" "1 < length (big_digits x)"
    using assms by (cases "big_digits x"; cases "tl (big_digits x)") auto
  then show ?thesis
  proof cases
    case 3
    from bigfixize_long [OF this] show ?thesis by simp
  qed (simp_all add: bigfixize_empty bigfixize_single del: normal_int.simps int_of.simps)
qed

lemma bignorm_big:
  "int_of (bignorm (VBig x)) = big_int x" "normal_int (bignorm (VBig x))"
proof -
  have "big_digits (bigtrunc x) = [] \<or> digits_ok (big_digits (bigtrunc x))"
    by (cases "big_digits x = []") (auto simp: bigtrunc_def digits_ok_trunc)
  from bigfixize_correct [OF this]
  show "int_of (bignorm (VBig x)) = big_int x" "normal_int (bignorm (VBig x))"
    by (simp_all add: bignorm_def)
qed

text \<open>Two normalised integers with the same value are the same object.\<close>

lemma digits_ok_length_mono:
  assumes "digits_ok xs" and "digits_ok ys" and "length xs < length ys"
  shows "bval xs < bval ys"
proof -
  from assms obtain zs d where ys: "ys = zs @ [d]" and "d \<noteq> 0"
    by (cases ys rule: rev_cases) (auto simp: digits_ok_def)
  have "bval xs < 2 ^ (32 * length xs)" by (rule bval_bound)
  also have "\<dots> \<le> 2 ^ (32 * length zs)"
    using assms(3) ys by (intro power_increasing) simp_all
  also have "\<dots> \<le> bval ys" using bval_snoc_ge [OF \<open>d \<noteq> 0\<close>] ys by simp
  finally show ?thesis .
qed

lemma digits_ok_unique: "digits_ok xs \<Longrightarrow> digits_ok ys \<Longrightarrow> bval xs = bval ys \<Longrightarrow> xs = ys"
  using digits_ok_length_mono bval_inj by (metis less_irrefl linorder_neqE_nat)

lemma normal_big_sign:
  assumes "normal_int (VBig x)"
  shows "big_sign x \<longleftrightarrow> 0 < big_int x" and "bval (big_digits x) = \<bar>big_int x\<bar>"
  using assms bval_nonneg [of "big_digits x"] by (auto simp: big_int_def fixable_defs)

lemma normal_int_unique:
  assumes "normal_int v" and "normal_int w" and "int_of v = int_of w"
  shows "v = w"
proof (cases v; cases w)
  fix a b assume v: "v = VFix a" and w: "w = VFix b"
  from assms v w obtain i j where "a = LONG2FIX i" "b = LONG2FIX j" "FIXABLE (sint i)" "FIXABLE (sint j)"
    by auto
  moreover from this assms(3) v w have "i = j" by (simp add: FIX2LONG_LONG2FIX sint_inj)
  ultimately show ?thesis using v w by simp
next
  fix a y assume "v = VFix a" and "w = VBig y"
  with assms show ?thesis by (auto simp: FIX2LONG_LONG2FIX)
next
  fix x b assume "v = VBig x" and "w = VFix b"
  with assms show ?thesis by (auto simp: FIX2LONG_LONG2FIX)
next
  fix x y assume v: "v = VBig x" and w: "w = VBig y"
  then have "bval (big_digits x) = bval (big_digits y)" "big_sign x = big_sign y"
    using normal_big_sign [of x] normal_big_sign [of y] assms by auto
  then have "big_digits x = big_digits y"
    using assms v w digits_ok_unique by simp
  with \<open>big_sign x = big_sign y\<close> v w show ?thesis by simp
qed

section \<open>Conversions from machine integers\<close>

fun uint2big_digits :: "nat \<Rightarrow> bdigit_dbl \<Rightarrow> bdigit list" where
  "uint2big_digits 0 num = []"
| "uint2big_digits (Suc k) num = BIGLO num # uint2big_digits k (BIGDN num)"

definition DIGSPERLONG :: nat where "DIGSPERLONG = 1"

definition DIGSPERLL :: nat where "DIGSPERLL = 2"

definition rb_uint2big :: "u32 \<Rightarrow> rbignum" where
  "rb_uint2big n = mk_big True (trunc_digits (uint2big_digits DIGSPERLONG (ucast n)))"

definition rb_int2big :: "u32 \<Rightarrow> rbignum" where
  "rb_int2big n =
     (let neg = sint n < 0; big = rb_uint2big (if neg then - n else n)
      in if neg then big\<lparr>big_sign := False\<rparr> else big)"

definition rb_uint2inum :: "u32 \<Rightarrow> rb_int" where
  "rb_uint2inum n = (if POSFIXABLE (uint n) then VFix (LONG2FIX n) else VBig (rb_uint2big n))"

definition rb_int2inum :: "u32 \<Rightarrow> rb_int" where
  "rb_int2inum n = (if FIXABLE (sint n) then VFix (LONG2FIX n) else VBig (rb_int2big n))"

text \<open>
  The loop \<open>while (i-- && !digits[i]);\<close> of the 64-bit conversions lets even the last digit go.
\<close>

function trunc_all :: "bdigit list \<Rightarrow> bdigit list" where
  "trunc_all ds = (if ds \<noteq> [] \<and> last ds = 0 then trunc_all (butlast ds) else ds)"
  by pat_completeness auto
termination by (relation "measure length") auto

declare trunc_all.simps [simp del]

definition rb_ull2big :: "u64 \<Rightarrow> rbignum" where
  "rb_ull2big n = mk_big True (trunc_all (uint2big_digits DIGSPERLL n))"

definition rb_ll2big :: "u64 \<Rightarrow> rbignum" where
  "rb_ll2big n =
     (let neg = sint n < 0; big = rb_ull2big (if neg then - n else n)
      in if neg then big\<lparr>big_sign := False\<rparr> else big)"

definition rb_ull2inum :: "u64 \<Rightarrow> rb_int" where
  "rb_ull2inum n = (if POSFIXABLE (uint n) then VFix (LONG2FIX (ucast n)) else VBig (rb_ull2big n))"

definition rb_ll2inum :: "u64 \<Rightarrow> rb_int" where
  "rb_ll2inum n = (if FIXABLE (sint n) then VFix (LONG2FIX (ucast n)) else VBig (rb_ll2big n))"

lemma bval_uint2big_digits: "bval (uint2big_digits k n) = uint n mod 2 ^ (32 * k)"
proof (induction k arbitrary: n)
  case (Suc k)
  have "bval (uint2big_digits (Suc k) n) = uint n mod 2 ^ 32 + 2 ^ 32 * (uint n div 2 ^ 32 mod 2 ^ (32 * k))"
    by (simp add: Suc.IH uint_BIGLO uint_BIGDN)
  also have "\<dots> = uint n mod (2 ^ 32 * 2 ^ (32 * k))"
    by (subst zmod_zmult2_eq) simp_all
  finally show ?case by (simp add: power_add)
qed simp

lemma length_uint2big_digits [simp]: "length (uint2big_digits k n) = k"
  by (induction k arbitrary: n) simp_all

lemma uint_neg_u32: "sint (n :: u32) < 0 \<Longrightarrow> uint (- n) = - sint n"
  by (auto simp: sint_of_uint_u32 uint_uminus split: if_splits)

end
