(* ===== verification/BigConv.thy ===== *)
theory BigConv
  imports BigDigits
begin

text \<open>
  Conversions of \<open>lib/ruby/bignum.c\<close> between machine integers, bytes and Ruby integers:
  \<open>rb_int2inum\<close> and its unsigned and 64-bit kin, \<open>rb_big2long\<close> and its kin, and the 8-byte
  \<open>rb_quad_pack\<close> and \<open>rb_quad_unpack\<close> behind the \<open>q\<close> directive of \<open>Array#pack\<close>.
\<close>

section \<open>From machine integers\<close>

lemma bval_trunc_all [simp]: "bval (trunc_all ds) = bval ds"
proof (induction ds rule: trunc_all.induct)
  case (1 ds)
  show ?case
  proof (cases "ds \<noteq> [] \<and> last ds = 0")
    case True
    then have "bval ds = bval (butlast ds)" by (metis append_butlast_last_id bval_append_0)
    with True 1 show ?thesis by (subst trunc_all.simps) simp
  next
    case False
    then show ?thesis by (subst trunc_all.simps) auto
  qed
qed

lemma last_trunc_all: "trunc_all ds \<noteq> [] \<Longrightarrow> last (trunc_all ds) \<noteq> 0"
proof (induction ds rule: trunc_all.induct)
  case (1 ds)
  show ?case
  proof (cases "ds \<noteq> [] \<and> last ds = 0")
    case True
    with 1 show ?thesis by (subst trunc_all.simps) (subst (asm) trunc_all.simps, simp)
  next
    case False
    with "1.prems" show ?thesis by (subst trunc_all.simps) (subst (asm) trunc_all.simps, auto)
  qed
qed

lemma big_int_uint2big [simp]: "big_int (rb_uint2big n) = uint n"
  using u32_bounds [of n]
  by (simp add: rb_uint2big_def big_int_def DIGSPERLONG_def uint_BIGLO)

lemma digits_ok_uint2big [simp]: "digits_ok (big_digits (rb_uint2big n))"
  by (simp add: rb_uint2big_def DIGSPERLONG_def digits_ok_trunc)

lemma big_sign_uint2big [simp]: "big_sign (rb_uint2big n)"
  by (simp add: rb_uint2big_def)

lemma big_int_negate:
  "big_sign x \<Longrightarrow> big_int (x\<lparr>big_sign := False\<rparr>) = - big_int x"
  by (simp add: big_int_def)

lemma big_int_int2big [simp]: "big_int (rb_int2big n) = sint n"
  using u32_bounds [of n]
  by (simp add: rb_int2big_def Let_def big_int_negate uint_neg_u32)
     (simp add: sint_of_uint_u32 split: if_splits)

lemma digits_ok_int2big [simp]: "digits_ok (big_digits (rb_int2big n))"
  by (simp add: rb_int2big_def Let_def)

lemma rb_int2inum_correct: "int_of (rb_int2inum n) = sint n" "normal_int (rb_int2inum n)"
  by (auto simp: rb_int2inum_def FIX2LONG_LONG2FIX)

lemma rb_uint2inum_correct: "int_of (rb_uint2inum n) = uint n" "normal_int (rb_uint2inum n)"
proof -
  have "sint n = uint n \<and> FIXABLE (sint n)" if "POSFIXABLE (uint n)"
    using that by (simp add: fixable_defs sint_of_uint_u32)
  moreover have "\<not> FIXABLE (uint n)" if "\<not> POSFIXABLE (uint n)"
    using that by (simp add: fixable_defs)
  ultimately show "int_of (rb_uint2inum n) = uint n" "normal_int (rb_uint2inum n)"
    by (auto simp: rb_uint2inum_def FIX2LONG_LONG2FIX)
qed

lemma uint_neg_u64: "sint (n :: u64) < 0 \<Longrightarrow> uint (- n) = - sint n"
  using u64_bounds [of n] by (auto simp: sint_of_uint_u64 uint_uminus split: if_splits)

lemma sint_ucast_small:
  assumes "FIXABLE (sint (n :: u64))"
  shows "sint (ucast n :: u32) = sint n"
proof -
  have "uint (ucast n :: u32) = uint n mod 2 ^ 32" by (rule uint_ucast_u64_u32)
  moreover from assms have "- (2 ^ 30) \<le> sint n" "sint n < 2 ^ 30"
    by (simp_all add: fixable_defs)
  moreover have "uint n = (if 0 \<le> sint n then sint n else sint n + 2 ^ 64)"
    using u64_bounds [of n] by (simp add: sint_of_uint_u64)
  moreover have "(sint n + 2 ^ 64) mod 2 ^ 32 = sint n + 2 ^ 32" if "sint n < 0"
  proof -
    have "(sint n + 2 ^ 64) mod 2 ^ 32 = (sint n + 2 ^ 32 + (2 ^ 32 - 1) * 2 ^ 32) mod 2 ^ 32"
      by (simp add: add.commute)
    also have "\<dots> = (sint n + 2 ^ 32) mod 2 ^ 32" by (rule mod_mult_self1)
    also have "\<dots> = sint n + 2 ^ 32"
      using that \<open>- (2 ^ 30) \<le> sint n\<close> by (intro mod_pos_pos_trivial) simp_all
    finally show ?thesis .
  qed
  ultimately show ?thesis by (simp add: sint_of_uint_u32 [of "ucast n"] split: if_splits)
qed

lemma big_int_ull2big [simp]: "big_int (rb_ull2big n) = uint n"
  using u64_bounds [of n]
  by (simp add: rb_ull2big_def big_int_def bval_uint2big_digits DIGSPERLL_def)

lemma digits_ok_ull2big: "n \<noteq> 0 \<Longrightarrow> digits_ok (big_digits (rb_ull2big n))"
proof -
  assume "n \<noteq> 0"
  then have "big_int (rb_ull2big n) \<noteq> 0" by (simp add: uint_0_iff)
  then have "trunc_all (uint2big_digits DIGSPERLL n) \<noteq> []"
    by (auto simp: rb_ull2big_def big_int_def) (metis bval.simps(1) bval_trunc_all)
  then show ?thesis by (simp add: rb_ull2big_def digits_ok_def last_trunc_all)
qed

lemma big_int_ll2big [simp]: "big_int (rb_ll2big n) = sint n"
proof -
  have "big_sign (rb_ull2big m)" for m by (simp add: rb_ull2big_def)
  then show ?thesis
    using u64_bounds [of n]
    by (simp add: rb_ll2big_def Let_def big_int_negate uint_neg_u64)
       (simp add: sint_of_uint_u64 split: if_splits)
qed

lemma rb_ll2inum_correct: "int_of (rb_ll2inum n) = sint n" "normal_int (rb_ll2inum n)"
proof -
  have "digits_ok (big_digits (rb_ll2big n))" if "\<not> FIXABLE (sint n)"
  proof -
    from that have "n \<noteq> 0" by (auto simp: fixable_defs)
    then show ?thesis by (simp add: rb_ll2big_def Let_def digits_ok_ull2big)
  qed
  then show "int_of (rb_ll2inum n) = sint n" "normal_int (rb_ll2inum n)"
    by (auto simp: rb_ll2inum_def FIX2LONG_LONG2FIX sint_ucast_small)
qed

lemma rb_ull2inum_correct: "int_of (rb_ull2inum n) = uint n" "normal_int (rb_ull2inum n)"
proof -
  have s: "sint n = uint n \<and> FIXABLE (sint n)" if "POSFIXABLE (uint n)"
    using that by (simp add: fixable_defs sint_of_uint_u64)
  have b: "digits_ok (big_digits (rb_ull2big n)) \<and> \<not> FIXABLE (uint n)" if "\<not> POSFIXABLE (uint n)"
  proof -
    from that have "n \<noteq> 0" by (auto simp: fixable_defs)
    with that show ?thesis by (simp add: digits_ok_ull2big fixable_defs)
  qed
  show "int_of (rb_ull2inum n) = uint n" "normal_int (rb_ull2inum n)"
    using s b sint_ucast_small [of n]
    by (auto simp: rb_ull2inum_def FIX2LONG_LONG2FIX intro!: exI [of _ "ucast n :: u32"])
qed

section \<open>To machine integers\<close>

text \<open>\<open>while (len--) { num = BIGUP(num); num += ds[len]; }\<close>\<close>

definition fold_digits :: "bdigit list \<Rightarrow> bdigit_dbl" where
  "fold_digits ds = foldr (\<lambda>d num. BIGUP num + ucast d) ds 0"

definition big2ulong :: "rbignum \<Rightarrow> bool \<Rightarrow> rb_error + u32" where
  "big2ulong x check =
     (let len = length (big_digits x) in
      if DIGSPERLONG < len \<and> check then Inl RangeError
      else Inr (ucast (fold_digits (take (min len DIGSPERLONG) (big_digits x)))))"

definition rb_big2ulong_pack :: "rbignum \<Rightarrow> u32" where
  "rb_big2ulong_pack x =
     (case big2ulong x False of
        Inr num \<Rightarrow> if \<not> big_sign x then - num else num
      | Inl _ \<Rightarrow> 0)"

definition rb_big2ulong :: "rbignum \<Rightarrow> rb_error + u32" where
  "rb_big2ulong x =
     (case big2ulong x True of
        Inl e \<Rightarrow> Inl e
      | Inr num \<Rightarrow>
          if \<not> big_sign x then if sint num < 0 then Inl RangeError else Inr (- num)
          else Inr num)"

definition rb_big2long :: "rbignum \<Rightarrow> rb_error + u32" where
  "rb_big2long x =
     (case big2ulong x True of
        Inl e \<Rightarrow> Inl e
      | Inr num \<Rightarrow>
          if sint num < 0 \<and> (big_sign x \<or> sint num \<noteq> - (2 ^ 31)) then Inl RangeError
          else if \<not> big_sign x then Inr (- num)
          else Inr num)"

definition big2ull :: "rbignum \<Rightarrow> rb_error + u64" where
  "big2ull x =
     (if 2 < length (big_digits x) then Inl RangeError else Inr (fold_digits (big_digits x)))"

definition rb_big2ull :: "rbignum \<Rightarrow> rb_error + u64" where
  "rb_big2ull x =
     (case big2ull x of
        Inl e \<Rightarrow> Inl e
      | Inr num \<Rightarrow> if \<not> big_sign x then Inr (- num) else Inr num)"

definition rb_big2ll :: "rbignum \<Rightarrow> rb_error + u64" where
  "rb_big2ll x =
     (case big2ull x of
        Inl e \<Rightarrow> Inl e
      | Inr num \<Rightarrow>
          if sint num < 0 \<and> (big_sign x \<or> sint num \<noteq> - (2 ^ 63)) then Inl RangeError
          else if \<not> big_sign x then Inr (- num)
          else Inr num)"

lemma uint_fold_digits: "uint (fold_digits ds) = bval ds mod 2 ^ 64"
proof (induction ds)
  case (Cons d ds)
  have "uint (fold_digits (d # ds)) = (uint (fold_digits ds) * 2 ^ 32 mod 2 ^ 64 + uint d) mod 2 ^ 64"
    by (simp add: fold_digits_def uint_word_ariths uint_BIGUP)
  also have "\<dots> = (bval ds * 2 ^ 32 + uint d) mod 2 ^ 64"
    by (simp add: Cons.IH mod_simps)
  finally show ?case by (simp add: ac_simps)
qed (simp add: fold_digits_def)

lemma uint_fold_digits_short: "length ds \<le> 2 \<Longrightarrow> uint (fold_digits ds) = bval ds"
proof -
  assume "length ds \<le> 2"
  then have "(2 :: int) ^ (32 * length ds) \<le> 2 ^ 64" by (intro power_increasing) simp_all
  with bval_bound [of ds] bval_nonneg [of ds] show ?thesis
    by (simp add: uint_fold_digits)
qed

lemma digits_ok_one: "digits_ok ds \<Longrightarrow> \<not> 1 < length ds \<Longrightarrow> \<exists>d. ds = [d]"
  by (cases ds; cases "tl ds") (auto simp: digits_ok_def)

lemma big2ulong_ok:
  "digits_ok (big_digits x) \<Longrightarrow>
   (case big2ulong x True of
      Inl e \<Rightarrow> e = RangeError \<and> 2 ^ 32 \<le> \<bar>big_int x\<bar>
    | Inr num \<Rightarrow> uint num = \<bar>big_int x\<bar>)"
proof -
  assume ok: "digits_ok (big_digits x)"
  show ?thesis
  proof (cases "1 < length (big_digits x)")
    case True
    with bval_ge_length [OF ok True] show ?thesis
      by (simp add: big2ulong_def Let_def DIGSPERLONG_def big_int_def)
  next
    case False
    from digits_ok_one [OF ok this] obtain d where "big_digits x = [d]" ..
    then show ?thesis
      using u32_bounds [of d] uint_fold_digits_short [of "[d]"]
      by (simp add: big2ulong_def Let_def DIGSPERLONG_def big_int_def uint_ucast_u64_u32)
  qed
qed

text \<open>\<open>rb_big2long\<close> answers exactly when the value fits a \<open>long\<close>, and then with that value.\<close>

lemma rb_big2long_spec:
  assumes ok: "digits_ok (big_digits x)"
  shows "rb_big2long x =
    (if - (2 ^ 31) \<le> big_int x \<and> big_int x < 2 ^ 31 then Inr (word_of_int (big_int x)) else Inl RangeError)"
proof (cases "big2ulong x True")
  case (Inl e)
  with big2ulong_ok [OF ok] show ?thesis
    by (auto simp: rb_big2long_def abs_if split: if_splits)
next
  case (Inr num)
  with big2ulong_ok [OF ok] have num: "uint num = \<bar>big_int x\<bar>" by simp
  from num bval_nonneg [of "big_digits x"]
  have v: "big_int x = (if big_sign x then uint num else - uint num)"
    by (auto simp: big_int_def)
  show ?thesis
  proof (cases "big_sign x")
    case True
    with v u32_bounds [of num] show ?thesis by (simp add: rb_big2long_def Inr sint_of_uint_u32)
  next
    case False
    with v u32_bounds [of num] show ?thesis
      by (simp add: rb_big2long_def Inr sint_of_uint_u32)
  qed
qed

lemma rb_big2ulong_spec:
  assumes ok: "digits_ok (big_digits x)"
  shows "rb_big2ulong x =
    (if - (2 ^ 31) < big_int x \<and> big_int x < 2 ^ 32 then Inr (word_of_int (big_int x)) else Inl RangeError)"
proof (cases "big2ulong x True")
  case (Inl e)
  with big2ulong_ok [OF ok] show ?thesis
    by (auto simp: rb_big2ulong_def abs_if split: if_splits)
next
  case (Inr num)
  with big2ulong_ok [OF ok] have num: "uint num = \<bar>big_int x\<bar>" by simp
  from num bval_nonneg [of "big_digits x"]
  have v: "big_int x = (if big_sign x then uint num else - uint num)"
    by (auto simp: big_int_def)
  show ?thesis
  proof (cases "big_sign x")
    case True
    with v u32_bounds [of num] show ?thesis by (simp add: rb_big2ulong_def Inr)
  next
    case False
    with v u32_bounds [of num] show ?thesis
      by (simp add: rb_big2ulong_def Inr sint_of_uint_u32)
  qed
qed

lemma rb_big2ll_spec:
  assumes ok: "digits_ok (big_digits x)"
  shows "rb_big2ll x =
    (if - (2 ^ 63) \<le> big_int x \<and> big_int x < 2 ^ 63 then Inr (word_of_int (big_int x)) else Inl RangeError)"
proof (cases "2 < length (big_digits x)")
  case True
  with ok obtain zs d where ds: "big_digits x = zs @ [d]" and "d \<noteq> 0" and "2 \<le> length zs"
    by (cases "big_digits x" rule: rev_cases) (auto simp: digits_ok_def)
  then have "(2 :: int) ^ (32 * 2) \<le> 2 ^ (32 * length zs)" by (intro power_increasing) simp_all
  with bval_snoc_ge [OF \<open>d \<noteq> 0\<close>, of zs] ds have "2 ^ 64 \<le> bval (big_digits x)" by simp
  then have "2 ^ 64 \<le> \<bar>big_int x\<bar>" by (simp add: big_int_def)
  with True show ?thesis by (auto simp: rb_big2ll_def big2ull_def abs_if split: if_splits)
next
  case False
  define num where "num = fold_digits (big_digits x)"
  from False have n: "uint num = bval (big_digits x)"
    by (simp add: num_def uint_fold_digits_short)
  have v: "big_int x = (if big_sign x then uint num else - uint num)"
    by (simp add: n big_int_def)
  from False have b: "big2ull x = Inr num" by (simp add: big2ull_def num_def)
  show ?thesis
  proof (cases "big_sign x")
    case True
    with v u64_bounds [of num] show ?thesis by (simp add: rb_big2ll_def b sint_of_uint_u64)
  next
    case False
    with v u64_bounds [of num] show ?thesis by (simp add: rb_big2ll_def b sint_of_uint_u64)
  qed
qed

section \<open>Eight bytes\<close>

text \<open>\<open>memcpy\<close> of a \<open>LONG_LONG\<close>: the target is little-endian.\<close>

fun mem_bytes :: "nat \<Rightarrow> u64 \<Rightarrow> u8 list" where
  "mem_bytes 0 w = []"
| "mem_bytes (Suc k) w = ucast w # mem_bytes k (drop_bit 8 w)"

fun mem_word :: "u8 list \<Rightarrow> u64" where
  "mem_word [] = 0"
| "mem_word (b # bs) = ucast b + push_bit 8 (mem_word bs)"

definition quad_value :: "rb_int \<Rightarrow> u64" where
  "quad_value v =
     (case v of
        VFix w \<Rightarrow> scast (FIX2LONG w)
      | VBig x \<Rightarrow>
          let q = fold_digits (take (min (length (big_digits x)) 2) (big_digits x))
          in if \<not> big_sign x then - q else q)"

definition rb_quad_pack :: "rb_int \<Rightarrow> u8 list" where
  "rb_quad_pack v = mem_bytes 8 (quad_value v)"

definition rb_quad_unpack :: "u8 list \<Rightarrow> bool \<Rightarrow> rb_int" where
  "rb_quad_unpack buf sign =
     (let q = mem_word buf in
      if sign \<and> FIXABLE (sint q) then VFix (LONG2FIX (ucast q))
      else if \<not> sign \<and> POSFIXABLE (uint q) then VFix (LONG2FIX (ucast q))
      else
        let neg = sign \<and> sint q < 0;
            big = mk_big True (trunc_all (uint2big_digits DIGSPERLL (if neg then - q else q)))
        in bignorm (VBig (if neg then big\<lparr>big_sign := False\<rparr> else big)))"

lemma length_mem_bytes [simp]: "length (mem_bytes k w) = k"
  by (induction k arbitrary: w) simp_all

lemma uint_mem_word_bytes: "k \<le> 8 \<Longrightarrow> uint (mem_word (mem_bytes k w)) = uint w mod 2 ^ (8 * k)"
proof (induction k arbitrary: w)
  case (Suc k)
  have IH: "uint (mem_word (mem_bytes k (drop_bit 8 w))) = uint w div 2 ^ 8 mod 2 ^ (8 * k)"
    using Suc by (simp add: unsigned_drop_bit_eq drop_bit_eq_div uint_div)
  have eq: "uint w mod 2 ^ (8 * Suc k) = uint w mod 2 ^ 8 + 2 ^ 8 * (uint w div 2 ^ 8 mod 2 ^ (8 * k))"
    using zmod_zmult2_eq [of "2 ^ (8 * k)" "uint w" "2 ^ 8"] by (simp add: power_add)
  have lt: "uint w mod 2 ^ (8 * Suc k) < 2 ^ 64"
  proof -
    have "uint w mod 2 ^ (8 * Suc k) < (2 :: int) ^ (8 * Suc k)" by (rule pos_mod_bound) simp
    also have "\<dots> \<le> 2 ^ 64" using Suc.prems by (intro power_increasing) simp_all
    finally show ?thesis .
  qed
  have lo: "uint (ucast (ucast w :: u8) :: u64) = uint w mod 2 ^ 8"
    by (simp add: unsigned_ucast_eq take_bit_eq_mod uint_mod)
  have hi: "uint (push_bit 8 (mem_word (mem_bytes k (drop_bit 8 w)))) =
      2 ^ 8 * (uint w div 2 ^ 8 mod 2 ^ (8 * k))"
  proof -
    have "0 \<le> uint w mod 2 ^ 8" by simp
    then have "2 ^ 8 * (uint w div 2 ^ 8 mod 2 ^ (8 * k)) < 2 ^ 64" using lt eq by linarith
    moreover have "0 \<le> uint w div 2 ^ 8 mod 2 ^ (8 * k)" by simp
    ultimately show ?thesis
      by (simp add: push_bit_eq_mult uint_word_ariths IH mult.commute)
  qed
  show ?case using lo hi lt eq by (simp add: uint_add_nowrap)
qed simp

lemma mem_word_bytes [simp]: "mem_word (mem_bytes 8 w) = w"
  using uint_mem_word_bytes [of 8 w] u64_bounds [of w] by (simp add: word_uint_eq_iff)

text \<open>The eight bytes of an integer of any size are its residue modulo \<open>2 ^ 64\<close>.\<close>

lemma bval_take_mod: "bval (take 2 ds) mod 2 ^ 64 = bval ds mod 2 ^ 64"
proof (cases "length ds \<le> 2")
  case False
  then have "bval ds = bval (take 2 ds) + 2 ^ 64 * bval (drop 2 ds)"
    using bval_append [of "take 2 ds" "drop 2 ds"] by simp
  then show ?thesis by simp
qed simp

lemma uint_quad_value: "uint (quad_value v) = int_of v mod 2 ^ 64"
proof (cases v)
  case (VFix w)
  have "uint (scast (FIX2LONG w) :: u64) = sint (FIX2LONG w) mod 2 ^ 64"
    by (simp add: uint_eq_sint_mod sint_up_scast is_up_def source_size_def target_size_def word_size)
  with VFix show ?thesis by (simp add: quad_value_def)
next
  case (VBig x)
  define q where "q = fold_digits (take (min (length (big_digits x)) 2) (big_digits x))"
  have q: "uint q = bval (big_digits x) mod 2 ^ 64"
  proof -
    have "take (min (length (big_digits x)) 2) (big_digits x) = take 2 (big_digits x)"
      by (simp add: min_def)
    then show ?thesis by (simp only: q_def uint_fold_digits bval_take_mod)
  qed
  have "uint (- q) = (- uint q) mod 2 ^ 64" by (simp add: uint_word_ariths)
  also have "\<dots> = (- bval (big_digits x)) mod 2 ^ 64" by (simp only: q mod_minus_eq)
  finally show ?thesis
    using VBig q by (simp add: quad_value_def Let_def big_int_def flip: q_def)
qed

lemma rb_quad_unpack_correct:
  "int_of (rb_quad_unpack buf sign) = (if sign then sint (mem_word buf) else uint (mem_word buf))"
  "normal_int (rb_quad_unpack buf sign)"
proof -
  define q where "q = mem_word buf"
  have pos: "sint q = uint q \<and> FIXABLE (sint q)" if "POSFIXABLE (uint q)"
    using that by (simp add: fixable_defs sint_of_uint_u64)
  have val: "bval (uint2big_digits DIGSPERLL n) = uint n" for n
    using big_int_ull2big [of n] by (simp add: rb_ull2big_def big_int_def)
  consider (imm) "sign \<and> FIXABLE (sint q) \<or> \<not> sign \<and> POSFIXABLE (uint q)"
    | (minus) "\<not> FIXABLE (sint q)" "sign" "sint q < 0" | (spos) "\<not> FIXABLE (sint q)" "sign" "0 \<le> sint q"
    | (upos) "\<not> POSFIXABLE (uint q)" "\<not> sign"
    by fastforce
  then have "int_of (rb_quad_unpack buf sign) = (if sign then sint q else uint q) \<and>
      normal_int (rb_quad_unpack buf sign)"
  proof cases
    case imm
    with pos have f: "FIXABLE (sint q)" and u: "\<not> sign \<longrightarrow> sint q = uint q" by auto
    then have "rb_quad_unpack buf sign = VFix (LONG2FIX (ucast q))"
      using imm by (auto simp: rb_quad_unpack_def Let_def q_def)
    moreover have "FIXABLE (sint (ucast q :: u32))" using f by (simp add: sint_ucast_small)
    ultimately show ?thesis
      using f u by (auto simp: FIX2LONG_LONG2FIX sint_ucast_small)
  next
    case minus
    then show ?thesis
      by (simp add: rb_quad_unpack_def Let_def bignorm_big big_int_def val uint_neg_u64
          flip: q_def del: normal_int.simps)
  next
    case spos
    then have "sint q = uint q" using u64_bounds [of q] by (simp add: sint_of_uint_u64 split: if_splits)
    with spos show ?thesis
      by (simp add: rb_quad_unpack_def Let_def bignorm_big big_int_def val
          flip: q_def del: normal_int.simps)
  next
    case upos
    then show ?thesis
      by (simp add: rb_quad_unpack_def Let_def bignorm_big big_int_def val
          flip: q_def del: normal_int.simps)
  qed
  then show "int_of (rb_quad_unpack buf sign) = (if sign then sint (mem_word buf) else uint (mem_word buf))"
    "normal_int (rb_quad_unpack buf sign)" by (simp_all add: q_def)
qed

lemma sint_quad_value:
  assumes "- (2 ^ 63) \<le> int_of v" and "int_of v < 2 ^ 63"
  shows "sint (quad_value v) = int_of v"
proof -
  have "uint (quad_value v) = (if 0 \<le> int_of v then int_of v else int_of v + 2 ^ 64)"
    using signed_range_mod [of "2 ^ 63" "int_of v"] assms by (simp add: uint_quad_value)
  with assms show ?thesis by (simp add: sint_of_uint_u64 split: if_splits)
qed

end
