(* ===== verification/RubyValue.thy ===== *)
theory RubyValue
  imports BigConv
begin

text \<open>
  The operands that the numeric methods of \<open>lib/ruby/bignum.c\<close> and \<open>lib/ruby/numeric.c\<close> dispatch
  on with \<open>switch (TYPE(y))\<close>.  Floating point values (\<open>'f\<close>) and other objects (\<open>'o\<close>) are opaque:
  the C double arithmetic and the dynamic method call of \<open>rb_num_coerce_bin\<close> are parameters
  of the model, fields of the record \<open>rb_env\<close>.
\<close>

datatype ('f, 'o) rb_value =
    RInt rb_int
  | RFloat 'f
  | RObj 'o
  | RNil
  | RBool bool
  | RPair "('f, 'o) rb_value" "('f, 'o) rb_value"

record ('f, 'o) rb_env =
  dbl_plus :: "'f \<Rightarrow> 'f \<Rightarrow> 'f"
  dbl_minus :: "'f \<Rightarrow> 'f \<Rightarrow> 'f"
  dbl_times :: "'f \<Rightarrow> 'f \<Rightarrow> 'f"
  dbl_div :: "'f \<Rightarrow> 'f \<Rightarrow> 'f"
  dbl_pow :: "'f \<Rightarrow> 'f \<Rightarrow> 'f"
  dbl_eq :: "'f \<Rightarrow> 'f \<Rightarrow> bool"
  dbl_gt :: "'f \<Rightarrow> 'f \<Rightarrow> bool"
  dbl_ge :: "'f \<Rightarrow> 'f \<Rightarrow> bool"
  dbl_lt :: "'f \<Rightarrow> 'f \<Rightarrow> bool"
  dbl_le :: "'f \<Rightarrow> 'f \<Rightarrow> bool"
  dbl_isnan :: "'f \<Rightarrow> bool"
  dbl_isinf :: "'f \<Rightarrow> bool"
  dbl_uminus :: "'f \<Rightarrow> 'f"
  dbl_fmod :: "'f \<Rightarrow> 'f \<Rightarrow> 'f"
  dbl_floor :: "'f \<Rightarrow> 'f"
  dbl_round :: "'f \<Rightarrow> 'f"
  dbl_of_long :: "u32 \<Rightarrow> 'f"
  dbl_to_long :: "'f \<Rightarrow> u32"
  rb_big2dbl :: "rbignum \<Rightarrow> 'f"
  rb_dbl2big :: "'f \<Rightarrow> rb_error + rb_int"
  coerce_bin :: "string \<Rightarrow> ('f, 'o) rb_value \<Rightarrow> ('f, 'o) rb_value \<Rightarrow> rb_error + ('f, 'o) rb_value"
  coerce_cmp :: "string \<Rightarrow> ('f, 'o) rb_value \<Rightarrow> ('f, 'o) rb_value \<Rightarrow> rb_error + ('f, 'o) rb_value"
  coerce_relop :: "string \<Rightarrow> ('f, 'o) rb_value \<Rightarrow> ('f, 'o) rb_value \<Rightarrow> rb_error + ('f, 'o) rb_value"
  rb_equal :: "('f, 'o) rb_value \<Rightarrow> ('f, 'o) rb_value \<Rightarrow> bool"
  rational_pow :: "rb_int \<Rightarrow> rb_int \<Rightarrow> rb_error + ('f, 'o) rb_value"
  rb_to_int :: "('f, 'o) rb_value \<Rightarrow> rb_error + rb_int"
  rb_Integer :: "('f, 'o) rb_value \<Rightarrow> rb_error + rb_int"

type_synonym ('f, 'o) rb_result = "rb_error + ('f, 'o) rb_value"

text \<open>\<open>INT2FIX\<close> of a small constant, as the code writes it.\<close>

definition INT2FIX :: "int \<Rightarrow> ('f, 'o) rb_value" where
  "INT2FIX i = RInt (VFix (LONG2FIX (word_of_int i)))"

lemma INT2FIX_normal: "FIXABLE (sint i) \<Longrightarrow> normal_int (VFix (LONG2FIX i)) \<and> int_of (VFix (LONG2FIX i)) = sint i"
  by (auto simp: FIX2LONG_LONG2FIX)

lemma sint_fix_neg:
  assumes "normal_int (VFix w)"
  shows "sint (- FIX2LONG w) = - int_of (VFix w)"
proof -
  have "- 2147483648 < sint (FIX2LONG w)" using assms by (auto simp: FIX2LONG_LONG2FIX fixable_defs)
  then show ?thesis by (simp add: sint_minus_nowrap_u32)
qed

definition rb_dbl_cmp :: "('f, 'o) rb_env \<Rightarrow> 'f \<Rightarrow> 'f \<Rightarrow> ('f, 'o) rb_value" where
  "rb_dbl_cmp env a b =
     (if dbl_isnan env a \<or> dbl_isnan env b then RNil
      else if dbl_eq env a b then INT2FIX 0
      else if dbl_gt env a b then INT2FIX 1
      else if dbl_lt env a b then INT2FIX (- 1)
      else RNil)"

text \<open>The first two cases of each \<open>switch\<close>: a fixnum operand becomes a temporary \<open>Bignum\<close>.\<close>

definition to_big :: "rb_int \<Rightarrow> rbignum" where
  "to_big v = (case v of VFix w \<Rightarrow> rb_int2big (FIX2LONG w) | VBig y \<Rightarrow> y)"

definition rb_num2long :: "('f, 'o) rb_env \<Rightarrow> ('f, 'o) rb_value \<Rightarrow> rb_error + u32" where
  "rb_num2long env val =
     (case val of
        RNil \<Rightarrow> Inl TypeError
      | RInt (VFix w) \<Rightarrow> Inr (FIX2LONG w)
      | RFloat d \<Rightarrow>
          if dbl_le env d (dbl_of_long env 0x7fffffff) \<and> dbl_ge env d (dbl_of_long env 0x80000000)
          then Inr (dbl_to_long env d) else Inl RangeError
      | RInt (VBig b) \<Rightarrow> rb_big2long b
      | _ \<Rightarrow>
          (case rb_to_int env val of
             Inl e \<Rightarrow> Inl e
           | Inr (VFix w) \<Rightarrow> Inr (FIX2LONG w)
           | Inr (VBig b) \<Rightarrow> rb_big2long b))"

lemma big_int_to_big [simp]: "big_int (to_big v) = int_of v"
  by (cases v) (simp_all add: to_big_def)

lemma digits_ok_to_big: "normal_int v \<Longrightarrow> digits_ok (big_digits (to_big v))"
  by (cases v) (auto simp: to_big_def)

text \<open>A result is the integer \<open>i\<close> when it is the normalised object with that value.\<close>

definition is_int_value :: "('f, 'o) rb_value \<Rightarrow> int \<Rightarrow> bool" where
  "is_int_value r i \<longleftrightarrow> (\<exists>v. r = RInt v \<and> normal_int v \<and> int_of v = i)"

lemma is_int_value_norm: "big_int x = i \<Longrightarrow> is_int_value (RInt (bignorm (VBig x))) i"
  by (simp add: is_int_value_def bignorm_big del: normal_int.simps)

lemma is_int_value_small:
  assumes "- (2 ^ 30) \<le> i" and "i < 2 ^ 30"
  shows "is_int_value (INT2FIX i) i"
proof -
  have "sint (word_of_int i :: u32) = i"
    using assms by (simp add: signed_of_int signed_take_bit_int_eq_self)
  moreover from this assms have "FIXABLE (sint (word_of_int i :: u32))"
    by (simp add: fixable_defs)
  ultimately show ?thesis
    unfolding INT2FIX_def is_int_value_def
    by (intro exI [of _ "VFix (LONG2FIX (word_of_int i))"]) (auto simp: FIX2LONG_LONG2FIX)
qed

lemma is_int_value_unique: "is_int_value r i \<Longrightarrow> is_int_value r' i \<Longrightarrow> r = r'"
  by (auto simp: is_int_value_def intro: normal_int_unique)

end
