(* ===== verification/BigAdd.thy ===== *)
theory BigAdd
  imports RubyValue
begin

text \<open>
  Addition, subtraction, negation and comparison of \<open>Bignum\<close>s (\<open>bigadd\<close>, \<open>bigsub\<close>,
  \<open>rb_big_plus\<close>, \<open>rb_big_minus\<close>, \<open>rb_big_uminus\<close>, \<open>rb_big_cmp\<close>, \<open>rb_big_eq\<close>, \<open>rb_big_eql\<close> of
  \<open>lib/ruby/bignum.c\<close>).  A loop over array indices that reads the digits in order is a recursion
  over the digit lists, with the carry \<open>num\<close> at its 64-bit width.
\<close>

section \<open>Magnitudes\<close>

text \<open>The comparison loop of \<open>bigsub\<close>, from the most significant digit (the lists are reversed).\<close>

fun swap_loop :: "bdigit list \<Rightarrow> bdigit list \<Rightarrow> bool" where
  "swap_loop (x # xs) (y # ys) =
     (if y < x then False else if x < y then True else swap_loop xs ys)"
| "swap_loop _ _ = False"

text \<open>
  \<open>while (num && i < RBIGNUM_LEN(x))\<close>, then the copying of the remaining digits.  \<open>num\<close> is signed,
  so the carry comes down with an arithmetic shift.
\<close>

fun sub_carry :: "bdigit_dbl \<Rightarrow> bdigit list \<Rightarrow> bdigit list" where
  "sub_carry num [] = []"
| "sub_carry num (x # xs) =
     (if num \<noteq> 0 then
        let num' = num + ucast x in BIGLO num' # sub_carry (BIGDNs num') xs
      else x # xs)"

fun sub_loop :: "bdigit_dbl \<Rightarrow> bdigit list \<Rightarrow> bdigit list \<Rightarrow> bdigit list" where
  "sub_loop num xs [] = sub_carry num xs"
| "sub_loop num (x # xs) (y # ys) =
     (let num' = num + (ucast x - ucast y) in BIGLO num' # sub_loop (BIGDNs num') xs ys)"
| "sub_loop num [] (y # ys) = []"

definition bigsub :: "rbignum \<Rightarrow> rbignum \<Rightarrow> rbignum" where
  "bigsub x y =
     (let xs = big_digits x; ys = big_digits y;
          swapped = (length xs < length ys \<or>
            length xs = length ys \<and> swap_loop (rev xs) (rev ys))
      in if swapped then mk_big False (sub_loop 0 ys xs) else mk_big True (sub_loop 0 xs ys))"

fun add_carry :: "bdigit_dbl \<Rightarrow> bdigit list \<Rightarrow> bdigit list" where
  "add_carry num [] = [ucast num]"
| "add_carry num (y # ys) =
     (if num \<noteq> 0 then
        let num' = num + ucast y in BIGLO num' # add_carry (BIGDN num') ys
      else (y # ys) @ [ucast num])"

fun add_loop :: "bdigit_dbl \<Rightarrow> bdigit list \<Rightarrow> bdigit list \<Rightarrow> bdigit list" where
  "add_loop num [] ys = add_carry num ys"
| "add_loop num (x # xs) (y # ys) =
     (let num' = num + (ucast x + ucast y) in BIGLO num' # add_loop (BIGDN num') xs ys)"
| "add_loop num (x # xs) [] = []"

definition bigadd :: "rbignum \<Rightarrow> rbignum \<Rightarrow> bool \<Rightarrow> rbignum" where
  "bigadd x y sign =
     (let s = (sign = big_sign y) in
      if big_sign x \<noteq> s then (if s then bigsub y x else bigsub x y)
      else
        let (xs, ys) = (if length (big_digits y) < length (big_digits x)
                        then (big_digits y, big_digits x) else (big_digits x, big_digits y))
        in mk_big s (add_loop 0 xs ys))"

lemma length_add_carry [simp]: "length (add_carry num ys) = Suc (length ys)"
  by (induction num ys rule: add_carry.induct) (simp_all add: Let_def)

lemma length_add_loop: "length xs \<le> length ys \<Longrightarrow> length (add_loop num xs ys) = Suc (length ys)"
  by (induction num xs ys rule: add_loop.induct) (simp_all add: Let_def)

lemma length_sub_carry [simp]: "length (sub_carry num xs) = length xs"
  by (induction num xs rule: sub_carry.induct) (simp_all add: Let_def)

lemma length_sub_loop: "length ys \<le> length xs \<Longrightarrow> length (sub_loop num xs ys) = length xs"
  by (induction num xs ys rule: sub_loop.induct) (simp_all add: Let_def)

lemma bval_add_carry:
  "uint num < 2 ^ 32 \<Longrightarrow> bval (add_carry num ys) = uint num + bval ys"
proof (induction num ys rule: add_carry.induct)
  case (1 num)
  then show ?case by (simp add: uint_ucast_u64_u32)
next
  case (2 num y ys)
  show ?case
  proof (cases "num = 0")
    case False
    have s: "uint (num + ucast y) = uint num + uint y"
      using 2(2) u32_bounds [of y] by (simp add: uint_add_nowrap)
    then have "uint (BIGDN (num + ucast y)) < 2 ^ 32"
      using 2(2) u32_bounds [of y] by (simp add: uint_BIGDN)
    with 2(1) False
    have "bval (add_carry num (y # ys)) =
        uint (BIGLO (num + ucast y)) + 2 ^ 32 * uint (BIGDN (num + ucast y)) + 2 ^ 32 * bval ys"
      by (simp add: Let_def)
    then show ?thesis using BIGLO_BIGDN [of "num + ucast y"] s by simp
  qed (simp add: bval_append)
qed

lemma bval_add_loop:
  "length xs \<le> length ys \<Longrightarrow> uint num \<le> 1 \<Longrightarrow>
   bval (add_loop num xs ys) = uint num + bval xs + bval ys"
proof (induction num xs ys rule: add_loop.induct)
  case (1 num ys)
  then show ?case by (simp add: bval_add_carry)
next
  case (2 num x xs y ys)
  define n where "n = num + (ucast x + ucast y)"
  have "uint (ucast x + ucast y :: u64) = uint x + uint y"
    using u32_bounds [of x] u32_bounds [of y] by (simp add: uint_add_nowrap)
  then have n: "uint n = uint num + uint x + uint y"
    using "2.prems" u32_bounds [of x] u32_bounds [of y] by (simp add: n_def uint_add_nowrap)
  then have "uint (BIGDN n) \<le> 1"
    using "2.prems" u32_bounds [of x] u32_bounds [of y] by (simp add: uint_BIGDN)
  then have "bval (add_loop num (x # xs) (y # ys)) =
      uint (BIGLO n) + 2 ^ 32 * uint (BIGDN n) + 2 ^ 32 * bval xs + 2 ^ 32 * bval ys"
    using "2.IH" [OF refl] "2.prems" by (simp add: Let_def flip: n_def)
  then show ?case using BIGLO_BIGDN [of n] n by simp
qed simp

text \<open>One digit of a subtraction that may borrow, read modulo the length of the result.\<close>

lemma sub_step_mod:
  assumes "r = (c + m) mod 2 ^ (32 * k)" and "n = lo + 2 ^ 32 * c" and "0 \<le> lo" and "lo < 2 ^ 32"
  shows "lo + 2 ^ 32 * r = (n + 2 ^ 32 * m) mod (2 :: int) ^ (32 * Suc k)"
proof -
  have "(n + 2 ^ 32 * m) mod 2 ^ (32 * Suc k) =
      2 ^ 32 * ((n + 2 ^ 32 * m) div 2 ^ 32 mod 2 ^ (32 * k)) + (n + 2 ^ 32 * m) mod 2 ^ 32"
    using zmod_zmult2_eq [of "2 ^ (32 * k)" "n + 2 ^ 32 * m" "2 ^ 32"] by (simp add: power_add)
  moreover have "(n + 2 ^ 32 * m) div 2 ^ 32 = c + m" "(n + 2 ^ 32 * m) mod 2 ^ 32 = lo"
    using assms by simp_all
  ultimately show ?thesis using assms(1) by (simp only: add.commute)
qed

lemma bval_sub_carry:
  "sint num = - 1 \<or> sint num = 0 \<Longrightarrow>
   bval (sub_carry num xs) = (sint num + bval xs) mod 2 ^ (32 * length xs)"
proof (induction num xs rule: sub_carry.induct)
  case (2 num x xs)
  show ?case
  proof (cases "num = 0")
    case True
    then show ?thesis using bval_bound [of "x # xs"] bval_nonneg [of "x # xs"] by simp
  next
    case False
    define n where "n = num + ucast x"
    have n: "sint n = sint num + uint x"
      using "2.prems" u32_bounds [of x] by (auto simp: n_def sint_add_nowrap_u64)
    then have "sint (BIGDNs n) = - 1 \<or> sint (BIGDNs n) = 0"
      using "2.prems" u32_bounds [of x] div_borrow [of "sint n"] by (auto simp: sint_BIGDNs)
    with "2.IH" [OF False] have
      "bval (sub_carry (BIGDNs n) xs) = (sint (BIGDNs n) + bval xs) mod 2 ^ (32 * length xs)"
      by (simp add: n_def)
    from sub_step_mod [OF this, of "sint n" "uint (BIGLO n)"]
    have step: "uint (BIGLO n) + 2 ^ 32 * bval (sub_carry (BIGDNs n) xs) =
        (sint n + 2 ^ 32 * bval xs) mod 2 ^ (32 * Suc (length xs))"
      using u32_bounds [of "BIGLO n"] BIGLO_BIGDNs [of n] by simp
    have "bval (sub_carry num (x # xs)) = uint (BIGLO n) + 2 ^ 32 * bval (sub_carry (BIGDNs n) xs)"
      using False by (simp add: Let_def n_def)
    also note step
    also have "sint n + 2 ^ 32 * bval xs = sint num + bval (x # xs)"
      by (simp add: n)
    finally show ?thesis by simp
  qed
qed simp

lemma bval_sub_loop:
  "length ys \<le> length xs \<Longrightarrow> sint num = - 1 \<or> sint num = 0 \<Longrightarrow>
   bval (sub_loop num xs ys) = (sint num + bval xs - bval ys) mod 2 ^ (32 * length xs)"
proof (induction num xs ys rule: sub_loop.induct)
  case (1 num xs)
  then show ?case by (simp add: bval_sub_carry)
next
  case (2 num x xs y ys)
  define n where "n = num + (ucast x - ucast y)"
  define d where "d = uint x - uint y"
  have d: "- 4294967295 \<le> d" "d \<le> 4294967295"
    using u32_bounds [of x] u32_bounds [of y] unfolding d_def by linarith+
  then have "sint (ucast x - ucast y :: u64) = d"
    by (simp add: sint_minus_nowrap_u64 flip: d_def)
  then have n: "sint n = sint num + d"
    using "2.prems"(2) d by (auto simp: n_def sint_add_nowrap_u64)
  then have "sint (BIGDNs n) = - 1 \<or> sint (BIGDNs n) = 0"
    using "2.prems"(2) d div_borrow [of "sint n"] by (auto simp: sint_BIGDNs)
  with "2.IH" [OF refl] "2.prems" have
    "bval (sub_loop (BIGDNs n) xs ys) = (sint (BIGDNs n) + (bval xs - bval ys)) mod 2 ^ (32 * length xs)"
    by (simp add: n_def algebra_simps)
  from sub_step_mod [OF this, of "sint n" "uint (BIGLO n)"]
  have step: "uint (BIGLO n) + 2 ^ 32 * bval (sub_loop (BIGDNs n) xs ys) =
      (sint n + 2 ^ 32 * (bval xs - bval ys)) mod 2 ^ (32 * Suc (length xs))"
    using u32_bounds [of "BIGLO n"] BIGLO_BIGDNs [of n] by simp
  have "bval (sub_loop num (x # xs) (y # ys)) =
      uint (BIGLO n) + 2 ^ 32 * bval (sub_loop (BIGDNs n) xs ys)"
    by (simp add: Let_def n_def)
  also note step
  also have "sint n + 2 ^ 32 * (bval xs - bval ys) = sint num + bval (x # xs) - bval (y # ys)"
    by (simp add: n d_def)
  finally show ?case by simp
qed simp

lemma bval_sub:
  assumes "length ys \<le> length xs" and "bval ys \<le> bval xs"
  shows "bval (sub_loop 0 xs ys) = bval xs - bval ys"
  using assms bval_bound [of xs] bval_nonneg [of ys] by (simp add: bval_sub_loop)

section \<open>Signed addition\<close>

lemma swap_loop_iff:
  "length xs = length ys \<Longrightarrow> swap_loop (rev xs) (rev ys) \<longleftrightarrow> bval xs < bval ys"
proof (induction xs arbitrary: ys rule: rev_induct)
  case (snoc x xs)
  then obtain ys' y where ys: "ys = ys' @ [y]" and len: "length xs = length ys'"
    by (cases ys rule: rev_cases) auto
  define P where "P = (2 :: int) ^ (32 * length xs)"
  have b: "bval (xs @ [x]) = bval xs + P * uint x" "bval ys = bval ys' + P * uint y"
    by (simp_all add: ys len P_def bval_append)
  have r: "0 \<le> bval xs" "bval xs < P" "0 \<le> bval ys'" "bval ys' < P"
    using bval_bound [of xs] bval_bound [of ys'] by (simp_all add: P_def len bval_nonneg)
  have lt: "bval a + P * u < bval c + P * v" if "u < v" "bval a < P" "0 \<le> bval c" for a c u v
  proof -
    from that(1) have "P * (u + 1) \<le> P * v" by (intro mult_left_mono) (simp_all add: P_def)
    with that show ?thesis by (simp add: algebra_simps)
  qed
  consider "y < x" | "x < y" | "x = y" by fastforce
  then show ?case
  proof cases
    case 1
    then show ?thesis using lt [of "uint y" "uint x" ys' xs] r b
      by (simp add: ys word_less_def)
  next
    case 2
    then show ?thesis using lt [of "uint x" "uint y" xs ys'] r b
      by (auto simp: ys word_less_def)
  next
    case 3
    then show ?thesis using snoc.IH [OF len] b by (simp add: ys)
  qed
qed simp

text \<open>\<open>bigsub\<close> trusts the lengths: a longer operand must be the larger one.\<close>

definition length_ordered :: "bdigit list \<Rightarrow> bdigit list \<Rightarrow> bool" where
  "length_ordered xs ys \<longleftrightarrow>
     (length xs < length ys \<longrightarrow> bval xs \<le> bval ys) \<and> (length ys < length xs \<longrightarrow> bval ys \<le> bval xs)"

lemma length_ordered_ok: "digits_ok xs \<Longrightarrow> digits_ok ys \<Longrightarrow> length_ordered xs ys"
  by (auto simp: length_ordered_def dest: digits_ok_length_mono less_imp_le)

lemma length_ordered_same [simp]: "length xs = length ys \<Longrightarrow> length_ordered xs ys"
  by (simp add: length_ordered_def)

lemma length_ordered_sym: "length_ordered xs ys \<Longrightarrow> length_ordered ys xs"
  by (auto simp: length_ordered_def)

lemma big_int_bigsub:
  assumes "length_ordered (big_digits x) (big_digits y)"
  shows "big_int (bigsub x y) = bval (big_digits x) - bval (big_digits y)"
proof -
  define xs ys where "xs = big_digits x" and "ys = big_digits y"
  define swapped where
    "swapped \<longleftrightarrow> length xs < length ys \<or> length xs = length ys \<and> swap_loop (rev xs) (rev ys)"
  have eq: "bigsub x y = (if swapped then mk_big False (sub_loop 0 ys xs) else mk_big True (sub_loop 0 xs ys))"
    by (simp add: bigsub_def swapped_def xs_def ys_def Let_def)
  show ?thesis
  proof (cases swapped)
    case True
    then have "length xs \<le> length ys" "bval xs \<le> bval ys"
      using assms swap_loop_iff [of xs ys]
      by (auto simp: swapped_def length_ordered_def xs_def ys_def)
    from bval_sub [OF this] True show ?thesis
      by (simp add: eq big_int_def xs_def ys_def)
  next
    case False
    then have "length ys \<le> length xs" "bval ys \<le> bval xs"
      using assms swap_loop_iff [of xs ys]
      by (auto simp: swapped_def length_ordered_def xs_def ys_def)
    from bval_sub [OF this] False show ?thesis
      by (simp add: eq big_int_def xs_def ys_def)
  qed
qed

lemma big_int_bigadd_same:
  assumes "big_sign x = (sign = big_sign y)"
  shows "big_int (bigadd x y sign) = big_int x + (if sign then big_int y else - big_int y)"
proof -
  define z where "z = (if length (big_digits y) < length (big_digits x)
    then (big_digits y, big_digits x) else (big_digits x, big_digits y))"
  have "bval (add_loop 0 (fst z) (snd z)) = bval (big_digits x) + bval (big_digits y)"
    by (subst bval_add_loop) (auto simp: z_def)
  moreover have "bigadd x y sign = mk_big (sign = big_sign y) (add_loop 0 (fst z) (snd z))"
    using assms by (simp add: bigadd_def z_def Let_def)
  ultimately show ?thesis using assms by (simp add: big_int_def)
qed

lemma big_int_bigadd:
  assumes "length_ordered (big_digits x) (big_digits y)"
  shows "big_int (bigadd x y sign) = big_int x + (if sign then big_int y else - big_int y)"
proof (cases "big_sign x = (sign = big_sign y)")
  case True
  then show ?thesis by (rule big_int_bigadd_same)
next
  case False
  show ?thesis
  proof (cases "sign = big_sign y")
    case True
    with False show ?thesis
      using big_int_bigsub [OF length_ordered_sym [OF assms]]
      by (auto simp: bigadd_def big_int_def Let_def)
  next
    case False
    with \<open>big_sign x \<noteq> (sign = big_sign y)\<close> show ?thesis
      using big_int_bigsub [OF assms] by (auto simp: bigadd_def big_int_def Let_def)
  qed
qed

section \<open>The methods\<close>

definition rb_big_plus :: "('f, 'o) rb_env \<Rightarrow> rbignum \<Rightarrow> ('f, 'o) rb_value \<Rightarrow> ('f, 'o) rb_result" where
  "rb_big_plus env x y =
     (case y of
        RInt v \<Rightarrow> Inr (RInt (bignorm (VBig (bigadd x (to_big v) True))))
      | RFloat f \<Rightarrow> Inr (RFloat (dbl_plus env (rb_big2dbl env x) f))
      | _ \<Rightarrow> coerce_bin env ''+'' (RInt (VBig x)) y)"

definition rb_big_minus :: "('f, 'o) rb_env \<Rightarrow> rbignum \<Rightarrow> ('f, 'o) rb_value \<Rightarrow> ('f, 'o) rb_result" where
  "rb_big_minus env x y =
     (case y of
        RInt v \<Rightarrow> Inr (RInt (bignorm (VBig (bigadd x (to_big v) False))))
      | RFloat f \<Rightarrow> Inr (RFloat (dbl_minus env (rb_big2dbl env x) f))
      | _ \<Rightarrow> coerce_bin env ''-'' (RInt (VBig x)) y)"

definition rb_big_uminus :: "rbignum \<Rightarrow> rb_int" where
  "rb_big_uminus x = bignorm (VBig (x\<lparr>big_sign := \<not> big_sign x\<rparr>))"

definition rb_big_abs :: "rbignum \<Rightarrow> rbignum" where
  "rb_big_abs x = (if \<not> big_sign x then x\<lparr>big_sign := True\<rparr> else x)"

definition rb_big_size :: "rbignum \<Rightarrow> nat" where
  "rb_big_size big = length (big_digits big) * 4"

definition rb_big_odd_p :: "rbignum \<Rightarrow> bool" where
  "rb_big_odd_p num = (big_digits num ! 0 AND 1 \<noteq> 0)"

definition rb_big_even_p :: "rbignum \<Rightarrow> bool" where
  "rb_big_even_p num = (\<not> (big_digits num ! 0 AND 1 \<noteq> 0))"

text \<open>\<open>while (xlen-- && (BDIGITS(x)[xlen]==BDIGITS(y)[xlen]));\<close> on the reversed digits.\<close>

fun cmp_loop :: "bdigit list \<Rightarrow> bdigit list \<Rightarrow> int" where
  "cmp_loop (x # xs) (y # ys) =
     (if x = y then cmp_loop xs ys else if y < x then 1 else - 1)"
| "cmp_loop _ _ = 0"

definition big_cmp_big :: "rbignum \<Rightarrow> rbignum \<Rightarrow> int" where
  "big_cmp_big x y =
     (let xs = big_digits x; ys = big_digits y in
      if \<not> big_sign y \<and> big_sign x then 1
      else if \<not> big_sign x \<and> big_sign y then - 1
      else if length xs < length ys then (if big_sign x then - 1 else 1)
      else if length ys < length xs then (if big_sign x then 1 else - 1)
      else let c = cmp_loop (rev xs) (rev ys) in if big_sign x then c else - c)"

definition rb_big_cmp :: "('f, 'o) rb_env \<Rightarrow> rbignum \<Rightarrow> ('f, 'o) rb_value \<Rightarrow> ('f, 'o) rb_result" where
  "rb_big_cmp env x y =
     (case y of
        RInt v \<Rightarrow> Inr (INT2FIX (big_cmp_big x (to_big v)))
      | RFloat f \<Rightarrow> Inr (rb_dbl_cmp env (rb_big2dbl env x) f)
      | _ \<Rightarrow> coerce_cmp env ''<=>'' (RInt (VBig x)) y)"

definition big_eq_big :: "rbignum \<Rightarrow> rbignum \<Rightarrow> bool" where
  "big_eq_big x y \<longleftrightarrow>
     big_sign x = big_sign y \<and> length (big_digits x) = length (big_digits y) \<and>
     take (length (big_digits y)) (big_digits x) = take (length (big_digits y)) (big_digits y)"

definition rb_big_eq :: "('f, 'o) rb_env \<Rightarrow> rbignum \<Rightarrow> ('f, 'o) rb_value \<Rightarrow> bool" where
  "rb_big_eq env x y =
     (case y of
        RInt v \<Rightarrow> big_eq_big x (to_big v)
      | RFloat f \<Rightarrow> if dbl_isnan env f then False else dbl_eq env f (rb_big2dbl env x)
      | _ \<Rightarrow> rb_equal env y (RInt (VBig x)))"

definition rb_big_eql :: "rbignum \<Rightarrow> ('f, 'o) rb_value \<Rightarrow> bool" where
  "rb_big_eql x y = (case y of RInt (VBig b) \<Rightarrow> big_eq_big x b | _ \<Rightarrow> False)"

lemma rb_big_plus_int:
  assumes "digits_ok (big_digits x)" and "normal_int v"
  shows "\<exists>r. rb_big_plus env x (RInt v) = Inr r \<and> is_int_value r (big_int x + int_of v)"
  using assms length_ordered_ok [OF assms(1) digits_ok_to_big [OF assms(2)]]
  by (auto simp: rb_big_plus_def big_int_bigadd intro!: is_int_value_norm)

lemma rb_big_minus_int:
  assumes "digits_ok (big_digits x)" and "normal_int v"
  shows "\<exists>r. rb_big_minus env x (RInt v) = Inr r \<and> is_int_value r (big_int x - int_of v)"
  using assms length_ordered_ok [OF assms(1) digits_ok_to_big [OF assms(2)]]
  by (auto simp: rb_big_minus_def big_int_bigadd intro!: is_int_value_norm)

lemma cmp_loop_sgn:
  "length xs = length ys \<Longrightarrow> cmp_loop (rev xs) (rev ys) = sgn (bval xs - bval ys)"
proof -
  assume len: "length xs = length ys"
  have "length as = length bs \<Longrightarrow>
      cmp_loop as bs = (if swap_loop as bs then - 1 else if as = bs then 0 else 1)" for as bs
    by (induction as bs rule: list_induct2) (auto simp: not_less_iff_gr_or_eq)
  from this [of "rev xs" "rev ys"] len
  have "cmp_loop (rev xs) (rev ys) = (if bval xs < bval ys then - 1 else if xs = ys then 0 else 1)"
    by (simp add: swap_loop_iff)
  then show ?thesis using bval_inj [OF len] by (auto simp: sgn_if)
qed

lemma big_cmp_big_nonzero:
  assumes ok: "digits_ok (big_digits x)" "digits_ok (big_digits y)" and nz: "big_int x \<noteq> 0 \<or> big_int y \<noteq> 0"
  shows "big_cmp_big x y = sgn (big_int x - big_int y)"
proof -
  define xs ys where d: "xs = big_digits x" "ys = big_digits y"
  have p: "0 \<le> bval xs" "0 \<le> bval ys" "0 < bval xs \<or> 0 < bval ys"
    using nz bval_nonneg [of xs] bval_nonneg [of ys] by (auto simp: big_int_def d less_le split: if_splits)
  consider "length xs < length ys" | "length ys < length xs" | "length xs = length ys" by fastforce
  then show ?thesis
  proof cases
    case 1
    with digits_ok_length_mono [OF ok] p show ?thesis
      by (auto simp: big_cmp_big_def Let_def big_int_def sgn_if simp flip: d)
  next
    case 2
    with digits_ok_length_mono [OF ok(2,1)] p show ?thesis
      by (auto simp: big_cmp_big_def Let_def big_int_def sgn_if simp flip: d)
  next
    case 3
    with cmp_loop_sgn [OF 3] p show ?thesis
      by (auto simp: big_cmp_big_def Let_def big_int_def sgn_if simp flip: d)
  qed
qed

lemma normal_big_nonzero: "normal_int (VBig x) \<Longrightarrow> big_int x \<noteq> 0"
  by (auto simp: fixable_defs)

lemma big_cmp_big_correct:
  assumes "normal_int (VBig x)" and "digits_ok (big_digits y)"
  shows "big_cmp_big x y = sgn (big_int x - big_int y)"
  using assms normal_big_nonzero [OF assms(1)] by (intro big_cmp_big_nonzero) simp_all

lemma big_eq_big_correct:
  assumes ok: "digits_ok (big_digits x)" "digits_ok (big_digits y)" and nz: "big_int x \<noteq> 0 \<or> big_int y \<noteq> 0"
  shows "big_eq_big x y \<longleftrightarrow> big_int x = big_int y"
proof
  assume "big_int x = big_int y"
  with nz have "bval (big_digits x) = bval (big_digits y)" "big_sign x = big_sign y"
    using bval_nonneg [of "big_digits x"] bval_nonneg [of "big_digits y"]
    by (auto simp: big_int_def split: if_splits)
  moreover from this(1) have "big_digits x = big_digits y"
    using ok by (intro digits_ok_unique)
  ultimately show "big_eq_big x y" by (simp add: big_eq_big_def)
qed (auto simp: big_eq_big_def big_int_def)

lemma rb_big_odd_p_correct:
  assumes "big_digits x \<noteq> []"
  shows "rb_big_odd_p x \<longleftrightarrow> odd (big_int x)"
proof -
  obtain d ds where x: "big_digits x = d # ds" using assms by (cases "big_digits x") auto
  have "(d AND 1 \<noteq> 0) \<longleftrightarrow> odd d" by (simp add: and_one_eq odd_iff_mod_2_eq_one)
  moreover have "odd d \<longleftrightarrow> odd (uint d)" by (simp flip: bit_0 add: bit_uint_iff)
  ultimately show ?thesis by (simp add: rb_big_odd_p_def big_int_def x)
qed

end
