(* ===== verification/BigMul.thy ===== *)
theory BigMul
  imports BigAdd
begin

text \<open>
  Multiplication, squaring and powers (\<open>bigmul1\<close>, \<open>rb_big_mul0\<close>, \<open>rb_big_mul\<close>, \<open>bigsqr\<close>,
  \<open>rb_big_pow\<close> of \<open>lib/ruby/bignum.c\<close>).  The rows of the schoolbook product are added in place:
  the recursion walks the suffix of the result array that starts at the row's position.

  A multiplication of more than 10000 digits runs in \<open>rb_thread_blocking_region\<close>, where
  \<open>rb_big_stop\<close> may set the \<open>stop\<close> flag at any time; \<open>stop i\<close> is what the poll in row \<open>i\<close> reads.
\<close>

section \<open>Schoolbook multiplication\<close>

fun mul_row :: "bdigit_dbl \<Rightarrow> bdigit_dbl \<Rightarrow> bdigit list \<Rightarrow> bdigit list \<Rightarrow> bdigit list" where
  "mul_row dd n [] [] = []"
| "mul_row dd n [] (z # zs) = (if n \<noteq> 0 then ucast n # zs else z # zs)"
| "mul_row dd n (y # ys) [] = []"
| "mul_row dd n (y # ys) (z # zs) =
     (let ee = n + dd * ucast y;
          n' = ucast z + ee;
          z' = (if ee \<noteq> 0 then BIGLO n' else z)
      in z' # mul_row dd (BIGDN n') ys zs)"

fun mul_rows :: "(nat \<Rightarrow> bool) \<Rightarrow> nat \<Rightarrow> bdigit list \<Rightarrow> bdigit list \<Rightarrow> bdigit list \<Rightarrow> bdigit list option" where
  "mul_rows stop i [] ys zs = Some zs"
| "mul_rows stop i (x # xs) ys zs =
     (if stop i then None
      else
        let zs' = (if x = 0 then zs else mul_row (ucast x) 0 ys zs)
        in case zs' of
             [] \<Rightarrow> Some []
           | z # zs'' \<Rightarrow> map_option ((#) z) (mul_rows stop (Suc i) xs ys zs''))"

definition bigmul1 :: "(nat \<Rightarrow> bool) \<Rightarrow> rbignum \<Rightarrow> rbignum \<Rightarrow> bdigit list option" where
  "bigmul1 stop x y =
     (let zds = replicate (length (big_digits x) + length (big_digits y) + 1) 0
      in mul_rows stop 0 (big_digits x) (big_digits y) zds)"

definition big_mul_big :: "(nat \<Rightarrow> bool) \<Rightarrow> rbignum \<Rightarrow> rbignum \<Rightarrow> rbignum option" where
  "big_mul_big stop x y =
     (let stop' = (if 10000 < length (big_digits x) + length (big_digits y) then stop else (\<lambda>_. False))
      in map_option (mk_big (big_sign x = big_sign y)) (bigmul1 stop' x y))"

definition rb_big_mul0 ::
  "('f, 'o) rb_env \<Rightarrow> (nat \<Rightarrow> bool) \<Rightarrow> rbignum \<Rightarrow> ('f, 'o) rb_value \<Rightarrow> ('f, 'o) rb_result" where
  "rb_big_mul0 env stop x y =
     (case y of
        RInt v \<Rightarrow>
          (case big_mul_big stop x (to_big v) of
             None \<Rightarrow> Inr RNil
           | Some z \<Rightarrow> Inr (RInt (VBig z)))
      | RFloat f \<Rightarrow> Inr (RFloat (dbl_times env (rb_big2dbl env x) f))
      | _ \<Rightarrow> coerce_bin env ''*'' (RInt (VBig x)) y)"

definition bignorm_value :: "('f, 'o) rb_value \<Rightarrow> ('f, 'o) rb_value" where
  "bignorm_value r = (case r of RInt v \<Rightarrow> RInt (bignorm v) | _ \<Rightarrow> r)"

definition rb_big_mul ::
  "('f, 'o) rb_env \<Rightarrow> (nat \<Rightarrow> bool) \<Rightarrow> rbignum \<Rightarrow> ('f, 'o) rb_value \<Rightarrow> ('f, 'o) rb_result" where
  "rb_big_mul env stop x y = map_sum id bignorm_value (rb_big_mul0 env stop x y)"

text \<open>The double digit of one inner step never wraps.\<close>

lemma mul_step_bound:
  assumes "uint (n :: bdigit_dbl) < 2 ^ 32" and "uint d < (2 :: int) ^ 32"
  shows "uint (n + ucast (d :: bdigit) * ucast (y :: bdigit)) = uint n + uint d * uint y"
    and "uint n + uint d * uint y + uint (z :: bdigit) < 2 ^ 64"
proof -
  have "uint d * uint y \<le> (2 ^ 32 - 1) * (2 ^ 32 - 1)"
    using u32_bounds [of d] u32_bounds [of y] by (intro mult_mono) simp_all
  then have le: "uint d * uint y \<le> 18446744065119617025" by simp
  then have m: "uint (ucast d * ucast y :: u64) = uint d * uint y"
    by (simp add: uint_mult_nowrap)
  show "uint n + uint d * uint y + uint z < 2 ^ 64"
    using le assms u32_bounds [of z] by simp
  then have "uint n + uint d * uint y < 2 ^ 64" using u32_bounds [of z] by linarith
  with m show "uint (n + ucast d * ucast y) = uint n + uint d * uint y"
    by (simp add: uint_add_nowrap)
qed

lemma length_mul_row [simp]: "length (mul_row dd n ys zs) = length zs"
  by (induction dd n ys zs rule: mul_row.induct) (simp_all add: Let_def)

lemma bval_mul_row:
  assumes "length ys < length zs" and "zs ! length ys = 0" and "uint n < 2 ^ 32"
  shows "bval (mul_row (ucast (d :: bdigit)) n ys zs) = bval zs + uint n + uint d * bval ys"
  using assms
proof (induction "ucast d :: u64" n ys zs rule: mul_row.induct)
  case (2 n z zs)
  then show ?case by (simp add: uint_ucast_u64_u32)
next
  case (4 n y ys z zs)
  define ee where "ee = n + ucast d * ucast y"
  define n' where "n' = ucast z + ee"
  have d: "uint d < (2 :: int) ^ 32" using u32_bounds [of d] by simp
  note b = mul_step_bound [OF "4.prems"(3) d, of y]
  have ee: "uint ee = uint n + uint d * uint y" by (simp add: ee_def b)
  then have n': "uint n' = uint z + uint ee"
    using b(2) [of z] by (simp add: n'_def uint_add_nowrap)
  moreover have "uint (BIGDN n') < 2 ^ 32"
    using uint_BIGDN_lt [of n'] by simp
  ultimately have IH: "bval (mul_row (ucast d) (BIGDN n') ys zs) = bval zs + uint (BIGDN n') + uint d * bval ys"
    using "4.hyps" [of ee n' "if ee \<noteq> 0 then BIGLO n' else z"] "4.prems" by (simp add: ee_def n'_def)
  have "ee = 0 \<Longrightarrow> BIGLO n' = z"
    using n' u32_bounds [of z] by (simp add: take_word_eq_iff uint_BIGLO)
  with IH have "bval (mul_row (ucast d) n (y # ys) (z # zs)) =
      uint (BIGLO n') + 2 ^ 32 * (bval zs + uint (BIGDN n') + uint d * bval ys)"
    by (simp add: Let_def flip: ee_def n'_def)
  then show ?case using BIGLO_BIGDN [of n'] n' ee by (simp add: algebra_simps)
qed simp_all

lemma drop_mul_row: "drop (Suc (length ys)) (mul_row dd n ys zs) = drop (Suc (length ys)) zs"
  by (induction dd n ys zs rule: mul_row.induct) (simp_all add: Let_def)

lemma bval_mul_rows:
  assumes "mul_rows stop i xs ys zs = Some rs"
    and "length zs = length xs + length ys + 1" and "\<forall>z \<in> set (drop (length ys) zs). z = 0"
  shows "bval rs = bval zs + bval xs * bval ys \<and> length rs = length zs"
  using assms
proof (induction xs arbitrary: i zs rs)
  case (Cons x xs)
  define zs' where "zs' = (if x = 0 then zs else mul_row (ucast x) 0 ys zs)"
  have len: "length zs' = Suc (length xs + length ys + 1)"
    using Cons.prems(2) by (simp add: zs'_def)
  then obtain z ws where zs': "zs' = z # ws" by (cases zs') auto
  obtain rs' where rs': "mul_rows stop (Suc i) xs ys ws = Some rs'" and rs: "rs = z # rs'"
    using Cons.prems(1) by (auto simp: Let_def zs' split: if_splits simp flip: zs'_def)
  have z0: "zs ! length ys = 0"
    using Cons.prems(2,3) by (cases "drop (length ys) zs") (auto simp: nth_via_drop)
  have val: "bval zs' = bval zs + uint x * bval ys"
    using bval_mul_row [of ys zs 0 x] z0 Cons.prems(2) by (simp add: zs'_def)
  have "drop (Suc (length ys)) zs' = drop (Suc (length ys)) zs"
    by (simp add: zs'_def drop_mul_row)
  then have "set (drop (length ys) ws) \<subseteq> set (drop (length ys) zs)"
    using set_drop_subset_set_drop [of "length ys" "Suc (length ys)" zs] by (simp add: zs')
  with Cons.prems(3) have "\<forall>z \<in> set (drop (length ys) ws). z = 0" by blast
  with Cons.IH [OF rs'] len zs' have IH: "bval rs' = bval ws + bval xs * bval ys" "length rs' = length ws"
    by auto
  then have "bval rs = bval zs' + 2 ^ 32 * (bval xs * bval ys)"
    by (simp add: rs zs')
  with val IH(2) len zs' rs Cons.prems(2) show ?case by (simp add: algebra_simps)
qed simp

lemma mul_rows_total: "\<forall>k. \<not> stop k \<Longrightarrow> \<exists>rs. mul_rows stop i xs ys zs = Some rs"
  by (induction xs arbitrary: i zs) (auto simp: Let_def split: list.split)

text \<open>Whatever the polls read, a product that is delivered is the product.\<close>

lemma big_mul_big_correct:
  assumes "big_mul_big stop x y = Some z"
  shows "big_int z = big_int x * big_int y"
    and "length (big_digits z) = length (big_digits x) + length (big_digits y) + 1"
    and "big_sign z = (big_sign x = big_sign y)"
proof -
  from assms obtain stop' ds where z: "z = mk_big (big_sign x = big_sign y) ds"
    and m: "mul_rows stop' 0 (big_digits x) (big_digits y)
      (replicate (length (big_digits x) + length (big_digits y) + 1) 0) = Some ds"
    by (auto simp: big_mul_big_def bigmul1_def Let_def)
  from bval_mul_rows [OF m] have "bval ds = bval (big_digits x) * bval (big_digits y)"
    "length ds = length (big_digits x) + length (big_digits y) + 1"
    by (auto simp: bval_replicate_0 simp del: replicate_Suc)
  then show "big_int z = big_int x * big_int y"
    "length (big_digits z) = length (big_digits x) + length (big_digits y) + 1"
    "big_sign z = (big_sign x = big_sign y)"
    by (auto simp: z big_int_def)
qed

lemma big_mul_big_total: "\<forall>k. \<not> stop k \<Longrightarrow> \<exists>z. big_mul_big stop x y = Some z"
  using mul_rows_total by (auto simp: big_mul_big_def bigmul1_def Let_def)

lemma big_mul_big_small:
  "length (big_digits x) + length (big_digits y) \<le> 10000 \<Longrightarrow> \<exists>z. big_mul_big stop x y = Some z"
  using mul_rows_total by (auto simp: big_mul_big_def bigmul1_def Let_def)

text \<open>A product is given up exactly when one of the polls, one per digit of the first operand, reads \<open>stop\<close>.\<close>

lemma mul_rows_stopped:
  assumes "length xs \<le> length zs"
  shows "mul_rows stop i xs ys zs = None \<longleftrightarrow> (\<exists>k < length xs. stop (i + k))"
  using assms
proof (induction xs arbitrary: i zs)
  case (Cons x xs)
  define zs' where "zs' = (if x = 0 then zs else mul_row (ucast x) 0 ys zs)"
  have "length zs' = length zs" by (simp add: zs'_def)
  with Cons.prems obtain z ws where zs': "zs' = z # ws" and len: "length xs \<le> length ws"
    by (cases zs') auto
  have "mul_rows stop i (x # xs) ys zs = None \<longleftrightarrow> stop i \<or> mul_rows stop (Suc i) xs ys ws = None"
    by (simp add: Let_def zs' flip: zs'_def)
  then show ?case by (auto simp: Cons.IH [OF len] Ex_less_Suc2)
qed simp

lemma big_mul_big_stopped:
  "big_mul_big stop x y = None \<longleftrightarrow>
     10000 < length (big_digits x) + length (big_digits y) \<and> (\<exists>k < length (big_digits x). stop k)"
  by (simp add: big_mul_big_def bigmul1_def Let_def mul_rows_stopped del: replicate_Suc)

lemma rb_big_mul_interrupted:
  "if 10000 < length (big_digits x) + length (big_digits (to_big v)) \<and> (\<exists>k < length (big_digits x). stop k)
   then rb_big_mul env stop x (RInt v) = Inr RNil
   else \<exists>r. rb_big_mul env stop x (RInt v) = Inr r \<and> is_int_value r (big_int x * int_of v)"
proof (cases "big_mul_big stop x (to_big v)")
  case None
  with big_mul_big_stopped [of stop x "to_big v"] show ?thesis
    by (auto simp: rb_big_mul_def rb_big_mul0_def bignorm_value_def)
next
  case (Some z)
  then have "\<exists>r. rb_big_mul env stop x (RInt v) = Inr r \<and> is_int_value r (big_int x * int_of v)"
    using big_mul_big_correct(1) [OF Some]
    by (auto simp: rb_big_mul_def rb_big_mul0_def bignorm_value_def intro!: is_int_value_norm)
  with Some big_mul_big_stopped [of stop x "to_big v"] show ?thesis by auto
qed

lemma rb_big_mul_int:
  assumes "\<forall>k. \<not> stop k"
  shows "\<exists>r. rb_big_mul env stop x (RInt v) = Inr r \<and> is_int_value r (big_int x * int_of v)"
proof -
  obtain z where z: "big_mul_big stop x (to_big v) = Some z"
    using big_mul_big_total [OF assms] by blast
  with big_mul_big_correct(1) [OF z] show ?thesis
    by (auto simp: rb_big_mul_def rb_big_mul0_def bignorm_value_def intro!: is_int_value_norm)
qed


section \<open>Squares\<close>

text \<open>
  The last loop of \<open>bigsqr\<close>: twice the cross product \<open>a2\<close> is added to the digits of \<open>z\<close> above
  position \<open>k\<close>, the carry runs on, and a last carry becomes a new digit.
\<close>

fun sqr_carry :: "bdigit_dbl \<Rightarrow> bdigit list \<Rightarrow> bdigit list" where
  "sqr_carry num [] = (if num \<noteq> 0 then [BIGLO num] else [])"
| "sqr_carry num (z # zs) =
     (if num \<noteq> 0 then
        let num' = num + ucast z in BIGLO num' # sqr_carry (BIGDN num') zs
      else z # zs)"

fun sqr_add :: "bdigit_dbl \<Rightarrow> bdigit list \<Rightarrow> bdigit list \<Rightarrow> bdigit list" where
  "sqr_add num zs [] = sqr_carry num zs"
| "sqr_add num (z # zs) (d # ds) =
     (let num' = num + (ucast z + push_bit 1 (ucast d))
      in BIGLO num' # sqr_add (BIGDN num') zs ds)"
| "sqr_add num [] (d # ds) = []"

text \<open>
  \<open>None\<close> is the crash of \<open>bigtrunc\<close> on the \<open>Qnil\<close> of a stopped multiplication.
\<close>

definition sqr_combine :: "nat \<Rightarrow> rbignum \<Rightarrow> rbignum \<Rightarrow> rbignum \<Rightarrow> rbignum" where
  "sqr_combine k z a2 ab =
     (let zl = big_digits z @ replicate (2 * k - length (big_digits z)) 0;
          zds = take (2 * k) zl @ big_digits a2
      in bigtrunc (z\<lparr>big_digits := take k zds @ sqr_add 0 (drop k zds) (big_digits ab)\<rparr>))"

function bigsqr :: "(nat \<Rightarrow> bool) \<Rightarrow> rbignum \<Rightarrow> rbignum option" where
  "bigsqr stop x =
     (let ds = big_digits x; len = length ds; k = len div 2 in
      if len < 4000 div 32 then map_option bigtrunc (big_mul_big stop x x)
      else
        let a = mk_big True (drop k ds); b = mk_big True (take k ds)
        in case bigsqr stop a of
             None \<Rightarrow> None
           | Some a' \<Rightarrow>
               (case bigsqr stop b of
                  None \<Rightarrow> None
                | Some z \<Rightarrow>
                    map_option (\<lambda>ab. sqr_combine k z (bigtrunc a') (bigtrunc ab))
                      (big_mul_big stop a b)))"
  by pat_completeness auto
termination
  by (relation "measure (\<lambda>(stop, x). length (big_digits x))") auto

declare bigsqr.simps [simp del]

lemma bval_sqr_carry: "uint num < 2 ^ 32 \<Longrightarrow> bval (sqr_carry num zs) = uint num + bval zs"
proof (induction num zs rule: sqr_carry.induct)
  case (1 num)
  then show ?case by (auto simp: uint_BIGLO)
next
  case (2 num z zs)
  show ?case
  proof (cases "num = 0")
    case False
    have s: "uint (num + ucast z) = uint num + uint z"
      using 2(2) u32_bounds [of z] by (simp add: uint_add_nowrap)
    with 2(1) False uint_BIGDN_lt [of "num + ucast z"]
    have "bval (sqr_carry num (z # zs)) =
        uint (BIGLO (num + ucast z)) + 2 ^ 32 * uint (BIGDN (num + ucast z)) + 2 ^ 32 * bval zs"
      by (simp add: Let_def)
    then show ?thesis using BIGLO_BIGDN [of "num + ucast z"] s by simp
  qed simp
qed

lemma bval_sqr_add:
  "length ds \<le> length zs \<Longrightarrow> uint num \<le> 2 \<Longrightarrow>
   bval (sqr_add num zs ds) = uint num + bval zs + 2 * bval ds"
proof (induction num zs ds rule: sqr_add.induct)
  case (1 num zs)
  then show ?case by (simp add: bval_sqr_carry)
next
  case (2 num z zs d ds)
  define n where "n = num + (ucast z + push_bit 1 (ucast d))"
  have "uint (push_bit 1 (ucast d) :: u64) = 2 * uint d"
    using u32_bounds [of d] by (simp add: push_bit_eq_mult uint_word_ariths)
  then have n: "uint n = uint num + uint z + 2 * uint d"
    using "2.prems" u32_bounds [of z] u32_bounds [of d] by (simp add: n_def uint_add_nowrap)
  have "uint (BIGDN n) \<le> 2"
    using "2.prems" n BIGLO_BIGDN_num [of n] uint_ge_0 [of "BIGLO n"] u32_bounds [of z] u32_bounds [of d]
    by linarith
  then have "bval (sqr_add (BIGDN n) zs ds) = uint (BIGDN n) + bval zs + 2 * bval ds"
    using "2.IH" [OF refl] "2.prems"(1) unfolding n_def by simp
  moreover have "sqr_add num (z # zs) (d # ds) = BIGLO n # sqr_add (BIGDN n) zs ds"
    by (simp only: sqr_add.simps Let_def n_def)
  ultimately have "bval (sqr_add num (z # zs) (d # ds)) =
      uint (BIGLO n) + 2 ^ 32 * uint (BIGDN n) + 2 ^ 32 * bval zs + 2 * 2 ^ 32 * bval ds"
    by simp
  then show ?case using BIGLO_BIGDN [of n] n by simp
qed simp

text \<open>How many digits a truncated array keeps.\<close>

lemma digits_ok_length_le:
  assumes "digits_ok ds" and lt: "bval ds < 2 ^ (32 * n)" and "0 < n"
  shows "length ds \<le> n"
proof (rule ccontr)
  assume "\<not> length ds \<le> n"
  with assms obtain zs d where t: "ds = zs @ [d]" "d \<noteq> 0" "n \<le> length zs"
    by (cases ds rule: rev_cases) (auto simp: digits_ok_def)
  have "(2 :: int) ^ (32 * n) \<le> 2 ^ (32 * length zs)" using t(3) by (intro power_increasing) simp_all
  also have "\<dots> \<le> bval ds" using bval_snoc_ge [OF t(2), of zs] t(1) by simp
  finally show False using lt by simp
qed

text \<open>The cross product fits the digits above position \<open>k\<close>.\<close>

lemma cross_fits:
  assumes k: "0 < k" and la: "digits_ok a2" and a2: "bval a2 = a * a"
    and b: "0 \<le> b" "b < 2 ^ (32 * k)" and a: "0 \<le> a"
  shows "a * b < 2 ^ (32 * (k + length a2))"
proof -
  have "a \<le> a * a"
    using a mult_right_mono [of 1 a a] by (cases "a = 0") auto
  also have "\<dots> < 2 ^ (32 * length a2)" using bval_bound [of a2] a2 by simp
  finally have "a < 2 ^ (32 * length a2)" .
  with a b have "a * b < 2 ^ (32 * length a2) * 2 ^ (32 * k)"
    by (intro mult_strict_mono') simp_all
  then show ?thesis by (simp add: power_add algebra_simps)
qed

lemma bigsqr_correct:
  assumes "bigsqr stop x = Some z" and "big_digits x \<noteq> []"
  shows "big_int z = big_int x * big_int x \<and> big_sign z \<and> digits_ok (big_digits z)"
  using assms
proof (induction stop x arbitrary: z rule: bigsqr.induct)
  case (1 stop x)
  define ds where "ds = big_digits x"
  define k where "k = length ds div 2"
  define a where "a = mk_big True (drop k ds)"
  define b where "b = mk_big True (take k ds)"
  show ?case
  proof (cases "length ds < 4000 div 32")
    case True
    then obtain w where w: "big_mul_big stop x x = Some w" and z: "z = bigtrunc w"
      using "1.prems"(1) by (auto simp: bigsqr.simps [of stop x] Let_def ds_def)
    from big_mul_big_correct [OF w] "1.prems"(2) have "big_digits w \<noteq> []" by auto
    then show ?thesis
      using big_mul_big_correct [OF w] by (simp add: z digits_ok_bigtrunc)
  next
    case False
    then have k: "0 < k" "k < length ds" by (auto simp: k_def)
    from "1.prems"(1) False obtain a' z0 w where
      a': "bigsqr stop a = Some a'" and z0: "bigsqr stop b = Some z0"
      and w: "big_mul_big stop a b = Some w"
      and z: "z = sqr_combine k z0 (bigtrunc a') (bigtrunc w)"
      by (auto simp: bigsqr.simps [of stop x] Let_def simp flip: ds_def k_def a_def b_def
          split: option.splits)
    have nz: "big_digits a \<noteq> []" "big_digits b \<noteq> []" using k by (auto simp: a_def b_def)
    note IH1 = "1.IH"(1) [OF ds_def refl k_def False a_def b_def a' nz(1)]
    then have A: "big_int a' = big_int a * big_int a" "big_sign a'" "digits_ok (big_digits a')"
      by simp_all
    note IH2 = "1.IH"(2) [OF ds_def refl k_def False a_def b_def a' z0 nz(2)]
    then have B: "big_int z0 = big_int b * big_int b" "digits_ok (big_digits z0)" "big_sign z0"
      by simp_all
    have ab: "big_int a = bval (drop k ds)" "big_int b = bval (take k ds)"
      by (simp_all add: a_def b_def big_int_def)
    have split: "bval ds = big_int b + 2 ^ (32 * k) * big_int a"
      using bval_append [of "take k ds" "drop k ds"] k by (simp add: ab)
    define a2 where "a2 = big_digits (bigtrunc a')"
    have a2: "bval a2 = big_int a * big_int a" "digits_ok a2"
      using A digits_ok_bigtrunc [of a'] big_int_bigtrunc [of a']
      by (auto simp: a2_def big_int_def digits_ok_def)
    have len0: "length (big_digits z0) \<le> 2 * k"
    proof -
      have lt: "big_int b < 2 ^ (32 * k)"
        using bval_bound [of "take k ds"] k by (simp add: ab)
      then have "big_int b * big_int b < 2 ^ (32 * k) * 2 ^ (32 * k)"
        by (intro mult_strict_mono') (simp_all add: ab bval_nonneg)
      also have "\<dots> = 2 ^ (32 * (2 * k))" by (simp flip: power_add)
      finally have "bval (big_digits z0) < 2 ^ (32 * (2 * k))"
        using B(1,3) by (simp add: big_int_def [of z0])
      with B(2) k(1) show ?thesis by (intro digits_ok_length_le) simp_all
    qed
    define zl where "zl = big_digits z0 @ replicate (2 * k - length (big_digits z0)) 0"
    define zds where "zds = zl @ a2"
    have zds: "length zl = 2 * k" "bval zl = big_int b * big_int b"
      using len0 B by (simp_all add: zl_def bval_append big_int_def)
    define cr where "cr = big_digits (bigtrunc w)"
    have cr: "bval cr = big_int a * big_int b"
      using big_mul_big_correct [OF w] big_int_bigtrunc [of w]
      by (simp add: cr_def big_int_def a_def b_def)
    have "length cr \<le> k + length a2"
    proof (rule digits_ok_length_le)
      have "big_digits w \<noteq> []" using big_mul_big_correct(2) [OF w] by auto
      then show "digits_ok cr" by (simp add: cr_def digits_ok_bigtrunc)
      show "bval cr < 2 ^ (32 * (k + length a2))"
        unfolding cr using cross_fits [OF k(1) a2(2,1)] bval_bound [of "take k ds"] k
        by (simp add: ab bval_nonneg)
    qed (use k in simp)
    then have "bval (sqr_add 0 (drop k zds) cr) = bval (drop k zds) + 2 * bval cr"
      using zds by (subst bval_sqr_add) (auto simp: zds_def)
    moreover have len: "length (take k zds) = k" using zds(1) by (simp add: zds_def)
    moreover have "bval zds = bval (take k zds) + 2 ^ (32 * k) * bval (drop k zds)"
      using bval_append [of "take k zds" "drop k zds"] unfolding len by simp
    ultimately have "bval (take k zds @ sqr_add 0 (drop k zds) cr) =
        bval zds + 2 ^ (32 * k) * (2 * bval cr)"
      by (simp only: bval_append len) (simp add: algebra_simps)
    also have "bval zds = big_int b * big_int b + 2 ^ (32 * (2 * k)) * (big_int a * big_int a)"
      using zds a2 by (simp add: zds_def bval_append)
    also have "2 ^ (32 * (2 * k)) = (2 ^ (32 * k) * 2 ^ (32 * k) :: int)"
      by (simp flip: power_add)
    finally have val: "bval (take k zds @ sqr_add 0 (drop k zds) cr) = bval ds * bval ds"
      by (simp add: cr split algebra_simps)
    have "take (2 * k) zl = zl" using zds by simp
    then have zeq: "z = bigtrunc (z0\<lparr>big_digits := take k zds @ sqr_add 0 (drop k zds) cr\<rparr>)"
      by (simp add: z sqr_combine_def Let_def cr_def zds_def zl_def a2_def)
    have "take k zds \<noteq> []" using zds k by (auto simp: zds_def)
    then have "digits_ok (big_digits z)" unfolding zeq by (intro digits_ok_bigtrunc) simp
    moreover have "big_int z = bval ds * bval ds"
      unfolding zeq big_int_bigtrunc using B(3) val by (simp add: big_int_def)
    ultimately show ?thesis using B(3) by (simp add: zeq ds_def big_int_def [of x])
  qed
qed

lemma bigsqr_total: "\<forall>k. \<not> stop k \<Longrightarrow> \<exists>z. bigsqr stop x = Some z"
proof (induction stop x rule: bigsqr.induct)
  case (1 stop x)
  show ?case
  proof (cases "length (big_digits x) < 4000 div 32")
    case True
    then show ?thesis
      using big_mul_big_total [OF "1.prems", of x x] by (auto simp: bigsqr.simps [of stop x] Let_def)
  next
    case False
    define k where "k = length (big_digits x) div 2"
    define a where "a = mk_big True (drop k (big_digits x))"
    define b where "b = mk_big True (take k (big_digits x))"
    note IH = "1.IH" [OF refl refl k_def False a_def b_def]
    from IH(1) [OF "1.prems"] obtain a' where a': "bigsqr stop a = Some a'" by blast
    from IH(2) [OF a' "1.prems"] obtain z0 where z0: "bigsqr stop b = Some z0" by blast
    obtain w where "big_mul_big stop a b = Some w" using big_mul_big_total [OF "1.prems"] by blast
    with a' z0 False show ?thesis
      by (simp add: bigsqr.simps [of stop x] Let_def flip: k_def a_def b_def)
  qed
qed

section \<open>Powers\<close>

text \<open>
  The loop \<open>for (mask = FIXNUM_MAX + 1; mask; mask >>= 1)\<close> of \<open>rb_big_pow\<close>; its argument counts
  the masks left, from \<open>2 ^ 30\<close> down to 1.  The outer \<open>option\<close> is the crash of \<open>bigsqr\<close>, the
  inner one the initial \<open>z = 0\<close>.
\<close>

fun pow_loop ::
  "(nat \<Rightarrow> bool) \<Rightarrow> rbignum \<Rightarrow> u32 \<Rightarrow> nat \<Rightarrow> rbignum option \<Rightarrow> rbignum option option" where
  "pow_loop stop x yy 0 z = Some z"
| "pow_loop stop x yy (Suc k) z =
     (case (case z of None \<Rightarrow> Some None | Some b \<Rightarrow> map_option (Some \<circ> bigtrunc) (bigsqr stop b)) of
        None \<Rightarrow> None
      | Some z1 \<Rightarrow>
          if yy AND push_bit k 1 \<noteq> 0 then
            (case z1 of
               None \<Rightarrow> pow_loop stop x yy k (Some x)
             | Some b \<Rightarrow>
                 (case big_mul_big stop b x of
                    None \<Rightarrow> None
                  | Some m \<Rightarrow> pow_loop stop x yy k (Some (bigtrunc m))))
          else pow_loop stop x yy k z1)"

definition BIGLEN_LIMIT :: int where
  "BIGLEN_LIMIT = 1024 * 1024 div 4"

definition rb_big_pow ::
  "('f, 'o) rb_env \<Rightarrow> (nat \<Rightarrow> bool) \<Rightarrow> rbignum \<Rightarrow> ('f, 'o) rb_value \<Rightarrow> ('f, 'o) rb_result option" where
  "rb_big_pow env stop x y =
     (case y of
        RInt (VFix w) \<Rightarrow>
          let yy = FIX2LONG w in
          if w = LONG2FIX 0 then Some (Inr (INT2FIX 1))
          else if sint yy < 0 then Some (rational_pow env (VBig x) (VFix w))
          else if BIGLEN_LIMIT < int (length (big_digits x)) \<or>
                  BIGLEN_LIMIT div sint yy < int (length (big_digits x)) then
            Some (Inr (RFloat (dbl_pow env (rb_big2dbl env x) (dbl_of_long env yy))))
          else
            (case pow_loop stop x yy 31 None of
               None \<Rightarrow> None
             | Some None \<Rightarrow> Some (Inr RNil)
             | Some (Some z) \<Rightarrow> Some (Inr (RInt (bignorm (VBig z)))))
      | RInt (VBig b) \<Rightarrow>
          Some (Inr (RFloat (dbl_pow env (rb_big2dbl env x) (rb_big2dbl env b))))
      | RFloat d \<Rightarrow> Some (Inr (RFloat (dbl_pow env (rb_big2dbl env x) d)))
      | _ \<Rightarrow> Some (coerce_bin env ''**'' (RInt (VBig x)) y))"

lemma and_push_bit_iff: "(yy :: u32) AND push_bit k 1 \<noteq> 0 \<longleftrightarrow> bit yy k"
  by (auto simp: and_exp_eq_0_iff_not_bit push_bit_eq_mult)

text \<open>\<open>pow_inv\<close>: \<open>z\<close> holds the power whose exponent are the bits of \<open>yy\<close> already seen.\<close>

definition pow_inv :: "int \<Rightarrow> nat \<Rightarrow> rbignum option \<Rightarrow> bool" where
  "pow_inv X e z \<longleftrightarrow>
     (case z of None \<Rightarrow> e = 0 | Some b \<Rightarrow> 0 < e \<and> big_int b = X ^ e \<and> big_digits b \<noteq> [])"

lemma bit_unat: "bit (unat (yy :: u32)) k \<longleftrightarrow> bit yy k"
  by (simp add: bit_unsigned_iff)

lemma pow_loop_inv:
  assumes "pow_loop stop x yy k z = Some r" and "big_digits x \<noteq> []"
    and "pow_inv (big_int x) (drop_bit k (unat yy)) z"
  shows "pow_inv (big_int x) (unat yy) r"
  using assms
proof (induction k arbitrary: z)
  case (Suc k)
  let ?e = "drop_bit (Suc k) (unat yy)"
  have e: "drop_bit k (unat yy) = 2 * ?e + (if bit yy k then 1 else 0)"
  proof -
    have "bit yy k \<longleftrightarrow> odd (drop_bit k (unat yy))"
      by (simp only: bit_unat [symmetric] bit_iff_odd drop_bit_eq_div)
    moreover have "?e = drop_bit k (unat yy) div 2"
      by (simp add: drop_bit_eq_div power_Suc2 div_mult2_eq del: power_Suc)
    ultimately show ?thesis by simp
  qed
  obtain z1 where z1: "(case z of None \<Rightarrow> Some None | Some b \<Rightarrow> map_option (Some \<circ> bigtrunc) (bigsqr stop b)) = Some z1"
    using Suc.prems(1) by (auto split: option.splits)
  have sq: "pow_inv (big_int x) (2 * ?e) z1"
  proof (cases z)
    case None
    with z1 Suc.prems(3) show ?thesis by (simp add: pow_inv_def)
  next
    case (Some b)
    then obtain s where s: "bigsqr stop b = Some s" "z1 = Some (bigtrunc s)" using z1 by auto
    from Suc.prems(3) Some have b: "0 < ?e" "big_int b = big_int x ^ ?e" "big_digits b \<noteq> []"
      by (simp_all add: pow_inv_def)
    from bigsqr_correct [OF s(1) b(3)] have v: "big_int s = big_int b * big_int b"
      and "big_digits s \<noteq> []" by (auto simp: digits_ok_def)
    then have "big_digits (bigtrunc s) \<noteq> []"
      using digits_ok_bigtrunc [of s] by (auto simp: digits_ok_def)
    with v b(1,2) s(2) show ?thesis by (simp add: pow_inv_def power_add mult_2)
  qed
  show ?case
  proof (cases "bit yy k")
    case False
    with Suc.prems(1) z1 have "pow_loop stop x yy k z1 = Some r"
      by (simp add: and_push_bit_iff and_exp_eq_0_iff_not_bit)
    from Suc.IH [OF this Suc.prems(2)] sq e False show ?thesis by (simp only: if_False add_0_right)
  next
    case True
    show ?thesis
    proof (cases z1)
      case None
      with Suc.prems(1) z1 True have "pow_loop stop x yy k (Some x) = Some r"
        by (simp add: and_push_bit_iff and_exp_eq_0_iff_not_bit)
      moreover from None sq have "?e = 0" by (simp add: pow_inv_def)
      moreover from this e True have "drop_bit k (unat yy) = 1" by (simp only: if_True)
      ultimately show ?thesis
        using Suc.IH [of "Some x"] Suc.prems(2) by (simp only: pow_inv_def) simp
    next
      case (Some b)
      with Suc.prems(1) z1 True obtain m where m: "big_mul_big stop b x = Some m"
        and rec: "pow_loop stop x yy k (Some (bigtrunc m)) = Some r"
        by (auto simp: and_push_bit_iff and_exp_eq_0_iff_not_bit split: option.splits)
      from big_mul_big_correct [OF m] have "big_digits m \<noteq> []" by auto
      then have "big_digits (bigtrunc m) \<noteq> []"
        using digits_ok_bigtrunc [of m] by (auto simp: digits_ok_def)
      moreover have "big_int b = big_int x ^ (2 * ?e)" using sq Some by (simp add: pow_inv_def)
      ultimately have "pow_inv (big_int x) (2 * ?e + 1) (Some (bigtrunc m))"
        by (simp add: pow_inv_def big_mul_big_correct(1) [OF m])
      then have "pow_inv (big_int x) (drop_bit k (unat yy)) (Some (bigtrunc m))"
        using e True by (simp only: if_True)
      with Suc.IH rec Suc.prems(2) show ?thesis by blast
    qed
  qed
qed simp

lemma pow_loop_total: "\<forall>k. \<not> stop k \<Longrightarrow> \<exists>r. pow_loop stop x yy k z = Some r"
proof (induction k arbitrary: z)
  case (Suc k)
  have "\<exists>z1. (case z of None \<Rightarrow> Some None | Some b \<Rightarrow> map_option (Some \<circ> bigtrunc) (bigsqr stop b)) = Some z1"
    using bigsqr_total [OF Suc.prems] by (auto split: option.split)
  then obtain z1 where
    "(case z of None \<Rightarrow> Some None | Some b \<Rightarrow> map_option (Some \<circ> bigtrunc) (bigsqr stop b)) = Some z1" ..
  note z1 = this
  show ?case
  proof (cases z1)
    case None
    with z1 Suc.IH [OF Suc.prems] show ?thesis by simp
  next
    case (Some b)
    obtain m where "big_mul_big stop b x = Some m" using big_mul_big_total [OF Suc.prems] by blast
    with z1 Some Suc.IH [OF Suc.prems] show ?thesis by simp
  qed
qed simp

lemma rb_big_pow_int:
  assumes st: "\<forall>k. \<not> stop k" and nz: "big_digits x \<noteq> []" and n: "normal_int (VFix w)"
    and pos: "0 \<le> int_of (VFix w)"
    and fits: "int (length (big_digits x)) * max 1 (int_of (VFix w)) \<le> BIGLEN_LIMIT"
  shows "\<exists>r. rb_big_pow env stop x (RInt (VFix w)) = Some (Inr r) \<and>
    is_int_value r (big_int x ^ nat (int_of (VFix w)))"
proof -
  from n obtain i where w: "w = LONG2FIX i" and fi: "FIXABLE (sint i)" by auto
  then have yy: "FIX2LONG w = i" by (simp add: FIX2LONG_LONG2FIX)
  show ?thesis
  proof (cases "w = LONG2FIX 0")
    case True
    then have "i = 0" using yy by (simp add: FIX2LONG_LONG2FIX fixable_defs)
    with True yy show ?thesis using is_int_value_small [of 1]
      by (simp add: rb_big_pow_def Let_def)
  next
    case False
    with w have "i \<noteq> 0" by auto
    then have "sint i \<noteq> 0" using sint_inj [of i 0] by auto
    with pos yy have p: "0 < sint i" by simp
    have "int (length (big_digits x)) = int (length (big_digits x)) * sint i div sint i"
      using p by simp
    also have "\<dots> \<le> BIGLEN_LIMIT div sint i"
      using fits yy p by (intro zdiv_mono1) (simp_all add: max_def split: if_splits)
    finally have lim: "int (length (big_digits x)) \<le> BIGLEN_LIMIT div sint i" .
    have "int (length (big_digits x)) * 1 \<le> int (length (big_digits x)) * max 1 (sint i)"
      by (intro mult_left_mono) simp_all
    with fits yy have lim': "int (length (big_digits x)) \<le> BIGLEN_LIMIT" by simp
    from pow_loop_total [OF st] obtain r where r: "pow_loop stop x i 31 None = Some r" by blast
    have "uint i < 2 ^ 30" using p fi u32_bounds [of i] by (simp add: sint_of_uint_u32 fixable_defs split: if_splits)
    then have b: "uint i < 1073741824" by simp
    have "int (unat i) = uint i" by simp
    with b have "unat i < 1073741824" by linarith
    with b have "unat i < 2 ^ 31" "sint i = uint i" by (simp_all add: sint_of_uint_u32)
    then have u: "unat i < 2 ^ 31" "nat (sint i) = unat i" by (simp_all only: unat_eq_nat_uint)
    then have "drop_bit 31 (unat i) = 0" by (simp add: drop_bit_eq_div)
    with pow_loop_inv [OF r nz] have "pow_inv (big_int x) (unat i) r" by (simp add: pow_inv_def)
    moreover have "0 < unat i" using \<open>i \<noteq> 0\<close> by (simp add: unat_gt_0)
    ultimately obtain b where "r = Some b" "big_int b = big_int x ^ unat i"
      by (auto simp: pow_inv_def split: option.splits)
    have "rb_big_pow env stop x (RInt (VFix w)) = Some (Inr (RInt (bignorm (VBig b))))"
    proof -
      have "\<not> (BIGLEN_LIMIT < int (length (big_digits x)) \<or>
          BIGLEN_LIMIT div sint i < int (length (big_digits x)))" "\<not> sint i < 0"
        using lim lim' p by linarith+
      with False r \<open>r = Some b\<close> show ?thesis
        by (simp only: rb_big_pow_def Let_def rb_value.case rb_int.case yy if_False option.case)
    qed
    moreover have "is_int_value (RInt (bignorm (VBig b))) (big_int x ^ nat (int_of (VFix w)))"
      by (rule is_int_value_norm) (simp add: \<open>big_int b = big_int x ^ unat i\<close> yy u)
    ultimately show ?thesis by blast
  qed
qed

end
