(* ===== verification/BigDiv.thy ===== *)
theory BigDiv
  imports BigMul
begin

text \<open>
  Long division (\<open>bigdivrem1\<close>, \<open>bigdivrem\<close>, \<open>bigdivmod\<close> and the methods over them in
  \<open>lib/ruby/bignum.c\<close>): Knuth's algorithm D with a one-digit estimate and \<open>add back\<close> steps.
  The outer \<open>option\<close> of these definitions is \<open>None\<close> where a loop of the code would not end; the
  theorems show that it ends.  As for multiplication, \<open>stop i\<close> is what the \<open>i\<close>-th poll reads.
\<close>

section \<open>One quotient digit\<close>

fun mulsub :: "bdigit \<Rightarrow> bdigit_dbl \<Rightarrow> bdigit_dbl \<Rightarrow> bdigit list \<Rightarrow> bdigit list \<Rightarrow>
    bdigit list \<times> bdigit_dbl \<times> bdigit_dbl" where
  "mulsub q num t2 (y # ys) (z # zs) =
     (let t2' = t2 + ucast y * ucast q;
          ee = num - ucast (BIGLO t2');
          num' = ucast z + ee;
          z' = (if ee \<noteq> 0 then BIGLO num' else z);
          (zs', r) = mulsub q (BIGDNs num') (BIGDN t2') ys zs
      in (z' # zs', r))"
| "mulsub q num t2 ys zs = (zs, num, t2)"

fun addback_row :: "bdigit_dbl \<Rightarrow> bdigit list \<Rightarrow> bdigit list \<Rightarrow> bdigit list \<times> bdigit_dbl" where
  "addback_row num (y # ys) (z # zs) =
     (let ee = num + ucast y;
          num' = ucast z + ee;
          z' = (if ee \<noteq> 0 then BIGLO num' else z);
          (zs', r) = addback_row (BIGDNs num') ys zs
      in (z' # zs', r))"
| "addback_row num ys zs = (zs, num)"

text \<open>\<open>while (num) { ... q--; ... num--; }\<close>\<close>

partial_function (option) addback ::
  "bdigit_dbl \<Rightarrow> bdigit \<Rightarrow> bdigit list \<Rightarrow> bdigit list \<Rightarrow> (bdigit \<times> bdigit list) option" where
  "addback num q ys zs =
     (if num \<noteq> 0 then
        let (zs', c) = addback_row 0 ys zs in addback (c - 1) (q - 1) ys zs'
      else Some (q, zs))"

declare addback.simps [code]

definition estimate_q :: "bdigit \<Rightarrow> bdigit \<Rightarrow> bdigit \<Rightarrow> bdigit" where
  "estimate_q ztop z1 ytop =
     (if ztop = ytop then ucast ((2 ^ 32 :: bdigit_dbl) - 1)
      else ucast ((BIGUP (ucast ztop) + ucast z1) div ucast ytop))"

text \<open>
  The body of the loop of \<open>bigdivrem1\<close> for one \<open>j\<close>, on the window \<open>zds[j - ny .. j]\<close>: the \<open>ny\<close>
  lower digits \<open>zs\<close> and the top digit.  It yields the new lower digits and the quotient digit.
\<close>

definition div_digit :: "bdigit list \<Rightarrow> bdigit list \<Rightarrow> bdigit \<Rightarrow> (bdigit \<times> bdigit list) option" where
  "div_digit ys zs ztop =
     (let ny = length ys;
          nyzero = length (takeWhile (\<lambda>d. d = 0) ys);
          q = estimate_q ztop (zs ! (ny - 1)) (ys ! (ny - 1))
      in if q \<noteq> 0 then
           let (zs', num, t2) = mulsub q 0 0 (drop nyzero ys) (drop nyzero zs)
           in addback (num + (ucast ztop - t2)) q ys (take nyzero zs @ zs')
         else Some (q, zs))"

fun div_loop :: "(nat \<Rightarrow> bool) \<Rightarrow> nat \<Rightarrow> bdigit list \<Rightarrow> nat \<Rightarrow> bdigit list \<Rightarrow> bdigit list option" where
  "div_loop stop i ys k zds =
     (if stop i then Some zds
      else
        let ny = length ys; j = ny + k
        in case div_digit ys (take ny (drop k zds)) (zds ! j) of
             None \<Rightarrow> None
           | Some (q, w) \<Rightarrow>
               let zds' = take k zds @ w @ [q] @ drop (Suc j) zds
               in case k of 0 \<Rightarrow> Some zds' | Suc k' \<Rightarrow> div_loop stop (Suc i) ys k' zds')"

declare div_loop.simps [simp del]

definition bigdivrem1 :: "(nat \<Rightarrow> bool) \<Rightarrow> nat \<Rightarrow> bdigit list \<Rightarrow> bdigit list \<Rightarrow> bdigit list option" where
  "bigdivrem1 stop nx yds zds =
     (let ny = length yds; j = (if nx = ny then nx + 1 else nx)
      in div_loop stop 0 yds (j - ny) zds)"

subsection \<open>Arithmetic of one digit\<close>

lemma sint_small:
  assumes "\<bar>sint (a :: u64)\<bar> \<le> 1099511627776" and "\<bar>sint b\<bar> \<le> 1099511627776"
  shows "sint (a + b) = sint a + sint b" and "sint (a - b) = sint a - sint b"
proof -
  have "- 9223372036854775808 \<le> sint a + sint b" "sint a + sint b < 9223372036854775808"
    "- 9223372036854775808 \<le> sint a - sint b" "sint a - sint b < 9223372036854775808"
    using assms by linarith+
  then show "sint (a + b) = sint a + sint b" "sint (a - b) = sint a - sint b"
    by (simp_all add: sint_add_nowrap_u64 sint_minus_nowrap_u64)
qed

lemma sint_ucast_plus:
  assumes "- 8589934592 \<le> sint e" and "sint e \<le> 8589934592"
  shows "sint (ucast (z :: bdigit) + (e :: bdigit_dbl)) = uint z + sint e"
proof -
  have "\<bar>sint (ucast z :: bdigit_dbl)\<bar> \<le> 1099511627776" "\<bar>sint e\<bar> \<le> 1099511627776"
    using assms u32_bounds [of z] by simp_all
  from sint_small(1) [OF this] show ?thesis by simp
qed

lemma BIGLO_ucast: "BIGLO (ucast (z :: bdigit)) = z"
  using u32_bounds [of z] by (simp add: take_word_eq_iff uint_BIGLO)

lemma BIGLO_keep: "(if ee \<noteq> 0 then BIGLO (ucast z + ee) else z) = BIGLO (ucast z + ee)"
  by (simp add: BIGLO_ucast)

lemma mulsub_correct:
  assumes "mulsub q num t2 ys zs = (zs', num', t2')" and "length ys = length zs"
    and "sint num = - 1 \<or> sint num = 0" and "uint t2 < 2 ^ 32"
  shows "bval zs' = bval zs - uint q * bval ys - uint t2 + sint num
      + 2 ^ (32 * length zs) * (uint t2' - sint num')
    \<and> length zs' = length zs \<and> (sint num' = - 1 \<or> sint num' = 0) \<and> uint t2' < 2 ^ 32"
  using assms
proof (induction q num t2 ys zs arbitrary: zs' rule: mulsub.induct)
  case (1 q num t2 y ys z zs)
  define t where "t = t2 + ucast y * ucast q"
  define ee where "ee = num - ucast (BIGLO t)"
  define n where "n = ucast z + ee"
  have eq: "mulsub q num t2 (y # ys) (z # zs) = (case mulsub q (BIGDNs n) (BIGDN t) ys zs of
      (ws, r) \<Rightarrow> ((if ee \<noteq> 0 then BIGLO n else z) # ws, r))"
    by (simp only: mulsub.simps Let_def t_def ee_def n_def)
  obtain ws where rec: "mulsub q (BIGDNs n) (BIGDN t) ys zs = (ws, num', t2')"
    and zs': "zs' = (if ee \<noteq> 0 then BIGLO n else z) # ws"
    using "1.prems"(1) unfolding eq by (auto split: prod.splits)
  have t: "uint t = uint t2 + uint y * uint q"
    using mul_step_bound(1) [of t2 y q] "1.prems"(4) u32_bounds [of y] by (simp add: t_def)
  have ee: "sint ee = sint num - uint (BIGLO t)"
    using "1.prems"(3) u32_bounds [of "BIGLO t"] by (auto simp: ee_def sint_minus_nowrap_u64)
  have n: "sint n = uint z + sint ee"
    using "1.prems"(3) ee u32_bounds [of z] u32_bounds [of "BIGLO t"]
    unfolding n_def by (intro sint_ucast_plus) linarith+
  have "- 4294967296 \<le> sint n" "sint n < 4294967296"
    using "1.prems"(3) ee n u32_bounds [of z] u32_bounds [of "BIGLO t"] by linarith+
  from div_borrow [OF this] have "sint (BIGDNs n) = - 1 \<or> sint (BIGDNs n) = 0"
    by (simp add: sint_BIGDNs)
  moreover have "uint (BIGDN t) < 2 ^ 32" using uint_BIGDN_lt [of t] by simp
  ultimately have IH: "bval ws = bval zs - uint q * bval ys - uint (BIGDN t) + sint (BIGDNs n)
      + 2 ^ (32 * length zs) * (uint t2' - sint num')"
      "length ws = length zs" "sint num' = - 1 \<or> sint num' = 0" "uint t2' < 2 ^ 32"
    using "1.IH" [OF t_def ee_def n_def refl rec] "1.prems" by auto
  have z': "(if ee \<noteq> 0 then BIGLO n else z) = BIGLO n" unfolding n_def by (rule BIGLO_keep)
  have "bval zs' = (uint (BIGLO n) + 2 ^ 32 * sint (BIGDNs n)) - 2 ^ 32 * uint (BIGDN t)
      + 2 ^ 32 * (bval zs - uint q * bval ys + 2 ^ (32 * length zs) * (uint t2' - sint num'))"
    unfolding zs' z' by (simp add: IH(1) algebra_simps)
  also have "\<dots> = bval (z # zs) - uint q * bval (y # ys) - uint t2 + sint num
      + 2 ^ (32 * length (z # zs)) * (uint t2' - sint num')"
    unfolding BIGLO_BIGDNs n ee using t BIGLO_BIGDN [of t] by (simp add: algebra_simps power_add)
  finally show ?case using IH zs' by simp
qed simp_all

lemma addback_row_correct:
  assumes "addback_row c ys zs = (zs', c')" and "length ys = length zs"
    and "sint c = 0 \<or> sint c = 1"
  shows "bval zs' + 2 ^ (32 * length zs) * sint c' = bval zs + bval ys + sint c
    \<and> length zs' = length zs \<and> (sint c' = 0 \<or> sint c' = 1)"
  using assms
proof (induction c ys zs arbitrary: zs' rule: addback_row.induct)
  case (1 c y ys z zs)
  define ee where "ee = c + ucast y"
  define n where "n = ucast z + ee"
  have eq: "addback_row c (y # ys) (z # zs) = (case addback_row (BIGDNs n) ys zs of
      (ws, r) \<Rightarrow> ((if ee \<noteq> 0 then BIGLO n else z) # ws, r))"
    by (simp only: addback_row.simps Let_def ee_def n_def)
  obtain ws where rec: "addback_row (BIGDNs n) ys zs = (ws, c')"
    and zs': "zs' = (if ee \<noteq> 0 then BIGLO n else z) # ws"
    using "1.prems"(1) unfolding eq by (auto split: prod.splits)
  have ee: "sint ee = uint y + sint c"
    unfolding ee_def using "1.prems"(3) by (subst add.commute, intro sint_ucast_plus) linarith+
  have n: "sint n = uint z + sint ee"
    unfolding n_def using "1.prems"(3) ee u32_bounds [of y] by (intro sint_ucast_plus) linarith+
  have "0 \<le> sint n" "sint n < 2 * 4294967296"
    using "1.prems"(3) ee n u32_bounds [of z] u32_bounds [of y] by linarith+
  then have "sint n div 4294967296 = 0 \<or> sint n div 4294967296 = 1"
    by (cases "sint n < 4294967296") (simp_all add: div_pos_geq)
  then have b: "sint (BIGDNs n) = 0 \<or> sint (BIGDNs n) = 1" by (simp add: sint_BIGDNs)
  then have IH: "bval ws + 2 ^ (32 * length zs) * sint c' = bval zs + bval ys + sint (BIGDNs n)"
      "length ws = length zs" "sint c' = 0 \<or> sint c' = 1"
    using "1.IH" [OF ee_def n_def refl rec] "1.prems" by auto
  have z': "(if ee \<noteq> 0 then BIGLO n else z) = BIGLO n" unfolding n_def by (rule BIGLO_keep)
  have "bval zs' + 2 ^ (32 * length (z # zs)) * sint c'
      = uint (BIGLO n) + 2 ^ 32 * (bval ws + 2 ^ (32 * length zs) * sint c')"
    unfolding zs' z' by (simp add: algebra_simps power_add)
  also have "\<dots> = (uint (BIGLO n) + 2 ^ 32 * sint (BIGDNs n)) + 2 ^ 32 * (bval zs + bval ys)"
    unfolding IH(1) by (simp add: algebra_simps)
  also have "\<dots> = bval (z # zs) + bval (y # ys) + sint c"
    unfolding BIGLO_BIGDNs n ee by (simp add: algebra_simps)
  finally show ?case using IH zs' by simp
qed simp_all

text \<open>Adding back ends, because each round adds the positive divisor to a value below it.\<close>

lemma addback_correct:
  assumes "length ys = length zs" and "sint num = - 1 \<or> sint num = 0"
    and "0 < bval ys" and "bval zs + 2 ^ (32 * length zs) * sint num < bval ys"
  shows "\<exists>k w. addback num q ys zs = Some (q - word_of_int k, w) \<and> 0 \<le> k \<and> length w = length zs
    \<and> bval w = bval zs + 2 ^ (32 * length zs) * sint num + k * bval ys \<and> bval w < bval ys"
  using assms
proof (induction "nat (- (bval zs + 2 ^ (32 * length zs) * sint num))" arbitrary: num q zs
    rule: less_induct)
  case less
  show ?case
  proof (cases "num = 0")
    case True
    with less.prems show ?thesis
      by (subst addback.simps) (auto intro!: exI [of _ 0])
  next
    case False
    then have m1: "sint num = - 1" using less.prems(2) sint_inj [of num 0] by auto
    obtain ws c where row: "addback_row 0 ys zs = (ws, c)" by fastforce
    from addback_row_correct [OF row less.prems(1)]
    have ws: "bval ws + 2 ^ (32 * length zs) * sint c = bval zs + bval ys"
      "length ws = length zs" "sint c = 0 \<or> sint c = 1" by auto
    have c: "sint (c - 1) = sint c - 1"
      using ws(3) by (subst sint_minus_nowrap_u64) auto
    let ?V = "bval zs + 2 ^ (32 * length zs) * sint num"
    let ?V' = "bval ws + 2 ^ (32 * length ws) * sint (c - 1)"
    have V': "?V' = ?V + bval ys" unfolding c m1 using ws(1,2) by (simp add: algebra_simps)
    have "?V < 0" using m1 bval_bound [of zs] by simp
    with V' less.prems(3) have "nat (- ?V') < nat (- ?V)" by simp
    moreover have "?V' < bval ys" using V' \<open>?V < 0\<close> by simp
    ultimately obtain k w where IH: "addback (c - 1) (q - 1) ys ws = Some (q - 1 - word_of_int k, w)"
      "0 \<le> k" "length w = length ws" "bval w = ?V' + k * bval ys" "bval w < bval ys"
      using less.hyps [of ws "c - 1" "q - 1"] less.prems ws c by auto
    have "addback num q ys zs = addback (c - 1) (q - 1) ys ws"
      using False row by (subst addback.simps) simp
    also have "\<dots> = Some (q - word_of_int (k + 1), w)" using IH(1) by (simp add: algebra_simps)
    finally show ?thesis
      using IH V' ws by (intro exI [of _ "k + 1"] exI [of _ w]) (simp add: algebra_simps)
  qed
qed

text \<open>
  The estimate from the two top digits is never too small, and it is too large by less than what
  one borrow from the top digit covers.
\<close>

lemma estimate_q_top:
  assumes "bval (zs @ [z1, zt]) < 2 ^ 32 * bval (ys @ [yt])" and "length ys = length zs"
  shows "uint zt \<le> uint yt"
proof (rule ccontr)
  assume "\<not> ?thesis"
  then have "uint yt + 1 \<le> uint zt" by simp
  define P where "P = (2 :: int) ^ (32 * length zs)"
  have P: "0 < P" by (simp add: P_def)
  have "bval ys < P" using bval_bound [of ys] assms(2) by (simp add: P_def)
  then have "2 ^ 32 * bval (ys @ [yt]) < 2 ^ 32 * (P * (uint yt + 1))"
    using assms(2) by (simp add: bval_append P_def algebra_simps)
  also have "\<dots> \<le> 2 ^ 32 * (P * uint zt)" using \<open>uint yt + 1 \<le> uint zt\<close> P by simp
  also have "\<dots> \<le> bval (zs @ [z1, zt])"
    using bval_nonneg [of zs] P by (simp add: bval_append P_def algebra_simps)
  finally show False using assms(1) by simp
qed

lemma estimate_q_bounds:
  assumes lt: "bval (zs @ [z1, zt]) < 2 ^ 32 * bval (ys @ [yt])" and len: "length ys = length zs"
    and "0 < uint yt"
  defines "q \<equiv> estimate_q zt z1 yt" and "R \<equiv> bval (zs @ [z1, zt])" and "Y \<equiv> bval (ys @ [yt])"
  shows "R div Y \<le> uint q" and "- (2 ^ 32 * 2 ^ (32 * length zs)) \<le> R - uint q * Y"
proof -
  define P where "P = (2 :: int) ^ (32 * length zs)"
  have P: "0 < P" by (simp add: P_def)
  have ys: "0 \<le> bval ys" "bval ys < P" and zs: "0 \<le> bval zs" "bval zs < P"
    using bval_bound [of ys] bval_bound [of zs] len by (simp_all add: P_def bval_nonneg)
  have R: "R = bval zs + P * (uint z1 + 2 ^ 32 * uint zt)" and Y: "Y = bval ys + P * uint yt"
    using len by (simp_all add: R_def Y_def bval_append P_def)
  have Y0: "0 < Y" unfolding Y using ys(1) P assms(3) by (simp add: add_nonneg_pos)
  have top: "uint zt \<le> uint yt" using lt len by (rule estimate_q_top)
  define zz where "zz = uint z1 + 2 ^ 32 * uint zt"
  have "R div Y \<le> uint q \<and> - (2 ^ 32 * P) \<le> R - uint q * Y"
  proof (cases "zt = yt")
    case True
    have q: "uint q = 2 ^ 32 - 1" using True by (simp add: q_def estimate_q_def)
    have "R div Y < 2 ^ 32" using lt Y0 by (simp add: div_less_int R_def Y_def)
    moreover have "uint q * Y \<le> (2 ^ 32 - 1) * (P * (uint yt + 1))"
      unfolding q Y using ys by (simp add: algebra_simps)
    moreover have "P * (2 ^ 32 * uint yt) \<le> R"
      unfolding R True using zs(1) P u32_bounds [of z1] by (simp add: algebra_simps)
    moreover have "(2 ^ 32 - 1) * (P * (uint yt + 1)) \<le> P * (2 ^ 32 * uint yt) + 2 ^ 32 * P"
      using P u32_bounds [of yt] by (simp add: algebra_simps)
    ultimately show ?thesis unfolding q by linarith
  next
    case False
    with top have less: "uint zt < uint yt" by (simp add: take_word_eq_iff)
    have dd: "uint (BIGUP (ucast zt) + ucast z1 :: bdigit_dbl) = zz"
      using u32_bounds [of zt] u32_bounds [of z1]
      by (subst uint_add_nowrap) (simp_all add: zz_def)
    have "zz < 2 ^ 32 * uint yt" using less u32_bounds [of z1] by (simp add: zz_def)
    then have "zz div uint yt < 2 ^ 32" using assms(3) by (simp add: div_less_int)
    moreover have "0 \<le> zz div uint yt" using assms(3) by (simp add: zz_def pos_imp_zdiv_nonneg_iff)
    ultimately have q: "uint q = zz div uint yt"
      using False by (simp add: q_def estimate_q_def uint_ucast_u64_u32 uint_div dd)
    have "R < P * (zz + 1)" unfolding R using zs by (simp add: zz_def algebra_simps)
    have "R div Y * (P * uint yt) \<le> R"
    proof -
      have "0 \<le> R div Y" using Y0 bval_nonneg by (simp add: R_def pos_imp_zdiv_nonneg_iff)
      then have "R div Y * (P * uint yt) \<le> R div Y * Y" unfolding Y using ys(1) by (intro mult_left_mono) simp_all
      also have "\<dots> \<le> R" using Y0 by (rule div_mult_le_int)
      finally show ?thesis .
    qed
    with \<open>R < P * (zz + 1)\<close> have "P * (R div Y * uint yt) < P * (zz + 1)" by (simp add: algebra_simps)
    with P have "R div Y * uint yt \<le> zz" by simp
    then have q_ge: "R div Y \<le> uint q" using assms(3) by (simp add: q le_div_int)
    have "uint q * uint yt \<le> zz" using assms(3) by (simp add: q div_mult_le_int)
    have "uint q * Y \<le> uint q * (P * (uint yt + 1))"
      unfolding Y using ys by (intro mult_left_mono) (simp_all add: algebra_simps)
    also have "\<dots> = P * (uint q * uint yt) + P * uint q" by (simp add: algebra_simps)
    also have "\<dots> \<le> P * zz + P * 2 ^ 32"
      using \<open>uint q * uint yt \<le> zz\<close> P u32_bounds [of q] by (intro add_mono mult_left_mono) simp_all
    finally have "- (2 ^ 32 * P) \<le> R - uint q * Y"
      unfolding R using zs(1) by (simp add: zz_def algebra_simps)
    with q_ge show ?thesis ..
  qed
  then show "R div Y \<le> uint q" "- (2 ^ 32 * 2 ^ (32 * length zs)) \<le> R - uint q * Y"
    by (simp_all add: P_def)
qed

lemma take_while_zero: "bval (takeWhile (\<lambda>d. d = 0) ys) = 0"
  by (simp add: bval_eq_0_iff) (blast dest: set_takeWhileD)

text \<open>Skipping the low zero digits of the divisor does not change the subtraction.\<close>

lemma mulsub_skip_zeros:
  assumes "length ys = length zs"
  defines "k \<equiv> length (takeWhile (\<lambda>d. d = 0) ys)"
  assumes "mulsub q 0 0 (drop k ys) (drop k zs) = (zs', num, t2)"
  shows "bval (take k zs @ zs') = bval zs - uint q * bval ys + 2 ^ (32 * length zs) * (uint t2 - sint num)
    \<and> length (take k zs @ zs') = length zs \<and> (sint num = - 1 \<or> sint num = 0) \<and> uint t2 < 2 ^ 32"
proof -
  have k: "k \<le> length zs" using assms(1) length_takeWhile_le [of "\<lambda>d. d = 0" ys] by (simp add: k_def)
  have low: "bval (take k ys) = 0" using take_while_zero [of ys] by (simp add: k_def takeWhile_eq_take [symmetric])
  have split: "bval xs = bval (take k xs) + 2 ^ (32 * k) * bval (drop k xs)" if "k \<le> length xs" for xs
    using bval_append [of "take k xs" "drop k xs"] that by (simp add: min_def)
  from mulsub_correct [OF assms(3)] assms(1)
  have *: "bval zs' = bval (drop k zs) - uint q * bval (drop k ys)
      + 2 ^ (32 * (length zs - k)) * (uint t2 - sint num)"
    "length zs' = length zs - k" "sint num = - 1 \<or> sint num = 0" "uint t2 < 2 ^ 32" by simp_all
  have P: "2 ^ (32 * k) * 2 ^ (32 * (length zs - k)) = (2 :: int) ^ (32 * length zs)"
    using k by (simp add: algebra_simps flip: power_add)
  have "bval (take k zs @ zs') = (bval (take k zs) + 2 ^ (32 * k) * bval (drop k zs))
      - uint q * (2 ^ (32 * k) * bval (drop k ys))
      + 2 ^ (32 * k) * 2 ^ (32 * (length zs - k)) * (uint t2 - sint num)"
    using k by (simp add: bval_append *(1) algebra_simps min_def)
  also have "\<dots> = bval zs - uint q * bval ys + 2 ^ (32 * length zs) * (uint t2 - sint num)"
    unfolding P using split [OF k] split [of ys] k assms(1) low by simp
  finally show ?thesis using * k by simp
qed

text \<open>One iteration of the loop divides its window: a quotient digit and the remainder.\<close>

lemma div_digit_correct:
  assumes lt: "bval (zs @ [zt]) < 2 ^ 32 * bval ys" and len: "length ys = length zs"
    and ys: "ys \<noteq> []" "last ys \<noteq> 0"
  shows "\<exists>q w. div_digit ys zs zt = Some (q, w) \<and> length w = length zs
    \<and> uint q = bval (zs @ [zt]) div bval ys \<and> bval w = bval (zs @ [zt]) mod bval ys"
proof -
  obtain ys0 yt where ysE: "ys = ys0 @ [yt]" using ys(1) by (cases ys rule: rev_cases) auto
  obtain zs0 z1 where zsE: "zs = zs0 @ [z1]" using ys(1) len by (cases zs rule: rev_cases) auto
  have len0: "length ys0 = length zs0" using len ysE zsE by simp
  have yt: "0 < uint yt" using ys(2) ysE uint_u32_neq_0 by simp
  define R where "R = bval (zs @ [zt])"
  define Y where "Y = bval ys"
  define P where "P = (2 :: int) ^ (32 * length zs)"
  have Y0: "0 < Y" unfolding Y_def ysE using yt bval_nonneg [of ys0] by (simp add: bval_append add_nonneg_pos)
  have YP: "Y < P" using bval_bound [of ys] len by (simp add: Y_def P_def)
  have R: "R = bval zs + P * uint zt" by (simp add: R_def P_def bval_append)
  define q where "q = estimate_q zt (zs ! (length ys - 1)) (ys ! (length ys - 1))"
  have qE: "q = estimate_q zt z1 yt" using ysE zsE len0 by (simp add: q_def nth_append)
  have q: "R div Y \<le> uint q" "- P \<le> R - uint q * Y"
    using estimate_q_bounds [of zs0 z1 zt ys0 yt] lt len0 yt
    by (simp_all add: qE R_def Y_def P_def ysE zsE power_add)
  have V: "R - uint q * Y < Y"
  proof -
    have "R - (R div Y) * Y < Y" using Y0 by (simp add: minus_div_mult_eq_mod)
    moreover have "(R div Y) * Y \<le> uint q * Y" using q(1) Y0 by simp
    ultimately show ?thesis by linarith
  qed
  define k where "k = length (takeWhile (\<lambda>d. d = 0) ys)"
  have unf: "div_digit ys zs zt = (if q \<noteq> 0 then
      case mulsub q 0 0 (drop k ys) (drop k zs) of (zs', num, t2) \<Rightarrow>
        addback (num + (ucast zt - t2)) q ys (take k zs @ zs')
      else Some (q, zs))"
    by (simp only: div_digit_def Let_def q_def k_def)
  show ?thesis
  proof (cases "q = 0")
    case True
    with V have "R < P" using YP by simp
    then have "P * uint zt < P * 1" using R bval_nonneg [of zs] by linarith
    then have "uint zt < 1" by (simp add: P_def)
    with uint_ge_0 [of zt] have "uint zt = 0" by linarith
    with R have "bval zs = R" by simp
    moreover have "0 \<le> R" "R < Y" using V True bval_nonneg [of "zs @ [zt]"] by (simp_all add: R_def)
    ultimately show ?thesis using True by (simp add: unf R_def Y_def)
  next
    case False
    obtain zs' num t2 where ms: "mulsub q 0 0 (drop k ys) (drop k zs) = (zs', num, t2)"
      by (metis prod_cases3)
    define w0 where "w0 = take k zs @ zs'"
    from mulsub_skip_zeros [OF len, of q zs' num t2] ms
    have w0: "bval w0 = bval zs - uint q * Y + P * (uint t2 - sint num)" "length w0 = length zs"
      "sint num = - 1 \<or> sint num = 0" "uint t2 < 2 ^ 32"
      by (simp_all add: k_def w0_def Y_def P_def)
    define n2 where "n2 = num + (ucast zt - t2)"
    have t2: "sint t2 = uint t2" using w0(4) by (simp add: sint_of_uint_u64)
    have d: "sint (ucast zt - t2) = uint zt - uint t2"
      using t2 w0(4) u32_bounds [of zt] by (subst sint_small(2)) simp_all
    have "\<bar>sint (ucast zt - t2)\<bar> \<le> 1099511627776"
    proof -
      have "uint t2 < 4294967296" using w0(4) by simp
      then show ?thesis
        unfolding d using u32_bounds [of zt] u64_bounds(1) [of t2] by (intro abs_leI) linarith+
    qed
    moreover have "\<bar>sint num\<bar> \<le> 1099511627776" using w0(3) by auto
    ultimately have n2: "sint n2 = sint num + uint zt - uint t2"
      unfolding n2_def using d by (simp add: sint_small(1))
    have val: "bval w0 + P * sint n2 = R - uint q * Y"
      unfolding w0(1) n2 R by (simp add: algebra_simps)
    have b: "0 \<le> bval w0" "bval w0 < P" using bval_bound [of w0] w0(2) by (simp_all add: P_def bval_nonneg)
    have P0: "0 < P" by (simp add: P_def)
    have "P * sint n2 < P * 1" "P * (- 2) < P * sint n2" using val V YP q(2) b by linarith+
    then have "sint n2 < 1" "- 2 < sint n2" by (simp_all only: mult_less_cancel_left_pos [OF P0])
    then have "sint n2 = - 1 \<or> sint n2 = 0" by linarith
    from addback_correct [OF _ this, of ys w0 q] val V Y0 len w0(2)
    obtain m w where ab: "addback n2 q ys w0 = Some (q - word_of_int m, w)" "0 \<le> m"
      "length w = length zs" "bval w = R - uint q * Y + m * Y" "bval w < Y"
      by (auto simp: Y_def P_def)
    have eq: "R = Y * (uint q - m) + bval w" using ab(4) by (simp add: algebra_simps)
    from div_mod_int_unique [OF bval_nonneg ab(5) eq] have dm: "R div Y = uint q - m" "R mod Y = bval w" .
    moreover have "0 \<le> R div Y" using Y0 bval_nonneg [of "zs @ [zt]"] by (simp add: R_def pos_imp_zdiv_nonneg_iff)
    ultimately have "uint (q - word_of_int m) = R div Y"
      using ab(2) u32_bounds [of q] by (simp add: uint_word_ariths uint_word_of_int mod_simps)
    moreover have "div_digit ys zs zt = Some (q - word_of_int m, w)"
      using False ms ab(1) by (simp add: unf w0_def n2_def)
    ultimately show ?thesis using ab(3) dm by (simp add: R_def Y_def)
  qed
qed

subsection \<open>The loop over the quotient digits\<close>

lemma div_loop_correct:
  assumes "\<forall>k. \<not> stop k" and "ys \<noteq> []" and "last ys \<noteq> 0"
    and "length ys + k < length zds"
    and "bval (take (Suc (length ys)) (drop k zds)) < 2 ^ 32 * bval ys"
  shows "\<exists>zds'. div_loop stop i ys k zds = Some zds' \<and> length zds' = length zds
    \<and> bval (take (length ys) zds') = bval (take (length ys + k + 1) zds) mod bval ys
    \<and> bval (take (k + 1) (drop (length ys) zds')) = bval (take (length ys + k + 1) zds) div bval ys
    \<and> drop (length ys + k + 1) zds' = drop (length ys + k + 1) zds"
  using assms(4,5)
proof (induction k arbitrary: i zds)
  case 0
  let ?n = "length ys"
  define zs zt where "zs = take ?n zds" and "zt = zds ! ?n"
  have win: "take (Suc ?n) zds = zs @ [zt]" and len: "?n = length zs"
    using "0.prems"(1) by (simp_all add: zs_def zt_def take_Suc_conv_app_nth)
  from div_digit_correct [of zs zt ys] "0.prems" win len assms
  obtain q w where dd: "div_digit ys zs zt = Some (q, w)" "length w = ?n"
    "uint q = bval (zs @ [zt]) div bval ys" "bval w = bval (zs @ [zt]) mod bval ys" by auto
  have "div_loop stop i ys 0 zds = Some (w @ [q] @ drop (Suc ?n) zds)"
    using assms(1) dd(1) by (simp add: div_loop.simps [of stop i ys 0] Let_def zs_def zt_def)
  then show ?case using dd "0.prems"(1) by (simp add: win)
next
  case (Suc k)
  let ?n = "length ys" and ?Y = "bval ys"
  define zs zt where "zs = take ?n (drop (Suc k) zds)" and "zt = zds ! (?n + Suc k)"
  have win: "take (Suc ?n) (drop (Suc k) zds) = zs @ [zt]" and len: "?n = length zs"
    using Suc.prems(1) by (simp_all add: zs_def zt_def take_Suc_conv_app_nth add.commute)
  from div_digit_correct [of zs zt ys] Suc.prems win len assms
  obtain q w where dd: "div_digit ys zs zt = Some (q, w)" "length w = ?n"
    "uint q = bval (zs @ [zt]) div ?Y" "bval w = bval (zs @ [zt]) mod ?Y" by auto
  define zds1 where "zds1 = take (Suc k) zds @ w @ [q] @ drop (Suc (?n + Suc k)) zds"
  have step: "div_loop stop i ys (Suc k) zds = div_loop stop (Suc i) ys k zds1"
    using assms(1) dd(1) by (simp add: div_loop.simps [of stop i ys "Suc k"] Let_def zs_def zt_def zds1_def)
  have len1: "length zds1 = length zds" using Suc.prems(1) dd(2) by (simp add: zds1_def)
  obtain y0 yt where "ys = y0 @ [yt]" using assms(2) by (cases ys rule: rev_cases) auto
  then have Y0: "0 < ?Y" using assms(3) bval_snoc_ge [of yt y0]
    by (auto intro: less_le_trans [of _ "2 ^ (32 * length y0)"])
  have tk: "take (Suc k) zds = take k zds @ [zds ! k]" using Suc.prems(1) by (simp add: take_Suc_conv_app_nth)
  have win1: "take (Suc ?n) (drop k zds1) = zds ! k # w"
    using Suc.prems(1) dd(2) by (simp add: zds1_def tk)
  have "bval w + 1 \<le> ?Y"
    using pos_mod_bound [OF Y0, of "bval (zs @ [zt])"] dd(4) by linarith
  then have "2 ^ 32 * (bval w + 1) \<le> 2 ^ 32 * ?Y" by simp
  then have "bval (take (Suc ?n) (drop k zds1)) < 2 ^ 32 * ?Y"
    using u32_bounds [of "zds ! k"] by (simp add: win1)
  with Suc.IH [of zds1 "Suc i"] Suc.prems(1) len1 obtain zds' where
    IH: "div_loop stop (Suc i) ys k zds1 = Some zds'" "length zds' = length zds"
      "bval (take ?n zds') = bval (take (?n + k + 1) zds1) mod ?Y"
      "bval (take (k + 1) (drop ?n zds')) = bval (take (?n + k + 1) zds1) div ?Y"
      "drop (?n + k + 1) zds' = drop (?n + k + 1) zds1" by auto
  have t1: "take (?n + k + 1) zds1 = take (Suc k) zds @ w"
    using Suc.prems(1) dd(2) by (simp add: zds1_def)
  have d1: "drop (?n + k + 1) zds1 = q # drop (Suc (?n + Suc k)) zds"
    using Suc.prems(1) dd(2) by (simp add: zds1_def)
  define Z1 where "Z1 = bval (take (?n + k + 1) zds1)"
  define P where "P = (2 :: int) ^ (32 * Suc k)"
  have Z1: "Z1 = bval (take (Suc k) zds) + P * bval w"
    using Suc.prems(1) unfolding Z1_def t1 by (simp add: bval_append P_def min_def)
  have "take (?n + Suc k + 1) zds = take (Suc k) zds @ (zs @ [zt])"
    using win take_add [of "Suc k" "Suc ?n" zds] by (simp add: add.commute)
  then have "bval (take (?n + Suc k + 1) zds) = bval (take (Suc k) zds) + P * bval (zs @ [zt])"
    using Suc.prems(1) by (simp add: bval_append [of "take (Suc k) zds"] P_def min_def)
  also have "bval (zs @ [zt]) = uint q * ?Y + bval w" by (simp add: dd(3,4))
  also have "bval (take (Suc k) zds) + P * (uint q * ?Y + bval w) = Z1 + P * uint q * ?Y"
    by (simp add: Z1 algebra_simps)
  finally have Z: "bval (take (?n + Suc k + 1) zds) = Z1 + P * uint q * ?Y" .
  have lt: "length (take (Suc k) (drop ?n zds')) = Suc k"
    using Suc.prems(1) IH(2) by simp
  have dk: "drop (Suc k) (drop ?n zds') = q # drop (Suc (?n + Suc k)) zds"
    using IH(5) d1 by (simp add: add.commute)
  have "take (Suc k + 1) (drop ?n zds') = take (Suc k) (drop ?n zds') @ [q]"
    by (simp only: take_add dk) simp
  then have "bval (take (Suc k + 1) (drop ?n zds')) = Z1 div ?Y + P * uint q"
    using IH(4) lt by (simp add: bval_append P_def Z1_def del: length_take)
  also have "\<dots> = (Z1 + P * uint q * ?Y) div ?Y" using Y0 by simp
  finally have "bval (take (Suc k + 1) (drop ?n zds')) = bval (take (?n + Suc k + 1) zds) div ?Y"
    unfolding Z .
  moreover have "drop (?n + Suc k + 1) zds' = drop (?n + Suc k + 1) zds"
    using arg_cong [OF dk, of tl] by (simp add: drop_Suc [symmetric] tl_drop add.commute)
  ultimately show ?case using IH step Z by (simp add: Z1_def)
qed

end
