(* ===== verification/BigDivMod.thy ===== *)
theory BigDivMod
  imports BigDiv
begin

text \<open>
  \<open>bigdivrem\<close> and \<open>bigdivmod\<close> of \<open>lib/ruby/bignum.c\<close> and the division methods of \<open>Bignum\<close>.
  \<open>bigdivrem\<close> handles the short operands itself, scales both operands so that the divisor has
  its top bit set, runs \<open>bigdivrem1\<close> and takes quotient and remainder out of one array;
  \<open>bigdivmod\<close> corrects towards the floor.
\<close>

section \<open>Definitions\<close>

text \<open>The one-digit divisor: \<open>while (i--)\<close> over the digits from the top (so on the reversed list).\<close>

fun div1_loop :: "bdigit \<Rightarrow> bdigit_dbl \<Rightarrow> bdigit list \<Rightarrow> bdigit list \<times> bdigit_dbl" where
  "div1_loop dd t2 [] = ([], t2)"
| "div1_loop dd t2 (z # zs) =
     (let t2' = BIGUP t2 + ucast z;
          (qs, r) = div1_loop dd (t2' mod ucast dd) zs
      in (ucast (t2' div ucast dd) # qs, r))"

partial_function (option) norm_shift :: "bdigit \<Rightarrow> nat \<Rightarrow> nat option" where
  "norm_shift q dd = (if q AND push_bit 31 1 = 0 then norm_shift (push_bit 1 q) (dd + 1) else Some dd)"

declare norm_shift.simps [code]

fun shl_loop :: "nat \<Rightarrow> bdigit_dbl \<Rightarrow> bdigit list \<Rightarrow> bdigit list \<times> bdigit_dbl" where
  "shl_loop dd t2 [] = ([], t2)"
| "shl_loop dd t2 (x # xs) =
     (let t2' = t2 + push_bit dd (ucast x); (rs, c) = shl_loop dd (BIGDN t2') xs
      in (BIGLO t2' # rs, c))"

fun shr_loop :: "nat \<Rightarrow> bdigit_dbl \<Rightarrow> bdigit list \<Rightarrow> bdigit list" where
  "shr_loop dd t2 [] = []"
| "shr_loop dd t2 (z # zs) =
     BIGLO (drop_bit dd (t2 OR ucast z)) # shr_loop dd (BIGUP (ucast z)) zs"

definition drop_last_zero :: "bdigit list \<Rightarrow> bdigit list" where
  "drop_last_zero ds = (if last ds = 0 then butlast ds else ds)"

text \<open>
  \<open>None\<close> is a loop that does not end, \<open>Inl\<close> the exception, \<open>Inr\<close> the pair \<open>(*divp, *modp)\<close>.
\<close>

definition bigdivrem ::
  "(nat \<Rightarrow> bool) \<Rightarrow> rbignum \<Rightarrow> rbignum \<Rightarrow> (rb_error + rbignum \<times> rbignum) option" where
  "bigdivrem stop x y =
     (let xds = big_digits x; yds = big_digits y; nx = length xds; ny = length yds in
      if BIGZEROP y then Some (Inl ZeroDivError)
      else if nx < ny \<or> nx = ny \<and> xds ! (nx - 1) < yds ! (ny - 1) then
        Some (Inr (rb_int2big 0, x))
      else if ny = 1 then
        let (qs, t2) = div1_loop (yds ! 0) 0 (rev xds)
        in Some (Inr (mk_big (big_sign x = big_sign y) (rev qs),
                      (rb_uint2big (ucast t2))\<lparr>big_sign := big_sign x\<rparr>))
      else
        let ext = (if nx = ny then [0] else []);
            yds' = trunc_all yds; ny' = length yds'
        in case norm_shift (last yds') 0 of
             None \<Rightarrow> None
           | Some dd \<Rightarrow>
               let ys = (if dd \<noteq> 0 then fst (shl_loop dd 0 yds') else yds');
                   zs = (if dd \<noteq> 0 then
                           (case shl_loop dd 0 xds of (ds, t2) \<Rightarrow> ds @ [ucast t2])
                         else xds @ [0]) @ ext;
                   stop' = (if 10000 < nx \<or> 10000 < ny then stop else (\<lambda>_. False))
               in case bigdivrem1 stop' nx ys zs of
                    None \<Rightarrow> None
                  | Some zds \<Rightarrow>
                      let j = (if nx = ny' then nx + 2 else nx + 1) - ny';
                          dds = drop_last_zero (take j (drop ny' zds));
                          mds = trunc_digits (take ny' zds);
                          mds' = (if dd \<noteq> 0 then rev (shr_loop dd 0 (rev mds)) else mds)
                      in Some (Inr (mk_big (big_sign x = big_sign y) dds,
                                    mk_big (big_sign x) (drop_last_zero mds'))))"

definition bigdivmod ::
  "(nat \<Rightarrow> bool) \<Rightarrow> rbignum \<Rightarrow> rbignum \<Rightarrow> (rb_error + rbignum \<times> rbignum) option" where
  "bigdivmod stop x y =
     (case bigdivrem stop x y of
        None \<Rightarrow> None
      | Some (Inl e) \<Rightarrow> Some (Inl e)
      | Some (Inr (d, m)) \<Rightarrow>
          Some (Inr (if big_sign x \<noteq> big_sign y \<and> \<not> BIGZEROP m
                     then (bigadd d (rb_int2big 1) False, bigadd m y True)
                     else (d, m))))"

definition big_result :: "(rb_error + rbignum) option \<Rightarrow> ('f, 'o) rb_result option" where
  "big_result r = map_option (map_sum id (\<lambda>z. RInt (bignorm (VBig z)))) r"

text \<open>\<open>rb_big_divide\<close> with \<open>op\<close> the operator it was called for (\<open>'/'\<close> or \<open>:div\<close>).\<close>

definition rb_big_divide :: "('f, 'o) rb_env \<Rightarrow> (nat \<Rightarrow> bool) \<Rightarrow> rbignum \<Rightarrow>
    ('f, 'o) rb_value \<Rightarrow> string \<Rightarrow> ('f, 'o) rb_result option" where
  "rb_big_divide env stop x y op =
     (case y of
        RInt v \<Rightarrow> big_result (map_option (map_sum id fst) (bigdivmod stop x (to_big v)))
      | RFloat f \<Rightarrow>
          let q = dbl_div env (rb_big2dbl env x) f
          in Some (if op = ''/'' then Inr (RFloat q) else map_sum id RInt (rb_dbl2big env q))
      | _ \<Rightarrow> Some (coerce_bin env op (RInt (VBig x)) y))"

definition rb_big_div :: "('f, 'o) rb_env \<Rightarrow> (nat \<Rightarrow> bool) \<Rightarrow> rbignum \<Rightarrow>
    ('f, 'o) rb_value \<Rightarrow> ('f, 'o) rb_result option" where
  "rb_big_div env stop x y = rb_big_divide env stop x y ''/''"

definition rb_big_idiv :: "('f, 'o) rb_env \<Rightarrow> (nat \<Rightarrow> bool) \<Rightarrow> rbignum \<Rightarrow>
    ('f, 'o) rb_value \<Rightarrow> ('f, 'o) rb_result option" where
  "rb_big_idiv env stop x y = rb_big_divide env stop x y ''div''"

definition rb_big_modulo :: "('f, 'o) rb_env \<Rightarrow> (nat \<Rightarrow> bool) \<Rightarrow> rbignum \<Rightarrow>
    ('f, 'o) rb_value \<Rightarrow> ('f, 'o) rb_result option" where
  "rb_big_modulo env stop x y =
     (case y of
        RInt v \<Rightarrow> big_result (map_option (map_sum id snd) (bigdivmod stop x (to_big v)))
      | _ \<Rightarrow> Some (coerce_bin env ''%'' (RInt (VBig x)) y))"

definition rb_big_remainder :: "('f, 'o) rb_env \<Rightarrow> (nat \<Rightarrow> bool) \<Rightarrow> rbignum \<Rightarrow>
    ('f, 'o) rb_value \<Rightarrow> ('f, 'o) rb_result option" where
  "rb_big_remainder env stop x y =
     (case y of
        RInt v \<Rightarrow> big_result (map_option (map_sum id snd) (bigdivrem stop x (to_big v)))
      | _ \<Rightarrow> Some (coerce_bin env ''remainder'' (RInt (VBig x)) y))"

definition rb_big_divmod :: "('f, 'o) rb_env \<Rightarrow> (nat \<Rightarrow> bool) \<Rightarrow> rbignum \<Rightarrow>
    ('f, 'o) rb_value \<Rightarrow> ('f, 'o) rb_result option" where
  "rb_big_divmod env stop x y =
     (case y of
        RInt v \<Rightarrow>
          map_option (map_sum id (\<lambda>(d, m). RPair (RInt (bignorm (VBig d))) (RInt (bignorm (VBig m)))))
            (bigdivmod stop x (to_big v))
      | _ \<Rightarrow> Some (coerce_bin env ''divmod'' (RInt (VBig x)) y))"

section \<open>The helper loops\<close>

lemma div1_loop_correct:
  assumes "div1_loop dd t2 zs = (qs, r)" and "dd \<noteq> 0" and "uint t2 < uint dd"
  shows "length qs = length zs \<and> uint r < uint dd
    \<and> bval (rev zs) + 2 ^ (32 * length zs) * uint t2 = uint dd * bval (rev qs) + uint r"
  using assms(1,3)
proof (induction dd t2 zs arbitrary: qs rule: div1_loop.induct)
  case (2 dd t2 z zs)
  define t where "t = BIGUP t2 + ucast z"
  have "uint t2 < 2 ^ 32" using "2.prems"(2) u32_bounds [of dd] by simp
  then have t: "uint t = uint t2 * 2 ^ 32 + uint z"
    using u32_bounds [of z] unfolding t_def by (subst uint_add_nowrap) (simp_all add: uint_BIGUP)
  obtain ws where rec: "div1_loop dd (t mod ucast dd) zs = (ws, r)" and qs: "qs = ucast (t div ucast dd) # ws"
    using "2.prems"(1) by (auto simp: Let_def t_def split: prod.splits)
  have dd: "0 < uint dd" using "2.prems"(2) uint_ge_0 [of t2] by linarith
  then have m: "uint (t mod ucast dd) = uint t mod uint dd" by (simp add: uint_mod)
  then have "uint (t mod ucast dd) < uint dd" using dd by simp
  with "2.IH" [OF t_def, of ws] rec
  have IH: "length ws = length zs" "uint r < uint dd"
    "bval (rev zs) + 2 ^ (32 * length zs) * (uint t mod uint dd) = uint dd * bval (rev ws) + uint r"
    by (simp_all add: m)
  have "uint t < uint dd * 2 ^ 32"
  proof -
    have "uint t < (uint t2 + 1) * 2 ^ 32" using t u32_bounds [of z] by simp
    also have "\<dots> \<le> uint dd * 2 ^ 32" using "2.prems"(2) by simp
    finally show ?thesis .
  qed
  then have "uint t div uint dd < 2 ^ 32" using dd by (simp add: div_less_int mult.commute)
  moreover have "0 \<le> uint t div uint dd" using dd by (simp add: pos_imp_zdiv_nonneg_iff)
  ultimately have q: "uint (ucast (t div ucast dd) :: bdigit) = uint t div uint dd"
    by (simp add: uint_ucast_u64_u32 uint_div)
  have "bval (rev (z # zs)) + 2 ^ (32 * length (z # zs)) * uint t2
      = bval (rev zs) + 2 ^ (32 * length zs) * uint t"
    unfolding t by (simp add: bval_append power_add algebra_simps)
  also have "\<dots> = (bval (rev zs) + 2 ^ (32 * length zs) * (uint t mod uint dd))
      + uint dd * (2 ^ (32 * length zs) * (uint t div uint dd))"
  proof -
    have "uint t = uint t mod uint dd + uint dd * (uint t div uint dd)" by simp
    from arg_cong [OF this, of "\<lambda>u. bval (rev zs) + 2 ^ (32 * length zs) * u"]
    show ?thesis by (simp only: algebra_simps)
  qed
  also have "\<dots> = uint dd * bval (rev qs) + uint r"
    unfolding IH(3) using IH(1) unfolding qs by (simp add: bval_append q algebra_simps)
  finally show ?case using IH qs by simp
qed simp

lemma shl_loop_correct:
  assumes "shl_loop dd t2 xs = (rs, c)" and "dd \<le> 31" and "uint t2 < 2 ^ dd"
  shows "length rs = length xs \<and> uint c < 2 ^ dd
    \<and> bval rs + 2 ^ (32 * length xs) * uint c = bval xs * 2 ^ dd + uint t2"
  using assms
proof (induction dd t2 xs arbitrary: rs rule: shl_loop.induct)
  case (2 dd t2 x xs)
  define t where "t = t2 + push_bit dd (ucast x)"
  define D where "D = (2 :: int) ^ dd"
  have D: "0 < D" "D \<le> 2147483648"
  proof -
    have "(2 :: int) ^ dd \<le> 2 ^ 31" using "2.prems"(2) by (intro power_increasing) simp_all
    then show "D \<le> 2147483648" by (simp add: D_def)
  qed (simp add: D_def)
  have x: "uint x * D \<le> 4294967295 * D" using u32_bounds [of x] D(1) by simp
  have "uint (push_bit dd (ucast x) :: bdigit_dbl) = uint x * D mod 2 ^ 64"
    by (simp only: uint_push_bit uint_ucast_u32_u64 D_def) simp
  also have "\<dots> = uint x * D"
  proof (intro mod_pos_pos_trivial)
    have "uint x * D < 18446744073709551616" using x D by linarith
    then show "uint x * D < 2 ^ 64" by simp
  qed (use D in simp)
  finally have sh: "uint (push_bit dd (ucast x) :: bdigit_dbl) = uint x * D" .
  have "uint t2 < D" using "2.prems"(3) by (simp add: D_def)
  then have "uint t2 + uint x * D < 18446744073709551616" using x D by linarith
  then have t: "uint t = uint t2 + uint x * D"
    unfolding t_def sh [symmetric] by (intro uint_add_nowrap) simp
  obtain ws where rec: "shl_loop dd (BIGDN t) xs = (ws, c)" and rs: "rs = BIGLO t # ws"
    using "2.prems"(1) by (auto simp: Let_def t_def split: prod.splits)
  have "uint t < D * 4294967296" using t x \<open>uint t2 < D\<close> by linarith
  then have "uint (BIGDN t) < 2 ^ dd" by (simp add: uint_BIGDN div_less_int D_def)
  with "2.IH" [OF t_def, of ws] rec "2.prems"(2)
  have IH: "length ws = length xs" "uint c < 2 ^ dd"
    "bval ws + 2 ^ (32 * length xs) * uint c = bval xs * D + uint (BIGDN t)"
    by (simp_all add: D_def)
  have "bval rs + 2 ^ (32 * length (x # xs)) * uint c
      = uint (BIGLO t) + 2 ^ 32 * (bval ws + 2 ^ (32 * length xs) * uint c)"
    by (simp add: rs power_add algebra_simps)
  also have "\<dots> = bval (x # xs) * D + uint t2"
    unfolding IH(3) using BIGLO_BIGDN [of t] t by (simp add: algebra_simps)
  finally show ?case using IH rs by (simp add: D_def)
qed simp

lemma shr_loop_correct:
  assumes "dd \<le> 32"
  shows "length (shr_loop dd (BIGUP (ucast p)) zs) = length zs
    \<and> bval (rev (shr_loop dd (BIGUP (ucast (p :: bdigit))) zs))
      = (uint p mod 2 ^ dd * 2 ^ (32 * length zs) + bval (rev zs)) div 2 ^ dd"
proof (induction zs arbitrary: p)
  case (Cons z zs)
  define D where "D = (2 :: int) ^ dd"
  have D: "0 < D" by (simp add: D_def)
  have B: "(2 :: int) ^ 32 = 2 ^ (32 - dd) * D" using assms by (simp add: D_def flip: power_add)
  define P where "P = (2 :: int) ^ (32 * length zs)"
  define p' z' where "p' = uint p mod D" and "z' = uint z mod D"
  define Q where "Q = (p' * 2 ^ 32 + uint z) div D"
  define r where "r = BIGLO (drop_bit dd (BIGUP (ucast p) OR ucast z))"
  have or: "BIGUP (ucast p) OR ucast z = BIGUP (ucast p) + ucast z"
    by (rule disjunctive_add [symmetric]) (auto simp: BIGUP_def bit_simps dest: bit_imp_le_length)
  have "uint (BIGUP (ucast p) OR ucast z :: bdigit_dbl) = uint p * 2 ^ 32 + uint z"
    using u32_bounds [of z] u32_bounds [of p] unfolding or by (subst uint_add_nowrap) simp_all
  then have "uint r = (uint p * 2 ^ 32 + uint z) div D mod 2 ^ 32"
    by (simp only: r_def uint_BIGLO uint_drop_bit D_def)
  also have "uint p * 2 ^ 32 + uint z = (uint p div D * 2 ^ 32) * D + (p' * 2 ^ 32 + uint z)"
  proof -
    have "uint p = uint p div D * D + p'" by (simp add: p'_def)
    then have "uint p * 2 ^ 32 = (uint p div D * D + p') * 2 ^ 32" by simp
    then show ?thesis by (simp add: algebra_simps)
  qed
  also have "(\<dots>) div D mod 2 ^ 32 = Q mod 2 ^ 32"
    unfolding Q_def using D by (simp add: div_mult_self4 mod_simps)
  also have "\<dots> = Q"
  proof (intro mod_pos_pos_trivial)
    have "0 \<le> p'" "p' < D" using D by (simp_all add: p'_def)
    then show "0 \<le> Q" using D u32_bounds [of z] by (simp add: Q_def pos_imp_zdiv_nonneg_iff)
    have "p' * 2 ^ 32 + uint z < (p' + 1) * 2 ^ 32" using u32_bounds [of z] by simp
    also have "\<dots> \<le> D * 2 ^ 32" using \<open>p' < D\<close> by simp
    finally show "Q < 2 ^ 32" unfolding Q_def using D by (intro div_less_int) (simp_all add: mult.commute)
  qed
  finally have r: "uint r = Q" .
  have Q: "p' * 2 ^ 32 + uint z = D * Q + z'"
  proof -
    have "(p' * 2 ^ 32 + uint z) mod D = z'" 
      unfolding B z'_def by (simp only: mult.assoc [symmetric] mod_mult_self3)
    then show ?thesis unfolding Q_def by (metis mult_div_mod_eq)
  qed
  have "bval (rev (r # shr_loop dd (BIGUP (ucast z)) zs)) = (z' * P + bval (rev zs)) div D + P * Q"
    using Cons.IH [of z] by (simp add: bval_append r P_def D_def z'_def)
  also have "\<dots> = (z' * P + bval (rev zs) + (P * Q) * D) div D" using D by simp
  also have "z' * P + bval (rev zs) + (P * Q) * D = P * (D * Q + z') + bval (rev zs)"
    by (simp add: algebra_simps)
  also have "\<dots> = p' * 2 ^ (32 * length (z # zs)) + bval (rev (z # zs))"
    unfolding Q [symmetric] by (simp add: bval_append P_def power_add algebra_simps)
  finally show ?case using Cons.IH [of z] by (simp add: r_def p'_def D_def)
qed simp

lemma top_bit_clear: "(q :: bdigit) AND push_bit 31 1 = 0 \<longleftrightarrow> uint q < 2 ^ 31"
proof -
  have "q AND push_bit 31 1 = 0 \<longleftrightarrow> \<not> bit q 31"
    using and_push_bit_iff [of q 31] by blast
  moreover have "bit q 31 \<longleftrightarrow> bit (uint q) 31" by (simp add: bit_uint_iff)
  moreover have "\<dots> \<longleftrightarrow> odd (uint q div 2 ^ 31)" by (simp add: bit_iff_odd)
  moreover have "uint q div 2 ^ 31 = 0 \<or> uint q div 2 ^ 31 = 1"
    using u32_bounds [of q] div_less_int [of "2 ^ 31" "uint q" 2] pos_imp_zdiv_nonneg_iff [of "2 ^ 31" "uint q"]
    by auto
  ultimately show ?thesis using u32_bounds [of q]
    by (auto simp: zdiv_eq_0_iff)
qed

lemma norm_shift_correct:
  "q \<noteq> 0 \<Longrightarrow> \<exists>k \<le> 31. norm_shift q dd = Some (dd + k) \<and> uint q * 2 ^ k < 2 ^ 32"
proof (induction "nat (2 ^ 32 - uint q)" arbitrary: q dd rule: less_induct)
  case less
  have q: "0 < uint q" using less.prems by (simp add: uint_u32_neq_0)
  show ?case
  proof (cases "uint q < 2 ^ 31")
    case True
    have "uint (push_bit 1 q) = uint q * 2 mod 2 ^ 32"
      by (simp add: push_bit_eq_mult uint_word_ariths mult.commute)
    with True have q2: "uint (push_bit 1 q) = uint q * 2" using q by simp
    then have "push_bit 1 q \<noteq> 0" using q uint_u32_neq_0 [of "push_bit 1 q"] by simp
    with less.hyps [of "push_bit 1 q" "dd + 1"] q2 q True
    obtain k where k: "k \<le> 31" "norm_shift (push_bit 1 q) (dd + 1) = Some (dd + 1 + k)"
      "uint q * 2 * 2 ^ k < 2 ^ 32" by auto
    have "norm_shift q dd = Some (dd + Suc k)"
      using True k(2) by (simp only: norm_shift.simps [of q dd] top_bit_clear if_True) simp
    moreover have "Suc k \<le> 31"
    proof (rule ccontr)
      assume "\<not> ?thesis"
      then have "k = 31" using k(1) by simp
      with k(3) q show False by simp
    qed
    ultimately show ?thesis using k(3) by (intro exI [of _ "Suc k"]) (simp add: algebra_simps)
  next
    case False
    then have "norm_shift q dd = Some dd"
      by (simp only: norm_shift.simps [of q dd] top_bit_clear if_False)
    then show ?thesis using u32_bounds [of q] by (intro exI [of _ 0]) simp
  qed
qed

lemma trunc_all_id: "last ds \<noteq> 0 \<Longrightarrow> trunc_all ds = ds"
  by (subst trunc_all.simps) simp

lemma bval_drop_last_zero [simp]: "ds \<noteq> [] \<Longrightarrow> bval (drop_last_zero ds) = bval ds"
  by (cases ds rule: rev_cases) (simp_all add: drop_last_zero_def)

lemma length_drop_last_zero: "length (drop_last_zero ds) \<le> length ds"
  by (simp add: drop_last_zero_def)

lemma length_trunc_digits: "length (trunc_digits ds) \<le> length ds"
proof (induction ds rule: trunc_digits.induct)
  case (1 ds)
  then show ?case by (subst trunc_digits.simps) (auto intro: order_trans)
qed

lemma trunc_digits_Nil_iff [simp]: "trunc_digits ds = [] \<longleftrightarrow> ds = []"
  by (metis digits_ok_def digits_ok_trunc length_0_conv length_trunc_digits le_zero_eq)

section \<open>\<open>bigdivrem\<close>\<close>

definition divrem_spec :: "rbignum \<Rightarrow> rbignum \<Rightarrow> rbignum \<Rightarrow> rbignum \<Rightarrow> bool" where
  "divrem_spec x y d m \<longleftrightarrow>
     bval (big_digits d) = bval (big_digits x) div bval (big_digits y)
   \<and> bval (big_digits m) = bval (big_digits x) mod bval (big_digits y)
   \<and> (big_sign d = (big_sign x = big_sign y) \<or> bval (big_digits d) = 0 \<and> length (big_digits d) = 1)
   \<and> big_sign m = big_sign x
   \<and> (length (big_digits m) \<le> length (big_digits y))"

text \<open>The shared array of the general case, once both operands are scaled by \<open>2 ^ dd\<close>.\<close>

lemma scaled_operands:
  fixes xds yds :: "bdigit list"
  assumes dd: "dd \<le> 31" and top: "uint (last yds) * 2 ^ dd < 2 ^ 32" and y: "yds \<noteq> []" "last yds \<noteq> 0"
  defines "ys \<equiv> (if dd \<noteq> 0 then fst (shl_loop dd 0 yds) else yds)"
    and "zs \<equiv> (if dd \<noteq> 0 then (case shl_loop dd 0 xds of (ds, t2) \<Rightarrow> ds @ [ucast t2]) else xds @ [0])"
  shows "length ys = length yds" and "bval ys = bval yds * 2 ^ dd" and "last ys \<noteq> 0"
    and "length zs = Suc (length xds)" and "bval zs = bval xds * 2 ^ dd" and "uint (last zs) < 2 ^ dd"
proof -
  obtain rs c where ysl: "shl_loop dd 0 yds = (rs, c)" by fastforce
  obtain us e where zsl: "shl_loop dd 0 xds = (us, e)" by fastforce
  define D where "D = (2 :: int) ^ dd"
  have D: "0 < D" by (simp add: D_def)
  from shl_loop_correct [OF ysl dd]
  have rs: "length rs = length yds" "bval rs + 2 ^ (32 * length yds) * uint c = bval yds * D"
    by (simp_all add: D_def)
  from shl_loop_correct [OF zsl dd]
  have us: "length us = length xds" "uint e < D" "bval us + 2 ^ (32 * length xds) * uint e = bval xds * D"
    by (simp_all add: D_def)
  obtain y0 yt where yE: "yds = y0 @ [yt]" using y(1) by (cases yds rule: rev_cases) auto
  define P where "P = (2 :: int) ^ (32 * length y0)"
  have P: "0 < P" by (simp add: P_def)
  have "uint yt * D + D \<le> 2 ^ 32"
  proof -
    have B: "(2 :: int) ^ 32 = 2 ^ (32 - dd) * D" using dd by (simp add: D_def flip: power_add)
    have "uint yt * D < 2 ^ (32 - dd) * D" using top yE unfolding B by (simp add: D_def)
    then have "uint yt < 2 ^ (32 - dd)" using D by simp
    then have "(uint yt + 1) * D \<le> 2 ^ (32 - dd) * D" using D by simp
    with B show ?thesis by (simp add: algebra_simps)
  qed
  have "bval yds * D < 2 ^ (32 * length yds)"
  proof -
    have "bval y0 < P" using bval_bound [of y0] by (simp add: P_def)
    then have "bval y0 * D < P * D" using D by simp
    then have "bval yds * D < P * (uint yt * D + D)" by (simp add: yE bval_append P_def algebra_simps)
    also have "\<dots> \<le> P * 2 ^ 32" using \<open>uint yt * D + D \<le> 2 ^ 32\<close> P by simp
    finally show ?thesis by (simp add: yE P_def power_add)
  qed
  with rs(2) bval_nonneg [of rs] have "2 ^ (32 * length yds) * uint c < 2 ^ (32 * length yds) * 1" by linarith
  then have "uint c < 1" by simp
  with uint_ge_0 [of c] have "uint c = 0" by linarith
  with rs(2) have rsv: "bval rs = bval yds * D" by simp
  have "last rs \<noteq> 0"
  proof
    assume "last rs = 0"
    moreover have "rs \<noteq> []" using rs(1) y(1) by auto
    ultimately obtain r0 where "rs = r0 @ [0]" by (metis append_butlast_last_id)
    then have "bval rs < P" using bval_bound [of r0] rs(1) yE by (simp add: P_def bval_append)
    moreover have "P * 1 \<le> bval yds" using bval_snoc_ge [of yt y0] y(2) yE by (simp add: P_def)
    moreover have "bval yds * 1 \<le> bval yds * D" using D bval_nonneg [of yds] by (intro mult_left_mono) simp_all
    ultimately show False using rsv by simp
  qed
  show "length ys = length yds" "bval ys = bval yds * 2 ^ dd" "last ys \<noteq> 0"
    using rs(1) rsv \<open>last rs \<noteq> 0\<close> y(2) by (simp_all add: ys_def ysl D_def)
  have "D \<le> 2 ^ 31" unfolding D_def using dd by (intro power_increasing) simp_all
  then have "uint (ucast e :: bdigit) = uint e" using us(2) by (simp add: uint_ucast_u64_u32)
  then show "length zs = Suc (length xds)" "bval zs = bval xds * 2 ^ dd" "uint (last zs) < 2 ^ dd"
    using us by (simp_all add: zs_def zsl bval_append D_def split: prod.splits)
qed

lemma BIGZEROP_value: "BIGZEROP y \<longleftrightarrow> big_int y = 0"
  by (simp add: BIGZEROP_iff big_int_def)

lemma bigdivrem_short:
  assumes y: "digits_ok (big_digits y)" and nz: "\<not> BIGZEROP y"
    and short: "length (big_digits x) < length (big_digits y) \<or>
      length (big_digits x) = length (big_digits y) \<and>
      big_digits x ! (length (big_digits x) - 1) < big_digits y ! (length (big_digits y) - 1)"
  shows "\<exists>d m. bigdivrem stop x y = Some (Inr (d, m)) \<and> divrem_spec x y d m"
proof -
  define xs ys where "xs = big_digits x" and "ys = big_digits y"
  obtain y0 yt where yE: "ys = y0 @ [yt]" using y by (cases ys rule: rev_cases) (auto simp: ys_def digits_ok_def)
  have yv: "0 < bval ys" using nz bval_nonneg [of ys] by (simp add: BIGZEROP_iff ys_def)
  have "bval xs < bval ys"
  proof (cases "length xs < length ys")
    case True
    show ?thesis
    proof (cases "yt = 0")
      case True
      with y yE have "y0 = []" by (auto simp: digits_ok_def ys_def)
      with \<open>length xs < length ys\<close> yE yv show ?thesis by simp
    next
      case False
      have "bval xs < 2 ^ (32 * length xs)" by (rule bval_bound)
      also have "\<dots> \<le> 2 ^ (32 * length y0)" using True yE by (intro power_increasing) simp_all
      also have "\<dots> \<le> bval ys" using bval_snoc_ge [OF False] yE by simp
      finally show ?thesis .
    qed
  next
    case False
    with short have len: "length xs = length ys" and lt: "xs ! (length xs - 1) < ys ! (length ys - 1)"
      by (auto simp: xs_def ys_def)
    obtain x0 xt where xE: "xs = x0 @ [xt]" using len yE by (cases xs rule: rev_cases) auto
    have l0: "length x0 = length y0" using len xE yE by simp
    from lt have "uint xt + 1 \<le> uint yt" by (simp add: xE yE word_less_def)
    then have "2 ^ (32 * length y0) * (uint xt + 1) \<le> (2 :: int) ^ (32 * length y0) * uint yt"
      by (intro mult_left_mono) simp_all
    then show ?thesis
      using bval_bound [of x0] bval_nonneg [of y0] by (simp add: xE yE bval_append l0 algebra_simps)
  qed
  then have "divrem_spec x y (rb_int2big 0) x"
    using short bval_nonneg [of xs]
    by (auto simp: divrem_spec_def xs_def ys_def rb_int2big_def rb_uint2big_def DIGSPERLONG_def
        Let_def trunc_digits.simps [of "[_]"] BIGLO_def)
  moreover have "bigdivrem stop x y = Some (Inr (rb_int2big 0, x))"
    using nz short unfolding bigdivrem_def Let_def by simp
  ultimately show ?thesis by blast
qed

lemma bigdivrem_single:
  assumes y: "big_digits y = [dd]" and nz: "dd \<noteq> 0"
    and long: "\<not> (length (big_digits x) < length (big_digits y) \<or>
      length (big_digits x) = length (big_digits y) \<and>
      big_digits x ! (length (big_digits x) - 1) < big_digits y ! (length (big_digits y) - 1))"
  shows "\<exists>d m. bigdivrem stop x y = Some (Inr (d, m)) \<and> divrem_spec x y d m"
proof -
  obtain qs r where loop: "div1_loop dd 0 (rev (big_digits x)) = (qs, r)" by fastforce
  have dd: "0 < uint dd" using nz uint_u32_neq_0 by simp
  with div1_loop_correct [OF loop nz]
  have r: "uint r < uint dd" "bval (big_digits x) = uint dd * bval (rev qs) + uint r" by simp_all
  from div_mod_int_unique [OF uint_ge_0 this]
  have dm: "bval (big_digits x) div uint dd = bval (rev qs)" "bval (big_digits x) mod uint dd = uint r" .
  have "uint (ucast r :: u32) = uint r"
    using r(1) u32_bounds [of dd] by (simp add: uint_ucast_u64_u32)
  then have "bval (big_digits (rb_uint2big (ucast r))) = uint r"
    by (simp add: rb_uint2big_def DIGSPERLONG_def BIGLO_ucast)
  moreover have "length (big_digits (rb_uint2big (ucast r))) \<le> 1"
    using length_trunc_digits [of "uint2big_digits DIGSPERLONG (ucast (ucast r :: u32))"]
    by (simp add: rb_uint2big_def DIGSPERLONG_def)
  ultimately have "divrem_spec x y (mk_big (big_sign x = big_sign y) (rev qs))
      ((rb_uint2big (ucast r))\<lparr>big_sign := big_sign x\<rparr>)"
    using dm by (simp add: divrem_spec_def y)
  moreover
  have nz: "\<not> BIGZEROP y" using dd y by (simp add: BIGZEROP_iff)
  have len1: "(length (big_digits y) = 1) = True" using y by simp
  have "bigdivrem stop x y = (case div1_loop (big_digits y ! 0) 0 (rev (big_digits x)) of (qs, t2) \<Rightarrow>
      Some (Inr (mk_big (big_sign x = big_sign y) (rev qs), (rb_uint2big (ucast t2))\<lparr>big_sign := big_sign x\<rparr>)))"
    by (simp only: bigdivrem_def Let_def nz long len1 simp_thms if_True if_False)
  then have "bigdivrem stop x y = Some (Inr (mk_big (big_sign x = big_sign y) (rev qs),
      (rb_uint2big (ucast r))\<lparr>big_sign := big_sign x\<rparr>))"
    by (simp add: y loop)
  ultimately show ?thesis by blast
qed

lemma bigdivrem_long:
  assumes stop: "\<forall>k. \<not> stop k" and ny: "1 < length (big_digits y)" and y: "digits_ok (big_digits y)"
    and long: "\<not> (length (big_digits x) < length (big_digits y) \<or>
      length (big_digits x) = length (big_digits y) \<and>
      big_digits x ! (length (big_digits x) - 1) < big_digits y ! (length (big_digits y) - 1))"
  shows "\<exists>d m. bigdivrem stop x y = Some (Inr (d, m)) \<and> divrem_spec x y d m"
proof -
  define xds yds where "xds = big_digits x" and "yds = big_digits y"
  define nx ny where "nx = length xds" and "ny = length yds"
  have top: "last yds \<noteq> 0" "yds \<noteq> []" using y ny by (auto simp: yds_def digits_ok_def)
  from norm_shift_correct [OF top(1), of 0] obtain dd where
    dd: "dd \<le> 31" "norm_shift (last yds) 0 = Some dd" "uint (last yds) * 2 ^ dd < 2 ^ 32" by auto
  define D where "D = (2 :: int) ^ dd"
  have D: "0 < D" by (simp add: D_def)
  define ys where "ys = (if dd \<noteq> 0 then fst (shl_loop dd 0 yds) else yds)"
  define zs0 where "zs0 = (if dd \<noteq> 0 then (case shl_loop dd 0 xds of (ds, t2) \<Rightarrow> ds @ [ucast t2]) else xds @ [0])"
  define ext where "ext = (if nx = ny then [0 :: bdigit] else [])"
  define zs where "zs = zs0 @ ext"
  note sc = scaled_operands(1-3) [OF dd(1,3) top(2,1), folded ys_def D_def]
    scaled_operands(4-6) [OF dd(1,3) top(2,1), where xds = xds, folded zs0_def D_def]
  have nyx: "ny \<le> nx" using long by (auto simp: nx_def ny_def xds_def yds_def)
  define k where "k = (if nx = ny then 1 else nx - ny)"
  have k: "length ys + k < length zs" "length ys + k + 1 = length zs"
    using nyx sc(1,4) by (auto simp: zs_def ext_def k_def nx_def ny_def)
  have zsv: "bval zs = bval xds * D" using sc(5) by (simp add: zs_def ext_def)
  define stop' where "stop' = (if 10000 < nx \<or> 10000 < ny then stop else (\<lambda>_. False))"
  have stop': "\<forall>k. \<not> stop' k" using stop by (simp add: stop'_def)
  have win: "bval (take (Suc (length ys)) (drop k zs)) < 2 ^ 32 * bval ys"
  proof -
    have "2 ^ (32 * (ny - 1)) \<le> bval yds"
      using bval_snoc_ge [of "last yds" "butlast yds"] top by (simp add: ny_def)
    then have "2 ^ 32 * (2 ^ (32 * (ny - 1)) * D) \<le> 2 ^ 32 * bval ys" using D sc(2) by simp
    moreover have "2 ^ 32 * 2 ^ (32 * (ny - 1)) = (2 :: int) ^ (32 * ny)"
    proof -
      obtain m where "ny = Suc m" using ny by (cases ny) (auto simp: ny_def yds_def)
      then show ?thesis by (simp add: power_add)
    qed
    ultimately have le: "2 ^ (32 * ny) * D \<le> 2 ^ 32 * bval ys" by (simp only: mult.assoc [symmetric])
    have ne: "zs0 \<noteq> []" using sc(4) by auto
    have "bval (take (Suc (length ys)) (drop k zs)) < 2 ^ (32 * ny) * D"
    proof (cases "nx = ny")
      case True
      with sc(1,4) have "take (Suc (length ys)) (drop k zs) = tl zs0 @ [0]"
        by (simp add: k_def zs_def ext_def nx_def ny_def drop_Suc [of 0, simplified])
      then have "bval (take (Suc (length ys)) (drop k zs)) < 2 ^ (32 * ny) * 1"
        using bval_bound [of "tl zs0"] sc(4) True by (simp add: nx_def)
      also have "\<dots> \<le> 2 ^ (32 * ny) * D" using D by (intro mult_left_mono) simp_all
      finally show ?thesis .
    next
      case False
      then have kle: "k \<le> length (butlast zs0)" and lb: "length (drop k (butlast zs0)) = ny"
        using sc(4) nyx by (auto simp: k_def nx_def)
      have "drop k zs = drop k (butlast zs0) @ [last zs0]"
      proof -
        have "zs0 = butlast zs0 @ [last zs0]" using ne by simp
        then have "drop k zs0 = drop k (butlast zs0 @ [last zs0])" by simp
        also have "\<dots> = drop k (butlast zs0) @ [last zs0]" using kle by (simp only: drop_append) simp
        finally show ?thesis using False by (simp add: zs_def ext_def)
      qed
      then have win: "take (Suc (length ys)) (drop k zs) = drop k (butlast zs0) @ [last zs0]"
        using lb sc(1) by (simp add: ny_def)
      have "bval (drop k (butlast zs0)) < 2 ^ (32 * ny)" using bval_bound [of "drop k (butlast zs0)"] lb by simp
      then have "bval (take (Suc (length ys)) (drop k zs)) < 2 ^ (32 * ny) * (uint (last zs0) + 1)"
        unfolding win bval_append lb by (simp add: algebra_simps)
      also have "\<dots> \<le> 2 ^ (32 * ny) * D" using sc(6) by (intro mult_left_mono) simp_all
      finally show ?thesis .
    qed
    with le show ?thesis by linarith
  qed
  have "ys \<noteq> []" using sc(1) top(2) by auto
  from div_loop_correct [OF stop' this sc(3) k(1) win, of 0] obtain zds where
    zds: "div_loop stop' 0 ys k zs = Some zds" "length zds = length zs"
      "bval (take ny zds) = bval zs mod bval ys"
      "bval (take (k + 1) (drop ny zds)) = bval zs div bval ys"
    using k(2) sc(1) by (auto simp: ny_def)
  define dds where "dds = drop_last_zero (take (k + 1) (drop ny zds))"
  define mds where "mds = trunc_digits (take ny zds)"
  define mds' where "mds' = (if dd \<noteq> 0 then rev (shr_loop dd 0 (rev mds)) else mds)"
  have y0: "0 < bval yds" using y top bval_nonneg [of yds] bval_eq_0_iff [of yds] last_in_set [OF top(2)] by fastforce
  have dv: "bval zs div bval ys = bval xds div bval yds" "bval zs mod bval ys = (bval xds mod bval yds) * D"
    using D by (simp_all add: zsv sc(2) mult_mod_left)
  have "length zds = ny + (k + 1)" using zds(2) k(2) sc(1) by (simp add: ny_def)
  then have ne: "take (k + 1) (drop ny zds) \<noteq> []" "take ny zds \<noteq> []"
    using ny by (auto simp: ny_def yds_def)
  have dvv: "bval dds = bval xds div bval yds" using ne(1) zds(4) dv(1) by (simp add: dds_def)
  have mv: "bval mds = (bval xds mod bval yds) * D" using zds(3) dv(2) by (simp add: mds_def)
  have "shr_loop dd 0 (rev mds) = shr_loop dd (BIGUP (ucast (0 :: bdigit))) (rev mds)"
    by (simp add: BIGUP_def)
  with shr_loop_correct [of dd 0 "rev mds"] dd(1) mv D
  have mv': "bval mds' = bval xds mod bval yds" "length mds' = length mds"
    by (auto simp: mds'_def D_def)
  have mne: "mds' \<noteq> []" using mv'(2) ne(2) by (auto simp: mds_def)
  have "length mds \<le> ny" using length_trunc_digits [of "take ny zds"] by (simp add: mds_def)
  then have ml: "length (drop_last_zero mds') \<le> ny"
    using length_drop_last_zero [of mds'] mv'(2) by linarith
  have nz: "\<not> BIGZEROP y" using y0 by (simp add: BIGZEROP_iff yds_def)
  have r1: "bigdivrem1 stop' nx ys zs = Some zds"
    using zds(1) sc(1) nyx by (auto simp: bigdivrem1_def Let_def k_def ny_def)
  have j: "(if nx = ny then nx + 2 else nx + 1) - ny = k + 1" using nyx by (simp add: k_def Suc_diff_le)
  have ny1: "(length (big_digits y) = 1) = False" using ny by simp
  have "bigdivrem stop x y = (case bigdivrem1 stop' nx ys zs of None \<Rightarrow> None | Some zds \<Rightarrow>
      Some (Inr (mk_big (big_sign x = big_sign y)
          (drop_last_zero (take ((if nx = ny then nx + 2 else nx + 1) - ny) (drop ny zds))),
        mk_big (big_sign x) (drop_last_zero (if dd \<noteq> 0
          then rev (shr_loop dd 0 (rev (trunc_digits (take ny zds)))) else trunc_digits (take ny zds))))))"
    by (simp only: bigdivrem_def Let_def long nz ny1 trunc_all_id [OF top(1), unfolded yds_def]
        dd(2) [unfolded yds_def] option.case if_False simp_thms stop'_def zs_def zs0_def ext_def
        ys_def nx_def ny_def xds_def yds_def)
  then have "bigdivrem stop x y = Some (Inr (mk_big (big_sign x = big_sign y) dds,
      mk_big (big_sign x) (drop_last_zero mds')))"
    by (simp only: r1 option.case j dds_def mds_def mds'_def)
  moreover have "divrem_spec x y (mk_big (big_sign x = big_sign y) dds)
      (mk_big (big_sign x) (drop_last_zero mds'))"
    using dvv mv' mne ml by (simp add: divrem_spec_def xds_def yds_def ny_def)
  ultimately show ?thesis by blast
qed

theorem bigdivrem_correct:
  assumes "\<forall>k. \<not> stop k" and "digits_ok (big_digits y)" and "big_int y \<noteq> 0"
  shows "\<exists>d m. bigdivrem stop x y = Some (Inr (d, m)) \<and> divrem_spec x y d m"
proof -
  let ?short = "length (big_digits x) < length (big_digits y) \<or>
      length (big_digits x) = length (big_digits y) \<and>
      big_digits x ! (length (big_digits x) - 1) < big_digits y ! (length (big_digits y) - 1)"
  have nz: "\<not> BIGZEROP y" using assms(3) by (simp add: BIGZEROP_value)
  have "length (big_digits y) = 1 \<or> 1 < length (big_digits y)"
    using assms(2) by (cases "big_digits y") (auto simp: digits_ok_def)
  then consider ?short | "\<not> ?short" "length (big_digits y) = 1" | "\<not> ?short" "1 < length (big_digits y)"
    by blast
  then show ?thesis
  proof cases
    case 1
    with assms(2) nz show ?thesis by (intro bigdivrem_short)
  next
    case 2
    then obtain dd where dd: "big_digits y = [dd]" by (cases "big_digits y") auto
    with nz have "dd \<noteq> 0" by (auto simp: BIGZEROP_iff)
    from bigdivrem_single [OF dd this 2(1)] show ?thesis .
  next
    case 3
    with assms show ?thesis by (intro bigdivrem_long)
  qed
qed

lemma bigdivrem_zero: "big_int y = 0 \<Longrightarrow> bigdivrem stop x y = Some (Inl ZeroDivError)"
  by (simp add: bigdivrem_def Let_def BIGZEROP_value)

section \<open>Truncated and floored division\<close>

text \<open>The remainder keeps the sign of the dividend: division truncates towards zero.\<close>

definition trunc_div :: "int \<Rightarrow> int \<Rightarrow> int" where
  "trunc_div a b = sgn a * sgn b * (\<bar>a\<bar> div \<bar>b\<bar>)"

definition trunc_mod :: "int \<Rightarrow> int \<Rightarrow> int" where
  "trunc_mod a b = sgn a * (\<bar>a\<bar> mod \<bar>b\<bar>)"

lemma divrem_spec_signed:
  assumes "divrem_spec x y d m"
  shows "big_int d = trunc_div (big_int x) (big_int y)" and "big_int m = trunc_mod (big_int x) (big_int y)"
proof -
  have xy: "0 \<le> bval (big_digits x)" "0 \<le> bval (big_digits y)" by (rule bval_nonneg)+
  show "big_int m = trunc_mod (big_int x) (big_int y)"
    using assms xy by (auto simp: divrem_spec_def big_int_def trunc_mod_def sgn_if)
  show "big_int d = trunc_div (big_int x) (big_int y)"
    using assms xy by (auto simp: divrem_spec_def big_int_def trunc_div_def sgn_if)
qed

lemma floor_from_trunc:
  assumes "b \<noteq> (0 :: int)"
  shows "a div b = trunc_div a b - (if (0 \<le> a) \<noteq> (0 \<le> b) \<and> trunc_mod a b \<noteq> 0 then 1 else 0)"
    and "a mod b = trunc_mod a b + (if (0 \<le> a) \<noteq> (0 \<le> b) \<and> trunc_mod a b \<noteq> 0 then b else 0)"
proof -
  have "a mod b \<noteq> b" using assms by (metis mod_mod_trivial mod_self)
  then show "a div b = trunc_div a b - (if (0 \<le> a) \<noteq> (0 \<le> b) \<and> trunc_mod a b \<noteq> 0 then 1 else 0)"
    "a mod b = trunc_mod a b + (if (0 \<le> a) \<noteq> (0 \<le> b) \<and> trunc_mod a b \<noteq> 0 then b else 0)"
    using assms
    by (auto simp: trunc_div_def trunc_mod_def sgn_if zdiv_zminus1_eq_if zdiv_zminus2_eq_if
        zmod_zminus1_eq_if zmod_zminus2_eq_if abs_if split: if_splits)
qed

text \<open>The sign flag of a \<open>Bignum\<close> operand says whether it is negative; zero counts as positive.\<close>

definition sign_ok :: "rbignum \<Rightarrow> bool" where
  "sign_ok x \<longleftrightarrow> big_sign x = (0 \<le> big_int x)"

lemma sign_ok_normal: "normal_int (VBig x) \<Longrightarrow> sign_ok x"
  using normal_big_sign [of x] by (auto simp: sign_ok_def fixable_defs le_less)

lemma sign_ok_rb_int2big: "sign_ok (rb_int2big n)"
proof -
  have "big_int (rb_int2big n) = sint n" by simp
  then show ?thesis by (simp add: sign_ok_def) (auto simp: rb_int2big_def rb_uint2big_def Let_def)
qed

lemma sign_ok_to_big: "normal_int v \<Longrightarrow> sign_ok (to_big v)"
  by (cases v) (auto simp: to_big_def sign_ok_rb_int2big intro: sign_ok_normal simp del: normal_int.simps)

theorem bigdivmod_correct:
  assumes "\<forall>k. \<not> stop k" and "digits_ok (big_digits y)" and "big_int y \<noteq> 0"
    and signs: "sign_ok x" "sign_ok y"
  shows "\<exists>d m. bigdivmod stop x y = Some (Inr (d, m))
    \<and> big_int d = big_int x div big_int y \<and> big_int m = big_int x mod big_int y"
proof -
  from bigdivrem_correct [OF assms(1-3)] obtain d m where
    dm: "bigdivrem stop x y = Some (Inr (d, m))" and spec: "divrem_spec x y d m" by blast
  note v = divrem_spec_signed [OF spec] and fl = floor_from_trunc [OF assms(3), of "big_int x"]
  have adj: "(big_sign x \<noteq> big_sign y \<and> \<not> BIGZEROP m) \<longleftrightarrow>
      (0 \<le> big_int x) \<noteq> (0 \<le> big_int y) \<and> trunc_mod (big_int x) (big_int y) \<noteq> 0"
    using signs v(2) by (simp add: sign_ok_def BIGZEROP_value)
  show ?thesis
  proof (cases "big_sign x \<noteq> big_sign y \<and> \<not> BIGZEROP m")
    case True
    have one: "big_digits (rb_int2big 1) = [1]" "big_sign (rb_int2big 1)"
      by (simp_all add: rb_int2big_def rb_uint2big_def DIGSPERLONG_def Let_def BIGLO_ucast
          trunc_digits.simps [of "[_]"])
    have "big_int (bigadd d (rb_int2big 1) False) = big_int d - 1"
    proof (cases "big_sign d")
      case False
      then show ?thesis using one by (subst big_int_bigadd_same) simp_all
    next
      case dpos: True
      with spec True one have "length_ordered (big_digits d) (big_digits (rb_int2big 1))"
        by (auto simp: divrem_spec_def length_ordered_def)
      then show ?thesis by (subst big_int_bigadd) simp_all
    qed
    moreover have "0 < bval (big_digits y)"
      using assms(3) bval_nonneg [of "big_digits y"] by (auto simp: big_int_def less_le split: if_splits)
    then have "bval (big_digits m) < bval (big_digits y)" using spec by (simp add: divrem_spec_def)
    with spec have "length_ordered (big_digits m) (big_digits y)"
      by (auto simp: divrem_spec_def length_ordered_def)
    then have "big_int (bigadd m y True) = big_int m + big_int y" by (subst big_int_bigadd) simp_all
    ultimately show ?thesis using dm True adj fl v by (simp add: bigdivmod_def)
  next
    case False
    then show ?thesis using dm adj fl v by (auto simp: bigdivmod_def)
  qed
qed

section \<open>The methods\<close>

lemma is_int_value_big_result:
  "big_int z = i \<Longrightarrow> \<exists>r. big_result (Some (Inr z)) = Some (Inr r) \<and> is_int_value r i"
  by (simp add: big_result_def is_int_value_norm)

lemma rb_big_div_int:
  assumes stop: "\<forall>k. \<not> stop k" and x: "sign_ok x" and y: "normal_int v" "int_of v \<noteq> 0"
  shows "\<exists>r. rb_big_div env stop x (RInt v) = Some (Inr r) \<and> is_int_value r (big_int x div int_of v)"
    and "rb_big_idiv env stop x (RInt v) = rb_big_div env stop x (RInt v)"
    and "\<exists>r. rb_big_modulo env stop x (RInt v) = Some (Inr r) \<and> is_int_value r (big_int x mod int_of v)"
    and "\<exists>p q. rb_big_divmod env stop x (RInt v) = Some (Inr (RPair p q))
      \<and> is_int_value p (big_int x div int_of v) \<and> is_int_value q (big_int x mod int_of v)"
proof -
  from bigdivmod_correct [OF stop, of "to_big v" x] y digits_ok_to_big [OF y(1)]
    x sign_ok_to_big [OF y(1)]
  obtain d m where dm: "bigdivmod stop x (to_big v) = Some (Inr (d, m))"
    "big_int d = big_int x div int_of v" "big_int m = big_int x mod int_of v" by auto
  show "\<exists>r. rb_big_div env stop x (RInt v) = Some (Inr r) \<and> is_int_value r (big_int x div int_of v)"
    using dm is_int_value_big_result [OF dm(2)] by (simp add: rb_big_div_def rb_big_divide_def)
  show "rb_big_idiv env stop x (RInt v) = rb_big_div env stop x (RInt v)"
    by (simp add: rb_big_div_def rb_big_idiv_def rb_big_divide_def)
  show "\<exists>r. rb_big_modulo env stop x (RInt v) = Some (Inr r) \<and> is_int_value r (big_int x mod int_of v)"
    using dm is_int_value_big_result [OF dm(3)] by (simp add: rb_big_modulo_def)
  show "\<exists>p q. rb_big_divmod env stop x (RInt v) = Some (Inr (RPair p q))
      \<and> is_int_value p (big_int x div int_of v) \<and> is_int_value q (big_int x mod int_of v)"
    using dm by (simp add: rb_big_divmod_def is_int_value_norm)
qed

lemma rb_big_remainder_int:
  assumes "\<forall>k. \<not> stop k" and "normal_int v" and "int_of v \<noteq> 0"
  shows "\<exists>r. rb_big_remainder env stop x (RInt v) = Some (Inr r)
    \<and> is_int_value r (trunc_mod (big_int x) (int_of v))"
proof -
  from bigdivrem_correct [OF assms(1) digits_ok_to_big [OF assms(2)], of x] assms(3)
  obtain d m where dm: "bigdivrem stop x (to_big v) = Some (Inr (d, m))" "divrem_spec x (to_big v) d m"
    by auto
  from divrem_spec_signed(2) [OF dm(2)] have "big_int m = trunc_mod (big_int x) (int_of v)" by simp
  from is_int_value_big_result [OF this] dm(1) show ?thesis by (simp add: rb_big_remainder_def)
qed

lemma rb_big_div_zero:
  assumes "int_of v = 0"
  shows "rb_big_div env stop x (RInt v) = Some (Inl ZeroDivError)"
    and "rb_big_idiv env stop x (RInt v) = Some (Inl ZeroDivError)"
    and "rb_big_modulo env stop x (RInt v) = Some (Inl ZeroDivError)"
    and "rb_big_remainder env stop x (RInt v) = Some (Inl ZeroDivError)"
    and "rb_big_divmod env stop x (RInt v) = Some (Inl ZeroDivError)"
  using assms
  by (simp_all add: rb_big_div_def rb_big_idiv_def rb_big_divide_def rb_big_modulo_def rb_big_remainder_def
      rb_big_divmod_def bigdivmod_def bigdivrem_zero big_result_def)

end
