(* ===== verification/StrToInt.thy ===== *)
theory StrToInt
  imports BigDivMod
begin

text \<open>
  Parsing of integers: \<open>rb_cstr_to_inum\<close> of \<open>lib/ruby/bignum.c\<close> with the number scanners of
  \<open>lib/ruby/util.c\<close> it calls.  A C string is the list of its characters before the terminating
  NUL, a pointer into it the list of the characters that are left.
\<close>

section \<open>Characters\<close>

definition code :: "char \<Rightarrow> nat" where
  "code c = of_char c"

definition is_space :: "char \<Rightarrow> bool" where
  "is_space c \<longleftrightarrow> 9 \<le> code c \<and> code c \<le> 13 \<or> code c = 32"

definition conv_digit :: "char \<Rightarrow> int" where
  "conv_digit c =
     (let n = code c in
      if 128 \<le> n then - 1
      else if 48 \<le> n \<and> n \<le> 57 then int n - 48
      else if 97 \<le> n \<and> n \<le> 122 then int n - 97 + 10
      else if 65 \<le> n \<and> n \<le> 90 then int n - 65 + 10
      else - 1)"

section \<open>\<open>util.c\<close>\<close>

fun scan_oct_loop :: "nat \<Rightarrow> u32 \<Rightarrow> string \<Rightarrow> u32 \<times> nat" where
  "scan_oct_loop 0 retval s = (retval, 0)"
| "scan_oct_loop (Suc len) retval [] = (retval, 0)"
| "scan_oct_loop (Suc len) retval (c # s) =
     (if 48 \<le> code c \<and> code c \<le> 55 then
        (case scan_oct_loop len (push_bit 3 retval OR of_nat (code c - 48)) s of
           (r, n) \<Rightarrow> (r, Suc n))
      else (retval, 0))"

text \<open>The value and \<open>*retlen\<close>.\<close>

definition ruby_scan_oct :: "string \<Rightarrow> nat \<Rightarrow> u32 \<times> nat" where
  "ruby_scan_oct start len = scan_oct_loop len 0 start"

text \<open>\<open>strchr(hexdigit, *s)\<close>: the offset of the first occurrence.\<close>

definition hexdigit_index :: "char \<Rightarrow> nat option" where
  "hexdigit_index c =
     (let n = code c in
      if 48 \<le> n \<and> n \<le> 57 then Some (n - 48)
      else if 97 \<le> n \<and> n \<le> 102 then Some (n - 97 + 10)
      else if 65 \<le> n \<and> n \<le> 70 then Some (n - 65 + 26)
      else None)"

fun scan_hex_loop :: "nat \<Rightarrow> u32 \<Rightarrow> string \<Rightarrow> u32 \<times> nat" where
  "scan_hex_loop 0 retval s = (retval, 0)"
| "scan_hex_loop (Suc len) retval [] = (retval, 0)"
| "scan_hex_loop (Suc len) retval (c # s) =
     (case hexdigit_index c of
        None \<Rightarrow> (retval, 0)
      | Some d \<Rightarrow>
          (case scan_hex_loop len (push_bit 4 retval OR (of_nat d AND 15)) s of
             (r, n) \<Rightarrow> (r, Suc n)))"

definition ruby_scan_hex :: "string \<Rightarrow> nat \<Rightarrow> u32 \<times> nat" where
  "ruby_scan_hex start len = scan_hex_loop len 0 start"

text \<open>
  \<open>table[c]\<close> of \<open>scan_digits\<close>; rows 4 and 6 give 10 to 24, rows 5 and 7 give 25 to 35.
\<close>

definition digit_table :: "char \<Rightarrow> int" where
  "digit_table c =
     (let n = code c in
      if n div 16 = 3 then (if n mod 16 \<le> 9 then int (n mod 16) else - 1)
      else if n div 16 = 4 \<or> n div 16 = 6 then
        (if n mod 16 = 0 then - 1 else int (n mod 16) + 9)
      else if n div 16 = 5 \<or> n div 16 = 7 then
        (if n mod 16 \<le> 10 then int (n mod 16) + 25 else - 1)
      else - 1)"

text \<open>The value, the overflow flag and \<open>*retlen\<close>.\<close>

fun scan_digits_loop :: "int \<Rightarrow> u32 \<Rightarrow> u32 \<Rightarrow> bool \<Rightarrow> string \<Rightarrow> u32 \<times> bool \<times> nat" where
  "scan_digits_loop base mo ret ov [] = (ret, ov, 0)"
| "scan_digits_loop base mo ret ov (c # s) =
     (let d = digit_table c in
      if d = - 1 \<or> base \<le> d then (ret, ov, 0)
      else
        let ov1 = (ov \<or> mo < ret);
            x = ret * word_of_int base;
            ret' = x + word_of_int d;
            ov2 = (ov1 \<or> ret' < x)
        in (case scan_digits_loop base mo ret' ov2 s of (r, w, n) \<Rightarrow> (r, w, Suc n)))"

definition scan_digits :: "string \<Rightarrow> int \<Rightarrow> u32 \<times> bool \<times> nat" where
  "scan_digits str base = scan_digits_loop base (not 0 div word_of_int base) 0 False str"

datatype strtoul_errno = NoErr | EINVAL | ERANGE

text \<open>The value, the number of characters before \<open>*endptr\<close>, and \<open>errno\<close>.\<close>

definition ruby_strtoul :: "string \<Rightarrow> int \<Rightarrow> u32 \<times> nat \<times> strtoul_errno" where
  "ruby_strtoul str base =
     (if base = 1 \<or> 36 < base then (0, 0, EINVAL)
      else
        let sp = length (takeWhile is_space str);
            s1 = drop sp str;
            (sign, n1) = (if s1 \<noteq> [] \<and> hd s1 = CHR ''+'' then (1, 1)
                          else if s1 \<noteq> [] \<and> hd s1 = CHR ''-'' then (- 1, 1) else (0 :: int, 0));
            s2 = drop n1 s1;
            zero = (s2 \<noteq> [] \<and> hd s2 = CHR ''0'');
            hex = (1 < length s2 \<and> (s2 ! 1 = CHR ''x'' \<or> s2 ! 1 = CHR ''X''));
            (b, n2) = (if zero then
                         if base = 0 \<or> base = 16 then
                           if hex then (16, 2) else (if base = 0 then 8 else 16, 1)
                         else (base, 1)
                       else (if base = 0 then 10 else base, 0));
            s3 = drop n2 s2;
            (ret, overflow, len) = scan_digits s3 b;
            found = (if 0 < len then sp + n1 + n2 + len else if zero then sp + n1 + 1 else 0)
        in if overflow then (not 0, found, ERANGE)
           else (if sign < 0 then - ret else ret, found, NoErr))"

section \<open>The prefix of a number\<close>

definition parse_sign :: "string \<Rightarrow> bool \<times> string" where
  "parse_sign str =
     (case str of
        [] \<Rightarrow> (True, [])
      | c # r \<Rightarrow> if c = CHR ''+'' then (True, r) else if c = CHR ''-'' then (False, r) else (True, str))"

definition second_char :: "string \<Rightarrow> char \<Rightarrow> char \<Rightarrow> bool" where
  "second_char str lo up \<longleftrightarrow> 1 < length str \<and> (str ! 1 = lo \<or> str ! 1 = up)"

definition zero_prefix :: "string \<Rightarrow> char \<Rightarrow> char \<Rightarrow> bool" where
  "zero_prefix str lo up \<longleftrightarrow> str \<noteq> [] \<and> hd str = CHR ''0'' \<and> second_char str lo up"

definition guess_base :: "int \<Rightarrow> string \<Rightarrow> int" where
  "guess_base base str =
     (if base \<le> 0 then
        if str \<noteq> [] \<and> hd str = CHR ''0'' then
          if second_char str CHR ''x'' CHR ''X'' then 16
          else if second_char str CHR ''b'' CHR ''B'' then 2
          else if second_char str CHR ''o'' CHR ''O'' then 8
          else if second_char str CHR ''d'' CHR ''D'' then 10
          else 8
        else if base < - 1 then - base else 10
      else base)"

text \<open>The \<open>switch (base)\<close>: the bits to allow per character, and the prefix dropped.\<close>

definition base_switch :: "int \<Rightarrow> string \<Rightarrow> (nat \<times> string) option" where
  "base_switch base str =
     (if base = 2 then Some (1, if zero_prefix str CHR ''b'' CHR ''B'' then drop 2 str else str)
      else if base = 3 then Some (2, str)
      else if base = 8 then Some (3, if zero_prefix str CHR ''o'' CHR ''O'' then drop 2 str else str)
      else if 4 \<le> base \<and> base \<le> 7 then Some (3, str)
      else if base = 10 then Some (4, if zero_prefix str CHR ''d'' CHR ''D'' then drop 2 str else str)
      else if base = 9 \<or> 11 \<le> base \<and> base \<le> 15 then Some (4, str)
      else if base = 16 then Some (4, if zero_prefix str CHR ''x'' CHR ''X'' then drop 2 str else str)
      else if base < 2 \<or> 36 < base then None
      else if base \<le> 32 then Some (5, str) else Some (6, str))"

text \<open>\<open>while ((c = *++str) == '0' || c == '_')\<close>, \<open>prev\<close> being the character \<open>--str\<close> returns to.\<close>

fun squeeze_loop :: "nat \<Rightarrow> char \<Rightarrow> string \<Rightarrow> char \<times> string" where
  "squeeze_loop us prev [] = (prev, [])"
| "squeeze_loop us prev (c # str) =
     (if c = CHR ''_'' then
        if 2 \<le> us + 1 then (prev, c # str) else squeeze_loop (us + 1) c str
      else if c = CHR ''0'' then squeeze_loop 0 c str
      else (prev, c # str))"

definition squeeze_zeros :: "string \<Rightarrow> string" where
  "squeeze_zeros str =
     (if str \<noteq> [] \<and> hd str = CHR ''0'' then
        case squeeze_loop 0 (hd str) (tl str) of
          (prev, r) \<Rightarrow> if r = [] \<or> is_space (hd r) then prev # r else r
      else str)"

section \<open>The digits\<close>

text \<open>
  Multiplying the first \<open>n\<close> digits by \<open>base\<close> and adding \<open>num\<close>; a last carry takes further digits of
  the array (\<open>blen++\<close>).  It yields the digits and how many were taken; \<open>None\<close> is a write beyond
  the array.
\<close>

fun muladd :: "bdigit_dbl \<Rightarrow> bdigit_dbl \<Rightarrow> nat \<Rightarrow> bdigit list \<Rightarrow> (bdigit list \<times> nat) option" where
  "muladd base num n [] = (if n = 0 \<and> num = 0 then Some ([], 0) else None)"
| "muladd base num n (z # zs) =
     (if n = 0 \<and> num = 0 then Some (z # zs, 0)
      else
        let num' = num + ucast z * base
        in map_option (\<lambda>(ds, e). (BIGLO num' # ds, if n = 0 then Suc e else e))
             (muladd base (BIGDN num') (n - 1) zs))"

datatype parse_end = Stop "bdigit list" char string | Bad | OutOfBounds

text \<open>The loop over the characters; \<open>prev\<close> is \<open>str[-1]\<close>.\<close>

fun digits_loop :: "int \<Rightarrow> bool \<Rightarrow> bool \<Rightarrow> nat \<Rightarrow> bdigit list \<Rightarrow> char \<Rightarrow> string \<Rightarrow> parse_end" where
  "digits_loop base badcheck nondigit blen zds prev [] = Stop zds prev []"
| "digits_loop base badcheck nondigit blen zds prev (c # str) =
     (if c = CHR ''_'' then
        if nondigit then (if badcheck then Bad else Stop zds prev (c # str))
        else digits_loop base badcheck True blen zds c str
      else if conv_digit c < 0 \<or> base \<le> conv_digit c then Stop zds prev (c # str)
      else
        (case muladd (word_of_int base) (word_of_int (conv_digit c)) blen zds of
           None \<Rightarrow> OutOfBounds
         | Some (zds', e) \<Rightarrow> digits_loop base badcheck False (blen + e) zds' c str))"

text \<open>The slow path from \<open>bigparse\<close> on; \<open>None\<close> is the write beyond the array.\<close>

definition bigparse :: "int \<Rightarrow> bool \<Rightarrow> bool \<Rightarrow> nat \<Rightarrow> string \<Rightarrow> (rb_error + rb_int) option" where
  "bigparse base sign badcheck len str =
     (if badcheck \<and> str \<noteq> [] \<and> hd str = CHR ''_'' then Some (Inl ArgError)
      else
        (case digits_loop base badcheck False 1 (replicate (len div 32 + 1) 0) CHR ''0'' str of
           Bad \<Rightarrow> Some (Inl ArgError)
         | OutOfBounds \<Rightarrow> None
         | Stop zds prev r \<Rightarrow>
             if badcheck \<and> (prev = CHR ''_'' \<or> dropWhile is_space r \<noteq> []) then Some (Inl ArgError)
             else Some (Inr (bignorm (VBig (mk_big sign zds))))))"

text \<open>Everything after the zeros: the fast path over \<open>STRTOUL\<close> when the number fits a \<open>long\<close>.\<close>

definition parse_number :: "int \<Rightarrow> bool \<Rightarrow> bool \<Rightarrow> nat \<Rightarrow> string \<Rightarrow> (rb_error + rb_int) option" where
  "parse_number base sign badcheck bits str =
     (let len = bits * length str in
      if len \<le> 32 then
        (case ruby_strtoul str base of (val, n, _) \<Rightarrow>
           let rest = drop n str in
           if 0 < n \<and> rest \<noteq> [] \<and> hd rest = CHR ''_'' then bigparse base sign badcheck len str
           else if badcheck \<and> (n = 0 \<or> dropWhile is_space rest \<noteq> []) then Some (Inl ArgError)
           else if POSFIXABLE (uint val) then
             Some (Inr (VFix (LONG2FIX (if sign then val else - val))))
           else Some (Inr (bignorm (VBig ((rb_uint2big val)\<lparr>big_sign := sign\<rparr>)))))
      else bigparse base sign badcheck len str)"

definition rb_cstr_to_inum :: "string \<Rightarrow> int \<Rightarrow> bool \<Rightarrow> (rb_error + rb_int) option" where
  "rb_cstr_to_inum s base badcheck =
     (let bad = Some (if badcheck then Inl ArgError else Inr (VFix (LONG2FIX 0)));
          str = dropWhile is_space s;
          (sign, str1) = parse_sign str
      in if str1 \<noteq> [] \<and> (hd str1 = CHR ''+'' \<or> hd str1 = CHR ''-'') then bad
         else
           let b = guess_base base str1
           in (case base_switch b str1 of
                 None \<Rightarrow> Some (Inl ArgError)
               | Some (bits, str2) \<Rightarrow>
                   let str3 = squeeze_zeros str2
                   in if str3 = [] \<or> conv_digit (hd str3) < 0 \<or> b \<le> conv_digit (hd str3) then bad
                      else parse_number b sign badcheck bits str3))"

text \<open>\<open>rb_str_to_inum\<close> on the bytes of a Ruby string: \<open>StringValueCStr\<close> refuses an embedded NUL.\<close>

definition rb_str_to_inum :: "string \<Rightarrow> int \<Rightarrow> bool \<Rightarrow> (rb_error + rb_int) option" where
  "rb_str_to_inum str base badcheck =
     (if badcheck \<and> CHR 0x00 \<in> set str then Some (Inl ArgError)
      else rb_cstr_to_inum (takeWhile (\<lambda>c. c \<noteq> CHR 0x00) str) base badcheck)"

section \<open>One digit more: \<open>muladd\<close>\<close>

lemma muladd_correct:
  assumes "uint base < 2 ^ 32" and "uint num < 2 ^ 32" and "set (drop n zs) \<subseteq> {0}"
    and "bval zs * uint base + uint num < 2 ^ (32 * length zs)" and "n \<le> length zs"
  shows "\<exists>ds e. muladd base num n zs = Some (ds, e) \<and> bval ds = bval zs * uint base + uint num
    \<and> length ds = length zs \<and> n + e \<le> length zs \<and> set (drop (n + e) ds) \<subseteq> {0}"
  using assms
proof (induction base num n zs rule: muladd.induct)
  case (1 base num n)
  then have "uint num < 1" by simp
  with uint_ge_0 [of num] have "uint num = 0" by linarith
  then have "num = 0" by (simp add: uint_0_iff)
  with "1.prems" show ?case by simp
next
  case (2 base num n z zs)
  show ?case
  proof (cases "n = 0 \<and> num = 0")
    case True
    with "2.prems"(3) have "bval (z # zs) = 0" by (auto simp: bval_eq_0_iff simp del: bval.simps)
    with True "2.prems" show ?thesis by simp
  next
    case False
    define t where "t = num + ucast z * base"
    have "uint z * uint base \<le> 4294967295 * 4294967295"
      using u32_bounds [of z] "2.prems"(1) by (intro mult_mono) simp_all
    moreover from this have "uint (ucast z * base) = uint z * uint base" by (subst uint_mult_nowrap) simp_all
    ultimately have t: "uint t = uint num + uint z * uint base"
      using "2.prems"(2) unfolding t_def by (subst uint_add_nowrap) simp_all
    have c: "uint (BIGDN t) < 2 ^ 32" using uint_BIGDN_lt [of t] by simp
    have z0: "set (drop (n - 1) zs) \<subseteq> {0}" using "2.prems"(3) by (cases n) auto
    have val: "bval (z # zs) * uint base + uint num
        = uint (BIGLO t) + 2 ^ 32 * (bval zs * uint base + uint (BIGDN t))"
      using BIGLO_BIGDN [of t] t by (simp add: algebra_simps)
    have "uint (BIGLO t) + 2 ^ 32 * (bval zs * uint base + uint (BIGDN t)) < 2 ^ 32 * 2 ^ (32 * length zs)"
      using "2.prems"(4) unfolding val by (simp add: power_add)
    with u32_bounds(1) [of "BIGLO t"]
    have "2 ^ 32 * (bval zs * uint base + uint (BIGDN t)) < 2 ^ 32 * 2 ^ (32 * length zs)" by linarith
    then have lt: "bval zs * uint base + uint (BIGDN t) < 2 ^ (32 * length zs)" by simp
    have "n - 1 \<le> length zs" using "2.prems"(5) by auto
    from "2.IH" [OF False t_def "2.prems"(1) c z0 lt this] obtain ds e where
      IH: "muladd base (BIGDN t) (n - 1) zs = Some (ds, e)" "bval ds = bval zs * uint base + uint (BIGDN t)"
        "length ds = length zs" "n - 1 + e \<le> length zs" "set (drop (n - 1 + e) ds) \<subseteq> {0}" by blast
    have "muladd base num n (z # zs) = Some (BIGLO t # ds, if n = 0 then Suc e else e)"
      using False IH(1) by (simp add: Let_def t_def)
    moreover have "bval (BIGLO t # ds) = bval (z # zs) * uint base + uint num"
      unfolding val by (simp add: IH(2))
    ultimately show ?thesis using IH(3-5) by (cases n) auto
  qed
qed

section \<open>What the digits mean\<close>

text \<open>
  The reference reader: the value of the longest run of digits in which single underscores may
  stand between digits, the last character read, the rest, and whether a second underscore in a
  row ended the run.
\<close>

fun digit_span :: "int \<Rightarrow> bool \<Rightarrow> int \<Rightarrow> char \<Rightarrow> string \<Rightarrow> int \<times> char \<times> string \<times> bool" where
  "digit_span base us v prev [] = (v, prev, [], False)"
| "digit_span base us v prev (c # str) =
     (if c = CHR ''_'' then
        if us then (v, prev, c # str, True) else digit_span base True v c str
      else if conv_digit c < 0 \<or> base \<le> conv_digit c then (v, prev, c # str, False)
      else digit_span base False (v * base + conv_digit c) c str)"

lemma digits_loop_correct:
  assumes base: "1 \<le> base" "base \<le> 36"
    and "set (drop blen zds) \<subseteq> {0}" and "blen \<le> length zds"
    and "(bval zds + 1) * base ^ length str \<le> 2 ^ (32 * length zds)"
    and "digit_span base us (bval zds) prev str = (v, p, r, dbl)"
  shows "\<exists>ds. bval ds = v
    \<and> digits_loop base badcheck us blen zds prev str = (if dbl \<and> badcheck then Bad else Stop ds p r)"
  using assms(3-6)
proof (induction str arbitrary: us blen zds prev)
  case Nil
  then show ?case by auto
next
  case (Cons c str)
  have b1: "1 \<le> base ^ length str" using base by simp
  show ?case
  proof (cases "c = CHR ''_''")
    case True
    show ?thesis
    proof (cases us)
      case us: True
      with True Cons.prems(4) show ?thesis by auto
    next
      case us: False
      have "(bval zds + 1) * base ^ length str * 1 \<le> (bval zds + 1) * base ^ length str * base"
        using base bval_nonneg [of zds] by (intro mult_left_mono) simp_all
      with Cons.prems(3) have "(bval zds + 1) * base ^ length str \<le> 2 ^ (32 * length zds)"
        by (simp add: algebra_simps)
      from Cons.IH [OF Cons.prems(1,2) this, of True c] us True Cons.prems(4) show ?thesis by simp
    qed
  next
    case c: False
    show ?thesis
    proof (cases "conv_digit c < 0 \<or> base \<le> conv_digit c")
      case True
      with c Cons.prems(4) show ?thesis by auto
    next
      case False
      define d where "d = conv_digit c"
      have d: "0 \<le> d" "d < base" using False by (auto simp: d_def)
      have w: "uint (word_of_int base :: bdigit_dbl) = base" "uint (word_of_int d :: bdigit_dbl) = d"
        using base d by (simp_all add: uint_word_of_int)
      define v' where "v' = bval zds * base + d"
      have v': "v' + 1 \<le> (bval zds + 1) * base" using d by (simp add: v'_def algebra_simps)
      then have "(v' + 1) * base ^ length str \<le> (bval zds + 1) * base * base ^ length str"
        using b1 by (intro mult_right_mono) simp_all
      with Cons.prems(3) have bd: "(v' + 1) * base ^ length str \<le> 2 ^ (32 * length zds)"
        by (simp add: algebra_simps)
      have "0 \<le> v'" using d base bval_nonneg [of zds] by (simp add: v'_def)
      then have "(v' + 1) * 1 \<le> (v' + 1) * base ^ length str" using b1 by (intro mult_left_mono) simp_all
      from order_trans [OF this bd] have "v' < 2 ^ (32 * length zds)" by simp
      with muladd_correct [of "word_of_int base" "word_of_int d" blen zds] Cons.prems(1,2) base d
      obtain ds e where ma: "muladd (word_of_int base) (word_of_int d) blen zds = Some (ds, e)"
        "bval ds = v'" "length ds = length zds" "blen + e \<le> length zds" "set (drop (blen + e) ds) \<subseteq> {0}"
        by (auto simp: w v'_def)
      from Cons.IH [OF ma(5), of False c] ma bd Cons.prems(4) c False show ?thesis
        by (simp add: d_def v'_def)
    qed
  qed
qed

text \<open>The array is large enough: \<open>bits\<close> bits per character hold a digit.\<close>

lemma base_switch_bits:
  assumes "base_switch base str = Some (bits, str')"
  shows "2 \<le> base" and "base \<le> 36" and "base \<le> 2 ^ bits" and "1 \<le> bits"
  using assms by (auto simp: base_switch_def split: if_splits)

definition parse_spec :: "int \<Rightarrow> bool \<Rightarrow> bool \<Rightarrow> string \<Rightarrow> (rb_error + rb_int) \<Rightarrow> bool" where
  "parse_spec base sign badcheck str res \<longleftrightarrow>
     (case digit_span base False 0 CHR ''0'' str of (v, prev, r, dbl) \<Rightarrow>
        if badcheck \<and> (dbl \<or> prev = CHR ''_'' \<or> dropWhile is_space r \<noteq> []) then res = Inl ArgError
        else \<exists>w. res = Inr w \<and> normal_int w \<and> int_of w = (if sign then v else - v))"

lemma bigparse_correct:
  assumes base: "2 \<le> base" "base \<le> 36" "base \<le> 2 ^ bits"
    and hd: "str \<noteq> []" "hd str \<noteq> CHR ''_''"
  shows "\<exists>res. bigparse base sign badcheck (bits * length str) str = Some res
    \<and> parse_spec base sign badcheck str res"
proof -
  define L where "L = bits * length str div 32 + 1"
  obtain v p r dbl where sp: "digit_span base False 0 CHR ''0'' str = (v, p, r, dbl)" by (metis prod_cases4)
  have "base ^ length str \<le> (2 ^ bits) ^ length str" using base by (intro power_mono) simp_all
  also have "\<dots> = 2 ^ (bits * length str)" by (simp add: power_mult)
  also have "\<dots> \<le> 2 ^ (32 * L)"
    unfolding L_def by (intro power_increasing) (simp_all add: div_mult_mod_eq [symmetric, of _ 32])
  finally have "(bval (replicate L 0) + 1) * base ^ length str \<le> 2 ^ (32 * length (replicate L (0 :: bdigit)))"
    by simp
  moreover have "set (drop 1 (replicate L (0 :: bdigit))) \<subseteq> {0}" by (auto simp: drop_replicate)
  moreover have "1 \<le> length (replicate L (0 :: bdigit))" by (simp add: L_def)
  moreover have "1 \<le> base" using base by simp
  ultimately obtain ds where ds: "bval ds = v"
    "digits_loop base badcheck False 1 (replicate L 0) CHR ''0'' str = (if dbl \<and> badcheck then Bad else Stop ds p r)"
    using digits_loop_correct [of base 1 "replicate L 0" str False "CHR ''0''" v p r dbl badcheck] sp base(2)
    by auto
  have "(badcheck \<and> str \<noteq> [] \<and> hd str = CHR ''_'') = False" using hd by simp
  then have eq: "bigparse base sign badcheck (bits * length str) str =
      (case (if dbl \<and> badcheck then Bad else Stop ds p r) of
         Bad \<Rightarrow> Some (Inl ArgError) | OutOfBounds \<Rightarrow> None
       | Stop zds prev r \<Rightarrow>
           if badcheck \<and> (prev = CHR ''_'' \<or> dropWhile is_space r \<noteq> []) then Some (Inl ArgError)
           else Some (Inr (bignorm (VBig (mk_big sign zds)))))"
    by (simp only: bigparse_def L_def [symmetric] ds(2) if_False)
  have "int_of (bignorm (VBig (mk_big sign ds))) = (if sign then v else - v)"
    "normal_int (bignorm (VBig (mk_big sign ds)))"
    by (simp_all add: bignorm_big big_int_def ds(1) del: normal_int.simps)
  then show ?thesis unfolding eq parse_spec_def sp by (auto simp del: normal_int.simps)
qed

section \<open>The fast path\<close>

definition is_digit :: "int \<Rightarrow> char \<Rightarrow> bool" where
  "is_digit base c \<longleftrightarrow> 0 \<le> conv_digit c \<and> conv_digit c < base"

definition digits_value :: "int \<Rightarrow> int \<Rightarrow> string \<Rightarrow> int" where
  "digits_value base v ds = foldl (\<lambda>v c. v * base + conv_digit c) v ds"

lemma digit_table_conv: "digit_table c = conv_digit c"
proof -
  define q r where "q = code c div 16" and "r = code c mod 16"
  have n: "code c = 16 * q + r" and r: "r < 16" by (simp_all add: q_def r_def)
  have qr: "code c div 16 = q" "code c mod 16 = r" by (simp_all add: q_def r_def)
  have tab: "digit_table c =
     (if q = 3 then (if r \<le> 9 then int r else - 1)
      else if q = 4 \<or> q = 6 then (if r = 0 then - 1 else int r + 9)
      else if q = 5 \<or> q = 7 then (if r \<le> 10 then int r + 25 else - 1) else - 1)"
    by (simp only: digit_table_def Let_def qr)
  have cnv: "conv_digit c =
     (if 128 \<le> 16 * q + r then - 1
      else if 48 \<le> 16 * q + r \<and> 16 * q + r \<le> 57 then int (16 * q + r) - 48
      else if 97 \<le> 16 * q + r \<and> 16 * q + r \<le> 122 then int (16 * q + r) - 97 + 10
      else if 65 \<le> 16 * q + r \<and> 16 * q + r \<le> 90 then int (16 * q + r) - 65 + 10 else - 1)"
    by (simp only: conv_digit_def Let_def n)
  note defs = tab cnv
  consider "q < 3" | "q = 3" | "q = 4" | "q = 5" | "q = 6" | "q = 7" | "8 \<le> q" by linarith
  then show ?thesis
  proof cases
    case 1
    with r have "16 * q + r < 48" by simp
    with 1 r show ?thesis by (simp add: defs)
  qed (use r in \<open>simp_all add: defs\<close>)
qed

lemma not_digit_underscore: "conv_digit CHR ''_'' = - 1"
  by (simp add: conv_digit_def code_def)

lemma scan_digits_loop_correct:
  assumes base: "2 \<le> base" "base \<le> 36" and "uint mo = 4294967295 div base"
    and "(uint ret + 1) * base ^ length str \<le> 2 ^ 32"
  shows "\<exists>r. scan_digits_loop base mo ret False str = (r, False, length (takeWhile (is_digit base) str))
    \<and> uint r = digits_value base (uint ret) (takeWhile (is_digit base) str)"
  using assms(4)
proof (induction str arbitrary: ret)
  case Nil
  then show ?case by (simp add: digits_value_def)
next
  case (Cons c str)
  show ?case
  proof (cases "is_digit base c")
    case False
    then have "digit_table c = - 1 \<or> base \<le> digit_table c"
      by (auto simp: is_digit_def digit_table_conv) (auto simp: conv_digit_def Let_def split: if_splits)
    with False show ?thesis by (simp add: digits_value_def Let_def)
  next
    case True
    define d where "d = conv_digit c"
    have d: "0 \<le> d" "d < base" using True by (auto simp: is_digit_def d_def)
    have w: "uint (word_of_int base :: u32) = base" "uint (word_of_int d :: u32) = d"
      using base d by (simp_all add: uint_word_of_int)
    have b1: "1 \<le> base ^ length str" using base by simp
    have "(uint ret * base + d + 1) * base ^ length str \<le> (uint ret + 1) * base * base ^ length str"
      using b1 d by (intro mult_right_mono) (simp_all add: algebra_simps)
    with Cons.prems have bd: "(uint ret * base + d + 1) * base ^ length str \<le> 2 ^ 32"
      by (simp add: algebra_simps)
    have "0 \<le> uint ret * base" using base by simp
    then have "(uint ret * base + d + 1) * 1 \<le> (uint ret * base + d + 1) * base ^ length str"
      using b1 d(1) by (intro mult_left_mono) linarith+
    from order_trans [OF this bd] have small: "uint ret * base + d < 2 ^ 32" by simp
    have x: "uint (ret * word_of_int base) = uint ret * base"
      using small d(1) by (subst uint_mult_nowrap) (simp_all add: w)
    have r: "uint (ret * word_of_int base + word_of_int d) = uint ret * base + d"
      using small by (subst uint_add_nowrap) (simp_all add: x w)
    have "uint ret \<le> 4294967295 div base"
      using small d(1) base by (intro le_div_int) simp_all
    then have o1: "\<not> mo < ret" using assms(3) by (simp add: word_less_def not_less)
    have o2: "\<not> ret * word_of_int base + word_of_int d < ret * word_of_int base"
      using d(1) by (simp add: word_less_def r x)
    from Cons.IH [of "ret * word_of_int base + word_of_int d"] bd obtain r' where
      "scan_digits_loop base mo (ret * word_of_int base + word_of_int d) False str
        = (r', False, length (takeWhile (is_digit base) str))"
      "uint r' = digits_value base (uint ret * base + d) (takeWhile (is_digit base) str)"
      by (auto simp: r)
    moreover have "digit_table c = d" "d \<noteq> - 1" using d by (auto simp: digit_table_conv d_def)
    ultimately show ?thesis using True o1 o2 d(2)
      by (simp add: Let_def digits_value_def d_def)
  qed
qed

lemma digit_span_run:
  assumes "rest = dropWhile (is_digit base) str" and "rest = [] \<or> hd rest \<noteq> CHR ''_''"
  shows "digit_span base us v prev str = (digits_value base v (takeWhile (is_digit base) str),
    last (prev # takeWhile (is_digit base) str), rest, False)"
  using assms
proof (induction str arbitrary: us v prev)
  case Nil
  then show ?case by (simp add: digits_value_def)
next
  case (Cons c str)
  show ?case
  proof (cases "is_digit base c")
    case True
    with not_digit_underscore have "c \<noteq> CHR ''_''" by (auto simp: is_digit_def)
    with True Cons show ?thesis by (simp add: is_digit_def digits_value_def)
  next
    case False
    with Cons.prems show ?thesis by (auto simp: is_digit_def digits_value_def)
  qed
qed

lemma conv_digit_signs: "conv_digit CHR ''+'' = - 1" "conv_digit CHR ''-'' = - 1"
  "conv_digit CHR ''0'' = 0" "conv_digit CHR ''x'' = 33" "conv_digit CHR ''X'' = 33"
  by (simp_all add: conv_digit_def code_def)

lemma is_space_not_digit: "is_space c \<Longrightarrow> conv_digit c = - 1"
  by (auto simp: is_space_def conv_digit_def Let_def)

lemma is_digit_not_special:
  assumes "is_digit base c"
  shows "\<not> is_space c" and "c \<noteq> CHR ''+''" and "c \<noteq> CHR ''-''" and "c \<noteq> CHR ''_''"
  using assms is_space_not_digit [of c] conv_digit_signs not_digit_underscore by (auto simp: is_digit_def)

lemma scan_digits_correct:
  assumes base: "2 \<le> base" "base \<le> 36" and "base ^ length str \<le> 2 ^ 32"
  shows "\<exists>r. scan_digits str base = (r, False, length (takeWhile (is_digit base) str))
    \<and> uint r = digits_value base 0 (takeWhile (is_digit base) str)"
proof -
  have "uint (not 0 div word_of_int base :: u32) = 4294967295 div base"
    using base by (simp add: uint_div uint_word_of_int unsigned_minus_1_eq_mask mask_eq_exp_minus_1)
  from scan_digits_loop_correct [OF base this, of 0 str] assms(3) show ?thesis
    by (simp add: scan_digits_def)
qed

lemma ruby_strtoul_correct:
  assumes base: "2 \<le> base" "base \<le> 36" and fits: "base ^ length str \<le> 2 ^ 32"
    and str: "str = c # r" "is_digit base c" and zero: "c = CHR ''0'' \<Longrightarrow> r = [] \<or> is_space (hd r)"
  shows "\<exists>val. ruby_strtoul str base = (val, length (takeWhile (is_digit base) str), NoErr)
    \<and> uint val = digits_value base 0 (takeWhile (is_digit base) str)"
proof -
  note sp = is_digit_not_special [OF str(2)]
  show ?thesis
  proof (cases "c = CHR ''0''")
    case True
    with zero have r: "r = [] \<or> is_space (hd r)" by simp
    then have run: "takeWhile (is_digit base) r = []"
      by (cases r) (auto dest: is_digit_not_special(1))
    have nohex: "\<not> (1 < length str \<and> (str ! 1 = CHR ''x'' \<or> str ! 1 = CHR ''X''))"
      using r str(1) conv_digit_signs is_space_not_digit [of "hd r"] by (cases r) auto
    have "1 \<le> base ^ length r" using base by simp
    have "base ^ length r * 1 \<le> base ^ length r * base" using base by (intro mult_left_mono) simp_all
    with fits str(1) have "base ^ length r \<le> 2 ^ 32" by (simp add: mult.commute)
    from scan_digits_correct [OF base this] run obtain v where
      "scan_digits r base = (v, False, 0)" "uint v = 0" by (auto simp: digits_value_def)
    then have sc: "scan_digits r base = (0, False, 0)" by (simp add: uint_0_iff)
    have "ruby_strtoul str base = (0, 1, NoErr)"
      using base nohex sp True sc by (auto simp: ruby_strtoul_def Let_def str(1))
    with run True conv_digit_signs str show ?thesis by (auto simp: digits_value_def)
  next
    case False
    from scan_digits_correct [OF base fits] obtain v where
      v: "scan_digits str base = (v, False, length (takeWhile (is_digit base) str))"
      "uint v = digits_value base 0 (takeWhile (is_digit base) str)" by blast
    have "ruby_strtoul str base = (v, length (takeWhile (is_digit base) str), NoErr)"
      using base sp False v(1) str(2) by (auto simp: ruby_strtoul_def Let_def str(1))
    with v(2) show ?thesis by blast
  qed
qed

text \<open>Both ways through \<open>rb_cstr_to_inum\<close> agree with the reference reader.\<close>

lemma parse_number_correct:
  assumes base: "2 \<le> base" "base \<le> 36" "base \<le> 2 ^ bits"
    and str: "str = c # r" "is_digit base c" and zero: "c = CHR ''0'' \<Longrightarrow> r = [] \<or> is_space (hd r)"
  shows "\<exists>res. parse_number base sign badcheck bits str = Some res \<and> parse_spec base sign badcheck str res"
proof -
  have slow: "\<exists>res. bigparse base sign badcheck (bits * length str) str = Some res
      \<and> parse_spec base sign badcheck str res"
    using bigparse_correct [OF base, of str] is_digit_not_special(4) [OF str(2)] str(1) by simp
  show ?thesis
  proof (cases "bits * length str \<le> 32")
    case False
    with slow show ?thesis by (simp add: parse_number_def Let_def)
  next
    case True
    have "base ^ length str \<le> (2 ^ bits) ^ length str" using base by (intro power_mono) simp_all
    also have "\<dots> = 2 ^ (bits * length str)" by (simp add: power_mult)
    also have "\<dots> \<le> 2 ^ 32" using True by (intro power_increasing) simp_all
    finally have fits: "base ^ length str \<le> 2 ^ 32" .
    define run where "run = takeWhile (is_digit base) str"
    define rest where "rest = dropWhile (is_digit base) str"
    from ruby_strtoul_correct [OF base(1,2) fits str zero] obtain val where
      val: "ruby_strtoul str base = (val, length run, NoErr)" "uint val = digits_value base 0 run"
      unfolding run_def by blast
    have n: "run \<noteq> []" "drop (length run) str = rest"
      using str by (simp_all add: run_def rest_def dropWhile_eq_drop)
    have pn: "parse_number base sign badcheck bits str =
        (if 0 < length run \<and> rest \<noteq> [] \<and> hd rest = CHR ''_'' then bigparse base sign badcheck (bits * length str) str
         else if badcheck \<and> (length run = 0 \<or> dropWhile is_space rest \<noteq> []) then Some (Inl ArgError)
         else if POSFIXABLE (uint val) then Some (Inr (VFix (LONG2FIX (if sign then val else - val))))
         else Some (Inr (bignorm (VBig ((rb_uint2big val)\<lparr>big_sign := sign\<rparr>)))))"
      using True by (simp only: parse_number_def Let_def val(1) prod.case n(2) if_True)
    show ?thesis
    proof (cases "rest \<noteq> [] \<and> hd rest = CHR ''_''")
      case True
      with n pn have "parse_number base sign badcheck bits str = bigparse base sign badcheck (bits * length str) str"
        by simp
      with slow show ?thesis by simp
    next
      case nous: False
      from digit_span_run [OF rest_def, of False 0 "CHR ''0''"] nous
      have span: "digit_span base False 0 CHR ''0'' str = (uint val, last (CHR ''0'' # run), rest, False)"
        by (auto simp: val(2) run_def)
      have "last (CHR ''0'' # run) \<noteq> CHR ''_''"
        using n(1) set_takeWhileD [of "last run" "is_digit base" str] is_digit_not_special(4)
        by (auto simp: run_def)
      with span have spec: "parse_spec base sign badcheck str res \<longleftrightarrow>
          (if badcheck \<and> dropWhile is_space rest \<noteq> [] then res = Inl ArgError
           else \<exists>w. res = Inr w \<and> normal_int w \<and> int_of w = (if sign then uint val else - uint val))" for res
        by (simp add: parse_spec_def)
      have eq: "parse_number base sign badcheck bits str =
          (if badcheck \<and> dropWhile is_space rest \<noteq> [] then Some (Inl ArgError)
           else if POSFIXABLE (uint val) then Some (Inr (VFix (LONG2FIX (if sign then val else - val))))
           else Some (Inr (bignorm (VBig ((rb_uint2big val)\<lparr>big_sign := sign\<rparr>)))))"
        using n(1) nous by (auto simp: pn)
      have small: "normal_int (VFix (LONG2FIX (if sign then val else - val)))
          \<and> int_of (VFix (LONG2FIX (if sign then val else - val))) = (if sign then uint val else - uint val)"
        if "POSFIXABLE (uint val)"
      proof -
        have "sint val = uint val" using that by (simp add: fixable_defs sint_of_uint_u32)
        moreover from this have "sint (- val) = - uint val" using sint_uminus_u32 [of val] by simp
        ultimately show ?thesis using that u32_bounds [of val]
          by (auto simp: FIX2LONG_LONG2FIX fixable_defs)
      qed
      have "bval (big_digits (rb_uint2big val)) = uint val"
        by (simp add: rb_uint2big_def DIGSPERLONG_def BIGLO_ucast)
      then have "big_int ((rb_uint2big val)\<lparr>big_sign := sign\<rparr>) = (if sign then uint val else - uint val)"
        by (simp add: big_int_def)
      with small show ?thesis unfolding eq spec
        by (auto simp: bignorm_big simp del: normal_int.simps int_of.simps)
    qed
  qed
qed

section \<open>The whole function\<close>

lemma squeeze_loop_stops:
  "squeeze_loop us prev str = (p, r) \<Longrightarrow> r = [] \<or> hd r \<noteq> CHR ''0''"
  by (induction us prev str rule: squeeze_loop.induct) (auto split: if_splits)

lemma squeeze_zeros_head:
  "squeeze_zeros str = CHR ''0'' # r \<Longrightarrow> r = [] \<or> is_space (hd r)"
  using squeeze_loop_stops
  by (fastforce simp: squeeze_zeros_def split: if_splits prod.splits)

text \<open>What the sign, the radix and the zeros leave to read.\<close>

definition number_core :: "string \<Rightarrow> int \<Rightarrow> (bool \<times> int \<times> string) option" where
  "number_core s base =
     (let (sign, str1) = parse_sign (dropWhile is_space s); b = guess_base base str1 in
      if str1 \<noteq> [] \<and> (hd str1 = CHR ''+'' \<or> hd str1 = CHR ''-'') then None
      else case base_switch b str1 of
        None \<Rightarrow> None
      | Some (bits, str2) \<Rightarrow>
          let core = squeeze_zeros str2
          in if core \<noteq> [] \<and> is_digit b (hd core) then Some (sign, b, core) else None)"

text \<open>A radix that is refused whatever the text says.\<close>

definition bad_radix :: "string \<Rightarrow> int \<Rightarrow> bool" where
  "bad_radix s base \<longleftrightarrow>
     (let (sign, str1) = parse_sign (dropWhile is_space s) in
      \<not> (str1 \<noteq> [] \<and> (hd str1 = CHR ''+'' \<or> hd str1 = CHR ''-'')) \<and> base_switch (guess_base base str1) str1 = None)"

lemma rb_cstr_to_inum_core:
  "\<exists>res. rb_cstr_to_inum s base badcheck = Some res
    \<and> (case number_core s base of
         Some (sign, b, core) \<Rightarrow> parse_spec b sign badcheck core res
       | None \<Rightarrow> res = (if badcheck \<or> bad_radix s base then Inl ArgError else Inr (VFix (LONG2FIX 0))))"
proof -
  obtain sign str1 where ps: "parse_sign (dropWhile is_space s) = (sign, str1)" by fastforce
  define b where "b = guess_base base str1"
  show ?thesis
  proof (cases "str1 \<noteq> [] \<and> (hd str1 = CHR ''+'' \<or> hd str1 = CHR ''-'')")
    case True
    then show ?thesis by (auto simp: rb_cstr_to_inum_def number_core_def bad_radix_def ps Let_def)
  next
    case sg: False
    show ?thesis
    proof (cases "base_switch b str1")
      case None
      with sg show ?thesis by (auto simp: rb_cstr_to_inum_def number_core_def bad_radix_def ps Let_def b_def)
    next
      case (Some p)
      obtain bits str2 where bs: "base_switch b str1 = Some (bits, str2)" using Some by (cases p) auto
      note bb = base_switch_bits [OF bs]
      define core where "core = squeeze_zeros str2"
      show ?thesis
      proof (cases "core \<noteq> [] \<and> is_digit b (hd core)")
        case False
        then have "core = [] \<or> conv_digit (hd core) < 0 \<or> b \<le> conv_digit (hd core)"
          by (auto simp: is_digit_def)
        with sg bs False show ?thesis
          by (auto simp: rb_cstr_to_inum_def number_core_def bad_radix_def ps Let_def simp flip: b_def core_def)
      next
        case True
        then obtain c r where cr: "core = c # r" "is_digit b c" by (cases core) auto
        then have dig: "(core = [] \<or> conv_digit (hd core) < 0 \<or> b \<le> conv_digit (hd core)) = False"
          by (auto simp: is_digit_def)
        have z: "c = CHR ''0'' \<Longrightarrow> r = [] \<or> is_space (hd r)" using squeeze_zeros_head cr(1) core_def by metis
        from parse_number_correct [OF bb(1-3) cr z] obtain res where
          res: "parse_number b sign badcheck bits core = Some res" "parse_spec b sign badcheck core res" by blast
        have "rb_cstr_to_inum s base badcheck = Some res"
          by (simp only: rb_cstr_to_inum_def ps Let_def prod.case b_def [symmetric] sg bs option.case
              core_def [symmetric] dig if_False res(1))
        moreover have "number_core s base = Some (sign, b, core)"
          using sg bs True by (simp add: number_core_def ps Let_def flip: b_def core_def)
        ultimately show ?thesis using res(2) by simp
      qed
    qed
  qed
qed

lemma digit_span_all:
  assumes "\<forall>c \<in> set ds. is_digit base c" and "ds \<noteq> []"
  shows "digit_span base False 0 CHR ''0'' ds = (digits_value base 0 ds, last ds, [], False)"
proof -
  have "takeWhile (is_digit base) ds = ds" "dropWhile (is_digit base) ds = []" using assms(1) by auto
  with digit_span_run [of "[]" base ds False 0 "CHR ''0''"] assms(2) show ?thesis by simp
qed

lemma rb_cstr_to_inum_digits:
  assumes base: "2 \<le> base" "base \<le> 36" and ds: "\<forall>c \<in> set ds. is_digit base c" "ds \<noteq> []" "hd ds \<noteq> CHR ''0''"
  shows "\<exists>w. rb_cstr_to_inum ((if neg then [CHR ''-''] else []) @ ds) base badcheck = Some (Inr w)
    \<and> normal_int w \<and> int_of w = (if neg then - digits_value base 0 ds else digits_value base 0 ds)"
proof -
  let ?s = "(if neg then [CHR ''-''] else []) @ ds"
  from ds(1,2) have hd: "is_digit base (hd ds)" by simp
  note sp = is_digit_not_special [OF hd]
  have minus: "\<not> is_space CHR ''-''" by (simp add: is_space_def code_def)
  have "dropWhile is_space ?s = ?s" using sp minus ds(2) by (cases ds) auto
  moreover have "parse_sign ?s = (\<not> neg, ds)" using sp ds(2) by (cases ds) (auto simp: parse_sign_def)
  moreover have "guess_base base ds = base" using base by (simp add: guess_base_def)
  moreover have "zero_prefix ds lo up = False" for lo up using ds(3) by (simp add: zero_prefix_def)
  then have "\<exists>bits. base_switch base ds = Some (bits, ds)" using base by (auto simp: base_switch_def)
  moreover have "squeeze_zeros ds = ds" using ds(3) by (simp add: squeeze_zeros_def)
  ultimately have "number_core ?s base = Some (\<not> neg, base, ds)"
    using sp ds(2) hd by (auto simp: number_core_def Let_def)
  with rb_cstr_to_inum_core [of ?s base badcheck] obtain res where
    res: "rb_cstr_to_inum ?s base badcheck = Some res" "parse_spec base (\<not> neg) badcheck ds res" by auto
  have "last ds \<noteq> CHR ''_''" using ds(1,2) is_digit_not_special(4) last_in_set by blast
  with res(2) digit_span_all [OF ds(1,2)] show ?thesis
    unfolding res(1) parse_spec_def by (auto simp del: normal_int.simps)
qed

end
