(* ===== verification/IntToStr.thy ===== *)
theory IntToStr
  imports StrToInt "HOL-Library.Monad_Syntax"
begin

text \<open>
  Printing of integers: \<open>rb_big2str0\<close> of \<open>lib/ruby/bignum.c\<close> with its two algorithms,
  \<open>big2str_orig\<close> (four characters per division by \<open>base ^ 4\<close>) and \<open>big2str_karatsuba\<close> (splitting
  at a cached power of the base), and \<open>rb_fix2str\<close> of \<open>lib/ruby/numeric.c\<close>.
  The number of characters to reserve comes from a C \<open>double\<close> quotient, the parameter \<open>quot\<close>.
\<close>

section \<open>Logarithms\<close>

definition POW2_P :: "u32 \<Rightarrow> bool" where
  "POW2_P x \<longleftrightarrow> x AND (x - 1) = 0"

definition ones :: "u32 \<Rightarrow> u32" where
  "ones x =
     (let x1 = x - (drop_bit 1 x AND 0x55555555);
          x2 = (drop_bit 2 x1 AND 0x33333333) + (x1 AND 0x33333333);
          x3 = (drop_bit 4 x2 + x2) AND 0x0f0f0f0f;
          x4 = x3 + drop_bit 8 x3;
          x5 = x4 + drop_bit 16 x4
      in x5 AND 0x7f)"

definition smear :: "u32 \<Rightarrow> u32" where
  "smear x =
     (let x1 = x OR drop_bit 1 x;
          x2 = x1 OR drop_bit 2 x1;
          x3 = x2 OR drop_bit 4 x2;
          x4 = x3 OR drop_bit 8 x3
      in x4 OR drop_bit 16 x4)"

definition next_pow2 :: "u32 \<Rightarrow> u32" where
  "next_pow2 x = smear x + 1"

definition floor_log2 :: "u32 \<Rightarrow> u32" where
  "floor_log2 x = ones (smear x) - 1"

definition ceil_log2 :: "u32 \<Rightarrow> u32" where
  "ceil_log2 x = floor_log2 x + of_bool (\<not> POW2_P x)"

section \<open>Characters of a number\<close>

definition ruby_digitmap :: string where
  "ruby_digitmap = ''0123456789abcdefghijklmnopqrstuvwxyz''"

fun fix_loop :: "nat \<Rightarrow> u32 \<Rightarrow> int \<Rightarrow> string \<Rightarrow> string option" where
  "fix_loop 0 val base b = None"
| "fix_loop (Suc room) val base b =
     (let b' = ruby_digitmap ! unat (val mod word_of_int base) # b; val' = val div word_of_int base
      in if val' \<noteq> 0 then fix_loop room val' base b' else Some b')"

text \<open>
  \<open>buf\<close> has 34 bytes; one is for the NUL and one for the sign.  \<open>None\<close> would be a write before it.
\<close>

definition rb_fix2str :: "u32 \<Rightarrow> int \<Rightarrow> (rb_error + string) option" where
  "rb_fix2str x base =
     (let val = FIX2LONG x in
      if base < 2 \<or> 36 < base then Some (Inl ArgError)
      else if val = 0 then Some (Inr ''0'')
      else
        let neg = sint val < 0
        in map_option (\<lambda>b. Inr (if neg then CHR ''-'' # b else b))
             (fix_loop 32 (if neg then - val else val) base []))"

text \<open>The inner \<open>while (k--)\<close> of \<open>big2str_orig\<close>, \<open>out\<close> being what follows \<open>ptr + j\<close>.\<close>

fun emit :: "nat \<Rightarrow> int \<Rightarrow> bool \<Rightarrow> bdigit_dbl \<Rightarrow> nat \<Rightarrow> string \<Rightarrow> string \<times> nat" where
  "emit 0 base stop0 num j out = (out, j)"
| "emit (Suc k) base stop0 num j out =
     (let out' = ruby_digitmap ! unat (num mod word_of_int base) # out;
          num' = num div word_of_int base;
          j' = j - 1
      in if j' = 0 then (out', j')
         else if stop0 \<and> num' = 0 then (out', j')
         else emit k base stop0 num' j' out')"

lemma emit_le: "snd (emit k base s num j out) \<le> j"
proof (induction k base s num j out rule: emit.induct)
  case (2 k base s num j out)
  show ?case using "2.IH" [OF refl refl refl] by (simp add: Let_def) (meson diff_le_self le_trans)
qed simp

lemma emit_less:
  assumes "0 < k" and "0 < j"
  shows "snd (emit k base s num j out) < j"
proof -
  obtain k' where "k = Suc k'" using assms(1) by (cases k) auto
  with assms(2) show ?thesis by (auto simp: Let_def intro!: le_less_trans [OF emit_le])
qed

function orig_loop :: "int \<Rightarrow> bdigit \<Rightarrow> bool \<Rightarrow> bdigit list \<Rightarrow> nat \<Rightarrow> string \<Rightarrow> string \<times> nat" where
  "orig_loop base hbase trim ds j out =
     (if ds = [] \<or> j = 0 then (out, j)
      else
        let (qs, num) = div1_loop hbase 0 (rev ds);
            ds1 = rev qs;
            ds' = (if trim \<and> last ds1 = 0 then butlast ds1 else ds1);
            r = emit 4 base (trim \<and> ds' = []) num j out
        in orig_loop base hbase trim ds' (snd r) (fst r))"
  by pat_completeness auto
termination
  by (relation "measure (\<lambda>(base, hbase, trim, ds, j, out). j)") (auto simp: emit_less)

declare orig_loop.simps [simp del]

text \<open>\<open>None\<close>: characters before \<open>ptr + j\<close> were never written.\<close>

definition big2str_orig :: "rbignum \<Rightarrow> int \<Rightarrow> nat \<Rightarrow> bdigit \<Rightarrow> bool \<Rightarrow> string option" where
  "big2str_orig x base len hbase trim =
     (case orig_loop base hbase trim (big_digits x) len [] of (out, j) \<Rightarrow>
        if trim then Some (dropWhile (\<lambda>c. c = CHR ''0'') out)
        else if j = 0 then Some out else None)"

section \<open>Powers of the base\<close>

definition KARATSUBA_DIGITS :: nat where
  "KARATSUBA_DIGITS = 2 ^ 7"

text \<open>\<open>big2str_power_cache[base - 2][i]\<close>.\<close>

type_synonym power_cache = "int \<times> nat \<Rightarrow> rbignum option"

definition power_cache_init :: power_cache where
  "power_cache_init = (\<lambda>_. None)"

fun power_cache_get_power0 ::
  "('f, 'o) rb_env \<Rightarrow> (nat \<Rightarrow> bool) \<Rightarrow> power_cache \<Rightarrow> int \<Rightarrow> nat \<Rightarrow> (rbignum \<times> power_cache) option" where
  "power_cache_get_power0 env stop cache base 0 =
     (case cache (base, 0) of
        Some t \<Rightarrow> Some (t, cache)
      | None \<Rightarrow>
          (case rb_big_pow env stop (rb_int2big (word_of_int base)) (INT2FIX (int KARATSUBA_DIGITS)) of
             Some (Inr (RInt (VBig t))) \<Rightarrow> Some (t, cache((base, 0) \<mapsto> t))
           | _ \<Rightarrow> None))"
| "power_cache_get_power0 env stop cache base (Suc i) =
     (case cache (base, Suc i) of
        Some t \<Rightarrow> Some (t, cache)
      | None \<Rightarrow>
          (case power_cache_get_power0 env stop cache base i of
             None \<Rightarrow> None
           | Some (s, cache') \<Rightarrow>
               (case bigsqr stop s of
                  None \<Rightarrow> None
                | Some t \<Rightarrow> Some (t, cache'((base, Suc i) \<mapsto> t)))))"

partial_function (option) square_up :: "(nat \<Rightarrow> bool) \<Rightarrow> nat \<Rightarrow> nat \<Rightarrow> rbignum \<Rightarrow> rbignum option" where
  "square_up stop n1 j t =
     (if j < n1 then
        (case bigsqr stop t of None \<Rightarrow> None | Some t' \<Rightarrow> square_up stop n1 (2 * j) t')
      else Some t)"

declare square_up.simps [code]

text \<open>The power, \<open>*m1\<close> and the cache; \<open>rb_bug\<close> for a small \<open>n1\<close> is \<open>None\<close>.\<close>

definition power_cache_get_power ::
  "('f, 'o) rb_env \<Rightarrow> (nat \<Rightarrow> bool) \<Rightarrow> power_cache \<Rightarrow> int \<Rightarrow> nat \<Rightarrow> (rbignum \<times> nat \<times> power_cache) option" where
  "power_cache_get_power env stop cache base n1 =
     (if n1 \<le> KARATSUBA_DIGITS then None
      else
        let m = unat (ceil_log2 (of_nat n1));
            i = min (m - 7) 63
        in case power_cache_get_power0 env stop cache base i of
             None \<Rightarrow> None
           | Some (t, cache') \<Rightarrow>
               map_option (\<lambda>t'. (t', 2 ^ m, cache')) (square_up stop n1 (KARATSUBA_DIGITS * 2 ^ i) t))"

section \<open>The conversion\<close>

text \<open>Quotient and remainder by the cached power; an exception cannot occur there.\<close>

definition karatsuba_split ::
  "('f, 'o) rb_env \<Rightarrow> (nat \<Rightarrow> bool) \<Rightarrow> power_cache \<Rightarrow> rbignum \<Rightarrow> int \<Rightarrow> nat \<Rightarrow>
    (rbignum \<times> rbignum \<times> nat \<times> power_cache) option" where
  "karatsuba_split env stop cache x base n1 =
     (case power_cache_get_power env stop cache base n1 of
        None \<Rightarrow> None
      | Some (b, m1, cache') \<Rightarrow>
          (case bigdivmod stop x b of
             Some (Inr (q, r)) \<Rightarrow> Some (q, r, m1, cache')
           | _ \<Rightarrow> None))"

partial_function (option) big2str_karatsuba ::
  "('f, 'o) rb_env \<Rightarrow> (nat \<Rightarrow> bool) \<Rightarrow> power_cache \<Rightarrow> rbignum \<Rightarrow> int \<Rightarrow> nat \<Rightarrow> nat \<Rightarrow> bdigit \<Rightarrow> bool \<Rightarrow>
    (string \<times> power_cache) option" where
  "big2str_karatsuba env stop cache x base n1 len hbase trim =
     (if BIGZEROP x then Some (if trim then [] else replicate len CHR ''0'', cache)
      else if n1 \<le> KARATSUBA_DIGITS then
        map_option (\<lambda>s. (s, cache)) (big2str_orig x base len hbase trim)
      else do {
        (q, r, m1, cache1) \<leftarrow> karatsuba_split env stop cache x base n1;
        (sh, cache2) \<leftarrow> big2str_karatsuba env stop cache1 q base ((len - m1) div 2) (len - m1) hbase trim;
        (sl, cache3) \<leftarrow> big2str_karatsuba env stop cache2 r base (m1 div 2) m1 hbase (length sh = 0 \<and> trim);
        Some (sh @ sl, cache3)
      })"

declare big2str_karatsuba.simps [code]

text \<open>\<open>quot bits base\<close> is \<open>(long)ceil(bits/log_2[base - 2])\<close>.\<close>

definition big2str_find_n1 :: "(nat \<Rightarrow> int \<Rightarrow> nat) \<Rightarrow> rb_int \<Rightarrow> int \<Rightarrow> rb_error + nat" where
  "big2str_find_n1 quot x base =
     (if base < 2 \<or> 36 < base then Inl FatalBug
      else case x of
        VFix w \<Rightarrow> Inr (quot 16 base)
      | VBig b \<Rightarrow>
          if BIGZEROP b then Inr 0
          else if 2147483647 div 32 \<le> length (big_digits b) then Inl RangeError
          else Inr (quot (32 * length (big_digits b)) base))"

definition rb_big2str0 ::
  "('f, 'o) rb_env \<Rightarrow> (nat \<Rightarrow> int \<Rightarrow> nat) \<Rightarrow> (nat \<Rightarrow> bool) \<Rightarrow> power_cache \<Rightarrow> rb_int \<Rightarrow> int \<Rightarrow> bool \<Rightarrow>
    (rb_error + string \<times> power_cache) option" where
  "rb_big2str0 env quot stop cache v base trim =
     (case v of
        VFix w \<Rightarrow> map_option (map_sum id (\<lambda>s. (s, cache))) (rb_fix2str w base)
      | VBig x \<Rightarrow>
          if BIGZEROP x then Some (Inr (''0'', cache))
          else if base < 2 \<or> 36 < base then Some (Inl ArgError)
          else
            (case big2str_find_n1 quot v base of
               Inl e \<Rightarrow> Some (Inl e)
             | Inr n2 \<Rightarrow>
                 let n1 = (n2 + 1) div 2;
                     hbase = word_of_int (base * base * (base * base));
                     off = \<not> (trim \<and> big_sign x);
                     sg = (if off then [if big_sign x then CHR ''+'' else CHR ''-''] else []);
                     xx = x\<lparr>big_sign := True\<rparr>
                 in if n1 \<le> KARATSUBA_DIGITS then
                      map_option (\<lambda>s. Inr (sg @ s, cache)) (big2str_orig xx base n2 hbase trim)
                    else
                      map_option (\<lambda>(s, c). Inr (sg @ s, c))
                        (big2str_karatsuba env stop cache xx base n1 n2 hbase trim)))"

definition rb_big2str ::
  "('f, 'o) rb_env \<Rightarrow> (nat \<Rightarrow> int \<Rightarrow> nat) \<Rightarrow> (nat \<Rightarrow> bool) \<Rightarrow> power_cache \<Rightarrow> rb_int \<Rightarrow> int \<Rightarrow>
    (rb_error + string \<times> power_cache) option" where
  "rb_big2str env quot stop cache x base = rb_big2str0 env quot stop cache x base True"

section \<open>The logarithms are exact\<close>

lemma smear_step:
  assumes "\<And>n. bit y n \<longleftrightarrow> (\<exists>m. n \<le> m \<and> m < n + w \<and> bit (x :: u32) m)"
  shows "bit (y OR drop_bit w y) n \<longleftrightarrow> (\<exists>m. n \<le> m \<and> m < n + 2 * w \<and> bit x m)"
proof -
  have "bit (y OR drop_bit w y) n \<longleftrightarrow> bit y n \<or> bit y (w + n)"
    by (simp add: bit_or_iff bit_drop_bit_eq)
  also have "\<dots> \<longleftrightarrow> (\<exists>m. n \<le> m \<and> m < n + 2 * w \<and> bit x m)"
    unfolding assms
  proof (intro iffI; (elim disjE exE conjE)?)
    fix m assume "n \<le> m" "m < n + 2 * w" "bit x m"
    then show "(\<exists>m\<ge>n. m < n + w \<and> bit x m) \<or> (\<exists>m\<ge>w + n. m < w + n + w \<and> bit x m)"
      by (cases "m < n + w") auto
  next
    fix m assume "n \<le> m" "m < n + w" "bit x m"
    then show "\<exists>m\<ge>n. m < n + 2 * w \<and> bit x m" by (intro exI [of _ m]) simp
  next
    fix m assume "w + n \<le> m" "m < w + n + w" "bit x m"
    then show "\<exists>m\<ge>n. m < n + 2 * w \<and> bit x m" by (intro exI [of _ m]) simp
  qed
  finally show ?thesis .
qed

lemma bit_smear: "bit (smear x) n \<longleftrightarrow> (\<exists>m. n \<le> m \<and> bit x m)"
proof -
  have "bit x n \<longleftrightarrow> (\<exists>m. n \<le> m \<and> m < n + 1 \<and> bit x m)" for n by (auto simp: le_less_Suc_eq)
  note s1 = smear_step [OF this]
  note s2 = smear_step [OF s1]
  note s3 = smear_step [OF s2]
  note s4 = smear_step [OF s3]
  note s5 = smear_step [OF s4]
  have "bit (smear x) n \<longleftrightarrow> (\<exists>m. n \<le> m \<and> m < n + 32 \<and> bit x m)"
    using s5 [of n] by (simp add: smear_def Let_def)
  moreover have "m < n + 32" if "bit x m" for m using bit_imp_le_length [OF that] by simp
  ultimately show ?thesis by blast
qed

lemma ones_mask: "k < 32 \<Longrightarrow> ones (mask (Suc k)) = of_nat (Suc k)"
  by (simp add: eval_nat_numeral less_Suc_eq; elim disjE; simp add: ones_def Let_def mask_eq_exp_minus_1)

lemma bit_top:
  assumes "2 ^ k \<le> unat (x :: u32)" and "unat x < 2 ^ Suc k"
  shows "bit x k" and "\<And>m. bit x m \<Longrightarrow> m \<le> k" and "k < 32"
proof -
  have bit: "bit x m \<longleftrightarrow> odd (unat x div 2 ^ m)" for m
    using bit_unat [of x m] by (simp only: bit_iff_odd [of "unat x"])
  have "unat x div 2 ^ k = 1" by (rule div_nat_eqI) (use assms in simp_all)
  then show "bit x k" by (simp add: bit)
  then show "k < 32" by (auto dest: bit_imp_le_length)
  fix m assume "bit x m"
  show "m \<le> k"
  proof (rule ccontr)
    assume "\<not> ?thesis"
    then have "(2 :: nat) ^ Suc k \<le> 2 ^ m" by (intro power_increasing) simp_all
    with assms(2) have "unat x div 2 ^ m = 0" by simp
    with \<open>bit x m\<close> show False by (simp add: bit)
  qed
qed

lemma smear_mask:
  assumes "2 ^ k \<le> unat x" and "unat x < 2 ^ Suc k"
  shows "smear x = mask (Suc k)"
proof (rule bit_word_eqI)
  fix n assume "n < LENGTH(32)"
  have "(\<exists>m\<ge>n. bit x m) \<longleftrightarrow> n \<le> k" using bit_top(1,2) [OF assms] le_trans by blast
  with \<open>n < LENGTH(32)\<close> show "bit (smear x) n = bit (mask (Suc k) :: u32) n"
    by (simp add: bit_smear bit_mask_iff less_Suc_eq_le)
qed

lemma floor_log2_correct:
  assumes "2 ^ k \<le> unat x" and "unat x < 2 ^ Suc k"
  shows "floor_log2 x = of_nat k"
  using smear_mask [OF assms] ones_mask [OF bit_top(3) [OF assms]] by (simp add: floor_log2_def)

lemma POW2_P_iff:
  assumes "2 ^ k \<le> unat x" and "unat x < 2 ^ Suc k"
  shows "POW2_P x \<longleftrightarrow> unat x = 2 ^ k"
proof
  assume "unat x = 2 ^ k"
  then have "of_nat (unat x) = (2 ^ k :: u32)" by simp
  then have "x = 2 ^ k" by simp
  then have "x AND (x - 1) = 2 ^ k AND mask k" by (simp add: mask_eq_exp_minus_1)
  also have "\<dots> = 0" by (rule bit_word_eqI) (auto simp: bit_simps)
  finally show "POW2_P x" by (simp add: POW2_P_def)
next
  assume pow: "POW2_P x"
  show "unat x = 2 ^ k"
  proof (rule ccontr)
    assume "unat x \<noteq> 2 ^ k"
    with assms(1) have gt: "2 ^ k < unat x" by simp
    then have "unat (x - 1) = unat x - 1" by (metis gr_implies_not0 unat_minus_one unat_0)
    with gt assms have "2 ^ k \<le> unat (x - 1)" "unat (x - 1) < 2 ^ Suc k" by auto
    from bit_top(1) [OF this] bit_top(1) [OF assms] have "bit (x AND (x - 1)) k" by (simp add: bit_and_iff)
    with pow show False by (simp add: POW2_P_def)
  qed
qed

lemma next_pow2_correct:
  assumes "2 ^ k \<le> unat x" and "unat x < 2 ^ Suc k"
  shows "next_pow2 x = 2 ^ Suc k"
  using smear_mask [OF assms] by (simp add: next_pow2_def mask_eq_exp_minus_1)

lemma ceil_log2_correct:
  assumes "0 < x"
  shows "unat x \<le> 2 ^ unat (ceil_log2 x)" and "2 ^ unat (ceil_log2 x) < 2 * unat x" and "unat (ceil_log2 x) \<le> 32"
proof -
  have "1 \<le> unat x" using assms by (simp add: unat_gt_0 word_neq_0_conv Suc_le_eq)
  then obtain k where k: "2 ^ k \<le> unat x" "unat x < 2 ^ (k + 1)" using ex_power_ivl1 [of 2 "unat x"] by auto
  then have k': "2 ^ k \<le> unat x" "unat x < 2 ^ Suc k" by simp_all
  have "k < 32" by (rule bit_top(3) [OF k'])
  then have "unat (ceil_log2 x) = (if unat x = 2 ^ k then k else Suc k)"
    using floor_log2_correct [OF k'] POW2_P_iff [OF k'] by (auto simp: ceil_log2_def unat_of_nat unat_word_ariths)
  with k' \<open>k < 32\<close> show "unat x \<le> 2 ^ unat (ceil_log2 x)" "2 ^ unat (ceil_log2 x) < 2 * unat x"
    "unat (ceil_log2 x) \<le> 32" by auto
qed

section \<open>\<open>big2str_orig\<close>\<close>

definition radix_ok :: "int \<Rightarrow> bool" where
  "radix_ok base \<longleftrightarrow> 2 \<le> base \<and> base \<le> 36"

lemma digits_value_Cons:
  "digits_value base v (c # ds) = digits_value base (v * base + conv_digit c) ds"
  by (simp add: digits_value_def)

lemma digits_value_shift: "digits_value base v ds = v * base ^ length ds + digits_value base 0 ds"
proof (induction ds arbitrary: v)
  case (Cons c ds)
  show ?case
    using Cons.IH [of "v * base + conv_digit c"] Cons.IH [of "conv_digit c"]
    by (simp add: digits_value_Cons algebra_simps)
qed (simp add: digits_value_def)

lemma digits_value_append: "digits_value base v (xs @ ys) = digits_value base (digits_value base v xs) ys"
  by (simp add: digits_value_def)

lemma digits_value_bounds:
  assumes "1 \<le> base" and "\<forall>c \<in> set ds. is_digit base c"
  shows "0 \<le> digits_value base 0 ds" and "digits_value base 0 ds < base ^ length ds"
proof -
  have "0 \<le> digits_value base 0 ds \<and> digits_value base 0 ds < base ^ length ds"
    using assms(2)
  proof (induction ds)
    case (Cons c ds)
    have "digits_value base 0 (c # ds) = conv_digit c * base ^ length ds + digits_value base 0 ds"
      by (simp add: digits_value_Cons digits_value_shift [of base "conv_digit c"])
    moreover have "0 \<le> conv_digit c * base ^ length ds" "(conv_digit c + 1) * base ^ length ds \<le> base * base ^ length ds"
      using Cons.prems assms(1) by (auto simp: is_digit_def intro: mult_right_mono)
    ultimately show ?case using Cons by (auto simp: algebra_simps)
  qed (simp add: digits_value_def)
  then show "0 \<le> digits_value base 0 ds" "digits_value base 0 ds < base ^ length ds" by auto
qed

lemma digitmap_conv: "k < 36 \<Longrightarrow> conv_digit (ruby_digitmap ! k) = int k"
proof -
  assume k: "k < 36"
  have "map conv_digit ruby_digitmap = map int [0..<36]"
    by (simp add: ruby_digitmap_def conv_digit_def code_def upt_rec)
  then have "map conv_digit ruby_digitmap ! k = map int [0..<36] ! k" by simp
  moreover have "length ruby_digitmap = 36" by (simp add: ruby_digitmap_def)
  ultimately show ?thesis using k by simp
qed

lemma emitted_digit:
  assumes "radix_ok base"
  shows "conv_digit (ruby_digitmap ! unat (num mod word_of_int base :: u64)) = uint num mod base"
    and "uint (num div word_of_int base :: u64) = uint num div base"
    and "is_digit base (ruby_digitmap ! unat (num mod word_of_int base :: u64))"
proof -
  have w: "uint (word_of_int base :: u64) = base"
    using assms by (simp add: radix_ok_def uint_word_of_int)
  have m: "uint (num mod word_of_int base :: u64) = uint num mod base" by (simp add: uint_mod w)
  have r: "0 \<le> uint num mod base" "uint num mod base < base" using assms by (simp_all add: radix_ok_def)
  with assms have "uint num mod base < 36" unfolding radix_ok_def by linarith
  then have "unat (num mod word_of_int base :: u64) < 36"
    by (simp add: unat_eq_nat_uint nat_less_iff m)
  from digitmap_conv [OF this]
  show c: "conv_digit (ruby_digitmap ! unat (num mod word_of_int base :: u64)) = uint num mod base"
    by (simp add: m)
  show "uint (num div word_of_int base :: u64) = uint num div base" by (simp add: uint_div w)
  show "is_digit base (ruby_digitmap ! unat (num mod word_of_int base :: u64))"
    using c r by (simp add: is_digit_def)
qed

text \<open>The characters written so far and what is left of the number.\<close>

definition written :: "int \<Rightarrow> int \<Rightarrow> string \<Rightarrow> int \<Rightarrow> bool" where
  "written base x out K \<longleftrightarrow> 0 \<le> K \<and> (\<forall>c \<in> set out. is_digit base c)
     \<and> x = K * base ^ length out + digits_value base 0 out"

lemma written_step:
  assumes "radix_ok base" and "written base x out K" and "conv_digit (ruby_digitmap ! k) = K mod base"
  shows "written base x (ruby_digitmap ! k # out) (K div base)"
proof -
  have b: "2 \<le> base" using assms(1) by (simp add: radix_ok_def)
  have "K * base ^ length out = (K div base * base + K mod base) * base ^ length out" by simp
  also have "\<dots> = K div base * base ^ Suc (length out) + K mod base * base ^ length out"
    by (simp only: distrib_right power_Suc mult.assoc)
  finally show ?thesis
    using assms(2,3) b
    by (auto simp: written_def is_digit_def pos_imp_zdiv_nonneg_iff digits_value_Cons
        digits_value_shift [of base "K mod base"])
qed

lemma emit_correct:
  assumes "radix_ok base" and "emit k base s0 num j out = (out', j')" and "uint num < base ^ k" and "0 < j"
    and "written base x out (H * base ^ k + uint num)" and "0 \<le> H" and "s0 \<Longrightarrow> H = 0"
  shows "length out' + j' = length out + j \<and> (\<exists>K. written base x out' K \<and> (j' \<noteq> 0 \<longrightarrow> K = H))"
  using assms
proof (induction k base s0 num j out rule: emit.induct)
  case (1 base s0 num j out)
  then have "uint num < 1" by simp
  with uint_ge_0 [of num] have "uint num = 0" by linarith
  with 1 show ?case by auto
next
  case (2 k base s0 num j out)
  have b: "2 \<le> base" using "2.prems"(1) by (simp add: radix_ok_def)
  note dg = emitted_digit [OF "2.prems"(1), of num]
  define c where "c = ruby_digitmap ! unat (num mod word_of_int base)"
  define n where "n = num div word_of_int base"
  have em: "emit (Suc k) base s0 num j out =
      (if j - 1 = 0 then (c # out, j - 1) else if s0 \<and> n = 0 then (c # out, j - 1)
       else emit k base s0 n (j - 1) (c # out))"
    by (simp only: emit.simps Let_def c_def n_def)
  have K: "H * base ^ Suc k + uint num = (H * base ^ k) * base + uint num" by simp
  have "(H * base ^ Suc k + uint num) mod base = uint num mod base" unfolding K by simp
  moreover have dv: "(H * base ^ Suc k + uint num) div base = H * base ^ k + uint n"
    unfolding K n_def dg(2) using b by simp
  ultimately have w: "written base x (c # out) (H * base ^ k + uint n)"
    using written_step [OF "2.prems"(1,5), of "unat (num mod word_of_int base)"] dg(1)
    by (simp add: c_def)
  show ?case
  proof (cases "j - 1 = 0")
    case True
    with em "2.prems"(2,4) w show ?thesis by auto
  next
    case j: False
    show ?thesis
    proof (cases "s0 \<and> n = 0")
      case True
      with j em "2.prems"(2,4,7) w show ?thesis by auto
    next
      case False
      have lt: "uint n < base ^ k" using "2.prems"(3) b unfolding n_def dg(2) by (intro div_less_int) (simp_all add: mult.commute)
      have c1: "c # out = ruby_digitmap ! unat (num mod word_of_int base) # out" by (simp add: c_def)
      have e1: "emit k base s0 n (j - 1) (c # out) = (out', j')"
        using "2.prems"(2) unfolding em if_not_P [OF j] if_not_P [OF False] .
      have j1: "0 < j - 1" using j by simp
      from "2.IH" [OF c1 n_def refl j False "2.prems"(1) e1 lt j1 w "2.prems"(6,7)] "2.prems"(4)
      show ?thesis by simp
    qed
  qed
qed

lemma bval_butlast_0: "ds \<noteq> [] \<Longrightarrow> last ds = 0 \<Longrightarrow> bval (butlast ds) = bval ds"
  by (cases ds rule: rev_cases) simp_all

lemma orig_loop_correct:
  assumes "radix_ok base" and "uint hbase = base ^ 4"
    and "orig_loop base hbase trim ds j out = (out', j')"
    and "written base x out K" and "j \<noteq> 0 \<longrightarrow> K = bval ds"
  shows "length out' + j' = length out + j \<and> (\<exists>K'. written base x out' K' \<and> (j' \<noteq> 0 \<longrightarrow> K' = 0))
    \<and> (ds \<noteq> [] \<and> \<not> trim \<longrightarrow> j' = 0)"
  using assms
proof (induction base hbase trim ds j out arbitrary: K rule: orig_loop.induct)
  case (1 base hbase trim ds j out)
  show ?case
  proof (cases "ds = [] \<or> j = 0")
    case True
    then have "orig_loop base hbase trim ds j out = (out, j)" by (simp add: orig_loop.simps [of base])
    with True "1.prems" show ?thesis by auto
  next
    case False
    obtain qs num where div: "div1_loop hbase 0 (rev ds) = (qs, num)" by fastforce
    define ds1 where "ds1 = rev qs"
    define ds' where "ds' = (if trim \<and> last ds1 = 0 then butlast ds1 else ds1)"
    obtain out1 j1 where em: "emit 4 base (trim \<and> ds' = []) num j out = (out1, j1)" by fastforce
    have "0 < uint hbase" using "1.prems"(1,2) by (simp add: radix_ok_def)
    moreover from this have "hbase \<noteq> 0" by auto
    ultimately have d: "length qs = length ds" "uint num < base ^ 4" "bval ds = base ^ 4 * bval ds1 + uint num"
      using div1_loop_correct [OF div] "1.prems"(2) by (simp_all add: ds1_def)
    have ne: "ds1 \<noteq> []" using d(1) False by (auto simp: ds1_def)
    have v': "bval ds' = bval ds1" using bval_butlast_0 [OF ne] by (simp add: ds'_def)
    have "written base x out (bval ds1 * base ^ 4 + uint num)"
      using "1.prems"(4,5) False d(3) by (simp add: mult.commute)
    moreover have "(trim \<and> ds' = []) \<Longrightarrow> bval ds1 = 0" using v' by auto
    ultimately obtain K1 where K1: "length out1 + j1 = length out + j" "written base x out1 K1" "j1 \<noteq> 0 \<longrightarrow> K1 = bval ds'"
      using emit_correct [OF "1.prems"(1) em d(2), of x "bval ds1"] False bval_nonneg [of ds1] v' by auto
    have unf: "orig_loop base hbase trim ds j out = orig_loop base hbase trim ds' j1 out1"
      by (simp only: orig_loop.simps [of base hbase trim ds j out] if_not_P [OF False] div prod.case
          Let_def ds1_def [symmetric] ds'_def [symmetric] em fst_conv snd_conv)
    have "orig_loop base hbase trim ds' j1 out1 = (out', j')" using "1.prems"(3) unf by simp
    moreover have "ds \<noteq> [] \<and> \<not> trim \<longrightarrow> ds' \<noteq> [] \<and> \<not> trim" using ne by (simp add: ds'_def)
    ultimately show ?thesis
      using "1.IH" [OF False refl div [symmetric] ds1_def ds'_def em [symmetric] "1.prems"(1,2), of K1] K1 by auto
  qed
qed

lemma digitmap_at: "radix_ok base \<Longrightarrow> ruby_digitmap ! unat (num mod word_of_int base :: u64) \<in> set ruby_digitmap"
proof -
  assume base: "radix_ok base"
  have "uint num mod base < base" using base by (simp add: radix_ok_def)
  with base have "uint num mod base < 36" unfolding radix_ok_def by linarith
  then have "unat (num mod word_of_int base :: u64) < 36"
    using base by (simp add: unat_eq_nat_uint nat_less_iff uint_mod uint_word_of_int radix_ok_def)
  moreover have "length ruby_digitmap = 36" by (simp add: ruby_digitmap_def)
  ultimately show ?thesis by simp
qed

lemma emit_chars:
  "radix_ok base \<Longrightarrow> set out \<subseteq> set ruby_digitmap \<Longrightarrow> set (fst (emit k base s num j out)) \<subseteq> set ruby_digitmap"
  by (induction k base s num j out rule: emit.induct) (simp_all add: Let_def digitmap_at)

lemma orig_loop_chars:
  "radix_ok base \<Longrightarrow> set out \<subseteq> set ruby_digitmap \<Longrightarrow>
    set (fst (orig_loop base hbase trim ds j out)) \<subseteq> set ruby_digitmap"
proof (induction base hbase trim ds j out rule: orig_loop.induct)
  case (1 base hbase trim ds j out)
  show ?case
  proof (cases "ds = [] \<or> j = 0")
    case True
    with "1.prems" show ?thesis by (simp add: orig_loop.simps)
  next
    case False
    obtain qs num where d: "div1_loop hbase 0 (rev ds) = (qs, num)" by fastforce
    show ?thesis
      unfolding orig_loop.simps [of base hbase trim ds] using False d "1.IH" [OF False d [symmetric] refl refl refl] "1.prems"
      by (simp add: Let_def emit_chars)
  qed
qed

lemma big2str_orig_chars:
  assumes "radix_ok base" and "big2str_orig x base len hbase trim = Some s"
  shows "set s \<subseteq> set ruby_digitmap"
  using assms orig_loop_chars [OF assms(1), of "[]" hbase trim "big_digits x" len]
  by (auto simp: big2str_orig_def split: prod.splits if_splits dest: set_dropWhileD)

text \<open>A string that denotes \<open>x\<close>: without leading zeros when trimmed, else of exactly \<open>len\<close> digits.\<close>

definition numeral_ok :: "int \<Rightarrow> int \<Rightarrow> nat \<Rightarrow> bool \<Rightarrow> string \<Rightarrow> bool" where
  "numeral_ok base x len trim s \<longleftrightarrow> (\<forall>c \<in> set s. is_digit base c) \<and> digits_value base 0 s = x
     \<and> (if trim then s = [] \<or> hd s \<noteq> CHR ''0'' else length s = len) \<and> set s \<subseteq> set ruby_digitmap"

lemma digits_value_dropWhile_0:
  "digits_value base 0 (dropWhile (\<lambda>c. c = CHR ''0'') s) = digits_value base 0 s"
  by (induction s) (simp_all add: digits_value_Cons conv_digit_signs)

lemma big2str_orig_correct:
  assumes "radix_ok base" and "uint hbase = base ^ 4" and "big_digits x \<noteq> []"
    and "bval (big_digits x) < base ^ len"
  shows "\<exists>s. big2str_orig x base len hbase trim = Some s \<and> numeral_ok base (bval (big_digits x)) len trim s"
proof -
  obtain out j where loop: "orig_loop base hbase trim (big_digits x) len [] = (out, j)" by fastforce
  have b: "2 \<le> base" using assms(1) by (simp add: radix_ok_def)
  have "written base (bval (big_digits x)) [] (bval (big_digits x))"
    by (simp add: written_def digits_value_def bval_nonneg)
  from orig_loop_correct [OF assms(1,2) loop this] assms(3) obtain K where
    K: "length out + j = len" "written base (bval (big_digits x)) out K" "j \<noteq> 0 \<longrightarrow> K = 0" "\<not> trim \<longrightarrow> j = 0"
    by auto
  have dg: "\<forall>c \<in> set out. is_digit base c" and x: "bval (big_digits x) = K * base ^ length out + digits_value base 0 out"
    and "0 \<le> K" using K(2) by (auto simp: written_def)
  have "K = 0"
  proof (cases "j = 0")
    case True
    then have "K * base ^ len + digits_value base 0 out < base ^ len" using x assms(4) K(1) by simp
    moreover have "0 \<le> digits_value base 0 out" using digits_value_bounds(1) [OF _ dg] b by simp
    ultimately have "K * base ^ len < 1 * base ^ len" by linarith
    moreover have "0 < base ^ len" using b by simp
    ultimately have "K < 1" by (simp only: mult_less_cancel_right_pos)
    with \<open>0 \<le> K\<close> show ?thesis by simp
  qed (use K(3) in simp)
  with x have val: "digits_value base 0 out = bval (big_digits x)" by simp
  show ?thesis
  proof (cases trim)
    case True
    have "\<forall>c \<in> set (dropWhile (\<lambda>c. c = CHR ''0'') out). is_digit base c" using dg set_dropWhileD by metis
    moreover have "dropWhile (\<lambda>c. c = CHR ''0'') out = [] \<or> hd (dropWhile (\<lambda>c. c = CHR ''0'') out) \<noteq> CHR ''0''"
      using hd_dropWhile [of "\<lambda>c. c = CHR ''0''" out] by auto
    ultimately show ?thesis using True loop val
      using orig_loop_chars [OF assms(1), of "[]" hbase trim "big_digits x" len]
      by (auto simp: big2str_orig_def numeral_ok_def digits_value_dropWhile_0 dest: set_dropWhileD)
  next
    case False
    with K loop val dg show ?thesis
      using orig_loop_chars [OF assms(1), of "[]" hbase trim "big_digits x" len]
      by (auto simp: big2str_orig_def numeral_ok_def)
  qed
qed

section \<open>The cache of powers\<close>

definition power_ok :: "int \<Rightarrow> nat \<Rightarrow> rbignum \<Rightarrow> bool" where
  "power_ok base n t \<longleftrightarrow> digits_ok (big_digits t) \<and> big_sign t \<and> bval (big_digits t) = base ^ n"

definition cache_ok :: "power_cache \<Rightarrow> bool" where
  "cache_ok cache \<longleftrightarrow> (\<forall>base i t. cache (base, i) = Some t \<longrightarrow> power_ok base (KARATSUBA_DIGITS * 2 ^ i) t)"

lemma cache_okD: "cache_ok cache \<Longrightarrow> cache (base, i) = Some t \<Longrightarrow> power_ok base (KARATSUBA_DIGITS * 2 ^ i) t"
  by (simp add: cache_ok_def)

lemma cache_ok_init: "cache_ok power_cache_init"
  by (simp add: cache_ok_def power_cache_init_def)

lemma cache_ok_update: "cache_ok c \<Longrightarrow> power_ok base (KARATSUBA_DIGITS * 2 ^ i) t \<Longrightarrow> cache_ok (c((base, i) \<mapsto> t))"
  by (simp add: cache_ok_def)

lemma first_power:
  fixes env :: "('f, 'o) rb_env"
  assumes stop: "\<forall>k. \<not> stop k" and base: "radix_ok base"
  shows "\<exists>t. rb_big_pow env stop (rb_int2big (word_of_int base)) (INT2FIX (int KARATSUBA_DIGITS))
      = Some (Inr (RInt (VBig t))) \<and> power_ok base KARATSUBA_DIGITS t"
proof -
  let ?x = "rb_int2big (word_of_int base)"
  define w where "w = LONG2FIX (128 :: u32)"
  have w: "(INT2FIX (int KARATSUBA_DIGITS) :: ('f, 'o) rb_value) = RInt (VFix w)" by (simp add: INT2FIX_def KARATSUBA_DIGITS_def w_def)
  have nw: "normal_int (VFix w)" "int_of (VFix w) = 128"
    using INT2FIX_normal [of 128] by (simp_all add: w_def fixable_defs del: normal_int.simps int_of.simps)
  have x: "big_int ?x = base"
    using base by (simp add: radix_ok_def signed_of_int signed_take_bit_int_eq_self)
  have dx: "big_digits ?x \<noteq> [] \<and> length (big_digits ?x) = 1"
    by (simp add: rb_int2big_def rb_uint2big_def DIGSPERLONG_def Let_def trunc_digits.simps [of "[_]"])
  from rb_big_pow_int [OF stop _ nw(1), of ?x env] dx nw(2) x obtain r where
    r: "rb_big_pow env stop ?x (RInt (VFix w)) = Some (Inr r)" "is_int_value r (base ^ 128)"
    by (auto simp: BIGLEN_LIMIT_def simp del: normal_int.simps int_of.simps)
  obtain v where v: "r = RInt v" "normal_int v" "int_of v = base ^ 128"
    using r(2) by (auto simp: is_int_value_def)
  have "2 ^ 128 \<le> base ^ 128" using base by (intro power_mono) (simp_all add: radix_ok_def)
  then have "\<not> FIXABLE (int_of v)" using v(3) by (simp add: fixable_defs)
  moreover have "FIXABLE (int_of v)" if "v = VFix u" for u using that v(2) by (auto simp: FIX2LONG_LONG2FIX)
  ultimately obtain t where t: "v = VBig t" by (cases v) auto
  with v normal_big_sign [of t] \<open>2 ^ 128 \<le> base ^ 128\<close> have "power_ok base KARATSUBA_DIGITS t"
    using base by (simp add: power_ok_def KARATSUBA_DIGITS_def radix_ok_def)
  with r(1) v(1) t w show ?thesis by simp
qed

lemma power0_correct:
  assumes stop: "\<forall>k. \<not> stop k" and base: "radix_ok base" and "cache_ok cache"
  shows "\<exists>t c. power_cache_get_power0 env stop cache base i = Some (t, c)
    \<and> cache_ok c \<and> power_ok base (KARATSUBA_DIGITS * 2 ^ i) t"
proof (induction i)
  case 0
  show ?case
  proof (cases "cache (base, 0)")
    case None
    with first_power [OF stop base, of env] cache_ok_update [OF assms(3), of base 0] show ?thesis by auto
  next
    case (Some t)
    with cache_okD [OF assms(3) Some] assms(3) show ?thesis by simp
  qed
next
  case (Suc i)
  show ?case
  proof (cases "cache (base, Suc i)")
    case None
    from Suc obtain s c where s: "power_cache_get_power0 env stop cache base i = Some (s, c)"
      "cache_ok c" "power_ok base (KARATSUBA_DIGITS * 2 ^ i) s" by blast
    obtain t where t: "bigsqr stop s = Some t" using bigsqr_total [OF stop] by blast
    have e: "KARATSUBA_DIGITS * 2 ^ Suc i = KARATSUBA_DIGITS * 2 ^ i + KARATSUBA_DIGITS * 2 ^ i" by simp
    have "big_digits s \<noteq> []" using s(3) by (auto simp: power_ok_def digits_ok_def)
    from bigsqr_correct [OF t this] s(3)
    have "power_ok base (KARATSUBA_DIGITS * 2 ^ i + KARATSUBA_DIGITS * 2 ^ i) t"
      by (auto simp: power_ok_def big_int_def power_add)
    then have "power_ok base (KARATSUBA_DIGITS * 2 ^ Suc i) t" unfolding e .
    with s t None cache_ok_update [OF s(2) this] show ?thesis by simp
  next
    case (Some t)
    with cache_okD [OF assms(3) Some] assms(3) show ?thesis by simp
  qed
qed

lemma get_power_correct:
  assumes stop: "\<forall>k. \<not> stop k" and base: "radix_ok base" and "cache_ok cache"
    and n1: "KARATSUBA_DIGITS < n1" "n1 < 2 ^ 31"
  shows "\<exists>t m c. power_cache_get_power env stop cache base n1 = Some (t, 2 ^ m, c)
    \<and> cache_ok c \<and> power_ok base (2 ^ m) t \<and> n1 \<le> 2 ^ m \<and> 2 ^ m < 2 * n1 \<and> 7 < m"
proof -
  define m where "m = unat (ceil_log2 (of_nat n1))"
  have u: "unat (of_nat n1 :: u32) = n1" using n1(2) by (simp add: unat_of_nat take_bit_nat_eq_self)
  then have "0 < (of_nat n1 :: u32)" using n1(1) by (metis gr_implies_not0 unat_0 word_neq_0_conv)
  from ceil_log2_correct [OF this] have m: "n1 \<le> 2 ^ m" "2 ^ m < 2 * n1" "m \<le> 32" by (simp_all add: u m_def)
  have "(2 :: nat) ^ 7 < 2 ^ m" using m(1) n1(1) by (simp add: KARATSUBA_DIGITS_def)
  then have m7: "7 < m" by (simp only: power_strict_increasing_iff) 
  then have i: "min (m - 7) 63 = m - 7" using m(3) by simp
  have p: "KARATSUBA_DIGITS * 2 ^ (m - 7) = 2 ^ m"
  proof -
    obtain k where "m = 7 + k" using m7 less_imp_add_positive by blast
    then show ?thesis by (simp add: KARATSUBA_DIGITS_def power_add)
  qed
  from power0_correct [OF stop base assms(3), of env "m - 7"] obtain t c where
    t: "power_cache_get_power0 env stop cache base (m - 7) = Some (t, c)" "cache_ok c" "power_ok base (2 ^ m) t"
    by (auto simp: p)
  have "square_up stop n1 (2 ^ m) t = Some t" using m(1) by (subst square_up.simps) simp
  then have "power_cache_get_power env stop cache base n1 = Some (t, 2 ^ m, c)"
    using n1(1) t(1) by (simp add: power_cache_get_power_def Let_def i p flip: m_def)
  with t m m7 show ?thesis by blast
qed

section \<open>The recursive conversion\<close>

lemma karatsuba_correct:
  assumes stop: "\<forall>k. \<not> stop k" and base: "radix_ok base" and hbase: "uint hbase = base ^ 4"
  shows "cache_ok cache \<Longrightarrow> big_digits x \<noteq> [] \<or> bval (big_digits x) = 0 \<Longrightarrow> big_sign x \<or> bval (big_digits x) = 0 \<Longrightarrow>
    bval (big_digits x) < base ^ len \<Longrightarrow> n1 \<le> (len + 1) div 2 \<Longrightarrow> len < 2 ^ 31 \<Longrightarrow>
    \<exists>s c. big2str_karatsuba env stop cache x base n1 len hbase trim = Some (s, c)
      \<and> cache_ok c \<and> numeral_ok base (bval (big_digits x)) len trim s"
proof (induction len arbitrary: cache x n1 trim rule: less_induct)
  case (less len)
  have b: "2 \<le> base" using base by (simp add: radix_ok_def)
  note unf = big2str_karatsuba.simps [of env stop cache x base n1 len hbase trim]
  show ?case
  proof (cases "BIGZEROP x")
    case True
    have "digits_value base 0 (replicate len CHR ''0'') = 0"
      by (induction len) (simp_all add: digits_value_Cons conv_digit_signs digits_value_def)
    with True b less.prems(1) show ?thesis
      by (auto simp: unf numeral_ok_def BIGZEROP_iff is_digit_def conv_digit_signs digits_value_def ruby_digitmap_def)
  next
    case nz: False
    then have x: "big_digits x \<noteq> []" "big_sign x" "bval (big_digits x) \<noteq> 0"
      using less.prems(2,3) by (auto simp: BIGZEROP_iff)
    show ?thesis
    proof (cases "n1 \<le> KARATSUBA_DIGITS")
      case True
      from big2str_orig_correct [OF base hbase x(1) less.prems(4)] obtain s where
        "big2str_orig x base len hbase trim = Some s" "numeral_ok base (bval (big_digits x)) len trim s" by blast
      with nz True less.prems(1) show ?thesis by (simp add: unf)
    next
      case False
      then have n1: "KARATSUBA_DIGITS < n1" "n1 < 2 ^ 31" using less.prems(5,6) by auto
      from get_power_correct [OF stop base less.prems(1) n1, of env] obtain t m c1 where
        p: "power_cache_get_power env stop cache base n1 = Some (t, 2 ^ m, c1)" "cache_ok c1"
          "power_ok base (2 ^ m) t" "2 ^ m < 2 * n1" "7 < m" by blast
      define m1 :: nat where "m1 = 2 ^ m"
      have t: "digits_ok (big_digits t)" "big_sign t" "bval (big_digits t) = base ^ m1"
        using p(3) by (simp_all add: power_ok_def m1_def)
      have P: "0 < base ^ m1" using b by simp
      have "even m1" "0 < m1" using p(5) by (simp_all add: m1_def)
      have "m1 < 2 * n1" using p(4) by (simp add: m1_def)
      have "m1 \<le> len" "m1 \<noteq> len"
      proof -
        have "2 * n1 \<le> len + 1" using less.prems(5) by linarith
        then show "m1 \<le> len" using \<open>m1 < 2 * n1\<close> by linarith
        show "m1 \<noteq> len"
        proof
          assume "m1 = len"
          with \<open>even m1\<close> less.prems(5) have "2 * n1 \<le> m1" by (auto elim!: evenE)
          with \<open>m1 < 2 * n1\<close> show False by simp
        qed
      qed
      then have m1: "m1 < len" by simp
      have "big_int t \<noteq> 0" using t P b by (simp add: big_int_def)
      from bigdivrem_correct [OF stop t(1) this, of x] obtain q r where
        qr: "bigdivrem stop x t = Some (Inr (q, r))" "divrem_spec x t q r" by blast
      have "bigdivmod stop x t = Some (Inr (q, r))" using qr(1) x(2) t(2) by (simp add: bigdivmod_def)
      with p(1) have split: "karatsuba_split env stop cache x base n1 = Some (q, r, m1, c1)"
        by (simp add: karatsuba_split_def m1_def)
      have q: "bval (big_digits q) = bval (big_digits x) div base ^ m1" "big_sign q \<or> bval (big_digits q) = 0"
        and r: "bval (big_digits r) = bval (big_digits x) mod base ^ m1" "big_sign r"
        using qr(2) x(2) t by (auto simp: divrem_spec_def)
      have "base ^ len = base ^ (len - m1) * base ^ m1" using m1 by (simp flip: power_add)
      with less.prems(4) P have ql: "bval (big_digits q) < base ^ (len - m1)" by (simp add: q(1) div_less_int)
      have rl: "bval (big_digits r) < base ^ m1" using P by (simp add: r(1))
      have e0: "y \<noteq> [] \<or> bval y = 0" for y by (cases y) auto
      have "len - m1 < 2 ^ 31" using less.prems(6) by (rule le_less_trans [rotated]) simp
      with less.IH [of "len - m1" c1 q "(len - m1) div 2" trim] m1 \<open>0 < m1\<close> p(2) e0 q(2) ql
      obtain sh c2 where
        sh: "big2str_karatsuba env stop c1 q base ((len - m1) div 2) (len - m1) hbase trim = Some (sh, c2)"
          "cache_ok c2" "numeral_ok base (bval (big_digits q)) (len - m1) trim sh" by auto
      from less.IH [of m1 c2 r "m1 div 2" "length sh = 0 \<and> trim"] m1 sh(2) e0 r(2) rl less.prems(6)
      obtain sl c3 where
        sl: "big2str_karatsuba env stop c2 r base (m1 div 2) m1 hbase (length sh = 0 \<and> trim) = Some (sl, c3)"
          "cache_ok c3" "numeral_ok base (bval (big_digits r)) m1 (length sh = 0 \<and> trim) sl" by auto
      have "big2str_karatsuba env stop cache x base n1 len hbase trim = Some (sh @ sl, c3)"
        using nz False split sh(1) sl(1) by (simp add: unf)
      moreover have "numeral_ok base (bval (big_digits x)) len trim (sh @ sl)"
      proof -
        have X: "bval (big_digits x) = bval (big_digits q) * base ^ m1 + bval (big_digits r)"
          unfolding q(1) r(1) by (rule div_mult_mod_eq [symmetric])
        show ?thesis
        proof (cases "sh = [] \<and> trim")
          case True
          then have "bval (big_digits q) = 0" using sh(3) by (simp add: numeral_ok_def digits_value_def)
          with True sl(3) X show ?thesis by (simp add: numeral_ok_def)
        next
          case False
          then have "length sl = m1" using sl(3) by (auto simp: numeral_ok_def split: if_splits)
          moreover have "digits_value base 0 (sh @ sl) = bval (big_digits q) * base ^ length sl + bval (big_digits r)"
            using sh(3) sl(3) by (simp add: digits_value_append numeral_ok_def
                digits_value_shift [of base "bval (big_digits q)"])
          ultimately show ?thesis using sh(3) sl(3) False X m1 by (auto simp: numeral_ok_def)
        qed
      qed
      ultimately show ?thesis using sl(2) by blast
    qed
  qed
qed

section \<open>Printing and reading back\<close>

text \<open>The canonical text of an integer: a minus sign when negative, no leading zero.\<close>

definition is_repr :: "int \<Rightarrow> int \<Rightarrow> string \<Rightarrow> bool" where
  "is_repr base i s \<longleftrightarrow> (\<exists>ds. s = (if i < 0 then [CHR ''-''] else []) @ ds \<and> ds \<noteq> []
     \<and> (\<forall>c \<in> set ds. is_digit base c) \<and> digits_value base 0 ds = \<bar>i\<bar>
     \<and> (hd ds \<noteq> CHR ''0'' \<or> ds = ''0''))"

lemma fix_loop_correct:
  assumes "radix_ok base" and "written base x out (sint val)" and "0 < sint val" and "sint val < base ^ room"
  shows "\<exists>s. fix_loop room val base out = Some s \<and> written base x s 0 \<and> s \<noteq> [] \<and> hd s \<noteq> CHR ''0''"
  using assms
proof (induction room val base out rule: fix_loop.induct)
  case (2 room val base b)
  have ra: "2 \<le> base" "base \<le> 36" using "2.prems"(1) by (simp_all add: radix_ok_def)
  have w: "uint (word_of_int base :: u32) = base" using ra by (simp add: uint_word_of_int)
  have sv: "sint val = uint val"
    using "2.prems"(3) u32_bounds [of val] by (simp add: sint_of_uint_u32 split: if_splits)
  define c where "c = ruby_digitmap ! unat (val mod word_of_int base)"
  define v where "v = val div word_of_int base"
  have m: "uint (val mod word_of_int base) = uint val mod base" by (simp add: uint_mod w)
  have v: "uint v = uint val div base" by (simp add: v_def uint_div w)
  have "uint val mod base < 36" using pos_mod_bound [of base "uint val"] ra by linarith
  then have "unat (val mod word_of_int base) < 36" by (simp add: unat_eq_nat_uint nat_less_iff m)
  from digitmap_conv [OF this] have c: "conv_digit c = uint val mod base" by (simp add: c_def m)
  have wr: "written base x (c # b) (uint v)"
    using written_step [OF "2.prems"(1,2), of "unat (val mod word_of_int base)"] c
    by (simp add: c_def sv v)
  have unf: "fix_loop (Suc room) val base b = (if v \<noteq> 0 then fix_loop room v base (c # b) else Some (c # b))"
    by (simp only: fix_loop.simps Let_def c_def v_def)
  show ?case
  proof (cases "v = 0")
    case True
    then have "uint val div base = 0" using v by simp
    then have "uint val mod base = uint val" using mult_div_mod_eq [of base "uint val"] by simp
    then have "c \<noteq> CHR ''0''" using c "2.prems"(3) sv conv_digit_signs(3) by auto
    with True wr unf show ?thesis by simp
  next
    case False
    have "uint v \<le> uint val" using zdiv_mono2 [of "uint val" 1 base] ra unfolding v by simp
    then have sv': "sint v = uint v" using sv sint_u32_bounds [of val] by (simp add: sint_of_uint_u32)
    have "0 < uint v" using False uint_u32_neq_0 by simp
    moreover have "uint v < base ^ room"
      using "2.prems"(4) ra unfolding v sv by (intro div_less_int) (simp_all add: mult.commute)
    moreover have c1: "c # b = ruby_digitmap ! unat (val mod word_of_int base) # b" by (simp add: c_def)
    ultimately show ?thesis
      using "2.IH" [OF c1 v_def False "2.prems"(1)] wr sv' unf False by simp
  qed
qed simp

lemma is_repr_zero: "2 \<le> base \<Longrightarrow> is_repr base 0 ''0''"
  by (simp add: is_repr_def is_digit_def conv_digit_signs digits_value_def)

lemma rb_fix2str_correct:
  assumes "radix_ok base" and "normal_int (VFix w)"
  shows "\<exists>s. rb_fix2str w base = Some (Inr s) \<and> is_repr base (int_of (VFix w)) s"
proof -
  have ra: "2 \<le> base" "base \<le> 36" using assms(1) by (simp_all add: radix_ok_def)
  define val where "val = FIX2LONG w"
  define a where "a = (if sint val < 0 then - val else val)"
  have i: "int_of (VFix w) = sint val" by (simp add: val_def)
  have b: "- (2 ^ 30) \<le> sint val" "sint val < 2 ^ 30"
    using assms(2) by (auto simp: val_def FIX2LONG_LONG2FIX fixable_defs)
  show ?thesis
  proof (cases "val = 0")
    case True
    with ra is_repr_zero show ?thesis by (auto simp: rb_fix2str_def Let_def i simp flip: val_def)
  next
    case False
    then have nz: "sint val \<noteq> 0" using sint_inj [of val 0] by auto
    have a: "sint a = \<bar>sint val\<bar>" using sint_fix_neg [OF assms(2)] by (simp add: a_def i val_def)
    have "(2 :: int) ^ 32 \<le> base ^ 32" using ra by (intro power_mono) simp_all
    with a b have "sint a < base ^ 32" by simp
    moreover have "written base (sint a) [] (sint a)" using a by (simp add: written_def digits_value_def)
    moreover have "0 < sint a" using a nz by simp
    ultimately obtain s where s: "fix_loop 32 a base [] = Some s" "written base (sint a) s 0" "s \<noteq> []" "hd s \<noteq> CHR ''0''"
      using fix_loop_correct [OF assms(1)] by blast
    have "rb_fix2str w base = Some (Inr (if sint val < 0 then CHR ''-'' # s else s))"
      using ra False s(1) by (simp add: rb_fix2str_def Let_def val_def [symmetric] a_def)
    moreover have "is_repr base (int_of (VFix w)) (if sint val < 0 then CHR ''-'' # s else s)"
      unfolding is_repr_def i by (rule exI [of _ s]) (use s a in \<open>auto simp: written_def\<close>)
    ultimately show ?thesis by blast
  qed
qed

text \<open>What the C \<open>double\<close> quotient has to deliver: enough characters, within a \<open>long\<close>.\<close>

definition quot_ok :: "(nat \<Rightarrow> int \<Rightarrow> nat) \<Rightarrow> int \<Rightarrow> nat \<Rightarrow> bool" where
  "quot_ok quot base bits \<longleftrightarrow> 2 ^ bits \<le> base ^ quot bits base \<and> quot bits base < 2 ^ 31"

lemma numeral_ok_repr:
  assumes "numeral_ok base x len True ds" and "x \<noteq> 0"
  shows "(\<forall>c \<in> set ds. is_digit base c) \<and> digits_value base 0 ds = x \<and> ds \<noteq> [] \<and> hd ds \<noteq> CHR ''0''"
  using assms by (auto simp: numeral_ok_def digits_value_def)

lemma rb_big2str_big:
  assumes stop: "\<forall>k. \<not> stop k" and base: "radix_ok base" and c: "cache_ok cache"
    and x: "normal_int (VBig x)" and len: "length (big_digits x) < 2147483647 div 32"
    and q: "quot_ok quot base (32 * length (big_digits x))"
  shows "\<exists>s c. rb_big2str env quot stop cache (VBig x) base = Some (Inr (s, c))
    \<and> cache_ok c \<and> is_repr base (big_int x) s"
proof -
  have ra: "2 \<le> base" "base \<le> 36" using base by (simp_all add: radix_ok_def)
  define n2 where "n2 = quot (32 * length (big_digits x)) base"
  define H where "H = base * base * (base * base)"
  define hbase :: bdigit where "hbase = word_of_int H"
  have H: "H = base ^ 4" by (simp add: H_def power_numeral_reduce)
  have "base ^ 4 \<le> 36 ^ 4" using ra by (intro power_mono) simp_all
  then have "0 \<le> H" "H < 2 ^ 32" using ra by (simp_all add: H)
  then have "uint hbase = H" by (simp add: hbase_def uint_word_of_int)
  with H have hb: "uint hbase = base ^ 4" by simp
  define xx where "xx = x\<lparr>big_sign := True\<rparr>"
  note sg = normal_big_sign [OF x]
  have nz: "big_int x \<noteq> 0" using x by (auto simp: fixable_defs)
  have ne: "big_digits x \<noteq> []" using x by (auto simp: digits_ok_def)
  have "2 ^ (32 * length (big_digits x)) \<le> base ^ n2" "n2 < 2 ^ 31" using q by (simp_all add: quot_ok_def n2_def)
  then have bound: "bval (big_digits xx) < base ^ n2" "n2 < 2 ^ 31"
    using bval_bound [of "big_digits x"] by (simp_all add: xx_def)
  define sgn where "sgn = (if big_sign x then [] else [CHR ''-''])"
  have find: "big2str_find_n1 quot (VBig x) base = Inr n2"
    using ra nz len by (simp add: big2str_find_n1_def n2_def BIGZEROP_value)
  have top: "rb_big2str env quot stop cache (VBig x) base =
      (if (n2 + 1) div 2 \<le> KARATSUBA_DIGITS then
         map_option (\<lambda>s. Inr (sgn @ s, cache)) (big2str_orig xx base n2 hbase True)
       else map_option (\<lambda>(s, c). Inr (sgn @ s, c))
         (big2str_karatsuba env stop cache xx base ((n2 + 1) div 2) n2 hbase True))"
    using nz ra unfolding rb_big2str_def rb_big2str0_def Let_def
    by (simp add: find BIGZEROP_value sgn_def xx_def hbase_def H_def)
  have repr: "is_repr base (big_int x) (sgn @ ds)" if "numeral_ok base (bval (big_digits xx)) n2 True ds" for ds
  proof -
    have "bval (big_digits xx) = \<bar>big_int x\<bar>" by (simp add: xx_def sg(2))
    with numeral_ok_repr [OF that] nz show ?thesis
      unfolding is_repr_def by (intro exI [of _ ds]) (use sg(1) nz in \<open>auto simp: sgn_def\<close>)
  qed
  show ?thesis
  proof (cases "(n2 + 1) div 2 \<le> KARATSUBA_DIGITS")
    case True
    from big2str_orig_correct [OF base hb, of xx n2 True] ne bound obtain ds where
      "big2str_orig xx base n2 hbase True = Some ds" "numeral_ok base (bval (big_digits xx)) n2 True ds"
      by (auto simp: xx_def)
    with True top c repr show ?thesis by auto
  next
    case False
    from karatsuba_correct [OF stop base hb c, of xx n2 "(n2 + 1) div 2" env True] ne bound obtain ds c' where
      "big2str_karatsuba env stop cache xx base ((n2 + 1) div 2) n2 hbase True = Some (ds, c')" "cache_ok c'"
      "numeral_ok base (bval (big_digits xx)) n2 True ds"
      by (auto simp: xx_def)
    with False top repr show ?thesis by auto
  qed
qed

definition prints_ok :: "(nat \<Rightarrow> int \<Rightarrow> nat) \<Rightarrow> int \<Rightarrow> rb_int \<Rightarrow> bool" where
  "prints_ok quot base v \<longleftrightarrow> (case v of VFix w \<Rightarrow> True | VBig x \<Rightarrow>
     length (big_digits x) < 2147483647 div 32 \<and> quot_ok quot base (32 * length (big_digits x)))"

lemma rb_big2str_correct:
  assumes "\<forall>k. \<not> stop k" and "radix_ok base" and "cache_ok cache" and "normal_int v" and "prints_ok quot base v"
  shows "\<exists>s c. rb_big2str env quot stop cache v base = Some (Inr (s, c)) \<and> cache_ok c \<and> is_repr base (int_of v) s"
proof (cases v)
  case (VFix w)
  with rb_fix2str_correct [OF assms(2), of w] assms(3,4) show ?thesis
    by (auto simp: rb_big2str_def rb_big2str0_def)
next
  case (VBig x)
  with rb_big2str_big [OF assms(1-3), of x quot env] assms(4,5) show ?thesis by (auto simp: prints_ok_def)
qed

text \<open>Reading a canonical text gives the integer back.\<close>

lemma parse_zero: "2 \<le> base \<Longrightarrow> base \<le> 36 \<Longrightarrow> \<exists>w. rb_cstr_to_inum ''0'' base badcheck = Some (Inr w) \<and> normal_int w \<and> int_of w = 0"
proof -
  assume b: "2 \<le> base" "base \<le> 36"
  have sp: "\<not> is_space CHR ''0''" by (simp add: is_space_def code_def)
  have "\<exists>bits. base_switch base ''0'' = Some (bits, ''0'')"
    using b by (auto simp: base_switch_def zero_prefix_def second_char_def)
  then have "number_core ''0'' base = Some (True, base, ''0'')"
    using b sp by (auto simp: number_core_def Let_def parse_sign_def guess_base_def squeeze_zeros_def
        is_digit_def conv_digit_signs)
  with rb_cstr_to_inum_core [of "''0''" base badcheck] obtain res where
    "rb_cstr_to_inum ''0'' base badcheck = Some res" "parse_spec base True badcheck ''0'' res" by auto
  then show ?thesis using b by (auto simp: parse_spec_def conv_digit_signs)
qed

lemma parse_repr:
  assumes "radix_ok base" and "is_repr base i s"
  shows "\<exists>w. rb_cstr_to_inum s base badcheck = Some (Inr w) \<and> normal_int w \<and> int_of w = i"
proof -
  from assms(2) obtain ds where ds: "s = (if i < 0 then [CHR ''-''] else []) @ ds" "ds \<noteq> []"
    "\<forall>c \<in> set ds. is_digit base c" "digits_value base 0 ds = \<bar>i\<bar>" "hd ds \<noteq> CHR ''0'' \<or> ds = ''0''"
    by (auto simp: is_repr_def)
  show ?thesis
  proof (cases "ds = ''0''")
    case True
    with ds(4) have "i = 0" by (simp add: digits_value_def conv_digit_signs)
    with True ds(1) parse_zero [of base badcheck] assms(1) show ?thesis by (simp add: radix_ok_def)
  next
    case False
    with ds rb_cstr_to_inum_digits [of base ds "i < 0" badcheck] assms(1) show ?thesis
      by (auto simp: radix_ok_def)
  qed
qed

lemma str_roundtrip:
  assumes "\<forall>k. \<not> stop k" and "radix_ok base" and "cache_ok cache" and "normal_int v" and "prints_ok quot base v"
  shows "\<exists>s c. rb_big2str env quot stop cache v base = Some (Inr (s, c))
    \<and> rb_cstr_to_inum s base badcheck = Some (Inr v)"
proof -
  from rb_big2str_correct [OF assms] obtain s c where
    s: "rb_big2str env quot stop cache v base = Some (Inr (s, c))" "is_repr base (int_of v) s" by blast
  from parse_repr [OF assms(2) s(2)] obtain w where
    w: "rb_cstr_to_inum s base badcheck = Some (Inr w)" "normal_int w" "int_of w = int_of v" by blast
  from normal_int_unique [OF w(2) assms(4) w(3)] s(1) w(1) show ?thesis by simp
qed

end
