(* ===== verification/StrCanon.thy ===== *)
theory StrCanon
  imports IntToStr
begin

text \<open>
  The two converters of \<open>lib/ruby/bignum.c\<close> agree: \<open>big2str_karatsuba\<close>, which splits the number by
  powers of the base, writes character for character what \<open>big2str_orig\<close> writes.  Both take their
  characters from \<open>ruby_digitmap\<close>, and a number has one numeral over it.
\<close>

section \<open>One numeral per number\<close>

lemma conv_digit_inj: "inj_on conv_digit (set ruby_digitmap)"
proof (rule inj_onI)
  have n: "length ruby_digitmap = 36" by (simp add: ruby_digitmap_def)
  fix c d assume c: "c \<in> set ruby_digitmap" "d \<in> set ruby_digitmap" and eq: "conv_digit c = conv_digit d"
  then obtain i j where "i < 36" "c = ruby_digitmap ! i" "j < 36" "d = ruby_digitmap ! j"
    unfolding in_set_conv_nth n by auto
  with eq digitmap_conv [of i] digitmap_conv [of j] show "c = d" by simp
qed

lemma digits_value_unique:
  assumes "length s = length t" and "1 \<le> base"
    and "\<forall>c \<in> set s. is_digit base c" and "\<forall>c \<in> set t. is_digit base c"
    and "set s \<subseteq> set ruby_digitmap" and "set t \<subseteq> set ruby_digitmap"
    and "digits_value base 0 s = digits_value base 0 t"
  shows "s = t"
  using assms
proof (induction s t rule: list_induct2)
  case (Cons c s d t)
  note b = digits_value_bounds [OF Cons.prems(1)]
  have v: "digits_value base 0 (c # s) = base ^ length s * conv_digit c + digits_value base 0 s"
    "digits_value base 0 (d # t) = base ^ length s * conv_digit d + digits_value base 0 t"
    using Cons.hyps by (simp_all add: digits_value_Cons digits_value_shift [of base "conv_digit _"] mult.commute)
  have "digits_value base 0 (c # s) div base ^ length s = conv_digit c" "digits_value base 0 (c # s) mod base ^ length s = digits_value base 0 s"
    using div_mod_int_unique [OF _ _ v(1)] b [of s] Cons.prems(2) by simp_all
  moreover have "digits_value base 0 (d # t) div base ^ length s = conv_digit d" "digits_value base 0 (d # t) mod base ^ length s = digits_value base 0 t"
    using div_mod_int_unique [OF _ _ v(2)] b [of t] Cons.prems(3) Cons.hyps by simp_all
  ultimately have "conv_digit c = conv_digit d" "digits_value base 0 s = digits_value base 0 t" using Cons.prems(6) by simp_all
  then show ?case using Cons conv_digit_inj by (auto dest: inj_onD)
qed simp

lemma digits_value_leading:
  assumes "1 \<le> base" and "\<forall>c \<in> set s. is_digit base c" and "set s \<subseteq> set ruby_digitmap" and "s \<noteq> []" and "hd s \<noteq> CHR ''0''"
  shows "base ^ (length s - 1) \<le> digits_value base 0 s"
proof -
  obtain c r where s: "s = c # r" using assms(4) by (cases s) auto
  have "conv_digit c \<noteq> conv_digit CHR ''0''"
    using assms(3,5) s inj_on_eq_iff [OF conv_digit_inj, of c "CHR ''0''"] by (simp add: ruby_digitmap_def)
  then have "1 \<le> conv_digit c" using assms(2) s by (simp add: is_digit_def conv_digit_signs)
  then have "1 * base ^ length r \<le> conv_digit c * base ^ length r" using assms(1) by (intro mult_right_mono) simp_all
  moreover have "0 \<le> digits_value base 0 r" using digits_value_bounds(1) [OF assms(1), of r] assms(2) s by simp
  ultimately show ?thesis by (simp add: s digits_value_Cons digits_value_shift [of base "conv_digit c"])
qed

lemma numeral_ok_unique:
  assumes base: "radix_ok base" and s: "numeral_ok base x len trim s" and t: "numeral_ok base x len trim t"
  shows "s = t"
proof -
  have b: "1 \<le> base" "1 < base" using base by (simp_all add: radix_ok_def)
  have short: "length u \<le> length v"
    if u: "numeral_ok base x len True u" and v: "numeral_ok base x len True v" for u v
  proof (cases "u = []")
    case False
    have "base ^ (length u - 1) \<le> x"
      using digits_value_leading [OF b(1), of u] u False by (auto simp: numeral_ok_def)
    also have "x < base ^ length v" using digits_value_bounds(2) [OF b(1), of v] v by (simp add: numeral_ok_def)
    finally show ?thesis using b(2) False by (cases u) auto
  qed simp
  have "length s = length t"
    using short [of s t] short [of t s] s t by (cases trim) (auto simp: numeral_ok_def)
  with digits_value_unique [OF _ b(1)] s t show ?thesis by (simp add: numeral_ok_def)
qed

lemma karatsuba_orig:
  assumes stop: "\<forall>k. \<not> stop k" and base: "radix_ok base" and h: "uint hbase = base ^ 4" and c: "cache_ok cache"
    and x: "big_digits x \<noteq> []" "big_sign x" "bval (big_digits x) < base ^ len" and n1: "n1 \<le> (len + 1) div 2" "len < 2 ^ 31"
  shows "\<exists>s c. big2str_karatsuba env stop cache x base n1 len hbase trim = Some (s, c) \<and> cache_ok c
    \<and> big2str_orig x base len hbase trim = Some s"
proof -
  from karatsuba_correct [OF stop base h c _ _ x(3) n1, of env trim] x(1,2) obtain s c where
    k: "big2str_karatsuba env stop cache x base n1 len hbase trim = Some (s, c)" "cache_ok c"
      "numeral_ok base (bval (big_digits x)) len trim s" by auto
  from big2str_orig_correct [OF base h x(1,3)] obtain t where
    o: "big2str_orig x base len hbase trim = Some t" "numeral_ok base (bval (big_digits x)) len trim t" by blast
  have "s = t" using numeral_ok_unique [OF base k(3) o(2)] .
  with k o show ?thesis by blast
qed

end
