(* ===== verification/BigBits.thy ===== *)
theory BigBits
  imports BigDivMod
begin

text \<open>
  The bitwise operations of \<open>lib/ruby/bignum.c\<close>: a negative operand is turned into its two's
  complement digits by \<open>get2comp\<close>, the digits are combined, and a negative result is turned back.
  The theorems relate them to the bit operations on the unbounded integers.
\<close>

section \<open>Definitions\<close>

text \<open>\<open>num += ds[i]; ds[i++] = BIGLO(num); num = BIGDN(num);\<close> and the digit appended at the end.\<close>

fun comp_loop :: "bdigit_dbl \<Rightarrow> bdigit list \<Rightarrow> bdigit list" where
  "comp_loop num [] = (if num \<noteq> 0 then [1] else [])"
| "comp_loop num (d # ds) =
     (let num' = num + ucast d in BIGLO num' # comp_loop (BIGDN num') ds)"

definition get2comp :: "rbignum \<Rightarrow> rbignum" where
  "get2comp x =
     (if big_digits x = [] then x
      else x\<lparr>big_digits := comp_loop 1 (map not (big_digits x))\<rparr>)"

definition rb_big_2comp :: "rbignum \<Rightarrow> rbignum" where
  "rb_big_2comp x = get2comp x"

definition rb_big_neg :: "rbignum \<Rightarrow> rb_int" where
  "rb_big_neg x =
     (let z = (if \<not> big_sign x then get2comp x else x);
          i = length (big_digits x)
      in if i = 0 then VFix (LONG2FIX (not 0))
         else
           let ds = map not (take i (big_digits z)) @ drop i (big_digits z);
               z' = mk_big (\<not> big_sign z) ds;
               z'' = (if big_sign x then get2comp z' else z')
           in bignorm (VBig z''))"

definition bit_coerce :: "('f, 'o) rb_env \<Rightarrow> ('f, 'o) rb_value \<Rightarrow> rb_error + rb_int" where
  "bit_coerce env x =
     (case x of
        RInt v \<Rightarrow> Inr v
      | RFloat f \<Rightarrow> Inl TypeError
      | _ \<Rightarrow> rb_to_int env x)"

text \<open>
  The common first half: both operands in two's complement, the shorter one first; \<open>sign\<close> is the
  sign of the shorter one.
\<close>

definition bit_operands :: "rbignum \<Rightarrow> rb_int \<Rightarrow> (bdigit list \<times> bdigit list \<times> bool) \<times> bool \<times> bool" where
  "bit_operands xx yy =
     (let y0 = to_big yy;
          y = (if \<not> big_sign y0 then get2comp y0 else y0);
          x = (if \<not> big_sign xx then get2comp xx else xx)
      in (if length (big_digits y) < length (big_digits x)
          then (big_digits y, big_digits x, big_sign y)
          else (big_digits x, big_digits y, big_sign x), big_sign x, big_sign y))"

definition bit_result :: "bool \<Rightarrow> bdigit list \<Rightarrow> rb_int" where
  "bit_result s zds =
     (let z = mk_big s zds in bignorm (VBig (if \<not> big_sign z then get2comp z else z)))"

definition big_and :: "rbignum \<Rightarrow> rb_int \<Rightarrow> rb_int" where
  "big_and xx yy =
     (let ((ds1, ds2, sign), sx, sy) = bit_operands xx yy;
          l1 = length ds1
      in bit_result (sx \<or> sy)
           (map2 (AND) ds1 (take l1 ds2) @ map (\<lambda>d. if sign then 0 else d) (drop l1 ds2)))"

definition big_or :: "rbignum \<Rightarrow> rb_int \<Rightarrow> rb_int" where
  "big_or xx yy =
     (let ((ds1, ds2, sign), sx, sy) = bit_operands xx yy;
          l1 = length ds1
      in bit_result (sx \<and> sy)
           (map2 (OR) ds1 (take l1 ds2) @ map (\<lambda>d. if sign then d else 2 ^ 32 - 1) (drop l1 ds2)))"

definition big_xor :: "rbignum \<Rightarrow> rb_int \<Rightarrow> rb_int" where
  "big_xor xx yy =
     (let ((ds1, ds2, sign), sx, sy) = bit_operands xx yy;
          l1 = length ds1
      in bit_result (sx = sy)
           (map2 (XOR) ds1 (take l1 ds2) @ map (\<lambda>d. if sign then d else not d) (drop l1 ds2)))"

definition rb_big_and :: "('f, 'o) rb_env \<Rightarrow> rbignum \<Rightarrow> ('f, 'o) rb_value \<Rightarrow> ('f, 'o) rb_result" where
  "rb_big_and env xx yy = map_sum id (\<lambda>v. RInt (big_and xx v)) (bit_coerce env yy)"

definition rb_big_or :: "('f, 'o) rb_env \<Rightarrow> rbignum \<Rightarrow> ('f, 'o) rb_value \<Rightarrow> ('f, 'o) rb_result" where
  "rb_big_or env xx yy = map_sum id (\<lambda>v. RInt (big_or xx v)) (bit_coerce env yy)"

definition rb_big_xor :: "('f, 'o) rb_env \<Rightarrow> rbignum \<Rightarrow> ('f, 'o) rb_value \<Rightarrow> ('f, 'o) rb_result" where
  "rb_big_xor env xx yy = map_sum id (\<lambda>v. RInt (big_xor xx v)) (bit_coerce env yy)"

section \<open>Shifts\<close>

definition check_shiftdown :: "rbignum \<Rightarrow> rbignum \<Rightarrow> rb_int option" where
  "check_shiftdown y x =
     (if length (big_digits x) = 0 then Some (VFix (LONG2FIX 0))
      else if 1 < length (big_digits y) then
        Some (if big_sign x then VFix (LONG2FIX 0) else VFix (LONG2FIX (- 1)))
      else None)"

fun lshift_loop :: "nat \<Rightarrow> bdigit_dbl \<Rightarrow> bdigit list \<Rightarrow> bdigit list" where
  "lshift_loop s2 num [] = [BIGLO num]"
| "lshift_loop s2 num (x # xs) =
     (let num' = num OR push_bit s2 (ucast x) in BIGLO num' # lshift_loop s2 (BIGDN num') xs)"

definition big_lshift :: "rbignum \<Rightarrow> u32 \<Rightarrow> rb_int" where
  "big_lshift x shift =
     (let s1 = unat (shift div 32); s2 = unat (shift mod 32)
      in bignorm (VBig (mk_big (big_sign x) (replicate s1 0 @ lshift_loop s2 0 (big_digits x)))))"

definition big_rshift :: "rbignum \<Rightarrow> u32 \<Rightarrow> rb_int" where
  "big_rshift x shift =
     (let s1 = unat (shift div 32); s2 = unat (shift mod 32) in
      if length (big_digits x) < s1 then
        (if big_sign x then VFix (LONG2FIX 0) else VFix (LONG2FIX (- 1)))
      else
        let x' = (if \<not> big_sign x then get2comp x else x);
            j = length (big_digits x') - s1
        in if j = 0 then (if big_sign x' then VFix (LONG2FIX 0) else VFix (LONG2FIX (- 1)))
           else
             let num = (if \<not> big_sign x' then BIGUP (not 0) else 0);
                 zds = rev (shr_loop s2 num (rev (drop s1 (big_digits x'))));
                 z = mk_big (big_sign x') zds
             in bignorm (VBig (if \<not> big_sign x' then get2comp z else z)))"

text \<open>The loop over \<open>rb_to_int\<close>, and the sign and amount of a shift.\<close>

definition shift_operand :: "('f, 'o) rb_env \<Rightarrow> ('f, 'o) rb_value \<Rightarrow> rb_error + rb_int" where
  "shift_operand env y = (case y of RInt v \<Rightarrow> Inr v | _ \<Rightarrow> rb_to_int env y)"

definition lshift_int :: "rbignum \<Rightarrow> rb_int \<Rightarrow> rb_error + rb_int" where
  "lshift_int x y =
     (case y of
        VFix w \<Rightarrow>
          let shift = FIX2LONG w
          in Inr (if sint shift < 0 then big_rshift x (- shift) else big_lshift x shift)
      | VBig b \<Rightarrow>
          (case (if \<not> big_sign b then check_shiftdown b x else None) of
             Some t \<Rightarrow> Inr t
           | None \<Rightarrow>
               map_sum id (\<lambda>shift. if \<not> big_sign b then big_rshift x shift else big_lshift x shift)
                 (big2ulong b True)))"

definition rshift_int :: "rbignum \<Rightarrow> rb_int \<Rightarrow> rb_error + rb_int" where
  "rshift_int x y =
     (case y of
        VFix w \<Rightarrow>
          let shift = FIX2LONG w
          in Inr (if sint shift < 0 then big_lshift x (- shift) else big_rshift x shift)
      | VBig b \<Rightarrow>
          (case (if big_sign b then check_shiftdown b x else None) of
             Some t \<Rightarrow> Inr t
           | None \<Rightarrow>
               map_sum id (\<lambda>shift. if \<not> big_sign b then big_lshift x shift else big_rshift x shift)
                 (big2ulong b True)))"

definition rb_big_lshift :: "('f, 'o) rb_env \<Rightarrow> rbignum \<Rightarrow> ('f, 'o) rb_value \<Rightarrow> ('f, 'o) rb_result" where
  "rb_big_lshift env x y =
     (case shift_operand env y of Inl e \<Rightarrow> Inl e | Inr v \<Rightarrow> map_sum id RInt (lshift_int x v))"

definition rb_big_rshift :: "('f, 'o) rb_env \<Rightarrow> rbignum \<Rightarrow> ('f, 'o) rb_value \<Rightarrow> ('f, 'o) rb_result" where
  "rb_big_rshift env x y =
     (case shift_operand env y of Inl e \<Rightarrow> Inl e | Inr v \<Rightarrow> map_sum id RInt (rshift_int x v))"

fun aref_loop :: "bdigit_dbl \<Rightarrow> bdigit list \<Rightarrow> bdigit_dbl" where
  "aref_loop num [] = num"
| "aref_loop num [d] = num + ucast (not d)"
| "aref_loop num (d # ds) = aref_loop (BIGDN (num + ucast (not d))) ds"

definition aref_bit :: "rbignum \<Rightarrow> u32 \<Rightarrow> bool" where
  "aref_bit x shift =
     (let s1 = unat (shift div 32); s2 = unat (shift mod 32); xds = big_digits x in
      if length xds \<le> s1 then \<not> big_sign x
      else
        let num = (if \<not> big_sign x then aref_loop 1 (take (Suc s1) xds) else ucast (xds ! s1))
        in num AND push_bit s2 1 \<noteq> 0)"

definition rb_big_aref :: "('f, 'o) rb_env \<Rightarrow> rbignum \<Rightarrow> ('f, 'o) rb_value \<Rightarrow> ('f, 'o) rb_result" where
  "rb_big_aref env x y =
     (case y of
        RInt (VBig b) \<Rightarrow>
          if \<not> big_sign b then Inr (INT2FIX 0)
          else if 1 < length (big_digits (bigtrunc b)) then
            Inr (if big_sign x then INT2FIX 0 else INT2FIX 1)
          else map_sum id (\<lambda>shift. INT2FIX (of_bool (aref_bit x shift))) (big2ulong (bigtrunc b) False)
      | _ \<Rightarrow>
          (case rb_num2long env y of
             Inl e \<Rightarrow> Inl e
           | Inr i \<Rightarrow> if sint i < 0 then Inr (INT2FIX 0) else Inr (INT2FIX (of_bool (aref_bit x i)))))"

section \<open>Two's complement digits\<close>

lemma bit_bval:
  "bit (bval ds) k \<longleftrightarrow> k div 32 < length ds \<and> bit (ds ! (k div 32)) (k mod 32)"
proof (induction ds arbitrary: k)
  case (Cons d ds)
  have "uint d + 2 ^ 32 * bval ds = uint d OR push_bit 32 (bval ds)"
  proof -
    have "uint d + push_bit 32 (bval ds) = uint d OR push_bit 32 (bval ds)"
      by (rule disjunctive_add) (auto simp: bit_simps bit_uint_iff dest: bit_imp_le_length)
    then show ?thesis by (simp add: push_bit_eq_mult mult.commute)
  qed
  then have eq: "bit (bval (d # ds)) k \<longleftrightarrow> bit (uint d) k \<or> 32 \<le> k \<and> bit (bval ds) (k - 32)"
    by (simp add: bit_simps)
  show ?case
  proof (cases "k < 32")
    case True
    then show ?thesis unfolding eq by (simp add: bit_uint_iff)
  next
    case False
    then have "k div 32 = Suc ((k - 32) div 32)" "k mod 32 = (k - 32) mod 32"
      by (simp_all add: div_if mod_if)
    with False show ?thesis unfolding eq by (simp add: bit_uint_iff Cons.IH)
  qed
qed simp

lemma bval_map_not: "bval (map not ds) = 2 ^ (32 * length ds) - 1 - bval ds"
proof (induction ds)
  case (Cons d ds)
  have "uint (not d) = 2 ^ 32 - 1 - uint d"
    using u32_bounds [of d] by (simp add: unsigned_not_eq take_bit_not_eq_mask_diff mask_eq_exp_minus_1 take_bit_int_eq_self)
  then show ?case by (simp add: Cons.IH algebra_simps power_add)
qed simp

text \<open>The value of two's complement digits: with the sign bit out of the digits.\<close>

definition tval :: "bool \<Rightarrow> bdigit list \<Rightarrow> int" where
  "tval s ds = (if s then bval ds else bval ds - 2 ^ (32 * length ds))"

lemma bit_tval:
  "bit (tval s ds) k \<longleftrightarrow> (if k div 32 < length ds then bit (ds ! (k div 32)) (k mod 32) else \<not> s)"
proof (cases s)
  case True
  then show ?thesis by (simp add: tval_def bit_bval)
next
  case False
  then have "tval s ds = not (bval (map not ds))" by (simp add: tval_def bval_map_not not_eq_complement)
  with False show ?thesis by (simp add: bit_not_iff bit_bval bit_simps)
qed

lemma comp_loop_correct:
  assumes "uint num \<le> 1"
  shows "bval (comp_loop num ds) = bval ds + uint num
    \<and> length (comp_loop num ds) = length ds + (if bval ds + uint num < 2 ^ (32 * length ds) then 0 else 1)"
  using assms
proof (induction num ds rule: comp_loop.induct)
  case (1 num)
  have "uint num = 0 \<or> uint num = 1" using 1 uint_ge_0 [of num] by linarith
  then show ?case by (auto simp: uint_0_iff)
next
  case (2 num d ds)
  define n where "n = num + ucast d"
  have n: "uint n = uint num + uint d"
    using "2.prems" u32_bounds [of d] unfolding n_def by (subst uint_add_nowrap) simp_all
  have "uint n < 2 * 4294967296" using n "2.prems" u32_bounds [of d] by linarith
  then have b: "uint (BIGDN n) < 2" by (simp add: uint_BIGDN div_less_int)
  have rec: "comp_loop num (d # ds) = BIGLO n # comp_loop (BIGDN n) ds" by (simp add: n_def Let_def)
  from "2.IH" [OF n_def] b have
    IH: "bval (comp_loop (BIGDN n) ds) = bval ds + uint (BIGDN n)"
      "length (comp_loop (BIGDN n) ds) = length ds + (if bval ds + uint (BIGDN n) < 2 ^ (32 * length ds) then 0 else 1)"
    by simp_all
  have val: "bval (d # ds) + uint num = uint (BIGLO n) + 2 ^ 32 * (bval ds + uint (BIGDN n))"
    using BIGLO_BIGDN [of n] n by (simp add: algebra_simps)
  have "bval (d # ds) + uint num < 2 ^ (32 * length (d # ds)) \<longleftrightarrow>
      bval ds + uint (BIGDN n) < 2 ^ (32 * length ds)" (is "?a \<longleftrightarrow> ?b")
  proof
    assume ?b
    then have "bval ds + uint (BIGDN n) + 1 \<le> 2 ^ (32 * length ds)" by simp
    then have "2 ^ 32 * (bval ds + uint (BIGDN n) + 1) \<le> 2 ^ 32 * 2 ^ (32 * length ds)" by (intro mult_left_mono) simp_all
    then show ?a unfolding val using u32_bounds [of "BIGLO n"] by (simp add: power_add algebra_simps)
  next
    assume ?a
    then have "uint (BIGLO n) + 2 ^ 32 * (bval ds + uint (BIGDN n)) < 2 ^ 32 * 2 ^ (32 * length ds)"
      unfolding val by (simp add: power_add)
    with u32_bounds(1) [of "BIGLO n"]
    have "2 ^ 32 * (bval ds + uint (BIGDN n)) < 2 ^ 32 * 2 ^ (32 * length ds)" by linarith
    then show ?b by simp
  qed
  with IH val show ?case unfolding rec by simp
qed

lemma get2comp_digits:
  assumes "big_digits x \<noteq> []"
  shows "bval (big_digits (get2comp x)) = 2 ^ (32 * length (big_digits x)) - bval (big_digits x)"
    and "bval (big_digits x) \<noteq> 0 \<Longrightarrow> length (big_digits (get2comp x)) = length (big_digits x)"
  using comp_loop_correct [of 1 "map not (big_digits x)"] assms bval_nonneg [of "big_digits x"]
  by (simp_all add: get2comp_def bval_map_not)

lemma big_sign_get2comp [simp]: "big_sign (get2comp x) = big_sign x"
  by (simp add: get2comp_def)

abbreviation twos :: "rbignum \<Rightarrow> rbignum" where
  "twos x \<equiv> (if \<not> big_sign x then get2comp x else x)"

lemma tval_twos:
  assumes "big_digits x \<noteq> []" and "sign_ok x"
  shows "tval (big_sign x) (big_digits (twos x)) = big_int x"
    and "length (big_digits (twos x)) = length (big_digits x)"
proof -
  have "bval (big_digits x) \<noteq> 0" if "\<not> big_sign x"
    using assms(2) that by (auto simp: sign_ok_def big_int_def)
  with get2comp_digits [OF assms(1)]
  show "tval (big_sign x) (big_digits (twos x)) = big_int x"
    "length (big_digits (twos x)) = length (big_digits x)"
    by (auto simp: tval_def big_int_def)
qed

lemma is_norm_bit_result:
  assumes "zds \<noteq> []"
  shows "normal_int (bit_result s zds)" and "int_of (bit_result s zds) = tval s zds"
proof -
  have "big_int (twos (mk_big s zds)) = tval s zds"
    using get2comp_digits(1) [of "mk_big s zds"] assms
    by (cases s) (simp_all add: big_int_def tval_def)
  then show "normal_int (bit_result s zds)" "int_of (bit_result s zds) = tval s zds"
    unfolding bit_result_def Let_def by (simp_all add: bignorm_big del: normal_int.simps if_split_asm)
qed

text \<open>Combining digit by digit combines bit by bit; the shorter operand is sign-extended.\<close>

lemma bit_combine:
  assumes len: "length ds1 \<le> length ds2"
    and op: "\<And>a b n. n < 32 \<Longrightarrow> bit (opw a b) n = f (bit a n) (bit b n)"
    and ext: "\<And>d n. n < 32 \<Longrightarrow> bit (g d) n = f (\<not> s1) (bit d n)"
    and s: "(\<not> s) = f (\<not> s1) (\<not> s2)"
  shows "bit (tval s (map2 opw ds1 (take (length ds1) ds2) @ map g (drop (length ds1) ds2))) k
    = f (bit (tval s1 ds1) k) (bit (tval s2 ds2) k)"
  using len by (auto simp: bit_tval nth_append op ext s)

section \<open>And, or, exclusive or, complement\<close>

text \<open>What \<open>bit_operands\<close> hands over: two digit lists with their signs, the shorter one first.\<close>

lemma bit_operands_correct:
  assumes x: "big_digits xx \<noteq> []" "sign_ok xx" and y: "normal_int yy"
  obtains ds1 ds2 s1 s2 where "bit_operands xx yy = ((ds1, ds2, s1), s1, s2) \<or>
      bit_operands xx yy = ((ds1, ds2, s1), s2, s1)"
    and "length ds1 \<le> length ds2" and "ds2 \<noteq> []"
    and "tval s1 ds1 = big_int xx \<and> tval s2 ds2 = int_of yy \<or> tval s1 ds1 = int_of yy \<and> tval s2 ds2 = big_int xx"
proof -
  define b where "b = to_big yy"
  have b: "big_digits b \<noteq> []" "sign_ok b" "big_int b = int_of yy"
    using digits_ok_to_big [OF y] sign_ok_to_big [OF y] by (auto simp: b_def digits_ok_def)
  note tx = tval_twos [OF x] and ty = tval_twos [OF b(1,2), unfolded b(3)]
  show thesis
  proof (cases "length (big_digits (twos b)) < length (big_digits (twos xx))")
    case True
    have eq: "bit_operands xx yy = ((big_digits (twos b), big_digits (twos xx), big_sign b), big_sign xx, big_sign b)"
      using True unfolding bit_operands_def Let_def b_def [symmetric]
      by (cases "big_sign b"; cases "big_sign xx") simp_all
    show thesis
      by (rule that [of "big_digits (twos b)" "big_digits (twos xx)" "big_sign b" "big_sign xx"])
        (use eq True tx ty in auto)
  next
    case False
    have eq: "bit_operands xx yy = ((big_digits (twos xx), big_digits (twos b), big_sign xx), big_sign xx, big_sign b)"
      using False unfolding bit_operands_def Let_def b_def [symmetric]
      by (cases "big_sign b"; cases "big_sign xx") simp_all
    show thesis
      by (rule that [of "big_digits (twos xx)" "big_digits (twos b)" "big_sign xx" "big_sign b"])
        (use eq False tx ty b(1) in auto)
  qed
qed

text \<open>A digit-wise operation that combines and extends correctly computes the operation on integers.\<close>

lemma bit_op_correct:
  assumes len: "length ds1 \<le> length ds2" and ne: "ds2 \<noteq> []"
    and op: "\<And>a b n. n < 32 \<Longrightarrow> bit (opw a b) n = f (bit a n) (bit b n)"
    and ext: "\<And>d n. n < 32 \<Longrightarrow> bit (g d) n = f (\<not> s1) (bit d n)"
    and s: "(\<not> s) = f (\<not> s1) (\<not> s2)"
    and F: "\<And>k. bit F k = f (bit (tval s1 ds1) k) (bit (tval s2 ds2) k)"
  shows "normal_int (bit_result s (map2 opw ds1 (take (length ds1) ds2) @ map g (drop (length ds1) ds2)))
    \<and> int_of (bit_result s (map2 opw ds1 (take (length ds1) ds2) @ map g (drop (length ds1) ds2))) = F"
proof -
  define z where "z = map2 opw ds1 (take (length ds1) ds2) @ map g (drop (length ds1) ds2)"
  have "length z = length ds2" using len by (simp add: z_def)
  then have "z \<noteq> []" using ne by auto
  moreover have "tval s z = F" unfolding z_def by (rule bit_eqI) (simp only: bit_combine [OF len op ext s] F)
  ultimately show ?thesis unfolding z_def [symmetric] by (simp add: is_norm_bit_result del: normal_int.simps)
qed

lemma big_and_correct:
  assumes "big_digits xx \<noteq> []" "sign_ok xx" and "normal_int yy"
  shows "normal_int (big_and xx yy) \<and> int_of (big_and xx yy) = big_int xx AND int_of yy"
proof -
  obtain ds1 ds2 s1 s2 where bo: "bit_operands xx yy = ((ds1, ds2, s1), s1, s2) \<or>
      bit_operands xx yy = ((ds1, ds2, s1), s2, s1)" and l: "length ds1 \<le> length ds2" "ds2 \<noteq> []"
    and v: "tval s1 ds1 = big_int xx \<and> tval s2 ds2 = int_of yy \<or> tval s1 ds1 = int_of yy \<and> tval s2 ds2 = big_int xx"
    by (rule bit_operands_correct [OF assms])
  have eq: "big_and xx yy = bit_result (s1 \<or> s2)
      (map2 (AND) ds1 (take (length ds1) ds2) @ map (\<lambda>d. if s1 then 0 else d) (drop (length ds1) ds2))"
    using bo by (auto simp: big_and_def Let_def disj_commute)
  show ?thesis unfolding eq
    by (rule bit_op_correct [OF l, where f = "(\<and>)" and ?s2.0 = s2]) (use v in \<open>auto simp: bit_and_iff\<close>)
qed

lemma big_or_correct:
  assumes "big_digits xx \<noteq> []" "sign_ok xx" and "normal_int yy"
  shows "normal_int (big_or xx yy) \<and> int_of (big_or xx yy) = big_int xx OR int_of yy"
proof -
  obtain ds1 ds2 s1 s2 where bo: "bit_operands xx yy = ((ds1, ds2, s1), s1, s2) \<or>
      bit_operands xx yy = ((ds1, ds2, s1), s2, s1)" and l: "length ds1 \<le> length ds2" "ds2 \<noteq> []"
    and v: "tval s1 ds1 = big_int xx \<and> tval s2 ds2 = int_of yy \<or> tval s1 ds1 = int_of yy \<and> tval s2 ds2 = big_int xx"
    by (rule bit_operands_correct [OF assms])
  have eq: "big_or xx yy = bit_result (s1 \<and> s2)
      (map2 (OR) ds1 (take (length ds1) ds2) @ map (\<lambda>d. if s1 then d else 2 ^ 32 - 1) (drop (length ds1) ds2))"
    using bo by (auto simp: big_or_def Let_def conj_commute)
  have ones: "bit (2 ^ 32 - 1 :: bdigit) n" if "n < 32" for n
  proof -
    have "(2 ^ 32 - 1 :: bdigit) = - 1" by simp
    with that show ?thesis by (simp only: bit_minus_1_iff possible_bit_word) simp
  qed
  show ?thesis unfolding eq
    by (rule bit_op_correct [OF l, where f = "(\<or>)" and ?s2.0 = s2]) (use v ones in \<open>auto simp: bit_or_iff\<close>)
qed

lemma big_xor_correct:
  assumes "big_digits xx \<noteq> []" "sign_ok xx" and "normal_int yy"
  shows "normal_int (big_xor xx yy) \<and> int_of (big_xor xx yy) = big_int xx XOR int_of yy"
proof -
  obtain ds1 ds2 s1 s2 where bo: "bit_operands xx yy = ((ds1, ds2, s1), s1, s2) \<or>
      bit_operands xx yy = ((ds1, ds2, s1), s2, s1)" and l: "length ds1 \<le> length ds2" "ds2 \<noteq> []"
    and v: "tval s1 ds1 = big_int xx \<and> tval s2 ds2 = int_of yy \<or> tval s1 ds1 = int_of yy \<and> tval s2 ds2 = big_int xx"
    by (rule bit_operands_correct [OF assms])
  have eq: "big_xor xx yy = bit_result (s1 = s2)
      (map2 (XOR) ds1 (take (length ds1) ds2) @ map (\<lambda>d. if s1 then d else not d) (drop (length ds1) ds2))"
    using bo by (cases s1; cases s2) (auto simp: big_xor_def Let_def)
  show ?thesis unfolding eq
    by (rule bit_op_correct [OF l, where f = "(\<noteq>)" and ?s2.0 = s2])
      (use v in \<open>auto simp: bit_xor_iff bit_not_iff possible_bit_def\<close>)
qed

lemma rb_big_neg_correct:
  assumes "big_digits x \<noteq> []" and "sign_ok x"
  shows "normal_int (rb_big_neg x) \<and> int_of (rb_big_neg x) = not (big_int x)"
proof (cases "big_sign x")
  case True
  have eq: "rb_big_neg x = bignorm (VBig (get2comp (mk_big False (map not (big_digits x)))))"
    using assms(1) True by (simp add: rb_big_neg_def Let_def)
  have "big_int (get2comp (mk_big False (map not (big_digits x)))) = not (big_int x)"
    using get2comp_digits(1) [of "mk_big False (map not (big_digits x))"] assms(1) True
    by (simp add: big_int_def bval_map_not not_eq_complement)
  then show ?thesis unfolding eq by (simp add: bignorm_big del: normal_int.simps)
next
  case False
  then have len: "length (big_digits (get2comp x)) = length (big_digits x)"
    using tval_twos(2) [OF assms] by simp
  have eq: "rb_big_neg x = bignorm (VBig (mk_big True (map not (big_digits (get2comp x)))))"
    using assms(1) False len by (simp add: rb_big_neg_def Let_def)
  have "big_int (mk_big True (map not (big_digits (get2comp x)))) = not (big_int x)"
    using get2comp_digits(1) [OF assms(1)] False len
    by (simp add: big_int_def bval_map_not not_eq_complement)
  then show ?thesis unfolding eq by (simp add: bignorm_big del: normal_int.simps)
qed

section \<open>Shifts and bit references\<close>

lemma lshift_loop_shl:
  "s2 \<le> 31 \<Longrightarrow> uint num < 2 ^ s2 \<Longrightarrow>
   lshift_loop s2 num xs = (case shl_loop s2 num xs of (rs, c) \<Rightarrow> rs @ [BIGLO c])"
proof (induction s2 num xs rule: lshift_loop.induct)
  case (2 s2 num x xs)
  have low: "bit num n \<Longrightarrow> n < s2" for n
  proof -
    assume "bit num n"
    moreover have "take_bit s2 num = num"
      using "2.prems"(2) by (simp add: take_word_eq_iff unsigned_take_bit_eq take_bit_int_eq_self)
    ultimately show ?thesis by (metis bit_take_bit_iff)
  qed
  have "num + push_bit s2 (ucast x) = num OR push_bit s2 (ucast x)"
    by (rule disjunctive_add) (auto simp: bit_simps dest: low)
  then have num': "num OR push_bit s2 (ucast x) = num + push_bit s2 (ucast x)" by simp
  obtain rs c where one: "shl_loop s2 num [x] = (rs, c)" by fastforce
  from shl_loop_correct [OF one "2.prems"] one
  have "uint (BIGDN (num + push_bit s2 (ucast x))) < 2 ^ s2" by (auto simp: Let_def)
  with "2.IH" [OF refl] "2.prems"(1)
  have "lshift_loop s2 (BIGDN (num OR push_bit s2 (ucast x))) xs
      = (case shl_loop s2 (BIGDN (num + push_bit s2 (ucast x))) xs of (rs, c) \<Rightarrow> rs @ [BIGLO c])"
    by (simp only: num')
  then show ?case by (simp only: lshift_loop.simps shl_loop.simps Let_def num') (simp split: prod.splits)
qed simp

lemma unat_shift: "unat (s div 32 :: u32) = unat s div 32" "unat (s mod 32 :: u32) = unat s mod 32"
  by (simp_all add: unat_div unat_mod)

lemma big_lshift_correct:
  "normal_int (big_lshift x s) \<and> int_of (big_lshift x s) = push_bit (unat s) (big_int x)"
proof -
  define s1 s2 where "s1 = unat s div 32" and "s2 = unat s mod 32"
  have s: "unat s = 32 * s1 + s2" "s2 \<le> 31" by (simp_all add: s1_def s2_def)
  obtain rs c where shl: "shl_loop s2 0 (big_digits x) = (rs, c)" by fastforce
  from shl_loop_correct [OF shl s(2)]
  have rs: "length rs = length (big_digits x)" "uint c < 2 ^ s2"
    "bval rs + 2 ^ (32 * length (big_digits x)) * uint c = bval (big_digits x) * 2 ^ s2" by simp_all
  have "(2 :: int) ^ s2 \<le> 2 ^ 31" using s(2) by (intro power_increasing) simp_all
  with rs(2) have c: "uint (BIGLO c) = uint c" by (simp add: uint_BIGLO)
  have ll: "lshift_loop s2 0 (big_digits x) = rs @ [BIGLO c]"
    using lshift_loop_shl [OF s(2), of 0 "big_digits x"] shl by simp
  have "bval (replicate s1 0 @ lshift_loop s2 0 (big_digits x)) = bval (big_digits x) * 2 ^ unat s"
    unfolding ll using rs(1,3) by (simp add: bval_append [of "replicate s1 0"] bval_append [of rs] c s(1) power_add mult.assoc)
  then have "big_int (mk_big (big_sign x) (replicate s1 0 @ lshift_loop s2 0 (big_digits x))) = push_bit (unat s) (big_int x)"
    by (simp add: big_int_def push_bit_eq_mult)
  then show ?thesis
    by (simp add: big_lshift_def Let_def unat_shift bignorm_big flip: s1_def s2_def del: normal_int.simps)
qed

lemma tval_drop:
  assumes "k \<le> length ds"
  shows "tval s (drop k ds) = tval s ds div 2 ^ (32 * k)"
proof -
  have "tval s ds = bval (take k ds) + 2 ^ (32 * k) * tval s (drop k ds)"
  proof -
    have "bval ds = bval (take k ds) + 2 ^ (32 * k) * bval (drop k ds)"
      using bval_append [of "take k ds" "drop k ds"] assms by (simp add: min_def)
    moreover have "(2 :: int) ^ (32 * length ds) = 2 ^ (32 * k) * 2 ^ (32 * (length ds - k))"
      using assms by (simp flip: power_add distrib_left)
    ultimately show ?thesis by (simp add: tval_def algebra_simps)
  qed
  moreover have "bval (take k ds) < 2 ^ (32 * k)" using bval_bound [of "take k ds"] assms by (simp add: min.absorb2)
  ultimately show ?thesis using bval_nonneg [of "take k ds"] by simp
qed

lemma tval_shr:
  assumes "s2 \<le> 31"
  shows "tval s (rev (shr_loop s2 (if \<not> s then BIGUP (not 0) else 0) (rev ds))) = tval s ds div 2 ^ s2"
    and "length (shr_loop s2 (if \<not> s then BIGUP (not 0) else 0) (rev ds)) = length ds"
proof -
  define p :: bdigit where "p = (if \<not> s then - 1 else 0)"
  have "BIGUP (not 0) = BIGUP (ucast (- 1 :: bdigit))"
    by (rule bit_word_eqI) (auto simp: BIGUP_def bit_simps)
  then have num: "(if \<not> s then BIGUP (not 0) else 0) = BIGUP (ucast p)" by (simp add: p_def BIGUP_def)
  have shr: "length (shr_loop s2 (BIGUP (ucast p)) (rev ds)) = length ds"
    "bval (rev (shr_loop s2 (BIGUP (ucast p)) (rev ds)))
      = (uint p mod 2 ^ s2 * 2 ^ (32 * length ds) + bval ds) div 2 ^ s2"
    using shr_loop_correct [of s2 p "rev ds"] assms by simp_all
  show "length (shr_loop s2 (if \<not> s then BIGUP (not 0) else 0) (rev ds)) = length ds"
    unfolding num by (rule shr(1))
  show "tval s (rev (shr_loop s2 (if \<not> s then BIGUP (not 0) else 0) (rev ds))) = tval s ds div 2 ^ s2"
  proof (cases s)
    case True
    then show ?thesis unfolding num using shr by (simp add: tval_def p_def)
  next
    case False
    have m: "(4294967295 :: int) mod 2 ^ s2 = 2 ^ s2 - 1"
    proof -
      have "(2 :: int) ^ 32 = 2 ^ s2 * 2 ^ (32 - s2)" using assms by (simp flip: power_add)
      then have "(4294967295 :: int) = 2 ^ s2 - 1 + 2 ^ s2 * (2 ^ (32 - s2) - 1)" by (simp add: algebra_simps)
      also have "\<dots> mod 2 ^ s2 = (2 ^ s2 - 1) mod 2 ^ s2" by (rule mod_mult_self2)
      also have "\<dots> = 2 ^ s2 - 1" by (rule mod_pos_pos_trivial) simp_all
      finally show ?thesis .
    qed
    have "uint p mod 2 ^ s2 * 2 ^ (32 * length ds) + bval ds
        = (bval ds - 2 ^ (32 * length ds)) + 2 ^ (32 * length ds) * 2 ^ s2"
      using False by (simp add: p_def unsigned_minus_1_eq_mask mask_eq_exp_minus_1 m) (simp add: algebra_simps)
    with False shr show ?thesis unfolding num by (simp add: tval_def)
  qed
qed

lemma big_int_div_small:
  assumes "bval (big_digits x) \<le> 2 ^ n" and "sign_ok x" and "big_sign x \<Longrightarrow> bval (big_digits x) < 2 ^ n"
  shows "big_int x div 2 ^ n = (if big_sign x then 0 else - 1)"
proof (cases "big_sign x")
  case True
  with assms bval_nonneg [of "big_digits x"] show ?thesis by (simp add: big_int_def)
next
  case False
  then have "0 < bval (big_digits x)" using assms(2) by (auto simp: sign_ok_def big_int_def)
  then have "(big_int x + 2 ^ n) div 2 ^ n = 0"
    using assms(1) False by (intro div_pos_pos_trivial) (simp_all add: big_int_def)
  moreover have "(big_int x + 2 ^ n) div 2 ^ n = big_int x div 2 ^ n + 1"
    by (rule div_add_self2) simp
  ultimately show ?thesis using False by simp
qed

lemma shifted_out: "normal_int (if s then VFix (LONG2FIX 0) else VFix (LONG2FIX (- 1)))
    \<and> int_of (if s then VFix (LONG2FIX 0) else VFix (LONG2FIX (- 1))) = (if s then 0 else - 1)"
  using INT2FIX_normal [of 0] INT2FIX_normal [of "- 1"]
  by (simp add: fixable_defs del: normal_int.simps int_of.simps)

lemma big_rshift_correct:
  assumes x: "big_digits x \<noteq> []" "sign_ok x"
  shows "normal_int (big_rshift x s) \<and> int_of (big_rshift x s) = drop_bit (unat s) (big_int x)"
proof -
  define s1 s2 where "s1 = unat s div 32" and "s2 = unat s mod 32"
  have s: "unat s = 32 * s1 + s2" "s2 \<le> 31" by (simp_all add: s1_def s2_def)
  define ds where "ds = big_digits (twos x)"
  have ds: "tval (big_sign x) ds = big_int x" "length ds = length (big_digits x)"
    using tval_twos [OF x] by (simp_all add: ds_def)
  have bound: "bval (big_digits x) < 2 ^ (32 * length (big_digits x))" by (rule bval_bound)
  have out: "big_int x div 2 ^ unat s = (if big_sign x then 0 else - 1)" if "length (big_digits x) \<le> s1"
  proof (rule big_int_div_small [OF _ x(2)])
    have "(2 :: int) ^ (32 * length (big_digits x)) \<le> 2 ^ unat s" using that s(1) by (intro power_increasing) simp_all
    then show "bval (big_digits x) \<le> 2 ^ unat s" "bval (big_digits x) < 2 ^ unat s" using bound by linarith+
  qed
  show ?thesis
  proof (cases "length (big_digits x) \<le> s1")
    case True
    then have "big_rshift x s = (if big_sign x then VFix (LONG2FIX 0) else VFix (LONG2FIX (- 1)))"
      using ds(2) by (auto simp: big_rshift_def Let_def unat_shift ds_def simp flip: s1_def)
    with shifted_out [of "big_sign x"] out [OF True] show ?thesis
      by (simp only: drop_bit_eq_div)
  next
    case False
    define zds where "zds = rev (shr_loop s2 (if \<not> big_sign x then BIGUP (not 0) else 0) (rev (drop s1 ds)))"
    have "tval (big_sign x) zds = tval (big_sign x) (drop s1 ds) div 2 ^ s2"
      unfolding zds_def by (rule tval_shr(1) [OF s(2)])
    also have "\<dots> = big_int x div 2 ^ unat s"
      using tval_drop [of s1 ds "big_sign x"] False ds
      by (simp add: zdiv_zmult2_eq [symmetric] s(1) power_add)
    finally have v: "tval (big_sign x) zds = big_int x div 2 ^ unat s" .
    have ne: "zds \<noteq> []"
      using tval_shr(2) [OF s(2), of "big_sign x" "drop s1 ds"] False ds(2)
      by (auto simp: zds_def)
    have j: "(length ds - s1 = 0) = False" "(length (big_digits x) < s1) = False" using False ds(2) by auto
    have sg: "big_sign (twos x) = big_sign x" by simp
    have "big_rshift x s = bit_result (big_sign x) zds"
      by (simp only: big_rshift_def bit_result_def Let_def unat_shift s1_def [symmetric] s2_def [symmetric]
          ds_def [symmetric] sg j if_False zds_def rbignum.select_convs)
    then show ?thesis using is_norm_bit_result [OF ne] v
      by (simp add: drop_bit_eq_div del: normal_int.simps)
  qed
qed

lemma aref_loop_digit:
  "ds \<noteq> [] \<Longrightarrow> BIGLO (aref_loop num ds) = comp_loop num (map not ds) ! (length ds - 1)"
  by (induction num ds rule: aref_loop.induct) (simp_all add: Let_def)

lemma comp_loop_prefix:
  "i < length ds1 \<Longrightarrow> comp_loop num (ds1 @ ds2) ! i = comp_loop num ds1 ! i"
proof (induction ds1 arbitrary: num i)
  case (Cons d ds1)
  then show ?case by (cases i) (simp_all add: Let_def)
qed simp

lemma bit_BIGLO: "bit (BIGLO x) n \<longleftrightarrow> n < 32 \<and> bit x n"
proof -
  have "BIGLO x = ucast (take_bit 32 x)"
    by (simp add: BIGLO_def take_bit_eq_mask mask_eq_exp_minus_1)
  then show ?thesis by (auto simp: bit_simps)
qed

lemma aref_bit_correct:
  assumes x: "big_digits x \<noteq> []" "sign_ok x"
  shows "aref_bit x s \<longleftrightarrow> bit (big_int x) (unat s)"
proof -
  define s1 s2 where "s1 = unat s div 32" and "s2 = unat s mod 32"
  define xds where "xds = big_digits x"
  define ds where "ds = big_digits (twos x)"
  have ds: "tval (big_sign x) ds = big_int x" "length ds = length xds"
    using tval_twos [OF x] by (simp_all add: ds_def xds_def)
  have bit: "bit (big_int x) (unat s) \<longleftrightarrow> (if s1 < length xds then bit (ds ! s1) s2 else \<not> big_sign x)"
    unfolding ds(1) [symmetric] bit_tval ds(2) by (simp add: s1_def s2_def)
  show ?thesis
  proof (cases "s1 < length xds")
    case False
    then show ?thesis unfolding bit by (simp add: aref_bit_def Let_def unat_shift xds_def flip: s1_def)
  next
    case True
    define num where "num = (if \<not> big_sign x then aref_loop 1 (take (Suc s1) xds) else ucast (xds ! s1))"
    have "BIGLO num = ds ! s1"
    proof (cases "big_sign x")
      case True
      then show ?thesis by (simp add: num_def ds_def xds_def BIGLO_ucast)
    next
      case False
      have "BIGLO num = comp_loop 1 (map not (take (Suc s1) xds)) ! s1"
        using aref_loop_digit [of "take (Suc s1) xds" 1] False True by (cases xds) (auto simp: num_def min_absorb2)
      also have "\<dots> = comp_loop 1 (map not (take (Suc s1) xds) @ map not (drop (Suc s1) xds)) ! s1"
        using True by (intro comp_loop_prefix [symmetric]) simp
      also have "\<dots> = ds ! s1"
        using False x(1) by (simp add: ds_def get2comp_def xds_def flip: map_append)
      finally show ?thesis .
    qed
    moreover have "s2 < 32" by (simp add: s2_def)
    then have "num AND push_bit s2 1 \<noteq> 0 \<longleftrightarrow> bit (BIGLO num) s2"
      by (simp only: bit_BIGLO bit_iff_and_push_bit_not_eq_0 [symmetric] simp_thms)
    moreover have "(length xds \<le> s1) = False" using True by simp
    ultimately show ?thesis unfolding bit if_P [OF True]
      by (simp only: aref_bit_def Let_def unat_shift s1_def [symmetric] s2_def [symmetric]
          xds_def [symmetric] if_False num_def)
  qed
qed

section \<open>The methods\<close>

text \<open>
  A Ruby shift by a negative amount goes the other way.  The shift amount of a \<open>Bignum\<close> operand
  is decided by its number of digits alone, so the receiver must fit the address space.
\<close>

definition shift_spec :: "int \<Rightarrow> int \<Rightarrow> int" where
  "shift_spec x i = (if 0 \<le> i then push_bit (nat i) x else drop_bit (nat (- i)) x)"

definition fits_memory :: "rbignum \<Rightarrow> bool" where
  "fits_memory x \<longleftrightarrow> length (big_digits x) \<le> 2 ^ 27"

lemma beyond_memory:
  assumes "sign_ok x" and "fits_memory x" and "2 ^ 32 \<le> i"
  shows "drop_bit (nat i) (big_int x) = (if big_sign x then 0 else - 1)"
    and "bit (big_int x) (nat i) = (\<not> big_sign x)"
proof -
  have "32 * length (big_digits x) \<le> nat i" using assms(2,3) by (simp add: fits_memory_def)
  then have "(2 :: int) ^ (32 * length (big_digits x)) \<le> 2 ^ nat i" by (intro power_increasing) simp_all
  then have "bval (big_digits x) < 2 ^ nat i" using bval_bound [of "big_digits x"] by linarith
  with big_int_div_small [OF _ assms(1), of "nat i"]
  show d: "drop_bit (nat i) (big_int x) = (if big_sign x then 0 else - 1)" by (simp add: drop_bit_eq_div)
  have "bit (big_int x) (nat i) = bit (drop_bit (nat i) (big_int x)) 0" by (simp add: bit_drop_bit_eq)
  then show "bit (big_int x) (nat i) = (\<not> big_sign x)" unfolding d by simp
qed

lemma normal_big_digits:
  assumes "normal_int (VBig b)" and "\<not> 1 < length (big_digits b)"
  shows "\<exists>n. big2ulong b True = Inr n \<and> uint n = \<bar>big_int b\<bar>"
proof -
  from assms have ok: "digits_ok (big_digits b)" by simp
  have "\<bar>big_int b\<bar> < 2 ^ 32"
  proof -
    have "(2 :: int) ^ (32 * length (big_digits b)) \<le> 2 ^ 32" using assms(2) by (intro power_increasing) simp_all
    with bval_bound [of "big_digits b"] have "bval (big_digits b) < 2 ^ 32" by linarith
    with bval_nonneg [of "big_digits b"] show ?thesis by (simp add: big_int_def)
  qed
  with big2ulong_ok [OF ok] show ?thesis by (auto split: sum.splits)
qed

lemma normal_big_long:
  assumes "normal_int (VBig b)" and "1 < length (big_digits b)"
  shows "2 ^ 32 \<le> \<bar>big_int b\<bar>" and "big2ulong b True = Inl RangeError"
proof -
  from assms have ok: "digits_ok (big_digits b)" by simp
  show "2 ^ 32 \<le> \<bar>big_int b\<bar>" using bval_ge_length [OF ok assms(2)] by (simp add: big_int_def)
  show "big2ulong b True = Inl RangeError" using assms(2) by (simp add: big2ulong_def DIGSPERLONG_def)
qed

lemma nat_of_sint: "0 \<le> sint (n :: u32) \<Longrightarrow> unat n = nat (sint n)"
proof -
  assume "0 \<le> sint n"
  then have "sint n = uint n" using u32_bounds [of n] by (simp add: sint_of_uint_u32 split: if_splits)
  then show ?thesis by simp
qed

lemma lshift_int_correct:
  assumes x: "big_digits x \<noteq> []" "sign_ok x" "fits_memory x" and y: "normal_int y"
  shows "if int_of y < 2 ^ 32 then \<exists>v. lshift_int x y = Inr v \<and> normal_int v \<and> int_of v = shift_spec (big_int x) (int_of y)
    else lshift_int x y = Inl RangeError"
proof (cases y)
  case (VFix w)
  have small: "int_of y < 2 ^ 32" using y VFix by (auto simp: FIX2LONG_LONG2FIX fixable_defs)
  show ?thesis
  proof (cases "sint (FIX2LONG w) < 0")
    case True
    then have "unat (- FIX2LONG w) = nat (- int_of y)"
      using sint_fix_neg [of w] nat_of_sint [of "- FIX2LONG w"] y VFix by simp
    with True VFix small big_rshift_correct [OF x(1,2), of "- FIX2LONG w"] show ?thesis
      by (simp add: lshift_int_def shift_spec_def del: normal_int.simps)
  next
    case False
    with VFix small nat_of_sint [of "FIX2LONG w"] big_lshift_correct [of x "FIX2LONG w"] show ?thesis
      by (simp add: lshift_int_def shift_spec_def del: normal_int.simps)
  qed
next
  case (VBig b)
  have sg: "big_sign b \<longleftrightarrow> 0 < int_of y" using normal_big_sign(1) [of b] y VBig by simp
  show ?thesis
  proof (cases "1 < length (big_digits b)")
    case True
    note long = normal_big_long [OF _ True] 
    show ?thesis
    proof (cases "big_sign b")
      case s: True
      with VBig y long sg show ?thesis by (auto simp: lshift_int_def)
    next
      case s: False
      with True x(1) have "lshift_int x y = Inr (if big_sign x then VFix (LONG2FIX 0) else VFix (LONG2FIX (- 1)))"
        by (simp add: lshift_int_def VBig check_shiftdown_def)
      moreover have "2 ^ 32 \<le> - int_of y" using long(1) sg s y VBig by simp
      ultimately show ?thesis using shifted_out [of "big_sign x"] beyond_memory(1) [OF x(2,3), of "- int_of y"]
        by (auto simp: shift_spec_def simp del: normal_int.simps int_of.simps)
    qed
  next
    case False
    from normal_big_digits [OF _ False] y VBig obtain n where
      n: "big2ulong b True = Inr n" "uint n = \<bar>int_of y\<bar>" by auto
    have un: "unat n = nat \<bar>int_of y\<bar>" using n(2) by (simp add: unat_eq_nat_uint)
    have small: "int_of y < 2 ^ 32" using n(2) u32_bounds [of n] by simp
    have "check_shiftdown b x = None" using False x(1) by (simp add: check_shiftdown_def)
    with n(1) have "lshift_int x y = Inr (if \<not> big_sign b then big_rshift x n else big_lshift x n)"
      by (simp add: lshift_int_def VBig)
    with un small sg big_rshift_correct [OF x(1,2), of n] big_lshift_correct [of x n] show ?thesis
      by (auto simp: shift_spec_def simp del: normal_int.simps int_of.simps)
  qed
qed

lemma rshift_int_correct:
  assumes x: "big_digits x \<noteq> []" "sign_ok x" "fits_memory x" and y: "normal_int y"
  shows "if - (2 ^ 32) < int_of y then \<exists>v. rshift_int x y = Inr v \<and> normal_int v \<and> int_of v = shift_spec (big_int x) (- int_of y)
    else rshift_int x y = Inl RangeError"
proof (cases y)
  case (VFix w)
  have small: "- (2 ^ 32) < int_of y" using y VFix by (auto simp: FIX2LONG_LONG2FIX fixable_defs)
  show ?thesis
  proof (cases "sint (FIX2LONG w) < 0")
    case True
    then have "unat (- FIX2LONG w) = nat (- int_of y)"
      using sint_fix_neg [of w] nat_of_sint [of "- FIX2LONG w"] y VFix by simp
    with True VFix small big_lshift_correct [of x "- FIX2LONG w"] show ?thesis
      by (simp add: rshift_int_def shift_spec_def del: normal_int.simps)
  next
    case False
    with VFix small nat_of_sint [of "FIX2LONG w"] big_rshift_correct [OF x(1,2), of "FIX2LONG w"] show ?thesis
      by (auto simp: rshift_int_def shift_spec_def simp del: normal_int.simps)
  qed
next
  case (VBig b)
  have sg: "big_sign b \<longleftrightarrow> 0 < int_of y" and nz: "int_of y \<noteq> 0"
    using normal_big_sign(1) [of b] y VBig by (auto simp: fixable_defs)
  show ?thesis
  proof (cases "1 < length (big_digits b)")
    case True
    note long = normal_big_long [OF _ True]
    show ?thesis
    proof (cases "big_sign b")
      case s: False
      with VBig y long sg show ?thesis by (auto simp: rshift_int_def)
    next
      case s: True
      with True x(1) have "rshift_int x y = Inr (if big_sign x then VFix (LONG2FIX 0) else VFix (LONG2FIX (- 1)))"
        by (simp add: rshift_int_def VBig check_shiftdown_def)
      moreover have "2 ^ 32 \<le> int_of y" using long(1) sg s y VBig by simp
      ultimately show ?thesis using shifted_out [of "big_sign x"] beyond_memory(1) [OF x(2,3), of "int_of y"]
        by (auto simp: shift_spec_def simp del: normal_int.simps int_of.simps)
    qed
  next
    case False
    from normal_big_digits [OF _ False] y VBig obtain n where
      n: "big2ulong b True = Inr n" "uint n = \<bar>int_of y\<bar>" by auto
    have un: "unat n = nat \<bar>int_of y\<bar>" using n(2) by (simp add: unat_eq_nat_uint)
    have small: "- (2 ^ 32) < int_of y" using n(2) u32_bounds [of n] by simp
    have "check_shiftdown b x = None" using False x(1) by (simp add: check_shiftdown_def)
    with n(1) have "rshift_int x y = Inr (if \<not> big_sign b then big_lshift x n else big_rshift x n)"
      by (simp add: rshift_int_def VBig)
    with un small sg nz big_rshift_correct [OF x(1,2), of n] big_lshift_correct [of x n] show ?thesis
      by (auto simp: shift_spec_def simp del: normal_int.simps int_of.simps)
  qed
qed

lemma bigtrunc_ok: "digits_ok (big_digits b) \<Longrightarrow> bigtrunc b = b"
  by (auto simp: bigtrunc_def trunc_digits.simps [of "big_digits b"] digits_ok_def)

lemma rb_big_aref_correct:
  assumes x: "big_digits x \<noteq> []" "sign_ok x" "fits_memory x" and y: "normal_int y"
  shows "rb_big_aref env x (RInt y) = Inr (INT2FIX (of_bool (0 \<le> int_of y \<and> bit (big_int x) (nat (int_of y)))))"
proof (cases y)
  case (VFix w)
  show ?thesis
  proof (cases "sint (FIX2LONG w) < 0")
    case True
    with VFix show ?thesis by (simp add: rb_big_aref_def rb_num2long_def)
  next
    case False
    with VFix nat_of_sint [of "FIX2LONG w"] show ?thesis
      by (simp add: rb_big_aref_def rb_num2long_def aref_bit_correct [OF x(1,2)])
  qed
next
  case (VBig b)
  have sg: "big_sign b \<longleftrightarrow> 0 < int_of y" and nz: "int_of y \<noteq> 0" and tr: "bigtrunc b = b"
    using normal_big_sign(1) [of b] y VBig by (auto simp: fixable_defs bigtrunc_ok)
  show ?thesis
  proof (cases "big_sign b")
    case s: False
    with VBig sg nz show ?thesis by (simp add: rb_big_aref_def)
  next
    case s: True
    with sg have pos: "0 < int_of y" by simp
    show ?thesis
    proof (cases "1 < length (big_digits b)")
      case True
      have "2 ^ 32 \<le> int_of y" using normal_big_long(1) [OF _ True] y VBig pos by simp
      from beyond_memory(2) [OF x(2,3) this] pos
      have "0 \<le> int_of y \<and> bit (big_int x) (nat (int_of y)) \<longleftrightarrow> \<not> big_sign x" by simp
      then show ?thesis using True s VBig tr by (simp only: rb_big_aref_def) simp
    next
      case False
      from normal_big_digits [OF _ False] y VBig obtain n where
        n: "big2ulong b True = Inr n" "uint n = \<bar>int_of y\<bar>" by auto
      have "unat n = nat (int_of y)" using n(2) pos by (simp add: unat_eq_nat_uint)
      moreover have "big2ulong b False = Inr n" using n(1) False by (simp add: big2ulong_def DIGSPERLONG_def Let_def split: if_splits)
      ultimately show ?thesis using s tr False pos VBig
        by (simp add: rb_big_aref_def aref_bit_correct [OF x(1,2)])
    qed
  qed
qed

end
