(* ===== verification/Numeric.thy ===== *)
theory Numeric
  imports BigBits
begin

text \<open>
  The methods of \<open>Fixnum\<close> and \<open>Integer\<close> of \<open>lib/ruby/numeric.c\<close>.  A fixnum receiver is the tagged
  word \<open>x\<close> itself; each method dispatches on its operand as the code does, and passes a \<open>Bignum\<close>
  operand on to the routines of \<open>bignum.c\<close>.  Signed overflow of a C \<open>long\<close>, where the code
  tests for it after the fact (\<open>int_pow\<close>), wraps around.
\<close>

section \<open>Division and remainder of C\<close>

definition c_div :: "u32 \<Rightarrow> u32 \<Rightarrow> u32" where
  "c_div a b = word_of_int (trunc_div (sint a) (sint b))"

definition c_mod :: "u32 \<Rightarrow> u32 \<Rightarrow> u32" where
  "c_mod a b = word_of_int (trunc_mod (sint a) (sint b))"

section \<open>Sums, differences and products\<close>

definition fix_plus :: "('f, 'o) rb_env \<Rightarrow> u32 \<Rightarrow> ('f, 'o) rb_value \<Rightarrow> ('f, 'o) rb_result" where
  "fix_plus env x y =
     (case y of
        RInt (VFix w) \<Rightarrow>
          let a = FIX2LONG x; b = FIX2LONG w; c = a + b in Inr (RInt (rb_int2inum c))
      | RInt (VBig b) \<Rightarrow> rb_big_plus env b (RInt (VFix x))
      | RFloat f \<Rightarrow> Inr (RFloat (dbl_plus env (dbl_of_long env (FIX2LONG x)) f))
      | _ \<Rightarrow> coerce_bin env ''+'' (RInt (VFix x)) y)"

definition fix_minus :: "('f, 'o) rb_env \<Rightarrow> u32 \<Rightarrow> ('f, 'o) rb_value \<Rightarrow> ('f, 'o) rb_result" where
  "fix_minus env x y =
     (case y of
        RInt (VFix w) \<Rightarrow>
          let a = FIX2LONG x; b = FIX2LONG w; c = a - b in Inr (RInt (rb_int2inum c))
      | RInt (VBig b) \<Rightarrow> rb_big_minus env (rb_int2big (FIX2LONG x)) y
      | RFloat f \<Rightarrow> Inr (RFloat (dbl_minus env (dbl_of_long env (FIX2LONG x)) f))
      | _ \<Rightarrow> coerce_bin env ''-'' (RInt (VFix x)) y)"

text \<open>The branch of the target: a \<open>VALUE\<close> has half the width of a \<open>LONG_LONG\<close>.\<close>

definition fix_mul ::
  "('f, 'o) rb_env \<Rightarrow> (nat \<Rightarrow> bool) \<Rightarrow> u32 \<Rightarrow> ('f, 'o) rb_value \<Rightarrow> ('f, 'o) rb_result" where
  "fix_mul env stop x y =
     (case y of
        RInt (VFix w) \<Rightarrow>
          let a = FIX2LONG x; b = FIX2LONG w; d = (scast a :: u64) * scast b
          in if FIXABLE (sint d) then Inr (RInt (VFix (LONG2FIX (ucast d))))
             else Inr (RInt (rb_ll2inum d))
      | RInt (VBig b) \<Rightarrow> rb_big_mul env stop b (RInt (VFix x))
      | RFloat f \<Rightarrow> Inr (RFloat (dbl_times env (dbl_of_long env (FIX2LONG x)) f))
      | _ \<Rightarrow> coerce_bin env ''*'' (RInt (VFix x)) y)"

definition fix_uminus :: "u32 \<Rightarrow> rb_int" where
  "fix_uminus num = rb_int2inum (- FIX2LONG num)"

definition fix_abs :: "u32 \<Rightarrow> rb_int" where
  "fix_abs fx = (let i = FIX2LONG fx; i = (if sint i < 0 then - i else i) in rb_int2inum i)"

definition fix_succ :: "u32 \<Rightarrow> rb_int" where
  "fix_succ num = (let i = FIX2LONG num + 1 in rb_int2inum i)"

definition fix_zero_p :: "u32 \<Rightarrow> bool" where
  "fix_zero_p num = (FIX2LONG num = 0)"

definition fix_odd_p :: "u32 \<Rightarrow> bool" where
  "fix_odd_p num = (num AND 2 \<noteq> 0)"

definition fix_even_p :: "u32 \<Rightarrow> bool" where
  "fix_even_p num = (if num AND 2 \<noteq> 0 then False else True)"

definition fix_size :: "u32 \<Rightarrow> ('f, 'o) rb_value" where
  "fix_size fx = INT2FIX 4"

definition fix_to_f :: "('f, 'o) rb_env \<Rightarrow> u32 \<Rightarrow> ('f, 'o) rb_value" where
  "fix_to_f env num = (let val = dbl_of_long env (FIX2LONG num) in RFloat val)"

section \<open>Division\<close>

definition fixdivmod :: "u32 \<Rightarrow> u32 \<Rightarrow> rb_error + u32 \<times> u32" where
  "fixdivmod x y =
     (if y = 0 then Inl ZeroDivError
      else
        let d = (if sint y < 0
                 then (if sint x < 0 then c_div (- x) (- y) else - c_div x (- y))
                 else (if sint x < 0 then - c_div (- x) y else c_div x y));
            m = x - d * y
        in if sint m < 0 \<and> 0 < sint y \<or> 0 < sint m \<and> sint y < 0
           then Inr (d - 1, m + y) else Inr (d, m))"

definition flodivmod :: "('f, 'o) rb_env \<Rightarrow> 'f \<Rightarrow> 'f \<Rightarrow> 'f \<times> 'f" where
  "flodivmod env x y =
     (let m = dbl_fmod env x y;
          d = (if dbl_isinf env x \<and> \<not> dbl_isinf env y \<and> \<not> dbl_isnan env y then x
               else dbl_div env (dbl_minus env x m) y)
      in if dbl_lt env (dbl_times env y m) (dbl_of_long env 0)
         then (dbl_minus env d (dbl_of_long env 1), dbl_plus env m y) else (d, m))"

definition dbl2ival :: "('f, 'o) rb_env \<Rightarrow> 'f \<Rightarrow> ('f, 'o) rb_result" where
  "dbl2ival env d =
     (if dbl_lt env d (dbl_of_long env (word_of_int (FIXNUM_MAX + 1)))
         \<and> dbl_ge env d (dbl_of_long env (word_of_int FIXNUM_MIN))
      then Inr (RInt (VFix (LONG2FIX (dbl_to_long env (dbl_round env d)))))
      else if dbl_isnan env d \<or> dbl_isinf env d then Inr (RFloat d)
      else map_sum id RInt (rb_dbl2big env d))"

definition fix_fdiv :: "('f, 'o) rb_env \<Rightarrow> u32 \<Rightarrow> ('f, 'o) rb_value \<Rightarrow> ('f, 'o) rb_result" where
  "fix_fdiv env x y =
     (case y of
        RInt (VFix w) \<Rightarrow>
          Inr (RFloat (dbl_div env (dbl_of_long env (FIX2LONG x)) (dbl_of_long env (FIX2LONG w))))
      | RInt (VBig b) \<Rightarrow> Inr (RFloat (dbl_div env (dbl_of_long env (FIX2LONG x)) (rb_big2dbl env b)))
      | RFloat f \<Rightarrow> Inr (RFloat (dbl_div env (dbl_of_long env (FIX2LONG x)) f))
      | _ \<Rightarrow> coerce_bin env ''fdiv'' (RInt (VFix x)) y)"

definition fix_divide :: "('f, 'o) rb_env \<Rightarrow> (nat \<Rightarrow> bool) \<Rightarrow> u32 \<Rightarrow> ('f, 'o) rb_value \<Rightarrow> string \<Rightarrow>
    ('f, 'o) rb_result option" where
  "fix_divide env stop x y op =
     (case y of
        RInt (VFix w) \<Rightarrow>
          Some (map_sum id (\<lambda>(d, m). RInt (rb_int2inum d)) (fixdivmod (FIX2LONG x) (FIX2LONG w)))
      | RInt (VBig b) \<Rightarrow> rb_big_div env stop (rb_int2big (FIX2LONG x)) y
      | RFloat f \<Rightarrow>
          if op = ''/'' then Some (Inr (RFloat (dbl_div env (dbl_of_long env (FIX2LONG x)) f)))
          else if dbl_eq env f (dbl_of_long env 0) then Some (Inl ZeroDivError)
          else
            let d = dbl_div env (dbl_of_long env (FIX2LONG x)) f
            in Some (map_sum id RInt (rb_dbl2big env (dbl_floor env d)))
      | _ \<Rightarrow> Some (coerce_bin env op (RInt (VFix x)) y))"

definition fix_div :: "('f, 'o) rb_env \<Rightarrow> (nat \<Rightarrow> bool) \<Rightarrow> u32 \<Rightarrow> ('f, 'o) rb_value \<Rightarrow> ('f, 'o) rb_result option" where
  "fix_div env stop x y = fix_divide env stop x y ''/''"

definition fix_idiv :: "('f, 'o) rb_env \<Rightarrow> (nat \<Rightarrow> bool) \<Rightarrow> u32 \<Rightarrow> ('f, 'o) rb_value \<Rightarrow> ('f, 'o) rb_result option" where
  "fix_idiv env stop x y = fix_divide env stop x y ''div''"

definition fix_mod :: "('f, 'o) rb_env \<Rightarrow> (nat \<Rightarrow> bool) \<Rightarrow> u32 \<Rightarrow> ('f, 'o) rb_value \<Rightarrow> ('f, 'o) rb_result option" where
  "fix_mod env stop x y =
     (case y of
        RInt (VFix w) \<Rightarrow>
          Some (map_sum id (\<lambda>(d, m). RInt (rb_int2inum m)) (fixdivmod (FIX2LONG x) (FIX2LONG w)))
      | RInt (VBig b) \<Rightarrow> rb_big_modulo env stop (rb_int2big (FIX2LONG x)) y
      | RFloat f \<Rightarrow> Some (Inr (RFloat (snd (flodivmod env (dbl_of_long env (FIX2LONG x)) f))))
      | _ \<Rightarrow> Some (coerce_bin env ''%'' (RInt (VFix x)) y))"

definition fix_divmod :: "('f, 'o) rb_env \<Rightarrow> (nat \<Rightarrow> bool) \<Rightarrow> u32 \<Rightarrow> ('f, 'o) rb_value \<Rightarrow> ('f, 'o) rb_result option" where
  "fix_divmod env stop x y =
     (case y of
        RInt (VFix w) \<Rightarrow>
          Some (map_sum id (\<lambda>(d, m). RPair (RInt (rb_int2inum d)) (RInt (rb_int2inum m)))
            (fixdivmod (FIX2LONG x) (FIX2LONG w)))
      | RInt (VBig b) \<Rightarrow> rb_big_divmod env stop (rb_int2big (FIX2LONG x)) y
      | RFloat f \<Rightarrow>
          (case flodivmod env (dbl_of_long env (FIX2LONG x)) f of
             (d, m) \<Rightarrow> Some (map_sum id (\<lambda>a. RPair a (RFloat m)) (dbl2ival env d)))
      | _ \<Rightarrow> Some (coerce_bin env ''divmod'' (RInt (VFix x)) y))"

section \<open>Powers\<close>

definition SQRT_LONG_MAX :: int where
  "SQRT_LONG_MAX = push_bit ((32 - 1) div 2) 1"

definition FIT_SQRT_LONG :: "int \<Rightarrow> bool" where
  "FIT_SQRT_LONG n \<longleftrightarrow> n < SQRT_LONG_MAX \<and> - SQRT_LONG_MAX \<le> n"

text \<open>The label \<open>bignum:\<close> of \<open>int_pow\<close>.\<close>

definition int_pow_big :: "('f, 'o) rb_env \<Rightarrow> (nat \<Rightarrow> bool) \<Rightarrow> bool \<Rightarrow> u32 \<Rightarrow> u32 \<Rightarrow> u32 \<Rightarrow>
    ('f, 'o) rb_result option" where
  "int_pow_big env stop neg x y z =
     (case rb_big_pow env stop (rb_int2big x) (RInt (rb_int2inum y)) of
        Some (Inr v) \<Rightarrow>
          if z \<noteq> 1 then Some (rb_big_mul env stop (rb_int2big (if neg then - z else z)) v)
          else Some (Inr v)
      | r \<Rightarrow> r)"

text \<open>
  The two nested loops, one step per test: \<open>while (y % 2 == 0)\<close> squares, else \<open>z\<close> takes a factor
  and \<open>while (--y)\<close> decides.  With \<open>y = 0\<close> the squaring goes on until \<open>x\<close> is too large.
\<close>

partial_function (option) int_pow_loop :: "('f, 'o) rb_env \<Rightarrow> (nat \<Rightarrow> bool) \<Rightarrow> bool \<Rightarrow> u32 \<Rightarrow> u32 \<Rightarrow> u32 \<Rightarrow>
    ('f, 'o) rb_result option" where
  "int_pow_loop env stop neg x y z =
     (if y mod 2 = 0 then
        if \<not> FIT_SQRT_LONG (sint x) then int_pow_big env stop neg x y z
        else int_pow_loop env stop neg (x * x) (drop_bit 1 y) z
      else
        let xz = x * z in
        if \<not> POSFIXABLE (sint xz) \<or> c_div xz x \<noteq> z then int_pow_big env stop neg x y z
        else if y - 1 \<noteq> 0 then int_pow_loop env stop neg x (y - 1) xz
        else Some (Inr (RInt (rb_int2inum (if neg then - xz else xz)))))"

declare int_pow_loop.simps [code]

definition int_pow :: "('f, 'o) rb_env \<Rightarrow> (nat \<Rightarrow> bool) \<Rightarrow> u32 \<Rightarrow> u32 \<Rightarrow> ('f, 'o) rb_result option" where
  "int_pow env stop x y =
     (let neg = sint x < 0;
          x' = (if neg then - x else x);
          z = (if y AND 1 \<noteq> 0 then x' else 1);
          neg' = (if y AND 1 \<noteq> 0 then neg else False)
      in int_pow_loop env stop neg' x' (y AND NOT 1) z)"

text \<open>\<open>Bignum#<\<close> against zero and \<open>int_even_p\<close>, as \<open>rb_funcall\<close> reaches them.\<close>

definition big_lt_zero :: "rbignum \<Rightarrow> bool" where
  "big_lt_zero b \<longleftrightarrow> big_cmp_big b (to_big (VFix (LONG2FIX 0))) < 0"

definition int_even_big :: "('f, 'o) rb_env \<Rightarrow> (nat \<Rightarrow> bool) \<Rightarrow> rbignum \<Rightarrow> (rb_error + bool) option" where
  "int_even_big env stop b =
     map_option (map_sum id (\<lambda>r. r = INT2FIX 0)) (rb_big_modulo env stop b (INT2FIX 2))"

definition fix_pow :: "('f, 'o) rb_env \<Rightarrow> (nat \<Rightarrow> bool) \<Rightarrow> u32 \<Rightarrow> ('f, 'o) rb_value \<Rightarrow> ('f, 'o) rb_result option" where
  "fix_pow env stop x y =
     (let a = FIX2LONG x in
      case y of
        RInt (VFix w) \<Rightarrow>
          let b = FIX2LONG w in
          if sint b < 0 then Some (rational_pow env (VFix x) (VFix w))
          else if b = 0 then Some (Inr (INT2FIX 1))
          else if b = 1 then Some (Inr (RInt (VFix x)))
          else if a = 0 then
            (if 0 < sint b then Some (Inr (INT2FIX 0))
             else Some (Inr (RFloat (dbl_div env (dbl_of_long env 1) (dbl_of_long env 0)))))
          else if a = 1 then Some (Inr (INT2FIX 1))
          else if a = - 1 then
            (if c_mod b 2 = 0 then Some (Inr (INT2FIX 1)) else Some (Inr (INT2FIX (- 1))))
          else int_pow env stop a b
      | RInt (VBig b) \<Rightarrow>
          if big_lt_zero b then Some (rational_pow env (VFix x) (VBig b))
          else if a = 0 then Some (Inr (INT2FIX 0))
          else if a = 1 then Some (Inr (INT2FIX 1))
          else if a = - 1 then
            map_option (map_sum id (\<lambda>even. if even then INT2FIX 1 else INT2FIX (- 1)))
              (int_even_big env stop b)
          else rb_big_pow env stop (rb_int2big (FIX2LONG x)) y
      | RFloat f \<Rightarrow>
          Some (Inr (RFloat
            (if dbl_eq env f (dbl_of_long env 0) then dbl_of_long env 1
             else if a = 0 then
               (if dbl_lt env f (dbl_of_long env 0)
                then dbl_div env (dbl_of_long env 1) (dbl_of_long env 0) else dbl_of_long env 0)
             else if a = 1 then dbl_of_long env 1
             else dbl_pow env (dbl_of_long env a) f)))
      | _ \<Rightarrow> Some (coerce_bin env ''**'' (RInt (VFix x)) y))"

section \<open>Comparison\<close>

definition fix_equal :: "('f, 'o) rb_env \<Rightarrow> u32 \<Rightarrow> ('f, 'o) rb_value \<Rightarrow> bool" where
  "fix_equal env x y =
     (case y of
        RInt (VFix w) \<Rightarrow> if x = w then True else False
      | RInt (VBig b) \<Rightarrow> rb_big_eq env b (RInt (VFix x))
      | RFloat f \<Rightarrow> dbl_eq env (dbl_of_long env (FIX2LONG x)) f
      | _ \<Rightarrow> rb_equal env y (RInt (VFix x)))"

definition fix_cmp :: "('f, 'o) rb_env \<Rightarrow> u32 \<Rightarrow> ('f, 'o) rb_value \<Rightarrow> ('f, 'o) rb_result" where
  "fix_cmp env x y =
     (case y of
        RInt (VFix w) \<Rightarrow>
          if x = w then Inr (INT2FIX 0)
          else if sint (FIX2LONG w) < sint (FIX2LONG x) then Inr (INT2FIX 1)
          else Inr (INT2FIX (- 1))
      | RInt (VBig b) \<Rightarrow> rb_big_cmp env (rb_int2big (FIX2LONG x)) y
      | RFloat f \<Rightarrow> Inr (rb_dbl_cmp env (dbl_of_long env (FIX2LONG x)) f)
      | _ \<Rightarrow> coerce_cmp env ''<=>'' (RInt (VFix x)) y)"

definition fix_gt :: "('f, 'o) rb_env \<Rightarrow> u32 \<Rightarrow> ('f, 'o) rb_value \<Rightarrow> ('f, 'o) rb_result" where
  "fix_gt env x y =
     (case y of
        RInt (VFix w) \<Rightarrow> Inr (RBool (sint (FIX2LONG w) < sint (FIX2LONG x)))
      | RInt (VBig b) \<Rightarrow> Inr (RBool (0 < big_cmp_big (rb_int2big (FIX2LONG x)) b))
      | RFloat f \<Rightarrow> Inr (RBool (dbl_gt env (dbl_of_long env (FIX2LONG x)) f))
      | _ \<Rightarrow> coerce_relop env ''>'' (RInt (VFix x)) y)"

definition fix_ge :: "('f, 'o) rb_env \<Rightarrow> u32 \<Rightarrow> ('f, 'o) rb_value \<Rightarrow> ('f, 'o) rb_result" where
  "fix_ge env x y =
     (case y of
        RInt (VFix w) \<Rightarrow> Inr (RBool (sint (FIX2LONG w) \<le> sint (FIX2LONG x)))
      | RInt (VBig b) \<Rightarrow> Inr (RBool (0 \<le> big_cmp_big (rb_int2big (FIX2LONG x)) b))
      | RFloat f \<Rightarrow> Inr (RBool (dbl_ge env (dbl_of_long env (FIX2LONG x)) f))
      | _ \<Rightarrow> coerce_relop env ''>='' (RInt (VFix x)) y)"

definition fix_lt :: "('f, 'o) rb_env \<Rightarrow> u32 \<Rightarrow> ('f, 'o) rb_value \<Rightarrow> ('f, 'o) rb_result" where
  "fix_lt env x y =
     (case y of
        RInt (VFix w) \<Rightarrow> Inr (RBool (sint (FIX2LONG x) < sint (FIX2LONG w)))
      | RInt (VBig b) \<Rightarrow> Inr (RBool (big_cmp_big (rb_int2big (FIX2LONG x)) b < 0))
      | RFloat f \<Rightarrow> Inr (RBool (dbl_lt env (dbl_of_long env (FIX2LONG x)) f))
      | _ \<Rightarrow> coerce_relop env ''<'' (RInt (VFix x)) y)"

definition fix_le :: "('f, 'o) rb_env \<Rightarrow> u32 \<Rightarrow> ('f, 'o) rb_value \<Rightarrow> ('f, 'o) rb_result" where
  "fix_le env x y =
     (case y of
        RInt (VFix w) \<Rightarrow> Inr (RBool (sint (FIX2LONG x) \<le> sint (FIX2LONG w)))
      | RInt (VBig b) \<Rightarrow> Inr (RBool (big_cmp_big (rb_int2big (FIX2LONG x)) b \<le> 0))
      | RFloat f \<Rightarrow> Inr (RBool (dbl_le env (dbl_of_long env (FIX2LONG x)) f))
      | _ \<Rightarrow> coerce_relop env ''<='' (RInt (VFix x)) y)"

section \<open>Bits\<close>

definition fix_rev :: "u32 \<Rightarrow> rb_int" where
  "fix_rev num = (let val = FIX2LONG num; val = NOT val in rb_int2inum val)"

definition fix_and :: "('f, 'o) rb_env \<Rightarrow> u32 \<Rightarrow> ('f, 'o) rb_value \<Rightarrow> ('f, 'o) rb_result" where
  "fix_and env x y =
     (case bit_coerce env y of
        Inl e \<Rightarrow> Inl e
      | Inr (VBig b) \<Rightarrow> rb_big_and env b (RInt (VFix x))
      | Inr (VFix w) \<Rightarrow> (let val = FIX2LONG x AND FIX2LONG w in Inr (RInt (rb_int2inum val))))"

definition fix_or :: "('f, 'o) rb_env \<Rightarrow> u32 \<Rightarrow> ('f, 'o) rb_value \<Rightarrow> ('f, 'o) rb_result" where
  "fix_or env x y =
     (case bit_coerce env y of
        Inl e \<Rightarrow> Inl e
      | Inr (VBig b) \<Rightarrow> rb_big_or env b (RInt (VFix x))
      | Inr (VFix w) \<Rightarrow> (let val = FIX2LONG x OR FIX2LONG w in Inr (RInt (rb_int2inum val))))"

definition fix_xor :: "('f, 'o) rb_env \<Rightarrow> u32 \<Rightarrow> ('f, 'o) rb_value \<Rightarrow> ('f, 'o) rb_result" where
  "fix_xor env x y =
     (case bit_coerce env y of
        Inl e \<Rightarrow> Inl e
      | Inr (VBig b) \<Rightarrow> rb_big_xor env b (RInt (VFix x))
      | Inr (VFix w) \<Rightarrow> (let val = FIX2LONG x XOR FIX2LONG w in Inr (RInt (rb_int2inum val))))"

definition fix_lshift :: "u32 \<Rightarrow> u32 \<Rightarrow> rb_error + rb_int" where
  "fix_lshift val width =
     (if 32 - 1 < unat width \<or> 0 < drop_bit (32 - 1 - unat width) val
      then lshift_int (rb_int2big val) (rb_uint2inum width)
      else Inr (rb_int2inum (push_bit (unat width) val)))"

definition fix_rshift :: "u32 \<Rightarrow> u32 \<Rightarrow> rb_int" where
  "fix_rshift val i =
     (if 32 - 1 \<le> unat i then (if sint val < 0 then VFix (LONG2FIX (- 1)) else VFix (LONG2FIX 0))
      else VFix (LONG2FIX (signed_drop_bit (unat i) val)))"

definition rb_fix_lshift :: "('f, 'o) rb_env \<Rightarrow> u32 \<Rightarrow> ('f, 'o) rb_value \<Rightarrow> ('f, 'o) rb_result" where
  "rb_fix_lshift env x y =
     (let val = FIX2LONG x in
      case y of
        RInt (VFix w) \<Rightarrow>
          let width = FIX2LONG w in
          if sint width < 0 then Inr (RInt (fix_rshift val (- width)))
          else map_sum id RInt (fix_lshift val width)
      | _ \<Rightarrow> rb_big_lshift env (rb_int2big val) y)"

definition rb_fix_rshift :: "('f, 'o) rb_env \<Rightarrow> u32 \<Rightarrow> ('f, 'o) rb_value \<Rightarrow> ('f, 'o) rb_result" where
  "rb_fix_rshift env x y =
     (let val = FIX2LONG x in
      case y of
        RInt (VFix w) \<Rightarrow>
          let i = FIX2LONG w in
          if i = 0 then Inr (RInt (VFix x))
          else if sint i < 0 then map_sum id RInt (fix_lshift val (- i))
          else Inr (RInt (fix_rshift val i))
      | _ \<Rightarrow> rb_big_rshift env (rb_int2big val) y)"

text \<open>\<open>fix_aref\<close> once the index is an \<open>Integer\<close>; \<open>rb_big_norm\<close> may turn it into a fixnum.\<close>

definition fix_aref_int :: "u32 \<Rightarrow> rb_int \<Rightarrow> ('f, 'o) rb_value" where
  "fix_aref_int val idx =
     (case (case idx of VFix w \<Rightarrow> VFix w | VBig b \<Rightarrow> rb_big_norm (VBig b)) of
        VBig b \<Rightarrow> if \<not> big_sign b \<or> 0 \<le> sint val then INT2FIX 0 else INT2FIX 1
      | VFix w \<Rightarrow>
          let i = FIX2LONG w in
          if sint i < 0 then INT2FIX 0
          else if 32 - 1 < sint i then (if sint val < 0 then INT2FIX 1 else INT2FIX 0)
          else if val AND push_bit (unat i) 1 \<noteq> 0 then INT2FIX 1
          else INT2FIX 0)"

definition fix_aref :: "('f, 'o) rb_env \<Rightarrow> u32 \<Rightarrow> ('f, 'o) rb_value \<Rightarrow> ('f, 'o) rb_result" where
  "fix_aref env fx idx =
     map_sum id (fix_aref_int (FIX2LONG fx)) (case idx of RInt v \<Rightarrow> Inr v | _ \<Rightarrow> rb_to_int env idx)"

section \<open>Correctness of the arithmetic\<close>

lemma fix_range: "normal_int (VFix x) \<Longrightarrow> - (2 ^ 30) \<le> sint (FIX2LONG x) \<and> sint (FIX2LONG x) < 2 ^ 30"
  by (auto simp: FIX2LONG_LONG2FIX fixable_defs)

lemma sint_add_nowrap_u32:
  assumes "- (2 ^ 31) \<le> sint (a :: u32) + sint b" and "sint a + sint b < 2 ^ 31"
  shows "sint (a + b) = sint a + sint b"
  using assms by (simp add: signed_take_bit_int_eq_self sint_word_ariths)

lemma sint_diff_nowrap_u32:
  assumes "- (2 ^ 31) \<le> sint (a :: u32) - sint b" and "sint a - sint b < 2 ^ 31"
  shows "sint (a - b) = sint a - sint b"
  using assms by (simp add: signed_take_bit_int_eq_self sint_word_ariths)

lemma sint_mult_nowrap_u32:
  assumes "- (2 ^ 31) \<le> sint (a :: u32) * sint b" and "sint a * sint b < 2 ^ 31"
  shows "sint (a * b) = sint a * sint b"
  using assms by (simp add: signed_take_bit_int_eq_self sint_word_ariths)

lemma sint_mult_nowrap_u64:
  assumes "- (2 ^ 63) \<le> sint (a :: u64) * sint b" and "sint a * sint b < 2 ^ 63"
  shows "sint (a * b) = sint a * sint b"
  using assms by (simp add: signed_take_bit_int_eq_self sint_word_ariths)

lemma sint_word_of_int_u32: "- (2 ^ 31) \<le> i \<Longrightarrow> i < 2 ^ 31 \<Longrightarrow> sint (word_of_int i :: u32) = i"
  by (simp add: signed_of_int signed_take_bit_int_eq_self)

lemma sint_scast_u64 [simp]: "sint (scast (x :: u32) :: u64) = sint x"
  by (simp add: sint_up_scast is_up_def source_size_def target_size_def word_size)

lemma is_int_value_inum: "sint n = i \<Longrightarrow> is_int_value (RInt (rb_int2inum n)) i"
  using rb_int2inum_correct [of n] by (auto simp: is_int_value_def simp del: normal_int.simps)

lemma fix_plus_int:
  assumes x: "normal_int (VFix x)" and v: "normal_int v"
  shows "\<exists>r. fix_plus env x (RInt v) = Inr r \<and> is_int_value r (int_of (VFix x) + int_of v)"
proof (cases v)
  case (VFix w)
  have "sint (FIX2LONG x + FIX2LONG w) = sint (FIX2LONG x) + sint (FIX2LONG w)"
    using fix_range [OF x] fix_range [of w] v VFix by (intro sint_add_nowrap_u32) (auto simp del: normal_int.simps)
  with VFix show ?thesis by (auto simp: fix_plus_def Let_def intro!: is_int_value_inum)
next
  case (VBig b)
  with rb_big_plus_int [of b "VFix x" env] x v show ?thesis by (auto simp: fix_plus_def add.commute)
qed

lemma fix_minus_int:
  assumes x: "normal_int (VFix x)" and v: "normal_int v"
  shows "\<exists>r. fix_minus env x (RInt v) = Inr r \<and> is_int_value r (int_of (VFix x) - int_of v)"
proof (cases v)
  case (VFix w)
  have "sint (FIX2LONG x - FIX2LONG w) = sint (FIX2LONG x) - sint (FIX2LONG w)"
    using fix_range [OF x] fix_range [of w] v VFix by (intro sint_diff_nowrap_u32) (auto simp del: normal_int.simps)
  with VFix show ?thesis by (auto simp: fix_minus_def Let_def intro!: is_int_value_inum)
next
  case (VBig b)
  with rb_big_minus_int [of "rb_int2big (FIX2LONG x)" v env] v show ?thesis by (auto simp: fix_minus_def)
qed

lemma abs_mult_range:
  assumes "\<bar>a\<bar> \<le> (m :: int)" and "\<bar>b\<bar> \<le> n"
  shows "- (m * n) \<le> a * b" and "a * b \<le> m * n"
proof -
  have "\<bar>a * b\<bar> \<le> m * n" using assms by (simp add: abs_mult mult_mono')
  then show "- (m * n) \<le> a * b" "a * b \<le> m * n" by linarith+
qed

lemma fix_mul_int:
  assumes "\<forall>k. \<not> stop k" and x: "normal_int (VFix x)" and v: "normal_int v"
  shows "\<exists>r. fix_mul env stop x (RInt v) = Inr r \<and> is_int_value r (int_of (VFix x) * int_of v)"
proof (cases v)
  case (VFix w)
  let ?a = "sint (FIX2LONG x)" and ?b = "sint (FIX2LONG w)"
  let ?d = "scast (FIX2LONG x) * scast (FIX2LONG w) :: u64"
  have "\<bar>?a\<bar> \<le> 2 ^ 30" "\<bar>?b\<bar> \<le> 2 ^ 30"
    using fix_range [OF x] fix_range [of w] v VFix by (auto simp del: normal_int.simps)
  from abs_mult_range [OF this] have d: "sint ?d = ?a * ?b"
    by (subst sint_mult_nowrap_u64) simp_all
  show ?thesis
  proof (cases "FIXABLE (?a * ?b)")
    case True
    then have "sint (ucast ?d :: u32) = ?a * ?b" using d by (subst sint_ucast_small) simp_all
    with True d VFix show ?thesis
      by (auto simp: fix_mul_def Let_def is_int_value_def FIX2LONG_LONG2FIX)
  next
    case False
    with d VFix rb_ll2inum_correct [of ?d] show ?thesis
      by (auto simp: fix_mul_def Let_def is_int_value_def simp del: normal_int.simps)
  qed
next
  case (VBig b)
  with rb_big_mul_int [OF assms(1), of env b "VFix x"] show ?thesis by (auto simp: fix_mul_def mult.commute)
qed

lemma fix_unary:
  assumes x: "normal_int (VFix x)"
  shows "int_of (fix_uminus x) = - int_of (VFix x)" and "normal_int (fix_uminus x)"
    and "int_of (fix_abs x) = \<bar>int_of (VFix x)\<bar>" and "normal_int (fix_abs x)"
    and "int_of (fix_succ x) = int_of (VFix x) + 1" and "normal_int (fix_succ x)"
proof -
  have m: "sint (- FIX2LONG x) = - sint (FIX2LONG x)"
    using fix_range [OF x] by (intro sint_minus_nowrap_u32) simp
  have p: "sint (FIX2LONG x + 1) = sint (FIX2LONG x) + 1"
    using fix_range [OF x] sint_add_nowrap_u32 [of "FIX2LONG x" 1] by simp
  from m p show "int_of (fix_uminus x) = - int_of (VFix x)" "int_of (fix_abs x) = \<bar>int_of (VFix x)\<bar>"
    "int_of (fix_succ x) = int_of (VFix x) + 1"
    by (simp_all add: fix_uminus_def fix_abs_def fix_succ_def Let_def rb_int2inum_correct)
  show "normal_int (fix_uminus x)" "normal_int (fix_abs x)" "normal_int (fix_succ x)"
    by (simp_all add: fix_uminus_def fix_abs_def fix_succ_def Let_def rb_int2inum_correct del: normal_int.simps)
qed

section \<open>Correctness of the division\<close>

lemma div_le_self_int: "0 \<le> a \<Longrightarrow> 0 < b \<Longrightarrow> a div b \<le> (a :: int)"
  using zdiv_mono2 [of a 1 b] by simp

lemma c_div_pos:
  assumes "0 \<le> sint a" and "0 < sint b"
  shows "sint (c_div a b) = sint a div sint b"
proof -
  have "trunc_div (sint a) (sint b) = sint a div sint b"
    using assms by (auto simp: trunc_div_def sgn_if)
  moreover have "0 \<le> sint a div sint b" using assms by (simp add: pos_imp_zdiv_nonneg_iff)
  moreover have "sint a div sint b \<le> sint a" using assms by (simp add: div_le_self_int)
  ultimately show ?thesis
    using sint_u32_bounds [of a] by (simp add: c_div_def sint_word_of_int_u32)
qed

lemma floor_fix:
  assumes "X = q * Y + r" and "\<bar>r\<bar> < \<bar>Y\<bar>" and "(Y :: int) \<noteq> 0"
  shows "X div Y = (if r < 0 \<and> 0 < Y \<or> 0 < r \<and> Y < 0 then q - 1 else q)"
    and "X mod Y = (if r < 0 \<and> 0 < Y \<or> 0 < r \<and> Y < 0 then r + Y else r)"
proof -
  let ?q = "if r < 0 \<and> 0 < Y \<or> 0 < r \<and> Y < 0 then q - 1 else q"
  let ?r = "if r < 0 \<and> 0 < Y \<or> 0 < r \<and> Y < 0 then r + Y else r"
  have "X = Y * ?q + ?r" using assms(1) by (simp add: algebra_simps)
  moreover have "if 0 < Y then 0 \<le> ?r \<and> ?r < Y else ?r \<le> 0 \<and> Y < ?r" using assms(2,3) by auto
  ultimately have "X div Y = ?q \<and> X mod Y = ?r"
    using assms(3) by (cases "0 < Y")
      (simp_all only: int_div_pos_eq int_mod_pos_eq int_div_neg_eq int_mod_neg_eq if_True if_False)
  then show "X div Y = ?q" "X mod Y = ?r" by simp_all
qed

lemma fixdivmod_correct:
  assumes x: "\<bar>sint x\<bar> \<le> 2 ^ 30" and y: "\<bar>sint y\<bar> \<le> 2 ^ 30" and nz: "sint y \<noteq> 0"
  shows "\<exists>d m. fixdivmod x y = Inr (d, m) \<and> sint d = sint x div sint y \<and> sint m = sint x mod sint y"
proof -
  let ?X = "sint x" and ?Y = "sint y"
  define d where "d = (if sint y < 0
                 then (if sint x < 0 then c_div (- x) (- y) else - c_div x (- y))
                 else (if sint x < 0 then - c_div (- x) y else c_div x y))"
  define Q R where QR: "Q = \<bar>?X\<bar> div \<bar>?Y\<bar>" "R = \<bar>?X\<bar> mod \<bar>?Y\<bar>"
  define q where "q = (if ?Y < 0 \<longleftrightarrow> ?X < 0 then Q else - Q)"
  define r where "r = ?X - q * ?Y"
  have neg: "sint (- x) = - ?X" "sint (- y) = - ?Y"
    using x y by (auto intro!: sint_minus_nowrap_u32)
  have pos: "0 \<le> Q" using nz by (simp add: QR(1) pos_imp_zdiv_nonneg_iff)
  have le: "Q \<le> \<bar>?X\<bar>"
    unfolding QR using nz by (intro div_le_self_int) simp_all
  have qd: "sint d = q" 
    using pos le x nz by (auto simp: d_def q_def c_div_pos neg sint_minus_nowrap_u32 QR)
  have A: "\<bar>?X\<bar> = \<bar>?Y\<bar> * Q + R" by (simp add: QR)
  have B: "0 \<le> R" "R < \<bar>?Y\<bar>" using nz by (simp_all add: QR)
  have rr: "r = (if ?X < 0 then - R else R)"
    using A by (auto simp: r_def q_def abs_if algebra_simps split: if_splits)
  have rb: "\<bar>r\<bar> < \<bar>?Y\<bar>" using rr B by auto
  have "q * ?Y = ?X - r" by (simp add: r_def)
  then have dy: "sint (d * y) = ?X - r"
    using qd x rb y by (subst sint_mult_nowrap_u32) auto
  have m: "sint (x - d * y) = r"
    using dy rb y by (subst sint_diff_nowrap_u32) auto
  have fl: "?X div ?Y = (if r < 0 \<and> 0 < ?Y \<or> 0 < r \<and> ?Y < 0 then q - 1 else q)"
    "?X mod ?Y = (if r < 0 \<and> 0 < ?Y \<or> 0 < r \<and> ?Y < 0 then r + ?Y else r)"
    using floor_fix [of ?X q ?Y r] rb nz by (simp_all add: r_def)
  have y0: "y \<noteq> 0" using nz by auto
  have qb: "\<bar>q\<bar> \<le> 2 ^ 30" using pos le x by (auto simp: q_def)
  have e1: "sint (d - 1) = q - 1" using qd qb by (subst sint_diff_nowrap_u32) auto
  have e2: "sint (x - d * y + y) = r + ?Y" using m rb y by (subst sint_add_nowrap_u32) auto
  show ?thesis
    using y0 qd m e1 e2 fl by (auto simp: fixdivmod_def Let_def d_def [symmetric])
qed

lemma fix_div_int:
  assumes st: "\<forall>k. \<not> stop k" and x: "normal_int (VFix x)" and v: "normal_int v" "int_of v \<noteq> 0"
  shows "\<exists>r. fix_div env stop x (RInt v) = Some (Inr r) \<and> is_int_value r (int_of (VFix x) div int_of v)"
    and "fix_idiv env stop x (RInt v) = fix_div env stop x (RInt v)"
    and "\<exists>r. fix_mod env stop x (RInt v) = Some (Inr r) \<and> is_int_value r (int_of (VFix x) mod int_of v)"
    and "\<exists>p q. fix_divmod env stop x (RInt v) = Some (Inr (RPair p q))
      \<and> is_int_value p (int_of (VFix x) div int_of v) \<and> is_int_value q (int_of (VFix x) mod int_of v)"
proof -
  show "fix_idiv env stop x (RInt v) = fix_div env stop x (RInt v)"
    by (simp add: fix_idiv_def fix_div_def fix_divide_def split: rb_int.split)
  have "(\<exists>r. fix_div env stop x (RInt v) = Some (Inr r) \<and> is_int_value r (int_of (VFix x) div int_of v))
    \<and> (\<exists>r. fix_mod env stop x (RInt v) = Some (Inr r) \<and> is_int_value r (int_of (VFix x) mod int_of v))
    \<and> (\<exists>p q. fix_divmod env stop x (RInt v) = Some (Inr (RPair p q))
      \<and> is_int_value p (int_of (VFix x) div int_of v) \<and> is_int_value q (int_of (VFix x) mod int_of v))"
  proof (cases v)
    case (VFix w)
    have "\<bar>sint (FIX2LONG x)\<bar> \<le> 2 ^ 30" "\<bar>sint (FIX2LONG w)\<bar> \<le> 2 ^ 30"
      using fix_range [OF x] fix_range [of w] v VFix by (auto simp del: normal_int.simps)
    from fixdivmod_correct [OF this] v(2) VFix obtain d m where
      "fixdivmod (FIX2LONG x) (FIX2LONG w) = Inr (d, m)" "sint d = int_of (VFix x) div int_of v"
      "sint m = int_of (VFix x) mod int_of v" by auto
    with VFix show ?thesis
      by (simp add: fix_div_def fix_divide_def fix_mod_def fix_divmod_def is_int_value_inum)
  next
    case (VBig b)
    with rb_big_div_int(1,3,4) [OF st sign_ok_rb_int2big [of "FIX2LONG x"] v, of env] show ?thesis
      by (simp add: fix_div_def fix_divide_def fix_mod_def fix_divmod_def)
  qed
  then show "\<exists>r. fix_div env stop x (RInt v) = Some (Inr r) \<and> is_int_value r (int_of (VFix x) div int_of v)"
    "\<exists>r. fix_mod env stop x (RInt v) = Some (Inr r) \<and> is_int_value r (int_of (VFix x) mod int_of v)"
    "\<exists>p q. fix_divmod env stop x (RInt v) = Some (Inr (RPair p q))
      \<and> is_int_value p (int_of (VFix x) div int_of v) \<and> is_int_value q (int_of (VFix x) mod int_of v)"
    by simp_all
qed

lemma fix_div_zero:
  assumes "normal_int v" and "int_of v = 0"
  shows "fix_div env stop x (RInt v) = Some (Inl ZeroDivError)"
    and "fix_mod env stop x (RInt v) = Some (Inl ZeroDivError)"
    and "fix_divmod env stop x (RInt v) = Some (Inl ZeroDivError)"
proof -
  obtain w where "v = VFix w" "FIX2LONG w = 0"
    using assms sint_inj [of _ 0] by (cases v) (fastforce simp: fixable_defs)+
  then show "fix_div env stop x (RInt v) = Some (Inl ZeroDivError)"
    "fix_mod env stop x (RInt v) = Some (Inl ZeroDivError)"
    "fix_divmod env stop x (RInt v) = Some (Inl ZeroDivError)"
    by (simp_all add: fix_div_def fix_divide_def fix_mod_def fix_divmod_def fixdivmod_def)
qed

section \<open>Correctness of the powers\<close>

lemma int_pow_big_correct:
  fixes env :: "('f, 'o) rb_env"
  assumes st: "\<forall>k. \<not> stop k" and x: "0 < sint x" and y: "sint y = int n" "n \<le> 262144" and z: "0 < sint z"
  shows "\<exists>r. int_pow_big env stop neg x y z = Some (Inr r)
    \<and> is_int_value r ((if neg \<and> z \<noteq> 1 then - sint z else sint z) * sint x ^ n)"
proof -
  have l: "length (big_digits (rb_int2big x)) = 1" 
    using x by (simp add: rb_int2big_def rb_uint2big_def Let_def DIGSPERLONG_def trunc_digits.simps [of "[_]"])
  have uy: "uint y = int n" using y u32_bounds(2) [of y] by (simp add: sint_of_uint_u32 split: if_splits)
  then have f: "FIXABLE (sint y)" "POSFIXABLE (uint y)" using y by (simp_all add: fixable_defs)
  have yv: "rb_int2inum y = VFix (LONG2FIX y)" using f by (simp add: rb_int2inum_def)
  have "\<exists>r. rb_big_pow env stop (rb_int2big x) (RInt (VFix (LONG2FIX y))) = Some (Inr r)
      \<and> is_int_value r (sint x ^ n)"
  proof -
    have nf: "normal_int (VFix (LONG2FIX y))" "int_of (VFix (LONG2FIX y)) = int n"
      using f y by (auto simp: FIX2LONG_LONG2FIX)
    have "big_digits (rb_int2big x) \<noteq> []" using l by auto
    from rb_big_pow_int [OF st this nf(1), of env] nf(2) l y show ?thesis
      by (simp add: BIGLEN_LIMIT_def)
  qed
  then obtain v where v: "rb_big_pow env stop (rb_int2big x) (RInt (rb_int2inum y)) = Some (Inr (RInt v))"
    "normal_int v" "int_of v = sint x ^ n"
    unfolding yv is_int_value_def by blast
  show ?thesis
  proof (cases "z = 1")
    case True
    with v show ?thesis by (auto simp: int_pow_big_def is_int_value_def simp del: normal_int.simps)
  next
    case False
    have "sint (- z) = - sint z" using z by (intro sint_uminus_u32) simp
    with False v rb_big_mul_int [OF st, of env "rb_int2big (if neg then - z else z)" v] show ?thesis
      by (auto simp: int_pow_big_def split: if_splits)
  qed
qed

lemma c_div_test:
  assumes x: "0 < sint x" and z: "0 < sint z" and eq: "c_div (x * z) x = z"
  shows "sint (x * z) = sint x * sint z"
proof -
  have "0 \<le> sint (x * z)"
  proof (rule ccontr)
    assume neg: "\<not> 0 \<le> sint (x * z)"
    let ?t = "trunc_div (sint (x * z)) (sint x)"
    have t: "?t = - (- sint (x * z) div sint x)" using neg x by (simp add: trunc_div_def sgn_if)
    have "0 \<le> - sint (x * z) div sint x" "- sint (x * z) div sint x \<le> - sint (x * z)"
      using neg x div_le_self_int by (simp_all add: pos_imp_zdiv_nonneg_iff)
    moreover from this t sint_u32_bounds [of "x * z"] have "sint (c_div (x * z) x) = ?t"
      unfolding c_div_def by (intro sint_word_of_int_u32) simp_all
    ultimately have "sint (c_div (x * z) x) \<le> 0" using t by simp
    with eq z show False by simp
  qed
  with c_div_pos [OF this x] eq have "sint (x * z) div sint x = sint z" by simp
  then have "sint x * sint z \<le> sint (x * z)" using div_mult_le_int [OF x, of "sint (x * z)"] by (simp add: mult.commute)
  with x z sint_u32_bounds [of "x * z"] show ?thesis
    by (intro sint_mult_nowrap_u32) (auto intro: order_trans [OF _ mult_nonneg_nonneg])
qed

lemma int_pow_loop_correct:
  fixes env :: "('f, 'o) rb_env"
  assumes st: "\<forall>k. \<not> stop k"
  shows "2 \<le> sint x \<Longrightarrow> 0 < sint z \<Longrightarrow> (neg \<Longrightarrow> z \<noteq> 1) \<Longrightarrow> sint y = int n \<Longrightarrow> n \<le> 262144 \<Longrightarrow>
    \<exists>r. int_pow_loop env stop neg x y z = Some (Inr r)
      \<and> is_int_value r ((if neg then - sint z else sint z) * sint x ^ n)"
proof (induction "if n = 0 then nat (2 ^ 31 - sint x) else 2 ^ 31 + n" arbitrary: x y z n rule: less_induct)
  case less
  note unf = int_pow_loop.simps [of env stop neg x y z]
  have uy: "uint y = int n" using less.prems(4,5) u32_bounds(2) [of y] by (simp add: sint_of_uint_u32 split: if_splits)
  have x0: "0 < sint x" using less.prems(1) by simp
  have big: "\<exists>r. int_pow_big env stop neg x y z = Some (Inr r)
      \<and> is_int_value r ((if neg then - sint z else sint z) * sint x ^ n)"
    using int_pow_big_correct [OF st x0 less.prems(4,5,2), of env neg] less.prems(3) by auto
  have "uint (y mod 2) = int (n mod 2)" by (simp add: uint_mod uy zmod_int)
  then have ym: "y mod 2 = 0 \<longleftrightarrow> even n"
    by (metis even_iff_mod_2_eq_zero of_nat_eq_0_iff uint_0_iff)
  show ?case
  proof (cases "even n")
    case True
    show ?thesis
    proof (cases "FIT_SQRT_LONG (sint x)")
      case False
      with True ym big show ?thesis by (simp only: unf if_True simp_thms)
    next
      case fit: True
      then have lt: "sint x < 32768" by (simp add: FIT_SQRT_LONG_def SQRT_LONG_MAX_def)
      then have "sint x * sint x < 32768 * 32768" using x0 by (intro mult_strict_mono) simp_all
      then have xx: "sint (x * x) = sint x * sint x"
        using x0 by (intro sint_mult_nowrap_u32) (auto intro: order_trans [OF _ mult_nonneg_nonneg])
      have y': "sint (drop_bit 1 y) = int (n div 2)"
        using uy less.prems(5) by (simp add: sint_of_uint_u32 uint_drop_bit zdiv_int)
      have gr: "2 * sint x \<le> sint x * sint x" using less.prems(1) by (intro mult_right_mono) simp_all
      have m: "(if n div 2 = 0 then nat (2 ^ 31 - sint (x * x)) else 2 ^ 31 + n div 2)
          < (if n = 0 then nat (2 ^ 31 - sint x) else 2 ^ 31 + n)"
        using True gr xx x0 lt by (auto elim!: evenE)
      from True have "n = 2 * (n div 2)" by simp
      then have pw: "(sint x * sint x) ^ (n div 2) = sint x ^ n"
        by (metis power2_eq_square power_mult)
      have le: "2 \<le> sint (x * x)" using gr less.prems(1) unfolding xx by linarith
      have le2: "n div 2 \<le> 262144" using less.prems(5) by simp
      from less.hyps [OF m le less.prems(2,3) y' le2]
      have "\<exists>r. int_pow_loop env stop neg (x * x) (drop_bit 1 y) z = Some (Inr r)
        \<and> is_int_value r ((if neg then - sint z else sint z) * sint x ^ n)" by (simp only: xx pw)
      with True fit ym show ?thesis by (simp only: unf if_True if_False simp_thms)
    qed
  next
    case odd: False
    define ok where "ok = (POSFIXABLE (sint (x * z)) \<and> c_div (x * z) x = z)"
    show ?thesis
    proof (cases ok)
      case False
      with odd ym big show ?thesis by (simp add: unf Let_def ok_def)
    next
      case True
      then have xz: "sint (x * z) = sint x * sint z" using c_div_test [OF x0 less.prems(2)] by (simp add: ok_def)
      have ge: "2 * 1 \<le> sint x * sint z" using less.prems(1,2) by (intro mult_mono) simp_all
      then have xz1: "x * z \<noteq> 1" "0 < sint (x * z)" using xz by auto
      have y1: "sint (y - 1) = int (n - 1)"
        using odd less.prems(4,5) by (subst sint_diff_nowrap_u32) (auto simp: of_nat_diff odd_pos Suc_leI)
      have pw: "sint x ^ n = sint x * sint x ^ (n - 1)" using odd by (metis odd_pos power_minus_mult mult.commute)
      show ?thesis
      proof (cases "n = 1")
        case True
        then have "y - 1 = 0" using y1 sint_inj [of "y - 1" 0] by simp
        moreover have "is_int_value (RInt (rb_int2inum (if neg then - (x * z) else x * z)) :: ('f, 'o) rb_value)
            ((if neg then - sint z else sint z) * sint x ^ n)"
          using xz xz1 True by (intro is_int_value_inum) (simp add: sint_uminus_u32)
        ultimately show ?thesis
          unfolding unf using odd ym \<open>ok\<close> unfolding ok_def by (simp only: Let_def) simp
      next
        case n1: False
        then have y0: "y - 1 \<noteq> 0" using y1 odd by (cases n) auto
        have "(if n - 1 = 0 then nat (2 ^ 31 - sint x) else 2 ^ 31 + (n - 1))
            < (if n = 0 then nat (2 ^ 31 - sint x) else 2 ^ 31 + n)" using n1 odd by (cases n) auto
        moreover have "(if neg then - sint (x * z) else sint (x * z)) * sint x ^ (n - 1)
            = (if neg then - sint z else sint z) * sint x ^ n" by (simp add: pw xz mult_ac)
        moreover have "n - 1 \<le> 262144" using less.prems(5) by simp
        ultimately have "\<exists>r. int_pow_loop env stop neg x (y - 1) (x * z) = Some (Inr r)
          \<and> is_int_value r ((if neg then - sint z else sint z) * sint x ^ n)"
          using less.hyps [OF _ less.prems(1) xz1(2) xz1(1) y1] by metis
        with y0 show ?thesis using odd ym \<open>ok\<close> by (simp add: unf Let_def ok_def)
      qed
    qed
  qed
qed

lemma int_pow_correct:
  fixes env :: "('f, 'o) rb_env"
  assumes st: "\<forall>k. \<not> stop k" and x: "\<bar>sint x\<bar> \<le> 2 ^ 30" "2 \<le> \<bar>sint x\<bar>" and y: "0 < sint y" "sint y \<le> 262144"
  shows "\<exists>r. int_pow env stop x y = Some (Inr r) \<and> is_int_value r (sint x ^ nat (sint y))"
proof -
  define x' where "x' = (if sint x < 0 then - x else x)"
  have x': "sint x' = \<bar>sint x\<bar>" using x(1) by (auto simp: x'_def intro!: sint_minus_nowrap_u32)
  define n where "n = nat (sint y)"
  have uy: "uint y = int n" "sint y = int n" using y u32_bounds(2) [of y] by (auto simp: n_def sint_of_uint_u32 split: if_splits)
  have par: "y AND 1 \<noteq> 0 \<longleftrightarrow> odd n"
  proof -
    have "uint (y AND 1) = int (n mod 2)" by (simp add: and_one_eq uint_mod uy(1) zmod_int)
    then show ?thesis by (metis odd_iff_mod_2_eq_one not_mod_2_eq_1_eq_0 of_nat_eq_0_iff uint_0_iff zero_neq_one)
  qed
  have "y AND NOT 1 = 2 * drop_bit 1 y"
    by (rule bit_eqI) (auto simp: bit_simps gr0_conv_Suc)
  moreover have "int n div 2 * 2 mod 2 ^ 32 = int n div 2 * 2"
    using y n_def by (intro mod_pos_pos_trivial) simp_all
  ultimately have "uint (y AND NOT 1) = int n div 2 * 2"
    by (simp only: uint_word_ariths uint_drop_bit uy(1)) (simp add: mult.commute)
  then have y': "sint (y AND NOT 1) = int (n div 2 * 2)"
    using y by (simp add: sint_of_uint_u32 n_def zdiv_int)
  have n: "n div 2 * 2 \<le> 262144" using y by (simp add: n_def)
  have e: "int_pow env stop x y = int_pow_loop env stop (if odd n then sint x < 0 else False) x'
      (y AND NOT 1) (if odd n then x' else 1)"
    by (simp only: int_pow_def Let_def par x'_def)
  have x2: "2 \<le> sint x'" "0 < sint x'" "x' \<noteq> 1" using x x' by auto
  show ?thesis
  proof (cases "odd n")
    case True
    then have "n = Suc (n div 2 * 2)" by presburger
    then have "sint x ^ n = sint x * sint x ^ (n div 2 * 2)" by (metis power_Suc)
    moreover have "sint x ^ (n div 2 * 2) = sint x' ^ (n div 2 * 2)" by (simp add: x' power_even_abs)
    moreover have "sint x = (if sint x < 0 then - sint x' else sint x')" using x' by simp
    ultimately have "sint x ^ n = (if sint x < 0 then - sint x' else sint x') * sint x' ^ (n div 2 * 2)"
      by (simp only:)
    with int_pow_loop_correct [OF st x2(1,2) x2(3) y' n, of env "sint x < 0"] True
    show ?thesis by (simp only: e n_def if_True not_False_eq_True)
  next
    case False
    then have "n div 2 * 2 = n" by simp
    then have "sint x ^ n = sint x' ^ (n div 2 * 2)" using x' False by (simp add: power_even_abs)
    with int_pow_loop_correct [OF st x2(1) _ _ y' n, of 1 False env] False
    show ?thesis by (simp add: e n_def)
  qed
qed

lemma sint_eq_consts:
  "sint (a :: u32) = 0 \<longleftrightarrow> a = 0" "sint (a :: u32) = 1 \<longleftrightarrow> a = 1" "sint (a :: u32) = - 1 \<longleftrightarrow> a = - 1"
  using sint_inj [of a 0] sint_inj [of a 1] sint_inj [of a "- 1"] by auto

lemma fix_pow_int:
  fixes env :: "('f, 'o) rb_env"
  assumes st: "\<forall>k. \<not> stop k" and x: "normal_int (VFix x)" and w: "normal_int (VFix w)"
    and b: "0 \<le> int_of (VFix w)" "int_of (VFix w) \<le> 262144"
  shows "\<exists>r. fix_pow env stop x (RInt (VFix w)) = Some (Inr r)
    \<and> is_int_value r (int_of (VFix x) ^ nat (int_of (VFix w)))"
proof -
  let ?a = "FIX2LONG x" and ?b = "FIX2LONG w"
  have ax: "\<bar>sint ?a\<bar> \<le> 2 ^ 30" using fix_range [OF x] by auto
  have small: "is_int_value (INT2FIX i :: ('f, 'o) rb_value) i" if "i = 0 \<or> i = 1 \<or> i = - 1" for i
    using that by (intro is_int_value_small) auto
  have par: "c_mod ?b 2 = 0 \<longleftrightarrow> even (nat (sint ?b))"
  proof -
    have "trunc_mod (sint ?b) 2 = sint ?b mod 2" using b by (simp add: trunc_mod_def sgn_if)
    then have "sint (c_mod ?b 2) = sint ?b mod 2" by (simp add: c_mod_def sint_word_of_int_u32)
    moreover have "c_mod ?b 2 = 0 \<longleftrightarrow> sint (c_mod ?b 2) = 0" by (metis signed_0 sint_inj)
    moreover have "even (nat (sint ?b)) \<longleftrightarrow> sint ?b mod 2 = 0" using b by (simp add: even_nat_iff mod_eq_0_iff_dvd)
    ultimately show ?thesis by simp
  qed
  consider "?b = 0" | "?b = 1" | "?b \<noteq> 0" "?b \<noteq> 1" "?a = 0" | "?b \<noteq> 0" "?b \<noteq> 1" "?a = 1"
    | "?b \<noteq> 0" "?b \<noteq> 1" "?a = - 1" | (gen) "?b \<noteq> 0" "?b \<noteq> 1" "?a \<noteq> 0" "?a \<noteq> 1" "?a \<noteq> - 1" by blast
  then show ?thesis
  proof cases
    case gen
    then have "sint ?a \<noteq> 0" "sint ?a \<noteq> 1" "sint ?a \<noteq> - 1" "sint ?b \<noteq> 0"
      by (simp_all only: sint_eq_consts not_False_eq_True)
    with b have ab: "2 \<le> \<bar>sint ?a\<bar>" "0 < sint ?b" "sint ?b \<le> 262144" "\<not> sint ?b < 0" by simp_all
    from int_pow_correct [OF st ax ab(1-3), of env] gen ab(4) show ?thesis
      by (simp add: fix_pow_def Let_def)
  next
    case 3
    then have "sint ?b \<noteq> 0" by (simp only: sint_eq_consts not_False_eq_True)
    with 3 b show ?thesis by (auto simp: fix_pow_def Let_def small power_0_left)
  next
    case 5
    with b par show ?thesis by (auto simp: fix_pow_def Let_def small)
  qed (use b x small in \<open>auto simp: fix_pow_def Let_def is_int_value_def simp del: normal_int.simps\<close>)
qed

end
