(* ===== verification/IntegerOps.thy ===== *)
theory IntegerOps
  imports Numeric "HOL-Library.Monad_Syntax"
begin

text \<open>
  The operators of Ruby's \<open>Integer\<close> on operands of either representation: the method tables that
  \<open>Init_Numeric\<close> and \<open>Init_Bignum\<close> fill send a call to the \<open>fix_\<close> or the \<open>rb_big_\<close> routine of
  the receiver.  The interfaces of this theory state what every such operator owes its caller:
  the exact integer, in the one normal form it has.  On top of them stand the methods of
  \<open>lib/ruby/numeric.c\<close> that are written with Ruby calls: \<open>int_upto\<close>, \<open>int_downto\<close>,
  \<open>int_dotimes\<close>, \<open>num_step\<close> and \<open>int_round\<close>.
\<close>

section \<open>The method tables\<close>

definition int_plus :: "('f, 'o) rb_env \<Rightarrow> rb_int \<Rightarrow> rb_int \<Rightarrow> ('f, 'o) rb_result" where
  "int_plus env v w = (case v of VFix x \<Rightarrow> fix_plus env x (RInt w) | VBig b \<Rightarrow> rb_big_plus env b (RInt w))"

definition int_minus :: "('f, 'o) rb_env \<Rightarrow> rb_int \<Rightarrow> rb_int \<Rightarrow> ('f, 'o) rb_result" where
  "int_minus env v w = (case v of VFix x \<Rightarrow> fix_minus env x (RInt w) | VBig b \<Rightarrow> rb_big_minus env b (RInt w))"

definition int_mul :: "('f, 'o) rb_env \<Rightarrow> (nat \<Rightarrow> bool) \<Rightarrow> rb_int \<Rightarrow> rb_int \<Rightarrow> ('f, 'o) rb_result" where
  "int_mul env stop v w =
     (case v of VFix x \<Rightarrow> fix_mul env stop x (RInt w) | VBig b \<Rightarrow> rb_big_mul env stop b (RInt w))"

definition int_div :: "('f, 'o) rb_env \<Rightarrow> (nat \<Rightarrow> bool) \<Rightarrow> rb_int \<Rightarrow> rb_int \<Rightarrow> ('f, 'o) rb_result option" where
  "int_div env stop v w =
     (case v of VFix x \<Rightarrow> fix_div env stop x (RInt w) | VBig b \<Rightarrow> rb_big_div env stop b (RInt w))"

definition int_modulo :: "('f, 'o) rb_env \<Rightarrow> (nat \<Rightarrow> bool) \<Rightarrow> rb_int \<Rightarrow> rb_int \<Rightarrow> ('f, 'o) rb_result option" where
  "int_modulo env stop v w =
     (case v of VFix x \<Rightarrow> fix_mod env stop x (RInt w) | VBig b \<Rightarrow> rb_big_modulo env stop b (RInt w))"

definition int_cmp :: "('f, 'o) rb_env \<Rightarrow> rb_int \<Rightarrow> rb_int \<Rightarrow> ('f, 'o) rb_result" where
  "int_cmp env v w = (case v of VFix x \<Rightarrow> fix_cmp env x (RInt w) | VBig b \<Rightarrow> rb_big_cmp env b (RInt w))"

definition int_equal :: "('f, 'o) rb_env \<Rightarrow> rb_int \<Rightarrow> rb_int \<Rightarrow> bool" where
  "int_equal env v w = (case v of VFix x \<Rightarrow> fix_equal env x (RInt w) | VBig b \<Rightarrow> rb_big_eq env b (RInt w))"

definition int_and :: "('f, 'o) rb_env \<Rightarrow> rb_int \<Rightarrow> rb_int \<Rightarrow> ('f, 'o) rb_result" where
  "int_and env v w = (case v of VFix x \<Rightarrow> fix_and env x (RInt w) | VBig b \<Rightarrow> rb_big_and env b (RInt w))"

definition int_or :: "('f, 'o) rb_env \<Rightarrow> rb_int \<Rightarrow> rb_int \<Rightarrow> ('f, 'o) rb_result" where
  "int_or env v w = (case v of VFix x \<Rightarrow> fix_or env x (RInt w) | VBig b \<Rightarrow> rb_big_or env b (RInt w))"

definition int_xor :: "('f, 'o) rb_env \<Rightarrow> rb_int \<Rightarrow> rb_int \<Rightarrow> ('f, 'o) rb_result" where
  "int_xor env v w = (case v of VFix x \<Rightarrow> fix_xor env x (RInt w) | VBig b \<Rightarrow> rb_big_xor env b (RInt w))"

definition int_lshift :: "('f, 'o) rb_env \<Rightarrow> rb_int \<Rightarrow> rb_int \<Rightarrow> ('f, 'o) rb_result" where
  "int_lshift env v w =
     (case v of VFix x \<Rightarrow> rb_fix_lshift env x (RInt w) | VBig b \<Rightarrow> rb_big_lshift env b (RInt w))"

definition int_rshift :: "('f, 'o) rb_env \<Rightarrow> rb_int \<Rightarrow> rb_int \<Rightarrow> ('f, 'o) rb_result" where
  "int_rshift env v w =
     (case v of VFix x \<Rightarrow> rb_fix_rshift env x (RInt w) | VBig b \<Rightarrow> rb_big_rshift env b (RInt w))"

definition int_aref :: "('f, 'o) rb_env \<Rightarrow> rb_int \<Rightarrow> rb_int \<Rightarrow> ('f, 'o) rb_result" where
  "int_aref env v w = (case v of VFix x \<Rightarrow> fix_aref env x (RInt w) | VBig b \<Rightarrow> rb_big_aref env b (RInt w))"

definition int_rev :: "rb_int \<Rightarrow> rb_int" where
  "int_rev v = (case v of VFix x \<Rightarrow> fix_rev x | VBig b \<Rightarrow> rb_big_neg b)"

text \<open>
  \<open>>\<close> and \<open><\<close>: \<open>Bignum\<close> inherits \<open>cmp_gt\<close> and \<open>cmp_lt\<close> of \<open>lib/ruby/compar.c\<close>, which look at the
  sign of the fixnum that \<open><=>\<close> returns.
\<close>

definition int_gt :: "('f, 'o) rb_env \<Rightarrow> rb_int \<Rightarrow> rb_int \<Rightarrow> ('f, 'o) rb_result" where
  "int_gt env v w =
     (case v of
        VFix x \<Rightarrow> fix_gt env x (RInt w)
      | VBig b \<Rightarrow> Inr (RBool (0 < big_cmp_big b (to_big w))))"

definition int_lt :: "('f, 'o) rb_env \<Rightarrow> rb_int \<Rightarrow> rb_int \<Rightarrow> ('f, 'o) rb_result" where
  "int_lt env v w =
     (case v of
        VFix x \<Rightarrow> fix_lt env x (RInt w)
      | VBig b \<Rightarrow> Inr (RBool (big_cmp_big b (to_big w) < 0)))"

definition int_even_p :: "('f, 'o) rb_env \<Rightarrow> (nat \<Rightarrow> bool) \<Rightarrow> rb_int \<Rightarrow> ('f, 'o) rb_result option" where
  "int_even_p env stop num =
     map_option (map_sum id (\<lambda>r. RBool (r = INT2FIX 0))) (int_modulo env stop num (VFix (LONG2FIX 2)))"

definition int_odd_p :: "('f, 'o) rb_env \<Rightarrow> (nat \<Rightarrow> bool) \<Rightarrow> rb_int \<Rightarrow> ('f, 'o) rb_result option" where
  "int_odd_p env stop num =
     map_option (map_sum id (\<lambda>r. RBool (r \<noteq> INT2FIX 0))) (int_modulo env stop num (VFix (LONG2FIX 2)))"

definition int_succ :: "('f, 'o) rb_env \<Rightarrow> rb_int \<Rightarrow> ('f, 'o) rb_result" where
  "int_succ env num =
     (case num of
        VFix x \<Rightarrow> (let i = FIX2LONG x + 1 in Inr (RInt (rb_int2inum i)))
      | VBig b \<Rightarrow> int_plus env num (VFix (LONG2FIX 1)))"

definition int_pred :: "('f, 'o) rb_env \<Rightarrow> rb_int \<Rightarrow> ('f, 'o) rb_result" where
  "int_pred env num =
     (case num of
        VFix x \<Rightarrow> (let i = FIX2LONG x - 1 in Inr (RInt (rb_int2inum i)))
      | VBig b \<Rightarrow> int_minus env num (VFix (LONG2FIX 1)))"

section \<open>What an operator owes\<close>

text \<open>A representation with one normal form for each integer.\<close>

locale int_repr =
  fixes valid :: "'a \<Rightarrow> bool" and val :: "'a \<Rightarrow> int"
  assumes repr_unique: "valid v \<Longrightarrow> valid w \<Longrightarrow> val v = val w \<Longrightarrow> v = w"

text \<open>A binary operator that computes \<open>f\<close> exactly wherever \<open>dm\<close> holds of the values.\<close>

locale exact_op = int_repr valid val
  for valid :: "'a \<Rightarrow> bool" and val :: "'a \<Rightarrow> int" +
  fixes ret :: "'a \<Rightarrow> 'r" and opr :: "'a \<Rightarrow> 'a \<Rightarrow> 'r"
    and f :: "int \<Rightarrow> int \<Rightarrow> int" and dm :: "int \<Rightarrow> int \<Rightarrow> bool"
  assumes ret_inj: "ret v = ret w \<Longrightarrow> v = w"
    and exact: "valid v \<Longrightarrow> valid w \<Longrightarrow> dm (val v) (val w) \<Longrightarrow>
      \<exists>r. opr v w = ret r \<and> valid r \<and> val r = f (val v) (val w)"
begin

lemma result: "valid v \<Longrightarrow> valid w \<Longrightarrow> dm (val v) (val w) \<Longrightarrow> opr v w = ret r \<Longrightarrow>
    valid r \<and> val r = f (val v) (val w)"
  using exact [of v w] ret_inj by metis

lemma commutes:
  assumes "\<And>a b. f a b = f b a" and "valid v" and "valid w" and "dm (val v) (val w)" and "dm (val w) (val v)"
  shows "opr v w = opr w v"
proof -
  from exact [OF assms(2,3,4)] exact [OF assms(3,2,5)] obtain r s where
    "opr v w = ret r" "opr w v = ret s" "valid r" "valid s" "val r = f (val v) (val w)" "val s = f (val w) (val v)"
    by blast
  then show ?thesis using repr_unique [of r s] assms(1) by metis
qed

lemma associates:
  assumes "\<And>a b c. f (f a b) c = f a (f b c)" and dm: "\<And>a b. dm a b"
    and v: "valid v" "valid w" "valid u" and "opr v w = ret p" and "opr w u = ret q"
  shows "opr p u = opr v q"
proof -
  from result [OF v(1,2) dm assms(6)] result [OF v(2,3) dm assms(7)]
  have pq: "valid p" "val p = f (val v) (val w)" "valid q" "val q = f (val w) (val u)" by simp_all
  from exact [OF pq(1) v(3) dm] exact [OF v(1) pq(3) dm] obtain r s where
    "opr p u = ret r" "opr v q = ret s" "valid r" "valid s" "val r = f (val p) (val u)" "val s = f (val v) (val q)"
    by blast
  then show ?thesis using repr_unique [of r s] assms(1) pq by metis
qed

lemma equal_results:
  assumes "valid v" "valid w" "dm (val v) (val w)" "valid v'" "valid w'" "dm (val v') (val w')"
    and "f (val v) (val w) = f (val v') (val w')"
  shows "opr v w = opr v' w'"
  using exact [OF assms(1-3)] exact [OF assms(4-6)] repr_unique assms(7) by metis

end

text \<open>Addition and multiplication of one representation: they distribute.\<close>

locale int_ring =
  add: exact_op valid val ret add "(+)" "\<lambda>_ _. True" +
  mul: exact_op valid val ret mul "(*)" "\<lambda>_ _. True"
  for valid :: "'a \<Rightarrow> bool" and val :: "'a \<Rightarrow> int" and ret :: "'a \<Rightarrow> 'r"
    and add :: "'a \<Rightarrow> 'a \<Rightarrow> 'r" and mul :: "'a \<Rightarrow> 'a \<Rightarrow> 'r"
begin

lemma distributes:
  assumes v: "valid v" "valid w" "valid u"
    and "add w u = ret s" and "mul v w = ret p" and "mul v u = ret q"
  shows "mul v s = add p q"
proof -
  note r = add.result [OF v(2,3) TrueI assms(4)] mul.result [OF v(1,2) TrueI assms(5)]
    mul.result [OF v(1,3) TrueI assms(6)]
  obtain x where x: "mul v s = ret x" "valid x" "val x = val v * val s"
    using mul.exact [OF v(1) conjunct1 [OF r(1)] TrueI] by blast
  obtain y where y: "add p q = ret y" "valid y" "val y = val p + val q"
    using add.exact [OF conjunct1 [OF r(2)] conjunct1 [OF r(3)] TrueI] by blast
  have "val x = val y" using r x(3) y(3) by (simp only: distrib_left)
  with add.repr_unique [OF x(2) y(2)] x(1) y(1) show ?thesis by simp
qed

end

text \<open>Quotient and remainder beside them: the law of division.\<close>

locale int_euclid = int_ring valid val ret add mul +
  quo: exact_op valid val rto quo "(div)" "\<lambda>_ b. b \<noteq> 0" +
  rem: exact_op valid val rto rem "(mod)" "\<lambda>_ b. b \<noteq> 0"
  for valid :: "'a \<Rightarrow> bool" and val :: "'a \<Rightarrow> int" and ret :: "'a \<Rightarrow> 'r" and rto :: "'a \<Rightarrow> 's"
    and add mul :: "'a \<Rightarrow> 'a \<Rightarrow> 'r" and quo rem :: "'a \<Rightarrow> 'a \<Rightarrow> 's"
begin

lemma division_law:
  assumes v: "valid v" "valid w" "val w \<noteq> 0" and "quo v w = rto q" and "rem v w = rto r" and "mul w q = ret p"
  shows "add p r = ret v"
proof -
  note q = quo.result [OF v assms(4)] and r = rem.result [OF v assms(5)]
  note p = mul.result [OF v(2) conjunct1 [OF q] TrueI assms(6)]
  obtain s where s: "add p r = ret s" "valid s" "val s = val p + val r"
    using add.exact [OF conjunct1 [OF p] conjunct1 [OF r] TrueI] by blast
  have "val s = val v"
    unfolding s(3) conjunct2 [OF p] conjunct2 [OF q] conjunct2 [OF r] by (rule mult_div_mod_eq)
  with add.repr_unique [OF s(2) v(1)] s(1) show ?thesis by simp
qed

end

section \<open>The operators meet it\<close>

lemma int_plus_exact: "normal_int v \<Longrightarrow> normal_int w \<Longrightarrow>
    \<exists>r. int_plus env v w = Inr (RInt r) \<and> normal_int r \<and> int_of r = int_of v + int_of w"
  using fix_plus_int [of _ w env] rb_big_plus_int [of _ w env]
  by (cases v) (fastforce simp: int_plus_def is_int_value_def simp del: normal_int.simps(1))+

lemma int_minus_exact: "normal_int v \<Longrightarrow> normal_int w \<Longrightarrow>
    \<exists>r. int_minus env v w = Inr (RInt r) \<and> normal_int r \<and> int_of r = int_of v - int_of w"
  using fix_minus_int [of _ w env] rb_big_minus_int [of _ w env]
  by (cases v) (fastforce simp: int_minus_def is_int_value_def simp del: normal_int.simps(1))+

lemma int_mul_exact: "\<forall>k. \<not> stop k \<Longrightarrow> normal_int v \<Longrightarrow> normal_int w \<Longrightarrow>
    \<exists>r. int_mul env stop v w = Inr (RInt r) \<and> normal_int r \<and> int_of r = int_of v * int_of w"
  using fix_mul_int [of stop _ w env] rb_big_mul_int [of stop env _ w]
  by (cases v) (fastforce simp: int_mul_def is_int_value_def simp del: normal_int.simps)+

lemma int_div_exact: "\<forall>k. \<not> stop k \<Longrightarrow> normal_int v \<Longrightarrow> normal_int w \<Longrightarrow> int_of w \<noteq> 0 \<Longrightarrow>
    \<exists>r. int_div env stop v w = Some (Inr (RInt r)) \<and> normal_int r \<and> int_of r = int_of v div int_of w"
  using fix_div_int(1) [of stop _ w env] rb_big_div_int(1) [of stop _ w env, OF _ sign_ok_normal]
  by (cases v) (fastforce simp: int_div_def is_int_value_def simp del: normal_int.simps)+

lemma int_modulo_exact: "\<forall>k. \<not> stop k \<Longrightarrow> normal_int v \<Longrightarrow> normal_int w \<Longrightarrow> int_of w \<noteq> 0 \<Longrightarrow>
    \<exists>r. int_modulo env stop v w = Some (Inr (RInt r)) \<and> normal_int r \<and> int_of r = int_of v mod int_of w"
  using fix_div_int(3) [of stop _ w env] rb_big_div_int(3) [of stop _ w env, OF _ sign_ok_normal]
  by (cases v) (fastforce simp: int_modulo_def is_int_value_def simp del: normal_int.simps)+

lemma int_div_zero:
  assumes "normal_int w" and "int_of w = 0"
  shows "int_div env stop v w = Some (Inl ZeroDivError)" and "int_modulo env stop v w = Some (Inl ZeroDivError)"
  using fix_div_zero(1,2) [OF assms, of env stop] rb_big_div_zero(1,3) [OF assms(2), of env stop]
  by (simp_all add: int_div_def int_modulo_def split: rb_int.split)

lemma sint_not: "sint (NOT (a :: u32)) = NOT (sint a)"
  by (rule bit_eqI) (auto simp: bit_sint_iff bit_not_iff dest: bit_imp_le_length)

lemma inum_exact:
  "sint n = i \<Longrightarrow> \<exists>r. Inr (RInt (rb_int2inum n)) = Inr (RInt r) \<and> normal_int r \<and> int_of r = i"
  using rb_int2inum_correct [of n] by (simp del: normal_int.simps)

lemma normal_big_ok:
  assumes "normal_int (VBig b)"
  shows "big_digits b \<noteq> []" and "sign_ok b"
  using assms sign_ok_normal by (auto simp: digits_ok_def)

lemma int_and_exact: "normal_int v \<Longrightarrow> normal_int w \<Longrightarrow>
    \<exists>r. int_and env v w = Inr (RInt r) \<and> normal_int r \<and> int_of r = int_of v AND int_of w"
  using big_and_correct [OF normal_big_ok] 
  by (cases v; cases w)
    (auto simp: int_and_def fix_and_def rb_big_and_def bit_coerce_def Let_def signed_and_eq and.commute rb_int2inum_correct
      simp del: normal_int.simps)

lemma int_or_exact: "normal_int v \<Longrightarrow> normal_int w \<Longrightarrow>
    \<exists>r. int_or env v w = Inr (RInt r) \<and> normal_int r \<and> int_of r = int_of v OR int_of w"
  using big_or_correct [OF normal_big_ok] 
  by (cases v; cases w)
    (auto simp: int_or_def fix_or_def rb_big_or_def bit_coerce_def Let_def signed_or_eq or.commute rb_int2inum_correct
      simp del: normal_int.simps)

lemma int_xor_exact: "normal_int v \<Longrightarrow> normal_int w \<Longrightarrow>
    \<exists>r. int_xor env v w = Inr (RInt r) \<and> normal_int r \<and> int_of r = int_of v XOR int_of w"
  using big_xor_correct [OF normal_big_ok] 
  by (cases v; cases w)
    (auto simp: int_xor_def fix_xor_def rb_big_xor_def bit_coerce_def Let_def signed_xor_eq xor.commute rb_int2inum_correct
      simp del: normal_int.simps)

lemma int_rev_exact: "normal_int v \<Longrightarrow> normal_int (int_rev v) \<and> int_of (int_rev v) = NOT (int_of v)"
  using rb_big_neg_correct [OF normal_big_ok]
  by (cases v) (auto simp: int_rev_def fix_rev_def Let_def rb_int2inum_correct sint_not simp del: normal_int.simps)

section \<open>Comparison, shifts and bits\<close>

lemma int_cmp_sgn:
  assumes v: "normal_int v" and w: "normal_int w"
  shows "int_cmp env v w = Inr (INT2FIX (sgn (int_of v - int_of w)))"
    and "int_gt env v w = Inr (RBool (int_of w < int_of v))"
    and "int_lt env v w = Inr (RBool (int_of v < int_of w))"
    and "int_equal env v w \<longleftrightarrow> int_of v = int_of w"
proof -
  have both: "int_cmp env v w = Inr (INT2FIX (sgn (int_of v - int_of w)))
    \<and> int_gt env v w = Inr (RBool (int_of w < int_of v))
    \<and> int_lt env v w = Inr (RBool (int_of v < int_of w))
    \<and> (int_equal env v w \<longleftrightarrow> int_of v = int_of w)"
  proof (cases "\<exists>x y. v = VFix x \<and> w = VFix y")
    case True
    then obtain x y where vw: "v = VFix x" "w = VFix y" by blast
    then have eq: "x = y \<longleftrightarrow> int_of v = int_of w" using normal_int_unique [OF v w] by auto
    show ?thesis
      using eq by (auto simp: vw int_cmp_def fix_cmp_def int_gt_def fix_gt_def int_lt_def fix_lt_def int_equal_def
          fix_equal_def sgn_if)
  next
    case False
    have nz: "big_int (to_big v) \<noteq> 0 \<or> big_int (to_big w) \<noteq> 0"
      using False v w normal_big_nonzero by (cases v; cases w) auto
    note c = big_cmp_big_nonzero [OF digits_ok_to_big [OF v] digits_ok_to_big [OF w] nz]
      big_eq_big_correct [OF digits_ok_to_big [OF v] digits_ok_to_big [OF w] nz]
      big_eq_big_correct [OF digits_ok_to_big [OF w] digits_ok_to_big [OF v]]
    from False c nz show ?thesis
      by (cases v; cases w)
        (auto simp: int_cmp_def fix_cmp_def rb_big_cmp_def int_gt_def fix_gt_def int_lt_def fix_lt_def int_equal_def
          fix_equal_def rb_big_eq_def to_big_def sgn_if)
  qed
  then show "int_cmp env v w = Inr (INT2FIX (sgn (int_of v - int_of w)))"
    "int_gt env v w = Inr (RBool (int_of w < int_of v))"
    "int_lt env v w = Inr (RBool (int_of v < int_of w))"
    "int_equal env v w \<longleftrightarrow> int_of v = int_of w" by simp_all
qed

lemma fits_int2big: "fits_memory (rb_int2big n)"
proof -
  have "length (trunc_digits [d]) = 1" for d by (simp add: trunc_digits.simps [of "[d]"])
  then show ?thesis
    by (simp add: fits_memory_def rb_int2big_def rb_uint2big_def Let_def DIGSPERLONG_def)
qed

lemma int2big_ok: "big_digits (rb_int2big n) \<noteq> []" "sign_ok (rb_int2big n)" "fits_memory (rb_int2big n)"
  using digits_ok_int2big [of n] by (simp_all add: digits_ok_def sign_ok_rb_int2big fits_int2big)

lemma fix_lshift_correct:
  "\<exists>v. fix_lshift val width = Inr v \<and> normal_int v \<and> int_of v = shift_spec (sint val) (uint width)"
proof (cases "32 - 1 < unat width \<or> 0 < drop_bit (32 - 1 - unat width) val")
  case True
  have "int_of (rb_uint2inum width) < 2 ^ 32" using u32_bounds [of width] by (simp add: rb_uint2inum_correct)
  with True lshift_int_correct [OF int2big_ok rb_uint2inum_correct(2), of width val] show ?thesis
    by (simp add: fix_lshift_def rb_uint2inum_correct(1) del: normal_int.simps)
next
  case False
  define k where "k = unat width"
  have k: "k \<le> 31" using False by (simp add: k_def)
  have "drop_bit (31 - k) val = 0" using False by (simp add: k_def word_gt_0)
  then have "uint val div 2 ^ (31 - k) = 0" by (metis unsigned_0 uint_drop_bit)
  then have lt: "uint val < 2 ^ (31 - k)"
    using u32_bounds(1) [of val] by (auto simp: zdiv_eq_0_iff)
  then have "uint val * 2 ^ k < 2 ^ (31 - k) * 2 ^ k" by (simp only: mult_less_cancel_right_pos [OF zero_less_power [of 2 k], simplified])
  also have "(2 :: int) ^ (31 - k) * 2 ^ k = 2 ^ 31" using k by (simp flip: power_add)
  finally have b: "uint val * 2 ^ k < 2 ^ 31" .
  have "uint val * 2 ^ k mod 2 ^ 32 = uint val * 2 ^ k"
    using b u32_bounds(1) [of val] by (intro mod_pos_pos_trivial) simp_all
  then have "uint (push_bit k val) = uint val * 2 ^ k" by (simp only: uint_push_bit) simp
  with b have "sint (push_bit k val) = uint val * 2 ^ k" by (simp only: sint_of_uint_u32) simp
  moreover have "(2 :: int) ^ (31 - k) \<le> 2 ^ 31" by (intro power_increasing) simp_all
  with lt have "uint val < 2 ^ 31" by linarith
  then have "sint val = uint val" by (simp add: sint_of_uint_u32)
  ultimately have "sint (push_bit k val) = shift_spec (sint val) (uint width)"
    by (simp add: shift_spec_def push_bit_eq_mult k_def)
  with False show ?thesis
    using rb_int2inum_correct [of "push_bit k val"] by (simp add: fix_lshift_def k_def del: normal_int.simps)
qed

lemma fix_rshift_correct:
  assumes "- (2 ^ 30) \<le> sint val" and "sint val < 2 ^ 30"
  shows "normal_int (fix_rshift val i) \<and> int_of (fix_rshift val i) = shift_spec (sint val) (- uint i)"
proof -
  have sp: "shift_spec (sint val) (- uint i) = drop_bit (unat i) (sint val)"
    using u32_bounds(1) [of i] by (cases "i = 0") (auto simp: shift_spec_def uint_0_iff)
  have dr: "- (2 ^ 30) \<le> drop_bit n (sint val) \<and> drop_bit n (sint val) < 2 ^ 30" for n
  proof -
    have one: "1 \<le> (2 :: int) ^ n" by simp
    have "(2 :: int) ^ 30 * 1 \<le> 2 ^ 30 * 2 ^ n" using one by (intro mult_left_mono) simp_all
    then have "sint val < 2 ^ 30 * 2 ^ n" using assms(2) by linarith
    then have "sint val div 2 ^ n < 2 ^ 30" by (intro div_less_int) simp_all
    moreover have "- (2 ^ 30) * 2 ^ n \<le> - (2 ^ 30) * (1 :: int)" using one by (intro mult_left_mono_neg) simp_all
    then have "- (2 ^ 30) * 2 ^ n \<le> sint val" using assms(1) by linarith
    then have "- (2 ^ 30) \<le> sint val div 2 ^ n" by (intro le_div_int) simp_all
    ultimately show ?thesis by (simp add: drop_bit_eq_div)
  qed
  show ?thesis
  proof (cases "32 - 1 \<le> unat i")
    case False
    then show ?thesis
      using dr [of "unat i"] by (auto simp: fix_rshift_def sp sint_signed_drop_bit_eq FIX2LONG_LONG2FIX fixable_defs)
  next
    case True
    have "(2 :: int) ^ 31 \<le> 2 ^ unat i" using True by (intro power_increasing) simp_all
    then have d: "drop_bit (unat i) (sint val) = (if sint val < 0 then - 1 else 0)"
      using assms by (auto simp: drop_bit_eq_div intro!: div_mod_int_unique(1) [of "sint val + 2 ^ unat i"] div_pos_pos_trivial)
    have "FIXABLE (sint (- 1 :: u32))" "FIXABLE (sint (0 :: u32))" by (simp_all add: fixable_defs)
    then show ?thesis using True by (auto simp: fix_rshift_def sp d FIX2LONG_LONG2FIX)
  qed
qed

lemma bignorm_normal: "normal_int (VBig b) \<Longrightarrow> bignorm (VBig b) = VBig b"
  using bignorm_big [of b] normal_int_unique [of "bignorm (VBig b)" "VBig b"] by simp

lemma fix_amount:
  assumes "normal_int (VFix w)"
  shows "sint (FIX2LONG w) < 0 \<Longrightarrow> uint (- FIX2LONG w) = - int_of (VFix w)"
    and "0 \<le> sint (FIX2LONG w) \<Longrightarrow> uint (FIX2LONG w) = int_of (VFix w)"
proof -
  show "uint (- FIX2LONG w) = - int_of (VFix w)" if "sint (FIX2LONG w) < 0"
    using that sint_fix_neg [OF assms] sint_of_uint_u32 [of "- FIX2LONG w"] u32_bounds [of "- FIX2LONG w"]
    by (simp split: if_splits)
  show "uint (FIX2LONG w) = int_of (VFix w)" if "0 \<le> sint (FIX2LONG w)"
    using that sint_of_uint_u32 [of "FIX2LONG w"] u32_bounds [of "FIX2LONG w"] by (simp split: if_splits)
qed

lemma int_shift_exact:
  assumes v: "normal_int v" "fits_memory (to_big v)" and w: "normal_int w"
  shows "int_of w < 2 ^ 32 \<Longrightarrow> \<exists>r. int_lshift env v w = Inr (RInt r) \<and> normal_int r
      \<and> int_of r = shift_spec (int_of v) (int_of w)"
    and "- (2 ^ 32) < int_of w \<Longrightarrow> \<exists>r. int_rshift env v w = Inr (RInt r) \<and> normal_int r
      \<and> int_of r = shift_spec (int_of v) (- int_of w)"
proof -
  have big: "big_digits (to_big v) \<noteq> []" "sign_ok (to_big v)"
    using digits_ok_to_big [OF v(1)] sign_ok_to_big [OF v(1)] by (auto simp: digits_ok_def)
  note L = lshift_int_correct [OF big v(2) w] and R = rshift_int_correct [OF big v(2) w]
  show "\<exists>r. int_lshift env v w = Inr (RInt r) \<and> normal_int r \<and> int_of r = shift_spec (int_of v) (int_of w)"
    if lt: "int_of w < 2 ^ 32"
  proof (cases "\<exists>x y. v = VFix x \<and> w = VFix y")
    case True
    then obtain x y where vw: "v = VFix x" "w = VFix y" by blast
    from fix_range [of x] v vw have x: "- (2 ^ 30) \<le> sint (FIX2LONG x)" "sint (FIX2LONG x) < 2 ^ 30" by auto
    have y: "normal_int (VFix y)" using w vw by simp
    show ?thesis
      using fix_amount [OF y] fix_rshift_correct [OF x, of "- FIX2LONG y"] fix_lshift_correct [of "FIX2LONG x" "FIX2LONG y"]
      by (cases "sint (FIX2LONG y) < 0") (auto simp: vw int_lshift_def rb_fix_lshift_def Let_def simp del: normal_int.simps)
  next
    case False
    with L lt show ?thesis
      by (cases v; cases w) (auto simp: int_lshift_def rb_fix_lshift_def rb_big_lshift_def shift_operand_def
          to_big_def Let_def simp del: normal_int.simps)
  qed
  show "\<exists>r. int_rshift env v w = Inr (RInt r) \<and> normal_int r \<and> int_of r = shift_spec (int_of v) (- int_of w)"
    if lt: "- (2 ^ 32) < int_of w"
  proof (cases "\<exists>x y. v = VFix x \<and> w = VFix y")
    case True
    then obtain x y where vw: "v = VFix x" "w = VFix y" by blast
    from fix_range [of x] v vw have x: "- (2 ^ 30) \<le> sint (FIX2LONG x)" "sint (FIX2LONG x) < 2 ^ 30" by auto
    have y: "normal_int (VFix y)" and nx: "normal_int (VFix x)" using v w vw by simp_all
    show ?thesis
      using fix_amount [OF y] fix_rshift_correct [OF x, of "FIX2LONG y"] fix_lshift_correct [of "FIX2LONG x" "- FIX2LONG y"] nx
      by (cases "sint (FIX2LONG y) < 0"; cases "FIX2LONG y = 0")
        (auto simp: vw int_rshift_def rb_fix_rshift_def Let_def shift_spec_def simp del: normal_int.simps)
  next
    case False
    with R lt show ?thesis
      by (cases v; cases w) (auto simp: int_rshift_def rb_fix_rshift_def rb_big_rshift_def shift_operand_def
          to_big_def Let_def simp del: normal_int.simps)
  qed
qed

lemma int_shift_range_error:
  assumes v: "normal_int v" "fits_memory (to_big v)" and w: "normal_int w"
  shows "2 ^ 32 \<le> int_of w \<Longrightarrow> int_lshift env v w = Inl RangeError"
    and "int_of w \<le> - (2 ^ 32) \<Longrightarrow> int_rshift env v w = Inl RangeError"
proof -
  have x: "big_digits (to_big v) \<noteq> []" "sign_ok (to_big v)"
    using digits_ok_to_big [OF v(1)] sign_ok_to_big [OF v(1)] by (auto simp: digits_ok_def)
  have big: "\<exists>b. w = VBig b" if "2 ^ 32 \<le> \<bar>int_of w\<bar>"
    using w that by (cases w) (auto simp: FIX2LONG_LONG2FIX fixable_defs)
  show "int_lshift env v w = Inl RangeError" if le: "2 ^ 32 \<le> int_of w"
  proof -
    obtain b where b: "w = VBig b" using big le by auto
    from lshift_int_correct [OF x v(2) w] le have "lshift_int (to_big v) w = Inl RangeError" by simp
    then show ?thesis
      by (cases v) (simp_all add: b int_lshift_def rb_fix_lshift_def rb_big_lshift_def shift_operand_def to_big_def Let_def)
  qed
  show "int_rshift env v w = Inl RangeError" if le: "int_of w \<le> - (2 ^ 32)"
  proof -
    obtain b where b: "w = VBig b" using big le by auto
    from rshift_int_correct [OF x v(2) w] le have "rshift_int (to_big v) w = Inl RangeError" by simp
    then show ?thesis
      by (cases v) (simp_all add: b int_rshift_def rb_fix_rshift_def rb_big_rshift_def shift_operand_def to_big_def Let_def)
  qed
qed

lemma int_aref_exact:
  assumes v: "normal_int v" "fits_memory (to_big v)" and w: "normal_int w"
  shows "int_aref env v w = Inr (INT2FIX (of_bool (0 \<le> int_of w \<and> bit (int_of v) (nat (int_of w)))))"
proof (cases v)
  case (VBig b)
  with v rb_big_aref_correct [OF normal_big_ok _ w, of b env] show ?thesis by (simp add: int_aref_def to_big_def)
next
  case (VFix x)
  let ?val = "FIX2LONG x"
  have neg: "bit ?val 31 \<longleftrightarrow> sint ?val < 0"
  proof -
    have "bit ?val 31 \<longleftrightarrow> odd (uint ?val div 2 ^ 31)"
      using bit_uint_iff [of ?val 31] by (simp only: bit_iff_odd [of "uint ?val"]) simp
    moreover have "uint ?val div 2 ^ 31 = (if uint ?val < 2 ^ 31 then 0 else 1)"
      using u32_bounds [of ?val] div_mod_int_unique(1) [of "uint ?val - 2 ^ 31" "2 ^ 31" "uint ?val" 1]
      by (auto intro: div_pos_pos_trivial)
    ultimately show ?thesis using u32_bounds [of ?val] by (simp add: sint_of_uint_u32)
  qed
  show ?thesis
  proof (cases w)
    case (VBig b)
    with w have nb: "normal_int (VBig b)" by simp
    then have gt: "\<not> FIXABLE (big_int b)" and s: "big_sign b \<longleftrightarrow> 0 < big_int b" using normal_big_sign by auto
    have "int_aref env v w = Inr (if \<not> big_sign b \<or> 0 \<le> sint ?val then INT2FIX 0 else INT2FIX 1)"
      by (simp add: VFix VBig int_aref_def fix_aref_def fix_aref_int_def rb_big_norm_def bignorm_normal [OF nb])
    moreover have "bit (sint ?val) (nat (big_int b)) = (sint ?val < 0)" if "big_sign b"
    proof -
      have "32 \<le> nat (big_int b)" using that gt s by (auto simp: fixable_defs)
      then show ?thesis using neg by (auto simp: bit_sint_iff dest: bit_imp_le_length)
    qed
    ultimately show ?thesis using s gt by (auto simp: VFix VBig fixable_defs)
  next
    case w': (VFix y)
    let ?i = "FIX2LONG y"
    have b: "?val AND push_bit (unat ?i) 1 \<noteq> 0 \<longleftrightarrow> bit ?val (unat ?i)" by (rule and_push_bit_iff)
    have "bit (sint ?val) n = (sint ?val < 0)" if "31 < n" for n
      using that neg by (auto simp: bit_sint_iff dest: bit_imp_le_length)
    moreover have "bit (sint ?val) n = bit ?val n" if "n \<le> 31" for n
      using that by (simp add: bit_sint_iff)
    ultimately show ?thesis
      using nat_of_sint [of ?i] b
      by (auto simp: VFix w' int_aref_def fix_aref_def fix_aref_int_def Let_def)
  qed
qed

text \<open>
  The model's integers are such a representation, and its operators meet the contracts (no thread
  asks a long multiplication or division to stop).
\<close>

interpretation ruby_int: int_repr normal_int int_of
  by unfold_locales (rule normal_int_unique)

interpretation ruby_arith: int_euclid normal_int int_of "\<lambda>r. Inr (RInt r)" "\<lambda>r. Some (Inr (RInt r))"
    "int_plus env" "int_mul env (\<lambda>_. False)" "int_div env (\<lambda>_. False)" "int_modulo env (\<lambda>_. False)"
  for env :: "('f, 'o) rb_env"
  using int_plus_exact [of _ _ env] int_mul_exact [of "\<lambda>_. False" _ _ env]
    int_div_exact [of "\<lambda>_. False" _ _ env] int_modulo_exact [of "\<lambda>_. False" _ _ env]
  by unfold_locales simp_all

interpretation ruby_minus: exact_op normal_int int_of "\<lambda>r. Inr (RInt r)" "int_minus env" "(-)" "\<lambda>_ _. True"
  for env :: "('f, 'o) rb_env"
  using int_minus_exact [of _ _ env] by unfold_locales simp_all

interpretation ruby_and: exact_op normal_int int_of "\<lambda>r. Inr (RInt r)" "int_and env" "(AND)" "\<lambda>_ _. True"
  for env :: "('f, 'o) rb_env"
  using int_and_exact [of _ _ env] by unfold_locales simp_all

interpretation ruby_or: exact_op normal_int int_of "\<lambda>r. Inr (RInt r)" "int_or env" "(OR)" "\<lambda>_ _. True"
  for env :: "('f, 'o) rb_env"
  using int_or_exact [of _ _ env] by unfold_locales simp_all

interpretation ruby_xor: exact_op normal_int int_of "\<lambda>r. Inr (RInt r)" "int_xor env" "(XOR)" "\<lambda>_ _. True"
  for env :: "('f, 'o) rb_env"
  using int_xor_exact [of _ _ env] by unfold_locales simp_all

section \<open>Iteration\<close>

text \<open>
  The integers that a method yields to its block, in order; the block neither breaks nor raises.
  A loop that did not end would be \<open>None\<close>.
\<close>

partial_function (option) upto_loop :: "u32 \<Rightarrow> u32 \<Rightarrow> rb_int list option" where
  "upto_loop i stop =
     (if sint i \<le> sint stop
      then do { ys \<leftarrow> upto_loop (i + 1) stop; Some (VFix (LONG2FIX i) # ys) }
      else Some [])"

declare upto_loop.simps [code]

partial_function (option) upto_calls :: "('f, 'o) rb_env \<Rightarrow> rb_int \<Rightarrow> rb_int \<Rightarrow> rb_int list option" where
  "upto_calls env i to =
     (if int_gt env i to = Inr (RBool False) then
        (case int_plus env i (VFix (LONG2FIX 1)) of
           Inr (RInt j) \<Rightarrow> do { ys \<leftarrow> upto_calls env j to; Some (i # ys) }
         | _ \<Rightarrow> None)
      else Some [])"

declare upto_calls.simps [code]

definition int_upto :: "('f, 'o) rb_env \<Rightarrow> rb_int \<Rightarrow> rb_int \<Rightarrow> rb_int list option" where
  "int_upto env from to =
     (case (from, to) of
        (VFix x, VFix y) \<Rightarrow> upto_loop (FIX2LONG x) (FIX2LONG y)
      | _ \<Rightarrow> upto_calls env from to)"

partial_function (option) downto_loop :: "u32 \<Rightarrow> u32 \<Rightarrow> rb_int list option" where
  "downto_loop i stop =
     (if sint stop \<le> sint i
      then do { ys \<leftarrow> downto_loop (i - 1) stop; Some (VFix (LONG2FIX i) # ys) }
      else Some [])"

declare downto_loop.simps [code]

partial_function (option) downto_calls :: "('f, 'o) rb_env \<Rightarrow> rb_int \<Rightarrow> rb_int \<Rightarrow> rb_int list option" where
  "downto_calls env i to =
     (if int_lt env i to = Inr (RBool False) then
        (case int_minus env i (VFix (LONG2FIX 1)) of
           Inr (RInt j) \<Rightarrow> do { ys \<leftarrow> downto_calls env j to; Some (i # ys) }
         | _ \<Rightarrow> None)
      else Some [])"

declare downto_calls.simps [code]

definition int_downto :: "('f, 'o) rb_env \<Rightarrow> rb_int \<Rightarrow> rb_int \<Rightarrow> rb_int list option" where
  "int_downto env from to =
     (case (from, to) of
        (VFix x, VFix y) \<Rightarrow> downto_loop (FIX2LONG x) (FIX2LONG y)
      | _ \<Rightarrow> downto_calls env from to)"

partial_function (option) times_loop :: "u32 \<Rightarrow> u32 \<Rightarrow> rb_int list option" where
  "times_loop i stop =
     (if sint i < sint stop
      then do { ys \<leftarrow> times_loop (i + 1) stop; Some (VFix (LONG2FIX i) # ys) }
      else Some [])"

declare times_loop.simps [code]

partial_function (option) times_calls :: "('f, 'o) rb_env \<Rightarrow> rb_int \<Rightarrow> rb_int \<Rightarrow> rb_int list option" where
  "times_calls env i num =
     (if int_lt env i num \<noteq> Inr (RBool True) then Some []
      else
        (case int_plus env i (VFix (LONG2FIX 1)) of
           Inr (RInt j) \<Rightarrow> do { ys \<leftarrow> times_calls env j num; Some (i # ys) }
         | _ \<Rightarrow> None))"

declare times_calls.simps [code]

definition int_dotimes :: "('f, 'o) rb_env \<Rightarrow> rb_int \<Rightarrow> rb_int list option" where
  "int_dotimes env num =
     (case num of
        VFix x \<Rightarrow> times_loop 0 (FIX2LONG x)
      | VBig b \<Rightarrow> times_calls env (VFix (LONG2FIX 0)) num)"

partial_function (option) step_loop :: "u32 \<Rightarrow> u32 \<Rightarrow> u32 \<Rightarrow> rb_int list option" where
  "step_loop i stop diff =
     (if (if 0 < sint diff then sint i \<le> sint stop else sint stop \<le> sint i)
      then do { ys \<leftarrow> step_loop (i + diff) stop diff; Some (VFix (LONG2FIX i) # ys) }
      else Some [])"

declare step_loop.simps [code]

text \<open>\<open>num_step\<close> with an \<open>Integer\<close> limit and step; \<open>None\<close> as the step stands for one argument.\<close>

partial_function (option) step_calls :: "('f, 'o) rb_env \<Rightarrow> bool \<Rightarrow> rb_int \<Rightarrow> rb_int \<Rightarrow> rb_int \<Rightarrow> rb_int list option" where
  "step_calls env up i to step =
     (if (if up then int_gt env i to else int_lt env i to) = Inr (RBool True) then Some []
      else
        (case int_plus env i step of
           Inr (RInt j) \<Rightarrow> do { ys \<leftarrow> step_calls env up j to step; Some (i # ys) }
         | _ \<Rightarrow> None))"

declare step_calls.simps [code]

definition num_step :: "('f, 'o) rb_env \<Rightarrow> rb_int \<Rightarrow> rb_int \<Rightarrow> rb_int option \<Rightarrow> (rb_error + rb_int list) option" where
  "num_step env from to argstep =
     (if (case argstep of Some st \<Rightarrow> int_equal env st (VFix (LONG2FIX 0)) | None \<Rightarrow> False)
      then Some (Inl ArgError)
      else
        let step = (case argstep of Some st \<Rightarrow> st | None \<Rightarrow> VFix (LONG2FIX 1)) in
        map_option Inr
          (case (from, to, step) of
             (VFix x, VFix y, VFix d) \<Rightarrow> step_loop (FIX2LONG x) (FIX2LONG y) (FIX2LONG d)
           | _ \<Rightarrow>
               step_calls env (int_gt env step (VFix (LONG2FIX 0)) = Inr (RBool True)) from to step))"

text \<open>
  All eight loops count: from \<open>a\<close> by steps of \<open>d\<close> while the limit \<open>b\<close> is not passed, \<open>steps a b d\<close>
  times.
\<close>

definition steps :: "int \<Rightarrow> int \<Rightarrow> int \<Rightarrow> nat" where
  "steps a b d = (if 0 < d then nat ((b - a) div d + 1) else nat ((a - b) div (- d) + 1))"

definition emits :: "rb_int list \<Rightarrow> int \<Rightarrow> int \<Rightarrow> nat \<Rightarrow> bool" where
  "emits ys a d n \<longleftrightarrow> (\<forall>y \<in> set ys. normal_int y) \<and> map int_of ys = map (\<lambda>k. a + int k * d) [0..<n]"

lemma steps_pos: "d \<noteq> 0 \<Longrightarrow> 0 < steps a b d \<longleftrightarrow> (if 0 < d then a \<le> b else b \<le> a)"
proof -
  assume d: "d \<noteq> 0"
  have q: "0 < c div e + 1 \<longleftrightarrow> 0 \<le> c" if "0 < e" for c e :: int
    using pos_imp_zdiv_nonneg_iff [OF that, of c] by auto
  show ?thesis
    using d q [of d "b - a"] q [of "- d" "a - b"] by (auto simp: steps_def)
qed

lemma steps_Suc:
  assumes "d \<noteq> 0" and "0 < steps a b d"
  shows "steps a b d = Suc (steps (a + d) b d)"
proof -
  have q: "c div e = (c - e) div e + 1" if "0 < e" for c e :: int
    using div_add_self2 [of e "c - e"] that by simp
  have ge: "if 0 < d then a \<le> b else b \<le> a" using assms steps_pos by simp
  show ?thesis
  proof (cases "0 < d")
    case True
    then have "0 \<le> (b - a) div d" using ge by (simp add: pos_imp_zdiv_nonneg_iff)
    moreover have e: "b - (a + d) = b - a - d" by simp
    ultimately show ?thesis
      using True q [OF True, of "b - a"] unfolding steps_def e by (simp add: Suc_nat_eq_nat_zadd1)
  next
    case False
    then have p: "0 < - d" using assms(1) by simp
    then have "0 \<le> (a - b) div (- d)" using ge False by (simp add: pos_imp_zdiv_nonneg_iff)
    moreover have e: "a + d - b = a - b - (- d)" by simp
    ultimately show ?thesis
      using False q [OF p, of "a - b"] unfolding steps_def e by (simp add: Suc_nat_eq_nat_zadd1)
  qed
qed

lemma emits_Cons:
  assumes "normal_int y" and "int_of y = a" and "emits ys (a + d) d n"
  shows "emits (y # ys) a d (Suc n)"
proof -
  have "map (\<lambda>k. a + int k * d) [0..<Suc n] = a # map (\<lambda>k. a + d + int k * d) [0..<n]"
    by (simp add: upt_conv_Cons map_Suc_upt [symmetric] algebra_simps o_def del: upt_Suc)
  with assms show ?thesis by (simp add: emits_def)
qed

locale counting_loop =
  fixes L :: "'i \<Rightarrow> rb_int list option" and P G :: "'i \<Rightarrow> bool" and N :: "'i \<Rightarrow> 'i"
    and E :: "'i \<Rightarrow> rb_int" and V :: "'i \<Rightarrow> int" and b d :: int
  assumes loop: "P i \<Longrightarrow> L i = (if G i then do { ys \<leftarrow> L (N i); Some (E i # ys) } else Some [])"
    and go: "P i \<Longrightarrow> d \<noteq> 0 \<and> (G i \<longleftrightarrow> (if 0 < d then V i \<le> b else b \<le> V i))"
    and next_inv: "P i \<Longrightarrow> G i \<Longrightarrow> P (N i)" and next_val: "P i \<Longrightarrow> G i \<Longrightarrow> V (N i) = V i + d"
    and emit: "P i \<Longrightarrow> G i \<Longrightarrow> normal_int (E i) \<and> int_of (E i) = V i"
begin

lemma counts: "P i \<Longrightarrow> \<exists>ys. L i = Some ys \<and> emits ys (V i) d (steps (V i) b d)"
proof (induction "steps (V i) b d" arbitrary: i)
  case 0
  then have "\<not> G i" using go [OF 0(2)] steps_pos [of d "V i" b] by simp
  with 0 show ?case by (simp add: loop emits_def)
next
  case (Suc n)
  then have g: "G i" using go [OF Suc.prems] steps_pos [of d "V i" b] by simp
  have "steps (V i) b d = Suc (steps (V (N i)) b d)"
    using steps_Suc [of d "V i" b] go [OF Suc.prems] Suc.hyps(2) next_val [OF Suc.prems g] by simp
  moreover from this Suc.hyps(2) have "n = steps (V (N i)) b d" by simp
  from Suc.hyps(1) [OF this next_inv [OF Suc.prems g]] obtain ys where
    "L (N i) = Some ys" "emits ys (V (N i)) d (steps (V (N i)) b d)" by blast
  ultimately show ?case
    using emits_Cons emit [OF Suc.prems g] g next_val [OF Suc.prems g] by (simp add: loop [OF Suc.prems])
qed

end

text \<open>The fixnum loops: the counter passes the limit without overflow, as the limit is a fixnum.\<close>

definition fix_counter :: "u32 \<Rightarrow> u32 \<Rightarrow> u32 \<Rightarrow> bool" where
  "fix_counter stop diff i \<longleftrightarrow> FIXABLE (sint stop) \<and> FIXABLE (sint diff) \<and> sint diff \<noteq> 0
     \<and> (if 0 < sint diff then - (2 ^ 30) \<le> sint i else sint i < 2 ^ 30)"

lemma fix_counter_add:
  assumes "fix_counter stop diff i" and "if 0 < sint diff then sint i \<le> sint stop else sint stop \<le> sint i"
  shows "sint (i + diff) = sint i + sint diff" and "fix_counter stop diff (i + diff)"
    and "normal_int (VFix (LONG2FIX i)) \<and> int_of (VFix (LONG2FIX i)) = sint i"
proof -
  show s: "sint (i + diff) = sint i + sint diff"
    using assms by (intro sint_add_nowrap_u32) (auto simp: fix_counter_def fixable_defs split: if_splits)
  show "fix_counter stop diff (i + diff)"
    using assms s by (auto simp: fix_counter_def fixable_defs split: if_splits)
  have "FIXABLE (sint i)" using assms by (auto simp: fix_counter_def fixable_defs split: if_splits)
  then show "normal_int (VFix (LONG2FIX i)) \<and> int_of (VFix (LONG2FIX i)) = sint i"
    by (auto simp: FIX2LONG_LONG2FIX)
qed

interpretation step_fix: counting_loop "\<lambda>i. step_loop i stop diff" "fix_counter stop diff"
    "\<lambda>i. if 0 < sint diff then sint i \<le> sint stop else sint stop \<le> sint i" "\<lambda>i. i + diff"
    "\<lambda>i. VFix (LONG2FIX i)" sint "sint stop" "sint diff"
  for stop diff :: u32
proof (unfold_locales, goal_cases)
  case (2 i)
  then show ?case by (simp add: fix_counter_def)
qed (use fix_counter_add [of stop diff] in \<open>simp_all add: step_loop.simps\<close>)

interpretation upto_fix: counting_loop "\<lambda>i. upto_loop i stop" "fix_counter stop 1"
    "\<lambda>i. sint i \<le> sint stop" "\<lambda>i. i + 1" "\<lambda>i. VFix (LONG2FIX i)" sint "sint stop" 1
  for stop :: u32
  using fix_counter_add [of stop 1]
  by unfold_locales (simp_all add: upto_loop.simps)

interpretation downto_fix: counting_loop "\<lambda>i. downto_loop i stop" "fix_counter stop (- 1)"
    "\<lambda>i. sint stop \<le> sint i" "\<lambda>i. i - 1" "\<lambda>i. VFix (LONG2FIX i)" sint "sint stop" "- 1"
  for stop :: u32
  using fix_counter_add [of stop "- 1"]
  by unfold_locales (simp_all add: downto_loop.simps)

interpretation times_fix: counting_loop "\<lambda>i. times_loop i stop" "fix_counter stop 1"
    "\<lambda>i. sint i < sint stop" "\<lambda>i. i + 1" "\<lambda>i. VFix (LONG2FIX i)" sint "sint stop - 1" 1
  for stop :: u32
  using fix_counter_add [of stop 1]
  by unfold_locales (auto simp add: times_loop.simps)

text \<open>The loops over Ruby calls rest on the contracts of \<open>+\<close>, \<open>-\<close>, \<open><\<close> and \<open>>\<close>.\<close>

definition pick :: "('f, 'o) rb_result \<Rightarrow> rb_int" where
  "pick r = (case r of Inr (RInt v) \<Rightarrow> v | _ \<Rightarrow> VFix 0)"

lemma normal_one: "normal_int (VFix (LONG2FIX 1))" "int_of (VFix (LONG2FIX 1)) = 1"
  "normal_int (VFix (LONG2FIX 0))" "int_of (VFix (LONG2FIX 0)) = 0"
  by (auto simp: FIX2LONG_LONG2FIX fixable_defs)

lemma pick_plus:
  assumes "normal_int i" and "normal_int st"
  shows "int_plus env i st = Inr (RInt (pick (int_plus env i st)))"
    and "normal_int (pick (int_plus env i st))" and "int_of (pick (int_plus env i st)) = int_of i + int_of st"
  using int_plus_exact [OF assms, of env] by (auto simp: pick_def simp del: normal_int.simps)

lemma pick_minus:
  assumes "normal_int i" and "normal_int st"
  shows "int_minus env i st = Inr (RInt (pick (int_minus env i st)))"
    and "normal_int (pick (int_minus env i st))" and "int_of (pick (int_minus env i st)) = int_of i - int_of st"
  using int_minus_exact [OF assms, of env] by (auto simp: pick_def simp del: normal_int.simps)

interpretation step_big: counting_loop "\<lambda>i. step_calls env (0 < int_of st) i to st"
    "\<lambda>i. normal_int i \<and> normal_int to \<and> normal_int st \<and> int_of st \<noteq> 0"
    "\<lambda>i. if 0 < int_of st then int_of i \<le> int_of to else int_of to \<le> int_of i"
    "\<lambda>i. pick (int_plus env i st)" "\<lambda>i. i" int_of "int_of to" "int_of st"
  for env :: "('f, 'o) rb_env" and to st :: rb_int
proof (unfold_locales, goal_cases)
  case (1 i)
  then obtain r where "int_plus env i st = Inr (RInt r)" using int_plus_exact by blast
  with 1 show ?case by (subst step_calls.simps) (auto simp: int_cmp_sgn not_less pick_def)
qed (auto simp: pick_plus(2,3) simp del: normal_int.simps)

interpretation upto_big: counting_loop "\<lambda>i. upto_calls env i to" "\<lambda>i. normal_int i \<and> normal_int to"
    "\<lambda>i. int_of i \<le> int_of to" "\<lambda>i. pick (int_plus env i (VFix (LONG2FIX 1)))" "\<lambda>i. i" int_of "int_of to" 1
  for env :: "('f, 'o) rb_env" and to :: rb_int
proof (unfold_locales, goal_cases)
  case (1 i)
  then obtain r where "int_plus env i (VFix (LONG2FIX 1)) = Inr (RInt r)"
    using int_plus_exact normal_one(1) by blast
  with 1 show ?case by (subst upto_calls.simps) (simp add: int_cmp_sgn not_less pick_def)
qed (auto simp: pick_plus(2,3) normal_one simp del: normal_int.simps int_of.simps)

interpretation downto_big: counting_loop "\<lambda>i. downto_calls env i to" "\<lambda>i. normal_int i \<and> normal_int to"
    "\<lambda>i. int_of to \<le> int_of i" "\<lambda>i. pick (int_minus env i (VFix (LONG2FIX 1)))" "\<lambda>i. i" int_of "int_of to" "- 1"
  for env :: "('f, 'o) rb_env" and to :: rb_int
proof (unfold_locales, goal_cases)
  case (1 i)
  then obtain r where "int_minus env i (VFix (LONG2FIX 1)) = Inr (RInt r)"
    using int_minus_exact normal_one(1) by blast
  with 1 show ?case by (subst downto_calls.simps) (simp add: int_cmp_sgn not_less pick_def)
qed (auto simp: pick_minus(2,3) normal_one simp del: normal_int.simps int_of.simps)

interpretation times_big: counting_loop "\<lambda>i. times_calls env i num" "\<lambda>i. normal_int i \<and> normal_int num"
    "\<lambda>i. int_of i < int_of num" "\<lambda>i. pick (int_plus env i (VFix (LONG2FIX 1)))" "\<lambda>i. i" int_of "int_of num - 1" 1
  for env :: "('f, 'o) rb_env" and num :: rb_int
proof (unfold_locales, goal_cases)
  case (1 i)
  then obtain r where "int_plus env i (VFix (LONG2FIX 1)) = Inr (RInt r)"
    using int_plus_exact normal_one(1) by blast
  with 1 show ?case by (subst times_calls.simps) (simp add: int_cmp_sgn pick_def)
qed (auto simp: pick_plus(2,3) normal_one simp del: normal_int.simps int_of.simps)

lemma fix_counter_fixnums:
  assumes "normal_int (VFix x)" and "normal_int (VFix y)" and "normal_int (VFix d)" and "int_of (VFix d) \<noteq> 0"
  shows "fix_counter (FIX2LONG y) (FIX2LONG d) (FIX2LONG x)"
  using fix_range [OF assms(1)] fix_range [OF assms(2)] fix_range [OF assms(3)] assms(4)
  by (auto simp: fix_counter_def fixable_defs)

lemma num_step_exact:
  assumes v: "normal_int from" "normal_int to" and st: "normal_int st" "int_of st \<noteq> 0"
  shows "\<exists>ys. num_step env from to (Some st) = Some (Inr ys)
    \<and> emits ys (int_of from) (int_of st) (steps (int_of from) (int_of to) (int_of st))"
proof (cases "\<exists>x y d. from = VFix x \<and> to = VFix y \<and> st = VFix d")
  case True
  then obtain x y d where e: "from = VFix x" "to = VFix y" "st = VFix d" by blast
  from step_fix.counts [OF fix_counter_fixnums] v st e
  have "\<exists>ys. step_loop (FIX2LONG x) (FIX2LONG y) (FIX2LONG d) = Some ys
    \<and> emits ys (int_of from) (int_of st) (steps (int_of from) (int_of to) (int_of st))" by simp
  with st show ?thesis by (auto simp: num_step_def int_cmp_sgn normal_one e simp del: normal_int.simps int_of.simps)
next
  case False
  have "num_step env from to (Some st) = map_option Inr (step_calls env (0 < int_of st) from to st)"
    using False st by (cases "from"; cases to; cases st)
      (auto simp: num_step_def Let_def int_cmp_sgn normal_one simp del: normal_int.simps int_of.simps)
  with step_big.counts [of "from" to st env] v st show ?thesis by auto
qed

lemma num_step_zero:
  "normal_int st \<Longrightarrow> int_of st = 0 \<Longrightarrow> num_step env from to (Some st) = Some (Inl ArgError)"
  by (simp add: num_step_def int_cmp_sgn normal_one del: normal_int.simps int_of.simps)

lemma int_upto_exact:
  assumes v: "normal_int from" "normal_int to"
  shows "\<exists>ys. int_upto env from to = Some ys \<and> emits ys (int_of from) 1 (steps (int_of from) (int_of to) 1)"
proof (cases "\<exists>x y. from = VFix x \<and> to = VFix y")
  case True
  then obtain x y where e: "from = VFix x" "to = VFix y" by blast
  have "fix_counter (FIX2LONG y) 1 (FIX2LONG x)"
    using fix_range [of x] fix_range [of y] v e by (auto simp: fix_counter_def fixable_defs)
  from upto_fix.counts [OF this] show ?thesis by (simp add: int_upto_def e)
next
  case False
  then have "int_upto env from to = upto_calls env from to" by (cases "from"; cases to) (auto simp: int_upto_def)
  with upto_big.counts [of "from" to env] v show ?thesis by simp
qed

lemma int_downto_exact:
  assumes v: "normal_int from" "normal_int to"
  shows "\<exists>ys. int_downto env from to = Some ys
    \<and> emits ys (int_of from) (- 1) (steps (int_of from) (int_of to) (- 1))"
proof (cases "\<exists>x y. from = VFix x \<and> to = VFix y")
  case True
  then obtain x y where e: "from = VFix x" "to = VFix y" by blast
  have "fix_counter (FIX2LONG y) (- 1) (FIX2LONG x)"
    using fix_range [of x] fix_range [of y] v e by (auto simp: fix_counter_def fixable_defs)
  from downto_fix.counts [OF this] show ?thesis by (simp add: int_downto_def e)
next
  case False
  then have "int_downto env from to = downto_calls env from to" by (cases "from"; cases to) (auto simp: int_downto_def)
  with downto_big.counts [of "from" to env] v show ?thesis by simp
qed

lemma int_dotimes_exact:
  assumes "normal_int num"
  shows "\<exists>ys. int_dotimes env num = Some ys \<and> emits ys 0 1 (nat (int_of num))"
proof -
  have "steps 0 (int_of num - 1) 1 = nat (int_of num)" by (simp add: steps_def)
  moreover have "fix_counter (FIX2LONG x) 1 0" if "num = VFix x" for x
    using fix_range [of x] assms that by (auto simp: fix_counter_def fixable_defs)
  moreover have "\<exists>ys. times_calls env (VFix (LONG2FIX 0)) num = Some ys \<and> emits ys 0 1 (steps 0 (int_of num - 1) 1)"
    using times_big.counts [of "VFix (LONG2FIX 0)" num env] assms by (simp only: normal_one simp_thms)
  ultimately show ?thesis
    using times_fix.counts [of "FIX2LONG x" 0 for x]
    by (cases num) (simp_all add: int_dotimes_def, metis)
qed

section \<open>Rounding\<close>

definition rb_Float_int :: "('f, 'o) rb_env \<Rightarrow> rb_int \<Rightarrow> 'f" where
  "rb_Float_int env v = (case v of VFix x \<Rightarrow> dbl_of_long env (FIX2LONG x) | VBig b \<Rightarrow> rb_big2dbl env b)"

text \<open>
  The last part of \<open>int_round\<close>, once \<open>f\<close> is the power of ten: machine arithmetic on two fixnums,
  Ruby calls otherwise.
\<close>

definition round_fix :: "u32 \<Rightarrow> u32 \<Rightarrow> rb_int" where
  "round_fix num f =
     (let x = FIX2LONG num; y = FIX2LONG f; neg = sint x < 0;
          x = (if neg then - x else x);
          x = c_div (x + c_div y 2) y * y;
          x = (if neg then - x else x)
      in rb_int2inum x)"

definition round_calls :: "('f, 'o) rb_env \<Rightarrow> (nat \<Rightarrow> bool) \<Rightarrow> rb_int \<Rightarrow> rb_int \<Rightarrow> ('f, 'o) rb_result option" where
  "round_calls env stop num f =
     (case (int_div env stop f (VFix (LONG2FIX 2)), int_modulo env stop num f) of
        (Some (Inr (RInt h)), Some (Inr (RInt r))) \<Rightarrow>
          (case int_minus env num r of
             Inr (RInt n) \<Rightarrow>
               if int_lt env r h \<noteq> Inr (RBool True) then Some (int_plus env n f) else Some (Inr (RInt n))
           | e \<Rightarrow> Some e)
      | (Some (Inr _), e) \<Rightarrow> e
      | (e, _) \<Rightarrow> e)"

text \<open>
  \<open>ndigits\<close> is the argument after \<open>NUM2INT\<close>, \<open>None\<close> when there is none.  A power of ten that
  \<open>int_pow\<close> delivers as a \<open>Float\<close> is left to the parameter \<open>float_calls\<close>.
\<close>

definition int_round :: "('f, 'o) rb_env \<Rightarrow> (nat \<Rightarrow> bool) \<Rightarrow> (('f, 'o) rb_value \<Rightarrow> ('f, 'o) rb_result option) \<Rightarrow>
    rb_int \<Rightarrow> u32 option \<Rightarrow> ('f, 'o) rb_result option" where
  "int_round env stop float_calls num args =
     (case args of
        None \<Rightarrow> Some (Inr (RInt num))
      | Some ndigits \<Rightarrow>
          if 0 < sint ndigits then Some (Inr (RFloat (rb_Float_int env num)))
          else if ndigits = 0 then Some (Inr (RInt num))
          else if sint (- ndigits) < 0 then Some (Inl ArgError)
          else
            (case int_pow env stop 10 (- ndigits) of
               Some (Inr (RInt f)) \<Rightarrow>
                 (case (num, f) of
                    (VFix x, VFix y) \<Rightarrow> Some (Inr (RInt (round_fix x y)))
                  | _ \<Rightarrow> round_calls env stop num f)
             | Some (Inr f) \<Rightarrow> float_calls f
             | r \<Rightarrow> r))"

text \<open>
  The two branches round differently: between fixnums a half goes away from zero, otherwise towards
  positive infinity.
\<close>

definition round_away :: "int \<Rightarrow> int \<Rightarrow> int" where
  "round_away x y = sgn x * ((\<bar>x\<bar> + y div 2) div y * y)"

definition round_up :: "int \<Rightarrow> int \<Rightarrow> int" where
  "round_up x y = (if x mod y < y div 2 then x - x mod y else x - x mod y + y)"

lemma round_fix_exact:
  assumes x: "normal_int (VFix x)" and y: "normal_int (VFix y)" "0 < int_of (VFix y)"
  shows "normal_int (round_fix x y) \<and> int_of (round_fix x y) = round_away (int_of (VFix x)) (int_of (VFix y))"
proof -
  let ?X = "sint (FIX2LONG x)" and ?Y = "sint (FIX2LONG y)"
  define a where "a = (if ?X < 0 then - FIX2LONG x else FIX2LONG x)"
  define q where "q = (\<bar>?X\<bar> + ?Y div 2) div ?Y"
  have bx: "\<bar>?X\<bar> \<le> 2 ^ 30" and bY: "0 < ?Y" "?Y < 2 ^ 30" using fix_range [OF x] fix_range [OF y(1)] y(2) by auto
  have a: "sint a = \<bar>?X\<bar>" using bx by (auto simp: a_def intro!: sint_minus_nowrap_u32)
  have h: "sint (c_div (FIX2LONG y) 2) = ?Y div 2" using c_div_pos [of "FIX2LONG y" 2] bY by simp
  have hb: "0 \<le> ?Y div 2" "?Y div 2 < 2 ^ 30" using bY div_le_self_int [of ?Y 2] by auto
  have s: "sint (a + c_div (FIX2LONG y) 2) = \<bar>?X\<bar> + ?Y div 2"
    using a h hb bx by (subst sint_add_nowrap_u32) auto
  have qq: "sint (c_div (a + c_div (FIX2LONG y) 2) (FIX2LONG y)) = q"
    using c_div_pos [of "a + c_div (FIX2LONG y) 2" "FIX2LONG y"] s hb bY by (simp add: q_def)
  have "0 \<le> q" using hb bY by (simp add: q_def pos_imp_zdiv_nonneg_iff)
  moreover have "q * ?Y \<le> \<bar>?X\<bar> + ?Y div 2" unfolding q_def by (rule div_mult_le_int [OF bY(1)])
  ultimately have qy: "0 \<le> q * ?Y" "q * ?Y < 2 ^ 31" using bY(1) hb bx by simp_all
  then have m: "sint (c_div (a + c_div (FIX2LONG y) 2) (FIX2LONG y) * FIX2LONG y) = q * ?Y"
    using qq by (subst sint_mult_nowrap_u32) auto
  have "sgn ?X * (q * ?Y) = (if ?X < 0 then - (q * ?Y) else q * ?Y)"
  proof (cases "?X = 0")
    case True
    then have "q = 0" using hb bY by (simp add: q_def div_pos_pos_trivial pos_imp_zdiv_neg_iff)
    then show ?thesis by simp
  qed (auto simp: sgn_if)
  then have "sint (if ?X < 0 then - (c_div (a + c_div (FIX2LONG y) 2) (FIX2LONG y) * FIX2LONG y)
      else c_div (a + c_div (FIX2LONG y) 2) (FIX2LONG y) * FIX2LONG y) = round_away ?X ?Y"
    using m qy by (simp add: round_away_def sint_uminus_u32 flip: q_def)
  moreover have "round_fix x y = rb_int2inum (if ?X < 0
      then - (c_div (a + c_div (FIX2LONG y) 2) (FIX2LONG y) * FIX2LONG y)
      else c_div (a + c_div (FIX2LONG y) 2) (FIX2LONG y) * FIX2LONG y)"
    by (simp only: round_fix_def Let_def a_def)
  ultimately show ?thesis by (simp only: rb_int2inum_correct) simp
qed

lemma normal_two: "normal_int (VFix (LONG2FIX 2))" "int_of (VFix (LONG2FIX 2)) = 2"
  by (auto simp: FIX2LONG_LONG2FIX fixable_defs)

lemma round_calls_exact:
  assumes st: "\<forall>k. \<not> stop k" and v: "normal_int num" "normal_int f" "0 < int_of f"
  shows "\<exists>r. round_calls env stop num f = Some (Inr (RInt r)) \<and> normal_int r
    \<and> int_of r = round_up (int_of num) (int_of f)"
proof -
  have nz: "int_of (VFix (LONG2FIX 2)) \<noteq> 0" "int_of f \<noteq> 0" using normal_two v by simp_all
  obtain h where h: "int_div env stop f (VFix (LONG2FIX 2)) = Some (Inr (RInt h))" "normal_int h" "int_of h = int_of f div 2"
    using int_div_exact [OF st v(2) normal_two(1) nz(1), of env] normal_two(2) by (metis)
  obtain r where r: "int_modulo env stop num f = Some (Inr (RInt r))" "normal_int r" "int_of r = int_of num mod int_of f"
    using int_modulo_exact [OF st v(1,2) nz(2), of env] by blast
  obtain n where n: "int_minus env num r = Inr (RInt n)" "normal_int n" "int_of n = int_of num - int_of num mod int_of f"
    using int_minus_exact [OF v(1) r(2), of env] r(3) by metis
  obtain s where s: "int_plus env n f = Inr (RInt s)" "normal_int s" "int_of s = int_of n + int_of f"
    using int_plus_exact [OF n(2) v(2), of env] by blast
  show ?thesis
    using h r n s int_cmp_sgn(3) [OF r(2) h(2), of env]
    by (auto simp: round_calls_def round_up_def)
qed

lemma normal_fix_iff:
  "normal_int v \<Longrightarrow> FIXABLE (int_of v) \<longleftrightarrow> (\<exists>x. v = VFix x)"
  by (cases v) (auto simp: FIX2LONG_LONG2FIX)

lemma power_ten_fixable: "FIXABLE (10 ^ k) \<longleftrightarrow> k \<le> 9"
proof
  assume f: "FIXABLE (10 ^ k)"
  show "k \<le> 9"
  proof (rule ccontr)
    assume "\<not> k \<le> 9"
    then have "(10 :: int) ^ 10 \<le> 10 ^ k" by (intro power_increasing) simp_all
    with f show False by (simp add: fixable_defs)
  qed
next
  assume "k \<le> 9"
  then have "(10 :: int) ^ k \<le> 10 ^ 9" by (intro power_increasing) simp_all
  then have "(10 :: int) ^ k < 1073741824" by simp
  moreover have "- 1073741824 \<le> (10 :: int) ^ k" by (rule order_trans [of _ 0]) simp_all
  ultimately have "- 1073741824 \<le> (10 :: int) ^ k" "(10 :: int) ^ k < 1073741824" by simp_all
  then show "FIXABLE (10 ^ k)" by (simp add: fixable_defs)
qed

lemma int_round_exact:
  assumes st: "\<forall>k. \<not> stop k" and v: "normal_int num" and k: "sint nd = - int k" "1 \<le> k" "k \<le> 262144"
  shows "\<exists>r. int_round env stop float_calls num (Some nd) = Some (Inr (RInt r)) \<and> normal_int r
    \<and> int_of r = (if FIXABLE (int_of num) \<and> k \<le> 9 then round_away (int_of num) (10 ^ k)
                    else round_up (int_of num) (10 ^ k))"
proof -
  have neg: "sint (- nd) = int k" using k by (subst sint_minus_nowrap_u32) auto
  have sgn: "\<not> 0 < sint nd" "nd \<noteq> 0" "\<not> sint (- nd) < 0" using k neg by auto
  have "nat (sint (- nd)) = k" "0 < sint (- nd)" "sint (- nd) \<le> 262144" using neg k by simp_all
  with int_pow_correct [OF st, of 10 "- nd" env] obtain f where
    f: "int_pow env stop 10 (- nd) = Some (Inr (RInt f))" "normal_int f" "int_of f = 10 ^ k"
    by (auto simp: is_int_value_def)
  have pos: "0 < int_of f" using f(3) by simp
  note nf = normal_fix_iff [OF v] normal_fix_iff [OF f(2)]
  have unf: "int_round env stop float_calls num (Some nd) =
      (case (num, f) of (VFix x, VFix y) \<Rightarrow> Some (Inr (RInt (round_fix x y))) | _ \<Rightarrow> round_calls env stop num f)"
    using sgn f(1) by (simp add: int_round_def)
  show ?thesis
  proof (cases "FIXABLE (int_of num) \<and> k \<le> 9")
    case True
    then obtain x y where xy: "num = VFix x" "f = VFix y" using nf f(3) power_ten_fixable by auto
    with round_fix_exact [of x y] v f(2) pos f(3) True show ?thesis
      unfolding unf by (simp del: normal_int.simps int_of.simps)
  next
    case False
    then have "(case (num, f) of (VFix x, VFix y) \<Rightarrow> Some (Inr (RInt (round_fix x y))) | _ \<Rightarrow> round_calls env stop num f)
        = round_calls env stop num f"
      using nf f(3) power_ten_fixable by (cases num; cases f) auto
    with round_calls_exact [OF st v f(2) pos, of env] f(3) show ?thesis
      unfolding unf if_not_P [OF False] by (simp del: normal_int.simps int_of.simps)
  qed
qed

end
