(* ===== verification/StTable.thy ===== *)
theory StTable
  imports Prelude "HOL-Library.Monad_Syntax"
begin

text \<open>
  The hash tables of \<open>lib/ruby/st.c\<close>, at the level of their pointers.  An address and a word of
  client data (\<open>st_data_t\<close>) are both 32-bit words, so the array \<open>bins\<close> is a list of words: the
  heads of the chains, or, in a packed table of numbers, keys and values in turn.  Entries live in
  a heap, a partial map from addresses.  A result \<open>None\<close> means that the code would follow a
  null or dangling pointer, or never return; an \<open>Inl\<close> that it raises.  \<open>malloc\<close> is a parameter: it picks an
  address for the heap at hand, or fails.  The allocation of the tables and of their \<open>bins\<close> always
  succeeds here.  A plain \<open>char\<close> is unsigned, as it is on ARM.
\<close>

section \<open>Data\<close>

type_synonym addr = u32
type_synonym st_data = u32

record st_table_entry =
  e_hash :: u32
  e_key :: st_data
  e_record :: st_data
  e_next :: addr
  e_fore :: addr
  e_back :: addr

type_synonym heap = "addr \<Rightarrow> st_table_entry option"
type_synonym allocator = "heap \<Rightarrow> addr option"

text \<open>
  The hash types of the file, and those that a client brings with its own functions.  The two
  string types carry the strings that the keys point to, without their terminating zero.
\<close>

datatype st_hash_type =
    Type_numhash
  | Type_strhash "st_data \<Rightarrow> u8 list"
  | Type_strcasehash "st_data \<Rightarrow> u8 list"
  | Type_client "st_data \<Rightarrow> st_data \<Rightarrow> int" "st_data \<Rightarrow> u32"

record st_table =
  st_type :: st_hash_type
  entries_packed :: bool
  num_entries :: nat
  st_bins :: "addr list"
  st_head :: addr
  st_tail :: addr

definition num_bins :: "st_table \<Rightarrow> nat" where
  "num_bins table = length (st_bins table)"

section \<open>Hash functions and comparisons\<close>

definition FNV1_32A_INIT :: u32 where "FNV1_32A_INIT = 0x811c9dc5"

definition FNV_32_PRIME :: u32 where "FNV_32_PRIME = 0x01000193"

fun strhash_loop :: "u32 \<Rightarrow> u8 list \<Rightarrow> u32" where
  "strhash_loop hval [] = hval"
| "strhash_loop hval (c # str) =
     (let hval = hval XOR ucast c; hval = hval * FNV_32_PRIME in strhash_loop hval str)"

definition strhash :: "u8 list \<Rightarrow> u32" where
  "strhash str = strhash_loop FNV1_32A_INIT str"

definition fold_case :: "u32 \<Rightarrow> u32" where
  "fold_case c = (if c - 65 \<le> 90 - 65 then c + (97 - 65) else c)"

fun strcasehash_loop :: "u32 \<Rightarrow> u8 list \<Rightarrow> u32" where
  "strcasehash_loop hval [] = hval"
| "strcasehash_loop hval (b # str) =
     (let c = fold_case (ucast b); hval = hval XOR c; hval = hval * FNV_32_PRIME in strcasehash_loop hval str)"

definition strcasehash :: "u8 list \<Rightarrow> u32" where
  "strcasehash str = strcasehash_loop FNV1_32A_INIT str"

fun st_strcasecmp :: "u8 list \<Rightarrow> u8 list \<Rightarrow> int" where
  "st_strcasecmp [] [] = 0"
| "st_strcasecmp (b1 # s1) [] = 1"
| "st_strcasecmp [] (b2 # s2) = - 1"
| "st_strcasecmp (b1 # s1) (b2 # s2) =
     (let c1 = fold_case (ucast b1); c2 = fold_case (ucast b2) in
      if c1 \<noteq> c2 then (if c2 < c1 then 1 else - 1) else st_strcasecmp s1 s2)"

fun st_strncasecmp :: "u8 list \<Rightarrow> u8 list \<Rightarrow> nat \<Rightarrow> int" where
  "st_strncasecmp s1 s2 0 = 0"
| "st_strncasecmp [] [] (Suc n) = 0"
| "st_strncasecmp (b1 # s1) [] (Suc n) = 1"
| "st_strncasecmp [] (b2 # s2) (Suc n) = - 1"
| "st_strncasecmp (b1 # s1) (b2 # s2) (Suc n) =
     (let c1 = fold_case (ucast b1); c2 = fold_case (ucast b2) in
      if c1 \<noteq> c2 then (if c2 < c1 then 1 else - 1) else st_strncasecmp s1 s2 n)"

text \<open>\<open>strcmp\<close> of the C library, as the sign of the first difference.\<close>

fun c_strcmp :: "u8 list \<Rightarrow> u8 list \<Rightarrow> int" where
  "c_strcmp [] [] = 0"
| "c_strcmp (b1 # s1) [] = 1"
| "c_strcmp [] (b2 # s2) = - 1"
| "c_strcmp (b1 # s1) (b2 # s2) = (if b1 = b2 then c_strcmp s1 s2 else if b2 < b1 then 1 else - 1)"

definition st_numcmp :: "st_data \<Rightarrow> st_data \<Rightarrow> int" where
  "st_numcmp x y = (if x \<noteq> y then 1 else 0)"

definition st_numhash :: "st_data \<Rightarrow> u32" where
  "st_numhash n = n"

definition type_compare :: "st_hash_type \<Rightarrow> st_data \<Rightarrow> st_data \<Rightarrow> int" where
  "type_compare ty x y =
     (case ty of
        Type_numhash \<Rightarrow> st_numcmp x y
      | Type_strhash str \<Rightarrow> c_strcmp (str x) (str y)
      | Type_strcasehash str \<Rightarrow> st_strcasecmp (str x) (str y)
      | Type_client cmp hsh \<Rightarrow> cmp x y)"

definition type_hash :: "st_hash_type \<Rightarrow> st_data \<Rightarrow> u32" where
  "type_hash ty k =
     (case ty of
        Type_numhash \<Rightarrow> st_numhash k
      | Type_strhash str \<Rightarrow> strhash (str k)
      | Type_strcasehash str \<Rightarrow> strcasehash (str k)
      | Type_client cmp hsh \<Rightarrow> hsh k)"

definition EQUAL :: "st_table \<Rightarrow> st_data \<Rightarrow> st_data \<Rightarrow> bool" where
  "EQUAL table x y \<longleftrightarrow> x = y \<or> type_compare (st_type table) x y = 0"

definition do_hash :: "st_data \<Rightarrow> st_table \<Rightarrow> u32" where
  "do_hash key table = type_hash (st_type table) key"

definition do_hash_bin :: "st_data \<Rightarrow> st_table \<Rightarrow> nat" where
  "do_hash_bin key table = unat (do_hash key table) mod num_bins table"

section \<open>Sizes\<close>

definition MINSIZE :: int where "MINSIZE = 8"

definition primes :: "int list" where
  "primes = [8 + 3, 16 + 3, 32 + 5, 64 + 3, 128 + 3, 256 + 27, 512 + 9, 1024 + 9, 2048 + 5, 4096 + 3,
     8192 + 27, 16384 + 43, 32768 + 3, 65536 + 45, 131072 + 29, 262144 + 3, 524288 + 21, 1048576 + 7,
     2097152 + 17, 4194304 + 15, 8388608 + 9, 16777216 + 43, 33554432 + 35, 67108864 + 15,
     134217728 + 29, 268435456 + 3, 536870912 + 11, 1073741824 + 85, 0]"

fun new_size_loop :: "u32 \<Rightarrow> int list \<Rightarrow> u32 \<Rightarrow> rb_error + nat" where
  "new_size_loop newsize [] sz = Inl RuntimeError"
| "new_size_loop newsize (p # ps) sz =
     (if sint sz < sint newsize then Inr (nat p) else new_size_loop (push_bit 1 newsize) ps sz)"

definition new_size :: "u32 \<Rightarrow> rb_error + nat" where
  "new_size sz = new_size_loop (word_of_int MINSIZE) primes sz"

definition MAX_PACKED_NUMHASH :: nat where "MAX_PACKED_NUMHASH = 5"

definition ST_DEFAULT_MAX_DENSITY :: nat where "ST_DEFAULT_MAX_DENSITY = 5"

definition st_init_table_with_size :: "st_hash_type \<Rightarrow> u32 \<Rightarrow> rb_error + st_table" where
  "st_init_table_with_size ty sz =
     map_sum id (\<lambda>sz.
       \<lparr>st_type = ty,
        entries_packed = (case ty of Type_numhash \<Rightarrow> sz div 2 \<le> MAX_PACKED_NUMHASH | _ \<Rightarrow> False),
        num_entries = 0, st_bins = replicate sz 0, st_head = 0, st_tail = 0\<rparr>)
     (new_size sz)"

definition st_init_table :: "st_hash_type \<Rightarrow> rb_error + st_table" where
  "st_init_table ty = st_init_table_with_size ty 0"

definition st_init_numtable :: "rb_error + st_table" where
  "st_init_numtable = st_init_table Type_numhash"

definition st_init_numtable_with_size :: "u32 \<Rightarrow> rb_error + st_table" where
  "st_init_numtable_with_size sz = st_init_table_with_size Type_numhash sz"

definition st_init_strtable :: "(st_data \<Rightarrow> u8 list) \<Rightarrow> rb_error + st_table" where
  "st_init_strtable str = st_init_table (Type_strhash str)"

definition st_init_strtable_with_size :: "(st_data \<Rightarrow> u8 list) \<Rightarrow> u32 \<Rightarrow> rb_error + st_table" where
  "st_init_strtable_with_size str sz = st_init_table_with_size (Type_strhash str) sz"

definition st_init_strcasetable :: "(st_data \<Rightarrow> u8 list) \<Rightarrow> rb_error + st_table" where
  "st_init_strcasetable str = st_init_table (Type_strcasehash str)"

definition st_init_strcasetable_with_size :: "(st_data \<Rightarrow> u8 list) \<Rightarrow> u32 \<Rightarrow> rb_error + st_table" where
  "st_init_strcasetable_with_size str sz = st_init_table_with_size (Type_strcasehash str) sz"

section \<open>Look-up\<close>

definition ptr_not_equal :: "heap \<Rightarrow> st_table \<Rightarrow> addr \<Rightarrow> u32 \<Rightarrow> st_data \<Rightarrow> bool option" where
  "ptr_not_equal h table ptr hash_val key =
     (if ptr = 0 then Some False
      else do { e \<leftarrow> h ptr; Some (e_hash e \<noteq> hash_val \<or> \<not> EQUAL table key (e_key e)) })"

partial_function (option) find_loop :: "heap \<Rightarrow> st_table \<Rightarrow> u32 \<Rightarrow> st_data \<Rightarrow> addr \<Rightarrow> addr option" where
  "find_loop h table hash_val key ptr = do {
     e \<leftarrow> h ptr;
     b \<leftarrow> ptr_not_equal h table (e_next e) hash_val key;
     if b then find_loop h table hash_val key (e_next e) else Some (e_next e) }"

declare find_loop.simps [code]

definition find_entry :: "heap \<Rightarrow> st_table \<Rightarrow> u32 \<Rightarrow> st_data \<Rightarrow> nat \<Rightarrow> addr option" where
  "find_entry h table hash_val key bin_pos = do {
     b \<leftarrow> ptr_not_equal h table (st_bins table ! bin_pos) hash_val key;
     if b then find_loop h table hash_val key (st_bins table ! bin_pos) else Some (st_bins table ! bin_pos) }"

text \<open>The search \<open>for (i = 0; i < table->num_entries; i++)\<close> in a packed table: the index found.\<close>

fun packed_find :: "st_table \<Rightarrow> st_data \<Rightarrow> nat \<Rightarrow> nat \<Rightarrow> nat option" where
  "packed_find table key i 0 = None"
| "packed_find table key i (Suc k) =
     (if st_bins table ! (i * 2) = key then Some i else packed_find table key (i + 1) k)"

text \<open>What \<open>*value\<close> receives; \<open>Some None\<close> is the return value 0.\<close>

definition st_lookup :: "heap \<Rightarrow> st_table \<Rightarrow> st_data \<Rightarrow> st_data option option" where
  "st_lookup h table key =
     (if entries_packed table then
        (case packed_find table key 0 (num_entries table) of
           Some i \<Rightarrow> Some (Some (st_bins table ! (i * 2 + 1)))
         | None \<Rightarrow> Some None)
      else do {
        let hash_val = do_hash key table;
        ptr \<leftarrow> find_entry h table hash_val key (unat hash_val mod num_bins table);
        if ptr = 0 then Some None
        else do { e \<leftarrow> h ptr; Some (Some (e_record e)) } })"

definition st_get_key :: "heap \<Rightarrow> st_table \<Rightarrow> st_data \<Rightarrow> st_data option option" where
  "st_get_key h table key =
     (if entries_packed table then
        (case packed_find table key 0 (num_entries table) of
           Some i \<Rightarrow> Some (Some (st_bins table ! (i * 2)))
         | None \<Rightarrow> Some None)
      else do {
        let hash_val = do_hash key table;
        ptr \<leftarrow> find_entry h table hash_val key (unat hash_val mod num_bins table);
        if ptr = 0 then Some None
        else do { e \<leftarrow> h ptr; Some (Some (e_key e)) } })"

section \<open>Growing and inserting\<close>

text \<open>The loop of \<open>rehash\<close> along the \<open>fore\<close> links.\<close>

partial_function (option) rehash_loop :: "heap \<Rightarrow> nat \<Rightarrow> addr list \<Rightarrow> addr \<Rightarrow> (heap \<times> addr list) option" where
  "rehash_loop h n bins ptr =
     (if ptr = 0 then Some (h, bins)
      else do {
        e \<leftarrow> h ptr;
        let i = unat (e_hash e) mod n;
        rehash_loop (h(ptr \<mapsto> e\<lparr>e_next := bins ! i\<rparr>)) n (bins[i := ptr]) (e_fore e) })"

declare rehash_loop.simps [code]

definition rehash :: "heap \<Rightarrow> st_table \<Rightarrow> (rb_error + heap \<times> st_table) option" where
  "rehash h table =
     (case new_size (of_nat (num_bins table + 1)) of
        Inl e \<Rightarrow> Some (Inl e)
      | Inr new_num_bins \<Rightarrow> do {
          (h', new_bins) \<leftarrow> rehash_loop h new_num_bins (replicate new_num_bins 0) (st_head table);
          Some (Inr (h', table\<lparr>st_bins := new_bins\<rparr>)) })"

text \<open>The second half of \<open>ADD_DIRECT\<close>, from \<open>alloc\<close> on.\<close>

definition link_entry :: "allocator \<Rightarrow> heap \<Rightarrow> st_table \<Rightarrow> st_data \<Rightarrow> st_data \<Rightarrow> u32 \<Rightarrow> nat \<Rightarrow>
    (rb_error + heap \<times> st_table) option" where
  "link_entry malloc h table key value hash_val bin_pos =
     (case malloc h of
        None \<Rightarrow> Some (Inl NoMemError)
      | Some p \<Rightarrow>
          let e = \<lparr>e_hash = hash_val, e_key = key, e_record = value, e_next = st_bins table ! bin_pos,
                   e_fore = 0, e_back = (if st_head table \<noteq> 0 then st_tail table else 0)\<rparr>;
              h1 = h(p \<mapsto> e);
              table1 = table\<lparr>st_bins := (st_bins table)[bin_pos := p], num_entries := num_entries table + 1\<rparr>
          in if st_head table \<noteq> 0 then do {
               te \<leftarrow> h1 (st_tail table);
               Some (Inr (h1(st_tail table \<mapsto> te\<lparr>e_fore := p\<rparr>), table1\<lparr>st_tail := p\<rparr>)) }
             else Some (Inr (h1, table1\<lparr>st_head := p, st_tail := p\<rparr>)))"

definition ADD_DIRECT :: "allocator \<Rightarrow> heap \<Rightarrow> st_table \<Rightarrow> st_data \<Rightarrow> st_data \<Rightarrow> u32 \<Rightarrow> nat \<Rightarrow>
    (rb_error + heap \<times> st_table) option" where
  "ADD_DIRECT malloc h table key value hash_val bin_pos =
     (if ST_DEFAULT_MAX_DENSITY < num_entries table div num_bins table then
        (case rehash h table of
           Some (Inr (h', table')) \<Rightarrow>
             link_entry malloc h' table' key value hash_val (unat hash_val mod num_bins table')
         | r \<Rightarrow> r)
      else link_entry malloc h table key value hash_val bin_pos)"

text \<open>\<open>st_insert\<close> on a table that is not packed; the flag is its return value.\<close>

definition insert_unpacked :: "allocator \<Rightarrow> heap \<Rightarrow> st_table \<Rightarrow> st_data \<Rightarrow> st_data \<Rightarrow>
    (rb_error + bool \<times> heap \<times> st_table) option" where
  "insert_unpacked malloc h table key value = do {
     let hash_val = do_hash key table;
     let bin_pos = unat hash_val mod num_bins table;
     ptr \<leftarrow> find_entry h table hash_val key bin_pos;
     if ptr = 0 then
       map_option (map_sum id (\<lambda>s. (False, s))) (ADD_DIRECT malloc h table key value hash_val bin_pos)
     else do {
       e \<leftarrow> h ptr;
       Some (Inr (True, h(ptr \<mapsto> e\<lparr>e_record := value\<rparr>), table)) } }"

fun insert_all :: "allocator \<Rightarrow> heap \<Rightarrow> st_table \<Rightarrow> (st_data \<times> st_data) list \<Rightarrow> (rb_error + heap \<times> st_table) option" where
  "insert_all malloc h table [] = Some (Inr (h, table))"
| "insert_all malloc h table ((key, value) # kvs) =
     (case insert_unpacked malloc h table key value of
        None \<Rightarrow> None
      | Some (Inl e) \<Rightarrow> Some (Inl e)
      | Some (Inr (b, h', table')) \<Rightarrow> insert_all malloc h' table' kvs)"

text \<open>The copy \<open>packed_bins\<close> of the pairs of a packed table.\<close>

definition packed_pairs :: "st_table \<Rightarrow> (st_data \<times> st_data) list" where
  "packed_pairs table = map (\<lambda>i. (st_bins table ! (i * 2), st_bins table ! (i * 2 + 1))) [0..<num_entries table]"

definition unpack_entries :: "allocator \<Rightarrow> heap \<Rightarrow> st_table \<Rightarrow> (rb_error + heap \<times> st_table) option" where
  "unpack_entries malloc h table =
     insert_all malloc h
       (table\<lparr>entries_packed := False, num_entries := 0, st_bins := replicate (num_bins table) 0\<rparr>)
       (packed_pairs table)"

definition packed_room :: "st_table \<Rightarrow> bool" where
  "packed_room table \<longleftrightarrow>
     (num_entries table + 1) * 2 \<le> num_bins table \<and> num_entries table + 1 \<le> MAX_PACKED_NUMHASH"

definition packed_append :: "st_table \<Rightarrow> st_data \<Rightarrow> st_data \<Rightarrow> st_table" where
  "packed_append table key value =
     (let i = num_entries table in
      table\<lparr>num_entries := i + 1, st_bins := ((st_bins table)[i * 2 := key])[i * 2 + 1 := value]\<rparr>)"

definition st_insert :: "allocator \<Rightarrow> heap \<Rightarrow> st_table \<Rightarrow> st_data \<Rightarrow> st_data \<Rightarrow>
    (rb_error + bool \<times> heap \<times> st_table) option" where
  "st_insert malloc h table key value =
     (if entries_packed table then
        (case packed_find table key 0 (num_entries table) of
           Some i \<Rightarrow> Some (Inr (True, h, table\<lparr>st_bins := (st_bins table)[i * 2 + 1 := value]\<rparr>))
         | None \<Rightarrow>
             if packed_room table then Some (Inr (False, h, packed_append table key value))
             else
               (case unpack_entries malloc h table of
                  None \<Rightarrow> None
                | Some (Inl e) \<Rightarrow> Some (Inl e)
                | Some (Inr (h', table')) \<Rightarrow> insert_unpacked malloc h' table' key value))
      else insert_unpacked malloc h table key value)"

definition add_direct_unpacked :: "allocator \<Rightarrow> heap \<Rightarrow> st_table \<Rightarrow> st_data \<Rightarrow> st_data \<Rightarrow>
    (rb_error + heap \<times> st_table) option" where
  "add_direct_unpacked malloc h table key value =
     (let hash_val = do_hash key table in
      ADD_DIRECT malloc h table key value hash_val (unat hash_val mod num_bins table))"

definition st_add_direct :: "allocator \<Rightarrow> heap \<Rightarrow> st_table \<Rightarrow> st_data \<Rightarrow> st_data \<Rightarrow>
    (rb_error + heap \<times> st_table) option" where
  "st_add_direct malloc h table key value =
     (if entries_packed table then
        if packed_room table then Some (Inr (h, packed_append table key value))
        else
          (case unpack_entries malloc h table of
             None \<Rightarrow> None
           | Some (Inl e) \<Rightarrow> Some (Inl e)
           | Some (Inr (h', table')) \<Rightarrow> add_direct_unpacked malloc h' table' key value)
      else add_direct_unpacked malloc h table key value)"

section \<open>Removing\<close>

text \<open>\<open>num_entries--\<close> on the unsigned bit-field of 31 bits.\<close>

definition pred_entries :: "nat \<Rightarrow> nat" where
  "pred_entries n = (if n = 0 then 2 ^ 31 - 1 else n - 1)"

definition REMOVE_ENTRY :: "heap \<Rightarrow> st_table \<Rightarrow> addr \<Rightarrow> (heap \<times> st_table) option" where
  "REMOVE_ENTRY h table ptr = do {
     e \<leftarrow> h ptr;
     let table1 = table\<lparr>num_entries := pred_entries (num_entries table)\<rparr>;
     if e_fore e = 0 \<and> e_back e = 0 then Some (h, table1\<lparr>st_head := 0, st_tail := 0\<rparr>)
     else do {
       let fore = e_fore e;
       let back = e_back e;
       h1 \<leftarrow> (if fore \<noteq> 0 then do { fe \<leftarrow> h fore; Some (h(fore \<mapsto> fe\<lparr>e_back := back\<rparr>)) } else Some h);
       h2 \<leftarrow> (if back \<noteq> 0 then do { be \<leftarrow> h1 back; Some (h1(back \<mapsto> be\<lparr>e_fore := fore\<rparr>)) } else Some h1);
       let table2 = (if ptr = st_head table1 then table1\<lparr>st_head := fore\<rparr> else table1);
       let table3 = (if ptr = st_tail table2 then table2\<lparr>st_tail := back\<rparr> else table2);
       Some (h2, table3) } }"

text \<open>The pointer \<open>st_table_entry **prev\<close>: a slot of \<open>bins\<close> or the \<open>next\<close> field of an entry.\<close>

datatype slot = BinSlot nat | NextSlot addr

definition read_slot :: "heap \<Rightarrow> st_table \<Rightarrow> slot \<Rightarrow> addr option" where
  "read_slot h table s =
     (case s of BinSlot i \<Rightarrow> Some (st_bins table ! i) | NextSlot p \<Rightarrow> map_option e_next (h p))"

definition write_slot :: "heap \<Rightarrow> st_table \<Rightarrow> slot \<Rightarrow> addr \<Rightarrow> (heap \<times> st_table) option" where
  "write_slot h table s q =
     (case s of
        BinSlot i \<Rightarrow> Some (h, table\<lparr>st_bins := (st_bins table)[i := q]\<rparr>)
      | NextSlot p \<Rightarrow> map_option (\<lambda>e. (h(p \<mapsto> e\<lparr>e_next := q\<rparr>), table)) (h p))"

text \<open>The result is the key and the record removed, or \<open>None\<close> for the return value 0.\<close>

partial_function (option) delete_loop :: "heap \<Rightarrow> st_table \<Rightarrow> st_data \<Rightarrow> slot \<Rightarrow>
    ((st_data \<times> st_data) option \<times> heap \<times> st_table) option" where
  "delete_loop h table key prev = do {
     ptr \<leftarrow> read_slot h table prev;
     if ptr = 0 then Some (None, h, table)
     else do {
       e \<leftarrow> h ptr;
       if EQUAL table key (e_key e) then do {
         (h1, table1) \<leftarrow> write_slot h table prev (e_next e);
         (h2, table2) \<leftarrow> REMOVE_ENTRY h1 table1 ptr;
         e2 \<leftarrow> h2 ptr;
         Some (Some (e_key e2, e_record e2), h2(ptr := None), table2) }
       else delete_loop h table key (NextSlot ptr) } }"

declare delete_loop.simps [code]

text \<open>The \<open>memmove\<close> that closes the gap at the pair \<open>i\<close>, once \<open>num_entries\<close> has gone down.\<close>

definition packed_remove :: "st_table \<Rightarrow> nat \<Rightarrow> st_table" where
  "packed_remove table i =
     (let n = num_entries table - 1; bins = st_bins table in
      table\<lparr>num_entries := n,
            st_bins := take (i * 2) bins @ take (2 * (n - i)) (drop ((i + 1) * 2) bins)
                         @ drop (i * 2 + 2 * (n - i)) bins\<rparr>)"

definition st_delete :: "heap \<Rightarrow> st_table \<Rightarrow> st_data \<Rightarrow>
    ((st_data \<times> st_data) option \<times> heap \<times> st_table) option" where
  "st_delete h table key =
     (if entries_packed table then
        (case packed_find table key 0 (num_entries table) of
           Some i \<Rightarrow> Some (Some (key, st_bins table ! (i * 2 + 1)), h, packed_remove table i)
         | None \<Rightarrow> Some (None, h, table))
      else delete_loop h table key (BinSlot (do_hash_bin key table)))"

partial_function (option) delete_safe_loop :: "heap \<Rightarrow> st_table \<Rightarrow> st_data \<Rightarrow> st_data \<Rightarrow> addr \<Rightarrow>
    ((st_data \<times> st_data) option \<times> heap \<times> st_table) option" where
  "delete_safe_loop h table key never ptr =
     (if ptr = 0 then Some (None, h, table)
      else do {
        e \<leftarrow> h ptr;
        if e_key e \<noteq> never \<and> EQUAL table (e_key e) key then do {
          (h1, table1) \<leftarrow> REMOVE_ENTRY h table ptr;
          e1 \<leftarrow> h1 ptr;
          Some (Some (e_key e1, e_record e1), h1(ptr \<mapsto> e1\<lparr>e_key := never, e_record := never\<rparr>), table1) }
        else delete_safe_loop h table key never (e_next e) })"

declare delete_safe_loop.simps [code]

definition st_delete_safe :: "heap \<Rightarrow> st_table \<Rightarrow> st_data \<Rightarrow> st_data \<Rightarrow>
    ((st_data \<times> st_data) option \<times> heap \<times> st_table) option" where
  "st_delete_safe h table key never =
     delete_safe_loop h table key never (st_bins table ! do_hash_bin key table)"

partial_function (option) cleanup_bin :: "heap \<Rightarrow> st_table \<Rightarrow> st_data \<Rightarrow> slot \<Rightarrow> (heap \<times> st_table) option" where
  "cleanup_bin h table never lst = do {
     ptr \<leftarrow> read_slot h table lst;
     if ptr = 0 then Some (h, table)
     else do {
       e \<leftarrow> h ptr;
       if e_key e = never then do {
         (h1, table1) \<leftarrow> write_slot h table lst (e_next e);
         cleanup_bin (h1(ptr := None)) table1 never lst }
       else cleanup_bin h table never (NextSlot ptr) } }"

declare cleanup_bin.simps [code]

fun cleanup_bins :: "heap \<Rightarrow> st_table \<Rightarrow> st_data \<Rightarrow> nat \<Rightarrow> nat \<Rightarrow> (heap \<times> st_table) option" where
  "cleanup_bins h table never i 0 = Some (h, table)"
| "cleanup_bins h table never i (Suc k) = do {
     (h', table') \<leftarrow> cleanup_bin h table never (BinSlot i);
     cleanup_bins h' table' never (i + 1) k }"

definition st_cleanup_safe :: "heap \<Rightarrow> st_table \<Rightarrow> st_data \<Rightarrow> (heap \<times> st_table) option" where
  "st_cleanup_safe h table never = cleanup_bins h table never 0 (num_bins table)"

partial_function (option) free_chain :: "heap \<Rightarrow> addr \<Rightarrow> heap option" where
  "free_chain h ptr =
     (if ptr = 0 then Some h else do { e \<leftarrow> h ptr; free_chain (h(ptr := None)) (e_next e) })"

declare free_chain.simps [code]

fun clear_bins :: "heap \<Rightarrow> addr list \<Rightarrow> heap option" where
  "clear_bins h [] = Some h"
| "clear_bins h (ptr # bins) = do { h' \<leftarrow> free_chain h ptr; clear_bins h' bins }"

definition st_clear :: "heap \<Rightarrow> st_table \<Rightarrow> (heap \<times> st_table) option" where
  "st_clear h table =
     (if entries_packed table then Some (h, table\<lparr>num_entries := 0\<rparr>)
      else do {
        h' \<leftarrow> clear_bins h (st_bins table);
        Some (h', table\<lparr>st_bins := replicate (num_bins table) 0, num_entries := 0, st_head := 0, st_tail := 0\<rparr>) })"

definition st_free_table :: "heap \<Rightarrow> st_table \<Rightarrow> heap option" where
  "st_free_table h table = map_option fst (st_clear h table)"

section \<open>Copying\<close>

text \<open>\<open>prev\<close> is the copy made last; \<open>*tail\<close> is its \<open>fore\<close> field, or the head of the new table.\<close>

partial_function (option) copy_loop :: "allocator \<Rightarrow> heap \<Rightarrow> st_table \<Rightarrow> addr \<Rightarrow> addr \<Rightarrow>
    (rb_error + heap \<times> st_table) option" where
  "copy_loop malloc h new_table prev ptr =
     (if ptr = 0 then Some (Inr (h, new_table\<lparr>st_tail := prev\<rparr>))
      else
        (case malloc h of
           None \<Rightarrow> Some (Inl NoMemError)
         | Some entry \<Rightarrow> do {
             e \<leftarrow> h ptr;
             let i = unat (e_hash e) mod num_bins new_table;
             let h1 = h(entry \<mapsto> e\<lparr>e_next := st_bins new_table ! i, e_back := prev\<rparr>);
             let table1 = new_table\<lparr>st_bins := (st_bins new_table)[i := entry]\<rparr>;
             (h2, table2) \<leftarrow> (if prev = 0 then Some (h1, table1\<lparr>st_head := entry\<rparr>)
                else do { pe \<leftarrow> h1 prev; Some (h1(prev \<mapsto> pe\<lparr>e_fore := entry\<rparr>), table1) });
             e1 \<leftarrow> h2 ptr;
             copy_loop malloc h2 table2 entry (e_fore e1) }))"

declare copy_loop.simps [code]

definition st_copy :: "allocator \<Rightarrow> heap \<Rightarrow> st_table \<Rightarrow> (rb_error + heap \<times> st_table) option" where
  "st_copy malloc h old_table =
     (if entries_packed old_table then Some (Inr (h, old_table))
      else
        let new_table = old_table\<lparr>st_bins := replicate (num_bins old_table) 0\<rparr> in
        if st_head old_table \<noteq> 0 then copy_loop malloc h new_table 0 (st_head old_table)
        else Some (Inr (h, new_table)))"

section \<open>Iterating\<close>

datatype st_retval = ST_CONTINUE | ST_STOP | ST_DELETE | ST_CHECK

text \<open>
  The callback sees the key, the value and the error flag, and may change the table and its own
  state \<open>'s\<close>.  The results are the return value of \<open>st_foreach\<close> and the final state.
\<close>

type_synonym 's callback =
  "st_data \<Rightarrow> st_data \<Rightarrow> bool \<Rightarrow> 's \<times> heap \<times> st_table \<Rightarrow> (st_retval \<times> 's \<times> heap \<times> st_table) option"

definition read_bin :: "st_table \<Rightarrow> nat \<Rightarrow> addr option" where
  "read_bin table i = (if i < length (st_bins table) then Some (st_bins table ! i) else None)"

partial_function (option) in_chain :: "heap \<Rightarrow> addr \<Rightarrow> addr \<Rightarrow> bool option" where
  "in_chain h ptr tmp =
     (if tmp = ptr then Some True
      else if tmp = 0 then Some False
      else do { e \<leftarrow> h tmp; in_chain h ptr (e_next e) })"

declare in_chain.simps [code]

partial_function (option) find_slot :: "heap \<Rightarrow> st_table \<Rightarrow> addr \<Rightarrow> slot \<Rightarrow> slot option option" where
  "find_slot h table ptr lst = do {
     tmp \<leftarrow> read_slot h table lst;
     if tmp = 0 then Some None
     else if ptr = tmp then Some (Some lst)
     else find_slot h table ptr (NextSlot tmp) }"

declare find_slot.simps [code]

text \<open>
  The branch \<open>ST_DELETE\<close>: the entry to go on with; the flag says that the code returns 0 at once.
  An entry that is not in its chain stays where it is.
\<close>

definition foreach_delete :: "heap \<Rightarrow> st_table \<Rightarrow> addr \<Rightarrow> (bool \<times> addr \<times> heap \<times> st_table) option" where
  "foreach_delete h table ptr = do {
     e \<leftarrow> h ptr;
     s \<leftarrow> find_slot h table ptr (BinSlot (unat (e_hash e) mod num_bins table));
     (case s of
        None \<Rightarrow> Some (False, ptr, h, table)
      | Some lst \<Rightarrow> do {
          let tmp = e_fore e;
          (h1, table1) \<leftarrow> write_slot h table lst (e_next e);
          (h2, table2) \<leftarrow> REMOVE_ENTRY h1 table1 ptr;
          Some (ptr = tmp, tmp, h2(ptr := None), table2) }) }"

text \<open>How one round of the \<open>do\<close> loop ends.\<close>

datatype 's round_end =
    Return bool 's heap st_table
  | GoOn addr 's heap st_table

definition foreach_round :: "'s callback \<Rightarrow> 's \<Rightarrow> heap \<Rightarrow> st_table \<Rightarrow> addr \<Rightarrow> 's round_end option" where
  "foreach_round func s0 h0 table0 ptr = do {
     e0 \<leftarrow> h0 ptr;
     (retval, s, h, table) \<leftarrow> func (e_key e0) (e_record e0) False (s0, h0, table0);
     (case retval of
        ST_CHECK \<Rightarrow> do {
          e \<leftarrow> h ptr;
          found \<leftarrow> in_chain h ptr (st_bins table ! (unat (e_hash e) mod num_bins table));
          if found then Some (GoOn (e_fore e) s h table)
          else do { (r, s1, h1, table1) \<leftarrow> func 0 0 True (s, h, table); Some (Return True s1 h1 table1) } }
      | ST_CONTINUE \<Rightarrow> do { e \<leftarrow> h ptr; Some (GoOn (e_fore e) s h table) }
      | ST_STOP \<Rightarrow> Some (Return False s h table)
      | ST_DELETE \<Rightarrow> do {
          (stop, nxt, h1, table1) \<leftarrow> foreach_delete h table ptr;
          Some (if stop then Return False s h1 table1 else GoOn nxt s h1 table1) }) }"

partial_function (option) foreach_loop :: "'s callback \<Rightarrow> 's \<Rightarrow> heap \<Rightarrow> st_table \<Rightarrow> addr \<Rightarrow>
    (bool \<times> 's \<times> heap \<times> st_table) option" where
  "foreach_loop func s h table ptr = do {
     r \<leftarrow> foreach_round func s h table ptr;
     (case r of
        Return b s1 h1 table1 \<Rightarrow> Some (b, s1, h1, table1)
      | GoOn nxt s1 h1 table1 \<Rightarrow>
          if nxt \<noteq> 0 \<and> st_head table1 \<noteq> 0 then foreach_loop func s1 h1 table1 nxt
          else Some (False, s1, h1, table1)) }"

declare foreach_loop.simps [code]

text \<open>
  The packed loop; it does not look at \<open>entries_packed\<close> again.  Once the callback has taken pairs away
  itself, so that \<open>i\<close> is beyond the last one, \<open>ST_DELETE\<close> makes \<open>memmove\<close> run over all memory.
\<close>

partial_function (option) foreach_packed :: "'s callback \<Rightarrow> 's \<Rightarrow> heap \<Rightarrow> st_table \<Rightarrow> nat \<Rightarrow>
    (bool \<times> 's \<times> heap \<times> st_table) option" where
  "foreach_packed func s0 h0 table0 i =
     (if \<not> i < num_entries table0 then Some (False, s0, h0, table0)
      else do {
        key \<leftarrow> read_bin table0 (i * 2);
        val \<leftarrow> read_bin table0 (i * 2 + 1);
        (retval, s, h, table) \<leftarrow> func key val False (s0, h0, table0);
        (case retval of
           ST_CHECK \<Rightarrow>
             if packed_find table key 0 (num_entries table) = None then do {
               (r, s1, h1, table1) \<leftarrow> func 0 0 True (s, h, table); Some (True, s1, h1, table1) }
             else foreach_packed func s h table (i + 1)
         | ST_CONTINUE \<Rightarrow> foreach_packed func s h table (i + 1)
         | ST_STOP \<Rightarrow> Some (False, s, h, table)
         | ST_DELETE \<Rightarrow>
             if i < num_entries table then foreach_packed func s h (packed_remove table i) i else None) })"

declare foreach_packed.simps [code]

definition st_foreach :: "'s callback \<Rightarrow> 's \<Rightarrow> heap \<Rightarrow> st_table \<Rightarrow> (bool \<times> 's \<times> heap \<times> st_table) option" where
  "st_foreach func s h table =
     (if entries_packed table then foreach_packed func s h table 0
      else if st_head table \<noteq> 0 then foreach_loop func s h table (st_head table)
      else Some (False, s, h, table))"

end
