(* ===== verification/StChains.thy ===== *)
theory StChains
  imports StTable
begin

text \<open>
  Linked structures in the heap of \<open>StTable\<close>, the well-formedness of a table that is not packed, and the
  association list it stands for.  \<open>path h f p xs q\<close>: following the field \<open>f\<close> from \<open>p\<close> meets
  the entries \<open>xs\<close> and arrives at \<open>q\<close>.
\<close>

section \<open>Paths\<close>

fun path :: "heap \<Rightarrow> (st_table_entry \<Rightarrow> addr) \<Rightarrow> addr \<Rightarrow> addr list \<Rightarrow> addr \<Rightarrow> bool" where
  "path h f p [] q \<longleftrightarrow> p = q"
| "path h f p (x # xs) q \<longleftrightarrow> p = x \<and> x \<noteq> 0 \<and> (\<exists>e. h x = Some e \<and> path h f (f e) xs q)"

lemma path_append [simp]: "path h f p (xs @ ys) q \<longleftrightarrow> (\<exists>r. path h f p xs r \<and> path h f r ys q)"
  by (induction xs arbitrary: p) auto

lemma path_cong:
  "(\<And>x. x \<in> set xs \<Longrightarrow> map_option f (h x) = map_option f (h' x)) \<Longrightarrow> path h f p xs q = path h' f p xs q"
proof (induction xs arbitrary: p)
  case (Cons x xs)
  have IH: "path h f r xs q = path h' f r xs q" for r using Cons by simp
  have "map_option f (h x) = map_option f (h' x)" using Cons.prems by simp
  then show ?case by (cases "h x"; cases "h' x") (auto simp: IH)
qed simp

lemma path_keeps:
  assumes "path h f p xs q" and "\<And>x. x \<in> set xs \<Longrightarrow> map_option f (h' x) = map_option f (h x)"
  shows "path h' f p xs q"
  using assms(1) path_cong [of xs f h h' p q] assms(2) by simp

lemma path_null [simp]: "path h f 0 xs 0 \<longleftrightarrow> xs = []"
  by (cases xs) auto

lemma path_nonnull: "p \<noteq> 0 \<Longrightarrow> path h f p xs 0 \<Longrightarrow> \<exists>ys e. xs = p # ys \<and> h p = Some e \<and> path h f (f e) ys 0"
  by (cases xs) auto

lemma path_unique: "path h f p xs 0 \<Longrightarrow> path h f p ys 0 \<Longrightarrow> xs = ys"
proof (induction xs arbitrary: p ys)
  case Nil
  then show ?case by simp
next
  case (Cons x xs)
  then show ?case by (cases ys) auto
qed

lemma path_in_heap: "path h f p xs q \<Longrightarrow> x \<in> set xs \<Longrightarrow> x \<noteq> 0 \<and> (\<exists>e. h x = Some e)"
  by (induction xs arbitrary: p) auto

lemma path_last: "path h f p (xs @ [x]) q \<Longrightarrow> \<exists>e. h x = Some e \<and> f e = q"
  by auto

lemma path_frame: "x \<notin> set xs \<Longrightarrow> path (h(x := v)) f p xs q = path h f p xs q"
  by (rule path_cong) auto

lemma path_same_field: "h x = Some e \<Longrightarrow> f e' = f e \<Longrightarrow> path (h(x \<mapsto> e')) f p xs q = path h f p xs q"
  by (rule path_cong) auto

section \<open>Hash types\<close>

text \<open>The contract between a comparison and its hash function.\<close>

locale hash_contract =
  fixes eq :: "'k \<Rightarrow> 'k \<Rightarrow> bool" and hsh :: "'k \<Rightarrow> 'h"
  assumes eq_refl: "eq x x" and eq_sym: "eq x y \<Longrightarrow> eq y x" and eq_trans: "eq x y \<Longrightarrow> eq y z \<Longrightarrow> eq x z"
    and eq_hash: "eq x y \<Longrightarrow> hsh x = hsh y"
begin

lemma eq_left: "eq x y \<Longrightarrow> eq x z = eq y z"
  using eq_sym eq_trans by blast

lemma different_hash: "hsh x \<noteq> hsh y \<Longrightarrow> \<not> eq x y"
  using eq_hash by blast

end

definition key_eq :: "st_hash_type \<Rightarrow> st_data \<Rightarrow> st_data \<Rightarrow> bool" where
  "key_eq ty x y \<longleftrightarrow> x = y \<or> type_compare ty x y = 0"

lemma EQUAL_key_eq: "EQUAL table = key_eq (st_type table)"
  by (simp add: EQUAL_def key_eq_def fun_eq_iff)

definition hash_ok :: "st_hash_type \<Rightarrow> bool" where
  "hash_ok ty \<longleftrightarrow> hash_contract (key_eq ty) (type_hash ty)"

definition fold_byte :: "u8 \<Rightarrow> u32" where
  "fold_byte b = fold_case (ucast b)"

lemma st_strcasecmp_zero: "st_strcasecmp s1 s2 = 0 \<longleftrightarrow> map fold_byte s1 = map fold_byte s2"
  by (induction s1 s2 rule: st_strcasecmp.induct) (auto simp: Let_def fold_byte_def)

lemma c_strcmp_zero: "c_strcmp s1 s2 = 0 \<longleftrightarrow> s1 = s2"
  by (induction s1 s2 rule: c_strcmp.induct) auto

lemma strcasehash_loop_fold: "strcasehash_loop hval s = foldl (\<lambda>hval c. (hval XOR c) * FNV_32_PRIME) hval (map fold_byte s)"
  by (induction hval s rule: strcasehash_loop.induct) (simp_all add: Let_def fold_byte_def)

interpretation num_contract: hash_contract "key_eq Type_numhash" "type_hash Type_numhash"
  by unfold_locales (auto simp: key_eq_def type_compare_def st_numcmp_def split: if_splits)

interpretation str_contract: hash_contract "key_eq (Type_strhash str)" "type_hash (Type_strhash str)"
  for str :: "st_data \<Rightarrow> u8 list"
  by unfold_locales (auto simp: key_eq_def type_compare_def type_hash_def c_strcmp_zero)

interpretation strcase_contract: hash_contract "key_eq (Type_strcasehash str)" "type_hash (Type_strcasehash str)"
  for str :: "st_data \<Rightarrow> u8 list"
  by unfold_locales
    (auto simp: key_eq_def type_compare_def type_hash_def st_strcasecmp_zero strcasehash_def strcasehash_loop_fold)

lemma builtin_hash_ok [simp]:
  "hash_ok Type_numhash" "hash_ok (Type_strhash str)" "hash_ok (Type_strcasehash str)"
  by (simp_all add: hash_ok_def num_contract.hash_contract_axioms str_contract.hash_contract_axioms
      strcase_contract.hash_contract_axioms)

lemma hash_okD:
  assumes "hash_ok (st_type table)"
  shows "hash_contract (EQUAL table) (type_hash (st_type table))"
  using assms by (simp add: hash_ok_def EQUAL_key_eq)

section \<open>The ordered dictionary\<close>

text \<open>
  What a table promises: an association list in order of insertion, no two keys equal.
\<close>

fun al_find :: "('k \<Rightarrow> 'k \<Rightarrow> bool) \<Rightarrow> 'k \<Rightarrow> ('k \<times> 'v) list \<Rightarrow> ('k \<times> 'v) option" where
  "al_find eq k [] = None"
| "al_find eq k ((k', v) # kvs) = (if eq k k' then Some (k', v) else al_find eq k kvs)"

definition al_insert :: "('k \<Rightarrow> 'k \<Rightarrow> bool) \<Rightarrow> 'k \<Rightarrow> 'v \<Rightarrow> ('k \<times> 'v) list \<Rightarrow> ('k \<times> 'v) list" where
  "al_insert eq k v kvs =
     (if al_find eq k kvs = None then kvs @ [(k, v)]
      else map (\<lambda>(k', v'). if eq k k' then (k', v) else (k', v')) kvs)"

definition al_delete :: "('k \<Rightarrow> 'k \<Rightarrow> bool) \<Rightarrow> 'k \<Rightarrow> ('k \<times> 'v) list \<Rightarrow> ('k \<times> 'v) list" where
  "al_delete eq k kvs = filter (\<lambda>(k', v). \<not> eq k k') kvs"

fun al_distinct :: "('k \<Rightarrow> 'k \<Rightarrow> bool) \<Rightarrow> ('k \<times> 'v) list \<Rightarrow> bool" where
  "al_distinct eq [] \<longleftrightarrow> True"
| "al_distinct eq ((k, v) # kvs) \<longleftrightarrow> (\<forall>(k', v') \<in> set kvs. \<not> eq k k') \<and> al_distinct eq kvs"

lemma al_find_None: "al_find eq k kvs = None \<longleftrightarrow> (\<forall>(k', v) \<in> set kvs. \<not> eq k k')"
  by (induction eq k kvs rule: al_find.induct) auto

lemma al_find_Some: "al_find eq k kvs = Some (k', v) \<Longrightarrow> eq k k' \<and> (k', v) \<in> set kvs"
  by (induction eq k kvs rule: al_find.induct) (auto split: if_splits)

lemma al_find_append:
  "al_find eq k (xs @ ys) = (case al_find eq k xs of None \<Rightarrow> al_find eq k ys | Some r \<Rightarrow> Some r)"
  by (induction eq k xs rule: al_find.induct) auto

lemma al_distinct_append:
  "al_distinct eq (xs @ ys) \<longleftrightarrow> al_distinct eq xs \<and> al_distinct eq ys \<and> (\<forall>(k, v) \<in> set xs. \<forall>(k', v') \<in> set ys. \<not> eq k k')"
  by (induction eq xs rule: al_distinct.induct) auto

context hash_contract
begin

lemma al_distinct_insert: "al_distinct eq kvs \<Longrightarrow> al_distinct eq (al_insert eq k v kvs)"
proof -
  assume d: "al_distinct eq kvs"
  have keys: "map fst (map (\<lambda>(k', v'). if eq k k' then (k', v) else (k', v')) kvs) = map fst kvs" by auto
  have "al_distinct eq xs = al_distinct eq ys" if "map fst xs = map fst ys" for xs ys :: "('k \<times> 'v) list"
    using that
  proof (induction xs arbitrary: ys)
    case (Cons x xs)
    then obtain y ys' where ys: "ys = y # ys'" "fst x = fst y" "map fst xs = map fst ys'" by (cases ys) auto
    have "(\<forall>(k', v') \<in> set xs. \<not> eq (fst x) k') \<longleftrightarrow> (\<forall>k' \<in> set (map fst xs). \<not> eq (fst x) k')" by auto
    moreover have "(\<forall>(k', v') \<in> set ys'. \<not> eq (fst y) k') \<longleftrightarrow> (\<forall>k' \<in> set (map fst ys'). \<not> eq (fst y) k')" by auto
    ultimately show ?case using Cons.IH [OF ys(3)] ys by (cases x; cases y) simp
  qed simp
  from this [OF keys] d show ?thesis
    by (auto simp: al_insert_def al_find_None al_distinct_append dest: eq_sym)
qed

lemma al_distinct_delete: "al_distinct eq kvs \<Longrightarrow> al_distinct eq (al_delete eq k kvs)"
  by (induction eq kvs rule: al_distinct.induct) (auto simp: al_delete_def)

lemma al_find_insert: "al_find eq j (al_insert eq k v kvs) =
    (if eq j k then Some (case al_find eq k kvs of None \<Rightarrow> (k, v) | Some (k', _) \<Rightarrow> (k', v)) else al_find eq j kvs)"
proof (cases "al_find eq k kvs")
  case None
  have "al_find eq j kvs = None" if "eq j k"
    using None eq_left [OF that] by (auto simp: al_find_None)
  with None show ?thesis by (auto simp: al_insert_def al_find_append split: option.splits)
next
  case (Some x)
  have "al_find eq j (map (\<lambda>(k', v'). if eq k k' then (k', v) else (k', v')) kvs) =
      map_option (\<lambda>(k', v'). if eq k k' then (k', v) else (k', v')) (al_find eq j kvs)"
    by (induction eq j kvs rule: al_find.induct) auto
  moreover have "al_find eq j kvs = al_find eq k kvs" if "eq j k"
    using eq_left [OF that] by (induction eq k kvs rule: al_find.induct) auto
  moreover have "\<not> eq k k'" if "al_find eq j kvs = Some (k', w)" "\<not> eq j k" for k' w
    using al_find_Some [OF that(1)] that(2) eq_sym eq_trans by blast
  ultimately show ?thesis
    using Some al_find_Some [of eq k kvs "fst x" "snd x"]
    by (cases x; cases "eq j k"; cases "al_find eq j kvs") (auto simp: al_insert_def)
qed

lemma al_find_delete: "al_find eq j (al_delete eq k kvs) = (if eq j k then None else al_find eq j kvs)"
proof -
  have "al_find eq j (al_delete eq k kvs) = al_find eq j kvs" if "\<not> eq j k"
  proof (induction kvs)
    case (Cons x kvs)
    then show ?case
      using that eq_sym [of k "fst x"] eq_trans [of j "fst x" k] by (cases x) (auto simp: al_delete_def)
  qed (simp add: al_delete_def)
  moreover have "al_find eq j (al_delete eq k kvs) = None" if "eq j k"
    using eq_left [OF that] by (auto simp: al_find_None al_delete_def)
  ultimately show ?thesis by simp
qed

end

end
