(* ===== verification/StRefine.thy ===== *)
theory StRefine
  imports StChains
begin

text \<open>
  Well-formed tables, and the operations of \<open>StTable\<close> on tables that are not packed: none of them
  follows a bad pointer, all keep the table well formed, and each does to the association list
  of the table what the ordered dictionary promises.
\<close>

section \<open>Well-formed tables\<close>

definition bin_of :: "heap \<Rightarrow> nat \<Rightarrow> addr \<Rightarrow> nat" where
  "bin_of h n p = unat (e_hash (the (h p))) mod n"

text \<open>The chains hold the entries \<open>C\<close>, each in the bin of its hash value.\<close>

definition chains_ok :: "heap \<Rightarrow> addr list \<Rightarrow> addr set \<Rightarrow> (nat \<Rightarrow> addr list) \<Rightarrow> bool" where
  "chains_ok h bins C cs \<longleftrightarrow>
     (\<forall>i < length bins. path h e_next (bins ! i) (cs i) 0 \<and> distinct (cs i)
        \<and> set (cs i) = {p \<in> C. bin_of h (length bins) p = i})"

definition dl_ok :: "heap \<Rightarrow> addr \<Rightarrow> addr \<Rightarrow> addr list \<Rightarrow> bool" where
  "dl_ok h fst_e lst_e ps \<longleftrightarrow> distinct ps \<and> path h e_fore fst_e ps 0 \<and> path h e_back lst_e (rev ps) 0"

definition entry_ok :: "st_hash_type \<Rightarrow> heap \<Rightarrow> addr \<Rightarrow> bool" where
  "entry_ok ty h p \<longleftrightarrow> e_hash (the (h p)) = type_hash ty (e_key (the (h p)))"

text \<open>
  The live entries \<open>ps\<close> in order; \<open>dead\<close> are those that \<open>st_delete_safe\<close> has taken out of the order and
  left in their chains.
\<close>

definition table_ok :: "heap \<Rightarrow> st_table \<Rightarrow> addr list \<Rightarrow> addr set \<Rightarrow> bool" where
  "table_ok h table ps dead \<longleftrightarrow>
     \<not> entries_packed table \<and> 0 < num_bins table \<and> num_entries table = length ps
     \<and> dl_ok h (st_head table) (st_tail table) ps
     \<and> (\<exists>cs. chains_ok h (st_bins table) (set ps \<union> dead) cs) \<and> set ps \<inter> dead = {}
     \<and> (\<forall>p \<in> set ps. entry_ok (st_type table) h p)"

definition entry_key :: "heap \<Rightarrow> addr \<Rightarrow> st_data" where
  "entry_key h p = e_key (the (h p))"

definition pairs :: "heap \<Rightarrow> addr list \<Rightarrow> (st_data \<times> st_data) list" where
  "pairs h ps = map (\<lambda>p. (entry_key h p, e_record (the (h p)))) ps"

text \<open>A table that stands for the association list \<open>kvs\<close>.\<close>

definition represents :: "heap \<Rightarrow> st_table \<Rightarrow> (st_data \<times> st_data) list \<Rightarrow> bool" where
  "represents h table kvs \<longleftrightarrow>
     hash_ok (st_type table) \<and> al_distinct (EQUAL table) kvs
     \<and> (\<exists>ps. table_ok h table ps {} \<and> pairs h ps = kvs)"

lemma chains_okD:
  assumes "chains_ok h bins C cs" and "i < length bins"
  shows "path h e_next (bins ! i) (cs i) 0" and "distinct (cs i)"
    and "set (cs i) = {p \<in> C. bin_of h (length bins) p = i}"
  using assms by (simp_all add: chains_ok_def)

lemma chains_in_heap:
  assumes "chains_ok h bins C cs" and "0 < length bins" and "p \<in> C"
  shows "p \<noteq> 0 \<and> (\<exists>e. h p = Some e)"
proof -
  have i: "bin_of h (length bins) p < length bins" using assms(2) by (simp add: bin_of_def)
  have "p \<in> set (cs (bin_of h (length bins) p))" using chains_okD(3) [OF assms(1) i] assms(3) by simp
  with path_in_heap [OF chains_okD(1) [OF assms(1) i]] show ?thesis by blast
qed

lemma table_ok_heap:
  assumes "table_ok h table ps dead" and "p \<in> set ps \<union> dead"
  shows "p \<noteq> 0" and "\<exists>e. h p = Some e"
proof -
  from assms obtain cs where "chains_ok h (st_bins table) (set ps \<union> dead) cs" "0 < length (st_bins table)"
    by (auto simp: table_ok_def num_bins_def)
  from chains_in_heap [OF this assms(2)] show "p \<noteq> 0" "\<exists>e. h p = Some e" by simp_all
qed

lemma table_ok_bin: "table_ok h table ps dead \<Longrightarrow> do_hash_bin key table < length (st_bins table)"
  by (simp add: table_ok_def do_hash_bin_def num_bins_def)

section \<open>Look-up\<close>

definition hit :: "heap \<Rightarrow> st_table \<Rightarrow> u32 \<Rightarrow> st_data \<Rightarrow> addr \<Rightarrow> bool" where
  "hit h table hv key p \<longleftrightarrow> e_hash (the (h p)) = hv \<and> EQUAL table key (entry_key h p)"

fun first_hit :: "heap \<Rightarrow> st_table \<Rightarrow> u32 \<Rightarrow> st_data \<Rightarrow> addr list \<Rightarrow> addr" where
  "first_hit h table hv key [] = 0"
| "first_hit h table hv key (p # ps) = (if hit h table hv key p then p else first_hit h table hv key ps)"

lemma first_hit_cases:
  assumes "0 \<notin> set ps"
  shows "(first_hit h table hv key ps = 0 \<and> (\<forall>p \<in> set ps. \<not> hit h table hv key p)) \<or>
    (first_hit h table hv key ps \<in> set ps \<and> hit h table hv key (first_hit h table hv key ps))"
  using assms by (induction ps) auto

lemma ptr_not_equal_path:
  "path h f p xs 0 \<Longrightarrow> ptr_not_equal h table p hv key = Some (xs \<noteq> [] \<and> \<not> hit h table hv key p)"
  by (cases xs) (auto simp: ptr_not_equal_def hit_def entry_key_def)

lemma find_loop_path:
  "h p = Some e \<Longrightarrow> path h e_next (e_next e) xs 0 \<Longrightarrow>
    find_loop h table hv key p = Some (first_hit h table hv key xs)"
proof (induction xs arbitrary: p e)
  case Nil
  then show ?case by (subst find_loop.simps) (simp add: ptr_not_equal_def)
next
  case (Cons x xs)
  then obtain ex where x: "e_next e = x" "h x = Some ex" "path h e_next (e_next ex) xs 0" by auto
  with Cons.prems Cons.IH [OF x(2,3)] ptr_not_equal_path [OF Cons.prems(2), of table hv key] show ?case
    by (subst find_loop.simps) simp
qed

lemma find_entry_path:
  assumes "path h e_next (st_bins table ! i) xs 0"
  shows "find_entry h table hv key i = Some (first_hit h table hv key xs)"
proof (cases xs)
  case Nil
  with assms show ?thesis by (simp add: find_entry_def ptr_not_equal_def)
next
  case (Cons x ys)
  with assms obtain e where x: "st_bins table ! i = x" "h x = Some e" "path h e_next (e_next e) ys 0" by auto
  from ptr_not_equal_path [OF assms, of table hv key] find_loop_path [OF x(2,3), of table hv key] Cons x(1)
  show ?thesis by (simp add: find_entry_def)
qed

lemma find_entry_live:
  assumes ok: "table_ok h table ps dead" and hash: "hash_ok (st_type table)"
    and dead: "\<And>p. p \<in> dead \<Longrightarrow> \<not> EQUAL table key (entry_key h p)"
  shows "\<exists>p. find_entry h table (do_hash key table) key (do_hash_bin key table) = Some p
    \<and> (if p = 0 then \<forall>q \<in> set ps. \<not> EQUAL table key (entry_key h q)
       else p \<in> set ps \<and> EQUAL table key (entry_key h p))"
proof -
  define i where "i = do_hash_bin key table"
  have i: "i < length (st_bins table)" using table_ok_bin [OF ok] by (simp add: i_def)
  from ok obtain cs where cs: "chains_ok h (st_bins table) (set ps \<union> dead) cs" by (auto simp: table_ok_def)
  note c = chains_okD [OF cs i]
  define r where "r = first_hit h table (do_hash key table) key (cs i)"
  have fe: "find_entry h table (do_hash key table) key i = Some r"
    using find_entry_path [OF c(1)] by (simp add: r_def)
  have nz: "0 \<notin> set (cs i)" using path_in_heap [OF c(1)] by blast
  have hits: "hit h table (do_hash key table) key q \<and> q \<in> set (cs i)"
    if "q \<in> set ps" "EQUAL table key (entry_key h q)" for q
  proof -
    have "e_hash (the (h q)) = do_hash key table"
      using ok that hash_contract.eq_hash [OF hash_okD [OF hash] that(2)]
      by (simp add: table_ok_def entry_ok_def entry_key_def do_hash_def)
    moreover from this that(1) have "q \<in> set (cs i)"
      unfolding c(3) by (simp add: bin_of_def i_def do_hash_bin_def num_bins_def)
    ultimately show ?thesis using that(2) by (simp add: hit_def)
  qed
  from first_hit_cases [OF nz, of h table "do_hash key table" key]
  have "if r = 0 then \<forall>q \<in> set ps. \<not> EQUAL table key (entry_key h q)
      else r \<in> set ps \<and> EQUAL table key (entry_key h r)"
  proof (cases "r = 0")
    case True
    with first_hit_cases [OF nz, of h table "do_hash key table" key] hits nz show ?thesis by (auto simp: r_def)
  next
    case False
    with first_hit_cases [OF nz, of h table "do_hash key table" key]
    have "r \<in> set (cs i)" "EQUAL table key (entry_key h r)" by (auto simp: r_def hit_def)
    with dead [of r] False show ?thesis unfolding c(3) by auto
  qed
  with fe show ?thesis unfolding i_def by blast
qed

lemma al_find_pairs:
  assumes "al_distinct (EQUAL table) (pairs h ps)" and "hash_ok (st_type table)"
    and "p \<in> set ps" and "EQUAL table key (entry_key h p)"
  shows "al_find (EQUAL table) key (pairs h ps) = Some (entry_key h p, e_record (the (h p)))"
  using assms(1,3)
proof (induction ps)
  case (Cons q ps)
  note hc = hash_okD [OF assms(2)]
  show ?case
  proof (cases "EQUAL table key (entry_key h q)")
    case True
    then have "EQUAL table (entry_key h q) (entry_key h p)"
      using assms(4) hash_contract.eq_sym [OF hc] hash_contract.eq_trans [OF hc] by blast
    then have "q = p" using Cons.prems by (auto simp: pairs_def)
    with True show ?thesis by (simp add: pairs_def)
  next
    case False
    with Cons assms(4) show ?thesis by (auto simp: pairs_def)
  qed
qed simp

lemma al_find_pairs_None:
  "\<forall>q \<in> set ps. \<not> EQUAL table key (entry_key h q) \<Longrightarrow> al_find (EQUAL table) key (pairs h ps) = None"
  by (auto simp: al_find_None pairs_def)

lemma st_lookup_correct:
  assumes "represents h table kvs"
  shows "st_lookup h table key = Some (map_option snd (al_find (EQUAL table) key kvs))"
    and "st_get_key h table key = Some (map_option fst (al_find (EQUAL table) key kvs))"
proof -
  from assms obtain ps where ps: "table_ok h table ps {}" "pairs h ps = kvs"
    and h: "hash_ok (st_type table)" "al_distinct (EQUAL table) kvs" by (auto simp: represents_def)
  from find_entry_live [OF ps(1) h(1)] obtain p where
    p: "find_entry h table (do_hash key table) key (do_hash_bin key table) = Some p"
    "if p = 0 then \<forall>q \<in> set ps. \<not> EQUAL table key (entry_key h q)
       else p \<in> set ps \<and> EQUAL table key (entry_key h p)" by auto
  have np: "\<not> entries_packed table" using ps(1) by (simp add: table_ok_def)
  have "st_lookup h table key = Some (map_option snd (al_find (EQUAL table) key kvs))
    \<and> st_get_key h table key = Some (map_option fst (al_find (EQUAL table) key kvs))"
  proof (cases "p = 0")
    case True
    with p al_find_pairs_None [of ps table key h] np show ?thesis
      by (simp add: st_lookup_def st_get_key_def do_hash_bin_def ps(2))
  next
    case False
    with p(2) have q: "p \<in> set ps" "EQUAL table key (entry_key h p)" by simp_all
    obtain e where "h p = Some e" using table_ok_heap(2) [OF ps(1)] q(1) by blast
    with False p(1) np al_find_pairs [OF _ h(1) q] h(2) show ?thesis
      by (simp add: st_lookup_def st_get_key_def do_hash_bin_def ps(2) entry_key_def)
  qed
  then show "st_lookup h table key = Some (map_option snd (al_find (EQUAL table) key kvs))"
    "st_get_key h table key = Some (map_option fst (al_find (EQUAL table) key kvs))" by simp_all
qed

section \<open>Heaps that differ in one place\<close>

text \<open>Same entries up to their records: nothing of the shape of a table changes.\<close>

definition same_shape :: "heap \<Rightarrow> heap \<Rightarrow> bool" where
  "same_shape h h' \<longleftrightarrow>
     (\<forall>q. map_option (\<lambda>e. (e_next e, e_fore e, e_back e, e_hash e, e_key e)) (h q) =
          map_option (\<lambda>e. (e_next e, e_fore e, e_back e, e_hash e, e_key e)) (h' q))"

lemma same_shape_fields:
  assumes "same_shape h h'"
  shows "map_option e_next (h q) = map_option e_next (h' q)" and "map_option e_fore (h q) = map_option e_fore (h' q)"
    and "map_option e_back (h q) = map_option e_back (h' q)" and "map_option e_hash (h q) = map_option e_hash (h' q)"
    and "map_option e_key (h q) = map_option e_key (h' q)"
  using assms [unfolded same_shape_def, rule_format, of q]
  by (cases "h q"; cases "h' q"; simp)+

lemma table_ok_same_shape:
  assumes ok: "table_ok h table ps dead" and s: "same_shape h h'"
  shows "table_ok h' table ps dead"
proof -
  from ok obtain cs where cs: "chains_ok h (st_bins table) (set ps \<union> dead) cs" by (auto simp: table_ok_def)
  note path_eq = path_cong [of _ _ h h']
  have dl: "dl_ok h' (st_head table) (st_tail table) ps"
    using ok path_eq [of ps e_fore] path_eq [of "rev ps" e_back] same_shape_fields [OF s] by (simp add: table_ok_def dl_ok_def)
  have live: "bin_of h' n q = bin_of h n q \<and> (entry_ok ty h' q = entry_ok ty h q)" if q: "q \<in> set ps \<union> dead" for q n ty
  proof -
    obtain e where "h q = Some e" using table_ok_heap(2) [OF ok q] by blast
    moreover from this obtain e' where "h' q = Some e'"
      using same_shape_fields(1) [OF s, of q] by (cases "h' q") simp_all
    ultimately show ?thesis
      using same_shape_fields(4,5) [OF s, of q] by (simp add: bin_of_def entry_ok_def)
  qed
  have "chains_ok h' (st_bins table) (set ps \<union> dead) cs"
    using cs path_eq [of _ e_next] same_shape_fields(1) [OF s] live by (fastforce simp: chains_ok_def)
  with ok dl live show ?thesis by (auto simp: table_ok_def)
qed

text \<open>Only \<open>next\<close> fields of the entries \<open>S\<close> differ.\<close>

definition relinked :: "heap \<Rightarrow> heap \<Rightarrow> addr set \<Rightarrow> bool" where
  "relinked h h' S \<longleftrightarrow> (\<forall>q. q \<notin> S \<longrightarrow> h' q = h q) \<and>
     (\<forall>q \<in> S. \<exists>e a. h q = Some e \<and> h' q = Some (e\<lparr>e_next := a\<rparr>))"

lemma relinked_fields:
  assumes "relinked h h' S"
  shows "map_option e_fore (h' q) = map_option e_fore (h q)" and "map_option e_back (h' q) = map_option e_back (h q)"
    and "map_option e_hash (h' q) = map_option e_hash (h q)" and "map_option e_key (h' q) = map_option e_key (h q)"
    and "map_option e_record (h' q) = map_option e_record (h q)"
proof -
  consider "h' q = h q" | e a where "h q = Some e" "h' q = Some (e\<lparr>e_next := a\<rparr>)"
    using assms unfolding relinked_def by metis
  note c = this
  show "map_option e_fore (h' q) = map_option e_fore (h q)" by (cases rule: c) simp_all
  show "map_option e_back (h' q) = map_option e_back (h q)" by (cases rule: c) simp_all
  show "map_option e_hash (h' q) = map_option e_hash (h q)" by (cases rule: c) simp_all
  show "map_option e_key (h' q) = map_option e_key (h q)" by (cases rule: c) simp_all
  show "map_option e_record (h' q) = map_option e_record (h q)" by (cases rule: c) simp_all
qed

section \<open>Growing\<close>

lemma rehash_loop_correct:
  assumes "path h e_fore p xs 0" and "distinct xs" and "n = length bins" and "0 < n"
    and "\<forall>i < n. path h e_next (bins ! i) (cs i) 0 \<and> set (cs i) \<inter> set xs = {}"
  shows "\<exists>h' bins'. rehash_loop h n bins p = Some (h', bins') \<and> length bins' = n \<and> relinked h h' (set xs)
    \<and> (\<forall>i < n. path h' e_next (bins' ! i) (rev (filter (\<lambda>q. bin_of h n q = i) xs) @ cs i) 0)"
  using assms
proof (induction xs arbitrary: h p bins cs)
  case Nil
  then show ?case by (subst rehash_loop.simps) (auto simp: relinked_def)
next
  case (Cons x xs)
  then obtain e where x: "p = x" "x \<noteq> 0" "h x = Some e" "path h e_fore (e_fore e) xs 0" by auto
  define i where "i = unat (e_hash e) mod n"
  define h1 where "h1 = h(x \<mapsto> e\<lparr>e_next := bins ! i\<rparr>)"
  define bins1 where "bins1 = bins[i := x]"
  define cs1 where "cs1 = cs(i := x # cs i)"
  have i: "i < n" using Cons.prems(4) by (simp add: i_def)
  have xn: "x \<notin> set (cs j)" if "j < n" for j using Cons.prems(5) that by auto
  have "path h1 e_fore (e_fore e) xs 0" unfolding h1_def using x path_same_field [of h x e e_fore] by simp
  moreover have "\<forall>j < n. path h1 e_next (bins1 ! j) (cs1 j) 0 \<and> set (cs1 j) \<inter> set xs = {}"
    using Cons.prems(2,3,5) x i xn by (auto simp: h1_def bins1_def cs1_def path_frame nth_list_update)
  moreover have "n = length bins1" using Cons.prems(3) by (simp add: bins1_def)
  ultimately obtain h' bins' where r: "rehash_loop h1 n bins1 (e_fore e) = Some (h', bins')" "length bins' = n"
    "relinked h1 h' (set xs)"
    "\<forall>j < n. path h' e_next (bins' ! j) (rev (filter (\<lambda>q. bin_of h1 n q = j) xs) @ cs1 j) 0"
    using Cons.IH [of h1 "e_fore e" bins1 cs1] Cons.prems(2,4) by auto
  have b: "bin_of h1 n q = bin_of h n q" for q using x by (simp add: bin_of_def h1_def)
  have bx: "bin_of h n x = i" using x by (simp add: bin_of_def i_def)
  have "relinked h h' (set (x # xs))"
    unfolding relinked_def
  proof (intro conjI allI impI ballI)
    fix q assume "q \<notin> set (x # xs)"
    then show "h' q = h q" using r(3) by (simp add: relinked_def h1_def)
  next
    fix q assume q: "q \<in> set (x # xs)"
    show "\<exists>e a. h q = Some e \<and> h' q = Some (e\<lparr>e_next := a\<rparr>)"
    proof (cases "q = x")
      case True
      then have "h' q = Some (e\<lparr>e_next := bins ! i\<rparr>)"
        using r(3) Cons.prems(2) by (simp add: relinked_def h1_def)
      with True x show ?thesis by blast
    next
      case False
      with q have "q \<in> set xs" by simp
      with r(3) obtain e' a where "h1 q = Some e'" "h' q = Some (e'\<lparr>e_next := a\<rparr>)" unfolding relinked_def by blast
      with False show ?thesis by (auto simp: h1_def)
    qed
  qed
  moreover have "rehash_loop h n bins p = Some (h', bins')"
    using r(1) x by (subst rehash_loop.simps) (simp add: Let_def i_def h1_def bins1_def)
  moreover have "rev (filter (\<lambda>q. bin_of h n q = j) (x # xs)) @ cs j =
      rev (filter (\<lambda>q. bin_of h1 n q = j) xs) @ cs1 j" for j
    using bx by (simp add: b cs1_def)
  then have "\<forall>j < n. path h' e_next (bins' ! j) (rev (filter (\<lambda>q. bin_of h n q = j) (x # xs)) @ cs j) 0"
    using r(4) by (simp only:)
  ultimately show ?case using r(2) by blast
qed

text \<open>The sizes doubled from \<open>MINSIZE\<close>; the last one no longer fits a signed word, so the 0 is never used.\<close>

lemma new_size_loop_spec:
  assumes "new_size_loop newsize ps sz = Inr n"
  shows "\<exists>j < length ps. n = nat (ps ! j) \<and> sint sz < sint (push_bit j newsize)"
  using assms
proof (induction newsize ps sz rule: new_size_loop.induct)
  case (2 newsize p ps sz)
  show ?case
  proof (cases "sint sz < sint newsize")
    case True
    with 2 show ?thesis by (intro exI [of _ 0]) simp
  next
    case False
    with 2 obtain j where "j < length ps" "n = nat (ps ! j)" "sint sz < sint (push_bit j (push_bit 1 newsize))" by auto
    then show ?thesis by (intro exI [of _ "Suc j"]) (simp add: push_bit_push_bit)
  qed
qed simp

lemma new_size_result:
  assumes "new_size sz = Inr n"
  shows "\<exists>j < 28. n = nat (primes ! j) \<and> sint sz < 8 * 2 ^ j"
proof -
  have all: "\<forall>j < 28. sint (push_bit j 8 :: u32) = 8 * 2 ^ j"
  proof (intro allI impI)
    fix j :: nat assume j: "j < 28"
    then have "(8 :: int) * 2 ^ j = 2 ^ (3 + j)" "(2 :: int) ^ (3 + j) \<le> 2 ^ 30"
      by (simp add: power_add, intro power_increasing) simp_all
    then have b: "(8 :: int) * 2 ^ j \<le> 2 ^ 30" by simp
    then have "uint (push_bit j 8 :: u32) = 8 * 2 ^ j" by (simp only: uint_push_bit) simp
    with b show "sint (push_bit j 8 :: u32) = 8 * 2 ^ j" by (simp add: sint_of_uint_u32)
  qed
  have last: "sint (push_bit 28 8 :: u32) = - (2 ^ 31)" by (simp add: push_bit_eq_mult)
  have len: "length primes = 29" by (simp add: primes_def)
  from new_size_loop_spec [of "word_of_int MINSIZE" primes sz n] assms obtain j where
    j: "j < 29" "n = nat (primes ! j)" "sint sz < sint (push_bit j 8 :: u32)"
    by (auto simp: new_size_def MINSIZE_def len)
  have "j \<noteq> 28" using j(3) last sint_u32_bounds [of sz] by auto
  with j(1) have "j < 28" by simp
  with j all show ?thesis by auto
qed

lemma primes_bounds: "j < 28 \<Longrightarrow> 8 * 2 ^ j < primes ! j \<and> primes ! j < 2 * (8 * 2 ^ j)"
proof -
  have "\<forall>j \<in> set [0..<28]. 8 * 2 ^ j < primes ! j \<and> primes ! j < 2 * (8 * 2 ^ j)"
    by (simp add: primes_def upt_rec)
  moreover assume "j < 28"
  ultimately show ?thesis by simp
qed

lemma new_size_bounds:
  assumes "new_size sz = Inr n"
  shows "0 < n" and "sint sz < int n" and "int n < 2 ^ 31"
proof -
  from new_size_result [OF assms] obtain j where j: "j < 28" "n = nat (primes ! j)" "sint sz < 8 * 2 ^ j" by blast
  have p: "(0 :: int) < 8 * 2 ^ j" by simp
  note b = primes_bounds [OF j(1)]
  have "(2 :: int) ^ (4 + j) \<le> 2 ^ 31" using j(1) by (intro power_increasing) simp_all
  then have "2 * (8 * (2 :: int) ^ j) \<le> 2 ^ 31" by (simp add: power_add)
  with j b p show "0 < n" "sint sz < int n" "int n < 2 ^ 31" by auto
qed

lemma pairs_cong:
  "(\<And>p. p \<in> set ps \<Longrightarrow> map_option e_key (h' p) = map_option e_key (h p) \<and> map_option e_record (h' p) = map_option e_record (h p)
      \<and> h p \<noteq> None) \<Longrightarrow> pairs h' ps = pairs h ps"
proof (induction ps)
  case (Cons p ps)
  have "pairs h' ps = pairs h ps" using Cons by simp
  moreover obtain e where "h p = Some e" using Cons.prems [of p] by auto
  moreover have "map_option e_key (h' p) = map_option e_key (h p)" "map_option e_record (h' p) = map_option e_record (h p)"
    using Cons.prems [of p] by simp_all
  ultimately show ?case by (cases "h' p") (auto simp: pairs_def entry_key_def)
qed (simp add: pairs_def)

lemma rehash_correct:
  assumes ok: "table_ok h table ps dead"
  shows "rehash h table = Some (Inl RuntimeError) \<or>
    (\<exists>h' bins'. rehash h table = Some (Inr (h', table\<lparr>st_bins := bins'\<rparr>)) \<and> relinked h h' (set ps)
       \<and> table_ok h' (table\<lparr>st_bins := bins'\<rparr>) ps {} \<and> pairs h' ps = pairs h ps)"
proof (cases "new_size (of_nat (num_bins table + 1))")
  case (Inl e)
  have "new_size_loop w qs sz = Inl e \<Longrightarrow> e = RuntimeError" for w qs sz
    by (induction w qs sz rule: new_size_loop.induct) (auto split: if_splits)
  with Inl show ?thesis by (auto simp: rehash_def new_size_def)
next
  case (Inr n)
  define bins0 where "bins0 = replicate n (0 :: addr)"
  have n: "0 < n" "n = length bins0" using new_size_bounds(1) [OF Inr] by (simp_all add: bins0_def)
  have fore: "path h e_fore (st_head table) ps 0" and dist: "distinct ps" using ok by (simp_all add: table_ok_def dl_ok_def)
  have "\<forall>i < n. path h e_next (bins0 ! i) ((\<lambda>_. []) i) 0 \<and> set ((\<lambda>_. []) i) \<inter> set ps = {}"
    by (simp add: bins0_def)
  from rehash_loop_correct [OF fore dist n(2,1) this] obtain h' bins' where
    r: "rehash_loop h n bins0 (st_head table) = Some (h', bins')" "length bins' = n" "relinked h h' (set ps)"
    "\<forall>i < n. path h' e_next (bins' ! i) (rev (filter (\<lambda>q. bin_of h n q = i) ps)) 0" by auto
  note f = relinked_fields [OF r(3)]
  have the_eq: "g (the (h' q)) = g (the (h q))" if "map_option g (h' q) = map_option g (h q)" "q \<in> set ps"
    for g :: "st_table_entry \<Rightarrow> u32" and q
    using table_ok_heap(2) [OF ok, of q] that by (cases "h' q") auto
  have "chains_ok h' bins' (set ps \<union> {}) (\<lambda>i. rev (filter (\<lambda>q. bin_of h n q = i) ps))"
    using r(2,4) dist the_eq [OF f(3)] by (auto simp: chains_ok_def bin_of_def)
  moreover have "dl_ok h' (st_head table) (st_tail table) ps"
    using ok path_cong [of ps e_fore h' h] path_cong [of "rev ps" e_back h' h] f(1,2) by (simp add: table_ok_def dl_ok_def)
  moreover have "entry_ok ty h' q = entry_ok ty h q" if "q \<in> set ps" for ty q
    using the_eq [OF f(3) that] the_eq [OF f(4) that] by (simp add: entry_ok_def)
  ultimately have "table_ok h' (table\<lparr>st_bins := bins'\<rparr>) ps {}"
    using ok r(2) n by (auto simp: table_ok_def num_bins_def)
  moreover have "pairs h' ps = pairs h ps"
    using f(4,5) table_ok_heap(2) [OF ok] by (intro pairs_cong) auto
  moreover have "rehash h table = Some (Inr (h', table\<lparr>st_bins := bins'\<rparr>))"
    using r(1) Inr by (simp add: rehash_def bins0_def)
  ultimately show ?thesis using r(3) by blast
qed

section \<open>Inserting\<close>

text \<open>The C library's \<open>malloc\<close>: an address that is not in use, or none.\<close>

definition malloc_ok :: "allocator \<Rightarrow> bool" where
  "malloc_ok malloc \<longleftrightarrow> (\<forall>h p. malloc h = Some p \<longrightarrow> p \<noteq> 0 \<and> h p = None)"

lemma dl_ok_ends:
  assumes "dl_ok h fst_e lst_e ps"
  shows "fst_e = (if ps = [] then 0 else hd ps)" and "lst_e = (if ps = [] then 0 else last ps)"
proof -
  show "fst_e = (if ps = [] then 0 else hd ps)" using assms by (cases ps) (auto simp: dl_ok_def)
  show "lst_e = (if ps = [] then 0 else last ps)"
    using assms by (cases ps rule: rev_cases) (auto simp: dl_ok_def)
qed

end
