(* ===== verification/StInsert.thy ===== *)
theory StInsert
  imports StRefine
begin

text \<open>
  Insertion: \<open>link_entry\<close> puts a new entry at the end of the order and at the head of its chain, so that
  \<open>st_insert\<close> and \<open>st_add_direct\<close> do to the association list what the ordered dictionary promises,
  growing the table and leaving the packed representation on the way.
\<close>

section \<open>A new entry\<close>

lemma dl_ok_snoc:
  assumes dl: "dl_ok h f l ps" and p: "p \<noteq> 0" "p \<notin> set ps" and e: "e_fore e = 0" "e_back e = (if ps = [] then 0 else l)"
    and h': "h' p = Some e" "\<And>q. q \<noteq> p \<Longrightarrow> map_option e_back (h' q) = map_option e_back (h q)"
      "\<And>q. q \<noteq> p \<Longrightarrow> q \<noteq> l \<Longrightarrow> map_option e_fore (h' q) = map_option e_fore (h q)"
      "ps \<noteq> [] \<Longrightarrow> map_option e_fore (h' l) = Some p"
  shows "dl_ok h' (if ps = [] then p else f) p (ps @ [p])"
proof -
  have bk: "path h' e_back l (rev ps) 0"
  proof (rule path_keeps)
    show "path h e_back l (rev ps) 0" using dl by (simp add: dl_ok_def)
    show "map_option e_back (h' x) = map_option e_back (h x)" if "x \<in> set (rev ps)" for x
      by (rule h'(2)) (use that p(2) in auto)
  qed
  show ?thesis
  proof (cases ps rule: rev_cases)
    case Nil
    with p e h' show ?thesis by (auto simp: dl_ok_def)
  next
    case (snoc qs x)
    have x: "x = l" using dl_ok_ends(2) [OF dl] snoc by simp
    have "path h e_fore f qs l" "l \<notin> set qs" using dl snoc x by (auto simp: dl_ok_def)
    moreover from this(2) have "path h' e_fore f qs l"
      by (intro path_keeps [OF \<open>path h e_fore f qs l\<close>] h'(3)) (use p(2) snoc in auto)
    moreover obtain el where "h' l = Some el" "e_fore el = p" using h'(4) snoc by (cases "h' l") auto
    moreover have "l \<noteq> 0" using dl snoc x by (auto simp: dl_ok_def)
    ultimately show ?thesis
      using dl bk snoc x p e h'(1) by (auto simp: dl_ok_def)
  qed
qed

lemma chains_push:
  assumes cs: "chains_ok h bins C cs" and n: "0 < length bins" and p: "p \<noteq> 0" "p \<notin> C" and h: "h' p = Some e"
    and i: "i = unat (e_hash e) mod length bins" "e_next e = bins ! i"
    and same: "\<And>q. q \<noteq> p \<Longrightarrow> map_option e_next (h' q) = map_option e_next (h q)"
      "\<And>q. q \<noteq> p \<Longrightarrow> map_option e_hash (h' q) = map_option e_hash (h q)"
  shows "chains_ok h' (bins[i := p]) (insert p C) (cs(i := p # cs i))"
proof -
  have il: "i < length bins" using n by (simp add: i(1))
  have bin: "bin_of h' m q = bin_of h m q" if q: "q \<in> C" for m q
  proof -
    have qp: "q \<noteq> p" using q p(2) by auto
    obtain eq where "h q = Some eq" using chains_in_heap [OF cs n q] by blast
    moreover from this obtain eq' where "h' q = Some eq'" using same(1) [OF qp] by (cases "h' q") auto
    ultimately show ?thesis using same(2) [OF qp] by (simp add: bin_of_def)
  qed
  have bp: "bin_of h' (length bins) p = i" by (simp add: bin_of_def h i(1))
  have "path h' e_next (bins ! j) (cs j) 0" "distinct (cs j)" "p \<notin> set (cs j)"
    "set (cs j) = {q \<in> C. bin_of h' (length bins) q = j}" if j: "j < length bins" for j
  proof -
    note c = chains_okD [OF cs j]
    show pn: "p \<notin> set (cs j)" using c(3) p(2) by auto
    show "path h' e_next (bins ! j) (cs j) 0" by (rule path_keeps [OF c(1)], rule same(1)) (use pn in auto)
    show "distinct (cs j)" by (rule c(2))
    show "set (cs j) = {q \<in> C. bin_of h' (length bins) q = j}" unfolding c(3) using bin by auto
  qed
  with il h i(2) p(1) bp show ?thesis
    unfolding chains_ok_def by (auto simp: nth_list_update)
qed

lemma pairs_snoc: "pairs h (ps @ [p]) = pairs h ps @ [(entry_key h p, e_record (the (h p)))]"
  by (simp add: pairs_def)

lemma link_entry_correct:
  assumes ok: "table_ok h table ps dead" and m: "malloc h = Some p" "p \<noteq> 0" "h p = None"
    and b: "bin_pos = unat (do_hash key table) mod num_bins table"
  shows "\<exists>h' table'. link_entry malloc h table key value (do_hash key table) bin_pos = Some (Inr (h', table'))
    \<and> table_ok h' table' (ps @ [p]) dead \<and> pairs h' (ps @ [p]) = pairs h ps @ [(key, value)]
    \<and> st_type table' = st_type table \<and> num_bins table' = num_bins table"
proof -
  define hv where "hv = do_hash key table"
  define l where "l = st_tail table"
  define e where "e = \<lparr>e_hash = hv, e_key = key, e_record = value, e_next = st_bins table ! bin_pos,
     e_fore = 0, e_back = (if st_head table \<noteq> 0 then l else 0)\<rparr>"
  have dl: "dl_ok h (st_head table) l ps" and n: "0 < num_bins table" using ok by (simp_all add: table_ok_def l_def)
  have new: "p \<notin> set ps \<union> dead" using table_ok_heap(2) [OF ok, of p] m(3) by auto
  have head: "st_head table \<noteq> 0 \<longleftrightarrow> ps \<noteq> []"
    using dl_ok_ends(1) [OF dl] table_ok_heap(1) [OF ok, of "hd ps"] by auto
  define h' where "h' = (if ps = [] then h(p \<mapsto> e) else h(p \<mapsto> e, l \<mapsto> (the (h l))\<lparr>e_fore := p\<rparr>))"
  define table' where "table' = table\<lparr>st_bins := (st_bins table)[bin_pos := p], num_entries := num_entries table + 1,
     st_head := (if ps = [] then p else st_head table), st_tail := p\<rparr>"
  have l: "l \<noteq> p \<and> h l = Some (the (h l))" if "ps \<noteq> []"
  proof -
    have "l \<in> set ps" using dl_ok_ends(2) [OF dl] that by simp
    with new table_ok_heap(2) [OF ok, of l] show ?thesis by auto
  qed
  have run: "link_entry malloc h table key value hv bin_pos = Some (Inr (h', table'))"
  proof (cases "ps = []")
    case True
    then show ?thesis using head m(1) by (simp add: link_entry_def Let_def h'_def table'_def e_def)
  next
    case False
    from l [OF False] obtain te where te: "l \<noteq> p" "h l = Some te" by blast
    with False show ?thesis
      using head m(1) by (simp add: link_entry_def Let_def h'_def table'_def e_def flip: l_def)
  qed
  have hp: "h' p = Some e" using l by (auto simp: h'_def)
  have same: "map_option g (h' q) = map_option g (h q)"
    if "q \<noteq> p" "\<And>x a. g (x\<lparr>e_fore := a\<rparr>) = g x" for q and g :: "st_table_entry \<Rightarrow> u32"
    using that l by (cases "q = l"; cases "h l") (auto simp: h'_def)
  have "dl_ok h' (if ps = [] then p else st_head table) p (ps @ [p])"
  proof (rule dl_ok_snoc [where e = e, OF dl m(2)])
    show "map_option e_fore (h' q) = map_option e_fore (h q)" if "q \<noteq> p" "q \<noteq> l" for q
      using that by (simp add: h'_def)
    show "map_option e_fore (h' l) = Some p" if "ps \<noteq> []" using that by (simp add: h'_def)
  qed (use new head hp in \<open>auto simp: e_def intro: same\<close>)
  moreover obtain cs where cs: "chains_ok h (st_bins table) (set ps \<union> dead) cs" using ok by (auto simp: table_ok_def)
  have "chains_ok h' ((st_bins table)[bin_pos := p]) (insert p (set ps \<union> dead)) (cs(bin_pos := p # cs bin_pos))"
    by (rule chains_push [where e = e, OF cs])
      (use n b m(2) new hp in \<open>simp_all add: e_def hv_def num_bins_def same\<close>)
  moreover have "entry_ok ty h' q = entry_ok ty h q \<and> entry_key h' q = entry_key h q
      \<and> e_record (the (h' q)) = e_record (the (h q))" if q: "q \<in> set ps" for q ty
  proof -
    have "q \<noteq> p" using new q by auto
    moreover obtain eq where "h q = Some eq" using table_ok_heap(2) [OF ok, of q] q by blast
    ultimately show ?thesis
      using same [of q e_hash] same [of q e_key] same [of q e_record]
      by (cases "h' q") (auto simp: entry_ok_def entry_key_def)
  qed
  note live = this
  moreover have "entry_ok (st_type table) h' p" by (simp add: entry_ok_def hp e_def hv_def do_hash_def)
  ultimately have "table_ok h' table' (ps @ [p]) dead"
    using ok new by (auto simp: table_ok_def table'_def num_bins_def)
  moreover have "pairs h' (ps @ [p]) = pairs h ps @ [(key, value)]"
    using live by (simp add: pairs_snoc entry_key_def hp e_def) (simp add: pairs_def entry_key_def)
  ultimately show ?thesis using run unfolding hv_def by (auto simp: table'_def num_bins_def)
qed

section \<open>The code's two ways to fail\<close>

text \<open>Out of memory, or a table that has reached the last prime.\<close>

definition st_failure :: "allocator \<Rightarrow> st_table \<Rightarrow> rb_error \<Rightarrow> bool" where
  "st_failure malloc table e \<longleftrightarrow>
     e = NoMemError \<and> (\<exists>h. malloc h = None) \<or> e = RuntimeError \<and> 2 ^ 30 \<le> num_bins table + 1"

lemma new_size_loop_fails:
  "new_size_loop newsize ps sz = Inl e \<Longrightarrow> e = RuntimeError \<and> (\<forall>j < length ps. sint (push_bit j newsize) \<le> sint sz)"
proof (induction newsize ps sz rule: new_size_loop.induct)
  case (2 newsize p ps sz)
  then have r: "\<not> sint sz < sint newsize" "new_size_loop (push_bit 1 newsize) ps sz = Inl e" by (simp_all split: if_splits)
  note IH = "2.IH" [OF r]
  have "sint (push_bit j newsize) \<le> sint sz" if "j < length (p # ps)" for j
  proof (cases j)
    case 0
    with r(1) show ?thesis by simp
  next
    case (Suc i)
    with IH that have "sint (push_bit i (push_bit 1 newsize)) \<le> sint sz" by simp
    then show ?thesis by (simp only: Suc push_bit_push_bit) simp
  qed
  with IH show ?case by blast
qed simp

lemma new_size_total: "n < 2 ^ 30 \<Longrightarrow> \<exists>m. new_size (of_nat n) = Inr m"
proof (rule ccontr)
  assume n: "n < 2 ^ 30" and "\<nexists>m. new_size (of_nat n) = Inr m"
  then obtain e where "new_size_loop (word_of_int MINSIZE) primes (of_nat n) = Inl e"
    by (cases "new_size (of_nat n)") (auto simp: new_size_def)
  from new_size_loop_fails [OF this] have "sint (push_bit 27 (word_of_int MINSIZE :: u32)) \<le> sint (of_nat n :: u32)"
    by (simp add: primes_def)
  moreover have "sint (push_bit 27 (word_of_int MINSIZE :: u32)) = 2 ^ 30" by (simp add: MINSIZE_def push_bit_eq_mult)
  moreover have "uint (of_nat n :: u32) = int n" using n by (simp add: unsigned_of_nat take_bit_nat_eq_self)
  then have "sint (of_nat n :: u32) = int n" using n by (simp add: sint_of_uint_u32)
  ultimately show False using n by simp
qed

lemma rehash_failure: "rehash h table = Some (Inl e) \<Longrightarrow> st_failure malloc table e"
proof -
  assume r: "rehash h table = Some (Inl e)"
  then have n: "new_size (of_nat (num_bins table + 1)) = Inl e"
    by (auto simp: rehash_def split: sum.splits bind_splits prod.splits)
  then have "e = RuntimeError" using new_size_loop_fails by (auto simp: new_size_def)
  moreover have "\<not> num_bins table + 1 < 2 ^ 30" using new_size_total [of "num_bins table + 1"] n by (metis Inl_Inr_False)
  ultimately show ?thesis by (simp add: st_failure_def)
qed

section \<open>Insertion into chains\<close>

lemma represents_type: "represents h table kvs \<Longrightarrow> hash_contract (EQUAL table) (type_hash (st_type table))"
  by (simp add: represents_def hash_okD)

lemma EQUAL_type: "st_type table' = st_type table \<Longrightarrow> EQUAL table' = EQUAL table"
  by (simp add: EQUAL_key_eq)

lemma al_distinct_snoc:
  assumes "hash_contract eq hsh" and "al_distinct eq kvs" and "al_find eq k kvs = None"
  shows "al_distinct eq (kvs @ [(k, v)])"
  using assms(2,3) hash_contract.eq_sym [OF assms(1)] by (auto simp: al_distinct_append al_find_None)

text \<open>What \<open>ADD_DIRECT\<close> promises when the key is new.\<close>

lemma ADD_DIRECT_correct:
  assumes rep: "represents h table kvs" and new: "al_find (EQUAL table) key kvs = None" and m: "malloc_ok malloc"
    and b: "bin_pos = unat (do_hash key table) mod num_bins table"
  shows "(\<exists>e. ADD_DIRECT malloc h table key value (do_hash key table) bin_pos = Some (Inl e) \<and> st_failure malloc table e) \<or>
    (\<exists>h' table'. ADD_DIRECT malloc h table key value (do_hash key table) bin_pos = Some (Inr (h', table'))
       \<and> represents h' table' (kvs @ [(key, value)]) \<and> st_type table' = st_type table
       \<and> (num_entries table < num_bins table \<longrightarrow> num_bins table' = num_bins table))"
proof -
  from rep obtain ps where ps: "table_ok h table ps {}" "pairs h ps = kvs" and ty: "hash_ok (st_type table)"
    by (auto simp: represents_def)
  have dist: "al_distinct (EQUAL table) (kvs @ [(key, value)])"
    using al_distinct_snoc [OF represents_type [OF rep] _ new] rep by (simp add: represents_def)
  have link: "(\<exists>e. link_entry malloc g tab key value (do_hash key table) (unat (do_hash key table) mod num_bins tab) = Some (Inl e)
        \<and> st_failure malloc table e) \<or>
      (\<exists>h' table'. link_entry malloc g tab key value (do_hash key table) (unat (do_hash key table) mod num_bins tab)
          = Some (Inr (h', table')) \<and> represents h' table' (kvs @ [(key, value)]) \<and> st_type table' = st_type table
          \<and> num_bins table' = num_bins tab)"
    if t: "table_ok g tab ps {}" "pairs g ps = kvs" "st_type tab = st_type table" for g tab
  proof (cases "malloc g")
    case None
    then show ?thesis by (auto simp: link_entry_def st_failure_def)
  next
    case (Some p)
    have hv: "do_hash key tab = do_hash key table" by (simp add: do_hash_def t(3))
    have "p \<noteq> 0" "g p = None" using m Some by (simp_all add: malloc_ok_def)
    from link_entry_correct [of g tab ps "{}" malloc p "unat (do_hash key tab) mod num_bins tab" key "value", OF t(1) Some this refl] obtain h' table' where
      r: "link_entry malloc g tab key value (do_hash key table) (unat (do_hash key table) mod num_bins tab) = Some (Inr (h', table'))"
      "table_ok h' table' (ps @ [p]) {}" "pairs h' (ps @ [p]) = kvs @ [(key, value)]" "st_type table' = st_type table"
      "num_bins table' = num_bins tab"
      unfolding hv t(2,3) by blast
    have "represents h' table' (kvs @ [(key, value)])"
      unfolding represents_def r(4) EQUAL_type [OF r(4)] using dist ty r(2,3) by blast
    with r(1,4,5) show ?thesis by blast
  qed
  show ?thesis
  proof (cases "ST_DEFAULT_MAX_DENSITY < num_entries table div num_bins table")
    case False
    then show ?thesis using link [OF ps refl] b by (auto simp: ADD_DIRECT_def)
  next
    case True
    from rehash_correct [OF ps(1)] show ?thesis
    proof
      assume r: "rehash h table = Some (Inl RuntimeError)"
      with True rehash_failure [OF r] show ?thesis by (simp add: ADD_DIRECT_def)
    next
      assume "\<exists>h' bins'. rehash h table = Some (Inr (h', table\<lparr>st_bins := bins'\<rparr>)) \<and> relinked h h' (set ps)
        \<and> table_ok h' (table\<lparr>st_bins := bins'\<rparr>) ps {} \<and> pairs h' ps = pairs h ps"
      then obtain h' bins' where r: "rehash h table = Some (Inr (h', table\<lparr>st_bins := bins'\<rparr>))"
        "table_ok h' (table\<lparr>st_bins := bins'\<rparr>) ps {}" "pairs h' ps = kvs" using ps(2) by blast
      have "\<not> num_entries table < num_bins table" using True by (auto simp: ST_DEFAULT_MAX_DENSITY_def)
      with True link [OF r(2,3)] show ?thesis by (auto simp: ADD_DIRECT_def r(1))
    qed
  qed
qed

lemma only_hit:
  assumes ty: "hash_ok (st_type table)" and d: "al_distinct (EQUAL table) (pairs h ps)"
    and p: "p \<in> set ps" "EQUAL table key (entry_key h p)" and q: "q \<in> set ps" "EQUAL table key (entry_key h q)"
  shows "q = p"
proof (rule ccontr)
  note hc = hash_okD [OF ty]
  assume "q \<noteq> p"
  moreover have "EQUAL table (entry_key h q) (entry_key h p)" "EQUAL table (entry_key h p) (entry_key h q)"
    using p(2) q(2) hash_contract.eq_sym [OF hc] hash_contract.eq_trans [OF hc] by blast+
  ultimately show False using d p(1) q(1) by (induction ps) (auto simp: pairs_def)
qed

lemma pairs_update:
  assumes ty: "hash_ok (st_type table)" and d: "al_distinct (EQUAL table) (pairs h ps)"
    and p: "p \<in> set ps" "EQUAL table key (entry_key h p)" "h p = Some e"
  shows "pairs (h(p \<mapsto> e\<lparr>e_record := value\<rparr>)) ps =
    map (\<lambda>(k, v). if EQUAL table key k then (k, value) else (k, v)) (pairs h ps)"
proof -
  have "\<not> EQUAL table key (entry_key h q)" if "q \<in> set ps" "q \<noteq> p" for q
    using only_hit [OF ty d p(1,2) that(1)] that(2) by blast
  with p show ?thesis by (auto simp: pairs_def entry_key_def)
qed

lemma insert_unpacked_correct:
  assumes rep: "represents h table kvs" and m: "malloc_ok malloc"
  shows "(\<exists>e. insert_unpacked malloc h table key value = Some (Inl e) \<and> st_failure malloc table e) \<or>
    (\<exists>h' table'. insert_unpacked malloc h table key value
         = Some (Inr (al_find (EQUAL table) key kvs \<noteq> None, h', table'))
       \<and> represents h' table' (al_insert (EQUAL table) key value kvs) \<and> st_type table' = st_type table
       \<and> (num_entries table < num_bins table \<longrightarrow> num_bins table' = num_bins table))"
proof -
  from rep obtain ps where ps: "table_ok h table ps {}" "pairs h ps = kvs" and ty: "hash_ok (st_type table)"
    and dist: "al_distinct (EQUAL table) kvs" by (auto simp: represents_def)
  from find_entry_live [OF ps(1) ty, of key] obtain p where
    p: "find_entry h table (do_hash key table) key (unat (do_hash key table) mod num_bins table) = Some p"
    "if p = 0 then \<forall>q \<in> set ps. \<not> EQUAL table key (entry_key h q)
       else p \<in> set ps \<and> EQUAL table key (entry_key h p)"
    by (auto simp: do_hash_bin_def)
  show ?thesis
  proof (cases "p = 0")
    case True
    with p(2) have new: "al_find (EQUAL table) key kvs = None"
      using al_find_pairs_None [of ps table key h] ps(2) by simp
    have "insert_unpacked malloc h table key value = map_option (map_sum id (Pair False))
        (ADD_DIRECT malloc h table key value (do_hash key table) (unat (do_hash key table) mod num_bins table))"
      using p(1) True by (simp add: insert_unpacked_def Let_def)
    with ADD_DIRECT_correct [OF rep new m refl, of "value"] new show ?thesis by (auto simp: al_insert_def)
  next
    case False
    with p(2) have q: "p \<in> set ps" "EQUAL table key (entry_key h p)" by simp_all
    obtain e where e: "h p = Some e" using table_ok_heap(2) [OF ps(1)] q(1) by blast
    have found: "al_find (EQUAL table) key kvs \<noteq> None"
      using al_find_pairs [OF _ ty q] dist ps(2) by auto
    define h' where "h' = h(p \<mapsto> e\<lparr>e_record := value\<rparr>)"
    have "same_shape h h'" using e by (simp add: same_shape_def h'_def)
    from table_ok_same_shape [OF ps(1) this] have "table_ok h' table ps {}" .
    moreover have "pairs h' ps = al_insert (EQUAL table) key value kvs"
      using pairs_update [OF ty _ q e, of "value"] dist found by (simp add: h'_def ps(2) al_insert_def)
    moreover have "al_distinct (EQUAL table) (al_insert (EQUAL table) key value kvs)"
      by (rule hash_contract.al_distinct_insert [OF hash_okD [OF ty] dist])
    ultimately have "represents h' table (al_insert (EQUAL table) key value kvs)" using ty by (auto simp: represents_def)
    then show ?thesis using p(1) False e found by (simp add: insert_unpacked_def Let_def h'_def)
  qed
qed

end
