(* ===== verification/StPacked.thy ===== *)
theory StPacked
  imports StInsert
begin

text \<open>
  Packed tables: a small table of numbers keeps its pairs in \<open>bins\<close> itself.  \<open>stands_for\<close> covers both
  representations; look-up and insertion are correct for it, including the change from one to the
  other.
\<close>

section \<open>Both representations\<close>

definition packed_ok :: "st_table \<Rightarrow> bool" where
  "packed_ok table \<longleftrightarrow> entries_packed table \<and> st_type table = Type_numhash \<and> num_bins table = 11
     \<and> num_entries table \<le> MAX_PACKED_NUMHASH \<and> st_head table = 0 \<and> st_tail table = 0"

definition stands_for :: "heap \<Rightarrow> st_table \<Rightarrow> (st_data \<times> st_data) list \<Rightarrow> bool" where
  "stands_for h table kvs \<longleftrightarrow>
     (if entries_packed table
      then packed_ok table \<and> packed_pairs table = kvs \<and> al_distinct (EQUAL table) kvs
      else represents h table kvs)"

lemma represents_unpacked: "represents h table kvs \<Longrightarrow> \<not> entries_packed table"
  by (auto simp: represents_def table_ok_def)

lemma stands_for_unpacked: "represents h table kvs \<Longrightarrow> stands_for h table kvs"
  by (simp add: stands_for_def represents_unpacked)

lemma packed_EQUAL: "packed_ok table \<Longrightarrow> EQUAL table = (=)"
  by (simp add: packed_ok_def EQUAL_def type_compare_def st_numcmp_def fun_eq_iff)

lemma stands_for_contract: "stands_for h table kvs \<Longrightarrow> hash_contract (EQUAL table) (type_hash (st_type table))"
  by (rule hash_okD, cases "entries_packed table") (auto simp: stands_for_def packed_ok_def represents_def)

lemma stands_for_distinct: "stands_for h table kvs \<Longrightarrow> al_distinct (EQUAL table) kvs"
  by (cases "entries_packed table") (auto simp: stands_for_def represents_def)

lemma stands_for_length: "stands_for h table kvs \<Longrightarrow> num_entries table = length kvs"
  by (cases "entries_packed table")
    (auto simp: stands_for_def represents_def table_ok_def packed_pairs_def pairs_def)

lemma represents_empty:
  assumes "hash_ok (st_type table)" and "\<not> entries_packed table" and "num_entries table = 0"
    and "st_head table = 0" and "st_tail table = 0" and "st_bins table = replicate n 0" and "0 < n"
  shows "represents h table []"
proof -
  have "chains_ok h (st_bins table) {} (\<lambda>_. [])" using assms(6) by (simp add: chains_ok_def)
  then have "table_ok h table [] {}" using assms by (auto simp: table_ok_def dl_ok_def num_bins_def)
  then show ?thesis using assms(1) unfolding represents_def by (intro conjI exI [of _ "[]"]) (simp_all add: pairs_def)
qed

lemma new_size_min: "new_size sz = Inr n \<Longrightarrow> 11 \<le> n"
proof -
  assume "new_size sz = Inr n"
  from new_size_result [OF this] obtain j where j: "j < 28" "n = nat (primes ! j)" by blast
  show ?thesis
  proof (cases j)
    case 0
    with j(2) show ?thesis by (simp add: primes_def)
  next
    case (Suc i)
    have "(16 :: int) \<le> 8 * 2 ^ j" by (simp add: Suc)
    with primes_bounds [OF j(1)] j(2) show ?thesis by linarith
  qed
qed

lemma st_init_table_correct:
  assumes "st_init_table_with_size ty sz = Inr table" and "hash_ok ty"
  shows "stands_for h table [] \<and> st_type table = ty"
proof -
  from assms(1) obtain n where n: "new_size sz = Inr n"
    "table = \<lparr>st_type = ty, entries_packed = (case ty of Type_numhash \<Rightarrow> n div 2 \<le> MAX_PACKED_NUMHASH | _ \<Rightarrow> False),
       num_entries = 0, st_bins = replicate n 0, st_head = 0, st_tail = 0\<rparr>"
    by (cases "new_size sz") (auto simp: st_init_table_with_size_def)
  have pos: "0 < n" using new_size_bounds(1) [OF n(1)] .
  show ?thesis
  proof (cases "entries_packed table")
    case True
    then have "ty = Type_numhash" "n = 11" using new_size_min [OF n(1)] by (auto simp: n(2) MAX_PACKED_NUMHASH_def split: st_hash_type.splits)
    with True show ?thesis
      by (simp add: stands_for_def packed_ok_def num_bins_def packed_pairs_def n(2))
  next
    case False
    with represents_empty [of table n h] pos assms(2) show ?thesis by (simp add: stands_for_def n(2))
  qed
qed

section \<open>Look-up\<close>

lemma packed_find_None: "packed_find table key i k = None \<longleftrightarrow> (\<forall>j. i \<le> j \<and> j < i + k \<longrightarrow> st_bins table ! (j * 2) \<noteq> key)"
proof (induction table key i k rule: packed_find.induct)
  case (2 table key i k)
  have j: "i \<le> j \<and> j < i + Suc k \<longleftrightarrow> j = i \<or> i + 1 \<le> j \<and> j < i + 1 + k" for j by presburger
  have "(\<forall>j. i \<le> j \<and> j < i + Suc k \<longrightarrow> st_bins table ! (j * 2) \<noteq> key) \<longleftrightarrow>
      st_bins table ! (i * 2) \<noteq> key \<and> (\<forall>j. i + 1 \<le> j \<and> j < i + 1 + k \<longrightarrow> st_bins table ! (j * 2) \<noteq> key)"
    unfolding j by blast
  with 2 show ?case by simp
qed auto

lemma packed_find_Some:
  "packed_find table key i k = Some j \<Longrightarrow> i \<le> j \<and> j < i + k \<and> st_bins table ! (j * 2) = key"
  by (induction table key i k rule: packed_find.induct) (force split: if_splits)+

lemma packed_pairs_nth:
  "j < num_entries table \<Longrightarrow> packed_pairs table ! j = (st_bins table ! (j * 2), st_bins table ! (j * 2 + 1))"
  by (simp add: packed_pairs_def)

lemma length_packed_pairs [simp]: "length (packed_pairs table) = num_entries table"
  by (simp add: packed_pairs_def)

lemma al_find_nth:
  assumes "al_distinct eq kvs" and "hash_contract eq hsh" and "j < length kvs" and "eq k (fst (kvs ! j))"
  shows "al_find eq k kvs = Some (kvs ! j)"
  using assms(1,3,4)
proof (induction kvs arbitrary: j)
  case (Cons x kvs)
  show ?case
  proof (cases j)
    case 0
    with Cons.prems(3) show ?thesis by (cases x) simp
  next
    case (Suc i)
    then have i: "i < length kvs" "eq k (fst (kvs ! i))" using Cons.prems by simp_all
    have "(fst (kvs ! i), snd (kvs ! i)) \<in> set kvs" using i(1) by simp
    then have "\<not> eq (fst x) (fst (kvs ! i))" using Cons.prems(1) by (cases x) fastforce
    then have "\<not> eq k (fst x)"
      using i(2) hash_contract.eq_sym [OF assms(2)] hash_contract.eq_trans [OF assms(2)] by blast
    with Cons.IH [OF _ i] Cons.prems(1) Suc show ?thesis by (cases x) simp
  qed
qed simp

lemma packed_find_pairs:
  assumes "packed_ok table" and "al_distinct (EQUAL table) (packed_pairs table)"
  shows "(case packed_find table key 0 (num_entries table) of
      None \<Rightarrow> al_find (EQUAL table) key (packed_pairs table) = None
    | Some j \<Rightarrow> j < num_entries table \<and> st_bins table ! (j * 2) = key
        \<and> al_find (EQUAL table) key (packed_pairs table) = Some (key, st_bins table ! (j * 2 + 1)))"
proof (cases "packed_find table key 0 (num_entries table)")
  case None
  have "\<not> EQUAL table key k" if "(k, v) \<in> set (packed_pairs table)" for k v
    using that None unfolding packed_find_None by (auto simp: packed_pairs_def packed_EQUAL [OF assms(1)])
  with None show ?thesis by (auto simp: al_find_None)
next
  case (Some j)
  note j = packed_find_Some [OF Some]
  have hc: "hash_contract (EQUAL table) (type_hash (st_type table))"
    using assms(1) by (intro hash_okD) (simp add: packed_ok_def)
  from al_find_nth [OF assms(2) hc, of j key] j packed_pairs_nth [of j table] show ?thesis
    by (simp add: Some packed_EQUAL [OF assms(1)])
qed

theorem st_lookup_stands_for:
  assumes "stands_for h table kvs"
  shows "st_lookup h table key = Some (map_option snd (al_find (EQUAL table) key kvs))
    \<and> st_get_key h table key = Some (map_option fst (al_find (EQUAL table) key kvs))"
proof (cases "entries_packed table")
  case False
  with assms st_lookup_correct [of h table kvs key] show ?thesis by (simp add: stands_for_def)
next
  case True
  with assms packed_find_pairs [of table key] show ?thesis
    by (auto simp: stands_for_def st_lookup_def st_get_key_def split: option.splits)
qed

section \<open>Insertion\<close>

lemma represents_length: "represents h table kvs \<Longrightarrow> num_entries table = length kvs"
  by (auto simp: represents_def table_ok_def pairs_def)

lemma al_find_prefix: "al_distinct eq (xs @ (k, v) # ys) \<Longrightarrow> hash_contract eq hsh \<Longrightarrow> al_find eq k xs = None"
  by (auto simp: al_distinct_append al_find_None dest: hash_contract.eq_sym)

lemma insert_all_correct:
  assumes "malloc_ok malloc" and "num_bins table + 1 < 2 ^ 30"
  shows "represents h table kvs0 \<Longrightarrow> al_distinct (EQUAL table) (kvs0 @ kvs) \<Longrightarrow> length (kvs0 @ kvs) < num_bins table \<Longrightarrow>
    (\<exists>e. insert_all malloc h table kvs = Some (Inl e) \<and> st_failure malloc table e) \<or>
    (\<exists>h' table'. insert_all malloc h table kvs = Some (Inr (h', table')) \<and> represents h' table' (kvs0 @ kvs)
       \<and> st_type table' = st_type table \<and> num_bins table' = num_bins table)"
  using assms(2)
proof (induction kvs arbitrary: h table kvs0)
  case Nil
  then show ?case by simp
next
  case (Cons kv kvs)
  obtain k v where kv: "kv = (k, v)" by (cases kv)
  have new: "al_find (EQUAL table) k kvs0 = None"
    by (rule al_find_prefix [OF Cons.prems(2) [unfolded kv] represents_type [OF Cons.prems(1)]])
  from insert_unpacked_correct [OF Cons.prems(1) assms(1), of k v] show ?case
  proof (elim disjE exE conjE)
    fix e assume "insert_unpacked malloc h table k v = Some (Inl e)" "st_failure malloc table e"
    then show ?thesis by (simp add: kv)
  next
    fix h1 t1
    assume r: "insert_unpacked malloc h table k v = Some (Inr (al_find (EQUAL table) k kvs0 \<noteq> None, h1, t1))"
      "represents h1 t1 (al_insert (EQUAL table) k v kvs0)" "st_type t1 = st_type table"
      "num_entries table < num_bins table \<longrightarrow> num_bins t1 = num_bins table"
    have nb: "num_bins t1 = num_bins table"
      using r(4) represents_length [OF Cons.prems(1)] Cons.prems(3) by simp
    have "represents h1 t1 (kvs0 @ [(k, v)])" using r(2) new by (simp add: al_insert_def)
    from Cons.IH [OF this] Cons.prems(2,3,4) kv r(1,3) nb EQUAL_type [OF r(3)] show ?thesis
      by (auto simp: st_failure_def)
  qed
qed

lemma unpack_entries_correct:
  assumes ok: "packed_ok table" and d: "al_distinct (EQUAL table) (packed_pairs table)" and m: "malloc_ok malloc"
  shows "(\<exists>e. unpack_entries malloc h table = Some (Inl e) \<and> st_failure malloc table e) \<or>
    (\<exists>h' table'. unpack_entries malloc h table = Some (Inr (h', table')) \<and> represents h' table' (packed_pairs table)
       \<and> st_type table' = Type_numhash \<and> num_bins table' = num_bins table)"
proof -
  define t0 where "t0 = table\<lparr>entries_packed := False, num_entries := 0, st_bins := replicate (num_bins table) 0\<rparr>"
  have t0: "num_bins t0 = num_bins table" "st_type t0 = Type_numhash" "EQUAL t0 = EQUAL table"
    using ok by (simp_all add: t0_def num_bins_def packed_ok_def EQUAL_key_eq)
  have "represents h t0 []"
    using ok by (intro represents_empty [of _ "num_bins table"]) (simp_all add: t0_def packed_ok_def)
  moreover have "length (packed_pairs table) < num_bins t0"
    using ok unfolding t0(1) by (simp add: packed_ok_def MAX_PACKED_NUMHASH_def)
  ultimately show ?thesis
    using insert_all_correct [OF m, of t0 h "[]" "packed_pairs table"] d ok t0
    unfolding unpack_entries_def t0_def [symmetric] by (auto simp: packed_ok_def st_failure_def)
qed

lemma al_distinct_distinct: "al_distinct eq kvs \<Longrightarrow> hash_contract eq hsh \<Longrightarrow> distinct kvs"
  by (induction eq kvs rule: al_distinct.induct) (auto dest: hash_contract.eq_refl)

lemma al_insert_nth:
  assumes "al_distinct eq kvs" and "hash_contract eq hsh" and "j < length kvs" and "eq k (fst (kvs ! j))"
  shows "al_insert eq k v kvs = kvs[j := (fst (kvs ! j), v)]"
proof -
  define f where "f = (\<lambda>(k', v'). if eq k k' then (k', v) else (k', v'))"
  have f: "f x = (if eq k (fst x) then (fst x, v) else x)" for x by (cases x) (simp add: f_def)
  have "map f kvs = kvs[j := (fst (kvs ! j), v)]"
  proof (rule nth_equalityI)
    fix i assume "i < length (map f kvs)"
    then have i: "i < length kvs" by simp
    have only: "i = j" if "eq k (fst (kvs ! i))"
    proof -
      have "kvs ! i = kvs ! j" using al_find_nth [OF assms(1,2) i that] al_find_nth [OF assms] by simp
      then show ?thesis using nth_eq_iff_index_eq [OF al_distinct_distinct [OF assms(1,2)] i assms(3)] by simp
    qed
    show "map f kvs ! i = kvs[j := (fst (kvs ! j), v)] ! i"
    proof (cases "i = j")
      case True
      with i assms(4) show ?thesis by (simp add: f)
    next
      case False
      with only have "\<not> eq k (fst (kvs ! i))" by blast
      with False i show ?thesis by (simp add: f)
    qed
  qed simp
  with al_find_nth [OF assms] show ?thesis by (simp add: al_insert_def f_def)
qed

lemma packed_pairs_cong:
  assumes "num_entries table' = num_entries table"
    and "\<And>j. j < num_entries table \<Longrightarrow> st_bins table' ! (j * 2) = st_bins table ! (j * 2)
      \<and> st_bins table' ! (j * 2 + 1) = st_bins table ! (j * 2 + 1)"
  shows "packed_pairs table' = packed_pairs table"
  using assms by (simp add: packed_pairs_def)

lemma packed_update:
  assumes "j < num_entries table" and "num_entries table * 2 \<le> num_bins table"
  shows "packed_pairs (table\<lparr>st_bins := (st_bins table)[j * 2 + 1 := value]\<rparr>) =
    (packed_pairs table)[j := (st_bins table ! (j * 2), value)]"
proof (rule nth_equalityI)
  fix i assume "i < length (packed_pairs (table\<lparr>st_bins := (st_bins table)[j * 2 + 1 := value]\<rparr>))"
  then have i: "i < num_entries table" by simp
  have "i * 2 \<noteq> j * 2 + 1" "j * 2 + 1 < length (st_bins table)" "i * 2 + 1 = j * 2 + 1 \<longleftrightarrow> i = j"
    using assms by (simp_all add: num_bins_def) presburger
  with i show "packed_pairs (table\<lparr>st_bins := (st_bins table)[j * 2 + 1 := value]\<rparr>) ! i =
      (packed_pairs table)[j := (st_bins table ! (j * 2), value)] ! i"
    by (cases "i = j") (auto simp: packed_pairs_nth)
qed simp

lemma packed_append_pairs:
  assumes "(num_entries table + 1) * 2 \<le> num_bins table"
  shows "packed_pairs (packed_append table key value) = packed_pairs table @ [(key, value)]"
proof -
  let ?n = "num_entries table"
  have len: "?n * 2 + 1 < length (st_bins table)" using assms by (simp add: num_bins_def)
  have "i * 2 \<noteq> ?n * 2" "i * 2 \<noteq> ?n * 2 + 1" "i * 2 + 1 \<noteq> ?n * 2" if "i < ?n" for i
    using that by presburger+
  with len show ?thesis by (simp add: packed_pairs_def packed_append_def Let_def)
qed

lemma packed_append_stands_for:
  assumes rep: "stands_for h table kvs" and p: "entries_packed table" "packed_room table"
    and new: "al_find (EQUAL table) key kvs = None"
  shows "stands_for h (packed_append table key value) (kvs @ [(key, value)])
    \<and> st_type (packed_append table key value) = st_type table"
proof -
  define t' where "t' = packed_append table key value"
  from rep p(1) have ok: "packed_ok table" and kvs: "packed_pairs table = kvs" and d: "al_distinct (EQUAL table) kvs"
    by (simp_all add: stands_for_def)
  have "packed_pairs t' = kvs @ [(key, value)]"
    using packed_append_pairs [of table key "value"] p(2) by (simp add: t'_def kvs packed_room_def)
  moreover have "packed_ok t'" "EQUAL t' = EQUAL table" "st_type t' = st_type table"
    using ok p(2) by (simp_all add: t'_def packed_append_def Let_def packed_ok_def packed_room_def num_bins_def EQUAL_key_eq)
  moreover have "al_distinct (EQUAL table) (kvs @ [(key, value)])"
    by (rule al_distinct_snoc [OF stands_for_contract [OF rep] d new])
  ultimately show ?thesis unfolding t'_def [symmetric] by (simp add: stands_for_def packed_ok_def)
qed

theorem st_insert_stands_for:
  assumes rep: "stands_for h table kvs" and m: "malloc_ok malloc"
  shows "(\<exists>e. st_insert malloc h table key value = Some (Inl e) \<and> st_failure malloc table e) \<or>
    (\<exists>h' table'. st_insert malloc h table key value
         = Some (Inr (al_find (EQUAL table) key kvs \<noteq> None, h', table'))
       \<and> stands_for h' table' (al_insert (EQUAL table) key value kvs) \<and> st_type table' = st_type table)"
proof (cases "entries_packed table")
  case False
  with insert_unpacked_correct [OF _ m, of h table kvs key "value"] rep show ?thesis
    unfolding st_insert_def stands_for_def by (auto dest: stands_for_unpacked simp flip: stands_for_def)
next
  case True
  with rep have ok: "packed_ok table" and kvs: "packed_pairs table = kvs" and d: "al_distinct (EQUAL table) kvs"
    by (simp_all add: stands_for_def)
  note hc = stands_for_contract [OF rep]
  have n: "num_entries table \<le> 5" "num_bins table = 11" using ok by (simp_all add: packed_ok_def MAX_PACKED_NUMHASH_def)
  note find = packed_find_pairs [OF ok d [folded kvs], of key, unfolded kvs]
  show ?thesis
  proof (cases "packed_find table key 0 (num_entries table)")
    case (Some j)
    define t' where "t' = table\<lparr>st_bins := (st_bins table)[j * 2 + 1 := value]\<rparr>"
    from find Some have j: "j < num_entries table" "st_bins table ! (j * 2) = key" "al_find (EQUAL table) key kvs \<noteq> None" by auto
    have "al_insert (EQUAL table) key value kvs = kvs[j := (fst (kvs ! j), value)]"
      using j packed_pairs_nth [OF j(1)] by (intro al_insert_nth [OF d hc]) (simp_all add: packed_EQUAL [OF ok] flip: kvs)
    moreover have "packed_pairs t' = kvs[j := (key, value)]"
      using packed_update [OF j(1), of "value"] n j(2) by (simp add: t'_def kvs)
    moreover have "kvs ! j = (key, st_bins table ! (j * 2 + 1))" using packed_pairs_nth [OF j(1)] j(2) by (simp add: kvs)
    ultimately have "packed_pairs t' = al_insert (EQUAL table) key value kvs" by simp
    moreover have "packed_ok t'" "EQUAL t' = EQUAL table"
      using ok by (simp_all add: t'_def packed_ok_def num_bins_def EQUAL_key_eq)
    moreover have "al_distinct (EQUAL table) (al_insert (EQUAL table) key value kvs)"
      by (rule hash_contract.al_distinct_insert [OF hc d])
    ultimately have "stands_for h t' (al_insert (EQUAL table) key value kvs)"
      by (simp add: stands_for_def packed_ok_def)
    moreover have "st_insert malloc h table key value = Some (Inr (True, h, t'))" using True Some by (simp add: st_insert_def t'_def)
    ultimately show ?thesis using j(3) by (auto simp: t'_def)
  next
    case None
    with find have new: "al_find (EQUAL table) key kvs = None" by simp
    then have ins: "al_insert (EQUAL table) key value kvs = kvs @ [(key, value)]" by (simp add: al_insert_def)
    show ?thesis
    proof (cases "packed_room table")
      case room: True
      have "st_insert malloc h table key value = Some (Inr (False, h, packed_append table key value))"
        using True None room by (simp add: st_insert_def)
      with packed_append_stands_for [OF rep True room new, of "value"] new ins show ?thesis by simp
    next
      case False
      have run: "st_insert malloc h table key value = (case unpack_entries malloc h table of
          None \<Rightarrow> None | Some (Inl e) \<Rightarrow> Some (Inl e)
        | Some (Inr (h', table')) \<Rightarrow> insert_unpacked malloc h' table' key value)"
        using True None False by (simp add: st_insert_def)
      from unpack_entries_correct [OF ok d [folded kvs] m, of h] show ?thesis
      proof (elim disjE exE conjE)
        fix e assume "unpack_entries malloc h table = Some (Inl e)" "st_failure malloc table e"
        then show ?thesis by (simp add: run)
      next
        fix h1 t1
        assume u: "unpack_entries malloc h table = Some (Inr (h1, t1))" "represents h1 t1 (packed_pairs table)"
          "st_type t1 = Type_numhash" "num_bins t1 = num_bins table"
        have ty: "st_type t1 = st_type table" using u(3) ok by (simp add: packed_ok_def)
        have "st_failure malloc t1 e = st_failure malloc table e" for e using u(4) by (simp add: st_failure_def)
        with insert_unpacked_correct [OF u(2) m, of key "value"] show ?thesis
          unfolding run u(1) kvs EQUAL_type [OF ty] ty by (auto dest: stands_for_unpacked)
      qed
    qed
  qed
qed

text \<open>\<open>st_add_direct\<close> skips the search; it is for keys that are not in the table.\<close>

lemma add_direct_unpacked_correct:
  assumes "represents h table kvs" and "al_find (EQUAL table) key kvs = None" and "malloc_ok malloc"
  shows "(\<exists>e. add_direct_unpacked malloc h table key value = Some (Inl e) \<and> st_failure malloc table e) \<or>
    (\<exists>h' table'. add_direct_unpacked malloc h table key value = Some (Inr (h', table'))
       \<and> represents h' table' (kvs @ [(key, value)]) \<and> st_type table' = st_type table)"
  using ADD_DIRECT_correct [OF assms refl, of "value"] unfolding add_direct_unpacked_def Let_def by blast

theorem st_add_direct_stands_for:
  assumes rep: "stands_for h table kvs" and m: "malloc_ok malloc" and new: "al_find (EQUAL table) key kvs = None"
  shows "(\<exists>e. st_add_direct malloc h table key value = Some (Inl e) \<and> st_failure malloc table e) \<or>
    (\<exists>h' table'. st_add_direct malloc h table key value = Some (Inr (h', table'))
       \<and> stands_for h' table' (kvs @ [(key, value)]) \<and> st_type table' = st_type table)"
proof (cases "entries_packed table")
  case False
  with rep have "represents h table kvs" by (simp add: stands_for_def)
  from add_direct_unpacked_correct [OF this new m, of "value"] False show ?thesis
    by (auto simp: st_add_direct_def dest: stands_for_unpacked)
next
  case True
  with rep have ok: "packed_ok table" and kvs: "packed_pairs table = kvs" and d: "al_distinct (EQUAL table) kvs"
    by (simp_all add: stands_for_def)
  show ?thesis
  proof (cases "packed_room table")
    case room: True
    with True packed_append_stands_for [OF rep True room new, of "value"] show ?thesis by (simp add: st_add_direct_def)
  next
    case False
    have run: "st_add_direct malloc h table key value = (case unpack_entries malloc h table of
        None \<Rightarrow> None | Some (Inl e) \<Rightarrow> Some (Inl e)
      | Some (Inr (h', table')) \<Rightarrow> add_direct_unpacked malloc h' table' key value)"
      using True False by (simp add: st_add_direct_def)
    from unpack_entries_correct [OF ok d [folded kvs] m, of h] show ?thesis
    proof (elim disjE exE conjE)
      fix e assume "unpack_entries malloc h table = Some (Inl e)" "st_failure malloc table e"
      then show ?thesis by (simp add: run)
    next
      fix h1 t1
      assume u: "unpack_entries malloc h table = Some (Inr (h1, t1))" "represents h1 t1 (packed_pairs table)"
        "st_type t1 = Type_numhash" "num_bins t1 = num_bins table"
      have ty: "st_type t1 = st_type table" using u(3) ok by (simp add: packed_ok_def)
      have "st_failure malloc t1 e = st_failure malloc table e" for e using u(4) by (simp add: st_failure_def)
      moreover have "al_find (EQUAL t1) key (packed_pairs table) = None" using new by (simp add: kvs EQUAL_type [OF ty])
      ultimately show ?thesis
        using add_direct_unpacked_correct [OF u(2) _ m, of key "value"]
        unfolding run u(1) kvs ty by (auto dest: stands_for_unpacked)
    qed
  qed
qed

end
