(* ===== verification/StDelete.thy ===== *)
theory StDelete
  imports StPacked
begin

text \<open>
  Deletion: \<open>st_delete\<close> takes the entry out of its chain and out of the order, frees it, and leaves a well-formed
  table for the association list without that key; in a packed table the later pairs move up.
\<close>

section \<open>Taking an element out of a path\<close>

lemma path_bypass:
  assumes path: "path h f a (xs @ p # ys) q" and d: "distinct (xs @ p # ys)" and p: "h p = Some e"
    and same: "\<And>x. x \<in> set (xs @ ys) \<Longrightarrow> xs = [] \<or> x \<noteq> last xs \<Longrightarrow> map_option f (h' x) = map_option f (h x)"
    and link: "xs \<noteq> [] \<Longrightarrow> map_option f (h' (last xs)) = Some (f e)"
  shows "path h' f (if xs = [] then f e else a) (xs @ ys) q"
proof -
  from path p have ys: "path h f (f e) ys q" by auto
  have ys': "path h' f (f e) ys q"
  proof (rule path_keeps [OF ys], rule same)
    fix x assume x: "x \<in> set ys"
    then show "x \<in> set (xs @ ys)" by simp
    show "xs = [] \<or> x \<noteq> last xs"
    proof (cases xs rule: rev_cases)
      case (snoc us y)
      with d x show ?thesis by auto
    qed simp
  qed
  show ?thesis
  proof (cases xs rule: rev_cases)
    case Nil
    with ys' show ?thesis by simp
  next
    case (snoc us x)
    from path snoc have us: "path h f a us x" and x: "x \<noteq> 0" by auto
    have "path h' f a us x" by (rule path_keeps [OF us], rule same) (use d snoc in auto)
    moreover obtain ex where "h' x = Some ex" "f ex = f e" using link snoc by (cases "h' x") auto
    ultimately show ?thesis using ys' snoc x by auto
  qed
qed

text \<open>Entries that differ in their links of order only.\<close>

definition same_chains :: "heap \<Rightarrow> heap \<Rightarrow> bool" where
  "same_chains h h' \<longleftrightarrow>
     (\<forall>q. map_option (\<lambda>e. (e_next e, e_hash e, e_key e, e_record e)) (h' q) =
          map_option (\<lambda>e. (e_next e, e_hash e, e_key e, e_record e)) (h q))"

lemma same_chains_fields:
  assumes "same_chains h h'"
  shows "map_option e_next (h' q) = map_option e_next (h q)" and "map_option e_hash (h' q) = map_option e_hash (h q)"
    and "map_option e_key (h' q) = map_option e_key (h q)" and "map_option e_record (h' q) = map_option e_record (h q)"
  using assms [unfolded same_chains_def, rule_format, of q]
  by (cases "h q"; cases "h' q"; simp)+

lemma same_chains_update:
  assumes "same_chains h g" and "g x = Some e" and "e_next e' = e_next e" and "e_hash e' = e_hash e"
    and "e_key e' = e_key e" and "e_record e' = e_record e"
  shows "same_chains h (g(x \<mapsto> e'))"
  unfolding same_chains_def
proof
  fix q
  show "map_option (\<lambda>e. (e_next e, e_hash e, e_key e, e_record e)) ((g(x \<mapsto> e')) q) =
      map_option (\<lambda>e. (e_next e, e_hash e, e_key e, e_record e)) (h q)"
    using assms(1) [unfolded same_chains_def, rule_format, of q] assms(2-6) by (cases "q = x") auto
qed

section \<open>Taking an entry out of the order\<close>

lemma path_hd: "path h f a xs 0 \<Longrightarrow> a = (if xs = [] then 0 else hd xs)"
  by (cases xs) auto

lemma dl_ok_split:
  assumes dl: "dl_ok h f l (xs @ p # ys)" and p: "h p = Some e"
  shows "e_fore e = (if ys = [] then 0 else hd ys)" and "e_back e = (if xs = [] then 0 else last xs)"
    and "f = (if xs = [] then p else hd xs)" and "l = (if ys = [] then p else last ys)"
proof -
  from dl have paths: "path h e_fore f (xs @ p # ys) 0" "path h e_back l (rev ys @ p # rev xs) 0" by (simp_all add: dl_ok_def)
  with p have "path h e_fore (e_fore e) ys 0" "path h e_back (e_back e) (rev xs) 0" by auto
  from path_hd [OF this(1)] path_hd [OF this(2)]
  show "e_fore e = (if ys = [] then 0 else hd ys)" "e_back e = (if xs = [] then 0 else last xs)"
    by (simp_all add: hd_rev split: if_splits)
  from path_hd [OF paths(1)] path_hd [OF paths(2)]
  show "f = (if xs = [] then p else hd xs)" "l = (if ys = [] then p else last ys)"
    by (simp_all add: hd_append hd_rev split: if_splits)
qed

lemma REMOVE_ENTRY_correct:
  assumes dl: "dl_ok h (st_head table) (st_tail table) (xs @ p # ys)" and pos: "0 < num_entries table"
  shows "\<exists>h' f l. REMOVE_ENTRY h table p =
        Some (h', table\<lparr>num_entries := num_entries table - 1, st_head := f, st_tail := l\<rparr>)
      \<and> dl_ok h' f l (xs @ ys) \<and> same_chains h h' \<and> h' p = h p"
proof -
  from dl have paths: "path h e_fore (st_head table) (xs @ p # ys) 0" "path h e_back (st_tail table) (rev ys @ p # rev xs) 0"
    and d: "distinct (xs @ p # ys)" by (simp_all add: dl_ok_def)
  have heap: "x \<noteq> 0 \<and> (\<exists>e. h x = Some e)" if "x \<in> set (xs @ p # ys)" for x using path_in_heap [OF paths(1) that] .
  obtain e where e: "h p = Some e" using heap [of p] by auto
  note s = dl_ok_split [OF dl e]
  define fore bck where "fore = e_fore e" and "bck = e_back e"
  have fore: "fore \<noteq> 0 \<longleftrightarrow> ys \<noteq> []" "ys \<noteq> [] \<Longrightarrow> fore \<in> set ys" and "bck \<noteq> 0 \<longleftrightarrow> xs \<noteq> []" "xs \<noteq> [] \<Longrightarrow> bck \<in> set xs"
    using s(1,2) heap [of "hd ys"] heap [of "last xs"] by (auto simp: fore_def bck_def)
  note bk = this(3,4)
  define h1 where "h1 = (if fore \<noteq> 0 then h(fore \<mapsto> (the (h fore))\<lparr>e_back := bck\<rparr>) else h)"
  define h2 where "h2 = (if bck \<noteq> 0 then h1(bck \<mapsto> (the (h1 bck))\<lparr>e_fore := fore\<rparr>) else h1)"
  have r1: "(if fore \<noteq> 0 then do { fe \<leftarrow> h fore; Some (h(fore \<mapsto> fe\<lparr>e_back := bck\<rparr>)) } else Some h) = Some h1"
  proof (cases "fore = 0")
    case False
    then obtain fe where "h fore = Some fe" using fore heap [of fore] by auto
    with False show ?thesis by (simp add: h1_def)
  qed (simp add: h1_def)
  have b1: "h1 x = h x" if "x \<notin> set ys" for x using that fore by (auto simp: h1_def)
  have hb: "\<exists>be. h1 bck = Some be" if "bck \<noteq> 0"
  proof -
    have "bck \<in> set xs" "bck \<notin> set ys" using bk that d by (auto simp: disjoint_iff)
    with heap [of bck] b1 [of bck] show ?thesis by simp
  qed
  have r2: "(if bck \<noteq> 0 then do { be \<leftarrow> h1 bck; Some (h1(bck \<mapsto> be\<lparr>e_fore := fore\<rparr>)) } else Some h1) = Some h2"
  proof (cases "bck = 0")
    case False
    then obtain be where "h1 bck = Some be" using hb by auto
    with False show ?thesis by (simp add: h2_def)
  qed (simp add: h2_def)
  define f where "f = (if xs = [] then fore else st_head table)"
  define l where "l = (if ys = [] then bck else st_tail table)"
  have run: "REMOVE_ENTRY h table p = Some (h2, table\<lparr>num_entries := num_entries table - 1, st_head := f, st_tail := l\<rparr>)"
  proof (cases "fore = 0 \<and> bck = 0")
    case True
    then have "xs = []" "ys = []" "h2 = h" using fore bk by (simp_all add: h2_def h1_def)
    with True show ?thesis using e pos
      by (simp add: REMOVE_ENTRY_def fore_def bck_def pred_entries_def f_def l_def)
  next
    case False
    have ends: "p = st_head table \<longleftrightarrow> xs = []" "p = st_tail table \<longleftrightarrow> ys = []"
      using s(3,4) d by (auto split: if_splits)
    have upd: "REMOVE_ENTRY h table p = do {
        h1 \<leftarrow> (if fore \<noteq> 0 then do { fe \<leftarrow> h fore; Some (h(fore \<mapsto> fe\<lparr>e_back := bck\<rparr>)) } else Some h);
        h2 \<leftarrow> (if bck \<noteq> 0 then do { be \<leftarrow> h1 bck; Some (h1(bck \<mapsto> be\<lparr>e_fore := fore\<rparr>)) } else Some h1);
        Some (h2, table\<lparr>num_entries := num_entries table - 1, st_head := f, st_tail := l\<rparr>) }"
      using False pos ends
      by (simp add: REMOVE_ENTRY_def e pred_entries_def f_def l_def Let_def flip: fore_def bck_def)
    show ?thesis unfolding upd r1 bind.bind_lunit r2 by simp
  qed
  have c1: "same_chains h h1"
  proof (cases "fore = 0")
    case False
    then obtain fe where "h fore = Some fe" using fore heap [of fore] by auto
    with False show ?thesis unfolding h1_def by (auto intro!: same_chains_update simp: same_chains_def)
  qed (simp add: h1_def same_chains_def)
  have chains: "same_chains h h2"
  proof (cases "bck = 0")
    case False
    then obtain be where "h1 bck = Some be" using hb by auto
    with False c1 show ?thesis unfolding h2_def by (auto intro!: same_chains_update)
  qed (simp add: h2_def c1)
  have k1: "map_option e_fore (h1 x) = map_option e_fore (h x)" for x
  proof (cases "fore = 0")
    case False
    then obtain fe where "h fore = Some fe" using fore heap [of fore] by auto
    then show ?thesis by (simp add: h1_def)
  qed (simp add: h1_def)
  have k2: "map_option e_back (h2 x) = map_option e_back (h1 x)" for x
  proof (cases "bck = 0")
    case False
    then obtain be where "h1 bck = Some be" using hb by auto
    then show ?thesis by (simp add: h2_def)
  qed (simp add: h2_def)
  have "path h2 e_fore (if xs = [] then e_fore e else st_head table) (xs @ ys) 0"
  proof (rule path_bypass [OF paths(1) d e])
    fix x assume "x \<in> set (xs @ ys)" "xs = [] \<or> x \<noteq> last xs"
    then have "x \<noteq> bck \<or> bck = 0" using s(2) by (auto simp: bck_def)
    then show "map_option e_fore (h2 x) = map_option e_fore (h x)" by (auto simp: h2_def k1)
  next
    assume "xs \<noteq> []"
    then show "map_option e_fore (h2 (last xs)) = Some (e_fore e)" using s(2) bk by (auto simp: h2_def bck_def fore_def)
  qed
  moreover have "path h2 e_back (if rev ys = [] then e_back e else st_tail table) (rev ys @ rev xs) 0"
  proof (rule path_bypass [OF paths(2) _ e])
    show "distinct (rev ys @ p # rev xs)" using d by auto
    fix x assume "x \<in> set (rev ys @ rev xs)" "rev ys = [] \<or> x \<noteq> last (rev ys)"
    then have "x \<noteq> fore \<or> fore = 0" using s(1) by (auto simp: fore_def last_rev)
    then show "map_option e_back (h2 x) = map_option e_back (h x)" by (auto simp: k2 h1_def)
  next
    assume "rev ys \<noteq> []"
    then show "map_option e_back (h2 (last (rev ys))) = Some (e_back e)"
      using s(1) fore by (auto simp: k2 h1_def bck_def fore_def last_rev)
  qed
  moreover have "f = (if xs = [] then e_fore e else st_head table)" "l = (if rev ys = [] then e_back e else st_tail table)"
    by (simp_all add: f_def l_def fore_def bck_def)
  ultimately have "dl_ok h2 f l (xs @ ys)" unfolding dl_ok_def using d by (simp del: path_append)
  moreover have "h2 p = h p" using d fore bk by (auto simp: h2_def h1_def)
  ultimately show ?thesis using run chains by blast
qed

section \<open>Taking an entry out of its chain\<close>

definition slot_after :: "slot \<Rightarrow> addr list \<Rightarrow> slot" where
  "slot_after s us = (if us = [] then s else NextSlot (last us))"

lemma slot_after_Cons [simp]: "slot_after s (u # us) = slot_after (NextSlot u) us"
  by (simp add: slot_after_def)

lemma delete_loop_miss:
  "read_slot h table s = Some a \<Longrightarrow> path h e_next a xs 0 \<Longrightarrow> \<forall>x \<in> set xs. \<not> EQUAL table key (entry_key h x) \<Longrightarrow>
    delete_loop h table key s = Some (None, h, table)"
proof (induction xs arbitrary: s a)
  case Nil
  then show ?case by (subst delete_loop.simps) simp
next
  case (Cons x xs)
  then obtain e where x: "a = x" "x \<noteq> 0" "h x = Some e" "path h e_next (e_next e) xs 0" "\<not> EQUAL table key (e_key e)"
    by (auto simp: entry_key_def)
  have "delete_loop h table key (NextSlot x) = Some (None, h, table)"
    using Cons.IH [of "NextSlot x" "e_next e"] Cons.prems(3) x by (simp add: read_slot_def)
  with x Cons.prems(1) show ?case by (subst delete_loop.simps) simp
qed

lemma delete_loop_hit:
  "read_slot h table s = Some a \<Longrightarrow> path h e_next a (us @ p # vs) 0 \<Longrightarrow>
    \<forall>x \<in> set us. \<not> EQUAL table key (entry_key h x) \<Longrightarrow> EQUAL table key (e_key e) \<Longrightarrow> h p = Some e \<Longrightarrow>
    delete_loop h table key s = do {
      (h1, table1) \<leftarrow> write_slot h table (slot_after s us) (e_next e);
      (h2, table2) \<leftarrow> REMOVE_ENTRY h1 table1 p;
      e2 \<leftarrow> h2 p;
      Some (Some (e_key e2, e_record e2), h2(p := None), table2) }"
proof (induction us arbitrary: s a)
  case Nil
  then show ?case by (subst delete_loop.simps) (auto simp: slot_after_def)
next
  case (Cons x us)
  then obtain ex where x: "a = x" "x \<noteq> 0" "h x = Some ex" "path h e_next (e_next ex) (us @ p # vs) 0"
    "\<not> EQUAL table key (e_key ex)"
    by (auto simp: entry_key_def)
  have "delete_loop h table key (NextSlot x) = do {
      (h1, table1) \<leftarrow> write_slot h table (slot_after (NextSlot x) us) (e_next e);
      (h2, table2) \<leftarrow> REMOVE_ENTRY h1 table1 p;
      e2 \<leftarrow> h2 p;
      Some (Some (e_key e2, e_record e2), h2(p := None), table2) }"
    by (rule Cons.IH [of "NextSlot x" "e_next ex"]) (use Cons.prems(3-5) x in \<open>simp_all add: read_slot_def\<close>)
  with x Cons.prems(1) show ?case by (subst delete_loop.simps) simp
qed

lemma same_field: "map_option g (h' q) = map_option g (h q) \<Longrightarrow> h q = Some e \<Longrightarrow> g (the (h' q)) = g e"
  by (cases "h' q") auto

lemma chain_unlink:
  assumes cs: "chains_ok h (st_bins table) C cs" and i: "i < length (st_bins table)" and split: "cs i = us @ p # vs"
    and p: "h p = Some e"
  shows "\<exists>h1 bins1. write_slot h table (slot_after (BinSlot i) us) (e_next e) = Some (h1, table\<lparr>st_bins := bins1\<rparr>)
    \<and> length bins1 = length (st_bins table) \<and> chains_ok h1 bins1 (C - {p}) (cs(i := us @ vs))
    \<and> (\<forall>q. map_option e_fore (h1 q) = map_option e_fore (h q) \<and> map_option e_back (h1 q) = map_option e_back (h q)
         \<and> map_option e_hash (h1 q) = map_option e_hash (h q) \<and> map_option e_key (h1 q) = map_option e_key (h q)
         \<and> map_option e_record (h1 q) = map_option e_record (h q))"
proof -
  note ci = chains_okD [OF cs i]
  have path: "path h e_next (st_bins table ! i) (us @ p # vs) 0" and d: "distinct (us @ p # vs)"
    using ci(1,2) by (simp_all only: split)
  define h1 where "h1 = (if us = [] then h else h(last us \<mapsto> (the (h (last us)))\<lparr>e_next := e_next e\<rparr>))"
  define bins1 where "bins1 = (if us = [] then (st_bins table)[i := e_next e] else st_bins table)"
  have lu: "\<exists>lu. h (last us) = Some lu" if "us \<noteq> []" using path_in_heap [OF path, of "last us"] that by simp
  have run: "write_slot h table (slot_after (BinSlot i) us) (e_next e) = Some (h1, table\<lparr>st_bins := bins1\<rparr>)"
  proof (cases "us = []")
    case False
    with lu obtain lu where "h (last us) = Some lu" by blast
    with False show ?thesis by (simp add: slot_after_def write_slot_def h1_def bins1_def)
  qed (simp add: slot_after_def write_slot_def h1_def bins1_def)
  have keep: "map_option g (h1 q) = map_option g (h q)"
    if "\<And>x a. g (x\<lparr>e_next := a\<rparr>) = g x" for g :: "st_table_entry \<Rightarrow> u32" and q
  proof (cases "us = []")
    case False
    with lu obtain lu where "h (last us) = Some lu" by blast
    with False that show ?thesis by (simp add: h1_def)
  qed (simp add: h1_def)
  have nxt: "map_option e_next (h1 q) = map_option e_next (h q)" if "us = [] \<or> q \<noteq> last us" for q
    using that by (auto simp: h1_def)
  have new: "path h1 e_next (if us = [] then e_next e else st_bins table ! i) (us @ vs) 0"
    by (rule path_bypass [OF path d p]) (auto simp: h1_def)
  have bin: "bin_of h1 n q = bin_of h n q" if q: "q \<in> C" for n q
  proof -
    obtain eq where "h q = Some eq" using chains_in_heap [OF cs _ q] i by fastforce
    moreover have "map_option e_hash (h1 q) = map_option e_hash (h q)" by (rule keep) simp
    ultimately show ?thesis using same_field [of e_hash h1 q h] by (simp add: bin_of_def)
  qed
  have "chains_ok h1 bins1 (C - {p}) (cs(i := us @ vs))"
    unfolding chains_ok_def
  proof (intro allI impI)
    fix j assume "j < length bins1"
    then have j: "j < length (st_bins table)" "length bins1 = length (st_bins table)" by (auto simp: bins1_def split: if_splits)
    note c = chains_okD [OF cs j(1)]
    have bp: "p \<in> C" "bin_of h (length (st_bins table)) p = i" using ci(3) split by auto
    show "path h1 e_next (bins1 ! j) ((cs(i := us @ vs)) j) 0 \<and> distinct ((cs(i := us @ vs)) j)
      \<and> set ((cs(i := us @ vs)) j) = {q \<in> C - {p}. bin_of h1 (length bins1) q = j}"
    proof (cases "j = i")
      case True
      have hd: "bins1 ! i = (if us = [] then e_next e else st_bins table ! i)" using i by (simp add: bins1_def)
      have "set (us @ vs) = set (cs i) - {p}" using d by (auto simp: split)
      then have "set (us @ vs) = {q \<in> C. bin_of h (length (st_bins table)) q = i} - {p}" unfolding ci(3) .
      moreover have "{q \<in> C. bin_of h (length (st_bins table)) q = i} - {p} = {q \<in> C - {p}. bin_of h1 (length bins1) q = i}"
        unfolding j(2) by (auto simp: bin)
      ultimately have "set (us @ vs) = {q \<in> C - {p}. bin_of h1 (length bins1) q = i}" by (simp only:)
      moreover have "distinct (us @ vs)" using d by auto
      ultimately show ?thesis using True new hd by (simp del: path_append set_append)
    next
      case False
      have apart: "us = [] \<or> q \<noteq> last us" if q: "q \<in> set (cs j)" for q
      proof (rule ccontr)
        assume n: "\<not> (us = [] \<or> q \<noteq> last us)"
        then have "q \<in> set (cs i)" by (auto simp: split)
        then have "bin_of h (length (st_bins table)) q = i" unfolding ci(3) by simp
        with q False show False unfolding c(3) by simp
      qed
      have "path h1 e_next (st_bins table ! j) (cs j) 0"
        by (rule path_keeps [OF c(1)], rule nxt, rule apart)
      moreover have "set (cs j) = {q \<in> C - {p}. bin_of h1 (length (st_bins table)) q = j}"
        unfolding c(3) using bp False by (auto simp: bin)
      ultimately show ?thesis using False c(2) j(2) by (simp add: bins1_def)
    qed
  qed
  with run keep show ?thesis by (intro exI [of _ h1] exI [of _ bins1]) (auto simp: bins1_def)
qed

section \<open>Deletion from a table that is not packed\<close>

lemma same_chains_ok:
  assumes cs: "chains_ok h bins C cs" and n: "0 < length bins" and s: "same_chains h h'" and p: "p \<notin> C"
  shows "chains_ok (h'(p := None)) bins C cs"
  unfolding chains_ok_def
proof (intro allI impI conjI)
  fix i assume i: "i < length bins"
  note c = chains_okD [OF cs i]
  have pn: "p \<notin> set (cs i)" unfolding c(3) using p by simp
  show "path (h'(p := None)) e_next (bins ! i) (cs i) 0"
    by (rule path_keeps [OF c(1)]) (use pn same_chains_fields(1) [OF s] in auto)
  show "distinct (cs i)" by (rule c(2))
  have "bin_of (h'(p := None)) m q = bin_of h m q" if q: "q \<in> C" for m q
  proof -
    obtain e where "h q = Some e" using chains_in_heap [OF cs n q] by blast
    moreover have "q \<noteq> p" using q p by auto
    ultimately show ?thesis using same_field [where g = e_hash and h' = h' and h = h and q = q, OF same_chains_fields(2) [OF s]] by (simp add: bin_of_def)
  qed
  then show "set (cs i) = {q \<in> C. bin_of (h'(p := None)) (length bins) q = i}" unfolding c(3) by auto
qed

text \<open>The common part of \<open>st_delete\<close> and of the deletions of \<open>st_foreach\<close>.\<close>

lemma unlink_entry:
  assumes ok: "table_ok h table (xs @ p # ys) {}" and e: "h p = Some e"
    and cs: "chains_ok h (st_bins table) (set (xs @ p # ys)) cs"
    and split: "cs (bin_of h (num_bins table) p) = us @ p # vs"
  shows "\<exists>h1 t1 h2 t2. write_slot h table (slot_after (BinSlot (bin_of h (num_bins table) p)) us) (e_next e) = Some (h1, t1)
    \<and> REMOVE_ENTRY h1 t1 p = Some (h2, t2) \<and> map_option e_key (h2 p) = Some (e_key e)
    \<and> map_option e_record (h2 p) = Some (e_record e) \<and> table_ok (h2(p := None)) t2 (xs @ ys) {}
    \<and> pairs (h2(p := None)) (xs @ ys) = pairs h (xs @ ys) \<and> st_type t2 = st_type table"
proof -
  have n: "0 < length (st_bins table)" and ne: "num_entries table = length (xs @ p # ys)"
    and d: "distinct (xs @ p # ys)" using ok by (simp_all add: table_ok_def num_bins_def dl_ok_def)
  have i: "bin_of h (num_bins table) p < length (st_bins table)" using n by (simp add: bin_of_def num_bins_def)
  from chain_unlink [OF cs i split e] obtain h1 bins1 where
    w: "write_slot h table (slot_after (BinSlot (bin_of h (num_bins table) p)) us) (e_next e) = Some (h1, table\<lparr>st_bins := bins1\<rparr>)"
      "length bins1 = length (st_bins table)"
      "chains_ok h1 bins1 (set (xs @ p # ys) - {p}) (cs(bin_of h (num_bins table) p := us @ vs))"
    and f: "\<And>q. map_option e_fore (h1 q) = map_option e_fore (h q)" "\<And>q. map_option e_back (h1 q) = map_option e_back (h q)"
      "\<And>q. map_option e_hash (h1 q) = map_option e_hash (h q)" "\<And>q. map_option e_key (h1 q) = map_option e_key (h q)"
      "\<And>q. map_option e_record (h1 q) = map_option e_record (h q)" by blast
  have C: "set (xs @ p # ys) - {p} = set (xs @ ys)" using d by auto
  define t1 where "t1 = table\<lparr>st_bins := bins1\<rparr>"
  have "dl_ok h1 (st_head t1) (st_tail t1) (xs @ p # ys)"
    using ok path_keeps [of h e_fore _ _ _ h1] path_keeps [of h e_back _ _ _ h1] f(1,2)
    unfolding table_ok_def dl_ok_def t1_def by (simp del: path_append)
  from REMOVE_ENTRY_correct [OF this] ne obtain h2 a b where
    r: "REMOVE_ENTRY h1 t1 p = Some (h2, t1\<lparr>num_entries := num_entries t1 - 1, st_head := a, st_tail := b\<rparr>)"
      "dl_ok h2 a b (xs @ ys)" "same_chains h1 h2" by (auto simp: t1_def)
  define t2 where "t2 = t1\<lparr>num_entries := num_entries t1 - 1, st_head := a, st_tail := b\<rparr>"
  have key: "map_option e_key (h2 q) = map_option e_key (h q)" "map_option e_record (h2 q) = map_option e_record (h q)"
    "map_option e_hash (h2 q) = map_option e_hash (h q)" for q
    using same_chains_fields [OF r(3)] f by simp_all
  define h3 where "h3 = h2(p := None)"
  have pn: "p \<notin> set (xs @ ys)" using d by auto
  have "chains_ok h3 bins1 (set (xs @ ys)) (cs(bin_of h (num_bins table) p := us @ vs))"
    using same_chains_ok [OF w(3) [unfolded C] _ r(3) pn] w(2) n unfolding h3_def by simp
  moreover have "dl_ok h3 a b (xs @ ys)"
    using r(2) pn by (simp add: dl_ok_def h3_def path_frame del: path_append)
  moreover have live: "entry_ok ty h3 q = entry_ok ty h q \<and> entry_key h3 q = entry_key h q
      \<and> e_record (the (h3 q)) = e_record (the (h q))" if q: "q \<in> set (xs @ ys)" for q ty
  proof -
    have "q \<noteq> p" using q pn by auto
    moreover obtain eq where "h q = Some eq" using table_ok_heap(2) [OF ok, of q] q by auto
    ultimately show ?thesis
      using same_field [where g = e_key and h' = h2 and h = h and q = q, OF key(1)]
        same_field [where g = e_record and h' = h2 and h = h and q = q, OF key(2)]
        same_field [where g = e_hash and h' = h2 and h = h and q = q, OF key(3)]
      by (simp add: entry_ok_def entry_key_def h3_def)
  qed
  ultimately have "table_ok h3 t2 (xs @ ys) {}"
    using ok w(2) by (auto simp: table_ok_def t2_def t1_def num_bins_def)
  moreover have "pairs h3 (xs @ ys) = pairs h (xs @ ys)"
    using live unfolding pairs_def by (intro map_cong refl) simp
  ultimately show ?thesis
    using w(1) r(1) key(1,2) [of p] e unfolding t1_def [symmetric] t2_def [symmetric] h3_def
    by (intro exI [of _ h1] exI [of _ t1] exI [of _ h2] exI [of _ t2]) (simp add: t2_def t1_def)
qed

lemma pairs_delete:
  assumes ty: "hash_ok (st_type table)" and d: "al_distinct (EQUAL table) (pairs h (xs @ p # ys))"
    and ps: "distinct (xs @ p # ys)" and p: "EQUAL table key (entry_key h p)"
  shows "pairs h (xs @ ys) = al_delete (EQUAL table) key (pairs h (xs @ p # ys))"
proof -
  have "\<not> EQUAL table key (entry_key h q)" if q: "q \<in> set (xs @ ys)" for q
  proof
    assume "EQUAL table key (entry_key h q)"
    with only_hit [OF ty d _ p, of q] q have "q = p" by simp
    with q ps show False by auto
  qed
  with p show ?thesis by (auto simp: pairs_def al_delete_def filter_empty_conv)
qed

lemma st_delete_represents:
  assumes rep: "represents h table kvs"
  shows "\<exists>h' table'. st_delete h table key = Some (al_find (EQUAL table) key kvs, h', table')
    \<and> represents h' table' (al_delete (EQUAL table) key kvs) \<and> st_type table' = st_type table"
proof -
  from rep obtain ps where ps: "table_ok h table ps {}" "pairs h ps = kvs" and ty: "hash_ok (st_type table)"
    and dist: "al_distinct (EQUAL table) kvs" by (auto simp: represents_def)
  from ps(1) obtain cs where cs: "chains_ok h (st_bins table) (set ps) cs" and d: "distinct ps"
    and np: "\<not> entries_packed table" by (auto simp: table_ok_def dl_ok_def)
  define i where "i = do_hash_bin key table"
  have i: "i < length (st_bins table)" using table_ok_bin [OF ps(1)] by (simp add: i_def)
  note c = chains_okD [OF cs i]
  have run: "st_delete h table key = delete_loop h table key (BinSlot i)" using np by (simp add: st_delete_def i_def)
  have rd: "read_slot h table (BinSlot i) = Some (st_bins table ! i)" by (simp add: read_slot_def)
  show ?thesis
  proof (cases "\<exists>p \<in> set ps. EQUAL table key (entry_key h p)")
    case False
    then have none: "al_find (EQUAL table) key kvs = None"
      using al_find_pairs_None [of ps table key h] ps(2) by simp
    moreover have "al_delete (EQUAL table) key kvs = kvs"
      unfolding al_delete_def by (rule filter_True) (use none in \<open>auto simp: al_find_None\<close>)
    moreover have "delete_loop h table key (BinSlot i) = Some (None, h, table)"
      by (rule delete_loop_miss [OF rd c(1)]) (use False c(3) in auto)
    ultimately show ?thesis using rep run by simp
  next
    case True
    then obtain p where p: "p \<in> set ps" "EQUAL table key (entry_key h p)" by blast
    obtain e where e: "h p = Some e" using table_ok_heap(2) [OF ps(1)] p(1) by blast
    have hv: "e_hash e = do_hash key table"
      using ps(1) p hash_contract.eq_hash [OF hash_okD [OF ty] p(2)] e
      by (auto simp: table_ok_def entry_ok_def entry_key_def do_hash_def)
    then have bp: "bin_of h (num_bins table) p = i" by (simp add: bin_of_def e i_def do_hash_bin_def)
    then have "p \<in> set (cs i)" unfolding c(3) using p(1) by (simp add: num_bins_def)
    then obtain us vs where us: "cs i = us @ p # vs" by (auto dest: split_list)
    obtain xs ys where xs: "ps = xs @ p # ys" using p(1) by (auto dest: split_list)
    have before: "\<not> EQUAL table key (entry_key h q)" if q: "q \<in> set us" for q
    proof
      assume "EQUAL table key (entry_key h q)"
      moreover have "q \<in> set (cs i)" using q by (simp add: us)
      then have "q \<in> set ps" unfolding c(3) by simp
      ultimately have "q = p" using only_hit [OF ty _ p, of q] dist ps(2) by blast
      with q c(2) show False by (simp add: us)
    qed
    have path: "path h e_next (st_bins table ! i) (us @ p # vs) 0" using c(1) by (simp only: us)
    have ek: "EQUAL table key (e_key e)" using p(2) e by (simp add: entry_key_def)
    from unlink_entry [OF ps(1) [unfolded xs] e cs [unfolded xs], of us vs] us bp obtain h1 t1 h2 t2 where
      u: "write_slot h table (slot_after (BinSlot i) us) (e_next e) = Some (h1, t1)" "REMOVE_ENTRY h1 t1 p = Some (h2, t2)"
        "map_option e_key (h2 p) = Some (e_key e)" "map_option e_record (h2 p) = Some (e_record e)"
        "table_ok (h2(p := None)) t2 (xs @ ys) {}" "pairs (h2(p := None)) (xs @ ys) = pairs h (xs @ ys)"
        "st_type t2 = st_type table" by auto
    obtain e2 where e2: "h2 p = Some e2" "e_key e2 = e_key e" "e_record e2 = e_record e" using u(3,4) by (cases "h2 p") auto
    have "al_find (EQUAL table) key kvs = Some (e_key e, e_record e)"
      using al_find_pairs [OF _ ty p] dist ps(2) e by (simp add: entry_key_def)
    then have "st_delete h table key = Some (al_find (EQUAL table) key kvs, h2(p := None), t2)"
      using delete_loop_hit [OF rd path _ ek e] before u(1,2) e2 by (simp add: run)
    moreover have "pairs h (xs @ ys) = al_delete (EQUAL table) key kvs"
      using pairs_delete [OF ty _ _ p(2), of xs ys] dist d ps(2) by (simp add: xs)
    then have "represents (h2(p := None)) t2 (al_delete (EQUAL table) key kvs)"
      using u(5,6) ty hash_contract.al_distinct_delete [OF hash_okD [OF ty] dist]
      unfolding represents_def u(7) EQUAL_type [OF u(7)] by auto
    ultimately show ?thesis using u(7) by blast
  qed
qed

section \<open>Deletion from a packed table\<close>

lemma packed_remove_pairs:
  assumes n: "num_entries table * 2 \<le> num_bins table" and j: "j < num_entries table"
  shows "packed_pairs (packed_remove table j) = take j (packed_pairs table) @ drop (Suc j) (packed_pairs table)"
    and "num_bins (packed_remove table j) = num_bins table"
proof -
  define n1 where "n1 = num_entries table - 1"
  define bins where "bins = st_bins table"
  define bins' where "bins' = take (j * 2) bins @ take (2 * (n1 - j)) (drop ((j + 1) * 2) bins) @ drop (j * 2 + 2 * (n1 - j)) bins"
  have rem: "packed_remove table j = table\<lparr>num_entries := n1, st_bins := bins'\<rparr>"
    by (simp add: packed_remove_def Let_def n1_def bins'_def bins_def)
  have len: "num_entries table * 2 \<le> length bins" using n by (simp add: bins_def num_bins_def)
  have l1: "length (take (j * 2) bins) = j * 2" "length (take (2 * (n1 - j)) (drop ((j + 1) * 2) bins)) = 2 * (n1 - j)"
    using len j by (auto simp: n1_def)
  show "num_bins (packed_remove table j) = num_bins table"
    using len j by (simp add: rem num_bins_def bins'_def n1_def flip: bins_def)
  have low: "bins' ! k = bins ! k" if "k < j * 2" for k
    using that l1(1) by (simp add: bins'_def nth_append)
  have high: "bins' ! k = bins ! (k + 2)" if "j * 2 \<le> k" "k < n1 * 2" for k
  proof -
    have "k - j * 2 < 2 * (n1 - j)" using that by linarith
    then have "bins' ! k = drop ((j + 1) * 2) bins ! (k - j * 2)"
      using that l1 by (simp add: bins'_def nth_append)
    then show ?thesis using that(1) len j by (simp add: nth_drop)
  qed
  show "packed_pairs (packed_remove table j) = take j (packed_pairs table) @ drop (Suc j) (packed_pairs table)"
  proof (rule nth_equalityI)
    show "length (packed_pairs (packed_remove table j)) = length (take j (packed_pairs table) @ drop (Suc j) (packed_pairs table))"
      using j by (simp add: rem n1_def)
    fix i assume "i < length (packed_pairs (packed_remove table j))"
    then have i: "i < n1" by (simp add: rem)
    show "packed_pairs (packed_remove table j) ! i = (take j (packed_pairs table) @ drop (Suc j) (packed_pairs table)) ! i"
    proof (cases "i < j")
      case True
      with i j low [of "i * 2"] low [of "i * 2 + 1"] show ?thesis
        by (simp add: nth_append packed_pairs_def rem flip: bins_def)
    next
      case False
      have "Suc i < num_entries table" using i by (simp add: n1_def)
      then have "[0..<num_entries table] ! Suc i = Suc i" by simp
      with False i j high [of "i * 2"] high [of "i * 2 + 1"] show ?thesis
        by (simp add: nth_append packed_pairs_def rem n1_def flip: bins_def)
    qed
  qed
qed

lemma al_delete_nth:
  assumes "al_distinct eq kvs" and "hash_contract eq hsh" and "j < length kvs" and "eq k (fst (kvs ! j))"
  shows "al_delete eq k kvs = take j kvs @ drop (Suc j) kvs"
proof -
  have no: "\<not> eq k (fst x)" if x: "x \<in> set (take j kvs @ drop (Suc j) kvs)" for x
  proof
    assume ex: "eq k (fst x)"
    have split: "kvs = take j kvs @ kvs ! j # drop (Suc j) kvs" using assms(3) by (rule id_take_nth_drop)
    have "x \<in> set kvs" using x set_take_subset [of j kvs] set_drop_subset [of "Suc j" kvs] by auto
    then obtain i where i: "i < length kvs" "x = kvs ! i" by (auto simp: in_set_conv_nth)
    have "x = kvs ! j" using al_find_nth [OF assms(1,2) i(1)] al_find_nth [OF assms] ex i(2) by simp
    moreover have "distinct (take j kvs @ kvs ! j # drop (Suc j) kvs)"
      using al_distinct_distinct [OF assms(1,2)] split by simp
    ultimately show False using x by auto
  qed
  have "al_delete eq k (take j kvs @ kvs ! j # drop (Suc j) kvs) = take j kvs @ drop (Suc j) kvs"
    using no assms(4) by (simp add: al_delete_def case_prod_unfold filter_id_conv)
  then show ?thesis using id_take_nth_drop [OF assms(3)] by simp
qed

theorem st_delete_stands_for:
  assumes rep: "stands_for h table kvs"
  shows "\<exists>h' table'. st_delete h table key = Some (al_find (EQUAL table) key kvs, h', table')
    \<and> stands_for h' table' (al_delete (EQUAL table) key kvs) \<and> st_type table' = st_type table"
proof (cases "entries_packed table")
  case False
  with rep have "represents h table kvs" by (simp add: stands_for_def)
  from st_delete_represents [OF this, of key] show ?thesis by (blast intro: stands_for_unpacked)
next
  case True
  with rep have ok: "packed_ok table" and kvs: "packed_pairs table = kvs" and d: "al_distinct (EQUAL table) kvs"
    by (simp_all add: stands_for_def)
  note hc = stands_for_contract [OF rep]
  have n: "num_entries table * 2 \<le> num_bins table" using ok by (simp add: packed_ok_def MAX_PACKED_NUMHASH_def)
  note find = packed_find_pairs [OF ok d [folded kvs], of key, unfolded kvs]
  show ?thesis
  proof (cases "packed_find table key 0 (num_entries table)")
    case None
    with find have none: "al_find (EQUAL table) key kvs = None" by simp
    then have "al_delete (EQUAL table) key kvs = kvs"
      unfolding al_delete_def by (intro filter_True) (auto simp: al_find_None)
    with None none True rep show ?thesis by (simp add: st_delete_def)
  next
    case (Some j)
    with find have j: "j < num_entries table" "st_bins table ! (j * 2) = key"
      "al_find (EQUAL table) key kvs = Some (key, st_bins table ! (j * 2 + 1))" by auto
    note r = packed_remove_pairs [OF n j(1)]
    have ty: "st_type (packed_remove table j) = st_type table" by (simp add: packed_remove_def Let_def)
    have "packed_ok (packed_remove table j)"
      using ok r(2) by (auto simp: packed_ok_def packed_remove_def Let_def)
    moreover have "packed_pairs (packed_remove table j) = al_delete (EQUAL table) key kvs"
      using al_delete_nth [OF d hc, of j key] j packed_pairs_nth [OF j(1)]
      by (simp add: r(1) packed_EQUAL [OF ok] flip: kvs)
    ultimately have "stands_for h (packed_remove table j) (al_delete (EQUAL table) key kvs)"
      using hash_contract.al_distinct_delete [OF hc d]
      unfolding stands_for_def EQUAL_type [OF ty] by (simp add: packed_ok_def)
    with True Some j(3) ty show ?thesis by (simp add: st_delete_def)
  qed
qed

end
