(* ===== verification/StForeach.thy ===== *)
theory StForeach
  imports StDelete
begin

text \<open>
  Iteration and clearing.  With a callback that leaves the table alone, \<open>st_foreach\<close> visits the pairs in
  order of insertion, stops when told to, and deletes exactly the pairs for which the callback
  asks for it, in both representations.  \<open>st_clear\<close> frees every entry.
\<close>

section \<open>The specification\<close>

text \<open>
  A callback that does not touch the table: its answer and its new state depend on the pair and its
  state.  \<open>walk\<close> gives the final state and the pairs that stay.
\<close>

definition leaves_table :: "'s callback \<Rightarrow> (st_data \<Rightarrow> st_data \<Rightarrow> 's \<Rightarrow> st_retval \<times> 's) \<Rightarrow> bool" where
  "leaves_table func g \<longleftrightarrow>
     (\<forall>k v s h t. func k v False (s, h, t) = Some (fst (g k v s), snd (g k v s), h, t))"

fun walk :: "(st_data \<Rightarrow> st_data \<Rightarrow> 's \<Rightarrow> st_retval \<times> 's) \<Rightarrow> 's \<Rightarrow> (st_data \<times> st_data) list \<Rightarrow>
    's \<times> (st_data \<times> st_data) list" where
  "walk g s [] = (s, [])"
| "walk g s ((k, v) # kvs) =
     (case g k v s of
        (ST_STOP, s') \<Rightarrow> (s', (k, v) # kvs)
      | (ST_DELETE, s') \<Rightarrow> walk g s' kvs
      | (_, s') \<Rightarrow> (case walk g s' kvs of (s'', rest) \<Rightarrow> (s'', (k, v) # rest)))"

lemma walk_distinct:
  "walk g s kvs = (s', rest) \<Longrightarrow> al_distinct eq (xs @ kvs) \<Longrightarrow> al_distinct eq (xs @ rest)"
proof (induction g s kvs arbitrary: xs s' rest rule: walk.induct)
  case (2 g s k v kvs)
  obtain r t where g: "g k v s = (r, t)" by (cases "g k v s")
  have app: "al_distinct eq ((xs @ [(k, v)]) @ kvs)" using "2.prems"(2) by simp
  have del: "al_distinct eq (xs @ kvs)" using "2.prems"(2) by (auto simp: al_distinct_append)
  show ?case
  proof (cases r)
    case ST_STOP
    with "2.prems" g show ?thesis by simp
  next
    case ST_DELETE
    with "2.IH"(2) [OF g [symmetric] ST_DELETE _ del] "2.prems"(1) g show ?thesis by simp
  next
    case ST_CONTINUE
    obtain s1 r1 where w: "walk g t kvs = (s1, r1)" by fastforce
    from "2.IH"(1) [OF g [symmetric] ST_CONTINUE w app] "2.prems"(1) g w ST_CONTINUE show ?thesis by simp
  next
    case ST_CHECK
    obtain s1 r1 where w: "walk g t kvs = (s1, r1)" by fastforce
    from "2.IH"(3) [OF g [symmetric] ST_CHECK w app] "2.prems"(1) g w ST_CHECK show ?thesis by simp
  qed
qed simp

section \<open>Searches in a chain\<close>

lemma find_slot_path:
  "read_slot h table s = Some a \<Longrightarrow> path h e_next a (us @ p # vs) 0 \<Longrightarrow> p \<notin> set us \<Longrightarrow>
    find_slot h table p s = Some (Some (slot_after s us))"
proof (induction us arbitrary: s a)
  case Nil
  then show ?case by (subst find_slot.simps) (auto simp: slot_after_def)
next
  case (Cons x us)
  then obtain e where x: "a = x" "x \<noteq> 0" "h x = Some e" "path h e_next (e_next e) (us @ p # vs) 0" "p \<noteq> x" "p \<notin> set us"
    by auto
  have "find_slot h table p (NextSlot x) = Some (Some (slot_after (NextSlot x) us))"
    by (rule Cons.IH [of "NextSlot x" "e_next e"]) (use x in \<open>simp_all add: read_slot_def\<close>)
  with x Cons.prems(1) show ?case by (subst find_slot.simps) simp
qed

lemma in_chain_path: "path h e_next a (us @ p # vs) 0 \<Longrightarrow> p \<notin> set us \<Longrightarrow> in_chain h p a = Some True"
proof (induction us arbitrary: a)
  case Nil
  then show ?case by (subst in_chain.simps) simp
next
  case (Cons x us)
  then obtain e where x: "a = x" "x \<noteq> 0" "h x = Some e" "path h e_next (e_next e) (us @ p # vs) 0" "p \<noteq> x" "p \<notin> set us"
    by auto
  with Cons.IH [of "e_next e"] show ?case by (subst in_chain.simps) simp
qed

text \<open>Where a live entry stands in its chain.\<close>

lemma chain_place:
  assumes ok: "table_ok h table ps {}" and p: "p \<in> set ps"
  obtains cs us vs where "chains_ok h (st_bins table) (set ps) cs"
    and "cs (bin_of h (num_bins table) p) = us @ p # vs" and "p \<notin> set us"
    and "path h e_next (st_bins table ! bin_of h (num_bins table) p) (us @ p # vs) 0"
proof -
  from ok obtain cs where cs: "chains_ok h (st_bins table) (set ps) cs" and n: "0 < length (st_bins table)"
    by (auto simp: table_ok_def num_bins_def)
  have i: "bin_of h (num_bins table) p < length (st_bins table)" using n by (simp add: bin_of_def num_bins_def)
  note c = chains_okD [OF cs i]
  have "p \<in> set (cs (bin_of h (num_bins table) p))" unfolding c(3) using p by (simp add: num_bins_def)
  then obtain us vs where us: "cs (bin_of h (num_bins table) p) = us @ p # vs" by (auto dest: split_list)
  have "p \<notin> set us" using c(2) us by simp
  moreover have "path h e_next (st_bins table ! bin_of h (num_bins table) p) (us @ p # vs) 0" using c(1) by (simp only: us)
  ultimately show ?thesis using that [OF cs us] by blast
qed

section \<open>The rounds of \<open>st_foreach\<close>\<close>

lemma foreach_delete_correct:
  assumes ok: "table_ok h table (xs @ p # ys) {}"
  shows "\<exists>h' table'. foreach_delete h table p = Some (False, (if ys = [] then 0 else hd ys), h', table')
    \<and> table_ok h' table' (xs @ ys) {} \<and> pairs h' (xs @ ys) = pairs h (xs @ ys) \<and> st_type table' = st_type table"
proof -
  obtain e where e: "h p = Some e" using table_ok_heap(2) [OF ok, of p] by auto
  obtain cs us vs where cs: "chains_ok h (st_bins table) (set (xs @ p # ys)) cs"
    "cs (bin_of h (num_bins table) p) = us @ p # vs" "p \<notin> set us"
    "path h e_next (st_bins table ! bin_of h (num_bins table) p) (us @ p # vs) 0"
    by (rule chain_place [OF ok, of p]) simp
  define i where "i = bin_of h (num_bins table) p"
  have i: "i = unat (e_hash e) mod num_bins table" by (simp add: i_def bin_of_def e)
  have find: "find_slot h table p (BinSlot i) = Some (Some (slot_after (BinSlot i) us))"
    by (rule find_slot_path [OF _ cs(4,3)]) (simp add: read_slot_def i_def)
  from unlink_entry [OF ok e cs(1,2)] obtain h1 t1 h2 t2 where
    u: "write_slot h table (slot_after (BinSlot i) us) (e_next e) = Some (h1, t1)" "REMOVE_ENTRY h1 t1 p = Some (h2, t2)"
      "table_ok (h2(p := None)) t2 (xs @ ys) {}" "pairs (h2(p := None)) (xs @ ys) = pairs h (xs @ ys)"
      "st_type t2 = st_type table" unfolding i_def by blast
  have dl: "dl_ok h (st_head table) (st_tail table) (xs @ p # ys)" using ok by (simp add: table_ok_def)
  have fore: "e_fore e = (if ys = [] then 0 else hd ys)" by (rule dl_ok_split(1) [OF dl e])
  have "p \<noteq> (if ys = [] then 0 else hd ys)"
    using dl table_ok_heap(1) [OF ok, of p] by (auto simp: dl_ok_def)
  then have "foreach_delete h table p = Some (False, (if ys = [] then 0 else hd ys), h2(p := None), t2)"
    using find u(1,2) by (simp add: foreach_delete_def e Let_def fore flip: i)
  with u(3-5) show ?thesis by blast
qed

lemma table_ok_head: "table_ok h table (p # ps) dead \<Longrightarrow> st_head table = p \<and> p \<noteq> 0"
  using dl_ok_ends(1) [of h "st_head table" "st_tail table" "p # ps"] table_ok_heap(1) [of h table "p # ps" dead p]
  by (simp add: table_ok_def)

lemma table_ok_in: "table_ok h table (xs @ p # ys) dead \<Longrightarrow> st_head table \<noteq> 0 \<and> p \<noteq> 0"
  using table_ok_head [of h table "hd (xs @ [p])" "tl (xs @ p # ys)" dead] table_ok_heap(1) [of h table "xs @ p # ys" dead p]
  by (cases xs) auto

text \<open>What is left to do, at the entries \<open>ys\<close>.\<close>

definition go_on :: "'s callback \<Rightarrow> 's \<Rightarrow> heap \<Rightarrow> st_table \<Rightarrow> addr list \<Rightarrow> (bool \<times> 's \<times> heap \<times> st_table) option" where
  "go_on func s h table ys = (if ys = [] then Some (False, s, h, table) else foreach_loop func s h table (hd ys))"

lemma go_on_round:
  assumes ok: "table_ok h table (xs @ ys) {}" and r: "foreach_round func s0 h0 t0 p = Some (GoOn (if ys = [] then 0 else hd ys) s h table)"
  shows "foreach_loop func s0 h0 t0 p = go_on func s h table ys"
proof (cases ys)
  case Nil
  with r show ?thesis by (subst foreach_loop.simps) (simp add: go_on_def)
next
  case (Cons y zs)
  with table_ok_in [of h table xs y zs] ok have "st_head table \<noteq> 0 \<and> y \<noteq> 0" by simp
  with r Cons show ?thesis by (subst foreach_loop.simps) (simp add: go_on_def)
qed

lemma foreach_loop_correct:
  assumes g: "leaves_table func g"
  shows "table_ok h table (xs @ ys) {} \<Longrightarrow> walk g s (pairs h ys) = (s', rest) \<Longrightarrow>
    \<exists>h' table' ps'. go_on func s h table ys = Some (False, s', h', table') \<and> table_ok h' table' ps' {}
      \<and> pairs h' ps' = pairs h xs @ rest \<and> st_type table' = st_type table"
proof (induction ys arbitrary: h table xs s rest)
  case Nil
  then show ?case by (auto simp: go_on_def pairs_def)
next
  case (Cons p ys)
  note ok = Cons.prems(1)
  obtain e where e: "h p = Some e" using table_ok_heap(2) [OF ok, of p] by auto
  obtain r t where gr: "g (e_key e) (e_record e) s = (r, t)" by fastforce
  have call: "func (e_key e) (e_record e) False (s, h, table) = Some (r, t, h, table)"
    using g gr by (simp add: leaves_table_def)
  have dl: "dl_ok h (st_head table) (st_tail table) (xs @ p # ys)" using ok by (simp add: table_ok_def)
  have fore: "e_fore e = (if ys = [] then 0 else hd ys)" by (rule dl_ok_split(1) [OF dl e])
  have pr: "pairs h (p # ys) = (e_key e, e_record e) # pairs h ys" "pairs h (xs @ [p]) = pairs h xs @ [(e_key e, e_record e)]"
    by (simp_all add: pairs_def entry_key_def e)
  have go: "go_on func s h table (p # ys) = foreach_loop func s h table p" by (simp add: go_on_def)
  have stay: ?case
    if round: "foreach_round func s h table p = Some (GoOn (e_fore e) t h table)"
      and w: "walk g s (pairs h (p # ys)) = (case walk g t (pairs h ys) of (s'', rest) \<Rightarrow> (s'', (e_key e, e_record e) # rest))"
  proof -
    have ok': "table_ok h table ((xs @ [p]) @ ys) {}" using ok by simp
    obtain rest1 where r1: "walk g t (pairs h ys) = (s', rest1)" "rest = (e_key e, e_record e) # rest1"
      using w Cons.prems(2) by (cases "walk g t (pairs h ys)") auto
    from Cons.IH [OF ok' r1(1)] go_on_round [OF ok' round [unfolded fore]] show ?thesis
      unfolding go pr(2) r1(2) by simp
  qed
  show ?case
  proof (cases r)
    case ST_CONTINUE
    then show ?thesis by (intro stay) (simp_all add: foreach_round_def e call pr(1) gr)
  next
    case ST_CHECK
    obtain cs us vs where "chains_ok h (st_bins table) (set (xs @ p # ys)) cs"
      "cs (bin_of h (num_bins table) p) = us @ p # vs" and cs: "p \<notin> set us"
      "path h e_next (st_bins table ! bin_of h (num_bins table) p) (us @ p # vs) 0"
      by (rule chain_place [OF ok, of p]) simp
    from in_chain_path [OF cs(2,1)] have "in_chain h p (st_bins table ! (unat (e_hash e) mod num_bins table)) = Some True"
      by (simp add: bin_of_def e)
    with ST_CHECK show ?thesis by (intro stay) (simp_all add: foreach_round_def e call pr(1) gr)
  next
    case ST_STOP
    then have "foreach_loop func s h table p = Some (False, t, h, table)"
      by (subst foreach_loop.simps) (simp add: foreach_round_def e call)
    moreover have "s' = t" "rest = pairs h (p # ys)" using Cons.prems(2) gr ST_STOP by (simp_all add: pr(1))
    ultimately show ?thesis using ok go by (auto simp: pairs_def)
  next
    case ST_DELETE
    from foreach_delete_correct [OF ok] obtain h1 t1 where
      d: "foreach_delete h table p = Some (False, (if ys = [] then 0 else hd ys), h1, t1)"
        "table_ok h1 t1 (xs @ ys) {}" "pairs h1 (xs @ ys) = pairs h (xs @ ys)" "st_type t1 = st_type table" by blast
    have round: "foreach_round func s h table p = Some (GoOn (if ys = [] then 0 else hd ys) t h1 t1)"
      using ST_DELETE by (simp add: foreach_round_def e call d(1))
    have "pairs h1 xs = pairs h xs" "pairs h1 ys = pairs h ys" using d(3) by (simp_all add: pairs_def)
    moreover have "walk g t (pairs h ys) = (s', rest)" using Cons.prems(2) gr ST_DELETE by (simp add: pr(1))
    ultimately show ?thesis
      using Cons.IH [OF d(2), of t rest] go_on_round [OF d(2) round] d(4) unfolding go by simp
  qed
qed

lemma foreach_packed_correct:
  assumes g: "leaves_table func g"
  shows "packed_ok table \<Longrightarrow> packed_pairs table = xs @ ys \<Longrightarrow> i = length xs \<Longrightarrow> walk g s ys = (s', rest) \<Longrightarrow>
    \<exists>table'. foreach_packed func s h table i = Some (False, s', h, table') \<and> packed_ok table'
      \<and> packed_pairs table' = xs @ rest"
proof (induction ys arbitrary: table xs i s rest)
  case Nil
  have "num_entries table = i" using length_packed_pairs [of table] Nil.prems(2,3) by simp
  with Nil show ?case by (subst foreach_packed.simps) simp
next
  case (Cons kv ys)
  note ok = Cons.prems(1)
  have n: "num_entries table = length xs + Suc (length ys)" using length_packed_pairs [of table] Cons.prems(2) by simp
  have i: "i < num_entries table" using n Cons.prems(3) by simp
  have room: "num_entries table * 2 \<le> num_bins table" using ok by (simp add: packed_ok_def MAX_PACKED_NUMHASH_def)
  obtain k v where kv: "kv = (k, v)" by (cases kv)
  have bins: "st_bins table ! (i * 2) = k" "st_bins table ! (i * 2 + 1) = v"
    using packed_pairs_nth [OF i] Cons.prems(2,3) kv by (simp_all add: nth_append)
  have rd: "read_bin table (i * 2) = Some k" "read_bin table (i * 2 + 1) = Some v"
    using i room bins by (simp_all add: read_bin_def num_bins_def)
  obtain r t where gr: "g k v s = (r, t)" by fastforce
  have call: "func k v False (s, h, table) = Some (r, t, h, table)" using g gr by (simp add: leaves_table_def)
  have stay: ?case
    if round: "foreach_packed func s h table i = foreach_packed func t h table (i + 1)"
      and w: "walk g s (kv # ys) = (case walk g t ys of (s'', rest) \<Rightarrow> (s'', (k, v) # rest))"
  proof -
    obtain rest1 where r1: "walk g t ys = (s', rest1)" "rest = (k, v) # rest1"
      using w Cons.prems(4) by (cases "walk g t ys") auto
    have "packed_pairs table = (xs @ [kv]) @ ys" "i + 1 = length (xs @ [kv])" using Cons.prems(2,3) by simp_all
    from Cons.IH [OF ok this r1(1)] show ?thesis using round r1(2) kv by simp
  qed
  note unf = foreach_packed.simps [of func s h table i]
  show ?case
  proof (cases r)
    case ST_CONTINUE
    then show ?thesis by (intro stay) (simp_all add: unf i rd call kv gr del: One_nat_def)
  next
    case ST_CHECK
    have "packed_find table k 0 (num_entries table) \<noteq> None" unfolding packed_find_None using i bins(1) by auto
    then obtain j where "packed_find table k 0 (num_entries table) = Some j" by auto
    with ST_CHECK show ?thesis by (intro stay) (simp_all add: unf i rd call kv gr del: One_nat_def)
  next
    case ST_STOP
    then have "foreach_packed func s h table i = Some (False, t, h, table)" by (simp add: unf i rd call del: One_nat_def)
    moreover have "s' = t" "rest = kv # ys" using Cons.prems(4) gr ST_STOP by (simp_all add: kv)
    ultimately show ?thesis using ok Cons.prems(2) by simp
  next
    case ST_DELETE
    then have run: "foreach_packed func s h table i = foreach_packed func t h (packed_remove table i) i"
      by (simp add: unf i rd call del: One_nat_def)
    note rem = packed_remove_pairs [OF room i]
    have "packed_ok (packed_remove table i)" using ok rem(2) by (auto simp: packed_ok_def packed_remove_def Let_def)
    moreover have "packed_pairs (packed_remove table i) = xs @ ys" using rem(1) Cons.prems(2,3) by simp
    moreover have "walk g t ys = (s', rest)" using Cons.prems(4) gr ST_DELETE by (simp add: kv)
    ultimately show ?thesis using Cons.IH [of "packed_remove table i" xs i t rest] Cons.prems(3) run by simp
  qed
qed

theorem st_foreach_stands_for:
  assumes rep: "stands_for h table kvs" and g: "leaves_table func g" and w: "walk g s kvs = (s', rest)"
  shows "\<exists>h' table'. st_foreach func s h table = Some (False, s', h', table') \<and> stands_for h' table' rest
    \<and> st_type table' = st_type table"
proof (cases "entries_packed table")
  case True
  with rep have ok: "packed_ok table" and kvs: "packed_pairs table = [] @ kvs" and d: "al_distinct (EQUAL table) ([] @ kvs)"
    by (simp_all add: stands_for_def)
  from foreach_packed_correct [OF g ok kvs _ w, of 0 h] obtain table' where
    r: "foreach_packed func s h table 0 = Some (False, s', h, table')" "packed_ok table'" "packed_pairs table' = rest" by auto
  have ty: "st_type table' = st_type table" using ok r(2) by (simp add: packed_ok_def)
  have "stands_for h table' rest"
    using r(2,3) walk_distinct [OF w d] unfolding stands_for_def EQUAL_type [OF ty] by (simp add: packed_ok_def)
  with r(1) True ty show ?thesis by (simp add: st_foreach_def)
next
  case False
  with rep obtain ps where ps: "table_ok h table ([] @ ps) {}" "pairs h ps = kvs" and ty: "hash_ok (st_type table)"
    and d: "al_distinct (EQUAL table) ([] @ kvs)" by (auto simp: stands_for_def represents_def)
  from foreach_loop_correct [OF g ps(1), of s s' rest] w ps(2) obtain h' table' ps' where
    r: "go_on func s h table ps = Some (False, s', h', table')" "table_ok h' table' ps' {}"
      "pairs h' ps' = rest" "st_type table' = st_type table" by (auto simp: pairs_def)
  have head: "st_head table = (if ps = [] then 0 else hd ps)" and "hd ps \<noteq> 0" if "ps \<noteq> []"
    using table_ok_head [of h table "hd ps" "tl ps" "{}"] ps(1) that by simp_all
  moreover have "st_head table = 0" if "ps = []" using ps(1) that by (simp add: table_ok_def dl_ok_def)
  ultimately have "st_foreach func s h table = go_on func s h table ps" using False by (auto simp: st_foreach_def go_on_def)
  moreover have "represents h' table' rest"
    using r(2,3) ty walk_distinct [OF w d] unfolding represents_def r(4) EQUAL_type [OF r(4)] by auto
  ultimately show ?thesis using r(1,4) by (auto intro: stands_for_unpacked)
qed

section \<open>Clearing\<close>

text \<open>The heap without the entries \<open>A\<close>.\<close>

definition freed :: "heap \<Rightarrow> addr set \<Rightarrow> heap" where
  "freed h A = (\<lambda>q. if q \<in> A then None else h q)"

lemma free_chain_path:
  "path h e_next a xs 0 \<Longrightarrow> distinct xs \<Longrightarrow> free_chain h a = Some (freed h (set xs))"
proof (induction xs arbitrary: h a)
  case Nil
  then show ?case by (subst free_chain.simps) (simp add: freed_def)
next
  case (Cons x xs)
  then obtain e where x: "a = x" "x \<noteq> 0" "h x = Some e" "path h e_next (e_next e) xs 0" "x \<notin> set xs" by auto
  then have "path (h(x := None)) e_next (e_next e) xs 0" by (simp add: path_frame)
  moreover have "distinct xs" using Cons.prems(2) by simp
  ultimately have "free_chain (h(x := None)) (e_next e) = Some (freed (h(x := None)) (set xs))" by (rule Cons.IH)
  moreover have "freed (h(x := None)) (set xs) = freed h (set (x # xs))" by (auto simp: freed_def fun_eq_iff)
  ultimately show ?case using x by (subst free_chain.simps) simp
qed

lemma clear_bins_correct:
  assumes "\<forall>i < length bins. path h e_next (bins ! i) (cs i) 0 \<and> distinct (cs i)"
    and "\<forall>i < length bins. \<forall>j < length bins. i \<noteq> j \<longrightarrow> set (cs i) \<inter> set (cs j) = {}"
  shows "clear_bins h bins = Some (freed h (\<Union>i < length bins. set (cs i)))"
  using assms
proof (induction bins arbitrary: h cs)
  case Nil
  then show ?case by (simp add: freed_def)
next
  case (Cons a bins)
  have c0: "path h e_next a (cs 0) 0" "distinct (cs 0)" using Cons.prems(1) by auto
  have apart: "set (cs (Suc i)) \<inter> set (cs 0) = {}" if "i < length bins" for i using Cons.prems(2) that by auto
  have "path (freed h (set (cs 0))) e_next (bins ! i) (cs (Suc i)) 0 \<and> distinct (cs (Suc i))" if i: "i < length bins" for i
  proof
    have "path h e_next (bins ! i) (cs (Suc i)) 0" using Cons.prems(1) i by auto
    then show "path (freed h (set (cs 0))) e_next (bins ! i) (cs (Suc i)) 0"
      by (rule path_keeps) (use apart [OF i] in \<open>auto simp: freed_def\<close>)
    show "distinct (cs (Suc i))" using Cons.prems(1) i by auto
  qed
  then have "clear_bins (freed h (set (cs 0))) bins = Some (freed (freed h (set (cs 0))) (\<Union>i < length bins. set (cs (Suc i))))"
    using Cons.prems(2) by (intro Cons.IH [of _ "\<lambda>i. cs (Suc i)"]) auto
  moreover have "(\<Union>i < length (a # bins). set (cs i)) = set (cs 0) \<union> (\<Union>i < length bins. set (cs (Suc i)))"
    by (simp add: lessThan_Suc_eq_insert_0)
  moreover have "freed (freed h A) B = freed h (A \<union> B)" for A B by (auto simp: freed_def fun_eq_iff)
  ultimately show ?case using free_chain_path [OF c0] by simp
qed

lemma st_clear_represents:
  assumes ok: "table_ok h table ps {}" and ty: "hash_ok (st_type table)"
  shows "\<exists>table'. st_clear h table = Some (freed h (set ps), table') \<and> represents (freed h (set ps)) table' []
    \<and> st_type table' = st_type table \<and> num_bins table' = num_bins table"
proof -
  from ok obtain cs where cs: "chains_ok h (st_bins table) (set ps) cs" and n: "0 < num_bins table"
    and np: "\<not> entries_packed table" by (auto simp: table_ok_def)
  have sets: "set (cs i) = {p \<in> set ps. bin_of h (length (st_bins table)) p = i}" if "i < length (st_bins table)" for i
    using chains_okD(3) [OF cs that] .
  have "clear_bins h (st_bins table) = Some (freed h (\<Union>i < length (st_bins table). set (cs i)))"
    by (rule clear_bins_correct) (use chains_okD(1,2) [OF cs] sets in auto)
  moreover have "(\<Union>i < length (st_bins table). set (cs i)) = set ps"
    using sets n by (auto simp: bin_of_def num_bins_def)
  ultimately have "clear_bins h (st_bins table) = Some (freed h (set ps))" by simp
  moreover have "represents (freed h (set ps)) (table\<lparr>st_bins := replicate (num_bins table) 0, num_entries := 0,
      st_head := 0, st_tail := 0\<rparr>) []"
    by (rule represents_empty [of _ "num_bins table"]) (use ty np n in simp_all)
  ultimately show ?thesis using np by (simp add: st_clear_def num_bins_def)
qed

end
