(* ===== verification/StCopy.thy ===== *)
theory StCopy
  imports StForeach
begin

text \<open>
  \<open>st_copy\<close> makes a table for the same association list out of fresh entries; the old table and
  everything else in the heap stay as they were.
\<close>

text \<open>\<open>h'\<close> extends \<open>h\<close>.\<close>

definition extends :: "heap \<Rightarrow> heap \<Rightarrow> bool" where
  "extends h h' \<longleftrightarrow> (\<forall>q. h q \<noteq> None \<longrightarrow> h' q = h q)"

lemma extendsD: "extends h h' \<Longrightarrow> h q = Some e \<Longrightarrow> h' q = Some e"
  by (simp add: extends_def)

lemma path_extends: "path h f p xs q \<Longrightarrow> extends h h' \<Longrightarrow> path h' f p xs q"
proof (rule path_keeps)
  fix x assume "path h f p xs q" and ex: "extends h h'" and "x \<in> set xs"
  then obtain e where "h x = Some e" using path_in_heap by blast
  with extendsD [OF ex this] show "map_option f (h' x) = map_option f (h x)" by simp
qed

lemma table_ok_extends:
  assumes ok: "table_ok h table ps {}" and ex: "extends h h'"
  shows "table_ok h' table ps {}" and "pairs h' ps = pairs h ps"
proof -
  from ok obtain cs where cs: "chains_ok h (st_bins table) (set ps) cs" by (auto simp: table_ok_def)
  have same: "h' q = h q" if "q \<in> set ps" for q using table_ok_heap(2) [OF ok, of q] that ex by (auto simp: extends_def)
  have "chains_ok h' (st_bins table) (set ps) cs"
    unfolding chains_ok_def
  proof (intro allI impI)
    fix i assume i: "i < length (st_bins table)"
    note c = chains_okD [OF cs i]
    have "set (cs i) = {p \<in> set ps. bin_of h' (length (st_bins table)) p = i}"
      unfolding c(3) using same by (auto simp: bin_of_def)
    with c(1,2) path_extends [OF _ ex] show "path h' e_next (st_bins table ! i) (cs i) 0 \<and> distinct (cs i)
        \<and> set (cs i) = {p \<in> set ps. bin_of h' (length (st_bins table)) p = i}" by blast
  qed
  moreover have "dl_ok h' (st_head table) (st_tail table) ps"
    using ok path_extends [OF _ ex] unfolding table_ok_def dl_ok_def by blast
  moreover have "entry_ok ty h' q = entry_ok ty h q" if "q \<in> set ps" for q ty using same [OF that] by (simp add: entry_ok_def)
  ultimately show "table_ok h' table ps {}" using ok by (auto simp: table_ok_def)
  show "pairs h' ps = pairs h ps" unfolding pairs_def entry_key_def by (intro map_cong refl) (simp add: same)
qed

lemma stands_for_extends: "stands_for h table kvs \<Longrightarrow> extends h h' \<Longrightarrow> stands_for h' table kvs"
  unfolding stands_for_def represents_def using table_ok_extends [of h table _ h'] by (metis (no_types, lifting))

text \<open>
  Half-way through the copy: \<open>ns\<close> are the copies made, the last of which still points forward to the
  old entry \<open>ptr\<close> to be copied next.
\<close>

definition half_copied :: "heap \<Rightarrow> st_table \<Rightarrow> addr \<Rightarrow> addr \<Rightarrow> addr list \<Rightarrow> bool" where
  "half_copied h nt prev ptr ns \<longleftrightarrow> distinct ns \<and> 0 < num_bins nt
     \<and> path h e_back prev (rev ns) 0 \<and> (ns \<noteq> [] \<longrightarrow> path h e_fore (st_head nt) ns ptr)
     \<and> (\<exists>cs. chains_ok h (st_bins nt) (set ns) cs) \<and> (\<forall>p \<in> set ns. entry_ok (st_type nt) h p)"

lemma half_copied_in:
  assumes "half_copied h nt prev ptr ns" and "q \<in> set ns"
  shows "q \<noteq> 0" and "\<exists>e. h q = Some e"
  using assms path_in_heap [of h e_back prev "rev ns" 0 q] by (auto simp: half_copied_def)

lemma half_copied_prev: "half_copied h nt prev ptr ns \<Longrightarrow> prev = (if ns = [] then 0 else last ns)"
  using path_hd [of h e_back prev "rev ns"] by (simp add: half_copied_def hd_rev)

lemma copy_step:
  assumes inv: "half_copied h nt prev ptr ns" and m: "entry \<noteq> 0" "h entry = None"
    and e: "entry_ok (st_type nt) h ptr" "h ptr = Some e"
    and i: "i = unat (e_hash e) mod num_bins nt"
  defines "h1 \<equiv> h(entry \<mapsto> e\<lparr>e_next := st_bins nt ! i, e_back := prev\<rparr>)"
    and "t1 \<equiv> nt\<lparr>st_bins := (st_bins nt)[i := entry]\<rparr>"
  shows "\<exists>h2 t2. (if prev = 0 then Some (h1, t1\<lparr>st_head := entry\<rparr>)
        else do { pe \<leftarrow> h1 prev; Some (h1(prev \<mapsto> pe\<lparr>e_fore := entry\<rparr>), t1) }) = Some (h2, t2)
    \<and> half_copied h2 t2 entry (e_fore e) (ns @ [entry]) \<and> (\<forall>q. q \<notin> insert entry (set ns) \<longrightarrow> h2 q = h q)
    \<and> pairs h2 (ns @ [entry]) = pairs h ns @ [(e_key e, e_record e)]
    \<and> t2 = nt\<lparr>st_bins := st_bins t2, st_head := st_head t2\<rparr> \<and> num_bins t2 = num_bins nt"
proof -
  have prev: "prev = (if ns = [] then 0 else last ns)" by (rule half_copied_prev [OF inv])
  have new: "entry \<notin> set ns" using half_copied_in(2) [OF inv, of entry] m(2) by auto
  define h2 where "h2 = (if prev = 0 then h1 else h1(prev \<mapsto> (the (h1 prev))\<lparr>e_fore := entry\<rparr>))"
  define t2 where "t2 = (if prev = 0 then t1\<lparr>st_head := entry\<rparr> else t1)"
  have p0: "prev = 0 \<longleftrightarrow> ns = []" using prev half_copied_in(1) [OF inv, of prev] by (cases ns rule: rev_cases) auto
  have hp: "prev \<noteq> entry \<and> (\<exists>pe. h prev = Some pe)" if "prev \<noteq> 0"
    using that prev p0 half_copied_in(2) [OF inv, of prev] new by auto
  have run: "(if prev = 0 then Some (h1, t1\<lparr>st_head := entry\<rparr>)
      else do { pe \<leftarrow> h1 prev; Some (h1(prev \<mapsto> pe\<lparr>e_fore := entry\<rparr>), t1) }) = Some (h2, t2)"
  proof (cases "prev = 0")
    case False
    with hp obtain pe where "prev \<noteq> entry" "h prev = Some pe" by blast
    with False show ?thesis by (simp add: h2_def t2_def h1_def)
  qed (simp add: h2_def t2_def)
  have at: "h2 entry = Some (e\<lparr>e_next := st_bins nt ! i, e_back := prev\<rparr>)"
    using hp by (auto simp: h2_def h1_def)
  have keep: "map_option g (h2 q) = map_option g (h q)"
    if "q \<noteq> entry" "\<And>x a. g (x\<lparr>e_fore := a\<rparr>) = g x" for g :: "st_table_entry \<Rightarrow> u32" and q
  proof (cases "q = prev \<and> prev \<noteq> 0")
    case True
    with hp obtain pe where "h prev = Some pe" by blast
    with True that show ?thesis by (simp add: h2_def h1_def)
  qed (use that in \<open>auto simp: h2_def h1_def\<close>)
  have others: "h2 q = h q" if "q \<notin> insert entry (set ns)" for q
  proof -
    have "q \<noteq> prev \<or> prev = 0" using that prev by (cases ns rule: rev_cases) auto
    with that show ?thesis by (auto simp: h2_def h1_def)
  qed
  from inv obtain cs where cs: "chains_ok h (st_bins nt) (set ns) cs" and n: "0 < length (st_bins nt)"
    by (auto simp: half_copied_def num_bins_def)
  have "chains_ok h2 ((st_bins nt)[i := entry]) (insert entry (set ns)) (cs(i := entry # cs i))"
    by (rule chains_push [where e = "e\<lparr>e_next := st_bins nt ! i, e_back := prev\<rparr>", OF cs n])
      (use m(1) new at in \<open>simp_all add: i num_bins_def keep\<close>)
  moreover have "path h2 e_back entry (rev (ns @ [entry])) 0"
  proof -
    have "path h e_back prev (rev ns) 0" using inv by (simp add: half_copied_def)
    then have "path h2 e_back prev (rev ns) 0" by (rule path_keeps, intro keep) (use new in auto)
    then show ?thesis using at m(1) by simp
  qed
  moreover have "path h2 e_fore (st_head t2) (ns @ [entry]) (e_fore e)"
  proof (cases ns rule: rev_cases)
    case Nil
    with p0 at m(1) show ?thesis by (simp add: t2_def)
  next
    case (snoc us x)
    then have x: "prev = x" "prev \<noteq> 0" using prev p0 by auto
    have "path h e_fore (st_head nt) us x" "x \<noteq> 0" using inv snoc by (auto simp: half_copied_def)
    from this(1) have "path h2 e_fore (st_head nt) us x"
      by (rule path_keeps) (use inv snoc new x in \<open>auto simp: half_copied_def h2_def h1_def\<close>)
    moreover have "map_option e_fore (h2 x) = Some entry" using x hp by (auto simp: h2_def)
    then obtain ex where "h2 x = Some ex" "e_fore ex = entry" by auto
    moreover have "st_head t2 = st_head nt" using x by (simp add: t2_def t1_def)
    ultimately show ?thesis using snoc at m(1) \<open>x \<noteq> 0\<close> by auto
  qed
  moreover have live: "entry_ok ty h2 q = entry_ok ty h q \<and> entry_key h2 q = entry_key h q
      \<and> e_record (the (h2 q)) = e_record (the (h q))" if q: "q \<in> set ns" for q ty
  proof -
    have "q \<noteq> entry" using q new by auto
    moreover obtain eq where "h q = Some eq" using half_copied_in(2) [OF inv q] by blast
    ultimately show ?thesis
      using same_field [where g = e_key and h' = h2 and h = h and q = q] same_field [where g = e_record and h' = h2 and h = h and q = q]
        same_field [where g = e_hash and h' = h2 and h = h and q = q]
      by (simp add: entry_ok_def entry_key_def keep)
  qed
  moreover have "entry_ok (st_type nt) h2 entry" using e at by (simp add: entry_ok_def)
  ultimately have "half_copied h2 t2 entry (e_fore e) (ns @ [entry])"
    using inv new unfolding half_copied_def by (auto simp: t2_def t1_def num_bins_def simp del: path_append)
  moreover have "pairs h2 (ns @ [entry]) = pairs h ns @ [(e_key e, e_record e)]"
    using live at by (simp add: pairs_def entry_key_def)
  moreover have "t2 = nt\<lparr>st_bins := st_bins t2, st_head := st_head t2\<rparr>" "num_bins t2 = num_bins nt"
    by (simp_all add: t2_def t1_def num_bins_def)
  ultimately show ?thesis using run others by blast
qed

lemma copy_loop_correct:
  assumes m: "malloc_ok malloc"
  shows "path h0 e_fore ptr ps 0 \<Longrightarrow> extends h0 h \<Longrightarrow> \<forall>p \<in> set ns. h0 p = None \<Longrightarrow> half_copied h nt prev ptr ns \<Longrightarrow>
    \<forall>p \<in> set ps. entry_ok (st_type nt) h0 p \<Longrightarrow>
    copy_loop malloc h nt prev ptr = Some (Inl NoMemError) \<and> (\<exists>h. malloc h = None) \<or>
    (\<exists>h' nt' ns'. copy_loop malloc h nt prev ptr = Some (Inr (h', nt')) \<and> extends h0 h'
       \<and> half_copied h' nt' (st_tail nt') 0 ns' \<and> pairs h' ns' = pairs h ns @ pairs h0 ps
       \<and> nt' = nt\<lparr>st_bins := st_bins nt', st_head := st_head nt', st_tail := st_tail nt'\<rparr>)"
proof (induction ps arbitrary: h nt prev ptr ns)
  case Nil
  then have "copy_loop malloc h nt prev ptr = Some (Inr (h, nt\<lparr>st_tail := prev\<rparr>))" by (subst copy_loop.simps) simp
  moreover have "half_copied h (nt\<lparr>st_tail := prev\<rparr>) prev 0 ns" using Nil by (simp add: half_copied_def num_bins_def)
  ultimately show ?case using Nil.prems(2) by (simp add: pairs_def) fastforce
next
  case (Cons p ps)
  from Cons.prems(1) obtain e where p: "ptr = p" "p \<noteq> 0" "h0 p = Some e" "path h0 e_fore (e_fore e) ps 0" by auto
  have hp: "h p = Some e" by (rule extendsD [OF Cons.prems(2) p(3)])
  have eo: "entry_ok (st_type nt) h p" using Cons.prems(5) hp p(3) by (simp add: entry_ok_def)
  show ?case
  proof (cases "malloc h")
    case None
    then have "copy_loop malloc h nt prev ptr = Some (Inl NoMemError)" using p by (subst copy_loop.simps) simp
    with None show ?thesis by blast
  next
    case (Some entry)
    have en: "entry \<noteq> 0" "h entry = None" using m Some by (simp_all add: malloc_ok_def)
    define i where "i = unat (e_hash e) mod num_bins nt"
    define h1 where "h1 = h(entry \<mapsto> e\<lparr>e_next := st_bins nt ! i, e_back := prev\<rparr>)"
    define t1 where "t1 = nt\<lparr>st_bins := (st_bins nt)[i := entry]\<rparr>"
    from copy_step [OF Cons.prems(4) [unfolded p(1)] en eo hp i_def] obtain h2 t2 where
      s: "(if prev = 0 then Some (h1, t1\<lparr>st_head := entry\<rparr>)
          else do { pe \<leftarrow> h1 prev; Some (h1(prev \<mapsto> pe\<lparr>e_fore := entry\<rparr>), t1) }) = Some (h2, t2)"
        "half_copied h2 t2 entry (e_fore e) (ns @ [entry])" "\<forall>q. q \<notin> insert entry (set ns) \<longrightarrow> h2 q = h q"
        "pairs h2 (ns @ [entry]) = pairs h ns @ [(e_key e, e_record e)]"
        "t2 = nt\<lparr>st_bins := st_bins t2, st_head := st_head t2\<rparr>" unfolding h1_def t1_def by blast
    have ex: "h0 entry = None"
    proof (cases "h0 entry")
      case (Some x)
      with extendsD [OF Cons.prems(2) Some] en(2) show ?thesis by simp
    qed
    have ext: "extends h0 h2"
      unfolding extends_def
    proof (intro allI impI)
      fix q assume q: "h0 q \<noteq> None"
      then have "q \<notin> insert entry (set ns)" using ex Cons.prems(3) by auto
      with s(3) have "h2 q = h q" by blast
      with q Cons.prems(2) show "h2 q = h0 q" by (simp add: extends_def)
    qed
    have ty: "st_type t2 = st_type nt" using arg_cong [OF s(5), of st_type] by simp
    have fp: "h2 p = Some e" by (rule extendsD [OF ext p(3)])
    have "copy_loop malloc h nt prev ptr = do {
        (h2, t2) \<leftarrow> (if prev = 0 then Some (h1, t1\<lparr>st_head := entry\<rparr>)
          else do { pe \<leftarrow> h1 prev; Some (h1(prev \<mapsto> pe\<lparr>e_fore := entry\<rparr>), t1) });
        e1 \<leftarrow> h2 ptr;
        copy_loop malloc h2 t2 entry (e_fore e1) }"
      using p(1,2) Some hp by (subst copy_loop.simps) (simp add: Let_def h1_def t1_def i_def)
    then have step: "copy_loop malloc h nt prev ptr = copy_loop malloc h2 t2 entry (e_fore e)"
      unfolding s(1) using fp p(1) by simp
    have "\<forall>p \<in> set (ns @ [entry]). h0 p = None" using Cons.prems(3) ex by simp
    from Cons.IH [OF p(4) ext this s(2)] Cons.prems(5) ty
    consider "copy_loop malloc h2 t2 entry (e_fore e) = Some (Inl NoMemError)" "\<exists>h. malloc h = None"
      | h' nt' ns' where "copy_loop malloc h2 t2 entry (e_fore e) = Some (Inr (h', nt'))" "extends h0 h'"
        "half_copied h' nt' (st_tail nt') 0 ns'" "pairs h' ns' = pairs h2 (ns @ [entry]) @ pairs h0 ps"
        "nt' = t2\<lparr>st_bins := st_bins nt', st_head := st_head nt', st_tail := st_tail nt'\<rparr>" by auto
    then show ?thesis
    proof cases
      case 1
      with step show ?thesis by simp
    next
      case (2 h' nt' ns')
      have "pairs h0 (p # ps) = (e_key e, e_record e) # pairs h0 ps" by (simp add: pairs_def entry_key_def p(3))
      then have "pairs h' ns' = pairs h ns @ pairs h0 (p # ps)" using 2(4) s(4) by simp
      moreover have "nt' = nt\<lparr>st_bins := st_bins nt', st_head := st_head nt', st_tail := st_tail nt'\<rparr>"
        by (subst 2(5), subst s(5)) simp
      ultimately show ?thesis using step 2(1-3) by auto
    qed
  qed
qed

theorem st_copy_stands_for:
  assumes rep: "stands_for h table kvs" and m: "malloc_ok malloc"
  shows "st_copy malloc h table = Some (Inl NoMemError) \<and> (\<exists>h. malloc h = None) \<or>
    (\<exists>h' table'. st_copy malloc h table = Some (Inr (h', table')) \<and> stands_for h' table' kvs
       \<and> stands_for h' table kvs \<and> extends h h' \<and> st_type table' = st_type table)"
proof (cases "entries_packed table")
  case True
  with rep show ?thesis by (auto simp: st_copy_def extends_def)
next
  case False
  with rep obtain ps where ps: "table_ok h table ps {}" "pairs h ps = kvs" and ty: "hash_ok (st_type table)"
    and d: "al_distinct (EQUAL table) kvs" by (auto simp: stands_for_def represents_def)
  define nt where "nt = table\<lparr>st_bins := replicate (num_bins table) 0\<rparr>"
  have n: "0 < num_bins table" "num_entries table = length ps" using ps(1) by (simp_all add: table_ok_def)
  have fore: "path h e_fore (st_head table) ps 0" using ps(1) by (simp add: table_ok_def dl_ok_def)
  have chains: "chains_ok h (st_bins nt) {} (\<lambda>_. [])" by (simp add: chains_ok_def nt_def)
  have ex: "extends h h" by (simp add: extends_def)
  show ?thesis
  proof (cases "st_head table = 0")
    case True
    with fore have "ps = []" using path_nonnull path_hd by (cases ps) auto
    moreover have "represents h nt []"
      using ps(1) ty n True \<open>ps = []\<close> by (intro represents_empty [of _ "num_bins table"]) (simp_all add: nt_def table_ok_def dl_ok_def)
    moreover have "st_copy malloc h table = Some (Inr (h, nt))" using False True by (simp add: st_copy_def nt_def Let_def)
    moreover have "kvs = []" using ps(2) \<open>ps = []\<close> by (simp add: pairs_def)
    ultimately show ?thesis using rep ex by (auto simp: nt_def intro: stands_for_unpacked)
  next
    case nz: False
    have run: "st_copy malloc h table = copy_loop malloc h nt 0 (st_head table)"
      using False nz by (simp add: st_copy_def nt_def Let_def)
    have "half_copied h nt 0 (st_head table) []" using n chains by (auto simp: half_copied_def nt_def num_bins_def)
    moreover have "\<forall>p \<in> set ps. entry_ok (st_type nt) h p" using ps(1) by (simp add: table_ok_def nt_def)
    ultimately consider "copy_loop malloc h nt 0 (st_head table) = Some (Inl NoMemError)" "\<exists>h. malloc h = None"
      | h' nt' ns' where "copy_loop malloc h nt 0 (st_head table) = Some (Inr (h', nt'))" "extends h h'"
        "half_copied h' nt' (st_tail nt') 0 ns'" "pairs h' ns' = pairs h [] @ pairs h ps"
        "nt' = nt\<lparr>st_bins := st_bins nt', st_head := st_head nt', st_tail := st_tail nt'\<rparr>"
      using copy_loop_correct [OF m fore ex, of "[]" nt 0] by auto
    then show ?thesis
    proof cases
      case 1
      with run show ?thesis by simp
    next
      case (2 h' nt' ns')
      have pr: "pairs h' ns' = kvs" using 2(4) ps(2) by (simp add: pairs_def)
      then have "length ns' = length ps" "ns' \<noteq> []"
        using ps(2) nz fore by (auto simp: pairs_def dest: map_eq_imp_length_eq)
      moreover have ty': "st_type nt' = st_type table" "num_entries nt' = num_entries table" "\<not> entries_packed nt'"
        using arg_cong [OF 2(5), of st_type] arg_cong [OF 2(5), of num_entries] arg_cong [OF 2(5), of entries_packed] False
        by (simp_all add: nt_def)
      ultimately have "table_ok h' nt' ns' {}"
        using 2(3) n(2) unfolding half_copied_def table_ok_def dl_ok_def by auto
      then have "represents h' nt' kvs" using pr ty d unfolding represents_def ty'(1) EQUAL_type [OF ty'(1)] by blast
      with run 2(1,2) ty'(1) stands_for_extends [OF rep 2(2)] show ?thesis by (auto intro: stands_for_unpacked)
    qed
  qed
qed

end
