(* ===== verification/StSafe.thy ===== *)
theory StSafe
  imports StForeach
begin

text \<open>
  Safe deletion: \<open>st_delete_safe\<close> takes an entry out of the order but leaves it in its chain, as a tombstone with
  the key \<open>never\<close>, so that an iteration that holds a pointer to it can go on; \<open>st_cleanup_safe\<close> frees the
  tombstones afterwards.  Together they do what \<open>st_delete\<close> does at once.
\<close>

section \<open>Tables with tombstones\<close>

definition tombs_ok :: "heap \<Rightarrow> st_table \<Rightarrow> st_data \<Rightarrow> addr list \<Rightarrow> addr set \<Rightarrow> bool" where
  "tombs_ok h table never ps dead \<longleftrightarrow>
     table_ok h table ps dead \<and> (\<forall>p \<in> set ps. entry_key h p \<noteq> never) \<and> (\<forall>p \<in> dead. entry_key h p = never)"

text \<open>A table for the pairs \<open>kvs\<close> with the tombstones \<open>dead\<close>.\<close>

definition stands_with_tombs :: "heap \<Rightarrow> st_table \<Rightarrow> st_data \<Rightarrow> (st_data \<times> st_data) list \<Rightarrow> addr set \<Rightarrow> bool" where
  "stands_with_tombs h table never kvs dead \<longleftrightarrow>
     hash_ok (st_type table) \<and> al_distinct (EQUAL table) kvs
     \<and> (\<exists>ps. tombs_ok h table never ps dead \<and> pairs h ps = kvs)"

lemma entry_key_pairs: "(\<forall>(k, v) \<in> set (pairs h ps). k \<noteq> never) \<longleftrightarrow> (\<forall>p \<in> set ps. entry_key h p \<noteq> never)"
  by (auto simp: pairs_def)

lemma represents_tombs:
  assumes "represents h table kvs" and "never \<notin> fst ` set kvs"
  shows "stands_with_tombs h table never kvs {}"
proof -
  from assms(1) obtain ps where "table_ok h table ps {}" "pairs h ps = kvs" by (auto simp: represents_def)
  moreover from this assms(2) entry_key_pairs [of h ps never] have "\<forall>p \<in> set ps. entry_key h p \<noteq> never" by force
  ultimately show ?thesis using assms(1) by (auto simp: stands_with_tombs_def represents_def tombs_ok_def)
qed

lemma tombs_represents: "stands_with_tombs h table never kvs {} \<Longrightarrow> represents h table kvs"
  by (auto simp: stands_with_tombs_def represents_def tombs_ok_def)

section \<open>Leaving a tombstone\<close>

lemma delete_safe_loop_miss:
  "path h e_next a xs 0 \<Longrightarrow> \<forall>x \<in> set xs. \<not> (entry_key h x \<noteq> never \<and> EQUAL table (entry_key h x) key) \<Longrightarrow>
    delete_safe_loop h table key never a = Some (None, h, table)"
proof (induction xs arbitrary: a)
  case Nil
  then show ?case by (subst delete_safe_loop.simps) simp
next
  case (Cons x xs)
  then obtain e where x: "a = x" "x \<noteq> 0" "h x = Some e" "path h e_next (e_next e) xs 0"
    "\<not> (e_key e \<noteq> never \<and> EQUAL table (e_key e) key)" by (auto simp: entry_key_def)
  have "delete_safe_loop h table key never (e_next e) = Some (None, h, table)"
    using Cons.IH [OF x(4)] Cons.prems(2) by simp
  with x show ?case by (subst delete_safe_loop.simps) auto
qed

lemma delete_safe_loop_hit:
  "path h e_next a (us @ p # vs) 0 \<Longrightarrow>
    \<forall>x \<in> set us. \<not> (entry_key h x \<noteq> never \<and> EQUAL table (entry_key h x) key) \<Longrightarrow>
    entry_key h p \<noteq> never \<Longrightarrow> EQUAL table (entry_key h p) key \<Longrightarrow>
    delete_safe_loop h table key never a = do {
      (h1, table1) \<leftarrow> REMOVE_ENTRY h table p;
      e1 \<leftarrow> h1 p;
      Some (Some (e_key e1, e_record e1), h1(p \<mapsto> e1\<lparr>e_key := never, e_record := never\<rparr>), table1) }"
proof (induction us arbitrary: a)
  case Nil
  then show ?case by (subst delete_safe_loop.simps) (auto simp: entry_key_def)
next
  case (Cons x us)
  then obtain e where x: "a = x" "x \<noteq> 0" "h x = Some e" "path h e_next (e_next e) (us @ p # vs) 0"
    "\<not> (e_key e \<noteq> never \<and> EQUAL table (e_key e) key)" by (auto simp: entry_key_def)
  have "delete_safe_loop h table key never (e_next e) = do {
      (h1, table1) \<leftarrow> REMOVE_ENTRY h table p;
      e1 \<leftarrow> h1 p;
      Some (Some (e_key e1, e_record e1), h1(p \<mapsto> e1\<lparr>e_key := never, e_record := never\<rparr>), table1) }"
    by (rule Cons.IH [OF x(4)]) (use Cons.prems(2-4) in simp_all)
  with x show ?case by (subst delete_safe_loop.simps) auto
qed

text \<open>Entries whose links and hash values agree: the chains are the same.\<close>

lemma chains_ok_same_links:
  assumes cs: "chains_ok h bins C cs" and n: "0 < length bins"
    and s: "\<And>q. q \<in> C \<Longrightarrow> map_option e_next (h' q) = map_option e_next (h q)"
      "\<And>q. q \<in> C \<Longrightarrow> map_option e_hash (h' q) = map_option e_hash (h q)"
  shows "chains_ok h' bins C cs"
  unfolding chains_ok_def
proof (intro allI impI conjI)
  fix i assume i: "i < length bins"
  note c = chains_okD [OF cs i]
  show "path h' e_next (bins ! i) (cs i) 0"
    by (rule path_keeps [OF c(1)], rule s(1)) (use c(3) in auto)
  show "distinct (cs i)" by (rule c(2))
  have "bin_of h' m q = bin_of h m q" if q: "q \<in> C" for m q
  proof -
    obtain e where "h q = Some e" using chains_in_heap [OF cs n q] by blast
    then show ?thesis
      using same_field [where g = e_hash and h' = h' and h = h and q = q, OF s(2) [OF q]] by (simp add: bin_of_def)
  qed
  then show "set (cs i) = {q \<in> C. bin_of h' (length bins) q = i}" unfolding c(3) by auto
qed

lemma bury_entry:
  assumes ok: "tombs_ok h table never (xs @ p # ys) dead" and e: "h p = Some e"
  shows "\<exists>h1 table1 e1. REMOVE_ENTRY h table p = Some (h1, table1) \<and> h1 p = Some e1 \<and> e_key e1 = e_key e \<and> e_record e1 = e_record e
    \<and> tombs_ok (h1(p \<mapsto> e1\<lparr>e_key := never, e_record := never\<rparr>)) table1 never (xs @ ys) (insert p dead)
    \<and> pairs (h1(p \<mapsto> e1\<lparr>e_key := never, e_record := never\<rparr>)) (xs @ ys) = pairs h (xs @ ys)
    \<and> st_type table1 = st_type table \<and> dom h1 = dom h"
proof -
  from ok have tok: "table_ok h table (xs @ p # ys) dead" and keys: "\<forall>q \<in> set (xs @ p # ys). entry_key h q \<noteq> never"
    "\<forall>q \<in> dead. entry_key h q = never" by (simp_all add: tombs_ok_def)
  from tok obtain cs where cs: "chains_ok h (st_bins table) (set (xs @ p # ys) \<union> dead) cs"
    and n: "0 < length (st_bins table)" "num_entries table = length (xs @ p # ys)" "distinct (xs @ p # ys)"
    and dl: "dl_ok h (st_head table) (st_tail table) (xs @ p # ys)"
    by (auto simp: table_ok_def num_bins_def dl_ok_def)
  from REMOVE_ENTRY_correct [OF dl] n(2) obtain h1 f l where
    r: "REMOVE_ENTRY h table p = Some (h1, table\<lparr>num_entries := num_entries table - 1, st_head := f, st_tail := l\<rparr>)"
      "dl_ok h1 f l (xs @ ys)" "same_chains h h1" "h1 p = h p" by auto
  define table1 where "table1 = table\<lparr>num_entries := num_entries table - 1, st_head := f, st_tail := l\<rparr>"
  define h2 where "h2 = h1(p \<mapsto> e\<lparr>e_key := never, e_record := never\<rparr>)"
  have h1p: "h1 p = Some e" using r(4) e by simp
  note s = same_chains_fields [OF r(3)]
  have pn: "p \<notin> set (xs @ ys)" "p \<notin> dead" using n(3) tok by (auto simp: table_ok_def)
  have C: "set (xs @ p # ys) \<union> dead = set (xs @ ys) \<union> insert p dead" by auto
  have "chains_ok h2 (st_bins table1) (set (xs @ p # ys) \<union> dead) cs"
  proof -
    have "map_option e_next (h2 q) = map_option e_next (h q)" "map_option e_hash (h2 q) = map_option e_hash (h q)" for q
      using s(1,2) [of q] e by (auto simp: h2_def)
    from chains_ok_same_links [OF cs n(1) this] show ?thesis by (simp add: table1_def)
  qed
  moreover have "dl_ok h2 f l (xs @ ys)"
    using r(2) pn(1) by (simp add: dl_ok_def h2_def path_frame del: path_append)
  moreover have same: "entry_ok ty h2 q = entry_ok ty h q \<and> entry_key h2 q = entry_key h q
      \<and> e_record (the (h2 q)) = e_record (the (h q))" if q: "q \<in> set (xs @ ys) \<union> dead" for q ty
  proof -
    have "q \<noteq> p" using q pn by auto
    moreover obtain eq where "h q = Some eq" using table_ok_heap(2) [OF tok, of q] q by auto
    ultimately show ?thesis
      using same_field [where g = e_key and h' = h1 and h = h and q = q, OF s(3)]
        same_field [where g = e_record and h' = h1 and h = h and q = q, OF s(4)]
        same_field [where g = e_hash and h' = h1 and h = h and q = q, OF s(2)]
      by (simp add: entry_ok_def entry_key_def h2_def)
  qed
  ultimately have "table_ok h2 table1 (xs @ ys) (insert p dead)"
    using tok n(2) pn unfolding table_ok_def C by (auto simp: table1_def num_bins_def)
  moreover have "entry_key h2 p = never" by (simp add: h2_def entry_key_def)
  ultimately have "tombs_ok h2 table1 never (xs @ ys) (insert p dead)"
    using keys same by (auto simp: tombs_ok_def)
  moreover have "pairs h2 (xs @ ys) = pairs h (xs @ ys)"
    unfolding pairs_def
  proof (rule map_cong [OF refl])
    fix q assume "q \<in> set (xs @ ys)"
    with same [of q "st_type table"] show "(entry_key h2 q, e_record (the (h2 q))) = (entry_key h q, e_record (the (h q)))" by auto
  qed
  moreover have "dom h1 = dom h"
  proof -
    have "(h1 q = None) = (h q = None)" for q using s(1) [of q] by (cases "h q"; cases "h1 q") auto
    then show ?thesis by (auto simp: dom_def)
  qed
  ultimately show ?thesis using r(1) h1p unfolding h2_def table1_def
    by (intro exI [of _ h1] exI [of _ table1] exI [of _ e]) (simp add: table1_def)
qed

theorem st_delete_safe_tombs:
  assumes rep: "stands_with_tombs h table never kvs dead"
  shows "\<exists>h' table' dead'. st_delete_safe h table key never = Some (al_find (EQUAL table) key kvs, h', table')
    \<and> stands_with_tombs h' table' never (al_delete (EQUAL table) key kvs) dead'
    \<and> dead \<subseteq> dead' \<and> dom h' = dom h \<and> st_type table' = st_type table"
proof -
  from rep obtain ps where ps: "tombs_ok h table never ps dead" "pairs h ps = kvs" and ty: "hash_ok (st_type table)"
    and dist: "al_distinct (EQUAL table) kvs" by (auto simp: stands_with_tombs_def)
  note hc = hash_okD [OF ty]
  from ps(1) have tok: "table_ok h table ps dead" and keys: "\<forall>q \<in> set ps. entry_key h q \<noteq> never"
    "\<forall>q \<in> dead. entry_key h q = never" by (simp_all add: tombs_ok_def)
  from tok obtain cs where cs: "chains_ok h (st_bins table) (set ps \<union> dead) cs" and d: "distinct ps"
    by (auto simp: table_ok_def dl_ok_def)
  define i where "i = do_hash_bin key table"
  have i: "i < length (st_bins table)" using table_ok_bin [OF tok] by (simp add: i_def)
  note c = chains_okD [OF cs i]
  have live: "q \<in> set ps" if "q \<in> set (cs i)" "entry_key h q \<noteq> never" for q
    using that keys(2) unfolding c(3) by auto
  show ?thesis
  proof (cases "\<exists>p \<in> set ps. EQUAL table key (entry_key h p)")
    case False
    then have none: "al_find (EQUAL table) key kvs = None"
      using al_find_pairs_None [of ps table key h] ps(2) by simp
    moreover have "al_delete (EQUAL table) key kvs = kvs"
      unfolding al_delete_def by (rule filter_True) (use none in \<open>auto simp: al_find_None\<close>)
    moreover have "st_delete_safe h table key never = Some (None, h, table)"
      unfolding st_delete_safe_def i_def [symmetric]
      by (rule delete_safe_loop_miss [OF c(1)]) (use False live hash_contract.eq_sym [OF hc] in blast)
    ultimately show ?thesis using rep by auto
  next
    case True
    then obtain p where p: "p \<in> set ps" "EQUAL table key (entry_key h p)" by blast
    obtain e where e: "h p = Some e" using table_ok_heap(2) [OF tok] p(1) by blast
    have "e_hash e = do_hash key table"
      using tok p hash_contract.eq_hash [OF hc p(2)] e
      by (auto simp: table_ok_def entry_ok_def entry_key_def do_hash_def)
    then have "bin_of h (length (st_bins table)) p = i" by (simp add: bin_of_def e i_def do_hash_bin_def num_bins_def)
    then have "p \<in> set (cs i)" unfolding c(3) using p(1) by simp
    then obtain us vs where us: "cs i = us @ p # vs" by (auto dest: split_list)
    obtain xs ys where xs: "ps = xs @ p # ys" using p(1) by (auto dest: split_list)
    have first: "\<not> (entry_key h q \<noteq> never \<and> EQUAL table (entry_key h q) key)" if q: "q \<in> set us" for q
    proof
      assume h: "entry_key h q \<noteq> never \<and> EQUAL table (entry_key h q) key"
      then have "q \<in> set ps" using live [of q] q us by simp
      then have "q = p" using only_hit [OF ty dist [folded ps(2)] p, of q] h hash_contract.eq_sym [OF hc] by blast
      with q c(2) us show False by auto
    qed
    from bury_entry [OF ps(1) [unfolded xs] e] obtain h1 table1 e1 where
      r: "REMOVE_ENTRY h table p = Some (h1, table1)" "h1 p = Some e1" "e_key e1 = e_key e" "e_record e1 = e_record e"
        "tombs_ok (h1(p \<mapsto> e1\<lparr>e_key := never, e_record := never\<rparr>)) table1 never (xs @ ys) (insert p dead)"
        "pairs (h1(p \<mapsto> e1\<lparr>e_key := never, e_record := never\<rparr>)) (xs @ ys) = pairs h (xs @ ys)"
        "st_type table1 = st_type table" "dom h1 = dom h" by blast
    have "st_delete_safe h table key never
        = Some (Some (e_key e, e_record e), h1(p \<mapsto> e1\<lparr>e_key := never, e_record := never\<rparr>), table1)"
      unfolding st_delete_safe_def i_def [symmetric]
      using delete_safe_loop_hit [OF c(1) [unfolded us], of never table key] first keys(1) p
        hash_contract.eq_sym [OF hc p(2)] r(1-4) by simp
    moreover have "al_find (EQUAL table) key kvs = Some (e_key e, e_record e)"
      using al_find_pairs [OF dist [folded ps(2)] ty p] e ps(2) by (simp add: entry_key_def)
    moreover have "pairs h (xs @ ys) = al_delete (EQUAL table) key kvs"
      using pairs_delete [of table h xs p ys key] ty dist d p(2) ps(2) by (simp add: xs)
    moreover have "EQUAL table1 = EQUAL table" by (rule EQUAL_type [OF r(7)])
    ultimately show ?thesis
      using r(5-8) ty hash_contract.al_distinct_delete [OF hc dist] r(2)
      unfolding stands_with_tombs_def by fastforce
  qed
qed

section \<open>Freeing the tombstones\<close>

lemma read_slot_after:
  assumes "path h e_next (st_bins table ! i) (us @ ws) 0"
  shows "read_slot h table (slot_after (BinSlot i) us) = Some (if ws = [] then 0 else hd ws)"
proof (cases us rule: rev_cases)
  case Nil
  with assms path_hd [of h e_next "st_bins table ! i" ws] show ?thesis by (simp add: slot_after_def read_slot_def)
next
  case (snoc us' x)
  with assms obtain e where "h x = Some e" "path h e_next (e_next e) ws 0" by auto
  with snoc path_hd [OF this(2)] show ?thesis by (simp add: slot_after_def read_slot_def)
qed

lemma slot_after_snoc: "slot_after s (us @ [x]) = NextSlot x"
  by (simp add: slot_after_def)

text \<open>What clean-up keeps while it frees the tombstones \<open>D\<close>.\<close>

definition swept :: "heap \<Rightarrow> st_table \<Rightarrow> addr list \<Rightarrow> addr set \<Rightarrow> heap \<Rightarrow> st_table \<Rightarrow> bool" where
  "swept h table ps D h' table' \<longleftrightarrow>
     pairs h' ps = pairs h ps \<and> dom h' = dom h - D \<and> st_type table' = st_type table \<and> num_bins table' = num_bins table
     \<and> (\<forall>q \<in> dom h'. e_hash (the (h' q)) = e_hash (the (h q)))"

lemma swept_refl: "swept h table ps {} h table"
  by (simp add: swept_def)

lemma swept_trans:
  "swept h table ps D h' table' \<Longrightarrow> swept h' table' ps D' h'' table'' \<Longrightarrow> swept h table ps (D \<union> D') h'' table''"
  by (auto simp: swept_def)

lemma free_tomb:
  assumes ok: "tombs_ok h table never ps dead" and cs: "chains_ok h (st_bins table) (set ps \<union> dead) cs"
    and i: "i < length (st_bins table)" and split: "cs i = us @ p # vs" and p: "p \<in> dead" and e: "h p = Some e"
  shows "\<exists>h1 table1. write_slot h table (slot_after (BinSlot i) us) (e_next e) = Some (h1, table1)
    \<and> tombs_ok (h1(p := None)) table1 never ps (dead - {p})
    \<and> chains_ok (h1(p := None)) (st_bins table1) (set ps \<union> (dead - {p})) (cs(i := us @ vs))
    \<and> swept h table ps {p} (h1(p := None)) table1"
proof -
  from ok have tok: "table_ok h table ps dead" by (simp add: tombs_ok_def)
  then have n: "0 < length (st_bins table)" and pn: "p \<notin> set ps" using p by (auto simp: table_ok_def num_bins_def)
  from chain_unlink [OF cs i split e] obtain h1 bins1 where
    w: "write_slot h table (slot_after (BinSlot i) us) (e_next e) = Some (h1, table\<lparr>st_bins := bins1\<rparr>)"
      "length bins1 = length (st_bins table)"
      "chains_ok h1 bins1 (set ps \<union> dead - {p}) (cs(i := us @ vs))"
    and f: "\<And>q. map_option e_fore (h1 q) = map_option e_fore (h q)" "\<And>q. map_option e_back (h1 q) = map_option e_back (h q)"
      "\<And>q. map_option e_hash (h1 q) = map_option e_hash (h q)" "\<And>q. map_option e_key (h1 q) = map_option e_key (h q)"
      "\<And>q. map_option e_record (h1 q) = map_option e_record (h q)" by blast
  define h2 where "h2 = h1(p := None)"
  have C: "set ps \<union> dead - {p} = set ps \<union> (dead - {p})" using pn by auto
  have chains: "chains_ok h2 bins1 (set ps \<union> (dead - {p})) (cs(i := us @ vs))"
    unfolding h2_def using same_chains_ok [OF w(3) [unfolded C], of h1 p] w(2) n pn by (simp add: same_chains_def)
  have same: "entry_ok ty h2 q = entry_ok ty h q \<and> entry_key h2 q = entry_key h q
      \<and> e_record (the (h2 q)) = e_record (the (h q))" if q: "q \<in> set ps \<union> (dead - {p})" for q ty
  proof -
    have "q \<noteq> p" using q pn by auto
    moreover obtain eq where "h q = Some eq" using table_ok_heap(2) [OF tok, of q] q by auto
    ultimately show ?thesis
      using same_field [where g = e_key and h' = h1 and h = h and q = q, OF f(4)]
        same_field [where g = e_record and h' = h1 and h = h and q = q, OF f(5)]
        same_field [where g = e_hash and h' = h1 and h = h and q = q, OF f(3)]
      by (simp add: entry_ok_def entry_key_def h2_def)
  qed
  have "dl_ok h2 (st_head table) (st_tail table) ps"
    using tok path_keeps [of h e_fore _ ps _ h1] path_keeps [of h e_back _ "rev ps" _ h1] f(1,2) pn
    by (simp add: table_ok_def dl_ok_def h2_def path_frame)
  then have "tombs_ok h2 (table\<lparr>st_bins := bins1\<rparr>) never ps (dead - {p})"
    using ok chains same w(2) by (auto simp: tombs_ok_def table_ok_def num_bins_def)
  moreover have "swept h table ps {p} h2 (table\<lparr>st_bins := bins1\<rparr>)"
  proof -
    have "pairs h2 ps = pairs h ps"
      unfolding pairs_def
    proof (rule map_cong [OF refl])
      fix q assume "q \<in> set ps"
      with same [of q "st_type table"] show "(entry_key h2 q, e_record (the (h2 q))) = (entry_key h q, e_record (the (h q)))" by auto
    qed
    moreover have iff: "h1 q = None \<longleftrightarrow> h q = None" for q using f(1) [of q] by (cases "h q"; cases "h1 q") auto
    moreover have "e_hash (the (h2 q)) = e_hash (the (h q))" if "q \<in> dom h2" for q
      using that f(3) [of q] iff [of q] by (cases "h q"; cases "h1 q") (auto simp: h2_def split: if_splits)
    moreover have "dom h1 = dom h" using iff by (auto simp: dom_def)
    ultimately show ?thesis using w(2) by (simp add: swept_def h2_def num_bins_def)
  qed
  ultimately show ?thesis using w(1) chains unfolding h2_def by auto
qed

lemma cleanup_bin_correct:
  "tombs_ok h table never ps dead \<Longrightarrow> chains_ok h (st_bins table) (set ps \<union> dead) cs \<Longrightarrow> i < length (st_bins table) \<Longrightarrow>
    cs i = us @ ws \<Longrightarrow> \<exists>h' table'. cleanup_bin h table never (slot_after (BinSlot i) us) = Some (h', table')
    \<and> tombs_ok h' table' never ps (dead - set ws) \<and> swept h table ps (dead \<inter> set ws) h' table'"
proof (induction ws arbitrary: h table dead cs us)
  case Nil
  have "path h e_next (st_bins table ! i) (us @ []) 0" using chains_okD(1) [OF Nil.prems(2,3)] Nil.prems(4) by simp
  from read_slot_after [OF this] have "read_slot h table (slot_after (BinSlot i) us) = Some 0" by simp
  with Nil.prems(1) show ?case by (subst cleanup_bin.simps) (simp add: swept_refl)
next
  case (Cons p ws)
  note c = chains_okD [OF Cons.prems(2,3)]
  have p: "p \<in> set ps \<union> dead" using c(3) Cons.prems(4) by auto
  have tok: "table_ok h table ps dead" using Cons.prems(1) by (simp add: tombs_ok_def)
  obtain e where e: "h p = Some e" "p \<noteq> 0" using table_ok_heap [OF tok p] by blast
  have rd: "read_slot h table (slot_after (BinSlot i) us) = Some p"
    using read_slot_after [of h table i us "p # ws"] c(1) Cons.prems(4) by simp
  show ?case
  proof (cases "p \<in> dead")
    case True
    then have key: "e_key e = never" using Cons.prems(1) e by (auto simp: tombs_ok_def entry_key_def)
    from free_tomb [OF Cons.prems(1-4) True e(1)] obtain h1 table1 where
      w: "write_slot h table (slot_after (BinSlot i) us) (e_next e) = Some (h1, table1)"
        "tombs_ok (h1(p := None)) table1 never ps (dead - {p})"
        "chains_ok (h1(p := None)) (st_bins table1) (set ps \<union> (dead - {p})) (cs(i := us @ ws))"
        "swept h table ps {p} (h1(p := None)) table1" by blast
    have i: "i < length (st_bins table1)" using w(4) Cons.prems(3) by (simp add: swept_def num_bins_def)
    from Cons.IH [OF w(2,3) i fun_upd_same] obtain h' table' where
      r: "cleanup_bin (h1(p := None)) table1 never (slot_after (BinSlot i) us) = Some (h', table')"
        "tombs_ok h' table' never ps (dead - {p} - set ws)"
        "swept (h1(p := None)) table1 ps ((dead - {p}) \<inter> set ws) h' table'" by blast
    have "cleanup_bin h table never (slot_after (BinSlot i) us) = Some (h', table')"
      using rd e key w(1) r(1) by (subst cleanup_bin.simps) simp
    moreover have "dead - {p} - set ws = dead - set (p # ws)"
      "{p} \<union> (dead - {p}) \<inter> set ws = dead \<inter> set (p # ws)" using True by auto
    ultimately show ?thesis using r(2) swept_trans [OF w(4) r(3)] by auto
  next
    case False
    then have "e_key e \<noteq> never" using p Cons.prems(1) e by (auto simp: tombs_ok_def entry_key_def)
    then have "cleanup_bin h table never (slot_after (BinSlot i) us) = cleanup_bin h table never (slot_after (BinSlot i) (us @ [p]))"
      using rd e unfolding slot_after_snoc by (subst cleanup_bin.simps) simp
    moreover have "dead - set ws = dead - set (p # ws)" "dead \<inter> set ws = dead \<inter> set (p # ws)" using False by auto
    ultimately show ?thesis using Cons.IH [OF Cons.prems(1-3), of "us @ [p]"] Cons.prems(4) by simp
  qed
qed

lemma cleanup_bins_correct:
  "tombs_ok h table never ps dead \<Longrightarrow> i + k = num_bins table \<Longrightarrow> \<forall>p \<in> dead. i \<le> bin_of h (num_bins table) p \<Longrightarrow>
    \<exists>h' table'. cleanup_bins h table never i k = Some (h', table')
    \<and> tombs_ok h' table' never ps {} \<and> swept h table ps dead h' table'"
proof (induction k arbitrary: i h table dead)
  case 0
  have "bin_of h (num_bins table) p < num_bins table" for p
    using 0(1) by (simp add: tombs_ok_def table_ok_def bin_of_def)
  then have "\<not> i \<le> bin_of h (num_bins table) p" for p using 0(2) by (simp add: not_le)
  with 0(3) have "dead = {}" by blast
  with 0 show ?case by (simp add: swept_refl)
next
  case (Suc k)
  from Suc.prems(1) obtain cs where cs: "chains_ok h (st_bins table) (set ps \<union> dead) cs"
    by (auto simp: tombs_ok_def table_ok_def)
  have i: "i < length (st_bins table)" using Suc.prems(2) by (simp add: num_bins_def)
  from cleanup_bin_correct [OF Suc.prems(1) cs i, of "[]"] obtain h1 table1 where
    r: "cleanup_bin h table never (BinSlot i) = Some (h1, table1)"
      "tombs_ok h1 table1 never ps (dead - set (cs i))" "swept h table ps (dead \<inter> set (cs i)) h1 table1"
    by (auto simp: slot_after_def)
  have nb: "num_bins table1 = num_bins table" using r(3) by (simp add: swept_def)
  have "Suc i \<le> bin_of h1 (num_bins table1) p" if p: "p \<in> dead - set (cs i)" for p
  proof -
    have "p \<in> dom h1" using table_ok_heap(2) [of h1 table1 ps _ p] r(2) p by (auto simp: tombs_ok_def)
    then have "bin_of h1 (num_bins table1) p = bin_of h (num_bins table) p"
      using r(3) by (simp add: swept_def bin_of_def)
    moreover have "bin_of h (num_bins table) p \<noteq> i" using p chains_okD(3) [OF cs i] by (auto simp: num_bins_def)
    ultimately show ?thesis using Suc.prems(3) p by fastforce
  qed
  with Suc.IH [OF r(2), of "Suc i"] Suc.prems(2) nb obtain h' table' where
    s: "cleanup_bins h1 table1 never (Suc i) k = Some (h', table')" "tombs_ok h' table' never ps {}"
      "swept h1 table1 ps (dead - set (cs i)) h' table'" by auto
  moreover have "dead \<inter> set (cs i) \<union> (dead - set (cs i)) = dead" by auto
  ultimately show ?case using r(1) swept_trans [OF r(3) s(3)] by auto
qed

theorem st_cleanup_safe_represents:
  assumes rep: "stands_with_tombs h table never kvs dead"
  shows "\<exists>h' table'. st_cleanup_safe h table never = Some (h', table') \<and> represents h' table' kvs
    \<and> dom h' = dom h - dead \<and> st_type table' = st_type table"
proof -
  from rep obtain ps where ps: "tombs_ok h table never ps dead" "pairs h ps = kvs" by (auto simp: stands_with_tombs_def)
  from cleanup_bins_correct [OF ps(1), of 0 "num_bins table"] obtain h' table' where
    r: "st_cleanup_safe h table never = Some (h', table')" "tombs_ok h' table' never ps {}" "swept h table ps dead h' table'"
    by (auto simp: st_cleanup_safe_def)
  have ty: "st_type table' = st_type table" using r(3) by (simp add: swept_def)
  have "represents h' table' kvs"
    using rep r(2,3) ps(2) ty unfolding represents_def EQUAL_type [OF ty]
    by (auto simp: stands_with_tombs_def tombs_ok_def swept_def)
  with r ty show ?thesis by (auto simp: swept_def)
qed

text \<open>Deleting safely and then cleaning up leaves the same association list as deleting.\<close>

corollary delete_then_cleanup:
  assumes "represents h table kvs" and "never \<notin> fst ` set kvs"
  shows "\<exists>h1 table1 h2 table2. st_delete_safe h table key never = Some (al_find (EQUAL table) key kvs, h1, table1)
    \<and> dom h1 = dom h \<and> st_cleanup_safe h1 table1 never = Some (h2, table2)
    \<and> represents h2 table2 (al_delete (EQUAL table) key kvs)"
proof -
  from st_delete_safe_tombs [OF represents_tombs [OF assms], of key] obtain h1 table1 dead where
    d: "st_delete_safe h table key never = Some (al_find (EQUAL table) key kvs, h1, table1)" "dom h1 = dom h"
      "stands_with_tombs h1 table1 never (al_delete (EQUAL table) key kvs) dead" by blast
  from st_cleanup_safe_represents [OF d(3)] d(1,2) show ?thesis by blast
qed

end
