(* ===== verification/Mersenne.thy ===== *)
theory Mersenne
  imports Prelude "HOL-Library.Monad_Syntax"
begin

text \<open>
  The Mersenne twister of \<open>lib/ruby/random.c\<close>.  A C \<open>unsigned long\<close> has 32 bits here.  The pointer \<open>next\<close> is an
  index into \<open>state\<close>, or \<open>None\<close> for the null pointer of a generator that is not initialised; a result
  \<open>None\<close> means that the code follows that null pointer.  The block-wise generator is related to the
  recurrence it implements, one infinite sequence of words.
\<close>

section \<open>Definitions\<close>

definition N :: nat where
  "N = 624"

definition M :: nat where
  "M = 397"

definition MATRIX_A :: u32 where
  "MATRIX_A = 0x9908b0df"

definition MIXBITS :: "u32 \<Rightarrow> u32 \<Rightarrow> u32" where
  "MIXBITS u v = (u AND 0x80000000) OR (v AND 0x7fffffff)"

definition TWIST :: "u32 \<Rightarrow> u32 \<Rightarrow> u32" where
  "TWIST u v = drop_bit 1 (MIXBITS u v) XOR (if v AND 1 \<noteq> 0 then MATRIX_A else 0)"

record MT =
  mt_state :: "u32 list"
  mt_next :: "nat option"
  mt_left :: int

definition genrand_initialized :: "MT \<Rightarrow> bool" where
  "genrand_initialized mt \<longleftrightarrow> mt_next mt \<noteq> None"

definition uninit_genrand :: "MT \<Rightarrow> MT" where
  "uninit_genrand mt = mt\<lparr>mt_next := None\<rparr>"

text \<open>The elements \<open>state[j]\<close>, \<open>state[j+1]\<close>, \<open>\<dots>\<close> from \<open>state[j-1]\<close>.\<close>

fun init_loop :: "u32 \<Rightarrow> nat \<Rightarrow> nat \<Rightarrow> u32 list" where
  "init_loop prev j 0 = []"
| "init_loop prev j (Suc k) =
     (let x = 1812433253 * (prev XOR drop_bit 30 prev) + of_nat j
      in x # init_loop x (j + 1) k)"

definition init_genrand :: "MT \<Rightarrow> u32 \<Rightarrow> MT" where
  "init_genrand mt s = mt\<lparr>mt_state := s # init_loop s 1 (N - 1), mt_left := 1, mt_next := Some (N - 1)\<rparr>"

text \<open>\<open>i++; if (i>=N) { mt->state[0] = mt->state[N-1]; i=1; }\<close>\<close>

definition next_i :: "u32 list \<Rightarrow> nat \<Rightarrow> u32 list \<times> nat" where
  "next_i st i = (if N \<le> i + 1 then (st[0 := st ! (N - 1)], 1) else (st, i + 1))"

fun key_loop :: "u32 list \<Rightarrow> nat \<Rightarrow> u32 list \<Rightarrow> nat \<Rightarrow> nat \<Rightarrow> nat \<Rightarrow> u32 list \<times> nat" where
  "key_loop init_key key_length st i j 0 = (st, i)"
| "key_loop init_key key_length st i j (Suc k) =
     (let p = st ! (i - 1);
          x = (st ! i XOR ((p XOR drop_bit 30 p) * 1664525)) + init_key ! j + of_nat j;
          (st', i') = next_i (st[i := x]) i;
          j' = (if key_length \<le> j + 1 then 0 else j + 1)
      in key_loop init_key key_length st' i' j' k)"

fun mix_loop :: "u32 list \<Rightarrow> nat \<Rightarrow> nat \<Rightarrow> u32 list" where
  "mix_loop st i 0 = st"
| "mix_loop st i (Suc k) =
     (let p = st ! (i - 1);
          x = (st ! i XOR ((p XOR drop_bit 30 p) * 1566083941)) - of_nat i;
          (st', i') = next_i (st[i := x]) i
      in mix_loop st' i' k)"

definition init_by_array :: "MT \<Rightarrow> u32 list \<Rightarrow> nat \<Rightarrow> MT" where
  "init_by_array mt init_key key_length =
     (let mt1 = init_genrand mt 19650218;
          (st, i) = key_loop init_key key_length (mt_state mt1) 1 0 (max N key_length)
      in mt1\<lparr>mt_state := (mix_loop st i (N - 1))[0 := 0x80000000]\<rparr>)"

text \<open>The two loops of \<open>next_state\<close>, with \<open>p = state + i\<close>.\<close>

fun twist_up :: "u32 list \<Rightarrow> nat \<Rightarrow> nat \<Rightarrow> u32 list" where
  "twist_up st i 0 = st"
| "twist_up st i (Suc k) = twist_up (st[i := st ! (i + M) XOR TWIST (st ! i) (st ! (i + 1))]) (i + 1) k"

fun twist_down :: "u32 list \<Rightarrow> nat \<Rightarrow> nat \<Rightarrow> u32 list" where
  "twist_down st i 0 = st"
| "twist_down st i (Suc k) = twist_down (st[i := st ! (i + M - N) XOR TWIST (st ! i) (st ! (i + 1))]) (i + 1) k"

definition next_state :: "MT \<Rightarrow> MT" where
  "next_state mt =
     (let mt0 = (if \<not> genrand_initialized mt then init_genrand mt 5489 else mt);
          st1 = twist_up (mt_state mt0) 0 (N - M);
          st2 = twist_down st1 (N - M) (M - 1);
          p = N - 1
      in mt0\<lparr>mt_left := int N, mt_next := Some 0,
             mt_state := st2[p := st2 ! (p + M - N) XOR TWIST (st2 ! p) (st2 ! 0)]\<rparr>)"

definition temper :: "u32 \<Rightarrow> u32" where
  "temper y0 =
     (let y1 = y0 XOR drop_bit 11 y0;
          y2 = y1 XOR (push_bit 7 y1 AND 0x9d2c5680);
          y3 = y2 XOR (push_bit 15 y2 AND 0xefc60000)
      in y3 XOR drop_bit 18 y3)"

definition genrand_int32 :: "MT \<Rightarrow> (u32 \<times> MT) option" where
  "genrand_int32 mt =
     (let mt1 = mt\<lparr>mt_left := mt_left mt - 1\<rparr>;
          mt2 = (if mt_left mt1 \<le> 0 then next_state mt1 else mt1)
      in case mt_next mt2 of
           None \<Rightarrow> None
         | Some i \<Rightarrow> Some (temper (mt_state mt2 ! i), mt2\<lparr>mt_next := Some (i + 1)\<rparr>))"

text \<open>The C expression \<open>(a*67108864.0+b)*(1.0/9007199254740992.0)\<close> is the parameter \<open>real_of\<close>.\<close>

definition genrand_real :: "(u32 \<Rightarrow> u32 \<Rightarrow> 'f) \<Rightarrow> MT \<Rightarrow> ('f \<times> MT) option" where
  "genrand_real real_of mt = do {
     (a, mt1) \<leftarrow> genrand_int32 mt;
     (b, mt2) \<leftarrow> genrand_int32 mt1;
     Some (real_of (drop_bit 5 a) (drop_bit 6 b), mt2) }"

section \<open>The recurrence\<close>

text \<open>
  The sequence of the twister: the words of \<open>state\<close>, then each word from the one \<open>N\<close> places before, its successor
  and the one \<open>N - M\<close> places before.
\<close>

function mt_seq :: "u32 list \<Rightarrow> nat \<Rightarrow> u32" where
  "mt_seq s k = (if k < N then s ! k
     else mt_seq s (k - N + M) XOR TWIST (mt_seq s (k - N)) (mt_seq s (k - N + 1)))"
  by pat_completeness auto
termination by (relation "measure snd") (auto simp: N_def M_def)

declare mt_seq.simps [simp del]

lemma mt_seq_low: "k < N \<Longrightarrow> mt_seq s k = s ! k"
  by (subst mt_seq.simps) simp

lemma mt_seq_step: "mt_seq s (N + k) = mt_seq s (k + M) XOR TWIST (mt_seq s k) (mt_seq s (k + 1))"
  by (subst mt_seq.simps) simp

text \<open>The first \<open>i\<close> words of the array have been replaced by their successors in the sequence.\<close>

definition advanced :: "u32 list \<Rightarrow> nat \<Rightarrow> u32 list \<Rightarrow> bool" where
  "advanced s i st \<longleftrightarrow> length st = N \<and> (\<forall>j < N. st ! j = mt_seq s (if j < i then N + j else j))"

lemma advanced_nth: "advanced s i st \<Longrightarrow> j < N \<Longrightarrow> st ! j = mt_seq s (if j < i then N + j else j)"
  by (simp add: advanced_def)

lemma advanced_step:
  assumes "advanced s i st" and "i < N" and "x = mt_seq s (N + i)"
  shows "advanced s (i + 1) (st[i := x])"
  using assms by (auto simp: advanced_def nth_list_update less_Suc_eq)

lemma twist_up_advanced:
  "advanced s i st \<Longrightarrow> i + k = N - M \<Longrightarrow> advanced s (N - M) (twist_up st i k)"
proof (induction st i k rule: twist_up.induct)
  case (2 st i k)
  have i: "i < N - M" "i + M < N" using 2(3) by simp_all
  moreover have "st ! (i + M) XOR TWIST (st ! i) (st ! (i + 1)) = mt_seq s (N + i)"
    using advanced_nth [OF 2(2), of "i + M"] advanced_nth [OF 2(2), of i] advanced_nth [OF 2(2), of "i + 1"] i
    by (simp add: mt_seq_step M_def)
  ultimately have "advanced s (i + 1) (st[i := st ! (i + M) XOR TWIST (st ! i) (st ! (i + 1))])"
    using advanced_step [OF 2(2)] by simp
  from 2(1) [OF this] 2(3) show ?case by simp
qed simp

lemma twist_down_advanced:
  "advanced s i st \<Longrightarrow> i + k = N - 1 \<Longrightarrow> N - M \<le> i \<Longrightarrow> advanced s (N - 1) (twist_down st i k)"
proof (induction st i k rule: twist_down.induct)
  case (2 st i k)
  have i: "i < N - 1" "i + M - N < i" "N + (i + M - N) = i + M" "i + M - N < N"
    using 2(3,4) by (auto simp: N_def M_def)
  moreover have "st ! (i + M - N) XOR TWIST (st ! i) (st ! (i + 1)) = mt_seq s (N + i)"
    using advanced_nth [OF 2(2), of "i + M - N"] advanced_nth [OF 2(2), of i] advanced_nth [OF 2(2), of "i + 1"] i
    by (simp add: mt_seq_step)
  ultimately have "advanced s (i + 1) (st[i := st ! (i + M - N) XOR TWIST (st ! i) (st ! (i + 1))])"
    using advanced_step [OF 2(2)] by simp
  from 2(1) [OF this] 2(3,4) show ?case by simp
qed simp

lemma advanced_0: "length s = N \<Longrightarrow> advanced s 0 s"
  by (simp add: advanced_def mt_seq_low)

text \<open>\<open>next_state\<close> computes the next \<open>N\<close> words of the sequence.\<close>

lemma next_state_seq:
  assumes "length (mt_state mt) = N" and "genrand_initialized mt"
  shows "length (mt_state (next_state mt)) = N"
    and "k < N \<Longrightarrow> mt_state (next_state mt) ! k = mt_seq (mt_state mt) (N + k)"
    and "mt_left (next_state mt) = int N" and "mt_next (next_state mt) = Some 0"
proof -
  define s where "s = mt_state mt"
  define st where "st = twist_down (twist_up s 0 (N - M)) (N - M) (M - 1)"
  have "advanced s (N - M) (twist_up s 0 (N - M))"
    by (rule twist_up_advanced) (use assms(1) advanced_0 in \<open>simp_all add: s_def\<close>)
  then have st: "advanced s (N - 1) st" unfolding st_def
    by (rule twist_down_advanced) (simp_all add: N_def M_def)
  have n: "N - 1 < N" "N - 1 + M - N = M - 1" "M - 1 < N - 1" "N + (M - 1) = N - 1 + M" "N - 1 + 1 = N"
    by (simp_all add: N_def M_def)
  have "st ! (N - 1 + M - N) XOR TWIST (st ! (N - 1)) (st ! 0) = mt_seq s (N + (N - 1))"
    using advanced_nth [OF st, of "M - 1"] advanced_nth [OF st, of "N - 1"] advanced_nth [OF st, of 0]
      mt_seq_step [of s "N - 1"] n by (simp only:) (simp add: N_def M_def)
  from advanced_step [OF st n(1) this]
  have "advanced s N (mt_state (next_state mt))"
    using assms(2) n(5) by (simp add: next_state_def Let_def st_def s_def)
  then show "length (mt_state (next_state mt)) = N" "k < N \<Longrightarrow> mt_state (next_state mt) ! k = mt_seq (mt_state mt) (N + k)"
    by (simp_all add: advanced_def s_def)
  show "mt_left (next_state mt) = int N" "mt_next (next_state mt) = Some 0" by (simp_all add: next_state_def Let_def)
qed

lemma mt_seq_shift:
  assumes "\<And>j. j < N \<Longrightarrow> s' ! j = mt_seq s (N + j)"
  shows "mt_seq s' k = mt_seq s (N + k)"
proof (induction k rule: less_induct)
  case (less k)
  show ?case
  proof (cases "k < N")
    case False
    then obtain j where k: "k = N + j" by (auto simp: not_less dest: le_Suc_ex)
    have j: "j + M < k" "j < k" "j + 1 < k" by (simp_all add: k N_def M_def)
    have "mt_seq s' (N + j) = mt_seq s' (j + M) XOR TWIST (mt_seq s' j) (mt_seq s' (j + 1))" by (rule mt_seq_step)
    also have "\<dots> = mt_seq s (N + j + M) XOR TWIST (mt_seq s (N + j)) (mt_seq s (N + j + 1))"
      using less.IH [OF j(1)] less.IH [OF j(2)] less.IH [OF j(3)] by (simp add: add.assoc)
    also have "\<dots> = mt_seq s (N + (N + j))" by (rule mt_seq_step [symmetric])
    finally show ?thesis by (simp add: k)
  qed (simp add: mt_seq_low assms)
qed

section \<open>The generator as a stream\<close>

definition mt_ok :: "MT \<Rightarrow> bool" where
  "mt_ok mt \<longleftrightarrow> length (mt_state mt) = N \<and> genrand_initialized mt \<and> mt_left mt \<le> int N
     \<and> (1 < mt_left mt \<longrightarrow> mt_next mt = Some (N + 1 - nat (mt_left mt)))"

text \<open>The words that are still to come, before tempering.\<close>

definition mt_word :: "MT \<Rightarrow> nat \<Rightarrow> u32" where
  "mt_word mt k = mt_seq (mt_state mt) ((if mt_left mt \<le> 1 then N else N + 1 - nat (mt_left mt)) + k)"

lemma genrand_int32_word:
  assumes ok: "mt_ok mt"
  shows "\<exists>mt'. genrand_int32 mt = Some (temper (mt_word mt 0), mt') \<and> mt_ok mt' \<and> (\<forall>k. mt_word mt' k = mt_word mt (Suc k))"
proof (cases "mt_left mt \<le> 1")
  case True
  define mt1 where "mt1 = mt\<lparr>mt_left := mt_left mt - 1\<rparr>"
  define mt2 where "mt2 = next_state mt1"
  have "length (mt_state mt1) = N" "genrand_initialized mt1"
    using ok by (simp_all add: mt1_def mt_ok_def genrand_initialized_def)
  note ns = next_state_seq [OF this, folded mt2_def]
  have s: "mt_state mt1 = mt_state mt" by (simp add: mt1_def)
  have run: "genrand_int32 mt = Some (temper (mt_state mt2 ! 0), mt2\<lparr>mt_next := Some 1\<rparr>)"
    using True ns(4) by (simp add: genrand_int32_def Let_def mt2_def flip: mt1_def) (simp add: mt1_def)
  have "mt_word (mt2\<lparr>mt_next := Some 1\<rparr>) k = mt_word mt (Suc k)" for k
    using True ns(3) mt_seq_shift [of "mt_state mt2" "mt_state mt" "Suc k"] ns(2)
    by (simp add: mt_word_def s N_def)
  moreover have "mt_ok (mt2\<lparr>mt_next := Some 1\<rparr>)"
    using ns by (simp add: mt_ok_def genrand_initialized_def N_def)
  moreover have "mt_state mt2 ! 0 = mt_word mt 0"
    using True ns(2) [of 0] by (simp add: mt_word_def s N_def)
  ultimately show ?thesis using run by auto
next
  case False
  define i where "i = N + 1 - nat (mt_left mt)"
  have i: "mt_next mt = Some i" "i < N" "int i = int N + 1 - mt_left mt"
    using ok False by (auto simp: mt_ok_def i_def)
  define mt' where "mt' = mt\<lparr>mt_left := mt_left mt - 1, mt_next := Some (i + 1)\<rparr>"
  have run: "genrand_int32 mt = Some (temper (mt_state mt ! i), mt')"
    using False i(1) by (simp add: genrand_int32_def Let_def mt'_def)
  have idx: "(if mt_left mt' \<le> 1 then N else N + 1 - nat (mt_left mt')) = i + 1"
    using False i(2,3) by (auto simp: mt'_def)
  then have "mt_ok mt'" using ok by (auto simp: mt_ok_def genrand_initialized_def mt'_def split: if_splits)
  moreover have "mt_word mt' k = mt_word mt (Suc k)" for k
    unfolding mt_word_def idx using False by (simp add: mt'_def i_def)
  moreover have "mt_state mt ! i = mt_word mt 0" using False i(2) by (simp add: mt_word_def i_def mt_seq_low)
  ultimately show ?thesis using run by auto
qed

text \<open>A source of words: what the client of the generator relies on.\<close>

locale word_source =
  fixes draw :: "'s \<Rightarrow> ('w \<times> 's) option" and ok :: "'s \<Rightarrow> bool" and word :: "'s \<Rightarrow> nat \<Rightarrow> 'w"
  assumes draw_word: "ok s \<Longrightarrow> \<exists>s'. draw s = Some (word s 0, s') \<and> ok s' \<and> (\<forall>k. word s' k = word s (Suc k))"
begin

text \<open>The state after \<open>n\<close> draws.\<close>

definition after :: "nat \<Rightarrow> 's \<Rightarrow> 's" where
  "after n s = ((\<lambda>s. snd (the (draw s))) ^^ n) s"

lemma after_0 [simp]: "after 0 s = s"
  by (simp add: after_def)

lemma after_Suc: "after (Suc n) s = after n (snd (the (draw s)))"
  by (simp add: after_def funpow_Suc_right del: funpow.simps)

lemma after_after [simp]: "after m (after n s) = after (n + m) s"
  by (simp add: after_def funpow_add add.commute [of n])

lemma draw_Some: "ok s \<Longrightarrow> draw s = Some (word s 0, after 1 s)"
  using draw_word [of s] by (auto simp: after_def)

lemma after_ok: "ok s \<Longrightarrow> ok (after n s) \<and> (\<forall>k. word (after n s) k = word s (n + k))"
proof (induction n arbitrary: s)
  case (Suc n)
  from draw_word [OF Suc.prems] obtain s' where
    "draw s = Some (word s 0, s')" "ok s'" "\<And>k. word s' k = word s (Suc k)" by blast
  with Suc.IH [of s'] show ?case by (simp add: after_Suc)
qed simp

lemma draw_after: "ok s \<Longrightarrow> draw (after n s) = Some (word s n, after (Suc n) s)"
  using draw_Some [of "after n s"] after_ok [of s n] by simp

end

definition mt_out :: "MT \<Rightarrow> nat \<Rightarrow> u32" where
  "mt_out mt k = temper (mt_word mt k)"

interpretation mt_source: word_source genrand_int32 mt_ok mt_out
proof
  fix mt assume "mt_ok mt"
  from genrand_int32_word [OF this] obtain mt' where
    "genrand_int32 mt = Some (temper (mt_word mt 0), mt')" "mt_ok mt'" "\<forall>k. mt_word mt' k = mt_word mt (Suc k)" by blast
  then show "\<exists>mt'. genrand_int32 mt = Some (mt_out mt 0, mt') \<and> mt_ok mt' \<and> (\<forall>k. mt_out mt' k = mt_out mt (Suc k))"
    by (auto simp: mt_out_def)
qed

lemma genrand_real_words:
  assumes "mt_ok mt"
  shows "genrand_real real_of mt = Some (real_of (drop_bit 5 (mt_out mt 0)) (drop_bit 6 (mt_out mt 1)), mt_source.after 2 mt)"
  using mt_source.draw_after [OF assms, of 0] mt_source.draw_after [OF assms, of 1]
  by (simp add: genrand_real_def numeral_2_eq_2)

text \<open>A run of \<open>n\<close> draws.\<close>

fun genrand_list :: "nat \<Rightarrow> MT \<Rightarrow> (u32 list \<times> MT) option" where
  "genrand_list 0 mt = Some ([], mt)"
| "genrand_list (Suc n) mt = do {
     (y, mt1) \<leftarrow> genrand_int32 mt;
     (ys, mt2) \<leftarrow> genrand_list n mt1;
     Some (y # ys, mt2) }"

lemma genrand_list_words:
  "mt_ok mt \<Longrightarrow> genrand_list n mt = Some (map (mt_out mt) [0..<n], mt_source.after n mt) \<and> mt_ok (mt_source.after n mt)"
proof (induction n arbitrary: mt)
  case (Suc n)
  define mt1 where "mt1 = mt_source.after 1 mt"
  have mt1: "genrand_int32 mt = Some (mt_out mt 0, mt1)" "mt_ok mt1" "\<And>k. mt_out mt1 k = mt_out mt (Suc k)"
    using mt_source.draw_Some [OF Suc.prems] mt_source.after_ok [OF Suc.prems, of 1] by (simp_all add: mt1_def)
  have "map (mt_out mt) [0..<Suc n] = mt_out mt 0 # map (mt_out mt1) [0..<n]"
    by (simp add: mt1(3) upt_rec [of 0 "Suc n"] map_Suc_upt [symmetric] del: upt_Suc)
  moreover have "mt_source.after n mt1 = mt_source.after (Suc n) mt" by (simp add: mt1_def)
  ultimately show ?case using Suc.IH [OF mt1(2)] mt1(1) by simp
qed simp

section \<open>Seeding\<close>

lemma length_init_loop [simp]: "length (init_loop prev j k) = k"
  by (induction prev j k rule: init_loop.induct) (simp_all add: Let_def)

lemma nth_init_loop:
  "i < k \<Longrightarrow> (prev # init_loop prev j k) ! Suc i =
     1812433253 * ((prev # init_loop prev j k) ! i XOR drop_bit 30 ((prev # init_loop prev j k) ! i)) + of_nat (j + i)"
proof (induction prev j k arbitrary: i rule: init_loop.induct)
  case (2 prev j k)
  then show ?case by (cases i) (simp_all add: Let_def)
qed simp

lemma init_genrand_ok [simp]: "mt_ok (init_genrand mt s)"
  by (simp add: mt_ok_def init_genrand_def genrand_initialized_def N_def)

lemma init_genrand_state:
  "mt_state (init_genrand mt s) ! 0 = s"
  "0 < j \<Longrightarrow> j < N \<Longrightarrow> mt_state (init_genrand mt s) ! j =
     1812433253 * (mt_state (init_genrand mt s) ! (j - 1) XOR drop_bit 30 (mt_state (init_genrand mt s) ! (j - 1))) + of_nat j"
  using nth_init_loop [of "j - 1" "N - 1" s 1] by (simp_all add: init_genrand_def N_def)

text \<open>The indices of the loops of \<open>init_by_array\<close> stay inside the arrays.\<close>

lemma next_i_range: "1 \<le> i \<Longrightarrow> i < N \<Longrightarrow> next_i st i = (st', i') \<Longrightarrow> 1 \<le> i' \<and> i' < N \<and> length st' = length st"
  by (auto simp: next_i_def N_def split: if_splits)

lemma key_loop_range:
  "1 \<le> i \<Longrightarrow> i < N \<Longrightarrow> key_loop init_key key_length st i j k = (st', i') \<Longrightarrow> 1 \<le> i' \<and> i' < N \<and> length st' = length st"
proof (induction init_key key_length st i j k rule: key_loop.induct)
  case (2 init_key key_length st i j k)
  define x where "x = (st ! i XOR ((st ! (i - 1) XOR drop_bit 30 (st ! (i - 1))) * 1664525)) + init_key ! j + of_nat j"
  obtain st1 i1 where n: "next_i (st[i := x]) i = (st1, i1)" by fastforce
  note r = next_i_range [OF 2(2,3) n]
  have "key_loop init_key key_length st1 i1 (if key_length \<le> j + 1 then 0 else j + 1) k = (st', i')"
    using 2(4) n unfolding key_loop.simps Let_def x_def [symmetric] by simp
  with 2(1) [OF refl x_def n [symmetric] refl refl] r show ?case by auto
qed simp

lemma mix_loop_range: "1 \<le> i \<Longrightarrow> i < N \<Longrightarrow> length (mix_loop st i k) = length st"
proof (induction st i k rule: mix_loop.induct)
  case (2 st i k)
  define x where "x = (st ! i XOR ((st ! (i - 1) XOR drop_bit 30 (st ! (i - 1))) * 1566083941)) - of_nat i"
  obtain st1 i1 where n: "next_i (st[i := x]) i = (st1, i1)" by fastforce
  note r = next_i_range [OF 2(2,3) n]
  with 2(1) [OF refl x_def n [symmetric] refl] have "length (mix_loop st1 i1 k) = length st" by simp
  with n show ?case unfolding mix_loop.simps Let_def x_def [symmetric] by simp
qed simp

lemma init_by_array_ok: "mt_ok (init_by_array mt init_key key_length)"
  and init_by_array_nonzero: "mt_state (init_by_array mt init_key key_length) ! 0 = 0x80000000"
proof -
  define mt1 where "mt1 = init_genrand mt 19650218"
  obtain st i where k: "key_loop init_key key_length (mt_state mt1) 1 0 (max N key_length) = (st, i)" by fastforce
  have len: "length (mt_state mt1) = N" by (simp add: mt1_def init_genrand_def N_def)
  have "1 \<le> i \<and> i < N \<and> length st = N" using key_loop_range [OF _ _ k] len by (simp add: N_def)
  then have l: "length (mix_loop st i (N - 1)) = N" using mix_loop_range by simp
  have r: "init_by_array mt init_key key_length = mt1\<lparr>mt_state := (mix_loop st i (N - 1))[0 := 0x80000000]\<rparr>"
    using k by (simp add: init_by_array_def Let_def flip: mt1_def)
  show "mt_ok (init_by_array mt init_key key_length)"
    unfolding r mt_ok_def using l by (simp add: mt1_def init_genrand_def genrand_initialized_def) (simp add: N_def)
  show "mt_state (init_by_array mt init_key key_length) ! 0 = 0x80000000"
    unfolding r using l by (simp add: N_def)
qed

text \<open>
  A generator whose \<open>next\<close> pointer has been cleared seeds itself only when a new block is due; before that
  \<open>genrand_int32\<close> reads through the null pointer.
\<close>

lemma genrand_uninitialized:
  assumes "mt_next mt = None"
  shows "genrand_int32 mt =
    (if mt_left mt \<le> 1 then genrand_int32 ((init_genrand mt 5489)\<lparr>mt_left := 1\<rparr>) else None)"
  using assms by (simp add: genrand_int32_def Let_def next_state_def genrand_initialized_def init_genrand_def)

section \<open>Tempering is a permutation\<close>

lemma xor_shift_right_inj:
  assumes "0 < n" and "x XOR drop_bit n x = y XOR drop_bit n (y :: u32)"
  shows "x = y"
proof -
  have b: "bit x i = bit y i \<longleftrightarrow> bit x (i + n) = bit y (i + n)" for i
    using arg_cong [OF assms(2), of "\<lambda>w. bit w i"] by (auto simp: bit_xor_iff bit_drop_bit_eq add.commute)
  have "bit x i = bit y i" for i
  proof (induction "32 - i" arbitrary: i rule: less_induct)
    case less
    show ?case
    proof (cases "i < 32")
      case True
      then have "bit x (i + n) = bit y (i + n)" using assms(1) by (intro less) simp
      then show ?thesis using b by blast
    qed (auto dest: bit_imp_le_length)
  qed
  then show ?thesis by (rule bit_eqI)
qed

lemma xor_shift_left_inj:
  assumes "0 < n" and "x XOR (push_bit n x AND c) = y XOR (push_bit n y AND (c :: u32))"
  shows "x = y"
proof -
  have b: "bit x i = bit y i" if "n \<le> i \<Longrightarrow> bit x (i - n) = bit y (i - n)" for i
    using that arg_cong [OF assms(2), of "\<lambda>w. bit w i"]
    by (auto simp: bit_xor_iff bit_and_iff bit_push_bit_iff)
  have "bit x i = bit y i" for i
  proof (induction i rule: less_induct)
    case (less i)
    show ?case by (rule b, rule less) (use assms(1) in simp)
  qed
  then show ?thesis by (rule bit_eqI)
qed

lemma temper_inj: "temper x = temper y \<Longrightarrow> x = y"
  unfolding temper_def Let_def
  by (drule xor_shift_right_inj [rotated], simp, drule xor_shift_left_inj [rotated], simp,
      drule xor_shift_left_inj [rotated], simp, drule xor_shift_right_inj [rotated], simp, assumption)

lemma temper_bij: "bij temper"
  using temper_inj finite_UNIV_inj_surj [of temper] by (simp add: bij_def inj_def)

end
