(* ===== verification/RandomInt.thy ===== *)
theory RandomInt
  imports Mersenne IntToStr
begin

text \<open>
  Random integers: \<open>rand\<close>, \<open>srand\<close> and the seeds of \<open>lib/ruby/random.c\<close> over the generator of \<open>Mersenne\<close>.
  The bits that the operating system delivers for a fresh seed are parameters, as are the security level
  and the operations on doubles.  A result \<open>None\<close> means that the code never returns or follows a bad pointer.
\<close>

section \<open>Seeds\<close>

text \<open>\<open>initial\<close> holds \<open>DEFAULT_SEED_CNT\<close> words; the member \<open>value\<close> of the seed is \<open>seed_value\<close>.\<close>

definition DEFAULT_SEED_CNT :: nat where
  "DEFAULT_SEED_CNT = 4"

record Random =
  rnd_mt :: MT
  seed_value :: rb_int
  seed_initial :: "u32 list"

text \<open>The words of \<open>buf\<close>: the fixnum, or the digits of the \<open>Bignum\<close>, at least one word.\<close>

definition seed_words :: "rb_int \<Rightarrow> u32 list" where
  "seed_words seed =
     (case seed of
        VFix w \<Rightarrow> [FIX2LONG w]
      | VBig b \<Rightarrow> if big_digits b = [] then [0] else big_digits b)"

text \<open>\<open>while (1 < len && buf[len-1] == 0) len--;\<close>\<close>

fun seed_len :: "u32 list \<Rightarrow> nat \<Rightarrow> nat" where
  "seed_len buf 0 = 0"
| "seed_len buf (Suc n) = (if 1 < Suc n \<and> buf ! n = 0 then seed_len buf n else Suc n)"

definition seed_generator :: "MT \<Rightarrow> u32 list \<Rightarrow> MT" where
  "seed_generator mt buf =
     (let len = seed_len buf (length buf) in
      if len \<le> 1 then init_genrand mt (buf ! 0)
      else init_by_array mt buf (if buf ! (len - 1) = 1 then len - 1 else len))"

definition rand_init :: "('f, 'o) rb_env \<Rightarrow> MT \<Rightarrow> ('f, 'o) rb_value \<Rightarrow> rb_error + rb_int \<times> MT" where
  "rand_init env mt vseed =
     map_sum id (\<lambda>seed. (seed, seed_generator mt (seed_words seed)))
       (case vseed of RInt v \<Rightarrow> Inr v | _ \<Rightarrow> rb_to_int env vseed)"

definition make_seed_value :: "u32 list \<Rightarrow> rb_int" where
  "make_seed_value ptr =
     (let guard = (if ptr ! (DEFAULT_SEED_CNT - 1) \<le> 1 then 1 else 0)
      in rb_big_norm (VBig (mk_big True (take DEFAULT_SEED_CNT ptr @ [guard]))))"

text \<open>\<open>fill\<close> is what \<open>fill_random_seed\<close> reads from the system.\<close>

definition random_seed :: "u32 list \<Rightarrow> rb_int" where
  "random_seed fill = make_seed_value fill"

definition rb_f_srand ::
  "('f, 'o) rb_env \<Rightarrow> nat \<Rightarrow> u32 list \<Rightarrow> ('f, 'o) rb_value list \<Rightarrow> Random \<Rightarrow> rb_error + rb_int \<times> Random" where
  "rb_f_srand env safe_level fill argv default_mt =
     (if 4 \<le> safe_level then Inl SecurityError
      else
        case (case argv of
                [] \<Rightarrow> Inr (RInt (random_seed fill))
              | [seed] \<Rightarrow> Inr seed
              | _ \<Rightarrow> Inl ArgError) of
          Inl e \<Rightarrow> Inl e
        | Inr seed \<Rightarrow>
            let old = seed_value default_mt in
            map_sum id (\<lambda>(v, mt). (old, default_mt\<lparr>rnd_mt := mt, seed_value := v\<rparr>))
              (rand_init env (rnd_mt default_mt) seed))"

definition Init_RandomSeed :: "u32 list \<Rightarrow> Random \<Rightarrow> Random" where
  "Init_RandomSeed fill default_mt =
     default_mt\<lparr>seed_initial := fill, rnd_mt := init_by_array (rnd_mt default_mt) fill DEFAULT_SEED_CNT\<rparr>"

definition Init_RandomSeed2 :: "Random \<Rightarrow> Random" where
  "Init_RandomSeed2 default_mt =
     default_mt\<lparr>seed_value := make_seed_value (seed_initial default_mt), seed_initial := replicate DEFAULT_SEED_CNT 0\<rparr>"

definition rb_reset_random_seed :: "Random \<Rightarrow> Random" where
  "rb_reset_random_seed default_mt =
     default_mt\<lparr>rnd_mt := uninit_genrand (rnd_mt default_mt), seed_value := VFix (LONG2FIX 0)\<rparr>"

definition rb_genrand_int32 :: "Random \<Rightarrow> (u32 \<times> Random) option" where
  "rb_genrand_int32 default_mt =
     map_option (\<lambda>(r, mt). (r, default_mt\<lparr>rnd_mt := mt\<rparr>)) (genrand_int32 (rnd_mt default_mt))"

definition rb_genrand_real :: "(u32 \<Rightarrow> u32 \<Rightarrow> 'f) \<Rightarrow> Random \<Rightarrow> ('f \<times> Random) option" where
  "rb_genrand_real real_of default_mt =
     map_option (\<lambda>(r, mt). (r, default_mt\<lparr>rnd_mt := mt\<rparr>)) (genrand_real real_of (rnd_mt default_mt))"

section \<open>Numbers up to a limit\<close>

definition make_mask :: "u32 \<Rightarrow> u32" where
  "make_mask x0 =
     (let x1 = x0 OR drop_bit 1 x0;
          x2 = x1 OR drop_bit 2 x1;
          x3 = x2 OR drop_bit 4 x2;
          x4 = x3 OR drop_bit 8 x3
      in x4 OR drop_bit 16 x4)"

partial_function (option) limited_rand :: "MT \<Rightarrow> u32 \<Rightarrow> (u32 \<times> MT) option" where
  "limited_rand mt limit =
     (let msk = make_mask limit in
      if msk = 0 then Some (0, mt)
      else do {
        (r, mt1) \<leftarrow> genrand_int32 mt;
        let val = r AND msk;
        if limit < val then limited_rand mt1 limit else Some (val, mt1) })"

declare limited_rand.simps [code]

text \<open>
  One pass over the digits of the limit, the most significant first: the digits drawn, or \<open>None\<close> for
  \<open>goto retry\<close>.
\<close>

fun big_draw :: "u32 list \<Rightarrow> u32 \<Rightarrow> bool \<Rightarrow> MT \<Rightarrow> (u32 list option \<times> MT) option" where
  "big_draw [] msk boundary mt = Some (Some [], mt)"
| "big_draw (lim # lims) msk boundary mt =
     (let msk' = (if msk \<noteq> 0 then 0xffffffff else make_mask lim) in
      if msk' \<noteq> 0 then do {
        (r, mt1) \<leftarrow> genrand_int32 mt;
        let rnd = r AND msk';
        if boundary \<and> lim < rnd then Some (None, mt1)
        else do {
          (ds, mt2) \<leftarrow> big_draw lims msk' (boundary \<and> \<not> rnd < lim) mt1;
          Some (map_option ((#) rnd) ds, mt2) } }
      else do {
        (ds, mt2) \<leftarrow> big_draw lims msk' boundary mt;
        Some (map_option ((#) 0) ds, mt2) })"

partial_function (option) limited_big_rand :: "MT \<Rightarrow> rbignum \<Rightarrow> (rb_int \<times> MT) option" where
  "limited_big_rand mt limit = do {
     (ds, mt1) \<leftarrow> big_draw (rev (big_digits limit)) 0 True mt;
     (case ds of
        None \<Rightarrow> limited_big_rand mt1 limit
      | Some ds \<Rightarrow> Some (rb_big_norm (VBig (mk_big True (rev ds))), mt1)) }"

declare limited_big_rand.simps [code]

section \<open>\<open>Kernel#rand\<close>\<close>

definition rand_real :: "(u32 \<Rightarrow> u32 \<Rightarrow> 'f) \<Rightarrow> MT \<Rightarrow> ((rb_error + ('f, 'o) rb_value) \<times> MT) option" where
  "rand_real real_of mt = map_option (\<lambda>(f, mt'). (Inr (RFloat f), mt')) (genrand_real real_of mt)"

text \<open>The end of \<open>rb_f_rand\<close>, for a \<open>long\<close>.\<close>

definition rand_long :: "(u32 \<Rightarrow> u32 \<Rightarrow> 'f) \<Rightarrow> MT \<Rightarrow> u32 \<Rightarrow> ((rb_error + ('f, 'o) rb_value) \<times> MT) option" where
  "rand_long real_of mt mx =
     (if mx = 0 then rand_real real_of mt
      else
        let mx' = (if sint mx < 0 then - mx else mx) in
        map_option (\<lambda>(val, mt'). (Inr (RInt (rb_int2inum val)), mt')) (limited_rand mt (mx' - 1)))"

text \<open>The block at the label \<open>bignum\<close>.\<close>

definition rand_bignum ::
  "('f, 'o) rb_env \<Rightarrow> (u32 \<Rightarrow> u32 \<Rightarrow> 'f) \<Rightarrow> MT \<Rightarrow> rbignum \<Rightarrow> ((rb_error + ('f, 'o) rb_value) \<times> MT) option" where
  "rand_bignum env real_of mt vmax =
     (let limit = (if \<not> big_sign vmax then vmax\<lparr>big_sign := True\<rparr> else vmax) in
      case rb_big_minus env limit (INT2FIX 1) of
        Inl e \<Rightarrow> Some (Inl e, mt)
      | Inr (RInt (VFix w)) \<Rightarrow>
          if sint (FIX2LONG w) = - 1 then rand_real real_of mt
          else map_option (\<lambda>(val, mt'). (Inr (RInt (rb_int2inum val)), mt')) (limited_rand mt (FIX2LONG w))
      | Inr (RInt (VBig l)) \<Rightarrow> map_option (\<lambda>(val, mt'). (Inr (RInt val), mt')) (limited_big_rand mt l)
      | Inr _ \<Rightarrow> None)"

definition rand_int ::
  "('f, 'o) rb_env \<Rightarrow> (u32 \<Rightarrow> u32 \<Rightarrow> 'f) \<Rightarrow> MT \<Rightarrow> rb_int \<Rightarrow> ((rb_error + ('f, 'o) rb_value) \<times> MT) option" where
  "rand_int env real_of mt v =
     (case v of VFix w \<Rightarrow> rand_long real_of mt (FIX2LONG w) | VBig b \<Rightarrow> rand_bignum env real_of mt b)"

text \<open>The switch of \<open>rb_f_rand\<close> over the class of the argument.\<close>

definition rand_dispatch ::
  "('f, 'o) rb_env \<Rightarrow> (u32 \<Rightarrow> u32 \<Rightarrow> 'f) \<Rightarrow> MT \<Rightarrow> ('f, 'o) rb_value \<Rightarrow> ((rb_error + ('f, 'o) rb_value) \<times> MT) option" where
  "rand_dispatch env real_of mt vmax =
     (case vmax of
        RFloat f \<Rightarrow>
          if dbl_le env f (dbl_of_long env 0x7fffffff) \<and> dbl_ge env f (dbl_of_long env 0x80000000)
          then rand_long real_of mt (dbl_to_long env f)
          else
            (case rb_dbl2big env (if dbl_lt env f (dbl_of_long env 0) then dbl_uminus env f else f) of
               Inl e \<Rightarrow> Some (Inl e, mt)
             | Inr (VBig b) \<Rightarrow> rand_bignum env real_of mt b
             | Inr (VFix _) \<Rightarrow> None)
      | RInt v \<Rightarrow> rand_int env real_of mt v
      | RNil \<Rightarrow> rand_long real_of mt 0
      | _ \<Rightarrow>
          (case rb_Integer env vmax of
             Inl e \<Rightarrow> Some (Inl e, mt)
           | Inr v \<Rightarrow> rand_int env real_of mt v))"

definition rb_f_rand ::
  "('f, 'o) rb_env \<Rightarrow> (u32 \<Rightarrow> u32 \<Rightarrow> 'f) \<Rightarrow> u32 list \<Rightarrow> ('f, 'o) rb_value list \<Rightarrow> Random \<Rightarrow>
    ((rb_error + ('f, 'o) rb_value) \<times> Random) option" where
  "rb_f_rand env real_of fill argv default_mt =
     (if 1 < length argv then Some (Inl ArgError, default_mt)
      else
        let vmax = (case argv of [] \<Rightarrow> RNil | v # _ \<Rightarrow> v);
            mt = (if genrand_initialized (rnd_mt default_mt) then rnd_mt default_mt
                  else seed_generator (rnd_mt default_mt) (seed_words (random_seed fill)))
        in map_option (\<lambda>(r, mt'). (r, default_mt\<lparr>rnd_mt := mt'\<rparr>)) (rand_dispatch env real_of mt vmax))"

end
