(* ===== verification/RandomRange.thy ===== *)
theory RandomRange
  imports RandomInt
begin

text \<open>
  What \<open>rand\<close> and \<open>srand\<close> promise: a random integer lies in the range asked for and every member of the range is hit
  by the same number of words; the loops end as soon as the generator delivers an acceptable word; the
  seed that the interpreter reports gives the same generator when it is set again.
\<close>

section \<open>The mask\<close>

lemma make_mask_smear: "make_mask x = smear x"
  by (simp add: make_mask_def smear_def)

lemma make_mask_0 [simp]: "make_mask 0 = 0"
  by (simp add: make_mask_def)

lemma make_mask_exp:
  assumes "x \<noteq> 0"
  shows "\<exists>k < 32. make_mask x = mask (Suc k) \<and> 2 ^ k \<le> unat x \<and> unat x < 2 ^ Suc k"
proof -
  have "0 < unat x" using assms by (simp add: unat_gt_0)
  then obtain k where k: "2 ^ k \<le> unat x" "unat x < 2 ^ Suc k"
    using ex_power_ivl1 [of 2 "unat x"] by auto
  with smear_mask [OF k] bit_top(3) [OF k] show ?thesis by (auto simp: make_mask_smear)
qed

lemma make_mask_eq_0 [simp]: "make_mask x = 0 \<longleftrightarrow> x = 0"
proof (cases "x = 0")
  case False
  from make_mask_exp [OF False] obtain k where "k < 32" "make_mask x = mask (Suc k)" by blast
  moreover from this have "bit (make_mask x) 0" by (simp add: bit_mask_iff)
  ultimately show ?thesis using False by force
qed simp

lemma unat_mask_eq: "k \<le> 32 \<Longrightarrow> unat (mask k :: u32) = 2 ^ k - 1"
  by (subst of_nat_mask_eq [where 'a = "32 word", symmetric], subst unsigned_of_nat, simp add: take_bit_of_mask)
    (simp add: mask_eq_exp_minus_1)

text \<open>The mask keeps every number up to the limit, and less than half of what it keeps is beyond the limit.\<close>

lemma make_mask_bounds: "unat x \<le> unat (make_mask x)" "unat (make_mask x) \<le> 2 * unat x"
proof -
  have "unat x \<le> unat (make_mask x) \<and> unat (make_mask x) \<le> 2 * unat x"
  proof (cases "x = 0")
    case False
    from make_mask_exp [OF False] obtain k where k: "k < 32" "make_mask x = mask (Suc k)" "2 ^ k \<le> unat x" "unat x < 2 ^ Suc k"
      by blast
    have "unat (make_mask x) = 2 ^ Suc k - 1" using k(1) by (simp add: k(2) unat_mask_eq)
    with k(3,4) show ?thesis using power_Suc [of "2 :: nat" k] by linarith
  qed simp
  then show "unat x \<le> unat (make_mask x)" "unat (make_mask x) \<le> 2 * unat x" by simp_all
qed

lemma and_mask_unat: "unat (w AND mask k) = unat (w :: u32) mod 2 ^ k"
  by (simp add: take_bit_eq_mask [symmetric] unsigned_take_bit_eq) (simp add: take_bit_eq_mod)

lemma masked_words_card:
  assumes "k \<le> 32" and "v < 2 ^ k"
  shows "card {w :: u32. unat w mod 2 ^ k = v} = 2 ^ (32 - k)"
proof -
  have pow: "(2 :: nat) ^ (32 - k) * 2 ^ k = 2 ^ 32"
    using assms(1) by (simp flip: power_add)
  have "bij_betw (\<lambda>w :: u32. unat w div 2 ^ k) {w. unat w mod 2 ^ k = v} {..<2 ^ (32 - k)}"
  proof (rule bij_betw_byWitness [where f' = "\<lambda>q. of_nat (q * 2 ^ k + v)"])
    have inv: "unat (of_nat (q * 2 ^ k + v) :: u32) = q * 2 ^ k + v" if "q < 2 ^ (32 - k)" for q
    proof -
      have "q * 2 ^ k + v < (q + 1) * 2 ^ k" using assms(2) by simp
      also have "\<dots> \<le> 2 ^ (32 - k) * 2 ^ k" using that by (intro mult_right_mono) simp_all
      finally show ?thesis using pow by (subst unsigned_of_nat) (simp add: take_bit_nat_eq_self)
    qed
    show "\<forall>w \<in> {w :: u32. unat w mod 2 ^ k = v}. of_nat (unat w div 2 ^ k * 2 ^ k + v) = w"
    proof
      fix w :: u32 assume "w \<in> {w. unat w mod 2 ^ k = v}"
      then have "unat w div 2 ^ k * 2 ^ k + v = unat w" using div_mult_mod_eq [of "unat w" "2 ^ k"] by simp
      then show "of_nat (unat w div 2 ^ k * 2 ^ k + v) = w" by simp
    qed
    show "\<forall>q \<in> {..<2 ^ (32 - k)}. unat (of_nat (q * 2 ^ k + v) :: u32) div 2 ^ k = q"
      using inv assms(2) by simp
    show "(\<lambda>w :: u32. unat w div 2 ^ k) ` {w. unat w mod 2 ^ k = v} \<subseteq> {..<2 ^ (32 - k)}"
    proof (intro image_subsetI, simp)
      fix w :: u32
      have "unat w < 2 ^ (32 - k) * 2 ^ k" using unsigned_less [of w] pow by simp
      then show "unat w div 2 ^ k < 2 ^ (32 - k)" by (simp add: less_mult_imp_div_less)
    qed
    show "(\<lambda>q. of_nat (q * 2 ^ k + v) :: u32) ` {..<2 ^ (32 - k)} \<subseteq> {w. unat w mod 2 ^ k = v}"
      using inv assms(2) by auto
  qed
  then show ?thesis by (simp add: bij_betw_same_card)
qed


text \<open>Each number up to the limit is the masked value of the same number of words.\<close>

lemma mask_unbiased:
  assumes "u \<le> limit" and "v \<le> limit"
  shows "card {w :: u32. w AND make_mask limit = u} = card {w. w AND make_mask limit = v}"
    and "0 < card {w. w AND make_mask limit = v}"
proof -
  have "\<exists>n > 0. \<forall>v \<le> limit. card {w :: u32. w AND make_mask limit = v} = n"
  proof (cases "limit = 0")
    case True
    then show ?thesis by (intro exI [of _ "card (UNIV :: u32 set)"]) (simp add: finite_UNIV_card_ge_0)
  next
    case False
    from make_mask_exp [OF False] obtain k where
      k: "k < 32" "make_mask limit = mask (Suc k)" "unat limit < 2 ^ Suc k" by blast
    have "card {w :: u32. w AND make_mask limit = v} = 2 ^ (32 - Suc k)" if "v \<le> limit" for v
    proof -
      have "(w AND make_mask limit = v) = (unat w mod 2 ^ Suc k = unat v)" for w
        using and_mask_unat [of w "Suc k"] k(2) by (metis word_unat_eq_iff)
      moreover have "unat v < 2 ^ Suc k" using that k(3) by (simp add: word_le_nat_alt)
      ultimately show ?thesis using masked_words_card [of "Suc k" "unat v"] k(1) by simp
    qed
    then show ?thesis by (intro exI [of _ "2 ^ (32 - Suc k)"]) simp
  qed
  with assms show "card {w :: u32. w AND make_mask limit = u} = card {w. w AND make_mask limit = v}"
    "0 < card {w. w AND make_mask limit = v}" by metis+
qed

section \<open>\<open>limited_rand\<close>\<close>

definition accepted :: "MT \<Rightarrow> u32 \<Rightarrow> nat \<Rightarrow> bool" where
  "accepted mt limit n \<longleftrightarrow> mt_out mt n AND make_mask limit \<le> limit"

lemma limited_rand_0: "limited_rand mt 0 = Some (0, mt)"
  by (subst limited_rand.simps) simp

lemma limited_rand_step:
  assumes "mt_ok mt" and "limit \<noteq> 0"
  shows "limited_rand mt limit =
    (if accepted mt limit 0 then Some (mt_out mt 0 AND make_mask limit, mt_source.after 1 mt)
     else limited_rand (mt_source.after 1 mt) limit)"
  using mt_source.draw_Some [OF assms(1)] assms(2)
  by (subst limited_rand.simps) (auto simp: accepted_def Let_def)

lemma accepted_after: "mt_ok mt \<Longrightarrow> accepted (mt_source.after n mt) limit k = accepted mt limit (n + k)"
  using mt_source.after_ok [of mt n] by (simp add: accepted_def)

text \<open>It returns the first word whose masked value is in range, and moves the generator just past it.\<close>

lemma limited_rand_first:
  assumes "mt_ok mt" and "limit \<noteq> 0" and "accepted mt limit n" and "\<forall>j < n. \<not> accepted mt limit j"
  shows "limited_rand mt limit = Some (mt_out mt n AND make_mask limit, mt_source.after (Suc n) mt)"
  using assms
proof (induction n arbitrary: mt)
  case 0
  then show ?case by (simp add: limited_rand_step)
next
  case (Suc n)
  define mt1 where "mt1 = mt_source.after 1 mt"
  have ok: "mt_ok mt1" and w: "mt_out mt1 n = mt_out mt (Suc n)"
    using mt_source.after_ok [OF Suc.prems(1), of 1] by (simp_all add: mt1_def)
  have acc: "accepted mt1 limit k = accepted mt limit (Suc k)" for k
    using accepted_after [OF Suc.prems(1), of 1 limit k] by (simp add: mt1_def)
  have "limited_rand mt limit = limited_rand mt1 limit"
    using limited_rand_step [OF Suc.prems(1,2)] Suc.prems(4) by (simp add: mt1_def)
  also have "\<dots> = Some (mt_out mt1 n AND make_mask limit, mt_source.after (Suc n) mt1)"
    by (rule Suc.IH [OF ok Suc.prems(2)]) (use Suc.prems(3,4) acc in auto)
  finally show ?case by (simp add: w) (simp add: mt1_def)
qed

lemma limited_rand_accepts:
  assumes "limited_rand mt limit = Some r"
  shows "mt_ok mt \<longrightarrow> limit = 0 \<or> (\<exists>n. accepted mt limit n)"
proof (rule limited_rand.raw_induct [OF _ assms])
  fix rec :: "MT \<Rightarrow> u32 \<Rightarrow> (u32 \<times> MT) option" and mt limit r
  assume IH: "\<And>mt limit r. rec mt limit = Some r \<Longrightarrow> mt_ok mt \<longrightarrow> limit = 0 \<or> (\<exists>n. accepted mt limit n)"
    and r: "(let msk = make_mask limit in if msk = 0 then Some (0, mt)
      else genrand_int32 mt \<bind> (\<lambda>(r, mt1). let val = r AND msk in
             if limit < val then rec mt1 limit else Some (val, mt1))) = Some r"
  show "mt_ok mt \<longrightarrow> limit = 0 \<or> (\<exists>n. accepted mt limit n)"
  proof
    assume ok: "mt_ok mt"
    show "limit = 0 \<or> (\<exists>n. accepted mt limit n)"
    proof (cases "limit = 0 \<or> accepted mt limit 0")
      case False
      then have "rec (mt_source.after 1 mt) limit = Some r"
        using r mt_source.draw_Some [OF ok] by (simp add: accepted_def not_le)
      from IH [OF this] show ?thesis
        using mt_source.after_ok [OF ok, of 1] accepted_after [OF ok, of 1] by auto
    qed auto
  qed
qed

lemma limited_rand_range:
  assumes ok: "mt_ok mt"
  shows "if limit = 0 \<or> (\<exists>n. accepted mt limit n)
    then \<exists>v mt'. limited_rand mt limit = Some (v, mt') \<and> v \<le> limit \<and> mt_ok mt'
    else limited_rand mt limit = None"
proof (cases "limit = 0 \<or> (\<exists>n. accepted mt limit n)")
  case True
  show ?thesis
  proof (cases "limit = 0")
    case False
    with True obtain m where m: "accepted mt limit m" by blast
    define n where "n = (LEAST n. accepted mt limit n)"
    have n: "accepted mt limit n" "\<forall>j < n. \<not> accepted mt limit j"
      unfolding n_def using LeastI [of "accepted mt limit", OF m] not_less_Least by blast+
    from limited_rand_first [OF ok False n] n(1) mt_source.after_ok [OF ok, of "Suc n"] True show ?thesis
      by (auto simp: accepted_def)
  qed (simp add: limited_rand_0 ok)
next
  case False
  with limited_rand_accepts [of mt limit] ok have "limited_rand mt limit = None"
    by (cases "limited_rand mt limit") auto
  with False show ?thesis by simp
qed

text \<open>For a limit that is a power of two less one, every word is accepted.\<close>

lemma accepted_mask:
  assumes "k \<le> 32"
  shows "accepted mt (mask k) n"
proof (cases k)
  case 0
  then show ?thesis by (simp add: accepted_def)
next
  case (Suc j)
  have "unat (mask (Suc j) :: u32) = 2 ^ Suc j - 1" using assms Suc by (intro unat_mask_eq) simp
  then have "2 ^ j \<le> unat (mask (Suc j) :: u32)" "unat (mask (Suc j) :: u32) < 2 ^ Suc j"
    using one_le_power [of "2 :: nat" j] by simp_all
  from smear_mask [OF this] have "make_mask (mask k) = mask k" by (simp add: make_mask_smear Suc)
  moreover have "mt_out mt n AND mask k \<le> mask k"
    using and_mask_unat [of "mt_out mt n" k] unat_mask_eq [OF assms] by (simp add: word_le_nat_alt less_Suc_eq_le [symmetric])
  ultimately show ?thesis by (simp add: accepted_def)
qed

section \<open>\<open>limited_big_rand\<close>\<close>

lemma bval_rev_le:
  assumes "length ds = length lims" and "uint r < uint lim \<or> r = lim \<and> bval (rev ds) \<le> bval (rev lims)"
  shows "bval (rev (r # ds)) \<le> bval (rev (lim # lims))"
proof -
  define p where "p = (2 :: int) ^ (32 * length lims)"
  have low: "bval (rev ds) < p" using bval_bound [of "rev ds"] assms(1) by (simp add: p_def)
  have val: "bval (rev (r # ds)) = bval (rev ds) + p * uint r" "bval (rev (lim # lims)) = bval (rev lims) + p * uint lim"
    using assms(1) by (simp_all add: bval_append p_def)
  show ?thesis
  proof (cases "uint r < uint lim")
    case True
    have "p * (uint r + 1) \<le> p * uint lim" using True by (intro mult_left_mono) (simp_all add: p_def)
    then have "p * uint r + p \<le> p * uint lim" by (simp add: algebra_simps)
    with low bval_nonneg [of "rev lims"] show ?thesis unfolding val by linarith
  next
    case False
    with assms(2) show ?thesis unfolding val by auto
  qed
qed

text \<open>A pass ends, and the digits it draws while it follows the limit stay below it.\<close>

lemma big_draw_range:
  "mt_ok mt \<Longrightarrow> \<exists>ds mt'. big_draw lims msk boundary mt = Some (ds, mt') \<and> mt_ok mt'
     \<and> (\<forall>ds'. ds = Some ds' \<longrightarrow> length ds' = length lims \<and> (boundary \<longrightarrow> bval (rev ds') \<le> bval (rev lims)))"
proof (induction lims arbitrary: msk boundary mt)
  case (Cons lim lims)
  define msk' where "msk' = (if msk \<noteq> 0 then 0xffffffff else make_mask lim)"
  show ?case
  proof (cases "msk' = 0")
    case True
    then have lim: "lim = 0" by (simp add: msk'_def split: if_splits)
    from Cons.IH [OF Cons.prems] obtain ds mt' where r: "big_draw lims msk' boundary mt = Some (ds, mt')" "mt_ok mt'"
      "\<And>ds'. ds = Some ds' \<Longrightarrow> length ds' = length lims \<and> (boundary \<longrightarrow> bval (rev ds') \<le> bval (rev lims))" by blast
    have "big_draw (lim # lims) msk boundary mt = Some (map_option ((#) 0) ds, mt')"
      using r(1) True by (simp flip: msk'_def)
    moreover have "length (0 # ds') = length (lim # lims) \<and> (boundary \<longrightarrow> bval (rev (0 # ds')) \<le> bval (rev (lim # lims)))"
      if "ds = Some ds'" for ds'
      using r(3) [OF that] bval_rev_le [of ds' lims 0 lim] lim by simp
    ultimately show ?thesis using r(2) by auto
  next
    case False
    define mt1 where "mt1 = mt_source.after 1 mt"
    define rnd where "rnd = mt_out mt 0 AND msk'"
    have mt1: "genrand_int32 mt = Some (mt_out mt 0, mt1)" "mt_ok mt1"
      using mt_source.draw_Some [OF Cons.prems] mt_source.after_ok [OF Cons.prems, of 1] by (simp_all add: mt1_def)
    show ?thesis
    proof (cases "boundary \<and> lim < rnd")
      case True
      then show ?thesis using False mt1 by (simp add: Let_def flip: msk'_def rnd_def)
    next
      case go: False
      define bnd where "bnd \<longleftrightarrow> boundary \<and> \<not> rnd < lim"
      from Cons.IH [OF mt1(2), of msk' bnd] obtain ds mt' where
        r: "big_draw lims msk' bnd mt1 = Some (ds, mt')" "mt_ok mt'"
          "\<And>ds'. ds = Some ds' \<Longrightarrow> length ds' = length lims \<and> (bnd \<longrightarrow> bval (rev ds') \<le> bval (rev lims))" by blast
      have "big_draw (lim # lims) msk boundary mt = Some (map_option ((#) rnd) ds, mt')"
        using r(1) False go mt1(1) by (auto simp: Let_def simp flip: msk'_def rnd_def bnd_def)
      moreover have "length (rnd # ds') = length (lim # lims) \<and> (boundary \<longrightarrow> bval (rev (rnd # ds')) \<le> bval (rev (lim # lims)))"
        if "ds = Some ds'" for ds'
        using r(3) [OF that] go bval_rev_le [of ds' lims rnd lim] linorder_less_linear [of rnd lim]
        by (auto simp: bnd_def word_less_def [symmetric])
      ultimately show ?thesis using r(2) by auto
    qed
  qed
qed simp

text \<open>The \<open>k\<close>-th pass starts from the generator that the passes before have left.\<close>

definition big_pass :: "rbignum \<Rightarrow> MT \<Rightarrow> u32 list option \<times> MT" where
  "big_pass limit mt = the (big_draw (rev (big_digits limit)) 0 True mt)"

definition nth_pass :: "rbignum \<Rightarrow> MT \<Rightarrow> nat \<Rightarrow> MT" where
  "nth_pass limit mt k = ((\<lambda>mt. snd (big_pass limit mt)) ^^ k) mt"

definition big_accepted :: "rbignum \<Rightarrow> MT \<Rightarrow> nat \<Rightarrow> bool" where
  "big_accepted limit mt k \<longleftrightarrow> fst (big_pass limit (nth_pass limit mt k)) \<noteq> None"

lemma big_pass_ok:
  assumes "mt_ok mt"
  shows "big_draw (rev (big_digits limit)) 0 True mt = Some (big_pass limit mt)" and "mt_ok (snd (big_pass limit mt))"
    and "fst (big_pass limit mt) = Some ds \<Longrightarrow> bval (rev ds) \<le> bval (big_digits limit)"
  using big_draw_range [OF assms, of "rev (big_digits limit)" 0 True] by (auto simp: big_pass_def)

lemma nth_pass_Suc: "nth_pass limit mt (Suc k) = nth_pass limit (snd (big_pass limit mt)) k"
  by (simp add: nth_pass_def funpow_Suc_right del: funpow.simps)

lemma limited_big_rand_step:
  assumes "mt_ok mt"
  shows "limited_big_rand mt limit =
    (case fst (big_pass limit mt) of
       None \<Rightarrow> limited_big_rand (snd (big_pass limit mt)) limit
     | Some ds \<Rightarrow> Some (rb_big_norm (VBig (mk_big True (rev ds))), snd (big_pass limit mt)))"
  using big_pass_ok(1) [OF assms, of limit] by (subst limited_big_rand.simps) (simp add: case_prod_unfold)

lemma limited_big_rand_returns:
  "mt_ok mt \<Longrightarrow> big_accepted limit mt k \<Longrightarrow> \<exists>r mt'. limited_big_rand mt limit = Some (r, mt') \<and> mt_ok mt'
     \<and> normal_int r \<and> 0 \<le> int_of r \<and> int_of r \<le> bval (big_digits limit)"
proof (induction k arbitrary: mt)
  case 0
  then obtain ds where ds: "fst (big_pass limit mt) = Some ds" by (auto simp: big_accepted_def nth_pass_def)
  with limited_big_rand_step [OF 0(1)] big_pass_ok(2,3) [OF 0(1)] show ?case
    by (auto simp: rb_big_norm_def bignorm_big big_int_def bval_nonneg)
next
  case (Suc k)
  show ?case
  proof (cases "fst (big_pass limit mt)")
    case None
    have "big_accepted limit (snd (big_pass limit mt)) k" using Suc.prems(2) by (simp add: big_accepted_def nth_pass_Suc)
    from Suc.IH [OF big_pass_ok(2) [OF Suc.prems(1)] this] None limited_big_rand_step [OF Suc.prems(1)] show ?thesis by simp
  next
    case (Some ds)
    with limited_big_rand_step [OF Suc.prems(1)] big_pass_ok(2,3) [OF Suc.prems(1)] show ?thesis
      by (auto simp: rb_big_norm_def bignorm_big big_int_def bval_nonneg)
  qed
qed

section \<open>\<open>rand\<close> of an integer\<close>

text \<open>The generator delivers, sooner or later, what is accepted for a limit.\<close>

definition acceptable :: "MT \<Rightarrow> int \<Rightarrow> bool" where
  "acceptable mt lim \<longleftrightarrow>
     (if FIXABLE lim then lim = 0 \<or> (\<exists>n. accepted mt (word_of_int lim) n)
      else \<forall>limit. normal_int (VBig limit) \<and> big_int limit = lim \<longrightarrow> (\<exists>k. big_accepted limit mt k))"

lemma limited_rand_int:
  assumes ok: "mt_ok mt" and acc: "acceptable mt lim" and lim: "0 \<le> lim" "FIXABLE lim"
  shows "\<exists>v mt'. limited_rand mt (word_of_int lim) = Some (v, mt') \<and> mt_ok mt'
    \<and> normal_int (rb_int2inum v) \<and> 0 \<le> int_of (rb_int2inum v) \<and> int_of (rb_int2inum v) \<le> lim"
proof -
  have l: "uint (word_of_int lim :: u32) = lim" using lim by (simp add: uint_word_of_int fixable_defs)
  have "(word_of_int lim :: u32) = 0 \<or> (\<exists>n. accepted mt (word_of_int lim) n)"
    using acc lim(2) by (auto simp: acceptable_def)
  with limited_rand_range [OF ok, of "word_of_int lim"] obtain v mt' where
    r: "limited_rand mt (word_of_int lim) = Some (v, mt')" "v \<le> word_of_int lim" "mt_ok mt'" by auto
  have "uint v \<le> lim" using r(2) l by (simp add: word_le_def)
  then have "sint v = uint v" using lim(2) u32_bounds [of v] by (simp add: sint_of_uint_u32 fixable_defs)
  with r \<open>uint v \<le> lim\<close> rb_int2inum_correct [of v] u32_bounds(1) [of v] show ?thesis by auto
qed

lemma rand_int_range:
  assumes ok: "mt_ok mt" and v: "normal_int v" "int_of v \<noteq> 0" and acc: "acceptable mt (\<bar>int_of v\<bar> - 1)"
  shows "\<exists>r mt'. rand_int env real_of mt v = Some (Inr (RInt r), mt') \<and> mt_ok mt'
    \<and> normal_int r \<and> 0 \<le> int_of r \<and> int_of r < \<bar>int_of v\<bar>"
proof (cases v)
  case (VFix w)
  define mx where "mx = FIX2LONG w"
  have i: "int_of v = sint mx" and fx: "FIXABLE (sint mx)" using v(1) by (auto simp: VFix mx_def FIX2LONG_LONG2FIX)
  define lim where "lim = \<bar>sint mx\<bar> - 1"
  have lim: "0 \<le> lim" "FIXABLE lim" using v(2) fx by (auto simp: i lim_def fixable_defs)
  have "(if sint mx < 0 then - mx else mx) - 1 = word_of_int lim"
    by (simp add: lim_def abs_if)
  then have "rand_int env real_of mt v
      = map_option (\<lambda>(val, mt'). (Inr (RInt (rb_int2inum val)), mt')) (limited_rand mt (word_of_int lim))"
    using v(2) i by (auto simp: VFix rand_int_def rand_long_def Let_def simp flip: mx_def)
  with limited_rand_int [OF ok _ lim] acc show ?thesis by (fastforce simp: i lim_def)
next
  case (VBig b)
  define limit where "limit = (if \<not> big_sign b then b\<lparr>big_sign := True\<rparr> else b)"
  define lim where "lim = \<bar>int_of v\<bar> - 1"
  have lim: "0 \<le> lim" using v(2) by (simp add: lim_def)
  have digits: "digits_ok (big_digits limit)" using v(1) by (auto simp: limit_def VBig)
  have val: "big_int limit = \<bar>int_of v\<bar>"
    using bval_nonneg [of "big_digits b"] by (auto simp: limit_def VBig big_int_def)
  have one: "normal_int (VFix (LONG2FIX 1))" "int_of (VFix (LONG2FIX 1)) = 1"
    using INT2FIX_normal [of 1] by (simp_all add: fixable_defs)
  from rb_big_minus_int [OF digits one(1), of env] obtain l where
    l: "rb_big_minus env limit (INT2FIX 1) = Inr (RInt l)" "normal_int l" "int_of l = lim"
    using one(2) val by (auto simp: is_int_value_def INT2FIX_def lim_def)
  show ?thesis
  proof (cases l)
    case (VFix w)
    have fl: "sint (FIX2LONG w) = lim" "FIXABLE lim" using l(2,3) by (auto simp: VFix FIX2LONG_LONG2FIX)
    then have w: "FIX2LONG w = word_of_int lim" by (simp add: fl(1) [symmetric])
    have "rand_int env real_of mt v
        = map_option (\<lambda>(val, mt'). (Inr (RInt (rb_int2inum val)), mt')) (limited_rand mt (word_of_int lim))"
      using l(1) fl(1) lim by (simp add: VBig rand_int_def rand_bignum_def VFix w flip: limit_def)
    with limited_rand_int [OF ok _ lim fl(2)] acc show ?thesis by (fastforce simp: lim_def)
  next
    case (VBig l')
    have nf: "\<not> FIXABLE lim" "big_int l' = lim" using l(2,3) by (auto simp: VBig)
    with acc l(2) obtain k where "big_accepted l' mt k" by (auto simp: acceptable_def lim_def VBig)
    from limited_big_rand_returns [OF ok this] obtain r mt' where
      r: "limited_big_rand mt l' = Some (r, mt')" "mt_ok mt'" "normal_int r" "0 \<le> int_of r" "int_of r \<le> bval (big_digits l')"
      by blast
    have "bval (big_digits l') = lim" using normal_big_sign(2) [of l'] l(2) nf(2) lim by (simp add: VBig)
    moreover have "rand_int env real_of mt v = Some (Inr (RInt r), mt')"
      using l(1) r(1) by (simp add: \<open>v = VBig b\<close> rand_int_def rand_bignum_def VBig flip: limit_def)
    ultimately show ?thesis using r(2-5) by (auto simp: lim_def)
  qed
qed

text \<open>\<open>rand(n)\<close> on an initialised generator.\<close>

lemma rb_f_rand_range:
  assumes ok: "mt_ok (rnd_mt R)" and v: "normal_int v" "int_of v \<noteq> 0" and acc: "acceptable (rnd_mt R) (\<bar>int_of v\<bar> - 1)"
  shows "\<exists>r R'. rb_f_rand env real_of fill [RInt v] R = Some (Inr (RInt r), R') \<and> mt_ok (rnd_mt R')
    \<and> normal_int r \<and> 0 \<le> int_of r \<and> int_of r < \<bar>int_of v\<bar>"
proof -
  have "genrand_initialized (rnd_mt R)" using ok by (simp add: mt_ok_def)
  with rand_int_range [OF ok v acc, of env real_of] show ?thesis
    by (auto simp: rb_f_rand_def rand_dispatch_def)
qed

lemma acceptable_exp:
  assumes "k \<le> 30"
  shows "acceptable mt (2 ^ k - 1)"
proof -
  have "(2 :: int) ^ k \<le> 2 ^ 30" using assms by (intro power_increasing) simp_all
  moreover have "(0 :: int) < 2 ^ k" by simp
  ultimately have "FIXABLE (2 ^ k - 1)" unfolding fixable_defs by linarith
  moreover have "(word_of_int (2 ^ k - 1) :: u32) = mask k" by (simp add: mask_eq_exp_minus_1)
  ultimately show ?thesis using accepted_mask [of k mt] assms by (auto simp: acceptable_def)
qed

section \<open>Seeds\<close>

lemma seed_len_full: "n = 0 \<or> n = 1 \<or> buf ! (n - 1) \<noteq> 0 \<Longrightarrow> seed_len buf n = n"
  by (cases n) auto

text \<open>Only the first \<open>key_length\<close> words of the key are read, and nothing of the old generator.\<close>

lemma key_loop_cong:
  "\<forall>j < key_length. key ! j = key' ! j \<Longrightarrow> j < key_length \<Longrightarrow> key_loop key key_length st i j k = key_loop key' key_length st i j k"
  by (induction key key_length st i j k rule: key_loop.induct) (auto simp: Let_def split: prod.split)

lemma init_by_array_cong:
  assumes "\<forall>j < key_length. key ! j = key' ! j" and "0 < key_length"
  shows "init_by_array mt key key_length = init_by_array mt' key' key_length"
  using key_loop_cong [OF assms(1), of 0] assms(2)
  by (cases mt; cases mt') (simp add: init_by_array_def init_genrand_def Let_def split: prod.split)

lemma make_seed_digits:
  assumes len: "length fill = DEFAULT_SEED_CNT"
  shows "make_seed_value fill = VBig (mk_big True (if fill ! 3 \<le> 1 then fill @ [1] else fill))"
proof -
  have l4: "length fill = 4" using len by (simp add: DEFAULT_SEED_CNT_def)
  then have "fill \<noteq> []" by auto
  then have ne: "fill \<noteq> []" "last fill = fill ! 3" by (simp_all add: last_conv_nth l4)
  show ?thesis
  proof (cases "fill ! 3 \<le> 1")
    case True
    have "digits_ok (fill @ [1])" using l4 by (simp add: digits_ok_def)
    with bigfixize_long [of "mk_big True (fill @ [1])"] l4 True show ?thesis
      by (simp add: make_seed_value_def DEFAULT_SEED_CNT_def rb_big_norm_def bignorm_def bigtrunc_def trunc_digits.simps [of "fill @ [1]"])
  next
    case False
    then have nz: "fill ! 3 \<noteq> 0" by auto
    have "digits_ok fill" using l4 nz ne by (simp add: digits_ok_def)
    moreover have "trunc_digits (fill @ [0]) = fill"
      using l4 nz ne by (simp add: trunc_digits.simps [of "fill @ [0]"] trunc_digits.simps [of fill])
    ultimately show ?thesis using bigfixize_long [of "mk_big True fill"] l4 False
      by (simp add: make_seed_value_def DEFAULT_SEED_CNT_def rb_big_norm_def bignorm_def bigtrunc_def)
  qed
qed

text \<open>The guard digit keeps all four words: setting the reported seed gives the generator it was made for.\<close>

lemma seed_roundtrip_generator:
  assumes len: "length fill = DEFAULT_SEED_CNT"
  shows "seed_generator mt (seed_words (make_seed_value fill)) = init_by_array mt' fill DEFAULT_SEED_CNT"
proof -
  define buf where "buf = (if fill ! 3 \<le> 1 then fill @ [1] else fill)"
  have l4: "length fill = 4" using len by (simp add: DEFAULT_SEED_CNT_def)
  have words: "seed_words (make_seed_value fill) = buf"
    using make_seed_digits [OF len] l4 by (auto simp: seed_words_def buf_def)
  have "seed_len buf (length buf) = length buf"
    by (rule seed_len_full) (use l4 in \<open>auto simp: buf_def nth_append\<close>)
  then have "seed_generator mt buf = init_by_array mt buf 4"
    using l4 by (auto simp: seed_generator_def Let_def buf_def nth_append)
  also have "\<dots> = init_by_array mt' fill 4"
    by (rule init_by_array_cong) (use l4 in \<open>auto simp: buf_def nth_append\<close>)
  finally show ?thesis by (simp add: words DEFAULT_SEED_CNT_def)
qed

lemma seed_generator_ok [simp]: "mt_ok (seed_generator mt buf)"
  by (simp add: seed_generator_def Let_def init_by_array_ok)

text \<open>\<open>srand(0)\<close> does not ask the system for a seed: the generator is the one of the seed 0.\<close>

lemma srand_zero_fixed:
  "safe_level < 4 \<Longrightarrow> rb_f_srand env safe_level fill [RInt (VFix (LONG2FIX 0))] R =
     Inr (seed_value R, R\<lparr>rnd_mt := init_genrand (rnd_mt R) 0, seed_value := VFix (LONG2FIX 0)\<rparr>)"
proof -
  have "FIX2LONG (LONG2FIX 0) = 0" using FIX2LONG_LONG2FIX [of 0] by (simp add: fixable_defs)
  then show "safe_level < 4 \<Longrightarrow> ?thesis"
    by (simp add: rb_f_srand_def rand_init_def seed_words_def seed_generator_def Let_def)
qed

section \<open>After a fork\<close>

text \<open>
  \<open>rb_thread_atfork\<close> resets the seed.  \<open>rand\<close> notices and seeds the generator again; \<open>rb_genrand_int32\<close> and
  \<open>rb_genrand_real\<close>, which \<open>Array#shuffle\<close> and \<open>String#hash\<close> call, read through the null pointer unless the next
  block was due anyway.
\<close>

lemma genrand_after_reset:
  "1 < mt_left (rnd_mt R) \<Longrightarrow> rb_genrand_int32 (rb_reset_random_seed R) = None"
  "1 < mt_left (rnd_mt R) \<Longrightarrow> rb_genrand_real real_of (rb_reset_random_seed R) = None"
  by (simp_all add: rb_genrand_int32_def rb_genrand_real_def genrand_real_def rb_reset_random_seed_def uninit_genrand_def
      genrand_uninitialized)


end
