(* ===== verification/PackCodec.thy ===== *)
theory PackCodec
  imports Prelude "HOL-Library.Monad_Syntax"
begin

text \<open>
  The text encodings of \<open>lib/ruby/pack.c\<close>: uuencode (directive \<open>u\<close>), base64 (\<open>m\<close>) and quoted-printable (\<open>M\<close>).  The encoders
  collect their output in a local buffer of fixed size and the decoders in a string whose size is computed beforehand;
  a write beyond either is the result \<open>None\<close>.  A \<open>char *\<close> that runs towards \<open>send\<close> is the list of the bytes from it on.
\<close>

section \<open>Definitions\<close>

text \<open>Writing \<open>cs\<close> at the end of what a buffer of \<open>room\<close> bytes holds.\<close>

definition put_all :: "nat \<Rightarrow> u8 list \<Rightarrow> u8 list \<Rightarrow> u8 list option" where
  "put_all room buf cs = (if length buf + length cs \<le> room then Some (buf @ cs) else None)"

definition uu_table :: "u8 list" where
  "uu_table = 0x60 # map of_nat [0x21..<0x60]"

definition b64_table :: "u8 list" where
  "b64_table = map of_char ''ABCDEFGHIJKLMNOPQRSTUVWXYZabcdefghijklmnopqrstuvwxyz0123456789+/''"

definition hex_table :: "u8 list" where
  "hex_table = map of_char ''0123456789ABCDEF''"

subsection \<open>Encoders\<close>

text \<open>The four characters of three bytes.\<close>

definition enc_group :: "u8 list \<Rightarrow> u8 \<Rightarrow> u8 \<Rightarrow> u8 \<Rightarrow> u8 list" where
  "enc_group tbl a b c =
     [tbl ! unat (0x3f AND drop_bit 2 a),
      tbl ! unat (0x3f AND ((push_bit 4 a AND 0x30) OR (drop_bit 4 b AND 0x0f))),
      tbl ! unat (0x3f AND ((push_bit 2 b AND 0x3c) OR (drop_bit 6 c AND 0x03))),
      tbl ! unat (0x3f AND c)]"

text \<open>\<open>encodes\<close>: the inner loop fills the buffer while four bytes are free, the outer loop empties it.\<close>

fun encodes_inner :: "u8 list \<Rightarrow> u8 list \<Rightarrow> u8 list \<Rightarrow> u8 list \<times> u8 list" where
  "encodes_inner tbl (a # b # c # s) buf =
     (if 4 \<le> 4096 - length buf then encodes_inner tbl s (buf @ enc_group tbl a b c) else (a # b # c # s, buf))"
| "encodes_inner tbl s buf = (s, buf)"

partial_function (option) encodes_outer ::
  "u8 list \<Rightarrow> u8 list \<Rightarrow> u8 list \<Rightarrow> u8 list \<Rightarrow> (u8 list \<times> u8 list \<times> u8 list) option" where
  "encodes_outer tbl s str buf =
     (if length s < 3 then Some (s, str, buf)
      else
        (let (s', buf') = encodes_inner tbl s buf in
         if 4096 - length buf' < 4 then encodes_outer tbl s' (str @ buf') []
         else encodes_outer tbl s' str buf'))"

definition encodes :: "u8 list \<Rightarrow> u8 list \<Rightarrow> char \<Rightarrow> bool \<Rightarrow> u8 list option" where
  "encodes str s type tail_lf =
     (let tbl = (if type = CHR ''u'' then uu_table else b64_table);
          padding = (if type = CHR ''u'' then 0x60 else 0x3d) in
      do {
        (s', str', buf) \<leftarrow> encodes_outer tbl s str (if type = CHR ''u'' then [of_nat (length s) + 0x20] else []);
        buf \<leftarrow> put_all 4096 buf
          (case s' of
             [a, b] \<Rightarrow> take 3 (enc_group tbl a b 0) @ [padding]
           | [a] \<Rightarrow> take 2 (enc_group tbl a 0 0) @ [padding, padding]
           | _ \<Rightarrow> []);
        buf \<leftarrow> put_all 4096 buf (if tail_lf then [10] else []);
        Some (str' @ buf)
      })"

text \<open>The directives \<open>u\<close> and \<open>m\<close> of \<open>pack_pack\<close>, with the count \<open>len\<close>.\<close>

partial_function (option) encode_lines :: "u8 list \<Rightarrow> u8 list \<Rightarrow> nat \<Rightarrow> char \<Rightarrow> u8 list option" where
  "encode_lines res s len type =
     (if s = [] then Some res
      else do { res \<leftarrow> encodes res (take len s) type True; encode_lines res (drop len s) len type })"

definition pack_encoded :: "u8 list \<Rightarrow> u8 list \<Rightarrow> int \<Rightarrow> char \<Rightarrow> u8 list option" where
  "pack_encoded res s len type =
     (if len = 0 \<and> type = CHR ''m'' then encodes res s type False
      else encode_lines res s (nat (if len \<le> 2 then 45 else len div 3 * 3)) type)"

text \<open>\<open>qpencode\<close>: \<open>n\<close> is the length of the current line, which never exceeds \<open>len + 3\<close>, and \<open>prev\<close> is \<open>None\<close> for \<open>EOF\<close>.\<close>

definition qp_char :: "u8 \<Rightarrow> u8 list \<Rightarrow> int \<Rightarrow> u8 option \<Rightarrow> (u8 list \<times> int \<times> u8 option) option" where
  "qp_char c buf n prev =
     (if 126 < c \<or> c < 32 \<and> c \<noteq> 10 \<and> c \<noteq> 9 \<or> c = 0x3d then
        do { buf \<leftarrow> put_all 1024 buf [0x3d, hex_table ! unat (drop_bit 4 c), hex_table ! unat (c AND 0x0f)];
             Some (buf, n + 3, None) }
      else if c = 10 then
        do { buf \<leftarrow> put_all 1024 buf (if prev = Some 32 \<or> prev = Some 9 then [0x3d, c, c] else [c]);
             Some (buf, 0, Some c) }
      else do { buf \<leftarrow> put_all 1024 buf [c]; Some (buf, n + 1, Some c) })"

definition qp_break :: "int \<Rightarrow> u8 list \<Rightarrow> int \<Rightarrow> u8 option \<Rightarrow> (u8 list \<times> int \<times> u8 option) option" where
  "qp_break len buf n prev =
     (if len < n then do { buf \<leftarrow> put_all 1024 buf [0x3d, 10]; Some (buf, 0, Some 10) } else Some (buf, n, prev))"

fun qp_loop :: "int \<Rightarrow> u8 list \<Rightarrow> u8 list \<Rightarrow> u8 list \<Rightarrow> int \<Rightarrow> u8 option \<Rightarrow> (u8 list \<times> u8 list \<times> int) option" where
  "qp_loop len [] str buf n prev = Some (str, buf, n)"
| "qp_loop len (c # s) str buf n prev =
     do {
       (buf, n, prev) \<leftarrow> qp_char c buf n prev;
       (buf, n, prev) \<leftarrow> qp_break len buf n prev;
       if 1024 - 5 < length buf then qp_loop len s (str @ buf) [] n prev else qp_loop len s str buf n prev
     }"

definition qpencode :: "u8 list \<Rightarrow> u8 list \<Rightarrow> int \<Rightarrow> u8 list option" where
  "qpencode str s len =
     do {
       (str, buf, n) \<leftarrow> qp_loop len s str [] 0 None;
       buf \<leftarrow> put_all 1024 buf (if 0 < n then [0x3d, 10] else []);
       Some (str @ buf)
     }"

definition pack_M :: "u8 list \<Rightarrow> u8 list \<Rightarrow> int \<Rightarrow> u8 list option" where
  "pack_M res s len = qpencode res s (if len \<le> 1 then 72 else len)"

subsection \<open>Decoders\<close>

text \<open>\<open>(send - s)*3/4\<close>, computed in a \<open>long\<close>; \<open>rb_str_new\<close> raises \<open>ArgumentError\<close> for a negative size.\<close>

definition decode_room :: "int \<Rightarrow> int" where
  "decode_room left = (let x = sint (word_of_int left * 3 :: u32) in if x < 0 then - (- x div 4) else x div 4)"

text \<open>Directive \<open>u\<close>.  A character below the blank ends the data of a line and counts as zero.\<close>

definition uu_next :: "u8 list \<Rightarrow> u8 \<times> u8 list" where
  "uu_next s = (case s of [] \<Rightarrow> (0, []) | c # s' \<Rightarrow> if 0x20 \<le> c then ((c - 0x20) AND 0x3f, s') else (0, s))"

text \<open>The three bytes \<open>hunk\<close> of four sextets.\<close>

definition hunk :: "u8 \<Rightarrow> u8 \<Rightarrow> u8 \<Rightarrow> u8 \<Rightarrow> u8 list" where
  "hunk a b c d = [push_bit 2 a OR drop_bit 4 b, push_bit 4 b OR drop_bit 2 c, push_bit 6 c OR d]"

function uu_line :: "nat \<Rightarrow> nat \<Rightarrow> u8 list \<Rightarrow> u8 list \<Rightarrow> (u8 list \<times> u8 list) option" where
  "uu_line room len s out =
     (if len = 0 then Some (s, out)
      else
        (let mlen = (if 3 < len then 3 else len);
             (a, s) = uu_next s; (b, s) = uu_next s; (c, s) = uu_next s; (d, s) = uu_next s in
         do { out \<leftarrow> put_all room out (take mlen (hunk a b c d)); uu_line room (len - mlen) s out }))"
  by pat_completeness auto
termination by (relation "measure (\<lambda>(room, len, s, out). len)") (auto split: if_splits)

text \<open>The end of a line.  The flag says that \<open>s += 2\<close> went one byte beyond \<open>send\<close>.\<close>

definition uu_eol :: "u8 list \<Rightarrow> u8 list \<times> bool" where
  "uu_eol s =
     (let s = (case s of c # s' \<Rightarrow> if c = 13 then s' else s | [] \<Rightarrow> s) in
      case s of
        [] \<Rightarrow> ([], False)
      | c # s' \<Rightarrow>
          if c = 10 then (s', False)
          else (case s' of [] \<Rightarrow> ([], True) | c' # s'' \<Rightarrow> if c' = 10 then (s'', False) else (s, False)))"

partial_function (option) uu_lines ::
  "nat \<Rightarrow> u8 list \<Rightarrow> nat \<Rightarrow> u8 list \<Rightarrow> (u8 list \<times> bool \<times> nat \<times> u8 list) option" where
  "uu_lines room s written out =
     (case s of
        [] \<Rightarrow> Some (s, False, written, out)
      | c # s' \<Rightarrow>
          if \<not> (0x20 < c \<and> c < 0x61) then Some (s, False, written, out)
          else
            (let len = unat ((c - 0x20) AND 0x3f);
                 len' = (if room < written + len then len - (written + len - room) else len);
                 written' = (if room < written + len then room else written + len) in
             do {
               (s, out) \<leftarrow> uu_line room len' s' out;
               let (s, past) = uu_eol s;
               if past then Some (s, True, written', out) else uu_lines room s written' out
             }))"

text \<open>The result has \<open>written\<close> bytes by \<open>rb_str_set_len\<close>, which must be the bytes written.\<close>

definition unpack_u :: "u8 list \<Rightarrow> (rb_error + u8 list \<times> bool \<times> u8 list) option" where
  "unpack_u s =
     (let room = decode_room (int (length s)) in
      if room < 0 then Some (Inl ArgError)
      else
        do {
          (s, past, written, out) \<leftarrow> uu_lines (nat room) s 0 [];
          if written = length out then Some (Inr (s, past, out)) else None
        })"

text \<open>Directive \<open>m\<close>.  \<open>b64_xtable\<close> is filled from \<open>b64_table\<close>; \<open>None\<close> is its entry -1.\<close>

definition b64_xtable :: "u8 \<Rightarrow> u8 option" where
  "b64_xtable = fold (\<lambda>i t. t(b64_table ! i \<mapsto> of_nat i)) [0..<64] Map.empty"

fun unpack_m_strict :: "nat \<Rightarrow> u8 list \<Rightarrow> u8 list \<Rightarrow> (rb_error + u8 list \<times> u8 list) option" where
  "unpack_m_strict room [] out = Some (Inr ([], out))"
| "unpack_m_strict room [x] out = Some (Inl ArgError)"
| "unpack_m_strict room [x, y] out = Some (Inl ArgError)"
| "unpack_m_strict room (x # y # z # s) out =
     (case (b64_xtable x, b64_xtable y) of
        (Some a, Some b) \<Rightarrow>
          if z = 0x3d then
            (if s = [0x3d] then
               do { out \<leftarrow> put_all room out [push_bit 2 a OR drop_bit 4 b];
                    Some (if b AND 0x0f \<noteq> 0 then Inl ArgError else Inr (z # s, out)) }
             else Some (Inl ArgError))
          else
            (case (b64_xtable z, s) of
               (Some c, w # s') \<Rightarrow>
                 if w = 0x3d \<and> s' = [] then
                   do { out \<leftarrow> put_all room out [push_bit 2 a OR drop_bit 4 b, push_bit 4 b OR drop_bit 2 c];
                        Some (if c AND 0x03 \<noteq> 0 then Inl ArgError else Inr (s, out)) }
                 else
                   (case b64_xtable w of
                      None \<Rightarrow> Some (Inl ArgError)
                    | Some d \<Rightarrow> do { out \<leftarrow> put_all room out (hunk a b c d); unpack_m_strict room s' out })
             | _ \<Rightarrow> Some (Inl ArgError))
      | _ \<Rightarrow> Some (Inl ArgError))"

text \<open>Otherwise characters outside the alphabet are skipped; the third and fourth of a group may be \<open>=\<close>.\<close>

definition b64_skip :: "u8 list \<Rightarrow> u8 list" where
  "b64_skip = dropWhile (\<lambda>c. b64_xtable c = None)"

definition b64_skip_pad :: "u8 list \<Rightarrow> u8 list" where
  "b64_skip_pad = dropWhile (\<lambda>c. b64_xtable c = None \<and> c \<noteq> 0x3d)"

partial_function (option) unpack_m_loop :: "nat \<Rightarrow> u8 list \<Rightarrow> u8 list \<Rightarrow> (u8 list \<times> u8 list) option" where
  "unpack_m_loop room s out =
     (case b64_skip s of [] \<Rightarrow> Some ([], out)
      | x # s \<Rightarrow> (case b64_skip s of [] \<Rightarrow> Some ([], out)
      | y # s \<Rightarrow>
         (let a = the (b64_xtable x); b = the (b64_xtable y) in
          case b64_skip_pad s of [] \<Rightarrow> Some ([], out)
          | z # s \<Rightarrow>
              if z = 0x3d then do { out \<leftarrow> put_all room out [push_bit 2 a OR drop_bit 4 b]; Some (z # s, out) }
              else
                (let c = the (b64_xtable z) in
                 case b64_skip_pad s of [] \<Rightarrow> Some ([], out)
                 | w # s \<Rightarrow>
                     if w = 0x3d then
                       do { out \<leftarrow> put_all room out [push_bit 2 a OR drop_bit 4 b, push_bit 4 b OR drop_bit 2 c];
                            Some (w # s, out) }
                     else
                       do { out \<leftarrow> put_all room out (hunk a b c (the (b64_xtable w))); unpack_m_loop room s out }))))"

definition unpack_m :: "int \<Rightarrow> u8 list \<Rightarrow> (rb_error + u8 list \<times> u8 list) option" where
  "unpack_m len s =
     (let room = decode_room (int (length s)) in
      if room < 0 then Some (Inl ArgError)
      else if len = 0 then unpack_m_strict (nat room) s []
      else map_option Inr (unpack_m_loop (nat room) s []))"

text \<open>Directive \<open>M\<close>.\<close>

definition hex2num :: "u8 \<Rightarrow> u8 option" where
  "hex2num c =
     (if 0x30 \<le> c \<and> c \<le> 0x39 then Some (c - 0x30)
      else if 0x61 \<le> c \<and> c \<le> 0x66 then Some (c - 0x61 + 10)
      else if 0x41 \<le> c \<and> c \<le> 0x46 then Some (c - 0x41 + 10)
      else None)"

definition qp_skip_cr :: "u8 list \<Rightarrow> u8 list" where
  "qp_skip_cr s = (case s of c # c' # s' \<Rightarrow> if c = 13 \<and> c' = 10 then c' # s' else s | _ \<Rightarrow> s)"

partial_function (option) unpack_M_loop :: "nat \<Rightarrow> u8 list \<Rightarrow> u8 list \<Rightarrow> (u8 list \<times> u8 list) option" where
  "unpack_M_loop room s out =
     (case s of
        [] \<Rightarrow> Some ([], out)
      | c # s \<Rightarrow>
          if c \<noteq> 0x3d then do { out \<leftarrow> put_all room out [c]; unpack_M_loop room s out }
          else
            (case qp_skip_cr s of
               [] \<Rightarrow> Some ([], out)
             | x # s \<Rightarrow>
                 if x = 10 then unpack_M_loop room s out
                 else
                   (case hex2num x of
                      None \<Rightarrow> Some (x # s, out)
                    | Some c1 \<Rightarrow>
                        (case s of
                           [] \<Rightarrow> Some ([], out)
                         | y # s \<Rightarrow>
                             (case hex2num y of
                                None \<Rightarrow> Some (y # s, out)
                              | Some c2 \<Rightarrow>
                                  do { out \<leftarrow> put_all room out [push_bit 4 c1 OR c2]; unpack_M_loop room s out })))))"

definition unpack_M :: "u8 list \<Rightarrow> (u8 list \<times> u8 list) option" where
  "unpack_M s = unpack_M_loop (length s) s []"

declare encodes_outer.simps [code] encode_lines.simps [code] uu_lines.simps [code] unpack_m_loop.simps [code]
  unpack_M_loop.simps [code]

end
