(* ===== verification/PackText.thy ===== *)
theory PackText
  imports PackCodec
begin

text \<open>
  The text encodings of \<open>lib/ruby/pack.c\<close>: what the encoders write, when the buffer of \<open>encodes\<close> overflows, and that the
  decoders invert them.  \<open>groups\<close> is the encoding of a string in groups of four characters.
\<close>

section \<open>Groups of four characters\<close>

fun groups :: "u8 list \<Rightarrow> u8 \<Rightarrow> u8 list \<Rightarrow> u8 list" where
  "groups tbl pad (a # b # c # s) = enc_group tbl a b c @ groups tbl pad s"
| "groups tbl pad [a, b] = take 3 (enc_group tbl a b 0) @ [pad]"
| "groups tbl pad [a] = take 2 (enc_group tbl a 0 0) @ [pad, pad]"
| "groups tbl pad [] = []"

lemma length_enc_group [simp]: "length (enc_group tbl a b c) = 4"
  by (simp add: enc_group_def)

lemma div3_Suc3 [simp]: "(3 + n) div 3 = Suc (n div 3)" "(5 + n) div 3 = Suc ((2 + n) div 3)" for n :: nat
  by simp_all

lemma length_groups: "length (groups tbl pad s) = 4 * ((2 + length s) div 3)"
  by (induction tbl pad s rule: groups.induct) (simp_all add: enc_group_def del: Suc_eq_plus1 flip: numeral_2_eq_2)

lemma groups_append: "length s mod 3 = 0 \<Longrightarrow> groups tbl pad (s @ t) = groups tbl pad s @ groups tbl pad t"
  by (induction tbl pad s rule: groups.induct) auto

section \<open>The buffer of encodes\<close>

text \<open>The inner loop moves \<open>k\<close> groups into the buffer, as many as there are and as fit.\<close>

lemma encodes_inner_groups:
  assumes "k = min (length s div 3) ((4096 - length buf) div 4)" and "encodes_inner tbl s buf = (s', buf')"
  shows "length s = length s' + 3 * k \<and> length buf' = length buf + 4 * k \<and> buf @ groups tbl pad s = buf' @ groups tbl pad s'"
  using assms
proof (induction tbl s buf arbitrary: k rule: encodes_inner.induct)
  case (1 tbl a b c s buf)
  show ?case
  proof (cases "4 \<le> 4096 - length buf")
    case True
    define k' where "k' = min (length s div 3) ((4096 - length (buf @ enc_group tbl a b c)) div 4)"
    have "(4096 - length buf) div 4 = Suc ((4096 - (length buf + 4)) div 4)" using True by simp
    moreover have "length (a # b # c # s) div 3 = Suc (length s div 3)" by simp
    ultimately have k: "k = Suc k'"
      using "1.prems"(1) unfolding k'_def by (simp only: min_Suc_Suc length_append length_enc_group)
    have "encodes_inner tbl s (buf @ enc_group tbl a b c) = (s', buf')" using "1.prems"(2) True by simp
    from "1.IH" [OF True k'_def this]
    have "length s = length s' + 3 * k'" "length buf' = length buf + 4 + 4 * k'"
      "(buf @ enc_group tbl a b c) @ groups tbl pad s = buf' @ groups tbl pad s'" by simp_all
    then show ?thesis unfolding k by simp
  qed (use "1.prems" in simp)
qed auto

text \<open>
  How many bytes are in the buffer when the loops have read \<open>k\<close> groups, having started with \<open>i\<close> bytes: it is emptied
  when fewer than four are free.
\<close>

definition enc_fill :: "nat \<Rightarrow> nat \<Rightarrow> nat" where
  "enc_fill i k = (let g = (4096 - i) div 4 in if k < g then i + 4 * k else 4 * ((k - g) mod 1024))"

lemma enc_fill_le: "enc_fill i k \<le> 4092"
proof -
  have "4 * ((k - (4096 - i) div 4) mod 1024) \<le> 4 * 1023"
    by (intro mult_le_mono2) (use mod_less_divisor [of 1024 "k - (4096 - i) div 4"] in simp)
  moreover have "i + 4 * k \<le> 4092" if "k < (4096 - i) div 4" using that by linarith
  ultimately show ?thesis by (auto simp: enc_fill_def Let_def)
qed

lemma enc_fill_0: "enc_fill 0 k = 4 * (k mod 1024)"
  by (simp add: enc_fill_def le_mod_geq)

lemma encodes_outer_room:
  "length buf \<le> 4092 \<Longrightarrow>
    \<exists>s' str' buf'. encodes_outer tbl s str buf = Some (s', str', buf') \<and> length s' = length s mod 3
      \<and> length buf' = enc_fill (length buf) (length s div 3)
      \<and> str @ buf @ groups tbl pad s = str' @ buf' @ groups tbl pad s'"
proof (induction s arbitrary: str buf rule: length_induct)
  case (1 s)
  show ?case
  proof (cases "length s < 3")
    case True
    moreover have "0 < (4096 - length buf) div 4" using "1.prems" by (simp add: div_greater_zero_iff)
    ultimately show ?thesis by (subst encodes_outer.simps) (simp add: enc_fill_def)
  next
    case False
    define g where "g = (4096 - length buf) div 4"
    define k where "k = min (length s div 3) g"
    obtain s1 buf1 where inner: "encodes_inner tbl s buf = (s1, buf1)" by (cases "encodes_inner tbl s buf")
    from encodes_inner_groups [OF k_def [unfolded g_def] inner, where pad = pad] have
      i: "length s = length s1 + 3 * k" "length buf1 = length buf + 4 * k" "buf @ groups tbl pad s = buf1 @ groups tbl pad s1"
      by simp_all
    have "0 < g" using "1.prems" by (simp add: g_def div_greater_zero_iff)
    with False have k: "0 < k" by (simp add: k_def div_greater_zero_iff)
    then have less: "length s1 < length s" using i(1) by linarith
    have m: "length s1 mod 3 = length s mod 3" "length s1 div 3 = length s div 3 - k" using i(1) by simp_all
    show ?thesis
    proof (cases "4096 - length buf1 < 4")
      case True
      have kg: "k = g"
        using True i(2) "1.prems" unfolding k_def g_def by linarith
      from "1.IH" [rule_format, OF less, of "[]" "str @ buf1"] obtain s2 str2 buf2 where
        r: "encodes_outer tbl s1 (str @ buf1) [] = Some (s2, str2, buf2)" "length s2 = length s1 mod 3"
          "length buf2 = enc_fill 0 (length s1 div 3)" "(str @ buf1) @ groups tbl pad s1 = str2 @ buf2 @ groups tbl pad s2" by auto
      have "enc_fill (length buf) (length s div 3) = enc_fill 0 (length s1 div 3)"
        using kg by (simp add: enc_fill_0 m(2)) (simp add: enc_fill_def Let_def k_def min_def g_def split: if_splits)
      with r i(3) m(1) True False inner show ?thesis by (subst encodes_outer.simps) simp
    next
      case False2: False
      have kl: "k = length s div 3" using False2 i(2) unfolding k_def g_def by linarith
      then have "length s1 < 3" using m(2) by (simp add: div_eq_0_iff)
      moreover have "k < g" using False2 i(2) unfolding g_def by linarith
      moreover from \<open>k < g\<close> have "enc_fill (length buf) (length s div 3) = length buf1" using i(2) by (simp add: enc_fill_def kl g_def)
      ultimately show ?thesis using False False2 inner i(3) m(1)
        by (subst encodes_outer.simps) (simp, subst encodes_outer.simps, simp)
    qed
  qed
qed

text \<open>
  The number of groups after which the rest of three bytes and the newline do not fit together.
\<close>

definition uu_head :: "char \<Rightarrow> nat \<Rightarrow> u8 list" where
  "uu_head type n = (if type = CHR ''u'' then [of_nat n + 0x20] else [])"

definition enc_table :: "char \<Rightarrow> u8 list" where
  "enc_table type = (if type = CHR ''u'' then uu_table else b64_table)"

definition enc_pad :: "char \<Rightarrow> u8" where
  "enc_pad type = (if type = CHR ''u'' then 0x60 else 0x3d)"

definition overruns :: "char \<Rightarrow> nat \<Rightarrow> bool" where
  "overruns type n \<longleftrightarrow> n mod 3 \<noteq> 0 \<and> enc_fill (if type = CHR ''u'' then 1 else 0) (n div 3) = 4092"

lemma groups_rest:
  "length s < 3 \<Longrightarrow> (case s of [a, b] \<Rightarrow> take 3 (enc_group tbl a b 0) @ [pad] | [a] \<Rightarrow> take 2 (enc_group tbl a 0 0) @ [pad, pad] | _ \<Rightarrow> [])
     = groups tbl pad s"
  by (auto split: list.split)

lemma encodes_result:
  "encodes str s type tail_lf =
     (if tail_lf \<and> overruns type (length s) then None
      else Some (str @ uu_head type (length s) @ groups (enc_table type) (enc_pad type) s @ (if tail_lf then [10] else [])))"
proof -
  define i :: nat where "i = (if type = CHR ''u'' then 1 else 0)"
  have i: "length (uu_head type (length s)) = i" by (simp add: i_def uu_head_def)
  have "i \<le> 4092" by (simp add: i_def)
  with encodes_outer_room [of "uu_head type (length s)" "enc_table type" s str "enc_pad type"] obtain s' str' buf' where
    o: "encodes_outer (enc_table type) s str (uu_head type (length s)) = Some (s', str', buf')"
      "length s' = length s mod 3" "length buf' = enc_fill i (length s div 3)"
      "str @ uu_head type (length s) @ groups (enc_table type) (enc_pad type) s = str' @ buf' @ groups (enc_table type) (enc_pad type) s'"
    by (auto simp only: i)
  have l3: "length s' < 3" using o(2) by simp
  have lg: "length (groups (enc_table type) (enc_pad type) s') = (if length s mod 3 = 0 then 0 else 4)"
  proof -
    have "length s' = 0 \<or> length s' = 1 \<or> length s' = 2" using l3 by linarith
    then show ?thesis unfolding length_groups o(2) by auto
  qed
  have f: "enc_fill i (length s div 3) \<le> 4092" by (rule enc_fill_le)
  have e: "encodes str s type tail_lf =
    do { buf \<leftarrow> put_all 4096 buf' (groups (enc_table type) (enc_pad type) s');
         buf \<leftarrow> put_all 4096 buf (if tail_lf then [10] else []);
         Some (str' @ buf) }"
    unfolding encodes_def uu_head_def [symmetric] enc_table_def [symmetric] enc_pad_def [symmetric] Let_def o(1)
    by (simp only: groups_rest [OF l3] bind.bind_lunit prod.case)
  show ?thesis
    unfolding e overruns_def i_def [symmetric]
    using f lg o(3) o(4) by (simp add: put_all_def)
qed

section \<open>Sextets\<close>

lemma sextet_masks:
  "bit (0x3f :: u8) n \<longleftrightarrow> n < 6" "bit (0x30 :: u8) n \<longleftrightarrow> n = 4 \<or> n = 5" "bit (0x0f :: u8) n \<longleftrightarrow> n < 4"
  "bit (0x3c :: u8) n \<longleftrightarrow> 2 \<le> n \<and> n < 6" "bit (0x03 :: u8) n \<longleftrightarrow> n < 2"
proof -
  have m: "(0x3f :: u8) = mask 6" "(0x30 :: u8) = push_bit 4 (mask 2)" "(0x0f :: u8) = mask 4"
    "(0x3c :: u8) = push_bit 2 (mask 4)" "(0x03 :: u8) = mask 2"
    by (simp_all add: mask_eq_exp_minus_1)
  show "bit (0x3f :: u8) n \<longleftrightarrow> n < 6" "bit (0x30 :: u8) n \<longleftrightarrow> n = 4 \<or> n = 5" "bit (0x0f :: u8) n \<longleftrightarrow> n < 4"
    "bit (0x3c :: u8) n \<longleftrightarrow> 2 \<le> n \<and> n < 6" "bit (0x03 :: u8) n \<longleftrightarrow> n < 2"
    unfolding m by (auto simp only: bit_push_bit_iff bit_mask_iff possible_bit_word len_num0 len_num1) auto
qed

definition sextet :: "u8 \<Rightarrow> bool" where
  "sextet x \<longleftrightarrow> x < 64"

lemma sextet_bits: "sextet x \<longleftrightarrow> (\<forall>n. bit x n \<longrightarrow> n < 6)"
  using below_exp_bits [of x 6] by (simp add: sextet_def word_less_nat_alt)

definition sextets :: "u8 \<Rightarrow> u8 \<Rightarrow> u8 \<Rightarrow> u8 list" where
  "sextets a b c =
     [0x3f AND drop_bit 2 a, 0x3f AND ((push_bit 4 a AND 0x30) OR (drop_bit 4 b AND 0x0f)),
      0x3f AND ((push_bit 2 b AND 0x3c) OR (drop_bit 6 c AND 0x03)), 0x3f AND c]"

lemma enc_group_sextets: "enc_group tbl a b c = map (\<lambda>x. tbl ! unat x) (sextets a b c)"
  by (simp add: enc_group_def sextets_def)

lemma bits_of_sextets:
  assumes "sextets a b c = [x, y, z, w]"
  shows "bit x n \<longleftrightarrow> n < 6 \<and> bit a (n + 2)" "bit y n \<longleftrightarrow> n < 4 \<and> bit b (n + 4) \<or> 4 \<le> n \<and> n < 6 \<and> bit a (n - 4)"
    "bit z n \<longleftrightarrow> n < 2 \<and> bit c (n + 6) \<or> 2 \<le> n \<and> n < 6 \<and> bit b (n - 2)" "bit w n \<longleftrightarrow> n < 6 \<and> bit c n"
  using assms by (auto simp: sextets_def bit_simps sextet_masks add.commute simp del: bit_numeral_word_iff)

lemma sextets_ok: "sextets a b c = [x, y, z, w] \<Longrightarrow> sextet x \<and> sextet y \<and> sextet z \<and> sextet w"
  by (auto simp: sextet_bits bits_of_sextets)

lemma hunk_bits:
  assumes "hunk x y z w = [a, b, c]"
  shows "bit a n \<longleftrightarrow> 2 \<le> n \<and> n < 8 \<and> bit x (n - 2) \<or> bit y (n + 4)" "bit b n \<longleftrightarrow> 4 \<le> n \<and> n < 8 \<and> bit y (n - 4) \<or> bit z (n + 2)"
    "bit c n \<longleftrightarrow> 6 \<le> n \<and> n < 8 \<and> bit z (n - 6) \<or> bit w n"
  using assms by (auto simp: hunk_def bit_simps add.commute)

lemma hunk_sextets:
  assumes "sextets a b c = [x, y, z, w]"
  shows "hunk x y z w = [a, b, c]"
proof -
  obtain a' b' c' where h: "hunk x y z w = [a', b', c']" by (simp add: hunk_def)
  have "a' = a" "b' = b" "c' = c"
    by (rule u8_eqI, auto simp: hunk_bits [OF h] bits_of_sextets [OF assms] numeral_eq_Suc)+
  then show ?thesis using h by simp
qed

lemma sextets_hunk:
  assumes "sextet x" and "sextet y" and "sextet z" and "sextet w" and h: "hunk x y z w = [a, b, c]"
  shows "sextets a b c = [x, y, z, w]"
proof -
  obtain x' y' z' w' where s: "sextets a b c = [x', y', z', w']" by (simp add: sextets_def)
  have n: "6 \<le> n \<Longrightarrow> \<not> bit x n" "6 \<le> n \<Longrightarrow> \<not> bit y n" "6 \<le> n \<Longrightarrow> \<not> bit z n" "6 \<le> n \<Longrightarrow> \<not> bit w n" for n
    using assms(1-4) by (auto simp: sextet_bits leD)
  have "x' = x" "y' = y" "z' = z" "w' = w"
    by (rule u8_eqI, auto simp: hunk_bits [OF h] bits_of_sextets [OF s] n numeral_eq_Suc)+
  then show ?thesis using s by simp
qed

lemma sextets_exhaust: obtains x y z w where "sextets a b c = [x, y, z, w]" "sextet x" "sextet y" "sextet z" "sextet w"
  using sextets_ok [of a b c] by (metis sextets_def)

text \<open>The tables.\<close>

lemma fold_table:
  "distinct xs \<Longrightarrow> k \<le> length xs \<Longrightarrow>
    (\<forall>i < k. fold (\<lambda>i t. t(xs ! i \<mapsto> f i)) [0..<k] Map.empty (xs ! i) = Some (f i))
    \<and> (\<forall>x. x \<notin> set (take k xs) \<longrightarrow> fold (\<lambda>i t. t(xs ! i \<mapsto> f i)) [0..<k] Map.empty x = None)"
proof (induction k)
  case (Suc k)
  then have "take (Suc k) xs = take k xs @ [xs ! k]" by (simp add: take_Suc_conv_app_nth)
  moreover have "i < k \<Longrightarrow> xs ! i \<noteq> xs ! k" for i using Suc.prems by (simp add: nth_eq_iff_index_eq)
  ultimately show ?case using Suc by (auto simp: less_Suc_eq)
qed simp

lemma b64_table: "length b64_table = 64" "distinct b64_table" "0x3d \<notin> set b64_table" "10 \<notin> set b64_table"
  by (simp_all add: b64_table_def)

lemma uu_next_table:
  assumes "sextet x"
  shows "uu_next (uu_table ! unat x # s) = (x, s)"
proof (cases "x = 0")
  case True
  then show ?thesis by (simp add: uu_next_def uu_table_def)
next
  case False
  then have x: "0 < unat x" "unat x < 64" using assms by (simp_all add: sextet_def word_less_nat_alt unat_gt_0)
  then have "uu_table ! unat x = of_nat (unat x + 32)"
    by (simp add: uu_table_def nth_Cons' add.commute del: of_nat_add of_nat_Suc upt_rec_numeral)
  also have "\<dots> = x + 0x20" by simp
  finally have e: "uu_table ! unat x = x + 0x20" .
  have "unat (x + 0x20) = unat x + 32" using x by (simp add: unat_word_ariths)
  then have "0x20 \<le> x + 0x20" by (simp add: word_le_nat_alt)
  moreover have "x AND 0x3f = x"
    using assms unfolding sextet_bits by (intro bit_word_eqI) (auto simp: bit_simps sextet_masks simp del: bit_numeral_word_iff)
  ultimately show ?thesis by (simp add: uu_next_def e)
qed

section \<open>Base64\<close>

lemma b64_xtable_char [simp]:
  assumes "sextet x"
  shows "b64_xtable (b64_table ! unat x) = Some x"
proof -
  have "unat x < 64" using assms by (simp add: sextet_def word_less_nat_alt)
  then show ?thesis
    using conjunct1 [OF fold_table [of b64_table 64 "of_nat :: nat \<Rightarrow> u8"]] b64_table
    by (simp add: b64_xtable_def del: upt_rec_numeral)
qed

lemma b64_xtable_outside [simp]: "b64_xtable 0x3d = None" "b64_xtable 10 = None"
  using conjunct2 [OF fold_table [of b64_table 64 "of_nat :: nat \<Rightarrow> u8"]] b64_table
  by (simp_all add: b64_xtable_def del: upt_rec_numeral)

lemma b64_xtable_Some:
  assumes "b64_xtable c = Some x"
  shows "sextet x \<and> b64_table ! unat x = c"
proof -
  note t = fold_table [of b64_table 64 "of_nat :: nat \<Rightarrow> u8"]
  have "c \<in> set b64_table"
    using conjunct2 [OF t] assms b64_table by (fastforce simp: b64_xtable_def simp del: upt_rec_numeral)
  then obtain i where i: "i < 64" "b64_table ! i = c" using b64_table(1) by (auto simp: in_set_conv_nth)
  have u: "unat (of_nat i :: u8) = i" using i(1) by (simp add: unsigned_of_nat take_bit_nat_eq_self)
  then have "sextet (of_nat i)" using i(1) by (simp add: sextet_def word_less_nat_alt)
  with b64_xtable_char [OF this] i assms u show ?thesis by simp
qed

lemma b64_char_neq [simp]: "sextet x \<Longrightarrow> b64_table ! unat x \<noteq> 0x3d"
  using b64_xtable_char [of x] by (metis b64_xtable_outside(1) option.distinct(1))

lemma hunk_parts: "hunk x y z w = [a, b, c] \<longleftrightarrow> push_bit 2 x OR drop_bit 4 y = a \<and> push_bit 4 y OR drop_bit 2 z = b \<and> push_bit 6 z OR w = c"
  by (simp add: hunk_def)

lemma low_bits_0: "(v :: u8) AND 0x0f = 0 \<longleftrightarrow> (\<forall>n < 4. \<not> bit v n)" "v AND 0x03 = 0 \<longleftrightarrow> (\<forall>n < 2. \<not> bit v n)"
proof -
  have "v AND 0x0f = 0 \<longleftrightarrow> (\<forall>n. \<not> (bit v n \<and> bit (0x0f :: u8) n))" "v AND 0x03 = 0 \<longleftrightarrow> (\<forall>n. \<not> (bit v n \<and> bit (0x03 :: u8) n))"
    by (simp_all only: bit_eq_iff bit_and_iff bit_0_eq bot_apply bot_bool_def simp_thms) (metis bit_imp_possible_bit)+
  then show "v AND 0x0f = 0 \<longleftrightarrow> (\<forall>n < 4. \<not> bit v n)" "v AND 0x03 = 0 \<longleftrightarrow> (\<forall>n < 2. \<not> bit v n)"
    unfolding sextet_masks by blast+
qed

lemma low_bits_push: "(v :: u8) AND 0x0f = 0 \<Longrightarrow> push_bit 4 v = 0" "v AND 0x03 = 0 \<Longrightarrow> push_bit 6 v = 0"
  unfolding low_bits_0 by (rule bit_word_eqI, simp add: bit_simps)+

definition pad_rest :: "u8 list \<Rightarrow> u8 list" where
  "pad_rest s = replicate ((3 - length s mod 3) mod 3) 0x3d"

lemma strict_reads_groups:
  "length out + length s \<le> room \<Longrightarrow>
    unpack_m_strict room (groups b64_table 0x3d s) out = Some (Inr (pad_rest s, out @ s))"
proof (induction b64_table "0x3d :: u8" s arbitrary: out rule: groups.induct)
  case (1 a b c s)
  obtain x y z w where s: "sextets a b c = [x, y, z, w]" "sextet x" "sextet y" "sextet z" "sextet w" by (rule sextets_exhaust)
  with 1 show ?case by (simp add: enc_group_sextets hunk_sextets put_all_def pad_rest_def)
next
  case (2 a b)
  obtain x y z w where s: "sextets a b 0 = [x, y, z, w]" "sextet x" "sextet y" "sextet z" "sextet w" by (rule sextets_exhaust)
  have "z AND 3 = 0" unfolding low_bits_0 bits_of_sextets [OF s(1)] by simp
  with 2 s hunk_sextets [OF s(1)] show ?case by (simp add: enc_group_sextets put_all_def pad_rest_def hunk_parts)
next
  case (3 a)
  obtain x y z w where s: "sextets a 0 0 = [x, y, z, w]" "sextet x" "sextet y" "sextet z" "sextet w" by (rule sextets_exhaust)
  have "y AND 0xf = 0" unfolding low_bits_0 bits_of_sextets [OF s(1)] by simp
  with 3 s hunk_sextets [OF s(1)] show ?case by (simp add: enc_group_sextets put_all_def pad_rest_def hunk_parts numeral_2_eq_2)
qed (simp add: pad_rest_def)

lemma strict_accepts_groups:
  "unpack_m_strict room p out = Some (Inr (rest, out')) \<Longrightarrow> \<exists>s. out' = out @ s \<and> p = groups b64_table 0x3d s"
proof (induction room p out rule: unpack_m_strict.induct)
  case (4 room x y z s out)
  note prems = "4.prems" [simplified]
  obtain a b where ab: "b64_xtable x = Some a" "b64_xtable y = Some b"
    using "4.prems" by (auto split: option.splits)
  note A = b64_xtable_Some [OF ab(1)] and B = b64_xtable_Some [OF ab(2)]
  show ?case
  proof (cases "z = 0x3d")
    case True
    define a' where "a' = push_bit 2 a OR drop_bit 4 b"
    have p: "s = [0x3d]" "b AND 0x0f = 0" "out' = out @ [a']"
      using "4.prems" True ab by (auto simp: put_all_def a'_def split: if_splits)
    have "hunk a b 0 0 = [a', 0, 0]" by (simp add: hunk_def a'_def low_bits_push(1) [OF p(2)])
    then have "sextets a' 0 0 = [a, b, 0, 0]" using A B by (intro sextets_hunk) (simp_all add: sextet_def)
    then have "groups b64_table 0x3d [a'] = x # y # z # s" using A B by (simp add: enc_group_sextets p(1) True)
    with p(3) show ?thesis by auto
  next
    case False
    obtain c w s' where c: "b64_xtable z = Some c" "s = w # s'"
      using "4.prems" ab False by (auto split: option.splits list.splits)
    note C = b64_xtable_Some [OF c(1)]
    show ?thesis
    proof (cases "w = 0x3d \<and> s' = []")
      case True
      obtain a' b' where ab': "hunk a b c 0 = [a', b', push_bit 6 c]" by (simp add: hunk_def)
      have p: "c AND 0x03 = 0" "out' = out @ [a', b']"
        using "4.prems" True False ab c ab' by (auto simp: put_all_def hunk_def split: if_splits)
      have "push_bit 6 c = 0" by (rule low_bits_push(2) [OF p(1)])
      with ab' have "sextets a' b' 0 = [a, b, c, 0]" using A B C by (intro sextets_hunk) (auto simp: sextet_def)
      then have "groups b64_table 0x3d [a', b'] = x # y # z # s" using A B C True by (simp add: enc_group_sextets c(2))
      with p(2) show ?thesis by auto
    next
      case no_pad: False
      obtain d where d: "b64_xtable w = Some d" using "4.prems" no_pad False ab c by (auto split: option.splits if_splits)
      note D = b64_xtable_Some [OF d]
      obtain a' b' c' where h: "hunk a b c d = [a', b', c']" by (simp add: hunk_def)
      have put: "put_all room out (hunk a b c d) = Some (out @ [a', b', c'])"
        using "4.prems" no_pad False ab c d h by (auto simp: put_all_def split: if_splits)
      have "unpack_m_strict room s' (out @ [a', b', c']) = Some (Inr (rest, out'))"
        using "4.prems" no_pad False ab c d put by (auto split: if_splits)
      from "4.IH" [OF refl ab False refl c no_pad d put this]
      obtain s'' where "out' = out @ [a', b', c'] @ s''" "s' = groups b64_table 0x3d s''" by auto
      moreover have "sextets a' b' c' = [a, b, c, d]" using A B C D h by (intro sextets_hunk) simp_all
      ultimately show ?thesis using A B C D c(2) by (intro exI [of _ "a' # b' # c' # s''"]) (simp add: enc_group_sextets)
    qed
  qed
qed simp_all

text \<open>The tolerant decoder.\<close>

lemma b64_skips [simp]:
  "sextet x \<Longrightarrow> b64_skip (b64_table ! unat x # s) = b64_table ! unat x # s"
  "sextet x \<Longrightarrow> b64_skip_pad (b64_table ! unat x # s) = b64_table ! unat x # s"
  "b64_skip_pad (0x3d # s) = 0x3d # s" "b64_skip (10 # s) = b64_skip s" "b64_skip [] = []" "b64_skip_pad [] = []"
  by (simp_all add: b64_skip_def b64_skip_pad_def)

lemma m_loop_newline: "unpack_m_loop room (10 # s) out = unpack_m_loop room s out"
  by (subst (1 2) unpack_m_loop.simps) simp

lemma m_loop_group:
  assumes "length out + 3 \<le> room"
  shows "unpack_m_loop room (enc_group b64_table a b c @ s) out = unpack_m_loop room s (out @ [a, b, c])"
proof -
  obtain x y z w where s: "sextets a b c = [x, y, z, w]" "sextet x" "sextet y" "sextet z" "sextet w" by (rule sextets_exhaust)
  with assms show ?thesis
    by (subst unpack_m_loop.simps) (simp add: enc_group_sextets hunk_sextets put_all_def)
qed

lemma m_loop_groups:
  "length s mod 3 = 0 \<Longrightarrow> length out + length s \<le> room \<Longrightarrow>
    unpack_m_loop room (groups b64_table 0x3d s @ t) out = unpack_m_loop room t (out @ s)"
  by (induction b64_table "0x3d :: u8" s arbitrary: out rule: groups.induct) (simp_all add: m_loop_group)

lemma m_loop_last:
  "length out + length s \<le> room \<Longrightarrow>
    unpack_m_loop room (groups b64_table 0x3d s @ t) out
      = (if length s mod 3 = 0 then unpack_m_loop room t (out @ s) else Some (pad_rest s @ t, out @ s))"
proof (induction b64_table "0x3d :: u8" s arbitrary: out rule: groups.induct)
  case (2 a b)
  obtain x y z w where s: "sextets a b 0 = [x, y, z, w]" "sextet x" "sextet y" "sextet z" "sextet w" by (rule sextets_exhaust)
  with 2 hunk_sextets [OF s(1)] show ?case
    by (subst unpack_m_loop.simps) (simp add: enc_group_sextets put_all_def pad_rest_def hunk_parts)
next
  case (3 a)
  obtain x y z w where s: "sextets a 0 0 = [x, y, z, w]" "sextet x" "sextet y" "sextet z" "sextet w" by (rule sextets_exhaust)
  with 3 hunk_sextets [OF s(1)] show ?case
    by (subst unpack_m_loop.simps) (simp add: enc_group_sextets put_all_def pad_rest_def hunk_parts numeral_2_eq_2)
qed (simp_all add: m_loop_group pad_rest_def)

section \<open>Lines\<close>

text \<open>The text that the directives \<open>u\<close> and \<open>m\<close> write, with lines of \<open>n\<close> bytes.\<close>

function text_lines :: "char \<Rightarrow> nat \<Rightarrow> u8 list \<Rightarrow> u8 list" where
  "text_lines type n s =
     (if s = [] \<or> n = 0 then []
      else uu_head type (min n (length s)) @ groups (enc_table type) (enc_pad type) (take n s) @ [10] @ text_lines type n (drop n s))"
  by pat_completeness auto
termination by (relation "measure (\<lambda>(type, n, s). length s)") auto

declare text_lines.simps [simp del]

lemma not_overruns_whole: "n mod 3 = 0 \<Longrightarrow> \<not> overruns type n"
  by (simp add: overruns_def)

lemma encode_lines_result:
  assumes "0 < n" and "n mod 3 = 0"
  shows "encode_lines res s n type =
    (if overruns type (length s mod n) then None else Some (res @ text_lines type n s))"
proof (induction s arbitrary: res rule: length_induct)
  case (1 s)
  show ?case
  proof (cases "s = []")
    case True
    then show ?thesis by (subst encode_lines.simps) (simp add: text_lines.simps not_overruns_whole)
  next
    case False
    note unfold = encode_lines.simps [of res s n type] text_lines.simps [of type n s]
    show ?thesis
    proof (cases "length s < n")
      case True
      then show ?thesis using False assms(1)
        by (simp add: unfold encodes_result text_lines.simps [of type n "[]"]) (simp add: encode_lines.simps min_def)
    next
      case le: False
      have less: "length (drop n s) < length s" using False assms(1) by simp
      have "length (drop n s) mod n = length s mod n" using le by (simp add: le_mod_geq)
      moreover have "length (take n s) = n" using le by simp
      moreover have "min n (length s) = n" "min (length s) n = n" using le by simp_all
      ultimately show ?thesis using False assms 1 [rule_format, OF less] not_overruns_whole [OF assms(2), of type]
        by (simp add: unfold encodes_result)
    qed
  qed
qed

definition line_bytes :: "int \<Rightarrow> nat" where
  "line_bytes len = nat (if len \<le> 2 then 45 else len div 3 * 3)"

lemma line_bytes: "0 < line_bytes len" "line_bytes len mod 3 = 0"
proof -
  have "nat (len div 3 * 3) = nat (len div 3) * 3" if "2 < len" using that by (simp add: nat_mult_distrib pos_imp_zdiv_nonneg_iff)
  then show "0 < line_bytes len" "line_bytes len mod 3 = 0"
    by (auto simp: line_bytes_def pos_imp_zdiv_pos_iff)
qed

lemma pack_encoded_result:
  "pack_encoded res s len type =
     (if len = 0 \<and> type = CHR ''m'' then Some (res @ groups b64_table 0x3d s)
      else if overruns type (length s mod line_bytes len) then None
      else Some (res @ text_lines type (line_bytes len) s))"
  unfolding pack_encoded_def line_bytes_def [symmetric] encode_lines_result [OF line_bytes]
  by (simp add: encodes_result uu_head_def enc_table_def enc_pad_def)

lemma overruns_m: "overruns (CHR ''m'') n \<longleftrightarrow> n mod 3 \<noteq> 0 \<and> n div 3 mod 1024 = 1023"
  by (auto simp: overruns_def enc_fill_0)

lemma overruns_u: "overruns (CHR ''u'') n \<longleftrightarrow> n mod 3 \<noteq> 0 \<and> 1023 \<le> n div 3 \<and> (n div 3 - 1023) mod 1024 = 1023"
  by (auto simp: overruns_def enc_fill_def Let_def)

end
