(* ===== verification/PackDecode.thy ===== *)
theory PackDecode
  imports PackText
begin

text \<open>
  The decoders of \<open>lib/ruby/pack.c\<close> for uuencode, base64 and quoted-printable: they read back what the encoders
  write, and on any text they end without writing beyond the string they allocated.
\<close>

declare uu_line.simps [simp del]

section \<open>Reading lines back\<close>

lemma length_text_lines: "0 < n \<Longrightarrow> 4 * length s \<le> 3 * length (text_lines type n s)"
proof (induction s rule: length_induct)
  case (1 s)
  show ?case
  proof (cases "s = []")
    case False
    have "4 * length (take n s) \<le> 3 * length (groups (enc_table type) (enc_pad type) (take n s))"
      unfolding length_groups by linarith
    moreover have "length s = length (take n s) + length (drop n s)" by simp
    moreover have "4 * length (drop n s) \<le> 3 * length (text_lines type n (drop n s))" using 1 False by (intro 1(1) [rule_format]) simp_all
    moreover have "length (text_lines type n s) \<ge> length (groups (enc_table type) (enc_pad type) (take n s)) + length (text_lines type n (drop n s))"
      using 1 False by (simp add: text_lines.simps [of type n s])
    ultimately show ?thesis by linarith
  qed simp
qed

lemma decode_room_small: "length s * 3 < 2 ^ 31 \<Longrightarrow> decode_room (int (length s)) = int (length s * 3 div 4)"
  by (simp add: decode_room_def sint_of_uint_u32 uint_word_ariths unsigned_of_nat take_bit_nat_eq_self Let_def zdiv_int)

lemma m_loop_lines:
  "0 < n \<Longrightarrow> n mod 3 = 0 \<Longrightarrow> length out + length s \<le> room \<Longrightarrow>
    unpack_m_loop room (text_lines (CHR ''m'') n s) out
      = Some (if length s mod 3 = 0 then [] else pad_rest s @ [10], out @ s)"
proof (induction s arbitrary: out rule: length_induct)
  case (1 s)
  note t = enc_table_def enc_pad_def uu_head_def
  show ?case
  proof (cases "s = []")
    case True
    then show ?thesis by (simp add: text_lines.simps unpack_m_loop.simps)
  next
    case False
    show ?thesis
    proof (cases "length s \<le> n")
      case True
      with False 1 show ?thesis
        by (simp add: text_lines.simps [of _ n s] text_lines.simps [of _ n "[]"] t m_loop_last m_loop_newline unpack_m_loop.simps [of _ "[]"])
    next
      case le: False
      have less: "length (drop n s) < length s" using False 1 by simp
      have "(length s - n) mod 3 = length s mod 3"
        using le 1(3) by (metis le_add_diff_inverse mod_add_left_eq nat_le_linear plus_nat.add_0)
      then have "pad_rest (drop n s) = pad_rest s" "length (drop n s) mod 3 = length s mod 3" by (simp_all add: pad_rest_def)
      moreover have "unpack_m_loop room (text_lines (CHR ''m'') n s) out = unpack_m_loop room (text_lines (CHR ''m'') n (drop n s)) (out @ take n s)"
        using False 1 le by (simp add: text_lines.simps [of _ n s] t m_loop_groups m_loop_newline)
      ultimately show ?thesis using "1.IH" [rule_format, OF less, of "out @ take n s"] 1 le by simp
    qed
  qed
qed

lemma uu_line_group:
  assumes "length out + min 3 len \<le> room" and "0 < len"
  shows "uu_line room len (enc_group uu_table a b c @ s) out = uu_line room (len - 3) s (out @ take len [a, b, c])"
proof -
  obtain x y z w where s: "sextets a b c = [x, y, z, w]" "sextet x" "sextet y" "sextet z" "sextet w" by (rule sextets_exhaust)
  define k where "k = (if 3 < len then 3 else len)"
  have k: "take k [a, b, c] = take len [a, b, c]" "len - k = len - 3" "length out + length (take k [a, b, c]) \<le> room"
    using assms by (auto simp: k_def)
  then have "put_all room out (take k [a, b, c]) = Some (out @ take len [a, b, c])" by (simp only: put_all_def) simp
  with s(2-5) assms(2) k(2) show ?thesis
    by (subst uu_line.simps) (simp add: enc_group_sextets s(1) hunk_sextets [OF s(1)] uu_next_table k_def [symmetric] del: take_Cons_numeral)
qed

lemma uu_pad: "uu_table ! unat 0 = 0x60" "uu_table ! 0 = 0x60"
  by (simp_all only: uu_table_def unsigned_0 nth_Cons_0)

lemma uu_line_groups:
  "length out + length s \<le> room \<Longrightarrow> uu_line room (length s) (groups uu_table 0x60 s @ t) out = Some (t, out @ s)"
proof (induction uu_table "0x60 :: u8" s arbitrary: out rule: groups.induct)
  case (1 a b c s)
  then show ?case by (simp add: uu_line_group)
next
  case (2 a b)
  have "sextets a b 0 ! 3 = 0" by (simp add: sextets_def)
  then have "take 3 (enc_group uu_table a b 0) @ [0x60] = enc_group uu_table a b 0"
    by (simp add: enc_group_def uu_pad)
  with 2 uu_line_group [of out 2 room a b 0 t] show ?case by (simp add: numeral_2_eq_2 uu_line.simps [of _ 0])
next
  case (3 a)
  have "take 2 (enc_group uu_table a 0 0) @ [0x60, 0x60] = enc_group uu_table a 0 0"
    by (simp add: enc_group_def uu_pad numeral_2_eq_2)
  with 3 uu_line_group [of out 1 room a 0 0 t] show ?case by (simp add: uu_line.simps [of _ 0])
qed (simp add: uu_line.simps)

lemma uu_lines_text:
  "0 < n \<Longrightarrow> n \<le> 63 \<Longrightarrow> length out + length s \<le> room \<Longrightarrow>
    uu_lines room (text_lines (CHR ''u'') n s) (length out) out = Some ([], False, length out + length s, out @ s)"
proof (induction s arbitrary: out rule: length_induct)
  case (1 s)
  note t = enc_table_def enc_pad_def uu_head_def
  show ?case
  proof (cases "s = []")
    case True
    then show ?thesis by (simp add: text_lines.simps uu_lines.simps)
  next
    case False
    define m where "m = min n (length s)"
    have m: "0 < m" "m \<le> 63" "length (take n s) = m" using False 1 by (simp_all add: m_def)
    have u: "unat (of_nat m :: u8) = m" using m(2) by (simp add: unsigned_of_nat take_bit_nat_eq_self)
    then have uc: "unat ((of_nat m :: u8) + 0x20) = m + 32" using m(2) by (simp add: unat_word_ariths)
    have "sextet (of_nat m)" using m(2) u by (simp add: sextet_def word_less_nat_alt)
    then have "(of_nat m :: u8) AND 0x3f = of_nat m"
      unfolding sextet_bits by (intro bit_word_eqI) (auto simp: bit_simps sextet_masks simp del: bit_numeral_word_iff)
    with u have len: "unat ((of_nat m :: u8) AND 0x3f) = m" by simp
    have less: "length (drop n s) < length s" using False 1 by simp
    have "uu_line room m (groups uu_table 0x60 (take n s) @ 10 # text_lines (CHR ''u'') n (drop n s)) out
        = Some (10 # text_lines (CHR ''u'') n (drop n s), out @ take n s)"
      using uu_line_groups [of out "take n s" room] 1(4) m(3) by simp
    moreover have "uu_eol (10 # r) = (r, False)" for r by (simp add: uu_eol_def)
    moreover have "0x20 < (of_nat m :: u8) + 0x20" "(of_nat m :: u8) + 0x20 < 0x61" using uc m by (simp_all add: word_less_nat_alt)
    moreover have "\<not> room < length out + m" using 1(4) m(3) by (simp add: m_def)
    ultimately have "uu_lines room (text_lines (CHR ''u'') n s) (length out) out
        = uu_lines room (text_lines (CHR ''u'') n (drop n s)) (length (out @ take n s)) (out @ take n s)"
      using False 1(2) m(3)
      by (simp add: text_lines.simps [of _ n s] t m_def [symmetric]) (subst uu_lines.simps, simp add: len)
    also have "\<dots> = Some ([], False, length (out @ take n s) + length (drop n s), (out @ take n s) @ drop n s)"
      using 1 less by (intro "1.IH" [rule_format, OF less]) auto
    finally show ?thesis by simp
  qed
qed

section \<open>The decoders end and stay within their strings\<close>

lemma uu_next_length: "uu_next s = (x, s') \<Longrightarrow> length s' \<le> length s"
  by (auto simp: uu_next_def split: list.splits if_splits)

lemma uu_line_total:
  "length out + len \<le> room \<Longrightarrow>
    \<exists>s' out'. uu_line room len s out = Some (s', out') \<and> length s' \<le> length s \<and> length out' = length out + len"
proof (induction len arbitrary: s out rule: less_induct)
  case (less len)
  show ?case
  proof (cases "len = 0")
    case False
    define k where "k = (if 3 < len then 3 else len)"
    have k: "0 < k" "k \<le> 3" "k \<le> len" using False by (simp_all add: k_def)
    obtain a s1 where 1: "uu_next s = (a, s1)" by (cases "uu_next s")
    obtain b s2 where 2: "uu_next s1 = (b, s2)" by (cases "uu_next s1")
    obtain c s3 where 3: "uu_next s2 = (c, s3)" by (cases "uu_next s2")
    obtain d s4 where 4: "uu_next s3 = (d, s4)" by (cases "uu_next s3")
    have l: "length s4 \<le> length s"
      using uu_next_length [OF 1] uu_next_length [OF 2] uu_next_length [OF 3] uu_next_length [OF 4] by linarith
    have lh: "length (take k (hunk a b c d)) = k" using k by (simp add: hunk_def)
    then have "put_all room out (take k (hunk a b c d)) = Some (out @ take k (hunk a b c d))"
      using less.prems k by (simp add: put_all_def)
    then have "uu_line room len s out = uu_line room (len - k) s4 (out @ take k (hunk a b c d))"
      using False by (subst uu_line.simps) (simp add: 1 2 3 4 k_def [symmetric])
    with less.IH [of "len - k" "out @ take k (hunk a b c d)" s4] less.prems k l lh show ?thesis by fastforce
  qed (simp add: uu_line.simps)
qed

lemma uu_eol_length: "uu_eol s = (s', past) \<Longrightarrow> length s' \<le> length s"
  by (auto simp: uu_eol_def Let_def split: list.splits if_splits)

lemma uu_lines_total:
  "length out \<le> room \<Longrightarrow>
    \<exists>s' past out'. uu_lines room s (length out) out = Some (s', past, length out', out') \<and> length s' \<le> length s"
proof (induction s arbitrary: out rule: length_induct)
  case (1 s)
  show ?case
  proof (cases s)
    case (Cons c s1)
    show ?thesis
    proof (cases "0x20 < c \<and> c < 0x61")
      case True
      define len where "len = unat ((c - 0x20) AND 0x3f)"
      define len' where "len' = (if room < length out + len then len - (length out + len - room) else len)"
      have w: "(if room < length out + len then room else length out + len) = length out + len'" "length out + len' \<le> room"
        using "1.prems" by (auto simp: len'_def)
      obtain s2 out2 where l: "uu_line room len' s1 out = Some (s2, out2)" "length s2 \<le> length s1" "length out2 = length out + len'"
        using uu_line_total [OF w(2)] by blast
      obtain s3 past where e: "uu_eol s2 = (s3, past)" by (cases "uu_eol s2")
      note s3 = uu_eol_length [OF e]
      have u: "uu_lines room s (length out) out = (if past then Some (s3, True, length out2, out2) else uu_lines room s3 (length out2) out2)"
        using True by (subst uu_lines.simps) (simp add: Cons len_def [symmetric] len'_def [symmetric] w(1) l(1,3) e)
      show ?thesis
      proof (cases past)
        case False
        have "length s3 < length s" using l(2) s3 Cons by simp
        with "1.IH" [rule_format, of s3 out2] u False l(3) w(2) Cons show ?thesis by fastforce
      qed (use u s3 l Cons in auto)
    qed (subst uu_lines.simps, auto simp: Cons)
  qed (subst uu_lines.simps, auto)
qed

lemma strict_total: "4 * length out + 3 * length p \<le> 4 * room + 3 \<Longrightarrow> unpack_m_strict room p out \<noteq> None"
proof (induction room p out rule: unpack_m_strict.induct)
  case (4 room x y z s out)
  note ih = "4.IH" [OF refl _ _ _ refl]
  have room: "length s = Suc n \<Longrightarrow> length out + 3 \<le> room" "s = [] \<or> s = [w] \<Longrightarrow> s \<noteq> [] \<Longrightarrow> length out + 2 \<le> room" for n w
    using "4.prems" by auto
  show ?case
  proof (cases "b64_xtable x")
    case a: (Some a)
    show ?thesis
    proof (cases "b64_xtable y")
      case b: (Some b)
      show ?thesis
      proof (cases "z = 0x3d")
        case False
        show ?thesis
        proof (cases "b64_xtable z")
          case c: (Some c)
          show ?thesis
          proof (cases s)
            case (Cons w s')
            show ?thesis
            proof (cases "w = 0x3d \<and> s' = [] \<or> b64_xtable w = None")
              case no_pad: False
              then obtain d where d: "b64_xtable w = Some d" by auto
              have "put_all room out (hunk a b c d) = Some (out @ hunk a b c d)" using room(1) Cons by (simp add: put_all_def hunk_def)
              from ih [OF a b False c Cons _ d this] no_pad "4.prems" Cons False a b c d this show ?thesis
                by (auto simp: hunk_def)
            qed (use False a b c Cons "4.prems" in \<open>auto simp: put_all_def\<close>)
          qed (use False a b c in simp)
        qed (use False a b in simp)
      qed (use a b "4.prems" in \<open>auto simp: put_all_def\<close>)
    qed (use a in simp)
  qed simp
qed simp_all

lemma skip_length: "length (b64_skip s) \<le> length s" "length (b64_skip_pad s) \<le> length s"
  by (simp_all add: b64_skip_def b64_skip_pad_def length_dropWhile_le)

lemma m_loop_total: "4 * length out + 3 * length s \<le> 4 * room + 3 \<Longrightarrow> unpack_m_loop room s out \<noteq> None"
proof (induction s arbitrary: out rule: length_induct)
  case (1 s)
  show ?case
  proof (cases "b64_skip s")
    case x: (Cons x s1)
    show ?thesis
    proof (cases "b64_skip s1")
      case y: (Cons y s2)
      show ?thesis
      proof (cases "b64_skip_pad s2")
        case z: (Cons z s3)
        have l3: "length s3 + 3 \<le> length s"
          using skip_length(1) [of s] skip_length(1) [of s1] skip_length(2) [of s2] x y z by simp
        show ?thesis
        proof (cases "z = 0x3d")
          case False
          show ?thesis
          proof (cases "b64_skip_pad s3")
            case w: (Cons w s4)
            have l4: "length s4 + 4 \<le> length s" using skip_length(2) [of s3] w l3 by simp
            show ?thesis
            proof (cases "w = 0x3d")
              case no_pad: False
              have "4 * (length out + 3) + 3 * length s4 \<le> 4 * room + 3" using l4 "1.prems" unfolding distrib_left by linarith
              with "1.IH" [rule_format, of s4] l4
              have "unpack_m_loop room s4 (out @ hunk a b c d) \<noteq> None" for a b c d by (simp add: hunk_def)
              moreover have "put_all room out (hunk a b c d) = Some (out @ hunk a b c d)" for a b c d
                using l4 "1.prems" by (simp add: put_all_def hunk_def)
              ultimately show ?thesis using False no_pad by (subst unpack_m_loop.simps) (simp add: x y z w del: not_None_eq)
            qed (use False l4 "1.prems" in \<open>subst unpack_m_loop.simps, simp add: x y z w put_all_def Let_def\<close>)
          qed (use False in \<open>subst unpack_m_loop.simps, simp add: x y z\<close>)
        qed (use l3 "1.prems" in \<open>subst unpack_m_loop.simps, simp add: x y z put_all_def\<close>)
      qed (subst unpack_m_loop.simps, simp add: x y)
    qed (subst unpack_m_loop.simps, simp add: x)
  qed (subst unpack_m_loop.simps, simp)
qed

lemma skip_cr_length: "length (qp_skip_cr s) \<le> length s"
  by (simp add: qp_skip_cr_def split: list.split)

lemma M_loop_total: "length out + length s \<le> room \<Longrightarrow> unpack_M_loop room s out \<noteq> None"
proof (induction s arbitrary: out rule: length_induct)
  case (1 s)
  have ih: "length s' < length s \<Longrightarrow> length out' + length s' \<le> room \<Longrightarrow> unpack_M_loop room s' out' \<noteq> None" for s' out'
    using "1.IH" by blast
  show ?case
  proof (cases s)
    case c: (Cons c s1)
    show ?thesis
    proof (cases "c = 0x3d")
      case True
      show ?thesis
      proof (cases "qp_skip_cr s1")
        case x: (Cons x s2)
        then have l: "length s2 + 2 \<le> length s" using skip_cr_length [of s1] c by simp
        show ?thesis
        proof (cases s2)
          case Nil
          then show ?thesis using ih [of "[]" out] "1.prems" c True x
            by (subst unpack_M_loop.simps) (auto split: option.split)
        next
          case y: (Cons y s3)
          then show ?thesis using ih [of s2 out] ih [of s3 "out @ [v]" for v] "1.prems" c True x l
            by (subst unpack_M_loop.simps) (auto simp: put_all_def split: option.split)
        qed
      qed (subst unpack_M_loop.simps, simp add: c True)
    qed (use ih [of s1 "out @ [c]"] "1.prems" c in \<open>subst unpack_M_loop.simps, simp add: put_all_def\<close>)
  qed (subst unpack_M_loop.simps, simp)
qed

lemma unpack_u_total: "length s * 3 < 2 ^ 31 \<Longrightarrow> unpack_u s \<noteq> None"
  using uu_lines_total [of "[]" "length s * 3 div 4" s] by (auto simp: unpack_u_def decode_room_small Let_def)

lemma unpack_m_total: "length s * 3 < 2 ^ 31 \<Longrightarrow> unpack_m len s \<noteq> None"
  using strict_total [of "[]" s "length s * 3 div 4"] m_loop_total [of "[]" s "length s * 3 div 4"]
  by (auto simp: unpack_m_def decode_room_small Let_def)

lemma unpack_M_total: "unpack_M s \<noteq> None"
  using M_loop_total [of "[]" s "length s"] by (simp add: unpack_M_def)

text \<open>Above that bound the product \<open>(send - s)*3\<close> wraps, and the string is too small for the first group.\<close>

lemma unpack_m_overflow:
  assumes "length s = 1431655768" and "take 4 s = [0x41, 0x41, 0x41, 0x41]"
  shows "unpack_m 1 s = None"
proof -
  obtain r where s: "s = [0x41, 0x41, 0x41, 0x41] @ r" using assms(2) append_take_drop_id [of 4 s] by metis
  have A: "sextet 0" "b64_table ! unat 0 = 0x41" by (simp_all add: sextet_def b64_table_def)
  have "decode_room 1431655768 = 2" by (simp add: decode_room_def sint_of_uint_u32 uint_word_ariths unsigned_of_nat take_bit_nat_eq_self Let_def)
  moreover have "unpack_m_loop 2 s [] = None"
    using b64_skips(1,2) [OF A(1)] b64_xtable_char [OF A(1)] unfolding A(2)
    by (subst unpack_m_loop.simps) (simp add: s put_all_def hunk_def)
  ultimately show ?thesis by (simp add: unpack_m_def assms(1))
qed

section \<open>Quoted-printable\<close>

lemma hex_table: "length hex_table = 16" "i < 16 \<Longrightarrow> hex2num (hex_table ! i) = Some (of_nat i) \<and> hex_table ! i \<noteq> 10 \<and> hex_table ! i \<noteq> 13"
proof -
  show "length hex_table = 16" by (simp add: hex_table_def)
  have "list_all (\<lambda>i. hex2num (hex_table ! i) = Some (of_nat i) \<and> hex_table ! i \<noteq> 10 \<and> hex_table ! i \<noteq> 13) [0..<16]" by code_simp
  then show "i < 16 \<Longrightarrow> hex2num (hex_table ! i) = Some (of_nat i) \<and> hex_table ! i \<noteq> 10 \<and> hex_table ! i \<noteq> 13"
    by (simp add: list_all_iff del: upt_rec_numeral)
qed

lemma M_loop_plain: "c \<noteq> 0x3d \<Longrightarrow> length out < room \<Longrightarrow> unpack_M_loop room (c # s) out = unpack_M_loop room s (out @ [c])"
  by (subst unpack_M_loop.simps) (simp add: put_all_def)

lemma M_loop_soft: "unpack_M_loop room (0x3d # 10 # s) out = unpack_M_loop room s out"
  by (subst unpack_M_loop.simps) (simp add: qp_skip_cr_def split: list.split)

lemma M_loop_hex:
  assumes "length out < room"
  shows "unpack_M_loop room (0x3d # hex_table ! unat (drop_bit 4 c) # hex_table ! unat (c AND 0x0f) # s) out
    = unpack_M_loop room s (out @ [c])"
proof -
  have d: "unat (drop_bit 4 c) < 16"
    using below_exp_bits [of "drop_bit 4 c" 4] bit_imp_le_length [of c] by (fastforce simp: bit_simps)
  have a: "unat (c AND 0x0f) < 16" using below_exp_bits [of "c AND 0x0f" 4] by (auto simp: bit_simps sextet_masks simp del: bit_numeral_word_iff)
  have "push_bit 4 (drop_bit 4 c) OR (c AND 0x0f) = c"
    by (rule bit_word_eqI) (auto simp: bit_simps sextet_masks simp del: bit_numeral_word_iff)
  with hex_table(2) [OF d] hex_table(2) [OF a] assms show ?thesis
    by (subst unpack_M_loop.simps) (simp add: qp_skip_cr_def put_all_def split: list.split)
qed

text \<open>One character: at most three bytes are written, and the decoder reads them as that character.\<close>

lemma qp_char_reads:
  assumes "length buf \<le> 1021"
  shows "\<exists>cs n' prev'. qp_char c buf n prev = Some (buf @ cs, n', prev') \<and> length cs \<le> 3 \<and> 0 < length cs
    \<and> (\<forall>room s out. length out < room \<longrightarrow> unpack_M_loop room (cs @ s) out = unpack_M_loop room s (out @ [c]))"
  using assms by (auto simp: qp_char_def put_all_def M_loop_hex M_loop_plain M_loop_soft)

lemma qp_break_reads:
  assumes "length buf \<le> 1022"
  shows "\<exists>cs n' prev'. qp_break len buf n prev = Some (buf @ cs, n', prev') \<and> length cs \<le> 2
    \<and> (\<forall>room s out. unpack_M_loop room (cs @ s) out = unpack_M_loop room s out)"
  using assms by (auto simp: qp_break_def put_all_def M_loop_soft)

lemma qp_loop_reads:
  "length buf \<le> 1019 \<Longrightarrow>
    \<exists>str' buf' n' cs. qp_loop len s str buf n prev = Some (str', buf', n') \<and> str' @ buf' = str @ buf @ cs \<and> length buf' \<le> 1019 \<and> length s \<le> length cs
      \<and> (\<forall>room t out. length out + length s \<le> room \<longrightarrow> unpack_M_loop room (cs @ t) out = unpack_M_loop room t (out @ s))"
proof (induction s arbitrary: str buf n prev)
  case (Cons c s)
  obtain cs1 n1 prev1 where 1: "qp_char c buf n prev = Some (buf @ cs1, n1, prev1)" "length cs1 \<le> 3" "0 < length cs1"
    "\<And>room s out. length out < room \<Longrightarrow> unpack_M_loop room (cs1 @ s) out = unpack_M_loop room s (out @ [c])"
    using qp_char_reads [of buf c n prev] Cons.prems by auto
  obtain cs2 n2 prev2 where 2: "qp_break len (buf @ cs1) n1 prev1 = Some (buf @ cs1 @ cs2, n2, prev2)"
    "\<And>room s out. unpack_M_loop room (cs2 @ s) out = unpack_M_loop room s out"
    using qp_break_reads [of "buf @ cs1" len n1 prev1] Cons.prems 1(2) by auto
  define full where "full \<longleftrightarrow> 1024 - 5 < length (buf @ cs1 @ cs2)"
  have "length (if full then [] else buf @ cs1 @ cs2) \<le> 1019" by (simp add: full_def)
  from Cons.IH [OF this, of "if full then str @ buf @ cs1 @ cs2 else str" n2 prev2] obtain str' buf' n' cs3 where 3:
    "qp_loop len s (if full then str @ buf @ cs1 @ cs2 else str) (if full then [] else buf @ cs1 @ cs2) n2 prev2 = Some (str', buf', n')"
    "str' @ buf' = (if full then str @ buf @ cs1 @ cs2 else str) @ (if full then [] else buf @ cs1 @ cs2) @ cs3" "length buf' \<le> 1019" "length s \<le> length cs3"
    "\<And>room t out. length out + length s \<le> room \<Longrightarrow> unpack_M_loop room (cs3 @ t) out = unpack_M_loop room t (out @ s)"
    by blast
  have "qp_loop len (c # s) str buf n prev = Some (str', buf', n')" using 3(1) by (cases full) (simp_all add: 1(1) 2(1) full_def [symmetric], simp_all add: full_def)
  moreover have "str' @ buf' = str @ buf @ (cs1 @ cs2 @ cs3)" using 3(2) by (simp split: if_splits)
  moreover have "unpack_M_loop room ((cs1 @ cs2 @ cs3) @ t) out = unpack_M_loop room t (out @ c # s)"
    if "length out + length (c # s) \<le> room" for room t out
    using that by (simp add: 1(4) 2(2) 3(5))
  moreover have "length (c # s) \<le> length (cs1 @ cs2 @ cs3)" using 1(3) 3(4) unfolding length_append list.size by linarith
  ultimately show ?case using 3(3) by blast
qed simp

text \<open>The encoder never leaves its buffer, and what it writes is read as the string.\<close>

lemma qpencode_reads:
  "\<exists>cs. qpencode res s len = Some (res @ cs) \<and> length s \<le> length cs
    \<and> (\<forall>room t out. length out + length s \<le> room \<longrightarrow> unpack_M_loop room (cs @ t) out = unpack_M_loop room t (out @ s))"
proof -
  obtain str' buf' n' cs where l: "qp_loop len s res [] 0 None = Some (str', buf', n')" "str' @ buf' = res @ cs" "length buf' \<le> 1019" "length s \<le> length cs"
    "\<And>room t out. length out + length s \<le> room \<Longrightarrow> unpack_M_loop room (cs @ t) out = unpack_M_loop room t (out @ s)"
    using qp_loop_reads [of "[]" len s res 0 None] by auto
  define e :: "u8 list" where "e = (if 0 < n' then [0x3d, 10] else [])"
  have "qpencode res s len = Some (res @ (cs @ e))" using l(2,3) by (simp add: qpencode_def l(1) put_all_def e_def flip: append_assoc)
  moreover have "unpack_M_loop room ((cs @ e) @ t) out = unpack_M_loop room t (out @ s)" if "length out + length s \<le> room" for room t out
    using l(5) [OF that] by (simp add: e_def M_loop_soft)
  moreover have "length s \<le> length (cs @ e)" using l(4) by simp
  ultimately show ?thesis by blast
qed

lemma pack_M_roundtrip: "\<exists>cs. pack_M res s len = Some (res @ cs) \<and> unpack_M cs = Some ([], s)"
proof -
  obtain cs where cs: "pack_M res s len = Some (res @ cs)" "length s \<le> length cs"
    "\<And>room t out. length out + length s \<le> room \<Longrightarrow> unpack_M_loop room (cs @ t) out = unpack_M_loop room t (out @ s)"
    using qpencode_reads [of res s "if len \<le> 1 then 72 else len"] unfolding pack_M_def by blast
  have "unpack_M cs = unpack_M_loop (length cs) [] s" using cs(3) [of "[]" "length cs" "[]"] cs(2) by (simp add: unpack_M_def)
  with cs(1) show ?thesis by (simp add: unpack_M_loop.simps)
qed

section \<open>Round trips\<close>

lemma pack_m_roundtrip:
  assumes "pack_encoded res s len (CHR ''m'') = Some t" and "length t * 3 < 2 ^ 31" and "len' \<noteq> 0"
  shows "\<exists>cs rest. t = res @ cs \<and> unpack_m len' cs = Some (Inr (rest, s))"
proof -
  define cs where "cs = (if len = 0 then groups b64_table 0x3d s else text_lines (CHR ''m'') (line_bytes len) s)"
  have t: "t = res @ cs" using assms(1) by (auto simp: pack_encoded_result cs_def split: if_splits)
  have "4 * length s \<le> 3 * length cs"
    using length_text_lines [OF line_bytes(1), of s "CHR ''m''" len] by (auto simp: cs_def length_groups)
  then have l: "length s \<le> length cs * 3 div 4" by linarith
  have "\<exists>rest. unpack_m_loop (length cs * 3 div 4) cs [] = Some (rest, s)"
  proof (cases "len = 0")
    case True
    then show ?thesis using m_loop_last [of "[]" s "length cs * 3 div 4" "[]"] l by (simp add: cs_def unpack_m_loop.simps [of _ "[]"])
  next
    case False
    then show ?thesis using m_loop_lines [OF line_bytes, of "[]" s "length cs * 3 div 4" len] l by (simp add: cs_def)
  qed
  then show ?thesis using assms(2,3) decode_room_small [of cs] by (auto simp: t unpack_m_def Let_def)
qed

lemma pack_m0_canonical:
  assumes "length t * 3 < 2 ^ 31"
  shows "(\<exists>rest. unpack_m 0 t = Some (Inr (rest, s))) \<longleftrightarrow> pack_encoded [] s 0 (CHR ''m'') = Some t"
proof
  assume "\<exists>rest. unpack_m 0 t = Some (Inr (rest, s))"
  then show "pack_encoded [] s 0 (CHR ''m'') = Some t"
    using decode_room_small [OF assms] strict_accepts_groups [of _ t "[]"] by (fastforce simp: unpack_m_def pack_encoded_result)
next
  assume "pack_encoded [] s 0 (CHR ''m'') = Some t"
  then have t: "t = groups b64_table 0x3d s" by (simp add: pack_encoded_result)
  have "length s \<le> length t * 3 div 4" unfolding t length_groups by linarith
  with strict_reads_groups [of "[]" s "length t * 3 div 4"] decode_room_small [OF assms]
  show "\<exists>rest. unpack_m 0 t = Some (Inr (rest, s))" by (simp add: unpack_m_def t)
qed

lemma pack_u_roundtrip:
  assumes "pack_encoded res s len (CHR ''u'') = Some t" and "length t * 3 < 2 ^ 31" and "len \<le> 65"
  shows "\<exists>cs. t = res @ cs \<and> unpack_u cs = Some (Inr ([], False, s))"
proof -
  define cs where "cs = text_lines (CHR ''u'') (line_bytes len) s"
  have t: "t = res @ cs" using assms(1) by (auto simp: pack_encoded_result cs_def split: if_splits)
  have "4 * length s \<le> 3 * length cs"
    using length_text_lines [OF line_bytes(1), of s "CHR ''u''" len] by (simp add: cs_def)
  then have l: "length s \<le> length cs * 3 div 4" by linarith
  have "len div 3 * 3 \<le> 63" using assms(3) by presburger
  then have "line_bytes len \<le> 63" by (simp add: line_bytes_def nat_le_iff)
  with uu_lines_text [OF line_bytes(1), of len "[]" s "length cs * 3 div 4"] l
  have "uu_lines (length cs * 3 div 4) cs 0 [] = Some ([], False, length s, s)" by (simp add: cs_def)
  then show ?thesis using assms(2) decode_room_small [of cs] by (auto simp: t unpack_u_def Let_def)
qed

text \<open>A line of 66 bytes or more has a length character beyond the alphabet: nothing of such a text is read.\<close>

lemma pack_u_long_lines:
  assumes "pack_encoded [] s len (CHR ''u'') = Some t" and "66 \<le> len" and "len < 224" and "line_bytes len \<le> length s"
    and "length t * 3 < 2 ^ 31"
  shows "unpack_u t = Some (Inr (t, False, []))"
proof -
  define n where "n = line_bytes len"
  have n: "66 \<le> n" "n < 224" using assms(2,3) by (simp_all add: n_def line_bytes_def nat_less_iff nat_le_iff le_nat_iff)
  have t: "t = text_lines (CHR ''u'') n s" using assms(1) by (auto simp: pack_encoded_result n_def split: if_splits)
  have "s \<noteq> []" using n(1) assms(4) by (auto simp: n_def)
  then obtain r where r: "t = (of_nat n + 0x20) # r"
    using n(1) assms(4) by (simp add: t text_lines.simps [of _ n s] uu_head_def n_def [symmetric])
  have "unat ((of_nat n :: u8) + 0x20) = n + 32"
    using n by (simp add: unat_word_ariths unsigned_of_nat take_bit_nat_eq_self)
  then have "\<not> (of_nat n :: u8) + 0x20 < 0x61" using n by (simp add: word_less_nat_alt)
  then have "uu_lines room t 0 [] = Some (t, False, 0, [])" for room by (subst uu_lines.simps) (simp add: r)
  then show ?thesis using decode_room_small [OF assms(5)] by (simp add: unpack_u_def)
qed

end
