(* ===== verification/PackFormat.thy ===== *)
theory PackFormat
  imports StrToInt
begin

text \<open>
  What \<open>pack_pack\<close> and \<open>pack_unpack\<close> of \<open>lib/ruby/pack.c\<close> share: the values that are packed, the environment of the
  interpreter, and the reading of the format string.
\<close>

section \<open>Values and results\<close>

text \<open>A string is its bytes; all other objects are those of \<open>rb_value\<close>.\<close>

datatype ('f, 'o) pack_value = PVal "('f, 'o) rb_value" | PStr "u8 list"

text \<open>
  The parts of the interpreter that the two methods call: conversions with user code behind them, and the C representation
  of floating point numbers and of the pointers of strings.
\<close>

record ('f, 'o) pack_env =
  pk_env :: "('f, 'o) rb_env"
  pk_stop :: "nat \<Rightarrow> bool"
  string_value :: "('f, 'o) rb_value \<Rightarrow> rb_error + u8 list"
  obj_as_string :: "('f, 'o) rb_value \<Rightarrow> u8 list"
  rb_to_float :: "('f, 'o) pack_value \<Rightarrow> rb_error + 'f"
  rb_Float :: "('f, 'o) pack_value \<Rightarrow> rb_error + 'f"
  float_word :: "'f \<Rightarrow> u32"
  double_word :: "'f \<Rightarrow> u64"
  word_float :: "u32 \<Rightarrow> 'f"
  word_double :: "u64 \<Rightarrow> 'f"
  string_ptr :: "u8 list \<Rightarrow> u32"

text \<open>
  A result is \<open>None\<close> where the code reads or writes outside an object or does not return, otherwise an error or a value.
\<close>

type_synonym 'a presult = "(rb_error + 'a) option"

definition ok :: "'a \<Rightarrow> 'a presult" where
  "ok x = Some (Inr x)"

definition raise_err :: "rb_error \<Rightarrow> 'a presult" where
  "raise_err e = Some (Inl e)"

definition pbind :: "'a presult \<Rightarrow> ('a \<Rightarrow> 'b presult) \<Rightarrow> 'b presult" where
  "pbind m f = (case m of None \<Rightarrow> None | Some (Inl e) \<Rightarrow> Some (Inl e) | Some (Inr x) \<Rightarrow> f x)"

lemma pbind_simps [simp]:
  "pbind None f = None" "pbind (raise_err e) f = raise_err e" "pbind (ok x) f = f x"
  "pbind (Some (Inl e)) f = Some (Inl e)" "pbind (Some (Inr x)) f = f x"
  by (simp_all add: pbind_def ok_def raise_err_def)

lemma ok_simps [simp]: "ok x \<noteq> None" "raise_err e \<noteq> None" "ok x = ok y \<longleftrightarrow> x = y" "ok x \<noteq> raise_err e" "raise_err e \<noteq> ok x"
  "ok x = Some (Inr y) \<longleftrightarrow> x = y"
  by (auto simp: ok_def raise_err_def)

definition StringValue :: "('f, 'o) pack_env \<Rightarrow> ('f, 'o) pack_value \<Rightarrow> u8 list presult" where
  "StringValue env v = Some (case v of PStr s \<Rightarrow> Inr s | PVal x \<Rightarrow> string_value env x)"

text \<open>\<open>rb_to_int\<close>; a string has no conversion to an integer.\<close>

definition to_integer :: "('f, 'o) pack_env \<Rightarrow> ('f, 'o) pack_value \<Rightarrow> rb_int presult" where
  "to_integer env v =
     Some (case v of PVal (RInt i) \<Rightarrow> Inr i | PVal x \<Rightarrow> rb_to_int (pk_env env) x | PStr s \<Rightarrow> Inl TypeError)"

definition num2i32 :: "('f, 'o) pack_env \<Rightarrow> ('f, 'o) pack_value \<Rightarrow> u32 presult" where
  "num2i32 env v =
     pbind (to_integer env v) (\<lambda>i. ok (case i of VFix w \<Rightarrow> FIX2LONG w | VBig x \<Rightarrow> rb_big2ulong_pack x))"

section \<open>Arithmetic of \<open>long\<close>\<close>

definition long_of :: "int \<Rightarrow> int" where
  "long_of i = sint (word_of_int i :: u32)"

text \<open>Division by two of a \<open>long\<close>, which rounds towards zero.\<close>

definition half :: "int \<Rightarrow> int" where
  "half i = (if i < 0 then - (- i div 2) else i div 2)"

type_synonym u16 = "16 word"

definition swap16 :: "u16 \<Rightarrow> u16" where
  "swap16 x = push_bit 8 (x AND 0xFF) OR (drop_bit 8 x AND 0xFF)"

definition swap32 :: "u32 \<Rightarrow> u32" where
  "swap32 x = push_bit 24 (x AND 0xFF) OR (drop_bit 24 x AND 0xFF) OR push_bit 8 (x AND 0x0000FF00) OR drop_bit 8 (x AND 0x00FF0000)"

text \<open>\<open>swapd\<close> exchanges the two words of a \<open>double\<close> and swaps each.\<close>

definition swapd :: "u64 \<Rightarrow> u64" where
  "swapd d = ucast (swap32 (ucast (drop_bit 32 d))) OR push_bit 32 (ucast (swap32 (ucast d)))"

section \<open>The format string\<close>

text \<open>\<open>strchr(s, c)\<close> finds the terminator, too.\<close>

definition strchr :: "string \<Rightarrow> char \<Rightarrow> bool" where
  "strchr s c \<longleftrightarrow> c \<in> set s \<or> c = CHR 0x00"

datatype pack_count =
    Star
  | Count u32
  | NoCount bool \<comment> \<open>whether the format ends there\<close>

definition ISDIGIT :: "char \<Rightarrow> bool" where
  "ISDIGIT c \<longleftrightarrow> 48 \<le> code c \<and> code c \<le> 57"

definition parse_modifier :: "char \<Rightarrow> string \<Rightarrow> rb_error + string" where
  "parse_modifier type p =
     (case p of
        [] \<Rightarrow> Inr p
      | c # p' \<Rightarrow>
          if c = CHR ''_'' \<or> c = CHR ''!'' then
            if strchr ''sSiIlL'' type then Inr p' else Inl ArgError
          else Inr p)"

definition parse_count :: "string \<Rightarrow> rb_error + pack_count \<times> string" where
  "parse_count p =
     (case p of
        [] \<Rightarrow> Inr (NoCount True, p)
      | c # p' \<Rightarrow>
          if c = CHR ''*'' then Inr (Star, p')
          else if ISDIGIT c then
            (case ruby_strtoul p 10 of
               (len, n, errno) \<Rightarrow> if errno \<noteq> NoErr then Inl RangeError else Inr (Count len, drop n p))
          else Inr (NoCount False, p))"

text \<open>The next directive, its count, and the format behind it; \<open>None\<close> at the end.\<close>

function next_directive :: "string \<Rightarrow> (rb_error + char \<times> pack_count \<times> string) option" where
  "next_directive [] = None"
| "next_directive (type # p) =
     (if is_space type then next_directive p
      else if type = CHR ''#'' then next_directive (dropWhile (\<lambda>c. c \<noteq> CHR 0x0A) p)
      else
        Some (case parse_modifier type p of
                Inl e \<Rightarrow> Inl e
              | Inr p1 \<Rightarrow>
                  (case parse_count p1 of
                     Inl e \<Rightarrow> Inl e
                   | Inr (n, p2) \<Rightarrow> Inr (type, n, p2))))"
  by pat_completeness auto
termination
  by (relation "measure length") (simp_all add: le_imp_less_Suc length_dropWhile_le)

end
