(* ===== verification/PackUtf8.thy ===== *)
theory PackUtf8
  imports Prelude "HOL-Library.Monad_Syntax"
begin

text \<open>
  The UTF-8 codec of \<open>lib/ruby/pack.c\<close>, up to six bytes and 31 bits: \<open>rb_uv_to_utf8\<close> and \<open>utf8_to_uv\<close>.  The decoder accepts
  exactly what the encoder writes, and is its inverse.
\<close>

section \<open>Definitions\<close>

definition utf8_trail :: "u32 \<Rightarrow> nat \<Rightarrow> u8" where
  "utf8_trail uv k = ucast ((drop_bit k uv AND 0x3f) OR 0x80)"

definition utf8_lead :: "u32 \<Rightarrow> nat \<Rightarrow> u32 \<Rightarrow> u8" where
  "utf8_lead uv k m = ucast ((drop_bit k uv AND 0xff) OR m)"

definition rb_uv_to_utf8 :: "u32 \<Rightarrow> rb_error + u8 list" where
  "rb_uv_to_utf8 uv =
     (if uv \<le> 0x7f then Inr [ucast uv]
      else if uv \<le> 0x7ff then Inr [utf8_lead uv 6 0xc0, utf8_trail uv 0]
      else if uv \<le> 0xffff then Inr [utf8_lead uv 12 0xe0, utf8_trail uv 6, utf8_trail uv 0]
      else if uv \<le> 0x1fffff then Inr [utf8_lead uv 18 0xf0, utf8_trail uv 12, utf8_trail uv 6, utf8_trail uv 0]
      else if uv \<le> 0x3ffffff then
        Inr [utf8_lead uv 24 0xf8, utf8_trail uv 18, utf8_trail uv 12, utf8_trail uv 6, utf8_trail uv 0]
      else if uv \<le> 0x7fffffff then
        Inr [utf8_lead uv 30 0xfc, utf8_trail uv 24, utf8_trail uv 18, utf8_trail uv 12, utf8_trail uv 6, utf8_trail uv 0]
      else Inl RangeError)"

definition utf8_limits :: "u32 list" where
  "utf8_limits = [0x0, 0x80, 0x800, 0x10000, 0x200000, 0x4000000, 0x80000000]"

text \<open>The loop over the trailing bytes: \<open>None\<close> for a byte that is not one.\<close>

fun utf8_tail :: "nat \<Rightarrow> u32 \<Rightarrow> u8 list \<Rightarrow> u32 option" where
  "utf8_tail 0 uv p = Some uv"
| "utf8_tail (Suc n) uv [] = None"
| "utf8_tail (Suc n) uv (c # p) =
     (if ucast c AND (0xc0 :: u32) \<noteq> 0x80 then None
      else utf8_tail n (push_bit 6 uv OR (ucast c AND 0x3f)) p)"

text \<open>The length that the first byte announces, and the bits it carries.\<close>

definition utf8_head :: "u32 \<Rightarrow> (nat \<times> u32) option" where
  "utf8_head uv =
     (if uv AND 0x20 = 0 then Some (2, uv AND 0x1f)
      else if uv AND 0x10 = 0 then Some (3, uv AND 0x0f)
      else if uv AND 0x08 = 0 then Some (4, uv AND 0x07)
      else if uv AND 0x04 = 0 then Some (5, uv AND 0x03)
      else if uv AND 0x02 = 0 then Some (6, uv AND 0x01)
      else None)"

text \<open>\<open>p\<close> holds the \<open>*lenp\<close> bytes that are left, at least one; the result is the character and the new \<open>*lenp\<close>.\<close>

definition utf8_to_uv :: "u8 list \<Rightarrow> rb_error + u32 \<times> nat" where
  "utf8_to_uv p =
     (let uv = ucast (hd p) :: u32 in
      if uv AND 0x80 = 0 then Inr (uv, 1)
      else if uv AND 0x40 = 0 then Inl ArgError
      else
        (case utf8_head uv of
           None \<Rightarrow> Inl ArgError
         | Some (n, uv0) \<Rightarrow>
             if length p < n then Inl ArgError
             else
               (case utf8_tail (n - 1) uv0 (tl p) of
                  None \<Rightarrow> Inl ArgError
                | Some uv1 \<Rightarrow> if uv1 < utf8_limits ! (n - 1) then Inl ArgError else Inr (uv1, n))))"

section \<open>Bits\<close>

lemma utf8_bits:
  "bit (0x80 :: u32) n \<longleftrightarrow> n = 7" "bit (0xc0 :: u32) n \<longleftrightarrow> n = 6 \<or> n = 7" "bit (0x3f :: u32) n \<longleftrightarrow> n < 6"
  "bit (0xff :: u32) n \<longleftrightarrow> n < 8"
proof -
  have m: "(0x80 :: u32) = 2 ^ 7" "(0xc0 :: u32) = push_bit 6 (mask 2)" "(0x3f :: u32) = mask 6" "(0xff :: u32) = mask 8"
    by (simp_all add: mask_eq_exp_minus_1)
  show "bit (0x80 :: u32) n \<longleftrightarrow> n = 7" "bit (0xc0 :: u32) n \<longleftrightarrow> n = 6 \<or> n = 7" "bit (0x3f :: u32) n \<longleftrightarrow> n < 6"
    "bit (0xff :: u32) n \<longleftrightarrow> n < 8"
    unfolding m by (auto simp only: bit_exp_iff bit_push_bit_iff bit_mask_iff possible_bit_word) auto
qed

lemma trail_bits:
  "(ucast (utf8_trail uv k) :: u32) AND 0xc0 = 0x80" "(ucast (utf8_trail uv k) :: u32) AND 0x3f = drop_bit k uv AND 0x3f"
  unfolding utf8_trail_def
  by (rule bit_word_eqI, auto simp: bit_simps utf8_bits simp del: bit_numeral_word_iff)+

lemma trail_of_byte:
  assumes "ucast c AND (0xc0 :: u32) = 0x80" and "drop_bit k uv AND 0x3f = ucast c AND 0x3f"
  shows "utf8_trail uv k = c"
proof -
  have c: "bit c 7" "\<not> bit c 6"
    using arg_cong [OF assms(1), of "\<lambda>w. bit w 7"] arg_cong [OF assms(1), of "\<lambda>w. bit w 6"]
    by (auto simp: bit_simps utf8_bits simp del: bit_numeral_word_iff)
  have low: "n < 6 \<Longrightarrow> bit uv (k + n) = bit c n" for n
    using arg_cong [OF assms(2), of "\<lambda>w. bit w n"] by (auto simp: bit_simps utf8_bits simp del: bit_numeral_word_iff)
  show ?thesis
  proof (rule bit_word_eqI)
    fix n assume "n < LENGTH(8)"
    then consider "n < 6" | "n = 6" | "n = 7" by fastforce
    then show "bit (utf8_trail uv k) n = bit c n"
      by cases (use c low in \<open>auto simp: utf8_trail_def bit_simps utf8_bits simp del: bit_numeral_word_iff\<close>)
  qed
qed

lemma below_exp_drop:
  assumes "j \<le> k"
  shows "unat (drop_bit j (x :: u32)) < 2 ^ (k - j) \<longleftrightarrow> unat x < 2 ^ k"
  unfolding below_exp_bits bit_drop_bit_eq
proof (intro iffI allI impI)
  fix n assume h: "\<forall>n. (bit x \<circ> (+) j) n \<longrightarrow> n < k - j" and b: "bit x n"
  show "n < k"
  proof (cases "n < j")
    case False
    then show ?thesis using h [rule_format, of "n - j"] b by simp
  qed (use assms in simp)
next
  fix n assume "\<forall>n. bit x n \<longrightarrow> n < k" and "(bit x \<circ> (+) j) n"
  then have "j + n < k" by simp
  then show "n < k - j" by simp
qed

section \<open>Trailing bytes\<close>

definition utf8_trails :: "nat \<Rightarrow> u32 \<Rightarrow> u8 list" where
  "utf8_trails k uv = map (\<lambda>j. utf8_trail uv (6 * j)) (rev [0..<k])"

lemma length_utf8_trails [simp]: "length (utf8_trails k uv) = k"
  by (simp add: utf8_trails_def)

lemma utf8_trails_Suc: "utf8_trails (Suc k) uv = utf8_trail uv (6 * k) # utf8_trails k uv"
  by (simp add: utf8_trails_def)

lemma tail_step: "push_bit 6 (drop_bit 6 w) OR (w AND 0x3f) = (w :: u32)"
  by (rule bit_word_eqI) (auto simp: bit_simps utf8_bits simp del: bit_numeral_word_iff)

lemma utf8_tail_trails: "utf8_tail k (drop_bit (6 * k) uv) (utf8_trails k uv @ rest) = Some uv"
proof (induction k)
  case (Suc k)
  define y where "y = drop_bit (6 * k) uv"
  have "drop_bit (6 * Suc k) uv = drop_bit 6 y" by (simp add: y_def drop_bit_drop_bit add.commute)
  then show ?case using Suc by (simp add: utf8_trails_Suc trail_bits tail_step del: mult_Suc_right flip: y_def)
qed (simp add: utf8_trails_def)

lemma utf8_tail_inv:
  "utf8_tail k x p = Some uv \<Longrightarrow> unat x < 2 ^ (32 - 6 * k) \<Longrightarrow> 6 * k \<le> 32 \<Longrightarrow>
    k \<le> length p \<and> take k p = utf8_trails k uv \<and> drop_bit (6 * k) uv = x"
proof (induction k x p rule: utf8_tail.induct)
  case (3 n x c p)
  define x' where "x' = push_bit 6 x OR (ucast c AND 0x3f)"
  have c: "ucast c AND (0xc0 :: u32) = 0x80" and r: "utf8_tail n x' p = Some uv"
    using "3.prems"(1) by (auto simp: x'_def split: if_splits)
  have b: "bit x m \<Longrightarrow> m < 32 - 6 * Suc n" for m using "3.prems"(2) below_exp_bits by blast
  have "bit x' m \<Longrightarrow> m < 32 - 6 * n" for m
    using b [of "m - 6"] "3.prems"(3) by (auto simp: x'_def bit_simps utf8_bits simp del: bit_numeral_word_iff)
  then have x': "unat x' < 2 ^ (32 - 6 * n)" by (simp add: below_exp_bits)
  have drop: "drop_bit 6 x' = x"
    by (rule bit_word_eqI) (use b in \<open>fastforce simp: x'_def bit_simps utf8_bits simp del: bit_numeral_word_iff\<close>)
  have low: "x' AND 0x3f = ucast c AND 0x3f"
    by (rule bit_word_eqI) (auto simp: x'_def bit_simps utf8_bits simp del: bit_numeral_word_iff)
  have "6 * n \<le> 32" using "3.prems"(3) by simp
  with "3.IH" [OF _ r [unfolded x'_def] x' [unfolded x'_def]] c
  have IH: "n \<le> length p" "take n p = utf8_trails n uv" "drop_bit (6 * n) uv = x'" by (simp_all add: x'_def)
  have "drop_bit (6 * Suc n) uv = drop_bit 6 (drop_bit (6 * n) uv)" by (simp add: drop_bit_drop_bit add.commute)
  moreover have "utf8_trail uv (6 * n) = c" by (rule trail_of_byte [OF c]) (simp add: IH(3) low)
  ultimately show ?case using IH drop by (simp add: utf8_trails_Suc del: mult_Suc_right)
qed (simp_all add: utf8_trails_def)

section \<open>First bytes\<close>

definition utf8_mark :: "nat \<Rightarrow> u32" where
  "utf8_mark n = push_bit (8 - n) (mask n)"

lemma and_single_bit:
  "uv AND 0x80 = 0 \<longleftrightarrow> \<not> bit (uv :: u32) 7" "uv AND 0x40 = 0 \<longleftrightarrow> \<not> bit uv 6" "uv AND 0x20 = 0 \<longleftrightarrow> \<not> bit uv 5"
  "uv AND 0x10 = 0 \<longleftrightarrow> \<not> bit uv 4" "uv AND 0x08 = 0 \<longleftrightarrow> \<not> bit uv 3" "uv AND 0x04 = 0 \<longleftrightarrow> \<not> bit uv 2"
  "uv AND 0x02 = 0 \<longleftrightarrow> \<not> bit uv 1"
  using and_exp_eq_0_iff_not_bit [of uv 7] and_exp_eq_0_iff_not_bit [of uv 6] and_exp_eq_0_iff_not_bit [of uv 5]
    and_exp_eq_0_iff_not_bit [of uv 4] and_exp_eq_0_iff_not_bit [of uv 3] and_exp_eq_0_iff_not_bit [of uv 2]
    and_exp_eq_0_iff_not_bit [of uv 1]
  by simp_all

lemma utf8_head_byte:
  assumes "utf8_head (ucast b) = Some (n, x)" and "ucast (b :: u8) AND (0x80 :: u32) \<noteq> 0" and "ucast b AND (0x40 :: u32) \<noteq> 0"
  shows "2 \<le> n \<and> n \<le> 6 \<and> unat x < 2 ^ (7 - n) \<and> b = ucast ((x AND 0xff) OR utf8_mark n)"
proof -
  have m: "x AND (0x1f :: u32) = take_bit 5 x" "x AND (0x0f :: u32) = take_bit 4 x" "x AND (0x07 :: u32) = take_bit 3 x"
    "x AND (0x03 :: u32) = take_bit 2 x" "x AND (0x01 :: u32) = take_bit 1 x" for x
    by (simp_all add: take_bit_eq_mask mask_eq_exp_minus_1)
  have b76: "bit b 7" "bit b 6" using assms(2,3) by (simp_all add: and_single_bit bit_simps)
  from assms(1) have c: "n = 2 \<and> x = take_bit 5 (ucast b) \<and> \<not> bit b 5
    \<or> n = 3 \<and> x = take_bit 4 (ucast b) \<and> bit b 5 \<and> \<not> bit b 4
    \<or> n = 4 \<and> x = take_bit 3 (ucast b) \<and> bit b 5 \<and> bit b 4 \<and> \<not> bit b 3
    \<or> n = 5 \<and> x = take_bit 2 (ucast b) \<and> bit b 5 \<and> bit b 4 \<and> bit b 3 \<and> \<not> bit b 2
    \<or> n = 6 \<and> x = take_bit 1 (ucast b) \<and> bit b 5 \<and> bit b 4 \<and> bit b 3 \<and> bit b 2 \<and> \<not> bit b 1"
    by (auto simp: utf8_head_def and_single_bit m bit_simps split: if_splits)
  have e0: "even (ucast b :: u32) \<longleftrightarrow> \<not> bit b 0" using bit_0 [of "ucast b :: u32"] by (simp add: bit_simps)
  have "b = ucast ((x AND 0xff) OR utf8_mark n)"
    by (rule u8_eqI) (use c b76 in \<open>auto simp: utf8_mark_def bit_simps utf8_bits e0 simp del: bit_numeral_word_iff\<close>)
  moreover have "unat x < 2 ^ (7 - n)"
    unfolding below_exp_bits using c by (auto simp: bit_simps)
  ultimately show ?thesis using c by auto
qed
lemma utf8_head_of_mark:
  assumes n: "2 \<le> n" "n \<le> 6" and x: "unat (x :: u32) < 2 ^ (7 - n)" and b: "b = ucast ((x AND 0xff) OR utf8_mark n)"
  shows "ucast (b :: u8) AND (0x80 :: u32) \<noteq> 0" and "ucast b AND (0x40 :: u32) \<noteq> 0" and "utf8_head (ucast b) = Some (n, x)"
proof -
  have xb: "bit x m \<Longrightarrow> m < 7 - n" for m using x below_exp_bits by blast
  have bits: "bit (ucast b :: u32) m \<longleftrightarrow> m < 8 \<and> (bit x m \<or> 8 - n \<le> m)" for m
    using n xb [of m] by (auto simp: b utf8_mark_def bit_simps utf8_bits simp del: bit_numeral_word_iff)
  have "8 - n \<le> 6" using n by linarith
  then show "ucast b AND (0x80 :: u32) \<noteq> 0" "ucast b AND (0x40 :: u32) \<noteq> 0"
    unfolding and_single_bit bits by auto
  have low: "take_bit (7 - n) (ucast b :: u32) = x"
  proof (rule bit_eqI)
    fix k show "bit (take_bit (7 - n) (ucast b :: u32)) k = bit x k"
      using xb [of k] n unfolding bit_take_bit_iff bits by auto
  qed
  have m: "(0x1f :: u32) = mask 5" "(0x0f :: u32) = mask 4" "(0x07 :: u32) = mask 3" "(0x03 :: u32) = mask 2" "(0x01 :: u32) = mask 1"
    by (simp_all add: mask_eq_exp_minus_1)
  have nb: "\<not> bit x (7 - n)" using xb [of "7 - n"] by auto
  consider "n = 2" | "n = 3" | "n = 4" | "n = 5" | "n = 6" using n by linarith
  then show "utf8_head (ucast b) = Some (n, x)"
    by cases (use nb low in \<open>simp_all add: utf8_head_def and_single_bit bits m take_bit_eq_mask [symmetric] del: take_bit_Suc mask_Suc_0\<close>)
qed

section \<open>The codec\<close>

text \<open>The sequence of \<open>n\<close> bytes for \<open>uv\<close>, and when it is the one to use.\<close>

definition utf8_form :: "nat \<Rightarrow> u32 \<Rightarrow> u8 list" where
  "utf8_form n uv = utf8_lead uv (6 * (n - 1)) (utf8_mark n) # utf8_trails (n - 1) uv"

lemma utf8_limits_exp: "2 \<le> n \<Longrightarrow> n \<le> 6 \<Longrightarrow> unat (utf8_limits ! n) = 2 ^ (5 * n + 1)"
proof -
  assume "2 \<le> n" "n \<le> 6"
  then consider "n = 2" | "n = 3" | "n = 4" | "n = 5" | "n = 6" by linarith
  then show ?thesis by cases (simp_all add: utf8_limits_def)
qed

lemma rb_uv_to_utf8_form:
  assumes "2 \<le> n" and "n \<le> 6" and "utf8_limits ! (n - 1) \<le> uv" and "uv < utf8_limits ! n"
  shows "rb_uv_to_utf8 uv = Inr (utf8_form n uv)"
proof -
  consider "n = 2" | "n = 3" | "n = 4" | "n = 5" | "n = 6" using assms(1,2) by linarith
  then show ?thesis
    by cases (use assms(3,4) in
      \<open>simp_all add: rb_uv_to_utf8_def utf8_limits_def utf8_form_def utf8_trails_def utf8_mark_def
        mask_eq_exp_minus_1 upt_rec word_le_nat_alt word_less_nat_alt\<close>)
qed

lemma drop_bit_limit:
  "2 \<le> n \<Longrightarrow> n \<le> 6 \<Longrightarrow> unat (drop_bit (6 * (n - 1)) uv) < 2 ^ (7 - n) \<longleftrightarrow> uv < utf8_limits ! n"
  using below_exp_drop [of "6 * (n - 1)" "5 * n + 1" uv] utf8_limits_exp [of n]
  by (simp add: word_less_nat_alt algebra_simps)

lemma utf8_form_decodes:
  assumes n: "2 \<le> n" "n \<le> 6" and lim: "utf8_limits ! (n - 1) \<le> uv" "uv < utf8_limits ! n"
  shows "utf8_to_uv (utf8_form n uv @ rest) = Inr (uv, n)"
proof -
  define b where "b = utf8_lead uv (6 * (n - 1)) (utf8_mark n)"
  have x: "unat (drop_bit (6 * (n - 1)) uv) < 2 ^ (7 - n)" using drop_bit_limit [OF n] lim(2) by simp
  note h = utf8_head_of_mark [OF n x b_def [unfolded utf8_lead_def]]
  have "utf8_tail (n - 1) (drop_bit (6 * (n - 1)) uv) (utf8_trails (n - 1) uv @ rest) = Some uv" by (rule utf8_tail_trails)
  moreover have "utf8_form n uv @ rest = b # (utf8_trails (n - 1) uv @ rest)" by (simp only: utf8_form_def b_def append_Cons)
  moreover have "\<not> Suc (n - 1 + length rest) < n" by simp
  ultimately show ?thesis
    using h lim(1) by (simp add: utf8_to_uv_def Let_def not_less del: One_nat_def)
qed

theorem utf8_decode_encode:
  assumes "uv \<le> 0x7fffffff"
  shows "\<exists>bs. rb_uv_to_utf8 uv = Inr bs \<and> 0 < length bs \<and> length bs \<le> 6
    \<and> (\<forall>rest. utf8_to_uv (bs @ rest) = Inr (uv, length bs))"
proof (cases "uv \<le> 0x7f")
  case True
  have u: "ucast (ucast uv :: u8) = uv"
  proof -
    have "unat uv < 2 ^ 7" using True by (simp add: word_le_nat_alt)
    then have "bit uv n \<Longrightarrow> n < 7" for n using below_exp_bits by blast
    then show ?thesis by (intro bit_word_eqI) (fastforce simp: bit_simps)
  qed
  have "\<not> bit uv 7" using True below_exp_bits [of uv 7] by (auto simp: word_le_nat_alt)
  with True u show ?thesis by (simp add: rb_uv_to_utf8_def utf8_to_uv_def and_single_bit)
next
  case False
  define ok where "ok n \<longleftrightarrow> utf8_limits ! (n - 1) \<le> uv \<and> uv < utf8_limits ! n" for n
  have "ok 2 \<or> ok 3 \<or> ok 4 \<or> ok 5 \<or> ok 6"
    using assms False by (auto simp: ok_def utf8_limits_def word_le_nat_alt word_less_nat_alt)
  then obtain n where n: "2 \<le> n" "n \<le> 6" "ok n" by (elim disjE) (rule that, simp_all)+
  with rb_uv_to_utf8_form [of n uv] utf8_form_decodes [of n uv] show ?thesis
    by (auto simp: ok_def utf8_form_def)
qed

lemma seven_bits: "\<not> bit (b :: u8) 7 \<Longrightarrow> bit b m \<Longrightarrow> m < 7"
proof -
  assume "\<not> bit b 7" and m: "bit b m"
  then have "m \<noteq> 7" by metis
  moreover have "m < 8" using bit_imp_le_length [OF m] by simp
  ultimately show "m < 7" by linarith
qed

theorem utf8_encode_decode:
  assumes p: "p \<noteq> []" and d: "utf8_to_uv p = Inr (uv, n)"
  shows "rb_uv_to_utf8 uv = Inr (take n p) \<and> 0 < n \<and> n \<le> length p \<and> uv \<le> 0x7fffffff"
proof -
  obtain b q where pq: "p = b # q" using p by (cases p) auto
  show ?thesis
  proof (cases "ucast b AND (0x80 :: u32) = 0")
    case True
    then have uv: "uv = ucast b" "n = 1" using d by (simp_all add: utf8_to_uv_def pq)
    have "\<not> bit b 7" using True by (simp add: and_single_bit bit_simps)
    then have "\<forall>m. bit (ucast b :: u32) m \<longrightarrow> m < 7" by (auto simp: bit_simps intro: seven_bits)
    then have "unat uv < 2 ^ 7" unfolding uv below_exp_bits .
    then have "uv \<le> 0x7f" by (simp add: word_le_nat_alt)
    moreover have "ucast uv = b" unfolding uv by (rule bit_word_eqI) (simp add: bit_simps)
    ultimately show ?thesis by (simp add: rb_uv_to_utf8_def uv(2) pq) (simp add: word_le_nat_alt)
  next
    case hi: False
    note d' = d [unfolded utf8_to_uv_def pq Let_def list.sel]
    have hi2: "ucast b AND (0x40 :: u32) \<noteq> 0" using d' hi by (auto split: if_splits)
    obtain m x where mx: "utf8_head (ucast b) = Some (m, x)"
      using d' hi hi2 by (cases "utf8_head (ucast b)") auto
    have len: "m \<le> Suc (length q)" using d' hi hi2 mx by (auto split: if_splits)
    obtain w where w: "utf8_tail (m - 1) x q = Some w"
      using d' hi hi2 mx len by (cases "utf8_tail (m - 1) x q") auto
    have "\<not> w < utf8_limits ! (m - 1) \<and> w = uv \<and> n = m"
      using d' hi hi2 mx len w by (simp split: if_splits)
    with hi2 mx len w have m: "ucast b AND (0x40 :: u32) \<noteq> 0" "utf8_head (ucast b) = Some (m, x)" "m \<le> Suc (length q)"
      "utf8_tail (m - 1) x q = Some uv" "\<not> uv < utf8_limits ! (m - 1)" "n = m" by blast+
    from utf8_head_byte [OF m(2) hi m(1)] have h: "2 \<le> m" "m \<le> 6" "unat x < 2 ^ (7 - m)" "b = ucast ((x AND 0xff) OR utf8_mark m)"
      by simp_all
    have "(2 :: nat) ^ (7 - m) \<le> 2 ^ (32 - 6 * (m - 1))" using h(1,2) by (intro power_increasing) auto
    with h(3) have "unat x < 2 ^ (32 - 6 * (m - 1))" by linarith
    from utf8_tail_inv [OF m(4) this] h(2) have
      t: "m - 1 \<le> length q" "take (m - 1) q = utf8_trails (m - 1) uv" "drop_bit (6 * (m - 1)) uv = x" by simp_all
    have lim: "uv < utf8_limits ! m" using drop_bit_limit [OF h(1,2), of uv] h(3) t(3) by simp
    from rb_uv_to_utf8_form [OF h(1,2) _ lim] m(5) have "rb_uv_to_utf8 uv = Inr (utf8_form m uv)" by simp
    moreover have "utf8_form m uv = take m p"
      using t h(1) by (cases m) (simp_all add: utf8_form_def utf8_lead_def h(4) pq)
    moreover have "unat uv < 2 ^ 31"
    proof -
      have "(2 :: nat) ^ (5 * m + 1) \<le> 2 ^ 31" using h(2) by (intro power_increasing) simp_all
      with lim utf8_limits_exp [OF h(1,2)] show ?thesis by (simp add: word_less_nat_alt)
    qed
    ultimately show ?thesis using m(3,6) h(1) by (simp add: pq word_le_nat_alt)
  qed
qed

end
