(* ===== verification/PackBer.thy ===== *)
theory PackBer
  imports BigDivMod
begin

text \<open>
  The directive \<open>w\<close> of \<open>lib/ruby/pack.c\<close>, BER-compressed integers of any size: seven bits per byte, the most significant
  first, the top bit set on all bytes but the last.  Both directions use the \<open>Bignum\<close> arithmetic where a
  \<open>long\<close> does not suffice.
\<close>

section \<open>Definitions\<close>

definition big128 :: rb_int where
  "big128 = VBig (rb_uint2big 128)"

text \<open>
  Packing: \<open>Bignum\<close>s are divided by 128 with \<open>rb_big_divmod\<close>, the bytes collected in \<open>buf\<close>.  \<open>None\<close> means that an object is
  taken for one of another type.
\<close>

partial_function (option) ber_big ::
  "('f, 'o) rb_env \<Rightarrow> (nat \<Rightarrow> bool) \<Rightarrow> ('f, 'o) rb_value \<Rightarrow> u8 list \<Rightarrow> (rb_error + ('f, 'o) rb_value \<times> u8 list) option" where
  "ber_big env stop v buf =
     (case v of
        RInt (VBig x) \<Rightarrow>
          (case rb_big_divmod env stop x (RInt big128) of
             None \<Rightarrow> None
           | Some (Inl e) \<Rightarrow> Some (Inl e)
           | Some (Inr (RPair q r)) \<Rightarrow>
               (case rb_num2long env r of
                  Inl e \<Rightarrow> Some (Inl e)
                | Inr c \<Rightarrow> ber_big env stop q (buf @ [ucast c OR 0x80]))
           | _ \<Rightarrow> None)
      | _ \<Rightarrow> Some (Inr (v, buf)))"

function ber_long :: "u32 \<Rightarrow> u8 list \<Rightarrow> u8 list" where
  "ber_long ul buf = (if ul = 0 then buf else ber_long (drop_bit 7 ul) (buf @ [ucast ((ul AND 0x7f) OR 0x80)]))"
  by pat_completeness auto
termination
proof (relation "measure (\<lambda>(ul, buf). unat ul)")
  fix ul :: u32 and buf :: "u8 list" assume "ul \<noteq> 0"
  then have "0 < uint ul" by (simp add: uint_u32_neq_0)
  then have "drop_bit 7 ul < ul" by (simp add: word_less_def uint_drop_bit)
  then show "((drop_bit 7 ul, buf @ [ucast ((ul AND 0x7f) OR 0x80)]), ul, buf) \<in> measure (\<lambda>(ul, buf). unat ul)"
    by (simp add: word_less_nat_alt)
qed simp

declare ber_long.simps [simp del]

definition pack_w :: "('f, 'o) rb_env \<Rightarrow> (nat \<Rightarrow> bool) \<Rightarrow> ('f, 'o) rb_value \<Rightarrow> (rb_error + u8 list) option" where
  "pack_w env stop v =
     (case ber_big env stop v [] of
        None \<Rightarrow> None
      | Some (Inl e) \<Rightarrow> Some (Inl e)
      | Some (Inr (v, buf)) \<Rightarrow>
          (case rb_num2long env v of
             Inl e \<Rightarrow> Some (Inl e)
           | Inr l \<Rightarrow>
               if sint l < 0 then Some (Inl ArgError)
               else
                 (case ber_long l buf of
                    [] \<Rightarrow> Some (Inr [0])
                  | b # bs \<Rightarrow> Some (Inr (rev ((b AND 0x7f) # bs))))))"

text \<open>Unpacking: the inner loop, which continues in \<open>Bignum\<close>s.  The result is the integer, unless the string ends, and the rest.\<close>

fun unber_big ::
  "('f, 'o) rb_env \<Rightarrow> (nat \<Rightarrow> bool) \<Rightarrow> rbignum \<Rightarrow> u8 list \<Rightarrow> (rb_error + ('f, 'o) rb_value option \<times> u8 list) option" where
  "unber_big env stop big [] = Some (Inr (None, []))"
| "unber_big env stop big (c # s) =
     (case rb_big_mul env stop big (RInt big128) of
        Inl e \<Rightarrow> Some (Inl e)
      | Inr (RInt (VBig b)) \<Rightarrow>
          (case rb_big_plus env b (RInt (VBig (rb_uint2big (ucast (c AND 0x7f))))) of
             Inl e \<Rightarrow> Some (Inl e)
           | Inr v \<Rightarrow>
               if c AND 0x80 = 0 then Some (Inr (Some v, s))
               else (case v of RInt (VBig b') \<Rightarrow> unber_big env stop b' s | _ \<Rightarrow> None))
      | _ \<Rightarrow> None)"

partial_function (option) unpack_w ::
  "('f, 'o) rb_env \<Rightarrow> (nat \<Rightarrow> bool) \<Rightarrow> int \<Rightarrow> u32 \<Rightarrow> u8 list \<Rightarrow> ('f, 'o) rb_value list
    \<Rightarrow> (rb_error + ('f, 'o) rb_value list \<times> u8 list) option" where
  "unpack_w env stop len ul s out =
     (case s of
        [] \<Rightarrow> Some (Inr (out, s))
      | c # s' \<Rightarrow>
          if len \<le> 0 then Some (Inr (out, s))
          else
            (let ul = push_bit 7 ul OR (ucast c AND 0x7f) in
             if c AND 0x80 = 0 then unpack_w env stop (len - 1) 0 s' (out @ [RInt (rb_uint2inum ul)])
             else if ul AND 0xfe000000 \<noteq> 0 then
               (case unber_big env stop (rb_uint2big ul) s' of
                  None \<Rightarrow> None
                | Some (Inl e) \<Rightarrow> Some (Inl e)
                | Some (Inr (None, s'')) \<Rightarrow> Some (Inr (out, s''))
                | Some (Inr (Some v, s'')) \<Rightarrow> unpack_w env stop (len - 1) 0 s'' (out @ [v]))
             else unpack_w env stop len ul s' out))"

declare ber_big.simps [code] unpack_w.simps [code]

section \<open>Digits of seven bits\<close>

text \<open>The bytes of a number, least significant first, and the number that continued bytes denote.\<close>

function base128 :: "int \<Rightarrow> u8 list" where
  "base128 n = (if n \<le> 0 then [] else word_of_int (n mod 128) # base128 (n div 128))"
  by pat_completeness auto
termination by (relation "measure nat") (auto simp: nat_mono_iff)

declare base128.simps [simp del]

definition with_more :: "u8 \<Rightarrow> u8" where
  "with_more d = d OR 0x80"

definition be_val :: "int \<Rightarrow> u8 list \<Rightarrow> int" where
  "be_val v ds = foldl (\<lambda>v d. v * 128 + uint d) v ds"

definition ber_bytes :: "int \<Rightarrow> u8 list" where
  "ber_bytes n = (case base128 n of [] \<Rightarrow> [0] | d # ds \<Rightarrow> rev (d # map with_more ds))"

lemma base128_small: "d \<in> set (base128 n) \<Longrightarrow> uint d < 128"
proof (induction n rule: base128.induct)
  case (1 n)
  have "uint (word_of_int (n mod 128) :: u8) = n mod 128" by (simp add: uint_word_of_int)
  with 1 show ?case by (simp add: base128.simps [of n] split: if_splits) fastforce
qed

lemma be_val_base128: "0 \<le> n \<Longrightarrow> be_val 0 (rev (base128 n)) = n"
proof (induction n rule: base128.induct)
  case (1 n)
  show ?case
  proof (cases "n \<le> 0")
    case False
    have "uint (word_of_int (n mod 128) :: u8) = n mod 128" by (simp add: uint_word_of_int)
    moreover have "be_val 0 (rev (base128 (n div 128))) = n div 128" using 1 False by simp
    ultimately show ?thesis using False by (simp add: base128.simps [of n] be_val_def)
  qed (use 1 in \<open>simp add: base128.simps be_val_def\<close>)
qed

lemma low7_bits: "bit (0x7f :: 'a :: len word) n \<longleftrightarrow> n < LENGTH('a) \<and> n < 7" "bit (0x80 :: 'a :: len word) n \<longleftrightarrow> n < LENGTH('a) \<and> n = 7"
proof -
  have m: "(0x7f :: 'a word) = mask 7" "(0x80 :: 'a word) = 2 ^ 7" by (simp_all add: mask_eq_exp_minus_1)
  show "bit (0x7f :: 'a word) n \<longleftrightarrow> n < LENGTH('a) \<and> n < 7" "bit (0x80 :: 'a word) n \<longleftrightarrow> n < LENGTH('a) \<and> n = 7"
    unfolding m by (auto simp only: bit_mask_iff bit_exp_iff possible_bit_word)
qed

lemma below_128: "uint (d :: u8) < 128 \<longleftrightarrow> \<not> bit d 7"
proof -
  have "uint d < 128 \<longleftrightarrow> d < 128" by (simp add: word_less_def)
  also have "\<dots> \<longleftrightarrow> unat d < 2 ^ 7" by (simp add: word_less_nat_alt)
  also have "\<dots> \<longleftrightarrow> \<not> bit d 7"
  proof
    assume "\<not> bit d 7"
    then have "bit d n \<Longrightarrow> n < 7" for n using bit_imp_le_length [of d n] by (cases "n = 7") auto
    then show "unat d < 2 ^ 7" unfolding below_exp_bits by blast
  qed (use below_exp_bits [of d 7] in blast)
  finally show ?thesis .
qed

lemma bit_with_more: "bit (with_more d) n \<longleftrightarrow> n = 7 \<or> bit d n"
  by (auto simp: with_more_def bit_or_iff low7_bits simp del: bit_numeral_word_iff)

lemma with_more [simp]:
  "uint d < 128 \<Longrightarrow> with_more d AND 0x7f = d" "with_more d AND 0x80 \<noteq> 0" "uint d < 128 \<Longrightarrow> d AND 0x80 = 0" "uint d < 128 \<Longrightarrow> d AND 0x7f = d"
proof -
  show "with_more d AND 0x80 \<noteq> 0"
    using and_exp_eq_0_iff_not_bit [of "with_more d" 7] by (simp add: bit_with_more)
  assume d: "uint d < 128"
  then have n7: "\<not> bit d 7" by (simp add: below_128)
  have eq: "w AND 0x7f = d" if "\<And>n. n < 7 \<Longrightarrow> bit w n = bit d n" for w :: u8
  proof (rule bit_word_eqI)
    fix n assume "n < LENGTH(8)"
    then show "bit (w AND 0x7f) n = bit d n"
      using that [of n] n7 unfolding bit_and_iff low7_bits by (cases "n = 7") auto
  qed
  show "with_more d AND 0x7f = d" "d AND 0x7f = d" by (rule eq, simp add: bit_with_more)+
  show "d AND 0x80 = 0" using and_exp_eq_0_iff_not_bit [of d 7] n7 by simp
qed

section \<open>Packing\<close>

lemma and_7f_mod: "uint ((x :: u32) AND 0x7f) = uint x mod 128"
proof -
  have "x AND 0x7f = take_bit 7 x" by (simp add: take_bit_eq_mask mask_eq_exp_minus_1)
  then have "uint (x AND 0x7f) = take_bit 7 (uint x)" by (simp only: unsigned_take_bit_eq)
  then show ?thesis by (simp add: take_bit_eq_mod)
qed

lemma u8_of_low7: "(ucast ((x :: u32) AND 0x7f) :: u8) = word_of_int (uint x mod 128)"
  by (simp add: word_uint_eq_iff uint_word_of_int unsigned_ucast_eq take_bit_eq_mod and_7f_mod)

lemma ber_long_digits: "ber_long ul buf = buf @ map with_more (base128 (uint ul))"
proof (induction ul buf rule: ber_long.induct)
  case (1 ul buf)
  show ?case
  proof (cases "ul = 0")
    case False
    then have "0 < uint ul" by (simp add: uint_u32_neq_0)
    moreover have "ucast ((ul AND 0x7f) OR 0x80) = with_more (ucast (ul AND 0x7f))"
      unfolding with_more_def by (rule bit_word_eqI) (auto simp: bit_simps low7_bits simp del: bit_numeral_word_iff)
    ultimately show ?thesis
      using False 1 by (simp add: ber_long.simps [of ul] base128.simps [of "uint ul"] u8_of_low7 uint_drop_bit)
  qed (simp add: ber_long.simps base128.simps)
qed

lemma small_is_fix:
  assumes "normal_int v" and "0 \<le> int_of v" and "int_of v < 2 ^ 30"
  shows "\<exists>w. v = VFix w \<and> uint (FIX2LONG w) = int_of v \<and> sint (FIX2LONG w) = int_of v"
proof (cases v)
  case (VFix w)
  then have "uint (FIX2LONG w) = int_of v \<and> sint (FIX2LONG w) = int_of v"
    using assms(2) sint_of_uint_u32 [of "FIX2LONG w"] u32_bounds [of "FIX2LONG w"] by (auto split: if_splits)
  with VFix show ?thesis by blast
qed (use assms in \<open>auto simp: fixable_defs\<close>)

lemma big128_divmod:
  assumes "\<forall>k. \<not> stop k" and "normal_int (VBig x)"
  shows "\<exists>q r. rb_big_divmod env stop x (RInt big128) = Some (Inr (RPair (RInt q) (RInt r))) \<and> normal_int q \<and> normal_int r
    \<and> int_of q = big_int x div 128 \<and> int_of r = big_int x mod 128"
proof -
  have y: "digits_ok (big_digits (rb_uint2big 128))" "big_int (rb_uint2big 128) = 128" "sign_ok (rb_uint2big 128)"
    by (simp_all add: sign_ok_def)
  from bigdivmod_correct [OF assms(1) y(1) _ sign_ok_normal [OF assms(2)] y(3)] y(2)
  obtain d m where dm: "bigdivmod stop x (rb_uint2big 128) = Some (Inr (d, m))" "big_int d = big_int x div 128" "big_int m = big_int x mod 128"
    by auto
  then show ?thesis
    using is_int_value_norm [OF dm(2)] is_int_value_norm [OF dm(3)]
    by (auto simp: rb_big_divmod_def big128_def to_big_def is_int_value_def)
qed

lemma ber_big_digits:
  assumes "\<forall>k. \<not> stop k"
  shows "normal_int v \<Longrightarrow> 0 \<le> int_of v \<Longrightarrow>
    \<exists>w ds. ber_big env stop (RInt v) buf = Some (Inr (RInt (VFix w), buf @ map with_more ds)) \<and> normal_int (VFix w)
      \<and> 0 \<le> int_of (VFix w) \<and> base128 (int_of v) = ds @ base128 (int_of (VFix w))"
proof (induction "nat (int_of v)" arbitrary: v buf rule: less_induct)
  case less
  show ?case
  proof (cases v)
    case (VFix w)
    with less.prems show ?thesis by (subst ber_big.simps) (auto intro!: exI [of _ "[]"])
  next
    case (VBig x)
    obtain q r where qr: "rb_big_divmod env stop x (RInt big128) = Some (Inr (RPair (RInt q) (RInt r)))" "normal_int q" "normal_int r"
      "int_of q = int_of v div 128" "int_of r = int_of v mod 128"
      using big128_divmod [OF assms, of x env] less.prems(1) VBig by auto
    have pos: "0 < int_of v" using less.prems VBig by (auto simp: fixable_defs le_less)
    have small128: "0 \<le> int_of v mod 128" "int_of v mod 128 < 2 ^ 30"
      using pos_mod_bound [of 128 "int_of v"] pos_mod_sign [of 128 "int_of v"] by simp_all
    obtain c where c: "r = VFix c" "uint (FIX2LONG c) = int_of v mod 128"
      using small_is_fix [OF qr(3), unfolded qr(5)] small128 by blast
    have "(ucast (FIX2LONG c) :: u8) = word_of_int (int_of v mod 128)"
      by (simp add: word_uint_eq_iff uint_word_of_int unsigned_ucast_eq take_bit_eq_mod c(2))
    then have step: "ber_big env stop (RInt v) buf = ber_big env stop (RInt q) (buf @ [with_more (word_of_int (int_of v mod 128))])"
      using qr(1) by (subst ber_big.simps) (simp add: VBig c(1) rb_num2long_def with_more_def)
    have "nat (int_of q) < nat (int_of v)" "0 \<le> int_of q" using pos qr(4) by (simp_all add: nat_mono_iff pos_imp_zdiv_nonneg_iff)
    from less.hyps [OF this(1) qr(2) this(2)] obtain w ds where
      w: "ber_big env stop (RInt q) (buf @ [with_more (word_of_int (int_of v mod 128))])
        = Some (Inr (RInt (VFix w), (buf @ [with_more (word_of_int (int_of v mod 128))]) @ map with_more ds))"
      "normal_int (VFix w)" "0 \<le> int_of (VFix w)" "base128 (int_of q) = ds @ base128 (int_of (VFix w))" by blast
    have "base128 (int_of v) = (word_of_int (int_of v mod 128) # ds) @ base128 (int_of (VFix w))"
      using pos w(4) by (simp add: base128.simps [of "int_of v"] qr(4))
    with w step show ?thesis by (intro exI [of _ w] exI [of _ "word_of_int (int_of v mod 128) # ds"]) simp
  qed
qed

lemma pack_w_bytes:
  assumes "\<forall>k. \<not> stop k" and "normal_int v" and "0 \<le> int_of v"
  shows "pack_w env stop (RInt v) = Some (Inr (ber_bytes (int_of v)))"
proof -
  obtain w ds where w: "ber_big env stop (RInt v) [] = Some (Inr (RInt (VFix w), map with_more ds))" "normal_int (VFix w)"
    "0 \<le> int_of (VFix w)" "base128 (int_of v) = ds @ base128 (int_of (VFix w))"
    using ber_big_digits [OF assms, of env "[]"] by auto
  have l: "uint (FIX2LONG w) = int_of (VFix w)" "0 \<le> sint (FIX2LONG w)"
    using w(3) sint_of_uint_u32 [of "FIX2LONG w"] u32_bounds [of "FIX2LONG w"] by (auto split: if_splits)
  have "ber_long (FIX2LONG w) (map with_more ds) = map with_more (base128 (int_of v))"
    using l w(4) by (simp add: ber_long_digits)
  then show ?thesis
    using l(2) base128_small [of _ "int_of v"]
    by (simp add: pack_w_def w(1) rb_num2long_def ber_bytes_def split: list.split)
qed

section \<open>Unpacking\<close>

lemma be_val_Cons: "be_val v (d # ds) = be_val (v * 128 + uint d) ds"
  by (simp add: be_val_def)

lemma uint_ucast_u8_u32 [simp]: "uint (ucast (d :: u8) :: u32) = uint d"
  by (rule uint_up_ucast) (simp add: is_up_def source_size_def target_size_def word_size)

lemma normal_bigger: "is_int_value r i \<Longrightarrow> 2 ^ 30 \<le> i \<Longrightarrow> \<exists>b. r = RInt (VBig b) \<and> digits_ok (big_digits b) \<and> big_int b = i"
  unfolding is_int_value_def by (elim exE conjE, case_tac v) (auto simp: FIX2LONG_LONG2FIX fixable_defs)

lemma big_step:
  assumes "2 ^ 25 \<le> i"
  shows "4294967296 \<le> i * 128 + uint (c :: u8)"
proof -
  have "33554432 \<le> i" "0 \<le> uint c" using assms by simp_all
  then show ?thesis by linarith
qed

lemma unber_step:
  assumes "\<forall>k. \<not> stop k" and "2 ^ 25 \<le> big_int big"
  shows "\<exists>b b'. rb_big_mul env stop big (RInt big128) = Inr (RInt (VBig b))
    \<and> rb_big_plus env b (RInt (VBig (rb_uint2big (ucast c)))) = Inr (RInt (VBig b'))
    \<and> is_int_value (RInt (VBig b') :: ('f, 'o) rb_value) (big_int big * 128 + uint (c :: u8))"
proof -
  obtain p where p: "rb_big_mul env stop big (RInt big128) = Inr p" "is_int_value p (big_int big * 128)"
    using rb_big_mul_int [OF assms(1), of env big "VBig (rb_uint2big 128)"] by (auto simp: big128_def)
  obtain b where b: "p = RInt (VBig b)" "digits_ok (big_digits b)" "big_int b = big_int big * 128"
    using normal_bigger [OF p(2)] assms(2) by auto
  define y where "y = rb_uint2big (ucast c)"
  have y: "digits_ok (big_digits y)" "big_int y = uint c" by (simp_all add: y_def)
  have "big_int (bigadd b y True) = big_int big * 128 + uint c"
    using big_int_bigadd [OF length_ordered_ok [OF b(2) y(1)], of True] by (simp add: b(3) y(2))
  note r = is_int_value_norm [OF this]
  have "2 ^ 30 \<le> big_int big * 128 + uint c" using big_step [OF assms(2), of c] by simp
  from normal_bigger [OF r this] obtain b' where "RInt (bignorm (VBig (bigadd b y True))) = RInt (VBig b' :: rb_int)" by auto
  with r p b(1) show ?thesis by (intro exI [of _ b] exI [of _ b']) (simp add: rb_big_plus_def to_big_def flip: y_def)
qed

lemma unber_big_reads:
  fixes env :: "('f, 'o) rb_env"
  assumes "\<forall>k. \<not> stop k"
  shows "\<forall>e \<in> set ds. uint e < 128 \<Longrightarrow> uint d < 128 \<Longrightarrow> 2 ^ 25 \<le> big_int big \<Longrightarrow>
    \<exists>r. unber_big env stop big (map with_more ds @ d # rest) = Some (Inr (Some r, rest))
      \<and> is_int_value r (be_val (big_int big) (ds @ [d]))"
proof (induction ds arbitrary: big)
  case Nil
  from unber_step [OF assms Nil(3), of env d, where 'f = 'f and 'o = 'o] Nil(2) show ?case
    by (auto simp: be_val_def)
next
  case (Cons e ds)
  have e: "uint e < 128" using Cons.prems by simp
  obtain b b' where s: "rb_big_mul env stop big (RInt big128) = Inr (RInt (VBig b))"
    "rb_big_plus env b (RInt (VBig (rb_uint2big (ucast e)))) = Inr (RInt (VBig b'))"
    "is_int_value (RInt (VBig b') :: ('f, 'o) rb_value) (big_int big * 128 + uint e)"
    using unber_step [OF assms Cons.prems(3), of env e, where 'f = 'f and 'o = 'o] by auto
  have v: "big_int b' = big_int big * 128 + uint e" using s(3) by (simp add: is_int_value_def)
  then have "2 ^ 25 \<le> big_int b'" using big_step [OF Cons.prems(3), of e] by simp
  from Cons.IH [OF _ Cons.prems(2) this] Cons.prems(1) show ?case
    by (simp add: s(1,2) e be_val_Cons v)
qed

lemma ulmask: "(x :: u32) AND 0xfe000000 = 0 \<longleftrightarrow> uint x < 2 ^ 25"
proof -
  have m: "(0xfe000000 :: u32) = push_bit 25 (mask 7)" by (simp add: mask_eq_exp_minus_1)
  have "bit (x AND 0xfe000000) n \<longleftrightarrow> bit x n \<and> 25 \<le> n" for n
    unfolding m using bit_imp_le_length [of x n] by (auto simp: bit_simps)
  then have "x AND 0xfe000000 = 0 \<longleftrightarrow> (\<forall>n. bit x n \<longrightarrow> n < 25)"
    unfolding bit_eq_iff bit_0_eq using bit_imp_le_length [of x] by (fastforce simp: not_le)
  also have "\<dots> \<longleftrightarrow> unat x < 2 ^ 25" using below_exp_bits [of x 25] by simp
  also have "\<dots> \<longleftrightarrow> uint x < 2 ^ 25" using word_less_nat_alt [of x "2 ^ 25"] word_less_def [of x "2 ^ 25"] by simp
  finally show ?thesis .
qed

lemma low7_ucast: "(ucast (c :: u8) :: u32) AND 0x7f = ucast (c AND 0x7f)"
  by (rule bit_word_eqI) (auto simp: bit_simps low7_bits simp del: bit_numeral_word_iff)

lemma ul_step:
  assumes "uint (ul :: u32) < 2 ^ 25" and "uint (d :: u8) < 128"
  shows "uint (push_bit 7 ul OR ucast d) = uint ul * 128 + uint d"
proof -
  have n7: "\<not> bit d 7" using assms(2) by (simp add: below_128)
  have "push_bit 7 ul OR ucast d = push_bit 7 ul + ucast d"
  proof (rule disjunctive_add [symmetric])
    fix n show "\<not> bit (push_bit 7 ul) n \<or> \<not> bit (ucast d :: u32) n"
      using n7 bit_imp_le_length [of d n] by (cases "n = 7") (auto simp: bit_simps)
  qed
  moreover have "uint (push_bit 7 ul) = uint ul * 128" using assms(1) by (simp add: uint_push_bit)
  ultimately show ?thesis using assms by (simp add: uint_add_nowrap)
qed

lemma unpack_w_reads:
  fixes env :: "('f, 'o) rb_env"
  assumes "\<forall>k. \<not> stop k" and "0 < len"
  shows "\<forall>e \<in> set ds. uint e < 128 \<Longrightarrow> uint d < 128 \<Longrightarrow> uint ul < 2 ^ 25 \<Longrightarrow>
    \<exists>r. unpack_w env stop len ul (map with_more ds @ d # rest) out = unpack_w env stop (len - 1) 0 rest (out @ [r])
      \<and> is_int_value r (be_val (uint ul) (ds @ [d]))"
proof (induction ds arbitrary: ul)
  case Nil
  have "is_int_value (RInt (rb_uint2inum (push_bit 7 ul OR ucast d)) :: ('f, 'o) rb_value) (uint ul * 128 + uint d)"
    using rb_uint2inum_correct [of "push_bit 7 ul OR ucast d"] ul_step [OF Nil(3,2)] by (simp add: is_int_value_def)
  with Nil assms(2) show ?case by (subst unpack_w.simps) (auto simp: low7_ucast be_val_def)
next
  case (Cons e ds)
  have e: "uint e < 128" using Cons.prems by simp
  define ul' where "ul' = push_bit 7 ul OR ucast e"
  have v: "uint ul' = uint ul * 128 + uint e" unfolding ul'_def by (rule ul_step [OF Cons.prems(3) e])
  show ?case
  proof (cases "uint ul' < 2 ^ 25")
    case True
    then have "ul' AND 0xfe000000 = 0" by (simp add: ulmask)
    with assms(2) e have "unpack_w env stop len ul (map with_more (e # ds) @ d # rest) out = unpack_w env stop len ul' (map with_more ds @ d # rest) out"
      by (subst unpack_w.simps) (simp add: low7_ucast ul'_def [symmetric])
    with Cons.IH [OF _ Cons.prems(2) True] Cons.prems(1) v show ?thesis by (simp add: be_val_Cons)
  next
    case False
    then have m: "ul' AND 0xfe000000 \<noteq> 0" by (simp add: ulmask)
    have "2 ^ 25 \<le> big_int (rb_uint2big ul')" using False by simp
    from unber_big_reads [OF assms(1) _ Cons.prems(2) this, of ds env rest] Cons.prems(1)
    obtain r where r: "unber_big env stop (rb_uint2big ul') (map with_more ds @ d # rest) = Some (Inr (Some r, rest))"
      "is_int_value r (be_val (uint ul') (ds @ [d]))" by auto
    with m assms(2) e have "unpack_w env stop len ul (map with_more (e # ds) @ d # rest) out = unpack_w env stop (len - 1) 0 rest (out @ [r])"
      by (subst unpack_w.simps) (simp add: low7_ucast ul'_def [symmetric])
    with r(2) v show ?thesis by (auto simp: be_val_Cons)
  qed
qed

text \<open>The bytes of a number are read as that number.\<close>

lemma unpack_w_bytes:
  fixes env :: "('f, 'o) rb_env"
  assumes "\<forall>k. \<not> stop k" and "0 < len" and "0 \<le> n"
  shows "\<exists>r. unpack_w env stop len 0 (ber_bytes n @ rest) out = unpack_w env stop (len - 1) 0 rest (out @ [r]) \<and> is_int_value r n"
proof (cases "base128 n")
  case Nil
  then have "n = 0" using assms(3) by (simp add: base128.simps [of n] split: if_splits)
  then show ?thesis using unpack_w_reads [OF assms(1,2), of "[]" 0 0 env rest out] Nil by (simp add: ber_bytes_def be_val_def)
next
  case (Cons d ds)
  have "be_val 0 (rev ds @ [d]) = n" using be_val_base128 [OF assms(3)] Cons by simp
  moreover have "\<forall>e \<in> set (rev ds). uint e < 128" "uint d < 128" using base128_small [of _ n] Cons by auto
  ultimately show ?thesis
    using unpack_w_reads [OF assms(1,2), of "rev ds" d 0 env rest out] Cons by (simp add: ber_bytes_def rev_map)
qed

text \<open>On any bytes the decoder ends, and what is left is an end of them.\<close>

lemma unber_big_total:
  assumes "\<forall>k. \<not> stop k"
  shows "2 ^ 25 \<le> big_int big \<Longrightarrow>
    \<exists>v s'. unber_big env stop big s = Some (Inr (v, s')) \<and> length s' \<le> length s"
proof (induction s arbitrary: big)
  case (Cons c s)
  obtain b b' where s: "rb_big_mul env stop big (RInt big128) = Inr (RInt (VBig b))"
    "rb_big_plus env b (RInt (VBig (rb_uint2big (ucast (c AND 0x7f))))) = Inr (RInt (VBig b'))" "big_int b' = big_int big * 128 + uint (c AND 0x7f)"
    using unber_step [OF assms Cons.prems, of env "c AND 0x7f"] by (auto simp: is_int_value_def)
  have "2 ^ 25 \<le> big_int b'" using big_step [OF Cons.prems, of "c AND 0x7f"] by (simp add: s(3))
  with Cons.IH [of b'] show ?case by (auto simp: s(1,2))
qed simp

lemma unpack_w_total:
  assumes "\<forall>k. \<not> stop k"
  shows "uint ul < 2 ^ 25 \<Longrightarrow>
    \<exists>out' s'. unpack_w env stop len ul s out = Some (Inr (out', s')) \<and> length s' \<le> length s"
proof (induction s arbitrary: len ul out rule: length_induct)
  case (1 s)
  show ?case
  proof (cases s)
    case (Cons c s1)
    define ul' where "ul' = push_bit 7 ul OR (ucast c AND 0x7f)"
    have ih: "length t \<le> length s1 \<Longrightarrow> uint u < 2 ^ 25 \<Longrightarrow>
        \<exists>out' s'. unpack_w env stop l u t out1 = Some (Inr (out', s')) \<and> length s' \<le> length s" for t l u out1
      using "1.IH" [rule_format, of t u l out1] Cons by fastforce
    show ?thesis
    proof (cases "uint ul' < 2 ^ 25")
      case True
      then have "ul' AND 0xfe000000 = 0" by (simp add: ulmask)
      with ih [of s1 ul' len out] ih [of s1 0 "len - 1" "out @ [RInt (rb_uint2inum ul')]"] True Cons show ?thesis
        by (subst unpack_w.simps) (simp add: ul'_def [symmetric])
    next
      case False
      then have m: "ul' AND 0xfe000000 \<noteq> 0" "2 ^ 25 \<le> big_int (rb_uint2big ul')" by (simp_all add: ulmask)
      from unber_big_total [OF assms m(2)] obtain v s' where
        u: "unber_big env stop (rb_uint2big ul') s1 = Some (Inr (v, s'))" "length s' \<le> length s1" by blast
      from ih [of s' 0 "len - 1" "out @ [the v]"] ih [of s1 0 "len - 1" "out @ [RInt (rb_uint2inum ul')]"] u m(1) Cons
      show ?thesis by (subst unpack_w.simps) (auto simp: ul'_def [symmetric] split: option.split)
    qed
  qed (subst unpack_w.simps, simp)
qed

end
