(* ===== verification/PackUnpack.thy ===== *)
theory PackUnpack
  imports PackFormat PackUtf8 PackCodec PackBer
begin

text \<open>
  \<open>pack_unpack\<close> of \<open>lib/ruby/pack.c\<close> (\<open>String#unpack\<close>), directive by directive.  A pointer into the string is its
  offset, an integer, since the code lets it leave the string; a read outside the bytes of the string and their
  terminator is the result \<open>None\<close>.
\<close>

section \<open>Reading\<close>

text \<open>The \<open>k\<close> bytes at offset \<open>s\<close>.\<close>

definition read_bytes :: "u8 list \<Rightarrow> int \<Rightarrow> nat \<Rightarrow> u8 list option" where
  "read_bytes str s k =
     (if k = 0 then Some []
      else if 0 \<le> s \<and> s + int k \<le> int (length str) + 1 then Some (take k (drop (nat s) (str @ [0])))
      else None)"

text \<open>The bytes from \<open>s\<close> to \<open>send\<close>, for the loops \<open>while (s < send)\<close>.\<close>

definition bytes_from :: "u8 list \<Rightarrow> int \<Rightarrow> u8 list option" where
  "bytes_from str s = (if s < 0 then None else Some (drop (nat s) str))"

text \<open>\<open>send - s\<close>, a number of 32 bits.\<close>

definition left :: "u8 list \<Rightarrow> int \<Rightarrow> int" where
  "left str s = long_of (int (length str) - s)"

text \<open>
  The offset, the values pushed so far, and whether a block was given: then the values are yielded and the variable
  \<open>ary\<close> is \<open>nil\<close>.
\<close>

record ('f, 'o) unpack_state =
  un_pos :: int
  un_out :: "('f, 'o) pack_value list"
  un_block :: bool

definition push :: "('f, 'o) pack_value list \<Rightarrow> int \<Rightarrow> ('f, 'o) unpack_state \<Rightarrow> ('f, 'o) unpack_state" where
  "push vs s st = st\<lparr>un_pos := s, un_out := un_out st @ vs\<rparr>"

text \<open>\<open>PACK_ITEM_ADJUST\<close> pushes to \<open>ary\<close> even if that is \<open>nil\<close>.\<close>

definition item_adjust :: "nat \<Rightarrow> ('f, 'o) unpack_state \<Rightarrow> ('f, 'o) unpack_state presult" where
  "item_adjust tmp st =
     (if tmp = 0 then ok st
      else if un_block st then None
      else ok (st\<lparr>un_out := un_out st @ replicate tmp (PVal RNil)\<rparr>))"

section \<open>Strings\<close>

definition strip :: "u8 list \<Rightarrow> u8 list" where
  "strip bs = rev (dropWhile (\<lambda>c. c = 0x20 \<or> c = 0) (rev bs))"

definition unpack_text ::
  "u8 list \<Rightarrow> char \<Rightarrow> bool \<Rightarrow> int \<Rightarrow> ('f, 'o) unpack_state \<Rightarrow> ('f, 'o) unpack_state presult" where
  "unpack_text str type star len st =
     (let s = un_pos st;
          len = (if left str s < len then left str s else len) in
      case read_bytes str s (nat len) of
        None \<Rightarrow> None
      | Some bs \<Rightarrow>
          if type = CHR ''Z'' then
            (let k = takeWhile (\<lambda>c. c \<noteq> 0) bs;
                 t = s + int (length k);
                 t = (if t < int (length str) then t + 1 else t) in
             ok (push [PStr k] (if star then t else s + len) st))
          else if len < 0 then raise_err ArgError
          else ok (push [PStr (if type = CHR ''A'' then strip bs else bs)] (s + len) st))"

text \<open>The loops of \<open>b\<close>, \<open>B\<close>, \<open>h\<close> and \<open>H\<close>: \<open>i\<close> counts the digits written, \<open>bits\<close> holds those of the current byte.\<close>

definition take_digit :: "char \<Rightarrow> u8 \<Rightarrow> u8" where
  "take_digit type bits =
     (if type = CHR ''b'' then (if bits AND 1 \<noteq> 0 then 0x31 else 0x30)
      else if type = CHR ''B'' then (if bits AND 128 \<noteq> 0 then 0x31 else 0x30)
      else
        (let v = (if type = CHR ''h'' then bits AND 15 else drop_bit 4 bits AND 15) in
         map of_char ''0123456789abcdef'' ! unat v))"

definition shift_digit :: "char \<Rightarrow> u8 \<Rightarrow> u8" where
  "shift_digit type bits =
     (if type = CHR ''b'' then drop_bit 1 bits
      else if type = CHR ''B'' then push_bit 1 bits
      else if type = CHR ''h'' then drop_bit 4 bits
      else push_bit 4 bits)"

definition digits_in_byte :: "char \<Rightarrow> nat" where
  "digits_in_byte type = (if type = CHR ''b'' \<or> type = CHR ''B'' then 8 else 2)"

fun unpack_digits_loop :: "char \<Rightarrow> nat \<Rightarrow> nat \<Rightarrow> u8 \<Rightarrow> u8 list \<Rightarrow> u8 list" where
  "unpack_digits_loop type i 0 bits bs = []"
| "unpack_digits_loop type i (Suc len) bits bs =
     (let (bits, bs) = (if i mod digits_in_byte type \<noteq> 0 then (shift_digit type bits, bs) else (hd bs, tl bs)) in
      take_digit type bits # unpack_digits_loop type (Suc i) len bits bs)"

definition unpack_digits ::
  "u8 list \<Rightarrow> char \<Rightarrow> bool \<Rightarrow> int \<Rightarrow> ('f, 'o) unpack_state \<Rightarrow> ('f, 'o) unpack_state presult" where
  "unpack_digits str type star len st =
     (let s = un_pos st;
          m = digits_in_byte type;
          all = long_of (left str s * int m);
          len = (if star \<or> all < len then all else len);
          k = (nat len + m - 1) div m in
      if len < 0 then raise_err ArgError
      else
        (case read_bytes str s k of
           None \<Rightarrow> None
         | Some bs \<Rightarrow> ok (push [PStr (unpack_digits_loop type 0 (nat len) 0 bs)] (s + int k) st)))"

section \<open>Numbers\<close>

text \<open>
  \<open>PACK_LENGTH_ADJUST_SIZE\<close>: \<open>sz\<close> has the type \<open>size_t\<close>, so that the comparison is one of unsigned numbers; the new \<open>len\<close> and
  the number of missing items.
\<close>

definition length_adjust :: "u8 list \<Rightarrow> nat \<Rightarrow> bool \<Rightarrow> u32 \<Rightarrow> int \<Rightarrow> u32 \<times> nat" where
  "length_adjust str sz star len s =
     (let avail = word_of_int (left str s) div of_nat sz in
      if avail < len then (avail, if star then 0 else unat (len - avail)) else (len, 0))"

fun unpack_each ::
  "u8 list \<Rightarrow> nat \<Rightarrow> (u8 list \<Rightarrow> ('f, 'o) pack_value) \<Rightarrow> nat \<Rightarrow> ('f, 'o) unpack_state \<Rightarrow> ('f, 'o) unpack_state presult" where
  "unpack_each str sz f 0 st = ok st"
| "unpack_each str sz f (Suc n) st =
     (case read_bytes str (un_pos st) sz of
        None \<Rightarrow> None
      | Some bs \<Rightarrow> unpack_each str sz f n (push [f bs] (un_pos st + int sz) st))"

definition unpack_fixed ::
  "u8 list \<Rightarrow> char \<Rightarrow> nat \<Rightarrow> (u8 list \<Rightarrow> ('f, 'o) pack_value) \<Rightarrow> bool \<Rightarrow> u32 \<Rightarrow> ('f, 'o) unpack_state
    \<Rightarrow> ('f, 'o) unpack_state presult" where
  "unpack_fixed str type sz f star len st =
     (let (len, tmp) = length_adjust str sz star len (un_pos st) in
      pbind (unpack_each str sz f (nat (sint len)) st) (\<lambda>st.
        if type = CHR ''Q'' then ok st else item_adjust tmp st))"

text \<open>The width of an integer directive, and the value of its bytes.\<close>

definition int_width :: "char \<Rightarrow> nat" where
  "int_width type =
     (if type \<in> set ''cC'' then 1 else if type \<in> set ''sSnv'' then 2 else if type \<in> set ''qQ'' then 8 else 4)"

definition unpack_int :: "char \<Rightarrow> u8 list \<Rightarrow> rb_int" where
  "unpack_int type bs =
     (let w = mem_word bs in
      if type = CHR ''c'' then VFix (LONG2FIX (if 127 < hd bs then ucast (hd bs) - 256 else ucast (hd bs)))
      else if type = CHR ''C'' then VFix (LONG2FIX (ucast (hd bs)))
      else if type = CHR ''s'' then VFix (LONG2FIX (scast (ucast w :: u16)))
      else if type = CHR ''S'' then VFix (LONG2FIX (ucast (ucast w :: u16)))
      else if type \<in> set ''il'' then rb_int2inum (ucast w)
      else if type \<in> set ''IL'' then rb_uint2inum (ucast w)
      else if type = CHR ''q'' then rb_quad_unpack bs True
      else if type = CHR ''Q'' then rb_quad_unpack bs False
      else if type = CHR ''n'' then rb_uint2inum (ucast (swap16 (ucast w)))
      else if type = CHR ''N'' then rb_uint2inum (swap32 (ucast w))
      else if type = CHR ''v'' then rb_uint2inum (ucast (ucast w :: u16))
      else rb_uint2inum (ucast w))"

definition unpack_float :: "('f, 'o) pack_env \<Rightarrow> char \<Rightarrow> u8 list \<Rightarrow> 'f" where
  "unpack_float env type bs =
     (if type \<in> set ''fFe'' then word_float env (ucast (mem_word bs))
      else if type = CHR ''g'' then word_float env (swap32 (ucast (mem_word bs)))
      else if type = CHR ''G'' then word_double env (swapd (mem_word bs))
      else word_double env (mem_word bs))"

section \<open>Encoded text and pointers\<close>

fun unpack_U_loop :: "nat \<Rightarrow> u8 list \<Rightarrow> ('f, 'o) pack_value list \<Rightarrow> (('f, 'o) pack_value list \<times> u8 list) presult" where
  "unpack_U_loop 0 s out = ok (out, s)"
| "unpack_U_loop (Suc len) s out =
     (if s = [] then ok (out, s)
      else
        (case utf8_to_uv s of
           Inl e \<Rightarrow> raise_err e
         | Inr (l, alen) \<Rightarrow> unpack_U_loop len (drop alen s) (out @ [PVal (RInt (rb_uint2inum l))])))"

text \<open>
  The directives with loops \<open>while (s < send)\<close>.  With \<open>s\<close> behind \<open>send\<close> they only allocate their string, of a size below zero.
\<close>

definition unpack_encoded ::
  "('f, 'o) pack_env \<Rightarrow> u8 list \<Rightarrow> char \<Rightarrow> int \<Rightarrow> ('f, 'o) unpack_state \<Rightarrow> ('f, 'o) unpack_state presult" where
  "unpack_encoded env str type len st =
     (let s = un_pos st; n = int (length str) in
      if n < s then
        (if type \<in> set ''Uw'' then ok st
         else if (if type = CHR ''M'' then left str s else decode_room (left str s)) < 0 then raise_err ArgError
         else ok (push [PStr []] s st))
      else
        (case bytes_from str s of
           None \<Rightarrow> None
         | Some bs \<Rightarrow>
             if type = CHR ''U'' then
               pbind (unpack_U_loop (nat len) bs []) (\<lambda>(vs, bs). ok (push vs (n - int (length bs)) st))
             else if type = CHR ''w'' then
               pbind (unpack_w (pk_env env) (pk_stop env) len 0 bs [])
                 (\<lambda>(vs, bs). ok (push (map PVal vs) (n - int (length bs)) st))
             else if type = CHR ''u'' then
               pbind (unpack_u bs)
                 (\<lambda>(bs, past, out). ok (push [PStr out] (n - int (length bs) + (if past then 1 else 0)) st))
             else if type = CHR ''m'' then
               pbind (unpack_m len bs) (\<lambda>(bs, out). ok (push [PStr out] (n - int (length bs)) st))
             else
               (case unpack_M bs of
                  None \<Rightarrow> None
                | Some (bs, out) \<Rightarrow> ok (push [PStr out] (n - int (length bs)) st))))"

text \<open>The strings associated with the packed one by \<open>rb_str_associate\<close>, with their addresses.\<close>

type_synonym assoc_strings = "(u32 \<times> u8 list) list option"

definition find_pointer :: "assoc_strings \<Rightarrow> u32 \<Rightarrow> u8 list presult" where
  "find_pointer assoc t =
     (case assoc of
        None \<Rightarrow> raise_err ArgError
      | Some a \<Rightarrow>
          (case filter (\<lambda>x. fst x = t) a of [] \<Rightarrow> raise_err ArgError | x # _ \<Rightarrow> ok (snd x)))"

definition unpack_P ::
  "assoc_strings \<Rightarrow> u8 list \<Rightarrow> int \<Rightarrow> ('f, 'o) unpack_state \<Rightarrow> ('f, 'o) unpack_state presult" where
  "unpack_P assoc str len st =
     (if word_of_int (left str (un_pos st)) < (4 :: u32) then ok st
      else
        (case read_bytes str (un_pos st) 4 of
           None \<Rightarrow> None
         | Some bs \<Rightarrow>
             (let t = ucast (mem_word bs) :: u32 in
              if t = 0 then ok (push [PVal RNil] (un_pos st + 4) st)
              else
                pbind (find_pointer assoc t) (\<lambda>p.
                  if len < int (length p) then
                    (if len < 0 then raise_err ArgError else ok (push [PStr (take (nat len) p)] (un_pos st + 4) st))
                  else ok (push [PStr p] (un_pos st + 4) st)))))"

fun unpack_p_loop ::
  "assoc_strings \<Rightarrow> u8 list \<Rightarrow> nat \<Rightarrow> ('f, 'o) unpack_state \<Rightarrow> ('f, 'o) unpack_state presult" where
  "unpack_p_loop assoc str 0 st = ok st"
| "unpack_p_loop assoc str (Suc n) st =
     (if word_of_int (left str (un_pos st)) < (4 :: u32) then ok st
      else
        (case read_bytes str (un_pos st) 4 of
           None \<Rightarrow> None
         | Some bs \<Rightarrow>
             (let t = ucast (mem_word bs) :: u32 in
              pbind (if t = 0 then ok (PVal RNil) else pbind (find_pointer assoc t) (\<lambda>p. ok (PStr p)))
                (\<lambda>v. unpack_p_loop assoc str n (push [v] (un_pos st + 4) st)))))"

definition unpack_p ::
  "assoc_strings \<Rightarrow> u8 list \<Rightarrow> u32 \<Rightarrow> ('f, 'o) unpack_state \<Rightarrow> ('f, 'o) unpack_state presult" where
  "unpack_p assoc str len st =
     (let k = word_of_int (left str (un_pos st)) div 4; len = (if k < len then k else len) in
      unpack_p_loop assoc str (nat (sint len)) st)"

section \<open>The loop\<close>

definition unpack_len :: "char \<Rightarrow> pack_count \<Rightarrow> u8 list \<Rightarrow> int \<Rightarrow> u32" where
  "unpack_len type n str s =
     (case n of
        NoCount True \<Rightarrow> 1
      | Star \<Rightarrow> word_of_int (left str s)
      | Count v \<Rightarrow> v
      | NoCount False \<Rightarrow> if type \<noteq> CHR ''@'' then 1 else 0)"

definition unpack_directive ::
  "('f, 'o) pack_env \<Rightarrow> assoc_strings \<Rightarrow> u8 list \<Rightarrow> char \<Rightarrow> pack_count \<Rightarrow> ('f, 'o) unpack_state
    \<Rightarrow> ('f, 'o) unpack_state presult" where
  "unpack_directive env assoc str type n st =
     (let w = unpack_len type n str (un_pos st);
          len = sint w;
          star = (n = Star);
          s = un_pos st in
      if type = CHR ''%'' then raise_err ArgError
      else if type \<in> set ''AZa'' then unpack_text str type star len st
      else if type \<in> set ''bBhH'' then unpack_digits str type star len st
      else if type \<in> set ''cCsSiIlLqQnNvV'' then
        unpack_fixed str type (int_width type) (\<lambda>bs. PVal (RInt (unpack_int type bs))) star w st
      else if type \<in> set ''fFeg'' then
        unpack_fixed str type 4 (\<lambda>bs. PVal (RFloat (unpack_float env type bs))) star w st
      else if type \<in> set ''EDdG'' then
        unpack_fixed str type 8 (\<lambda>bs. PVal (RFloat (unpack_float env type bs))) star w st
      else if type \<in> set ''UumMw'' then unpack_encoded env str type len st
      else if type = CHR ''@'' then
        (if int (length str) < len then raise_err ArgError else ok (st\<lparr>un_pos := len\<rparr>))
      else if type = CHR ''X'' then
        (if long_of s < len then raise_err ArgError else ok (st\<lparr>un_pos := s - len\<rparr>))
      else if type = CHR ''x'' then
        (if left str s < len then raise_err ArgError else ok (st\<lparr>un_pos := s + len\<rparr>))
      else if type = CHR ''P'' then unpack_P assoc str len st
      else if type = CHR ''p'' then unpack_p assoc str w st
      else ok st)"

partial_function (option) unpack_loop ::
  "('f, 'o) pack_env \<Rightarrow> assoc_strings \<Rightarrow> u8 list \<Rightarrow> string \<Rightarrow> ('f, 'o) unpack_state \<Rightarrow> ('f, 'o) unpack_state presult" where
  "unpack_loop env assoc str p st =
     (case next_directive p of
        None \<Rightarrow> Some (Inr st)
      | Some (Inl e) \<Rightarrow> Some (Inl e)
      | Some (Inr (type, n, p')) \<Rightarrow>
          (case unpack_directive env assoc str type n st of
             None \<Rightarrow> None
           | Some (Inl e) \<Rightarrow> Some (Inl e)
           | Some (Inr st') \<Rightarrow> unpack_loop env assoc str p' st'))"

definition pack_unpack ::
  "('f, 'o) pack_env \<Rightarrow> bool \<Rightarrow> assoc_strings \<Rightarrow> u8 list \<Rightarrow> string \<Rightarrow> ('f, 'o) pack_value list presult" where
  "pack_unpack env block_p assoc str fmt =
     pbind (unpack_loop env assoc str fmt \<lparr>un_pos = 0, un_out = [], un_block = block_p\<rparr>) (\<lambda>st. ok (un_out st))"

declare unpack_loop.simps [code]

end
