(* ===== verification/PackSafe.thy ===== *)
theory PackSafe
  imports PackDecode PackUnpack
begin

text \<open>
  \<open>String#unpack\<close> stays within the string: the positions it moves to and every read, for formats whose counts fit a \<open>long\<close> and
  that use \<open>u\<close> only at their end.
\<close>

section \<open>What the decoders leave over\<close>

lemma strict_rest: "unpack_m_strict room p out = Some (Inr (rest, out')) \<Longrightarrow> length rest \<le> length p"
proof (induction room p out rule: unpack_m_strict.induct)
  case (4 room x y z s out)
  show ?case
  proof (cases "z = 0x3d")
    case False
    obtain a b c where abc: "b64_xtable x = Some a" "b64_xtable y = Some b" "b64_xtable z = Some c"
      using "4.prems" False by (auto split: option.splits)
    obtain w s' where s: "s = w # s'" using "4.prems" False abc by (auto split: list.splits)
    show ?thesis
    proof (cases "w = 0x3d \<and> s' = []")
      case no_pad: False
      obtain d out1 where d: "b64_xtable w = Some d" "put_all room out (hunk a b c d) = Some out1"
        using "4.prems" False abc s no_pad by (auto split: option.splits if_splits bind_splits)
      with "4.IH" [OF refl abc(1,2) False refl abc(3) s no_pad d] "4.prems" False abc s no_pad show ?thesis
        by (auto split: if_splits)
    qed (use "4.prems" False abc s in \<open>auto split: bind_splits if_splits\<close>)
  qed (use "4.prems" in \<open>auto split: option.splits bind_splits if_splits\<close>)
qed simp_all

lemma m_loop_rest: "unpack_m_loop room s out = Some (rest, out') \<Longrightarrow> length rest \<le> length s"
proof (induction s arbitrary: out rule: length_induct)
  case (1 s)
  show ?case
  proof (cases "b64_skip s")
    case x: (Cons x s1)
    show ?thesis
    proof (cases "b64_skip s1")
      case y: (Cons y s2)
      show ?thesis
      proof (cases "b64_skip_pad s2")
        case z: (Cons z s3)
        have l3: "length s3 + 3 \<le> length s"
          using skip_length(1) [of s] skip_length(1) [of s1] skip_length(2) [of s2] x y z by simp
        show ?thesis
        proof (cases "z = 0x3d")
          case False
          show ?thesis
          proof (cases "b64_skip_pad s3")
            case w: (Cons w s4)
            have l4: "length s4 + 4 \<le> length s" using skip_length(2) [of s3] w l3 by simp
            show ?thesis
            proof (cases "w = 0x3d")
              case no_pad: False
              from "1.prems" False no_pad obtain out1 where "unpack_m_loop room s4 out1 = Some (rest, out')"
                by (subst (asm) unpack_m_loop.simps) (auto simp: x y z w Let_def split: bind_splits)
              with "1.IH" [rule_format, of s4] l4 show ?thesis by fastforce
            qed (use "1.prems" False l4 in \<open>subst (asm) unpack_m_loop.simps, auto simp: x y z w Let_def split: bind_splits\<close>)
          qed (use "1.prems" False in \<open>subst (asm) unpack_m_loop.simps, simp add: x y z\<close>)
        qed (use "1.prems" l3 in \<open>subst (asm) unpack_m_loop.simps, auto simp: x y z Let_def split: bind_splits\<close>)
      qed (use "1.prems" in \<open>subst (asm) unpack_m_loop.simps, simp add: x y\<close>)
    qed (use "1.prems" in \<open>subst (asm) unpack_m_loop.simps, simp add: x\<close>)
  qed (use "1.prems" in \<open>subst (asm) unpack_m_loop.simps, simp\<close>)
qed

lemma M_loop_rest: "unpack_M_loop room s out = Some (rest, out') \<Longrightarrow> length rest \<le> length s"
proof (induction s arbitrary: out rule: length_induct)
  case (1 s)
  have ih: "unpack_M_loop room s' out1 = Some (rest, out') \<Longrightarrow> length s' < length s \<Longrightarrow> length rest \<le> length s" for s' out1
    using "1.IH" by fastforce
  show ?case
  proof (cases s)
    case c: (Cons c s1)
    show ?thesis
    proof (cases "c = 0x3d")
      case True
      show ?thesis
      proof (cases "qp_skip_cr s1")
        case x: (Cons x s2)
        then have l: "length s2 + 2 \<le> length s" using skip_cr_length [of s1] c by simp
        with "1.prems" True ih show ?thesis
          by (subst (asm) unpack_M_loop.simps) (fastforce simp: c x split: if_splits option.splits list.splits bind_splits)
      qed (use "1.prems" True in \<open>subst (asm) unpack_M_loop.simps, simp add: c\<close>)
    qed (use "1.prems" ih c in \<open>subst (asm) unpack_M_loop.simps, fastforce split: bind_splits\<close>)
  qed (use "1.prems" in \<open>subst (asm) unpack_M_loop.simps, simp\<close>)
qed

lemma unpack_m_rest: "unpack_m len s = Some (Inr (rest, out)) \<Longrightarrow> length rest \<le> length s"
  by (auto simp: unpack_m_def Let_def split: if_splits dest: strict_rest m_loop_rest)

lemma unpack_M_rest: "unpack_M s = Some (rest, out) \<Longrightarrow> length rest \<le> length s"
  by (simp add: unpack_M_def M_loop_rest)

section \<open>Positions\<close>

definition inside :: "u8 list \<Rightarrow> ('f, 'o) unpack_state \<Rightarrow> bool" where
  "inside str st \<longleftrightarrow> 0 \<le> un_pos st \<and> un_pos st \<le> int (length str) \<and> \<not> un_block st"

text \<open>A directive that neither reads outside nor leaves the position outside.\<close>

definition stays :: "u8 list \<Rightarrow> ('f, 'o) unpack_state presult \<Rightarrow> bool" where
  "stays str r \<longleftrightarrow> (case r of None \<Rightarrow> False | Some (Inl e) \<Rightarrow> True | Some (Inr st) \<Rightarrow> inside str st)"

lemma stays_simps [simp]:
  "\<not> stays str None" "stays str (raise_err e)" "stays str (ok st) \<longleftrightarrow> inside str st"
  "stays str (Some (Inl e))" "stays str (Some (Inr st)) \<longleftrightarrow> inside str st"
  by (simp_all add: stays_def ok_def raise_err_def)

lemma inside_push [simp]: "inside str (push vs s st) \<longleftrightarrow> 0 \<le> s \<and> s \<le> int (length str) \<and> \<not> un_block st"
  by (simp add: inside_def push_def)

lemma long_of_small: "- (2 ^ 31) \<le> i \<Longrightarrow> i < 2 ^ 31 \<Longrightarrow> long_of i = i"
  by (simp add: long_of_def signed_of_int signed_take_bit_int_eq_self)

lemma left_inside: "inside str st \<Longrightarrow> length str < 2 ^ 28 \<Longrightarrow> left str (un_pos st) = int (length str) - un_pos st"
  unfolding left_def by (rule long_of_small) (auto simp: inside_def)

lemma read_bytes_inside:
  assumes "0 \<le> s" and "s + int k \<le> int (length str)"
  obtains bs where "read_bytes str s k = Some bs" and "length bs = k"
proof (cases "k = 0")
  case False
  with assms have "read_bytes str s k = Some (take k (drop (nat s) (str @ [0])))" by (simp add: read_bytes_def)
  moreover have "length (take k (drop (nat s) (str @ [0]))) = k" using assms by simp
  ultimately show ?thesis using that by blast
qed (use that in \<open>simp add: read_bytes_def\<close>)

lemma text_stays:
  assumes i: "inside str st" and n: "length str < 2 ^ 28" and len: "0 \<le> len"
  shows "stays str (unpack_text str type star len st)"
proof -
  define l where "l = (if left str (un_pos st) < len then left str (un_pos st) else len)"
  have l: "0 \<le> l" "un_pos st + l \<le> int (length str)"
    using i len left_inside [OF i n] by (auto simp: l_def inside_def)
  obtain bs where bs: "read_bytes str (un_pos st) (nat l) = Some bs" "length bs = nat l"
    using read_bytes_inside [of "un_pos st" "nat l" str] i l by (auto simp: inside_def)
  have "length (takeWhile (\<lambda>c. c \<noteq> 0) bs) \<le> nat l" using bs(2) length_takeWhile_le [of _ bs] by metis
  moreover have "0 \<le> un_pos st" "\<not> un_block st" using i by (simp_all add: inside_def)
  ultimately show ?thesis using l bs(1)
    unfolding unpack_text_def Let_def l_def [symmetric] by auto
qed

lemma digits_stays:
  assumes i: "inside str st" and n: "length str < 2 ^ 28" and len: "0 \<le> len"
  shows "stays str (unpack_digits str type star len st)"
proof -
  define m where "m = digits_in_byte type"
  define all_digits where "all_digits = long_of (left str (un_pos st) * int m)"
  define l where "l = (if star \<or> all_digits < len then all_digits else len)"
  define k where "k = (nat l + m - 1) div m"
  have m: "m = 8 \<or> m = 2" by (auto simp: m_def digits_in_byte_def)
  have bounds: "0 \<le> int (length str) - un_pos st" "int (length str) - un_pos st < 2 ^ 28" using i n by (auto simp: inside_def)
  then have all_eq: "all_digits = (int (length str) - un_pos st) * int m"
    unfolding all_digits_def left_inside [OF i n] using m by (intro long_of_small) auto
  have l: "0 \<le> l" "l \<le> (int (length str) - un_pos st) * int m"
    using len bounds(1) by (auto simp: l_def all_eq)
  have "int k \<le> int (length str) - un_pos st"
  proof -
    have "nat l \<le> nat (int (length str) - un_pos st) * m" using l bounds(1) by (simp add: nat_le_iff)
    then have "nat l + m - 1 < (nat (int (length str) - un_pos st) + 1) * m" using m by auto
    then have "k < nat (int (length str) - un_pos st) + 1" unfolding k_def using m by (auto intro: less_mult_imp_div_less)
    with bounds(1) show ?thesis by linarith
  qed
  then obtain bs where "read_bytes str (un_pos st) k = Some bs"
    using read_bytes_inside [of "un_pos st" k str] i by (auto simp: inside_def)
  moreover have "0 \<le> un_pos st" "\<not> un_block st" using i by (simp_all add: inside_def)
  ultimately show ?thesis using \<open>int k \<le> _\<close> l(1)
    unfolding unpack_digits_def Let_def m_def [symmetric] all_digits_def [symmetric] l_def [symmetric] k_def [symmetric] by simp
qed

lemma each_stays:
  assumes "0 < sz"
  shows "inside str st \<Longrightarrow> un_pos st + int n * int sz \<le> int (length str) \<Longrightarrow> stays str (unpack_each str sz f n st)"
proof (induction n arbitrary: st)
  case (Suc n)
  then have le: "un_pos st + int sz + int n * int sz \<le> int (length str)" by (simp add: algebra_simps)
  moreover have "0 \<le> int n * int sz" by simp
  ultimately have "un_pos st + int sz \<le> int (length str)" by linarith
  with Suc.prems(1) obtain bs where "read_bytes str (un_pos st) sz = Some bs"
    using read_bytes_inside [of "un_pos st" sz str] by (auto simp: inside_def)
  moreover have "stays str (unpack_each str sz f n (push [f bs] (un_pos st + int sz) st))"
    by (rule Suc.IH) (use Suc.prems(1) le \<open>un_pos st + int sz \<le> _\<close> in \<open>auto simp: inside_def push_def\<close>)
  ultimately show ?case by simp
qed simp

lemma item_adjust_stays: "inside str st \<Longrightarrow> stays str (item_adjust tmp st)"
  by (simp add: item_adjust_def inside_def)

lemma fixed_stays:
  assumes i: "inside str st" and n: "length str < 2 ^ 28" and len: "0 \<le> sint len" and sz: "0 < sz" "sz \<le> 8"
  shows "stays str (unpack_fixed str type sz f star len st)"
proof -
  define avail where "avail = (word_of_int (left str (un_pos st)) div of_nat sz :: u32)"
  define l where "l = (if avail < len then avail else len)"
  have b: "0 \<le> int (length str) - un_pos st" "int (length str) - un_pos st < 2 ^ 28" using i n by (auto simp: inside_def)
  then have "uint (word_of_int (int (length str) - un_pos st) :: u32) = int (length str) - un_pos st"
    by (simp only: uint_word_of_int) (simp add: mod_pos_pos_trivial)
  then have av: "uint avail = (int (length str) - un_pos st) div int sz"
    unfolding avail_def left_inside [OF i n] using sz by (simp only: uint_div) (simp add: unsigned_of_nat take_bit_nat_eq_self)
  have "(int (length str) - un_pos st) div int sz \<le> int (length str) - un_pos st" using zdiv_mono2 [OF b(1), of 1 "int sz"] sz by simp
  then have sav: "sint avail = uint avail" using av b by (simp add: sint_of_uint_u32)
  have "sint l \<le> sint avail \<and> 0 \<le> sint l"
    using len sav sint_of_uint_u32 [of len] u32_bounds [of avail] u32_bounds [of len]
    by (auto simp: l_def word_less_def split: if_splits)
  then have "int (nat (sint l)) * int sz \<le> uint avail * int sz" using sav sz by (intro mult_right_mono) auto
  also have "\<dots> \<le> int (length str) - un_pos st" unfolding av by (rule div_mult_le_int) (use sz in simp)
  finally have "stays str (unpack_each str sz f (nat (sint l)) st)" by (intro each_stays [OF sz(1) i]) linarith
  then obtain e where e: "unpack_each str sz f (nat (sint l)) st = Some e" "stays str (Some e)"
    by (cases "unpack_each str sz f (nat (sint l)) st") auto
  have "length_adjust str sz star len (un_pos st) = (l, if avail < len then if star then 0 else unat (len - avail) else 0)"
    by (simp add: length_adjust_def avail_def [symmetric] l_def Let_def)
  with e show ?thesis by (cases e) (auto simp: unpack_fixed_def item_adjust_stays)
qed

lemma U_loop_stays: "stays str (pbind (unpack_U_loop k bs out) (\<lambda>(vs, bs). ok (push vs (n - int (length bs)) st)))"
  if "int (length bs) \<le> n" and "n \<le> int (length str)" and "\<not> un_block st"
  using that(1)
proof (induction k bs out rule: unpack_U_loop.induct)
  case (2 k s out)
  show ?case
  proof (cases "s = []")
    case False
    show ?thesis
    proof (cases "utf8_to_uv s")
      case (Inr r)
      obtain l alen where r: "r = (l, alen)" by (cases r)
      have "stays str (pbind (unpack_U_loop k (drop alen s) (out @ [PVal (RInt (rb_uint2inum l))]))
          (\<lambda>(vs, bs). ok (push vs (n - int (length bs)) st)))"
        using "2.IH" [OF False Inr r [symmetric]] "2.prems" by simp
      with False Inr r show ?thesis by simp
    qed (use False in simp)
  qed (use that 2 in simp)
qed (use that in simp)

lemma encoded_stays:
  assumes i: "inside str st" and n: "length str < 2 ^ 28" and stop: "\<forall>k. \<not> pk_stop env k" and type: "type \<in> set ''UmMw''"
  shows "stays str (unpack_encoded env str type len st)"
proof -
  define bs where "bs = drop (nat (un_pos st)) str"
  have p: "0 \<le> un_pos st" "\<not> int (length str) < un_pos st" "\<not> un_block st" using i by (simp_all add: inside_def)
  have bs: "bytes_from str (un_pos st) = Some bs" using p(1) by (simp add: bytes_from_def bs_def)
  have l: "length bs \<le> length str" "length bs * 3 < 2 ^ 31" using n by (simp_all add: bs_def)
  note u = unpack_encoded_def Let_def bs
  consider "type = CHR ''U''" | "type = CHR ''m''" | "type = CHR ''M''" | "type = CHR ''w''" using type by auto
  then show ?thesis
  proof cases
    case 1
    then show ?thesis using U_loop_stays [of bs "int (length str)" str st "nat len" "[]"] l(1) p by (simp add: u)
  next
    case 2
    obtain r where r: "unpack_m len bs = Some r" using unpack_m_total [OF l(2), of len] by auto
    with 2 p l(1) unpack_m_rest [of len bs] show ?thesis by (cases r) (fastforce simp: u)+
  next
    case 3
    obtain r out where r: "unpack_M bs = Some (r, out)" using unpack_M_total [of bs] by auto
    with 3 p l(1) unpack_M_rest [OF r] show ?thesis by (simp add: u)
  next
    case 4
    obtain out r where r: "unpack_w (pk_env env) (pk_stop env) len 0 bs [] = Some (Inr (out, r))" "length r \<le> length bs"
      using unpack_w_total [OF stop, of 0 "pk_env env" len bs "[]"] by auto
    with 4 p l(1) show ?thesis by (simp add: u)
  qed
qed

lemma find_pointer_cases: "find_pointer assoc t = raise_err ArgError \<or> (\<exists>p. find_pointer assoc t = ok p)"
  by (simp add: find_pointer_def split: option.split list.split)

lemma left_word:
  assumes i: "inside str st" and n: "length str < 2 ^ 28"
  shows "uint (word_of_int (left str (un_pos st)) :: u32) = int (length str) - un_pos st"
proof -
  have "0 \<le> int (length str) - un_pos st" "int (length str) - un_pos st < 2 ^ 28" using i n by (auto simp: inside_def)
  then show ?thesis unfolding left_inside [OF i n] by (simp only: uint_word_of_int) (simp add: mod_pos_pos_trivial)
qed

lemma pointer_read:
  assumes i: "inside str st" and n: "length str < 2 ^ 28" and l: "\<not> word_of_int (left str (un_pos st)) < (4 :: u32)"
  obtains bs where "read_bytes str (un_pos st) 4 = Some bs" and "un_pos st + 4 \<le> int (length str)"
proof -
  have "un_pos st + 4 \<le> int (length str)" using l left_word [OF i n] by (simp add: word_less_def)
  then show ?thesis using read_bytes_inside [of "un_pos st" 4 str] i that by (auto simp: inside_def)
qed

lemma P_stays:
  assumes i: "inside str st" and n: "length str < 2 ^ 28"
  shows "stays str (unpack_P assoc str len st)"
proof (cases "word_of_int (left str (un_pos st)) < (4 :: u32)")
  case False
  then obtain bs where bs: "read_bytes str (un_pos st) 4 = Some bs" "un_pos st + 4 \<le> int (length str)" by (rule pointer_read [OF i n])
  moreover have "0 \<le> un_pos st" "\<not> un_block st" using i by (simp_all add: inside_def)
  ultimately show ?thesis using False find_pointer_cases [of assoc "ucast (mem_word bs)"]
    by (auto simp: unpack_P_def Let_def)
qed (use i in \<open>simp add: unpack_P_def\<close>)

lemma p_loop_stays:
  "inside str st \<Longrightarrow> length str < 2 ^ 28 \<Longrightarrow> stays str (unpack_p_loop assoc str k st)"
proof (induction k arbitrary: st)
  case (Suc k)
  show ?case
  proof (cases "word_of_int (left str (un_pos st)) < (4 :: u32)")
    case False
    then obtain bs where bs: "read_bytes str (un_pos st) 4 = Some bs" "un_pos st + 4 \<le> int (length str)"
      by (rule pointer_read [OF Suc.prems])
    have "stays str (unpack_p_loop assoc str k (push [v] (un_pos st + 4) st))" for v
      by (rule Suc.IH) (use Suc.prems bs(2) in \<open>auto simp: inside_def push_def\<close>)
    with False bs(1) find_pointer_cases [of assoc "ucast (mem_word bs)"] show ?thesis by (auto simp: Let_def)
  qed (use Suc.prems in simp)
qed simp

section \<open>Formats\<close>

lemma parse_count_length: "parse_count p = Inr (n, p') \<Longrightarrow> length p' \<le> length p"
  by (auto simp: parse_count_def split: list.splits if_splits prod.splits)

lemma next_directive_length: "next_directive p = Some (Inr (type, n, p')) \<Longrightarrow> length p' < length p"
proof (induction p rule: next_directive.induct)
  case (2 type' p)
  show ?case
  proof (cases "is_space type' \<or> type' = CHR ''#''")
    case True
    then show ?thesis using 2 length_dropWhile_le [of "\<lambda>c. c \<noteq> CHR 0x0A" p] by (fastforce split: if_splits)
  next
    case False
    then obtain p1 where p1: "parse_modifier type' p = Inr p1" "parse_count p1 = Inr (n, p')"
      using "2.prems" by (auto split: sum.splits)
    have "length p1 \<le> length p" using p1(1) by (auto simp: parse_modifier_def split: list.splits if_splits)
    with parse_count_length [OF p1(2)] show ?thesis by simp
  qed
qed simp

text \<open>Counts that fit a \<open>long\<close>, and \<open>u\<close> as the last directive only.\<close>

function safe_format :: "string \<Rightarrow> bool" where
  "safe_format p =
     (case next_directive p of
        Some (Inr (type, n, p')) \<Rightarrow>
          (case n of Count v \<Rightarrow> 0 \<le> sint v | _ \<Rightarrow> True)
          \<and> (type = CHR ''u'' \<longrightarrow> next_directive p' = None) \<and> safe_format p'
      | _ \<Rightarrow> True)"
  by pat_completeness auto
termination by (relation "measure length") (auto dest: next_directive_length)

declare safe_format.simps [simp del]

lemma unpack_len_nonneg:
  assumes "inside str st" and "length str < 2 ^ 28" and "case n of Count v \<Rightarrow> 0 \<le> sint v | _ \<Rightarrow> True"
  shows "0 \<le> sint (unpack_len type n str (un_pos st))"
proof -
  have "0 \<le> int (length str) - un_pos st" "int (length str) - un_pos st < 2 ^ 28" using assms(1,2) by (auto simp: inside_def)
  then have "sint (word_of_int (left str (un_pos st)) :: u32) = int (length str) - un_pos st"
    unfolding left_inside [OF assms(1,2)] using long_of_small [of "int (length str) - un_pos st"] by (simp add: long_of_def)
  with assms(3) \<open>0 \<le> int (length str) - un_pos st\<close> show ?thesis by (auto simp: unpack_len_def split: pack_count.split bool.split)
qed

lemma directive_stays:
  assumes i: "inside str st" and n: "length str < 2 ^ 28" and stop: "\<forall>k. \<not> pk_stop env k"
    and c: "case n of Count v \<Rightarrow> 0 \<le> sint v | _ \<Rightarrow> True" and u: "type \<noteq> CHR ''u''"
  shows "stays str (unpack_directive env assoc str type n st)"
proof -
  define w where "w = unpack_len type n str (un_pos st)"
  have w: "0 \<le> sint w" unfolding w_def by (rule unpack_len_nonneg [OF i n c])
  have p: "0 \<le> un_pos st" "un_pos st \<le> int (length str)" "\<not> un_block st" using i by (simp_all add: inside_def)
  have lp: "long_of (un_pos st) = un_pos st" using p n by (intro long_of_small) auto
  have iw: "0 < int_width type" "int_width type \<le> 8" by (simp_all add: int_width_def)
  note lemmas' = text_stays [OF i n w] digits_stays [OF i n w] fixed_stays [OF i n w iw] fixed_stays [OF i n w, of 4] fixed_stays [OF i n w, of 8]
    P_stays [OF i n] p_loop_stays [OF i n]
  have enc: "stays str (unpack_encoded env str type (sint w) st)" if "type \<in> set ''UumMw''"
    using that u by (intro encoded_stays [OF i n stop]) auto
  show ?thesis
    unfolding unpack_directive_def Let_def w_def [symmetric]
    using lemmas' enc i p w lp left_inside [OF i n] by (auto simp: inside_def unpack_p_def Let_def)
qed

lemma u_directive:
  assumes i: "inside str st" and n: "length str < 2 ^ 28"
  shows "unpack_directive env assoc str (CHR ''u'') n st \<noteq> None"
proof -
  define bs where "bs = drop (nat (un_pos st)) str"
  have "length bs * 3 < 2 ^ 31" using n by (simp add: bs_def)
  then obtain r where r: "unpack_u bs = Some r" using unpack_u_total by blast
  have "bytes_from str (un_pos st) = Some bs" "\<not> int (length str) < un_pos st"
    using i by (simp_all add: bytes_from_def bs_def inside_def)
  with r show ?thesis by (cases r) (auto simp: unpack_directive_def unpack_encoded_def Let_def ok_def)
qed

lemma unpack_loop_safe:
  assumes n: "length str < 2 ^ 28" and stop: "\<forall>k. \<not> pk_stop env k"
  shows "inside str st \<Longrightarrow> safe_format p \<Longrightarrow> unpack_loop env assoc str p st \<noteq> None"
proof (induction p arbitrary: st rule: safe_format.induct)
  case (1 p)
  show ?case
  proof (cases "next_directive p")
    case (Some r)
    show ?thesis
    proof (cases r)
      case (Inr d)
      obtain type k p' where d: "d = (type, k, p')" by (cases d)
      have s: "case k of Count v \<Rightarrow> 0 \<le> sint v | _ \<Rightarrow> True" "type = CHR ''u'' \<longrightarrow> next_directive p' = None" "safe_format p'"
        using "1.prems"(2) Some Inr d by (auto simp: safe_format.simps [of p])
      show ?thesis
      proof (cases "type = CHR ''u''")
        case True
        then obtain r' where "unpack_directive env assoc str type k st = Some r'" using u_directive [OF "1.prems"(1) n] by blast
        moreover have "unpack_loop env assoc str p' st' = Some (Inr st')" for st'
          using s(2) True by (subst unpack_loop.simps) simp
        ultimately show ?thesis using Some Inr d by (subst unpack_loop.simps) (cases r', simp_all)
      next
        case False
        have "stays str (unpack_directive env assoc str type k st)"
          by (rule directive_stays [OF "1.prems"(1) n stop s(1) False])
        then obtain r' where r': "unpack_directive env assoc str type k st = Some r'" "stays str (Some r')"
          by (cases "unpack_directive env assoc str type k st") auto
        with "1.IH" [OF Some Inr d [symmetric] refl _ s(3)] Some Inr d show ?thesis
          by (subst unpack_loop.simps) (cases r', auto)
      qed
    qed (use Some in \<open>simp add: unpack_loop.simps\<close>)
  qed (simp add: unpack_loop.simps)
qed

lemma pack_unpack_safe:
  assumes "length str < 2 ^ 28" and "\<forall>k. \<not> pk_stop env k" and "safe_format fmt"
  shows "pack_unpack env False assoc str fmt \<noteq> None"
proof -
  have "inside str \<lparr>un_pos = 0, un_out = [], un_block = False\<rparr>" by (simp add: inside_def)
  from unpack_loop_safe [OF assms(1,2) this assms(3)]
  obtain r where "unpack_loop env assoc str fmt \<lparr>un_pos = 0, un_out = [], un_block = False\<rparr> = Some r" by blast
  then show ?thesis by (cases r) (auto simp: pack_unpack_def)
qed

end
