(* ===== verification/PackPack.thy ===== *)
theory PackPack
  imports PackFormat PackUtf8 PackCodec PackBer
begin

text \<open>
  \<open>pack_pack\<close> of \<open>lib/ruby/pack.c\<close> (\<open>Array#pack\<close>), directive by directive.
\<close>

text \<open>The string built so far, the items not consumed yet, the packed pointers' strings and \<open>enc_info\<close>.\<close>

record ('f, 'o) pack_state =
  pk_res :: "u8 list"
  pk_items :: "('f, 'o) pack_value list"
  pk_assoc :: "('f, 'o) pack_value list"
  pk_enc :: nat

text \<open>\<open>NEXTFROM\<close>.\<close>

definition next_from :: "('f, 'o) pack_state \<Rightarrow> (('f, 'o) pack_value \<times> ('f, 'o) pack_state) presult" where
  "next_from st = (case pk_items st of [] \<Rightarrow> raise_err ArgError | v # vs \<Rightarrow> ok (v, st\<lparr>pk_items := vs\<rparr>))"

text \<open>\<open>rb_str_buf_cat\<close>, here at most.\<close>

definition append :: "u8 list \<Rightarrow> ('f, 'o) pack_state \<Rightarrow> ('f, 'o) pack_state" where
  "append bs st = st\<lparr>pk_res := pk_res st @ bs\<rparr>"

text \<open>The label \<open>grow\<close>: blocks of ten null bytes and the rest; a negative \<open>len\<close> reaches \<open>rb_str_buf_cat\<close>.\<close>

definition grow :: "int \<Rightarrow> ('f, 'o) pack_state \<Rightarrow> ('f, 'o) pack_state presult" where
  "grow len st = (if len < 0 then raise_err ArgError else ok (append (replicate (nat len) 0) st))"

text \<open>The label \<open>shrink\<close>: \<open>rb_str_set_len\<close> with more than the length would expose bytes never written.\<close>

definition shrink :: "int \<Rightarrow> ('f, 'o) pack_state \<Rightarrow> ('f, 'o) pack_state presult" where
  "shrink len st =
     (let plen = int (length (pk_res st)) in
      if plen < len then raise_err ArgError
      else if len < 0 then None
      else ok (st\<lparr>pk_res := take (nat (plen - len)) (pk_res st)\<rparr>))"

text \<open>A loop \<open>while (len-- > 0)\<close> that packs one item per pass.\<close>

fun pack_each ::
  "(('f, 'o) pack_value \<Rightarrow> u8 list presult) \<Rightarrow> nat \<Rightarrow> ('f, 'o) pack_state \<Rightarrow> ('f, 'o) pack_state presult" where
  "pack_each f 0 st = ok st"
| "pack_each f (Suc n) st =
     pbind (next_from st) (\<lambda>(v, st). pbind (f v) (\<lambda>bs. pack_each f n (append bs st)))"

section \<open>Strings\<close>

definition pack_text :: "char \<Rightarrow> bool \<Rightarrow> int \<Rightarrow> u8 list \<Rightarrow> ('f, 'o) pack_state \<Rightarrow> ('f, 'o) pack_state presult" where
  "pack_text type star len s st =
     (let plen = int (length s) in
      if len \<le> plen then
        if len < 0 then raise_err ArgError
        else ok (append (take (nat len) s @ (if star \<and> type = CHR ''Z'' then [0] else [])) st)
      else ok (append (s @ replicate (nat (len - plen)) (if type = CHR ''A'' then 0x20 else 0)) st))"

text \<open>
  The loops over the digits of \<open>b\<close>, \<open>B\<close>, \<open>h\<close> and \<open>H\<close> with their ways to add a digit to \<open>byte\<close> and to make room for the next:
  the bytes written, and what is left in \<open>byte\<close>.
\<close>

definition hex_nibble :: "u8 \<Rightarrow> u8" where
  "hex_nibble c =
     (if 65 \<le> c \<and> c \<le> 90 \<or> 97 \<le> c \<and> c \<le> 122 then ((c AND 15) + 9) AND 15 else c AND 15)"

definition add_digit :: "char \<Rightarrow> u8 \<Rightarrow> u8 \<Rightarrow> u8" where
  "add_digit type byte c =
     (if type = CHR ''b'' then (if c AND 1 \<noteq> 0 then byte OR 128 else byte)
      else if type = CHR ''B'' then byte OR (c AND 1)
      else if type = CHR ''h'' then byte OR push_bit 4 (hex_nibble c)
      else byte OR hex_nibble c)"

definition next_digit :: "char \<Rightarrow> u8 \<Rightarrow> u8" where
  "next_digit type byte =
     (if type = CHR ''b'' then drop_bit 1 byte
      else if type = CHR ''B'' then push_bit 1 byte
      else if type = CHR ''h'' then drop_bit 4 byte
      else push_bit 4 byte)"

definition digits_per_byte :: "char \<Rightarrow> nat" where
  "digits_per_byte type = (if type = CHR ''b'' \<or> type = CHR ''B'' then 8 else 2)"

fun pack_digits_loop :: "char \<Rightarrow> nat \<Rightarrow> u8 \<Rightarrow> u8 list \<Rightarrow> u8 list \<times> u8" where
  "pack_digits_loop type i byte [] = ([], byte)"
| "pack_digits_loop type i byte (c # s) =
     (let byte = add_digit type byte c; i = Suc i in
      if i mod digits_per_byte type \<noteq> 0 then pack_digits_loop type i (next_digit type byte) s
      else (case pack_digits_loop type i 0 s of (out, rest) \<Rightarrow> (byte # out, rest)))"

text \<open>The last, incomplete byte.\<close>

definition last_digits :: "char \<Rightarrow> int \<Rightarrow> u8 \<Rightarrow> u8 list" where
  "last_digits type len byte =
     (let k = nat (len mod int (digits_per_byte type)) in
      if k = 0 then []
      else if type = CHR ''b'' then [drop_bit (7 - k) byte]
      else if type = CHR ''B'' then [push_bit (7 - k) byte]
      else [byte])"

definition pack_digits :: "char \<Rightarrow> int \<Rightarrow> u8 list \<Rightarrow> ('f, 'o) pack_state \<Rightarrow> ('f, 'o) pack_state presult" where
  "pack_digits type len s st =
     (let plen = int (length s);
          (len, j) =
            (if plen < len then
               (plen, if digits_per_byte type = 8 then half (long_of (len - plen + 1))
                      else half (long_of (len + 1)) - half (plen + 1))
             else (len, 0));
          (out, byte) = pack_digits_loop type 0 0 (take (nat len) s) in
      grow j (append (out @ last_digits type len byte) st))"

definition pack_string ::
  "('f, 'o) pack_env \<Rightarrow> char \<Rightarrow> bool \<Rightarrow> int \<Rightarrow> ('f, 'o) pack_state \<Rightarrow> ('f, 'o) pack_state presult" where
  "pack_string env type star len st =
     pbind (next_from st) (\<lambda>(v, st).
     pbind (if v = PVal RNil then ok [] else StringValue env v) (\<lambda>s.
       let len = (if star then int (length s) else len) in
       if strchr ''aAZ'' type then pack_text type star len s st else pack_digits type len s st))"

section \<open>Numbers\<close>

text \<open>The bytes of a word in memory, least significant first.\<close>

definition pack_num :: "char \<Rightarrow> u32 \<Rightarrow> u8 list" where
  "pack_num type l =
     (if strchr ''cC'' type then [ucast l]
      else if strchr ''sSv'' type then mem_bytes 2 (ucast (ucast l :: u16))
      else if type = CHR ''n'' then mem_bytes 2 (ucast (swap16 (ucast l)))
      else if type = CHR ''N'' then mem_bytes 4 (ucast (swap32 l))
      else mem_bytes 4 (ucast l))"

definition pack_int :: "('f, 'o) pack_env \<Rightarrow> char \<Rightarrow> ('f, 'o) pack_value \<Rightarrow> u8 list presult" where
  "pack_int env type v = pbind (num2i32 env v) (\<lambda>l. ok (pack_num type l))"

definition pack_quad :: "('f, 'o) pack_env \<Rightarrow> ('f, 'o) pack_value \<Rightarrow> u8 list presult" where
  "pack_quad env v = pbind (to_integer env v) (\<lambda>i. ok (rb_quad_pack i))"

definition pack_float :: "('f, 'o) pack_env \<Rightarrow> char \<Rightarrow> ('f, 'o) pack_value \<Rightarrow> u8 list presult" where
  "pack_float env type v =
     pbind (Some ((if strchr ''fF'' type then rb_to_float else rb_Float) env v)) (\<lambda>f.
       ok (if strchr ''fFe'' type then mem_bytes 4 (ucast (float_word env f))
           else if type = CHR ''g'' then mem_bytes 4 (ucast (swap32 (float_word env f)))
           else if type = CHR ''G'' then mem_bytes 8 (swapd (double_word env f))
           else mem_bytes 8 (double_word env f)))"

definition pack_unicode :: "('f, 'o) pack_env \<Rightarrow> ('f, 'o) pack_value \<Rightarrow> u8 list presult" where
  "pack_unicode env v =
     pbind (to_integer env v) (\<lambda>i.
     pbind (Some (rb_num2long (pk_env env) (RInt i))) (\<lambda>l.
       if sint l < 0 then raise_err RangeError else Some (rb_uv_to_utf8 l)))"

definition pack_compressed :: "('f, 'o) pack_env \<Rightarrow> ('f, 'o) pack_value \<Rightarrow> u8 list presult" where
  "pack_compressed env v =
     (case v of PVal x \<Rightarrow> pack_w (pk_env env) (pk_stop env) x | PStr s \<Rightarrow> raise_err TypeError)"

section \<open>Encoded text and pointers\<close>

text \<open>Directives \<open>u\<close>, \<open>m\<close> and \<open>M\<close>.\<close>

definition pack_encoding ::
  "('f, 'o) pack_env \<Rightarrow> char \<Rightarrow> int \<Rightarrow> ('f, 'o) pack_state \<Rightarrow> ('f, 'o) pack_state presult" where
  "pack_encoding env type len st =
     pbind (next_from st) (\<lambda>(v, st).
       if type = CHR ''M'' then
         (case pack_M (pk_res st) (case v of PStr s \<Rightarrow> s | PVal x \<Rightarrow> obj_as_string env x) len of
            None \<Rightarrow> None | Some res \<Rightarrow> ok (st\<lparr>pk_res := res\<rparr>))
       else
         pbind (StringValue env v) (\<lambda>s.
           case pack_encoded (pk_res st) s len type of None \<Rightarrow> None | Some res \<Rightarrow> ok (st\<lparr>pk_res := res\<rparr>)))"

fun pack_pointers :: "('f, 'o) pack_env \<Rightarrow> nat \<Rightarrow> ('f, 'o) pack_state \<Rightarrow> ('f, 'o) pack_state presult" where
  "pack_pointers env 0 st = ok st"
| "pack_pointers env (Suc n) st =
     pbind (next_from st) (\<lambda>(v, st).
     pbind (if v = PVal RNil then ok 0 else pbind (StringValue env v) (\<lambda>s. ok (string_ptr env s))) (\<lambda>t.
       pack_pointers env n (append (mem_bytes 4 (ucast t)) (st\<lparr>pk_assoc := pk_assoc st @ [v]\<rparr>))))"

text \<open>Directive \<open>P\<close>: the first item must be as long as the count says.\<close>

definition pack_struct :: "('f, 'o) pack_env \<Rightarrow> int \<Rightarrow> ('f, 'o) pack_state \<Rightarrow> ('f, 'o) pack_state presult" where
  "pack_struct env len st =
     pbind (next_from st) (\<lambda>(v, _).
     pbind (if v = PVal RNil then ok () else
              pbind (StringValue env v) (\<lambda>s. if int (length s) < len then raise_err ArgError else ok ())) (\<lambda>_.
       pack_pointers env 1 st))"

section \<open>The loop\<close>

definition count_len :: "char \<Rightarrow> pack_count \<Rightarrow> ('f, 'o) pack_state \<Rightarrow> int" where
  "count_len type n st =
     (case n of
        Star \<Rightarrow> if strchr ''@Xxu'' type then 0 else if strchr ''PMm'' type then 1 else int (length (pk_items st))
      | Count v \<Rightarrow> sint v
      | NoCount _ \<Rightarrow> 1)"

definition enc_of :: "char \<Rightarrow> nat \<Rightarrow> nat" where
  "enc_of type enc =
     (if type = CHR ''U'' then (if enc = 1 then 2 else enc)
      else if type \<in> {CHR ''m'', CHR ''M'', CHR ''u''} then enc
      else 0)"

definition pack_directive ::
  "('f, 'o) pack_env \<Rightarrow> char \<Rightarrow> pack_count \<Rightarrow> ('f, 'o) pack_state \<Rightarrow> ('f, 'o) pack_state presult" where
  "pack_directive env type n st0 =
     (let len = count_len type n st0;
          st = st0\<lparr>pk_enc := enc_of type (pk_enc st0)\<rparr> in
      if type \<in> set ''AaZBbHh'' then pack_string env type (n = Star) len st
      else if type \<in> set ''cCsSiIlLnNvV'' then pack_each (pack_int env type) (nat len) st
      else if type \<in> set ''qQ'' then pack_each (pack_quad env) (nat len) st
      else if type \<in> set ''fFeEdDgG'' then pack_each (pack_float env type) (nat len) st
      else if type = CHR ''x'' then grow len st
      else if type = CHR ''X'' then shrink len st
      else if type = CHR ''@'' then
        (let len = long_of (len - int (length (pk_res st))) in
         if 0 < len then grow len st
         else if 0 < long_of (- len) then shrink (long_of (- len)) st
         else ok st)
      else if type = CHR ''%'' then raise_err ArgError
      else if type = CHR ''U'' then pack_each (pack_unicode env) (nat len) st
      else if type \<in> set ''umM'' then pack_encoding env type len st
      else if type = CHR ''P'' then pack_struct env len st
      else if type = CHR ''p'' then pack_pointers env (nat len) st
      else if type = CHR ''w'' then pack_each (pack_compressed env) (nat len) st
      else ok st)"

partial_function (option) pack_loop ::
  "('f, 'o) pack_env \<Rightarrow> string \<Rightarrow> ('f, 'o) pack_state \<Rightarrow> ('f, 'o) pack_state presult" where
  "pack_loop env p st =
     (case next_directive p of
        None \<Rightarrow> Some (Inr st)
      | Some (Inl e) \<Rightarrow> Some (Inl e)
      | Some (Inr (type, n, p')) \<Rightarrow>
          (case pack_directive env type n st of
             None \<Rightarrow> None
           | Some (Inl e) \<Rightarrow> Some (Inl e)
           | Some (Inr st') \<Rightarrow> pack_loop env p' st'))"

text \<open>The result: the bytes, the encoding (0 binary, 1 US-ASCII, 2 UTF-8) and the associated strings.\<close>

definition pack_pack ::
  "('f, 'o) pack_env \<Rightarrow> ('f, 'o) pack_value list \<Rightarrow> string \<Rightarrow> (u8 list \<times> nat \<times> ('f, 'o) pack_value list) presult" where
  "pack_pack env ary fmt =
     pbind (pack_loop env fmt \<lparr>pk_res = [], pk_items = ary, pk_assoc = [], pk_enc = 1\<rparr>)
       (\<lambda>st. ok (pk_res st, pk_enc st, pk_assoc st))"

declare pack_loop.simps [code]

end
