(* ===== verification/PackInts.thy ===== *)
theory PackInts
  imports PackPack PackSafe
begin

text \<open>
  One directive with the count \<open>*\<close> through \<open>Array#pack\<close> and \<open>String#unpack\<close>, and the integers of fixed width: their bytes
  under every directive, in both byte orders, and what is read from them.
\<close>

section \<open>One directive with a star\<close>

lemma next_directive_star:
  "\<not> is_space type \<Longrightarrow> type \<noteq> CHR ''#'' \<Longrightarrow> next_directive [type, CHR ''*''] = Some (Inr (type, Star, []))"
  by (simp add: parse_modifier_def parse_count_def)

lemma pack_loop_star:
  assumes "\<not> is_space type" and "type \<noteq> CHR ''#''"
  shows "pack_loop env [type, CHR ''*''] st = pack_directive env type Star st"
proof (cases "pack_directive env type Star st")
  case (Some r)
  then show ?thesis
    by (subst pack_loop.simps) (cases r, simp_all add: next_directive_star [OF assms] del: next_directive.simps(2), simp add: pack_loop.simps)
qed (subst pack_loop.simps, simp add: next_directive_star [OF assms] del: next_directive.simps(2))

lemma unpack_loop_star:
  assumes "\<not> is_space type" and "type \<noteq> CHR ''#''"
  shows "unpack_loop env assoc str [type, CHR ''*''] st = unpack_directive env assoc str type Star st"
proof (cases "unpack_directive env assoc str type Star st")
  case (Some r)
  then show ?thesis
    by (subst unpack_loop.simps) (cases r, simp_all add: next_directive_star [OF assms] del: next_directive.simps(2), simp add: unpack_loop.simps)
qed (subst unpack_loop.simps, simp add: next_directive_star [OF assms] del: next_directive.simps(2))

text \<open>Packing one item after the other.\<close>

lemma pack_each_ok:
  "\<forall>v \<in> set vs. f v = ok (g v) \<Longrightarrow> pk_items st = vs \<Longrightarrow>
    pack_each f (length vs) st = ok (st\<lparr>pk_res := pk_res st @ concat (map g vs), pk_items := []\<rparr>)"
proof (induction vs arbitrary: st)
  case (Cons v vs)
  then show ?case by (simp add: next_from_def append_def)
qed simp

text \<open>Reading a string of chunks of one size.\<close>

lemma read_bytes_chunk: "length c = k \<Longrightarrow> read_bytes (pre @ c @ post) (int (length pre)) k = Some c"
  by (auto simp: read_bytes_def)

lemma unpack_each_chunks:
  "\<forall>c \<in> set cs. length c = sz \<Longrightarrow> un_pos st = int (length pre) \<Longrightarrow>
    unpack_each (pre @ concat cs) sz f (length cs) st
      = ok (push (map f cs) (int (length pre + length (concat cs))) st)"
proof (induction cs arbitrary: pre st)
  case Nil
  then show ?case by (simp add: push_def)
next
  case (Cons c cs)
  from Cons.IH [of "push [f c] (un_pos st + int sz) st" "pre @ c"] Cons.prems
  show ?case by (simp add: read_bytes_chunk) (simp add: push_def)
qed

lemma length_concat_chunks: "\<forall>c \<in> set cs. length c = sz \<Longrightarrow> length (concat cs) = length cs * sz"
  by (induction cs) simp_all

lemma unpack_fixed_chunks:
  assumes cs: "\<forall>c \<in> set cs. length c = sz" and sz: "0 < sz" "sz \<le> 8" and n: "length (concat cs) < 2 ^ 28"
    and st: "un_pos st = 0" "\<not> un_block st"
  shows "unpack_fixed (concat cs) type sz f True (word_of_int (left (concat cs) 0)) st
    = ok (push (map f cs) (int (length (concat cs))) st)"
proof -
  define w where "w = (word_of_int (left (concat cs) 0) :: u32)"
  have i: "inside (concat cs) st" using st by (simp add: inside_def)
  have w: "uint w = int (length (concat cs))" using left_word [OF i n] by (simp add: w_def st(1))
  define avail where "avail = w div of_nat sz"
  have av: "uint avail = int (length cs)"
  proof -
    have "uint avail = int (length cs * sz) div int sz"
      unfolding avail_def uint_div w length_concat_chunks [OF cs] using sz by (simp add: unsigned_of_nat take_bit_nat_eq_self)
    then show ?thesis using sz(1) by simp
  qed
  have "int (length cs) \<le> int (length (concat cs))" unfolding length_concat_chunks [OF cs] using sz(1) by (cases sz) simp_all
  then have le: "avail < w \<or> avail = w" using av w by (auto simp: word_less_def word_uint_eq_iff)
  have adj: "length_adjust (concat cs) sz True w 0 = (avail, 0)"
    using le by (auto simp: length_adjust_def Let_def avail_def w_def)
  have "nat (sint avail) = length cs"
    using av \<open>int (length cs) \<le> _\<close> n sint_of_uint_u32 [of avail] by simp
  then have "unpack_each (concat cs) sz f (nat (sint avail)) st = ok (push (map f cs) (int (length (concat cs))) st)"
    using unpack_each_chunks [of cs sz st "[]" f] cs st by simp
  then show ?thesis by (simp add: unpack_fixed_def w_def [symmetric] st(1) adj item_adjust_def)
qed

section \<open>Integers of fixed width\<close>

fun le_bytes :: "nat \<Rightarrow> int \<Rightarrow> u8 list" where
  "le_bytes 0 i = []"
| "le_bytes (Suc k) i = word_of_int i # le_bytes k (i div 256)"

lemma length_le_bytes [simp]: "length (le_bytes k i) = k"
  by (induction k arbitrary: i) simp_all

lemma mem_bytes_le: "mem_bytes k w = le_bytes k (uint w)"
proof (induction k arbitrary: w)
  case (Suc k)
  have "(ucast w :: u8) = word_of_int (uint w)" by (simp add: word_uint_eq_iff uint_word_of_int unsigned_ucast_eq take_bit_eq_mod)
  with Suc show ?case by (simp add: uint_drop_bit)
qed simp

lemma le_bytes_mod: "k \<le> m \<Longrightarrow> le_bytes k (i mod 256 ^ m) = le_bytes k i"
proof (induction k arbitrary: m i)
  case (Suc k)
  obtain m' where m: "m = Suc m'" using Suc.prems by (cases m) auto
  have "i mod 256 ^ m div 256 = i div 256 mod 256 ^ m'" unfolding m
    using zmod_zmult2_eq [of "256 ^ m'" i 256] by simp
  moreover have "(word_of_int (i mod 256 ^ m) :: u8) = word_of_int i"
    unfolding m by (simp add: word_uint_eq_iff uint_word_of_int mod_mod_cancel)
  ultimately show ?case using Suc by (simp add: m)
qed simp

text \<open>The signed and unsigned value that the bytes of a directive keep of an integer.\<close>

definition reduced :: "char \<Rightarrow> int \<Rightarrow> int" where
  "reduced type i =
     (let m = 2 ^ (8 * int_width type) in
      if type \<in> set ''csilq'' then (i + m div 2) mod m - m div 2 else i mod m)"

lemma uint_ulong_pack: "uint (rb_big2ulong_pack x) = big_int x mod 2 ^ 32"
proof -
  define num where "num = (ucast (fold_digits (take (min (length (big_digits x)) DIGSPERLONG) (big_digits x))) :: u32)"
  have "uint num = bval (take (min (length (big_digits x)) 1) (big_digits x)) mod 2 ^ 64 mod 2 ^ 32"
    unfolding num_def DIGSPERLONG_def by (simp add: unsigned_ucast_eq take_bit_eq_mod uint_fold_digits)
  also have "\<dots> = bval (take (min (length (big_digits x)) 1) (big_digits x)) mod 2 ^ 32" by (rule mod_mod_cancel) simp
  also have "\<dots> = bval (big_digits x) mod 2 ^ 32" by (cases "big_digits x") simp_all
  finally have n: "uint num = bval (big_digits x) mod 2 ^ 32" .
  have "rb_big2ulong_pack x = (if \<not> big_sign x then - num else num)"
    by (simp add: rb_big2ulong_pack_def big2ulong_def num_def Let_def)
  then show ?thesis using n by (simp add: big_int_def uint_word_ariths mod_minus_eq)
qed

lemma num2i32_int: "\<exists>l. num2i32 env (PVal (RInt v)) = ok l \<and> uint l = int_of v mod 2 ^ 32"
proof (cases v)
  case (VFix w)
  have "uint (FIX2LONG w) = int_of v mod 2 ^ 32" using uint_eq_sint_mod [of "FIX2LONG w"] VFix by simp
  then show ?thesis by (simp add: num2i32_def to_integer_def VFix ok_def)
next
  case (VBig x)
  then show ?thesis using uint_ulong_pack [of x] by (simp add: num2i32_def to_integer_def ok_def)
qed

lemma sint_shift: "uint (x :: 'a :: len word) = i mod 2 ^ LENGTH('a) \<Longrightarrow>
    sint x = (i + 2 ^ (LENGTH('a) - 1)) mod 2 ^ LENGTH('a) - 2 ^ (LENGTH('a) - 1)"
proof -
  assume u: "uint x = i mod 2 ^ LENGTH('a)"
  have "sint x = take_bit (Suc (LENGTH('a) - 1)) (uint x + 2 ^ (LENGTH('a) - 1)) - 2 ^ (LENGTH('a) - 1)"
    by (simp only: sint_uint signed_take_bit_eq_take_bit_shift One_nat_def)
  also have "Suc (LENGTH('a) - 1) = LENGTH('a)" by simp
  finally show ?thesis by (simp only: take_bit_eq_mod u mod_add_left_eq)
qed

text \<open>Swapping bytes.\<close>

lemma byte_masks:
  "bit (0xFF :: 'a :: len word) n \<longleftrightarrow> n < LENGTH('a) \<and> n < 8" "bit (0xFF00 :: u32) n \<longleftrightarrow> 8 \<le> n \<and> n < 16"
  "bit (0xFF0000 :: u32) n \<longleftrightarrow> 16 \<le> n \<and> n < 24"
proof -
  have m: "(0xFF :: 'a word) = mask 8" "(0xFF00 :: u32) = push_bit 8 (mask 8)" "(0xFF0000 :: u32) = push_bit 16 (mask 8)"
    by (simp_all add: mask_eq_exp_minus_1)
  show "bit (0xFF :: 'a :: len word) n \<longleftrightarrow> n < LENGTH('a) \<and> n < 8" "bit (0xFF00 :: u32) n \<longleftrightarrow> 8 \<le> n \<and> n < 16"
    "bit (0xFF0000 :: u32) n \<longleftrightarrow> 16 \<le> n \<and> n < 24"
    unfolding m by (auto simp only: bit_push_bit_iff bit_mask_iff possible_bit_word) auto
qed

lemma ucast_div: "(ucast (drop_bit n x) :: u8) = word_of_int (uint (x :: 'a :: len word) div 2 ^ n)"
  by (simp add: word_uint_eq_iff uint_word_of_int unsigned_ucast_eq take_bit_eq_mod uint_drop_bit)

lemma le_bytes_word:
  "le_bytes 2 (uint x) = [ucast x, ucast (drop_bit 8 x)]"
  "le_bytes 4 (uint y) = [ucast y, ucast (drop_bit 8 y), ucast (drop_bit 16 y), ucast (drop_bit 24 y)]"
  for x :: "'a :: len word" and y :: "'b :: len word"
proof -
  have two: "le_bytes 2 i = [word_of_int i, word_of_int (i div 256)]" for i by (simp add: numeral_2_eq_2)
  have four: "le_bytes 4 i = le_bytes 2 i @ le_bytes 2 (i div 65536)" for i
    by (simp add: numeral_eq_Suc zdiv_zmult2_eq [of 256 i 256, symmetric, simplified])
  show "le_bytes 2 (uint x) = [ucast x, ucast (drop_bit 8 x)]"
    using ucast_div [of 0 x] by (simp add: two ucast_div)
  show "le_bytes 4 (uint y) = [ucast y, ucast (drop_bit 8 y), ucast (drop_bit 16 y), ucast (drop_bit 24 y)]"
    using ucast_div [of 0 y] zdiv_zmult2_eq [of 256 "uint y" 65536] by (simp add: four two ucast_div)
qed

lemma swap16_bytes: "le_bytes 2 (uint (swap16 x)) = rev (le_bytes 2 (uint x))"
proof -
  have "ucast (swap16 x) = (ucast (drop_bit 8 x) :: u8)" "ucast (drop_bit 8 (swap16 x)) = (ucast x :: u8)"
    by (rule u8_eqI, auto simp: swap16_def bit_simps byte_masks simp del: bit_numeral_word_iff)+
  then show ?thesis by (simp add: le_bytes_word)
qed

lemma swap32_bytes: "le_bytes 4 (uint (swap32 x)) = rev (le_bytes 4 (uint x))"
proof -
  have "ucast (swap32 x) = (ucast (drop_bit 24 x) :: u8)" "ucast (drop_bit 8 (swap32 x)) = (ucast (drop_bit 16 x) :: u8)"
    "ucast (drop_bit 16 (swap32 x)) = (ucast (drop_bit 8 x) :: u8)" "ucast (drop_bit 24 (swap32 x)) = (ucast x :: u8)"
    by (rule u8_eqI, auto simp: swap32_def bit_simps byte_masks simp del: bit_numeral_word_iff)+
  then show ?thesis by (simp add: le_bytes_word)
qed

lemma le_bytes_inject: "0 \<le> i \<Longrightarrow> i < 256 ^ k \<Longrightarrow> 0 \<le> j \<Longrightarrow> j < 256 ^ k \<Longrightarrow> le_bytes k i = le_bytes k j \<Longrightarrow> i = j"
proof (induction k arbitrary: i j)
  case (Suc k)
  have "i mod 256 = j mod 256"
    using Suc.prems(5) by (simp add: word_uint_eq_iff uint_word_of_int)
  moreover have "i div 256 = j div 256"
    using Suc.prems by (intro Suc.IH) (auto simp: div_less_int)
  ultimately show ?case by (metis mult_div_mod_eq)
qed simp

lemma swap_swap: "swap16 (swap16 x) = x" "swap32 (swap32 y) = y"
proof -
  have "le_bytes 2 (uint (swap16 (swap16 x))) = le_bytes 2 (uint x)" by (simp only: swap16_bytes rev_rev_ident)
  from le_bytes_inject [OF _ _ _ _ this] show "swap16 (swap16 x) = x"
    using uint_lt2p [of x] uint_lt2p [of "swap16 (swap16 x)"] by (simp add: word_uint_eq_iff)
  have "le_bytes 4 (uint (swap32 (swap32 y))) = le_bytes 4 (uint y)" by (simp only: swap32_bytes rev_rev_ident)
  from le_bytes_inject [OF _ _ _ _ this] show "swap32 (swap32 y) = y"
    using uint_lt2p [of y] uint_lt2p [of "swap32 (swap32 y)"] by (simp add: word_uint_eq_iff)
qed

text \<open>The bytes of an integer under a directive, and what is read from them.\<close>

definition int_bytes :: "char \<Rightarrow> int \<Rightarrow> u8 list" where
  "int_bytes type i =
     (if type \<in> set ''nN'' then rev (le_bytes (int_width type) i) else le_bytes (int_width type) i)"

lemma length_int_bytes [simp]: "length (int_bytes type i) = int_width type"
  by (simp add: int_bytes_def)

lemma le_bytes_mem: "k \<le> 8 \<Longrightarrow> le_bytes k i = mem_bytes k (word_of_int i)"
  using le_bytes_mod [of k 8 i] by (simp add: mem_bytes_le uint_word_of_int)

lemma uint_mem_word_le: "k \<le> 8 \<Longrightarrow> uint (mem_word (le_bytes k i)) = i mod 2 ^ (8 * k)"
  using mod_mod_cancel [of "2 ^ (8 * k)" "2 ^ 64" i] le_imp_power_dvd [of "8 * k" 64 "2 :: int"]
  by (simp add: le_bytes_mem uint_mem_word_bytes uint_word_of_int)

lemma ucast_mem_word_le:
  "LENGTH('a) = 8 * k \<Longrightarrow> k \<le> 8 \<Longrightarrow> (ucast (mem_word (le_bytes k i)) :: 'a :: len word) = word_of_int i"
  by (simp add: word_uint_eq_iff unsigned_ucast_eq take_bit_eq_mod uint_mem_word_le uint_word_of_int)

lemma rev_bytes:
  "rev (le_bytes 2 i) = le_bytes 2 (uint (swap16 (word_of_int i)))"
  "rev (le_bytes 4 i) = le_bytes 4 (uint (swap32 (word_of_int i)))"
  using le_bytes_mod [of 2 2 i] le_bytes_mod [of 4 4 i]
  by (simp_all add: swap16_bytes swap32_bytes uint_word_of_int)

lemma low_bytes:
  "mem_bytes 4 (ucast l) = le_bytes 4 (uint l)" "mem_bytes 2 (ucast h) = le_bytes 2 (uint h)" for l :: u32 and h :: u16
  using le_bytes_mod [of 2 8 "uint h"] le_bytes_mod [of 4 8 "uint l"]
  by (simp_all add: mem_bytes_le unsigned_ucast_eq take_bit_eq_mod)

lemma narrow_types:
  "type \<in> set ''cCsSiIlLnNvV'' \<Longrightarrow>
    type \<in> set ''cC'' \<or> type \<in> set ''sSv'' \<or> type = CHR ''n'' \<or> type = CHR ''N'' \<or> type \<in> set ''iIlLV''"
  by (simp only: list.set insert_iff empty_iff simp_thms) argo

lemma pack_num_bytes:
  assumes "type \<in> set ''cCsSiIlLnNvV''"
  shows "pack_num type (word_of_int i) = int_bytes type i"
proof -
  have e: "le_bytes 4 (i mod 4294967296) = le_bytes 4 i" "le_bytes 2 (i mod 65536) = le_bytes 2 i"
    using le_bytes_mod [of 4 4 i] le_bytes_mod [of 2 2 i] by simp_all
  have u: "ucast (word_of_int i :: u32) = (word_of_int i :: u16)" "ucast (word_of_int i :: u32) = (word_of_int i :: u8)"
    by (simp_all add: word_uint_eq_iff unsigned_ucast_eq uint_word_of_int take_bit_eq_mod mod_mod_cancel)
  have one: "le_bytes 1 i = [word_of_int i]" by simp
  consider "type \<in> set ''cC''" | "type \<in> set ''sSv''" | "type = CHR ''n''" | "type = CHR ''N''" | "type \<in> set ''iIlLV''"
    using narrow_types [OF assms] by blast
  then show ?thesis
  proof cases
    case 1
    then have "int_width type = 1" "type \<notin> set ''nN''" "strchr ''cC'' type" by (auto simp: int_width_def strchr_def)
    then show ?thesis by (simp add: pack_num_def int_bytes_def u)
  next
    case 2
    then have "int_width type = 2" "type \<notin> set ''nN''" "\<not> strchr ''cC'' type" "strchr ''sSv'' type" by (auto simp: int_width_def strchr_def)
    then show ?thesis by (simp add: pack_num_def int_bytes_def u low_bytes uint_word_of_int e)
  next
    case 3
    then show ?thesis by (simp add: pack_num_def int_bytes_def int_width_def strchr_def u low_bytes rev_bytes)
  next
    case 4
    then show ?thesis by (simp add: pack_num_def int_bytes_def int_width_def strchr_def low_bytes rev_bytes)
  next
    case 5
    then have "int_width type = 4" "type \<notin> set ''nN''" "\<not> strchr ''cC'' type" "\<not> strchr ''sSv'' type"
      "type \<noteq> CHR ''n''" "type \<noteq> CHR ''N''" by (auto simp: int_width_def strchr_def)
    then show ?thesis by (simp add: pack_num_def int_bytes_def low_bytes uint_word_of_int e)
  qed
qed

lemma pack_int_bytes:
  assumes "type \<in> set ''cCsSiIlLnNvV''"
  shows "pack_int env type (PVal (RInt v)) = ok (int_bytes type (int_of v))"
proof -
  obtain l where l: "num2i32 env (PVal (RInt v)) = ok l" "uint l = int_of v mod 2 ^ 32"
    using num2i32_int [of env v] by blast
  then have "l = word_of_int (int_of v)" by (simp add: word_uint_eq_iff uint_word_of_int)
  with l(1) pack_num_bytes [OF assms] show ?thesis by (simp add: pack_int_def)
qed

text \<open>\<open>list_all2\<close> over what comes back.\<close>

lemma reduced_signed: "type \<in> set ''csilq'' \<Longrightarrow> uint (x :: 'a :: len word) = i mod 2 ^ LENGTH('a) \<Longrightarrow>
    LENGTH('a) = 8 * int_width type \<Longrightarrow> sint x = reduced type i"
  using sint_shift [of x i] by (auto simp: reduced_def Let_def int_width_def)

lemma reduced_unsigned: "type \<notin> set ''csilq'' \<Longrightarrow> reduced type i = i mod 2 ^ (8 * int_width type)"
  by (simp add: reduced_def Let_def)

lemma small_fix: "- (2 ^ 16) \<le> sint x \<Longrightarrow> sint x < 2 ^ 16 \<Longrightarrow>
    normal_int (VFix (LONG2FIX x)) \<and> int_of (VFix (LONG2FIX x)) = sint x"
  by (rule INT2FIX_normal) (simp add: fixable_defs)

text \<open>Bytes and halves of words as numbers of 32 bits.\<close>

lemma uint_widen: "uint (ucast b :: u32) = uint b" "uint (ucast h :: u32) = uint h" for b :: u8 and h :: u16
  using uint_lt2p [of h] by (simp_all add: unsigned_ucast_eq take_bit_int_eq_self)

lemma fix_widen:
  "normal_int (VFix (LONG2FIX (ucast b))) \<and> int_of (VFix (LONG2FIX (ucast b))) = uint b"
  "normal_int (VFix (LONG2FIX (ucast h))) \<and> int_of (VFix (LONG2FIX (ucast h))) = uint h"
  "normal_int (VFix (LONG2FIX (scast h))) \<and> int_of (VFix (LONG2FIX (scast h))) = sint h" for b :: u8 and h :: u16
proof -
  have "sint (ucast b :: u32) = uint b" "sint (ucast h :: u32) = uint h"
    using uint_lt2p [of b] uint_lt2p [of h] by (simp_all add: sint_of_uint_u32 uint_widen)
  moreover have "sint (scast h :: u32) = sint h" by (simp add: sint_up_scast is_up_def source_size target_size)
  ultimately show "normal_int (VFix (LONG2FIX (ucast b))) \<and> int_of (VFix (LONG2FIX (ucast b))) = uint b"
    "normal_int (VFix (LONG2FIX (ucast h))) \<and> int_of (VFix (LONG2FIX (ucast h))) = uint h"
    "normal_int (VFix (LONG2FIX (scast h))) \<and> int_of (VFix (LONG2FIX (scast h))) = sint h"
    using small_fix [of "ucast b"] small_fix [of "ucast h"] small_fix [of "scast h"]
      uint_lt2p [of b] uint_lt2p [of h] sint_range_size [of h] uint_ge_0 [of b] uint_ge_0 [of h]
    by (simp_all add: word_size)
qed

lemma fix_char:
  "normal_int (VFix (LONG2FIX (if 127 < b then ucast b - 256 else ucast b)))
    \<and> int_of (VFix (LONG2FIX (if 127 < b then ucast b - 256 else ucast b))) = sint b" for b :: u8
proof -
  have b: "sint b = (if uint b < 128 then uint b else uint b - 256)"
    using sint_uint [of b] uint_lt2p [of b] uint_ge_0 [of b] minus_mod_self2 [of "uint b + 128" 256] by (auto simp: signed_take_bit_eq_take_bit_shift take_bit_eq_mod mod_pos_pos_trivial)
  have "sint (if 127 < b then ucast b - 256 else ucast b :: u32) = sint b"
    using uint_lt2p [of b] by (auto simp: b sint_of_uint_u32 uint_sub_if' uint_widen word_less_def)
  then show ?thesis using small_fix [of "if 127 < b then ucast b - 256 else ucast b"] b uint_lt2p [of b] uint_ge_0 [of b]
    by (simp split: if_splits)
qed

lemma all_types:
  "type \<in> set ''cCsSiIlLqQnNvV'' \<Longrightarrow>
    type = CHR ''c'' \<or> type = CHR ''C'' \<or> type = CHR ''s'' \<or> type = CHR ''S'' \<or> type \<in> set ''il'' \<or> type \<in> set ''ILV'' \<or>
    type = CHR ''q'' \<or> type = CHR ''Q'' \<or> type = CHR ''n'' \<or> type = CHR ''N'' \<or> type = CHR ''v''"
  by (simp only: list.set insert_iff empty_iff simp_thms) argo

lemma unpack_int_bytes:
  assumes "type \<in> set ''cCsSiIlLqQnNvV''"
  shows "normal_int (unpack_int type (int_bytes type i)) \<and> int_of (unpack_int type (int_bytes type i)) = reduced type i"
proof -
  define b where "b = (word_of_int i :: u8)"
  define h where "h = (word_of_int i :: u16)"
  define l where "l = (word_of_int i :: u32)"
  have u: "uint b = i mod 2 ^ 8" "uint h = i mod 2 ^ 16" "uint l = i mod 2 ^ 32" by (simp_all add: b_def h_def l_def uint_word_of_int)
  have one: "int_bytes CHR ''c'' i = [b]" "int_bytes CHR ''C'' i = [b]" by (simp_all add: int_bytes_def int_width_def b_def)
  have w: "ucast (mem_word (le_bytes 2 i)) = h" "ucast (mem_word (le_bytes 4 i)) = l"
    "ucast (mem_word (rev (le_bytes 2 i))) = swap16 h" "ucast (mem_word (rev (le_bytes 4 i))) = swap32 l"
    by (simp_all add: rev_bytes ucast_mem_word_le h_def l_def)
  have signed: "sint b = reduced CHR ''c'' i" "sint h = reduced CHR ''s'' i" "sint l = reduced CHR ''i'' i"
    "sint (mem_word (le_bytes 8 i)) = reduced CHR ''q'' i"
    by (rule reduced_signed; simp add: u uint_mem_word_le int_width_def)+
  have wide: "uint (ucast h :: u32) = uint h" by (rule uint_widen)
  have same: "reduced CHR ''l'' i = reduced CHR ''i'' i" by (simp add: reduced_def int_width_def)
  note facts = same unpack_int_def int_bytes_def int_width_def Let_def w swap_swap signed reduced_unsigned
  from all_types [OF assms] show ?thesis
  proof (elim disjE)
    assume "type = CHR ''c''"
    then show ?thesis using fix_char [of b] by (simp add: unpack_int_def Let_def one signed split del: if_split cong: if_cong)
  next
    assume "type = CHR ''C''"
    then show ?thesis using fix_widen(1) [of b] by (simp add: unpack_int_def one reduced_unsigned int_width_def u)
  next
    assume "type = CHR ''s''"
    then show ?thesis using fix_widen(3) [of h] by (simp add: facts)
  next
    assume "type = CHR ''S''"
    then show ?thesis using fix_widen(2) [of h] by (simp add: facts u)
  next
    assume "type \<in> set ''il''"
    then have "type = CHR ''i'' \<or> type = CHR ''l''" by simp
    then show ?thesis using rb_int2inum_correct [of l] by (elim disjE) (simp_all add: facts)
  next
    assume "type \<in> set ''ILV''"
    then have "type = CHR ''I'' \<or> type = CHR ''L'' \<or> type = CHR ''V''" by simp
    then show ?thesis using rb_uint2inum_correct [of l] by (elim disjE) (simp_all add: facts u)
  next
    assume "type = CHR ''q''"
    then show ?thesis using rb_quad_unpack_correct [of "le_bytes 8 i" True] by (simp add: facts)
  next
    assume "type = CHR ''Q''"
    then show ?thesis using rb_quad_unpack_correct [of "le_bytes 8 i" False] by (simp add: facts uint_mem_word_le)
  next
    assume "type = CHR ''n''"
    then show ?thesis using rb_uint2inum_correct [of "ucast h"] by (simp add: facts wide u)
  next
    assume "type = CHR ''N''"
    then show ?thesis using rb_uint2inum_correct [of l] by (simp add: facts u)
  next
    assume "type = CHR ''v''"
    then show ?thesis using rb_uint2inum_correct [of "ucast h"] by (simp add: facts wide u)
  qed
qed

text \<open>A list of integers there and back.\<close>

lemma pack_quad_bytes:
  assumes "type \<in> set ''qQ''" shows "pack_quad env (PVal (RInt v)) = ok (int_bytes type (int_of v))"
proof -
  have "mem_bytes 8 (quad_value v) = le_bytes 8 (int_of v)"
    using le_bytes_mod [of 8 8 "int_of v"] by (simp add: mem_bytes_le uint_quad_value)
  with assms show ?thesis
    by (auto simp: pack_quad_def to_integer_def ok_def int_bytes_def int_width_def rb_quad_pack_def)
qed

lemma int_width_range: "0 < int_width type" "int_width type \<le> 8"
  by (simp_all add: int_width_def)

lemma int_type: "type \<in> set ''cCsSiIlLqQnNvV'' \<Longrightarrow> \<not> is_space type \<and> type \<notin> set ''#AaZBbHhfFeEdDgGxX@%UumMPpw''"
  by (elim disjE all_types [THEN disjE]) (auto simp: is_space_def code_def)

lemma unpack_star:
  assumes "\<not> is_space type" and "type \<noteq> CHR ''#''"
    and "unpack_directive env assoc str type Star \<lparr>un_pos = 0, un_out = [], un_block = False\<rparr> = ok st"
  shows "pack_unpack env False assoc str [type, CHR ''*''] = ok (un_out st)"
  using assms(3) by (simp add: pack_unpack_def unpack_loop_star [OF assms(1,2)])

lemma pack_star:
  assumes "\<not> is_space type" and "type \<noteq> CHR ''#''"
    and "pack_directive env type Star \<lparr>pk_res = [], pk_items = ary, pk_assoc = [], pk_enc = 1\<rparr> = ok st"
  shows "pack_pack env ary [type, CHR ''*''] = ok (pk_res st, pk_enc st, pk_assoc st)"
  using assms(3) by (simp add: pack_pack_def pack_loop_star [OF assms(1,2)])

lemma pack_integers:
  fixes env :: "('f, 'o) pack_env"
  assumes type: "type \<in> set ''cCsSiIlLqQnNvV''"
  shows "pack_pack env (map (\<lambda>v. PVal (RInt v)) vs) [type, CHR ''*''] = ok (concat (map (\<lambda>v. int_bytes type (int_of v)) vs), 0, [])"
proof -
  define f where "f = (if type \<in> set ''qQ'' then pack_quad env else pack_int env type)"
  define items :: "('f, 'o) pack_value list" where "items = map (\<lambda>v. PVal (RInt v)) vs"
  define st where "st = \<lparr>pk_res = [], pk_items = items, pk_assoc = [], pk_enc = 0\<rparr>"
  note t = int_type [OF type]
  have f: "\<forall>x \<in> set items. f x = ok (case x of PVal (RInt v) \<Rightarrow> int_bytes type (int_of v) | _ \<Rightarrow> [])"
    using type by (auto simp: f_def items_def pack_quad_bytes pack_int_bytes)
  have "pack_directive env type Star (st\<lparr>pk_enc := 1\<rparr>) = pack_each f (length items) st"
    using t type by (auto simp: pack_directive_def count_len_def strchr_def enc_of_def f_def st_def Let_def items_def)
  then show ?thesis using t pack_each_ok [OF f, of st]
    by (intro pack_star [THEN trans]) (auto simp: st_def items_def o_def)
qed

lemma unpack_integers:
  assumes type: "type \<in> set ''cCsSiIlLqQnNvV''" and n: "int_width type * length xs < 2 ^ 28"
  shows "pack_unpack env False assoc (concat (map (int_bytes type) xs)) [type, CHR ''*'']
    = ok (map (\<lambda>i. PVal (RInt (unpack_int type (int_bytes type i)))) xs)"
proof -
  define cs where "cs = map (int_bytes type) xs"
  have len: "\<forall>c \<in> set cs. length c = int_width type" by (auto simp: cs_def)
  have n: "length (concat cs) < 2 ^ 28" using n by (simp only: length_concat_chunks [OF len]) (simp add: cs_def mult.commute)
  define f :: "u8 list \<Rightarrow> ('a, 'b) pack_value" where "f = (\<lambda>bs. PVal (RInt (unpack_int type bs)))"
  define st :: "('a, 'b) unpack_state" where "st = \<lparr>un_pos = 0, un_out = [], un_block = False\<rparr>"
  note t = int_type [OF type]
  have "unpack_directive env assoc (concat cs) type Star st
      = unpack_fixed (concat cs) type (int_width type) f True (word_of_int (left (concat cs) 0)) st"
    using t type by (auto simp: unpack_directive_def unpack_len_def Let_def f_def st_def)
  also have "\<dots> = ok (push (map f cs) (int (length (concat cs))) st)"
    by (rule unpack_fixed_chunks [OF len int_width_range n]) (simp_all add: st_def)
  finally show ?thesis using t
    by (intro unpack_star [THEN trans]) (auto simp: st_def push_def cs_def f_def)
qed

end
