(* ===== verification/PackRound.thy ===== *)
theory PackRound
  imports PackInts
begin

text \<open>
  Round trips through \<open>Array#pack\<close> and \<open>String#unpack\<close> with BER-compressed integers and with strings of digits.
\<close>

section \<open>BER-compressed integers\<close>

lemma ber_bytes_length: "0 < length (ber_bytes n)"
  by (simp add: ber_bytes_def split: list.split)

lemma pack_compressed_bytes:
  "\<forall>k. \<not> pk_stop env k \<Longrightarrow> normal_int v \<Longrightarrow> 0 \<le> int_of v \<Longrightarrow>
    pack_compressed env (PVal (RInt v)) = ok (ber_bytes (int_of v))"
  using pack_w_bytes [of "pk_stop env" v] by (simp add: pack_compressed_def ok_def)

lemma pack_compressed_all:
  fixes env :: "('f, 'o) pack_env"
  assumes stop: "\<forall>k. \<not> pk_stop env k" and vs: "\<forall>v \<in> set vs. normal_int v \<and> 0 \<le> int_of v"
  shows "pack_pack env (map (\<lambda>v. PVal (RInt v)) vs) ''w*'' = ok (concat (map (\<lambda>v. ber_bytes (int_of v)) vs), 0, [])"
proof -
  define items :: "('f, 'o) pack_value list" where "items = map (\<lambda>v. PVal (RInt v)) vs"
  define st where "st = \<lparr>pk_res = [], pk_items = items, pk_assoc = [], pk_enc = 0\<rparr>"
  have f: "\<forall>x \<in> set items. pack_compressed env x = ok (case x of PVal (RInt v) \<Rightarrow> ber_bytes (int_of v) | _ \<Rightarrow> [])"
    using vs by (auto simp: items_def pack_compressed_bytes [OF stop])
  have "pack_directive env CHR ''w'' Star (st\<lparr>pk_enc := 1\<rparr>) = pack_each (pack_compressed env) (length items) st"
    by (simp add: pack_directive_def count_len_def strchr_def enc_of_def st_def)
  then show ?thesis using pack_each_ok [OF f, of st]
    by (intro pack_star [THEN trans]) (auto simp: st_def items_def o_def is_space_def code_def)
qed

lemma unpack_w_all:
  fixes env :: "('f, 'o) rb_env"
  assumes stop: "\<forall>k. \<not> stop k" and vs: "\<forall>v \<in> set vs. normal_int v \<and> 0 \<le> int_of v"
  shows "int (length vs) \<le> len \<Longrightarrow>
    unpack_w env stop len 0 (concat (map (\<lambda>v. ber_bytes (int_of v)) vs)) out = Some (Inr (out @ map RInt vs, []))"
  using vs
proof (induction vs arbitrary: len out)
  case Nil
  then show ?case by (subst unpack_w.simps) simp
next
  case (Cons v vs)
  have "0 < len" "0 \<le> int_of v" using Cons.prems by simp_all
  from unpack_w_bytes [OF stop this, of env "concat (map (\<lambda>v. ber_bytes (int_of v)) vs)" out] obtain r where
    r: "unpack_w env stop len 0 (concat (map (\<lambda>v. ber_bytes (int_of v)) (v # vs))) out
      = unpack_w env stop (len - 1) 0 (concat (map (\<lambda>v. ber_bytes (int_of v)) vs)) (out @ [r])" "is_int_value r (int_of v)"
    by auto
  have "r = RInt v" using r(2) Cons.prems normal_int_unique by (auto simp: is_int_value_def)
  with r(1) Cons.IH [of "len - 1" "out @ [r]"] Cons.prems show ?case by simp
qed

lemma unpack_compressed_all:
  fixes env :: "('f, 'o) pack_env"
  assumes stop: "\<forall>k. \<not> pk_stop env k" and vs: "\<forall>v \<in> set vs. normal_int v \<and> 0 \<le> int_of v"
    and bs: "bs = concat (map (\<lambda>v. ber_bytes (int_of v)) vs)" "length bs < 2 ^ 28"
  shows "pack_unpack env False assoc bs ''w*'' = ok (map (\<lambda>v. PVal (RInt v)) vs)"
proof -
  define st :: "('f, 'o) unpack_state" where "st = \<lparr>un_pos = 0, un_out = [], un_block = False\<rparr>"
  have "length vs \<le> length bs" unfolding bs(1)
  proof (induction vs)
    case (Cons v vs)
    then show ?case using ber_bytes_length [of "int_of v"] by (cases "ber_bytes (int_of v)") simp_all
  qed simp
  moreover have "sint (word_of_int (left bs 0) :: u32) = int (length bs)"
    using bs(2) long_of_small [of "int (length bs)"] by (simp add: left_def long_of_def)
  ultimately have u: "unpack_w (pk_env env) (pk_stop env) (sint (word_of_int (left bs 0) :: u32)) 0 bs [] = Some (Inr (map RInt vs, []))"
    using unpack_w_all [OF stop vs, of "int (length bs)" "pk_env env" "[]"] bs(1) by simp
  have "unpack_directive env assoc bs CHR ''w'' Star st = ok (push (map (\<lambda>v. PVal (RInt v)) vs) (int (length bs)) st)"
    using u by (simp add: unpack_directive_def unpack_len_def unpack_encoded_def bytes_from_def st_def o_def)
  then show ?thesis
    by (intro unpack_star [THEN trans]) (auto simp: st_def push_def is_space_def code_def)
qed

section \<open>Strings of digits\<close>

text \<open>The digits of one byte; the loops take one byte after the other.\<close>

definition byte_digits :: "char \<Rightarrow> u8 \<Rightarrow> u8 list" where
  "byte_digits type b = map (\<lambda>j. take_digit type ((shift_digit type ^^ j) b)) [0..<digits_in_byte type]"

lemma digits_number: "0 < digits_in_byte type" "1 < digits_in_byte type" "digits_per_byte type = digits_in_byte type"
  by (simp_all add: digits_in_byte_def digits_per_byte_def)

lemma unpack_run:
  "0 < i mod digits_in_byte type \<Longrightarrow> i mod digits_in_byte type + k \<le> digits_in_byte type \<Longrightarrow>
    unpack_digits_loop type i (k + n) bits bs
      = map (\<lambda>j. take_digit type ((shift_digit type ^^ Suc j) bits)) [0..<k]
        @ unpack_digits_loop type (i + k) n ((shift_digit type ^^ k) bits) bs"
proof (induction k arbitrary: i bits)
  case (Suc k)
  show ?case
  proof (cases "k = 0")
    case False
    then have "Suc i mod digits_in_byte type = Suc (i mod digits_in_byte type)" using Suc.prems by (simp add: mod_Suc)
    then show ?thesis using Suc.prems Suc.IH [of "Suc i" "shift_digit type bits"]
      by (simp add: upt_conv_Cons map_Suc_upt [symmetric] funpow_swap1 del: upt_Suc)
  qed (use Suc.prems in simp)
qed simp

lemma unpack_byte:
  assumes "i mod digits_in_byte type = 0"
  shows "\<exists>bits'. unpack_digits_loop type i (digits_in_byte type + n) bits (b # bs)
    = byte_digits type b @ unpack_digits_loop type (i + digits_in_byte type) n bits' bs"
proof -
  obtain k where k: "digits_in_byte type = Suc k" "0 < k" using digits_number(2) [of type] by (cases "digits_in_byte type") auto
  have "Suc i mod digits_in_byte type = 1" using assms k by (simp add: mod_Suc)
  then have "unpack_digits_loop type (Suc i) (k + n) b bs
      = map (\<lambda>j. take_digit type ((shift_digit type ^^ Suc j) b)) [0..<k] @ unpack_digits_loop type (Suc i + k) n ((shift_digit type ^^ k) b) bs"
    by (intro unpack_run) (simp_all add: k(1))
  then show ?thesis using assms
    by (intro exI [of _ "(shift_digit type ^^ k) b"])
      (simp add: byte_digits_def k(1) upt_conv_Cons map_Suc_upt [symmetric] del: upt_Suc)
qed

lemma unpack_bytes:
  "i mod digits_in_byte type = 0 \<Longrightarrow>
    unpack_digits_loop type i (digits_in_byte type * length bs) bits bs = concat (map (byte_digits type) bs)"
proof (induction bs arbitrary: i bits)
  case (Cons b bs)
  from unpack_byte [OF Cons.prems, of "digits_in_byte type * length bs" bits b bs] Cons.IH [of "i + digits_in_byte type"] Cons.prems
  show ?case by auto
qed simp

lemma pack_run:
  "i mod digits_in_byte type + length ds < digits_in_byte type \<Longrightarrow>
    pack_digits_loop type i byte (ds @ s)
      = pack_digits_loop type (i + length ds) (foldl (\<lambda>y c. next_digit type (add_digit type y c)) byte ds) s"
proof (induction ds arbitrary: i byte)
  case (Cons c ds)
  then have "Suc i mod digits_in_byte type = Suc (i mod digits_in_byte type)" by (simp add: mod_Suc)
  with Cons show ?case by (simp add: digits_number)
qed simp

text \<open>One digit more, bit by bit.\<close>

lemma digit_bits_b:
  "bit (add_digit CHR ''b'' y (take_digit CHR ''b'' x)) n \<longleftrightarrow> bit y n \<or> n = 7 \<and> bit x 0"
  "bit (next_digit CHR ''b'' y) n \<longleftrightarrow> bit y (Suc n)" "bit (shift_digit CHR ''b'' y) n \<longleftrightarrow> bit y (Suc n)"
proof -
  have m: "(128 :: u8) = push_bit 7 1" by simp
  have o: "x AND 1 \<noteq> 0 \<longleftrightarrow> bit x 0" by (simp add: and_one_eq mod_2_eq_odd bit_0)
  have "bit (128 :: u8) n \<longleftrightarrow> n = 7" unfolding m by (auto simp: bit_simps simp del: push_bit_of_1)
  then show "bit (add_digit CHR ''b'' y (take_digit CHR ''b'' x)) n \<longleftrightarrow> bit y n \<or> n = 7 \<and> bit x 0"
    by (auto simp: add_digit_def take_digit_def o bit_or_iff simp del: bit_numeral_word_iff)
qed (simp_all add: next_digit_def shift_digit_def bit_drop_bit_eq)

lemma digit_bits_B:
  "bit (add_digit CHR ''B'' y (take_digit CHR ''B'' x)) n \<longleftrightarrow> bit y n \<or> n = 0 \<and> bit x 7"
  "bit (next_digit CHR ''B'' y) n \<longleftrightarrow> 0 < n \<and> n < 8 \<and> bit y (n - 1)" "bit (shift_digit CHR ''B'' y) n \<longleftrightarrow> 0 < n \<and> n < 8 \<and> bit y (n - 1)"
proof -
  have m: "(128 :: u8) = push_bit 7 1" by simp
  have b: "bit (128 :: u8) k \<longleftrightarrow> k = 7" for k unfolding m by (auto simp: bit_simps simp del: push_bit_of_1)
  have o: "x AND 128 \<noteq> 0 \<longleftrightarrow> bit x 7"
  proof
    assume "bit x 7"
    then have "bit (x AND 128) 7" by (simp add: bit_and_iff b del: bit_numeral_word_iff)
    then show "x AND 128 \<noteq> 0" by auto
  next
    assume "x AND 128 \<noteq> 0"
    then obtain k where "bit (x AND 128) k" by (auto simp: bit_eq_iff)
    then show "bit x 7" by (auto simp: bit_and_iff b simp del: bit_numeral_word_iff)
  qed
  show "bit (add_digit CHR ''B'' y (take_digit CHR ''B'' x)) n \<longleftrightarrow> bit y n \<or> n = 0 \<and> bit x 7"
    by (auto simp: add_digit_def take_digit_def o bit_or_iff bit_1_iff)
  have p: "bit (push_bit 1 y) n \<longleftrightarrow> 0 < n \<and> n < 8 \<and> bit y (n - 1)"
    by (auto simp only: bit_push_bit_iff possible_bit_word) auto
  show "bit (next_digit CHR ''B'' y) n \<longleftrightarrow> 0 < n \<and> n < 8 \<and> bit y (n - 1)" "bit (shift_digit CHR ''B'' y) n \<longleftrightarrow> 0 < n \<and> n < 8 \<and> bit y (n - 1)"
    using p by (simp_all only: next_digit_def shift_digit_def) simp_all
qed

lemma nibble_table: "v < 16 \<Longrightarrow> hex_nibble (map of_char ''0123456789abcdef'' ! v) = of_nat v"
proof -
  have "\<forall>v \<in> set [0..<16]. hex_nibble (map of_char ''0123456789abcdef'' ! v) = of_nat v" by code_simp
  then show "v < 16 \<Longrightarrow> ?thesis" by simp
qed

lemma digit_bits_h:
  "bit (add_digit CHR ''h'' y (take_digit CHR ''h'' x)) n \<longleftrightarrow> bit y n \<or> 4 \<le> n \<and> n < 8 \<and> bit x (n - 4)"
  "bit (next_digit CHR ''h'' y) n \<longleftrightarrow> bit y (n + 4)" "bit (shift_digit CHR ''h'' y) n \<longleftrightarrow> bit y (n + 4)"
  "bit (add_digit CHR ''H'' y (take_digit CHR ''H'' x)) n \<longleftrightarrow> bit y n \<or> n < 4 \<and> bit x (n + 4)"
  "bit (next_digit CHR ''H'' y) n \<longleftrightarrow> 4 \<le> n \<and> n < 8 \<and> bit y (n - 4)" "bit (shift_digit CHR ''H'' y) n \<longleftrightarrow> 4 \<le> n \<and> n < 8 \<and> bit y (n - 4)"
proof -
  have m: "(15 :: u8) = mask 4" by (simp add: mask_eq_exp_minus_1)
  have b: "bit (15 :: u8) k \<longleftrightarrow> k < 4" for k unfolding m by (auto simp: bit_mask_iff)
  have nib: "hex_nibble (map of_char ''0123456789abcdef'' ! unat (z AND 15)) = z AND 15" for z :: u8
  proof -
    have "z AND 15 \<le> 15" by (rule word_and_le1)
    then have "unat (z AND 15) < 16" by (simp add: word_le_nat_alt)
    from nibble_table [OF this] show ?thesis by simp
  qed
  have p: "bit (push_bit 4 z) k \<longleftrightarrow> 4 \<le> k \<and> k < 8 \<and> bit z (k - 4)" for z :: u8 and k
    by (auto simp only: bit_push_bit_iff possible_bit_word) auto
  have d: "bit (drop_bit 4 z) k \<longleftrightarrow> bit z (k + 4)" for z :: u8 and k by (simp add: bit_drop_bit_eq add.commute)
  define v where "v = x AND 15"
  have v: "bit v k \<longleftrightarrow> bit x k \<and> k < 4" for k unfolding v_def by (simp add: bit_and_iff b del: bit_numeral_word_iff)
  have "add_digit CHR ''h'' y (take_digit CHR ''h'' x) = y OR push_bit 4 v"
    by (simp add: add_digit_def take_digit_def nib v_def del: list.map)
  then show "bit (add_digit CHR ''h'' y (take_digit CHR ''h'' x)) n \<longleftrightarrow> bit y n \<or> 4 \<le> n \<and> n < 8 \<and> bit x (n - 4)"
    by (auto simp: bit_or_iff p v)
  show "bit (add_digit CHR ''H'' y (take_digit CHR ''H'' x)) n \<longleftrightarrow> bit y n \<or> n < 4 \<and> bit x (n + 4)"
    by (auto simp add: add_digit_def take_digit_def nib bit_or_iff d bit_and_iff b simp del: bit_numeral_word_iff list.map)
  show "bit (next_digit CHR ''h'' y) n \<longleftrightarrow> bit y (n + 4)" "bit (shift_digit CHR ''h'' y) n \<longleftrightarrow> bit y (n + 4)"
    "bit (next_digit CHR ''H'' y) n \<longleftrightarrow> 4 \<le> n \<and> n < 8 \<and> bit y (n - 4)" "bit (shift_digit CHR ''H'' y) n \<longleftrightarrow> 4 \<le> n \<and> n < 8 \<and> bit y (n - 4)"
    using p d by (simp_all add: next_digit_def shift_digit_def)
qed

text \<open>The digits of a byte make up the byte.\<close>

lemma byte_digits_add:
  assumes "type \<in> set ''bBhH''"
  shows "add_digit type (foldl (\<lambda>y c. next_digit type (add_digit type y c)) 0 (butlast (byte_digits type b))) (last (byte_digits type b)) = b"
proof -
  have eight: "[0..<8] = [0, 1, 2, 3, 4, 5, 6, 7]" and two: "[0..<2] = [0, 1]" by (simp_all add: upt_rec)
  have top: "\<not> bit b 8" "\<not> bit b 9" "\<not> bit b 10" "\<not> bit b 11"
    using bit_imp_le_length [of b 8] bit_imp_le_length [of b 9] bit_imp_le_length [of b 10] bit_imp_le_length [of b 11] by auto
  consider "type = CHR ''b''" | "type = CHR ''B''" | "type = CHR ''h''" | "type = CHR ''H''" using assms by auto
  then show ?thesis
  proof cases
    case 1
    show ?thesis unfolding 1 by (rule u8_eqI)
        (auto simp: byte_digits_def digits_in_byte_def eight digit_bits_b top numeral_eq_Suc)
  next
    case 2
    show ?thesis unfolding 2 by (rule u8_eqI)
        (auto simp: byte_digits_def digits_in_byte_def eight digit_bits_B numeral_eq_Suc)
  next
    case 3
    show ?thesis unfolding 3 by (rule u8_eqI)
        (auto simp: byte_digits_def digits_in_byte_def two digit_bits_h)
  next
    case 4
    show ?thesis unfolding 4 by (rule u8_eqI)
        (auto simp: byte_digits_def digits_in_byte_def two digit_bits_h)
  qed
qed

lemma length_byte_digits [simp]: "length (byte_digits type b) = digits_in_byte type"
  by (simp add: byte_digits_def)

lemma length_all_digits: "length (concat (map (byte_digits type) bs)) = digits_in_byte type * length bs"
  by (induction bs) simp_all

lemma pack_byte:
  assumes "type \<in> set ''bBhH''" and "i mod digits_in_byte type = 0"
  shows "pack_digits_loop type i 0 (byte_digits type b @ s)
    = (case pack_digits_loop type (i + digits_in_byte type) 0 s of (out, rest) \<Rightarrow> (b # out, rest))"
proof -
  define ds where "ds = butlast (byte_digits type b)"
  define c where "c = last (byte_digits type b)"
  obtain k where k: "digits_in_byte type = Suc k" "0 < k" using digits_number(2) [of type] by (cases "digits_in_byte type") auto
  have "0 < length (byte_digits type b)" unfolding length_byte_digits k(1) by simp
  then have "byte_digits type b \<noteq> []" by (simp only: length_greater_0_conv not_False_eq_True)
  then have split: "byte_digits type b = ds @ [c]" by (simp add: ds_def c_def)
  have len: "length ds = k" using length_byte_digits [of type b] k by (simp add: ds_def)
  have "pack_digits_loop type i 0 (ds @ c # s)
      = pack_digits_loop type (i + k) (foldl (\<lambda>y c. next_digit type (add_digit type y c)) 0 ds) (c # s)"
    using pack_run [of i type ds 0 "c # s"] assms(2) k len by simp
  moreover have "Suc (i + k) mod digits_in_byte type = 0" using assms(2) k(1) by (metis add_Suc_right mod_add_self2)
  ultimately show ?thesis using byte_digits_add [OF assms(1), of b] k(1)
    by (simp add: split digits_number(3) ds_def [symmetric] c_def [symmetric])
qed

lemma pack_bytes:
  assumes "type \<in> set ''bBhH''"
  shows "i mod digits_in_byte type = 0 \<Longrightarrow> pack_digits_loop type i 0 (concat (map (byte_digits type) bs)) = (bs, 0)"
proof (induction bs arbitrary: i)
  case (Cons b bs)
  then show ?case using pack_byte [OF assms Cons.prems, of b "concat (map (byte_digits type) bs)"] Cons.IH [of "i + digits_in_byte type"]
    by simp
qed simp

lemma digit_type: "type \<in> set ''bBhH'' \<Longrightarrow> \<not> is_space type \<and> type \<notin> set ''#%AZa''"
  by (auto simp: is_space_def code_def)

lemma unpack_digits_star:
  assumes type: "type \<in> set ''bBhH''" and n: "length str < 2 ^ 28"
  shows "pack_unpack env False assoc str [type, CHR ''*''] = ok [PStr (concat (map (byte_digits type) str))]"
proof -
  define m where "m = digits_in_byte type"
  define st :: "('a, 'b) unpack_state" where "st = \<lparr>un_pos = 0, un_out = [], un_block = False\<rparr>"
  have m: "0 < m" "m \<le> 8" by (simp_all add: m_def digits_in_byte_def)
  have "m * length str \<le> 8 * length str" using m(2) by (rule mult_le_mono1)
  moreover have "8 * length str < 2 ^ 31" using n by simp
  ultimately have "m * length str < 2 ^ 31" by (rule le_less_trans)
  then have "int (m * length str) < int (2 ^ 31)" by (simp only: of_nat_less_iff)
  then have "int (m * length str) < 2 ^ 31" unfolding of_nat_power of_nat_numeral .
  moreover have "- (2 ^ 31) \<le> int (m * length str)" by (rule order_trans [OF _ of_nat_0_le_iff]) simp
  ultimately have "long_of (int (m * length str)) = int (m * length str)" by (intro long_of_small)
  then have all: "long_of (left str 0 * int m) = int (m * length str)" using n
    by (simp add: left_def long_of_small mult.commute)
  have "m * length str + m - 1 = (m - 1) + m * length str" using m(1) by simp
  then have k: "(m * length str + m - 1) div m = length str" using m(1) by (simp only: div_mult_self2) simp
  have rd: "read_bytes str 0 (length str) = Some str" by (simp add: read_bytes_def)
  have "unpack_digits str type True l st = ok (push [PStr (concat (map (byte_digits type) str))] (int (length str)) st)" for l
    using all k rd unpack_bytes [where i = 0 and bits = 0 and type = type and bs = str]
    by (simp add: unpack_digits_def st_def m_def [symmetric] Let_def del: of_nat_mult)
  then have "unpack_directive env assoc str type Star st = ok (push [PStr (concat (map (byte_digits type) str))] (int (length str)) st)"
    using type by (auto simp: unpack_directive_def Let_def)
  then show ?thesis using digit_type [OF type]
    by (intro unpack_star [THEN trans]) (auto simp: st_def push_def)
qed

lemma pack_digits_star:
  fixes env :: "('f, 'o) pack_env"
  assumes type: "type \<in> set ''bBhH''"
  shows "pack_pack env [PStr (concat (map (byte_digits type) str))] [type, CHR ''*''] = ok (str, 0, [])"
proof -
  define ds where "ds = concat (map (byte_digits type) str)"
  define st :: "('f, 'o) pack_state" where "st = \<lparr>pk_res = [], pk_items = [PStr ds], pk_assoc = [], pk_enc = 1\<rparr>"
  have mod: "int (length ds) mod int (digits_per_byte type) = 0"
    by (simp add: ds_def length_all_digits digits_number(3))
  have "pack_digits type (int (length ds)) ds st' = grow 0 (append str st')" for st' :: "('f, 'o) pack_state"
    using pack_bytes [OF type, of 0 str] mod
    by (simp add: pack_digits_def last_digits_def Let_def ds_def [symmetric] del: of_nat_mod)
  moreover have t: "type \<in> set ''AaZBbHh''" "\<not> strchr ''aAZ'' type" "\<not> strchr ''@Xxu'' type" "\<not> strchr ''PMm'' type" "enc_of type 1 = 0"
    using type by (auto simp: strchr_def enc_of_def)
  moreover have "StringValue env (PStr ds) = ok ds" by (simp add: StringValue_def ok_def)
  ultimately have "pack_directive env type Star st = ok \<lparr>pk_res = str, pk_items = [], pk_assoc = [], pk_enc = 0\<rparr>"
    by (simp only: pack_directive_def pack_string_def Let_def if_True simp_thms if_False)
      (simp add: next_from_def st_def count_len_def grow_def append_def)
  then show ?thesis using digit_type [OF type]
    by (intro pack_star [THEN trans]) (auto simp: st_def ds_def)
qed

end
