(* ===== verification/Qsort.thy ===== *)
theory Qsort
  imports Prelude "HOL-Library.Monad_Syntax" "HOL-Library.Multiset"
begin

text \<open>
  \<open>ruby_qsort\<close> of \<open>lib/ruby/util.c\<close> (\<open>mm.c\<close> and \<open>qs6.c\<close>), on a list of elements: a pointer into the array is the number of
  its element.  The comparison is any function to \<open>int\<close>.  A result is \<open>None\<close> where the code would compare or move an element
  outside the array, let a pointer run below it, overflow its stack, or not return.
\<close>

section \<open>Elements\<close>

definition cmp_at :: "('a \<Rightarrow> 'a \<Rightarrow> int) \<Rightarrow> 'a list \<Rightarrow> nat \<Rightarrow> nat \<Rightarrow> int option" where
  "cmp_at cmp xs i j = (if i < length xs \<and> j < length xs then Some (cmp (xs ! i) (xs ! j)) else None)"

definition mmswap :: "'a list \<Rightarrow> nat \<Rightarrow> nat \<Rightarrow> 'a list option" where
  "mmswap xs a b = (if a < length xs \<and> b < length xs then Some (xs[a := xs ! b, b := xs ! a]) else None)"

definition mmrot3 :: "'a list \<Rightarrow> nat \<Rightarrow> nat \<Rightarrow> nat \<Rightarrow> 'a list option" where
  "mmrot3 xs a b c =
     (if a < length xs \<and> b < length xs \<and> c < length xs then Some (xs[a := xs ! b, b := xs ! c, c := xs ! a]) else None)"

definition med3 :: "('a \<Rightarrow> 'a \<Rightarrow> int) \<Rightarrow> 'a list \<Rightarrow> nat \<Rightarrow> nat \<Rightarrow> nat \<Rightarrow> nat option" where
  "med3 cmp xs a b c =
     do {
       ab \<leftarrow> cmp_at cmp xs a b;
       bc \<leftarrow> cmp_at cmp xs b c;
       if ab < 0 then
         if bc < 0 then Some b
         else do { ac \<leftarrow> cmp_at cmp xs a c; Some (if ac < 0 then c else a) }
       else
         if 0 < bc then Some b
         else do { ac \<leftarrow> cmp_at cmp xs a c; Some (if ac < 0 then a else c) }
     }"

text \<open>The element to split at.\<close>

definition median :: "('a \<Rightarrow> 'a \<Rightarrow> int) \<Rightarrow> 'a list \<Rightarrow> nat \<Rightarrow> nat \<Rightarrow> nat option" where
  "median cmp xs l r =
     (let t = r - l + 1; m = l + t div 2 in
      if 60 \<le> t then
        if 200 \<le> t then
          do {
            m1 \<leftarrow> med3 cmp xs (l + t div 8) (l + t div 8 + t div 8) (l + t div 8 + t div 8 + t div 8);
            m3 \<leftarrow> med3 cmp xs (m + t div 8) (m + t div 8 + t div 8) (m + t div 8 + t div 8 + t div 8);
            med3 cmp xs m1 m m3
          }
        else med3 cmp xs (l + t div 4) m (m + t div 4)
      else Some m)"

section \<open>How to split\<close>

text \<open>The loops that test whether the region is in order, ascending or descending.\<close>

partial_function (option) ascending :: "('a \<Rightarrow> 'a \<Rightarrow> int) \<Rightarrow> 'a list \<Rightarrow> nat \<Rightarrow> nat \<Rightarrow> bool option" where
  "ascending cmp xs p r =
     (if p < r then
        do { t \<leftarrow> cmp_at cmp xs p (p + 1); if 0 < t then Some False else ascending cmp xs (p + 1) r }
      else Some True)"

partial_function (option) descending :: "('a \<Rightarrow> 'a \<Rightarrow> int) \<Rightarrow> 'a list \<Rightarrow> nat \<Rightarrow> nat \<Rightarrow> bool option" where
  "descending cmp xs p r =
     (if p < r then
        do { t \<leftarrow> cmp_at cmp xs p (p + 1); if t < 0 then Some False else descending cmp xs (p + 1) r }
      else Some True)"

partial_function (option) reverse :: "'a list \<Rightarrow> nat \<Rightarrow> nat \<Rightarrow> 'a list option" where
  "reverse xs l r =
     (if l < r then
        do { xs \<leftarrow> mmswap xs l r; if r = 0 then None else reverse xs (l + 1) (r - 1) }
      else Some xs)"

text \<open>The ways to go on: nothing left to do, or splitting of type A or B at an element.\<close>

datatype 'a split = Sorted "'a list" | SplitA "'a list" nat | SplitB "'a list" nat

text \<open>Case 5-5-5: run over the elements equal to the median.\<close>

partial_function (option) equal_run ::
  "('a \<Rightarrow> 'a \<Rightarrow> int) \<Rightarrow> 'a list \<Rightarrow> nat \<Rightarrow> nat \<Rightarrow> nat \<Rightarrow> nat \<Rightarrow> 'a split option" where
  "equal_run cmp xs L m r l =
     (if l + 1 = r then Some (Sorted xs)
      else if l + 1 = m then equal_run cmp xs L m r (l + 1)
      else
        do {
          t \<leftarrow> cmp_at cmp xs (l + 1) m;
          if 0 < t then do { xs \<leftarrow> mmswap xs (l + 1) r; Some (SplitA xs m) }
          else if t < 0 then do { xs \<leftarrow> mmswap xs L (l + 1); Some (SplitB xs m) }
          else equal_run cmp xs L m r (l + 1)
        })"

text \<open>The cases named after the order of the first, the middle and the last element; the flag is \<open>chklim && nel >= chklim\<close>.\<close>

definition choose_less :: "('a \<Rightarrow> 'a \<Rightarrow> int) \<Rightarrow> bool \<Rightarrow> 'a list \<Rightarrow> nat \<Rightarrow> nat \<Rightarrow> nat \<Rightarrow> ('a split \<times> bool) option" where
  "choose_less cmp chk xs l m r =
     do {
       t \<leftarrow> cmp_at cmp xs m r;
       if t < 0 then
         if chk then do { b \<leftarrow> ascending cmp xs l r; Some (if b then Sorted xs else SplitA xs m, False) }
         else Some (SplitA xs m, chk)
       else if 0 < t then
         do {
           u \<leftarrow> cmp_at cmp xs l r;
           if u \<le> 0 then do { xs \<leftarrow> mmswap xs m r; Some (SplitA xs m, chk) }
           else do { xs \<leftarrow> mmrot3 xs r m l; Some (SplitA xs m, chk) }
         }
       else Some (SplitB xs m, chk)
     }"

definition choose_greater :: "('a \<Rightarrow> 'a \<Rightarrow> int) \<Rightarrow> bool \<Rightarrow> 'a list \<Rightarrow> nat \<Rightarrow> nat \<Rightarrow> nat \<Rightarrow> ('a split \<times> bool) option" where
  "choose_greater cmp chk xs l m r =
     do {
       t \<leftarrow> cmp_at cmp xs m r;
       if 0 < t then
         if chk then
           do {
             b \<leftarrow> descending cmp xs l r;
             if b then do { xs \<leftarrow> reverse xs l r; Some (Sorted xs, False) }
             else do { xs \<leftarrow> mmswap xs l r; Some (SplitA xs m, False) }
           }
         else do { xs \<leftarrow> mmswap xs l r; Some (SplitA xs m, chk) }
       else if t < 0 then
         do {
           u \<leftarrow> cmp_at cmp xs l r;
           if u \<le> 0 then do { xs \<leftarrow> mmswap xs l m; Some (SplitB xs m, chk) }
           else do { xs \<leftarrow> mmrot3 xs l m r; Some (SplitA xs m, chk) }
         }
       else do { xs \<leftarrow> mmswap xs l r; Some (SplitA xs m, chk) }
     }"

definition choose_equal :: "('a \<Rightarrow> 'a \<Rightarrow> int) \<Rightarrow> bool \<Rightarrow> 'a list \<Rightarrow> nat \<Rightarrow> nat \<Rightarrow> nat \<Rightarrow> ('a split \<times> bool) option" where
  "choose_equal cmp chk xs l m r =
     do {
       t \<leftarrow> cmp_at cmp xs m r;
       if t < 0 then Some (SplitA xs m, chk)
       else if 0 < t then do { xs \<leftarrow> mmswap xs l r; Some (SplitB xs m, chk) }
       else do { s \<leftarrow> equal_run cmp xs l m r l; Some (s, chk) }
     }"

definition choose_split :: "('a \<Rightarrow> 'a \<Rightarrow> int) \<Rightarrow> bool \<Rightarrow> 'a list \<Rightarrow> nat \<Rightarrow> nat \<Rightarrow> nat \<Rightarrow> ('a split \<times> bool) option" where
  "choose_split cmp chk xs l m r =
     do {
       t \<leftarrow> cmp_at cmp xs l m;
       if t < 0 then choose_less cmp chk xs l m r
       else if 0 < t then choose_greater cmp chk xs l m r
       else choose_equal cmp chk xs l m r
     }"

section \<open>Splitting\<close>

text \<open>
  Type A, left \<open>\<le>\<close> median \<open><\<close> right.  The first inner loop returns the place where it stopped, whether that is an element (and
  not \<open>r\<close>), and \<open>eq_l\<close>; the second also the new place of the median.
\<close>

partial_function (option) scan_up_A ::
  "('a \<Rightarrow> 'a \<Rightarrow> int) \<Rightarrow> 'a list \<Rightarrow> nat \<Rightarrow> nat \<Rightarrow> nat \<Rightarrow> bool \<Rightarrow> (nat \<times> bool \<times> bool) option" where
  "scan_up_A cmp xs m r l eq_l =
     (if l + 1 = r then Some (l + 1, False, eq_l)
      else if l + 1 = m then scan_up_A cmp xs m r (l + 1) eq_l
      else
        do {
          t \<leftarrow> cmp_at cmp xs (l + 1) m;
          if 0 < t then Some (l + 1, True, eq_l) else scan_up_A cmp xs m r (l + 1) (eq_l \<and> \<not> t < 0)
        })"

partial_function (option) scan_down_A ::
  "('a \<Rightarrow> 'a \<Rightarrow> int) \<Rightarrow> 'a list \<Rightarrow> nat \<Rightarrow> nat \<Rightarrow> nat \<Rightarrow> bool \<Rightarrow> (nat \<times> nat \<times> bool \<times> bool) option" where
  "scan_down_A cmp xs m l r eq_l =
     (if r = 0 then None
      else if l = r - 1 then Some (r - 1, m, False, eq_l)
      else if r - 1 = m then Some (r - 1, l, True, eq_l)
      else
        do {
          t \<leftarrow> cmp_at cmp xs (r - 1) m;
          if t < 0 then Some (r - 1, m, True, False)
          else if t = 0 then Some (r - 1, m, True, eq_l)
          else scan_down_A cmp xs m l (r - 1) eq_l
        })"

definition meet_A :: "'a list \<Rightarrow> nat \<Rightarrow> nat \<Rightarrow> ('a list \<times> nat) option" where
  "meet_A xs m l =
     (if l < 2 then None
      else do { xs \<leftarrow> if l - 1 \<noteq> m then mmswap xs m (l - 1) else Some xs; Some (xs, l - 2) })"

partial_function (option) split_A ::
  "('a \<Rightarrow> 'a \<Rightarrow> int) \<Rightarrow> 'a list \<Rightarrow> nat \<Rightarrow> nat \<Rightarrow> nat \<Rightarrow> bool \<Rightarrow> bool \<Rightarrow> ('a list \<times> nat \<times> nat \<times> bool \<times> bool) option" where
  "split_A cmp xs m l r eq_l eq_r =
     do {
       (l, stopped, eq_l) \<leftarrow> scan_up_A cmp xs m r l eq_l;
       if \<not> stopped then do { (xs, l) \<leftarrow> meet_A xs m l; Some (xs, l, r, eq_l, eq_r) }
       else
         do {
           (r, m, stopped, eq_l) \<leftarrow> scan_down_A cmp xs m l r eq_l;
           if \<not> stopped then do { (xs, l) \<leftarrow> meet_A xs m l; Some (xs, l, r, eq_l, False) }
           else do { xs \<leftarrow> mmswap xs l r; split_A cmp xs m l r eq_l False }
         }
     }"

text \<open>Type B, left \<open><\<close> median \<open>\<le>\<close> right, from the other end.\<close>

partial_function (option) scan_down_B ::
  "('a \<Rightarrow> 'a \<Rightarrow> int) \<Rightarrow> 'a list \<Rightarrow> nat \<Rightarrow> nat \<Rightarrow> nat \<Rightarrow> bool \<Rightarrow> (nat \<times> bool \<times> bool) option" where
  "scan_down_B cmp xs m l r eq_r =
     (if r = 0 then None
      else if l = r - 1 then Some (r - 1, False, eq_r)
      else if r - 1 = m then scan_down_B cmp xs m l (r - 1) eq_r
      else
        do {
          t \<leftarrow> cmp_at cmp xs (r - 1) m;
          if t < 0 then Some (r - 1, True, eq_r) else scan_down_B cmp xs m l (r - 1) (eq_r \<and> \<not> 0 < t)
        })"

partial_function (option) scan_up_B ::
  "('a \<Rightarrow> 'a \<Rightarrow> int) \<Rightarrow> 'a list \<Rightarrow> nat \<Rightarrow> nat \<Rightarrow> nat \<Rightarrow> bool \<Rightarrow> (nat \<times> nat \<times> bool \<times> bool) option" where
  "scan_up_B cmp xs m r l eq_r =
     (if l + 1 = r then Some (l + 1, m, False, eq_r)
      else if l + 1 = m then Some (l + 1, r, True, eq_r)
      else
        do {
          t \<leftarrow> cmp_at cmp xs (l + 1) m;
          if 0 < t then Some (l + 1, m, True, False)
          else if t = 0 then Some (l + 1, m, True, eq_r)
          else scan_up_B cmp xs m r (l + 1) eq_r
        })"

definition meet_B :: "'a list \<Rightarrow> nat \<Rightarrow> nat \<Rightarrow> ('a list \<times> nat) option" where
  "meet_B xs m r =
     do { xs \<leftarrow> if r + 1 \<noteq> m then mmswap xs (r + 1) m else Some xs; Some (xs, r + 2) }"

partial_function (option) split_B ::
  "('a \<Rightarrow> 'a \<Rightarrow> int) \<Rightarrow> 'a list \<Rightarrow> nat \<Rightarrow> nat \<Rightarrow> nat \<Rightarrow> bool \<Rightarrow> bool \<Rightarrow> ('a list \<times> nat \<times> nat \<times> bool \<times> bool) option" where
  "split_B cmp xs m l r eq_l eq_r =
     do {
       (r, stopped, eq_r) \<leftarrow> scan_down_B cmp xs m l r eq_r;
       if \<not> stopped then do { (xs, r) \<leftarrow> meet_B xs m r; Some (xs, l, r, eq_l, eq_r) }
       else
         do {
           (l, m, stopped, eq_r) \<leftarrow> scan_up_B cmp xs m r l eq_r;
           if \<not> stopped then do { (xs, r) \<leftarrow> meet_B xs m r; Some (xs, l, r, False, eq_r) }
           else do { xs \<leftarrow> mmswap xs l r; split_B cmp xs m l r False eq_r }
         }
     }"

section \<open>The stack of regions\<close>

record 'a qs_state =
  qs_arr :: "'a list"
  qs_L :: nat
  qs_R :: nat
  qs_stack :: "(nat \<times> nat) list"
  qs_chk :: bool

text \<open>The label \<open>nxt\<close>: the sorted array, or the region on top of the stack.\<close>

definition qs_next :: "'a qs_state \<Rightarrow> 'a list + 'a qs_state" where
  "qs_next st =
     (case qs_stack st of
        [] \<Rightarrow> Inl (qs_arr st)
      | (L, R) # rest \<Rightarrow> Inr (st\<lparr>qs_L := L, qs_R := R, qs_stack := rest\<rparr>))"

definition qs_push :: "nat \<times> nat \<Rightarrow> 'a qs_state \<Rightarrow> 'a qs_state option" where
  "qs_push region st = (if length (qs_stack st) < 32 then Some (st\<lparr>qs_stack := region # qs_stack st\<rparr>) else None)"

text \<open>The label \<open>fin\<close>.\<close>

definition qs_fin :: "'a qs_state \<Rightarrow> 'a list \<times> nat \<times> nat \<times> bool \<times> bool \<Rightarrow> ('a list + 'a qs_state) option" where
  "qs_fin st res =
     (case res of
        (xs, l, r, eq_l, eq_r) \<Rightarrow>
          let st = st\<lparr>qs_arr := xs\<rparr>; L = qs_L st; R = qs_R st in
          if \<not> eq_l then
            if \<not> eq_r then
              if l - L < R - r then do { st \<leftarrow> qs_push (r, R) st; Some (Inr (st\<lparr>qs_R := l\<rparr>)) }
              else do { st \<leftarrow> qs_push (L, l) st; Some (Inr (st\<lparr>qs_L := r\<rparr>)) }
            else Some (Inr (st\<lparr>qs_R := l\<rparr>))
          else if \<not> eq_r then Some (Inr (st\<lparr>qs_L := r\<rparr>))
          else Some (qs_next st))"

definition qs_step :: "('a \<Rightarrow> 'a \<Rightarrow> int) \<Rightarrow> 'a qs_state \<Rightarrow> ('a list + 'a qs_state) option" where
  "qs_step cmp st =
     (let xs = qs_arr st; L = qs_L st; R = qs_R st in
      if L + 1 = R then
        do {
          t \<leftarrow> cmp_at cmp xs L R;
          xs \<leftarrow> if 0 < t then mmswap xs L R else Some xs;
          Some (qs_next (st\<lparr>qs_arr := xs\<rparr>))
        }
      else
        do {
          m \<leftarrow> median cmp xs L R;
          (s, chk) \<leftarrow> choose_split cmp (qs_chk st) xs L m R;
          let st = st\<lparr>qs_chk := chk\<rparr>;
          case s of
            Sorted xs \<Rightarrow> Some (qs_next (st\<lparr>qs_arr := xs\<rparr>))
          | SplitA xs m \<Rightarrow> do { res \<leftarrow> split_A cmp xs m L R True True; qs_fin st res }
          | SplitB xs m \<Rightarrow> do { res \<leftarrow> split_B cmp xs m L R True True; qs_fin st res }
        })"

partial_function (option) qs_loop :: "('a \<Rightarrow> 'a \<Rightarrow> int) \<Rightarrow> 'a qs_state \<Rightarrow> 'a list option" where
  "qs_loop cmp st =
     do {
       res \<leftarrow> qs_step cmp st;
       case res of Inl xs \<Rightarrow> Some xs | Inr st \<Rightarrow> qs_loop cmp st
     }"

definition ruby_qsort :: "('a \<Rightarrow> 'a \<Rightarrow> int) \<Rightarrow> 'a list \<Rightarrow> 'a list option" where
  "ruby_qsort cmp xs =
     (if length xs \<le> 1 then Some xs
      else qs_loop cmp \<lparr>qs_arr = xs, qs_L = 0, qs_R = length xs - 1, qs_stack = [], qs_chk = 63 \<le> length xs\<rparr>)"

declare ascending.simps [code] descending.simps [code] reverse.simps [code] equal_run.simps [code]
  scan_up_A.simps [code] scan_down_A.simps [code] split_A.simps [code]
  scan_up_B.simps [code] scan_down_B.simps [code] split_B.simps [code] qs_loop.simps [code]

end
