(* ===== verification/MmSwap.thy ===== *)
theory MmSwap
  imports Qsort
begin

text \<open>
  How \<open>ruby_qsort\<close> moves elements: \<open>mmprepare\<close>, \<open>mmswap_\<close> and \<open>mmrot3_\<close> of \<open>lib/ruby/util.c\<close> on the bytes of the array, and that they
  implement the moves of \<open>Qsort\<close>.  An address is an offset into a list of bytes.
\<close>

section \<open>Reading and writing\<close>

definition rd :: "nat \<Rightarrow> u8 list \<Rightarrow> nat \<Rightarrow> u8 list" where
  "rd n mem a = take n (drop a mem)"

definition wr :: "u8 list \<Rightarrow> u8 list \<Rightarrow> nat \<Rightarrow> u8 list" where
  "wr bs mem a = take a mem @ bs @ drop (a + length bs) mem"

text \<open>\<open>s = *a; *a = *b; *b = s\<close> with \<open>n\<close> bytes, and the same with three.\<close>

definition swap_n :: "nat \<Rightarrow> u8 list \<Rightarrow> nat \<Rightarrow> nat \<Rightarrow> u8 list" where
  "swap_n n mem a b = (let s = rd n mem a; mem = wr (rd n mem b) mem a in wr s mem b)"

definition rot_n :: "nat \<Rightarrow> u8 list \<Rightarrow> nat \<Rightarrow> nat \<Rightarrow> nat \<Rightarrow> u8 list" where
  "rot_n n mem a b c = (let s = rd n mem a; mem = wr (rd n mem b) mem a; mem = wr (rd n mem c) mem b in wr s mem c)"

section \<open>The code\<close>

definition mmprepare :: "nat \<Rightarrow> nat \<Rightarrow> int \<times> nat \<times> nat" where
  "mmprepare base sz =
     (if base mod 4 = 0 then (if 16 \<le> sz then 1 else 0) else - 1, sz - sz mod 16, sz mod 16 - sz mod 4)"

text \<open>The loops \<open>do ... while (a < t)\<close>: sixteen bytes, or one, at a time, \<open>n\<close> times.\<close>

fun swap_16 :: "nat \<Rightarrow> u8 list \<Rightarrow> nat \<Rightarrow> nat \<Rightarrow> u8 list" where
  "swap_16 0 mem a b = mem"
| "swap_16 (Suc n) mem a b =
     (let mem = swap_n 4 mem a b; mem = swap_n 4 mem (a + 4) (b + 4);
          mem = swap_n 4 mem (a + 8) (b + 8); mem = swap_n 4 mem (a + 12) (b + 12) in
      swap_16 n mem (a + 16) (b + 16))"

fun swap_1 :: "nat \<Rightarrow> u8 list \<Rightarrow> nat \<Rightarrow> nat \<Rightarrow> u8 list" where
  "swap_1 0 mem a b = mem"
| "swap_1 (Suc n) mem a b = swap_1 n (swap_n 1 mem a b) (a + 1) (b + 1)"

definition swap_low :: "nat \<Rightarrow> u8 list \<Rightarrow> nat \<Rightarrow> nat \<Rightarrow> u8 list" where
  "swap_low low mem a b =
     (if low \<noteq> 0 then
        let mem = swap_n 4 mem a b in
        if 8 \<le> low then
          let mem = swap_n 4 mem (a + 4) (b + 4) in
          if low = 12 then swap_n 4 mem (a + 8) (b + 8) else mem
        else mem
      else mem)"

definition mmswap_bytes :: "int \<Rightarrow> nat \<Rightarrow> nat \<Rightarrow> nat \<Rightarrow> u8 list \<Rightarrow> nat \<Rightarrow> nat \<Rightarrow> u8 list" where
  "mmswap_bytes mmkind sz high low mem a b =
     (if a = b then mem
      else if 0 \<le> mmkind then
        let n = (if 0 < mmkind then max 1 ((high + 15) div 16) else 0) in
        swap_low low (swap_16 n mem a b) (a + 16 * n) (b + 16 * n)
      else swap_1 (max 1 sz) mem a b)"

fun rot_16 :: "nat \<Rightarrow> u8 list \<Rightarrow> nat \<Rightarrow> nat \<Rightarrow> nat \<Rightarrow> u8 list" where
  "rot_16 0 mem a b c = mem"
| "rot_16 (Suc n) mem a b c =
     (let mem = rot_n 4 mem a b c; mem = rot_n 4 mem (a + 4) (b + 4) (c + 4);
          mem = rot_n 4 mem (a + 8) (b + 8) (c + 8); mem = rot_n 4 mem (a + 12) (b + 12) (c + 12) in
      rot_16 n mem (a + 16) (b + 16) (c + 16))"

fun rot_1 :: "nat \<Rightarrow> u8 list \<Rightarrow> nat \<Rightarrow> nat \<Rightarrow> nat \<Rightarrow> u8 list" where
  "rot_1 0 mem a b c = mem"
| "rot_1 (Suc n) mem a b c = rot_1 n (rot_n 1 mem a b c) (a + 1) (b + 1) (c + 1)"

definition rot_low :: "nat \<Rightarrow> u8 list \<Rightarrow> nat \<Rightarrow> nat \<Rightarrow> nat \<Rightarrow> u8 list" where
  "rot_low low mem a b c =
     (if low \<noteq> 0 then
        let mem = rot_n 4 mem a b c in
        if 8 \<le> low then
          let mem = rot_n 4 mem (a + 4) (b + 4) (c + 4) in
          if low = 12 then rot_n 4 mem (a + 8) (b + 8) (c + 8) else mem
        else mem
      else mem)"

definition mmrot3_bytes :: "int \<Rightarrow> nat \<Rightarrow> nat \<Rightarrow> nat \<Rightarrow> u8 list \<Rightarrow> nat \<Rightarrow> nat \<Rightarrow> nat \<Rightarrow> u8 list" where
  "mmrot3_bytes mmkind sz high low mem a b c =
     (if 0 \<le> mmkind then
        let n = (if 0 < mmkind then max 1 ((high + 15) div 16) else 0) in
        rot_low low (rot_16 n mem a b c) (a + 16 * n) (b + 16 * n) (c + 16 * n)
      else rot_1 (max 1 sz) mem a b c)"

section \<open>Moves of blocks\<close>

text \<open>A function that exchanges two separate blocks of \<open>n\<close> bytes, whichever is named first, and one that rotates three.\<close>

definition swaps :: "(u8 list \<Rightarrow> nat \<Rightarrow> nat \<Rightarrow> u8 list) \<Rightarrow> nat \<Rightarrow> bool" where
  "swaps f n \<longleftrightarrow>
     (\<forall>P A M B S. length A = n \<and> length B = n \<longrightarrow>
        f (P @ A @ M @ B @ S) (length P) (length P + n + length M) = P @ B @ M @ A @ S
        \<and> f (P @ A @ M @ B @ S) (length P + n + length M) (length P) = P @ B @ M @ A @ S)"

definition rotates :: "(u8 list \<Rightarrow> nat \<Rightarrow> nat \<Rightarrow> nat \<Rightarrow> u8 list) \<Rightarrow> nat \<Rightarrow> bool" where
  "rotates f n \<longleftrightarrow>
     (\<forall>P A M B N C S. length A = n \<and> length B = n \<and> length C = n \<longrightarrow>
        (let a = length P; b = a + n + length M; c = b + n + length N; mem = P @ A @ M @ B @ N @ C @ S in
         f mem a b c = P @ B @ M @ C @ N @ A @ S \<and> f mem c b a = P @ C @ M @ A @ N @ B @ S))"

lemma swaps_0 [simp]: "swaps (\<lambda>mem a b. mem) 0"
  by (simp add: swaps_def)

lemma rotates_0 [simp]: "rotates (\<lambda>mem a b c. mem) 0"
  by (simp add: rotates_def Let_def)

lemma rd_at [simp]: "length A = n \<Longrightarrow> k = length P \<Longrightarrow> rd n (P @ A @ S) k = A"
  by (simp add: rd_def)

lemma wr_at [simp]: "length A = length bs \<Longrightarrow> k = length P \<Longrightarrow> wr bs (P @ A @ S) k = P @ bs @ S"
  by (simp add: wr_def)

lemma swaps_n: "swaps (swap_n n) n"
  unfolding swaps_def
proof (intro allI impI)
  fix P A M B S :: "u8 list"
  assume l: "length A = n \<and> length B = n"
  have second: "length X = n \<Longrightarrow> length Y = n \<Longrightarrow> rd n (P @ X @ M @ Y @ S) (length P + n + length M) = Y"
    "length X = n \<Longrightarrow> length Y = length Z \<Longrightarrow> wr Z (P @ X @ M @ Y @ S) (length P + n + length M) = P @ X @ M @ Z @ S" for X Y Z
    using rd_at [of Y n "length P + n + length M" "P @ X @ M" S] wr_at [of Y Z "length P + n + length M" "P @ X @ M" S] by simp_all
  show "swap_n n (P @ A @ M @ B @ S) (length P) (length P + n + length M) = P @ B @ M @ A @ S
      \<and> swap_n n (P @ A @ M @ B @ S) (length P + n + length M) (length P) = P @ B @ M @ A @ S"
    using l by (simp add: swap_n_def Let_def second)
qed

lemma rotates_n: "rotates (rot_n n) n"
  unfolding rotates_def Let_def
proof (intro allI impI)
  fix P A M B N C S :: "u8 list"
  assume l: "length A = n \<and> length B = n \<and> length C = n"
  define b where "b = length P + n + length M"
  define c where "c = b + n + length N"
  have second: "length X = n \<Longrightarrow> length Y = n \<Longrightarrow> rd n (P @ X @ M @ Y @ N @ Z @ S) b = Y"
    "length X = n \<Longrightarrow> length Y = length W \<Longrightarrow> wr W (P @ X @ M @ Y @ N @ Z @ S) b = P @ X @ M @ W @ N @ Z @ S"
    "length X = n \<Longrightarrow> length Y = n \<Longrightarrow> length Z = n \<Longrightarrow> rd n (P @ X @ M @ Y @ N @ Z @ S) c = Z"
    "length X = n \<Longrightarrow> length Y = n \<Longrightarrow> length Z = length W \<Longrightarrow> wr W (P @ X @ M @ Y @ N @ Z @ S) c = P @ X @ M @ Y @ N @ W @ S" for X Y Z W
    using rd_at [of Y n b "P @ X @ M" "N @ Z @ S"] wr_at [of Y W b "P @ X @ M" "N @ Z @ S"]
      rd_at [of Z n c "P @ X @ M @ Y @ N" S] wr_at [of Z W c "P @ X @ M @ Y @ N" S] by (simp_all add: b_def c_def)
  show "rot_n n (P @ A @ M @ B @ N @ C @ S) (length P) (length P + n + length M) (length P + n + length M + n + length N)
        = P @ B @ M @ C @ N @ A @ S
      \<and> rot_n n (P @ A @ M @ B @ N @ C @ S) (length P + n + length M + n + length N) (length P + n + length M) (length P)
        = P @ C @ M @ A @ N @ B @ S"
    unfolding b_def [symmetric] c_def [symmetric] using l by (simp add: rot_n_def Let_def second)
qed

text \<open>Moving a block in two parts.\<close>

lemma two_parts: "length (A :: 'a list) = k + n \<Longrightarrow> \<exists>X Y. A = X @ Y \<and> length X = k \<and> length Y = n"
  by (rule exI [of _ "take k A"], rule exI [of _ "drop k A"]) simp

lemma swaps_add:
  assumes f: "swaps f k" and g: "swaps g n"
  shows "swaps (\<lambda>mem a b. g (f mem a b) (a + k) (b + k)) (k + n)"
  unfolding swaps_def
proof (intro allI impI)
  fix P A M B S :: "u8 list"
  assume "length A = k + n \<and> length B = k + n"
  then obtain A1 A2 B1 B2 where l: "A = A1 @ A2" "length A1 = k" "length A2 = n" "B = B1 @ B2" "length B1 = k" "length B2 = n"
    using two_parts by metis
  note F = f [unfolded swaps_def, rule_format, of A1 B1 P "A2 @ M" "B2 @ S"]
  note G = g [unfolded swaps_def, rule_format, of A2 B2 "P @ B1" "M @ A1" S]
  show "g (f (P @ A @ M @ B @ S) (length P) (length P + (k + n) + length M)) (length P + k) (length P + (k + n) + length M + k) = P @ B @ M @ A @ S
      \<and> g (f (P @ A @ M @ B @ S) (length P + (k + n) + length M) (length P)) (length P + (k + n) + length M + k) (length P + k) = P @ B @ M @ A @ S"
    using F G l by (simp add: add.assoc)
qed

lemma rotates_add:
  assumes f: "rotates f k" and g: "rotates g n"
  shows "rotates (\<lambda>mem a b c. g (f mem a b c) (a + k) (b + k) (c + k)) (k + n)"
  unfolding rotates_def Let_def
proof (intro allI impI)
  fix P A M B N C S :: "u8 list"
  assume len: "length A = k + n \<and> length B = k + n \<and> length C = k + n"
  from len obtain A1 A2 where a: "A = A1 @ A2" "length A1 = k" "length A2 = n" using two_parts [of A k n] by blast
  from len obtain B1 B2 where b: "B = B1 @ B2" "length B1 = k" "length B2 = n" using two_parts [of B k n] by blast
  from len obtain C1 C2 where c: "C = C1 @ C2" "length C1 = k" "length C2 = n" using two_parts [of C k n] by blast
  note l = a b c
  define b where "b = length P + (k + n) + length M"
  define c where "c = b + (k + n) + length N"
  have F: "f (P @ A @ M @ B @ N @ C @ S) (length P) b c = P @ B1 @ A2 @ M @ C1 @ B2 @ N @ A1 @ C2 @ S"
    "f (P @ A @ M @ B @ N @ C @ S) c b (length P) = P @ C1 @ A2 @ M @ A1 @ B2 @ N @ B1 @ C2 @ S"
    using f [unfolded rotates_def Let_def, rule_format, of A1 B1 C1 P "A2 @ M" "B2 @ N" "C2 @ S"] l
    by (simp_all add: b_def c_def add.assoc)
  have G1: "g (P @ B1 @ A2 @ M @ C1 @ B2 @ N @ A1 @ C2 @ S) (length P + k) (b + k) (c + k) = P @ B @ M @ C @ N @ A @ S"
    using g [unfolded rotates_def Let_def, rule_format, of A2 B2 C2 "P @ B1" "M @ C1" "N @ A1" S] l
    by (simp add: b_def c_def ac_simps)
  have G2: "g (P @ C1 @ A2 @ M @ A1 @ B2 @ N @ B1 @ C2 @ S) (c + k) (b + k) (length P + k) = P @ C @ M @ A @ N @ B @ S"
    using g [unfolded rotates_def Let_def, rule_format, of A2 B2 C2 "P @ C1" "M @ A1" "N @ B1" S] l
    by (simp add: b_def c_def ac_simps)
  show "g (f (P @ A @ M @ B @ N @ C @ S) (length P) (length P + (k + n) + length M) (length P + (k + n) + length M + (k + n) + length N))
        (length P + k) (length P + (k + n) + length M + k) (length P + (k + n) + length M + (k + n) + length N + k) = P @ B @ M @ C @ N @ A @ S
      \<and> g (f (P @ A @ M @ B @ N @ C @ S) (length P + (k + n) + length M + (k + n) + length N) (length P + (k + n) + length M) (length P))
        (length P + (k + n) + length M + (k + n) + length N + k) (length P + (k + n) + length M + k) (length P + k) = P @ C @ M @ A @ N @ B @ S"
    unfolding b_def [symmetric] c_def [symmetric] F G1 G2 by simp
qed

text \<open>The loops.\<close>

lemma swaps_16: "swaps (swap_16 n) (16 * n)"
proof (induction n)
  case 0
  then show ?case using swaps_0 by (simp add: swaps_def)
next
  case (Suc n)
  have "swap_16 (Suc n) = (\<lambda>mem a b. swap_16 n (swap_n 4 (swap_n 4 (swap_n 4 (swap_n 4 mem a b) (a + 4) (b + 4)) (a + (4 + 4)) (b + (4 + 4)))
      (a + (4 + 4 + 4)) (b + (4 + 4 + 4))) (a + (4 + 4 + 4 + 4)) (b + (4 + 4 + 4 + 4)))"
    by (simp add: fun_eq_iff Let_def)
  then show ?case
    using swaps_add [OF swaps_add [OF swaps_add [OF swaps_add [OF swaps_n swaps_n] swaps_n] swaps_n] Suc, of 4 4 4 4]
    by (simp only:) simp
qed

lemma swaps_1: "swaps (swap_1 n) n"
proof (induction n)
  case 0
  then show ?case using swaps_0 by (simp add: swaps_def)
next
  case (Suc n)
  then show ?case using swaps_add [OF swaps_n Suc, of 1] by (simp add: swaps_def)
qed

lemma swaps_low: "low \<in> {0, 4, 8, 12} \<Longrightarrow> swaps (swap_low low) low"
  using swaps_0 swaps_n [of 4] swaps_add [OF swaps_n swaps_n, of 4 4] swaps_add [OF swaps_add [OF swaps_n swaps_n] swaps_n, of 4 4 4]
  by (auto simp: swaps_def swap_low_def Let_def add.assoc)

lemma rotates_16: "rotates (rot_16 n) (16 * n)"
proof (induction n)
  case 0
  then show ?case using rotates_0 by (simp add: rotates_def)
next
  case (Suc n)
  have "rot_16 (Suc n) = (\<lambda>mem a b c. rot_16 n (rot_n 4 (rot_n 4 (rot_n 4 (rot_n 4 mem a b c) (a + 4) (b + 4) (c + 4))
      (a + (4 + 4)) (b + (4 + 4)) (c + (4 + 4))) (a + (4 + 4 + 4)) (b + (4 + 4 + 4)) (c + (4 + 4 + 4)))
      (a + (4 + 4 + 4 + 4)) (b + (4 + 4 + 4 + 4)) (c + (4 + 4 + 4 + 4)))"
    by (simp add: fun_eq_iff Let_def)
  then show ?case
    using rotates_add [OF rotates_add [OF rotates_add [OF rotates_add [OF rotates_n rotates_n] rotates_n] rotates_n] Suc, of 4 4 4 4]
    by (simp only:) simp
qed

lemma rotates_1: "rotates (rot_1 n) n"
proof (induction n)
  case 0
  then show ?case using rotates_0 by (simp add: rotates_def)
next
  case (Suc n)
  have "rot_1 (Suc n) = (\<lambda>mem a b c. rot_1 n (rot_n 1 mem a b c) (a + 1) (b + 1) (c + 1))" by (simp add: fun_eq_iff)
  then show ?case using rotates_add [OF rotates_n Suc, of 1] by (simp only:) simp
qed

lemma rotates_low: "low \<in> {0, 4, 8, 12} \<Longrightarrow> rotates (rot_low low) low"
proof -
  have "rot_low 0 = (\<lambda>mem a b c. mem)" "rot_low 4 = rot_n 4"
    "rot_low 8 = (\<lambda>mem a b c. rot_n 4 (rot_n 4 mem a b c) (a + 4) (b + 4) (c + 4))"
    "rot_low 12 = (\<lambda>mem a b c. rot_n 4 (rot_n 4 (rot_n 4 mem a b c) (a + 4) (b + 4) (c + 4)) (a + (4 + 4)) (b + (4 + 4)) (c + (4 + 4)))"
    by (simp_all add: fun_eq_iff rot_low_def Let_def)
  then show "low \<in> {0, 4, 8, 12} \<Longrightarrow> ?thesis"
    using rotates_0 rotates_n [of 4] rotates_add [OF rotates_n rotates_n, of 4 4]
      rotates_add [OF rotates_add [OF rotates_n rotates_n] rotates_n, of 4 4 4] by auto
qed

section \<open>Elements and their bytes\<close>

text \<open>How many bytes of an element are moved: all, except for the rest of an element that is no multiple of four bytes long in an aligned array.\<close>

definition moved :: "nat \<Rightarrow> nat \<Rightarrow> nat" where
  "moved base sz = (if base mod 4 = 0 then sz - sz mod 4 else max 1 sz)"

lemma low_cases: "sz mod 16 - sz mod 4 \<in> {0, 4, 8, 12 :: nat}"
proof -
  have "sz mod 4 = sz mod 16 mod 4" by (simp add: mod_mod_cancel)
  moreover have "sz mod 16 \<in> {0, 1, 2, 3, 4, 5, 6, 7, 8, 9, 10, 11, 12, 13, 14, 15}" by (simp; presburger)
  ultimately show ?thesis by auto
qed

lemma mmprepare_moved:
  assumes "mmprepare base sz = (kind, high, low)"
  shows "swaps (mmswap_bytes kind sz high low) (moved base sz)" "rotates (mmrot3_bytes kind sz high low) (moved base sz)"
proof -
  have a: "swaps (mmswap_bytes kind sz high low) (moved base sz) \<and> rotates (mmrot3_bytes kind sz high low) (moved base sz)"
  proof (cases "base mod 4 = 0")
    case True
    define n where "n = sz div 16"
    have l: "low = sz mod 16 - sz mod 4" and k: "0 \<le> kind" using assms True by (auto simp: mmprepare_def split: if_splits)
    have n: "(if 0 < kind then max 1 ((high + 15) div 16) else 0) = n"
    proof -
      have "high = 16 * n" using assms by (auto simp: mmprepare_def n_def minus_mod_eq_mult_div)
      moreover have "0 < kind \<longleftrightarrow> 16 \<le> sz" "\<not> 16 \<le> sz \<Longrightarrow> n = 0" "16 \<le> sz \<Longrightarrow> 1 \<le> n"
        using assms True by (auto simp: mmprepare_def n_def split: if_splits)
      ultimately show ?thesis by auto
    qed
    have le: "sz mod 4 \<le> sz mod 16" using mod_mod_cancel [of 4 16 sz] mod_less_eq_dividend [of "sz mod 16" 4] by simp
    have m: "moved base sz = 16 * n + low" using True le by (simp add: moved_def l n_def)
    have "swaps (\<lambda>mem a b. swap_low low (swap_16 n mem a b) (a + 16 * n) (b + 16 * n)) (moved base sz)"
      unfolding m by (rule swaps_add [OF swaps_16 swaps_low]) (use low_cases l in simp)
    moreover have "rotates (\<lambda>mem a b c. rot_low low (rot_16 n mem a b c) (a + 16 * n) (b + 16 * n) (c + 16 * n)) (moved base sz)"
      unfolding m by (rule rotates_add [OF rotates_16 rotates_low]) (use low_cases l in simp)
    ultimately show ?thesis using k n
      by (auto simp: swaps_def rotates_def mmswap_bytes_def mmrot3_bytes_def Let_def)
  next
    case False
    then have k: "kind < 0" "moved base sz = max 1 sz" using assms by (auto simp: mmprepare_def moved_def)
    then show ?thesis using swaps_1 [of "max 1 sz"] rotates_1 [of "max 1 sz"]
      by (auto simp: swaps_def rotates_def mmswap_bytes_def mmrot3_bytes_def Let_def)
  qed
  then show "swaps (mmswap_bytes kind sz high low) (moved base sz)" "rotates (mmrot3_bytes kind sz high low) (moved base sz)" by simp_all
qed

text \<open>The bytes of an array of elements of the same size.\<close>

lemma length_elements: "\<forall>e \<in> set es. length e = sz \<Longrightarrow> length (concat es) = length es * sz"
  by (induction es) simp_all

lemma elements_two:
  assumes "i < j" "j < length es" and sz: "\<forall>e \<in> set es. length e = sz"
  shows "\<exists>P M S. es = P @ [es ! i] @ M @ [es ! j] @ S \<and> length P = i \<and> length M = j - i - 1 \<and> length (concat P) = i * sz
    \<and> length (concat P) + sz + length (concat M) = j * sz \<and> es[i := x, j := y] = P @ [x] @ M @ [y] @ S"
proof -
  define P where "P = take i es"
  define M where "M = take (j - i - 1) (drop (i + 1) es)"
  define S where "S = drop (j + 1) es"
  have "drop (i + 1) es = M @ [es ! j] @ S"
    using assms(1,2) id_take_nth_drop [of "j - i - 1" "drop (i + 1) es"] by (simp add: M_def S_def)
  then have e: "es = P @ [es ! i] @ M @ [es ! j] @ S" using assms(1,2) id_take_nth_drop [of i es] by (simp add: P_def)
  have len: "length P = i" "length M = j - i - 1" using assms(1,2) by (auto simp: P_def M_def)
  have "\<forall>e \<in> set P. length e = sz" "\<forall>e \<in> set M. length e = sz" using sz e by (auto simp: P_def M_def dest: in_set_takeD in_set_dropD)
  then have c: "length (concat P) = i * sz" "length (concat M) = (j - i - 1) * sz" using length_elements len by metis+
  have "i * sz + sz + (j - i - 1) * sz = (i + 1 + (j - i - 1)) * sz" by (simp add: algebra_simps)
  then have "length (concat P) + sz + length (concat M) = j * sz" using assms(1) c by simp
  moreover have "es[i := x, j := y] = P @ [x] @ M @ [y] @ S"
  proof -
    have "j = length (P @ [x] @ M)" using len assms(1) by simp
    then have "(P @ [es ! i] @ M @ [es ! j] @ S)[i := x, j := y] = P @ [x] @ M @ [y] @ S"
      using list_update_length [of P "es ! i" "M @ [es ! j] @ S" x] list_update_length [of "P @ [x] @ M" "es ! j" S y] len by simp
    then show ?thesis using e by simp
  qed
  ultimately show ?thesis using e len c(1) by blast
qed

lemma swaps_elements:
  assumes f: "swaps f sz" and sz: "\<forall>e \<in> set es. length e = sz" and ij: "i < length es" "j < length es" "i \<noteq> j"
  shows "f (concat es) (i * sz) (j * sz) = concat (es[i := es ! j, j := es ! i])"
proof -
  have *: "f (concat es) (i * sz) (j * sz) = concat (es[i := es ! j, j := es ! i]) \<and> f (concat es) (j * sz) (i * sz) = concat (es[i := es ! j, j := es ! i])"
    if "i < j" "j < length es" for i j
  proof -
    from elements_two [OF that sz, of "es ! j" "es ! i"] obtain P M S where
      e: "es = P @ [es ! i] @ M @ [es ! j] @ S" "length (concat P) = i * sz" "length (concat P) + sz + length (concat M) = j * sz"
        "es[i := es ! j, j := es ! i] = P @ [es ! j] @ M @ [es ! i] @ S" by blast
    have "length (es ! i) = sz" "length (es ! j) = sz" using that sz by auto
    with f have "f (concat P @ es ! i @ concat M @ es ! j @ concat S) (i * sz) (j * sz) = concat P @ es ! j @ concat M @ es ! i @ concat S
        \<and> f (concat P @ es ! i @ concat M @ es ! j @ concat S) (j * sz) (i * sz) = concat P @ es ! j @ concat M @ es ! i @ concat S"
      unfolding swaps_def e(2,3) [symmetric] by blast
    moreover have "concat es = concat P @ es ! i @ concat M @ es ! j @ concat S" by (subst e(1)) simp
    moreover have "concat (es[i := es ! j, j := es ! i]) = concat P @ es ! j @ concat M @ es ! i @ concat S" unfolding e(4) by simp
    ultimately show ?thesis by simp
  qed
  show ?thesis
  proof (cases "i < j")
    case False
    then have "j < i" using ij(3) by simp
    then show ?thesis using * [of j i] ij by (simp add: list_update_swap)
  qed (use * [of i j] ij in simp)
qed

lemma elements_three:
  assumes "i < j" "j < k" "k < length es" and sz: "\<forall>e \<in> set es. length e = sz"
  shows "\<exists>P M N S. es = P @ [es ! i] @ M @ [es ! j] @ N @ [es ! k] @ S \<and> length (concat P) = i * sz
    \<and> length (concat P) + sz + length (concat M) = j * sz \<and> j * sz + sz + length (concat N) = k * sz
    \<and> length P = i \<and> length M = j - i - 1 \<and> length N = k - j - 1"
proof -
  have j: "j < length es" using assms(2,3) by simp
  from elements_two [OF assms(1) j sz, of undefined undefined] obtain P M T where
    e: "es = P @ [es ! i] @ M @ [es ! j] @ T" "length P = i" "length M = j - i - 1" "length (concat P) = i * sz"
      "length (concat P) + sz + length (concat M) = j * sz" by blast
  define n where "n = k - j - 1"
  have "length (P @ [es ! i] @ M @ [es ! j]) = j + 1" using e(2,3) assms(1) by simp
  moreover have "es = (P @ [es ! i] @ M @ [es ! j]) @ T" using e(1) by simp
  ultimately have T: "T = drop (j + 1) es" by (metis append_eq_conv_conj)
  then have n: "n < length T" and Tn: "T ! n = es ! k" using assms(2,3) by (simp_all add: n_def)
  have split: "T = take n T @ [es ! k] @ drop (n + 1) T" using id_take_nth_drop [OF n] Tn by simp
  have "\<forall>e \<in> set (take n T). length e = sz" using sz T by (auto dest: in_set_takeD in_set_dropD)
  then have "length (concat (take n T)) = n * sz" using length_elements [of "take n T" sz] n by simp
  moreover have "(j + 1 + n) * sz = k * sz" using assms(2) by (simp add: n_def)
  ultimately have "j * sz + sz + length (concat (take n T)) = k * sz" by (simp add: algebra_simps)
  moreover have "es = P @ [es ! i] @ M @ [es ! j] @ take n T @ [es ! k] @ drop (n + 1) T" using e(1) split by simp
  moreover have "length (take n T) = k - j - 1" using n by (simp add: n_def)
  ultimately show ?thesis using e by blast
qed

lemma update_three:
  "(P @ [a] @ M @ [b] @ N @ [c] @ S)[length P := x, length P + 1 + length M := y, length P + 1 + length M + 1 + length N := z]
     = P @ [x] @ M @ [y] @ N @ [z] @ S"
  using list_update_length [of P a "M @ [b] @ N @ [c] @ S" x] list_update_length [of "P @ [x] @ M" b "N @ [c] @ S" y]
    list_update_length [of "P @ [x] @ M @ [y] @ N" c S z] by (simp add: add.assoc)

lemma rotates_elements:
  assumes f: "rotates f sz" and sz: "\<forall>e \<in> set es. length e = sz" and ij: "i < j" "j < k" "k < length es"
  shows "f (concat es) (i * sz) (j * sz) (k * sz) = concat (es[i := es ! j, j := es ! k, k := es ! i])"
    "f (concat es) (k * sz) (j * sz) (i * sz) = concat (es[k := es ! j, j := es ! i, i := es ! k])"
proof -
  from elements_three [OF ij sz] obtain P M N S where
    e: "es = P @ [es ! i] @ M @ [es ! j] @ N @ [es ! k] @ S" "length (concat P) = i * sz" "length (concat P) + sz + length (concat M) = j * sz"
      "j * sz + sz + length (concat N) = k * sz" "length P = i" "length M = j - i - 1" "length N = k - j - 1" by blast
  have l: "length (es ! i) = sz" "length (es ! j) = sz" "length (es ! k) = sz" using ij sz by auto
  have c: "concat es = concat P @ es ! i @ concat M @ es ! j @ concat N @ es ! k @ concat S" by (subst e(1)) simp
  have u: "es[i := x, j := y, k := z] = P @ [x] @ M @ [y] @ N @ [z] @ S" for x y z
  proof -
    have "length P = i" "length P + 1 + length M = j" "length P + 1 + length M + 1 + length N = k" using e(5-7) ij by simp_all
    then show ?thesis using update_three [of P "es ! i" M "es ! j" N "es ! k" S x y z] e(1) by simp
  qed
  note F = f [unfolded rotates_def Let_def, rule_format, of "es ! i" "es ! j" "es ! k" "concat P" "concat M" "concat N" "concat S"]
  show "f (concat es) (i * sz) (j * sz) (k * sz) = concat (es[i := es ! j, j := es ! k, k := es ! i])"
    using F l e(2-4) by (simp add: c u)
  have "es[k := es ! j, j := es ! i, i := es ! k] = es[i := es ! k, j := es ! i, k := es ! j]"
    using ij by (simp add: list_update_swap)
  then show "f (concat es) (k * sz) (j * sz) (i * sz) = concat (es[k := es ! j, j := es ! i, i := es ! k])"
    using F l e(2-4) by (simp add: c u)
qed

section \<open>The moves of the sort\<close>

theorem mmswap_bytes_refines:
  assumes "mmprepare base sz = (kind, high, low)" "moved base sz = sz" "\<forall>e \<in> set es. length e = sz" "mmswap es a b = Some ys"
  shows "mmswap_bytes kind sz high low (concat es) (a * sz) (b * sz) = concat ys"
proof (cases "a = b")
  case True
  then show ?thesis using assms(4) by (auto simp: mmswap_def mmswap_bytes_def split: if_splits)
next
  case False
  then show ?thesis
    using swaps_elements [OF mmprepare_moved(1) [OF assms(1), unfolded assms(2)] assms(3), of a b] assms(4)
    by (auto simp: mmswap_def split: if_splits)
qed

theorem mmrot3_bytes_refines:
  assumes "mmprepare base sz = (kind, high, low)" "moved base sz = sz" "\<forall>e \<in> set es. length e = sz" "mmrot3 es a b c = Some ys"
    and "a < b \<and> b < c \<or> c < b \<and> b < a"
  shows "mmrot3_bytes kind sz high low (concat es) (a * sz) (b * sz) (c * sz) = concat ys"
  using rotates_elements [OF mmprepare_moved(2) [OF assms(1), unfolded assms(2)] assms(3)] assms(4,5)
  by (auto simp: mmrot3_def split: if_splits)

lemma moved_all: "0 < sz \<Longrightarrow> moved base sz = sz \<longleftrightarrow> base mod 4 \<noteq> 0 \<or> sz mod 4 = 0"
  by (auto simp: moved_def)

text \<open>An aligned array whose elements have one to three bytes: nothing moves.\<close>

lemma small_elements_stay:
  assumes "base mod 4 = 0" "sz < 4" "mmprepare base sz = (kind, high, low)"
  shows "mmswap_bytes kind sz high low mem a b = mem" "mmrot3_bytes kind sz high low mem a b c = mem"
  using assms by (auto simp: mmprepare_def mmswap_bytes_def mmrot3_bytes_def swap_low_def rot_low_def)

end
