(* ===== verification/Compare.thy ===== *)
theory Compare
  imports IntegerOps
begin

text \<open>
  Comparing objects with \<open><=>\<close>: \<open>rb_cmpint\<close> of \<open>lib/ruby/bignum.c\<close>, the methods of \<open>Comparable\<close> in \<open>lib/ruby/compar.c\<close>, and the
  methods \<open>min\<close>, \<open>max\<close>, \<open>minmax\<close> of \<open>lib/ruby/enum.c\<close> with their relatives \<open>min_by\<close>, \<open>max_by\<close> and \<open>minmax_by\<close>.  The methods of classes other than
  \<open>Integer\<close>, and methods of \<open>Integer\<close> that a program has redefined, are parameters.
\<close>

section \<open>Comparing two objects\<close>

text \<open>
  \<open>other_cmp\<close> is \<open><=>\<close> of another class or a redefined one, \<open>other_gt0\<close> and \<open>other_lt0\<close> are \<open>> 0\<close> and \<open>< 0\<close> of another class;
  \<open>fix_basic\<close> and \<open>big_basic\<close> tell whether \<open>Fixnum#<=>\<close> and \<open>Bignum#<=>\<close> are the ones the interpreter defines; \<open>string_cmp\<close> is
  \<open>rb_str_cmp\<close> for two strings and \<open>None\<close> for other objects; \<open>string_basic\<close> is for \<open>String#<=>\<close>; \<open>same_object\<close> is the identity of objects.
\<close>

record ('f, 'o) cmp_env =
  other_cmp :: "('f, 'o) rb_value \<Rightarrow> ('f, 'o) rb_value \<Rightarrow> ('f, 'o) rb_result"
  other_gt0 :: "('f, 'o) rb_value \<Rightarrow> rb_error + bool"
  other_lt0 :: "('f, 'o) rb_value \<Rightarrow> rb_error + bool"
  fix_basic :: bool
  big_basic :: bool
  string_cmp :: "'o \<Rightarrow> 'o \<Rightarrow> int option"
  string_basic :: bool
  same_object :: "('f, 'o) rb_value \<Rightarrow> ('f, 'o) rb_value \<Rightarrow> bool"

text \<open>\<open>rb_funcall(a, id_cmp, 1, b)\<close>.\<close>

definition funcall_cmp ::
  "('f, 'o) rb_env \<Rightarrow> ('f, 'o) cmp_env \<Rightarrow> ('f, 'o) rb_value \<Rightarrow> ('f, 'o) rb_value \<Rightarrow> ('f, 'o) rb_result" where
  "funcall_cmp env ce a b =
     (case a of
        RInt (VFix x) \<Rightarrow> if fix_basic ce then fix_cmp env x b else other_cmp ce a b
      | RInt (VBig x) \<Rightarrow> if big_basic ce then rb_big_cmp env x b else other_cmp ce a b
      | _ \<Rightarrow> other_cmp ce a b)"

text \<open>The error of the first case is the one of \<open>rb_cmperr\<close>.\<close>

definition rb_cmpint :: "('f, 'o) cmp_env \<Rightarrow> ('f, 'o) rb_value \<Rightarrow> rb_error + int" where
  "rb_cmpint ce val =
     (case val of
        RNil \<Rightarrow> Inl ArgError
      | RInt (VFix w) \<Rightarrow>
          (let l = sint (FIX2LONG w) in Inr (if 0 < l then 1 else if l < 0 then - 1 else 0))
      | RInt (VBig x) \<Rightarrow> Inr (if BIGZEROP x then 0 else if big_sign x then 1 else - 1)
      | _ \<Rightarrow>
          (case other_gt0 ce val of
             Inl e \<Rightarrow> Inl e
           | Inr gt \<Rightarrow>
               if gt then Inr 1
               else
                 (case other_lt0 ce val of Inl e \<Rightarrow> Inl e | Inr lt \<Rightarrow> Inr (if lt then - 1 else 0))))"

definition compare :: "('f, 'o) rb_env \<Rightarrow> ('f, 'o) cmp_env \<Rightarrow> ('f, 'o) rb_value \<Rightarrow> ('f, 'o) rb_value \<Rightarrow> rb_error + int" where
  "compare env ce a b = (case funcall_cmp env ce a b of Inl e \<Rightarrow> Inl e | Inr r \<Rightarrow> rb_cmpint ce r)"

section \<open>The methods of Comparable\<close>

definition cmp_eq :: "('f, 'o) rb_env \<Rightarrow> ('f, 'o) cmp_env \<Rightarrow> ('f, 'o) rb_value \<Rightarrow> ('f, 'o) rb_value \<Rightarrow> rb_error + bool" where
  "cmp_eq env ce x y =
     (case funcall_cmp env ce x y of
        Inl e \<Rightarrow> Inl e
      | Inr RNil \<Rightarrow> Inr False
      | Inr c \<Rightarrow> map_sum id (\<lambda>n. n = 0) (rb_cmpint ce c))"

text \<open>\<open>rb_rescue\<close> catches the subclasses of \<open>StandardError\<close>.\<close>

definition standard_error :: "rb_error \<Rightarrow> bool" where
  "standard_error e \<longleftrightarrow> e \<noteq> NoMemError \<and> e \<noteq> SecurityError \<and> e \<noteq> FatalBug"

definition cmp_equal :: "('f, 'o) rb_env \<Rightarrow> ('f, 'o) cmp_env \<Rightarrow> ('f, 'o) rb_value \<Rightarrow> ('f, 'o) rb_value \<Rightarrow> rb_error + bool" where
  "cmp_equal env ce x y =
     (if same_object ce x y then Inr True
      else (case cmp_eq env ce x y of Inl e \<Rightarrow> if standard_error e then Inr False else Inl e | Inr b \<Rightarrow> Inr b))"

definition cmp_gt :: "('f, 'o) rb_env \<Rightarrow> ('f, 'o) cmp_env \<Rightarrow> ('f, 'o) rb_value \<Rightarrow> ('f, 'o) rb_value \<Rightarrow> rb_error + bool" where
  "cmp_gt env ce x y = map_sum id (\<lambda>n. 0 < n) (compare env ce x y)"

definition cmp_ge :: "('f, 'o) rb_env \<Rightarrow> ('f, 'o) cmp_env \<Rightarrow> ('f, 'o) rb_value \<Rightarrow> ('f, 'o) rb_value \<Rightarrow> rb_error + bool" where
  "cmp_ge env ce x y = map_sum id (\<lambda>n. 0 \<le> n) (compare env ce x y)"

definition cmp_lt :: "('f, 'o) rb_env \<Rightarrow> ('f, 'o) cmp_env \<Rightarrow> ('f, 'o) rb_value \<Rightarrow> ('f, 'o) rb_value \<Rightarrow> rb_error + bool" where
  "cmp_lt env ce x y = map_sum id (\<lambda>n. n < 0) (compare env ce x y)"

definition cmp_le :: "('f, 'o) rb_env \<Rightarrow> ('f, 'o) cmp_env \<Rightarrow> ('f, 'o) rb_value \<Rightarrow> ('f, 'o) rb_value \<Rightarrow> rb_error + bool" where
  "cmp_le env ce x y = map_sum id (\<lambda>n. n \<le> 0) (compare env ce x y)"

definition cmp_between ::
  "('f, 'o) rb_env \<Rightarrow> ('f, 'o) cmp_env \<Rightarrow> ('f, 'o) rb_value \<Rightarrow> ('f, 'o) rb_value \<Rightarrow> ('f, 'o) rb_value \<Rightarrow> rb_error + bool" where
  "cmp_between env ce x lo hi =
     (case cmp_lt env ce x lo of
        Inl e \<Rightarrow> Inl e
      | Inr lt \<Rightarrow>
          if lt then Inr False
          else (case cmp_gt env ce x hi of Inl e \<Rightarrow> Inl e | Inr gt \<Rightarrow> Inr (\<not> gt)))"

section \<open>The least and the greatest element\<close>

text \<open>
  The elements that \<open>each\<close> passes on are a list; \<open>cmp\<close> compares two objects: \<open>compare\<close> without a block, and with a block \<open>rb_cmpint\<close> of its
  value.  The memo of the C code, with \<open>Qundef\<close> at first, is an option.
\<close>

type_synonym 'v comparison = "'v \<Rightarrow> 'v \<Rightarrow> rb_error + int"

definition min_i :: "'v comparison \<Rightarrow> 'v \<Rightarrow> 'v option \<Rightarrow> rb_error + 'v option" where
  "min_i cmp i memo =
     (case memo of
        None \<Rightarrow> Inr (Some i)
      | Some v \<Rightarrow> (case cmp i v of Inl e \<Rightarrow> Inl e | Inr n \<Rightarrow> Inr (if n < 0 then Some i else memo)))"

definition max_i :: "'v comparison \<Rightarrow> 'v \<Rightarrow> 'v option \<Rightarrow> rb_error + 'v option" where
  "max_i cmp i memo =
     (case memo of
        None \<Rightarrow> Inr (Some i)
      | Some v \<Rightarrow> (case cmp i v of Inl e \<Rightarrow> Inl e | Inr n \<Rightarrow> Inr (if 0 < n then Some i else memo)))"

definition minmax_i :: "'v comparison \<Rightarrow> 'v \<Rightarrow> ('v \<times> 'v) option \<Rightarrow> rb_error + ('v \<times> 'v) option" where
  "minmax_i cmp i memo =
     (case memo of
        None \<Rightarrow> Inr (Some (i, i))
      | Some (lo, hi) \<Rightarrow>
          (case cmp i lo of
             Inl e \<Rightarrow> Inl e
           | Inr n \<Rightarrow>
               let lo = (if n < 0 then i else lo) in
               (case cmp i hi of Inl e \<Rightarrow> Inl e | Inr n \<Rightarrow> Inr (Some (lo, if 0 < n then i else hi)))))"

text \<open>\<open>rb_block_call(obj, id_each, ...)\<close>: the elements one after the other, until one raises.\<close>

fun each_with :: "('v \<Rightarrow> 's \<Rightarrow> rb_error + 's) \<Rightarrow> 'v list \<Rightarrow> 's \<Rightarrow> rb_error + 's" where
  "each_with f [] memo = Inr memo"
| "each_with f (i # is) memo = (case f i memo of Inl e \<Rightarrow> Inl e | Inr memo \<Rightarrow> each_with f is memo)"

text \<open>\<open>None\<close> stands for \<open>nil\<close>.\<close>

definition enum_min :: "'v comparison \<Rightarrow> 'v list \<Rightarrow> rb_error + 'v option" where
  "enum_min cmp vs = each_with (min_i cmp) vs None"

definition enum_max :: "'v comparison \<Rightarrow> 'v list \<Rightarrow> rb_error + 'v option" where
  "enum_max cmp vs = each_with (max_i cmp) vs None"

definition enum_minmax :: "'v comparison \<Rightarrow> 'v list \<Rightarrow> rb_error + ('v \<times> 'v) option" where
  "enum_minmax cmp vs = each_with (minmax_i cmp) vs None"

text \<open>The same with keys: \<open>key\<close> is the block, and the memo keeps the key beside the element.\<close>

definition min_by_i :: "'k comparison \<Rightarrow> ('v \<Rightarrow> rb_error + 'k) \<Rightarrow> 'v \<Rightarrow> ('k \<times> 'v) option \<Rightarrow> rb_error + ('k \<times> 'v) option" where
  "min_by_i cmp key i memo =
     (case key i of
        Inl e \<Rightarrow> Inl e
      | Inr v \<Rightarrow>
          (case memo of
             None \<Rightarrow> Inr (Some (v, i))
           | Some (k, m) \<Rightarrow> (case cmp v k of Inl e \<Rightarrow> Inl e | Inr n \<Rightarrow> Inr (if n < 0 then Some (v, i) else memo))))"

definition max_by_i :: "'k comparison \<Rightarrow> ('v \<Rightarrow> rb_error + 'k) \<Rightarrow> 'v \<Rightarrow> ('k \<times> 'v) option \<Rightarrow> rb_error + ('k \<times> 'v) option" where
  "max_by_i cmp key i memo =
     (case key i of
        Inl e \<Rightarrow> Inl e
      | Inr v \<Rightarrow>
          (case memo of
             None \<Rightarrow> Inr (Some (v, i))
           | Some (k, m) \<Rightarrow> (case cmp v k of Inl e \<Rightarrow> Inl e | Inr n \<Rightarrow> Inr (if 0 < n then Some (v, i) else memo))))"

definition minmax_by_i ::
  "'k comparison \<Rightarrow> ('v \<Rightarrow> rb_error + 'k) \<Rightarrow> 'v \<Rightarrow> (('k \<times> 'v) \<times> ('k \<times> 'v)) option \<Rightarrow> rb_error + (('k \<times> 'v) \<times> ('k \<times> 'v)) option" where
  "minmax_by_i cmp key i memo =
     (case key i of
        Inl e \<Rightarrow> Inl e
      | Inr v \<Rightarrow>
          (case memo of
             None \<Rightarrow> Inr (Some ((v, i), (v, i)))
           | Some (lo, hi) \<Rightarrow>
               (case cmp v (fst lo) of
                  Inl e \<Rightarrow> Inl e
                | Inr n \<Rightarrow>
                    let lo = (if n < 0 then (v, i) else lo) in
                    (case cmp v (fst hi) of Inl e \<Rightarrow> Inl e | Inr n \<Rightarrow> Inr (Some (lo, if 0 < n then (v, i) else hi))))))"

definition enum_min_by :: "'k comparison \<Rightarrow> ('v \<Rightarrow> rb_error + 'k) \<Rightarrow> 'v list \<Rightarrow> rb_error + 'v option" where
  "enum_min_by cmp key vs = map_sum id (map_option snd) (each_with (min_by_i cmp key) vs None)"

definition enum_max_by :: "'k comparison \<Rightarrow> ('v \<Rightarrow> rb_error + 'k) \<Rightarrow> 'v list \<Rightarrow> rb_error + 'v option" where
  "enum_max_by cmp key vs = map_sum id (map_option snd) (each_with (max_by_i cmp key) vs None)"

definition enum_minmax_by :: "'k comparison \<Rightarrow> ('v \<Rightarrow> rb_error + 'k) \<Rightarrow> 'v list \<Rightarrow> rb_error + ('v \<times> 'v) option" where
  "enum_minmax_by cmp key vs = map_sum id (map_option (map_prod snd snd)) (each_with (minmax_by_i cmp key) vs None)"

section \<open>Comparisons that follow an integer\<close>

text \<open>
  A comparison that never raises on the elements of \<open>S\<close> and has the sign of the difference of their values: all that the methods above ask
  of \<open><=>\<close>.
\<close>

locale ordered_by =
  fixes cmp :: "'v comparison" and S :: "'v set" and V :: "'v \<Rightarrow> int"
  assumes follows: "x \<in> S \<Longrightarrow> y \<in> S \<Longrightarrow> \<exists>n. cmp x y = Inr n \<and> sgn n = sgn (V x - V y)"
begin

lemma cmp_value: "x \<in> S \<Longrightarrow> y \<in> S \<Longrightarrow> \<exists>n. cmp x y = Inr n \<and> (n < 0 \<longleftrightarrow> V x < V y) \<and> (0 < n \<longleftrightarrow> V y < V x)"
  using follows [of x y] by (fastforce simp: sgn_if split: if_splits)

lemma min_from:
  "set vs \<subseteq> S \<Longrightarrow> m \<in> S \<Longrightarrow>
    \<exists>m'. each_with (min_i cmp) vs (Some m) = Inr (Some m') \<and> m' \<in> insert m (set vs) \<and> (\<forall>v \<in> insert m (set vs). V m' \<le> V v)"
proof (induction vs arbitrary: m)
  case (Cons v vs)
  define k where "k = (if V v < V m then v else m)"
  obtain n where n: "cmp v m = Inr n" "n < 0 \<longleftrightarrow> V v < V m" using cmp_value [of v m] Cons.prems by auto
  have "k \<in> S" using Cons.prems by (simp add: k_def)
  with Cons obtain m' where m': "each_with (min_i cmp) vs (Some k) = Inr (Some m')" "m' \<in> insert k (set vs)"
    "\<forall>v \<in> insert k (set vs). V m' \<le> V v" by (metis insert_subset list.simps(15))
  have "each_with (min_i cmp) (v # vs) (Some m) = Inr (Some m')" using m'(1) n by (cases "V v < V m") (simp_all add: min_i_def k_def)
  moreover have "m' \<in> insert m (set (v # vs))" using m'(2) by (auto simp: k_def split: if_splits)
  moreover have "\<forall>x \<in> insert m (set (v # vs)). V m' \<le> V x" using m'(3) by (auto simp: k_def split: if_splits)
  ultimately show ?case by blast
qed simp

lemma max_from:
  "set vs \<subseteq> S \<Longrightarrow> m \<in> S \<Longrightarrow>
    \<exists>m'. each_with (max_i cmp) vs (Some m) = Inr (Some m') \<and> m' \<in> insert m (set vs) \<and> (\<forall>v \<in> insert m (set vs). V v \<le> V m')"
proof (induction vs arbitrary: m)
  case (Cons v vs)
  define k where "k = (if V m < V v then v else m)"
  obtain n where n: "cmp v m = Inr n" "0 < n \<longleftrightarrow> V m < V v" using cmp_value [of v m] Cons.prems by auto
  have "k \<in> S" using Cons.prems by (simp add: k_def)
  with Cons obtain m' where m': "each_with (max_i cmp) vs (Some k) = Inr (Some m')" "m' \<in> insert k (set vs)"
    "\<forall>v \<in> insert k (set vs). V v \<le> V m'" by (metis insert_subset list.simps(15))
  have "each_with (max_i cmp) (v # vs) (Some m) = Inr (Some m')" using m'(1) n by (cases "V m < V v") (simp_all add: max_i_def k_def)
  moreover have "m' \<in> insert m (set (v # vs))" using m'(2) by (auto simp: k_def split: if_splits)
  moreover have "\<forall>x \<in> insert m (set (v # vs)). V x \<le> V m'" using m'(3) by (auto simp: k_def split: if_splits)
  ultimately show ?case by blast
qed simp

text \<open>\<open>minmax\<close> runs both at once.\<close>

lemma minmax_from:
  "set vs \<subseteq> S \<Longrightarrow> lo \<in> S \<Longrightarrow> hi \<in> S \<Longrightarrow> each_with (min_i cmp) vs (Some lo) = Inr (Some l) \<Longrightarrow>
    each_with (max_i cmp) vs (Some hi) = Inr (Some h) \<Longrightarrow> each_with (minmax_i cmp) vs (Some (lo, hi)) = Inr (Some (l, h))"
proof (induction vs arbitrary: lo hi)
  case (Cons v vs)
  obtain n k where n: "cmp v lo = Inr n" "cmp v hi = Inr k" using cmp_value [of v lo] cmp_value [of v hi] Cons.prems by auto
  define lo' where "lo' = (if n < 0 then v else lo)"
  define hi' where "hi' = (if 0 < k then v else hi)"
  have i: "min_i cmp v (Some lo) = Inr (Some lo')" "max_i cmp v (Some hi) = Inr (Some hi')"
    "minmax_i cmp v (Some (lo, hi)) = Inr (Some (lo', hi'))"
    by (simp_all add: min_i_def max_i_def minmax_i_def n Let_def lo'_def hi'_def)
  have "lo' \<in> S" "hi' \<in> S" using Cons.prems by (simp_all add: lo'_def hi'_def)
  then show ?case using Cons.IH [of lo' hi'] Cons.prems by (simp add: i)
qed simp

lemma extremes:
  assumes "vs \<noteq> []" "set vs \<subseteq> S"
  shows "\<exists>lo hi. enum_min cmp vs = Inr (Some lo) \<and> enum_max cmp vs = Inr (Some hi) \<and> enum_minmax cmp vs = Inr (Some (lo, hi))
    \<and> lo \<in> set vs \<and> hi \<in> set vs \<and> (\<forall>v \<in> set vs. V lo \<le> V v \<and> V v \<le> V hi)"
proof -
  obtain v ws where v: "vs = v # ws" using assms(1) by (cases vs) auto
  then have S: "v \<in> S" "set ws \<subseteq> S" using assms(2) by auto
  obtain lo where lo: "each_with (min_i cmp) ws (Some v) = Inr (Some lo)" "lo \<in> set vs" "\<forall>x \<in> set vs. V lo \<le> V x"
    using min_from [OF S(2,1)] v by auto
  obtain hi where hi: "each_with (max_i cmp) ws (Some v) = Inr (Some hi)" "hi \<in> set vs" "\<forall>x \<in> set vs. V x \<le> V hi"
    using max_from [OF S(2,1)] v by auto
  have "enum_min cmp vs = Inr (Some lo) \<and> enum_max cmp vs = Inr (Some hi) \<and> enum_minmax cmp vs = Inr (Some (lo, hi))"
    using lo(1) hi(1) minmax_from [OF S(2,1,1) lo(1) hi(1)]
    by (simp add: v enum_min_def enum_max_def enum_minmax_def min_i_def max_i_def minmax_i_def)
  then show ?thesis using lo hi by blast
qed

end

text \<open>The methods with a block for the key compare pairs by their first component.\<close>

definition on_keys :: "'k comparison \<Rightarrow> ('k \<times> 'v) comparison" where
  "on_keys cmp p q = cmp (fst p) (fst q)"

lemma by_keys:
  assumes "\<forall>v \<in> set vs. key v = Inr (k v)"
  shows "each_with (min_by_i cmp key) vs memo = each_with (min_i (on_keys cmp)) (map (\<lambda>v. (k v, v)) vs) memo"
    and "each_with (max_by_i cmp key) vs memo = each_with (max_i (on_keys cmp)) (map (\<lambda>v. (k v, v)) vs) memo"
    and "each_with (minmax_by_i cmp key) vs memos = each_with (minmax_i (on_keys cmp)) (map (\<lambda>v. (k v, v)) vs) memos"
proof -
  have "each_with (min_by_i cmp key) vs memo = each_with (min_i (on_keys cmp)) (map (\<lambda>v. (k v, v)) vs) memo
    \<and> each_with (max_by_i cmp key) vs memo = each_with (max_i (on_keys cmp)) (map (\<lambda>v. (k v, v)) vs) memo
    \<and> each_with (minmax_by_i cmp key) vs memos = each_with (minmax_i (on_keys cmp)) (map (\<lambda>v. (k v, v)) vs) memos" for memo
    using assms
  proof (induction vs arbitrary: memo memos)
    case (Cons v vs)
    have k: "key v = Inr (k v)" using Cons.prems by simp
    have "min_by_i cmp key v m = min_i (on_keys cmp) (k v, v) m" "max_by_i cmp key v m = max_i (on_keys cmp) (k v, v) m"
      "minmax_by_i cmp key v n = minmax_i (on_keys cmp) (k v, v) n" for m n
      by (auto simp: min_by_i_def min_i_def max_by_i_def max_i_def minmax_by_i_def minmax_i_def on_keys_def k Let_def
          split: option.split sum.split)
    with Cons show ?case by (simp split: sum.split)
  qed simp
  then show "each_with (min_by_i cmp key) vs memo = each_with (min_i (on_keys cmp)) (map (\<lambda>v. (k v, v)) vs) memo"
    "each_with (max_by_i cmp key) vs memo = each_with (max_i (on_keys cmp)) (map (\<lambda>v. (k v, v)) vs) memo"
    "each_with (minmax_by_i cmp key) vs memos = each_with (minmax_i (on_keys cmp)) (map (\<lambda>v. (k v, v)) vs) memos" by blast+
qed

section \<open>Integers\<close>

definition integer_value :: "('f, 'o) rb_value \<Rightarrow> int" where
  "integer_value x = (case x of RInt v \<Rightarrow> int_of v | _ \<Rightarrow> 0)"

definition basic_integers :: "('f, 'o) cmp_env \<Rightarrow> ('f, 'o) rb_value set" where
  "basic_integers ce = (if fix_basic ce \<and> big_basic ce then RInt ` Collect normal_int else {})"

lemma funcall_cmp_int:
  "fix_basic ce \<Longrightarrow> big_basic ce \<Longrightarrow> funcall_cmp env ce (RInt v) (RInt w) = int_cmp env v w"
  by (simp add: funcall_cmp_def int_cmp_def split: rb_int.split)

lemma rb_cmpint_INT2FIX: "i \<in> {- 1, 0, 1} \<Longrightarrow> rb_cmpint ce (INT2FIX i) = Inr i"
  by (auto simp: rb_cmpint_def INT2FIX_def FIX2LONG_LONG2FIX fixable_defs Let_def)

lemma compare_integers:
  assumes "fix_basic ce" "big_basic ce" "normal_int v" "normal_int w"
  shows "compare env ce (RInt v) (RInt w) = Inr (sgn (int_of v - int_of w))"
  using int_cmp_sgn(1) [OF assms(3,4), of env] rb_cmpint_INT2FIX [of "sgn (int_of v - int_of w)" ce] assms(1,2)
  by (auto simp: compare_def funcall_cmp_int sgn_if)

interpretation integers: ordered_by "compare env ce" "basic_integers ce" integer_value
  for env :: "('f, 'o) rb_env" and ce :: "('f, 'o) cmp_env"
  by unfold_locales (auto simp: basic_integers_def integer_value_def compare_integers split: if_splits)

lemma integer_keys: "ordered_by (on_keys (compare env ce)) {p. fst p \<in> basic_integers ce} (\<lambda>p. integer_value (fst p))"
  by unfold_locales (use integers.follows in \<open>auto simp: on_keys_def\<close>)

interpretation keyed: ordered_by "on_keys (compare env ce)" "{p. fst p \<in> basic_integers ce}" "\<lambda>p. integer_value (fst p)"
  for env :: "('f, 'o) rb_env" and ce :: "('f, 'o) cmp_env"
  by (rule integer_keys)

lemma cmp_integers:
  assumes "fix_basic ce" "big_basic ce" "normal_int v" "normal_int w"
  shows "cmp_gt env ce (RInt v) (RInt w) = Inr (int_of w < int_of v)" "cmp_ge env ce (RInt v) (RInt w) = Inr (int_of w \<le> int_of v)"
    "cmp_lt env ce (RInt v) (RInt w) = Inr (int_of v < int_of w)" "cmp_le env ce (RInt v) (RInt w) = Inr (int_of v \<le> int_of w)"
  using compare_integers [OF assms, of env] by (auto simp: cmp_gt_def cmp_ge_def cmp_lt_def cmp_le_def sgn_if)

lemma between_integers:
  assumes "fix_basic ce" "big_basic ce" "normal_int v" "normal_int lo" "normal_int hi"
  shows "cmp_between env ce (RInt v) (RInt lo) (RInt hi) = Inr (int_of lo \<le> int_of v \<and> int_of v \<le> int_of hi)"
  using cmp_integers [OF assms(1-4), of env] cmp_integers [OF assms(1-3,5), of env] by (auto simp: cmp_between_def)

lemma extremes_by_key:
  assumes "vs \<noteq> []" "\<forall>v \<in> set vs. key v = Inr (k v) \<and> k v \<in> basic_integers ce"
  shows "\<exists>lo hi. enum_min_by (compare env ce) key vs = Inr (Some lo) \<and> enum_max_by (compare env ce) key vs = Inr (Some hi)
    \<and> enum_minmax_by (compare env ce) key vs = Inr (Some (lo, hi)) \<and> lo \<in> set vs \<and> hi \<in> set vs
    \<and> (\<forall>v \<in> set vs. integer_value (k lo) \<le> integer_value (k v) \<and> integer_value (k v) \<le> integer_value (k hi))"
proof -
  define ps where "ps = map (\<lambda>v. (k v, v)) vs"
  have ps: "ps \<noteq> []" "set ps \<subseteq> {p. fst p \<in> basic_integers ce}" using assms by (auto simp: ps_def)
  from keyed.extremes [OF this, of env] obtain p q where
    e: "enum_min (on_keys (compare env ce)) ps = Inr (Some p)" "enum_max (on_keys (compare env ce)) ps = Inr (Some q)"
      "enum_minmax (on_keys (compare env ce)) ps = Inr (Some (p, q))" "p \<in> set ps" "q \<in> set ps"
      "\<forall>v \<in> set ps. integer_value (fst p) \<le> integer_value (fst v) \<and> integer_value (fst v) \<le> integer_value (fst q)" by blast
  have pq: "p = (k (snd p), snd p)" "q = (k (snd q), snd q)" "snd p \<in> set vs" "snd q \<in> set vs" using e(4,5) by (auto simp: ps_def)
  have m: "\<forall>v \<in> set vs. integer_value (k (snd p)) \<le> integer_value (k v) \<and> integer_value (k v) \<le> integer_value (k (snd q))"
    using e(6) pq(1,2) by (auto simp: ps_def) (metis fst_conv)+
  have "\<forall>v \<in> set vs. key v = Inr (k v)" using assms(2) by blast
  note b = by_keys [OF this, of "compare env ce", folded ps_def]
  have "enum_min_by (compare env ce) key vs = Inr (Some (snd p))" "enum_max_by (compare env ce) key vs = Inr (Some (snd q))"
    "enum_minmax_by (compare env ce) key vs = Inr (Some (snd p, snd q))"
    using e(1-3) by (simp_all add: enum_min_by_def enum_max_by_def enum_minmax_by_def enum_min_def enum_max_def enum_minmax_def b)
  then show ?thesis using m pq(3,4) by blast
qed

end
