(* ===== verification/QsortSplit.thy ===== *)
theory QsortSplit
  imports Qsort
begin

text \<open>
  The splitting loops of \<open>ruby_qsort\<close> end inside the region, permute its inner elements, and leave them on the sides of the median
  that their comparisons say, for any comparison function whatever.
\<close>

section \<open>Permutations of a region\<close>

definition perm_in :: "nat \<Rightarrow> nat \<Rightarrow> 'a list \<Rightarrow> 'a list \<Rightarrow> bool" where
  "perm_in L R xs ys \<longleftrightarrow>
     length ys = length xs \<and> mset ys = mset xs \<and> (\<forall>i. i < L \<or> R < i \<longrightarrow> ys ! i = xs ! i)
     \<and> (\<forall>i. L \<le> i \<and> i \<le> R \<longrightarrow> (\<exists>k. L \<le> k \<and> k \<le> R \<and> ys ! i = xs ! k))"

lemma perm_in_refl [simp]: "perm_in L R xs xs"
  by (auto simp: perm_in_def)

lemma perm_in_trans: "perm_in L R xs ys \<Longrightarrow> perm_in L R ys zs \<Longrightarrow> perm_in L R xs zs"
  unfolding perm_in_def by metis

lemma perm_in_wider: "perm_in L R xs ys \<Longrightarrow> L' \<le> L \<Longrightarrow> R \<le> R' \<Longrightarrow> perm_in L' R' xs ys"
  unfolding perm_in_def by (metis le_less_trans less_le_trans nle_le not_le)

lemma perm_in_length: "perm_in L R xs ys \<Longrightarrow> length ys = length xs"
  by (simp add: perm_in_def)

lemma perm_in_swap:
  assumes "L \<le> a" "a \<le> R" "L \<le> b" "b \<le> R" "R < length xs"
  shows "perm_in L R xs (xs[a := xs ! b, b := xs ! a])"
proof -
  have "mset (xs[a := xs ! b, b := xs ! a]) = mset xs" using assms by (intro mset_swap) simp_all
  then show ?thesis unfolding perm_in_def using assms by (auto simp: nth_list_update)
qed

lemma mmswap_some: "a < length xs \<Longrightarrow> b < length xs \<Longrightarrow> mmswap xs a b = Some (xs[a := xs ! b, b := xs ! a])"
  by (simp add: mmswap_def)

lemma cmp_at_some: "i < length xs \<Longrightarrow> j < length xs \<Longrightarrow> cmp_at cmp xs i j = Some (cmp (xs ! i) (xs ! j))"
  by (simp add: cmp_at_def)

section \<open>Splitting of type A\<close>

lemma split_next:
  "Suc l < k \<Longrightarrow> (\<forall>i. l < i \<and> i < k \<and> i \<noteq> m \<longrightarrow> P i)
    \<longleftrightarrow> (Suc l \<noteq> m \<longrightarrow> P (Suc l)) \<and> (\<forall>i. Suc l < i \<and> i < k \<and> i \<noteq> m \<longrightarrow> P i)"
  by (metis Suc_lessD Suc_lessI lessI)

lemma scan_up_A_spec:
  "l < r \<Longrightarrow> r < length xs \<Longrightarrow> m < length xs \<Longrightarrow>
    \<exists>l'. scan_up_A cmp xs m r l e
        = Some (l', l' < r, e \<and> (\<forall>i. l < i \<and> i < l' \<and> i \<noteq> m \<longrightarrow> \<not> cmp (xs ! i) (xs ! m) < 0))
      \<and> l < l' \<and> l' \<le> r \<and> (l' < r \<longrightarrow> l' \<noteq> m \<and> 0 < cmp (xs ! l') (xs ! m))
      \<and> (\<forall>i. l < i \<and> i < l' \<and> i \<noteq> m \<longrightarrow> cmp (xs ! i) (xs ! m) \<le> 0)"
proof (induction "r - l" arbitrary: l e rule: less_induct)
  case less
  show ?case
  proof (cases "l + 1 = r")
    case True
    then show ?thesis by (subst scan_up_A.simps) auto
  next
    case False
    define t where "t = cmp (xs ! (l + 1)) (xs ! m)"
    define e1 where "e1 = (if l + 1 = m then e else e \<and> \<not> t < 0)"
    have c: "cmp_at cmp xs (l + 1) m = Some t" unfolding t_def using less.prems False by (intro cmp_at_some) auto
    show ?thesis
    proof (cases "l + 1 \<noteq> m \<and> 0 < t")
      case True
      then have "scan_up_A cmp xs m r l e = Some (l + 1, True, e)" using False c by (subst scan_up_A.simps) simp
      then show ?thesis using True False less.prems by (auto simp: t_def)
    next
      case rec: False
      then have s: "scan_up_A cmp xs m r l e = scan_up_A cmp xs m r (l + 1) e1"
        using False c by (subst scan_up_A.simps) (auto simp: e1_def)
      have "r - (l + 1) < r - l" "l + 1 < r" using less.prems False by auto
      from less.hyps [OF this less.prems(2,3), of e1] obtain l' where
        ih: "scan_up_A cmp xs m r (l + 1) e1
          = Some (l', l' < r, e1 \<and> (\<forall>i. l + 1 < i \<and> i < l' \<and> i \<noteq> m \<longrightarrow> \<not> cmp (xs ! i) (xs ! m) < 0))"
        "l + 1 < l'" "l' \<le> r" "l' < r \<longrightarrow> l' \<noteq> m \<and> 0 < cmp (xs ! l') (xs ! m)"
        "\<forall>i. l + 1 < i \<and> i < l' \<and> i \<noteq> m \<longrightarrow> cmp (xs ! i) (xs ! m) \<le> 0"
        by blast
      note split = split_next [OF ih(2) [unfolded add.commute [of l 1] plus_1_eq_Suc]]
      have "\<forall>i. l < i \<and> i < l' \<and> i \<noteq> m \<longrightarrow> cmp (xs ! i) (xs ! m) \<le> 0"
        unfolding split using ih(5) rec by (auto simp: t_def)
      moreover have iff: "(e1 \<and> (\<forall>i. l + 1 < i \<and> i < l' \<and> i \<noteq> m \<longrightarrow> \<not> cmp (xs ! i) (xs ! m) < 0))
          = (e \<and> (\<forall>i. l < i \<and> i < l' \<and> i \<noteq> m \<longrightarrow> \<not> cmp (xs ! i) (xs ! m) < 0))"
        unfolding split e1_def t_def by auto
      moreover have "l < l'" using ih(2) by simp
      ultimately show ?thesis using ih(3,4) unfolding s ih(1) iff by blast
    qed
  qed
qed

lemma scan_down_A_spec:
  "l < r \<Longrightarrow> r \<le> length xs \<Longrightarrow> m < length xs \<Longrightarrow>
    \<exists>r' m' e'. scan_down_A cmp xs m l r e = Some (r', m', l < r', e') \<and> l \<le> r' \<and> r' < r
      \<and> (r' = l \<longrightarrow> m' = m \<and> e' = e)
      \<and> (l < r' \<longrightarrow> r' = m \<and> m' = l \<and> e' = e
            \<or> r' \<noteq> m \<and> m' = m \<and> cmp (xs ! r') (xs ! m) \<le> 0 \<and> (e' \<longleftrightarrow> e \<and> \<not> cmp (xs ! r') (xs ! m) < 0))
      \<and> (\<forall>i. r' < i \<and> i < r \<longrightarrow> i \<noteq> m \<and> 0 < cmp (xs ! i) (xs ! m))"
proof (induction r)
  case (Suc r)
  define t where "t = cmp (xs ! r) (xs ! m)"
  have c: "cmp_at cmp xs r m = Some t" unfolding t_def using Suc.prems by (intro cmp_at_some) auto
  show ?case
  proof (cases "l = r \<or> r = m \<or> t \<le> 0")
    case True
    have "scan_down_A cmp xs m l (Suc r) e = Some (if l = r then (r, m, False, e) else if r = m then (r, l, True, e) else (r, m, True, e \<and> \<not> t < 0))"
      using c True by (subst scan_down_A.simps) auto
    then show ?thesis using True Suc.prems
      by (intro exI [of _ r] exI [of _ "if l \<noteq> r \<and> r = m then l else m"] exI [of _ "if l = r \<or> r = m then e else e \<and> \<not> t < 0"])
        (auto simp: t_def)
  next
    case False
    then have s: "scan_down_A cmp xs m l (Suc r) e = scan_down_A cmp xs m l r e" using c by (subst scan_down_A.simps) simp
    from False Suc.prems have "l < r" "r \<le> length xs" "m < length xs" by auto
    from Suc.IH [OF this] obtain r' m' e' where ih: "scan_down_A cmp xs m l r e = Some (r', m', l < r', e')" "l \<le> r'" "r' < r"
      "r' = l \<longrightarrow> m' = m \<and> e' = e"
      "l < r' \<longrightarrow> r' = m \<and> m' = l \<and> e' = e
         \<or> r' \<noteq> m \<and> m' = m \<and> cmp (xs ! r') (xs ! m) \<le> 0 \<and> (e' \<longleftrightarrow> e \<and> \<not> cmp (xs ! r') (xs ! m) < 0)"
      "\<forall>i. r' < i \<and> i < r \<longrightarrow> i \<noteq> m \<and> 0 < cmp (xs ! i) (xs ! m)"
      by blast
    have "\<forall>i. r' < i \<and> i < Suc r \<longrightarrow> i \<noteq> m \<and> 0 < cmp (xs ! i) (xs ! m)"
      using ih(6) False unfolding t_def by (metis less_antisym not_le)
    with ih(2-5) show ?thesis unfolding s ih(1) by (intro exI [of _ r'] exI [of _ m'] exI [of _ e']) simp
  qed
qed simp

text \<open>What a split achieves: the median between the two sides, each possibly known to be equal to it.\<close>

definition split_post ::
  "('a \<Rightarrow> 'a \<Rightarrow> int) \<Rightarrow> 'a \<Rightarrow> nat \<Rightarrow> nat \<Rightarrow> 'a list \<Rightarrow> nat \<Rightarrow> nat \<Rightarrow> bool \<Rightarrow> bool \<Rightarrow> bool" where
  "split_post cmp p L R xs l r eq_l eq_r \<longleftrightarrow>
     L \<le> l \<and> r = l + 2 \<and> r \<le> R \<and> xs ! (l + 1) = p \<and> (\<not> eq_l \<longrightarrow> L < l) \<and> (\<not> eq_r \<longrightarrow> r < R)
     \<and> (\<forall>i. L < i \<and> i \<le> l \<longrightarrow> cmp (xs ! i) p \<le> 0 \<and> (eq_l \<longrightarrow> 0 \<le> cmp (xs ! i) p))
     \<and> (\<forall>i. r \<le> i \<and> i < R \<longrightarrow> 0 \<le> cmp (xs ! i) p \<and> (eq_r \<longrightarrow> cmp (xs ! i) p \<le> 0))"

text \<open>The invariant of the outer loop of type A.\<close>

definition inv_A ::
  "('a \<Rightarrow> 'a \<Rightarrow> int) \<Rightarrow> nat \<Rightarrow> nat \<Rightarrow> 'a list \<Rightarrow> nat \<Rightarrow> nat \<Rightarrow> nat \<Rightarrow> bool \<Rightarrow> bool \<Rightarrow> bool" where
  "inv_A cmp L R xs m l r eq_l eq_r \<longleftrightarrow>
     L \<le> l \<and> l < r \<and> r \<le> R \<and> R < length xs \<and> L < m \<and> m < r \<and> (eq_r \<longleftrightarrow> r = R)
     \<and> (\<forall>i. L < i \<and> i \<le> l \<and> i \<noteq> m \<longrightarrow> cmp (xs ! i) (xs ! m) \<le> 0)
     \<and> (\<forall>i. r \<le> i \<and> i < R \<longrightarrow> 0 < cmp (xs ! i) (xs ! m))
     \<and> (eq_l \<longrightarrow> (\<forall>i. L < i \<and> i \<le> l \<and> i \<noteq> m \<longrightarrow> \<not> cmp (xs ! i) (xs ! m) < 0))
     \<and> (\<not> eq_l \<longrightarrow> (\<exists>i. L < i \<and> i \<le> l \<and> i \<noteq> m))"

lemma meet_A_spec:
  assumes "L < m" "m < k" "k \<le> R" "R < length xs"
    and "\<forall>i. L < i \<and> i < k \<and> i \<noteq> m \<longrightarrow> cmp (xs ! i) (xs ! m) \<le> 0"
    and "\<forall>i. k \<le> i \<and> i < R \<longrightarrow> 0 < cmp (xs ! i) (xs ! m)"
    and "eq_l \<longrightarrow> (\<forall>i. L < i \<and> i < k \<and> i \<noteq> m \<longrightarrow> \<not> cmp (xs ! i) (xs ! m) < 0)"
    and "\<not> eq_l \<longrightarrow> (\<exists>i. L < i \<and> i < k \<and> i \<noteq> m)" and "eq_r \<longleftrightarrow> k = R"
  shows "\<exists>ys. meet_A xs m k = Some (ys, k - 2) \<and> perm_in (L + 1) (R - 1) xs ys \<and> split_post cmp (xs ! m) L R ys (k - 2) k eq_l eq_r"
proof -
  define ys where "ys = xs[m := xs ! (k - 1), k - 1 := xs ! m]"
  have k: "2 \<le> k" "k - 1 < length xs" "m < length xs" using assms(1-4) by auto
  have "(if k - 1 \<noteq> m then mmswap xs m (k - 1) else Some xs) = Some ys" using k by (auto simp: ys_def mmswap_some)
  then have "meet_A xs m k = Some (ys, k - 2)" using k by (simp add: meet_A_def)
  moreover have "perm_in (L + 1) (R - 1) xs ys" unfolding ys_def using assms(1-4) by (intro perm_in_swap) auto
  moreover have at: "ys ! i = (if i = k - 1 then xs ! m else if i = m then xs ! (k - 1) else xs ! i)" for i
    using k by (auto simp: ys_def nth_list_update)
  have "split_post cmp (xs ! m) L R ys (k - 2) k eq_l eq_r"
  proof -
    have "L < k - 2" if "\<not> eq_l"
    proof -
      from assms(8) that obtain i where "L < i" "i < k" "i \<noteq> m" by blast
      with assms(1,2) show ?thesis by (cases "i < m") auto
    qed
    moreover have "cmp (ys ! i) (xs ! m) \<le> 0 \<and> (eq_l \<longrightarrow> 0 \<le> cmp (ys ! i) (xs ! m))" if "L < i" "i \<le> k - 2" for i
    proof -
      define j where "j = (if i = m then k - 1 else i)"
      have "L < j" "j < k" "j \<noteq> m" "ys ! i = xs ! j" using that assms(1,2) k by (auto simp: j_def at)
      with assms(5,7) show ?thesis by (simp add: not_less)
    qed
    moreover have "0 \<le> cmp (ys ! i) (xs ! m) \<and> (eq_r \<longrightarrow> cmp (ys ! i) (xs ! m) \<le> 0)" if "k \<le> i" "i < R" for i
    proof -
      have "ys ! i = xs ! i" using that k(1) assms(2) by (auto simp: at)
      with assms(6,9) that show ?thesis by (auto intro: less_imp_le)
    qed
    moreover have "ys ! (k - 2 + 1) = xs ! m" "L \<le> k - 2" "k = k - 2 + 2" "\<not> eq_r \<longrightarrow> k < R" using k assms(1-3,9) by (auto simp: at)
    ultimately show ?thesis using assms(3) unfolding split_post_def by blast
  qed
  ultimately show ?thesis by blast
qed

lemma inv_A_swap:
  assumes inv: "inv_A cmp L R xs m l r eq_l eq_r"
    and up: "l < a" "a < r" "a \<noteq> m" "0 < cmp (xs ! a) (xs ! m)"
      "\<forall>i. l < i \<and> i < a \<and> i \<noteq> m \<longrightarrow> cmp (xs ! i) (xs ! m) \<le> 0"
      "e1 \<longleftrightarrow> eq_l \<and> (\<forall>i. l < i \<and> i < a \<and> i \<noteq> m \<longrightarrow> \<not> cmp (xs ! i) (xs ! m) < 0)"
    and down: "a < b" "b < r" "\<forall>i. b < i \<and> i < r \<longrightarrow> i \<noteq> m \<and> 0 < cmp (xs ! i) (xs ! m)"
      "b = m \<and> m' = a \<and> e' = e1
        \<or> b \<noteq> m \<and> m' = m \<and> cmp (xs ! b) (xs ! m) \<le> 0 \<and> (e' \<longleftrightarrow> e1 \<and> \<not> cmp (xs ! b) (xs ! m) < 0)"
    and ys: "ys = xs[a := xs ! b, b := xs ! a]"
  shows "inv_A cmp L R ys m' a b e' False \<and> ys ! m' = xs ! m \<and> perm_in (L + 1) (R - 1) xs ys"
proof -
  note inv' = inv [unfolded inv_A_def]
  have at: "ys ! i = (if i = b then xs ! a else if i = a then xs ! b else xs ! i)" for i
    using inv' up(2) down(1,2) by (auto simp: ys nth_list_update)
  have len: "length ys = length xs" by (simp add: ys)
  have m: "L < m'" "m' < b" "ys ! m' = xs ! m"
  proof -
    have "\<not> b < m" using down(3) inv' by blast
    then show "L < m'" "m' < b" "ys ! m' = xs ! m" using down(1,4) inv' up(1,3) by (auto simp: at)
  qed
  have low: "cmp (ys ! i) (xs ! m) \<le> 0 \<and> (e' \<longrightarrow> \<not> cmp (ys ! i) (xs ! m) < 0)" if i: "L < i" "i \<le> a" "i \<noteq> m'" for i
  proof (cases "i = a")
    case True
    then show ?thesis using down(1,4) i(3) by (auto simp: at)
  next
    case False
    have "i \<noteq> m" using i(2,3) down(1,4) by auto
    moreover have "e' \<longrightarrow> e1" using down(4) by auto
    moreover have "ys ! i = xs ! i" using False i(2) down(1) by (auto simp: at)
    moreover have "i < a" using False i(2) by simp
    ultimately show ?thesis using inv' up(5,6) i(1) by (cases "i \<le> l") auto
  qed
  have high: "0 < cmp (ys ! i) (xs ! m)" if i: "b \<le> i" "i < R" for i
  proof (cases "i = b")
    case True
    then show ?thesis using up(4) by (simp add: at)
  next
    case False
    then have "ys ! i = xs ! i" "b < i" using i(1) down(1) by (auto simp: at)
    then show ?thesis using down(3) inv' i(2) by (cases "i < r") auto
  qed
  have other: "\<exists>i. L < i \<and> i \<le> a \<and> i \<noteq> m'" if "\<not> e'"
  proof (cases "m' = a")
    case True
    then have "\<not> e1" "b = m" using down(1,4) that up(3) by auto
    have "\<exists>i. L < i \<and> i < a"
    proof (cases eq_l)
      case True
      then obtain i where "l < i" "i < a" using \<open>\<not> e1\<close> up(6) by blast
      moreover have "L \<le> l" using inv' by blast
      ultimately show ?thesis using le_less_trans by blast
    next
      case False
      then obtain i where "L < i" "i \<le> l" using inv' by blast
      then show ?thesis using up(1) le_less_trans by blast
    qed
    then obtain i where "L < i" "i < a" by blast
    then show ?thesis using True by auto
  next
    case False
    then show ?thesis using up(1) inv' by (intro exI [of _ a]) auto
  qed
  have "perm_in (L + 1) (R - 1) xs ys" unfolding ys using inv' up(1) down(1,2) by (intro perm_in_swap) auto
  moreover have "inv_A cmp L R ys m' a b e' False"
    unfolding inv_A_def m(3) len using m low high other inv' up(1) down(1,2) by (intro conjI) auto
  ultimately show ?thesis using m(3) by simp
qed

lemma split_A_spec:
  "inv_A cmp L R xs m l r eq_l eq_r \<Longrightarrow>
    \<exists>ys l' r' el er. split_A cmp xs m l r eq_l eq_r = Some (ys, l', r', el, er)
      \<and> perm_in (L + 1) (R - 1) xs ys \<and> split_post cmp (xs ! m) L R ys l' r' el er"
proof (induction "r - l" arbitrary: xs m l r eq_l eq_r rule: less_induct)
  case less
  note inv = less.prems [unfolded inv_A_def]
  have "l < r" "r < length xs" "m < length xs" using inv by auto
  from scan_up_A_spec [OF this, of cmp eq_l] obtain a e1 where up:
    "scan_up_A cmp xs m r l eq_l = Some (a, a < r, e1)" "l < a" "a \<le> r"
    "a < r \<longrightarrow> a \<noteq> m \<and> 0 < cmp (xs ! a) (xs ! m)"
    "\<forall>i. l < i \<and> i < a \<and> i \<noteq> m \<longrightarrow> cmp (xs ! i) (xs ! m) \<le> 0"
    "e1 \<longleftrightarrow> eq_l \<and> (\<forall>i. l < i \<and> i < a \<and> i \<noteq> m \<longrightarrow> \<not> cmp (xs ! i) (xs ! m) < 0)"
    by blast
  have low: "\<forall>i. L < i \<and> i < a \<and> i \<noteq> m \<longrightarrow> cmp (xs ! i) (xs ! m) \<le> 0"
    "e1 \<longrightarrow> (\<forall>i. L < i \<and> i < a \<and> i \<noteq> m \<longrightarrow> \<not> cmp (xs ! i) (xs ! m) < 0)"
    using inv up(5,6) by (meson not_le)+
  have other: "\<not> e1 \<longrightarrow> (\<exists>i. L < i \<and> i < a \<and> i \<noteq> m)"
    using inv up(2,6) by (meson le_less_trans)
  show ?case
  proof (cases "a = r")
    case True
    from meet_A_spec [of L m r R xs cmp e1 eq_r] low other inv True
    obtain ys where "meet_A xs m r = Some (ys, r - 2)" "perm_in (L + 1) (R - 1) xs ys"
      "split_post cmp (xs ! m) L R ys (r - 2) r e1 eq_r" by auto
    with True up(1) show ?thesis by (subst split_A.simps) simp
  next
    case False
    then have a: "a < r" "a \<noteq> m" "0 < cmp (xs ! a) (xs ! m)" using up(3,4) by auto
    from scan_down_A_spec [OF a(1) less_imp_le [OF \<open>r < length xs\<close>] \<open>m < length xs\<close>, of cmp e1] obtain b m' e' where down:
      "scan_down_A cmp xs m a r e1 = Some (b, m', a < b, e')" "a \<le> b" "b < r" "b = a \<longrightarrow> m' = m \<and> e' = e1"
      "a < b \<longrightarrow> b = m \<and> m' = a \<and> e' = e1
        \<or> b \<noteq> m \<and> m' = m \<and> cmp (xs ! b) (xs ! m) \<le> 0 \<and> (e' \<longleftrightarrow> e1 \<and> \<not> cmp (xs ! b) (xs ! m) < 0)"
      "\<forall>i. b < i \<and> i < r \<longrightarrow> i \<noteq> m \<and> 0 < cmp (xs ! i) (xs ! m)" by blast
    show ?thesis
    proof (cases "b = a")
      case True
      have "\<not> (a < m \<and> m < r)" using down(6) True by blast
      moreover have "m < r" using inv by blast
      ultimately have "m < a" using a(2) by simp
      have "\<forall>i. a \<le> i \<and> i < R \<longrightarrow> 0 < cmp (xs ! i) (xs ! m)"
        using down(6) inv a(3) True by (metis le_neq_implies_less not_le)
      moreover have "a < R" using a(1) inv by (meson less_le_trans)
      moreover note \<open>m < a\<close>
      ultimately obtain ys where "meet_A xs m a = Some (ys, a - 2)" "perm_in (L + 1) (R - 1) xs ys"
        "split_post cmp (xs ! m) L R ys (a - 2) a e1 False"
        using meet_A_spec [of L m a R xs cmp e1 False] low other inv by auto
      with True up(1) down(1,4) a(1) show ?thesis by (subst split_A.simps) auto
    next
      case False
      then have b: "a < b" using down(2) by simp
      define ys where "ys = xs[a := xs ! b, b := xs ! a]"
      have sw: "mmswap xs a b = Some ys" unfolding ys_def using b down(3) inv by (intro mmswap_some) auto
      have step: "inv_A cmp L R ys m' a b e' False" "ys ! m' = xs ! m" "perm_in (L + 1) (R - 1) xs ys"
        using inv_A_swap [OF less.prems up(2) a up(5,6) b down(3,6) down(5) [rule_format, OF b] ys_def] by auto
      have "b - a < r - l" using b down(3) up(2) by simp
      from less.hyps [OF this step(1)] obtain zs l' r' el er where
        "split_A cmp ys m' a b e' False = Some (zs, l', r', el, er)" "perm_in (L + 1) (R - 1) ys zs"
        "split_post cmp (xs ! m) L R zs l' r' el er" unfolding step(2) by blast
      with perm_in_trans [OF step(3)] up(1) down(1) a(1) b sw show ?thesis by (subst split_A.simps) auto
    qed
  qed
qed

section \<open>Splitting of type B\<close>

lemma split_prev:
  "k < r \<Longrightarrow> (\<forall>i. k < i \<and> i < Suc r \<and> i \<noteq> m \<longrightarrow> P i)
    \<longleftrightarrow> (r \<noteq> m \<longrightarrow> P r) \<and> (\<forall>i. k < i \<and> i < r \<and> i \<noteq> m \<longrightarrow> P i)"
  by (metis less_Suc_eq)

lemma scan_down_B_spec:
  "l < r \<Longrightarrow> r \<le> length xs \<Longrightarrow> m < length xs \<Longrightarrow>
    \<exists>r'. scan_down_B cmp xs m l r e
        = Some (r', l < r', e \<and> (\<forall>i. r' < i \<and> i < r \<and> i \<noteq> m \<longrightarrow> \<not> 0 < cmp (xs ! i) (xs ! m)))
      \<and> l \<le> r' \<and> r' < r \<and> (l < r' \<longrightarrow> r' \<noteq> m \<and> cmp (xs ! r') (xs ! m) < 0)
      \<and> (\<forall>i. r' < i \<and> i < r \<and> i \<noteq> m \<longrightarrow> 0 \<le> cmp (xs ! i) (xs ! m))"
proof (induction r arbitrary: e)
  case (Suc r)
  define t where "t = cmp (xs ! r) (xs ! m)"
  define e1 where "e1 = (if r = m then e else e \<and> \<not> 0 < t)"
  have c: "cmp_at cmp xs r m = Some t" unfolding t_def using Suc.prems by (intro cmp_at_some) auto
  show ?case
  proof (cases "l = r \<or> r \<noteq> m \<and> t < 0")
    case True
    then have "scan_down_B cmp xs m l (Suc r) e = Some (r, l < r, e)" using c Suc.prems(1) by (subst scan_down_B.simps) auto
    then show ?thesis using True Suc.prems by (intro exI [of _ r]) (auto simp: t_def)
  next
    case False
    then have s: "scan_down_B cmp xs m l (Suc r) e = scan_down_B cmp xs m l r e1"
      using c by (subst scan_down_B.simps) (auto simp: e1_def)
    from False Suc.prems have "l < r" "r \<le> length xs" "m < length xs" by auto
    from Suc.IH [OF this, of e1] obtain r' where ih: "scan_down_B cmp xs m l r e1
        = Some (r', l < r', e1 \<and> (\<forall>i. r' < i \<and> i < r \<and> i \<noteq> m \<longrightarrow> \<not> 0 < cmp (xs ! i) (xs ! m)))" "l \<le> r'" "r' < r"
      "l < r' \<longrightarrow> r' \<noteq> m \<and> cmp (xs ! r') (xs ! m) < 0" "\<forall>i. r' < i \<and> i < r \<and> i \<noteq> m \<longrightarrow> 0 \<le> cmp (xs ! i) (xs ! m)"
      by blast
    note split = split_prev [OF ih(3)]
    have "\<forall>i. r' < i \<and> i < Suc r \<and> i \<noteq> m \<longrightarrow> 0 \<le> cmp (xs ! i) (xs ! m)"
      unfolding split using ih(5) False by (auto simp: t_def)
    moreover have iff: "(e1 \<and> (\<forall>i. r' < i \<and> i < r \<and> i \<noteq> m \<longrightarrow> \<not> 0 < cmp (xs ! i) (xs ! m)))
        = (e \<and> (\<forall>i. r' < i \<and> i < Suc r \<and> i \<noteq> m \<longrightarrow> \<not> 0 < cmp (xs ! i) (xs ! m)))"
      unfolding split e1_def t_def by auto
    moreover have "r' < Suc r" using ih(3) by simp
    ultimately show ?thesis using ih(2,4) unfolding s ih(1) iff by blast
  qed
qed simp

lemma scan_up_B_spec:
  "l < r \<Longrightarrow> r < length xs \<Longrightarrow> m < length xs \<Longrightarrow>
    \<exists>l' m' e'. scan_up_B cmp xs m r l e = Some (l', m', l' < r, e') \<and> l < l' \<and> l' \<le> r
      \<and> (l' = r \<longrightarrow> m' = m \<and> e' = e)
      \<and> (l' < r \<longrightarrow> l' = m \<and> m' = r \<and> e' = e
            \<or> l' \<noteq> m \<and> m' = m \<and> 0 \<le> cmp (xs ! l') (xs ! m) \<and> (e' \<longleftrightarrow> e \<and> \<not> 0 < cmp (xs ! l') (xs ! m)))
      \<and> (\<forall>i. l < i \<and> i < l' \<longrightarrow> i \<noteq> m \<and> cmp (xs ! i) (xs ! m) < 0)"
proof (induction "r - l" arbitrary: l rule: less_induct)
  case less
  define t where "t = cmp (xs ! (l + 1)) (xs ! m)"
  show ?case
  proof (cases "l + 1 = r \<or> l + 1 = m \<or> 0 \<le> cmp (xs ! (l + 1)) (xs ! m)")
    case True
    have c: "l + 1 \<noteq> r \<Longrightarrow> cmp_at cmp xs (l + 1) m = Some t" unfolding t_def using less.prems by (intro cmp_at_some) auto
    have "scan_up_B cmp xs m r l e = Some (if l + 1 = r then (l + 1, m, False, e) else if l + 1 = m then (l + 1, r, True, e)
        else (l + 1, m, True, e \<and> \<not> 0 < t))"
      using c True by (subst scan_up_B.simps) (auto simp: t_def)
    then show ?thesis using True less.prems
      by (intro exI [of _ "l + 1"] exI [of _ "if l + 1 \<noteq> r \<and> l + 1 = m then r else m"]
          exI [of _ "if l + 1 = r \<or> l + 1 = m then e else e \<and> \<not> 0 < t"])
        (auto simp: t_def)
  next
    case False
    then have c: "cmp_at cmp xs (l + 1) m = Some t" unfolding t_def using less.prems by (intro cmp_at_some) auto
    have s: "scan_up_B cmp xs m r l e = scan_up_B cmp xs m r (l + 1) e" using c False by (subst scan_up_B.simps) (auto simp: t_def)
    have "r - (l + 1) < r - l" "l + 1 < r" using less.prems False by auto
    from less.hyps [OF this less.prems(2,3)] obtain l' m' e' where ih: "scan_up_B cmp xs m r (l + 1) e = Some (l', m', l' < r, e')"
      "l + 1 < l'" "l' \<le> r" "l' = r \<longrightarrow> m' = m \<and> e' = e"
      "l' < r \<longrightarrow> l' = m \<and> m' = r \<and> e' = e
         \<or> l' \<noteq> m \<and> m' = m \<and> 0 \<le> cmp (xs ! l') (xs ! m) \<and> (e' \<longleftrightarrow> e \<and> \<not> 0 < cmp (xs ! l') (xs ! m))"
      "\<forall>i. l + 1 < i \<and> i < l' \<longrightarrow> i \<noteq> m \<and> cmp (xs ! i) (xs ! m) < 0"
      by blast
    have "\<forall>i. l < i \<and> i < l' \<longrightarrow> i \<noteq> m \<and> cmp (xs ! i) (xs ! m) < 0"
      using ih(6) False by (metis Suc_eq_plus1 Suc_lessI not_le)
    moreover have "l < l'" using ih(2) by simp
    ultimately show ?thesis using ih(3-5) unfolding s ih(1) by blast
  qed
qed

definition inv_B ::
  "('a \<Rightarrow> 'a \<Rightarrow> int) \<Rightarrow> nat \<Rightarrow> nat \<Rightarrow> 'a list \<Rightarrow> nat \<Rightarrow> nat \<Rightarrow> nat \<Rightarrow> bool \<Rightarrow> bool \<Rightarrow> bool" where
  "inv_B cmp L R xs m l r eq_l eq_r \<longleftrightarrow>
     L \<le> l \<and> l < r \<and> r \<le> R \<and> R < length xs \<and> l < m \<and> m < R \<and> (eq_l \<longleftrightarrow> l = L)
     \<and> (\<forall>i. r \<le> i \<and> i < R \<and> i \<noteq> m \<longrightarrow> 0 \<le> cmp (xs ! i) (xs ! m))
     \<and> (\<forall>i. L < i \<and> i \<le> l \<longrightarrow> cmp (xs ! i) (xs ! m) < 0)
     \<and> (eq_r \<longrightarrow> (\<forall>i. r \<le> i \<and> i < R \<and> i \<noteq> m \<longrightarrow> \<not> 0 < cmp (xs ! i) (xs ! m)))
     \<and> (\<not> eq_r \<longrightarrow> (\<exists>i. r \<le> i \<and> i < R \<and> i \<noteq> m))"

lemma meet_B_spec:
  assumes "m < R" "k < m" "L \<le> k" "R < length xs"
    and "\<forall>i. k < i \<and> i < R \<and> i \<noteq> m \<longrightarrow> 0 \<le> cmp (xs ! i) (xs ! m)"
    and "\<forall>i. L < i \<and> i \<le> k \<longrightarrow> cmp (xs ! i) (xs ! m) < 0"
    and "eq_r \<longrightarrow> (\<forall>i. k < i \<and> i < R \<and> i \<noteq> m \<longrightarrow> \<not> 0 < cmp (xs ! i) (xs ! m))"
    and "\<not> eq_r \<longrightarrow> (\<exists>i. k < i \<and> i < R \<and> i \<noteq> m)" and "eq_l \<longleftrightarrow> k = L"
  shows "\<exists>ys. meet_B xs m k = Some (ys, k + 2) \<and> perm_in (L + 1) (R - 1) xs ys \<and> split_post cmp (xs ! m) L R ys k (k + 2) eq_l eq_r"
proof -
  define ys where "ys = xs[k + 1 := xs ! m, m := xs ! (k + 1)]"
  have k: "k + 1 < length xs" "m < length xs" "k + 1 \<le> m" using assms(1-4) by auto
  have "(if k + 1 \<noteq> m then mmswap xs (k + 1) m else Some xs) = Some ys" using k by (auto simp: ys_def mmswap_some)
  then have "meet_B xs m k = Some (ys, k + 2)" by (simp add: meet_B_def)
  moreover have "perm_in (L + 1) (R - 1) xs ys" unfolding ys_def using assms(1-4) by (intro perm_in_swap) auto
  moreover have at: "ys ! i = (if i = k + 1 then xs ! m else if i = m then xs ! (k + 1) else xs ! i)" for i
    using k by (auto simp: ys_def nth_list_update)
  have "split_post cmp (xs ! m) L R ys k (k + 2) eq_l eq_r"
  proof -
    have "k + 2 < R" if "\<not> eq_r"
    proof -
      from assms(8) that obtain i where "k < i" "i < R" "i \<noteq> m" by blast
      with assms(1,2) show ?thesis by (cases "i < m") auto
    qed
    moreover have "0 \<le> cmp (ys ! i) (xs ! m) \<and> (eq_r \<longrightarrow> cmp (ys ! i) (xs ! m) \<le> 0)" if "k + 2 \<le> i" "i < R" for i
    proof -
      define j where "j = (if i = m then k + 1 else i)"
      have "k < j" "j < R" "j \<noteq> m" "ys ! i = xs ! j" using that assms(1,2) k by (auto simp: j_def at)
      with assms(5,7) show ?thesis by (simp add: not_less)
    qed
    moreover have "cmp (ys ! i) (xs ! m) \<le> 0 \<and> (eq_l \<longrightarrow> 0 \<le> cmp (ys ! i) (xs ! m))" if "L < i" "i \<le> k" for i
    proof -
      have "ys ! i = xs ! i" using that assms(2) by (auto simp: at)
      with assms(6,9) that show ?thesis by (auto intro: less_imp_le)
    qed
    moreover have "ys ! (k + 1) = xs ! m" "k + 2 \<le> R" "\<not> eq_l \<longrightarrow> L < k" using k assms(1-3,9) by (auto simp: at)
    ultimately show ?thesis using assms(3) unfolding split_post_def by blast
  qed
  ultimately show ?thesis by blast
qed

lemma inv_B_swap:
  assumes inv: "inv_B cmp L R xs m l r eq_l eq_r"
    and down: "l < b" "b < r" "b \<noteq> m" "cmp (xs ! b) (xs ! m) < 0"
      "\<forall>i. b < i \<and> i < r \<and> i \<noteq> m \<longrightarrow> 0 \<le> cmp (xs ! i) (xs ! m)"
      "e1 \<longleftrightarrow> eq_r \<and> (\<forall>i. b < i \<and> i < r \<and> i \<noteq> m \<longrightarrow> \<not> 0 < cmp (xs ! i) (xs ! m))"
    and up: "l < a" "a < b" "\<forall>i. l < i \<and> i < a \<longrightarrow> i \<noteq> m \<and> cmp (xs ! i) (xs ! m) < 0"
      "a = m \<and> m' = b \<and> e' = e1
        \<or> a \<noteq> m \<and> m' = m \<and> 0 \<le> cmp (xs ! a) (xs ! m) \<and> (e' \<longleftrightarrow> e1 \<and> \<not> 0 < cmp (xs ! a) (xs ! m))"
    and ys: "ys = xs[a := xs ! b, b := xs ! a]"
  shows "inv_B cmp L R ys m' a b False e' \<and> ys ! m' = xs ! m \<and> perm_in (L + 1) (R - 1) xs ys"
proof -
  note inv' = inv [unfolded inv_B_def]
  have at: "ys ! i = (if i = b then xs ! a else if i = a then xs ! b else xs ! i)" for i
    using inv' down(2) up(1,2) by (auto simp: ys nth_list_update)
  have len: "length ys = length xs" by (simp add: ys)
  have m: "a < m'" "m' < R" "ys ! m' = xs ! m"
  proof -
    have "\<not> m < a" using up(3) inv' by blast
    then show "a < m'" "m' < R" "ys ! m' = xs ! m" using up(2,4) inv' down(2,3) by (auto simp: at)
  qed
  have high: "0 \<le> cmp (ys ! i) (xs ! m) \<and> (e' \<longrightarrow> \<not> 0 < cmp (ys ! i) (xs ! m))" if i: "b \<le> i" "i < R" "i \<noteq> m'" for i
  proof (cases "i = b")
    case True
    then show ?thesis using up(2,4) i(3) by (auto simp: at)
  next
    case False
    have "i \<noteq> m" using i(1,3) up(2,4) by auto
    moreover have "e' \<longrightarrow> e1" using up(4) by auto
    moreover have "ys ! i = xs ! i" using False i(1) up(2) by (auto simp: at)
    moreover have "b < i" using False i(1) by simp
    ultimately show ?thesis using inv' down(5,6) i(2) by (cases "r \<le> i") auto
  qed
  have low: "cmp (ys ! i) (xs ! m) < 0" if i: "L < i" "i \<le> a" for i
  proof (cases "i = a")
    case True
    then show ?thesis using down(4) up(2) by (simp add: at)
  next
    case False
    then have "ys ! i = xs ! i" "i < a" using i(2) up(2) by (auto simp: at)
    then show ?thesis using up(3) inv' i(1) by (cases "i \<le> l") auto
  qed
  have other: "\<exists>i. b \<le> i \<and> i < R \<and> i \<noteq> m'" if "\<not> e'"
  proof (cases "m' = b")
    case True
    then have "\<not> e1" "a = m" using up(2,4) that down(3) by auto
    have "\<exists>i. b < i \<and> i < R"
    proof (cases eq_r)
      case True
      then obtain i where "b < i" "i < r" using \<open>\<not> e1\<close> down(6) by blast
      moreover have "r \<le> R" using inv' by blast
      ultimately show ?thesis using less_le_trans by blast
    next
      case False
      then obtain i where "r \<le> i" "i < R" using inv' by blast
      then show ?thesis using down(2) less_le_trans by blast
    qed
    then obtain i where "b < i" "i < R" by blast
    then show ?thesis using True by (intro exI [of _ i]) auto
  next
    case False
    then show ?thesis using down(2) inv' by (intro exI [of _ b]) auto
  qed
  have "perm_in (L + 1) (R - 1) xs ys" unfolding ys using inv' down(2) up(1,2) by (intro perm_in_swap) auto
  moreover have "inv_B cmp L R ys m' a b False e'"
    unfolding inv_B_def m(3) len using m low high other inv' down(2) up(1,2) by (intro conjI) auto
  ultimately show ?thesis using m(3) by simp
qed

lemma split_B_spec:
  "inv_B cmp L R xs m l r eq_l eq_r \<Longrightarrow>
    \<exists>ys l' r' el er. split_B cmp xs m l r eq_l eq_r = Some (ys, l', r', el, er)
      \<and> perm_in (L + 1) (R - 1) xs ys \<and> split_post cmp (xs ! m) L R ys l' r' el er"
proof (induction "r - l" arbitrary: xs m l r eq_l eq_r rule: less_induct)
  case less
  note inv = less.prems [unfolded inv_B_def]
  have "l < r" "r < length xs" "m < length xs" using inv by auto
  from scan_down_B_spec [OF this(1) less_imp_le [OF this(2)] this(3), of cmp eq_r] obtain b e1 where down:
    "scan_down_B cmp xs m l r eq_r = Some (b, l < b, e1)" "l \<le> b" "b < r"
    "l < b \<longrightarrow> b \<noteq> m \<and> cmp (xs ! b) (xs ! m) < 0"
    "\<forall>i. b < i \<and> i < r \<and> i \<noteq> m \<longrightarrow> 0 \<le> cmp (xs ! i) (xs ! m)"
    "e1 \<longleftrightarrow> eq_r \<and> (\<forall>i. b < i \<and> i < r \<and> i \<noteq> m \<longrightarrow> \<not> 0 < cmp (xs ! i) (xs ! m))"
    by blast
  have high: "\<forall>i. b < i \<and> i < R \<and> i \<noteq> m \<longrightarrow> 0 \<le> cmp (xs ! i) (xs ! m)"
    "e1 \<longrightarrow> (\<forall>i. b < i \<and> i < R \<and> i \<noteq> m \<longrightarrow> \<not> 0 < cmp (xs ! i) (xs ! m))"
    using inv down(5,6) by (meson not_le)+
  have other: "\<not> e1 \<longrightarrow> (\<exists>i. b < i \<and> i < R \<and> i \<noteq> m)"
    using inv down(3,6) by (meson less_le_trans)
  show ?case
  proof (cases "b = l")
    case True
    from meet_B_spec [of m R l L xs cmp e1 eq_l] high other inv True
    obtain ys where "meet_B xs m l = Some (ys, l + 2)" "perm_in (L + 1) (R - 1) xs ys"
      "split_post cmp (xs ! m) L R ys l (l + 2) eq_l e1" by auto
    with True down(1) show ?thesis by (subst split_B.simps) auto
  next
    case False
    then have b: "l < b" "b \<noteq> m" "cmp (xs ! b) (xs ! m) < 0" using down(2,4) by auto
    have "b < length xs" using down(3) \<open>r < length xs\<close> by simp
    from scan_up_B_spec [OF b(1) this \<open>m < length xs\<close>, of cmp e1] obtain a m' e' where up:
      "scan_up_B cmp xs m b l e1 = Some (a, m', a < b, e')" "l < a" "a \<le> b" "a = b \<longrightarrow> m' = m \<and> e' = e1"
      "a < b \<longrightarrow> a = m \<and> m' = b \<and> e' = e1
        \<or> a \<noteq> m \<and> m' = m \<and> 0 \<le> cmp (xs ! a) (xs ! m) \<and> (e' \<longleftrightarrow> e1 \<and> \<not> 0 < cmp (xs ! a) (xs ! m))"
      "\<forall>i. l < i \<and> i < a \<longrightarrow> i \<noteq> m \<and> cmp (xs ! i) (xs ! m) < 0" by blast
    show ?thesis
    proof (cases "a = b")
      case True
      have "\<not> (l < m \<and> m < b)" using up(6) True by blast
      moreover have "l < m" using inv by blast
      ultimately have "b < m" using b(2) by simp
      have "\<forall>i. L < i \<and> i \<le> b \<longrightarrow> cmp (xs ! i) (xs ! m) < 0"
        using up(6) inv b(3) True by (metis le_neq_implies_less not_le)
      moreover have "L < b" using b(1) inv by (meson le_less_trans)
      moreover note \<open>b < m\<close>
      ultimately obtain ys where "meet_B xs m b = Some (ys, b + 2)" "perm_in (L + 1) (R - 1) xs ys"
        "split_post cmp (xs ! m) L R ys b (b + 2) False e1"
        using meet_B_spec [of m R b L xs cmp e1 False] high other inv by auto
      with True down(1) up(1,4) b(1) show ?thesis by (subst split_B.simps) auto
    next
      case False
      then have a: "a < b" using up(3) by simp
      define ys where "ys = xs[a := xs ! b, b := xs ! a]"
      have sw: "mmswap xs a b = Some ys" unfolding ys_def using a \<open>b < length xs\<close> by (intro mmswap_some) auto
      have step: "inv_B cmp L R ys m' a b False e'" "ys ! m' = xs ! m" "perm_in (L + 1) (R - 1) xs ys"
        using inv_B_swap [OF less.prems b(1) down(3) b(2,3) down(5,6) up(2) a up(6) up(5) [rule_format, OF a] ys_def] by auto
      have "b - a < r - l" using a down(3) up(2) by simp
      from less.hyps [OF this step(1)] obtain zs l' r' el er where
        "split_B cmp ys m' a b False e' = Some (zs, l', r', el, er)" "perm_in (L + 1) (R - 1) ys zs"
        "split_post cmp (xs ! m) L R zs l' r' el er" unfolding step(2) by blast
      with perm_in_trans [OF step(3)] down(1) up(1) a b(1) sw show ?thesis by (subst split_B.simps) auto
    qed
  qed
qed

end
