(* ===== verification/QsortSorts.thy ===== *)
theory QsortSorts
  imports QsortSplit
begin

text \<open>
  \<open>ruby_qsort\<close> ends on every array with every comparison function, in bounds and within its stack of 32 regions, with a permutation of
  the array; with a comparison that orders the elements, the result is sorted.
\<close>

section \<open>Comparisons\<close>

definition total_cmp :: "('a \<Rightarrow> 'a \<Rightarrow> int) \<Rightarrow> bool" where
  "total_cmp cmp \<longleftrightarrow>
     (\<forall>x y. sgn (cmp x y) = - sgn (cmp y x)) \<and> (\<forall>x y z. cmp x y \<le> 0 \<and> cmp y z \<le> 0 \<longrightarrow> cmp x z \<le> 0)"

lemma total_cmp_flip:
  assumes "total_cmp cmp"
  shows "0 \<le> cmp x y \<longleftrightarrow> cmp y x \<le> 0" "0 < cmp x y \<longleftrightarrow> cmp y x < 0" "cmp x x = 0"
proof -
  have f: "(0 \<le> a \<longleftrightarrow> b \<le> 0) \<and> (0 < a \<longleftrightarrow> b < 0)" if "sgn a = - sgn b" for a b :: int
    using that by (auto simp: sgn_if split: if_splits)
  have s: "sgn (cmp x y) = - sgn (cmp y x)" for x y using assms unfolding total_cmp_def by blast
  show "0 \<le> cmp x y \<longleftrightarrow> cmp y x \<le> 0" "0 < cmp x y \<longleftrightarrow> cmp y x < 0" using f [OF s [of x y]] by simp_all
  show "cmp x x = 0" using f [OF s [of x x]] by linarith
qed

lemma total_cmp_trans: "total_cmp cmp \<Longrightarrow> cmp x y \<le> 0 \<Longrightarrow> cmp y z \<le> 0 \<Longrightarrow> cmp x z \<le> 0"
  unfolding total_cmp_def by blast

text \<open>A region in order.\<close>

definition in_order :: "('a \<Rightarrow> 'a \<Rightarrow> int) \<Rightarrow> 'a list \<Rightarrow> nat \<Rightarrow> nat \<Rightarrow> bool" where
  "in_order cmp xs L R \<longleftrightarrow> (\<forall>i j. L \<le> i \<and> i < j \<and> j \<le> R \<longrightarrow> cmp (xs ! i) (xs ! j) \<le> 0)"

lemma in_order_steps:
  assumes "total_cmp cmp" and step: "\<forall>i. L \<le> i \<and> i < R \<longrightarrow> cmp (xs ! i) (xs ! (i + 1)) \<le> 0"
  shows "in_order cmp xs L R"
proof -
  have "cmp (xs ! i) (xs ! j) \<le> 0" if "L \<le> i" "i < j" "j \<le> R" for i j
    using that(2,3)
  proof (induction j)
    case (Suc j)
    have s: "cmp (xs ! j) (xs ! Suc j) \<le> 0" using step Suc.prems that(1) by auto
    show ?case
    proof (cases "i = j")
      case False
      then have "cmp (xs ! i) (xs ! j) \<le> 0" using Suc by auto
      then show ?thesis using total_cmp_trans [OF assms(1) _ s] by blast
    qed (use s in simp)
  qed simp
  then show ?thesis by (simp add: in_order_def)
qed

lemma in_order_equal:
  assumes "total_cmp cmp" and "\<forall>i. L \<le> i \<and> i \<le> R \<longrightarrow> cmp (xs ! i) p \<le> 0 \<and> 0 \<le> cmp (xs ! i) p"
  shows "in_order cmp xs L R"
  unfolding in_order_def
proof (intro allI impI)
  fix i j assume "L \<le> i \<and> i < j \<and> j \<le> R"
  then have "cmp (xs ! i) p \<le> 0" "cmp p (xs ! j) \<le> 0"
    using assms(2) by (auto simp: total_cmp_flip(1) [OF assms(1), symmetric])
  then show "cmp (xs ! i) (xs ! j) \<le> 0" by (rule total_cmp_trans [OF assms(1)])
qed

section \<open>The median and the choice of a split\<close>

lemma med3_spec:
  "a < length xs \<Longrightarrow> b < length xs \<Longrightarrow> c < length xs \<Longrightarrow>
    \<exists>m. med3 cmp xs a b c = Some m \<and> (m = a \<or> m = b \<or> m = c)"
  by (simp add: med3_def cmp_at_some)

lemma median_spec:
  assumes "L + 1 < R" and "R < length xs"
  shows "\<exists>m. median cmp xs L R = Some m \<and> L < m \<and> m < R"
proof -
  define t where "t = R - L + 1"
  define m where "m = L + t div 2"
  have t: "3 \<le> t" "R = L + t - 1" using assms(1) by (auto simp: t_def)
  have m: "L < m" "m < R" using t by (auto simp: m_def)
  show ?thesis
  proof (cases "60 \<le> t")
    case False
    then show ?thesis using m by (simp add: median_def Let_def m_def t_def)
  next
    case big: True
    show ?thesis
    proof (cases "200 \<le> t")
      case True
      define s where "s = t div 8"
      have s: "0 < s" "m + s + s + s < R" "L + s + s + s < R" using t True by (auto simp: s_def m_def)
      obtain m1 where m1: "med3 cmp xs (L + s) (L + s + s) (L + s + s + s) = Some m1" "L < m1" "m1 < R"
        using med3_spec [of "L + s" xs "L + s + s" "L + s + s + s" cmp] s assms by force
      obtain m3 where m3: "med3 cmp xs (m + s) (m + s + s) (m + s + s + s) = Some m3" "L < m3" "m3 < R"
        using med3_spec [of "m + s" xs "m + s + s" "m + s + s + s" cmp] s assms m by force
      have "median cmp xs L R = med3 cmp xs m1 m m3"
        using True m1(1) m3(1) unfolding median_def Let_def t_def [symmetric] s_def [symmetric] m_def [symmetric] by simp
      then show ?thesis using med3_spec [of m1 xs m m3 cmp] m1 m3 m assms(2) by force
    next
      case False
      define s where "s = t div 4"
      have s: "0 < s" "m + s < R" "L + s < R" using t big by (auto simp: s_def m_def)
      have "median cmp xs L R = med3 cmp xs (L + s) m (m + s)"
        using big False unfolding median_def Let_def t_def [symmetric] s_def [symmetric] m_def [symmetric] by simp
      then show ?thesis using med3_spec [of "L + s" xs m "m + s" cmp] s m assms(2) by force
    qed
  qed
qed

lemma split_first: "p < r \<Longrightarrow> (\<forall>i. p \<le> i \<and> i < r \<longrightarrow> P i) \<longleftrightarrow> P p \<and> (\<forall>i. p + 1 \<le> i \<and> i < r \<longrightarrow> P i)" for p r :: nat
proof -
  have h: "p \<le> i \<longleftrightarrow> i = p \<or> p + 1 \<le> i" for i by auto
  show "p < r \<Longrightarrow> ?thesis" unfolding h by auto
qed

lemma ascending_spec:
  "p \<le> r \<Longrightarrow> r < length xs \<Longrightarrow> ascending cmp xs p r = Some (\<forall>i. p \<le> i \<and> i < r \<longrightarrow> cmp (xs ! i) (xs ! (i + 1)) \<le> 0)"
proof (induction "r - p" arbitrary: p rule: less_induct)
  case less
  show ?case
  proof (cases "p < r")
    case True
    have ih: "ascending cmp xs (p + 1) r = Some (\<forall>i. p + 1 \<le> i \<and> i < r \<longrightarrow> cmp (xs ! i) (xs ! (i + 1)) \<le> 0)"
      using True less.prems by (intro less.hyps) auto
    have "cmp_at cmp xs p (p + 1) = Some (cmp (xs ! p) (xs ! (p + 1)))"
      using True less.prems by (intro cmp_at_some) auto
    then show ?thesis using ih unfolding split_first [OF True] by (subst ascending.simps) (simp add: True not_less)
  qed (subst ascending.simps, use less.prems in auto)
qed

lemma descending_spec:
  "p \<le> r \<Longrightarrow> r < length xs \<Longrightarrow> descending cmp xs p r = Some (\<forall>i. p \<le> i \<and> i < r \<longrightarrow> 0 \<le> cmp (xs ! i) (xs ! (i + 1)))"
proof (induction "r - p" arbitrary: p rule: less_induct)
  case less
  show ?case
  proof (cases "p < r")
    case True
    have ih: "descending cmp xs (p + 1) r = Some (\<forall>i. p + 1 \<le> i \<and> i < r \<longrightarrow> 0 \<le> cmp (xs ! i) (xs ! (i + 1)))"
      using True less.prems by (intro less.hyps) auto
    have "cmp_at cmp xs p (p + 1) = Some (cmp (xs ! p) (xs ! (p + 1)))"
      using True less.prems by (intro cmp_at_some) auto
    then show ?thesis using ih unfolding split_first [OF True] by (subst descending.simps) (simp add: True not_less)
  qed (subst descending.simps, use less.prems in auto)
qed

lemma reverse_spec:
  "l \<le> r + 1 \<Longrightarrow> r < length xs \<Longrightarrow>
    \<exists>ys. reverse xs l r = Some ys \<and> perm_in l r xs ys \<and> (\<forall>i. l \<le> i \<and> i \<le> r \<longrightarrow> ys ! i = xs ! (l + r - i))"
proof (induction "r + 1 - l" arbitrary: xs l r rule: less_induct)
  case less
  show ?case
  proof (cases "l < r")
    case True
    define ys where "ys = xs[l := xs ! r, r := xs ! l]"
    have sw: "mmswap xs l r = Some ys" "perm_in l r xs ys" unfolding ys_def
      using True less.prems by (auto intro!: mmswap_some perm_in_swap)
    have at: "ys ! i = (if i = r then xs ! l else if i = l then xs ! r else xs ! i)" for i
      using True less.prems by (auto simp: ys_def nth_list_update)
    have "r - 1 + 1 - (l + 1) < r + 1 - l" "l + 1 \<le> r - 1 + 1" "r - 1 < length ys" using True less.prems by (auto simp: ys_def)
    from less.hyps [OF this] obtain zs where zs: "reverse ys (l + 1) (r - 1) = Some zs" "perm_in (l + 1) (r - 1) ys zs"
      "\<forall>i. l + 1 \<le> i \<and> i \<le> r - 1 \<longrightarrow> zs ! i = ys ! (l + 1 + (r - 1) - i)" by blast
    have "perm_in l r xs zs" by (rule perm_in_trans [OF sw(2) perm_in_wider [OF zs(2)]]) auto
    moreover have "zs ! i = xs ! (l + r - i)" if "l \<le> i" "i \<le> r" for i
    proof (cases "l < i \<and> i < r")
      case True
      then have "zs ! i = ys ! (l + r - i)" using zs(3) by (auto simp: Suc_le_eq)
      then show ?thesis using True by (auto simp: at)
    next
      case False
      then have i: "i = l \<or> i = r" "i < l + 1 \<or> r - 1 < i" using that True by auto
      then have "zs ! i = ys ! i" using zs(2) unfolding perm_in_def by blast
      then show ?thesis using i(1) True by (auto simp: at)
    qed
    ultimately show ?thesis using zs(1) sw(1) True by (subst reverse.simps) auto
  next
    case False
    then have "l \<le> i \<and> i \<le> r \<Longrightarrow> l + r - i = i" for i by auto
    then show ?thesis using False by (subst reverse.simps) auto
  qed
qed

text \<open>What the choice of a split guarantees.\<close>

definition choice_ok :: "('a \<Rightarrow> 'a \<Rightarrow> int) \<Rightarrow> 'a list \<Rightarrow> nat \<Rightarrow> nat \<Rightarrow> nat \<Rightarrow> 'a split \<Rightarrow> bool" where
  "choice_ok cmp xs L m R s \<longleftrightarrow>
     (case s of
        Sorted ys \<Rightarrow> perm_in L R xs ys \<and> (total_cmp cmp \<longrightarrow> in_order cmp ys L R)
      | SplitA ys k \<Rightarrow> k = m \<and> perm_in L R xs ys
          \<and> (total_cmp cmp \<longrightarrow> cmp (ys ! L) (ys ! m) \<le> 0 \<and> cmp (ys ! m) (ys ! R) \<le> 0)
      | SplitB ys k \<Rightarrow> k = m \<and> perm_in L R xs ys
          \<and> (total_cmp cmp \<longrightarrow> cmp (ys ! L) (ys ! m) \<le> 0 \<and> cmp (ys ! m) (ys ! R) \<le> 0))"

lemma equal_run_spec:
  assumes "L < m" "m < R" "R < length xs" and ends: "cmp (xs ! L) (xs ! m) = 0" "cmp (xs ! m) (xs ! R) = 0"
  shows "L \<le> l \<Longrightarrow> l < R \<Longrightarrow> \<forall>i. L < i \<and> i \<le> l \<and> i \<noteq> m \<longrightarrow> cmp (xs ! i) (xs ! m) = 0 \<Longrightarrow>
    \<exists>s. equal_run cmp xs L m R l = Some s \<and> choice_ok cmp xs L m R s"
proof (induction "R - l" arbitrary: l rule: less_induct)
  case less
  define t where "t = cmp (xs ! (l + 1)) (xs ! m)"
  consider (met) "l + 1 = R" | (pass) "l + 1 < R" "l + 1 = m \<or> t = 0" | (greater) "l + 1 < R" "l + 1 \<noteq> m" "0 < t"
    | (smaller) "l + 1 < R" "l + 1 \<noteq> m" "t < 0"
    using less.prems by linarith
  then show ?case
  proof cases
    case met
    have "cmp (xs ! i) (xs ! m) \<le> 0 \<and> 0 \<le> cmp (xs ! i) (xs ! m)" if "total_cmp cmp" "L \<le> i \<and> i \<le> R" for i
    proof -
      have z: "cmp (xs ! R) (xs ! m) \<le> 0" "0 \<le> cmp (xs ! R) (xs ! m)" "cmp (xs ! m) (xs ! m) = 0"
        using ends(2) total_cmp_flip(1,2) [OF that(1), of "xs ! R" "xs ! m"] total_cmp_flip(1) [OF that(1), of "xs ! m" "xs ! R"]
          total_cmp_flip(3) [OF that(1)] by auto
      have "i = L \<or> i = R \<or> i = m \<or> L < i \<and> i \<le> l \<and> i \<noteq> m" using that(2) met by auto
      then show ?thesis using z ends(1) less.prems(3) by (elim disjE) simp_all
    qed
    then have "total_cmp cmp \<longrightarrow> in_order cmp xs L R" by (blast intro: in_order_equal)
    then show ?thesis using met by (subst equal_run.simps) (simp add: choice_ok_def)
  next
    case pass
    have "cmp_at cmp xs (l + 1) m = Some t" unfolding t_def using pass(1) assms by (intro cmp_at_some) auto
    then have "equal_run cmp xs L m R l = equal_run cmp xs L m R (l + 1)" using pass by (subst equal_run.simps) auto
    moreover have "\<exists>s. equal_run cmp xs L m R (l + 1) = Some s \<and> choice_ok cmp xs L m R s"
    proof (rule less.hyps)
      show "\<forall>i. L < i \<and> i \<le> l + 1 \<and> i \<noteq> m \<longrightarrow> cmp (xs ! i) (xs ! m) = 0"
        using less.prems(3) pass(2) by (metis Suc_eq_plus1 le_SucE t_def)
    qed (use less.prems pass in auto)
    ultimately show ?thesis by simp
  next
    case greater
    define ys where "ys = xs[l + 1 := xs ! R, R := xs ! (l + 1)]"
    have at: "ys ! i = (if i = R then xs ! (l + 1) else if i = l + 1 then xs ! R else xs ! i)" for i
      using greater assms by (auto simp: ys_def nth_list_update)
    have "cmp_at cmp xs (l + 1) m = Some t" unfolding t_def using greater(1) assms by (intro cmp_at_some) auto
    moreover have "mmswap xs (l + 1) R = Some ys" unfolding ys_def using greater assms by (intro mmswap_some) auto
    ultimately have "equal_run cmp xs L m R l = Some (SplitA ys m)" using greater by (subst equal_run.simps) simp
    moreover have "perm_in L R xs ys" unfolding ys_def using greater less.prems assms by (intro perm_in_swap) auto
    moreover have "total_cmp cmp \<longrightarrow> cmp (ys ! L) (ys ! m) \<le> 0 \<and> cmp (ys ! m) (ys ! R) \<le> 0"
      using greater less.prems assms by (auto simp: at t_def total_cmp_flip(1) [symmetric])
    ultimately show ?thesis by (simp add: choice_ok_def)
  next
    case smaller
    define ys where "ys = xs[L := xs ! (l + 1), l + 1 := xs ! L]"
    have at: "ys ! i = (if i = l + 1 then xs ! L else if i = L then xs ! (l + 1) else xs ! i)" for i
      using smaller assms by (auto simp: ys_def nth_list_update)
    have "cmp_at cmp xs (l + 1) m = Some t" unfolding t_def using smaller(1) assms by (intro cmp_at_some) auto
    moreover have "mmswap xs L (l + 1) = Some ys" unfolding ys_def using smaller assms by (intro mmswap_some) auto
    ultimately have "equal_run cmp xs L m R l = Some (SplitB ys m)" using smaller by (subst equal_run.simps) simp
    moreover have "perm_in L R xs ys" unfolding ys_def using smaller less.prems assms by (intro perm_in_swap) auto
    moreover have "total_cmp cmp \<longrightarrow> cmp (ys ! L) (ys ! m) \<le> 0 \<and> cmp (ys ! m) (ys ! R) \<le> 0"
      using smaller less.prems assms by (auto simp: at t_def)
    ultimately show ?thesis by (simp add: choice_ok_def)
  qed
qed

text \<open>The cases with three elements moved or in place.\<close>

lemma choice_splits:
  assumes "perm_in L R xs ys" and "total_cmp cmp \<Longrightarrow> cmp (ys ! L) (ys ! m) \<le> 0 \<and> cmp (ys ! m) (ys ! R) \<le> 0"
  shows "choice_ok cmp xs L m R (SplitA ys m)" "choice_ok cmp xs L m R (SplitB ys m)"
  using assms by (simp_all add: choice_ok_def)

lemma choice_swap:
  assumes "L < m" "m < R" "R < length xs" and ab: "a \<in> {L, m, R}" "b \<in> {L, m, R}"
    and order: "total_cmp cmp \<Longrightarrow> (let f = (\<lambda>i. if i = b then a else if i = a then b else i) in
      cmp (xs ! f L) (xs ! f m) \<le> 0 \<and> cmp (xs ! f m) (xs ! f R) \<le> 0)"
  shows "\<exists>ys. mmswap xs a b = Some ys \<and> choice_ok cmp xs L m R (SplitA ys m) \<and> choice_ok cmp xs L m R (SplitB ys m)"
proof -
  define ys where "ys = xs[a := xs ! b, b := xs ! a]"
  have len: "a < length xs" "b < length xs" using assms(1-3) ab by auto
  have at: "ys ! i = xs ! (if i = b then a else if i = a then b else i)" for i using len by (auto simp: ys_def nth_list_update)
  have "perm_in L R xs ys" unfolding ys_def using assms(1-3) ab by (intro perm_in_swap) auto
  then show ?thesis using order mmswap_some [OF len] choice_splits [of L R xs ys cmp m] by (auto simp: at Let_def ys_def [symmetric])
qed

lemma choice_rot3:
  assumes "L < m" "m < R" "R < length xs" and abc: "a = R \<and> b = m \<and> c = L \<or> a = L \<and> b = m \<and> c = R"
    and order: "total_cmp cmp \<Longrightarrow> (let f = (\<lambda>i. if i = a then b else if i = b then c else if i = c then a else i) in
      cmp (xs ! f L) (xs ! f m) \<le> 0 \<and> cmp (xs ! f m) (xs ! f R) \<le> 0)"
  shows "\<exists>ys. mmrot3 xs a b c = Some ys \<and> choice_ok cmp xs L m R (SplitA ys m)"
proof -
  define ys where "ys = xs[a := xs ! b, b := xs ! c, c := xs ! a]"
  have len: "a < length xs" "b < length xs" "c < length xs" and ne: "a \<noteq> b" "b \<noteq> c" "a \<noteq> c" using assms(1-4) by auto
  have at: "ys ! i = xs ! (if i = a then b else if i = b then c else if i = c then a else i)" for i
    using len ne by (auto simp: ys_def nth_list_update)
  define zs where "zs = xs[a := xs ! b, b := xs ! a]"
  have "ys = zs[b := zs ! c, c := zs ! b]" using len ne by (intro nth_equalityI) (auto simp: ys_def zs_def nth_list_update)
  moreover have "perm_in L R xs zs" unfolding zs_def using assms(1-4) by (intro perm_in_swap) auto
  moreover have "perm_in L R zs (zs[b := zs ! c, c := zs ! b])" using assms(1-4) by (intro perm_in_swap) (auto simp: zs_def)
  ultimately have "perm_in L R xs ys" using perm_in_trans by metis
  then show ?thesis using order len choice_splits [of L R xs ys cmp m] by (auto simp: mmrot3_def at Let_def ys_def [symmetric])
qed

lemma choose_less_spec:
  assumes b: "L < m" "m < R" "R < length xs" and lm: "cmp (xs ! L) (xs ! m) < 0"
  shows "\<exists>s chk'. choose_less cmp chk xs L m R = Some (s, chk') \<and> choice_ok cmp xs L m R s"
proof -
  have c: "cmp_at cmp xs m R = Some (cmp (xs ! m) (xs ! R))" "cmp_at cmp xs L R = Some (cmp (xs ! L) (xs ! R))"
    using b by (auto intro!: cmp_at_some)
  have ne: "L \<noteq> m" "m \<noteq> R" "L \<noteq> R" using b by auto
  note unfold = choose_less_def c
  consider (less) "cmp (xs ! m) (xs ! R) < 0" | (equal) "cmp (xs ! m) (xs ! R) = 0"
    | (swap) "0 < cmp (xs ! m) (xs ! R)" "cmp (xs ! L) (xs ! R) \<le> 0" | (rot) "0 < cmp (xs ! m) (xs ! R)" "0 < cmp (xs ! L) (xs ! R)"
    by linarith
  then show ?thesis
  proof cases
    case less
    then have A: "choice_ok cmp xs L m R (SplitA xs m)" using lm by (intro choice_splits) auto
    have s: "ascending cmp xs L R = Some (\<forall>i. L \<le> i \<and> i < R \<longrightarrow> cmp (xs ! i) (xs ! (i + 1)) \<le> 0)"
      using b by (intro ascending_spec) auto
    have "\<forall>i. L \<le> i \<and> i < R \<longrightarrow> cmp (xs ! i) (xs ! (i + 1)) \<le> 0 \<Longrightarrow> choice_ok cmp xs L m R (Sorted xs)"
      using in_order_steps [of cmp L R xs] by (auto simp: choice_ok_def)
    moreover have "Ex Not" by (rule exI [of _ False]) simp
    ultimately show ?thesis using less A by (simp add: unfold s)
  next
    case equal
    then have "choice_ok cmp xs L m R (SplitB xs m)" using lm by (intro choice_splits) auto
    then show ?thesis using equal by (simp add: unfold)
  next
    case swap
    have "total_cmp cmp \<Longrightarrow> cmp (xs ! L) (xs ! R) \<le> 0 \<and> cmp (xs ! R) (xs ! m) \<le> 0"
      using swap total_cmp_flip(2) [of cmp "xs ! m" "xs ! R"] by auto
    then obtain ys where "mmswap xs m R = Some ys" "choice_ok cmp xs L m R (SplitA ys m)"
      using choice_swap [OF b, of m R cmp] ne by (auto simp: Let_def)
    then show ?thesis using swap by (simp add: unfold)
  next
    case rot
    have "total_cmp cmp \<Longrightarrow> cmp (xs ! R) (xs ! L) \<le> 0 \<and> cmp (xs ! L) (xs ! m) \<le> 0"
      using rot lm total_cmp_flip(2) [of cmp "xs ! L" "xs ! R"] by auto
    then obtain ys where "mmrot3 xs R m L = Some ys" "choice_ok cmp xs L m R (SplitA ys m)"
      using choice_rot3 [OF b, of R m L cmp] ne by (auto simp: Let_def)
    then show ?thesis using rot by (simp add: unfold)
  qed
qed

lemma choose_greater_spec:
  assumes b: "L < m" "m < R" "R < length xs" and lm: "0 < cmp (xs ! L) (xs ! m)"
  shows "\<exists>s chk'. choose_greater cmp chk xs L m R = Some (s, chk') \<and> choice_ok cmp xs L m R s"
proof -
  have c: "cmp_at cmp xs m R = Some (cmp (xs ! m) (xs ! R))" "cmp_at cmp xs L R = Some (cmp (xs ! L) (xs ! R))"
    using b by (auto intro!: cmp_at_some)
  have ne: "L \<noteq> m" "m \<noteq> R" "L \<noteq> R" using b by auto
  have ml: "cmp (xs ! m) (xs ! L) \<le> 0" if "total_cmp cmp" using lm total_cmp_flip(2) [OF that, of "xs ! L" "xs ! m"] by simp
  note unfold = choose_greater_def c
  have ends: "\<exists>ys. mmswap xs L R = Some ys \<and> choice_ok cmp xs L m R (SplitA ys m)" if "0 \<le> cmp (xs ! m) (xs ! R)"
  proof -
    have "total_cmp cmp \<Longrightarrow> cmp (xs ! R) (xs ! m) \<le> 0 \<and> cmp (xs ! m) (xs ! L) \<le> 0"
      using that ml total_cmp_flip(1) [of cmp "xs ! m" "xs ! R"] by auto
    then show ?thesis using choice_swap [OF b, of L R cmp] ne by (auto simp: Let_def)
  qed
  consider (greater) "0 < cmp (xs ! m) (xs ! R)" | (equal) "cmp (xs ! m) (xs ! R) = 0"
    | (swap) "cmp (xs ! m) (xs ! R) < 0" "cmp (xs ! L) (xs ! R) \<le> 0" | (rot) "cmp (xs ! m) (xs ! R) < 0" "0 < cmp (xs ! L) (xs ! R)"
    by linarith
  then show ?thesis
  proof cases
    case greater
    obtain ys where ys: "mmswap xs L R = Some ys" "choice_ok cmp xs L m R (SplitA ys m)" using ends greater by auto
    have s: "descending cmp xs L R = Some (\<forall>i. L \<le> i \<and> i < R \<longrightarrow> 0 \<le> cmp (xs ! i) (xs ! (i + 1)))"
      using b by (intro descending_spec) auto
    obtain zs where zs: "reverse xs L R = Some zs" "perm_in L R xs zs" "\<forall>i. L \<le> i \<and> i \<le> R \<longrightarrow> zs ! i = xs ! (L + R - i)"
      using reverse_spec [of L R xs] b by auto
    have "choice_ok cmp xs L m R (Sorted zs)" if d: "\<forall>i. L \<le> i \<and> i < R \<longrightarrow> 0 \<le> cmp (xs ! i) (xs ! (i + 1))"
    proof -
      have "in_order cmp zs L R" if total: "total_cmp cmp"
      proof (rule in_order_steps [OF total], intro allI impI)
        fix i assume i: "L \<le> i \<and> i < R"
        define j where "j = L + R - (i + 1)"
        have j: "L \<le> j" "j < R" "L + R - i = j + 1" using i by (auto simp: j_def)
        then have "zs ! i = xs ! (j + 1)" "zs ! (i + 1) = xs ! j" using zs(3) i by (auto simp: j_def)
        then show "cmp (zs ! i) (zs ! (i + 1)) \<le> 0" using d j total_cmp_flip(1) [OF total, of "xs ! j" "xs ! (j + 1)"] by auto
      qed
      with zs(2) show ?thesis by (simp add: choice_ok_def)
    qed
    moreover have "Ex Not" by (rule exI [of _ False]) simp
    ultimately show ?thesis using greater ys zs(1) by (simp add: unfold s)
  next
    case equal
    then show ?thesis using ends by (auto simp: unfold)
  next
    case swap
    have "total_cmp cmp \<Longrightarrow> cmp (xs ! m) (xs ! L) \<le> 0 \<and> cmp (xs ! L) (xs ! R) \<le> 0" using swap ml by auto
    then obtain ys where "mmswap xs L m = Some ys" "choice_ok cmp xs L m R (SplitB ys m)"
      using choice_swap [OF b, of L m cmp] ne by (auto simp: Let_def)
    then show ?thesis using swap by (simp add: unfold)
  next
    case rot
    have "total_cmp cmp \<Longrightarrow> cmp (xs ! m) (xs ! R) \<le> 0 \<and> cmp (xs ! R) (xs ! L) \<le> 0"
      using rot total_cmp_flip(2) [of cmp "xs ! L" "xs ! R"] by auto
    then obtain ys where "mmrot3 xs L m R = Some ys" "choice_ok cmp xs L m R (SplitA ys m)"
      using choice_rot3 [OF b, of L m R cmp] ne by (auto simp: Let_def)
    then show ?thesis using rot by (simp add: unfold)
  qed
qed

lemma choose_equal_spec:
  assumes b: "L < m" "m < R" "R < length xs" and lm: "cmp (xs ! L) (xs ! m) = 0"
  shows "\<exists>s chk'. choose_equal cmp chk xs L m R = Some (s, chk') \<and> choice_ok cmp xs L m R s"
proof -
  have c: "cmp_at cmp xs m R = Some (cmp (xs ! m) (xs ! R))" using b by (auto intro!: cmp_at_some)
  have ne: "L \<noteq> m" "m \<noteq> R" "L \<noteq> R" using b by auto
  note unfold = choose_equal_def c
  consider (less) "cmp (xs ! m) (xs ! R) < 0" | (greater) "0 < cmp (xs ! m) (xs ! R)" | (equal) "cmp (xs ! m) (xs ! R) = 0" by linarith
  then show ?thesis
  proof cases
    case less
    then have "choice_ok cmp xs L m R (SplitA xs m)" using lm by (intro choice_splits) auto
    then show ?thesis using less by (simp add: unfold)
  next
    case greater
    have "total_cmp cmp \<Longrightarrow> cmp (xs ! R) (xs ! m) \<le> 0 \<and> cmp (xs ! m) (xs ! L) \<le> 0"
      using greater lm total_cmp_flip(2) [of cmp "xs ! m" "xs ! R"] total_cmp_flip(1) [of cmp "xs ! L" "xs ! m"] by auto
    then obtain ys where "mmswap xs L R = Some ys" "choice_ok cmp xs L m R (SplitB ys m)"
      using choice_swap [OF b, of L R cmp] ne by (auto simp: Let_def)
    then show ?thesis using greater by (simp add: unfold)
  next
    case equal
    obtain s where "equal_run cmp xs L m R L = Some s" "choice_ok cmp xs L m R s"
      using equal_run_spec [OF b lm equal, of L] b by auto
    then show ?thesis using equal by (simp add: unfold)
  qed
qed

lemma choose_split_spec:
  assumes b: "L < m" "m < R" "R < length xs"
  shows "\<exists>s chk'. choose_split cmp chk xs L m R = Some (s, chk') \<and> choice_ok cmp xs L m R s"
proof -
  have "cmp_at cmp xs L m = Some (cmp (xs ! L) (xs ! m))" using b by (auto intro!: cmp_at_some)
  then show ?thesis
    using choose_less_spec [OF b, of cmp] choose_greater_spec [OF b, of cmp] choose_equal_spec [OF b, of cmp]
    by (auto simp: choose_split_def)
qed

section \<open>The regions that are left to sort\<close>

definition regions :: "'a qs_state \<Rightarrow> (nat \<times> nat) list" where
  "regions st = (qs_L st, qs_R st) # qs_stack st"

fun apart :: "nat \<times> nat \<Rightarrow> nat \<times> nat \<Rightarrow> bool" where
  "apart (a, b) (c, d) \<longleftrightarrow> b < c \<or> d < a"

text \<open>The region above \<open>k\<close> others has at most the share \<open>2 ^ - k\<close> of the array.\<close>

fun halving :: "nat \<Rightarrow> (nat \<times> nat) list \<Rightarrow> bool" where
  "halving N [] \<longleftrightarrow> True"
| "halving N ((a, b) # rs) \<longleftrightarrow> (b + 1 - a) * 2 ^ length rs \<le> N \<and> halving N rs"

definition regions_ok :: "nat \<Rightarrow> (nat \<times> nat) list \<Rightarrow> bool" where
  "regions_ok N rs \<longleftrightarrow> (\<forall>(a, b) \<in> set rs. a < b \<and> b < N) \<and> sorted_wrt apart rs \<and> halving N rs"

definition work :: "(nat \<times> nat) list \<Rightarrow> nat" where
  "work rs = sum_list (map (\<lambda>(a, b). b + 1 - a) rs)"

definition sorted_but :: "('a \<Rightarrow> 'a \<Rightarrow> int) \<Rightarrow> (nat \<times> nat) list \<Rightarrow> 'a list \<Rightarrow> bool" where
  "sorted_but cmp rs xs \<longleftrightarrow>
     (\<forall>i j. i < j \<and> j < length xs \<and> (\<forall>(a, b) \<in> set rs. \<not> (a \<le> i \<and> j \<le> b)) \<longrightarrow> cmp (xs ! i) (xs ! j) \<le> 0)"

lemma regions_ok_simps [simp]:
  "regions_ok N []"
  "regions_ok N ((a, b) # rs) \<longleftrightarrow>
    a < b \<and> b < N \<and> (\<forall>r \<in> set rs. apart (a, b) r) \<and> (b + 1 - a) * 2 ^ length rs \<le> N \<and> regions_ok N rs"
  by (auto simp: regions_ok_def)

lemma work_simps [simp]: "work [] = 0" "work ((a, b) # rs) = b + 1 - a + work rs"
  by (simp_all add: work_def)

text \<open>Sorting a region up to some regions in it.\<close>

lemma sorted_but_refine:
  assumes old: "sorted_but cmp ((L, R) # rs) xs" and perm: "perm_in L R xs ys" and R: "R < length xs"
    and apart: "\<forall>r \<in> set rs. apart (L, R) r"
    and new: "\<And>i j. L \<le> i \<Longrightarrow> i < j \<Longrightarrow> j \<le> R \<Longrightarrow> \<forall>(a, b) \<in> set subs. \<not> (a \<le> i \<and> j \<le> b) \<Longrightarrow> cmp (ys ! i) (ys ! j) \<le> 0"
  shows "sorted_but cmp (subs @ rs) ys"
  unfolding sorted_but_def
proof (intro allI impI)
  fix i j assume h: "i < j \<and> j < length ys \<and> (\<forall>(a, b) \<in> set (subs @ rs). \<not> (a \<le> i \<and> j \<le> b))"
  define inside where "inside k \<longleftrightarrow> L \<le> k \<and> k \<le> R" for k
  have out: "ys ! k = xs ! k" if "\<not> inside k" for k using perm that unfolding perm_in_def inside_def by (metis not_le)
  have inn: "\<exists>k'. inside k' \<and> ys ! k = xs ! k'" if "inside k" for k using perm that unfolding perm_in_def inside_def by metis
  have len: "length ys = length xs" using perm by (simp add: perm_in_def)
  have old': "cmp (xs ! p) (xs ! q) \<le> 0" if "p < q" "q < length xs" "\<not> (inside p \<and> inside q)" "\<forall>(a, b) \<in> set rs. \<not> (a \<le> p \<and> q \<le> b)" for p q
    using old that unfolding sorted_but_def inside_def by auto
  consider "inside i" "inside j" | "inside i" "\<not> inside j" | "\<not> inside i" "inside j" | "\<not> inside i" "\<not> inside j" by blast
  then show "cmp (ys ! i) (ys ! j) \<le> 0"
  proof cases
    case 1
    then show ?thesis using new h unfolding inside_def by (metis Un_iff set_append)
  next
    case 2
    then obtain k where k: "inside k" "ys ! i = xs ! k" using inn by blast
    have "R < j" using 2 h by (auto simp: inside_def)
    then have "\<forall>(a, b) \<in> set rs. \<not> (a \<le> k \<and> j \<le> b)" using apart k(1) by (fastforce simp: inside_def)
    then show ?thesis using old' [of k j] k 2(2) out h len \<open>R < j\<close> by (auto simp: inside_def)
  next
    case 3
    then obtain k where k: "inside k" "ys ! j = xs ! k" using inn by blast
    have "i < L" using 3 h by (auto simp: inside_def)
    then have "\<forall>(a, b) \<in> set rs. \<not> (a \<le> i \<and> k \<le> b)" using apart k(1) by (fastforce simp: inside_def)
    then show ?thesis using old' [of i k] k 3(1) out R \<open>i < L\<close> by (auto simp: inside_def)
  next
    case 4
    then show ?thesis using old' [of i j] out h len by auto
  qed
qed

lemma split_order:
  assumes total: "total_cmp cmp" and post: "split_post cmp p L R ys l r eq_l eq_r"
    and ends: "cmp (ys ! L) p \<le> 0" "cmp p (ys ! R) \<le> 0"
    and ij: "L \<le> i" "i < j" "j \<le> R" "\<not> eq_l \<Longrightarrow> l < j" "\<not> eq_r \<Longrightarrow> i < r"
  shows "cmp (ys ! i) (ys ! j) \<le> 0"
proof -
  note post' = post [unfolded split_post_def]
  have low: "cmp (ys ! k) p \<le> 0" if "L \<le> k" "k \<le> l + 1" for k
    using post' ends(1) that total_cmp_flip(3) [OF total, of p] by (cases "k = L"; cases "k = l + 1") auto
  have high: "cmp p (ys ! k) \<le> 0" if "l + 1 \<le> k" "k \<le> R" for k
    using post' ends(2) that total_cmp_flip(3) [OF total, of p] total_cmp_flip(1) [OF total, of "ys ! k" p]
    by (cases "k = R"; cases "k = l + 1") auto
  have "cmp (ys ! i) p \<le> 0"
  proof (cases "i \<le> l + 1")
    case False
    then have "eq_r" "r \<le> i" "i < R" using ij post' by auto
    then show ?thesis using post' by blast
  qed (use low ij in auto)
  moreover have "cmp p (ys ! j) \<le> 0"
  proof (cases "l + 1 \<le> j")
    case False
    then have "eq_l" "L < j" "j \<le> l" using ij by auto
    then show ?thesis using post' total_cmp_flip(1) [OF total, of "ys ! j" p] by blast
  qed (use high ij in auto)
  ultimately show ?thesis by (rule total_cmp_trans [OF total])
qed

section \<open>One step\<close>

definition state_ok :: "('a \<Rightarrow> 'a \<Rightarrow> int) \<Rightarrow> 'a list \<Rightarrow> 'a list \<Rightarrow> (nat \<times> nat) list \<Rightarrow> bool" where
  "state_ok cmp xs ys rs \<longleftrightarrow>
     mset ys = mset xs \<and> regions_ok (length xs) rs \<and> (total_cmp cmp \<longrightarrow> sorted_but cmp rs ys)"

definition outcome_ok :: "('a \<Rightarrow> 'a \<Rightarrow> int) \<Rightarrow> 'a list \<Rightarrow> nat \<Rightarrow> 'a list + 'a qs_state \<Rightarrow> bool" where
  "outcome_ok cmp xs w res \<longleftrightarrow>
     (case res of
        Inl ys \<Rightarrow> state_ok cmp xs ys []
      | Inr st \<Rightarrow> state_ok cmp xs (qs_arr st) (regions st) \<and> work (regions st) < w)"

lemma qs_next_ok:
  "state_ok cmp xs (qs_arr st) (qs_stack st) \<Longrightarrow> work (qs_stack st) < w \<Longrightarrow> outcome_ok cmp xs w (qs_next st)"
  by (auto simp: qs_next_def outcome_ok_def regions_def split: list.split prod.split)

lemma state_ok_refine:
  assumes st: "state_ok cmp xs ys ((L, R) # rs)" and perm: "perm_in L R ys zs" and subs: "regions_ok (length xs) (subs @ rs)"
    and new: "\<And>i j. total_cmp cmp \<Longrightarrow> L \<le> i \<Longrightarrow> i < j \<Longrightarrow> j \<le> R \<Longrightarrow> \<forall>(a, b) \<in> set subs. \<not> (a \<le> i \<and> j \<le> b) \<Longrightarrow>
      cmp (zs ! i) (zs ! j) \<le> 0"
  shows "state_ok cmp xs zs (subs @ rs)"
proof -
  have s: "mset ys = mset xs" "R < length xs" "\<forall>r \<in> set rs. apart (L, R) r" "total_cmp cmp \<longrightarrow> sorted_but cmp ((L, R) # rs) ys"
    using st by (auto simp: state_ok_def)
  have "length ys = length xs" using s(1) by (metis size_mset)
  then have "total_cmp cmp \<longrightarrow> sorted_but cmp (subs @ rs) zs"
    using sorted_but_refine [of cmp L R rs ys zs subs] s perm new by auto
  moreover have "mset zs = mset xs" using perm s(1) by (simp add: perm_in_def)
  ultimately show ?thesis using subs by (simp add: state_ok_def)
qed

text \<open>The stack has room: each region on it has at most half the size of the one below.\<close>

lemma halving_room:
  fixes N a b :: nat
  assumes "(b + 1 - a) * 2 ^ length rs \<le> N" and "a < b" and "N < 2 ^ 31"
  shows "length rs < 32"
proof (rule ccontr)
  assume "\<not> length rs < 32"
  then have "(2 :: nat) ^ 32 \<le> 2 ^ length rs" by (intro power_increasing) auto
  also have "(2 :: nat) ^ length rs \<le> (b + 1 - a) * 2 ^ length rs" using assms(2) by simp
  finally show False using assms(1,3) by simp
qed

lemma qs_fin_ok:
  assumes st: "state_ok cmp xs (qs_arr st) (regions st)" and N: "length xs < 2 ^ 31"
    and perm: "perm_in (qs_L st) (qs_R st) (qs_arr st) ys"
    and post: "split_post cmp p (qs_L st) (qs_R st) ys l r eq_l eq_r"
    and ends: "total_cmp cmp \<Longrightarrow> cmp (ys ! qs_L st) p \<le> 0 \<and> cmp p (ys ! qs_R st) \<le> 0"
  shows "\<exists>res. qs_fin st (ys, l, r, eq_l, eq_r) = Some res \<and> outcome_ok cmp xs (work (regions st)) res"
proof -
  define L where "L = qs_L st"
  define R where "R = qs_R st"
  define rs where "rs = qs_stack st"
  note st' = st [unfolded regions_def L_def [symmetric] R_def [symmetric] rs_def [symmetric]]
  note post' = post [folded L_def R_def, unfolded split_post_def]
  have ok: "L < R" "R < length xs" "\<forall>q \<in> set rs. apart (L, R) q" "(R + 1 - L) * 2 ^ length rs \<le> length xs" "regions_ok (length xs) rs"
    using st' by (auto simp: state_ok_def)
  have w: "work (regions st) = R + 1 - L + work rs" by (simp add: regions_def L_def R_def rs_def)
  have order: "cmp (ys ! i) (ys ! j) \<le> 0"
    if "total_cmp cmp" "L \<le> i" "i < j" "j \<le> R" "\<not> eq_l \<Longrightarrow> l < j" "\<not> eq_r \<Longrightarrow> i < r" for i j
    using split_order [OF that(1) post [folded L_def R_def]] ends [OF that(1)] that by (simp add: L_def R_def)
  have part: "apart (a, b) q" if "L \<le> a" "b \<le> R" "q \<in> set rs" for a b q
    using ok(3) that by (cases q) force
  have fits: "(b + 1 - a) * 2 ^ length rs \<le> length xs" if "L \<le> a" "b \<le> R" for a b
  proof -
    have "(b + 1 - a) * 2 ^ length rs \<le> (R + 1 - L) * 2 ^ length rs" using that by (intro mult_le_mono1) simp
    then show ?thesis using ok(4) by (rule le_trans)
  qed
  have half: "(b + 1 - a) * 2 ^ Suc (length rs) \<le> length xs" if "2 * (b + 1 - a) \<le> R + 1 - L" for a b
  proof -
    have "2 * (b + 1 - a) * 2 ^ length rs \<le> (R + 1 - L) * 2 ^ length rs" using that by (intro mult_le_mono1)
    then have "2 * (b + 1 - a) * 2 ^ length rs \<le> length xs" using ok(4) by (rule le_trans)
    then show ?thesis by (simp add: mult.assoc mult.commute [of 2])
  qed
  note refine = state_ok_refine [OF st' perm [folded L_def R_def]]
  note goal = qs_fin_def outcome_ok_def Let_def
  have fields: "qs_L st = L" "qs_R st = R" "qs_stack st = rs" by (simp_all add: L_def R_def rs_def)
  have room: "length rs < 32" by (rule halving_room [OF ok(4,1) N])
  show ?thesis
  proof (cases eq_l; cases eq_r)
    assume e: "eq_l" "eq_r"
    have "state_ok cmp xs ys ([] @ rs)" using ok(5) order e by (intro refine) auto
    then have "outcome_ok cmp xs (work (regions st)) (qs_next (st\<lparr>qs_arr := ys\<rparr>))"
      using ok(1) unfolding w by (intro qs_next_ok) (simp_all add: fields)
    then show ?thesis using e by (simp add: qs_fin_def Let_def)
  next
    assume e: "eq_l" "\<not> eq_r"
    have "state_ok cmp xs ys ([(r, R)] @ rs)"
      using ok post' e part [of r R] fits [of r R] order by (intro refine) (auto simp: not_le)
    then show ?thesis using e post' ok(1) unfolding w by (simp add: goal regions_def fields) arith
  next
    assume e: "\<not> eq_l" "eq_r"
    have "state_ok cmp xs ys ([(L, l)] @ rs)"
      using ok post' e part [of L l] fits [of L l] order by (intro refine) (auto simp: not_le)
    then show ?thesis using e post' ok(1) unfolding w by (simp add: goal regions_def fields) arith
  next
    assume e: "\<not> eq_l" "\<not> eq_r"
    have o: "cmp (ys ! i) (ys ! j) \<le> 0" if "total_cmp cmp" "L \<le> i" "i < j" "j \<le> R" "\<not> (L \<le> i \<and> j \<le> l)" "\<not> (r \<le> i \<and> j \<le> R)" for i j
      using order [OF that(1-4)] that by auto
    show ?thesis
    proof (cases "l - L < R - r")
      case True
      have "regions_ok (length xs) ([(L, l), (r, R)] @ rs)"
        using ok post' e part [of L l] part [of r R] fits [of r R] half [of l L] True by auto
      then have "state_ok cmp xs ys ([(L, l), (r, R)] @ rs)" using o by (intro refine) auto
      then show ?thesis using e post' ok(1) True room unfolding w by (simp add: goal regions_def fields qs_push_def) arith
    next
      case False
      have "regions_ok (length xs) ([(r, R), (L, l)] @ rs)"
        using ok post' e part [of L l] part [of r R] fits [of L l] half [of R r] False by auto
      then have "state_ok cmp xs ys ([(r, R), (L, l)] @ rs)" using o by (intro refine) auto
      then show ?thesis using e post' ok(1) False room unfolding w by (simp add: goal regions_def fields qs_push_def) arith
    qed
  qed
qed

text \<open>A split from the ends of its region inwards.\<close>

lemma split_regions:
  assumes "L < m" "m < R" "R < length xs"
  shows "\<exists>ys l r el er. split_A cmp xs m L R True True = Some (ys, l, r, el, er)
      \<and> perm_in (L + 1) (R - 1) xs ys \<and> split_post cmp (xs ! m) L R ys l r el er"
    "\<exists>ys l r el er. split_B cmp xs m L R True True = Some (ys, l, r, el, er)
      \<and> perm_in (L + 1) (R - 1) xs ys \<and> split_post cmp (xs ! m) L R ys l r el er"
proof -
  have "inv_A cmp L R xs m L R True True" "inv_B cmp L R xs m L R True True" using assms by (auto simp: inv_A_def inv_B_def)
  from split_A_spec [OF this(1)] split_B_spec [OF this(2)] show
    "\<exists>ys l r el er. split_A cmp xs m L R True True = Some (ys, l, r, el, er)
      \<and> perm_in (L + 1) (R - 1) xs ys \<and> split_post cmp (xs ! m) L R ys l r el er"
    "\<exists>ys l r el er. split_B cmp xs m L R True True = Some (ys, l, r, el, er)
      \<and> perm_in (L + 1) (R - 1) xs ys \<and> split_post cmp (xs ! m) L R ys l r el er" by blast+
qed

lemma after_choice:
  assumes st: "state_ok cmp xs (qs_arr st) (regions st)" and N: "length xs < 2 ^ 31"
    and perm: "perm_in (qs_L st) (qs_R st) (qs_arr st) ys"
    and ends: "total_cmp cmp \<Longrightarrow> cmp (ys ! qs_L st) (ys ! m) \<le> 0 \<and> cmp (ys ! m) (ys ! qs_R st) \<le> 0"
    and inner: "perm_in (qs_L st + 1) (qs_R st - 1) ys zs"
    and post: "split_post cmp (ys ! m) (qs_L st) (qs_R st) zs l r el er"
  shows "\<exists>res. qs_fin st (zs, l, r, el, er) = Some res \<and> outcome_ok cmp xs (work (regions st)) res"
proof (rule qs_fin_ok [OF st N _ post])
  have lt: "qs_L st < qs_R st" using st by (auto simp: state_ok_def regions_def)
  show "perm_in (qs_L st) (qs_R st) (qs_arr st) zs"
    by (rule perm_in_trans [OF perm perm_in_wider [OF inner]]) auto
  have "zs ! qs_L st = ys ! qs_L st" "zs ! qs_R st = ys ! qs_R st" using inner lt by (auto simp: perm_in_def)
  then show "total_cmp cmp \<Longrightarrow> cmp (zs ! qs_L st) (ys ! m) \<le> 0 \<and> cmp (ys ! m) (zs ! qs_R st) \<le> 0" using ends by simp
qed

lemma qs_step_ok:
  assumes st: "state_ok cmp xs (qs_arr st) (regions st)" and N: "length xs < 2 ^ 31"
  shows "\<exists>res. qs_step cmp st = Some res \<and> outcome_ok cmp xs (work (regions st)) res"
proof -
  define L where "L = qs_L st"
  define R where "R = qs_R st"
  define arr where "arr = qs_arr st"
  have len: "length arr = length xs" using st unfolding state_ok_def arr_def by (metis size_mset)
  have ok: "L < R" "R < length arr" "regions_ok (length xs) (qs_stack st)"
    using st len by (auto simp: state_ok_def regions_def L_def R_def)
  note st' = st [unfolded regions_def, folded L_def R_def arr_def]
  have sorted: "outcome_ok cmp xs (work (regions st)) (qs_next (st\<lparr>qs_chk := chk, qs_arr := ys\<rparr>))"
    if "perm_in L R arr ys" "total_cmp cmp \<longrightarrow> in_order cmp ys L R" for ys chk
  proof -
    have "state_ok cmp xs ys ([] @ qs_stack st)"
      using state_ok_refine [OF st' that(1), of "[]"] ok(3) that(2) by (auto simp: in_order_def)
    then show ?thesis using ok(1) by (intro qs_next_ok) (auto simp: regions_def L_def R_def)
  qed
  show ?thesis
  proof (cases "L + 1 = R")
    case True
    define ys where "ys = (if 0 < cmp (arr ! L) (arr ! R) then arr[L := arr ! R, R := arr ! L] else arr)"
    have "perm_in L R arr ys" using ok by (auto simp: ys_def intro!: perm_in_swap)
    moreover have "total_cmp cmp \<longrightarrow> in_order cmp ys L R"
    proof
      assume total: "total_cmp cmp"
      have "cmp (ys ! L) (ys ! R) \<le> 0"
        using ok True total_cmp_flip(2) [OF total, of "arr ! L" "arr ! R"] by (auto simp: ys_def nth_list_update)
      then show "in_order cmp ys L R" using True in_order_steps [OF total, of L R ys] by (metis Suc_eq_plus1 less_Suc_eq not_less)
    qed
    moreover have "cmp_at cmp arr L R = Some (cmp (arr ! L) (arr ! R))"
      "(if 0 < cmp (arr ! L) (arr ! R) then mmswap arr L R else Some arr) = Some ys"
      using ok by (auto simp: ys_def cmp_at_some mmswap_some)
    ultimately show ?thesis using True sorted [of ys "qs_chk st"]
      by (auto simp: qs_step_def Let_def L_def [symmetric] R_def [symmetric] arr_def [symmetric])
  next
    case False
    then obtain m where m: "median cmp arr L R = Some m" "L < m" "m < R" using median_spec [of L R arr cmp] ok by auto
    from choose_split_spec [OF m(2,3) ok(2), of cmp "qs_chk st"] obtain s chk where
      s: "choose_split cmp (qs_chk st) arr L m R = Some (s, chk)" "choice_ok cmp arr L m R s" by blast
    define st1 where "st1 = st\<lparr>qs_chk := chk\<rparr>"
    have st1: "state_ok cmp xs (qs_arr st1) (regions st1)" "work (regions st1) = work (regions st)"
      "qs_L st1 = L" "qs_R st1 = R" "qs_arr st1 = arr"
      using st by (simp_all add: st1_def regions_def L_def R_def arr_def)
    have step: "qs_step cmp st = (case s of
            Sorted xs \<Rightarrow> Some (qs_next (st1\<lparr>qs_arr := xs\<rparr>))
          | SplitA xs m \<Rightarrow> do { res \<leftarrow> split_A cmp xs m L R True True; qs_fin st1 res }
          | SplitB xs m \<Rightarrow> do { res \<leftarrow> split_B cmp xs m L R True True; qs_fin st1 res })"
      using False m(1) s(1) by (cases s) (simp_all add: qs_step_def Let_def L_def [symmetric] R_def [symmetric] arr_def [symmetric] st1_def)
    show ?thesis
    proof (cases s)
      case (Sorted ys)
      then show ?thesis using s(2) sorted [of ys chk] by (simp add: step choice_ok_def st1_def)
    next
      case (SplitA ys k)
      then have c: "k = m" "perm_in L R arr ys" "total_cmp cmp \<Longrightarrow> cmp (ys ! L) (ys ! m) \<le> 0 \<and> cmp (ys ! m) (ys ! R) \<le> 0"
        using s(2) by (auto simp: choice_ok_def)
      have "R < length ys" using ok(2) perm_in_length [OF c(2)] by simp
      from split_regions(1) [OF m(2,3) this, of cmp] obtain zs l r el er where
        z: "split_A cmp ys m L R True True = Some (zs, l, r, el, er)" "perm_in (L + 1) (R - 1) ys zs"
        "split_post cmp (ys ! m) L R zs l r el er" by blast
      from after_choice [OF st1(1) N, unfolded st1(2-5), OF c(2,3) z(2,3)] show ?thesis
        using SplitA z(1) c(1) by (simp add: step)
    next
      case (SplitB ys k)
      then have c: "k = m" "perm_in L R arr ys" "total_cmp cmp \<Longrightarrow> cmp (ys ! L) (ys ! m) \<le> 0 \<and> cmp (ys ! m) (ys ! R) \<le> 0"
        using s(2) by (auto simp: choice_ok_def)
      have "R < length ys" using ok(2) perm_in_length [OF c(2)] by simp
      from split_regions(2) [OF m(2,3) this, of cmp] obtain zs l r el er where
        z: "split_B cmp ys m L R True True = Some (zs, l, r, el, er)" "perm_in (L + 1) (R - 1) ys zs"
        "split_post cmp (ys ! m) L R zs l r el er" by blast
      from after_choice [OF st1(1) N, unfolded st1(2-5), OF c(2,3) z(2,3)] show ?thesis
        using SplitB z(1) c(1) by (simp add: step)
    qed
  qed
qed

section \<open>The whole sort\<close>

lemma qs_loop_ok:
  assumes N: "length xs < 2 ^ 31"
  shows "state_ok cmp xs (qs_arr st) (regions st) \<Longrightarrow> \<exists>ys. qs_loop cmp st = Some ys \<and> state_ok cmp xs ys []"
proof (induction "work (regions st)" arbitrary: st rule: less_induct)
  case less
  from qs_step_ok [OF less.prems N] obtain res where res: "qs_step cmp st = Some res" "outcome_ok cmp xs (work (regions st)) res"
    by blast
  show ?case
  proof (cases res)
    case (Inl ys)
    then show ?thesis using res by (subst qs_loop.simps) (simp add: outcome_ok_def)
  next
    case (Inr st')
    then have "work (regions st') < work (regions st)" "state_ok cmp xs (qs_arr st') (regions st')"
      using res(2) by (auto simp: outcome_ok_def)
    from less.hyps [OF this] show ?thesis using res(1) Inr by (subst qs_loop.simps) simp
  qed
qed

lemma ruby_qsort_ok:
  assumes N: "length xs < 2 ^ 31"
  shows "\<exists>ys. ruby_qsort cmp xs = Some ys \<and> mset ys = mset xs
    \<and> (total_cmp cmp \<longrightarrow> (\<forall>i j. i < j \<and> j < length ys \<longrightarrow> cmp (ys ! i) (ys ! j) \<le> 0))"
proof (cases "length xs \<le> 1")
  case True
  then show ?thesis by (auto simp: ruby_qsort_def)
next
  case False
  define st where "st = \<lparr>qs_arr = xs, qs_L = 0, qs_R = length xs - 1, qs_stack = [], qs_chk = 63 \<le> length xs\<rparr>"
  have "state_ok cmp xs (qs_arr st) (regions st)" using False by (auto simp: st_def state_ok_def regions_def sorted_but_def)
  from qs_loop_ok [OF N this] obtain ys where "qs_loop cmp st = Some ys" "state_ok cmp xs ys []" by blast
  then show ?thesis using False by (auto simp: ruby_qsort_def st_def state_ok_def sorted_but_def)
qed

end
