(* ===== verification/ArraySort.thy ===== *)
theory ArraySort
  imports Compare QsortSorts
begin

text \<open>
  The methods that call \<open>ruby_qsort\<close>: \<open>Array#sort\<close> and \<open>sort!\<close> of \<open>lib/ruby/array.c\<close>, \<open>Enumerable#sort\<close> and \<open>sort_by\<close> of \<open>lib/ruby/enum.c\<close>.
  The comparison functions return errors as values; the sort takes the integers that they return, so it is the sort of arrays whose comparisons
  raise nothing.
\<close>

section \<open>The comparison functions\<close>

text \<open>\<open>sort_1\<close> asks the block, whose value or error is \<open>block a b\<close>.\<close>

definition sort_1 ::
  "('f, 'o) cmp_env \<Rightarrow> (('f, 'o) rb_value \<Rightarrow> ('f, 'o) rb_value \<Rightarrow> ('f, 'o) rb_result) \<Rightarrow> ('f, 'o) rb_value \<Rightarrow> ('f, 'o) rb_value \<Rightarrow>
    rb_error + int" where
  "sort_1 ce block a b = (case block a b of Inl e \<Rightarrow> Inl e | Inr retval \<Rightarrow> rb_cmpint ce retval)"

text \<open>\<open>sort_2\<close> compares two Fixnums as machine words and two strings by \<open>rb_str_cmp\<close> while their \<open><=>\<close> is not redefined.\<close>

definition sort_2 :: "('f, 'o) rb_env \<Rightarrow> ('f, 'o) cmp_env \<Rightarrow> ('f, 'o) rb_value \<Rightarrow> ('f, 'o) rb_value \<Rightarrow> rb_error + int" where
  "sort_2 env ce a b =
     (let general = (case funcall_cmp env ce a b of Inl e \<Rightarrow> Inl e | Inr retval \<Rightarrow> rb_cmpint ce retval) in
      case (a, b) of
        (RInt (VFix x), RInt (VFix y)) \<Rightarrow>
          if fix_basic ce then Inr (if sint y < sint x then 1 else if sint x < sint y then - 1 else 0) else general
      | (RObj x, RObj y) \<Rightarrow>
          (case string_cmp ce x y of
             Some n \<Rightarrow> if string_basic ce then Inr n else general
           | None \<Rightarrow> general)
      | _ \<Rightarrow> general)"

text \<open>\<open>sort_by_cmp\<close> compares the keys, the first components of the pairs.\<close>

definition sort_by_cmp ::
  "('f, 'o) rb_env \<Rightarrow> ('f, 'o) cmp_env \<Rightarrow> ('f, 'o) rb_value \<times> 'v \<Rightarrow> ('f, 'o) rb_value \<times> 'v \<Rightarrow> rb_error + int" where
  "sort_by_cmp env ce p q = (case funcall_cmp env ce (fst p) (fst q) of Inl e \<Rightarrow> Inl e | Inr r \<Rightarrow> rb_cmpint ce r)"

section \<open>The methods\<close>

definition rb_ary_sort_bang :: "('v \<Rightarrow> 'v \<Rightarrow> int) \<Rightarrow> 'v list \<Rightarrow> 'v list option" where
  "rb_ary_sort_bang cmp ary = (if 1 < length ary then ruby_qsort cmp ary else Some ary)"

text \<open>The result, and the receiver after it.\<close>

definition rb_ary_sort :: "('v \<Rightarrow> 'v \<Rightarrow> int) \<Rightarrow> 'v list \<Rightarrow> ('v list \<times> 'v list) option" where
  "rb_ary_sort cmp ary = map_option (\<lambda>sorted. (sorted, ary)) (rb_ary_sort_bang cmp ary)"

text \<open>The elements of \<open>each\<close> are collected in an array first.\<close>

definition enum_sort :: "('v \<Rightarrow> 'v \<Rightarrow> int) \<Rightarrow> 'v list \<Rightarrow> 'v list option" where
  "enum_sort cmp elems = map_option fst (rb_ary_sort cmp elems)"

fun sort_by_i :: "('v \<Rightarrow> rb_error + 'k) \<Rightarrow> 'v list \<Rightarrow> rb_error + ('k \<times> 'v) list" where
  "sort_by_i key [] = Inr []"
| "sort_by_i key (i # is) =
     (case key i of
        Inl e \<Rightarrow> Inl e
      | Inr k \<Rightarrow> (case sort_by_i key is of Inl e \<Rightarrow> Inl e | Inr ary \<Rightarrow> Inr ((k, i) # ary)))"

definition enum_sort_by :: "('k \<times> 'v \<Rightarrow> 'k \<times> 'v \<Rightarrow> int) \<Rightarrow> ('v \<Rightarrow> rb_error + 'k) \<Rightarrow> 'v list \<Rightarrow> (rb_error + 'v list) option" where
  "enum_sort_by cmp key elems =
     (case sort_by_i key elems of
        Inl e \<Rightarrow> Some (Inl e)
      | Inr ary \<Rightarrow>
          map_option (\<lambda>ary. Inr (map snd ary)) (if 1 < length ary then ruby_qsort cmp ary else Some ary))"

section \<open>Sorting by an integer\<close>

text \<open>The comparison by the difference of two integers, in sign.\<close>

definition order_by :: "('v \<Rightarrow> int) \<Rightarrow> 'v \<Rightarrow> 'v \<Rightarrow> int" where
  "order_by V x y = sgn (V x - V y)"

lemma order_by_total: "total_cmp (order_by V)"
  by (auto simp: total_cmp_def order_by_def sgn_if)

lemma order_by_le: "order_by V x y \<le> 0 \<longleftrightarrow> V x \<le> V y"
  by (auto simp: order_by_def sgn_if)

lemma sorted_by_int: "(\<forall>i j. i < j \<and> j < length ys \<longrightarrow> order_by V (ys ! i) (ys ! j) \<le> 0) \<Longrightarrow> sorted (map V ys)"
  by (auto simp: order_by_le sorted_iff_nth_mono_less)

lemma ary_sort_any:
  assumes "length vs < 2 ^ 31"
  shows "\<exists>ys. rb_ary_sort_bang cmp vs = Some ys \<and> mset ys = mset vs
    \<and> (total_cmp cmp \<longrightarrow> (\<forall>i j. i < j \<and> j < length ys \<longrightarrow> cmp (ys ! i) (ys ! j) \<le> 0))"
proof (cases "1 < length vs")
  case True
  then show ?thesis using ruby_qsort_ok [OF assms, of cmp] by (simp add: rb_ary_sort_bang_def)
next
  case False
  then have "\<not> (i < j \<and> j < length vs)" for i j by arith
  then show ?thesis using False by (simp add: rb_ary_sort_bang_def)
qed

lemma ary_sort_by_int:
  assumes "length vs < 2 ^ 31"
  shows "\<exists>ys. rb_ary_sort_bang (order_by V) vs = Some ys \<and> mset ys = mset vs \<and> map V ys = sort (map V vs)"
proof -
  from ary_sort_any [OF assms, of "order_by V"] obtain ys where
    ys: "rb_ary_sort_bang (order_by V) vs = Some ys" "mset ys = mset vs"
      "\<forall>i j. i < j \<and> j < length ys \<longrightarrow> order_by V (ys ! i) (ys ! j) \<le> 0" using order_by_total [of V] by blast
  have "mset (map V ys) = mset (map V vs)" using ys(2) by simp
  then have "sort (map V vs) = map V ys" using properties_for_sort sorted_by_int [OF ys(3)] by blast
  then show ?thesis using ys by auto
qed

text \<open>On Integers, \<open>sort_2\<close> and \<open>sort_by_cmp\<close> are this comparison: the words of two Fixnums are ordered as the numbers.\<close>

lemma fixnum_words: "normal_int (VFix x) \<Longrightarrow> sint x = 2 * int_of (VFix x) + 1"
  by (auto simp: sint_LONG2FIX FIX2LONG_LONG2FIX)

lemma sort_2_integers:
  assumes "fix_basic ce" "big_basic ce" "normal_int v" "normal_int w"
  shows "sort_2 env ce (RInt v) (RInt w) = Inr (order_by int_of v w)"
proof (cases "\<exists>x y. v = VFix x \<and> w = VFix y")
  case True
  then obtain x y where e: "v = VFix x" "w = VFix y" by blast
  show ?thesis using fixnum_words [of x] fixnum_words [of y] assms
    by (auto simp: sort_2_def e order_by_def sgn_if simp del: normal_int.simps int_of.simps)
next
  case False
  then show ?thesis using compare_integers [OF assms, of env]
    by (cases v; cases w) (auto simp: sort_2_def compare_def order_by_def Let_def)
qed

lemma sort_by_cmp_integers:
  assumes "fix_basic ce" "big_basic ce" "normal_int v" "normal_int w"
  shows "sort_by_cmp env ce (RInt v, a) (RInt w, b) = Inr (order_by (\<lambda>p. integer_value (fst p)) (RInt v, a) (RInt w, b))"
  using compare_integers [OF assms, of env] by (simp add: sort_by_cmp_def compare_def order_by_def integer_value_def)

lemma sort_by_i_keys: "\<forall>v \<in> set vs. key v = Inr (k v) \<Longrightarrow> sort_by_i key vs = Inr (map (\<lambda>v. (k v, v)) vs)"
  by (induction vs) simp_all

lemma sort_by_i_error: "key v = Inl e \<Longrightarrow> \<forall>w \<in> set us. \<exists>k. key w = Inr k \<Longrightarrow> sort_by_i key (us @ v # vs) = Inl e"
  by (induction us) auto

lemma enum_sort_by_int:
  assumes "length vs < 2 ^ 31" "\<forall>v \<in> set vs. key v = Inr (k v)"
  shows "\<exists>ys. enum_sort_by (order_by (\<lambda>p. V (fst p))) key vs = Some (Inr ys) \<and> mset ys = mset vs
    \<and> map (\<lambda>v. V (k v)) ys = sort (map (\<lambda>v. V (k v)) vs)"
proof -
  define ps where "ps = map (\<lambda>v. (k v, v)) vs"
  have "length ps < 2 ^ 31" using assms(1) by (simp add: ps_def)
  from ary_sort_by_int [OF this, of "\<lambda>p. V (fst p)"] obtain qs where
    qs: "rb_ary_sort_bang (order_by (\<lambda>p. V (fst p))) ps = Some qs" "mset qs = mset ps"
      "map (\<lambda>p. V (fst p)) qs = sort (map (\<lambda>p. V (fst p)) ps)" by blast
  have "\<forall>p \<in> set qs. fst p = k (snd p)" using mset_eq_setD [OF qs(2)] by (auto simp: ps_def)
  then have keys: "map (\<lambda>p. V (fst p)) qs = map (\<lambda>v. V (k v)) (map snd qs)" by simp
  have "mset (map snd qs) = image_mset snd (mset ps)" using qs(2) by simp
  also have "\<dots> = mset (map snd ps)" by simp
  also have "map snd ps = vs" by (simp add: ps_def comp_def)
  finally have "mset (map snd qs) = mset vs" .
  moreover have "enum_sort_by (order_by (\<lambda>p. V (fst p))) key vs = Some (Inr (map snd qs))"
    using qs(1) by (simp add: enum_sort_by_def sort_by_i_keys [OF assms(2)] rb_ary_sort_bang_def ps_def [symmetric])
  moreover have "map (\<lambda>v. V (k v)) (map snd qs) = sort (map (\<lambda>v. V (k v)) vs)"
    using qs(3) keys by (simp add: ps_def comp_def)
  ultimately show ?thesis by blast
qed

end
