(* ===== verification/Ranges.thy ===== *)
theory Ranges
  imports Compare
begin

text \<open>
  \<open>lib/ruby/range.c\<close>: creation, membership, the least and the greatest element, iteration over Integers, and \<open>rb_range_beg_len\<close>, which
  turns a range into a part of an array or string.
\<close>

section \<open>Ranges\<close>

record 'v rb_range =
  rg_beg :: 'v
  rg_end :: 'v
  rg_excl :: bool

definition range_init ::
  "('f, 'o) rb_env \<Rightarrow> ('f, 'o) cmp_env \<Rightarrow> ('f, 'o) rb_value \<Rightarrow> ('f, 'o) rb_value \<Rightarrow> bool \<Rightarrow> rb_error + ('f, 'o) rb_value rb_range" where
  "range_init env ce b e exclude_end =
     (let made = Inr \<lparr>rg_beg = b, rg_end = e, rg_excl = exclude_end\<rparr> in
      case (b, e) of
        (RInt (VFix _), RInt (VFix _)) \<Rightarrow> made
      | _ \<Rightarrow>
          (case funcall_cmp env ce b e of
             Inl err \<Rightarrow> Inl (if standard_error err then ArgError else err)
           | Inr RNil \<Rightarrow> Inl ArgError
           | Inr _ \<Rightarrow> made))"

text \<open>\<open>r_le\<close> returns one of three words.\<close>

definition Qfalse :: u32 where "Qfalse = 0"

definition Qtrue :: u32 where "Qtrue = 2"

definition r_lt :: "('f, 'o) rb_env \<Rightarrow> ('f, 'o) cmp_env \<Rightarrow> ('f, 'o) rb_value \<Rightarrow> ('f, 'o) rb_value \<Rightarrow> rb_error + u32" where
  "r_lt env ce a b =
     (case funcall_cmp env ce a b of
        Inl e \<Rightarrow> Inl e
      | Inr RNil \<Rightarrow> Inr Qfalse
      | Inr r \<Rightarrow> map_sum id (\<lambda>c. if c < 0 then Qtrue else Qfalse) (rb_cmpint ce r))"

definition r_le :: "('f, 'o) rb_env \<Rightarrow> ('f, 'o) cmp_env \<Rightarrow> ('f, 'o) rb_value \<Rightarrow> ('f, 'o) rb_value \<Rightarrow> rb_error + u32" where
  "r_le env ce a b =
     (case funcall_cmp env ce a b of
        Inl e \<Rightarrow> Inl e
      | Inr RNil \<Rightarrow> Inr Qfalse
      | Inr r \<Rightarrow> map_sum id (\<lambda>c. if c = 0 then LONG2FIX 0 else if c < 0 then Qtrue else Qfalse) (rb_cmpint ce r))"

definition range_cover ::
  "('f, 'o) rb_env \<Rightarrow> ('f, 'o) cmp_env \<Rightarrow> ('f, 'o) rb_value rb_range \<Rightarrow> ('f, 'o) rb_value \<Rightarrow> rb_error + bool" where
  "range_cover env ce rg val =
     (case r_le env ce (rg_beg rg) val of
        Inl e \<Rightarrow> Inl e
      | Inr c \<Rightarrow>
          if c \<noteq> Qfalse then
            if rg_excl rg then map_sum id (\<lambda>c. c \<noteq> Qfalse) (r_lt env ce val (rg_end rg))
            else map_sum id (\<lambda>c. c \<noteq> Qfalse) (r_le env ce val (rg_end rg))
          else Inr False)"

text \<open>\<open>range_include\<close> where one end is a number; \<open>range_eqq\<close> calls it.\<close>

definition range_include ::
  "('f, 'o) rb_env \<Rightarrow> ('f, 'o) cmp_env \<Rightarrow> ('f, 'o) rb_value rb_range \<Rightarrow> ('f, 'o) rb_value \<Rightarrow> rb_error + bool" where
  "range_include env ce rg val =
     (case r_le env ce (rg_beg rg) val of
        Inl e \<Rightarrow> Inl e
      | Inr c \<Rightarrow>
          if c \<noteq> Qfalse then
            if rg_excl rg then map_sum id (\<lambda>c. c \<noteq> Qfalse) (r_lt env ce val (rg_end rg))
            else map_sum id (\<lambda>c. c \<noteq> Qfalse) (r_le env ce val (rg_end rg))
          else Inr False)"

text \<open>\<open>range_min\<close> and \<open>range_max\<close> without a block; \<open>RNil\<close> for an empty range.\<close>

definition range_min :: "('f, 'o) rb_env \<Rightarrow> ('f, 'o) cmp_env \<Rightarrow> ('f, 'o) rb_value rb_range \<Rightarrow> ('f, 'o) rb_result" where
  "range_min env ce rg =
     (case compare env ce (rg_beg rg) (rg_end rg) of
        Inl e \<Rightarrow> Inl e
      | Inr c \<Rightarrow> Inr (if 0 < c \<or> c = 0 \<and> rg_excl rg then RNil else rg_beg rg))"

text \<open>The end is an Integer, or the range includes it: the other ranges ask \<open>Enumerable#max\<close>, the parameter \<open>super\<close>.\<close>

definition range_max ::
  "('f, 'o) rb_env \<Rightarrow> ('f, 'o) cmp_env \<Rightarrow> ('f, 'o) rb_result \<Rightarrow> ('f, 'o) rb_value rb_range \<Rightarrow> ('f, 'o) rb_result" where
  "range_max env ce super rg =
     (if rg_excl rg \<and> (case rg_end rg of RInt _ \<Rightarrow> False | _ \<Rightarrow> True) then super
      else
        (case compare env ce (rg_beg rg) (rg_end rg) of
           Inl e \<Rightarrow> Inl e
         | Inr c \<Rightarrow>
             if 0 < c then Inr RNil
             else if rg_excl rg then
               if c = 0 then Inr RNil
               else
                 (case rg_end rg of
                    RInt (VFix w) \<Rightarrow> Inr (RInt (rb_int2inum (FIX2LONG w - 1)))
                  | RInt v \<Rightarrow> int_minus env v (VFix (LONG2FIX 1))
                  | _ \<Rightarrow> super)
             else Inr (rg_end rg)))"

section \<open>Iteration over Integers\<close>

text \<open>The Integers that are passed to the block, as in \<open>IntegerOps\<close>: a loop that did not end, or met an error, would be \<open>None\<close>.\<close>

partial_function (option) each_fix :: "u32 \<Rightarrow> u32 \<Rightarrow> rb_int list option" where
  "each_fix i lim =
     (if sint i < sint lim
      then do { ys \<leftarrow> each_fix (i + 1) lim; Some (VFix (LONG2FIX i) # ys) }
      else Some [])"

declare each_fix.simps [code]

text \<open>\<open>range_each_func\<close> for a range that excludes and for one that includes its end.\<close>

partial_function (option) each_excl ::
  "('f, 'o) rb_env \<Rightarrow> ('f, 'o) cmp_env \<Rightarrow> rb_int \<Rightarrow> rb_int \<Rightarrow> rb_int list option" where
  "each_excl env ce v e =
     (case r_lt env ce (RInt v) (RInt e) of
        Inl _ \<Rightarrow> None
      | Inr c \<Rightarrow>
          if c \<noteq> Qfalse then
            (case int_succ env v of
               Inr (RInt w) \<Rightarrow> do { ys \<leftarrow> each_excl env ce w e; Some (v # ys) }
             | _ \<Rightarrow> None)
          else Some [])"

declare each_excl.simps [code]

partial_function (option) each_incl ::
  "('f, 'o) rb_env \<Rightarrow> ('f, 'o) cmp_env \<Rightarrow> rb_int \<Rightarrow> rb_int \<Rightarrow> rb_int list option" where
  "each_incl env ce v e =
     (case r_le env ce (RInt v) (RInt e) of
        Inl _ \<Rightarrow> None
      | Inr c \<Rightarrow>
          if c \<noteq> Qfalse then
            if c = LONG2FIX 0 then Some [v]
            else
              (case int_succ env v of
                 Inr (RInt w) \<Rightarrow> do { ys \<leftarrow> each_incl env ce w e; Some (v # ys) }
               | _ \<Rightarrow> None)
          else Some [])"

declare each_incl.simps [code]

definition range_each :: "('f, 'o) rb_env \<Rightarrow> ('f, 'o) cmp_env \<Rightarrow> rb_int rb_range \<Rightarrow> rb_int list option" where
  "range_each env ce rg =
     (case (rg_beg rg, rg_end rg) of
        (VFix b, VFix e) \<Rightarrow>
          let lim = FIX2LONG e; lim = (if \<not> rg_excl rg then lim + 1 else lim) in each_fix (FIX2LONG b) lim
      | (b, e) \<Rightarrow> if rg_excl rg then each_excl env ce b e else each_incl env ce b e)"

partial_function (option) range_step_fix :: "u32 \<Rightarrow> u32 \<Rightarrow> u32 \<Rightarrow> rb_int list option" where
  "range_step_fix i end unit =
     (if sint i < sint end then
        if sint (i + unit) < sint i then Some [rb_int2inum i]
        else do { ys \<leftarrow> range_step_fix (i + unit) end unit; Some (rb_int2inum i # ys) }
      else Some [])"

declare range_step_fix.simps [code]

text \<open>\<open><=\<close> of Integers: \<open>fix_le\<close>, and \<open>cmp_le\<close> of \<open>Comparable\<close> for a \<open>Bignum\<close>; \<open><\<close> is \<open>int_lt\<close>.\<close>

definition int_le :: "('f, 'o) rb_env \<Rightarrow> ('f, 'o) cmp_env \<Rightarrow> rb_int \<Rightarrow> rb_int \<Rightarrow> ('f, 'o) rb_result" where
  "int_le env ce v w =
     (case v of VFix x \<Rightarrow> fix_le env x (RInt w) | VBig b \<Rightarrow> map_sum id RBool (cmp_le env ce (RInt v) (RInt w)))"

partial_function (option) range_step_calls ::
  "('f, 'o) rb_env \<Rightarrow> ('f, 'o) cmp_env \<Rightarrow> bool \<Rightarrow> rb_int \<Rightarrow> rb_int \<Rightarrow> rb_int \<Rightarrow> rb_int list option" where
  "range_step_calls env ce excl b e step =
     (if (if excl then int_lt env b e else int_le env ce b e) = Inr (RBool True) then
        (case int_plus env b step of
           Inr (RInt w) \<Rightarrow> do { ys \<leftarrow> range_step_calls env ce excl w e step; Some (b # ys) }
         | _ \<Rightarrow> None)
      else Some [])"

declare range_step_calls.simps [code]

definition range_step ::
  "('f, 'o) rb_env \<Rightarrow> ('f, 'o) cmp_env \<Rightarrow> rb_int rb_range \<Rightarrow> rb_int option \<Rightarrow> (rb_error + rb_int list) option" where
  "range_step env ce rg arg =
     (let step = (case arg of None \<Rightarrow> VFix (LONG2FIX 1) | Some st \<Rightarrow> st);
          zero = VFix (LONG2FIX 0) in
      if arg \<noteq> None \<and> int_lt env step zero \<noteq> Inr (RBool False) then Some (Inl ArgError)
      else if arg \<noteq> None \<and> int_gt env step zero = Inr (RBool False) then Some (Inl ArgError)
      else
        map_option Inr
          (case (rg_beg rg, rg_end rg, step) of
             (VFix b, VFix e, VFix d) \<Rightarrow>
               let end = FIX2LONG e; end = (if \<not> rg_excl rg then end + 1 else end) in
               range_step_fix (FIX2LONG b) end (FIX2LONG d)
           | (b, e, _) \<Rightarrow> range_step_calls env ce (rg_excl rg) b e step))"

text \<open>\<open>first(n)\<close>: an array for \<open>n\<close> elements is made, and the block breaks out of \<open>each\<close>.\<close>

definition ARY_MAX_SIZE :: int where
  "ARY_MAX_SIZE = 536870911"

fun first_i :: "u32 \<Rightarrow> 'v list \<Rightarrow> 'v list" where
  "first_i n [] = []"
| "first_i n (i # is) = (if sint n \<le> 0 then [] else i # first_i (n - 1) is)"

definition range_first :: "u32 \<Rightarrow> 'v list \<Rightarrow> rb_error + 'v list" where
  "range_first n elems = (if sint n < 0 \<or> ARY_MAX_SIZE < sint n then Inl ArgError else Inr (first_i n elems))"

section \<open>Parts of an array\<close>

text \<open>\<open>beg\<close> and \<open>end\<close> are the ends of the range after \<open>NUM2LONG\<close>; \<open>Inr None\<close> is the answer \<open>nil\<close>.\<close>

definition rb_range_beg_len :: "u32 \<Rightarrow> u32 \<Rightarrow> bool \<Rightarrow> u32 \<Rightarrow> u32 \<Rightarrow> rb_error + (u32 \<times> u32) option" where
  "rb_range_beg_len beg end excl len err =
     (let out_of_range = (if err \<noteq> 0 then Inl RangeError else Inr None);
          beg' = (if sint beg < 0 then beg + len else beg) in
      if sint beg < 0 \<and> sint beg' < 0 then out_of_range
      else if (err = 0 \<or> err = 2) \<and> sint len < sint beg' then out_of_range
      else
        let end' = (if (err = 0 \<or> err = 2) \<and> sint len < sint end then len else end);
            end' = (if sint end' < 0 then end' + len else end');
            end' = (if \<not> excl then end' + 1 else end');
            n = end' - beg' in
        Inr (Some (beg', if sint n < 0 then 0 else n)))"

section \<open>Membership and extremes\<close>

text \<open>The greatest integer that a range may hold, and its integers.\<close>

definition last_value :: "rb_int rb_range \<Rightarrow> int" where
  "last_value rg = int_of (rg_end rg) - (if rg_excl rg then 1 else 0)"

definition range_values :: "rb_int rb_range \<Rightarrow> int list" where
  "range_values rg = [int_of (rg_beg rg) .. last_value rg]"

definition int_range :: "rb_int rb_range \<Rightarrow> bool" where
  "int_range rg \<longleftrightarrow> normal_int (rg_beg rg) \<and> normal_int (rg_end rg)"

text \<open>The range as an object of the interpreter.\<close>

definition value_range :: "rb_int rb_range \<Rightarrow> ('f, 'o) rb_value rb_range" where
  "value_range rg = \<lparr>rg_beg = RInt (rg_beg rg), rg_end = RInt (rg_end rg), rg_excl = rg_excl rg\<rparr>"

lemma value_range_simps [simp]:
  "rg_beg (value_range rg) = RInt (rg_beg rg)" "rg_end (value_range rg) = RInt (rg_end rg)" "rg_excl (value_range rg) = rg_excl rg"
  by (simp_all add: value_range_def)

definition basic :: "('f, 'o) cmp_env \<Rightarrow> bool" where
  "basic ce \<longleftrightarrow> fix_basic ce \<and> big_basic ce"

lemma r_words [simp]: "Qfalse \<noteq> Qtrue" "Qtrue \<noteq> Qfalse" "LONG2FIX 0 \<noteq> Qfalse" "Qtrue \<noteq> LONG2FIX 0" "LONG2FIX 0 \<noteq> Qtrue"
  by (simp_all add: Qfalse_def Qtrue_def LONG2FIX_def)

lemma funcall_cmp_sgn:
  assumes "basic ce" "normal_int v" "normal_int w"
  shows "funcall_cmp env ce (RInt v) (RInt w) = Inr (INT2FIX (sgn (int_of v - int_of w)))"
  using int_cmp_sgn(1) [OF assms(2,3), of env] assms(1) by (simp add: basic_def funcall_cmp_int)

lemma r_integers:
  assumes "basic ce" "normal_int v" "normal_int w"
  shows "r_lt env ce (RInt v) (RInt w) = Inr (if int_of v < int_of w then Qtrue else Qfalse)"
    "r_le env ce (RInt v) (RInt w) = Inr (if int_of v = int_of w then LONG2FIX 0 else if int_of v < int_of w then Qtrue else Qfalse)"
  using rb_cmpint_INT2FIX [of "sgn (int_of v - int_of w)" ce]
  by (auto simp: r_lt_def r_le_def funcall_cmp_sgn [OF assms] sgn_if INT2FIX_def)

lemma range_membership:
  assumes "basic ce" "int_range rg" "normal_int v"
  shows "range_cover env ce (value_range rg) (RInt v) = Inr (int_of v \<in> set (range_values rg))"
    and "range_include env ce (value_range rg) (RInt v) = Inr (int_of v \<in> set (range_values rg))"
  using assms by (auto simp: range_cover_def range_include_def int_range_def r_integers range_values_def last_value_def)

lemma range_min_integers:
  assumes "basic ce" "int_range rg"
  shows "range_min env ce (value_range rg) = Inr (if range_values rg = [] then RNil else RInt (rg_beg rg))"
  using assms compare_integers [of ce "rg_beg rg" "rg_end rg" env]
  by (auto simp: range_min_def int_range_def basic_def range_values_def last_value_def sgn_if)

lemma range_max_integers:
  assumes "basic ce" "int_range rg" and "range_values rg = []"
  shows "range_max env ce super (value_range rg) = Inr RNil"
  using assms compare_integers [of ce "rg_beg rg" "rg_end rg" env]
  by (auto simp: range_max_def int_range_def basic_def range_values_def last_value_def sgn_if split: if_splits)

lemma range_max_last:
  assumes "basic ce" "int_range rg" and "range_values rg \<noteq> []"
  shows "\<exists>v. range_max env ce super (value_range rg) = Inr (RInt v) \<and> normal_int v \<and> int_of v = last_value rg"
proof -
  have le: "int_of (rg_beg rg) \<le> last_value rg" using assms(3) by (simp add: range_values_def)
  have c: "compare env ce (RInt (rg_beg rg)) (RInt (rg_end rg)) = Inr (sgn (int_of (rg_beg rg) - int_of (rg_end rg)))"
    using assms by (intro compare_integers) (auto simp: basic_def int_range_def)
  have e: "normal_int (rg_end rg)" using assms(2) by (simp add: int_range_def)
  show ?thesis
  proof (cases "rg_excl rg")
    case False
    then show ?thesis using le e by (auto simp: range_max_def c last_value_def sgn_if)
  next
    case True
    then have lt: "int_of (rg_beg rg) < int_of (rg_end rg)" using le by (simp add: last_value_def)
    show ?thesis
    proof (cases "rg_end rg")
      case (VFix w)
      have "sint (FIX2LONG w - 1) = int_of (rg_end rg) - 1"
        using fix_range [of w] e VFix by (simp add: sint_diff_nowrap_u32)
      then show ?thesis using True lt VFix rb_int2inum_correct [of "FIX2LONG w - 1"]
        by (auto simp: range_max_def c [unfolded VFix] last_value_def sgn_if simp del: normal_int.simps)
    next
      case (VBig b)
      then show ?thesis using True lt e int_minus_exact [OF _ normal_one(1), of "VBig b" env] normal_one(2)
        by (auto simp: range_max_def c [unfolded VBig] last_value_def sgn_if simp del: normal_int.simps int_of.simps)
    qed
  qed
qed

section \<open>Iteration\<close>

lemma steps_upto: "map (\<lambda>k. a + int k * 1) [0..<steps a b 1] = [a..b]"
  by (rule nth_equalityI) (simp_all add: steps_def)

text \<open>The fixnum loop: the limit is one beyond a fixnum at most.\<close>

interpretation range_each_fix: counting_loop "\<lambda>i. each_fix i lim" "\<lambda>i. - (2 ^ 30) \<le> sint i \<and> sint lim \<le> 2 ^ 30"
    "\<lambda>i. sint i < sint lim" "\<lambda>i. i + 1" "\<lambda>i. VFix (LONG2FIX i)" sint "sint lim - 1" 1
  for lim :: u32
proof (unfold_locales, goal_cases)
  case (5 i)
  then have "FIXABLE (sint i)" by (simp add: fixable_defs)
  then show ?case by (auto simp: FIX2LONG_LONG2FIX)
qed (subst each_fix.simps, simp_all add: sint_add_nowrap_u32)

lemma int_succ_exact:
  "normal_int v \<Longrightarrow> \<exists>r. int_succ env v = Inr (RInt r) \<and> normal_int r \<and> int_of r = int_of v + 1"
proof (cases v)
  case (VFix x)
  assume "normal_int v"
  then have "sint (FIX2LONG x + 1) = int_of v + 1" using fix_range [of x] VFix by (simp add: sint_add_nowrap_u32)
  then show ?thesis using rb_int2inum_correct [of "FIX2LONG x + 1"] by (simp add: int_succ_def VFix)
next
  case (VBig b)
  assume "normal_int v"
  then show ?thesis using int_plus_exact [OF _ normal_one(1), of v env] normal_one(2) by (simp add: int_succ_def VBig)
qed

lemma pick_succ:
  assumes "normal_int i"
  shows "int_succ env i = Inr (RInt (pick (int_succ env i)))"
    and "normal_int (pick (int_succ env i))" and "int_of (pick (int_succ env i)) = int_of i + 1"
  using int_succ_exact [OF assms, of env] by (auto simp: pick_def simp del: normal_int.simps)

interpretation range_excl: counting_loop "\<lambda>i. each_excl env ce i e" "\<lambda>i. basic ce \<and> normal_int i \<and> normal_int e"
    "\<lambda>i. int_of i < int_of e" "\<lambda>i. pick (int_succ env i)" "\<lambda>i. i" int_of "int_of e - 1" 1
  for env :: "('f, 'o) rb_env" and ce :: "('f, 'o) cmp_env" and e :: rb_int
proof (unfold_locales, goal_cases)
  case (1 i)
  then obtain r where "int_succ env i = Inr (RInt r)" using int_succ_exact by blast
  with 1 show ?case by (subst each_excl.simps) (simp add: r_integers pick_def)
qed (auto simp: pick_succ(2,3) simp del: normal_int.simps int_of.simps)

lemma each_incl_beyond:
  "basic ce \<Longrightarrow> normal_int i \<Longrightarrow> normal_int e \<Longrightarrow> int_of e < int_of i \<Longrightarrow> each_incl env ce i e = Some []"
  by (subst each_incl.simps) (simp add: r_integers)

interpretation range_incl: counting_loop "\<lambda>i. each_incl env ce i e" "\<lambda>i. basic ce \<and> normal_int i \<and> normal_int e"
    "\<lambda>i. int_of i \<le> int_of e" "\<lambda>i. pick (int_succ env i)" "\<lambda>i. i" int_of "int_of e" 1
  for env :: "('f, 'o) rb_env" and ce :: "('f, 'o) cmp_env" and e :: rb_int
proof (unfold_locales, goal_cases)
  case (1 i)
  then obtain r where r: "int_succ env i = Inr (RInt r)" "normal_int r" "int_of r = int_of i + 1" using int_succ_exact by blast
  show ?case
  proof (cases "int_of i = int_of e")
    case True
    have "each_incl env ce r e = Some []" using 1 r True by (intro each_incl_beyond) auto
    with True 1 r(1) show ?thesis by (subst each_incl.simps) (simp add: r_integers pick_def)
  next
    case False
    with 1 r(1) show ?thesis by (subst each_incl.simps) (simp add: r_integers pick_def)
  qed
qed (auto simp: pick_succ(2,3) simp del: normal_int.simps int_of.simps)

lemma range_each_exact:
  assumes "basic ce" "int_range rg"
  shows "\<exists>ys. range_each env ce rg = Some ys \<and> (\<forall>y \<in> set ys. normal_int y) \<and> map int_of ys = range_values rg"
proof -
  have n: "normal_int (rg_beg rg)" "normal_int (rg_end rg)" using assms(2) by (simp_all add: int_range_def)
  have "\<exists>ys. range_each env ce rg = Some ys \<and> emits ys (int_of (rg_beg rg)) 1 (steps (int_of (rg_beg rg)) (last_value rg) 1)"
  proof (cases "\<exists>x y. rg_beg rg = VFix x \<and> rg_end rg = VFix y")
    case True
    then obtain x y where e: "rg_beg rg = VFix x" "rg_end rg = VFix y" by blast
    define lim where "lim = (if \<not> rg_excl rg then FIX2LONG y + 1 else FIX2LONG y)"
    have r: "- (2 ^ 30) \<le> sint (FIX2LONG x)" "sint (FIX2LONG y) < 2 ^ 30" "- (2 ^ 30) \<le> sint (FIX2LONG y)"
      using fix_range [of x] fix_range [of y] n e by auto
    then have "sint lim = last_value rg + 1" "sint lim \<le> 2 ^ 30" by (simp_all add: lim_def last_value_def e sint_add_nowrap_u32)
    then show ?thesis using range_each_fix.counts [of "FIX2LONG x" lim] r by (simp add: range_each_def e lim_def Let_def)
  next
    case False
    then have each: "range_each env ce rg
        = (if rg_excl rg then each_excl env ce (rg_beg rg) (rg_end rg) else each_incl env ce (rg_beg rg) (rg_end rg))"
      by (cases "rg_beg rg"; cases "rg_end rg") (auto simp: range_each_def)
    show ?thesis
      using range_excl.counts [of ce "rg_beg rg" "rg_end rg" env] range_incl.counts [of ce "rg_beg rg" "rg_end rg" env] assms(1) n
      by (simp add: each last_value_def)
  qed
  then show ?thesis by (simp only: emits_def steps_upto range_values_def)
qed

lemma int_le_exact:
  assumes "basic ce" "normal_int v" "normal_int w"
  shows "int_le env ce v w = Inr (RBool (int_of v \<le> int_of w))"
proof (cases v)
  case (VBig b)
  then show ?thesis using cmp_integers(4) [of ce v w env] assms by (simp add: int_le_def basic_def del: normal_int.simps int_of.simps)
next
  case (VFix x)
  show ?thesis
  proof (cases w)
    case (VFix y)
    then show ?thesis using \<open>v = VFix x\<close> by (simp add: int_le_def fix_le_def)
  next
    case (VBig b)
    have "big_int (to_big v) \<noteq> 0 \<or> big_int (to_big w) \<noteq> 0" using VBig normal_big_nonzero assms(3) by auto
    then show ?thesis
      using big_cmp_big_nonzero [OF digits_ok_to_big [OF assms(2)] digits_ok_to_big [OF assms(3)]] VBig \<open>v = VFix x\<close>
      by (auto simp: int_le_def fix_le_def to_big_def sgn_if)
  qed
qed

interpretation range_step_small: counting_loop "\<lambda>i. range_step_fix i lim unit"
    "\<lambda>i. - (2 ^ 30) \<le> sint i \<and> sint lim \<le> 2 ^ 30 \<and> 0 < sint unit \<and> sint unit < 2 ^ 30"
    "\<lambda>i. sint i < sint lim" "\<lambda>i. i + unit" rb_int2inum sint "sint lim - 1" "sint unit"
  for lim unit :: u32
proof (unfold_locales, goal_cases)
  case (1 i)
  show ?case
  proof (cases "sint i < sint lim")
    case True
    then have "sint (i + unit) = sint i + sint unit" using 1 by (intro sint_add_nowrap_u32) auto
    with 1 True show ?thesis by (subst range_step_fix.simps) simp
  qed (subst range_step_fix.simps, simp)
qed (auto simp: sint_add_nowrap_u32 rb_int2inum_correct simp del: normal_int.simps)

interpretation range_step_any: counting_loop "\<lambda>i. range_step_calls env ce excl i e st"
    "\<lambda>i. basic ce \<and> normal_int i \<and> normal_int e \<and> normal_int st \<and> 0 < int_of st"
    "\<lambda>i. if excl then int_of i < int_of e else int_of i \<le> int_of e" "\<lambda>i. pick (int_plus env i st)" "\<lambda>i. i" int_of
    "int_of e - (if excl then 1 else 0)" "int_of st"
  for env :: "('f, 'o) rb_env" and ce :: "('f, 'o) cmp_env" and excl :: bool and e st :: rb_int
proof (unfold_locales, goal_cases)
  case (1 i)
  then obtain r where "int_plus env i st = Inr (RInt r)" using int_plus_exact by blast
  with 1 show ?case by (subst range_step_calls.simps) (simp add: int_le_exact int_cmp_sgn(3) pick_def)
qed (auto simp: pick_plus(2,3) simp del: normal_int.simps int_of.simps)

lemma range_step_exact:
  assumes "basic ce" "int_range rg" "normal_int st" "0 < int_of st"
  shows "\<exists>ys. range_step env ce rg (Some st) = Some (Inr ys)
    \<and> emits ys (int_of (rg_beg rg)) (int_of st) (steps (int_of (rg_beg rg)) (last_value rg) (int_of st))"
proof -
  have n: "normal_int (rg_beg rg)" "normal_int (rg_end rg)" using assms(2) by (simp_all add: int_range_def)
  have pos: "int_lt env st (VFix (LONG2FIX 0)) = Inr (RBool False)" "int_gt env st (VFix (LONG2FIX 0)) = Inr (RBool True)"
    using int_cmp_sgn(2,3) [OF assms(3) normal_one(3), of env] assms(4) normal_one(4) by auto
  show ?thesis
  proof (cases "\<exists>x y d. rg_beg rg = VFix x \<and> rg_end rg = VFix y \<and> st = VFix d")
    case True
    then obtain x y d where e: "rg_beg rg = VFix x" "rg_end rg = VFix y" "st = VFix d" by blast
    define lim where "lim = (if \<not> rg_excl rg then FIX2LONG y + 1 else FIX2LONG y)"
    have r: "- (2 ^ 30) \<le> sint (FIX2LONG x)" "sint (FIX2LONG y) < 2 ^ 30" "- (2 ^ 30) \<le> sint (FIX2LONG y)" "sint (FIX2LONG d) < 2 ^ 30"
      using fix_range [of x] fix_range [of y] fix_range [of d] n assms(3) e by auto
    then have "sint lim = last_value rg + 1" "sint lim \<le> 2 ^ 30" by (simp_all add: lim_def last_value_def e sint_add_nowrap_u32)
    then show ?thesis using range_step_small.counts [of "FIX2LONG x" lim "FIX2LONG d"] r assms(4)
      by (auto simp: range_step_def e lim_def Let_def pos [unfolded e])
  next
    case False
    have "range_step env ce rg (Some st) = map_option Inr
        (case (rg_beg rg, rg_end rg, st) of
           (VFix b, VFix e, VFix d) \<Rightarrow>
             let end = FIX2LONG e; end = (if \<not> rg_excl rg then end + 1 else end) in range_step_fix (FIX2LONG b) end (FIX2LONG d)
         | (b, e, _) \<Rightarrow> range_step_calls env ce (rg_excl rg) b e st)"
      by (simp add: range_step_def pos Let_def)
    with False have step: "range_step env ce rg (Some st) = map_option Inr (range_step_calls env ce (rg_excl rg) (rg_beg rg) (rg_end rg) st)"
      by (cases "rg_beg rg"; cases "rg_end rg"; cases st) auto
    show ?thesis using range_step_any.counts [of ce "rg_beg rg" "rg_end rg" st env "rg_excl rg"] assms n
      by (auto simp: step last_value_def)
  qed
qed

lemma range_step_zero:
  "basic ce \<Longrightarrow> normal_int st \<Longrightarrow> int_of st \<le> 0 \<Longrightarrow> range_step env ce rg (Some st) = Some (Inl ArgError)"
  using int_cmp_sgn(2,3) [OF _ normal_one(3), of st env] normal_one(4) by (auto simp: range_step_def Let_def)

lemma first_i_take: "0 \<le> sint n \<Longrightarrow> first_i n xs = take (nat (sint n)) xs"
proof (induction xs arbitrary: n)
  case (Cons x xs)
  show ?case
  proof (cases "sint n = 0")
    case False
    then have "sint (n - 1) = sint n - 1" using Cons.prems sint_u32_bounds [of n] by (simp add: sint_diff_nowrap_u32)
    moreover from this have "first_i (n - 1) xs = take (nat (sint n - 1)) xs" using Cons False by simp
    moreover have "nat (sint n) = Suc (nat (sint n - 1))" using Cons.prems False by simp
    ultimately show ?thesis using Cons.prems False by simp
  qed simp
qed simp

section \<open>The part of an array that a range names\<close>

text \<open>The indices that a range of two C integers selects from \<open>n\<close> elements: negative ends count from behind.\<close>

definition from_behind :: "int \<Rightarrow> int \<Rightarrow> int" where
  "from_behind n i = (if i < 0 then i + n else i)"

definition selects :: "int \<Rightarrow> int \<Rightarrow> bool \<Rightarrow> int \<Rightarrow> nat \<Rightarrow> bool" where
  "selects b e excl n i \<longleftrightarrow> from_behind n b \<le> int i \<and> (if excl then int i < from_behind n e else int i \<le> from_behind n e)"

lemma beg_len_in_range:
  assumes len: "0 \<le> sint len" "sint len < 2 ^ 31 - 1" and err: "err = 0 \<or> err = 2"
    and b: "0 \<le> from_behind (sint len) (sint b)" "from_behind (sint len) (sint b) \<le> sint len"
  shows "\<exists>B L. rb_range_beg_len b e excl len err = Inr (Some (B, L)) \<and> sint B = from_behind (sint len) (sint b)
    \<and> sint L = max 0 (from_behind (sint len) (min (sint e) (sint len)) + (if excl then 0 else 1) - sint B)"
proof -
  note bounds = sint_u32_bounds [of b] sint_u32_bounds [of e]
  define B where "B = (if sint b < 0 then b + len else b)"
  have B: "sint B = from_behind (sint len) (sint b)"
    using len bounds by (simp add: B_def from_behind_def sint_add_nowrap_u32)
  define E where "E = (if sint len < sint e then len else e)"
  define F where "F = (if sint E < 0 then E + len else E)"
  have "sint E = min (sint e) (sint len)" by (simp add: E_def)
  moreover have "sint E \<le> sint len" "- (2 ^ 31) \<le> sint E" using bounds len by (auto simp: E_def)
  ultimately have F: "sint F = from_behind (sint len) (min (sint e) (sint len))" "sint F \<le> sint len" "- (2 ^ 31) + sint len \<le> sint F \<or> 0 \<le> sint F"
    using len by (auto simp: F_def from_behind_def sint_add_nowrap_u32)
  define G where "G = (if \<not> excl then F + 1 else F)"
  have G: "sint G = sint F + (if excl then 0 else 1)" using F len by (auto simp: G_def sint_add_nowrap_u32)
  have D: "sint (G - B) = sint G - sint B"
    using G F len b B by (intro sint_diff_nowrap_u32) auto
  have "rb_range_beg_len b e excl len err = Inr (Some (B, if sint (G - B) < 0 then 0 else G - B))"
  proof -
    have "\<not> (sint b < 0 \<and> sint B < 0)" "\<not> sint len < sint B" "(err = 0 \<or> err = 2) = True" using b B err by auto
    then show ?thesis unfolding rb_range_beg_len_def Let_def B_def E_def F_def G_def by (simp only: if_False simp_thms)
  qed
  then show ?thesis using B D G F(1) by simp
qed

lemma beg_len_outside:
  assumes len: "0 \<le> sint len" "sint len < 2 ^ 31 - 1" and err: "err = 0 \<or> err = 2"
    and b: "\<not> (0 \<le> from_behind (sint len) (sint b) \<and> from_behind (sint len) (sint b) \<le> sint len)"
  shows "rb_range_beg_len b e excl len err = (if err = 0 then Inr None else Inl RangeError)"
proof -
  note bounds = sint_u32_bounds [of b]
  define B where "B = (if sint b < 0 then b + len else b)"
  have "sint B = from_behind (sint len) (sint b)"
    using len bounds by (simp add: B_def from_behind_def sint_add_nowrap_u32)
  then show ?thesis using b err len by (auto simp: rb_range_beg_len_def B_def from_behind_def split: if_splits)
qed

lemma nths_same: "(\<And>i. i < length xs \<Longrightarrow> i \<in> A \<longleftrightarrow> i \<in> B) \<Longrightarrow> nths xs A = nths xs B"
  unfolding nths_def by (rule arg_cong [where f = "map fst"], rule filter_cong) (auto simp: set_zip)

lemma take_drop_nths: "take l (drop b xs) = nths xs {i. b \<le> i \<and> i < b + l}"
proof (induction xs arbitrary: b l)
  case (Cons x xs)
  show ?case
  proof (cases b)
    case 0
    then show ?thesis using nths_upt_eq_take [of "x # xs" l] by (simp add: lessThan_def)
  next
    case (Suc c)
    then show ?thesis using Cons [of l c] by (simp add: nths_Cons Cons)
  qed
qed simp

theorem range_selects:
  assumes xs: "int (length xs) = sint len" "length xs < 2 ^ 31 - 1" and err: "err = 0 \<or> err = 2"
    and r: "rb_range_beg_len b e excl len err = Inr (Some (B, L))"
  shows "take (nat (sint L)) (drop (nat (sint B)) xs) = nths xs {i. selects (sint b) (sint e) excl (sint len) i}"
    and "0 \<le> sint B \<and> sint B \<le> int (length xs)" and "0 \<le> sint L \<and> sint B + sint L \<le> int (length xs) + 1"
proof -
  have len: "0 \<le> sint len" "sint len < 2 ^ 31 - 1" using xs by auto
  have b: "0 \<le> from_behind (sint len) (sint b) \<and> from_behind (sint len) (sint b) \<le> sint len"
    using beg_len_outside [OF len err] r by (cases "err = 0") fastforce+
  with beg_len_in_range [OF len err, of b e excl] r have s: "sint B = from_behind (sint len) (sint b)"
    "sint L = max 0 (from_behind (sint len) (min (sint e) (sint len)) + (if excl then 0 else 1) - sint B)" by auto
  show "0 \<le> sint B \<and> sint B \<le> int (length xs)" using s b xs by simp
  have "from_behind (sint len) (min (sint e) (sint len)) \<le> sint len" using len by (auto simp: from_behind_def)
  then show "0 \<le> sint L \<and> sint B + sint L \<le> int (length xs) + 1" using s b xs by auto
  have "nths xs {i. nat (sint B) \<le> i \<and> i < nat (sint B) + nat (sint L)} = nths xs {i. selects (sint b) (sint e) excl (sint len) i}"
  proof (rule nths_same)
    fix i assume "i < length xs"
    then show "i \<in> {i. nat (sint B) \<le> i \<and> i < nat (sint B) + nat (sint L)} \<longleftrightarrow> i \<in> {i. selects (sint b) (sint e) excl (sint len) i}"
      using s b xs by (auto simp: selects_def from_behind_def min_def split: if_splits)
  qed
  then show "take (nat (sint L)) (drop (nat (sint B)) xs) = nths xs {i. selects (sint b) (sint e) excl (sint len) i}"
    by (simp add: take_drop_nths)
qed

text \<open>An assignment to \<open>a[0..0x7fffffff]\<close> asks with \<open>err = 1\<close>: the end is not cut to the length, and the word after it is negative.\<close>

lemma beg_len_wraps: "0 \<le> sint len \<Longrightarrow> rb_range_beg_len 0 0x7fffffff False len 1 = Inr (Some (0, 0))"
  by (simp add: rb_range_beg_len_def)

end
