(* ===== verification/ArrayHeap.thy ===== *)
theory ArrayHeap
  imports Ranges
begin

text \<open>
  The storage of arrays in \<open>lib/ruby/array.c\<close>.  An array keeps up to three elements in its own cells, or points into a buffer that it owns
  or shares; arrays that share a buffer refer to a hidden object, the root, which owns it and counts them.  The heap maps addresses to
  objects and buffers.  A result \<open>None\<close> stands for an access outside the cells of an object or a buffer, or to freed memory.
\<close>

section \<open>Objects and buffers\<close>

text \<open>
  \<open>struct RArray\<close> with its flags.  The word \<open>ao_aux\<close> is the union \<open>aux\<close>: the capacity of a buffer that is owned, the address of the root, or in
  the root the number of arrays that share it.  \<open>ao_elen\<close> are the two bits of the flags for the length of an embedded array; its cells are in the
  heap, as the code moves elements between them and buffers by pointers.  In C the cells and the fields for a buffer are one union; the functions
  read the fields they need before they write the cells, so that keeping both apart changes nothing.
\<close>

record array_obj =
  ao_embed :: bool
  ao_shared :: bool
  ao_root :: bool
  ao_frozen :: bool
  ao_untrusted :: bool
  ao_elen :: nat
  ao_ptr :: "nat \<times> nat"
  ao_len :: nat
  ao_aux :: int

text \<open>\<open>ah_junk\<close> is what memory holds that was never written; objects and buffers get ascending addresses.\<close>

record 'v ary_heap =
  ah_objs :: "nat \<Rightarrow> array_obj option"
  ah_embed :: "nat \<Rightarrow> 'v list"
  ah_bufs :: "nat \<Rightarrow> 'v list option"
  ah_next_obj :: nat
  ah_next_buf :: nat
  ah_nil :: 'v
  ah_junk :: 'v
  ah_safe_level :: nat

text \<open>A pointer to a cell: in the object itself, or in a buffer.\<close>

type_synonym place = "(nat + nat) \<times> nat"

definition cells_of :: "'v ary_heap \<Rightarrow> nat + nat \<Rightarrow> 'v list option" where
  "cells_of h base = (case base of Inl a \<Rightarrow> map_option (\<lambda>_. ah_embed h a) (ah_objs h a) | Inr b \<Rightarrow> ah_bufs h b)"

definition set_cells :: "nat + nat \<Rightarrow> 'v list \<Rightarrow> 'v ary_heap \<Rightarrow> 'v ary_heap" where
  "set_cells base vs h =
     (case base of Inl a \<Rightarrow> h\<lparr>ah_embed := (ah_embed h)(a := vs)\<rparr> | Inr b \<Rightarrow> h\<lparr>ah_bufs := (ah_bufs h)(b \<mapsto> vs)\<rparr>)"

definition read_cells :: "place \<Rightarrow> nat \<Rightarrow> 'v ary_heap \<Rightarrow> 'v list option" where
  "read_cells p n h =
     do {
       vs \<leftarrow> cells_of h (fst p);
       if snd p + n \<le> length vs then Some (take n (drop (snd p) vs)) else None
     }"

definition write_cells :: "place \<Rightarrow> 'v list \<Rightarrow> 'v ary_heap \<Rightarrow> 'v ary_heap option" where
  "write_cells p xs h =
     do {
       vs \<leftarrow> cells_of h (fst p);
       if snd p + length xs \<le> length vs
       then Some (set_cells (fst p) (take (snd p) vs @ xs @ drop (snd p + length xs) vs) h)
       else None
     }"

text \<open>\<open>MEMCPY\<close> and \<open>MEMMOVE\<close>: all cells are read before one is written.\<close>

definition mem_copy :: "place \<Rightarrow> place \<Rightarrow> nat \<Rightarrow> 'v ary_heap \<Rightarrow> 'v ary_heap option" where
  "mem_copy dst src n h = do { vs \<leftarrow> read_cells src n h; write_cells dst vs h }"

definition place_add :: "place \<Rightarrow> nat \<Rightarrow> place" where
  "place_add p n = (fst p, snd p + n)"

section \<open>Results\<close>

text \<open>A C function ends with a value or an error, and a heap.\<close>

type_synonym ('a, 'v) outcome = "((rb_error + 'a) \<times> 'v ary_heap) option"

definition ret :: "'a \<Rightarrow> 'v ary_heap \<Rightarrow> ('a, 'v) outcome" where
  "ret x h = Some (Inr x, h)"

definition rb_raise :: "rb_error \<Rightarrow> 'v ary_heap \<Rightarrow> ('a, 'v) outcome" where
  "rb_raise e h = Some (Inl e, h)"

definition run :: "('a, 'v) outcome \<Rightarrow> ('a \<Rightarrow> 'v ary_heap \<Rightarrow> ('b, 'v) outcome) \<Rightarrow> ('b, 'v) outcome" where
  "run m f =
     (case m of
        None \<Rightarrow> None
      | Some (Inl e, h) \<Rightarrow> Some (Inl e, h)
      | Some (Inr x, h) \<Rightarrow> f x h)"

section \<open>Fields\<close>

definition RARRAY_EMBED_LEN_MAX :: nat where
  "RARRAY_EMBED_LEN_MAX = 3"

definition ARY_DEFAULT_SIZE :: nat where
  "ARY_DEFAULT_SIZE = 16"

definition RARRAY_LEN :: "array_obj \<Rightarrow> nat" where
  "RARRAY_LEN ob = (if ao_embed ob then ao_elen ob else ao_len ob)"

definition RARRAY_PTR :: "nat \<Rightarrow> array_obj \<Rightarrow> place" where
  "RARRAY_PTR a ob = (if ao_embed ob then (Inl a, 0) else (Inr (fst (ao_ptr ob)), snd (ao_ptr ob)))"

definition ARY_OWNS_HEAP_P :: "array_obj \<Rightarrow> bool" where
  "ARY_OWNS_HEAP_P ob \<longleftrightarrow> \<not> ao_shared ob \<and> \<not> ao_embed ob"

definition ARY_CAPA :: "array_obj \<Rightarrow> int" where
  "ARY_CAPA ob = (if ao_embed ob then int RARRAY_EMBED_LEN_MAX else if ao_root ob then int (RARRAY_LEN ob) else ao_aux ob)"

definition FL_SET_EMBED :: "array_obj \<Rightarrow> array_obj" where
  "FL_SET_EMBED ob = ob\<lparr>ao_embed := True\<rparr>"

definition FL_UNSET_EMBED :: "array_obj \<Rightarrow> array_obj" where
  "FL_UNSET_EMBED ob = ob\<lparr>ao_embed := False, ao_elen := 0\<rparr>"

definition update :: "nat \<Rightarrow> (array_obj \<Rightarrow> array_obj) \<Rightarrow> 'v ary_heap \<Rightarrow> 'v ary_heap" where
  "update a f h = h\<lparr>ah_objs := (ah_objs h)(a := map_option f (ah_objs h a))\<rparr>"

text \<open>A length that does not fit the two bits of an embedded array would overwrite other flags.\<close>

definition ARY_SET_LEN :: "nat \<Rightarrow> nat \<Rightarrow> 'v ary_heap \<Rightarrow> 'v ary_heap option" where
  "ARY_SET_LEN a n h =
     do {
       ob \<leftarrow> ah_objs h a;
       if ao_embed ob then
         if n \<le> RARRAY_EMBED_LEN_MAX then Some (update a (\<lambda>ob. ob\<lparr>ao_elen := n\<rparr>) h) else None
       else Some (update a (\<lambda>ob. ob\<lparr>ao_len := n\<rparr>) h)
     }"

definition ARY_INCREASE_PTR :: "nat \<Rightarrow> nat \<Rightarrow> 'v ary_heap \<Rightarrow> 'v ary_heap option" where
  "ARY_INCREASE_PTR a n h =
     do {
       ob \<leftarrow> ah_objs h a;
       if ao_embed ob then None
       else Some (update a (\<lambda>ob. ob\<lparr>ao_ptr := (fst (ao_ptr ob), snd (ao_ptr ob) + n)\<rparr>) h)
     }"

section \<open>Allocation\<close>

text \<open>
  \<open>ALLOC_N\<close>: the number of bytes must fit a \<open>size_t\<close>, and a block of more bytes than the largest \<open>long\<close> is never given; memory suffices otherwise.
\<close>

definition ALLOC_N :: "int \<Rightarrow> 'v ary_heap \<Rightarrow> (nat, 'v) outcome" where
  "ALLOC_N n h =
     (if 2 ^ 30 \<le> n then rb_raise ArgError h
      else if ARY_MAX_SIZE < n then rb_raise NoMemError h
      else
        let b = ah_next_buf h in
        ret b (h\<lparr>ah_bufs := (ah_bufs h)(b \<mapsto> replicate (nat n) (ah_junk h)), ah_next_buf := b + 1\<rparr>))"

definition xfree :: "nat \<times> nat \<Rightarrow> 'v ary_heap \<Rightarrow> 'v ary_heap option" where
  "xfree p h =
     do {
       vs \<leftarrow> ah_bufs h (fst p);
       if snd p = 0 then Some (h\<lparr>ah_bufs := (ah_bufs h)(fst p := None)\<rparr>) else None
     }"

definition REALLOC_N :: "nat \<times> nat \<Rightarrow> int \<Rightarrow> 'v ary_heap \<Rightarrow> (nat, 'v) outcome" where
  "REALLOC_N p n h =
     do {
       vs \<leftarrow> ah_bufs h (fst p);
       run (ALLOC_N n h) (\<lambda>b h.
         do {
           h \<leftarrow> write_cells (Inr b, 0) (take (nat n) vs) h;
           h \<leftarrow> xfree p h;
           ret b h
         })
     }"

section \<open>Capacity and sharing\<close>

definition ary_resize_capa :: "nat \<Rightarrow> int \<Rightarrow> 'v ary_heap \<Rightarrow> (unit, 'v) outcome" where
  "ary_resize_capa a capacity h =
     do {
       ob \<leftarrow> ah_objs h a;
       if int RARRAY_EMBED_LEN_MAX < capacity then
         if ao_embed ob then
           let len = ao_elen ob in
           run (ALLOC_N capacity h) (\<lambda>b h.
             do {
               h \<leftarrow> mem_copy (Inr b, 0) (Inl a, 0) len h;
               ret () (update a (\<lambda>ob. (FL_UNSET_EMBED ob)\<lparr>ao_ptr := (b, 0), ao_len := len, ao_aux := capacity\<rparr>) h)
             })
         else
           run (REALLOC_N (ao_ptr ob) capacity h) (\<lambda>b h.
             ret () (update a (\<lambda>ob. ob\<lparr>ao_ptr := (b, 0), ao_aux := capacity\<rparr>) h))
       else if \<not> ao_embed ob then
         let len = RARRAY_LEN ob; p = ao_ptr ob in
         do {
           h \<leftarrow> mem_copy (Inl a, 0) (Inr (fst p), snd p) len h;
           h \<leftarrow> ARY_SET_LEN a len (update a FL_SET_EMBED h);
           h \<leftarrow> xfree p h;
           ret () h
         }
       else ret () h
     }"

definition rb_ary_free :: "nat \<Rightarrow> 'v ary_heap \<Rightarrow> 'v ary_heap option" where
  "rb_ary_free a h =
     do {
       ob \<leftarrow> ah_objs h a;
       if ARY_OWNS_HEAP_P ob then xfree (ao_ptr ob) h else Some h
     }"

definition rb_ary_decrement_share :: "nat \<Rightarrow> 'v ary_heap \<Rightarrow> 'v ary_heap option" where
  "rb_ary_decrement_share shared h =
     (if shared \<noteq> 0 then
        do {
          s \<leftarrow> ah_objs h shared;
          let num = ao_aux s - 1;
          if num = 0 then
            do { h \<leftarrow> rb_ary_free shared h; Some (h\<lparr>ah_objs := (ah_objs h)(shared := None)\<rparr>) }
          else if 0 < num then Some (update shared (\<lambda>ob. ob\<lparr>ao_aux := num\<rparr>) h)
          else Some h
        }
      else Some h)"

definition rb_ary_unshare :: "nat \<Rightarrow> 'v ary_heap \<Rightarrow> 'v ary_heap option" where
  "rb_ary_unshare a h =
     do {
       ob \<leftarrow> ah_objs h a;
       h \<leftarrow> rb_ary_decrement_share (nat (ao_aux ob)) h;
       Some (update a (\<lambda>ob. ob\<lparr>ao_shared := False\<rparr>) h)
     }"

definition rb_ary_unshare_safe :: "nat \<Rightarrow> 'v ary_heap \<Rightarrow> 'v ary_heap option" where
  "rb_ary_unshare_safe a h =
     do {
       ob \<leftarrow> ah_objs h a;
       if ao_shared ob \<and> \<not> ao_embed ob then rb_ary_unshare a h else Some h
     }"

definition rb_ary_increment_share :: "nat \<Rightarrow> 'v ary_heap \<Rightarrow> 'v ary_heap option" where
  "rb_ary_increment_share shared h =
     do {
       s \<leftarrow> ah_objs h shared;
       Some (if 0 \<le> ao_aux s then update shared (\<lambda>ob. ob\<lparr>ao_aux := ao_aux ob + 1\<rparr>) h else h)
     }"

definition rb_ary_set_shared :: "nat \<Rightarrow> nat \<Rightarrow> 'v ary_heap \<Rightarrow> 'v ary_heap option" where
  "rb_ary_set_shared a shared h =
     do {
       h \<leftarrow> rb_ary_increment_share shared h;
       Some (update a (\<lambda>ob. ob\<lparr>ao_shared := True, ao_aux := int shared\<rparr>) h)
     }"

definition rb_ary_modify_check :: "nat \<Rightarrow> 'v ary_heap \<Rightarrow> (unit, 'v) outcome" where
  "rb_ary_modify_check a h =
     do {
       ob \<leftarrow> ah_objs h a;
       if ao_frozen ob then rb_raise RuntimeError h
       else if \<not> ao_untrusted ob \<and> 4 \<le> ah_safe_level h then rb_raise SecurityError h
       else ret () h
     }"

definition rb_ary_modify :: "nat \<Rightarrow> 'v ary_heap \<Rightarrow> (unit, 'v) outcome" where
  "rb_ary_modify a h =
     run (rb_ary_modify_check a h) (\<lambda>_ h.
       do {
         ob \<leftarrow> ah_objs h a;
         if ao_shared ob then
           let len = RARRAY_LEN ob in
           if len \<le> RARRAY_EMBED_LEN_MAX then
             do {
               h \<leftarrow> Some (update a (\<lambda>ob. FL_SET_EMBED (ob\<lparr>ao_shared := False\<rparr>)) h);
               h \<leftarrow> mem_copy (Inl a, 0) (Inr (fst (ao_ptr ob)), snd (ao_ptr ob)) len h;
               h \<leftarrow> rb_ary_decrement_share (nat (ao_aux ob)) h;
               h \<leftarrow> ARY_SET_LEN a len h;
               ret () h
             }
           else
             run (ALLOC_N (int len) h) (\<lambda>b h.
               do {
                 h \<leftarrow> mem_copy (Inr b, 0) (RARRAY_PTR a ob) len h;
                 h \<leftarrow> rb_ary_unshare a h;
                 ret () (update a (\<lambda>ob. ob\<lparr>ao_aux := int len, ao_ptr := (b, 0)\<rparr>) h)
               })
         else ret () h
       })"

section \<open>New arrays\<close>

definition ary_alloc :: "'v ary_heap \<Rightarrow> (nat, 'v) outcome" where
  "ary_alloc h =
     (let a = ah_next_obj h in
      ret a (h\<lparr>ah_objs := (ah_objs h)(a \<mapsto> \<lparr>ao_embed = True, ao_shared = False, ao_root = False, ao_frozen = False,
                   ao_untrusted = (3 \<le> ah_safe_level h), ao_elen = 0, ao_ptr = (0, 0), ao_len = 0, ao_aux = 0\<rparr>),
                ah_embed := (ah_embed h)(a := replicate RARRAY_EMBED_LEN_MAX (ah_junk h)), ah_next_obj := a + 1\<rparr>))"

definition ary_new :: "int \<Rightarrow> 'v ary_heap \<Rightarrow> (nat, 'v) outcome" where
  "ary_new len h =
     (if len < 0 then rb_raise ArgError h
      else if ARY_MAX_SIZE < len then rb_raise ArgError h
      else
        run (ary_alloc h) (\<lambda>a h.
          if int RARRAY_EMBED_LEN_MAX < len then
            run (ALLOC_N len h) (\<lambda>b h.
              ret a (update a (\<lambda>ob. (FL_UNSET_EMBED ob)\<lparr>ao_ptr := (b, 0), ao_aux := len, ao_len := 0\<rparr>) h))
          else ret a h))"

definition rb_ary_new4 :: "'v list \<Rightarrow> 'v ary_heap \<Rightarrow> (nat, 'v) outcome" where
  "rb_ary_new4 elts h =
     run (ary_new (int (length elts)) h) (\<lambda>a h.
       if 0 < length elts then
         do {
           ob \<leftarrow> ah_objs h a;
           h \<leftarrow> write_cells (RARRAY_PTR a ob) elts h;
           h \<leftarrow> ARY_SET_LEN a (length elts) h;
           ret a h
         }
       else ret a h)"

text \<open>An embedded array has no buffer to share.\<close>

definition ary_make_shared :: "nat \<Rightarrow> 'v ary_heap \<Rightarrow> (nat, 'v) outcome" where
  "ary_make_shared a h =
     do {
       ob \<leftarrow> ah_objs h a;
       if ao_embed ob then None
       else if ao_shared ob then ret (nat (ao_aux ob)) h
       else
         let s = ah_next_obj h in
         ret s (update a (\<lambda>ob. ob\<lparr>ao_shared := True, ao_aux := int s\<rparr>)
           (h\<lparr>ah_objs := (ah_objs h)(s \<mapsto> \<lparr>ao_embed = False, ao_shared = False, ao_root = True, ao_frozen = True,
                  ao_untrusted = (3 \<le> ah_safe_level h), ao_elen = 0, ao_ptr = ao_ptr ob, ao_len = RARRAY_LEN ob, ao_aux = 1\<rparr>),
              ah_embed := (ah_embed h)(s := replicate RARRAY_EMBED_LEN_MAX (ah_junk h)), ah_next_obj := s + 1\<rparr>))
     }"

definition ary_make_partial :: "nat \<Rightarrow> nat \<Rightarrow> nat \<Rightarrow> 'v ary_heap \<Rightarrow> (nat, 'v) outcome" where
  "ary_make_partial a offset len h =
     do {
       ob \<leftarrow> ah_objs h a;
       if len \<le> RARRAY_EMBED_LEN_MAX then
         run (ary_alloc h) (\<lambda>res h.
           do {
             h \<leftarrow> mem_copy (Inl res, 0) (place_add (RARRAY_PTR a ob) offset) len h;
             h \<leftarrow> ARY_SET_LEN res len h;
             ret res h
           })
       else
         run (ary_alloc h) (\<lambda>res h.
         run (ary_make_shared a (update res FL_UNSET_EMBED h)) (\<lambda>shared h.
           do {
             ob \<leftarrow> ah_objs h a;
             h \<leftarrow> rb_ary_set_shared res shared (update res (\<lambda>r. r\<lparr>ao_ptr := ao_ptr ob, ao_len := RARRAY_LEN ob\<rparr>) h);
             h \<leftarrow> ARY_INCREASE_PTR res offset h;
             h \<leftarrow> ARY_SET_LEN res len h;
             ret res h
           }))
     }"

end
