(* ===== verification/ArrayInv.thy ===== *)
theory ArrayInv
  imports ArrayHeap
begin

text \<open>
  The invariant of the storage of arrays, the arrays that a heap stands for, and the few ways in which the code changes them: an array that
  shares nothing changes, leaves the arrays it shared with, moves its window, gives its buffer to a root, or becomes one more array of a root.
\<close>

section \<open>The invariant\<close>

definition rep_ok :: "'v ary_heap \<Rightarrow> nat \<Rightarrow> array_obj \<Rightarrow> bool" where
  "rep_ok h a ob \<longleftrightarrow>
     length (ah_embed h a) = RARRAY_EMBED_LEN_MAX \<and>
     (if ao_embed ob then \<not> ao_shared ob \<and> \<not> ao_root ob \<and> ao_elen ob \<le> RARRAY_EMBED_LEN_MAX
      else if ao_shared ob then
        \<not> ao_root ob \<and>
        (\<exists>s so vs. ao_aux ob = int s \<and> ah_objs h s = Some so \<and> ao_root so \<and> fst (ao_ptr ob) = fst (ao_ptr so)
           \<and> ah_bufs h (fst (ao_ptr ob)) = Some vs \<and> snd (ao_ptr ob) + ao_len ob \<le> length vs)
      else
        snd (ao_ptr ob) = 0 \<and>
        (\<exists>vs. ah_bufs h (fst (ao_ptr ob)) = Some vs \<and> ao_len ob \<le> length vs \<and> (\<not> ao_root ob \<longrightarrow> ao_aux ob = int (length vs))))"

text \<open>The arrays that share the buffer of a root.\<close>

definition sharers :: "'v ary_heap \<Rightarrow> nat \<Rightarrow> nat set" where
  "sharers h s = {a. \<exists>ob. ah_objs h a = Some ob \<and> ao_shared ob \<and> ao_aux ob = int s}"

definition heap_ok :: "'v ary_heap \<Rightarrow> bool" where
  "heap_ok h \<longleftrightarrow>
     (\<forall>a ob. ah_objs h a = Some ob \<longrightarrow> 0 < a \<and> a < ah_next_obj h \<and> rep_ok h a ob)
     \<and> (\<forall>b vs. ah_bufs h b = Some vs \<longrightarrow> b < ah_next_buf h \<and> int (length vs) \<le> ARY_MAX_SIZE)
     \<and> (\<forall>a ob x xo. ah_objs h a = Some ob \<and> ah_objs h x = Some xo \<and> ARY_OWNS_HEAP_P ob \<and> ARY_OWNS_HEAP_P xo
          \<and> fst (ao_ptr ob) = fst (ao_ptr xo) \<longrightarrow> a = x)
     \<and> (\<forall>s so. ah_objs h s = Some so \<and> ao_root so \<longrightarrow> int (card (sharers h s)) \<le> ao_aux so)
     \<and> 0 < ah_next_obj h"

section \<open>The arrays of a heap\<close>

definition writable :: "'v ary_heap \<Rightarrow> array_obj \<Rightarrow> bool" where
  "writable h ob \<longleftrightarrow> \<not> ao_frozen ob \<and> (ao_untrusted ob \<or> ah_safe_level h < 4)"

definition contents :: "'v ary_heap \<Rightarrow> nat \<Rightarrow> array_obj \<Rightarrow> 'v list" where
  "contents h a ob =
     take (RARRAY_LEN ob) (drop (snd (RARRAY_PTR a ob)) (case cells_of h (fst (RARRAY_PTR a ob)) of Some vs \<Rightarrow> vs | None \<Rightarrow> []))"

definition view :: "'v ary_heap \<Rightarrow> nat \<Rightarrow> ('v list \<times> bool) option" where
  "view h a =
     (case ah_objs h a of
        None \<Rightarrow> None
      | Some ob \<Rightarrow> if ao_root ob then None else Some (contents h a ob, writable h ob))"

definition unshared :: "array_obj \<Rightarrow> bool" where
  "unshared ob \<longleftrightarrow> \<not> ao_shared ob \<and> \<not> ao_root ob"

lemma heap_okD:
  assumes "heap_ok h"
  shows "ah_objs h a = Some ob \<Longrightarrow> 0 < a \<and> a < ah_next_obj h \<and> rep_ok h a ob"
    and "ah_bufs h b = Some vs \<Longrightarrow> b < ah_next_buf h \<and> int (length vs) \<le> ARY_MAX_SIZE"
    and "ah_objs h a = Some ob \<Longrightarrow> ah_objs h x = Some xo \<Longrightarrow> ARY_OWNS_HEAP_P ob \<Longrightarrow> ARY_OWNS_HEAP_P xo \<Longrightarrow>
      fst (ao_ptr ob) = fst (ao_ptr xo) \<Longrightarrow> a = x"
    and "ah_objs h s = Some so \<Longrightarrow> ao_root so \<Longrightarrow> int (card (sharers h s)) \<le> ao_aux so"
    and "0 < ah_next_obj h"
  using assms unfolding heap_ok_def by blast+

lemma finite_sharers: "heap_ok h \<Longrightarrow> finite (sharers h s)"
  by (rule finite_subset [of _ "{..<ah_next_obj h}"]) (auto simp: sharers_def dest: heap_okD(1))

text \<open>What the invariant gives for each kind of object.\<close>

lemma root_owns: "heap_ok h \<Longrightarrow> ah_objs h s = Some so \<Longrightarrow> ao_root so \<Longrightarrow> ARY_OWNS_HEAP_P so"
  using heap_okD(1) [of h s so] by (auto simp: rep_ok_def ARY_OWNS_HEAP_P_def split: if_splits)

lemma buffer_of:
  assumes "heap_ok h" "ah_objs h a = Some ob" "\<not> ao_embed ob"
  shows "\<exists>vs. ah_bufs h (fst (ao_ptr ob)) = Some vs \<and> snd (ao_ptr ob) + ao_len ob \<le> length vs \<and> fst (ao_ptr ob) < ah_next_buf h"
proof -
  obtain vs where "ah_bufs h (fst (ao_ptr ob)) = Some vs" "snd (ao_ptr ob) + ao_len ob \<le> length vs"
    using heap_okD(1) [OF assms(1,2)] assms(3) by (auto simp: rep_ok_def split: if_splits)
  then show ?thesis using heap_okD(2) [OF assms(1)] by blast
qed

text \<open>The one object whose buffer an object's pointer leads into.\<close>

lemma owner_of:
  assumes "heap_ok h" "ah_objs h a = Some ob" "\<not> ao_embed ob"
  shows "\<exists>s so. ah_objs h s = Some so \<and> ARY_OWNS_HEAP_P so \<and> fst (ao_ptr so) = fst (ao_ptr ob)
    \<and> (if ao_shared ob then ao_root so \<and> ao_aux ob = int s else s = a)"
proof (cases "ao_shared ob")
  case True
  then obtain s so where "ao_aux ob = int s" "ah_objs h s = Some so" "ao_root so" "fst (ao_ptr ob) = fst (ao_ptr so)"
    using heap_okD(1) [OF assms(1,2)] assms(3) by (auto simp: rep_ok_def)
  then show ?thesis using True root_owns [OF assms(1)] by auto
qed (use assms in \<open>auto simp: ARY_OWNS_HEAP_P_def\<close>)

definition shares :: "array_obj \<Rightarrow> nat \<Rightarrow> bool" where
  "shares ob s \<longleftrightarrow> ao_shared ob \<and> ao_aux ob = int s"

section \<open>One array changes\<close>

text \<open>
  \<open>a\<close> may write its own cells and buffer, take a fresh buffer, drop its own, leave its root, or become an array of a root that has counted
  it already; everything else stays.
\<close>

definition array_change :: "nat \<Rightarrow> array_obj \<Rightarrow> array_obj \<Rightarrow> 'v ary_heap \<Rightarrow> 'v ary_heap \<Rightarrow> bool" where
  "array_change a ob ob' h h' \<longleftrightarrow>
     ah_objs h a = Some ob \<and> ah_objs h' = (ah_objs h)(a \<mapsto> ob') \<and> \<not> ao_root ob \<and> \<not> ao_root ob' \<and> rep_ok h' a ob'
     \<and> (\<forall>x. x \<noteq> a \<longrightarrow> ah_embed h' x = ah_embed h x) \<and> ah_next_obj h' = ah_next_obj h \<and> ah_next_buf h \<le> ah_next_buf h'
     \<and> (\<forall>b. b < ah_next_buf h \<and> \<not> (ARY_OWNS_HEAP_P ob \<and> b = fst (ao_ptr ob)) \<longrightarrow> ah_bufs h' b = ah_bufs h b)
     \<and> (\<forall>b vs. ah_bufs h' b = Some vs \<longrightarrow> b < ah_next_buf h' \<and> int (length vs) \<le> ARY_MAX_SIZE)
     \<and> (ARY_OWNS_HEAP_P ob' \<longrightarrow> ah_next_buf h \<le> fst (ao_ptr ob') \<or> ARY_OWNS_HEAP_P ob \<and> fst (ao_ptr ob') = fst (ao_ptr ob))
     \<and> (\<forall>s. shares ob' s \<longrightarrow> shares ob s \<or> (\<exists>so. ah_objs h s = Some so \<and> int (card (sharers h s)) < ao_aux so))
     \<and> ah_safe_level h' = ah_safe_level h"

text \<open>The other objects do not see the change.\<close>

lemma array_change_others:
  assumes ok: "heap_ok h" and c: "array_change a ob ob' h h'" and x: "ah_objs h x = Some xo" "x \<noteq> a"
  shows "\<not> ao_embed xo \<Longrightarrow> ah_bufs h' (fst (ao_ptr xo)) = ah_bufs h (fst (ao_ptr xo))" and "rep_ok h' x xo"
    and "contents h' x xo = contents h x xo"
proof -
  have b: "ah_bufs h' (fst (ao_ptr xo)) = ah_bufs h (fst (ao_ptr xo))" if e: "\<not> ao_embed xo"
  proof -
    have lt: "fst (ao_ptr xo) < ah_next_buf h" using buffer_of [OF ok x(1) e] by blast
    obtain s so where s: "ah_objs h s = Some so" "ARY_OWNS_HEAP_P so" "fst (ao_ptr so) = fst (ao_ptr xo)"
      "if ao_shared xo then ao_root so \<and> ao_aux xo = int s else s = x" using owner_of [OF ok x(1) e] by blast
    have "s \<noteq> a" using s(1,4) x c by (auto simp: array_change_def split: if_splits)
    then have "\<not> (ARY_OWNS_HEAP_P ob \<and> fst (ao_ptr xo) = fst (ao_ptr ob))"
      using heap_okD(3) [OF ok s(1) _ s(2), of a ob] s(3) c by (auto simp: array_change_def)
    then show ?thesis using c lt by (simp add: array_change_def)
  qed
  then show "\<not> ao_embed xo \<Longrightarrow> ah_bufs h' (fst (ao_ptr xo)) = ah_bufs h (fst (ao_ptr xo))" by blast
  have emb: "ah_embed h' x = ah_embed h x" using c x(2) by (simp add: array_change_def)
  have r: "rep_ok h x xo" using heap_okD(1) [OF ok x(1)] by simp
  have root: "ah_objs h' s = Some so" if "ah_objs h s = Some so" "ao_root so" for s so
    using that c by (auto simp: array_change_def)
  show "rep_ok h' x xo" using r b emb root unfolding rep_ok_def by (auto split: if_splits)
  show "contents h' x xo = contents h x xo"
    using b emb x c by (auto simp: contents_def RARRAY_PTR_def cells_of_def array_change_def)
qed

lemma sharers_change:
  assumes "ah_objs h a = Some ob" "ah_objs h' = (ah_objs h)(a \<mapsto> ob')"
  shows "sharers h' s = (if shares ob' s then insert a (sharers h s) else sharers h s - {a})"
    and "a \<in> sharers h s \<longleftrightarrow> shares ob s"
  using assms by (auto simp: sharers_def shares_def)

lemma array_change_ok:
  assumes ok: "heap_ok h" and c: "array_change a ob ob' h h'"
  shows "heap_ok h'" and "view h' = (view h)(a \<mapsto> (contents h' a ob', writable h' ob'))"
proof -
  note d = c [unfolded array_change_def]
  have others: "\<And>x xo. ah_objs h x = Some xo \<Longrightarrow> x \<noteq> a \<Longrightarrow> rep_ok h' x xo" using array_change_others(2) [OF ok c] .
  have sh: "int (card (sharers h' s)) \<le> ao_aux so" if so: "ah_objs h s = Some so" "ao_root so" for s so
  proof -
    have le: "int (card (sharers h s)) \<le> ao_aux so" using heap_okD(4) [OF ok so] .
    have fin: "finite (sharers h s)" using finite_sharers [OF ok] .
    have ch: "sharers h' s = (if shares ob' s then insert a (sharers h s) else sharers h s - {a})" "a \<in> sharers h s \<longleftrightarrow> shares ob s"
      using sharers_change [of h a ob h' ob' s] d by auto
    show ?thesis
    proof (cases "shares ob' s")
      case True
      then consider "shares ob s" | "int (card (sharers h s)) < ao_aux so" using d so by fastforce
      then show ?thesis
      proof cases
        case 1
        then show ?thesis using True ch le by (simp add: insert_absorb)
      next
        case 2
        moreover have "card (insert a (sharers h s)) \<le> card (sharers h s) + 1" using fin by (simp add: card_insert_if)
        ultimately show ?thesis using True ch(1) by simp
      qed
    next
      case False
      moreover have "card (sharers h s - {a}) \<le> card (sharers h s)" using fin by (simp add: card_Diff1_le)
      ultimately show ?thesis using ch(1) le by simp
    qed
  qed
  have own: "b = x" if "ah_objs h' b = Some bo" "ah_objs h' x = Some xo" "ARY_OWNS_HEAP_P bo" "ARY_OWNS_HEAP_P xo"
    "fst (ao_ptr bo) = fst (ao_ptr xo)" for b bo x xo
  proof -
    have *: "y = a" if "ah_objs h y = Some yo" "ARY_OWNS_HEAP_P yo" "ARY_OWNS_HEAP_P ob'" "fst (ao_ptr yo) = fst (ao_ptr ob')" for y yo
    proof -
      have "fst (ao_ptr yo) < ah_next_buf h" using buffer_of [OF ok that(1)] that(2) by (auto simp: ARY_OWNS_HEAP_P_def)
      then show ?thesis using heap_okD(3) [OF ok that(1), of a ob] d that by auto
    qed
    then show ?thesis using that heap_okD(3) [OF ok, of b bo x xo] d * by (auto split: if_splits)
  qed
  show "heap_ok h'"
    unfolding heap_ok_def
  proof (intro conjI allI impI)
    fix x xo assume "ah_objs h' x = Some xo"
    then show "0 < x" "x < ah_next_obj h'" "rep_ok h' x xo"
      using heap_okD(1) [OF ok] d others by (auto split: if_splits)
  next
    fix s so assume "ah_objs h' s = Some so \<and> ao_root so"
    then show "int (card (sharers h' s)) \<le> ao_aux so" using sh d by (auto split: if_splits)
  next
    fix b bo x xo
    assume "ah_objs h' b = Some bo \<and> ah_objs h' x = Some xo \<and> ARY_OWNS_HEAP_P bo \<and> ARY_OWNS_HEAP_P xo \<and> fst (ao_ptr bo) = fst (ao_ptr xo)"
    then show "b = x" using own by blast
  qed (use d heap_okD(5) [OF ok] in auto)
  show "view h' = (view h)(a \<mapsto> (contents h' a ob', writable h' ob'))"
  proof
    fix x
    show "view h' x = ((view h)(a \<mapsto> (contents h' a ob', writable h' ob'))) x"
    proof (cases "x = a")
      case True
      then show ?thesis using d by (simp add: view_def)
    next
      case False
      then show ?thesis using d array_change_others(3) [OF ok c] by (auto simp: view_def writable_def split: option.split)
    qed
  qed
qed

section \<open>Roots\<close>

text \<open>The count of a root may change as long as it counts all its arrays.\<close>

lemma count_change:
  assumes ok: "heap_ok h" and s: "ah_objs h s = Some so" "ao_root so" and n: "int (card (sharers h s)) \<le> n"
    and h': "h' = update s (\<lambda>ob. ob\<lparr>ao_aux := n\<rparr>) h"
  shows "heap_ok h'" and "view h' = view h" and "sharers h' = sharers h"
proof -
  have objs: "ah_objs h' x = (if x = s then Some (so\<lparr>ao_aux := n\<rparr>) else ah_objs h x)" for x by (simp add: h' update_def s)
  have same: "ah_embed h' = ah_embed h" "ah_bufs h' = ah_bufs h" "ah_next_obj h' = ah_next_obj h" "ah_next_buf h' = ah_next_buf h"
    "ah_safe_level h' = ah_safe_level h" by (simp_all add: h' update_def)
  have so: "\<not> ao_shared so" "\<not> ao_embed so" using root_owns [OF ok s] by (simp_all add: ARY_OWNS_HEAP_P_def)
  show sh: "sharers h' = sharers h" using so s by (auto simp: sharers_def objs fun_eq_iff)
  have rep: "rep_ok h' x xo" if "ah_objs h x = Some xo" "x \<noteq> s" for x xo
  proof -
    have "rep_ok h x xo" using heap_okD(1) [OF ok that(1)] by simp
    then show ?thesis using s unfolding rep_ok_def same by (auto simp: objs split: if_splits)
  qed
  moreover have "rep_ok h' s (so\<lparr>ao_aux := n\<rparr>)"
    using heap_okD(1) [OF ok s(1)] so s(2) by (simp add: rep_ok_def same)
  ultimately show "heap_ok h'"
    using ok s n unfolding heap_ok_def sh same
    by (auto simp: objs ARY_OWNS_HEAP_P_def split: if_splits)
  show "view h' = view h" using s by (auto simp: view_def objs fun_eq_iff contents_def RARRAY_PTR_def cells_of_def same RARRAY_LEN_def writable_def
      split: option.split)
qed

text \<open>A root that no array shares goes with its buffer.\<close>

lemma drop_root:
  assumes ok: "heap_ok h" and s: "ah_objs h s = Some so" "ao_root so" and none: "sharers h s = {}"
    and h': "h' = h\<lparr>ah_objs := (ah_objs h)(s := None), ah_bufs := (ah_bufs h)(fst (ao_ptr so) := None)\<rparr>"
  shows "heap_ok h'" and "view h' = view h" and "sharers h' = sharers h"
proof -
  have objs: "ah_objs h' x = (if x = s then None else ah_objs h x)" for x by (simp add: h')
  have same: "ah_embed h' = ah_embed h" "ah_next_obj h' = ah_next_obj h" "ah_next_buf h' = ah_next_buf h" "ah_safe_level h' = ah_safe_level h"
    by (simp_all add: h')
  have owns: "ARY_OWNS_HEAP_P so" using root_owns [OF ok s] .
  have bufs: "ah_bufs h' (fst (ao_ptr xo)) = ah_bufs h (fst (ao_ptr xo))" if x: "ah_objs h x = Some xo" "x \<noteq> s" "\<not> ao_embed xo" for x xo
  proof -
    obtain r ro where r: "ah_objs h r = Some ro" "ARY_OWNS_HEAP_P ro" "fst (ao_ptr ro) = fst (ao_ptr xo)"
      "if ao_shared xo then ao_root ro \<and> ao_aux xo = int r else r = x" using owner_of [OF ok x(1,3)] by blast
    have "r \<noteq> s" using none r(4) x by (auto simp: sharers_def split: if_splits)
    then have "fst (ao_ptr xo) \<noteq> fst (ao_ptr so)" using heap_okD(3) [OF ok r(1) s(1) r(2) owns] r(3) by auto
    then show ?thesis by (simp add: h')
  qed
  show sh: "sharers h' = sharers h" using owns s by (auto simp: sharers_def objs fun_eq_iff ARY_OWNS_HEAP_P_def)
  have rep: "rep_ok h' x xo" if "ah_objs h x = Some xo" "x \<noteq> s" for x xo
  proof -
    have r: "rep_ok h x xo" using heap_okD(1) [OF ok that(1)] by simp
    have "ah_objs h' t = ah_objs h t" if "ao_shared xo" "ao_aux xo = int t" for t
      using none that \<open>ah_objs h x = Some xo\<close> by (auto simp: objs sharers_def)
    then show ?thesis using r bufs [OF that] unfolding rep_ok_def same by (auto split: if_splits)
  qed
  show "heap_ok h'"
    unfolding heap_ok_def same sh
  proof (intro conjI allI impI)
    fix x xo assume "ah_objs h' x = Some xo"
    then show "0 < x" "x < ah_next_obj h" "rep_ok h' x xo" using heap_okD(1) [OF ok] rep by (auto simp: objs split: if_splits)
  next
    fix b vs assume "ah_bufs h' b = Some vs"
    then show "b < ah_next_buf h" "int (length vs) \<le> ARY_MAX_SIZE" using heap_okD(2) [OF ok] by (auto simp: h' split: if_splits)
  next
    fix b bo x xo
    assume "ah_objs h' b = Some bo \<and> ah_objs h' x = Some xo \<and> ARY_OWNS_HEAP_P bo \<and> ARY_OWNS_HEAP_P xo \<and> fst (ao_ptr bo) = fst (ao_ptr xo)"
    then show "b = x" using heap_okD(3) [OF ok] by (auto simp: objs split: if_splits)
  next
    fix t to assume "ah_objs h' t = Some to \<and> ao_root to"
    then show "int (card (sharers h t)) \<le> ao_aux to" using heap_okD(4) [OF ok] by (auto simp: objs split: if_splits)
  qed (use heap_okD(5) [OF ok] in simp)
  show "view h' = view h"
  proof
    fix x
    show "view h' x = view h x"
    proof (cases "x = s")
      case False
      then show ?thesis using bufs by (auto simp: view_def objs contents_def RARRAY_PTR_def cells_of_def same writable_def split: option.split)
    qed (use s in \<open>simp add: view_def objs\<close>)
  qed
qed

text \<open>What every function keeps: the value of \<open>nil\<close> and the safe level.\<close>

definition becomes :: "'v ary_heap \<Rightarrow> (nat \<Rightarrow> ('v list \<times> bool) option) \<Rightarrow> 'v ary_heap \<Rightarrow> bool" where
  "becomes h V h' \<longleftrightarrow> heap_ok h' \<and> view h' = V \<and> ah_nil h' = ah_nil h \<and> ah_safe_level h' = ah_safe_level h"

lemma update_simps [simp]:
  "ah_objs (update a f h) = (ah_objs h)(a := map_option f (ah_objs h a))" "ah_embed (update a f h) = ah_embed h"
  "ah_bufs (update a f h) = ah_bufs h" "ah_next_obj (update a f h) = ah_next_obj h" "ah_next_buf (update a f h) = ah_next_buf h"
  "ah_nil (update a f h) = ah_nil h" "ah_junk (update a f h) = ah_junk h" "ah_safe_level (update a f h) = ah_safe_level h"
  by (simp_all add: update_def)

lemma decrement_ok:
  assumes ok: "heap_ok h" and s: "ah_objs h s = Some so" "ao_root so" and n: "int (card (sharers h s)) < ao_aux so"
  shows "\<exists>h'. rb_ary_decrement_share s h = Some h' \<and> becomes h (view h) h' \<and> (\<forall>x. x \<noteq> s \<longrightarrow> ah_objs h' x = ah_objs h x)
    \<and> ah_embed h' = ah_embed h \<and> ah_next_obj h' = ah_next_obj h \<and> ah_next_buf h' = ah_next_buf h
    \<and> (\<forall>b. b \<noteq> fst (ao_ptr so) \<longrightarrow> ah_bufs h' b = ah_bufs h b)"
proof (cases "ao_aux so = 1")
  case True
  then have none: "sharers h s = {}" using n finite_sharers [OF ok] by simp
  have owns: "ARY_OWNS_HEAP_P so" using root_owns [OF ok s] .
  then obtain vs where b: "ah_bufs h (fst (ao_ptr so)) = Some vs" "snd (ao_ptr so) = 0"
    using heap_okD(1) [OF ok s(1)] by (auto simp: rep_ok_def ARY_OWNS_HEAP_P_def split: if_splits)
  define h' where "h' = h\<lparr>ah_objs := (ah_objs h)(s := None), ah_bufs := (ah_bufs h)(fst (ao_ptr so) := None)\<rparr>"
  have "rb_ary_decrement_share s h = Some h'"
    using s heap_okD(1) [OF ok s(1)] True b owns by (simp add: rb_ary_decrement_share_def rb_ary_free_def xfree_def h'_def)
  then show ?thesis using drop_root [OF ok s none h'_def] by (auto simp: becomes_def h'_def)
next
  case False
  define h' where "h' = update s (\<lambda>ob. ob\<lparr>ao_aux := ao_aux so - 1\<rparr>) h"
  have "rb_ary_decrement_share s h = Some h'"
    using s heap_okD(1) [OF ok s(1)] n False by (simp add: rb_ary_decrement_share_def h'_def)
  moreover have "int (card (sharers h s)) \<le> ao_aux so - 1" using n by simp
  ultimately show ?thesis using count_change [OF ok s _ h'_def] by (auto simp: becomes_def h'_def)
qed

section \<open>New objects\<close>

lemma alloc_ok:
  assumes ok: "heap_ok h"
  shows "\<exists>h' ob. ary_alloc h = Some (Inr (ah_next_obj h), h') \<and> becomes h ((view h)(ah_next_obj h \<mapsto> ([], True))) h'
    \<and> view h (ah_next_obj h) = None \<and> ah_objs h' = (ah_objs h)(ah_next_obj h \<mapsto> ob) \<and> ao_embed ob \<and> unshared ob \<and> ao_elen ob = 0
    \<and> ah_bufs h' = ah_bufs h \<and> ah_next_buf h' = ah_next_buf h \<and> ah_next_obj h' = ah_next_obj h + 1"
proof -
  define a where "a = ah_next_obj h"
  define ob where "ob = \<lparr>ao_embed = True, ao_shared = False, ao_root = False, ao_frozen = False, ao_untrusted = (3 \<le> ah_safe_level h),
    ao_elen = 0, ao_ptr = (0, 0), ao_len = 0, ao_aux = 0\<rparr>"
  define h' where "h' = h\<lparr>ah_objs := (ah_objs h)(a \<mapsto> ob), ah_embed := (ah_embed h)(a := replicate RARRAY_EMBED_LEN_MAX (ah_junk h)),
    ah_next_obj := a + 1\<rparr>"
  have new: "ah_objs h a = None" using heap_okD(1) [OF ok, of a] by (cases "ah_objs h a") (auto simp: a_def)
  have sh: "sharers h' s = sharers h s" for s using new by (auto simp: sharers_def h'_def ob_def)
  have keep: "ah_objs h s = Some so \<Longrightarrow> ah_objs h' s = Some so" "ah_bufs h' = ah_bufs h" "x \<noteq> a \<Longrightarrow> ah_embed h' x = ah_embed h x"
    for s so x using new by (auto simp: h'_def)
  have rep: "rep_ok h' x xo" if "ah_objs h x = Some xo" for x xo
  proof -
    have "rep_ok h x xo" "x \<noteq> a" using heap_okD(1) [OF ok that] new that by auto
    then show ?thesis using keep(1) keep(3) [of x] unfolding rep_ok_def keep(2) by (auto split: if_splits)
  qed
  have okh': "heap_ok h'"
    unfolding heap_ok_def
  proof (intro conjI allI impI)
    fix x xo assume "ah_objs h' x = Some xo"
    then show "0 < x" "x < ah_next_obj h'" "rep_ok h' x xo"
      using heap_okD(1) [OF ok, of x xo] heap_okD(5) [OF ok] rep [of x xo]
      by (auto simp: h'_def ob_def rep_ok_def RARRAY_EMBED_LEN_MAX_def a_def split: if_splits)
  next
    fix b bo x xo
    assume "ah_objs h' b = Some bo \<and> ah_objs h' x = Some xo \<and> ARY_OWNS_HEAP_P bo \<and> ARY_OWNS_HEAP_P xo \<and> fst (ao_ptr bo) = fst (ao_ptr xo)"
    then show "b = x" using heap_okD(3) [OF ok, of b bo x xo] by (auto simp: h'_def ob_def ARY_OWNS_HEAP_P_def split: if_splits)
  next
    fix s so assume "ah_objs h' s = Some so \<and> ao_root so"
    then show "int (card (sharers h' s)) \<le> ao_aux so" using heap_okD(4) [OF ok, of s so] sh by (auto simp: h'_def ob_def split: if_splits)
  qed (use heap_okD(2) [OF ok] in \<open>auto simp: h'_def\<close>)
  moreover have "view h' = (view h)(a \<mapsto> ([], True))"
    by (auto simp: view_def fun_eq_iff h'_def contents_def RARRAY_PTR_def RARRAY_LEN_def cells_of_def writable_def ob_def split: option.split)
  moreover have "ary_alloc h = Some (Inr a, h')" by (simp add: ary_alloc_def ret_def Let_def a_def h'_def ob_def)
  moreover have "view h a = None" using new by (simp add: view_def)
  ultimately show ?thesis
    by (intro exI [of _ h'] exI [of _ ob]) (simp add: becomes_def a_def [symmetric], simp add: h'_def ob_def unshared_def a_def)
qed

section \<open>An array gives its buffer to a root\<close>

lemma root_exists:
  assumes "heap_ok h" "ah_objs h a = Some ob" "ao_shared ob"
  shows "\<exists>s so. ao_aux ob = int s \<and> ah_objs h s = Some so \<and> ao_root so \<and> fst (ao_ptr ob) = fst (ao_ptr so) \<and> \<not> ao_root ob \<and> \<not> ao_embed ob"
  using heap_okD(1) [OF assms(1,2)] assms(3) by (auto simp: rep_ok_def split: if_splits)

lemma share_ok:
  assumes ok: "heap_ok h" and a: "ah_objs h a = Some ob" "\<not> ao_embed ob" "unshared ob"
    and h': "h' = update a (\<lambda>ob. ob\<lparr>ao_shared := True, ao_aux := int s\<rparr>)
           (h\<lparr>ah_objs := (ah_objs h)(s \<mapsto> so), ah_embed := (ah_embed h)(s := replicate RARRAY_EMBED_LEN_MAX (ah_junk h)), ah_next_obj := s + 1\<rparr>)"
    and s: "s = ah_next_obj h"
      "so = \<lparr>ao_embed = False, ao_shared = False, ao_root = True, ao_frozen = True, ao_untrusted = (3 \<le> ah_safe_level h), ao_elen = 0,
         ao_ptr = ao_ptr ob, ao_len = RARRAY_LEN ob, ao_aux = 1\<rparr>"
  shows "heap_ok h'" and "view h' = view h"
proof -
  define ob' where "ob' = ob\<lparr>ao_shared := True, ao_aux := int s\<rparr>"
  have sa: "s \<noteq> a" "a < s" using heap_okD(1) [OF ok a(1)] s(1) by auto
  have new: "ah_objs h s = None" using heap_okD(1) [OF ok, of s] s(1) by (cases "ah_objs h s") auto
  have objs: "ah_objs h' x = (if x = a then Some ob' else if x = s then Some so else ah_objs h x)" for x
    using sa a(1) by (simp add: h' ob'_def)
  have same: "ah_bufs h' = ah_bufs h" "x \<noteq> s \<Longrightarrow> ah_embed h' x = ah_embed h x" "ah_next_buf h' = ah_next_buf h" "ah_next_obj h' = s + 1"
    "ah_safe_level h' = ah_safe_level h" for x by (simp_all add: h')
  have ob: "snd (ao_ptr ob) = 0" "ARY_OWNS_HEAP_P ob" "\<not> ao_root ob" "\<not> ao_shared ob"
    using heap_okD(1) [OF ok a(1)] a by (auto simp: rep_ok_def ARY_OWNS_HEAP_P_def unshared_def)
  obtain vs where vs: "ah_bufs h (fst (ao_ptr ob)) = Some vs" "ao_len ob \<le> length vs"
    using buffer_of [OF ok a(1,2)] by auto
  have emb: "length (ah_embed h a) = RARRAY_EMBED_LEN_MAX" using heap_okD(1) [OF ok a(1)] by (simp add: rep_ok_def)
  have none: "sharers h s = {}" using root_exists [OF ok] new by (fastforce simp: sharers_def)
  have sh: "sharers h' t = (if t = s then {a} else sharers h t)" for t
    using none ob a(1) new by (auto simp: sharers_def objs ob'_def s(2) split: if_splits)
  have rep: "rep_ok h' x xo" if x: "ah_objs h x = Some xo" "x \<noteq> a" for x xo
  proof -
    have r: "rep_ok h x xo" "x \<noteq> s" using heap_okD(1) [OF ok x(1)] new x by auto
    have "ah_objs h' t = Some to" if "ah_objs h t = Some to" "ao_root to" for t to using that ob(3) a(1) new by (auto simp: objs)
    then show ?thesis using r same(2) [of x] unfolding rep_ok_def same(1) by (auto split: if_splits)
  qed
  have repa: "rep_ok h' a ob'"
    using vs a(2) ob emb same(2) [of a] sa by (simp add: rep_ok_def ob'_def same(1) objs s(2))
  have reps: "rep_ok h' s so"
    using vs a(2) ob by (simp add: rep_ok_def s(2) same(1), simp add: h' s(2) RARRAY_LEN_def)
  show "heap_ok h'"
    unfolding heap_ok_def
  proof (intro conjI allI impI)
    fix x xo assume "ah_objs h' x = Some xo"
    then show "0 < x" "x < ah_next_obj h'" "rep_ok h' x xo"
      using heap_okD(1) [OF ok, of x xo] heap_okD(5) [OF ok] rep [of x xo] repa reps sa heap_okD(1) [OF ok a(1)]
      by (auto simp: objs same(4) s(1) split: if_splits)
  next
    fix b bo x xo
    assume "ah_objs h' b = Some bo \<and> ah_objs h' x = Some xo \<and> ARY_OWNS_HEAP_P bo \<and> ARY_OWNS_HEAP_P xo \<and> fst (ao_ptr bo) = fst (ao_ptr xo)"
    then show "b = x"
      using heap_okD(3) [OF ok, of b bo x xo] heap_okD(3) [OF ok a(1), of b bo] heap_okD(3) [OF ok a(1), of x xo] ob(2)
      by (auto simp: objs ob'_def s(2) ARY_OWNS_HEAP_P_def split: if_splits)
  next
    fix t to assume "ah_objs h' t = Some to \<and> ao_root to"
    then show "int (card (sharers h' t)) \<le> ao_aux to"
      using heap_okD(4) [OF ok, of t to] ob(3) by (auto simp: sh objs ob'_def s(2) split: if_splits)
  qed (use heap_okD(2) [OF ok] in \<open>auto simp: same\<close>)
  show "view h' = view h"
  proof
    fix x
    have c: "contents h' x xo = contents h x xo" if "x \<noteq> s" "ah_objs h x \<noteq> None" for xo
      using that same(2) [of x] by (auto simp: contents_def RARRAY_PTR_def cells_of_def objs same(1))
    have "contents h' a ob' = contents h a ob" using a(2) by (simp add: contents_def RARRAY_PTR_def RARRAY_LEN_def cells_of_def ob'_def same(1))
    then show "view h' x = view h x"
      using c a(1) ob(3) new by (auto simp: view_def objs ob'_def s(2) writable_def same(5) split: option.split)
  qed
qed

text \<open>\<open>b\<close> is the array \<open>a\<close> after it shares its buffer.\<close>

definition now_shares :: "array_obj \<Rightarrow> array_obj \<Rightarrow> nat \<Rightarrow> bool" where
  "now_shares ob ob' s \<longleftrightarrow> shares ob' s \<and> \<not> ao_embed ob' \<and> \<not> ao_root ob' \<and> ao_ptr ob' = ao_ptr ob \<and> ao_len ob' = ao_len ob
     \<and> ao_frozen ob' = ao_frozen ob \<and> ao_untrusted ob' = ao_untrusted ob"

lemma make_shared_ok:
  assumes ok: "heap_ok h" and a: "ah_objs h a = Some ob" "\<not> ao_embed ob" "\<not> ao_root ob"
  shows "\<exists>s so ob' h'. ary_make_shared a h = Some (Inr s, h') \<and> becomes h (view h) h' \<and> ah_objs h' a = Some ob' \<and> now_shares ob ob' s
    \<and> ah_objs h' s = Some so \<and> ao_root so \<and> fst (ao_ptr so) = fst (ao_ptr ob) \<and> s \<noteq> a
    \<and> (\<forall>x. x \<noteq> a \<and> ah_objs h x \<noteq> None \<longrightarrow> ah_objs h' x = ah_objs h x \<and> ah_embed h' x = ah_embed h x)
    \<and> ah_bufs h' = ah_bufs h \<and> ah_next_buf h' = ah_next_buf h"
proof (cases "ao_shared ob")
  case True
  obtain s so where s: "ao_aux ob = int s" "ah_objs h s = Some so" "ao_root so" "fst (ao_ptr ob) = fst (ao_ptr so)"
    using root_exists [OF ok a(1) True] by blast
  have "s \<noteq> a" using s(2,3) a by auto
  then show ?thesis using True a s ok
    by (intro exI [of _ s] exI [of _ so] exI [of _ ob] exI [of _ h])
      (auto simp: ary_make_shared_def ret_def becomes_def now_shares_def shares_def)
next
  case False
  define s where "s = ah_next_obj h"
  define so where "so = \<lparr>ao_embed = False, ao_shared = False, ao_root = True, ao_frozen = True, ao_untrusted = (3 \<le> ah_safe_level h), ao_elen = 0,
         ao_ptr = ao_ptr ob, ao_len = RARRAY_LEN ob, ao_aux = 1\<rparr>"
  define h' where "h' = update a (\<lambda>ob. ob\<lparr>ao_shared := True, ao_aux := int s\<rparr>)
           (h\<lparr>ah_objs := (ah_objs h)(s \<mapsto> so), ah_embed := (ah_embed h)(s := replicate RARRAY_EMBED_LEN_MAX (ah_junk h)), ah_next_obj := s + 1\<rparr>)"
  have "unshared ob" using False a(3) by (simp add: unshared_def)
  note sh = share_ok [OF ok a(1,2) this h'_def s_def so_def]
  have sa: "s \<noteq> a" using heap_okD(1) [OF ok a(1)] by (simp add: s_def)
  have new: "ah_objs h s = None" using heap_okD(1) [OF ok, of s] by (cases "ah_objs h s") (auto simp: s_def)
  have "ary_make_shared a h = Some (Inr s, h')"
    using a False by (simp add: ary_make_shared_def ret_def Let_def s_def so_def h'_def)
  then show ?thesis using sh sa new a
    by (intro exI [of _ s] exI [of _ so] exI [of _ "ob\<lparr>ao_shared := True, ao_aux := int s\<rparr>"] exI [of _ h'])
      (auto simp: becomes_def now_shares_def shares_def h'_def so_def)
qed

section \<open>An array whose cells are known\<close>

text \<open>\<open>a\<close> shares nothing; \<open>vs\<close> are all its cells, used or not.\<close>

definition stored :: "'v ary_heap \<Rightarrow> nat \<Rightarrow> array_obj \<Rightarrow> 'v list \<Rightarrow> bool" where
  "stored h a ob vs \<longleftrightarrow> heap_ok h \<and> ah_objs h a = Some ob \<and> unshared ob \<and> cells_of h (fst (RARRAY_PTR a ob)) = Some vs"

lemma storedD:
  assumes "stored h a ob vs"
  shows "view h a = Some (take (RARRAY_LEN ob) vs, writable h ob)" and "RARRAY_LEN ob \<le> length vs" and "ARY_CAPA ob = int (length vs)"
    and "snd (RARRAY_PTR a ob) = 0" and "int (length vs) \<le> ARY_MAX_SIZE" and "ao_embed ob \<Longrightarrow> length vs = RARRAY_EMBED_LEN_MAX"
    and "heap_ok h" and "ah_objs h a = Some ob" and "unshared ob"
    and "\<not> ao_embed ob \<Longrightarrow> ah_bufs h (fst (ao_ptr ob)) = Some vs \<and> snd (ao_ptr ob) = 0"
proof -
  have h: "heap_ok h" "ah_objs h a = Some ob" "unshared ob" "cells_of h (fst (RARRAY_PTR a ob)) = Some vs" using assms by (simp_all add: stored_def)
  note r = heap_okD(1) [OF h(1,2)]
  show "heap_ok h" "ah_objs h a = Some ob" "unshared ob" using h by simp_all
  show e: "ao_embed ob \<Longrightarrow> length vs = RARRAY_EMBED_LEN_MAX" using r h by (auto simp: rep_ok_def RARRAY_PTR_def cells_of_def)
  show z: "snd (RARRAY_PTR a ob) = 0" using r h(3) by (auto simp: rep_ok_def RARRAY_PTR_def unshared_def split: if_splits)
  show "\<not> ao_embed ob \<Longrightarrow> ah_bufs h (fst (ao_ptr ob)) = Some vs \<and> snd (ao_ptr ob) = 0" using h z by (simp add: RARRAY_PTR_def cells_of_def)
  show "ARY_CAPA ob = int (length vs)" "RARRAY_LEN ob \<le> length vs"
    using r h e by (auto simp: rep_ok_def ARY_CAPA_def RARRAY_LEN_def RARRAY_PTR_def cells_of_def unshared_def split: if_splits)
  show "int (length vs) \<le> ARY_MAX_SIZE"
    using h heap_okD(2) [OF h(1)] e by (cases "ao_embed ob") (auto simp: RARRAY_PTR_def cells_of_def ARY_MAX_SIZE_def RARRAY_EMBED_LEN_MAX_def)
  show "view h a = Some (take (RARRAY_LEN ob) vs, writable h ob)"
    using h z by (simp add: view_def unshared_def contents_def)
qed

end
