(* ===== verification/ArrayOps.thy ===== *)
theory ArrayOps
  imports ArrayHeap
begin

text \<open>The methods of \<open>lib/ruby/array.c\<close> that change, read and make arrays, over the storage of \<open>ArrayHeap\<close>.  Indices and lengths are C \<open>long\<close>s.\<close>

section \<open>Storing\<close>

definition rb_mem_clear :: "place \<Rightarrow> nat \<Rightarrow> 'v ary_heap \<Rightarrow> 'v ary_heap option" where
  "rb_mem_clear p n h = write_cells p (replicate n (ah_nil h)) h"

text \<open>The capacity that \<open>rb_ary_store\<close> asks for.\<close>

definition store_capa :: "int \<Rightarrow> int \<Rightarrow> int" where
  "store_capa capa idx =
     (let new_capa = capa div 2;
          new_capa = (if new_capa < int ARY_DEFAULT_SIZE then int ARY_DEFAULT_SIZE else new_capa);
          new_capa = (if ARY_MAX_SIZE - idx \<le> new_capa then (ARY_MAX_SIZE - idx) div 2 else new_capa) in
      new_capa + idx)"

definition rb_ary_store :: "nat \<Rightarrow> u32 \<Rightarrow> 'v \<Rightarrow> 'v ary_heap \<Rightarrow> (unit, 'v) outcome" where
  "rb_ary_store a idx val h =
     do {
       ob \<leftarrow> ah_objs h a;
       let i = (if sint idx < 0 then sint idx + int (RARRAY_LEN ob) else sint idx);
       if i < 0 then rb_raise IndexError h
       else if 0 \<le> sint idx \<and> ARY_MAX_SIZE \<le> i then rb_raise IndexError h
       else
         run (rb_ary_modify a h) (\<lambda>_ h.
           do {
             ob \<leftarrow> ah_objs h a;
             run (if ARY_CAPA ob \<le> i then ary_resize_capa a (store_capa (ARY_CAPA ob) i) h else ret () h) (\<lambda>_ h.
               do {
                 ob \<leftarrow> ah_objs h a;
                 let len = RARRAY_LEN ob;
                 h \<leftarrow> if int len < i then rb_mem_clear (place_add (RARRAY_PTR a ob) len) (nat i - len + 1) h else Some h;
                 h \<leftarrow> if int len \<le> i then ARY_SET_LEN a (nat i + 1) h else Some h;
                 ob \<leftarrow> ah_objs h a;
                 h \<leftarrow> write_cells (place_add (RARRAY_PTR a ob) (nat i)) [val] h;
                 ret () h
               })
           })
     }"

definition rb_ary_push :: "nat \<Rightarrow> 'v \<Rightarrow> 'v ary_heap \<Rightarrow> (unit, 'v) outcome" where
  "rb_ary_push a item h = do { ob \<leftarrow> ah_objs h a; rb_ary_store a (of_nat (RARRAY_LEN ob)) item h }"

fun push_each :: "nat \<Rightarrow> 'v list \<Rightarrow> 'v ary_heap \<Rightarrow> (unit, 'v) outcome" where
  "push_each a [] h = ret () h"
| "push_each a (v # vs) h = run (rb_ary_push a v h) (\<lambda>_ h. push_each a vs h)"

definition rb_ary_push_m :: "nat \<Rightarrow> 'v list \<Rightarrow> 'v ary_heap \<Rightarrow> (unit, 'v) outcome" where
  "rb_ary_push_m a argv h = run (rb_ary_modify_check a h) (\<lambda>_ h. push_each a argv h)"

section \<open>Taking from the ends\<close>

definition rb_ary_pop :: "nat \<Rightarrow> 'v ary_heap \<Rightarrow> ('v, 'v) outcome" where
  "rb_ary_pop a h =
     run (rb_ary_modify_check a h) (\<lambda>_ h.
       do {
         ob \<leftarrow> ah_objs h a;
         if RARRAY_LEN ob = 0 then ret (ah_nil h) h
         else
           run (if ARY_OWNS_HEAP_P ob \<and> int (RARRAY_LEN ob) * 3 < ARY_CAPA ob \<and> int ARY_DEFAULT_SIZE < ARY_CAPA ob
                then ary_resize_capa a (int (RARRAY_LEN ob) * 2) h else ret () h) (\<lambda>_ h.
             do {
               ob \<leftarrow> ah_objs h a;
               let n = RARRAY_LEN ob - 1;
               h \<leftarrow> ARY_SET_LEN a n h;
               ob \<leftarrow> ah_objs h a;
               vs \<leftarrow> read_cells (place_add (RARRAY_PTR a ob) n) 1 h;
               ret (hd vs) h
             })
       })"

text \<open>\<open>ARY_TAKE_FIRST\<close> and \<open>ARY_TAKE_LAST\<close>.\<close>

definition ary_take_first_or_last :: "u32 \<Rightarrow> nat \<Rightarrow> bool \<Rightarrow> 'v ary_heap \<Rightarrow> (nat, 'v) outcome" where
  "ary_take_first_or_last nv a at_end h =
     do {
       ob \<leftarrow> ah_objs h a;
       let len = RARRAY_LEN ob;
       if sint nv \<le> int len \<and> sint nv < 0 then rb_raise ArgError h
       else
         let n = (if int len < sint nv then len else nat (sint nv)) in
         ary_make_partial a (if at_end then len - n else 0) n h
     }"

definition rb_ary_pop_m :: "nat \<Rightarrow> u32 \<Rightarrow> 'v ary_heap \<Rightarrow> (nat, 'v) outcome" where
  "rb_ary_pop_m a nv h =
     run (rb_ary_modify_check a h) (\<lambda>_ h.
     run (ary_take_first_or_last nv a True h) (\<lambda>res h.
       do {
         ob \<leftarrow> ah_objs h a;
         r \<leftarrow> ah_objs h res;
         h \<leftarrow> ARY_SET_LEN a (RARRAY_LEN ob - RARRAY_LEN r) h;
         ret res h
       }))"

definition rb_ary_shift :: "nat \<Rightarrow> 'v ary_heap \<Rightarrow> ('v, 'v) outcome" where
  "rb_ary_shift a h =
     run (rb_ary_modify_check a h) (\<lambda>_ h.
       do {
         ob \<leftarrow> ah_objs h a;
         let len = RARRAY_LEN ob;
         if len = 0 then ret (ah_nil h) h
         else
           do {
             top \<leftarrow> read_cells (RARRAY_PTR a ob) 1 h;
             if \<not> ao_shared ob \<and> len < ARY_DEFAULT_SIZE then
               do {
                 h \<leftarrow> mem_copy (RARRAY_PTR a ob) (place_add (RARRAY_PTR a ob) 1) (len - 1) h;
                 h \<leftarrow> ARY_SET_LEN a (len - 1) h;
                 ret (hd top) h
               }
             else
               run (if \<not> ao_shared ob
                    then do { h \<leftarrow> write_cells (RARRAY_PTR a ob) [ah_nil h] h; ary_make_shared a h }
                    else ret 0 h) (\<lambda>_ h.
                 do {
                   h \<leftarrow> ARY_INCREASE_PTR a 1 h;
                   h \<leftarrow> ARY_SET_LEN a (len - 1) h;
                   ret (hd top) h
                 })
           }
       })"

definition rb_ary_shift_m :: "nat \<Rightarrow> u32 \<Rightarrow> 'v ary_heap \<Rightarrow> (nat, 'v) outcome" where
  "rb_ary_shift_m a nv h =
     run (rb_ary_modify_check a h) (\<lambda>_ h.
     run (ary_take_first_or_last nv a False h) (\<lambda>res h.
       do {
         ob \<leftarrow> ah_objs h a;
         r \<leftarrow> ah_objs h res;
         let len = RARRAY_LEN ob;
         let n = RARRAY_LEN r;
         h \<leftarrow> if ao_shared ob then ARY_INCREASE_PTR a n h
              else mem_copy (RARRAY_PTR a ob) (place_add (RARRAY_PTR a ob) n) (len - n) h;
         h \<leftarrow> ARY_SET_LEN a (len - n) h;
         ret res h
       }))"

definition rb_ary_unshift_m :: "nat \<Rightarrow> 'v list \<Rightarrow> 'v ary_heap \<Rightarrow> (unit, 'v) outcome" where
  "rb_ary_unshift_m a argv h =
     (if argv = [] then ret () h
      else
        run (rb_ary_modify a h) (\<lambda>_ h.
          do {
            ob \<leftarrow> ah_objs h a;
            let len = RARRAY_LEN ob;
            let argc = length argv;
            run (if ARY_CAPA ob \<le> int (len + argc) then ary_resize_capa a (int (len + argc + ARY_DEFAULT_SIZE)) h else ret () h) (\<lambda>_ h.
              do {
                ob \<leftarrow> ah_objs h a;
                h \<leftarrow> mem_copy (place_add (RARRAY_PTR a ob) argc) (RARRAY_PTR a ob) len h;
                h \<leftarrow> write_cells (RARRAY_PTR a ob) argv h;
                h \<leftarrow> ARY_SET_LEN a (len + argc) h;
                ret () h
              })
          }))"

section \<open>Reading\<close>

definition rb_ary_elt :: "nat \<Rightarrow> int \<Rightarrow> 'v ary_heap \<Rightarrow> ('v, 'v) outcome" where
  "rb_ary_elt a offset h =
     do {
       ob \<leftarrow> ah_objs h a;
       if RARRAY_LEN ob = 0 then ret (ah_nil h) h
       else if offset < 0 \<or> int (RARRAY_LEN ob) \<le> offset then ret (ah_nil h) h
       else do { vs \<leftarrow> read_cells (place_add (RARRAY_PTR a ob) (nat offset)) 1 h; ret (hd vs) h }
     }"

definition rb_ary_entry :: "nat \<Rightarrow> u32 \<Rightarrow> 'v ary_heap \<Rightarrow> ('v, 'v) outcome" where
  "rb_ary_entry a offset h =
     do {
       ob \<leftarrow> ah_objs h a;
       rb_ary_elt a (if sint offset < 0 then sint offset + int (RARRAY_LEN ob) else sint offset) h
     }"

text \<open>\<open>None\<close> stands for \<open>nil\<close>.\<close>

definition rb_ary_subseq :: "nat \<Rightarrow> u32 \<Rightarrow> u32 \<Rightarrow> 'v ary_heap \<Rightarrow> (nat option, 'v) outcome" where
  "rb_ary_subseq a beg len h =
     do {
       ob \<leftarrow> ah_objs h a;
       let n = RARRAY_LEN ob;
       if int n < sint beg then ret None h
       else if sint beg < 0 \<or> sint len < 0 then ret None h
       else
         let len' = (if int n < sint len \<or> int n < sint (beg + len) then int n - sint beg else sint len) in
         if len' = 0 then run (ary_new 0 h) (\<lambda>r h. ret (Some r) h)
         else run (ary_make_partial a (nat (sint beg)) (nat len') h) (\<lambda>r h. ret (Some r) h)
     }"

definition aref_start_length :: "nat \<Rightarrow> u32 \<Rightarrow> u32 \<Rightarrow> 'v ary_heap \<Rightarrow> (nat option, 'v) outcome" where
  "aref_start_length a beg len h =
     do {
       ob \<leftarrow> ah_objs h a;
       rb_ary_subseq a (if sint beg < 0 then beg + of_nat (RARRAY_LEN ob) else beg) len h
     }"

definition aref_range :: "nat \<Rightarrow> u32 \<Rightarrow> u32 \<Rightarrow> bool \<Rightarrow> 'v ary_heap \<Rightarrow> (nat option, 'v) outcome" where
  "aref_range a b e excl h =
     do {
       ob \<leftarrow> ah_objs h a;
       case rb_range_beg_len b e excl (of_nat (RARRAY_LEN ob)) 0 of
         Inl err \<Rightarrow> rb_raise err h
       | Inr None \<Rightarrow> ret None h
       | Inr (Some (beg, len)) \<Rightarrow> rb_ary_subseq a beg len h
     }"

section \<open>Replacing\<close>

text \<open>\<open>rpl\<close> is the array that \<open>rb_ary_to_ary\<close> gives, or \<open>None\<close> for \<open>Qundef\<close>.\<close>

definition rb_ary_splice :: "nat \<Rightarrow> u32 \<Rightarrow> u32 \<Rightarrow> nat option \<Rightarrow> 'v ary_heap \<Rightarrow> (unit, 'v) outcome" where
  "rb_ary_splice a beg len rpl h =
     do {
       ob \<leftarrow> ah_objs h a;
       let n = int (RARRAY_LEN ob);
       let b = (if sint beg < 0 then sint beg + n else sint beg);
       if sint len < 0 then rb_raise IndexError h
       else if b < 0 then rb_raise IndexError h
       else
         let l = (if n < sint len \<or> n < sint (word_of_int b + len) then n - b else sint len) in
         do {
           rlen \<leftarrow> (case rpl of None \<Rightarrow> Some 0 | Some r \<Rightarrow> map_option (\<lambda>ro. int (RARRAY_LEN ro)) (ah_objs h r));
           run (rb_ary_modify a h) (\<lambda>_ h.
             do {
               ob \<leftarrow> ah_objs h a;
               if n \<le> b then
                 if ARY_MAX_SIZE - rlen < b then rb_raise IndexError h
                 else
                   let len = b + rlen in
                   run (if ARY_CAPA ob \<le> len then ary_resize_capa a len h else ret () h) (\<lambda>_ h.
                     do {
                       ob \<leftarrow> ah_objs h a;
                       h \<leftarrow> rb_mem_clear (place_add (RARRAY_PTR a ob) (nat n)) (nat (b - n)) h;
                       h \<leftarrow> (case rpl of
                              Some r \<Rightarrow>
                                if 0 < rlen then
                                  do { ro \<leftarrow> ah_objs h r; mem_copy (place_add (RARRAY_PTR a ob) (nat b)) (RARRAY_PTR r ro) (nat rlen) h }
                                else Some h
                            | None \<Rightarrow> Some h);
                       h \<leftarrow> ARY_SET_LEN a (nat len) h;
                       ret () h
                     })
               else
                 let alen = n + rlen - l in
                 run (if ARY_CAPA ob \<le> alen then ary_resize_capa a alen h else ret () h) (\<lambda>_ h.
                   do {
                     ob \<leftarrow> ah_objs h a;
                     h \<leftarrow> (if l \<noteq> rlen then
                            do {
                              h \<leftarrow> mem_copy (place_add (RARRAY_PTR a ob) (nat (b + rlen))) (place_add (RARRAY_PTR a ob) (nat (b + l)))
                                    (nat (n - (b + l))) h;
                              ARY_SET_LEN a (nat alen) h
                            }
                          else Some h);
                     h \<leftarrow> (case rpl of
                            Some r \<Rightarrow>
                              if 0 < rlen then
                                do {
                                  ob \<leftarrow> ah_objs h a;
                                  ro \<leftarrow> ah_objs h r;
                                  mem_copy (place_add (RARRAY_PTR a ob) (nat b)) (RARRAY_PTR r ro) (nat rlen) h
                                }
                              else Some h
                          | None \<Rightarrow> Some h);
                     ret () h
                   })
             })
         }
     }"

definition aset_range :: "nat \<Rightarrow> u32 \<Rightarrow> u32 \<Rightarrow> bool \<Rightarrow> nat \<Rightarrow> 'v ary_heap \<Rightarrow> (unit, 'v) outcome" where
  "aset_range a b e excl r h =
     do {
       ob \<leftarrow> ah_objs h a;
       case rb_range_beg_len b e excl (of_nat (RARRAY_LEN ob)) 1 of
         Inl err \<Rightarrow> rb_raise err h
       | Inr None \<Rightarrow> None
       | Inr (Some (beg, len)) \<Rightarrow> rb_ary_splice a beg len (Some r) h
     }"

definition rb_ary_insert :: "nat \<Rightarrow> u32 \<Rightarrow> 'v list \<Rightarrow> 'v ary_heap \<Rightarrow> (unit, 'v) outcome" where
  "rb_ary_insert a pos objs h =
     (if objs = [] then ret () h
      else
        do {
          ob \<leftarrow> ah_objs h a;
          let pos = (if pos = - 1 then of_nat (RARRAY_LEN ob) else pos);
          let pos = (if sint pos < 0 then pos + 1 else pos);
          run (rb_ary_new4 objs h) (\<lambda>r h. rb_ary_splice a pos 0 (Some r) h)
        })"

definition rb_ary_concat :: "nat \<Rightarrow> nat \<Rightarrow> 'v ary_heap \<Rightarrow> (unit, 'v) outcome" where
  "rb_ary_concat x y h =
     do {
       xo \<leftarrow> ah_objs h x;
       yo \<leftarrow> ah_objs h y;
       if 0 < RARRAY_LEN yo then rb_ary_splice x (of_nat (RARRAY_LEN xo)) 0 (Some y) h else ret () h
     }"

section \<open>Deleting\<close>

definition rb_ary_delete_at :: "nat \<Rightarrow> u32 \<Rightarrow> 'v ary_heap \<Rightarrow> ('v, 'v) outcome" where
  "rb_ary_delete_at a pos h =
     do {
       ob \<leftarrow> ah_objs h a;
       let len = RARRAY_LEN ob;
       let p = (if sint pos < 0 then sint pos + int len else sint pos);
       if int len \<le> sint pos then ret (ah_nil h) h
       else if p < 0 then ret (ah_nil h) h
       else
         run (rb_ary_modify a h) (\<lambda>_ h.
           do {
             ob \<leftarrow> ah_objs h a;
             del \<leftarrow> read_cells (place_add (RARRAY_PTR a ob) (nat p)) 1 h;
             h \<leftarrow> mem_copy (place_add (RARRAY_PTR a ob) (nat p)) (place_add (RARRAY_PTR a ob) (nat p + 1)) (len - nat p - 1) h;
             h \<leftarrow> ARY_SET_LEN a (len - 1) h;
             ret (hd del) h
           })
     }"

text \<open>\<open>slice!(pos, len)\<close>; the sum \<open>pos + len\<close> is a \<open>long\<close>.\<close>

definition slice_bang :: "nat \<Rightarrow> u32 \<Rightarrow> u32 \<Rightarrow> 'v ary_heap \<Rightarrow> (nat option, 'v) outcome" where
  "slice_bang a pos len h =
     run (rb_ary_modify_check a h) (\<lambda>_ h.
       do {
         ob \<leftarrow> ah_objs h a;
         let orig_len = int (RARRAY_LEN ob);
         let p = (if sint pos < 0 then sint pos + orig_len else sint pos);
         if sint len < 0 then ret None h
         else if p < 0 \<or> orig_len < p then ret None h
         else
           let l = (if orig_len < sint (word_of_int p + len) then orig_len - p else sint len) in
           if l = 0 then run (ary_new 0 h) (\<lambda>r h. ret (Some r) h)
           else if ARY_MAX_SIZE < l then rb_raise ArgError h
           else
             do {
               elts \<leftarrow> read_cells (place_add (RARRAY_PTR a ob) (nat p)) (nat l) h;
               run (rb_ary_new4 elts h) (\<lambda>r h.
               run (rb_ary_splice a (word_of_int p) (word_of_int l) None h) (\<lambda>_ h. ret (Some r) h))
             }
       })"

definition rb_ary_clear :: "nat \<Rightarrow> 'v ary_heap \<Rightarrow> (unit, 'v) outcome" where
  "rb_ary_clear a h =
     run (rb_ary_modify a h) (\<lambda>_ h.
       do {
         h \<leftarrow> ARY_SET_LEN a 0 h;
         ob \<leftarrow> ah_objs h a;
         if int (ARY_DEFAULT_SIZE * 2) < ARY_CAPA ob then ary_resize_capa a (int (ARY_DEFAULT_SIZE * 2)) h else ret () h
       })"

section \<open>Copies\<close>

definition rb_ary_replace :: "nat \<Rightarrow> nat \<Rightarrow> 'v ary_heap \<Rightarrow> (unit, 'v) outcome" where
  "rb_ary_replace copy orig h =
     run (rb_ary_modify_check copy h) (\<lambda>_ h.
       if copy = orig then ret () h
       else
         do {
           co \<leftarrow> ah_objs h copy;
           oo \<leftarrow> ah_objs h orig;
           if RARRAY_LEN oo \<le> RARRAY_EMBED_LEN_MAX then
             do {
               h \<leftarrow> if ARY_OWNS_HEAP_P co then xfree (ao_ptr co) h else Some h;
               let shared = (if \<not> ARY_OWNS_HEAP_P co \<and> ao_shared co then nat (ao_aux co) else 0);
               h \<leftarrow> Some (update copy (\<lambda>ob. FL_SET_EMBED (ob\<lparr>ao_shared := False\<rparr>)) h);
               h \<leftarrow> mem_copy (Inl copy, 0) (RARRAY_PTR orig oo) (RARRAY_LEN oo) h;
               h \<leftarrow> rb_ary_decrement_share shared h;
               h \<leftarrow> ARY_SET_LEN copy (RARRAY_LEN oo) h;
               ret () h
             }
           else
             run (ary_make_shared orig h) (\<lambda>shared h.
               do {
                 oo \<leftarrow> ah_objs h orig;
                 h \<leftarrow> if ARY_OWNS_HEAP_P co then xfree (ao_ptr co) h else rb_ary_unshare_safe copy h;
                 h \<leftarrow> Some (update copy (\<lambda>ob. (FL_UNSET_EMBED ob)\<lparr>ao_ptr := ao_ptr oo, ao_len := RARRAY_LEN oo\<rparr>) h);
                 h \<leftarrow> rb_ary_set_shared copy shared h;
                 ret () h
               })
         })"

definition rb_ary_dup :: "nat \<Rightarrow> 'v ary_heap \<Rightarrow> (nat, 'v) outcome" where
  "rb_ary_dup a h =
     do {
       ob \<leftarrow> ah_objs h a;
       run (ary_new (int (RARRAY_LEN ob)) h) (\<lambda>d h.
         do {
           r \<leftarrow> ah_objs h d;
           h \<leftarrow> mem_copy (RARRAY_PTR d r) (RARRAY_PTR a ob) (RARRAY_LEN ob) h;
           h \<leftarrow> ARY_SET_LEN d (RARRAY_LEN ob) h;
           ret d h
         })
     }"

definition rb_ary_plus :: "nat \<Rightarrow> nat \<Rightarrow> 'v ary_heap \<Rightarrow> (nat, 'v) outcome" where
  "rb_ary_plus x y h =
     do {
       xo \<leftarrow> ah_objs h x;
       yo \<leftarrow> ah_objs h y;
       let len = RARRAY_LEN xo + RARRAY_LEN yo;
       run (ary_new (int len) h) (\<lambda>z h.
         do {
           zo \<leftarrow> ah_objs h z;
           h \<leftarrow> mem_copy (RARRAY_PTR z zo) (RARRAY_PTR x xo) (RARRAY_LEN xo) h;
           h \<leftarrow> mem_copy (place_add (RARRAY_PTR z zo) (RARRAY_LEN xo)) (RARRAY_PTR y yo) (RARRAY_LEN yo) h;
           h \<leftarrow> ARY_SET_LEN z len h;
           ret z h
         })
     }"

text \<open>\<open>initialize\<close> without a block: the second argument, or \<open>nil\<close>, in \<open>len\<close> cells.\<close>

definition rb_ary_initialize :: "nat \<Rightarrow> u32 \<Rightarrow> 'v \<Rightarrow> 'v ary_heap \<Rightarrow> (unit, 'v) outcome" where
  "rb_ary_initialize a len val h =
     run (rb_ary_modify a h) (\<lambda>_ h.
       if sint len < 0 then rb_raise ArgError h
       else if ARY_MAX_SIZE < sint len then rb_raise ArgError h
       else
         run (rb_ary_modify a h) (\<lambda>_ h.
         run (ary_resize_capa a (sint len) h) (\<lambda>_ h.
           do {
             ob \<leftarrow> ah_objs h a;
             h \<leftarrow> write_cells (RARRAY_PTR a ob) (replicate (nat (sint len)) val) h;
             h \<leftarrow> ARY_SET_LEN a (nat (sint len)) h;
             ret () h
           })))"

end
