(* ===== verification/ArrayRefine.thy ===== *)
theory ArrayRefine
  imports ArrayInv ArrayOps
begin

text \<open>What the methods of \<open>ArrayOps\<close> do to the arrays that a heap stands for: they are operations on lists, and change no other array.\<close>

section \<open>Cells of an array that shares nothing\<close>

definition rest_same :: "nat \<Rightarrow> 'v ary_heap \<Rightarrow> 'v ary_heap \<Rightarrow> bool" where
  "rest_same a h h' \<longleftrightarrow> (\<forall>x. x \<noteq> a \<longrightarrow> view h' x = view h x) \<and> ah_nil h' = ah_nil h \<and> ah_safe_level h' = ah_safe_level h"

lemma rest_same_refl [simp]: "rest_same a h h"
  by (simp add: rest_same_def)

lemma rest_same_trans: "rest_same a h h' \<Longrightarrow> rest_same a h' h'' \<Longrightarrow> rest_same a h h''"
  by (simp add: rest_same_def)

lemma becomes_rest: "rest_same a h h' \<Longrightarrow> stored h' a ob vs \<Longrightarrow> take (RARRAY_LEN ob) vs = xs \<Longrightarrow> writable h' ob = w \<Longrightarrow>
    becomes h ((view h)(a \<mapsto> (xs, w))) h'"
  using storedD(1) [of h' a ob vs] by (auto simp: becomes_def rest_same_def storedD(7) fun_eq_iff)

lemma stored_change:
  assumes "stored h a ob vs" "array_change a ob ob' h h'" "unshared ob'" "cells_of h' (fst (RARRAY_PTR a ob')) = Some us" "ah_nil h' = ah_nil h"
  shows "stored h' a ob' us" and "rest_same a h h'"
proof -
  note ok = array_change_ok [OF storedD(7) [OF assms(1)] assms(2)]
  show "stored h' a ob' us" using assms ok(1) by (simp add: stored_def array_change_def)
  show "rest_same a h h'" using assms(2,5) ok(2) by (simp add: rest_same_def array_change_def)
qed

lemma read_stored:
  "stored h a ob vs \<Longrightarrow> i + n \<le> length vs \<Longrightarrow> read_cells (place_add (RARRAY_PTR a ob) i) n h = Some (take n (drop i vs))"
  using storedD(4) by (fastforce simp: read_cells_def place_add_def stored_def)

lemma write_stored:
  assumes st: "stored h a ob vs" and i: "i + length xs \<le> length vs"
  shows "\<exists>h'. write_cells (place_add (RARRAY_PTR a ob) i) xs h = Some h' \<and> stored h' a ob (take i vs @ xs @ drop (i + length xs) vs)
    \<and> rest_same a h h' \<and> ah_objs h' = ah_objs h"
proof -
  define us where "us = take i vs @ xs @ drop (i + length xs) vs"
  define h' where "h' = set_cells (fst (RARRAY_PTR a ob)) us h"
  note D = storedD [OF st]
  have c: "cells_of h (fst (RARRAY_PTR a ob)) = Some vs" using st by (simp add: stored_def)
  have w: "write_cells (place_add (RARRAY_PTR a ob) i) xs h = Some h'"
    using c D(4) i by (simp add: write_cells_def place_add_def h'_def us_def)
  have len: "length us = length vs" using i by (simp add: us_def)
  have r: "rep_ok h a ob" using heap_okD(1) [OF D(7,8)] by simp
  have objs: "ah_objs h' = ah_objs h" by (simp add: h'_def set_cells_def split: sum.split)
  have c': "cells_of h' (fst (RARRAY_PTR a ob)) = Some us"
    using D(8) by (simp add: h'_def cells_of_def set_cells_def RARRAY_PTR_def)
  have "array_change a ob ob h h'"
  proof (cases "ao_embed ob")
    case True
    then show ?thesis
      using D(6,8,9) len r heap_okD(2) [OF D(7)]
      by (auto simp: array_change_def h'_def set_cells_def RARRAY_PTR_def rep_ok_def unshared_def shares_def ARY_OWNS_HEAP_P_def fun_eq_iff)
  next
    case False
    then show ?thesis
      using D(5,8,9,10) len r heap_okD(2) [OF D(7)]
      by (auto simp: array_change_def h'_def set_cells_def RARRAY_PTR_def rep_ok_def unshared_def shares_def ARY_OWNS_HEAP_P_def fun_eq_iff)
  qed
  from stored_change [OF st this D(9) c'] have "stored h' a ob us" "rest_same a h h'"
    by (simp_all add: h'_def set_cells_def split: sum.split)
  then show ?thesis using w objs by (auto simp: us_def)
qed

text \<open>The object with another length.\<close>

definition with_len :: "nat \<Rightarrow> array_obj \<Rightarrow> array_obj" where
  "with_len n ob = (if ao_embed ob then ob\<lparr>ao_elen := n\<rparr> else ob\<lparr>ao_len := n\<rparr>)"

lemma with_len [simp]:
  "RARRAY_LEN (with_len n ob) = n" "RARRAY_PTR a (with_len n ob) = RARRAY_PTR a ob" "writable h (with_len n ob) = writable h ob"
  "ao_shared (with_len n ob) = ao_shared ob" "ao_root (with_len n ob) = ao_root ob" "ao_embed (with_len n ob) = ao_embed ob"
  "ao_ptr (with_len n ob) = ao_ptr ob" "unshared (with_len n ob) = unshared ob" "ARY_OWNS_HEAP_P (with_len n ob) = ARY_OWNS_HEAP_P ob"
  by (auto simp: with_len_def RARRAY_LEN_def RARRAY_PTR_def writable_def unshared_def ARY_OWNS_HEAP_P_def)

lemma set_len_stored:
  assumes st: "stored h a ob vs" and n: "n \<le> length vs"
  shows "\<exists>h'. ARY_SET_LEN a n h = Some h' \<and> stored h' a (with_len n ob) vs \<and> rest_same a h h'
    \<and> ah_objs h' = (ah_objs h)(a \<mapsto> with_len n ob)"
proof -
  note D = storedD [OF st]
  define h' where "h' = update a (\<lambda>_. with_len n ob) h"
  have s: "ARY_SET_LEN a n h = Some h'"
    using D(6,8) n by (auto simp: ARY_SET_LEN_def h'_def with_len_def update_def fun_eq_iff)
  have r: "rep_ok h a ob" using heap_okD(1) [OF D(7,8)] by simp
  have "array_change a ob (with_len n ob) h h'"
    using D(6,8,9,10) n r heap_okD(2) [OF D(7)]
    by (cases "ao_embed ob")
      (auto simp: array_change_def h'_def rep_ok_def unshared_def shares_def with_len_def fun_eq_iff ARY_OWNS_HEAP_P_def)
  moreover have "cells_of h' (fst (RARRAY_PTR a (with_len n ob))) = Some vs"
    using st by (simp add: stored_def cells_of_def h'_def split: sum.splits if_splits) (auto simp: RARRAY_PTR_def split: if_splits)
  ultimately have "stored h' a (with_len n ob) vs" "rest_same a h h'"
    using stored_change [OF st, of "with_len n ob" h'] D(9) by (simp_all add: h'_def)
  then show ?thesis using s D(8) by (auto simp: h'_def)
qed

lemma copy_stored:
  assumes "stored h a ob vs" "j + n \<le> length vs" "i + n \<le> length vs"
  shows "\<exists>h'. mem_copy (place_add (RARRAY_PTR a ob) i) (place_add (RARRAY_PTR a ob) j) n h = Some h'
    \<and> stored h' a ob (take i vs @ take n (drop j vs) @ drop (i + n) vs) \<and> rest_same a h h' \<and> ah_objs h' = ah_objs h"
proof -
  have "length (take n (drop j vs)) = n" using assms(2) by simp
  then show ?thesis
    using write_stored [OF assms(1), of i "take n (drop j vs)"] assms(3) read_stored [OF assms(1,2)] by (simp add: mem_copy_def)
qed

lemma place_add_0 [simp]: "place_add p 0 = p"
  by (simp add: place_add_def)

text \<open>Reading any array.\<close>

lemma read_view:
  assumes ok: "heap_ok h" and v: "view h r = Some (ys, w)" and n: "i + n \<le> length ys"
  shows "\<exists>ro. ah_objs h r = Some ro \<and> \<not> ao_root ro \<and> RARRAY_LEN ro = length ys \<and> writable h ro = w
    \<and> read_cells (place_add (RARRAY_PTR r ro) i) n h = Some (take n (drop i ys))"
proof -
  obtain ro where ro: "ah_objs h r = Some ro" "\<not> ao_root ro" "ys = contents h r ro" "w = writable h ro"
    using v by (auto simp: view_def split: option.splits if_splits)
  obtain vs where vs: "cells_of h (fst (RARRAY_PTR r ro)) = Some vs" "snd (RARRAY_PTR r ro) + RARRAY_LEN ro \<le> length vs"
    using heap_okD(1) [OF ok ro(1)] ro(1) by (auto simp: rep_ok_def RARRAY_PTR_def RARRAY_LEN_def cells_of_def split: if_splits)
  have l: "length ys = RARRAY_LEN ro" using vs ro(3) by (simp add: contents_def)
  have "take n (drop i ys) = take n (drop (snd (RARRAY_PTR r ro) + i) vs)"
    using vs ro(3) n l by (simp add: contents_def drop_take min_def add.commute)
  then show ?thesis using ro l n vs by (auto simp: read_cells_def place_add_def)
qed

lemma view_len: "heap_ok h \<Longrightarrow> view h r = Some (ys, w) \<Longrightarrow> int (length ys) \<le> ARY_MAX_SIZE"
proof -
  assume ok: "heap_ok h" and v: "view h r = Some (ys, w)"
  obtain ro where ro: "ah_objs h r = Some ro" "\<not> ao_root ro" "ys = contents h r ro"
    using v by (auto simp: view_def split: option.splits if_splits)
  have "length ys \<le> length (case cells_of h (fst (RARRAY_PTR r ro)) of Some vs \<Rightarrow> vs | None \<Rightarrow> [])"
    using ro(3) by (simp add: contents_def)
  moreover have "int (length (case cells_of h (fst (RARRAY_PTR r ro)) of Some vs \<Rightarrow> vs | None \<Rightarrow> [])) \<le> ARY_MAX_SIZE"
    using heap_okD(1) [OF ok ro(1)] heap_okD(2) [OF ok] ro(1)
    by (auto simp: cells_of_def RARRAY_PTR_def rep_ok_def ARY_MAX_SIZE_def RARRAY_EMBED_LEN_MAX_def split: option.split if_splits)
  ultimately show ?thesis by linarith
qed

section \<open>Capacity\<close>

text \<open>The flags that no change of the storage touches.\<close>

definition same_flags :: "array_obj \<Rightarrow> array_obj \<Rightarrow> bool" where
  "same_flags ob ob' \<longleftrightarrow> ao_frozen ob' = ao_frozen ob \<and> ao_untrusted ob' = ao_untrusted ob"

lemma same_flags_writable: "same_flags ob ob' \<Longrightarrow> ah_safe_level h' = ah_safe_level h \<Longrightarrow> writable h' ob' = writable h ob"
  by (simp add: same_flags_def writable_def)

lemma same_flags_trans: "same_flags ob ob' \<Longrightarrow> same_flags ob' ob'' \<Longrightarrow> same_flags ob ob''"
  by (simp add: same_flags_def)

lemma same_flags_refl [simp]: "same_flags ob ob" "same_flags ob (with_len n ob)"
  by (simp_all add: same_flags_def with_len_def)

lemma to_buffer:
  assumes st: "stored h a ob vs" and cap: "length us = nat c" "int RARRAY_EMBED_LEN_MAX < c" "c \<le> ARY_MAX_SIZE"
    and len: "RARRAY_LEN ob \<le> length us"
    and ob': "ob' = ob\<lparr>ao_embed := False, ao_elen := elen, ao_ptr := (ah_next_buf h, 0), ao_len := RARRAY_LEN ob, ao_aux := c\<rparr>"
    and h': "ah_objs h' = (ah_objs h)(a \<mapsto> ob')" "ah_embed h' = ah_embed h" "ah_next_obj h' = ah_next_obj h" "ah_next_buf h' = ah_next_buf h + 1"
      "ah_bufs h' (ah_next_buf h) = Some us" "\<And>b. ah_bufs h' b \<noteq> None \<Longrightarrow> b = ah_next_buf h \<or> ah_bufs h' b = ah_bufs h b"
      "\<And>b. b < ah_next_buf h \<Longrightarrow> \<not> (ARY_OWNS_HEAP_P ob \<and> b = fst (ao_ptr ob)) \<Longrightarrow> ah_bufs h' b = ah_bufs h b"
      "ah_nil h' = ah_nil h" "ah_safe_level h' = ah_safe_level h"
  shows "stored h' a ob' us" and "rest_same a h h'"
proof -
  note D = storedD [OF st]
  have r: "rep_ok h a ob" using heap_okD(1) [OF D(7,8)] by simp
  have bufs: "b < ah_next_buf h' \<and> int (length ws) \<le> ARY_MAX_SIZE" if "ah_bufs h' b = Some ws" for b ws
    using h'(4,5) h'(6) [of b] that cap heap_okD(2) [OF D(7), of b ws] by (cases "b = ah_next_buf h") auto
  have "array_change a ob ob' h h'"
    unfolding array_change_def
  proof (intro conjI)
    show "rep_ok h' a ob'" using r D(9) cap len h'(2,5) by (auto simp: rep_ok_def ob' unshared_def RARRAY_EMBED_LEN_MAX_def)
  qed (use D(8,9) h' bufs in \<open>auto simp: ob' unshared_def shares_def ARY_OWNS_HEAP_P_def\<close>)
  moreover have "cells_of h' (fst (RARRAY_PTR a ob')) = Some us" using h'(5) by (simp add: ob' RARRAY_PTR_def cells_of_def)
  ultimately show "stored h' a ob' us" "rest_same a h h'"
    using stored_change [OF st, of ob' h' us] D(9) h'(8) by (simp_all add: ob' unshared_def)
qed

lemma resize_stored:
  assumes st: "stored h a ob vs" and le: "int (RARRAY_LEN ob) \<le> max c (int RARRAY_EMBED_LEN_MAX)" "c \<le> ARY_MAX_SIZE"
  shows "\<exists>h' ob' vs'. ary_resize_capa a c h = Some (Inr (), h') \<and> stored h' a ob' vs' \<and> rest_same a h h'
    \<and> RARRAY_LEN ob' = RARRAY_LEN ob \<and> take (RARRAY_LEN ob) vs' = take (RARRAY_LEN ob) vs \<and> same_flags ob ob'
    \<and> int (length vs') = max c (int RARRAY_EMBED_LEN_MAX) \<and> (\<forall>x. x \<noteq> a \<longrightarrow> ah_objs h' x = ah_objs h x)"
proof -
  note D = storedD [OF st]
  define b where "b = ah_next_buf h"
  have small: "\<not> 2 ^ 30 \<le> c" "\<not> ARY_MAX_SIZE < c" using le(2) by (simp_all add: ARY_MAX_SIZE_def)
  consider (grow) "int RARRAY_EMBED_LEN_MAX < c" "ao_embed ob" | (re) "int RARRAY_EMBED_LEN_MAX < c" "\<not> ao_embed ob"
    | (shrink) "\<not> int RARRAY_EMBED_LEN_MAX < c" "\<not> ao_embed ob" | (stay) "\<not> int RARRAY_EMBED_LEN_MAX < c" "ao_embed ob" by blast
  then show ?thesis
  proof cases
    case grow
    have cap: "int (RARRAY_LEN ob) \<le> c" "c \<le> ARY_MAX_SIZE" using le grow(1) by (simp_all add: max_def)
    define len where "len = ao_elen ob"
    have len: "RARRAY_LEN ob = len" "len \<le> nat c" "len \<le> length vs" using grow cap D(2) by (auto simp: len_def RARRAY_LEN_def)
    have emb: "ah_embed h a = vs" using st grow(2) by (auto simp: stored_def RARRAY_PTR_def cells_of_def)
    define us where "us = take len vs @ replicate (nat c - len) (ah_junk h)"
    define ob' where "ob' = ob\<lparr>ao_embed := False, ao_elen := 0, ao_ptr := (b, 0), ao_len := RARRAY_LEN ob, ao_aux := c\<rparr>"
    define h' where "h' = h\<lparr>ah_objs := (ah_objs h)(a \<mapsto> ob'), ah_bufs := (ah_bufs h)(b \<mapsto> us), ah_next_buf := b + 1\<rparr>"
    have lu: "length us = nat c" using len by (simp add: us_def)
    have "ary_resize_capa a c h = Some (Inr (), h')"
      using D(8) grow small len emb
      by (simp add: ary_resize_capa_def run_def ALLOC_N_def ret_def Let_def mem_copy_def read_cells_def write_cells_def cells_of_def set_cells_def
          b_def [symmetric] len_def [symmetric] us_def [symmetric] FL_UNSET_EMBED_def)
        (simp add: update_def h'_def ob'_def us_def len)
    moreover note to_buffer [OF st lu grow(1) cap(2) _ ob'_def [unfolded b_def], of h']
    ultimately show ?thesis using lu len cap(1) grow(1)
      by (intro exI [of _ h'] exI [of _ ob'] exI [of _ us])
        (auto simp: h'_def b_def ob'_def RARRAY_LEN_def us_def same_flags_def)
  next
    case re
    have cap: "int (RARRAY_LEN ob) \<le> c" "c \<le> ARY_MAX_SIZE" using le re(1) by (simp_all add: max_def)
    have v: "ah_bufs h (fst (ao_ptr ob)) = Some vs" "snd (ao_ptr ob) = 0" using D(10) [OF re(2)] by simp_all
    have ne: "fst (ao_ptr ob) \<noteq> b" using heap_okD(2) [OF D(7) v(1)] by (simp add: b_def)
    define us where "us = take (nat c) vs @ replicate (nat c - min (length vs) (nat c)) (ah_junk h)"
    define ob' where "ob' = ob\<lparr>ao_embed := False, ao_elen := ao_elen ob, ao_ptr := (b, 0), ao_len := RARRAY_LEN ob, ao_aux := c\<rparr>"
    define h' where "h' = h\<lparr>ah_objs := (ah_objs h)(a \<mapsto> ob'), ah_bufs := (ah_bufs h)(b \<mapsto> us, fst (ao_ptr ob) := None), ah_next_buf := b + 1\<rparr>"
    have lu: "length us = nat c" by (simp add: us_def)
    have o: "ob\<lparr>ao_ptr := (b, 0), ao_aux := c\<rparr> = ob'" using re(2) by (simp add: ob'_def RARRAY_LEN_def)
    have "ary_resize_capa a c h = Some (Inr (), h')"
      using D(8) re small v ne o
      by (simp add: ary_resize_capa_def REALLOC_N_def run_def ALLOC_N_def ret_def Let_def write_cells_def cells_of_def set_cells_def xfree_def
          b_def [symmetric] update_def h'_def us_def)
    moreover have P: "RARRAY_LEN ob \<le> length us" "ah_objs h' = (ah_objs h)(a \<mapsto> ob')" "ah_embed h' = ah_embed h" "ah_next_obj h' = ah_next_obj h"
      "ah_next_buf h' = ah_next_buf h + 1" "ah_bufs h' (ah_next_buf h) = Some us"
      "\<And>x. ah_bufs h' x \<noteq> None \<Longrightarrow> x = ah_next_buf h \<or> ah_bufs h' x = ah_bufs h x"
      "\<And>x. x < ah_next_buf h \<Longrightarrow> \<not> (ARY_OWNS_HEAP_P ob \<and> x = fst (ao_ptr ob)) \<Longrightarrow> ah_bufs h' x = ah_bufs h x"
      "ah_nil h' = ah_nil h" "ah_safe_level h' = ah_safe_level h"
      using lu cap(1) ne re(2) D(9) by (auto simp: h'_def b_def ARY_OWNS_HEAP_P_def unshared_def split: if_splits)
    moreover note to_buffer [OF st lu re(1) cap(2) P(1) ob'_def [unfolded b_def] P(2-10)]
    ultimately show ?thesis using lu D(2) cap(1) re(1)
      by (intro exI [of _ h'] exI [of _ ob'] exI [of _ us]) (auto simp: ob'_def RARRAY_LEN_def us_def same_flags_def)
  next
    case shrink
    have v: "ah_bufs h (fst (ao_ptr ob)) = Some vs" "snd (ao_ptr ob) = 0" using D(10) [OF shrink(2)] by simp_all
    define len where "len = RARRAY_LEN ob"
    have len: "len \<le> RARRAY_EMBED_LEN_MAX" "len \<le> length vs" using le(1) shrink(1) D(2) by (simp_all add: len_def)
    have r: "rep_ok h a ob" using heap_okD(1) [OF D(7,8)] by simp
    then have el: "length (ah_embed h a) = RARRAY_EMBED_LEN_MAX" by (simp add: rep_ok_def)
    define us where "us = take len vs @ drop len (ah_embed h a)"
    define ob' where "ob' = ob\<lparr>ao_embed := True, ao_elen := len\<rparr>"
    define h' where "h' = h\<lparr>ah_objs := (ah_objs h)(a \<mapsto> ob'), ah_embed := (ah_embed h)(a := us), ah_bufs := (ah_bufs h)(fst (ao_ptr ob) := None)\<rparr>"
    have lu: "length us = RARRAY_EMBED_LEN_MAX" using len el by (simp add: us_def)
    have "ary_resize_capa a c h = Some (Inr (), h')"
      using D(8) shrink v len el
      by (simp add: ary_resize_capa_def ret_def Let_def mem_copy_def read_cells_def write_cells_def cells_of_def set_cells_def xfree_def ARY_SET_LEN_def
          FL_SET_EMBED_def len_def [symmetric] us_def [symmetric])
        (simp add: update_def h'_def ob'_def us_def FL_SET_EMBED_def)
    moreover have "array_change a ob ob' h h'"
      using D(8,9) shrink(2) lu len heap_okD(2) [OF D(7)]
      by (auto simp: array_change_def h'_def ob'_def rep_ok_def unshared_def shares_def ARY_OWNS_HEAP_P_def split: if_splits)
    moreover have "cells_of h' (fst (RARRAY_PTR a ob')) = Some us" by (simp add: cells_of_def h'_def ob'_def RARRAY_PTR_def)
    ultimately have "ary_resize_capa a c h = Some (Inr (), h')" "stored h' a ob' us" "rest_same a h h'"
      using stored_change [OF st, of ob' h' us] D(9) by (simp_all add: ob'_def h'_def unshared_def)
    then show ?thesis using lu len shrink(1)
      by (intro exI [of _ h'] exI [of _ ob'] exI [of _ us]) (simp add: ob'_def RARRAY_LEN_def us_def same_flags_def h'_def len_def)
  next
    case stay
    then have "ary_resize_capa a c h = Some (Inr (), h)" using D(8) by (simp add: ary_resize_capa_def ret_def)
    then show ?thesis using st stay D(6) by (intro exI [of _ h] exI [of _ ob] exI [of _ vs]) simp
  qed
qed

section \<open>Before a change\<close>

text \<open>An array that may be written ends up with cells of its own.\<close>

lemma modify_check_ok:
  assumes "heap_ok h" "view h a = Some (xs, w)"
  shows "w \<Longrightarrow> rb_ary_modify_check a h = Some (Inr (), h)"
    and "\<not> w \<Longrightarrow> \<exists>e. rb_ary_modify_check a h = Some (Inl e, h) \<and> e \<in> {RuntimeError, SecurityError}"
  using assms(2) by (auto simp: view_def rb_ary_modify_check_def ret_def rb_raise_def writable_def split: option.splits if_splits)

lemma decrement_commutes:
  assumes "a \<noteq> s"
  shows "rb_ary_decrement_share s (update a f h) = map_option (update a f) (rb_ary_decrement_share s h)"
proof -
  have "xfree p (update a f h) = map_option (update a f) (xfree p h)" for p
    by (cases "ah_bufs h (fst p)") (auto simp: xfree_def update_def)
  then show ?thesis using assms
    by (cases "ah_objs h s"; cases "xfree (ao_ptr (the (ah_objs h s))) h")
      (auto simp: rb_ary_decrement_share_def rb_ary_free_def Let_def update_def fun_upd_twist)
qed

text \<open>An array leaves its root: it has other cells already, and the root counts one less.\<close>

lemma leave_root:
  assumes ok: "heap_ok h" and a: "ah_objs h a = Some ob" "shares ob s" and c: "array_change a ob ob' h h1" "unshared ob'"
    and v: "cells_of h1 (fst (RARRAY_PTR a ob')) = Some us" and nil: "ah_nil h1 = ah_nil h" "same_flags ob ob'"
  shows "\<exists>h'. rb_ary_decrement_share s h1 = Some h' \<and> becomes h ((view h)(a \<mapsto> (take (RARRAY_LEN ob') us, writable h ob))) h' \<and> stored h' a ob' us"
proof -
  obtain so where so: "ah_objs h s = Some so" "ao_root so" "\<not> ao_root ob"
    using root_exists [OF ok a(1)] a(2) by (auto simp: shares_def)
  note d = c(1) [unfolded array_change_def]
  have sa: "s \<noteq> a" using so d by auto
  have objs: "ah_objs h1 s = Some so" using so d sa by simp
  note ok1 = array_change_ok [OF ok c(1)]
  have ch: "sharers h1 s = sharers h s - {a}" "a \<in> sharers h s"
    using sharers_change [of h a ob h1 ob' s] d a(2) c(2) by (auto simp: shares_def unshared_def)
  then have "card (sharers h1 s) < card (sharers h s)" using card_Diff1_less [OF finite_sharers [OF ok]] by metis
  then have "int (card (sharers h1 s)) < ao_aux so" using heap_okD(4) [OF ok so(1,2)] by linarith
  from decrement_ok [OF ok1(1) objs so(2) this] obtain h' where h': "rb_ary_decrement_share s h1 = Some h'" "becomes h1 (view h1) h'"
    "\<forall>x. x \<noteq> s \<longrightarrow> ah_objs h' x = ah_objs h1 x" "ah_embed h' = ah_embed h1" "\<forall>b. b \<noteq> fst (ao_ptr so) \<longrightarrow> ah_bufs h' b = ah_bufs h1 b" by blast
  have a1: "ah_objs h1 a = Some ob'" using d by simp
  have same: "writable h1 ob' = writable h ob" using nil(2) d by (simp add: same_flags_writable)
  have "cells_of h' (fst (RARRAY_PTR a ob')) = Some us"
  proof (cases "ao_embed ob'")
    case True
    then show ?thesis using v h'(3,4) a1 sa by (simp add: RARRAY_PTR_def cells_of_def)
  next
    case False
    then have "fst (ao_ptr ob') \<noteq> fst (ao_ptr so)"
      using heap_okD(3) [OF ok1(1) a1 objs _ root_owns [OF ok1(1) objs so(2)]] c(2) sa by (auto simp: ARY_OWNS_HEAP_P_def unshared_def)
    then show ?thesis using v h'(5) False by (simp add: RARRAY_PTR_def cells_of_def)
  qed
  then have st: "stored h' a ob' us" using h'(2,3) a1 sa c(2) by (auto simp: stored_def becomes_def)
  have st1: "stored h1 a ob' us" using ok1(1) a1 c(2) v by (simp add: stored_def)
  then have "contents h1 a ob' = take (RARRAY_LEN ob') us" using storedD(1) [OF st1] a1 c(2) by (simp add: view_def unshared_def)
  then show ?thesis using h'(1,2) st nil(1) d ok1(2) same by (auto simp: becomes_def)
qed

text \<open>It leaves with up to three elements, which go to its own cells.\<close>

lemma leave_embedded:
  assumes ok: "heap_ok h" and ob: "ah_objs h a = Some ob" "shares ob s" and ys: "length ys \<le> RARRAY_EMBED_LEN_MAX"
    and us: "us = ys @ drop (length ys) (ah_embed h a)"
    and ob': "ob' = ob\<lparr>ao_shared := False, ao_embed := True, ao_elen := length ys\<rparr>"
    and h0: "h0 = h\<lparr>ah_objs := (ah_objs h)(a \<mapsto> ob\<lparr>ao_shared := False, ao_embed := True\<rparr>), ah_embed := (ah_embed h)(a := us)\<rparr>"
  shows "\<exists>h2 h'. rb_ary_decrement_share s h0 = Some h2 \<and> ARY_SET_LEN a (length ys) h2 = Some h'
    \<and> becomes h ((view h)(a \<mapsto> (ys, writable h ob))) h' \<and> stored h' a ob' us"
proof -
  have sd: "ao_shared ob" "ao_aux ob = int s" using ob(2) by (simp_all add: shares_def)
  obtain so where s: "ah_objs h s = Some so" "ao_root so" "\<not> ao_embed ob" "\<not> ao_root ob"
    using root_exists [OF ok ob(1) sd(1)] sd(2) by auto
  have sa: "s \<noteq> a" using s ob(1) by auto
  have r: "rep_ok h a ob" using heap_okD(1) [OF ok ob(1)] by simp
  define h1 where "h1 = h\<lparr>ah_objs := (ah_objs h)(a \<mapsto> ob'), ah_embed := (ah_embed h)(a := us)\<rparr>"
  have lu: "length us = RARRAY_EMBED_LEN_MAX" using r ys by (simp add: us rep_ok_def)
  have c: "array_change a ob ob' h h1"
    using ob(1) s(4) lu ys sd(1) heap_okD(2) [OF ok]
    by (auto simp: array_change_def h1_def ob' rep_ok_def shares_def ARY_OWNS_HEAP_P_def)
  have "\<exists>h'. rb_ary_decrement_share s h1 = Some h' \<and> becomes h ((view h)(a \<mapsto> (take (RARRAY_LEN ob') us, writable h ob))) h' \<and> stored h' a ob' us"
    using s(4) by (intro leave_root [OF ok ob c]) (auto simp: ob' unshared_def cells_of_def h1_def RARRAY_PTR_def same_flags_def)
  moreover have "take (RARRAY_LEN ob') us = ys" by (simp add: ob' RARRAY_LEN_def us)
  ultimately obtain h' where h': "rb_ary_decrement_share s h1 = Some h'" "becomes h ((view h)(a \<mapsto> (ys, writable h ob))) h'" "stored h' a ob' us" by auto
  define f :: "array_obj \<Rightarrow> array_obj" where "f = (\<lambda>ob. ob\<lparr>ao_elen := length ys\<rparr>)"
  have "h1 = update a f h0" by (simp add: h1_def h0 f_def ob' update_def)
  then obtain h2 where h2: "rb_ary_decrement_share s h0 = Some h2" "h' = update a f h2"
    using h'(1) decrement_commutes [of a s f h0] sa by (cases "rb_ary_decrement_share s h0") auto
  obtain o2 where o2: "ah_objs h2 a = Some o2" "f o2 = ob'" using storedD(8) [OF h'(3)] h2(2) by auto
  have "ao_embed (f o2)" by (simp add: o2(2) ob')
  then have "ao_embed o2" by (simp add: f_def)
  then have "ARY_SET_LEN a (length ys) h2 = Some h'" using o2(1) ys by (simp add: ARY_SET_LEN_def h2(2) f_def)
  then show ?thesis using h2(1) h'(2,3) by blast
qed

lemma modify_ok:
  assumes ok: "heap_ok h" and v: "view h a = Some (xs, True)"
  shows "\<exists>h' ob vs. rb_ary_modify a h = Some (Inr (), h') \<and> becomes h (view h) h' \<and> stored h' a ob vs \<and> RARRAY_LEN ob = length xs
    \<and> take (length xs) vs = xs \<and> writable h' ob"
proof -
  obtain ob where ob: "ah_objs h a = Some ob" "\<not> ao_root ob" "xs = contents h a ob" "writable h ob"
    using v by (auto simp: view_def split: option.splits if_splits)
  obtain ro where "ah_objs h a = Some ro" "RARRAY_LEN ro = length xs" "read_cells (place_add (RARRAY_PTR a ro) 0) (length xs) h = Some (take (length xs) (drop 0 xs))"
    using read_view [OF ok v, of 0 "length xs"] by auto
  then have len: "RARRAY_LEN ob = length xs" "read_cells (RARRAY_PTR a ob) (length xs) h = Some xs" using ob(1) by simp_all
  have check: "rb_ary_modify_check a h = Some (Inr (), h)" using modify_check_ok(1) [OF ok v] by simp
  show ?thesis
  proof (cases "ao_shared ob")
    case False
    then have m: "rb_ary_modify a h = Some (Inr (), h)" using check ob(1) by (simp add: rb_ary_modify_def run_def ret_def)
    have "\<exists>vs. cells_of h (fst (RARRAY_PTR a ob)) = Some vs"
      using buffer_of [OF ok ob(1)] ob(1) by (cases "ao_embed ob") (auto simp: RARRAY_PTR_def cells_of_def)
    then obtain vs where "stored h a ob vs" using ok ob False by (auto simp: stored_def unshared_def)
    then show ?thesis using m ob storedD(1) v len ok by (fastforce simp: becomes_def)
  next
    case True
    obtain s so where s: "ao_aux ob = int s" "ah_objs h s = Some so" "ao_root so" "fst (ao_ptr ob) = fst (ao_ptr so)" "\<not> ao_embed ob"
      using root_exists [OF ok ob(1) True] by blast
    have sh: "shares ob s" using True s(1) by (simp add: shares_def)
    have sa: "s \<noteq> a" using s(2,3) ob(1,2) by auto
    have vv: "(view h)(a \<mapsto> (xs, True)) = view h" using v by (simp add: fun_upd_idem)
    have r: "rep_ok h a ob" using heap_okD(1) [OF ok ob(1)] by simp
    show ?thesis
    proof (cases "length xs \<le> RARRAY_EMBED_LEN_MAX")
      case smallxs: True
      define us where "us = xs @ drop (length xs) (ah_embed h a)"
      define ob' where "ob' = ob\<lparr>ao_shared := False, ao_embed := True, ao_elen := length xs\<rparr>"
      define h0 where "h0 = h\<lparr>ah_objs := (ah_objs h)(a \<mapsto> ob\<lparr>ao_shared := False, ao_embed := True\<rparr>), ah_embed := (ah_embed h)(a := us)\<rparr>"
      from leave_embedded [OF ok ob(1) sh smallxs us_def ob'_def h0_def] ob(4) vv obtain h2 h' where
        h': "rb_ary_decrement_share s h0 = Some h2" "ARY_SET_LEN a (length xs) h2 = Some h'" "becomes h (view h) h'" "stored h' a ob' us" by auto
      have "mem_copy (Inl a, 0) (Inr (fst (ao_ptr ob)), snd (ao_ptr ob)) (length xs)
          (update a (\<lambda>ob. FL_SET_EMBED (ob\<lparr>ao_shared := False\<rparr>)) h) = Some h0"
        using len(2) s(5) r ob(1) smallxs
        by (auto simp: mem_copy_def read_cells_def write_cells_def cells_of_def RARRAY_PTR_def FL_SET_EMBED_def set_cells_def h0_def us_def rep_ok_def
            update_def split: if_splits)
      then have "rb_ary_modify a h = Some (Inr (), h')"
        using check ob(1) True len(1) smallxs s(1) h'(1,2) by (simp add: rb_ary_modify_def run_def ret_def Let_def)
      moreover have "RARRAY_LEN ob' = length xs" "take (length xs) us = xs" "writable h' ob'"
        using ob(4) h'(3) by (simp_all add: ob'_def RARRAY_LEN_def us_def writable_def becomes_def)
      ultimately show ?thesis using h'(3,4) by blast
    next
      case False
      define b where "b = ah_next_buf h"
      define ob' where "ob' = ob\<lparr>ao_shared := False, ao_aux := int (length xs), ao_ptr := (b, 0)\<rparr>"
      define h0 where "h0 = h\<lparr>ah_bufs := (ah_bufs h)(b \<mapsto> xs), ah_next_buf := b + 1\<rparr>"
      define h1 where "h1 = h0\<lparr>ah_objs := (ah_objs h)(a \<mapsto> ob')\<rparr>"
      define f :: "array_obj \<Rightarrow> array_obj" where "f = (\<lambda>ob. ob\<lparr>ao_shared := False, ao_aux := int (length xs), ao_ptr := (b, 0)\<rparr>)"
      have max: "int (length xs) \<le> ARY_MAX_SIZE" using view_len [OF ok v] .
      have len': "ao_len ob = length xs" using len(1) s(5) by (simp add: RARRAY_LEN_def)
      have c: "array_change a ob ob' h h1"
        using ob(1,2) r s(5) True heap_okD(2) [OF ok] max len'
        by (auto simp: array_change_def h1_def h0_def ob'_def b_def rep_ok_def shares_def ARY_OWNS_HEAP_P_def intro: less_SucI split: if_splits)
      have "\<exists>h'. rb_ary_decrement_share s h1 = Some h' \<and> becomes h ((view h)(a \<mapsto> (take (RARRAY_LEN ob') xs, writable h ob))) h' \<and> stored h' a ob' xs"
        using ob(2) s(5) by (intro leave_root [OF ok ob(1) sh c])
          (auto simp: ob'_def unshared_def cells_of_def h1_def h0_def RARRAY_PTR_def same_flags_def)
      moreover have "take (RARRAY_LEN ob') xs = xs" using s(5) len' by (simp add: ob'_def RARRAY_LEN_def)
      ultimately have "\<exists>h'. rb_ary_decrement_share s h1 = Some h' \<and> becomes h (view h) h' \<and> stored h' a ob' xs" using ob(4) vv by simp
      then obtain h' where h': "rb_ary_decrement_share s h1 = Some h'" "becomes h (view h) h'" "stored h' a ob' xs" by blast
      have "h1 = update a f h0" using ob(1) by (simp add: h1_def h0_def f_def ob'_def update_def)
      then obtain h2 where h2: "rb_ary_decrement_share s h0 = Some h2" "h' = update a f h2"
        using h'(1) decrement_commutes [of a s f h0] sa by (cases "rb_ary_decrement_share s h0") auto
      have two: "update a (\<lambda>ob. ob\<lparr>ao_aux := int (length xs), ao_ptr := (b, 0)\<rparr>) (update a (\<lambda>ob. ob\<lparr>ao_shared := False\<rparr>) h2) = h'"
        by (cases "ah_objs h2 a") (simp_all add: h2(2) update_def f_def)
      have un: "rb_ary_unshare a h0 = Some (update a (\<lambda>ob. ob\<lparr>ao_shared := False\<rparr>) h2)"
        using ob(1) h2(1) s(1) by (simp add: rb_ary_unshare_def h0_def)
      define g where "g = h\<lparr>ah_bufs := (ah_bufs h)(b \<mapsto> replicate (length xs) (ah_junk h)), ah_next_buf := b + 1\<rparr>"
      have al: "ALLOC_N (int (length xs)) h = Some (Inr b, g)"
        using max by (simp add: ALLOC_N_def ret_def Let_def b_def g_def ARY_MAX_SIZE_def)
      have "fst (ao_ptr ob) \<noteq> b" using buffer_of [OF ok ob(1) s(5)] by (auto simp: b_def)
      then have cp: "mem_copy (Inr b, 0) (RARRAY_PTR a ob) (length xs) g = Some h0"
        using len(2) s(5)
        by (auto simp: mem_copy_def read_cells_def write_cells_def cells_of_def RARRAY_PTR_def set_cells_def h0_def g_def split: if_splits)
      have "rb_ary_modify a h = Some (Inr (), h')"
        using check ob(1) True len(1) False by (simp add: rb_ary_modify_def run_def ret_def Let_def al cp un two)
      moreover have "RARRAY_LEN ob' = length xs" "writable h' ob'"
        using ob(4) h'(2) s(5) len' by (simp_all add: ob'_def RARRAY_LEN_def writable_def becomes_def)
      ultimately show ?thesis using h'(2,3) by (intro exI [of _ h'] exI [of _ ob'] exI [of _ xs]) simp
    qed
  qed
qed

end
