(* ===== verification/ArrayMethods.thy ===== *)
theory ArrayMethods
  imports ArrayRefine
begin

text \<open>
  The methods that change one array in place, as operations on its list of elements: storing, adding and taking at the ends, replacing a part,
  deleting, clearing, filling.
\<close>

section \<open>Cells of one array\<close>

text \<open>\<open>a\<close> may be written and has the cells \<open>vs\<close> to itself; every other array is as in \<open>h0\<close>.\<close>

definition cells :: "'v ary_heap \<Rightarrow> 'v ary_heap \<Rightarrow> nat \<Rightarrow> array_obj \<Rightarrow> 'v list \<Rightarrow> bool" where
  "cells h0 h a ob vs \<longleftrightarrow> stored h a ob vs \<and> rest_same a h0 h \<and> writable h ob"

lemma cellsD:
  assumes "cells h0 h a ob vs"
  shows "ah_objs h a = Some ob" and "heap_ok h" and "RARRAY_LEN ob \<le> length vs" and "ARY_CAPA ob = int (length vs)"
    and "int (length vs) \<le> ARY_MAX_SIZE" and "x \<noteq> a \<Longrightarrow> view h x = view h0 x" and "ah_nil h = ah_nil h0" and "ah_safe_level h = ah_safe_level h0"
    and "stored h a ob vs" and "view h a = Some (take (RARRAY_LEN ob) vs, True)"
  using assms storedD(1-3,5,7,8) [of h a ob vs] by (simp_all add: cells_def rest_same_def)

lemma cells_done:
  "cells h0 h a ob vs \<Longrightarrow> becomes h0 ((view h0)(a \<mapsto> (take (RARRAY_LEN ob) vs, True))) h"
  using becomes_rest [of a h0 h ob vs, OF _ _ refl refl] by (simp add: cells_def)

lemma cells_same: "cells h0 h a ob vs \<Longrightarrow> stored h' a ob' vs' \<Longrightarrow> rest_same a h h' \<Longrightarrow> same_flags ob ob' \<Longrightarrow> cells h0 h' a ob' vs'"
  using rest_same_trans [of a h0 h h'] same_flags_writable [of ob ob' h' h] by (simp add: cells_def rest_same_def)

lemma cells_write:
  assumes "cells h0 h a ob vs" "i + length xs \<le> length vs"
  shows "\<exists>h'. write_cells (place_add (RARRAY_PTR a ob) i) xs h = Some h' \<and> cells h0 h' a ob (take i vs @ xs @ drop (i + length xs) vs)"
  using write_stored [OF cellsD(9) [OF assms(1)] assms(2)] cells_same [OF assms(1)] same_flags_refl(1) [of ob] by blast

lemma cells_copy:
  assumes "cells h0 h a ob vs" "j + n \<le> length vs" "i + n \<le> length vs"
  shows "\<exists>h'. mem_copy (place_add (RARRAY_PTR a ob) i) (place_add (RARRAY_PTR a ob) j) n h = Some h'
    \<and> cells h0 h' a ob (take i vs @ take n (drop j vs) @ drop (i + n) vs)"
  using copy_stored [OF cellsD(9) [OF assms(1)] assms(2,3)] cells_same [OF assms(1)] same_flags_refl(1) [of ob] by blast

lemma cells_read:
  "cells h0 h a ob vs \<Longrightarrow> i + n \<le> length vs \<Longrightarrow> read_cells (place_add (RARRAY_PTR a ob) i) n h = Some (take n (drop i vs))"
  by (simp add: cells_def read_stored)

lemma cells_set_len:
  assumes "cells h0 h a ob vs" "n \<le> length vs"
  shows "\<exists>h'. ARY_SET_LEN a n h = Some h' \<and> cells h0 h' a (with_len n ob) vs"
  using set_len_stored [OF cellsD(9) [OF assms(1)] assms(2)] cells_same [OF assms(1)] same_flags_refl(2) [of ob n] by blast

lemma cells_resize:
  assumes "cells h0 h a ob vs" "cond \<Longrightarrow> int (RARRAY_LEN ob) \<le> max c (int RARRAY_EMBED_LEN_MAX)" "cond \<Longrightarrow> c \<le> ARY_MAX_SIZE"
  shows "\<exists>h' ob' vs'. (if cond then ary_resize_capa a c h else ret () h) = Some (Inr (), h') \<and> cells h0 h' a ob' vs'
    \<and> RARRAY_LEN ob' = RARRAY_LEN ob \<and> take (RARRAY_LEN ob) vs' = take (RARRAY_LEN ob) vs \<and> (cond \<longrightarrow> c \<le> int (length vs'))
    \<and> (\<not> cond \<longrightarrow> vs' = vs) \<and> (cond \<longrightarrow> int (length vs') = max c (int RARRAY_EMBED_LEN_MAX))"
proof (cases cond)
  case True
  with resize_stored [of h a ob vs c] assms obtain h' ob' vs' where
    *: "ary_resize_capa a c h = Some (Inr (), h')" "stored h' a ob' vs'" "rest_same a h h'"
      "RARRAY_LEN ob' = RARRAY_LEN ob" "take (RARRAY_LEN ob) vs' = take (RARRAY_LEN ob) vs" "same_flags ob ob'"
      "int (length vs') = max c (int RARRAY_EMBED_LEN_MAX)" unfolding cells_def by blast
  from cells_same [OF assms(1) *(2,3,6)] have "cells h0 h' a ob' vs'" .
  then show ?thesis using * True by (intro exI [of _ h'] exI [of _ ob'] exI [of _ vs']) simp
qed (use assms in \<open>auto simp: ret_def\<close>)

lemma modify_cells:
  assumes "heap_ok h" "view h a = Some (xs, True)"
  shows "\<exists>h' ob vs. rb_ary_modify a h = Some (Inr (), h') \<and> cells h h' a ob vs \<and> RARRAY_LEN ob = length xs \<and> take (length xs) vs = xs"
proof -
  obtain h' ob vs where "rb_ary_modify a h = Some (Inr (), h')" "becomes h (view h) h'" "stored h' a ob vs" "RARRAY_LEN ob = length xs"
    "take (length xs) vs = xs" "writable h' ob" using modify_ok [OF assms] by blast
  then show ?thesis by (auto simp: cells_def becomes_def rest_same_def)
qed

lemma run_ok [simp]: "run (Some (Inr x, h)) f = f x h" "run (Some (Inl e, h)) f = Some (Inl e, h)" "run (ret x h) f = f x h"
  by (simp_all add: run_def ret_def)

section \<open>Storing\<close>

definition store_list :: "'v \<Rightarrow> 'v list \<Rightarrow> nat \<Rightarrow> 'v \<Rightarrow> 'v list" where
  "store_list null xs i v = (if i < length xs then xs[i := v] else xs @ replicate (i - length xs) null @ [v])"

lemma store_capa_bounds:
  assumes "0 \<le> capa" "capa \<le> i" "i < ARY_MAX_SIZE - 1"
  shows "i < store_capa capa i" and "store_capa capa i \<le> ARY_MAX_SIZE"
  using assms by (auto simp: store_capa_def Let_def ARY_DEFAULT_SIZE_def)

lemma store_ok:
  assumes ok: "heap_ok h" and v: "view h a = Some (xs, True)"
    and i: "(if sint idx < 0 then sint idx + int (length xs) else sint idx) = int i" "i < length xs \<or> int i < ARY_MAX_SIZE - 1"
  shows "\<exists>h'. rb_ary_store a idx val h = Some (Inr (), h') \<and> becomes h ((view h)(a \<mapsto> (store_list (ah_nil h) xs i val, True))) h'"
proof -
  obtain ob0 where ob0: "ah_objs h a = Some ob0" "RARRAY_LEN ob0 = length xs"
    using read_view [OF ok v, of 0 0] by auto
  have small: "int i < ARY_MAX_SIZE" using i view_len [OF ok v] by auto
  obtain h1 ob1 vs1 where 1: "rb_ary_modify a h = Some (Inr (), h1)" "cells h h1 a ob1 vs1" "RARRAY_LEN ob1 = length xs" "take (length xs) vs1 = xs"
    using modify_cells [OF ok v] by blast
  define c where "c = store_capa (ARY_CAPA ob1) (int i)"
  note D1 = cellsD [OF 1(2)]
  have c: "int (length vs1) \<le> int i \<Longrightarrow> int i < c \<and> c \<le> ARY_MAX_SIZE"
    using store_capa_bounds [of "ARY_CAPA ob1" "int i"] i(2) D1(3,4) 1(3) by (auto simp: c_def)
  obtain h2 ob2 vs2 where 2: "(if ARY_CAPA ob1 \<le> int i then ary_resize_capa a c h1 else ret () h1) = Some (Inr (), h2)" "cells h h2 a ob2 vs2"
    "RARRAY_LEN ob2 = length xs" "take (length xs) vs2 = xs" "i < length vs2"
    using cells_resize [OF 1(2), of "ARY_CAPA ob1 \<le> int i" c] c D1(3,4) 1(3,4) by fastforce
  note D2 = cellsD [OF 2(2)]
  let ?clear = "if int (length xs) < int i then rb_mem_clear (place_add (RARRAY_PTR a ob2) (length xs)) (nat (int i) - length xs + 1) h2 else Some h2"
  have "\<exists>h3 vs3. ?clear = Some h3 \<and> cells h h3 a ob2 vs3 \<and> length vs3 = length vs2 \<and> take (length xs) vs3 = xs
      \<and> (length xs \<le> i \<longrightarrow> take i vs3 = xs @ replicate (i - length xs) (ah_nil h))"
  proof (cases "length xs < i")
    case True
    obtain h3 where "rb_mem_clear (place_add (RARRAY_PTR a ob2) (length xs)) (i - length xs + 1) h2 = Some h3"
      "cells h h3 a ob2 (xs @ replicate (i - length xs) (ah_nil h) @ ah_nil h # drop (Suc i) vs2)"
      using cells_write [OF 2(2), of "length xs" "replicate (i - length xs + 1) (ah_nil h2)"] 2(3-5) D2(7) True
      by (auto simp: rb_mem_clear_def replicate_app_Cons_same)
    then show ?thesis using True 2(5) by (intro exI [of _ h3] exI) (auto simp: min_def)
  qed (use 2 in auto)
  then obtain h3 vs3 where 3: "?clear = Some h3" "cells h h3 a ob2 vs3" "length vs3 = length vs2" "take (length xs) vs3 = xs"
    "length xs \<le> i \<Longrightarrow> take i vs3 = xs @ replicate (i - length xs) (ah_nil h)" by blast
  define ob4 where "ob4 = (if length xs \<le> i then with_len (i + 1) ob2 else ob2)"
  have "\<exists>h4. (if int (length xs) \<le> int i then ARY_SET_LEN a (nat (int i) + 1) h3 else Some h3) = Some h4 \<and> cells h h4 a ob4 vs3"
    using cells_set_len [OF 3(2), of "i + 1"] 3(2,3) 2(5) by (auto simp: ob4_def)
  then obtain h4 where 4: "(if int (length xs) \<le> int i then ARY_SET_LEN a (nat (int i) + 1) h3 else Some h3) = Some h4" "cells h h4 a ob4 vs3" by blast
  obtain h5 where 5: "write_cells (place_add (RARRAY_PTR a ob4) i) [val] h4 = Some h5" "cells h h5 a ob4 (take i vs3 @ [val] @ drop (i + 1) vs3)"
    using cells_write [OF 4(2), of i "[val]"] 3(3) 2(5) by auto
  have "take (RARRAY_LEN ob4) (take i vs3 @ [val] @ drop (i + 1) vs3) = store_list (ah_nil h) xs i val"
  proof (cases "i < length xs")
    case True
    have "vs3 = xs @ drop (length xs) vs3" using 3(4) append_take_drop_id by metis
    then show ?thesis using True 2(3) by (metis (no_types, lifting) append_Cons append_Nil append_eq_conv_conj
        length_list_update list_update_append1 ob4_def not_less store_list_def upd_conv_take_nth_drop 3(3) 2(5) Suc_eq_plus1)
  qed (use 2(3,5) 3 in \<open>auto simp: ob4_def store_list_def min_def\<close>)
  moreover have "rb_ary_store a idx val h = Some (Inr (), h5)"
  proof -
    have neg: "\<not> int i < 0" "\<not> (0 \<le> sint idx \<and> ARY_MAX_SIZE \<le> int i)" using small by auto
    show ?thesis
      unfolding rb_ary_store_def
      by (simp only: ob0 bind.bind_lunit Let_def i(1) neg if_False 1(1) run_ok D1(1) c_def [symmetric] 2(1,3) D2(1) 3(1) 4(1) cellsD(1) [OF 4(2)])
        (simp add: 5(1) ret_def)
  qed
  ultimately show ?thesis using cells_done [OF 5(2)] by auto
qed

lemma store_bad:
  assumes "ah_objs h a = Some ob" "i = (if sint idx < 0 then sint idx + int (RARRAY_LEN ob) else sint idx)"
    "i < 0 \<or> 0 \<le> sint idx \<and> ARY_MAX_SIZE \<le> sint idx"
  shows "rb_ary_store a idx val h = Some (Inl IndexError, h)"
proof -
  have "i < 0 \<or> \<not> i < 0 \<and> 0 \<le> sint idx \<and> ARY_MAX_SIZE \<le> i" using assms(2,3) by auto
  then show ?thesis unfolding rb_ary_store_def assms(1) bind.bind_lunit Let_def assms(2) [symmetric] by (auto simp: rb_raise_def)
qed

text \<open>The last index that the check lets pass: the capacity that is asked for does not hold it.\<close>

lemma store_last:
  assumes ok: "heap_ok h" and v: "view h a = Some (xs, True)" "int (length xs) < i" "i = ARY_MAX_SIZE - 1"
    and room: "\<And>h1 ob. rb_ary_modify a h = Some (Inr (), h1) \<Longrightarrow> ah_objs h1 a = Some ob \<Longrightarrow> ARY_CAPA ob \<le> i"
  shows "rb_ary_store a (word_of_int i) val h = None"
proof -
  obtain ob0 where ob0: "ah_objs h a = Some ob0" "RARRAY_LEN ob0 = length xs"
    using read_view [OF ok v(1), of 0 0] by auto
  obtain h1 ob1 vs1 where 1: "rb_ary_modify a h = Some (Inr (), h1)" "cells h h1 a ob1 vs1" "RARRAY_LEN ob1 = length xs" "take (length xs) vs1 = xs"
    using modify_cells [OF ok v(1)] by blast
  note D1 = cellsD [OF 1(2)]
  have c: "ARY_CAPA ob1 \<le> i" using room [OF 1(1) D1(1)] .
  have i: "i = 536870910" using v(3) by (simp add: ARY_MAX_SIZE_def)
  have cap: "store_capa (ARY_CAPA ob1) i = i"
    using c D1(4) i by (auto simp: store_capa_def Let_def ARY_MAX_SIZE_def ARY_DEFAULT_SIZE_def)
  obtain h2 ob2 vs2 where 2: "ary_resize_capa a i h1 = Some (Inr (), h2)" "cells h h2 a ob2 vs2" "RARRAY_LEN ob2 = length xs" "int (length vs2) = i"
    using cells_resize [OF 1(2), of True i] 1(3) v(2) i by (auto simp: ARY_MAX_SIZE_def RARRAY_EMBED_LEN_MAX_def)
  note D2 = cellsD [OF 2(2)]
  have "write_cells (place_add (RARRAY_PTR a ob2) (length xs)) (replicate (nat i - length xs + 1) (ah_nil h2)) h2 = None"
    using D2(9) storedD(4) [OF D2(9)] 2(4) v(2) by (auto simp: write_cells_def place_add_def stored_def nat_less_iff)
  moreover have "\<not> i < 0" "sint (word_of_int i :: u32) = i" "\<not> ARY_MAX_SIZE \<le> i" by (simp_all add: i ARY_MAX_SIZE_def)
  ultimately show ?thesis
    using ob0 1(1) D1(1) c cap 2(1,3) D2(1) v(2) by (simp add: rb_ary_store_def rb_mem_clear_def)
qed

section \<open>The ends\<close>

lemma becomes_trans: "becomes h V h1 \<Longrightarrow> becomes h1 V' h2 \<Longrightarrow> becomes h V' h2"
  by (simp add: becomes_def)

lemma becomesD: "becomes h V h' \<Longrightarrow> heap_ok h'" "becomes h V h' \<Longrightarrow> view h' = V" "becomes h V h' \<Longrightarrow> ah_nil h' = ah_nil h"
  by (simp_all add: becomes_def)

lemma sint_len: "int n \<le> ARY_MAX_SIZE \<Longrightarrow> sint (of_nat n :: u32) = int n"
  using sint_word_of_int_u32 [of "int n"] by (simp add: ARY_MAX_SIZE_def)

lemma push_ok:
  assumes ok: "heap_ok h" and v: "view h a = Some (xs, True)" and n: "int (length xs) < ARY_MAX_SIZE - 1"
  shows "\<exists>h'. rb_ary_push a val h = Some (Inr (), h') \<and> becomes h ((view h)(a \<mapsto> (xs @ [val], True))) h'"
proof -
  obtain ob0 where ob0: "ah_objs h a = Some ob0" "RARRAY_LEN ob0 = length xs"
    using read_view [OF ok v, of 0 0] by auto
  then show ?thesis
    using store_ok [OF ok v, of "of_nat (length xs)" "length xs" val] n sint_len [of "length xs"]
    by (simp add: rb_ary_push_def store_list_def)
qed

lemma push_each_ok:
  assumes "heap_ok h" "view h a = Some (xs, True)" "int (length xs + length vs) < ARY_MAX_SIZE"
  shows "\<exists>h'. push_each a vs h = Some (Inr (), h') \<and> becomes h ((view h)(a \<mapsto> (xs @ vs, True))) h'"
  using assms
proof (induction vs arbitrary: h xs)
  case Nil
  then show ?case by (simp add: ret_def becomes_def fun_upd_idem)
next
  case (Cons y ys)
  obtain h1 where 1: "rb_ary_push a y h = Some (Inr (), h1)" "becomes h ((view h)(a \<mapsto> (xs @ [y], True))) h1"
    using push_ok [of h a xs y] Cons.prems by auto
  obtain h2 where "push_each a ys h1 = Some (Inr (), h2)" "becomes h1 ((view h1)(a \<mapsto> (xs @ y # ys, True))) h2"
    using Cons.IH [of h1 "xs @ [y]"] becomesD(1,2) [OF 1(2)] Cons.prems(3) by (auto simp del: fun_upd_apply) (auto simp: fun_upd_def)
  then show ?case using 1 becomesD(2) [OF 1(2)] becomes_trans by fastforce
qed

text \<open>Any array, shared or not, may show fewer of its cells.\<close>

lemma narrow:
  assumes ok: "heap_ok h" and v: "view h a = Some (xs, w)" and a: "ah_objs h a = Some ob" and kn: "k + n \<le> length xs" "k = 0 \<or> ao_shared ob"
    and ob': "ob' = (if ao_embed ob then ob\<lparr>ao_elen := n\<rparr> else ob\<lparr>ao_ptr := (fst (ao_ptr ob), snd (ao_ptr ob) + k), ao_len := n\<rparr>)"
    and h': "h' = update a (\<lambda>_. ob') h"
  shows "becomes h ((view h)(a \<mapsto> (take n (drop k xs), w))) h'"
proof -
  have va: "xs = contents h a ob" "\<not> ao_root ob" "w = writable h ob" using v a by (auto simp: view_def split: if_splits)
  have len: "RARRAY_LEN ob = length xs" using read_view [OF ok v, of 0 0] a by auto
  have r: "rep_ok h a ob" using heap_okD(1) [OF ok a] by simp
  have emb: "ao_embed ob \<Longrightarrow> \<not> ao_shared ob" using r by (auto simp: rep_ok_def)
  have objs: "ah_objs h' = (ah_objs h)(a \<mapsto> ob')" using a by (simp add: h')
  have same: "ah_embed h' = ah_embed h" "ah_bufs h' = ah_bufs h" by (simp_all add: h')
  have "rep_ok h' a ob'"
  proof (cases "ao_embed ob")
    case True
    then show ?thesis using r kn len by (simp add: rep_ok_def ob' same RARRAY_LEN_def)
  next
    case False
    show ?thesis
    proof (cases "ao_shared ob")
      case True
      then obtain s so vs where "ao_aux ob = int s" "ah_objs h s = Some so" "ao_root so" "fst (ao_ptr ob) = fst (ao_ptr so)"
        "ah_bufs h (fst (ao_ptr ob)) = Some vs" "snd (ao_ptr ob) + ao_len ob \<le> length vs" using r False by (auto simp: rep_ok_def)
      moreover have "s \<noteq> a" using calculation va(2) a by auto
      ultimately show ?thesis using True False r va(2) kn(1) len
        by (simp add: rep_ok_def ob' same objs RARRAY_LEN_def)
    qed (use False r va(2) kn len in \<open>auto simp: rep_ok_def ob' same RARRAY_LEN_def\<close>)
  qed
  then have "array_change a ob ob' h h'"
    using a va(2) heap_okD(2) [OF ok]
    by (auto simp: array_change_def objs same ob' ARY_OWNS_HEAP_P_def shares_def) (simp_all add: h')
  note c = array_change_ok [OF ok this]
  have "writable h' ob' = w" using va(3) by (simp add: writable_def ob' h')
  moreover have "contents h' a ob' = take n (drop k xs)"
    using kn len a emb by (cases "ao_embed ob") (auto simp: va(1) contents_def ob' RARRAY_LEN_def RARRAY_PTR_def cells_of_def same objs drop_take add.commute min_def)
  ultimately show ?thesis using c by (simp add: becomes_def h')
qed

lemma set_len_ok:
  assumes ok: "heap_ok h" and v: "view h a = Some (xs, w)" and a: "ah_objs h a = Some ob" and n: "n \<le> length xs"
  shows "ARY_SET_LEN a n h = Some (update a (\<lambda>_. with_len n ob) h)"
    and "becomes h ((view h)(a \<mapsto> (take n xs, w))) (update a (\<lambda>_. with_len n ob) h)"
proof -
  have "RARRAY_LEN ob = length xs" using read_view [OF ok v, of 0 0] a by auto
  moreover have "rep_ok h a ob" using heap_okD(1) [OF ok a] by simp
  ultimately show "ARY_SET_LEN a n h = Some (update a (\<lambda>_. with_len n ob) h)"
    using a n by (auto simp: ARY_SET_LEN_def with_len_def update_def RARRAY_LEN_def rep_ok_def)
  show "becomes h ((view h)(a \<mapsto> (take n xs, w))) (update a (\<lambda>_. with_len n ob) h)"
    using narrow [OF ok v a, of 0 n "with_len n ob"] n by (simp add: with_len_def)
qed

lemma window_ok:
  assumes ok: "heap_ok h" and v: "view h a = Some (xs, w)" and a: "ah_objs h a = Some ob" "ao_shared ob" and n: "k + n \<le> length xs"
  shows "\<exists>h1 h'. ARY_INCREASE_PTR a k h = Some h1 \<and> ARY_SET_LEN a n h1 = Some h' \<and> becomes h ((view h)(a \<mapsto> (take n (drop k xs), w))) h'"
proof -
  have e: "\<not> ao_embed ob" using heap_okD(1) [OF ok a(1)] a(2) by (auto simp: rep_ok_def)
  define ob' where "ob' = (if ao_embed ob then ob\<lparr>ao_elen := n\<rparr> else ob\<lparr>ao_ptr := (fst (ao_ptr ob), snd (ao_ptr ob) + k), ao_len := n\<rparr>)"
  have "\<exists>h1. ARY_INCREASE_PTR a k h = Some h1 \<and> ARY_SET_LEN a n h1 = Some (update a (\<lambda>_. ob') h)"
    using a(1) e by (simp add: ARY_INCREASE_PTR_def ARY_SET_LEN_def) (simp add: update_def ob'_def)
  then show ?thesis using narrow [OF ok v a(1) n _ ob'_def refl] a(2) by blast
qed

lemma own_cells:
  assumes ok: "heap_ok h" and v: "view h a = Some (xs, True)" and a: "ah_objs h a = Some ob" "\<not> ao_shared ob"
  shows "\<exists>vs. cells h h a ob vs \<and> RARRAY_LEN ob = length xs \<and> take (length xs) vs = xs"
proof -
  have ob: "\<not> ao_root ob" "writable h ob" using v a(1) by (auto simp: view_def split: if_splits)
  have "\<exists>vs. cells_of h (fst (RARRAY_PTR a ob)) = Some vs"
    using buffer_of [OF ok a(1)] a(1) by (cases "ao_embed ob") (auto simp: RARRAY_PTR_def cells_of_def)
  then obtain vs where st: "stored h a ob vs" using ok a ob by (auto simp: stored_def unshared_def)
  have "RARRAY_LEN ob = length xs" using read_view [OF ok v, of 0 0] a(1) by auto
  then show ?thesis using st ob storedD(1) [OF st] v by (auto simp: cells_def)
qed

lemma read_update [simp]: "read_cells p n (update a f h) = read_cells p n h"
  by (cases "fst p") (auto simp: read_cells_def cells_of_def option.map_comp comp_def)

lemma view_obj: "view h a = Some (xs, w) \<Longrightarrow> \<exists>ob. ah_objs h a = Some ob \<and> \<not> ao_root ob"
  by (auto simp: view_def split: option.splits if_splits)

lemma check_ok: "heap_ok h \<Longrightarrow> view h a = Some (xs, True) \<Longrightarrow> rb_ary_modify_check a h = Some (Inr (), h)"
  using modify_check_ok(1) by blast

lemma pop_ok:
  assumes ok: "heap_ok h" and v: "view h a = Some (xs, True)"
  shows "\<exists>h'. rb_ary_pop a h = Some (Inr (if xs = [] then ah_nil h else last xs), h') \<and> becomes h ((view h)(a \<mapsto> (butlast xs, True))) h'"
proof -
  obtain ob where ob: "ah_objs h a = Some ob" using view_obj [OF v] by blast
  have len: "RARRAY_LEN ob = length xs" using read_view [OF ok v, of 0 0] ob by auto
  show ?thesis
  proof (cases "xs = []")
    case True
    then have "rb_ary_pop a h = Some (Inr (ah_nil h), h)"
      using check_ok [OF ok v] ob len by (simp add: rb_ary_pop_def ret_def)
    moreover have "becomes h ((view h)(a \<mapsto> (butlast xs, True))) h" using True ok v by (simp add: becomes_def fun_upd_idem)
    ultimately show ?thesis using True by auto
  next
    case False
    define c where "c \<longleftrightarrow> ARY_OWNS_HEAP_P ob \<and> int (length xs) * 3 < ARY_CAPA ob \<and> int ARY_DEFAULT_SIZE < ARY_CAPA ob"
    have "\<exists>h1. (if c then ary_resize_capa a (int (length xs) * 2) h else ret () h) = Some (Inr (), h1) \<and> becomes h (view h) h1"
    proof (cases c)
      case True
      then have "\<not> ao_shared ob" by (simp add: c_def ARY_OWNS_HEAP_P_def)
      from own_cells [OF ok v ob this] obtain vs where vs: "cells h h a ob vs" "take (length xs) vs = xs" by blast
      note D = cellsD [OF vs(1)]
      have sz: "int (RARRAY_LEN ob) \<le> max (int (length xs) * 2) (int RARRAY_EMBED_LEN_MAX)" "int (length xs) * 2 \<le> ARY_MAX_SIZE"
        using len True D(4,5) by (auto simp: c_def)
      obtain h1 ob1 vs1 where 1: "(if c then ary_resize_capa a (int (length xs) * 2) h else ret () h) = Some (Inr (), h1)" "cells h h1 a ob1 vs1"
        "RARRAY_LEN ob1 = length xs" "take (length xs) vs1 = xs"
        using cells_resize [OF vs(1) sz] len vs(2) by metis
      have "(view h)(a \<mapsto> (xs, True)) = view h" using v by (simp add: fun_upd_idem)
      then show ?thesis using 1(1) cells_done [OF 1(2)] 1(3,4) by auto
    qed (use ok in \<open>simp add: ret_def becomes_def\<close>)
    then obtain h1 where 1: "(if c then ary_resize_capa a (int (length xs) * 2) h else ret () h) = Some (Inr (), h1)" "becomes h (view h) h1" by blast
    have v1: "view h1 a = Some (xs, True)" "heap_ok h1" using v becomesD [OF 1(2)] by simp_all
    have "length xs - 1 + 1 \<le> length xs" using False by (cases xs) auto
    from read_view [OF v1(2,1) this] obtain ob1 where o1: "ah_objs h1 a = Some ob1" "RARRAY_LEN ob1 = length xs"
      "read_cells (place_add (RARRAY_PTR a ob1) (length xs - 1)) 1 h1 = Some (take 1 (drop (length xs - 1) xs))" by blast
    have hd: "hd (take 1 (drop (length xs - 1) xs)) = last xs" using False by (simp add: hd_drop_conv_nth last_conv_nth)
    define h2 where "h2 = update a (\<lambda>_. with_len (length xs - 1) ob1) h1"
    have s: "ARY_SET_LEN a (length xs - 1) h1 = Some h2" "becomes h1 ((view h1)(a \<mapsto> (butlast xs, True))) h2"
      using set_len_ok [OF v1(2,1) o1(1), of "length xs - 1"] by (simp_all add: h2_def butlast_conv_take)
    have o2: "ah_objs h2 a = Some (with_len (length xs - 1) ob1)" using o1(1) by (simp add: h2_def)
    have rd: "read_cells (place_add (RARRAY_PTR a ob1) (length xs - 1)) 1 h2 = Some (take 1 (drop (length xs - 1) xs))"
      using o1(3) by (simp add: h2_def)
    have "rb_ary_pop a h = Some (Inr (last xs), h2)"
      unfolding rb_ary_pop_def
      by (simp only: check_ok [OF ok v] run_ok ob bind.bind_lunit len length_0_conv False if_False c_def [symmetric] 1(1) o1(1,2) Let_def s(1) o2
          with_len rd hd) (simp add: ret_def)
    then show ?thesis using False becomes_trans [OF 1(2)] s(2) becomesD(2) [OF 1(2)] by auto
  qed
qed

lemma read_whole:
  assumes "heap_ok h" "view h a = Some (xs, w)" "ah_objs h a = Some ob"
  shows "RARRAY_LEN ob = length xs" and "i + n \<le> length xs \<Longrightarrow> read_cells (place_add (RARRAY_PTR a ob) i) n h = Some (take n (drop i xs))"
    and "n \<le> length xs \<Longrightarrow> read_cells (RARRAY_PTR a ob) n h = Some (take n xs)"
  using read_view [OF assms(1,2), of 0 0] read_view [OF assms(1,2), of i n] read_view [OF assms(1,2), of 0 n] assms(3) by auto

lemma shift_ok:
  assumes ok: "heap_ok h" and v: "view h a = Some (xs, True)"
  shows "\<exists>h'. rb_ary_shift a h = Some (Inr (if xs = [] then ah_nil h else hd xs), h') \<and> becomes h ((view h)(a \<mapsto> (tl xs, True))) h'"
proof -
  obtain ob where ob: "ah_objs h a = Some ob" "\<not> ao_root ob" using view_obj [OF v] by blast
  note len = read_whole(1) [OF ok v ob(1)]
  show ?thesis
  proof (cases xs)
    case Nil
    then have "rb_ary_shift a h = Some (Inr (ah_nil h), h)"
      using check_ok [OF ok v] ob len by (simp add: rb_ary_shift_def ret_def)
    moreover have "becomes h ((view h)(a \<mapsto> (tl xs, True))) h" using Nil ok v by (simp add: becomes_def fun_upd_idem)
    ultimately show ?thesis using Nil by auto
  next
    case (Cons y ys)
    have rd: "read_cells (RARRAY_PTR a ob) 1 h = Some [y]" using read_whole(3) [OF ok v ob(1), of 1] Cons by simp
    have n1: "length xs - 1 = length ys" "xs \<noteq> []" "length xs \<noteq> 0" using Cons by simp_all
    note start = check_ok [OF ok v] run_ok ob bind.bind_lunit len Let_def n1 if_False rd list.sel
    consider (move) "\<not> ao_shared ob" "length xs < ARY_DEFAULT_SIZE" | (share) "\<not> ao_shared ob" "\<not> length xs < ARY_DEFAULT_SIZE"
      | (shared) "ao_shared ob" by blast
    then show ?thesis
    proof cases
      case move
      from own_cells [OF ok v ob(1) move(1)] obtain vs where vs: "cells h h a ob vs" "take (length xs) vs = xs" by blast
      define zs where "zs = drop (length xs) vs"
      have vz: "vs = y # ys @ zs" using vs(2) Cons append_take_drop_id [of "length xs" vs] by (simp add: zs_def)
      obtain h1 where 1: "mem_copy (RARRAY_PTR a ob) (place_add (RARRAY_PTR a ob) 1) (length ys) h = Some h1"
        "cells h h1 a ob (ys @ drop (length ys) vs)"
        using cells_copy [OF vs(1), of 1 "length ys" 0] by (auto simp: vz)
      obtain h2 where 2: "ARY_SET_LEN a (length ys) h1 = Some h2" "cells h h2 a (with_len (length ys) ob) (ys @ drop (length ys) vs)"
        using cells_set_len [OF 1(2), of "length ys"] by auto
      have "rb_ary_shift a h = Some (Inr y, h2)"
        unfolding rb_ary_shift_def by (simp only: start move simp_thms if_True 1 2(1)) (simp add: ret_def)
      then show ?thesis using cells_done [OF 2(2)] Cons by auto
    next
      case share
      from own_cells [OF ok v ob(1) share(1)] obtain vs where vs: "cells h h a ob vs" "take (length xs) vs = xs" by blast
      have ne: "\<not> ao_embed ob"
        using share(2) len heap_okD(1) [OF ok ob(1)] by (auto simp: rep_ok_def RARRAY_LEN_def RARRAY_EMBED_LEN_MAX_def ARY_DEFAULT_SIZE_def)
      have vz: "vs = y # ys @ drop (length xs) vs" using vs(2) Cons append_take_drop_id [of "length xs" vs] by simp
      have "0 + length [ah_nil h] \<le> length vs" using vz by (cases vs) auto
      from cells_write [OF vs(1) this] obtain h1 where 1: "write_cells (RARRAY_PTR a ob) [ah_nil h] h = Some h1"
        "cells h h1 a ob (ah_nil h # drop 1 vs)" by auto
      have "take (length xs) (ah_nil h # drop 1 vs) = ah_nil h # ys" using Cons by (subst vz) simp
      then have b1: "becomes h ((view h)(a \<mapsto> (ah_nil h # ys, True))) h1" using cells_done [OF 1(2)] len by simp
      from make_shared_ok [OF cellsD(2,1) [OF 1(2)] ne ob(2)] obtain s ob2 h2 where 2: "ary_make_shared a h1 = Some (Inr s, h2)"
        "becomes h1 (view h1) h2" "ah_objs h2 a = Some ob2" "now_shares ob ob2 s" by blast
      have v2: "view h2 a = Some (ah_nil h # ys, True)" "heap_ok h2" "ao_shared ob2"
        using becomesD [OF 2(2)] becomesD [OF b1] 2(4) by (simp_all add: now_shares_def shares_def)
      obtain h3 h4 where 3: "ARY_INCREASE_PTR a 1 h2 = Some h3" "ARY_SET_LEN a (length ys) h3 = Some h4"
        "becomes h2 ((view h2)(a \<mapsto> (ys, True))) h4"
        using window_ok [OF v2(2,1) 2(3) v2(3), of 1 "length ys"] by auto
      have "rb_ary_shift a h = Some (Inr y, h4)"
        unfolding rb_ary_shift_def by (simp only: start share simp_thms if_True 1(1) 2(1) 3(1,2)) (simp add: ret_def)
      moreover have "(view h2)(a \<mapsto> (ys, True)) = (view h)(a \<mapsto> (ys, True))" using becomesD(2) [OF 2(2)] becomesD(2) [OF b1] by simp
      ultimately show ?thesis using becomes_trans [OF b1 becomes_trans [OF 2(2) 3(3)]] Cons by simp
    next
      case shared
      obtain h3 h4 where 3: "ARY_INCREASE_PTR a 1 h = Some h3" "ARY_SET_LEN a (length ys) h3 = Some h4"
        "becomes h ((view h)(a \<mapsto> (ys, True))) h4"
        using window_ok [OF ok v ob(1) shared, of 1 "length ys"] Cons by auto
      have "rb_ary_shift a h = Some (Inr y, h4)"
        unfolding rb_ary_shift_def by (simp only: start shared simp_thms if_True 3(1,2)) (simp add: ret_def)
      then show ?thesis using 3(3) Cons by auto
    qed
  qed
qed

lemma unshift_ok:
  assumes ok: "heap_ok h" and v: "view h a = Some (xs, True)" and n: "int (length xs + length vs + ARY_DEFAULT_SIZE) \<le> ARY_MAX_SIZE"
  shows "\<exists>h'. rb_ary_unshift_m a vs h = Some (Inr (), h') \<and> becomes h ((view h)(a \<mapsto> (vs @ xs, True))) h'"
proof (cases "vs = []")
  case True
  then show ?thesis using ok v by (simp add: rb_ary_unshift_m_def ret_def becomes_def fun_upd_idem)
next
  case False
  obtain h1 ob1 us1 where 1: "rb_ary_modify a h = Some (Inr (), h1)" "cells h h1 a ob1 us1" "RARRAY_LEN ob1 = length xs" "take (length xs) us1 = xs"
    using modify_cells [OF ok v] by blast
  note D1 = cellsD [OF 1(2)]
  let ?c = "ARY_CAPA ob1 \<le> int (length xs + length vs)"
  have sz: "int (RARRAY_LEN ob1) \<le> max (int (length xs + length vs + ARY_DEFAULT_SIZE)) (int RARRAY_EMBED_LEN_MAX)" using 1(3) by simp
  obtain h2 ob2 us2 where 2: "(if ?c then ary_resize_capa a (int (length xs + length vs + ARY_DEFAULT_SIZE)) h1 else ret () h1) = Some (Inr (), h2)"
    "cells h h2 a ob2 us2" "RARRAY_LEN ob2 = length xs" "take (length xs) us2 = xs" "length xs + length vs \<le> length us2"
    using cells_resize [OF 1(2) sz n, of ?c] 1(3,4) D1(4) by (auto split: if_splits)
  obtain h3 where 3: "mem_copy (place_add (RARRAY_PTR a ob2) (length vs)) (RARRAY_PTR a ob2) (length xs) h2 = Some h3"
    "cells h h3 a ob2 (take (length vs) us2 @ xs @ drop (length vs + length xs) us2)"
    using cells_copy [OF 2(2), of 0 "length xs" "length vs"] 2(4,5) by auto
  obtain h4 where 4: "write_cells (RARRAY_PTR a ob2) vs h3 = Some h4" "cells h h4 a ob2 (vs @ xs @ drop (length vs + length xs) us2)"
    using cells_write [OF 3(2), of 0 vs] 2(5) by auto
  obtain h5 where 5: "ARY_SET_LEN a (length xs + length vs) h4 = Some h5"
    "cells h h5 a (with_len (length xs + length vs) ob2) (vs @ xs @ drop (length vs + length xs) us2)"
    using cells_set_len [OF 4(2), of "length xs + length vs"] by auto
  have "rb_ary_unshift_m a vs h = Some (Inr (), h5)"
    unfolding rb_ary_unshift_m_def
    by (simp only: False if_False 1(1,3) run_ok D1(1) bind.bind_lunit Let_def 2(1) cellsD(1) [OF 2(2)] 3(1) 4(1) 5(1)) (simp add: ret_def)
  then show ?thesis using cells_done [OF 5(2)] by auto
qed

end
