(* ===== verification/ArraySplice.thy ===== *)
theory ArraySplice
  imports ArrayMethods
begin

text \<open>Replacing a part of an array, and what the code reduces to it: assigning to a range, inserting, appending.  Deleting, clearing and filling.\<close>

section \<open>Replacing a part\<close>

text \<open>\<open>l\<close> elements from \<open>b\<close> give way to \<open>ys\<close>; behind the end the gap is filled.\<close>

definition splice_list :: "'v \<Rightarrow> 'v list \<Rightarrow> nat \<Rightarrow> nat \<Rightarrow> 'v list \<Rightarrow> 'v list" where
  "splice_list null xs b l ys =
     (if length xs \<le> b then xs @ replicate (b - length xs) null @ ys else take b xs @ ys @ drop (b + l) xs)"

text \<open>The new elements may be those of the array itself: their cells come before the ones that moved.\<close>

lemma copy_from:
  assumes c: "cells h0 h a ob us" and r: "ah_objs h r = Some ro" and ys: "r \<noteq> a \<Longrightarrow> view h0 r = Some (ys, w)" "r = a \<Longrightarrow> take (length ys) us = ys"
    and b: "b + length ys \<le> length us"
  shows "\<exists>h'. mem_copy (place_add (RARRAY_PTR a ob) b) (RARRAY_PTR r ro) (length ys) h = Some h' \<and> cells h0 h' a ob (take b us @ ys @ drop (b + length ys) us)"
proof -
  have "read_cells (RARRAY_PTR r ro) (length ys) h = Some ys"
  proof (cases "r = a")
    case True
    then show ?thesis using cells_read [OF c, of 0 "length ys"] b r cellsD(1) [OF c] ys(2) by auto
  next
    case False
    then show ?thesis using read_whole(3) [OF cellsD(2) [OF c] _ r, of ys w "length ys"] cellsD(6) [OF c False] ys(1) by simp
  qed
  then show ?thesis using cells_write [OF c b] by (simp add: mem_copy_def)
qed

definition replaces :: "'v ary_heap \<Rightarrow> nat option \<Rightarrow> 'v list \<Rightarrow> bool" where
  "replaces h rpl ys \<longleftrightarrow> (case rpl of None \<Rightarrow> ys = [] | Some r \<Rightarrow> \<exists>w. view h r = Some (ys, w))"

lemma replaces_step:
  assumes c: "cells h0 h a ob us" and r: "replaces h0 rpl ys" and ys: "rpl = Some a \<Longrightarrow> take (length ys) us = ys"
    and b: "b + length ys \<le> length us"
  shows "\<exists>h'. (case rpl of None \<Rightarrow> Some h | Some r \<Rightarrow>
      if 0 < int (length ys) then do { ro \<leftarrow> ah_objs h r; mem_copy (place_add (RARRAY_PTR a ob) b) (RARRAY_PTR r ro) (length ys) h } else Some h) = Some h'
    \<and> cells h0 h' a ob (take b us @ ys @ drop (b + length ys) us)"
proof (cases "ys = []")
  case True
  then show ?thesis using c by (auto split: option.split)
next
  case False
  then obtain x w where x: "rpl = Some x" "view h0 x = Some (ys, w)" using r by (auto simp: replaces_def split: option.splits)
  obtain ro where ro: "ah_objs h x = Some ro"
    using view_obj [of h x ys w] cellsD(1,6) [OF c] x(2) by (cases "x = a") auto
  show ?thesis using copy_from [OF c ro, of ys w b] x ys b ro False by auto
qed

lemma cells_room:
  assumes c: "cells h0 h a ob vs" and n: "m \<le> n" "int n \<le> ARY_MAX_SIZE"
  shows "\<exists>h' ob' vs'. (if ARY_CAPA ob \<le> int m then ary_resize_capa a (int n) h else ret () h) = Some (Inr (), h') \<and> cells h0 h' a ob' vs'
    \<and> RARRAY_LEN ob' = RARRAY_LEN ob \<and> take (RARRAY_LEN ob) vs' = take (RARRAY_LEN ob) vs \<and> m \<le> length vs'"
proof -
  have "int (RARRAY_LEN ob) \<le> max (int n) (int RARRAY_EMBED_LEN_MAX)" if "ARY_CAPA ob \<le> int m"
    using cellsD(3,4) [OF c] that n by auto
  from cells_resize [OF c this n(2)] obtain h' ob' vs' where
    *: "(if ARY_CAPA ob \<le> int m then ary_resize_capa a (int n) h else ret () h) = Some (Inr (), h')" "cells h0 h' a ob' vs'"
      "RARRAY_LEN ob' = RARRAY_LEN ob" "take (RARRAY_LEN ob) vs' = take (RARRAY_LEN ob) vs"
      "ARY_CAPA ob \<le> int m \<longrightarrow> int n \<le> int (length vs')" "\<not> ARY_CAPA ob \<le> int m \<longrightarrow> vs' = vs" by blast
  then have "m \<le> length vs'" using n(1) cellsD(4) [OF c] by (cases "ARY_CAPA ob \<le> int m") auto
  then show ?thesis using *(1-4) by blast
qed

text \<open>The elements behind the part move.\<close>

lemma move_tail:
  assumes c: "cells h0 h a ob us" and xs: "take (length xs) us = xs" "RARRAY_LEN ob = length xs"
    and sz: "b + l \<le> length xs" "length xs + r - l \<le> length us"
  shows "\<exists>h' ob' us' rest. (if int l \<noteq> int r then
        do {
          h \<leftarrow> mem_copy (place_add (RARRAY_PTR a ob) (b + r)) (place_add (RARRAY_PTR a ob) (b + l)) (length xs - (b + l)) h;
          ARY_SET_LEN a (length xs + r - l) h
        } else Some h) = Some h' \<and> cells h0 h' a ob' us'
    \<and> RARRAY_LEN ob' = length xs + r - l \<and> length us' = length us
    \<and> us' = take (b + r) us @ drop (b + l) xs @ rest"
proof (cases "l = r")
  case True
  have "length xs \<le> length us" using cellsD(3) [OF c] xs(2) by simp
  then have "take (b + r) us @ drop (b + l) xs @ drop (length xs) us = us"
    using xs(1) True sz(1) by (metis append.assoc append_take_drop_id drop_take le_add_diff_inverse take_add)
  then show ?thesis using True c xs by (intro exI [of _ h] exI [of _ ob] exI [of _ us] exI [of _ "drop (length xs) us"]) simp
next
  case False
  have le: "length xs \<le> length us" using cellsD(3) [OF c] xs(2) by simp
  have t: "take (length xs - (b + l)) (drop (b + l) us) = drop (b + l) xs" using xs(1) drop_take [of "b + l" "length xs" us] by simp
  have p: "b + l + (length xs - (b + l)) \<le> length us" "b + r + (length xs - (b + l)) \<le> length us" using sz le by auto
  obtain h1 where 1: "mem_copy (place_add (RARRAY_PTR a ob) (b + r)) (place_add (RARRAY_PTR a ob) (b + l)) (length xs - (b + l)) h = Some h1"
    "cells h0 h1 a ob (take (b + r) us @ drop (b + l) xs @ drop (b + r + (length xs - (b + l))) us)"
    using cells_copy [OF c p, unfolded t] by blast
  obtain h2 where 2: "ARY_SET_LEN a (length xs + r - l) h1 = Some h2"
    "cells h0 h2 a (with_len (length xs + r - l) ob) (take (b + r) us @ drop (b + l) xs @ drop (b + r + (length xs - (b + l))) us)"
    using cells_set_len [OF 1(2), of "length xs + r - l"] sz by auto
  have "length (take (b + r) us @ drop (b + l) xs @ drop (b + r + (length xs - (b + l))) us) = length us" using sz by auto
  then show ?thesis using False 1(1) 2 by fastforce
qed

lemma part_length:
  assumes "0 \<le> sint len" "int b < int n" "int n \<le> ARY_MAX_SIZE"
  shows "(if int n < sint len \<or> int n < sint (word_of_int (int b) + len :: u32) then int n - int b else sint len) = int (min (nat (sint len)) (n - b))"
proof (cases "int n < sint len")
  case False
  have "sint (word_of_int (int b + sint len) :: u32) = int b + sint len"
    using assms False by (intro sint_word_of_int_u32) (auto simp: ARY_MAX_SIZE_def)
  then have "sint (word_of_int (int b) + len :: u32) = int b + sint len" by simp
  then show ?thesis using False assms by auto
qed (use assms in auto)

lemma splice_ok:
  assumes ok: "heap_ok h" and v: "view h a = Some (xs, True)" and ys: "replaces h rpl ys"
    and b: "(if sint beg < 0 then sint beg + int (length xs) else sint beg) = int b" and l: "0 \<le> sint len"
    and sz: "int (length (splice_list (ah_nil h) xs b (nat (sint len)) ys)) \<le> ARY_MAX_SIZE"
  shows "\<exists>h'. rb_ary_splice a beg len rpl h = Some (Inr (), h')
    \<and> becomes h ((view h)(a \<mapsto> (splice_list (ah_nil h) xs b (nat (sint len)) ys, True))) h'"
proof -
  obtain ob where ob: "ah_objs h a = Some ob" using view_obj [OF v] by blast
  note len = read_whole(1) [OF ok v ob]
  obtain h1 ob1 us1 where 1: "rb_ary_modify a h = Some (Inr (), h1)" "cells h h1 a ob1 us1" "RARRAY_LEN ob1 = length xs" "take (length xs) us1 = xs"
    using modify_cells [OF ok v] by blast
  note D1 = cellsD [OF 1(2)]
  have rl: "(case rpl of None \<Rightarrow> Some 0 | Some r \<Rightarrow> map_option (\<lambda>ro. int (RARRAY_LEN ro)) (ah_objs h r)) = Some (int (length ys))"
  proof (cases rpl)
    case (Some r)
    then obtain w where w: "view h r = Some (ys, w)" using ys by (auto simp: replaces_def)
    then obtain ro where "ah_objs h r = Some ro" using view_obj by blast
    then show ?thesis using Some read_whole(1) [OF ok w] by simp
  qed (use ys in \<open>simp add: replaces_def\<close>)
  have self: "ys = xs" if "rpl = Some a" using ys v that by (simp add: replaces_def)
  have neg: "\<not> sint len < 0" "\<not> int b < 0" using l by simp_all
  note start = ob bind.bind_lunit Let_def len b neg if_False rl 1(1) run_ok D1(1)
  show ?thesis
  proof (cases "length xs \<le> b")
    case True
    let ?n = "b + length ys"
    have n: "int ?n \<le> ARY_MAX_SIZE" using sz True by (simp add: splice_list_def)
    obtain h2 ob2 us2 where 2: "(if ARY_CAPA ob1 \<le> int ?n then ary_resize_capa a (int ?n) h1 else ret () h1) = Some (Inr (), h2)"
      "cells h h2 a ob2 us2" "RARRAY_LEN ob2 = length xs" "take (length xs) us2 = xs" "?n \<le> length us2"
      using cells_room [OF 1(2) order_refl n] 1(3,4) by auto
    have nb: "nat (int b - int (length xs)) = b - length xs" by simp
    obtain h3 where 3: "rb_mem_clear (place_add (RARRAY_PTR a ob2) (length xs)) (b - length xs) h2 = Some h3"
      "cells h h3 a ob2 (xs @ replicate (b - length xs) (ah_nil h) @ drop b us2)"
      using cells_write [OF 2(2), of "length xs" "replicate (b - length xs) (ah_nil h2)"] 2(3-5) True cellsD(7) [OF 2(2)]
      by (auto simp: rb_mem_clear_def)
    define us3 where "us3 = xs @ replicate (b - length xs) (ah_nil h) @ drop b us2"
    have l3: "length us3 = length us2" "take (length xs) us3 = xs" "take b us3 = xs @ replicate (b - length xs) (ah_nil h)"
      using 2(5) True by (auto simp: us3_def)
    obtain h4 where 4: "(case rpl of None \<Rightarrow> Some h3 | Some r \<Rightarrow>
        if 0 < int (length ys) then do { ro \<leftarrow> ah_objs h3 r; mem_copy (place_add (RARRAY_PTR a ob2) b) (RARRAY_PTR r ro) (length ys) h3 } else Some h3) = Some h4"
      "cells h h4 a ob2 (take b us3 @ ys @ drop ?n us3)"
      using replaces_step [OF 3(2) [folded us3_def] ys, of b] self l3 2(5) by auto
    obtain h5 where 5: "ARY_SET_LEN a ?n h4 = Some h5" "cells h h5 a (with_len ?n ob2) (take b us3 @ ys @ drop ?n us3)"
      using cells_set_len [OF 4(2), of ?n] l3(1) 2(5) by auto
    have small: "\<not> ARY_MAX_SIZE - int (length ys) < int b" "int (length xs) \<le> int b" using n True by simp_all
    have "rb_ary_splice a beg len rpl h = Some (Inr (), h5)"
      unfolding rb_ary_splice_def
      by (simp only: start small if_True of_nat_add [symmetric] 2(1) cellsD(1) [OF 2(2)] nat_int nb 3(1))
        (use 4(1) 5(1) in \<open>simp add: nat_int_add ret_def cong: option.case_cong\<close>)
    moreover have "take ?n (take b us3 @ ys @ drop ?n us3) = splice_list (ah_nil h) xs b (nat (sint len)) ys"
      using l3(1,3) 2(5) True by (simp add: splice_list_def)
    ultimately show ?thesis using cells_done [OF 5(2)] by auto
  next
    case False
    define m where "m = min (nat (sint len)) (length xs - b)"
    have m: "(if int (length xs) < sint len \<or> int (length xs) < sint (word_of_int (int b) + len :: u32) then int (length xs) - int b else sint len) = int m"
      using part_length [OF l, of b "length xs"] False view_len [OF ok v] by (simp add: m_def)
    have bm: "b + m \<le> length xs" using False by (simp add: m_def)
    have res: "splice_list (ah_nil h) xs b (nat (sint len)) ys = take b xs @ ys @ drop (b + m) xs"
      using False by (auto simp: splice_list_def m_def min_def)
    let ?n = "length xs + length ys - m"
    have n: "int ?n \<le> ARY_MAX_SIZE" using sz bm unfolding res by simp
    have ni: "int (length xs) + int (length ys) - int m = int ?n" using bm by simp
    obtain h2 ob2 us2 where 2: "(if ARY_CAPA ob1 \<le> int ?n then ary_resize_capa a (int ?n) h1 else ret () h1) = Some (Inr (), h2)"
      "cells h h2 a ob2 us2" "RARRAY_LEN ob2 = length xs" "take (length xs) us2 = xs" "?n \<le> length us2"
      using cells_room [OF 1(2) order_refl n] 1(3,4) by auto
    obtain h3 ob3 us3 rest where 3: "(if int m \<noteq> int (length ys) then
        do {
          h \<leftarrow> mem_copy (place_add (RARRAY_PTR a ob2) (b + length ys)) (place_add (RARRAY_PTR a ob2) (b + m)) (length xs - (b + m)) h2;
          ARY_SET_LEN a ?n h
        } else Some h2) = Some h3" "cells h h3 a ob3 us3" "RARRAY_LEN ob3 = ?n" "length us3 = length us2"
      "us3 = take (b + length ys) us2 @ drop (b + m) xs @ rest"
      using move_tail [OF 2(2,4,3) bm 2(5)] by blast
    have t3: "take b us3 = take b xs" "drop (b + length ys) us3 = drop (b + m) xs @ rest" "take (length ys) us3 = take (length ys) us2"
      using 2(4,5) bm take_take [of b "length xs" us2] by (auto simp: 3(5) min_def)
    have room: "b + length ys \<le> length us3" using 2(5) 3(4) bm by simp
    have own: "take (length ys) us3 = ys" if "rpl = Some a" using self [OF that] t3(3) 2(4) by simp
    obtain h4 where 4: "(case rpl of None \<Rightarrow> Some h3 | Some r \<Rightarrow>
        if 0 < int (length ys) then do { ro \<leftarrow> ah_objs h3 r; mem_copy (place_add (RARRAY_PTR a ob3) b) (RARRAY_PTR r ro) (length ys) h3 } else Some h3) = Some h4"
      "cells h h4 a ob3 (take b us3 @ ys @ drop (b + length ys) us3)"
      using replaces_step [OF 3(2) ys own room] by blast
    have nn: "nat (int b + int (length ys)) = b + length ys" "nat (int b + int m) = b + m"
      "nat (int (length xs) - (int b + int m)) = length xs - (b + m)" by (simp_all add: nat_diff_distrib')
    have big: "\<not> int (length xs) \<le> int b" using False by simp
    have "rb_ary_splice a beg len rpl h = Some (Inr (), h4)"
      unfolding rb_ary_splice_def
      by (simp only: start big m ni 2(1) cellsD(1) [OF 2(2)] nn nat_int 3(1))
        (use 4(1) cellsD(1) [OF 3(2)] in \<open>cases rpl; cases "ys = []"; simp add: ret_def\<close>)
    moreover have "take ?n (take b us3 @ ys @ drop (b + length ys) us3) = splice_list (ah_nil h) xs b (nat (sint len)) ys"
      unfolding res t3(1,2) using bm by simp
    ultimately show ?thesis using cells_done [OF 4(2)] 3(3) by auto
  qed
qed

lemma concat_ok:
  assumes ok: "heap_ok h" and v: "view h x = Some (xs, True)" "view h y = Some (ys, w)" and sz: "int (length xs + length ys) \<le> ARY_MAX_SIZE"
  shows "\<exists>h'. rb_ary_concat x y h = Some (Inr (), h') \<and> becomes h ((view h)(x \<mapsto> (xs @ ys, True))) h'"
proof -
  obtain xo yo where o: "ah_objs h x = Some xo" "ah_objs h y = Some yo" using view_obj v by blast
  note len = read_whole(1) [OF ok v(1) o(1)] read_whole(1) [OF ok v(2) o(2)]
  show ?thesis
  proof (cases "ys = []")
    case True
    then show ?thesis using o len ok v(1) by (simp add: rb_ary_concat_def ret_def becomes_def fun_upd_idem)
  next
    case False
    have "int (length xs) \<le> ARY_MAX_SIZE" using sz by simp
    then show ?thesis
      using splice_ok [OF ok v(1), of "Some y" ys "of_nat (length xs)" "length xs" 0] v(2) sz o len False sint_len [of "length xs"]
      by (simp add: rb_ary_concat_def replaces_def splice_list_def)
  qed
qed

section \<open>Deleting\<close>

lemma delete_at_ok:
  assumes ok: "heap_ok h" and v: "view h a = Some (xs, True)"
    and p: "(if sint pos < 0 then sint pos + int (length xs) else sint pos) = int p" "p < length xs"
  shows "\<exists>h'. rb_ary_delete_at a pos h = Some (Inr (xs ! p), h') \<and> becomes h ((view h)(a \<mapsto> (take p xs @ drop (p + 1) xs, True))) h'"
proof -
  obtain ob where ob: "ah_objs h a = Some ob" using view_obj [OF v] by blast
  note len = read_whole(1) [OF ok v ob]
  obtain h1 ob1 us where 1: "rb_ary_modify a h = Some (Inr (), h1)" "cells h h1 a ob1 us" "RARRAY_LEN ob1 = length xs" "take (length xs) us = xs"
    using modify_cells [OF ok v] by blast
  note D1 = cellsD [OF 1(2)]
  have le: "length xs \<le> length us" using D1(3) 1(3) by simp
  have "take 1 (drop p us) = [xs ! p]" using p(2) le 1(4) by (metis One_nat_def nth_take take_Suc_conv_app_nth Cons_nth_drop_Suc
      less_le_trans take0 take_Suc_Cons)
  then have rd: "read_cells (place_add (RARRAY_PTR a ob1) p) 1 h1 = Some [xs ! p]" using cells_read [OF 1(2), of p 1] p(2) le by simp
  have t: "take (length xs - p - 1) (drop (p + 1) us) = drop (p + 1) xs" using 1(4) drop_take [of "p + 1" "length xs" us] by simp
  have r: "p + 1 + (length xs - p - 1) \<le> length us" "p + (length xs - p - 1) \<le> length us" using p(2) le by auto
  obtain h2 where 2: "mem_copy (place_add (RARRAY_PTR a ob1) p) (place_add (RARRAY_PTR a ob1) (p + 1)) (length xs - p - 1) h1 = Some h2"
    "cells h h2 a ob1 (take p us @ drop (p + 1) xs @ drop (p + (length xs - p - 1)) us)"
    using cells_copy [OF 1(2) r, unfolded t] by blast
  have shorter: "length xs - 1 \<le> length (take p us @ drop (p + 1) xs @ drop (p + (length xs - p - 1)) us)" using p(2) le by auto
  obtain h3 where 3: "ARY_SET_LEN a (length xs - 1) h2 = Some h3"
    "cells h h3 a (with_len (length xs - 1) ob1) (take p us @ drop (p + 1) xs @ drop (p + (length xs - p - 1)) us)"
    using cells_set_len [OF 2(2) shorter] by blast
  have tp: "take p us = take p xs" using 1(4) p(2) take_take [of p "length xs" us] by (simp add: min_def)
  have "take (length xs - 1) (take p us @ drop (p + 1) xs @ drop (p + (length xs - p - 1)) us) = take p xs @ drop (p + 1) xs"
    using p(2) by (simp add: tp)
  moreover have small: "\<not> int (length xs) \<le> sint pos" "\<not> int p < 0" using p by (auto split: if_splits)
  have "rb_ary_delete_at a pos h = Some (Inr (xs ! p), h3)"
    unfolding rb_ary_delete_at_def
    by (simp only: ob bind.bind_lunit Let_def len p(1) small if_False 1(1) run_ok D1(1) nat_int rd 2(1) 3(1)) (simp add: ret_def)
  ultimately show ?thesis using cells_done [OF 3(2)] by auto
qed

lemma delete_at_nil:
  assumes "heap_ok h" "view h a = Some (xs, w)"
    and "(if sint pos < 0 then sint pos + int (length xs) else sint pos) \<notin> {0..<int (length xs)}"
  shows "rb_ary_delete_at a pos h = Some (Inr (ah_nil h), h)"
proof -
  obtain ob where ob: "ah_objs h a = Some ob" using view_obj [OF assms(2)] by blast
  show ?thesis using assms(3) ob read_whole(1) [OF assms(1,2) ob] by (auto simp: rb_ary_delete_at_def Let_def ret_def split: if_splits)
qed

lemma clear_ok:
  assumes ok: "heap_ok h" and v: "view h a = Some (xs, True)"
  shows "\<exists>h'. rb_ary_clear a h = Some (Inr (), h') \<and> becomes h ((view h)(a \<mapsto> ([], True))) h'"
proof -
  obtain h1 ob1 us where 1: "rb_ary_modify a h = Some (Inr (), h1)" "cells h h1 a ob1 us" using modify_cells [OF ok v] by blast
  obtain h2 where 2: "ARY_SET_LEN a 0 h1 = Some h2" "cells h h2 a (with_len 0 ob1) us" using cells_set_len [OF 1(2), of 0] by auto
  let ?c = "int (ARY_DEFAULT_SIZE * 2) < ARY_CAPA (with_len 0 ob1)"
  have sz: "int (RARRAY_LEN (with_len 0 ob1)) \<le> max (int (ARY_DEFAULT_SIZE * 2)) (int RARRAY_EMBED_LEN_MAX)"
    "int (ARY_DEFAULT_SIZE * 2) \<le> ARY_MAX_SIZE" by (simp_all add: ARY_MAX_SIZE_def ARY_DEFAULT_SIZE_def)
  obtain h3 ob3 us3 where 3: "(if ?c then ary_resize_capa a (int (ARY_DEFAULT_SIZE * 2)) h2 else ret () h2) = Some (Inr (), h3)" "cells h h3 a ob3 us3"
    "RARRAY_LEN ob3 = 0"
    using cells_resize [OF 2(2) sz, of ?c] by auto
  have "rb_ary_clear a h = Some (Inr (), h3)"
    unfolding rb_ary_clear_def by (simp only: 1(1) run_ok 2(1) bind.bind_lunit cellsD(1) [OF 2(2)] 3(1))
  then show ?thesis using cells_done [OF 3(2)] 3(3) by auto
qed

section \<open>Filling\<close>

lemma initialize_ok:
  assumes ok: "heap_ok h" and v: "view h a = Some (xs, True)" and n: "sint len = int n" "int n \<le> ARY_MAX_SIZE"
    and old: "length xs \<le> max n RARRAY_EMBED_LEN_MAX"
  shows "\<exists>h'. rb_ary_initialize a len val h = Some (Inr (), h') \<and> becomes h ((view h)(a \<mapsto> (replicate n val, True))) h'"
proof -
  obtain h0 ob0 us0 where 0: "rb_ary_modify a h = Some (Inr (), h0)" "cells h h0 a ob0 us0" "RARRAY_LEN ob0 = length xs" "take (length xs) us0 = xs"
    using modify_cells [OF ok v] by blast
  have v0: "view h0 a = Some (xs, True)" using cellsD(10) [OF 0(2)] 0(3,4) by simp
  obtain h1 ob1 us1 where 1: "rb_ary_modify a h0 = Some (Inr (), h1)" "cells h0 h1 a ob1 us1" "RARRAY_LEN ob1 = length xs"
    using modify_cells [OF cellsD(2) [OF 0(2)] v0] by blast
  have c1: "cells h h1 a ob1 us1" using 1(2) 0(2) by (simp add: cells_def rest_same_def)
  obtain h2 ob2 us2 where 2: "ary_resize_capa a (int n) h1 = Some (Inr (), h2)" "cells h h2 a ob2 us2" "n \<le> length us2"
    using cells_resize [OF c1, of True "int n"] old n(2) 1(3) by (auto simp: max_def split: if_splits)
  obtain h3 where 3: "write_cells (RARRAY_PTR a ob2) (replicate n val) h2 = Some h3" "cells h h3 a ob2 (replicate n val @ drop n us2)"
    using cells_write [OF 2(2), of 0 "replicate n val"] 2(3) by auto
  obtain h4 where 4: "ARY_SET_LEN a n h3 = Some h4" "cells h h4 a (with_len n ob2) (replicate n val @ drop n us2)"
    using cells_set_len [OF 3(2), of n] by auto
  have neg: "\<not> int n < 0" "\<not> ARY_MAX_SIZE < int n" using n(2) by simp_all
  have "rb_ary_initialize a len val h = Some (Inr (), h4)"
    unfolding rb_ary_initialize_def
    by (simp only: 0(1) run_ok n(1) neg if_False 1(1) 2(1) cellsD(1) [OF 2(2)] bind.bind_lunit nat_int 3(1) 4(1)) (simp add: ret_def)
  then show ?thesis using cells_done [OF 4(2)] by auto
qed

text \<open>An array of more than three elements that is initialised with a size up to three: all its elements go to the three cells of the object.\<close>

lemma initialize_overruns:
  assumes ok: "heap_ok h" and v: "view h a = Some (xs, True)" and n: "sint len = int n" "n \<le> RARRAY_EMBED_LEN_MAX" "RARRAY_EMBED_LEN_MAX < length xs"
  shows "rb_ary_initialize a len val h = None"
proof -
  obtain h0 ob0 us0 where 0: "rb_ary_modify a h = Some (Inr (), h0)" "cells h h0 a ob0 us0" "RARRAY_LEN ob0 = length xs" "take (length xs) us0 = xs"
    using modify_cells [OF ok v] by blast
  have v0: "view h0 a = Some (xs, True)" using cellsD(10) [OF 0(2)] 0(3,4) by simp
  obtain h1 ob1 us1 where 1: "rb_ary_modify a h0 = Some (Inr (), h1)" "cells h0 h1 a ob1 us1" "RARRAY_LEN ob1 = length xs"
    using modify_cells [OF cellsD(2) [OF 0(2)] v0] by blast
  note D = cellsD [OF 1(2)]
  have r: "rep_ok h1 a ob1" using heap_okD(1) [OF D(2,1)] by simp
  then have e: "\<not> ao_embed ob1" "length (ah_embed h1 a) = RARRAY_EMBED_LEN_MAX" using 1(3) n(3) by (auto simp: rep_ok_def RARRAY_LEN_def)
  have "length (take (length xs) us1) = length xs" using D(3) 1(3) by simp
  then have "mem_copy (Inl a, 0) (Inr (fst (ao_ptr ob1)), snd (ao_ptr ob1)) (length xs) h1 = None"
    using cells_read [OF 1(2), of 0 "length xs"] e D(1,3) 1(3) n(3) by (simp add: mem_copy_def RARRAY_PTR_def write_cells_def cells_of_def)
  then have "ary_resize_capa a (int n) h1 = None" using D(1) e(1) 1(3) n(2) by (simp add: ary_resize_capa_def)
  moreover have neg: "\<not> int n < 0" "\<not> ARY_MAX_SIZE < int n" using n(2) by (simp_all add: ARY_MAX_SIZE_def RARRAY_EMBED_LEN_MAX_def)
  ultimately show ?thesis unfolding rb_ary_initialize_def by (simp only: 0(1) run_ok n(1) neg if_False 1(1)) (simp add: run_def)
qed

end
