(* ===== verification/ArrayParts.thy ===== *)
theory ArrayParts
  imports ArraySplice
begin

text \<open>
  The methods that make arrays: new cells for a few elements, a window into the cells of the receiver for more.  What they give is an array with
  an address that no array had, and no array changes, though its cells may have gone to a root.
\<close>

section \<open>New arrays\<close>

lemma new_done:
  assumes "becomes h ((view h)(r \<mapsto> ([], True))) h1" "cells h1 h2 r ob vs"
  shows "becomes h ((view h)(r \<mapsto> (take (RARRAY_LEN ob) vs, True))) h2"
proof -
  have "(view h1)(r \<mapsto> (take (RARRAY_LEN ob) vs, True)) = (view h)(r \<mapsto> (take (RARRAY_LEN ob) vs, True))"
    using becomesD(2) [OF assms(1)] by simp
  then show ?thesis using becomes_trans [OF assms(1) cells_done [OF assms(2)]] by simp
qed

lemma new_ok:
  assumes ok: "heap_ok h" and n: "int n \<le> ARY_MAX_SIZE"
  shows "\<exists>h' ob vs. ary_new (int n) h = Some (Inr (ah_next_obj h), h') \<and> becomes h ((view h)(ah_next_obj h \<mapsto> ([], True))) h'
    \<and> view h (ah_next_obj h) = None \<and> cells h' h' (ah_next_obj h) ob vs \<and> RARRAY_LEN ob = 0 \<and> n \<le> length vs
    \<and> (\<forall>x. x \<noteq> ah_next_obj h \<longrightarrow> ah_objs h' x = ah_objs h x)"
proof -
  define r where "r = ah_next_obj h"
  from alloc_ok [OF ok, folded r_def] obtain h1 ob where 1: "ary_alloc h = Some (Inr r, h1)" "becomes h ((view h)(r \<mapsto> ([], True))) h1"
    "view h r = None" "ah_objs h1 = (ah_objs h)(r \<mapsto> ob)" "ao_embed ob" "unshared ob" "ao_elen ob = 0" by blast
  have ok1: "heap_ok h1" "view h1 r = Some ([], True)" "ah_objs h1 r = Some ob" "\<not> ao_shared ob"
    using becomesD [OF 1(2)] 1(4,6) by (simp_all add: unshared_def)
  obtain vs where vs: "cells h1 h1 r ob vs" "RARRAY_LEN ob = 0" using own_cells [OF ok1] by auto
  note D = cellsD [OF vs(1)]
  have n': "\<not> int n < 0" "\<not> ARY_MAX_SIZE < int n" "\<not> 2 ^ 30 \<le> int n" using n by (simp_all add: ARY_MAX_SIZE_def)
  show ?thesis
  proof (cases "n \<le> RARRAY_EMBED_LEN_MAX")
    case True
    then have "ary_new (int n) h = Some (Inr r, h1)" using n' 1(1) by (simp add: ary_new_def ret_def)
    moreover have "length vs = RARRAY_EMBED_LEN_MAX" using storedD(6) [OF D(9)] 1(5) by simp
    ultimately show ?thesis using 1 vs True unfolding r_def [symmetric]
      by (intro exI [of _ h1] exI [of _ ob] exI [of _ vs]) simp
  next
    case False
    define us where "us = replicate n (ah_junk h1)"
    define ob' where "ob' = ob\<lparr>ao_embed := False, ao_elen := 0, ao_ptr := (ah_next_buf h1, 0), ao_len := RARRAY_LEN ob, ao_aux := int n\<rparr>"
    define h2 where "h2 = h1\<lparr>ah_bufs := (ah_bufs h1)(ah_next_buf h1 \<mapsto> us), ah_next_buf := ah_next_buf h1 + 1, ah_objs := (ah_objs h1)(r \<mapsto> ob')\<rparr>"
    have "ary_new (int n) h = Some (Inr r, h2)"
      using n' 1(1) False ok1(3) vs(2)
      by (simp add: ary_new_def ALLOC_N_def Let_def) (cases ob, simp add: ret_def h2_def update_def ob'_def us_def FL_UNSET_EMBED_def)
    moreover have "stored h2 r ob' us" "rest_same r h1 h2"
      using to_buffer [OF D(9) _ _ n, of us ob' 0 h2] False vs(2) by (auto simp: us_def ob'_def h2_def)
    moreover have w: "writable h2 ob'" using vs(1) by (simp add: cells_def writable_def ob'_def h2_def)
    ultimately have s: "ary_new (int n) h = Some (Inr r, h2)" "cells h1 h2 r ob' us" "cells h2 h2 r ob' us" by (simp_all add: cells_def)
    have "becomes h ((view h)(r \<mapsto> ([], True))) h2" using new_done [OF 1(2) s(2)] vs(2) by (simp add: ob'_def RARRAY_LEN_def)
    moreover have "RARRAY_LEN ob' = 0" using vs(2) by (simp add: ob'_def RARRAY_LEN_def)
    ultimately show ?thesis using s 1(3,4) unfolding r_def [symmetric]
      by (intro exI [of _ h2] exI [of _ ob'] exI [of _ us]) (simp add: us_def h2_def)
  qed
qed

lemma new_other: "heap_ok h \<Longrightarrow> view h a = Some v \<Longrightarrow> a \<noteq> ah_next_obj h"
  using heap_okD(1) by (fastforce simp: view_def split: option.splits)

lemma new4_ok:
  assumes ok: "heap_ok h" and n: "int (length xs) \<le> ARY_MAX_SIZE"
  shows "\<exists>h'. rb_ary_new4 xs h = Some (Inr (ah_next_obj h), h') \<and> becomes h ((view h)(ah_next_obj h \<mapsto> (xs, True))) h' \<and> view h (ah_next_obj h) = None"
proof -
  define r where "r = ah_next_obj h"
  from new_ok [OF ok n, folded r_def] obtain h1 ob vs where 1: "ary_new (int (length xs)) h = Some (Inr r, h1)"
    "becomes h ((view h)(r \<mapsto> ([], True))) h1" "view h r = None" "cells h1 h1 r ob vs" "RARRAY_LEN ob = 0" "length xs \<le> length vs" by blast
  show ?thesis
  proof (cases "xs = []")
    case True
    then show ?thesis using 1(1-3) unfolding r_def [symmetric] by (simp add: rb_ary_new4_def ret_def)
  next
    case False
    obtain h2 where 2: "write_cells (RARRAY_PTR r ob) xs h1 = Some h2" "cells h1 h2 r ob (xs @ drop (length xs) vs)"
      using cells_write [OF 1(4), of 0 xs] 1(6) by auto
    obtain h3 where 3: "ARY_SET_LEN r (length xs) h2 = Some h3" "cells h1 h3 r (with_len (length xs) ob) (xs @ drop (length xs) vs)"
      using cells_set_len [OF 2(2), of "length xs"] by auto
    have "rb_ary_new4 xs h = Some (Inr r, h3)"
      using False 1(1) cellsD(1) [OF 1(4)] 2(1) 3(1) by (simp add: rb_ary_new4_def) (simp add: ret_def)
    then show ?thesis using new_done [OF 1(2) 3(2)] 1(3) unfolding r_def [symmetric] by simp
  qed
qed

lemma dup_ok:
  assumes ok: "heap_ok h" and v: "view h a = Some (xs, w)"
  shows "\<exists>h'. rb_ary_dup a h = Some (Inr (ah_next_obj h), h') \<and> becomes h ((view h)(ah_next_obj h \<mapsto> (xs, True))) h' \<and> view h (ah_next_obj h) = None"
proof -
  define r where "r = ah_next_obj h"
  obtain ob where ob: "ah_objs h a = Some ob" using view_obj [OF v] by blast
  note len = read_whole(1) [OF ok v ob]
  from new_ok [OF ok view_len [OF ok v], folded r_def] obtain h1 ro vs where 1: "ary_new (int (length xs)) h = Some (Inr r, h1)"
    "becomes h ((view h)(r \<mapsto> ([], True))) h1" "view h r = None" "cells h1 h1 r ro vs" "RARRAY_LEN ro = 0" "length xs \<le> length vs"
    "\<forall>x. x \<noteq> r \<longrightarrow> ah_objs h1 x = ah_objs h x" by blast
  have ne: "a \<noteq> r" using new_other [OF ok v] by (simp add: r_def)
  then have a1: "ah_objs h1 a = Some ob" "view h1 a = Some (xs, w)" using 1(7) ob v becomesD(2) [OF 1(2)] by simp_all
  obtain h2 where 2: "mem_copy (RARRAY_PTR r ro) (RARRAY_PTR a ob) (length xs) h1 = Some h2" "cells h1 h2 r ro (xs @ drop (length xs) vs)"
    using copy_from [OF 1(4) a1(1), of xs w 0] a1(2) ne 1(6) by auto
  obtain h3 where 3: "ARY_SET_LEN r (length xs) h2 = Some h3" "cells h1 h3 r (with_len (length xs) ro) (xs @ drop (length xs) vs)"
    using cells_set_len [OF 2(2), of "length xs"] by auto
  have "rb_ary_dup a h = Some (Inr r, h3)"
    using ob len 1(1) cellsD(1) [OF 1(4)] 2(1) 3(1) by (simp add: rb_ary_dup_def) (simp add: ret_def)
  then show ?thesis using new_done [OF 1(2) 3(2)] 1(3) unfolding r_def [symmetric] by simp
qed

lemma plus_ok:
  assumes ok: "heap_ok h" and v: "view h x = Some (xs, w)" "view h y = Some (ys, w')" and n: "int (length xs + length ys) \<le> ARY_MAX_SIZE"
  shows "\<exists>h'. rb_ary_plus x y h = Some (Inr (ah_next_obj h), h') \<and> becomes h ((view h)(ah_next_obj h \<mapsto> (xs @ ys, True))) h'
    \<and> view h (ah_next_obj h) = None"
proof -
  define r where "r = ah_next_obj h"
  obtain xo yo where o: "ah_objs h x = Some xo" "ah_objs h y = Some yo" using view_obj v by blast
  note len = read_whole(1) [OF ok v(1) o(1)] read_whole(1) [OF ok v(2) o(2)]
  from new_ok [OF ok n, folded r_def] obtain h1 ro vs where 1: "ary_new (int (length xs + length ys)) h = Some (Inr r, h1)"
    "becomes h ((view h)(r \<mapsto> ([], True))) h1" "view h r = None" "cells h1 h1 r ro vs" "RARRAY_LEN ro = 0" "length xs + length ys \<le> length vs"
    "\<forall>x. x \<noteq> r \<longrightarrow> ah_objs h1 x = ah_objs h x" by blast
  have ne: "x \<noteq> r" "y \<noteq> r" using new_other [OF ok] v by (auto simp: r_def)
  then have a1: "ah_objs h1 x = Some xo" "view h1 x = Some (xs, w)" "ah_objs h1 y = Some yo" "view h1 y = Some (ys, w')"
    using 1(7) o v becomesD(2) [OF 1(2)] by simp_all
  obtain h2 where 2: "mem_copy (RARRAY_PTR r ro) (RARRAY_PTR x xo) (length xs) h1 = Some h2" "cells h1 h2 r ro (xs @ drop (length xs) vs)"
    using copy_from [OF 1(4) a1(1), of xs w 0] a1(2) ne 1(6) by auto
  have "ah_objs h2 y = Some yo"
    using 2(1) a1(3) by (auto simp: mem_copy_def write_cells_def set_cells_def bind_eq_Some_conv split: if_splits sum.splits)
  then obtain h3 where 3: "mem_copy (place_add (RARRAY_PTR r ro) (length xs)) (RARRAY_PTR y yo) (length ys) h2 = Some h3"
    "cells h1 h3 r ro (xs @ ys @ drop (length ys + length xs) vs)"
    using copy_from [OF 2(2) _, of y yo ys w' "length xs"] a1(4) ne 1(6) by auto
  obtain h4 where 4: "ARY_SET_LEN r (length xs + length ys) h3 = Some h4"
    "cells h1 h4 r (with_len (length xs + length ys) ro) (xs @ ys @ drop (length ys + length xs) vs)"
    using cells_set_len [OF 3(2), of "length xs + length ys"] by auto
  have "rb_ary_plus x y h = Some (Inr r, h4)"
    unfolding rb_ary_plus_def
    by (simp only: o bind.bind_lunit len Let_def 1(1) run_ok cellsD(1) [OF 1(4)] 2(1) 3(1) 4(1)) (simp add: ret_def)
  then show ?thesis using new_done [OF 1(2) 4(2)] 1(3) unfolding r_def [symmetric] by simp
qed

end
