(* ===== verification/ArrayWindows.thy ===== *)
theory ArrayWindows
  imports ArrayParts
begin

text \<open>Parts of an array that share its cells, and the methods that give or take them.\<close>

section \<open>A window into the cells of an array\<close>

lemma make_shared_commutes:
  assumes "a \<noteq> r" "r \<noteq> ah_next_obj h" "ary_make_shared a h = Some (Inr s, h')"
  shows "ary_make_shared a (update r f h) = Some (Inr s, update r f h')"
proof -
  obtain ob where ob: "ah_objs h a = Some ob" "\<not> ao_embed ob" using assms(3) by (auto simp: ary_make_shared_def bind_eq_Some_conv split: if_splits)
  show ?thesis
  proof (cases "ao_shared ob")
    case False
    then show ?thesis using assms ob
      by (cases "ah_next_obj h = a") (auto simp: ary_make_shared_def ret_def Let_def update_def fun_upd_twist)
  qed (use assms ob in \<open>auto simp: ary_make_shared_def ret_def\<close>)
qed

text \<open>An object takes a window into the buffer of a root that counts it; a buffer of its own may be freed.\<close>

lemma share_window:
  assumes ok: "heap_ok h" and r: "ah_objs h r = Some ob" "\<not> ao_root ob"
    and a: "view h a = Some (xs, w)" "ah_objs h a = Some ar" "\<not> ao_embed ar" "shares ar s" and s: "ah_objs h s = Some so" "ao_root so"
    and kn: "k + n \<le> length xs"
    and ob': "ob' = ob\<lparr>ao_embed := False, ao_elen := 0, ao_ptr := (fst (ao_ptr ar), snd (ao_ptr ar) + k), ao_len := n, ao_shared := True, ao_aux := int s\<rparr>"
    and objs: "ah_objs h' = (ah_objs h)(s \<mapsto> so\<lparr>ao_aux := ao_aux so + 1\<rparr>, r \<mapsto> ob')"
    and bufs: "ah_bufs h' = ah_bufs h \<or> ARY_OWNS_HEAP_P ob \<and> ah_bufs h' = (ah_bufs h)(fst (ao_ptr ob) := None)"
    and same: "ah_embed h' = ah_embed h" "ah_next_obj h' = ah_next_obj h" "ah_next_buf h' = ah_next_buf h" "ah_safe_level h' = ah_safe_level h"
      "ah_nil h' = ah_nil h"
  shows "becomes h ((view h)(r \<mapsto> (take n (drop k xs), writable h ob))) h'"
proof -
  define h4 where "h4 = update s (\<lambda>ob. ob\<lparr>ao_aux := ao_aux so + 1\<rparr>) h"
  have cnt: "int (card (sharers h s)) \<le> ao_aux so" using heap_okD(4) [OF ok s] .
  then have "int (card (sharers h s)) \<le> ao_aux so + 1" by simp
  note c4 = count_change [OF ok s this h4_def]
  have sr: "s \<noteq> r" using s r by auto
  have as: "ao_shared ar" "ao_aux ar = int s" using a(4) by (simp_all add: shares_def)
  obtain s' so' where s': "ao_aux ar = int s'" "ah_objs h s' = Some so'" "fst (ao_ptr ar) = fst (ao_ptr so')" "\<not> ao_root ar"
    using root_exists [OF ok a(2) as(1)] by blast
  then have sp: "fst (ao_ptr ar) = fst (ao_ptr so)" using as(2) s(1) by simp
  obtain vs where vs: "ah_bufs h (fst (ao_ptr ar)) = Some vs" "snd (ao_ptr ar) + ao_len ar \<le> length vs" using buffer_of [OF ok a(2,3)] by blast
  have "\<not> (ARY_OWNS_HEAP_P ob \<and> fst (ao_ptr ob) = fst (ao_ptr ar))"
    using heap_okD(3) [OF ok s(1) r(1) root_owns [OF ok s]] sr sp by auto
  then have vs': "ah_bufs h' (fst (ao_ptr ar)) = Some vs" using bufs vs(1) by auto
  have len: "ao_len ar = length xs" using read_whole(1) [OF ok a(1,2)] a(3) by (simp add: RARRAY_LEN_def)
  have xs: "xs = take (length xs) (drop (snd (ao_ptr ar)) vs)"
    using a s'(4) vs(1) len by (simp add: view_def contents_def RARRAY_LEN_def RARRAY_PTR_def cells_of_def)
  have h4: "ah_objs h4 = (ah_objs h)(s \<mapsto> so\<lparr>ao_aux := ao_aux so + 1\<rparr>)" "ah_embed h4 = ah_embed h" "ah_bufs h4 = ah_bufs h"
    "ah_next_buf h4 = ah_next_buf h" "ah_next_obj h4 = ah_next_obj h" "ah_safe_level h4 = ah_safe_level h"
    using s(1) by (simp_all add: h4_def)
  have emb: "length (ah_embed h r) = RARRAY_EMBED_LEN_MAX" using heap_okD(1) [OF ok r(1)] by (simp add: rep_ok_def)
  have rep: "rep_ok h' r ob'"
    using emb r(2) sr s(2) sp vs' vs(2) kn len by (simp add: rep_ok_def ob' objs same)
  have bufs': "b < ah_next_buf h \<and> int (length us) \<le> ARY_MAX_SIZE" if "ah_bufs h' b = Some us" for b us
    using bufs that heap_okD(2) [OF ok, of b us] by (auto split: if_splits)
  have "array_change r ob ob' h4 h'"
    unfolding array_change_def
  proof (intro conjI)
    show "\<forall>t. shares ob' t \<longrightarrow> shares ob t \<or> (\<exists>so. ah_objs h4 t = Some so \<and> int (card (sharers h4 t)) < ao_aux so)"
      using cnt c4(3) h4(1) by (auto simp: shares_def ob')
    show "\<forall>b. b < ah_next_buf h4 \<and> \<not> (ARY_OWNS_HEAP_P ob \<and> b = fst (ao_ptr ob)) \<longrightarrow> ah_bufs h' b = ah_bufs h4 b"
      using bufs h4(3) by auto
  qed (use h4 r sr rep same bufs' objs in \<open>auto simp: ob' ARY_OWNS_HEAP_P_def\<close>)
  note ch = array_change_ok [OF c4(1) this]
  have "contents h' r ob' = take n (drop k xs)"
    using vs' kn by (subst xs) (simp add: contents_def ob' RARRAY_LEN_def RARRAY_PTR_def cells_of_def drop_take min_def add.commute)
  moreover have "writable h' ob' = writable h ob" by (simp add: writable_def ob' same)
  ultimately show ?thesis using ch c4(2) same by (simp add: becomes_def)
qed

lemma make_partial_ok:
  assumes ok: "heap_ok h" and v: "view h a = Some (xs, w)" and kn: "k + n \<le> length xs"
  shows "\<exists>h'. ary_make_partial a k n h = Some (Inr (ah_next_obj h), h')
    \<and> becomes h ((view h)(ah_next_obj h \<mapsto> (take n (drop k xs), True))) h' \<and> view h (ah_next_obj h) = None"
proof -
  define r where "r = ah_next_obj h"
  obtain ar where ar: "ah_objs h a = Some ar" "\<not> ao_root ar" using view_obj [OF v] by blast
  note len = read_whole(1) [OF ok v ar(1)]
  have ne: "a \<noteq> r" using new_other [OF ok v] by (simp add: r_def)
  from alloc_ok [OF ok, folded r_def] obtain h1 ob where 1: "ary_alloc h = Some (Inr r, h1)" "becomes h ((view h)(r \<mapsto> ([], True))) h1"
    "view h r = None" "ah_objs h1 = (ah_objs h)(r \<mapsto> ob)" "ao_embed ob" "unshared ob" "ao_elen ob = 0" "ah_next_obj h1 = r + 1"
    by (auto simp: r_def)
  have ok1: "heap_ok h1" "view h1 r = Some ([], True)" "ah_objs h1 r = Some ob" "\<not> ao_shared ob"
    using becomesD [OF 1(2)] 1(4,6) by (simp_all add: unshared_def)
  have a1: "ah_objs h1 a = Some ar" "view h1 a = Some (xs, w)" using 1(4) ar(1) v becomesD(2) [OF 1(2)] ne by simp_all
  show ?thesis
  proof (cases "n \<le> RARRAY_EMBED_LEN_MAX")
    case True
    obtain vs where vs: "cells h1 h1 r ob vs" using own_cells [OF ok1] by auto
    have lv: "length vs = RARRAY_EMBED_LEN_MAX" using storedD(6) [OF cellsD(9) [OF vs]] 1(5) by simp
    have pr: "RARRAY_PTR r ob = (Inl r, 0)" using 1(5) by (simp add: RARRAY_PTR_def)
    have "read_cells (place_add (RARRAY_PTR a ar) k) n h1 = Some (take n (drop k xs))" using read_whole(2) [OF ok1(1) a1(2,1) kn] .
    moreover have ln: "length (take n (drop k xs)) = n" using kn by simp
    ultimately obtain h2 where 2: "mem_copy (Inl r, 0) (place_add (RARRAY_PTR a ar) k) n h1 = Some h2"
      "cells h1 h2 r ob (take n (drop k xs) @ drop n vs)"
      using cells_write [OF vs, of 0 "take n (drop k xs)", unfolded ln] True lv by (auto simp: mem_copy_def pr)
    obtain h3 where 3: "ARY_SET_LEN r n h2 = Some h3" "cells h1 h3 r (with_len n ob) (take n (drop k xs) @ drop n vs)"
      using cells_set_len [OF 2(2), of n] kn by auto
    have "ary_make_partial a k n h = Some (Inr r, h3)"
      using ar(1) True 1(1) 2(1) 3(1) by (simp add: ary_make_partial_def) (simp add: ret_def)
    moreover have "take n (take n (drop k xs) @ drop n vs) = take n (drop k xs)" using kn by simp
    ultimately show ?thesis using new_done [OF 1(2) 3(2), unfolded with_len(1)] 1(3) unfolding r_def [symmetric] by metis
  next
    case False
    have na: "\<not> ao_embed ar"
      using False kn len heap_okD(1) [OF ok ar(1)] by (auto simp: rep_ok_def RARRAY_LEN_def)
    from make_shared_ok [OF ok1(1) a1(1) na ar(2)] obtain s so ar' h2 where 2: "ary_make_shared a h1 = Some (Inr s, h2)"
      "becomes h1 (view h1) h2" "ah_objs h2 a = Some ar'" "now_shares ar ar' s" "ah_objs h2 s = Some so" "ao_root so" "s \<noteq> a"
      "\<forall>x. x \<noteq> a \<and> ah_objs h1 x \<noteq> None \<longrightarrow> ah_objs h2 x = ah_objs h1 x \<and> ah_embed h2 x = ah_embed h1 x" by blast
    note d = becomesD [OF 2(2)]
    have r2: "ah_objs h2 r = Some ob" "view h2 r = Some ([], True)" "view h2 a = Some (xs, w)" using 2(8) ne ok1(2,3) d(2) a1(2) by simp_all
    have nar: "\<not> ao_embed ar'" "shares ar' s" "RARRAY_LEN ar' = length xs" using 2(4) len na by (simp_all add: now_shares_def RARRAY_LEN_def)
    have sr: "s \<noteq> r" using 2(5,6) r2(1) 1(6) by (auto simp: unshared_def)
    have pos: "0 \<le> ao_aux so" using heap_okD(4) [OF d(1) 2(5,6)] by linarith
    define ob' where "ob' = ob\<lparr>ao_embed := False, ao_elen := 0, ao_ptr := (fst (ao_ptr ar'), snd (ao_ptr ar') + k), ao_len := n, ao_shared := True, ao_aux := int s\<rparr>"
    define h' where "h' = update r (\<lambda>_. ob') (update s (\<lambda>ob. ob\<lparr>ao_aux := ao_aux so + 1\<rparr>) h2)"
    have b: "becomes h2 ((view h2)(r \<mapsto> (take n (drop k xs), True))) h'"
      using share_window [OF d(1) r2(1) _ r2(3) 2(3) nar(1,2) 2(5,6) kn ob'_def, of h'] 1(6) r2(1,2) 2(5) sr
      by (simp add: h'_def unshared_def view_def)
    have ms: "ary_make_shared a (update r FL_UNSET_EMBED h1) = Some (Inr s, update r FL_UNSET_EMBED h2)"
      using make_shared_commutes [OF ne _ 2(1)] 1(8) by simp
    have oa: "ah_objs (update r FL_UNSET_EMBED h2) a = Some ar'" using 2(3) ne by simp
    define h3 where "h3 = update r (\<lambda>r. r\<lparr>ao_ptr := ao_ptr ar', ao_len := length xs\<rparr>) (update r FL_UNSET_EMBED h2)"
    define h4 where "h4 = update r (\<lambda>ob. ob\<lparr>ao_shared := True, ao_aux := int s\<rparr>) (update s (\<lambda>ob. ob\<lparr>ao_aux := ao_aux ob + 1\<rparr>) h3)"
    have h4: "rb_ary_set_shared r s h3 = Some h4"
      using 2(5) sr pos by (simp add: rb_ary_set_shared_def rb_ary_increment_share_def h3_def h4_def)
    have o4: "ah_objs h4 r = Some (ob\<lparr>ao_embed := False, ao_elen := 0, ao_ptr := ao_ptr ar', ao_len := length xs, ao_shared := True, ao_aux := int s\<rparr>)"
      using r2(1) sr by (simp add: h4_def h3_def FL_UNSET_EMBED_def)
    have "\<exists>h5. ARY_INCREASE_PTR r k h4 = Some h5 \<and> ARY_SET_LEN r n h5 = Some h'"
      using o4 by (simp add: ARY_INCREASE_PTR_def ARY_SET_LEN_def)
        (use r2(1) 2(5) sr in \<open>cases ob, simp add: h'_def ob'_def h4_def h3_def update_def FL_UNSET_EMBED_def fun_upd_twist\<close>)
    then obtain h5 where h5: "ARY_INCREASE_PTR r k h4 = Some h5" "ARY_SET_LEN r n h5 = Some h'" by blast
    have "ary_make_partial a k n h = Some (Inr r, h')"
      unfolding ary_make_partial_def
      by (simp only: ar(1) bind.bind_lunit False if_False 1(1) run_ok ms oa nar(3) h3_def [symmetric] h4 h5) (simp add: ret_def)
    moreover have "(view h2)(r \<mapsto> (take n (drop k xs), True)) = (view h)(r \<mapsto> (take n (drop k xs), True))"
      using d(2) becomesD(2) [OF 1(2)] by simp
    ultimately show ?thesis using becomes_trans [OF 1(2) becomes_trans [OF 2(2) b]] 1(3) unfolding r_def [symmetric] by simp
  qed
qed

section \<open>Parts of an array\<close>

lemma subseq_ok:
  assumes ok: "heap_ok h" and v: "view h a = Some (xs, w)" and b: "sint beg = int b" "b \<le> length xs" and l: "0 \<le> sint len"
  shows "\<exists>h'. rb_ary_subseq a beg len h = Some (Inr (Some (ah_next_obj h)), h')
    \<and> becomes h ((view h)(ah_next_obj h \<mapsto> (take (nat (sint len)) (drop b xs), True))) h' \<and> view h (ah_next_obj h) = None"
proof -
  obtain ob where ob: "ah_objs h a = Some ob" using view_obj [OF v] by blast
  note vl = view_len [OF ok v]
  define l' where "l' = min (nat (sint len)) (length xs - b)"
  have le: "(if int (length xs) < sint len \<or> int (length xs) < sint (beg + len) then int (length xs) - sint beg else sint len) = int l'"
  proof (cases "int (length xs) < sint len")
    case False
    have "sint (word_of_int (sint beg + sint len) :: u32) = sint beg + sint len"
      using b l vl False by (intro sint_word_of_int_u32) (auto simp: ARY_MAX_SIZE_def)
    then have "sint (beg + len) = sint beg + sint len" by simp
    then show ?thesis using False b l by (auto simp: l'_def)
  qed (use b in \<open>auto simp: l'_def\<close>)
  have t: "take (nat (sint len)) (drop b xs) = take l' (drop b xs)" by (simp add: l'_def min_def)
  have pos: "\<not> int (length xs) < int b" "\<not> (int b < 0 \<or> sint len < 0)" using b l by auto
  have start: "rb_ary_subseq a beg len h = (if int l' = 0 then run (ary_new 0 h) (\<lambda>r h. ret (Some r) h)
      else run (ary_make_partial a b l' h) (\<lambda>r h. ret (Some r) h))"
    unfolding rb_ary_subseq_def
    by (simp only: ob bind.bind_lunit Let_def read_whole(1) [OF ok v ob] le) (use pos b in simp)
  show ?thesis
  proof (cases "l' = 0")
    case True
    from new_ok [OF ok, of 0] obtain h' where "ary_new 0 h = Some (Inr (ah_next_obj h), h')"
      "becomes h ((view h)(ah_next_obj h \<mapsto> ([], True))) h'" "view h (ah_next_obj h) = None" by (auto simp: ARY_MAX_SIZE_def)
    then show ?thesis using True unfolding start t by (simp add: ret_def)
  next
    case False
    have "b + l' \<le> length xs" using b(2) by (simp add: l'_def)
    from make_partial_ok [OF ok v this] show ?thesis using False unfolding start t by (auto simp: ret_def)
  qed
qed

lemma subseq_none:
  assumes "heap_ok h" "view h a = Some (xs, w)" "int (length xs) < sint beg \<or> sint beg < 0 \<or> sint len < 0"
  shows "rb_ary_subseq a beg len h = Some (Inr None, h)"
proof -
  obtain ob where ob: "ah_objs h a = Some ob" using view_obj [OF assms(2)] by blast
  show ?thesis using assms(3) ob read_whole(1) [OF assms(1,2) ob] by (auto simp: rb_ary_subseq_def Let_def ret_def)
qed

lemma take_part_ok:
  assumes ok: "heap_ok h" and v: "view h a = Some (xs, w)" and n: "0 \<le> sint nv"
  shows "\<exists>h'. ary_take_first_or_last nv a at_end h = Some (Inr (ah_next_obj h), h')
    \<and> becomes h ((view h)(ah_next_obj h \<mapsto> (if at_end then drop (length xs - nat (sint nv)) xs else take (nat (sint nv)) xs, True))) h'
    \<and> view h (ah_next_obj h) = None"
proof -
  obtain ob where ob: "ah_objs h a = Some ob" using view_obj [OF v] by blast
  define m where "m = (if int (length xs) < sint nv then length xs else nat (sint nv))"
  have m: "m \<le> length xs" "m = min (length xs) (nat (sint nv))" using n by (auto simp: m_def)
  have neg: "\<not> (sint nv \<le> int (length xs) \<and> sint nv < 0)" using n by simp
  have start: "ary_take_first_or_last nv a at_end h = ary_make_partial a (if at_end then length xs - m else 0) m h"
    unfolding ary_take_first_or_last_def
    by (simp only: ob bind.bind_lunit Let_def read_whole(1) [OF ok v ob] neg if_False m_def)
  have t: "(if at_end then drop (length xs - nat (sint nv)) xs else take (nat (sint nv)) xs) = take m (drop (if at_end then length xs - m else 0) xs)"
    using m(1) by (auto simp: m(2) min_def)
  have "(if at_end then length xs - m else 0) + m \<le> length xs" using m(1) by simp
  from make_partial_ok [OF ok v this] show ?thesis unfolding start t .
qed

lemma pop_m_ok:
  assumes ok: "heap_ok h" and v: "view h a = Some (xs, True)" and n: "0 \<le> sint nv"
  shows "\<exists>h'. rb_ary_pop_m a nv h = Some (Inr (ah_next_obj h), h')
    \<and> becomes h ((view h)(ah_next_obj h \<mapsto> (drop (length xs - nat (sint nv)) xs, True), a \<mapsto> (take (length xs - nat (sint nv)) xs, True))) h'
    \<and> view h (ah_next_obj h) = None"
proof -
  define r where "r = ah_next_obj h"
  let ?k = "length xs - nat (sint nv)"
  from take_part_ok [OF ok v n, of True, folded r_def] obtain h1 where 1: "ary_take_first_or_last nv a True h = Some (Inr r, h1)"
    "becomes h ((view h)(r \<mapsto> (drop ?k xs, True))) h1" "view h r = None" by auto
  have ne: "a \<noteq> r" using new_other [OF ok v] by (simp add: r_def)
  note d = becomesD [OF 1(2)]
  have v1: "view h1 a = Some (xs, True)" "view h1 r = Some (drop ?k xs, True)" using d(2) ne v by simp_all
  obtain ob ro where o: "ah_objs h1 a = Some ob" "ah_objs h1 r = Some ro" using view_obj v1 by blast
  note len = read_whole(1) [OF d(1) v1(1) o(1)] read_whole(1) [OF d(1) v1(2) o(2)]
  have k: "length xs - length (drop ?k xs) = ?k" by simp
  have le: "?k \<le> length xs" by simp
  define h2 where "h2 = update a (\<lambda>_. with_len ?k ob) h1"
  note s = set_len_ok [OF d(1) v1(1) o(1) le, folded h2_def]
  have "rb_ary_pop_m a nv h = Some (Inr r, h2)"
    unfolding rb_ary_pop_m_def by (simp only: check_ok [OF ok v] run_ok 1(1) o bind.bind_lunit len k s(1)) (simp add: ret_def)
  then show ?thesis using becomes_trans [OF 1(2) s(2)] d(2) 1(3) unfolding r_def [symmetric] by simp
qed

lemma shift_m_ok:
  assumes ok: "heap_ok h" and v: "view h a = Some (xs, True)" and n: "0 \<le> sint nv"
  shows "\<exists>h'. rb_ary_shift_m a nv h = Some (Inr (ah_next_obj h), h')
    \<and> becomes h ((view h)(ah_next_obj h \<mapsto> (take (nat (sint nv)) xs, True), a \<mapsto> (drop (nat (sint nv)) xs, True))) h'
    \<and> view h (ah_next_obj h) = None"
proof -
  define r where "r = ah_next_obj h"
  define m where "m = length (take (nat (sint nv)) xs)"
  from take_part_ok [OF ok v n, of False, folded r_def] obtain h1 where 1: "ary_take_first_or_last nv a False h = Some (Inr r, h1)"
    "becomes h ((view h)(r \<mapsto> (take (nat (sint nv)) xs, True))) h1" "view h r = None" by auto
  have ne: "a \<noteq> r" using new_other [OF ok v] by (simp add: r_def)
  note d = becomesD [OF 1(2)]
  have v1: "view h1 a = Some (xs, True)" "view h1 r = Some (take (nat (sint nv)) xs, True)" using d(2) ne v by simp_all
  obtain ob ro where o: "ah_objs h1 a = Some ob" "ah_objs h1 r = Some ro" using view_obj v1 by blast
  note len = read_whole(1) [OF d(1) v1(1) o(1)] read_whole(1) [OF d(1) v1(2) o(2)]
  have m: "m \<le> length xs" "drop (nat (sint nv)) xs = drop m xs" by (auto simp: m_def min_def)
  note start = check_ok [OF ok v] run_ok 1(1) o bind.bind_lunit Let_def len m_def [symmetric]
  have "\<exists>h'. rb_ary_shift_m a nv h = Some (Inr r, h') \<and> becomes h1 ((view h1)(a \<mapsto> (drop m xs, True))) h'"
  proof (cases "ao_shared ob")
    case True
    have "m + (length xs - m) \<le> length xs" using m(1) by simp
    from window_ok [OF d(1) v1(1) o(1) True this] obtain h2 h3 where 2: "ARY_INCREASE_PTR a m h1 = Some h2" "ARY_SET_LEN a (length xs - m) h2 = Some h3"
      "becomes h1 ((view h1)(a \<mapsto> (drop m xs, True))) h3" by auto
    have "rb_ary_shift_m a nv h = Some (Inr r, h3)"
      unfolding rb_ary_shift_m_def by (simp only: start True if_True 2(1,2)) (simp add: ret_def)
    then show ?thesis using 2(3) by blast
  next
    case False
    from own_cells [OF d(1) v1(1) o(1) False] obtain vs where vs: "cells h1 h1 a ob vs" "take (length xs) vs = xs" by blast
    have le: "m + (length xs - m) \<le> length vs" "0 + (length xs - m) \<le> length vs" using cellsD(3) [OF vs(1)] len(1) m(1) by auto
    have t: "take (length xs - m) (drop m vs) = drop m xs" using vs(2) drop_take [of m "length xs" vs] by simp
    from cells_copy [OF vs(1) le] obtain h2 where 2: "mem_copy (RARRAY_PTR a ob) (place_add (RARRAY_PTR a ob) m) (length xs - m) h1 = Some h2"
      "cells h1 h2 a ob (drop m xs @ drop (length xs - m) vs)" by (auto simp: t)
    obtain h3 where 3: "ARY_SET_LEN a (length xs - m) h2 = Some h3" "cells h1 h3 a (with_len (length xs - m) ob) (drop m xs @ drop (length xs - m) vs)"
      using cells_set_len [OF 2(2), of "length xs - m"] by auto
    have "rb_ary_shift_m a nv h = Some (Inr r, h3)"
      unfolding rb_ary_shift_m_def by (simp only: start False if_False 2(1) 3(1)) (simp add: ret_def)
    then show ?thesis using cells_done [OF 3(2)] by auto
  qed
  then show ?thesis using becomes_trans [OF 1(2)] d(2) 1(3) m(2) unfolding r_def [symmetric] by auto
qed

end
