(* ===== verification/ArrayCopy.thy ===== *)
theory ArrayCopy
  imports ArrayWindows
begin

text \<open>\<open>replace\<close>, which shares the cells of the other array, inserting and cutting, which make an array and replace a part, and reading.\<close>

section \<open>Taking over the elements of another array\<close>

lemma other_buffer:
  assumes ok: "heap_ok h" and o: "ah_objs h x = Some xo" "\<not> ao_embed xo" and c: "ah_objs h c = Some co" "ARY_OWNS_HEAP_P co" "\<not> ao_root co" "c \<noteq> x"
  shows "fst (ao_ptr xo) \<noteq> fst (ao_ptr co)"
proof -
  obtain s so where s: "ah_objs h s = Some so" "ARY_OWNS_HEAP_P so" "fst (ao_ptr so) = fst (ao_ptr xo)"
    "if ao_shared xo then ao_root so \<and> ao_aux xo = int s else s = x" using owner_of [OF ok o] by blast
  then have "s \<noteq> c" using c o(1) by (auto split: if_splits)
  then show ?thesis using heap_okD(3) [OF ok s(1) c(1) s(2) c(2)] s(3) by auto
qed

lemma read_freed:
  assumes ok: "heap_ok h" and o: "ah_objs h x = Some xo" and c: "ah_objs h c = Some co" "ARY_OWNS_HEAP_P co" "\<not> ao_root co" "c \<noteq> x"
  shows "read_cells (RARRAY_PTR x xo) n (h\<lparr>ah_bufs := (ah_bufs h)(fst (ao_ptr co) := None)\<rparr>) = read_cells (RARRAY_PTR x xo) n h"
  using other_buffer [OF ok o _ c] by (auto simp: read_cells_def cells_of_def RARRAY_PTR_def)

lemma replace_small:
  assumes ok: "heap_ok h" and v: "view h c = Some (zs, True)" "view h x = Some (xs, w)" "c \<noteq> x" and n: "length xs \<le> RARRAY_EMBED_LEN_MAX"
  shows "\<exists>h'. rb_ary_replace c x h = Some (Inr (), h') \<and> becomes h ((view h)(c \<mapsto> (xs, True))) h'"
proof -
  obtain co xo where o: "ah_objs h c = Some co" "\<not> ao_root co" "ah_objs h x = Some xo" using view_obj v by blast
  note len = read_whole(1) [OF ok v(2) o(3)]
  have rd: "read_cells (RARRAY_PTR x xo) (length xs) h = Some xs" using read_whole(3) [OF ok v(2) o(3), of "length xs"] by simp
  have wr: "writable h co" using v(1) o(1) by (auto simp: view_def split: if_splits)
  have r: "rep_ok h c co" using heap_okD(1) [OF ok o(1)] by simp
  have emb: "length (ah_embed h c) = RARRAY_EMBED_LEN_MAX" using r by (simp add: rep_ok_def)
  define us where "us = xs @ drop (length xs) (ah_embed h c)"
  note start = check_ok [OF ok v(1)] run_ok v(3) if_False o bind.bind_lunit len Let_def
  show ?thesis
  proof (cases "ao_shared co")
    case True
    then obtain s where s: "ao_aux co = int s" "\<not> ao_embed co" using root_exists [OF ok o(1)] by blast
    have sh: "shares co s" using True s(1) by (simp add: shares_def)
    define co' where "co' = co\<lparr>ao_shared := False, ao_embed := True, ao_elen := length xs\<rparr>"
    define h0 where "h0 = h\<lparr>ah_objs := (ah_objs h)(c \<mapsto> co\<lparr>ao_shared := False, ao_embed := True\<rparr>), ah_embed := (ah_embed h)(c := us)\<rparr>"
    from leave_embedded [OF ok o(1) sh n us_def co'_def h0_def] wr obtain h2 h' where
      2: "rb_ary_decrement_share s h0 = Some h2" "ARY_SET_LEN c (length xs) h2 = Some h'" "becomes h ((view h)(c \<mapsto> (xs, True))) h'" by auto
    have cp: "mem_copy (Inl c, 0) (RARRAY_PTR x xo) (length xs) (update c (\<lambda>ob. FL_SET_EMBED (ob\<lparr>ao_shared := False\<rparr>)) h) = Some h0"
      using rd o(1) emb n by (simp add: mem_copy_def write_cells_def cells_of_def set_cells_def) (simp add: h0_def us_def update_def FL_SET_EMBED_def)
    have "rb_ary_replace c x h = Some (Inr (), h')"
      using v(3) o check_ok [OF ok v(1)] len n cp 2(1,2) True s(1)
      by (simp add: rb_ary_replace_def ARY_OWNS_HEAP_P_def Let_def) (simp add: ret_def)
    then show ?thesis using 2(3) by blast
  next
    case False
    define own where "own \<longleftrightarrow> ARY_OWNS_HEAP_P co"
    define h0 where "h0 = (if own then h\<lparr>ah_bufs := (ah_bufs h)(fst (ao_ptr co) := None)\<rparr> else h)"
    define co' where "co' = co\<lparr>ao_shared := False, ao_embed := True, ao_elen := length xs\<rparr>"
    define h' where "h' = h0\<lparr>ah_objs := (ah_objs h)(c \<mapsto> co'), ah_embed := (ah_embed h)(c := us)\<rparr>"
    have "(if ARY_OWNS_HEAP_P co then xfree (ao_ptr co) h else Some h) = Some h0"
      using r False by (auto simp: h0_def own_def xfree_def ARY_OWNS_HEAP_P_def rep_ok_def)
    moreover have "read_cells (RARRAY_PTR x xo) (length xs) h0 = Some xs"
      using rd read_freed [OF ok o(3,1) _ o(2) v(3)] by (simp add: h0_def own_def)
    then have "\<exists>h2. mem_copy (Inl c, 0) (RARRAY_PTR x xo) (length xs) (update c (\<lambda>ob. FL_SET_EMBED (ob\<lparr>ao_shared := False\<rparr>)) h0) = Some h2
        \<and> ARY_SET_LEN c (length xs) h2 = Some h'"
      using o(1) emb n
      by (simp add: mem_copy_def write_cells_def cells_of_def set_cells_def h0_def ARY_SET_LEN_def FL_SET_EMBED_def)
        (simp add: h'_def h0_def us_def update_def co'_def FL_SET_EMBED_def)
    ultimately have "rb_ary_replace c x h = Some (Inr (), h')"
      using v(3) o(1,3) check_ok [OF ok v(1)] len n False
      by (auto simp: rb_ary_replace_def Let_def rb_ary_decrement_share_def ret_def)
    moreover have "array_change c co co' h h'"
      using o(1,2) emb n heap_okD(2) [OF ok]
      by (auto simp: array_change_def h'_def h0_def own_def co'_def us_def rep_ok_def shares_def ARY_OWNS_HEAP_P_def split: if_splits)
    note ch = array_change_ok [OF ok this]
    moreover have "contents h' c co' = xs" by (simp add: contents_def RARRAY_LEN_def RARRAY_PTR_def cells_of_def h'_def co'_def us_def)
    moreover have "writable h' co'" using wr by (simp add: writable_def h'_def h0_def co'_def)
    ultimately show ?thesis by (auto simp: becomes_def h'_def h0_def)
  qed
qed

lemma decrement_objs: "rb_ary_decrement_share t h = Some h' \<Longrightarrow> x \<noteq> t \<Longrightarrow> ah_objs h' x = ah_objs h x"
  by (auto simp: rb_ary_decrement_share_def rb_ary_free_def xfree_def Let_def bind_eq_Some_conv split: if_splits)

lemma set_shared_ok:
  assumes "ah_objs h s = Some so" "0 \<le> ao_aux so" "s \<noteq> c"
  shows "rb_ary_set_shared c s h = Some (update c (\<lambda>ob. ob\<lparr>ao_shared := True, ao_aux := int s\<rparr>) (update s (\<lambda>ob. ob\<lparr>ao_aux := ao_aux so + 1\<rparr>) h))"
  using assms by (simp add: rb_ary_set_shared_def rb_ary_increment_share_def update_def)

text \<open>An array that shared with another root takes a window; the root that it leaves counts one less.\<close>

lemma change_root:
  assumes ok: "heap_ok h" and c: "ah_objs h c = Some co" "\<not> ao_root co" "shares co t"
    and x: "view h x = Some (xs, w)" "ah_objs h x = Some xo" "\<not> ao_embed xo" "shares xo s" "x \<noteq> c" and s: "ah_objs h s = Some so" "ao_root so"
    and co': "co' = co\<lparr>ao_embed := False, ao_elen := 0, ao_ptr := ao_ptr xo, ao_len := length xs, ao_shared := True, ao_aux := int s\<rparr>"
  shows "\<exists>h2 so2. rb_ary_decrement_share t h = Some h2 \<and> ah_objs h2 c = Some co \<and> ah_objs h2 s = Some so2 \<and> 0 \<le> ao_aux so2
    \<and> becomes h ((view h)(c \<mapsto> (xs, writable h co))) (update c (\<lambda>_. co') (update s (\<lambda>ob. ob\<lparr>ao_aux := ao_aux so2 + 1\<rparr>) h2))"
proof -
  obtain to where t: "ah_objs h t = Some to" "ao_root to" using root_exists [OF ok c(1)] c(3) by (auto simp: shares_def)
  have ne: "t \<noteq> c" "s \<noteq> c" using t s c(1,2) by auto
  have pos: "0 \<le> ao_aux so" using heap_okD(4) [OF ok s] by linarith
  define h3 where "h3 = update c (\<lambda>_. co') (update s (\<lambda>ob. ob\<lparr>ao_aux := ao_aux so + 1\<rparr>) h)"
  have o3: "ah_objs h3 = (ah_objs h)(s \<mapsto> so\<lparr>ao_aux := ao_aux so + 1\<rparr>, c \<mapsto> co')" using c(1) s(1) ne(2) by (simp add: h3_def)
  have w: "becomes h ((view h)(c \<mapsto> (xs, writable h co))) h3"
    using share_window [OF ok c(1,2) x(1-4) s, of 0 "length xs" co' h3] co' o3 by (simp add: h3_def)
  note d3 = becomesD [OF w]
  have sh3: "sharers h3 u = (if u = s then insert c (sharers h u) else sharers h u - {c})" for u
    using c(1) s ne(2) root_owns [OF ok s]
    by (auto simp: sharers_def o3 co' ARY_OWNS_HEAP_P_def split: if_splits)
  show ?thesis
  proof (cases "t = s")
    case True
    have in_s: "c \<in> sharers h s" "x \<in> sharers h s" using c(1,3) x(2,4) True by (auto simp: sharers_def shares_def)
    have "card {c, x} \<le> card (sharers h s)" using in_s finite_sharers [OF ok] by (intro card_mono) auto
    then have two: "2 \<le> ao_aux so" using x(5) heap_okD(4) [OF ok s] by auto
    define h2 where "h2 = update s (\<lambda>ob. ob\<lparr>ao_aux := ao_aux so - 1\<rparr>) h"
    have d: "rb_ary_decrement_share t h = Some h2"
      using True s(1) two heap_okD(1) [OF ok s(1)] by (simp add: rb_ary_decrement_share_def h2_def)
    have "int (card (sharers h3 s)) \<le> ao_aux so" using sh3 [of s] in_s(1) heap_okD(4) [OF ok s] by (simp add: insert_absorb)
    from count_change [OF d3(1) _ _ this refl] o3 s(2) ne(2) have
      "heap_ok (update s (\<lambda>ob. ob\<lparr>ao_aux := ao_aux so\<rparr>) h3)" "view (update s (\<lambda>ob. ob\<lparr>ao_aux := ao_aux so\<rparr>) h3) = view h3" by auto
    moreover have "update s (\<lambda>ob. ob\<lparr>ao_aux := ao_aux so\<rparr>) h3 = update c (\<lambda>_. co') (update s (\<lambda>ob. ob\<lparr>ao_aux := ao_aux so - 1 + 1\<rparr>) h2)"
      using c(1) s(1) ne(2) by (simp add: h3_def h2_def update_def fun_upd_twist)
    ultimately have "becomes h ((view h)(c \<mapsto> (xs, writable h co))) (update c (\<lambda>_. co') (update s (\<lambda>ob. ob\<lparr>ao_aux := ao_aux so - 1 + 1\<rparr>) h2))"
      using w d3(2) by (simp add: becomes_def) (simp add: h2_def)
    then show ?thesis using d c(1) s(1) ne(2) two by (intro exI [of _ h2] exI [of _ "so\<lparr>ao_aux := ao_aux so - 1\<rparr>"]) (simp add: h2_def)
  next
    case False
    have "c \<in> sharers h t" using c(1,3) by (auto simp: sharers_def shares_def)
    then have "card (sharers h3 t) < card (sharers h t)" using sh3 [of t] False card_Diff1_less [OF finite_sharers [OF ok]] by metis
    then have lt: "int (card (sharers h3 t)) < ao_aux to" using heap_okD(4) [OF ok t] by linarith
    have t3: "ah_objs h3 t = Some to" using t(1) ne(1) False by (simp add: o3)
    from decrement_ok [OF d3(1) t3 t(2) lt] obtain h' where h': "rb_ary_decrement_share t h3 = Some h'" "becomes h3 (view h3) h'" by blast
    obtain h2 where h2: "rb_ary_decrement_share t h = Some h2" "h' = update c (\<lambda>_. co') (update s (\<lambda>ob. ob\<lparr>ao_aux := ao_aux so + 1\<rparr>) h2)"
      using h'(1) decrement_commutes [of c t _ "update s _ h"] decrement_commutes [of s t _ h] ne(1) False
      by (cases "rb_ary_decrement_share t h") (auto simp: h3_def)
    have "ah_objs h2 c = Some co" "ah_objs h2 s = Some so" using decrement_objs [OF h2(1)] c(1) s(1) ne False by auto
    then show ?thesis using h2 pos becomes_trans [OF w h'(2)] d3(2) by auto
  qed
qed

lemma replace_big:
  assumes ok: "heap_ok h" and v: "view h c = Some (zs, True)" "view h x = Some (xs, w)" "c \<noteq> x" and n: "\<not> length xs \<le> RARRAY_EMBED_LEN_MAX"
  shows "\<exists>h'. rb_ary_replace c x h = Some (Inr (), h') \<and> becomes h ((view h)(c \<mapsto> (xs, True))) h'"
proof -
  obtain co xo where o: "ah_objs h c = Some co" "\<not> ao_root co" "ah_objs h x = Some xo" "\<not> ao_root xo" using view_obj v by blast
  note len = read_whole(1) [OF ok v(2) o(3)]
  have wr: "writable h co" using v(1) o(1) by (auto simp: view_def split: if_splits)
  have nx: "\<not> ao_embed xo" using n len heap_okD(1) [OF ok o(3)] by (auto simp: rep_ok_def RARRAY_LEN_def)
  from make_shared_ok [OF ok o(3) nx o(4)] obtain s so xo' h1 where 1: "ary_make_shared x h = Some (Inr s, h1)" "becomes h (view h) h1"
    "ah_objs h1 x = Some xo'" "now_shares xo xo' s" "ah_objs h1 s = Some so" "ao_root so" "s \<noteq> x"
    "\<forall>y. y \<noteq> x \<and> ah_objs h y \<noteq> None \<longrightarrow> ah_objs h1 y = ah_objs h y \<and> ah_embed h1 y = ah_embed h y" by blast
  note d = becomesD [OF 1(2)]
  have c1: "ah_objs h1 c = Some co" using 1(8) o(1) v(3) by simp
  have x1: "view h1 x = Some (xs, w)" "\<not> ao_embed xo'" "shares xo' s" "RARRAY_LEN xo' = length xs"
    using v(2) d(2) 1(4) nx len by (simp_all add: now_shares_def RARRAY_LEN_def)
  have wr1: "writable h1 co" using wr 1(2) by (simp add: becomes_def writable_def)
  have sc: "s \<noteq> c" using 1(5,6) c1 o(2) by auto
  have pos: "0 \<le> ao_aux so" using heap_okD(4) [OF d(1) 1(5,6)] by linarith
  define co' where "co' = co\<lparr>ao_embed := False, ao_elen := 0, ao_ptr := ao_ptr xo', ao_len := length xs, ao_shared := True, ao_aux := int s\<rparr>"
  note start = check_ok [OF ok v(1)] run_ok v(3) if_False o(1,3) bind.bind_lunit len n 1(1,3) x1(4)
  let ?F = "\<lambda>ob. (FL_UNSET_EMBED ob)\<lparr>ao_ptr := ao_ptr xo', ao_len := length xs\<rparr>"
  have set: "rb_ary_set_shared c s (update c ?F h2) = Some (update c (\<lambda>_. co') (update s (\<lambda>ob. ob\<lparr>ao_aux := ao_aux so2 + 1\<rparr>) h2))"
    if "ah_objs h2 s = Some so2" "0 \<le> ao_aux so2" "ah_objs h2 c = Some co2" "co2 = co \<or> co2 = co\<lparr>ao_shared := False\<rparr>" for h2 so2 co2
    using set_shared_ok [of "update c ?F h2" s so2 c] that sc
    by (cases co) (auto simp: update_def fun_upd_twist co'_def FL_UNSET_EMBED_def)
  show ?thesis
  proof (cases "ao_shared co")
    case True
    obtain t where t: "ao_aux co = int t" "\<not> ao_embed co" using root_exists [OF d(1) c1 True] by blast
    then have sh: "shares co t" using True by (simp add: shares_def)
    from change_root [OF d(1) c1 o(2) sh x1(1) 1(3) x1(2,3) v(3) [symmetric] 1(5,6) co'_def] obtain h2 so2 where 2:
      "rb_ary_decrement_share t h1 = Some h2" "ah_objs h2 c = Some co" "ah_objs h2 s = Some so2" "0 \<le> ao_aux so2"
      "becomes h1 ((view h1)(c \<mapsto> (xs, writable h1 co))) (update c (\<lambda>_. co') (update s (\<lambda>ob. ob\<lparr>ao_aux := ao_aux so2 + 1\<rparr>) h2))" by blast
    have un: "(if ARY_OWNS_HEAP_P co then xfree (ao_ptr co) h1 else rb_ary_unshare_safe c h1) = Some (update c (\<lambda>ob. ob\<lparr>ao_shared := False\<rparr>) h2)"
      using True t c1 2(1) by (simp add: ARY_OWNS_HEAP_P_def rb_ary_unshare_safe_def rb_ary_unshare_def)
    have st: "rb_ary_set_shared c s (update c ?F (update c (\<lambda>ob. ob\<lparr>ao_shared := False\<rparr>) h2))
        = Some (update c (\<lambda>_. co') (update s (\<lambda>ob. ob\<lparr>ao_aux := ao_aux so2 + 1\<rparr>) h2))"
      using set [of "update c (\<lambda>ob. ob\<lparr>ao_shared := False\<rparr>) h2" so2] 2(2-4) sc by (simp add: update_def fun_upd_twist)
    have "rb_ary_replace c x h = Some (Inr (), update c (\<lambda>_. co') (update s (\<lambda>ob. ob\<lparr>ao_aux := ao_aux so2 + 1\<rparr>) h2))"
      unfolding rb_ary_replace_def by (simp only: start un st) (simp add: ret_def)
    then show ?thesis using becomes_trans [OF 1(2) 2(5)] d(2) wr1 by simp
  next
    case False
    define own where "own \<longleftrightarrow> ARY_OWNS_HEAP_P co"
    define h2 where "h2 = (if own then h1\<lparr>ah_bufs := (ah_bufs h1)(fst (ao_ptr co) := None)\<rparr> else h1)"
    have r: "rep_ok h1 c co" using heap_okD(1) [OF d(1) c1] by simp
    have un: "(if ARY_OWNS_HEAP_P co then xfree (ao_ptr co) h1 else rb_ary_unshare_safe c h1) = Some h2"
      using r False c1 by (auto simp: h2_def own_def xfree_def ARY_OWNS_HEAP_P_def rep_ok_def rb_ary_unshare_safe_def)
    have o2: "ah_objs h2 = ah_objs h1" by (simp add: h2_def)
    define h3 where "h3 = update c (\<lambda>_. co') (update s (\<lambda>ob. ob\<lparr>ao_aux := ao_aux so + 1\<rparr>) h2)"
    have st: "rb_ary_set_shared c s (update c ?F h2) = Some h3" unfolding h3_def using set [of h2 so] o2 1(5) pos c1 by simp
    have "becomes h1 ((view h1)(c \<mapsto> (take (length xs) (drop 0 xs), writable h1 co))) h3"
      by (rule share_window [OF d(1) c1 o(2) x1(1) 1(3) x1(2,3) 1(5,6)])
        (use c1 1(5) sc in \<open>auto simp: co'_def h3_def h2_def own_def\<close>)
    moreover have "rb_ary_replace c x h = Some (Inr (), h3)"
      unfolding rb_ary_replace_def by (simp only: start un st) (simp add: ret_def)
    ultimately show ?thesis using becomes_trans [OF 1(2)] d(2) wr1 by auto
  qed
qed

lemma replace_ok:
  assumes "heap_ok h" "view h c = Some (zs, True)" "view h x = Some (xs, w)"
  shows "\<exists>h'. rb_ary_replace c x h = Some (Inr (), h') \<and> becomes h ((view h)(c \<mapsto> (xs, True))) h'"
proof (cases "c = x")
  case True
  then show ?thesis using assms check_ok [OF assms(1,2)] by (auto simp: rb_ary_replace_def ret_def becomes_def fun_upd_idem)
qed (use replace_small [OF assms] replace_big [OF assms] in blast)

section \<open>Inserting and cutting\<close>

lemma index_back: "sint beg < 0 \<Longrightarrow> int n \<le> ARY_MAX_SIZE \<Longrightarrow> sint (beg + of_nat n :: u32) = sint beg + int n"
proof -
  assume "sint beg < 0" "int n \<le> ARY_MAX_SIZE"
  then have "sint (word_of_int (sint beg + int n) :: u32) = sint beg + int n"
    using sint_greater_eq [of beg] by (intro sint_word_of_int_u32) (simp_all add: ARY_MAX_SIZE_def)
  then show ?thesis by simp
qed

lemma insert_start:
  assumes ok: "heap_ok h" and v: "view h a = Some (xs, True)" and ys: "ys \<noteq> []" "int (length ys) \<le> ARY_MAX_SIZE"
    and p: "p = (if sint pos = - 1 then int (length xs) else if sint pos < 0 then sint pos + 1 + int (length xs) else sint pos)"
  shows "\<exists>h1 b. rb_ary_insert a pos ys h = rb_ary_splice a b 0 (Some (ah_next_obj h)) h1 \<and> becomes h ((view h)(ah_next_obj h \<mapsto> (ys, True))) h1
    \<and> (if sint b < 0 then sint b + int (length xs) else sint b) = p"
proof -
  define r where "r = ah_next_obj h"
  obtain ob where ob: "ah_objs h a = Some ob" using view_obj [OF v] by blast
  note len = read_whole(1) [OF ok v ob]
  from new4_ok [OF ok ys(2), folded r_def] obtain h1 where 1: "rb_ary_new4 ys h = Some (Inr r, h1)" "becomes h ((view h)(r \<mapsto> (ys, True))) h1" by blast
  define q :: u32 where "q = (if pos = - 1 then of_nat (length xs) else pos)"
  define b where "b = (if sint q < 0 then q + 1 else q)"
  have "sint b = (if sint pos = - 1 then int (length xs) else if sint pos < 0 then sint pos + 1 else sint pos) \<and> (sint b < 0 \<longleftrightarrow> sint pos < 0 \<and> sint pos \<noteq> - 1)"
  proof (cases "pos = - 1")
    case True
    then have "q = of_nat (length xs)" by (simp add: q_def)
    then have "sint q = int (length xs)" using sint_len view_len [OF ok v] by simp
    then show ?thesis using True by (simp add: b_def)
  next
    case False
    then have n1: "sint pos \<noteq> - 1" by (metis sint_n1 signed_word_eqI)
    have "sint (pos + 1) = sint pos + 1" if "sint pos < 0" using index_back [OF that, of 1] by (simp add: ARY_MAX_SIZE_def)
    then show ?thesis using False n1 by (auto simp: b_def q_def)
  qed
  then have bp: "(if sint b < 0 then sint b + int (length xs) else sint b) = p" using p by (auto split: if_splits)
  have "rb_ary_insert a pos ys h = rb_ary_splice a b 0 (Some r) h1"
    unfolding rb_ary_insert_def
    by (simp only: ys(1) if_False ob bind.bind_lunit Let_def len q_def [symmetric] b_def [symmetric] 1(1) run_ok)
  then show ?thesis using 1(2) bp unfolding r_def [symmetric] by blast
qed

lemma insert_ok:
  assumes ok: "heap_ok h" and v: "view h a = Some (xs, True)" and ys: "ys \<noteq> []"
    and p: "(if sint pos = - 1 then int (length xs) else if sint pos < 0 then sint pos + 1 + int (length xs) else sint pos) = int p"
    and sz: "int (length (splice_list (ah_nil h) xs p 0 ys)) \<le> ARY_MAX_SIZE"
  shows "\<exists>h'. rb_ary_insert a pos ys h = Some (Inr (), h')
    \<and> becomes h ((view h)(ah_next_obj h \<mapsto> (ys, True), a \<mapsto> (splice_list (ah_nil h) xs p 0 ys, True))) h'"
proof -
  have "length ys \<le> length (splice_list (ah_nil h) xs p 0 ys)" by (simp add: splice_list_def)
  then have "int (length ys) \<le> ARY_MAX_SIZE" using sz by linarith
  from insert_start [OF ok v ys this p [symmetric]] obtain h1 b where 1: "rb_ary_insert a pos ys h = rb_ary_splice a b 0 (Some (ah_next_obj h)) h1"
    "becomes h ((view h)(ah_next_obj h \<mapsto> (ys, True))) h1" "(if sint b < 0 then sint b + int (length xs) else sint b) = int p" by blast
  note d = becomesD [OF 1(2)]
  have v1: "view h1 a = Some (xs, True)" "replaces h1 (Some (ah_next_obj h)) ys" "ah_nil h1 = ah_nil h"
    using d v new_other [OF ok v] by (auto simp: replaces_def)
  from splice_ok [OF d(1) v1(1,2) 1(3), of 0] sz v1(3) obtain h2 where 2: "rb_ary_splice a b 0 (Some (ah_next_obj h)) h1 = Some (Inr (), h2)"
    "becomes h1 ((view h1)(a \<mapsto> (splice_list (ah_nil h) xs p 0 ys, True))) h2" by auto
  then show ?thesis using becomes_trans [OF 1(2) 2(2)] d(2) 1(1) by simp
qed

lemma splice_bad:
  assumes "heap_ok h" "view h a = Some (xs, w)" "sint len < 0 \<or> (if sint beg < 0 then sint beg + int (length xs) else sint beg) < 0"
  shows "rb_ary_splice a beg len rpl h = Some (Inl IndexError, h)"
proof -
  obtain ob where ob: "ah_objs h a = Some ob" using view_obj [OF assms(2)] by blast
  define b where "b = (if sint beg < 0 then sint beg + int (length xs) else sint beg)"
  have "sint len < 0 \<or> \<not> sint len < 0 \<and> b < 0" using assms(3) b_def by auto
  then show ?thesis unfolding rb_ary_splice_def
    by (simp only: ob bind.bind_lunit Let_def read_whole(1) [OF assms(1,2) ob] b_def [symmetric]) (auto simp: rb_raise_def)
qed

lemma insert_bad:
  assumes ok: "heap_ok h" and v: "view h a = Some (xs, True)" and ys: "ys \<noteq> []" "int (length ys) \<le> ARY_MAX_SIZE"
    and p: "(if sint pos = - 1 then int (length xs) else if sint pos < 0 then sint pos + 1 + int (length xs) else sint pos) < 0"
  shows "\<exists>h'. rb_ary_insert a pos ys h = Some (Inl IndexError, h') \<and> becomes h ((view h)(ah_next_obj h \<mapsto> (ys, True))) h'"
proof -
  define k where "k = (if sint pos = - 1 then int (length xs) else if sint pos < 0 then sint pos + 1 + int (length xs) else sint pos)"
  from insert_start [OF ok v ys k_def] obtain h1 b where 1: "rb_ary_insert a pos ys h = rb_ary_splice a b 0 (Some (ah_next_obj h)) h1"
    "becomes h ((view h)(ah_next_obj h \<mapsto> (ys, True))) h1" "(if sint b < 0 then sint b + int (length xs) else sint b) = k" by blast
  have neg: "(if sint b < 0 then sint b + int (length xs) else sint b) < 0" unfolding 1(3) using p k_def by simp
  note d = becomesD [OF 1(2)]
  have "view h1 a = Some (xs, True)" using d v new_other [OF ok v] by auto
  from splice_bad [OF d(1) this] neg show ?thesis using 1(1,2) by auto
qed

lemma slice_bang_ok:
  assumes ok: "heap_ok h" and v: "view h a = Some (xs, True)" and l: "0 \<le> sint len"
    and p: "(if sint pos < 0 then sint pos + int (length xs) else sint pos) = int p" "p \<le> length xs" "int p + sint len < 2 ^ 31"
  shows "\<exists>h'. slice_bang a pos len h = Some (Inr (Some (ah_next_obj h)), h')
    \<and> becomes h ((view h)(ah_next_obj h \<mapsto> (take (nat (sint len)) (drop p xs), True), a \<mapsto> (take p xs @ drop (p + nat (sint len)) xs, True))) h'
    \<and> view h (ah_next_obj h) = None"
proof -
  define r where "r = ah_next_obj h"
  obtain ob where ob: "ah_objs h a = Some ob" using view_obj [OF v] by blast
  note ln = read_whole(1) [OF ok v ob]
  note vl = view_len [OF ok v]
  define m where "m = min (nat (sint len)) (length xs - p)"
  have "sint (word_of_int (int p + sint len) :: u32) = int p + sint len" using p(3) l by (intro sint_word_of_int_u32) auto
  then have "sint (word_of_int (int p) + len :: u32) = int p + sint len" by simp
  then have me: "(if int (length xs) < sint (word_of_int (int p) + len :: u32) then int (length xs) - int p else sint len) = int m"
    using l p(2) by (auto simp: m_def)
  have neg: "\<not> sint len < 0" "\<not> (int p < 0 \<or> int (length xs) < int p)" "\<not> ARY_MAX_SIZE < int m" using l p(2) vl by (auto simp: m_def)
  have t: "take (nat (sint len)) (drop p xs) = take m (drop p xs)" "take p xs @ drop (p + nat (sint len)) xs = take p xs @ drop (p + m) xs"
    using p(2) by (auto simp: m_def min_def)
  have ne: "a \<noteq> r" using new_other [OF ok v] by (simp add: r_def)
  note start = check_ok [OF ok v] run_ok ob bind.bind_lunit ln Let_def p(1) neg if_False me
  show ?thesis
  proof (cases "m = 0")
    case True
    from new_ok [OF ok, of 0, folded r_def] obtain h1 where 1: "ary_new 0 h = Some (Inr r, h1)"
      "becomes h ((view h)(r \<mapsto> ([], True))) h1" "view h r = None" by (auto simp: ARY_MAX_SIZE_def)
    have "slice_bang a pos len h = Some (Inr (Some r), h1)"
      unfolding slice_bang_def by (simp only: start True of_nat_0 simp_thms if_True 1(1)) (simp add: ret_def)
    moreover have "(view h)(r \<mapsto> ([], True), a \<mapsto> (xs, True)) = (view h)(r \<mapsto> ([], True))" using v ne by (auto simp: fun_eq_iff)
    ultimately show ?thesis using 1(2,3) True unfolding r_def [symmetric] t by simp
  next
    case False
    have pm: "p + m \<le> length xs" using p(2) by (simp add: m_def)
    have rd: "read_cells (place_add (RARRAY_PTR a ob) p) m h = Some (take m (drop p xs))" using read_whole(2) [OF ok v ob pm] .
    have lt: "length (take m (drop p xs)) = m" using pm by simp
    have "int (length (take m (drop p xs))) \<le> ARY_MAX_SIZE" unfolding lt using neg(3) by linarith
    from new4_ok [OF ok this, folded r_def] obtain h1 where 1: "rb_ary_new4 (take m (drop p xs)) h = Some (Inr r, h1)"
      "becomes h ((view h)(r \<mapsto> (take m (drop p xs), True))) h1" "view h r = None" by blast
    note d = becomesD [OF 1(2)]
    have v1: "view h1 a = Some (xs, True)" "replaces h1 None []" using d v ne by (simp_all add: replaces_def)
    have s: "sint (word_of_int (int p) :: u32) = int p" "sint (word_of_int (int m) :: u32) = int m"
      using p(2) vl neg(3) sint_len [of p] sint_len [of m] by simp_all
    have sp: "splice_list (ah_nil h1) xs p m [] = take p xs @ drop (p + m) xs" using False by (auto simp: splice_list_def m_def)
    have "int (length (take p xs @ drop (p + m) xs)) \<le> ARY_MAX_SIZE" using vl p(2) by auto
    then obtain h2 where 2: "rb_ary_splice a (word_of_int (int p)) (word_of_int (int m)) None h1 = Some (Inr (), h2)"
      "becomes h1 ((view h1)(a \<mapsto> (take p xs @ drop (p + m) xs, True))) h2"
      using splice_ok [OF d(1) v1, of "word_of_int (int p)" p "word_of_int (int m)"] unfolding s sp [symmetric] by (auto simp: s)
    have nz: "\<not> int m = 0" using False by simp
    have "slice_bang a pos len h = Some (Inr (Some r), h2)"
      unfolding slice_bang_def by (simp only: start nz nat_int rd 1(1) 2(1)) (simp add: ret_def)
    then show ?thesis using becomes_trans [OF 1(2) 2(2)] d(2) 1(3) unfolding r_def [symmetric] t by simp
  qed
qed

text \<open>A sum of position and length that does not fit a \<open>long\<close> is negative, so that the length stays as it is.\<close>

lemma slice_bang_wraps:
  assumes ok: "heap_ok h" and v: "view h a = Some (xs, True)" and p: "(if sint pos < 0 then sint pos + int (length xs) else sint pos) = int p" "p \<le> length xs" "2 ^ 31 \<le> int p + sint len"
  shows "slice_bang a pos len h = Some (Inl ArgError, h)"
proof -
  obtain ob where ob: "ah_objs h a = Some ob" using view_obj [OF v] by blast
  note ln = read_whole(1) [OF ok v ob]
  note vl = view_len [OF ok v]
  have b: "sint len < 2 ^ 31" using sint_less [of len] by simp
  have "(word_of_int (2 ^ 32) :: u32) = 0" by (simp add: word_of_int_eq_0_iff take_bit_eq_mod)
  moreover have "word_of_int (int p + sint len) = (word_of_int (int p) + len :: u32)" by simp
  ultimately have "word_of_int (int p + sint len - 2 ^ 32) = (word_of_int (int p) + len :: u32)"
    by (simp only: wi_hom_sub [symmetric] diff_zero)
  then have "sint (word_of_int (int p) + len :: u32) = sint (word_of_int (int p + sint len - 2 ^ 32) :: u32)" by (simp only:)
  moreover have "sint (word_of_int (int p + sint len - 2 ^ 32) :: u32) = int p + sint len - 2 ^ 32"
    using p(2,3) b vl by (intro sint_word_of_int_u32) (auto simp: ARY_MAX_SIZE_def)
  ultimately have "sint (word_of_int (int p) + len :: u32) < 0" using p(2) b vl by (simp add: ARY_MAX_SIZE_def)
  then have me: "(if int (length xs) < sint (word_of_int (int p) + len :: u32) then int (length xs) - int p else sint len) = sint len" by simp
  have neg: "\<not> sint len < 0" "\<not> int (length xs) < int p" "\<not> sint len = 0" "ARY_MAX_SIZE < sint len" "\<not> int p < 0"
    using p(2,3) vl by (auto simp: ARY_MAX_SIZE_def)
  show ?thesis
    unfolding slice_bang_def
    by (simp only: check_ok [OF ok v] run_ok ob bind.bind_lunit ln Let_def p(1) neg simp_thms if_False if_True me) (simp add: rb_raise_def)
qed

section \<open>Reading\<close>

lemma entry_ok:
  assumes ok: "heap_ok h" and v: "view h a = Some (xs, w)"
  shows "rb_ary_entry a i h = Some (Inr (let k = (if sint i < 0 then sint i + int (length xs) else sint i) in
      if 0 \<le> k \<and> k < int (length xs) then xs ! nat k else ah_nil h), h)"
proof -
  obtain ob where ob: "ah_objs h a = Some ob" using view_obj [OF v] by blast
  note len = read_whole(1) [OF ok v ob]
  define k where "k = (if sint i < 0 then sint i + int (length xs) else sint i)"
  have "rb_ary_elt a k h = Some (Inr (if 0 \<le> k \<and> k < int (length xs) then xs ! nat k else ah_nil h), h)"
  proof (cases "0 \<le> k \<and> k < int (length xs)")
    case True
    then have "nat k + 1 \<le> length xs" by auto
    from read_whole(2) [OF ok v ob this] True show ?thesis
      using ob len by (auto simp: rb_ary_elt_def ret_def hd_drop_conv_nth hd_take)
  qed (use ob len in \<open>auto simp: rb_ary_elt_def ret_def\<close>)
  then show ?thesis unfolding rb_ary_entry_def by (simp only: ob bind.bind_lunit len k_def [symmetric] Let_def)
qed

lemma slice_bang_none:
  assumes "heap_ok h" "view h a = Some (xs, True)"
    "sint len < 0 \<or> (if sint pos < 0 then sint pos + int (length xs) else sint pos) \<notin> {0..int (length xs)}"
  shows "slice_bang a pos len h = Some (Inr None, h)"
proof -
  obtain ob where ob: "ah_objs h a = Some ob" using view_obj [OF assms(2)] by blast
  define p where "p = (if sint pos < 0 then sint pos + int (length xs) else sint pos)"
  have "sint len < 0 \<or> \<not> sint len < 0 \<and> (p < 0 \<or> int (length xs) < p)" using assms(3) p_def by auto
  then show ?thesis unfolding slice_bang_def
    by (simp only: check_ok [OF assms(1,2)] run_ok ob bind.bind_lunit Let_def read_whole(1) [OF assms(1,2) ob] p_def [symmetric]) (auto simp: ret_def)
qed

end
