(* ===== verification/ArraySpec.thy ===== *)
theory ArraySpec
  imports ArrayCopy
begin

text \<open>
  The methods of arrays as one machine: a call is a command, \<open>ary_exec\<close> runs it on the heap with the code, and \<open>ary_spec\<close> says what it does to a
  map from addresses to lists of elements, where nothing is shared.
\<close>

section \<open>Commands\<close>

datatype 'v ary_cmd =
    CNew "'v list" | CStore nat u32 'v | CPush nat "'v list" | CPop nat | CPopN nat u32 | CShift nat | CShiftN nat u32
  | CUnshift nat "'v list" | CEntry nat u32 | CSlice nat u32 u32 | CSliceRange nat u32 u32 bool | CSplice nat u32 u32 nat
  | CSpliceRange nat u32 u32 bool nat | CInsert nat u32 "'v list" | CConcat nat nat | CDeleteAt nat u32 | CCut nat u32 u32 | CClear nat
  | CReplace nat nat | CDup nat | CPlus nat nat | CFill nat u32 'v

datatype 'v ary_reply = Done | Item 'v | NilReply | Made nat

definition reply :: "('a \<Rightarrow> 'v ary_reply) \<Rightarrow> ('a, 'v) outcome \<Rightarrow> ('v ary_reply, 'v) outcome" where
  "reply f m = run m (\<lambda>x h. ret (f x) h)"

definition made :: "nat option \<Rightarrow> 'v ary_reply" where
  "made r = (case r of None \<Rightarrow> NilReply | Some a \<Rightarrow> Made a)"

fun ary_exec :: "'v ary_cmd \<Rightarrow> 'v ary_heap \<Rightarrow> ('v ary_reply, 'v) outcome" where
  "ary_exec (CNew vs) h = reply Made (rb_ary_new4 vs h)"
| "ary_exec (CStore a i v) h = reply (\<lambda>_. Done) (rb_ary_store a i v h)"
| "ary_exec (CPush a vs) h = reply (\<lambda>_. Done) (rb_ary_push_m a vs h)"
| "ary_exec (CPop a) h = reply Item (rb_ary_pop a h)"
| "ary_exec (CPopN a n) h = reply Made (rb_ary_pop_m a n h)"
| "ary_exec (CShift a) h = reply Item (rb_ary_shift a h)"
| "ary_exec (CShiftN a n) h = reply Made (rb_ary_shift_m a n h)"
| "ary_exec (CUnshift a vs) h = reply (\<lambda>_. Done) (rb_ary_unshift_m a vs h)"
| "ary_exec (CEntry a i) h = reply Item (rb_ary_entry a i h)"
| "ary_exec (CSlice a b l) h = reply made (aref_start_length a b l h)"
| "ary_exec (CSliceRange a b e x) h = reply made (aref_range a b e x h)"
| "ary_exec (CSplice a b l y) h = reply (\<lambda>_. Done) (rb_ary_splice a b l (Some y) h)"
| "ary_exec (CSpliceRange a b e x y) h = reply (\<lambda>_. Done) (aset_range a b e x y h)"
| "ary_exec (CInsert a i vs) h = reply (\<lambda>_. Done) (rb_ary_insert a i vs h)"
| "ary_exec (CConcat a y) h = reply (\<lambda>_. Done) (rb_ary_concat a y h)"
| "ary_exec (CDeleteAt a i) h = reply Item (rb_ary_delete_at a i h)"
| "ary_exec (CCut a b l) h = reply made (slice_bang a b l h)"
| "ary_exec (CClear a) h = reply (\<lambda>_. Done) (rb_ary_clear a h)"
| "ary_exec (CReplace a y) h = reply (\<lambda>_. Done) (rb_ary_replace a y h)"
| "ary_exec (CDup a) h = reply Made (rb_ary_dup a h)"
| "ary_exec (CPlus a y) h = reply Made (rb_ary_plus a y h)"
| "ary_exec (CFill a n v) h = reply (\<lambda>_. Done) (rb_ary_initialize a n v h)"

section \<open>What they do to lists\<close>

type_synonym 'v arrays = "nat \<Rightarrow> ('v list \<times> bool) option"

definition elems :: "'v arrays \<Rightarrow> nat \<Rightarrow> 'v list" where
  "elems V a = (case V a of Some (xs, _) \<Rightarrow> xs | None \<Rightarrow> [])"

definition put :: "'v arrays \<Rightarrow> nat \<Rightarrow> 'v list \<Rightarrow> 'v arrays" where
  "put V a xs = V(a \<mapsto> (xs, True))"

definition index_of :: "'v list \<Rightarrow> u32 \<Rightarrow> int" where
  "index_of xs i = (if sint i < 0 then sint i + int (length xs) else sint i)"

definition insert_index :: "'v list \<Rightarrow> u32 \<Rightarrow> int" where
  "insert_index xs i = (if sint i = - 1 then int (length xs) else if sint i < 0 then sint i + 1 + int (length xs) else sint i)"

type_synonym 'v effect = "(rb_error + 'v ary_reply) \<times> 'v arrays"

definition slice_spec :: "nat \<Rightarrow> nat \<Rightarrow> int \<Rightarrow> int \<Rightarrow> 'v arrays \<Rightarrow> 'v effect" where
  "slice_spec r a b l V =
     (if b < 0 \<or> int (length (elems V a)) < b \<or> l < 0 then (Inr NilReply, V)
      else (Inr (Made r), put V r (take (nat l) (drop (nat b) (elems V a)))))"

definition splice_spec :: "'v \<Rightarrow> nat \<Rightarrow> int \<Rightarrow> int \<Rightarrow> 'v list \<Rightarrow> 'v arrays \<Rightarrow> 'v effect" where
  "splice_spec null a b l ys V =
     (if l < 0 \<or> b < 0 then (Inl IndexError, V) else (Inr Done, put V a (splice_list null (elems V a) (nat b) (nat l) ys)))"

text \<open>\<open>r\<close> is the address of an array that the command makes.\<close>

fun ary_spec :: "'v \<Rightarrow> nat \<Rightarrow> 'v ary_cmd \<Rightarrow> 'v arrays \<Rightarrow> 'v effect" where
  "ary_spec null r (CNew vs) V = (Inr (Made r), put V r vs)"
| "ary_spec null r (CStore a i v) V =
     (if index_of (elems V a) i < 0 \<or> ARY_MAX_SIZE \<le> sint i then (Inl IndexError, V)
      else (Inr Done, put V a (store_list null (elems V a) (nat (index_of (elems V a) i)) v)))"
| "ary_spec null r (CPush a vs) V = (Inr Done, put V a (elems V a @ vs))"
| "ary_spec null r (CPop a) V = (Inr (Item (if elems V a = [] then null else last (elems V a))), put V a (butlast (elems V a)))"
| "ary_spec null r (CPopN a n) V =
     (if sint n < 0 then (Inl ArgError, V)
      else let k = length (elems V a) - nat (sint n) in (Inr (Made r), put (put V r (drop k (elems V a))) a (take k (elems V a))))"
| "ary_spec null r (CShift a) V = (Inr (Item (if elems V a = [] then null else hd (elems V a))), put V a (tl (elems V a)))"
| "ary_spec null r (CShiftN a n) V =
     (if sint n < 0 then (Inl ArgError, V)
      else (Inr (Made r), put (put V r (take (nat (sint n)) (elems V a))) a (drop (nat (sint n)) (elems V a))))"
| "ary_spec null r (CUnshift a vs) V = (Inr Done, put V a (vs @ elems V a))"
| "ary_spec null r (CEntry a i) V =
     (let k = index_of (elems V a) i in (Inr (Item (if 0 \<le> k \<and> k < int (length (elems V a)) then elems V a ! nat k else null)), V))"
| "ary_spec null r (CSlice a b l) V = slice_spec r a (index_of (elems V a) b) (sint l) V"
| "ary_spec null r (CSliceRange a b e x) V =
     (case rb_range_beg_len b e x (of_nat (length (elems V a))) 0 of
        Inl err \<Rightarrow> (Inl err, V)
      | Inr None \<Rightarrow> (Inr NilReply, V)
      | Inr (Some (b, l)) \<Rightarrow> slice_spec r a (sint b) (sint l) V)"
| "ary_spec null r (CSplice a b l y) V = splice_spec null a (index_of (elems V a) b) (sint l) (elems V y) V"
| "ary_spec null r (CSpliceRange a b e x y) V =
     (case rb_range_beg_len b e x (of_nat (length (elems V a))) 1 of
        Inl err \<Rightarrow> (Inl err, V)
      | Inr None \<Rightarrow> (Inl RangeError, V)
      | Inr (Some (b, l)) \<Rightarrow> splice_spec null a (index_of (elems V a) b) (sint l) (elems V y) V)"
| "ary_spec null r (CInsert a i vs) V =
     (if vs = [] then (Inr Done, V) else splice_spec null a (insert_index (elems V a) i) 0 vs (put V r vs))"
| "ary_spec null r (CConcat a y) V = (Inr Done, put V a (elems V a @ elems V y))"
| "ary_spec null r (CDeleteAt a i) V =
     (let k = index_of (elems V a) i in
      if 0 \<le> k \<and> k < int (length (elems V a))
      then (Inr (Item (elems V a ! nat k)), put V a (take (nat k) (elems V a) @ drop (nat k + 1) (elems V a)))
      else (Inr (Item null), V))"
| "ary_spec null r (CCut a b l) V =
     (let k = index_of (elems V a) b in
      if sint l < 0 \<or> k < 0 \<or> int (length (elems V a)) < k then (Inr NilReply, V)
      else if 2 ^ 31 \<le> k + sint l then (Inl ArgError, V)
      else (Inr (Made r), put (put V r (take (nat (sint l)) (drop (nat k) (elems V a)))) a
              (take (nat k) (elems V a) @ drop (nat k + nat (sint l)) (elems V a))))"
| "ary_spec null r (CClear a) V = (Inr Done, put V a [])"
| "ary_spec null r (CReplace a y) V = (Inr Done, put V a (elems V y))"
| "ary_spec null r (CDup a) V = (Inr (Made r), put V r (elems V a))"
| "ary_spec null r (CPlus a y) V = (Inr (Made r), put V r (elems V a @ elems V y))"
| "ary_spec null r (CFill a n v) V =
     (if sint n < 0 \<or> ARY_MAX_SIZE < sint n then (Inl ArgError, V) else (Inr Done, put V a (replicate (nat (sint n)) v)))"

section \<open>What they need\<close>

definition present :: "'v arrays \<Rightarrow> nat \<Rightarrow> bool" where
  "present V a \<longleftrightarrow> V a \<noteq> None"

definition may_write :: "'v arrays \<Rightarrow> nat \<Rightarrow> bool" where
  "may_write V a \<longleftrightarrow> (case V a of Some (_, w) \<Rightarrow> w | None \<Rightarrow> False)"

definition splice_fits :: "'v arrays \<Rightarrow> nat \<Rightarrow> int \<Rightarrow> int \<Rightarrow> 'v list \<Rightarrow> bool" where
  "splice_fits V a b l ys \<longleftrightarrow>
     may_write V a \<and> int (length ys) \<le> ARY_MAX_SIZE \<and> (0 \<le> l \<and> 0 \<le> b \<longrightarrow> int (max (length (elems V a)) (nat b)) + int (length ys) \<le> ARY_MAX_SIZE)"

text \<open>The arrays exist, the one that changes may be written, and the sizes stay below the limit of an array.\<close>

fun fits :: "'v ary_cmd \<Rightarrow> 'v arrays \<Rightarrow> bool" where
  "fits (CNew vs) V \<longleftrightarrow> int (length vs) \<le> ARY_MAX_SIZE"
| "fits (CStore a i v) V \<longleftrightarrow> may_write V a \<and> index_of (elems V a) i \<noteq> ARY_MAX_SIZE - 1"
| "fits (CPush a vs) V \<longleftrightarrow> may_write V a \<and> int (length (elems V a) + length vs) < ARY_MAX_SIZE"
| "fits (CPop a) V \<longleftrightarrow> may_write V a"
| "fits (CPopN a n) V \<longleftrightarrow> may_write V a"
| "fits (CShift a) V \<longleftrightarrow> may_write V a"
| "fits (CShiftN a n) V \<longleftrightarrow> may_write V a"
| "fits (CUnshift a vs) V \<longleftrightarrow> may_write V a \<and> int (length (elems V a) + length vs + ARY_DEFAULT_SIZE) \<le> ARY_MAX_SIZE"
| "fits (CEntry a i) V \<longleftrightarrow> present V a"
| "fits (CSlice a b l) V \<longleftrightarrow> present V a"
| "fits (CSliceRange a b e x) V \<longleftrightarrow> present V a"
| "fits (CSplice a b l y) V \<longleftrightarrow> present V y \<and> splice_fits V a (index_of (elems V a) b) (sint l) (elems V y)"
| "fits (CSpliceRange a b e x y) V \<longleftrightarrow> present V y \<and> may_write V a \<and>
     (case rb_range_beg_len b e x (of_nat (length (elems V a))) 1 of
        Inr (Some (b, l)) \<Rightarrow> splice_fits V a (index_of (elems V a) b) (sint l) (elems V y)
      | _ \<Rightarrow> True)"
| "fits (CInsert a i vs) V \<longleftrightarrow> splice_fits V a (insert_index (elems V a) i) 0 vs"
| "fits (CConcat a y) V \<longleftrightarrow> may_write V a \<and> present V y \<and> int (length (elems V a) + length (elems V y)) \<le> ARY_MAX_SIZE"
| "fits (CDeleteAt a i) V \<longleftrightarrow> may_write V a"
| "fits (CCut a b l) V \<longleftrightarrow> may_write V a"
| "fits (CClear a) V \<longleftrightarrow> may_write V a"
| "fits (CReplace a y) V \<longleftrightarrow> may_write V a \<and> present V y"
| "fits (CDup a) V \<longleftrightarrow> present V a"
| "fits (CPlus a y) V \<longleftrightarrow> present V a \<and> present V y \<and> int (length (elems V a) + length (elems V y)) \<le> ARY_MAX_SIZE"
| "fits (CFill a n v) V \<longleftrightarrow> may_write V a
     \<and> (0 \<le> sint n \<and> sint n \<le> ARY_MAX_SIZE \<longrightarrow> int (length (elems V a)) \<le> max (sint n) (int RARRAY_EMBED_LEN_MAX))"

section \<open>The code does what the lists say\<close>

definition refines :: "'v ary_cmd \<Rightarrow> 'v ary_heap \<Rightarrow> bool" where
  "refines c h \<longleftrightarrow>
     (let s = ary_spec (ah_nil h) (ah_next_obj h) c (view h) in \<exists>h'. ary_exec c h = Some (fst s, h') \<and> becomes h (snd s) h')"

lemma reply_simps [simp]: "reply f (Some (Inr x, h)) = Some (Inr (f x), h)" "reply f (Some (Inl e, h)) = Some (Inl e, h)"
  by (simp_all add: reply_def ret_def)

lemma made_simps [simp]: "made None = NilReply" "made (Some a) = Made a"
  by (simp_all add: made_def)

lemma may_writeD: "may_write (view h) a \<Longrightarrow> view h a = Some (elems (view h) a, True)"
  by (auto simp: may_write_def elems_def split: option.splits)

lemma presentD: "present (view h) a \<Longrightarrow> \<exists>w. view h a = Some (elems (view h) a, w)"
  by (auto simp: present_def elems_def)

lemma becomes_refl: "heap_ok h \<Longrightarrow> becomes h (view h) h"
  by (simp add: becomes_def)

lemma refines_store:
  assumes ok: "heap_ok h" and f: "fits (CStore a i v) (view h)"
  shows "refines (CStore a i v) h"
proof -
  have v: "view h a = Some (elems (view h) a, True)" using f by (intro may_writeD) simp
  obtain ob where ob: "ah_objs h a = Some ob" using view_obj [OF v] by blast
  note len = read_whole(1) [OF ok v ob]
  define k where "k = index_of (elems (view h) a) i"
  have kd: "k = (if sint i < 0 then sint i + int (length (elems (view h) a)) else sint i)" by (simp add: k_def index_of_def)
  show ?thesis
  proof (cases "k < 0 \<or> ARY_MAX_SIZE \<le> sint i")
    case True
    then have "rb_ary_store a i v h = Some (Inl IndexError, h)"
      using store_bad [OF ob, of k i v] kd len by (auto simp: ARY_MAX_SIZE_def)
    then show ?thesis using True becomes_refl [OF ok] by (simp add: refines_def k_def)
  next
    case False
    have "(if sint i < 0 then sint i + int (length (elems (view h) a)) else sint i) = int (nat k)" using False kd by simp
    moreover have "nat k < length (elems (view h) a) \<or> int (nat k) < ARY_MAX_SIZE - 1"
      using False kd f by (cases "sint i < 0") (auto simp: k_def)
    ultimately show ?thesis using store_ok [OF ok v, of i "nat k" v] False by (auto simp: refines_def k_def put_def)
  qed
qed

lemma refines_ends:
  assumes ok: "heap_ok h"
  shows "fits (CPush a vs) (view h) \<Longrightarrow> refines (CPush a vs) h" and "fits (CPop a) (view h) \<Longrightarrow> refines (CPop a) h"
    and "fits (CShift a) (view h) \<Longrightarrow> refines (CShift a) h" and "fits (CUnshift a vs) (view h) \<Longrightarrow> refines (CUnshift a vs) h"
proof -
  show "refines (CPush a vs) h" if "fits (CPush a vs) (view h)"
    using push_each_ok [OF ok may_writeD, of a vs] check_ok [OF ok may_writeD, of a] that
    by (auto simp: refines_def put_def rb_ary_push_m_def)
  show "refines (CPop a) h" if "fits (CPop a) (view h)"
    using pop_ok [OF ok may_writeD, of a] that by (auto simp: refines_def put_def)
  show "refines (CShift a) h" if "fits (CShift a) (view h)"
    using shift_ok [OF ok may_writeD, of a] that by (auto simp: refines_def put_def)
  show "refines (CUnshift a vs) h" if "fits (CUnshift a vs) (view h)"
    using unshift_ok [OF ok may_writeD, of a vs] that by (auto simp: refines_def put_def)
qed

lemma take_part_bad:
  assumes "ah_objs h a = Some ob" "sint nv < 0"
  shows "ary_take_first_or_last nv a at_end h = Some (Inl ArgError, h)"
  using assms by (simp add: ary_take_first_or_last_def rb_raise_def)

lemma refines_parts:
  assumes ok: "heap_ok h"
  shows "fits (CPopN a n) (view h) \<Longrightarrow> refines (CPopN a n) h" and "fits (CShiftN a n) (view h) \<Longrightarrow> refines (CShiftN a n) h"
proof -
  have v: "view h a = Some (elems (view h) a, True)" if "may_write (view h) a" using may_writeD [OF that] .
  have bad: "rb_ary_pop_m a n h = Some (Inl ArgError, h)" "rb_ary_shift_m a n h = Some (Inl ArgError, h)" if "may_write (view h) a" "sint n < 0"
    using view_obj [OF v [OF that(1)]] take_part_bad [of h a _ n] check_ok [OF ok v [OF that(1)]] that(2)
    by (auto simp: rb_ary_pop_m_def rb_ary_shift_m_def)
  show "refines (CPopN a n) h" if "fits (CPopN a n) (view h)"
    using pop_m_ok [OF ok v, of n] bad(1) becomes_refl [OF ok] that by (cases "sint n < 0") (auto simp: refines_def put_def Let_def)
  show "refines (CShiftN a n) h" if "fits (CShiftN a n) (view h)"
    using shift_m_ok [OF ok v, of n] bad(2) becomes_refl [OF ok] that by (cases "sint n < 0") (auto simp: refines_def put_def Let_def)
qed

lemma slice_word:
  assumes ok: "heap_ok h" and v: "view h a = Some (xs, w)"
  shows "aref_start_length a b l h = rb_ary_subseq a (if sint b < 0 then b + of_nat (length xs) else b) l h"
    and "sint (if sint b < 0 then b + of_nat (length xs) else b) = index_of xs b"
proof -
  obtain ob where ob: "ah_objs h a = Some ob" using view_obj [OF v] by blast
  show "aref_start_length a b l h = rb_ary_subseq a (if sint b < 0 then b + of_nat (length xs) else b) l h"
    using ob read_whole(1) [OF ok v ob] by (simp add: aref_start_length_def)
  show "sint (if sint b < 0 then b + of_nat (length xs) else b) = index_of xs b"
    using index_back [of b "length xs"] view_len [OF ok v] by (simp add: index_of_def)
qed

text \<open>Parts of an array, for any position and length.\<close>

lemma subseq_spec:
  assumes ok: "heap_ok h" and p: "present (view h) a"
  shows "\<exists>h'. reply made (rb_ary_subseq a b l h) = Some (fst (slice_spec (ah_next_obj h) a (sint b) (sint l) (view h)), h')
    \<and> becomes h (snd (slice_spec (ah_next_obj h) a (sint b) (sint l) (view h))) h'"
proof -
  obtain w where v: "view h a = Some (elems (view h) a, w)" using presentD [OF p] by blast
  show ?thesis
  proof (cases "sint b < 0 \<or> int (length (elems (view h) a)) < sint b \<or> sint l < 0")
    case True
    then show ?thesis using subseq_none [OF ok v, of b l] becomes_refl [OF ok] by (auto simp: slice_spec_def)
  next
    case False
    then have "sint b = int (nat (sint b))" "nat (sint b) \<le> length (elems (view h) a)" "0 \<le> sint l" by auto
    from subseq_ok [OF ok v this] show ?thesis using False by (auto simp: slice_spec_def put_def)
  qed
qed

lemma refines_reading:
  assumes ok: "heap_ok h"
  shows "fits (CEntry a i) (view h) \<Longrightarrow> refines (CEntry a i) h" and "fits (CSlice a b l) (view h) \<Longrightarrow> refines (CSlice a b l) h"
    and "fits (CSliceRange a b e x) (view h) \<Longrightarrow> refines (CSliceRange a b e x) h"
proof -
  show "refines (CEntry a i) h" if "fits (CEntry a i) (view h)"
  proof -
    have p: "present (view h) a" using that by simp
    obtain w where v: "view h a = Some (elems (view h) a, w)" using presentD [OF p] by blast
    show ?thesis using entry_ok [OF ok v, of i] becomes_refl [OF ok] by (simp add: refines_def Let_def index_of_def)
  qed
  show "refines (CSlice a b l) h" if "fits (CSlice a b l) (view h)"
  proof -
    have p: "present (view h) a" using that by simp
    obtain w where v: "view h a = Some (elems (view h) a, w)" using presentD [OF p] by blast
    show ?thesis
      using subseq_spec [OF ok p, of "if sint b < 0 then b + of_nat (length (elems (view h) a)) else b" l]
      unfolding slice_word(2) [OF ok v] refines_def Let_def ary_exec.simps ary_spec.simps slice_word(1) [OF ok v] .
  qed
  show "refines (CSliceRange a b e x) h" if "fits (CSliceRange a b e x) (view h)"
  proof -
    have p: "present (view h) a" using that by simp
    obtain w where v: "view h a = Some (elems (view h) a, w)" using presentD [OF p] by blast
    obtain ob where ob: "ah_objs h a = Some ob" using view_obj [OF v] by blast
    show ?thesis
      using subseq_spec [OF ok p] becomes_refl [OF ok] ob read_whole(1) [OF ok v ob]
      by (auto simp: refines_def aref_range_def rb_raise_def ret_def split: sum.split option.split)
  qed
qed

lemma splice_length: "length (splice_list null xs b l ys) \<le> max (length xs) b + length ys"
  by (auto simp: splice_list_def)

lemma splice_spec_ok:
  assumes ok: "heap_ok h" and y: "present (view h) y" and f: "splice_fits (view h) a (index_of (elems (view h) a) b) (sint l) (elems (view h) y)"
  shows "\<exists>h'. reply (\<lambda>_. Done) (rb_ary_splice a b l (Some y) h)
      = Some (fst (splice_spec (ah_nil h) a (index_of (elems (view h) a) b) (sint l) (elems (view h) y) (view h)), h')
    \<and> becomes h (snd (splice_spec (ah_nil h) a (index_of (elems (view h) a) b) (sint l) (elems (view h) y) (view h))) h'"
proof -
  have v: "view h a = Some (elems (view h) a, True)" using f by (intro may_writeD) (simp add: splice_fits_def)
  have r: "replaces h (Some y) (elems (view h) y)" using presentD [OF y] by (auto simp: replaces_def)
  define k where "k = index_of (elems (view h) a) b"
  show ?thesis
  proof (cases "sint l < 0 \<or> k < 0")
    case True
    then have "rb_ary_splice a b l (Some y) h = Some (Inl IndexError, h)"
      using splice_bad [OF ok v, of l b "Some y"] by (auto simp: k_def index_of_def)
    then show ?thesis using True becomes_refl [OF ok] by (simp add: splice_spec_def k_def)
  next
    case False
    then have kb: "(if sint b < 0 then sint b + int (length (elems (view h) a)) else sint b) = int (nat k)" by (simp add: k_def index_of_def)
    have "int (max (length (elems (view h) a)) (nat k) + length (elems (view h) y)) \<le> ARY_MAX_SIZE"
      using f False by (simp add: splice_fits_def k_def)
    then have "int (length (splice_list (ah_nil h) (elems (view h) a) (nat k) (nat (sint l)) (elems (view h) y))) \<le> ARY_MAX_SIZE"
      using splice_length [of "ah_nil h" "elems (view h) a" "nat k" "nat (sint l)" "elems (view h) y"] by linarith
    from splice_ok [OF ok v r kb _ this] False show ?thesis by (auto simp: splice_spec_def k_def put_def)
  qed
qed

lemma range_with_error: "rb_range_beg_len b e x n 1 \<noteq> Inr None"
  by (simp add: rb_range_beg_len_def Let_def)

lemma refines_splice:
  assumes ok: "heap_ok h"
  shows "fits (CSplice a b l y) (view h) \<Longrightarrow> refines (CSplice a b l y) h"
    and "fits (CSpliceRange a b e x y) (view h) \<Longrightarrow> refines (CSpliceRange a b e x y) h"
proof -
  show "refines (CSplice a b l y) h" if "fits (CSplice a b l y) (view h)"
    using splice_spec_ok [OF ok, of y a b l] that by (simp add: refines_def Let_def)
  show "refines (CSpliceRange a b e x y) h" if f: "fits (CSpliceRange a b e x y) (view h)"
  proof -
    have v: "view h a = Some (elems (view h) a, True)" using f by (intro may_writeD) simp
    obtain ob where ob: "ah_objs h a = Some ob" using view_obj [OF v] by blast
    note len = read_whole(1) [OF ok v ob]
    have y: "present (view h) y" using f by simp
    show ?thesis
    proof (cases "rb_range_beg_len b e x (of_nat (length (elems (view h) a))) 1")
      case (Inl err)
      then show ?thesis using becomes_refl [OF ok] ob len by (simp add: refines_def aset_range_def rb_raise_def)
    next
      case (Inr p)
      then obtain b' l' where "p = Some (b', l')" using range_with_error by (cases p) (fastforce, auto)
      then show ?thesis using Inr splice_spec_ok [OF ok y, of a b' l'] f ob len by (simp add: refines_def aset_range_def Let_def)
    qed
  qed
qed

lemma refines_insert:
  assumes ok: "heap_ok h" and f: "fits (CInsert a i vs) (view h)"
  shows "refines (CInsert a i vs) h"
proof -
  have v: "view h a = Some (elems (view h) a, True)" using f by (intro may_writeD) (simp add: splice_fits_def)
  let ?r = "ah_next_obj h"
  define k where "k = insert_index (elems (view h) a) i"
  have same: "elems (put (view h) ?r vs) a = elems (view h) a" using new_other [OF ok v] by (simp add: elems_def put_def)
  have sz: "int (length vs) \<le> ARY_MAX_SIZE" using f by (simp add: splice_fits_def)
  show ?thesis
  proof (cases "vs = []")
    case True
    then show ?thesis using becomes_refl [OF ok] by (simp add: refines_def rb_ary_insert_def ret_def reply_def)
  next
    case False
    show ?thesis
    proof (cases "k < 0")
      case True
      then show ?thesis
        using insert_bad [OF ok v False sz, of i] False same
        by (auto simp: refines_def splice_spec_def k_def insert_index_def put_def)
    next
      case k: False
      then have ki: "(if sint i = - 1 then int (length (elems (view h) a)) else if sint i < 0 then sint i + 1 + int (length (elems (view h) a)) else sint i)
          = int (nat k)" by (simp add: k_def insert_index_def)
      have "int (max (length (elems (view h) a)) (nat k) + length vs) \<le> ARY_MAX_SIZE" using f k by (simp add: splice_fits_def k_def)
      then have "int (length (splice_list (ah_nil h) (elems (view h) a) (nat k) 0 vs)) \<le> ARY_MAX_SIZE"
        using splice_length [of "ah_nil h" "elems (view h) a" "nat k" 0 vs] by linarith
      from insert_ok [OF ok v False ki this] show ?thesis using False k same
        by (auto simp: refines_def splice_spec_def k_def [symmetric] put_def)
    qed
  qed
qed

lemma refines_deleting:
  assumes ok: "heap_ok h"
  shows "fits (CDeleteAt a i) (view h) \<Longrightarrow> refines (CDeleteAt a i) h" and "fits (CCut a b l) (view h) \<Longrightarrow> refines (CCut a b l) h"
    and "fits (CClear a) (view h) \<Longrightarrow> refines (CClear a) h"
proof -
  show "refines (CDeleteAt a i) h" if "fits (CDeleteAt a i) (view h)"
  proof -
    have v: "view h a = Some (elems (view h) a, True)" using that by (intro may_writeD) simp
    define k where "k = index_of (elems (view h) a) i"
    have kd: "(if sint i < 0 then sint i + int (length (elems (view h) a)) else sint i) = k" by (simp add: k_def index_of_def)
    show ?thesis
    proof (cases "0 \<le> k \<and> k < int (length (elems (view h) a))")
      case True
      then have p: "(if sint i < 0 then sint i + int (length (elems (view h) a)) else sint i) = int (nat k)" "nat k < length (elems (view h) a)"
        by (simp_all add: kd nat_less_iff)
      from delete_at_ok [OF ok v p] True show ?thesis by (auto simp: refines_def Let_def k_def [symmetric] put_def)
    next
      case False
      then show ?thesis using delete_at_nil [OF ok v, of i] becomes_refl [OF ok] by (auto simp: refines_def Let_def k_def [symmetric] kd)
    qed
  qed
  show "refines (CCut a b l) h" if "fits (CCut a b l) (view h)"
  proof -
    have v: "view h a = Some (elems (view h) a, True)" using that by (intro may_writeD) simp
    define k where "k = index_of (elems (view h) a) b"
    have kd: "(if sint b < 0 then sint b + int (length (elems (view h) a)) else sint b) = k" by (simp add: k_def index_of_def)
    consider (none) "sint l < 0 \<or> k < 0 \<or> int (length (elems (view h) a)) < k"
      | (inside) "0 \<le> sint l" "0 \<le> k" "k \<le> int (length (elems (view h) a))" by linarith
    then show ?thesis
    proof cases
      case none
      then have "slice_bang a b l h = Some (Inr None, h)" using slice_bang_none [OF ok v, of l b] by (auto simp: kd)
      then show ?thesis using none becomes_refl [OF ok] by (simp add: refines_def Let_def k_def [symmetric])
    next
      case inside
      then have p: "(if sint b < 0 then sint b + int (length (elems (view h) a)) else sint b) = int (nat k)" "nat k \<le> length (elems (view h) a)"
        by (simp_all add: kd)
      show ?thesis
        using slice_bang_ok [OF ok v inside(1) p] slice_bang_wraps [OF ok v p, of l] inside becomes_refl [OF ok]
        by (cases "2 ^ 31 \<le> k + sint l") (auto simp: refines_def Let_def k_def [symmetric] put_def)
    qed
  qed
  show "refines (CClear a) h" if "fits (CClear a) (view h)"
    using clear_ok [OF ok may_writeD, of a] that by (auto simp: refines_def put_def)
qed

lemma initialize_bad:
  assumes ok: "heap_ok h" and v: "view h a = Some (xs, True)" and n: "sint n < 0 \<or> ARY_MAX_SIZE < sint n"
  shows "\<exists>h'. rb_ary_initialize a n val h = Some (Inl ArgError, h') \<and> becomes h (view h) h'"
proof -
  obtain h1 ob vs where 1: "rb_ary_modify a h = Some (Inr (), h1)" "cells h h1 a ob vs" "RARRAY_LEN ob = length xs" "take (length xs) vs = xs"
    using modify_cells [OF ok v] by blast
  have "rb_ary_initialize a n val h = Some (Inl ArgError, h1)" using 1(1) n by (auto simp: rb_ary_initialize_def rb_raise_def)
  moreover have "(view h)(a \<mapsto> (xs, True)) = view h" using v by (simp add: fun_upd_idem)
  ultimately show ?thesis using cells_done [OF 1(2)] 1(3,4) by auto
qed

lemma refines_copies:
  assumes ok: "heap_ok h"
  shows "fits (CNew vs) (view h) \<Longrightarrow> refines (CNew vs) h" and "fits (CConcat a y) (view h) \<Longrightarrow> refines (CConcat a y) h"
    and "fits (CReplace a y) (view h) \<Longrightarrow> refines (CReplace a y) h" and "fits (CDup a) (view h) \<Longrightarrow> refines (CDup a) h"
    and "fits (CPlus a y) (view h) \<Longrightarrow> refines (CPlus a y) h" and "fits (CFill a n v) (view h) \<Longrightarrow> refines (CFill a n v) h"
proof -
  show "refines (CNew vs) h" if "fits (CNew vs) (view h)"
    using new4_ok [OF ok, of vs] that by (auto simp: refines_def put_def)
  show "refines (CConcat a y) h" if f: "fits (CConcat a y) (view h)"
  proof -
    obtain w where "view h y = Some (elems (view h) y, w)" using f presentD [of h y] by auto
    then show ?thesis using concat_ok [OF ok may_writeD, of a y] f by (auto simp: refines_def put_def)
  qed
  show "refines (CReplace a y) h" if f: "fits (CReplace a y) (view h)"
  proof -
    obtain w where "view h y = Some (elems (view h) y, w)" using f presentD [of h y] by auto
    then show ?thesis using replace_ok [OF ok may_writeD, of a y] f by (auto simp: refines_def put_def)
  qed
  show "refines (CDup a) h" if f: "fits (CDup a) (view h)"
  proof -
    obtain w where "view h a = Some (elems (view h) a, w)" using f presentD [of h a] by auto
    then show ?thesis using dup_ok [OF ok, of a] by (auto simp: refines_def put_def)
  qed
  show "refines (CPlus a y) h" if f: "fits (CPlus a y) (view h)"
  proof -
    obtain w w' where "view h a = Some (elems (view h) a, w)" "view h y = Some (elems (view h) y, w')"
      using f presentD [of h a] presentD [of h y] by auto
    from plus_ok [OF ok this] f show ?thesis by (auto simp: refines_def put_def)
  qed
  show "refines (CFill a n v) h" if f: "fits (CFill a n v) (view h)"
  proof -
    have va: "view h a = Some (elems (view h) a, True)" using f by (intro may_writeD) simp
    show ?thesis
    proof (cases "sint n < 0 \<or> ARY_MAX_SIZE < sint n")
      case True
      then show ?thesis using initialize_bad [OF ok va True, of v] by (auto simp: refines_def)
    next
      case False
      then have "sint n = int (nat (sint n))" "int (nat (sint n)) \<le> ARY_MAX_SIZE" "length (elems (view h) a) \<le> max (nat (sint n)) RARRAY_EMBED_LEN_MAX"
        using f by (auto simp: max_def split: if_splits)
      from initialize_ok [OF ok va this, of v] show ?thesis using False by (auto simp: refines_def put_def)
    qed
  qed
qed

lemma all_refine: "heap_ok h \<Longrightarrow> fits c (view h) \<Longrightarrow> refines c h"
  by (cases c) (simp_all only: refines_store refines_ends refines_parts refines_reading refines_splice refines_insert refines_deleting refines_copies)

section \<open>Programs\<close>

definition empty_heap :: "'v \<Rightarrow> 'v \<Rightarrow> nat \<Rightarrow> 'v ary_heap" where
  "empty_heap null junk level =
     \<lparr>ah_objs = (\<lambda>_. None), ah_embed = (\<lambda>_. []), ah_bufs = (\<lambda>_. None), ah_next_obj = 1, ah_next_buf = 0, ah_nil = null, ah_junk = junk,
      ah_safe_level = level\<rparr>"

text \<open>The heaps that programs of these methods make.\<close>

inductive ary_reach :: "'v ary_heap \<Rightarrow> bool" where
  ary_start: "ary_reach (empty_heap null junk level)"
| ary_step: "ary_reach h \<Longrightarrow> fits c (view h) \<Longrightarrow> ary_exec c h = Some (res, h') \<Longrightarrow> ary_reach h'"

lemma empty_ok: "heap_ok (empty_heap null junk level)"
  by (simp add: heap_ok_def empty_heap_def)

lemma reach_ok: "ary_reach h \<Longrightarrow> heap_ok h"
proof (induction rule: ary_reach.induct)
  case (ary_step h c res h')
  then show ?case using all_refine [of h c] becomesD(1) by (fastforce simp: refines_def Let_def)
qed (rule empty_ok)

lemma fresh_address: "heap_ok h \<Longrightarrow> view h (ah_next_obj h) = None"
  using new_other by (cases "view h (ah_next_obj h)") auto

text \<open>Two arrays meet in a buffer only under one root.\<close>

lemma meet_in_root:
  assumes ok: "heap_ok h"
    and a: "ah_objs h a = Some ob \<and> ah_objs h x = Some xo \<and> a \<noteq> x \<and> \<not> ao_root ob \<and> \<not> ao_root xo \<and> \<not> ao_embed ob \<and> \<not> ao_embed xo
      \<and> fst (ao_ptr ob) = fst (ao_ptr xo)"
  shows "ao_shared ob \<and> ao_shared xo \<and> ao_aux ob = ao_aux xo"
proof -
  obtain s so where s: "ah_objs h s = Some so" "ARY_OWNS_HEAP_P so" "fst (ao_ptr so) = fst (ao_ptr ob)"
    "if ao_shared ob then ao_root so \<and> ao_aux ob = int s else s = a" using owner_of [OF ok, of a ob] a by blast
  obtain t to where t: "ah_objs h t = Some to" "ARY_OWNS_HEAP_P to" "fst (ao_ptr to) = fst (ao_ptr xo)"
    "if ao_shared xo then ao_root to \<and> ao_aux xo = int t else t = x" using owner_of [OF ok, of x xo] a by blast
  have "s = t" using heap_okD(3) [OF ok s(1) t(1) s(2) t(2)] s(3) t(3) a by simp
  then show ?thesis using s t a by (auto split: if_splits)
qed

section \<open>Arrays that may not be written\<close>

lemma modify_fails:
  assumes "heap_ok h" "view h a = Some (xs, False)"
  shows "\<exists>e. e \<in> {RuntimeError, SecurityError} \<and> rb_ary_modify_check a h = Some (Inl e, h) \<and> rb_ary_modify a h = Some (Inl e, h)"
  using modify_check_ok(2) [OF assms] by (auto simp: rb_ary_modify_def)

lemma frozen_index:
  assumes ok: "heap_ok h" and v: "view h a = Some (xs, False)" and y: "present (view h) y"
  shows "\<exists>e. rb_ary_store a i v h = Some (Inl e, h) \<and> e \<in> {RuntimeError, SecurityError, IndexError}"
    and "\<exists>e. rb_ary_splice a i l (Some y) h = Some (Inl e, h) \<and> e \<in> {RuntimeError, SecurityError, IndexError}"
proof -
  obtain ob where ob: "ah_objs h a = Some ob" using view_obj [OF v] by blast
  obtain w where vy: "view h y = Some (elems (view h) y, w)" using presentD [OF y] by blast
  then obtain yo where yo: "ah_objs h y = Some yo" using view_obj by blast
  obtain e where e: "e \<in> {RuntimeError, SecurityError}" "rb_ary_modify a h = Some (Inl e, h)" using modify_fails [OF ok v] by blast
  show "\<exists>e. rb_ary_store a i v h = Some (Inl e, h) \<and> e \<in> {RuntimeError, SecurityError, IndexError}"
    unfolding rb_ary_store_def ob bind.bind_lunit Let_def e(2) run_ok rb_raise_def using e(1) by (simp split: if_split) blast
  show "\<exists>e. rb_ary_splice a i l (Some y) h = Some (Inl e, h) \<and> e \<in> {RuntimeError, SecurityError, IndexError}"
    unfolding rb_ary_splice_def ob yo bind.bind_lunit Let_def option.case option.map e(2) run_ok rb_raise_def using e(1) by (simp split: if_split) blast
qed

lemma frozen_methods:
  assumes ok: "heap_ok h" and v: "view h a = Some (xs, False)"
    and c: "c \<in> {CPush a vs, CPop a, CPopN a n, CShift a, CShiftN a n, CUnshift a (u # vs), CCut a i l, CClear a, CReplace a y, CFill a n u}"
  shows "\<exists>e. ary_exec c h = Some (Inl e, h) \<and> e \<in> {RuntimeError, SecurityError}"
proof -
  obtain e where e: "e \<in> {RuntimeError, SecurityError}" "rb_ary_modify_check a h = Some (Inl e, h)" "rb_ary_modify a h = Some (Inl e, h)"
    using modify_fails [OF ok v] by blast
  have "ary_exec c h = Some (Inl e, h)"
    using c e(2,3)
    by (auto simp: rb_ary_push_m_def rb_ary_pop_def rb_ary_pop_m_def rb_ary_shift_def rb_ary_shift_m_def rb_ary_unshift_m_def slice_bang_def
        rb_ary_clear_def rb_ary_replace_def rb_ary_initialize_def)
  then show ?thesis using e(1) by blast
qed

section \<open>A store that leaves the buffer\<close>

lemma store_overruns:
  assumes ok: "heap_ok h" and v: "view h a = Some (xs, True)" and ob: "ah_objs h a = Some ob" "\<not> ao_shared ob" "ARY_CAPA ob < ARY_MAX_SIZE"
    and n: "int (length xs) < ARY_MAX_SIZE - 1"
  shows "rb_ary_store a (word_of_int (ARY_MAX_SIZE - 1)) val h = None"
proof -
  have "rb_ary_modify a h = Some (Inr (), h)"
    using check_ok [OF ok v] ob(1,2) by (simp add: rb_ary_modify_def ret_def)
  then show ?thesis using ob(1,3) by (intro store_last [OF ok v n refl]) auto
qed

end
