(* ===== verification/Spec2Isabelle.thy ===== *)
theory Spec2Isabelle
  imports StrCanon IntegerOps StCopy StSafe RandomRange PackSafe PackRound MmSwap ArraySort Ranges ArraySpec
begin

text \<open>
  A model of the core of the Ruby 1.9.1 interpreter in \<open>src/lib/ruby\<close> (the C sources of this
  repository's Android build) that can be checked by a kernel: the integers of the language,
  its random numbers, their packing into strings of bytes, the storage of arrays, the sort, comparisons and ranges, and the hash table underneath its
  symbol tables, method tables and \<open>Hash\<close> objects.

  The target is 32-bit ARM: a C \<open>long\<close>, \<open>int\<close> and pointer have 32 bits, \<open>LONG_LONG\<close> has 64, a \<open>BDIGIT\<close>
  is an unsigned 32-bit word and a \<open>BDIGIT_DBL\<close> one of 64 bits, a plain \<open>char\<close> is unsigned.  Machine integers
  are words of these widths, so that wrapping is part of the definitions.

  \<^bold>\<open>The parts and how they interact.\<close>  A Ruby integer is a \<open>VALUE\<close>: a tagged word (\<open>Fixnum\<close>, 31 bits) or a pointer to a
  \<open>Bignum\<close>, a sign with an array of digits.  \<open>numeric.c\<close> holds the methods of \<open>Fixnum\<close>, which leave for \<open>bignum.c\<close>
  when the result or an operand does not fit; \<open>bignum.c\<close> gives its results back through \<open>bignorm\<close>, so that every
  integer has one representation.  Floats and other objects meet these methods through C doubles and
  \<open>rb_num_coerce_bin\<close>, which are fields of the record \<open>rb_env\<close>.  \<open>random.c\<close> draws its
  seeds and results from integers of both kinds.  \<open>pack.c\<close> writes integers of both kinds into strings and reads them back through the conversions of
  \<open>bignum.c\<close>, for BER also through its arithmetic.  \<open><=>\<close> of integers is what \<open>rb_cmpint\<close> turns into an order for \<open>compar.c\<close>, \<open>enum.c\<close>, \<open>range.c\<close> and for the
  comparison functions that \<open>array.c\<close> and \<open>enum.c\<close> give to \<open>ruby_qsort\<close> of \<open>util.c\<close>.  The methods of \<open>array.c\<close> work on a heap of
  objects and buffers, with \<open>rb_range_beg_len\<close> for their ranges.  \<open>st.c\<close> is independent of the others.

  \<^item> \<open>Prelude\<close>: machine types, the errors raised, lemmas on words.
  \<^item> \<open>BigDigits\<close>: \<open>struct RBignum\<close> as the record \<open>rbignum\<close>, \<open>BIGUP\<close>, \<open>BIGDN\<close>, \<open>BIGLO\<close>, \<open>bigtrunc\<close>, \<open>bignorm\<close>, the tag macros of \<open>ruby.h\<close>;
    \<open>bval\<close>, \<open>big_int\<close> and \<open>int_of\<close> say which integer is meant, \<open>normal_int\<close> is the invariant of a \<open>VALUE\<close>.
  \<^item> \<open>BigConv\<close>: \<open>rb_uint2big\<close>, \<open>rb_int2inum\<close>, \<open>rb_ll2inum\<close>, \<open>big2ulong\<close>, \<open>rb_big2long\<close>, \<open>big2ull\<close>, \<open>rb_quad_pack\<close>, \<open>rb_quad_unpack\<close>.
  \<^item> \<open>RubyValue\<close>: the operands of a method and \<open>rb_env\<close>; a result is an error or a value.
  \<^item> \<open>BigAdd\<close>, \<open>BigMul\<close>, \<open>BigDiv\<close>, \<open>BigDivMod\<close>, \<open>BigBits\<close>: the arithmetic of \<open>bignum.c\<close>, one definition per C function or loop.
    Arrays that a loop reads in order are lists; arrays that are updated in place (product, quotient) are lists
    passed through the steps.  The flag that an interrupt may set is the parameter \<open>stop\<close>.
  \<^item> \<open>StrToInt\<close>, \<open>IntToStr\<close>, \<open>StrCanon\<close>: \<open>rb_cstr_to_inum\<close> with \<open>ruby_strtoul\<close> of \<open>util.c\<close>, \<open>rb_big2str0\<close> and \<open>rb_fix2str\<close>, with the cache of
    powers \<open>big2str_power_cache\<close> passed explicitly.
  \<^item> \<open>Numeric\<close>, \<open>IntegerOps\<close>: \<open>numeric.c\<close> on \<open>Fixnum\<close> receivers, the dispatch over both representations, the counting
    loops, \<open>Integer#step\<close> and \<open>#round\<close>.  The locales of \<open>IntegerOps\<close> state what an integer operator owes its
    callers and are interpreted on the model's operators.
  \<^item> \<open>StTable\<close>: \<open>st.c\<close> operation by operation, on a heap of entries; \<open>StChains\<close> and \<open>StRefine\<close>: the invariant of a table (doubly
    linked order, chains by hash value) and look-up; \<open>StInsert\<close>, \<open>StPacked\<close>, \<open>StDelete\<close>, \<open>StForeach\<close>, \<open>StCopy\<close>: the operations
    refine an association list in order of insertion, in both representations (\<open>stands_for\<close>); \<open>StSafe\<close>: deletion that leaves tombstones.
  \<^item> \<open>Mersenne\<close>: the twister of \<open>random.c\<close> (\<open>struct MT\<close>), shown to deliver the sequence of its recurrence; \<open>RandomInt\<close>: \<open>rand\<close>, \<open>srand\<close>,
    the seeds and the limited generators; \<open>RandomRange\<close>: ranges, lack of bias, seeds that can be set again.
  \<^item> \<open>PackFormat\<close>: the template of \<open>Array#pack\<close> and \<open>String#unpack\<close>, read one directive at a time; \<open>PackPack\<close>: \<open>pack_pack\<close>; \<open>PackUnpack\<close>: \<open>pack_unpack\<close>,
    with offsets for pointers and \<open>None\<close> for an access outside an object; \<open>PackUtf8\<close>, \<open>PackCodec\<close>, \<open>PackBer\<close>: the codecs of the directives \<open>U\<close>,
    \<open>m\<close>, \<open>u\<close>, \<open>M\<close> and \<open>w\<close>.  \<open>PackText\<close> and \<open>PackDecode\<close>: what the text codecs write and that reading inverts it; \<open>PackSafe\<close>: which formats keep
    \<open>unpack\<close> inside the string; \<open>PackInts\<close>, \<open>PackRound\<close>: round trips of whole calls with integers, BER and digits.
  \<^item> \<open>Qsort\<close>: \<open>ruby_qsort\<close> on a list of elements, with a number for a pointer; \<open>QsortSplit\<close>, \<open>QsortSorts\<close>: what its scans and its splitting keep, that its
    stack is large enough, and that it sorts; \<open>MmSwap\<close>: the moves of elements on bytes.
  \<^item> \<open>ArrayHeap\<close>: \<open>struct RArray\<close>, the macros for its fields, buffers, and the functions of \<open>array.c\<close> that share and unshare them; \<open>ArrayOps\<close>: the
    methods.  \<open>ArrayInv\<close>: the invariant \<open>heap_ok\<close> and \<open>view\<close>, the arrays that a heap stands for; \<open>ArrayRefine\<close>, \<open>ArrayMethods\<close>, \<open>ArraySplice\<close>,
    \<open>ArrayParts\<close>, \<open>ArrayWindows\<close>, \<open>ArrayCopy\<close>: what capacity, unsharing and each method do to \<open>view\<close>; \<open>ArraySpec\<close>: the methods as commands, their
    specification on lists, and programs of them.
  \<^item> \<open>Compare\<close>: \<open>rb_cmpint\<close>, \<open>compar.c\<close>, and the extremes of \<open>enum.c\<close>, with a locale for what they ask of a comparison; \<open>ArraySort\<close>: the
    sorting methods of \<open>array.c\<close> and \<open>enum.c\<close>; \<open>Ranges\<close>: \<open>range.c\<close> on Integers, and \<open>rb_range_beg_len\<close>.

  \<^bold>\<open>What is shown.\<close>  The arithmetic, comparison, bit and shift operators return the normalised object of the exact
  integer, for any mixture of representations; hence the laws of a ring and of floor division hold as equalities of
  objects.  Squaring agrees with multiplication and the two printing algorithms with each other.  Printing
  and parsing are inverse.  Every loop ends: a definition in the option type has the value \<open>None\<close> where the code would
  not return or follow a bad pointer, and the theorems exclude it.  Errors are values of \<open>rb_error\<close>; ranges of the
  conversions and the zero divisor are covered.  For \<open>st.c\<close> each operation on a table that stands for an association list ends
  without following a bad pointer, does to the list what the ordered dictionary promises, and keeps the invariant.  What \<open>pack\<close> writes is read back by \<open>unpack\<close>, and \<open>unpack\<close>
  stays inside its string for all formats but those that one theorem lists.  \<open>ruby_qsort\<close> ends on every array with every comparison, in bounds, and sorts
  where the comparison is an order; sorting, extremes and ranges of Integers follow the order of the integers.  Array methods are operations on lists:
  sharing is never seen, memory is never left but in two cases that one theorem names, and frozen arrays stay as they are.

  \<^bold>\<open>Bounds and fuel.\<close>  No definition uses fuel: the recursions are structural, have a measure, or are partial functions in the
  option type.  A \<open>Bignum\<close> has no bound on its length except where a C \<open>int\<close> or \<open>long\<close> counts characters, bits or digits; such bounds are
  hypotheses of the theorems concerned (\<open>radix_ok\<close>, \<open>prints_ok\<close>).  The loops of \<open>rand\<close> retry until a word fits; that the generator
  delivers one is the hypothesis \<open>acceptable\<close>, which always holds for powers of two.  A string that is unpacked is shorter than 2 ^ 28 bytes, so that the
  number of its bits is a \<open>long\<close>.  A table has fewer than 2 ^ 31 entries,
  the width of \<open>num_entries\<close>, and an array that is sorted fewer than 2 ^ 31 elements, the width of \<open>nel\<close>.
  An array has at most 2 ^ 29 - 1 elements (\<open>ARY_MAX_SIZE\<close>), which \<open>fits\<close> asks of the results of its methods.

  \<^bold>\<open>Not modelled.\<close>  C doubles (conversions from and to \<open>Float\<close>, and \<open>Float\<close> itself); object allocation and the collector; the
  generic \<open>Numeric\<close> methods that only call other methods.  A comparison or block that raises inside of a sort (the sort takes the integers that
  the comparison returns).  Array methods that call a block or \<open>==\<close> for each element, and nested arrays.  Garbage collection, the parser, the compiler to
  instruction sequences and the virtual machine with its native stacks work on the untyped heap of the
  interpreter and call back into Ruby code.  Regular expressions and encodings are third-party or generated tables; input,
  output, processes and threads are system calls.
\<close>

section \<open>Integer arithmetic\<close>

lemma big_9_3: "normal_int (VBig (mk_big True [9, 3]))" "int_of (VBig (mk_big True [9, 3])) = 12884901897"
  by (simp_all add: digits_ok_def fixable_defs big_int_def)

lemma shift_out:
  assumes "0 \<le> x" and "x < 2 ^ 32" and "32 \<le> n"
  shows "drop_bit n (x :: int) = 0"
proof -
  have "x < 2 ^ n" using assms power_increasing [of 32 n "2 :: int"] by simp
  with assms(1) show ?thesis by (simp add: drop_bit_eq_div)
qed

lemma max_fixnum: "normal_int (VFix 0x7fffffff)" "int_of (VFix 0x7fffffff) = 1073741823"
  using INT2FIX_normal [of 1073741823] by (simp_all add: LONG2FIX_def fixable_defs)

text \<open>
  C1. Division of a \<open>Bignum\<close> by any non-zero Ruby integer ends, and \<open>rb_big_divmod\<close> yields the
  normalised floor quotient and the remainder with the sign of the divisor.
\<close>

theorem rb_big_divmod_floor:
  assumes "\<forall>k. \<not> stop k" and "normal_int (VBig x)" and "normal_int v" and "int_of v \<noteq> 0"
  shows "\<exists>p q. rb_big_divmod env stop x (RInt v) = Some (Inr (RPair p q))
    \<and> is_int_value p (big_int x div int_of v) \<and> is_int_value q (big_int x mod int_of v)"
  using rb_big_div_int(4) [OF assms(1) sign_ok_normal [OF assms(2)] assms(3,4)] .

theorem rb_big_divmod_floor_witness:
  "\<forall>env :: (unit, unit) rb_env. \<exists>p q.
     rb_big_divmod env (\<lambda>_. False) (mk_big False [7, 0, 5]) (RInt (VBig (mk_big True [9, 3])))
       = Some (Inr (RPair p q))
     \<and> is_int_value p (- 7158278822)
     \<and> is_int_value q 4294967247"
  using rb_big_divmod_floor [of "\<lambda>_. False" "mk_big False [7, 0, 5]" "VBig (mk_big True [9, 3])" env
      for env :: "(unit, unit) rb_env"]
  by (simp add: digits_ok_def fixable_defs big_int_def)



text \<open>
  C3. Whatever the mixture of \<open>Fixnum\<close> and \<open>Bignum\<close>, the sum, the difference and the product are
  the normalised objects of the exact integers: no overflow of the machine words goes unnoticed.
\<close>

theorem integer_ring_exact:
  assumes "\<forall>k. \<not> stop k" and "normal_int v" and "normal_int w"
  shows "(\<exists>r. int_plus env v w = Inr (RInt r) \<and> normal_int r \<and> int_of r = int_of v + int_of w)
    \<and> (\<exists>r. int_minus env v w = Inr (RInt r) \<and> normal_int r \<and> int_of r = int_of v - int_of w)
    \<and> (\<exists>r. int_mul env stop v w = Inr (RInt r) \<and> normal_int r \<and> int_of r = int_of v * int_of w)"
  using int_plus_exact int_minus_exact int_mul_exact assms by blast

theorem integer_ring_exact_witness:
  "\<forall>env :: (unit, unit) rb_env.
     (\<exists>r. int_plus env (VFix 0x7fffffff) (VFix 0x7fffffff) = Inr (RInt r) \<and> normal_int r \<and> int_of r = 2147483646)
     \<and> (\<exists>r. int_minus env (VFix 0x7fffffff) (VFix 0x7fffffff) = Inr (RInt r) \<and> normal_int r \<and> int_of r = 0)
     \<and> (\<exists>r. int_mul env (\<lambda>_. False) (VFix 0x7fffffff) (VFix 0x7fffffff) = Inr (RInt r) \<and> normal_int r
          \<and> int_of r = 1152921502459363329)"
  using integer_ring_exact [OF _ max_fixnum(1) max_fixnum(1), of "\<lambda>_. False" env for env :: "(unit, unit) rb_env"]
  unfolding max_fixnum(2) by simp

text \<open>
  The objects that \<open>+\<close> and \<open>*\<close> return obey the laws of a commutative ring, across the border between
  \<open>Fixnum\<close> and \<open>Bignum\<close>: the order of the operands and the grouping never show in the result.
\<close>

theorem integer_ring_laws:
  assumes v: "normal_int v" "normal_int w" "normal_int u"
  shows "\<exists>p q x y. int_plus env v w = Inr (RInt p) \<and> int_plus env w v = Inr (RInt p)
    \<and> int_plus env w u = Inr (RInt q) \<and> int_plus env p u = int_plus env v q
    \<and> int_mul env (\<lambda>_. False) v w = Inr (RInt x) \<and> int_mul env (\<lambda>_. False) w v = Inr (RInt x)
    \<and> int_mul env (\<lambda>_. False) v u = Inr (RInt y) \<and> int_mul env (\<lambda>_. False) v q = int_plus env x y"
proof -
  obtain p q x y where r: "int_plus env v w = Inr (RInt p)" "int_plus env w u = Inr (RInt q)"
    "int_mul env (\<lambda>_. False) v w = Inr (RInt x)" "int_mul env (\<lambda>_. False) v u = Inr (RInt y)"
    using int_plus_exact int_mul_exact [of "\<lambda>_. False"] v by metis
  have "int_plus env w v = Inr (RInt p)" "int_mul env (\<lambda>_. False) w v = Inr (RInt x)"
    using ruby_arith.add.commutes [of w v env] ruby_arith.mul.commutes [of w v env] v r
    by (simp_all add: add.commute mult.commute)
  moreover have "int_plus env p u = int_plus env v q"
    using ruby_arith.add.associates [OF _ _ v, of env p q] r by (simp add: add.assoc)
  moreover have "int_mul env (\<lambda>_. False) v q = int_plus env x y"
    using ruby_arith.distributes [OF v, of env q x y] r by simp
  ultimately show ?thesis using r by blast
qed

text \<open>
  C4. Quotient and remainder of any two integers, the divisor not zero, recompose to the dividend itself:
  \<open>w * (v / w) + v % w\<close> is the object \<open>v\<close>.
\<close>

theorem integer_division_law:
  assumes v: "normal_int v" "normal_int w" "int_of w \<noteq> 0"
  shows "\<exists>q r p. int_div env (\<lambda>_. False) v w = Some (Inr (RInt q))
    \<and> int_modulo env (\<lambda>_. False) v w = Some (Inr (RInt r))
    \<and> int_mul env (\<lambda>_. False) w q = Inr (RInt p) \<and> int_plus env p r = Inr (RInt v)"
proof -
  obtain q r where qr: "int_div env (\<lambda>_. False) v w = Some (Inr (RInt q))"
    "int_modulo env (\<lambda>_. False) v w = Some (Inr (RInt r))" "normal_int q"
    using int_div_exact [of "\<lambda>_. False"] int_modulo_exact [of "\<lambda>_. False"] v by metis
  obtain p where "int_mul env (\<lambda>_. False) w q = Inr (RInt p)"
    using int_mul_exact [of "\<lambda>_. False"] v qr(3) by metis
  with ruby_arith.division_law [OF v qr(1,2)] qr show ?thesis by blast
qed

theorem integer_division_law_witness:
  "\<forall>env :: (unit, unit) rb_env. \<exists>q r p.
     int_div env (\<lambda>_. False) (VFix 0x7fffffff) (VBig (mk_big True [9, 3])) = Some (Inr (RInt q))
     \<and> int_modulo env (\<lambda>_. False) (VFix 0x7fffffff) (VBig (mk_big True [9, 3])) = Some (Inr (RInt r))
     \<and> int_mul env (\<lambda>_. False) (VBig (mk_big True [9, 3])) q = Inr (RInt p)
     \<and> int_plus env p r = Inr (RInt (VFix 0x7fffffff))"
  using integer_division_law [OF max_fixnum(1) big_9_3(1), of env for env :: "(unit, unit) rb_env"] unfolding big_9_3(2)
  by simp

text \<open>
  Division by the integer zero raises \<open>ZeroDivisionError\<close> whatever the dividend, in every form of
  division.
\<close>

theorem integer_zero_division:
  assumes "normal_int w" and "int_of w = 0"
  shows "int_div env stop v w = Some (Inl ZeroDivError) \<and> int_modulo env stop v w = Some (Inl ZeroDivError)
    \<and> rb_big_remainder env stop x (RInt w) = Some (Inl ZeroDivError)
    \<and> rb_big_divmod env stop x (RInt w) = Some (Inl ZeroDivError)
    \<and> fix_divmod env stop a (RInt w) = Some (Inl ZeroDivError)"
  using int_div_zero [OF assms] rb_big_div_zero [OF assms(2)] fix_div_zero [OF assms] by auto

text \<open>
  C5. The comparisons answer for the integers that the objects stand for: \<open><=>\<close> is the sign of the
  difference, and \<open>==\<close>, \<open><\<close> and \<open>>\<close> agree with it.
\<close>

theorem integer_order:
  assumes "normal_int v" and "normal_int w"
  shows "int_cmp env v w = Inr (INT2FIX (sgn (int_of v - int_of w)))
    \<and> int_gt env v w = Inr (RBool (int_of w < int_of v)) \<and> int_lt env v w = Inr (RBool (int_of v < int_of w))
    \<and> (int_equal env v w \<longleftrightarrow> int_of v = int_of w)"
  using int_cmp_sgn [OF assms] by blast

theorem integer_order_witness:
  "\<forall>env :: (unit, unit) rb_env. int_cmp env (VFix 0x7fffffff) (VBig (mk_big True [9, 3])) = Inr (INT2FIX (- 1))"
  using integer_order [OF max_fixnum(1) big_9_3(1), of env for env :: "(unit, unit) rb_env"]
  unfolding max_fixnum(2) big_9_3(2) by simp

text \<open>
  C6. \<open>&\<close>, \<open>|\<close>, \<open>^\<close> and \<open>~\<close> act on the infinite two's complement of the integers, although a \<open>Bignum\<close>
  stores a sign and a magnitude.
\<close>

theorem integer_bitwise_exact:
  assumes "normal_int v" and "normal_int w"
  shows "(\<exists>r. int_and env v w = Inr (RInt r) \<and> normal_int r \<and> int_of r = int_of v AND int_of w)
    \<and> (\<exists>r. int_or env v w = Inr (RInt r) \<and> normal_int r \<and> int_of r = int_of v OR int_of w)
    \<and> (\<exists>r. int_xor env v w = Inr (RInt r) \<and> normal_int r \<and> int_of r = int_of v XOR int_of w)
    \<and> normal_int (int_rev v) \<and> int_of (int_rev v) = NOT (int_of v)"
  using int_and_exact int_or_exact int_xor_exact int_rev_exact assms by blast

theorem integer_bitwise_exact_witness:
  "\<forall>env :: (unit, unit) rb_env. \<exists>r. int_xor env (VFix 0x7fffffff) (VBig (mk_big True [9, 3])) = Inr (RInt r)
     \<and> int_of r = 1073741823 XOR 12884901897"
  using integer_bitwise_exact [OF max_fixnum(1) big_9_3(1), of env for env :: "(unit, unit) rb_env"]
  unfolding max_fixnum(2) big_9_3(2) by blast

text \<open>
  C7. The shifts by an integer of either sign multiply by a power of two or divide by it, rounding down.
  A shift to the left by \<open>2 ^ 32\<close> or more is out of range, and so is a shift to the right by the
  negative of such an amount.
\<close>

theorem integer_shift_exact:
  assumes "normal_int v" and "fits_memory (to_big v)" and "normal_int w"
  shows "(if int_of w < 2 ^ 32
      then \<exists>r. int_lshift env v w = Inr (RInt r) \<and> normal_int r \<and> int_of r = shift_spec (int_of v) (int_of w)
      else int_lshift env v w = Inl RangeError)
    \<and> (if - (2 ^ 32) < int_of w
      then \<exists>r. int_rshift env v w = Inr (RInt r) \<and> normal_int r \<and> int_of r = shift_spec (int_of v) (- int_of w)
      else int_rshift env v w = Inl RangeError)"
proof -
  note s = int_shift_exact [OF assms, of env] int_shift_range_error [OF assms, of env]
  have "\<exists>r. int_lshift env v w = Inr (RInt r) \<and> normal_int r \<and> int_of r = shift_spec (int_of v) (int_of w)"
    if "int_of w < 2 ^ 32" using s(1) that .
  moreover have "\<exists>r. int_rshift env v w = Inr (RInt r) \<and> normal_int r \<and> int_of r = shift_spec (int_of v) (- int_of w)"
    if "- (2 ^ 32) < int_of w" using s(2) that .
  ultimately show ?thesis using s(3,4) by (simp only: not_less [symmetric] split: if_split) blast
qed

theorem integer_shift_exact_witness:
  "\<forall>env :: (unit, unit) rb_env.
     int_lshift env (VFix 0x7fffffff) (VBig (mk_big True [9, 3])) = Inl RangeError
     \<and> (\<exists>r. int_rshift env (VFix 0x7fffffff) (VBig (mk_big True [9, 3])) = Inr (RInt r) \<and> int_of r = 0)"
proof -
  have "shift_spec 1073741823 (- 12884901897) = 0"
    using shift_out [of 1073741823 "nat 12884901897"] by (simp add: shift_spec_def)
  moreover have "fits_memory (to_big (VFix 0x7fffffff))" by (simp add: to_big_def fits_int2big)
  ultimately show ?thesis
    using integer_shift_exact [OF max_fixnum(1) _ big_9_3(1), of env for env :: "(unit, unit) rb_env"]
    unfolding max_fixnum(2) big_9_3(2) by (simp; blast)
qed

text \<open>
  \<open>Integer#[]\<close> reads a bit of the infinite two's complement; bits at negative indices are 0.
\<close>

theorem integer_aref_exact:
  assumes "normal_int v" and "fits_memory (to_big v)" and "normal_int w"
  shows "int_aref env v w = Inr (INT2FIX (of_bool (0 \<le> int_of w \<and> bit (int_of v) (nat (int_of w)))))"
  using int_aref_exact [OF assms] .



text \<open>
  C9. An interrupt never damages a product: \<open>Bignum#*\<close> returns the exact normalised product whatever the polls read,
  or \<open>nil\<close>, and that exactly when the operands have more than 10000 digits together and one of the polls,
  one for each digit of the receiver, finds the \<open>stop\<close> flag set.
\<close>

theorem big_mul_interrupted:
  "if 10000 < length (big_digits x) + length (big_digits (to_big v)) \<and> (\<exists>k < length (big_digits x). stop k)
   then rb_big_mul env stop x (RInt v) = Inr RNil
   else \<exists>r. rb_big_mul env stop x (RInt v) = Inr r \<and> is_int_value r (big_int x * int_of v)"
  using rb_big_mul_interrupted [of x v stop env] .

text \<open>
  The squaring by halves and the general product agree: \<open>bigsqr\<close> returns the object that
  \<open>big_mul_big\<close> of the number with itself returns, once both are normalised.
\<close>

theorem bigsqr_is_product:
  assumes "\<forall>k. \<not> stop k" and "big_digits x \<noteq> []"
  shows "\<exists>s p. bigsqr stop x = Some s \<and> big_mul_big stop x x = Some p \<and> bignorm (VBig s) = bignorm (VBig p)"
proof -
  obtain s p where r: "bigsqr stop x = Some s" "big_mul_big stop x x = Some p"
    using bigsqr_total [OF assms(1)] big_mul_big_total [OF assms(1)] by metis
  have "big_int s = big_int p" using bigsqr_correct [OF r(1) assms(2)] big_mul_big_correct(1) [OF r(2)] by simp
  then have "bignorm (VBig s) = bignorm (VBig p)" by (intro normal_int_unique) (simp_all add: bignorm_big del: normal_int.simps int_of.simps)
  with r show ?thesis by blast
qed

theorem bigsqr_is_product_witness:
  "\<exists>s p. bigsqr (\<lambda>_. False) (mk_big False [9, 3]) = Some s \<and> big_mul_big (\<lambda>_. False) (mk_big False [9, 3]) (mk_big False [9, 3]) = Some p
     \<and> bignorm (VBig s) = bignorm (VBig p)"
  using bigsqr_is_product [of "\<lambda>_. False" "mk_big False [9, 3]"] by simp

text \<open>
  \<open>Bignum#remainder\<close> is the remainder of the division that rounds towards zero.
\<close>

theorem rb_big_remainder_trunc:
  assumes "\<forall>k. \<not> stop k" and "normal_int v" and "int_of v \<noteq> 0"
  shows "\<exists>r. rb_big_remainder env stop x (RInt v) = Some (Inr r)
    \<and> is_int_value r (sgn (big_int x) * (\<bar>big_int x\<bar> mod \<bar>int_of v\<bar>))"
  using rb_big_remainder_int [OF assms, of env x] by (simp add: trunc_mod_def)

section \<open>Conversions\<close>

text \<open>
  C10. The conversion by splitting at cached powers of the radix terminates and writes the very string that
  the conversion digit by digit writes, with or without leading zeros.
\<close>

theorem big2str_converters_agree:
  assumes "\<forall>k. \<not> stop k" and "radix_ok base" and "uint hbase = base ^ 4" and "cache_ok cache"
    and "big_digits x \<noteq> []" and "big_sign x" and "bval (big_digits x) < base ^ len"
    and "n1 \<le> (len + 1) div 2" and "len < 2 ^ 31"
  shows "\<exists>s c. big2str_karatsuba env stop cache x base n1 len hbase trim = Some (s, c) \<and> cache_ok c
    \<and> big2str_orig x base len hbase trim = Some s"
  using karatsuba_orig [OF assms] .

theorem big2str_converters_agree_witness:
  "\<forall>env :: (unit, unit) rb_env. \<exists>s c.
     big2str_karatsuba env (\<lambda>_. False) power_cache_init (mk_big True [9, 3]) 10 200 400 10000 False = Some (s, c)
     \<and> cache_ok c \<and> big2str_orig (mk_big True [9, 3]) 10 400 10000 False = Some s"
  using big2str_converters_agree [of "\<lambda>_. False" 10 10000 power_cache_init "mk_big True [9, 3]" 400 200 env False
      for env :: "(unit, unit) rb_env"]
  by (simp add: radix_ok_def cache_ok_init)




text \<open>
  C13. The conversions to C integers neither wrap nor reject: they return the value if and only if it is in
  range, and raise \<open>RangeError\<close> otherwise.  \<open>rb_big2ulong\<close> takes negative numbers above \<open>- (2 ^ 31)\<close>.
\<close>

theorem big_to_long_ranges:
  assumes "digits_ok (big_digits x)"
  shows "rb_big2long x = (if - (2 ^ 31) \<le> big_int x \<and> big_int x < 2 ^ 31 then Inr (word_of_int (big_int x)) else Inl RangeError)
    \<and> rb_big2ulong x = (if - (2 ^ 31) < big_int x \<and> big_int x < 2 ^ 32 then Inr (word_of_int (big_int x)) else Inl RangeError)
    \<and> rb_big2ll x = (if - (2 ^ 63) \<le> big_int x \<and> big_int x < 2 ^ 63 then Inr (word_of_int (big_int x)) else Inl RangeError)"
  using rb_big2long_spec [OF assms] rb_big2ulong_spec [OF assms] rb_big2ll_spec [OF assms] by blast

theorem big_to_long_ranges_witness:
  "rb_big2long (mk_big False [0x80000000]) = Inr (word_of_int (- (2 ^ 31)))
    \<and> rb_big2ulong (mk_big False [0x80000000]) = Inl RangeError \<and> rb_big2ll (mk_big True [0, 0, 1]) = Inl RangeError"
  using big_to_long_ranges [of "mk_big False [0x80000000]"] big_to_long_ranges [of "mk_big True [0, 0, 1]"]
  by (simp add: digits_ok_def big_int_def)

text \<open>
  The eight bytes that \<open>rb_quad_pack\<close> writes for an integer in the range of a signed (unsigned) 64-bit
  number are read back by \<open>rb_quad_unpack\<close> as the same object.
\<close>

theorem quad_roundtrip:
  assumes "normal_int v" and "if sign then - (2 ^ 63) \<le> int_of v \<and> int_of v < 2 ^ 63 else 0 \<le> int_of v \<and> int_of v < 2 ^ 64"
  shows "rb_quad_unpack (rb_quad_pack v) sign = v"
proof (rule normal_int_unique [OF rb_quad_unpack_correct(2) assms(1)])
  show "int_of (rb_quad_unpack (rb_quad_pack v) sign) = int_of v"
    using assms(2) sint_quad_value [of v] uint_quad_value [of v]
    by (simp add: rb_quad_unpack_correct(1) rb_quad_pack_def split: if_splits)
qed

section \<open>Iteration and rounding\<close>

text \<open>
  C14. \<open>upto\<close>, \<open>downto\<close> and \<open>times\<close> end, and call their block with exactly the integers of their range, one after the
  other, whether they count in machine words or with \<open>Bignum\<close>s.
\<close>

theorem integer_loops_count:
  assumes "normal_int v" and "normal_int w"
  shows "(\<exists>ys. int_upto env v w = Some ys \<and> emits ys (int_of v) 1 (nat (int_of w - int_of v + 1)))
    \<and> (\<exists>ys. int_downto env v w = Some ys \<and> emits ys (int_of v) (- 1) (nat (int_of v - int_of w + 1)))
    \<and> (\<exists>ys. int_dotimes env v = Some ys \<and> emits ys 0 1 (nat (int_of v)))"
  using int_upto_exact [OF assms, of env] int_downto_exact [OF assms, of env] int_dotimes_exact [OF assms(1), of env]
  by (simp add: steps_def)

theorem integer_loops_count_witness:
  "\<forall>env :: (unit, unit) rb_env. \<exists>ys. int_downto env (VBig (mk_big True [9, 3])) (VFix 0x7fffffff) = Some ys
     \<and> emits ys 12884901897 (- 1) 11811160075"
  using integer_loops_count [OF big_9_3(1) max_fixnum(1), of env for env :: "(unit, unit) rb_env"]
  unfolding max_fixnum(2) big_9_3(2) by simp

text \<open>
  \<open>step\<close> ends for every step other than zero, visits the integers \<open>v\<close>, \<open>v + st\<close>, \<open>\<dots>\<close> that do not pass the limit, and raises
  \<open>ArgumentError\<close> for the step 0.
\<close>

theorem num_step_counts:
  assumes "normal_int v" and "normal_int w" and "normal_int st"
  shows "if int_of st = 0 then num_step env v w (Some st) = Some (Inl ArgError)
    else \<exists>ys. num_step env v w (Some st) = Some (Inr ys)
      \<and> emits ys (int_of v) (int_of st) (steps (int_of v) (int_of w) (int_of st))"
  using num_step_exact [OF assms, of env] num_step_zero [OF assms(3), of env v w] by (cases "int_of st = 0") simp_all

text \<open>
  Rounding to a power of ten ends with the nearest multiple.  A half is treated differently by the two branches
  of the code: away from zero when both numbers are \<open>Fixnum\<close>s, towards positive infinity otherwise.
\<close>

theorem int_round_halves:
  fixes env :: "('f, 'o) rb_env"
  assumes "\<forall>k. \<not> stop k" and "normal_int num" and "sint nd = - int k" and "1 \<le> k" and "k \<le> 262144"
  shows "\<exists>r. int_round env stop float_calls num (Some nd) = Some (Inr (RInt r)) \<and> normal_int r
    \<and> int_of r = (if FIXABLE (int_of num) \<and> k \<le> 9 then round_away (int_of num) (10 ^ k) else round_up (int_of num) (10 ^ k))"
  using int_round_exact [OF assms] .

section \<open>Hash tables\<close>

text \<open>Concrete parameters for the witnesses: an allocator of eight entries, and empty tables.\<close>

definition bump_malloc :: allocator where
  "bump_malloc h = List.find (\<lambda>a. h a = None) [1, 2, 3, 4, 5, 6, 7, 8]"

lemma bump_malloc_ok: "malloc_ok bump_malloc"
  unfolding malloc_ok_def bump_malloc_def by (auto simp: List.find_Some_iff nth_Cons split: nat.splits)

definition empty_numtable :: st_table where
  "empty_numtable = \<lparr>st_type = Type_numhash, entries_packed = True, num_entries = 0, st_bins = replicate 11 0,
     st_head = 0, st_tail = 0\<rparr>"

definition empty_strtable :: "(st_data \<Rightarrow> u8 list) \<Rightarrow> st_table" where
  "empty_strtable str = \<lparr>st_type = Type_strcasehash str, entries_packed = False, num_entries = 0, st_bins = replicate 11 0,
     st_head = 0, st_tail = 0\<rparr>"

lemma empty_tables:
  "stands_for h empty_numtable []" "stands_for h (empty_strtable str) []"
proof -
  show "stands_for h empty_numtable []"
    by (simp add: stands_for_def empty_numtable_def packed_ok_def num_bins_def packed_pairs_def)
  show "stands_for h (empty_strtable str) []"
    by (intro stands_for_unpacked represents_empty [of _ 11]) (simp_all add: empty_strtable_def)
qed

text \<open>
  C15. On every well-formed table, packed or chained, \<open>st_lookup\<close> and \<open>st_get_key\<close> end without following a bad
  pointer and answer what the association list of the table says, for any comparison and hash
  function that fit together.
\<close>

theorem st_lookup_refines:
  assumes "stands_for h table kvs"
  shows "st_lookup h table key = Some (map_option snd (al_find (EQUAL table) key kvs))
    \<and> st_get_key h table key = Some (map_option fst (al_find (EQUAL table) key kvs))"
  using st_lookup_stands_for [OF assms] .

theorem st_lookup_refines_witness:
  "\<forall>h. st_lookup h empty_numtable 5 = Some None \<and> st_get_key h (empty_strtable (\<lambda>_. [])) 5 = Some None"
  using st_lookup_refines [OF empty_tables(1), of _ 5] st_lookup_refines [OF empty_tables(2), of _ "\<lambda>_. []" 5] by simp

text \<open>
  C16. \<open>st_insert\<close> changes the association list as an ordered dictionary does: it replaces the record of an
  equal key or appends the pair.  The return value tells which.  The table stays well formed when
  it is rehashed and when it leaves the packed representation; the only failures are a refused
  allocation and a table that has outgrown the last prime.
\<close>

theorem st_insert_refines:
  assumes "stands_for h table kvs" and "malloc_ok malloc"
  shows "(\<exists>e. st_insert malloc h table key value = Some (Inl e) \<and> st_failure malloc table e) \<or>
    (\<exists>h' table'. st_insert malloc h table key value
         = Some (Inr (al_find (EQUAL table) key kvs \<noteq> None, h', table'))
       \<and> stands_for h' table' (al_insert (EQUAL table) key value kvs) \<and> st_type table' = st_type table)"
  using st_insert_stands_for [OF assms] .

theorem st_insert_refines_witness:
  "\<exists>h' table'. st_insert bump_malloc Map.empty empty_numtable 5 7 = Some (Inr (False, h', table')) \<and> stands_for h' table' [(5, 7)]"
proof -
  have "st_insert bump_malloc Map.empty empty_numtable 5 7 = Some (Inr (False, Map.empty, packed_append empty_numtable 5 7))"
    by (simp add: st_insert_def empty_numtable_def packed_room_def num_bins_def MAX_PACKED_NUMHASH_def)
  with st_insert_refines [OF empty_tables(1) bump_malloc_ok, of Map.empty 5 7] show ?thesis
    by (auto simp: al_insert_def)
qed

text \<open>
  For a key that is not in the table, \<open>st_add_direct\<close> appends the pair without a search.
\<close>

theorem st_add_direct_refines:
  assumes "stands_for h table kvs" and "malloc_ok malloc" and "al_find (EQUAL table) key kvs = None"
  shows "(\<exists>e. st_add_direct malloc h table key value = Some (Inl e) \<and> st_failure malloc table e) \<or>
    (\<exists>h' table'. st_add_direct malloc h table key value = Some (Inr (h', table'))
       \<and> stands_for h' table' (kvs @ [(key, value)]) \<and> st_type table' = st_type table)"
  using st_add_direct_stands_for [OF assms] .

text \<open>
  C17. \<open>st_delete\<close> always ends; it yields the stored key and record of the key, or nothing, and the table
  that remains stands for the association list without that key, in the old order.  Chain, order
  and packed array are mended in all cases, the ends included.
\<close>

theorem st_delete_refines:
  assumes "stands_for h table kvs"
  shows "\<exists>h' table'. st_delete h table key = Some (al_find (EQUAL table) key kvs, h', table')
    \<and> stands_for h' table' (al_delete (EQUAL table) key kvs) \<and> st_type table' = st_type table"
  using st_delete_stands_for [OF assms] .

theorem st_delete_refines_witness:
  "\<exists>h' table'. st_delete Map.empty (packed_append empty_numtable 5 7) 5 = Some (Some (5, 7), h', table') \<and> stands_for h' table' []"
proof -
  have "stands_for Map.empty (packed_append empty_numtable 5 7) [(5, 7)]"
    using packed_append_stands_for [OF empty_tables(1), of 5 Map.empty 7]
    by (simp add: empty_numtable_def packed_room_def num_bins_def MAX_PACKED_NUMHASH_def)
  from st_delete_refines [OF this, of 5] show ?thesis
    by (simp add: EQUAL_def al_delete_def) blast
qed

text \<open>
  C18. With a callback that leaves the table alone, \<open>st_foreach\<close> ends with the return value 0, has called it on
  the pairs in order of insertion until it answered \<open>ST_STOP\<close>, and has deleted exactly the pairs for
  which it answered \<open>ST_DELETE\<close>.
\<close>

theorem st_foreach_refines:
  assumes "stands_for h table kvs" and "leaves_table func g" and "walk g s kvs = (s', rest)"
  shows "\<exists>h' table'. st_foreach func s h table = Some (False, s', h', table') \<and> stands_for h' table' rest
    \<and> st_type table' = st_type table"
  using st_foreach_stands_for [OF assms] .

theorem st_foreach_refines_witness:
  "\<exists>h' table'. st_foreach (\<lambda>k v err (s, h, t). Some (ST_DELETE, s + v, h, t)) (0 :: u32) Map.empty (packed_append empty_numtable 5 7)
     = Some (False, 7, h', table') \<and> stands_for h' table' []"
proof -
  have "stands_for Map.empty (packed_append empty_numtable 5 7) [(5, 7)]"
    using packed_append_stands_for [OF empty_tables(1), of 5 Map.empty 7]
    by (simp add: empty_numtable_def packed_room_def num_bins_def MAX_PACKED_NUMHASH_def)
  from st_foreach_refines [OF this, of "\<lambda>k v err (s, h, t). Some (ST_DELETE, s + v, h, t)"
      "\<lambda>k v s. (ST_DELETE, s + v)" 0 7 "[]"]
  show ?thesis by (simp add: leaves_table_def) blast
qed

text \<open>A table that is not packed, with one entry.\<close>

definition one_heap :: heap where
  "one_heap = [1 \<mapsto> \<lparr>e_hash = 5, e_key = 5, e_record = 7, e_next = 0, e_fore = 0, e_back = 0\<rparr>]"

definition one_table :: st_table where
  "one_table = \<lparr>st_type = Type_numhash, entries_packed = False, num_entries = 1, st_bins = (replicate 11 0)[5 := 1],
     st_head = 1, st_tail = 1\<rparr>"

lemma one_table_represents: "represents one_heap one_table [(5, 7)]"
proof -
  have "chains_ok one_heap (st_bins one_table) {1} (\<lambda>i. if i = 5 then [1] else [])"
    by (auto simp: chains_ok_def one_heap_def one_table_def bin_of_def nth_list_update)
  then have "table_ok one_heap one_table [1] {}"
    by (auto simp: table_ok_def dl_ok_def one_heap_def one_table_def entry_ok_def type_hash_def st_numhash_def num_bins_def)
  moreover have "pairs one_heap [1] = [(5, 7)]" by (simp add: pairs_def one_heap_def entry_key_def)
  moreover have "hash_ok (st_type one_table)" by (simp add: one_table_def)
  ultimately show ?thesis by (auto simp: represents_def)
qed

text \<open>
  On a table with the tombstones \<open>dead\<close>, \<open>st_delete_safe\<close> ends, answers the pair of the key and takes it out of the
  association list without freeing anything, so that an iteration may go on; \<open>st_cleanup_safe\<close> ends, frees exactly the
  tombstones and leaves a well-formed table for the same pairs.
\<close>

theorem st_safe_deletion:
  assumes "stands_with_tombs h table never kvs dead"
  shows "(\<exists>h' table' dead'. st_delete_safe h table key never = Some (al_find (EQUAL table) key kvs, h', table')
      \<and> stands_with_tombs h' table' never (al_delete (EQUAL table) key kvs) dead' \<and> dead \<subseteq> dead' \<and> dom h' = dom h)
    \<and> (\<exists>h' table'. st_cleanup_safe h table never = Some (h', table') \<and> represents h' table' kvs \<and> dom h' = dom h - dead)"
  using st_delete_safe_tombs [OF assms, of key] st_cleanup_safe_represents [OF assms] by blast

text \<open>
  C19. \<open>st_copy\<close> yields a table for the same association list made of fresh entries; no entry that existed is
  written, so the old table still stands for its list.  It fails only when an allocation does.
\<close>

theorem st_copy_refines:
  assumes "stands_for h table kvs" and "malloc_ok malloc"
  shows "st_copy malloc h table = Some (Inl NoMemError) \<and> (\<exists>h. malloc h = None) \<or>
    (\<exists>h' table'. st_copy malloc h table = Some (Inr (h', table')) \<and> stands_for h' table' kvs
       \<and> stands_for h' table kvs \<and> extends h h' \<and> st_type table' = st_type table)"
  using st_copy_stands_for [OF assms] .

theorem st_copy_refines_witness:
  "\<exists>h' table'. st_copy bump_malloc Map.empty (empty_strtable (\<lambda>_. [])) = Some (Inr (h', table')) \<and> stands_for h' table' []"
proof -
  have "st_copy bump_malloc Map.empty (empty_strtable (\<lambda>_. [])) = Some (Inr (Map.empty, empty_strtable (\<lambda>_. [])))"
    by (simp add: st_copy_def empty_strtable_def num_bins_def)
  with st_copy_refines [OF empty_tables(2) bump_malloc_ok, of Map.empty "\<lambda>_. []"] show ?thesis by auto
qed

text \<open>
  \<open>st_clear\<close> frees each entry of the table once and nothing else, and leaves an empty well-formed table.
\<close>

theorem st_clear_frees:
  assumes "table_ok h table ps {}" and "hash_ok (st_type table)"
  shows "\<exists>table'. st_clear h table = Some (freed h (set ps), table') \<and> stands_for (freed h (set ps)) table' []
    \<and> st_free_table h table = Some (freed h (set ps))"
  using st_clear_represents [OF assms] by (auto simp: st_free_table_def intro: stands_for_unpacked)

section \<open>Where the hash tables rely on their clients\<close>

text \<open>
  A packed table with five numbers, and a callback that inserts a sixth number when it is first
  called.  The insertion unpacks the table; the packed loop of \<open>st_foreach\<close> goes on, reads heads of
  chains as keys and runs past the end of \<open>bins\<close>.
\<close>

definition full_numtable :: st_table where
  "full_numtable = \<lparr>st_type = Type_numhash, entries_packed = True, num_entries = 5,
     st_bins = [11, 0, 12, 0, 13, 0, 14, 0, 15, 0, 0], st_head = 0, st_tail = 0\<rparr>"

definition inserting_callback :: "bool callback" where
  "inserting_callback k v err st =
     (case st of (done, h, t) \<Rightarrow>
        if done then Some (ST_CONTINUE, done, h, t)
        else
          (case st_insert bump_malloc h t 16 0 of
             Some (Inr (b, h', t')) \<Rightarrow> Some (ST_CONTINUE, True, h', t')
           | _ \<Rightarrow> None))"

lemma full_numtable_ok: "stands_for Map.empty full_numtable [(11, 0), (12, 0), (13, 0), (14, 0), (15, 0)]"
  by (simp add: stands_for_def full_numtable_def packed_ok_def num_bins_def MAX_PACKED_NUMHASH_def packed_pairs_def
      upt_rec EQUAL_def type_compare_def st_numcmp_def)

lemma foreach_packed_overrun: "st_foreach inserting_callback False Map.empty full_numtable = None"
  by code_simp

text \<open>\<open>st_delete_safe\<close> has no branch for packed tables: it takes keys and records for pointers.\<close>

lemma delete_safe_packed_wild: "st_delete_safe Map.empty full_numtable 11 0 = None"
  by code_simp

section \<open>Random numbers\<close>

text \<open>
  C20. However many words are drawn, and wherever the blocks end, \<open>genrand_int32\<close> delivers the tempered members of one
  sequence that continues the state array by the recurrence of the twister.  Tempering is a permutation, so that
  each word of the sequence can be recovered from what is delivered.
\<close>

theorem mt_recurrence:
  assumes "mt_ok mt"
  shows "\<exists>x start mt'. (\<forall>k < N. x k = mt_state mt ! k)
      \<and> (\<forall>k. x (N + k) = x (k + M) XOR TWIST (x k) (x (k + 1)))
      \<and> genrand_list n mt = Some (map (\<lambda>k. temper (x (start + k))) [0..<n], mt') \<and> mt_ok mt' \<and> bij temper"
proof (intro exI conjI allI impI)
  define start where "start = (if mt_left mt \<le> 1 then N else N + 1 - nat (mt_left mt))"
  show "genrand_list n mt = Some (map (\<lambda>k. temper (mt_seq (mt_state mt) (start + k))) [0..<n], mt_source.after n mt)"
    using genrand_list_words [OF assms, of n] by (simp add: mt_out_def mt_word_def start_def fun_eq_iff)
qed (simp_all add: mt_seq_low mt_seq_step temper_bij genrand_list_words [OF assms])

text \<open>A generator that has just been seeded.\<close>

definition seeded :: "u32 \<Rightarrow> MT" where
  "seeded s = init_genrand \<lparr>mt_state = [], mt_next = None, mt_left = 0\<rparr> s"

theorem mt_recurrence_witness:
  "\<exists>x start mt'. (\<forall>k. x (N + k) = x (k + M) XOR TWIST (x k) (x (k + 1)))
     \<and> genrand_list 2 (seeded 5489) = Some ([temper (x start), temper (x (start + 1))], mt')"
proof -
  have "mt_ok (seeded 5489)" by (simp add: seeded_def)
  from mt_recurrence [OF this, of 2] obtain x start mt' where
    "\<forall>k. x (N + k) = x (k + M) XOR TWIST (x k) (x (k + 1))"
    "genrand_list 2 (seeded 5489) = Some (map (\<lambda>k. temper (x (start + k))) [0..<2], mt')" by blast
  moreover have "map (\<lambda>k. temper (x (start + k))) [0..<2] = [temper (x start), temper (x (start + 1))]"
    by (simp add: upt_rec)
  ultimately show ?thesis by metis
qed

text \<open>
  C21. \<open>rand\<close> of a non-zero integer, \<open>Fixnum\<close> or \<open>Bignum\<close> of either sign, returns as soon as the generator delivers
  acceptable words; the result is a normalised integer from 0 up to the magnitude, exclusive.
\<close>

theorem rand_in_range:
  assumes "mt_ok (rnd_mt R)" and "normal_int v" and "int_of v \<noteq> 0" and "acceptable (rnd_mt R) (\<bar>int_of v\<bar> - 1)"
  shows "\<exists>r R'. rb_f_rand env real_of fill [RInt v] R = Some (Inr (RInt r), R') \<and> mt_ok (rnd_mt R')
    \<and> normal_int r \<and> 0 \<le> int_of r \<and> int_of r < \<bar>int_of v\<bar>"
  using rb_f_rand_range [OF assms] .

theorem rand_in_range_witness:
  "\<forall>env :: (unit, unit) rb_env. \<exists>r R'.
     rb_f_rand env (\<lambda>_ _. ()) [] [RInt (VFix (LONG2FIX 16))] \<lparr>rnd_mt = seeded 1, seed_value = VFix 3, seed_initial = []\<rparr>
       = Some (Inr (RInt r), R') \<and> 0 \<le> int_of r \<and> int_of r < 16"
proof -
  have "normal_int (VFix (LONG2FIX 16))" "int_of (VFix (LONG2FIX 16)) = 16"
    using INT2FIX_normal [of 16] by (simp_all add: fixable_defs)
  then show ?thesis
    using rand_in_range [of "\<lparr>rnd_mt = seeded 1, seed_value = VFix 3, seed_initial = []\<rparr>" "VFix (LONG2FIX 16)" env "\<lambda>_ _. ()" "[]"
        for env :: "(unit, unit) rb_env"] acceptable_exp [of 4 "seeded 1"]
    by (simp add: seeded_def del: normal_int.simps int_of.simps) blast
qed

text \<open>
  C22. \<open>limited_rand\<close> has no bias: it returns the masked value of the first word that is in range, and all the numbers up to the
  limit are masked values of equally many words.  The mask is at most twice the limit, so that at least every
  second masked value is in range.
\<close>

theorem limited_rand_unbiased:
  assumes "mt_ok mt" and "limit \<noteq> 0" and "accepted mt limit n" and "\<forall>j < n. \<not> accepted mt limit j"
    and "u \<le> limit" and "v \<le> limit"
  shows "limited_rand mt limit = Some (mt_out mt n AND make_mask limit, mt_source.after (Suc n) mt)
    \<and> card {w :: u32. w AND make_mask limit = u} = card {w. w AND make_mask limit = v}
    \<and> 0 < card {w :: u32. w AND make_mask limit = u} \<and> unat (make_mask limit) \<le> 2 * unat limit"
  using limited_rand_first [OF assms(1-4)] mask_unbiased [OF assms(6,5)] mask_unbiased(1) [OF assms(5,6)] make_mask_bounds(2) [of limit] by blast

theorem limited_rand_unbiased_witness:
  "limited_rand (seeded 1) (mask 4) = Some (mt_out (seeded 1) 0 AND make_mask (mask 4), mt_source.after 1 (seeded 1))
    \<and> card {w :: u32. w AND make_mask (mask 4) = 3} = card {w :: u32. w AND make_mask (mask 4) = 14}"
proof -
  have "(mask 4 :: u32) \<noteq> 0" "(3 :: u32) \<le> mask 4" "(14 :: u32) \<le> mask 4" by (simp_all add: mask_eq_exp_minus_1)
  with limited_rand_unbiased [OF _ _ accepted_mask [of 4 "seeded 1" 0], of 3 14] show ?thesis
    by (simp add: seeded_def)
qed

text \<open>
  The value that the start-up reports as its seed is a faithful one: \<open>srand\<close> of it puts the generator into the very
  state that \<open>Init_RandomSeed\<close> made from the words of the system, leading zeros included.
\<close>

theorem seed_roundtrip:
  assumes "length fill = DEFAULT_SEED_CNT" and "safe_level < 4"
  shows "let R = Init_RandomSeed2 (Init_RandomSeed fill R0) in
    rb_f_srand env safe_level fill' [RInt (seed_value R)] R' = Inr (seed_value R', R'\<lparr>rnd_mt := rnd_mt R, seed_value := seed_value R\<rparr>)"
  using seed_roundtrip_generator [OF assms(1), of "rnd_mt R'" "rnd_mt R0"] assms(2)
  by (simp add: rb_f_srand_def rand_init_def Init_RandomSeed_def Init_RandomSeed2_def Let_def)

theorem seed_roundtrip_witness:
  "\<forall>env :: (unit, unit) rb_env. \<forall>R0 R'. let R = Init_RandomSeed2 (Init_RandomSeed [7, 0, 1, 0] R0) in
    rb_f_srand env 0 [] [RInt (seed_value R)] R' = Inr (seed_value R', R'\<lparr>rnd_mt := rnd_mt R, seed_value := seed_value R\<rparr>)"
  by (intro allI, rule seed_roundtrip) (simp_all add: DEFAULT_SEED_CNT_def)

text \<open>
  C23. After \<open>rb_reset_random_seed\<close>, which runs in a forked child, the routines that \<open>Array#shuffle\<close> and \<open>String#hash\<close> call read
  through the cleared pointer whenever words of the current block are left.  Only when a new block is due do they
  start from the default seed 5489.
\<close>

theorem genrand_after_fork:
  assumes "mt_ok (rnd_mt R)"
  shows "if 1 < mt_left (rnd_mt R)
    then rb_genrand_int32 (rb_reset_random_seed R) = None \<and> rb_genrand_real real_of (rb_reset_random_seed R) = None
    else map_option fst (rb_genrand_int32 (rb_reset_random_seed R)) = map_option fst (genrand_int32 (seeded 5489))"
proof (cases "1 < mt_left (rnd_mt R)")
  case False
  have "init_genrand (uninit_genrand (rnd_mt R)) 5489 = seeded 5489"
    by (cases "rnd_mt R") (simp add: init_genrand_def seeded_def uninit_genrand_def)
  then have "genrand_int32 (uninit_genrand (rnd_mt R)) = genrand_int32 (seeded 5489)"
    using False genrand_uninitialized [of "uninit_genrand (rnd_mt R)"]
    by (simp add: uninit_genrand_def) (simp add: seeded_def init_genrand_def)
  with False show ?thesis
    by (simp add: rb_genrand_int32_def rb_reset_random_seed_def option.map_comp comp_def case_prod_unfold)
qed (simp add: genrand_after_reset)

theorem genrand_after_fork_witness:
  "\<exists>mt. mt_ok mt \<and> (\<forall>R :: Random. rnd_mt R = mt \<longrightarrow> rb_genrand_int32 (rb_reset_random_seed R) = None)"
proof (intro exI conjI allI impI)
  define mt where "mt = (next_state (seeded 1))\<lparr>mt_next := Some 1\<rparr>"
  have "length (mt_state (seeded 1)) = N" "genrand_initialized (seeded 1)"
    using init_genrand_ok [of _ 1] by (simp_all add: mt_ok_def seeded_def)
  note ns = next_state_seq [OF this]
  show ok: "mt_ok mt" using ns by (simp add: mt_def mt_ok_def genrand_initialized_def N_def)
  fix R :: Random assume R: "rnd_mt R = mt"
  have "1 < mt_left (rnd_mt R)" using ns(3) by (simp add: R mt_def N_def)
  with genrand_after_fork [of R "\<lambda>_ _. ()"] ok R show "rb_genrand_int32 (rb_reset_random_seed R) = None" by simp
qed

section \<open>Binary packing\<close>

text \<open>
  C24. \<open>utf8_to_uv\<close> reads a character of \<open>n\<close> bytes exactly where \<open>rb_uv_to_utf8\<close> writes these bytes for that character: the
  codec is a bijection on its 31 bits, and every malformed, truncated or redundant sequence raises
  \<open>ArgumentError\<close>.
\<close>

theorem utf8_codec:
  assumes "p \<noteq> []"
  shows "(utf8_to_uv p = Inr (uv, n) \<longleftrightarrow> rb_uv_to_utf8 uv = Inr (take n p) \<and> n \<le> length p)
    \<and> (utf8_to_uv p = Inl e \<longrightarrow> e = ArgError)"
proof (intro conjI iffI impI)
  assume e: "rb_uv_to_utf8 uv = Inr (take n p) \<and> n \<le> length p"
  then have "uv \<le> 0x7fffffff" by (auto simp: rb_uv_to_utf8_def word_le_nat_alt split: if_splits)
  from utf8_decode_encode [OF this] e have "\<forall>rest. utf8_to_uv (take n p @ rest) = Inr (uv, length (take n p))" by auto
  then have "utf8_to_uv (take n p @ drop n p) = Inr (uv, length (take n p))" ..
  with e show "utf8_to_uv p = Inr (uv, n)" by simp
next
  assume "utf8_to_uv p = Inl e"
  then show "e = ArgError" by (auto simp: utf8_to_uv_def Let_def split: if_splits option.splits)
qed (use utf8_encode_decode [OF assms] in blast)+

theorem utf8_codec_witness:
  "utf8_to_uv [0xe2, 0x82, 0xac, 0x21] = Inr (0x20ac, 3)"
proof -
  have "rb_uv_to_utf8 0x20ac = Inr [0xe2, 0x82, 0xac]" by code_simp
  with utf8_codec [of "[0xe2, 0x82, 0xac, 0x21]" "0x20ac" 3 ArgError] show ?thesis by (simp add: numeral_eq_Suc)
qed

text \<open>
  With the count 0 the base64 decoder is strict: it yields the string \<open>s\<close> on exactly one text, the one that the
  encoder writes for \<open>s\<close>.
\<close>

theorem base64_canonical:
  assumes "length t * 3 < 2 ^ 31"
  shows "(\<exists>rest. unpack_m 0 t = Some (Inr (rest, s))) \<longleftrightarrow> pack_encoded [] s 0 (CHR ''m'') = Some t"
  by (rule pack_m0_canonical [OF assms])

theorem base64_canonical_witness: "\<exists>rest. unpack_m 0 [0x59, 0x51, 0x3d, 0x3d] = Some (Inr (rest, [0x61]))"
proof -
  have "pack_encoded [] [0x61] 0 (CHR ''m'') = Some [0x59, 0x51, 0x3d, 0x3d]" by code_simp
  with base64_canonical [of "[0x59, 0x51, 0x3d, 0x3d]" "[0x61]"] show ?thesis by simp
qed

text \<open>
  C25. The texts written by the directives \<open>m\<close>, \<open>u\<close> and \<open>M\<close> are read back as the bytes they stand for, whatever the count, as long
  as a uuencoded line has at most 63 bytes.
\<close>

theorem text_roundtrip:
  "(pack_encoded res s len (CHR ''m'') = Some t \<and> length t * 3 < 2 ^ 31 \<and> len' \<noteq> 0 \<longrightarrow>
      (\<exists>cs rest. t = res @ cs \<and> unpack_m len' cs = Some (Inr (rest, s))))
    \<and> (pack_encoded res s len (CHR ''u'') = Some t \<and> length t * 3 < 2 ^ 31 \<and> len \<le> 65 \<longrightarrow>
      (\<exists>cs. t = res @ cs \<and> unpack_u cs = Some (Inr ([], False, s))))
    \<and> (\<exists>cs. pack_M res s len = Some (res @ cs) \<and> unpack_M cs = Some ([], s))"
  using pack_m_roundtrip pack_u_roundtrip pack_M_roundtrip by blast

theorem text_roundtrip_witness:
  "\<exists>rest. unpack_m 1 [0x59, 0x57, 0x49, 0x3d, 10] = Some (Inr (rest, [0x61, 0x62]))"
proof -
  have "pack_encoded [] [0x61, 0x62] 3 (CHR ''m'') = Some [0x59, 0x57, 0x49, 0x3d, 10]" by code_simp
  with conjunct1 [OF text_roundtrip [of "[]" "[0x61, 0x62]" 3 "[0x59, 0x57, 0x49, 0x3d, 10]" 1]] show ?thesis by simp
qed

text \<open>
  C26. The encoders for \<open>m\<close> and \<open>u\<close> return a text except when the last line, of \<open>r\<close> bytes, ends with an incomplete group that fills
  the buffer of 4096 bytes to its end: then the newline is written behind the buffer.  No other write leaves it.
\<close>

theorem encodes_overrun:
  "(pack_encoded res s len (CHR ''m'') = None \<longleftrightarrow>
      len \<noteq> 0 \<and> (let r = length s mod line_bytes len in r mod 3 \<noteq> 0 \<and> r div 3 mod 1024 = 1023))
    \<and> (pack_encoded res s len (CHR ''u'') = None \<longleftrightarrow>
      (let r = length s mod line_bytes len in r mod 3 \<noteq> 0 \<and> 1023 \<le> r div 3 \<and> (r div 3 - 1023) mod 1024 = 1023))
    \<and> pack_encoded [] (replicate 3070 b) 3072 (CHR ''m'') = None"
  by (simp add: pack_encoded_result overruns_m overruns_u Let_def) (simp add: line_bytes_def)

text \<open>
  C27. On every string and every format whose counts are not negative as a \<open>long\<close> and that has \<open>u\<close> only at its end, \<open>pack_unpack\<close>
  ends with values or an error: no directive reads outside the string, or writes outside a string it allocates.
\<close>

theorem unpack_safe:
  assumes "length str < 2 ^ 28" and "\<forall>k. \<not> pk_stop env k" and "safe_format fmt"
  shows "pack_unpack env False assoc str fmt \<noteq> None"
  by (rule pack_unpack_safe [OF assms])

theorem unpack_safe_witness:
  "\<forall>env :: (unit, unit) pack_env.
     pack_unpack (env\<lparr>pk_stop := \<lambda>_. False\<rparr>) False None [0x41, 0x42, 0xff] ''@1 C X2 a9 n* x0 m0 P w*'' \<noteq> None"
proof -
  have "safe_format ''@1 C X2 a9 n* x0 m0 P w*''" by code_simp
  then show ?thesis
    using unpack_safe [of "[0x41, 0x42, 0xff]" "env\<lparr>pk_stop := \<lambda>_. False\<rparr>" "''@1 C X2 a9 n* x0 m0 P w*''" None
      for env :: "(unit, unit) pack_env"]
    by simp
qed


text \<open>
  C29. Under each of the directives \<open>c\<close>, \<open>C\<close>, \<open>s\<close>, \<open>S\<close>, \<open>i\<close>, \<open>I\<close>, \<open>l\<close>, \<open>L\<close>, \<open>q\<close>, \<open>Q\<close>, \<open>n\<close>, \<open>N\<close>, \<open>v\<close> and \<open>V\<close> the packed string is the sequence of
  the low bytes of the integers, \<open>Fixnum\<close> or \<open>Bignum\<close>, big end first for \<open>n\<close> and \<open>N\<close>; unpacking yields for each the
  normalised object of the integer reduced modulo the width, to a signed range where the directive is signed.
\<close>

theorem integers_packed:
  assumes "type \<in> set ''cCsSiIlLqQnNvV''" and "int_width type * length vs < 2 ^ 28"
  shows "\<exists>bs rs. pack_pack env (map (\<lambda>v. PVal (RInt v)) vs) [type, CHR ''*''] = ok (bs, 0, [])
    \<and> bs = concat (map (\<lambda>v. int_bytes type (int_of v)) vs)
    \<and> pack_unpack env False assoc bs [type, CHR ''*''] = ok (map (\<lambda>r. PVal (RInt r)) rs)
    \<and> list_all2 (\<lambda>v r. normal_int r \<and> int_of r = reduced type (int_of v)) vs rs"
  using pack_integers [OF assms(1), of env vs] unpack_integers [OF assms(1), of "map int_of vs" env assoc] assms(2)
    unpack_int_bytes [OF assms(1)]
  by (intro exI [of _ "concat (map (\<lambda>v. int_bytes type (int_of v)) vs)"]
      exI [of _ "map (\<lambda>v. unpack_int type (int_bytes type (int_of v))) vs"])
    (simp add: o_def list_all2_conv_all_nth)

theorem integers_packed_witness:
  "\<forall>env :: (unit, unit) pack_env. \<exists>bs rs. pack_pack env (map (\<lambda>v. PVal (RInt v)) [VFix 0xffff0001, VFix 3]) ''n*'' = ok (bs, 0, [])
     \<and> pack_unpack env False None bs ''n*'' = ok (map (\<lambda>r. PVal (RInt r)) rs) \<and> map int_of rs = [32768, 1]"
proof
  fix env :: "(unit, unit) pack_env"
  have r: "reduced CHR ''n'' (int_of (VFix 0xffff0001)) = 32768" "reduced CHR ''n'' (int_of (VFix 3)) = 1" by code_simp+
  show "\<exists>bs rs. pack_pack env (map (\<lambda>v. PVal (RInt v)) [VFix 0xffff0001, VFix 3]) ''n*'' = ok (bs, 0, [])
     \<and> pack_unpack env False None bs ''n*'' = ok (map (\<lambda>r. PVal (RInt r)) rs) \<and> map int_of rs = [32768, 1]"
    using integers_packed [of "CHR ''n''" "[VFix 0xffff0001, VFix 3]" env None] r
    by (auto simp: int_width_def list_all2_Cons1 simp del: normal_int.simps int_of.simps)
qed

text \<open>
  C30. A list of non-negative integers, \<open>Fixnum\<close> or \<open>Bignum\<close> of any length, is packed under \<open>w*\<close> as the sequence of their digits to the
  base 128, all but the last of a number marked, and unpacked as the very same objects.
\<close>

theorem ber_roundtrip:
  assumes "\<forall>k. \<not> pk_stop env k" and "\<forall>v \<in> set vs. normal_int v \<and> 0 \<le> int_of v"
    and "length (concat (map (\<lambda>v. ber_bytes (int_of v)) vs)) < 2 ^ 28"
  shows "\<exists>bs. pack_pack env (map (\<lambda>v. PVal (RInt v)) vs) ''w*'' = ok (bs, 0, [])
    \<and> bs = concat (map (\<lambda>v. ber_bytes (int_of v)) vs)
    \<and> pack_unpack env False assoc bs ''w*'' = ok (map (\<lambda>v. PVal (RInt v)) vs)"
  using pack_compressed_all [OF assms(1,2)] unpack_compressed_all [OF assms(1,2) refl assms(3)] by blast

theorem ber_roundtrip_witness:
  "\<forall>env :: (unit, unit) pack_env.
     pack_pack (env\<lparr>pk_stop := \<lambda>_. False\<rparr>) [PVal (RInt (VFix 0x7fffffff)), PVal (RInt (VFix 1))] ''w*'' = ok ([0x83, 0xff, 0xff, 0xff, 0x7f, 0], 0, [])
     \<and> pack_unpack (env\<lparr>pk_stop := \<lambda>_. False\<rparr>) False None [0x83, 0xff, 0xff, 0xff, 0x7f, 0] ''w*'' = ok [PVal (RInt (VFix 0x7fffffff)), PVal (RInt (VFix 1))]"
proof
  fix env :: "(unit, unit) pack_env"
  have b: "concat (map (\<lambda>v. ber_bytes (int_of v)) [VFix 0x7fffffff, VFix 1]) = [0x83, 0xff, 0xff, 0xff, 0x7f, 0]" by code_simp
  have "\<forall>v \<in> set [VFix 0x7fffffff, VFix 1]. normal_int v \<and> 0 \<le> int_of v"
    using max_fixnum INT2FIX_normal [of 0] by (simp add: LONG2FIX_def fixable_defs del: normal_int.simps int_of.simps)
  from ber_roundtrip [OF _ this, of "env\<lparr>pk_stop := \<lambda>_. False\<rparr>" None, unfolded b]
  show "pack_pack (env\<lparr>pk_stop := \<lambda>_. False\<rparr>) [PVal (RInt (VFix 0x7fffffff)), PVal (RInt (VFix 1))] ''w*'' = ok ([0x83, 0xff, 0xff, 0xff, 0x7f, 0], 0, [])
     \<and> pack_unpack (env\<lparr>pk_stop := \<lambda>_. False\<rparr>) False None [0x83, 0xff, 0xff, 0xff, 0x7f, 0] ''w*'' = ok [PVal (RInt (VFix 0x7fffffff)), PVal (RInt (VFix 1))]"
    by simp
qed

text \<open>
  Under \<open>b*\<close>, \<open>B*\<close>, \<open>h*\<close> and \<open>H*\<close> the digits that \<open>pack_unpack\<close> writes for a string are packed by \<open>pack_pack\<close> to that string.
\<close>

theorem digits_roundtrip:
  assumes "type \<in> set ''bBhH''" and "length str < 2 ^ 28"
  shows "\<exists>ds. pack_unpack env False assoc str [type, CHR ''*''] = ok [PStr ds] \<and> length ds = digits_in_byte type * length str
    \<and> pack_pack env [PStr ds] [type, CHR ''*''] = ok (str, 0, [])"
  using unpack_digits_star [OF assms, of env assoc] pack_digits_star [OF assms(1), of env str] length_all_digits [of type str] by blast

section \<open>Arrays\<close>

text \<open>
  C31. The methods of arrays refine operations on lists: though slices, copies and shifted arrays point into one buffer, a method that runs on a
  well-formed heap gives the reply or the error of \<open>ary_spec\<close>, leaves a well-formed heap whose arrays are those of \<open>ary_spec\<close>, all others
  unchanged, and never touches a cell outside of an object or a live buffer.  \<open>fits\<close> asks that the arrays exist, that the receiver may be
  written, and that sizes stay within the limit of an array.
\<close>

theorem array_methods:
  assumes "heap_ok h" and "fits c (view h)"
  shows "view h (ah_next_obj h) = None
    \<and> (\<exists>h'. ary_exec c h = Some (fst (ary_spec (ah_nil h) (ah_next_obj h) c (view h)), h') \<and> heap_ok h'
      \<and> view h' = snd (ary_spec (ah_nil h) (ah_next_obj h) c (view h)) \<and> ah_nil h' = ah_nil h)"
  using fresh_address [OF assms(1)] all_refine [OF assms] by (auto simp: refines_def becomes_def Let_def)

text \<open>A slice of four elements shares the buffer; storing into the array does not show in the slice.\<close>

theorem array_methods_witness:
  "\<exists>r h1 h2 h3. ary_exec (CNew [5, 6, 7, 8, 9]) (empty_heap (0 :: nat) 99 0) = Some (Inr (Made 1), h1)
    \<and> ary_exec (CSlice 1 0 4) h1 = Some (Inr (Made r), h2) \<and> ary_exec (CStore 1 0 3) h2 = Some (Inr Done, h3)
    \<and> view h3 1 = Some ([3, 6, 7, 8, 9], True) \<and> view h3 r = Some ([5, 6, 7, 8], True)"
proof -
  have v0: "view (empty_heap (0 :: nat) 99 0) = (\<lambda>_. None)" "ah_next_obj (empty_heap (0 :: nat) 99 0) = 1"
    by (simp_all add: view_def empty_heap_def fun_eq_iff)
  obtain h1 where 1: "ary_exec (CNew [5, 6, 7, 8, 9]) (empty_heap (0 :: nat) 99 0) = Some (Inr (Made 1), h1)" "heap_ok h1"
    "view h1 = [1 \<mapsto> ([5, 6, 7, 8, 9], True)]"
    using array_methods [OF empty_ok [of "0 :: nat" 99 0], of "CNew [5, 6, 7, 8, 9]"] by (auto simp: v0 put_def ARY_MAX_SIZE_def)
  define r where "r = ah_next_obj h1"
  have e1: "elems (view h1) 1 = [5, 6, 7, 8, 9]" by (simp add: 1(3) elems_def)
  have s2: "ary_spec (ah_nil h1) r (CSlice 1 0 4) (view h1) = (Inr (Made r), (view h1)(r \<mapsto> ([5, 6, 7, 8], True)))"
    using e1 by (simp add: slice_spec_def index_of_def put_def)
  obtain h2 where 2: "ary_exec (CSlice 1 0 4) h1 = Some (Inr (Made r), h2)" "heap_ok h2" "view h2 = (view h1)(r \<mapsto> ([5, 6, 7, 8], True))"
    "view h1 r = None"
    using array_methods [OF 1(2), of "CSlice 1 0 4"] unfolding r_def [symmetric] s2 by (auto simp: 1(3) present_def)
  have v2: "view h2 1 = Some ([5, 6, 7, 8, 9], True)" "r \<noteq> 1" using 2(3,4) 1(3) by auto
  have s3: "ary_spec (ah_nil h2) (ah_next_obj h2) (CStore 1 0 3) (view h2) = (Inr Done, (view h2)(1 \<mapsto> ([3, 6, 7, 8, 9], True)))"
    using v2(1) by (simp add: elems_def index_of_def ARY_MAX_SIZE_def store_list_def put_def)
  obtain h3 where 3: "ary_exec (CStore 1 0 3) h2 = Some (Inr Done, h3)" "view h3 = (view h2)(1 \<mapsto> ([3, 6, 7, 8, 9], True))"
    using array_methods [OF 2(2), of "CStore 1 0 3"] unfolding s3
    using v2(1) by (auto simp: may_write_def elems_def index_of_def ARY_MAX_SIZE_def)
  show ?thesis using 1(1) 2(1,3) 3 v2(2) by (intro exI [of _ r] exI [of _ h1] exI [of _ h2] exI [of _ h3]) simp
qed

text \<open>
  C32. Whatever program of these methods runs, every array that has no cells of its own points into a live buffer that holds all its elements,
  two arrays point into the same buffer only when they share one root, which counts at least all arrays that share it, and the
  next method that fits ends.
\<close>

theorem array_programs:
  assumes "ary_reach h"
  shows "(\<forall>a ob. ah_objs h a = Some ob \<and> \<not> ao_embed ob \<longrightarrow>
        (\<exists>vs. ah_bufs h (fst (ao_ptr ob)) = Some vs \<and> snd (ao_ptr ob) + ao_len ob \<le> length vs))
    \<and> (\<forall>a ob x xo. ah_objs h a = Some ob \<and> ah_objs h x = Some xo \<and> a \<noteq> x \<and> \<not> ao_root ob \<and> \<not> ao_root xo \<and> \<not> ao_embed ob \<and> \<not> ao_embed xo
        \<and> fst (ao_ptr ob) = fst (ao_ptr xo) \<longrightarrow> ao_shared ob \<and> ao_shared xo \<and> ao_aux ob = ao_aux xo)
    \<and> (\<forall>s so. ah_objs h s = Some so \<and> ao_root so \<longrightarrow> finite (sharers h s) \<and> int (card (sharers h s)) \<le> ao_aux so)
    \<and> (\<forall>c. fits c (view h) \<longrightarrow> (\<exists>res h'. ary_exec c h = Some (res, h') \<and> ary_reach h'))"
proof -
  note ok = reach_ok [OF assms]
  have "\<exists>res h'. ary_exec c h = Some (res, h') \<and> ary_reach h'" if "fits c (view h)" for c
    using all_refine [OF ok that] ary_step [OF assms that] by (auto simp: refines_def Let_def)
  then show ?thesis using buffer_of [OF ok] meet_in_root [OF ok] finite_sharers [OF ok] heap_okD(4) [OF ok] by blast
qed

theorem array_programs_witness:
  "\<exists>res h'. ary_exec (CNew [5, 6, 7, 8]) (empty_heap (0 :: nat) 99 0) = Some (res, h') \<and> ary_reach h'"
  using array_programs [OF ary_start [of "0 :: nat" 99 0]] by (simp add: ARY_MAX_SIZE_def del: ary_exec.simps)





text \<open>
  C34. What \<open>fits\<close> excludes leaves the memory of the array.  The largest index that \<open>rb_ary_store\<close> accepts asks for a capacity equal to the
  index, as half of the one cell that is left to the limit is none.  \<open>Array#initialize\<close> on an array in use, with a size that fits the cells of
  the object, moves all the old elements there.
\<close>

theorem array_overruns:
  assumes "heap_ok h" and "view h a = Some (xs, True)" and "ah_objs h a = Some ob" and "\<not> ao_shared ob" and "ARY_CAPA ob < ARY_MAX_SIZE"
  shows "(int (length xs) < ARY_MAX_SIZE - 1 \<longrightarrow> rb_ary_store a (word_of_int (ARY_MAX_SIZE - 1)) val h = None)
    \<and> (int RARRAY_EMBED_LEN_MAX < int (length xs) \<and> 0 \<le> sint n \<and> sint n \<le> int RARRAY_EMBED_LEN_MAX \<longrightarrow> rb_ary_initialize a n val h = None)"
  using store_overruns [OF assms] initialize_overruns [OF assms(1,2), of n "nat (sint n)"] by auto

definition cells_4 :: "nat ary_heap" where
  "cells_4 = (empty_heap 0 99 0)\<lparr>ah_objs := [1 \<mapsto> \<lparr>ao_embed = False, ao_shared = False, ao_root = False, ao_frozen = False,
     ao_untrusted = False, ao_elen = 0, ao_ptr = (0, 0), ao_len = 4, ao_aux = 4\<rparr>], ah_embed := (\<lambda>_. [99, 99, 99]), ah_next_obj := 2,
     ah_bufs := [0 \<mapsto> [1, 2, 3, 4]], ah_next_buf := 1\<rparr>"

lemma cells_4: "heap_ok cells_4" "view cells_4 1 = Some ([1, 2, 3, 4], True)"
  by (auto simp: heap_ok_def rep_ok_def cells_4_def empty_heap_def RARRAY_EMBED_LEN_MAX_def ARY_OWNS_HEAP_P_def ARY_MAX_SIZE_def sharers_def
      view_def contents_def RARRAY_LEN_def RARRAY_PTR_def cells_of_def writable_def split: if_splits)

theorem array_overruns_witness:
  "rb_ary_store 1 536870910 5 cells_4 = None \<and> rb_ary_initialize 1 2 5 cells_4 = None"
proof -
  have "ah_objs cells_4 1 = Some \<lparr>ao_embed = False, ao_shared = False, ao_root = False, ao_frozen = False,
     ao_untrusted = False, ao_elen = 0, ao_ptr = (0, 0), ao_len = 4, ao_aux = 4\<rparr>" by (simp add: cells_4_def)
  from array_overruns [OF cells_4 this, of 5 2] show ?thesis
    by (simp add: ARY_CAPA_def ARY_MAX_SIZE_def RARRAY_EMBED_LEN_MAX_def)
qed

section \<open>Sorting\<close>

text \<open>
  C35. \<open>ruby_qsort\<close> ends for every comparison function, even one that contradicts itself, without leaving the array and without
  running out of its stack of 32 regions, and permutes the array; where the comparison is a total order, the result is sorted.
\<close>

theorem qsort_sorts:
  assumes "length xs < 2 ^ 31"
  shows "\<exists>ys. ruby_qsort cmp xs = Some ys \<and> mset ys = mset xs \<and> (total_cmp cmp \<longrightarrow> sorted_wrt (\<lambda>x y. cmp x y \<le> 0) ys)"
  using ruby_qsort_ok [OF assms, of cmp] by (auto simp: sorted_wrt_iff_nth_less)

theorem qsort_sorts_witness:
  "\<exists>ys. ruby_qsort (\<lambda>x y. x - y) [3, 1, 2, 1 :: int] = Some ys \<and> mset ys = {#1, 1, 2, 3#} \<and> sorted_wrt (\<le>) ys"
proof -
  have "total_cmp (\<lambda>x y :: int. x - y)" by (auto simp: total_cmp_def sgn_if)
  then show ?thesis using qsort_sorts [of "[3, 1, 2, 1 :: int]" "\<lambda>x y. x - y"] by (simp add: add_mset_commute)
qed

text \<open>
  C36. On bytes, \<open>mmswap_\<close> and \<open>mmrot3_\<close> are the exchange and the rotation of elements that \<open>ruby_qsort\<close> is modelled with, in all
  three ways of moving that \<open>mmprepare\<close> chooses from, unless the array is aligned to words and its elements are not made of words:
  then the rest of each element stays, and elements of less than four bytes do not move at all.
\<close>

theorem qsort_moves:
  assumes "mmprepare base sz = (kind, high, low)" and "0 < sz"
  shows "((base mod 4 \<noteq> 0 \<or> sz mod 4 = 0) \<and> (\<forall>e \<in> set es. length e = sz) \<longrightarrow>
      (\<forall>a b ys. mmswap es a b = Some ys \<longrightarrow> mmswap_bytes kind sz high low (concat es) (a * sz) (b * sz) = concat ys)
      \<and> (\<forall>a b c ys. mmrot3 es a b c = Some ys \<and> (a < b \<and> b < c \<or> c < b \<and> b < a) \<longrightarrow>
           mmrot3_bytes kind sz high low (concat es) (a * sz) (b * sz) (c * sz) = concat ys))
    \<and> (base mod 4 = 0 \<and> sz < 4 \<longrightarrow>
      (\<forall>mem a b c. mmswap_bytes kind sz high low mem a b = mem \<and> mmrot3_bytes kind sz high low mem a b c = mem))"
  using mmswap_bytes_refines [OF assms(1)] mmrot3_bytes_refines [OF assms(1)] moved_all [OF assms(2)]
    small_elements_stay [OF _ _ assms(1)] by auto

theorem qsort_moves_witness:
  "mmswap_bytes 0 4 0 4 [1, 2, 3, 4, 5, 6, 7, 8] 0 4 = [5, 6, 7, 8, 1, 2, 3, 4] \<and> mmswap_bytes 0 3 0 0 [1, 2, 3, 4, 5, 6] 0 3 = [1, 2, 3, 4, 5, 6]"
proof -
  have p: "mmprepare 8 4 = (0, 0, 4)" "mmprepare 8 3 = (0, 0, 0)" by (simp_all add: mmprepare_def)
  have "mmswap [[1, 2, 3, 4], [5, 6, 7, 8 :: u8]] 0 1 = Some [[5, 6, 7, 8], [1, 2, 3, 4]]" by (simp add: mmswap_def)
  then have "mmswap_bytes 0 4 0 4 (concat [[1, 2, 3, 4], [5, 6, 7, 8]]) (0 * 4) (1 * 4) = concat [[5, 6, 7, 8], [1, 2, 3, 4]]"
    using qsort_moves [OF p(1), of "[[1, 2, 3, 4], [5, 6, 7, 8]]"] by fastforce
  then show ?thesis using qsort_moves [OF p(2)] by simp
qed

text \<open>
  C37. While \<open><=>\<close> of \<open>Fixnum\<close> and \<open>Bignum\<close> is not redefined, \<open>sort_2\<close> orders Integers by their value, Fixnums by their tagged words;
  \<open>sort!\<close>, \<open>sort\<close> and \<open>Enumerable#sort\<close> of an array of Integers end and return them in ascending order, and \<open>sort\<close> leaves the receiver
  as it is.
\<close>

theorem array_sort_integers:
  assumes "fix_basic ce" and "big_basic ce" and "\<forall>v \<in> set vs. normal_int v" and "length vs < 2 ^ 31"
  shows "(\<forall>v \<in> set vs. \<forall>w \<in> set vs. sort_2 env ce (RInt v) (RInt w) = Inr (order_by int_of v w))
    \<and> (\<exists>ys. rb_ary_sort_bang (order_by int_of) vs = Some ys \<and> rb_ary_sort (order_by int_of) vs = Some (ys, vs)
         \<and> enum_sort (order_by int_of) vs = Some ys \<and> mset ys = mset vs \<and> map int_of ys = sort (map int_of vs))"
  using ary_sort_by_int [OF assms(4), of int_of] sort_2_integers [OF assms(1,2), of _ _ env] assms(3)
  by (auto simp: rb_ary_sort_def enum_sort_def)

abbreviation basic_env :: "(unit, unit) cmp_env" where
  "basic_env \<equiv> \<lparr>other_cmp = \<lambda>_ _. Inr RNil, other_gt0 = \<lambda>_. Inr False, other_lt0 = \<lambda>_. Inr False, fix_basic = True, big_basic = True,
     string_cmp = \<lambda>_ _. None, string_basic = True, same_object = \<lambda>_ _. False\<rparr>"

theorem array_sort_integers_witness:
  "\<exists>ys. rb_ary_sort (order_by int_of) [VBig (mk_big True [9, 3]), VFix 0x7fffffff] = Some (ys, [VBig (mk_big True [9, 3]), VFix 0x7fffffff])
     \<and> map int_of ys = [1073741823, 12884901897]"
  using array_sort_integers [of basic_env "[VBig (mk_big True [9, 3]), VFix 0x7fffffff]"] max_fixnum big_9_3
  by (simp del: normal_int.simps int_of.simps) metis

text \<open>
  \<open>sort_by\<close> with keys that are Integers compares the keys without raising, and returns a permutation of the elements in ascending order of their
  keys; the first key that raises an error ends it with this error.
\<close>

theorem sort_by_integers:
  assumes "length vs < 2 ^ 31" and "\<forall>v \<in> set vs. key v = Inr (k v) \<and> k v \<in> basic_integers ce"
  shows "(\<forall>v \<in> set vs. \<forall>w \<in> set vs. sort_by_cmp env ce (k v, v) (k w, w) = Inr (order_by (\<lambda>p. integer_value (fst p)) (k v, v) (k w, w)))
    \<and> (\<exists>ys. enum_sort_by (order_by (\<lambda>p. integer_value (fst p))) key vs = Some (Inr ys) \<and> mset ys = mset vs
         \<and> map (\<lambda>v. integer_value (k v)) ys = sort (map (\<lambda>v. integer_value (k v)) vs))
    \<and> (\<forall>u e ws. key u = Inl e \<longrightarrow> enum_sort_by (order_by (\<lambda>p. integer_value (fst p))) key (vs @ u # ws) = Some (Inl e))"
proof (intro conjI ballI allI impI)
  fix v w assume "v \<in> set vs" "w \<in> set vs"
  then have "k v \<in> basic_integers ce" "k w \<in> basic_integers ce" using assms(2) by auto
  then show "sort_by_cmp env ce (k v, v) (k w, w) = Inr (order_by (\<lambda>p. integer_value (fst p)) (k v, v) (k w, w))"
    by (auto simp: basic_integers_def sort_by_cmp_integers split: if_splits)
next
  show "\<exists>ys. enum_sort_by (order_by (\<lambda>p. integer_value (fst p))) key vs = Some (Inr ys) \<and> mset ys = mset vs
      \<and> map (\<lambda>v. integer_value (k v)) ys = sort (map (\<lambda>v. integer_value (k v)) vs)"
    using enum_sort_by_int [of vs key k integer_value] assms by blast
next
  fix u e ws assume "key u = Inl e"
  then show "enum_sort_by (order_by (\<lambda>p. integer_value (fst p))) key (vs @ u # ws) = Some (Inl e)"
    using sort_by_i_error [of key u e vs ws] assms(2) by (auto simp: enum_sort_by_def)
qed

theorem sort_by_integers_witness:
  "\<exists>ys. enum_sort_by (order_by (\<lambda>p :: (unit, unit) rb_value \<times> bool. integer_value (fst p)))
      (\<lambda>b. Inr (RInt (VFix (if b then 3 else 0x7fffffff)))) [False, True] = Some (Inr ys)
    \<and> map (\<lambda>b. int_of (VFix (if b then 3 else 0x7fffffff))) ys = [1, 1073741823]"
proof -
  have i: "normal_int (VFix 3)" "int_of (VFix 3) = 1" using INT2FIX_normal [of 1] by (simp_all add: LONG2FIX_def fixable_defs)
  show ?thesis
    using sort_by_integers [of "[False, True]" "\<lambda>b. Inr (RInt (VFix (if b then 3 else 0x7fffffff)))"
        "\<lambda>b. RInt (VFix (if b then 3 else 0x7fffffff))" basic_env] i max_fixnum
    by (simp add: basic_integers_def integer_value_def del: normal_int.simps int_of.simps) metis
qed

section \<open>Comparing and ranges\<close>

text \<open>
  C38. On elements with Integer keys, \<open>min_by\<close>, \<open>max_by\<close> and \<open>minmax_by\<close> end without an error with elements of the least and of the greatest key, the
  same for the single and the combined method; on the keys themselves, \<open>min\<close>, \<open>max\<close> and \<open>minmax\<close> do.
\<close>

theorem integer_extremes:
  assumes "vs \<noteq> []" and "\<forall>v \<in> set vs. key v = Inr (k v) \<and> k v \<in> basic_integers ce"
  shows "(\<exists>lo hi. enum_min_by (compare env ce) key vs = Inr (Some lo) \<and> enum_max_by (compare env ce) key vs = Inr (Some hi)
      \<and> enum_minmax_by (compare env ce) key vs = Inr (Some (lo, hi)) \<and> lo \<in> set vs \<and> hi \<in> set vs
      \<and> (\<forall>v \<in> set vs. integer_value (k lo) \<le> integer_value (k v) \<and> integer_value (k v) \<le> integer_value (k hi)))
    \<and> (\<exists>lo hi. enum_min (compare env ce) (map k vs) = Inr (Some lo) \<and> enum_max (compare env ce) (map k vs) = Inr (Some hi)
      \<and> enum_minmax (compare env ce) (map k vs) = Inr (Some (lo, hi)) \<and> lo \<in> k ` set vs \<and> hi \<in> k ` set vs
      \<and> (\<forall>v \<in> set vs. integer_value lo \<le> integer_value (k v) \<and> integer_value (k v) \<le> integer_value hi))"
  using extremes_by_key [OF assms, of env] integers.extremes [of "map k vs" ce env] assms by auto

theorem integer_extremes_witness:
  "\<forall>env :: (unit, unit) rb_env. \<exists>hi. enum_max (compare env basic_env) [RInt (VFix 0x7fffffff), RInt (VBig (mk_big True [9, 3]))] = Inr (Some hi)
     \<and> 12884901897 \<le> integer_value hi"
proof
  fix env :: "(unit, unit) rb_env"
  define vs where "vs = [RInt (VFix 0x7fffffff), RInt (VBig (mk_big True [9, 3])) :: (unit, unit) rb_value]"
  have "vs \<noteq> []" "\<forall>v \<in> set vs. Inr v = Inr v \<and> v \<in> basic_integers basic_env"
    using max_fixnum(1) big_9_3(1) by (auto simp: vs_def basic_integers_def simp del: normal_int.simps)
  from conjunct2 [OF integer_extremes [of vs "\<lambda>v. Inr v" "\<lambda>v. v", OF this, of env]] obtain hi where
    "enum_max (compare env basic_env) vs = Inr (Some hi)" "\<forall>v \<in> set vs. integer_value v \<le> integer_value hi" by auto
  then show "\<exists>hi. enum_max (compare env basic_env) [RInt (VFix 0x7fffffff), RInt (VBig (mk_big True [9, 3]))] = Inr (Some hi)
     \<and> 12884901897 \<le> integer_value hi"
    using big_9_3(2) by (auto simp: vs_def integer_value_def simp del: int_of.simps)
qed

text \<open>
  C39. \<open>Range#each\<close> on Integers of either representation ends after the integers from the first to the last, in order; \<open>include?\<close> and \<open>cover?\<close> hold
  of an Integer exactly when it is one of them, \<open>min\<close> and \<open>max\<close> are the first and the last of them or \<open>nil\<close>.
\<close>

theorem range_integers:
  assumes "basic ce" and "int_range rg"
  shows "(\<exists>ys. range_each env ce rg = Some ys \<and> (\<forall>y \<in> set ys. normal_int y) \<and> map int_of ys = range_values rg)
    \<and> (\<forall>v. normal_int v \<longrightarrow> range_include env ce (value_range rg) (RInt v) = Inr (int_of v \<in> set (range_values rg))
        \<and> range_cover env ce (value_range rg) (RInt v) = Inr (int_of v \<in> set (range_values rg)))
    \<and> range_min env ce (value_range rg) = Inr (if range_values rg = [] then RNil else RInt (rg_beg rg))
    \<and> (if range_values rg = [] then range_max env ce super (value_range rg) = Inr RNil
       else \<exists>v. range_max env ce super (value_range rg) = Inr (RInt v) \<and> normal_int v \<and> int_of v = last (range_values rg))"
proof -
  have l: "last (range_values rg) = last_value rg" if "range_values rg \<noteq> []"
  proof -
    have le: "int_of (rg_beg rg) \<le> last_value rg" using that by (simp add: range_values_def)
    then have "range_values rg ! (length (range_values rg) - 1) = last_value rg" by (simp add: range_values_def)
    then show ?thesis using that by (simp add: last_conv_nth)
  qed
  then have "if range_values rg = [] then range_max env ce super (value_range rg) = Inr RNil
      else \<exists>v. range_max env ce super (value_range rg) = Inr (RInt v) \<and> normal_int v \<and> int_of v = last (range_values rg)"
    using range_max_integers [OF assms] range_max_last [OF assms] by simp
  then show ?thesis using range_each_exact [OF assms, of env] range_membership [OF assms] range_min_integers [OF assms] by blast
qed

theorem range_integers_witness:
  "\<forall>env :: (unit, unit) rb_env. \<exists>ys.
     range_each env basic_env \<lparr>rg_beg = VBig (mk_big True [9, 3]), rg_end = VBig (mk_big True [9, 3]), rg_excl = False\<rparr> = Some ys
     \<and> map int_of ys = [12884901897]"
proof
  fix env :: "(unit, unit) rb_env"
  define rg where "rg = \<lparr>rg_beg = VBig (mk_big True [9, 3]), rg_end = VBig (mk_big True [9, 3]), rg_excl = False\<rparr>"
  have rg: "basic basic_env" "int_range rg" "range_values rg = [12884901897]"
    using big_9_3 by (simp_all add: rg_def basic_def int_range_def range_values_def last_value_def del: normal_int.simps int_of.simps)
  from range_integers [OF rg(1,2), of env] rg(3)
  show "\<exists>ys. range_each env basic_env \<lparr>rg_beg = VBig (mk_big True [9, 3]), rg_end = VBig (mk_big True [9, 3]), rg_excl = False\<rparr> = Some ys
     \<and> map int_of ys = [12884901897]"
    unfolding rg_def by metis
qed

text \<open>
  C40. Asked with \<open>err\<close> 0 or 2, \<open>rb_range_beg_len\<close> gives a beginning inside the array and a length, at most one beyond it, so that the elements
  there are those whose index lies between the ends of the range, negative ends counted from behind; a beginning outside is
  \<open>nil\<close> or \<open>RangeError\<close>.  Asked with \<open>err\<close> 1, as for an assignment, the range from 0 to the largest \<open>long\<close> is empty: the end wraps.
\<close>

theorem range_slices:
  assumes "int (length xs) = sint len" and "length xs < 2 ^ 31 - 1" and "err = 0 \<or> err = 2"
  shows "(case rb_range_beg_len b e excl len err of
      Inr (Some (B, L)) \<Rightarrow>
        take (nat (sint L)) (drop (nat (sint B)) xs) = nths xs {i. selects (sint b) (sint e) excl (sint len) i}
        \<and> 0 \<le> sint B \<and> sint B \<le> int (length xs) \<and> 0 \<le> sint L \<and> sint B + sint L \<le> int (length xs) + 1
    | Inr None \<Rightarrow> err = 0 \<and> \<not> (0 \<le> from_behind (sint len) (sint b) \<and> from_behind (sint len) (sint b) \<le> sint len)
    | Inl r \<Rightarrow> r = RangeError \<and> err = 2 \<and> \<not> (0 \<le> from_behind (sint len) (sint b) \<and> from_behind (sint len) (sint b) \<le> sint len))
    \<and> rb_range_beg_len 0 0x7fffffff False len 1 = Inr (Some (0, 0))"
proof -
  have len: "0 \<le> sint len" "sint len < 2 ^ 31 - 1" using assms by auto
  have "case rb_range_beg_len b e excl len err of
      Inr (Some (B, L)) \<Rightarrow>
        take (nat (sint L)) (drop (nat (sint B)) xs) = nths xs {i. selects (sint b) (sint e) excl (sint len) i}
        \<and> 0 \<le> sint B \<and> sint B \<le> int (length xs) \<and> 0 \<le> sint L \<and> sint B + sint L \<le> int (length xs) + 1
    | Inr None \<Rightarrow> err = 0 \<and> \<not> (0 \<le> from_behind (sint len) (sint b) \<and> from_behind (sint len) (sint b) \<le> sint len)
    | Inl r \<Rightarrow> r = RangeError \<and> err = 2 \<and> \<not> (0 \<le> from_behind (sint len) (sint b) \<and> from_behind (sint len) (sint b) \<le> sint len)"
  proof (cases "0 \<le> from_behind (sint len) (sint b) \<and> from_behind (sint len) (sint b) \<le> sint len")
    case True
    then obtain B L where r: "rb_range_beg_len b e excl len err = Inr (Some (B, L))"
      using beg_len_in_range [OF len assms(3)] by blast
    then show ?thesis using range_selects [OF assms r] by simp
  next
    case False
    then show ?thesis using beg_len_outside [OF len assms(3) False] assms(3) by auto
  qed
  then show ?thesis using beg_len_wraps [OF len(1)] by simp
qed

theorem range_slices_witness:
  "\<exists>B L. rb_range_beg_len (- 2) 9 False 3 0 = Inr (Some (B, L)) \<and> take (nat (sint L)) (drop (nat (sint B)) [7, 8, 9 :: int]) = [8, 9]"
proof -
  have "rb_range_beg_len (- 2) 9 False 3 0 = Inr (Some (1, 3))" by (simp add: rb_range_beg_len_def)
  moreover have "nths [7, 8, 9 :: int] {i. selects (- 2) 9 False 3 i} = [8, 9]" by (simp add: nths_Cons selects_def from_behind_def)
  ultimately show ?thesis using range_slices [of "[7, 8, 9 :: int]" 3 0 "- 2" 9 False] by simp
qed

end
